(* ===== verification/Excise_Prelude.thy ===== *)
theory Excise_Prelude
  imports
    Main
    "HOL-Library.Word"
    "HOL-Library.List_Lexorder"
    "HOL-Library.Product_Lexorder"
    "HOL-Library.Sublist"
begin

text \<open>
  The shared vocabulary of the development: the machine integers of the Rust sources with their
  saturating and checked operations, results with typed errors, the little-endian and big-endian
  byte encodings, the readers that consume a byte slice from the front, and the facts about
  lexicographic order on lists that the path and key theories use.

  Rust's slices and vectors of \<open>Ord\<close> elements are ordered lexicographically, and so are its
  tuples and derived structs; \<open>List_Lexorder\<close> and \<open>Product_Lexorder\<close> give exactly these orders.
  A \<open>usize\<close> that counts the elements of a collection in memory is a \<open>nat\<close>; where the source
  saturates such a count, the model does too.
\<close>

type_synonym u8 = "8 word"
type_synonym u16 = "16 word"
type_synonym u32 = "32 word"
type_synonym u64 = "64 word"
type_synonym u128 = "128 word"
type_synonym bytes = "u8 list"
type_synonym ('e, 'a) res = "'e + 'a"

named_theorems res_simps \<open>evaluation of results with typed errors\<close>
named_theorems codec_simps \<open>round-trip laws of the byte readers\<close>

section \<open>Results\<close>

text \<open>The \<open>?\<close> operator: stop at the first error.\<close>

definition res_bind :: "('e, 'a) res \<Rightarrow> ('a \<Rightarrow> ('e, 'b) res) \<Rightarrow> ('e, 'b) res" where
  "res_bind r f = (case r of Inl e \<Rightarrow> Inl e | Inr x \<Rightarrow> f x)"

definition map_err :: "('e \<Rightarrow> 'f) \<Rightarrow> ('e, 'a) res \<Rightarrow> ('f, 'a) res" where
  "map_err g r = (case r of Inl e \<Rightarrow> Inl (g e) | Inr x \<Rightarrow> Inr x)"

definition ok_or :: "'a option \<Rightarrow> 'e \<Rightarrow> ('e, 'a) res" where
  "ok_or x e = (case x of None \<Rightarrow> Inl e | Some y \<Rightarrow> Inr y)"

definition ensure :: "bool \<Rightarrow> 'e \<Rightarrow> ('e, unit) res" where
  "ensure b e = (if b then Inr () else Inl e)"

lemma res_bind_simps [simp, res_simps]:
  "res_bind (Inl e) f = Inl e"
  "res_bind (Inr x) f = f x"
  by (simp_all add: res_bind_def)

lemma map_err_simps [simp, res_simps]:
  "map_err g (Inl e) = Inl (g e)"
  "map_err g (Inr x) = Inr x"
  by (simp_all add: map_err_def)

lemma map_err_bind: "map_err g (res_bind r k) = res_bind (map_err g r) (\<lambda>x. map_err g (k x))"
  by (simp add: map_err_def res_bind_def split: sum.split)

lemma ok_or_simps [simp, res_simps]:
  "ok_or None e = Inl e"
  "ok_or (Some y) e = Inr y"
  by (simp_all add: ok_or_def)

lemma ensure_simps [simp, res_simps]:
  "ensure True e = Inr ()"
  "ensure False e = Inl e"
  by (simp_all add: ensure_def)

lemma res_bind_Inr_iff:
  "res_bind r f = Inr y \<longleftrightarrow> (\<exists>x. r = Inr x \<and> f x = Inr y)"
  by (cases r) auto

lemma map_err_Inr_iff [simp]: "map_err g r = Inr y \<longleftrightarrow> r = Inr y"
  by (cases r) auto

lemma ok_or_Inr_iff [simp]: "ok_or x e = Inr y \<longleftrightarrow> x = Some y"
  by (cases x) auto

lemma ensure_Inr_iff [simp]: "ensure b e = Inr u \<longleftrightarrow> b"
  by (cases b) auto

section \<open>Saturating and checked arithmetic\<close>

definition sat_add :: "'a::len word \<Rightarrow> 'a word \<Rightarrow> 'a word" where
  "sat_add a b = (if unat a + unat b < 2 ^ LENGTH('a) then a + b else - 1)"

definition sat_sub :: "'a::len word \<Rightarrow> 'a word \<Rightarrow> 'a word" where
  "sat_sub a b = (if b \<le> a then a - b else 0)"

definition checked_add :: "'a::len word \<Rightarrow> 'a word \<Rightarrow> 'a word option" where
  "checked_add a b = (if unat a + unat b < 2 ^ LENGTH('a) then Some (a + b) else None)"

text \<open>\<open>u64::try_from(n).unwrap_or(u64::MAX)\<close> of a count.\<close>

definition u64_of_count :: "nat \<Rightarrow> u64" where
  "u64_of_count n = (if n < 2 ^ 64 then of_nat n else - 1)"

text \<open>A saturating sum of two counts held in a 64-bit \<open>usize\<close>.\<close>

definition usize_sat_add :: "nat \<Rightarrow> nat \<Rightarrow> nat" where
  "usize_sat_add a b = min (a + b) (2 ^ 64 - 1)"

lemma unat_minus_one_word: "unat (- 1 :: 'a::len word) = 2 ^ LENGTH('a) - 1"
  by (simp add: unsigned_minus_1_eq_mask mask_eq_exp_minus_1)

lemma unat_lt_pow [simp]: "unat (a :: 'a::len word) < 2 ^ LENGTH('a)"
  by (rule unsigned_less)

lemma unat_sat_add:
  "unat (sat_add a b) = min (unat a + unat b) (2 ^ LENGTH('a) - 1)" for a b :: "'a::len word"
proof -
  have "unat a + unat b < 2 ^ LENGTH('a) \<Longrightarrow> unat (a + b) = unat a + unat b"
    by (simp add: unat_word_ariths)
  then show ?thesis
    by (auto simp: sat_add_def unat_minus_one_word)
qed

lemma sat_add_0 [simp]: "sat_add a 0 = a" "sat_add 0 a = a"
  by (simp_all add: sat_add_def)

lemma sat_add_commute: "sat_add a b = sat_add b a"
  by (simp add: sat_add_def add.commute)

lemma sat_add_assoc: "sat_add (sat_add a b) c = sat_add a (sat_add b c)" for a b c :: "'a::len word"
proof (rule word_unat_eq_iff [THEN iffD2])
  show "unat (sat_add (sat_add a b) c) = unat (sat_add a (sat_add b c))"
    by (simp add: unat_sat_add)
qed

lemma sat_add_left_commute: "sat_add a (sat_add b c) = sat_add b (sat_add a c)"
  by (metis sat_add_assoc sat_add_commute)

lemmas sat_add_ac = sat_add_assoc sat_add_commute sat_add_left_commute

lemma sat_add_mono: "a \<le> a' \<Longrightarrow> b \<le> b' \<Longrightarrow> sat_add a b \<le> sat_add a' b'"
  for a b :: "'a::len word"
  unfolding word_le_nat_alt unat_sat_add by linarith

lemma unat_sat_sub: "unat (sat_sub a b) = unat a - unat b" for a b :: "'a::len word"
proof (cases "b \<le> a")
  case True
  then show ?thesis by (simp add: sat_sub_def unat_sub)
next
  case False
  then have "unat a \<le> unat b" by (simp add: word_le_nat_alt)
  with False show ?thesis by (simp add: sat_sub_def)
qed

lemma checked_add_Some: "checked_add a b = Some c \<longleftrightarrow> unat a + unat b < 2 ^ LENGTH('a) \<and> c = a + b"
  for a b :: "'a::len word"
  by (auto simp: checked_add_def)

lemma sat_add_1_greater: "a \<noteq> - 1 \<Longrightarrow> a < sat_add a 1" for a :: "'a::len word"
proof -
  assume "a \<noteq> - 1"
  then have "unat a \<noteq> 2 ^ LENGTH('a) - 1"
    by (metis unat_minus_one_word word_unat_eq_iff)
  with unat_lt_pow [of a] have "unat a + 1 < 2 ^ LENGTH('a)" by linarith
  then show ?thesis
    by (simp add: word_less_nat_alt unat_sat_add)
qed

lemma unat_sat_add_1_le: "unat (sat_add a 1) \<le> Suc (unat a)" for a :: "'a::len word"
proof -
  have "unat (1 :: 'a word) = 1" by simp
  then show ?thesis by (simp add: unat_sat_add)
qed

section \<open>Fixed-width integers as bytes\<close>

primrec le_bytes :: "nat \<Rightarrow> nat \<Rightarrow> bytes" where
  "le_bytes 0 n = []"
| "le_bytes (Suc k) n = of_nat (n mod 256) # le_bytes k (n div 256)"

primrec le_value :: "bytes \<Rightarrow> nat" where
  "le_value [] = 0"
| "le_value (b # bs) = unat b + 256 * le_value bs"

definition u16_le :: "u16 \<Rightarrow> bytes" where "u16_le w = le_bytes 2 (unat w)"
definition u32_le :: "u32 \<Rightarrow> bytes" where "u32_le w = le_bytes 4 (unat w)"
definition u64_le :: "u64 \<Rightarrow> bytes" where "u64_le w = le_bytes 8 (unat w)"
definition u128_le :: "u128 \<Rightarrow> bytes" where "u128_le w = le_bytes 16 (unat w)"
definition u64_be :: "u64 \<Rightarrow> bytes" where "u64_be w = rev (u64_le w)"

definition u16_from_le :: "bytes \<Rightarrow> u16" where "u16_from_le bs = of_nat (le_value bs)"
definition u32_from_le :: "bytes \<Rightarrow> u32" where "u32_from_le bs = of_nat (le_value bs)"
definition u64_from_le :: "bytes \<Rightarrow> u64" where "u64_from_le bs = of_nat (le_value bs)"
definition u128_from_le :: "bytes \<Rightarrow> u128" where "u128_from_le bs = of_nat (le_value bs)"
definition u64_from_be :: "bytes \<Rightarrow> u64" where "u64_from_be bs = u64_from_le (rev bs)"

lemma length_le_bytes [simp]: "length (le_bytes k n) = k"
  by (induction k arbitrary: n) simp_all

lemma unat_of_nat_byte [simp]: "unat (of_nat (n mod 256) :: u8) = n mod 256"
  by (simp add: unat_of_nat)

lemma le_value_le_bytes: "n < 256 ^ k \<Longrightarrow> le_value (le_bytes k n) = n"
proof (induction k arbitrary: n)
  case (Suc k)
  then have "n div 256 < 256 ^ k" by (simp add: less_mult_imp_div_less mult.commute)
  with Suc.IH show ?case by simp
qed simp

lemma le_value_bound: "le_value bs < 256 ^ length bs"
proof (induction bs)
  case (Cons b bs)
  have "unat b < 256" using unat_lt_pow [of b] by simp
  with Cons.IH have "unat b + 256 * le_value bs < 256 + 256 * (256 ^ length bs - 1)" by linarith
  also have "\<dots> = 256 * 256 ^ length bs" by (simp add: algebra_simps)
  finally show ?case by simp
qed simp

lemma le_bytes_le_value: "le_bytes (length bs) (le_value bs) = bs"
proof (induction bs)
  case (Cons b bs)
  have b: "unat b < 256" using unat_lt_pow [of b] by simp
  then have "(unat b + 256 * le_value bs) mod 256 = unat b"
    and "(unat b + 256 * le_value bs) div 256 = le_value bs" by simp_all
  then show ?case using Cons.IH by (simp del: unat_of_nat_byte)
qed simp

lemma length_int_le [simp]:
  "length (u16_le a) = 2" "length (u32_le b) = 4" "length (u64_le c) = 8" "length (u128_le d) = 16"
  "length (u64_be c) = 8"
  by (simp_all add: u16_le_def u32_le_def u64_le_def u128_le_def u64_be_def)

lemma int_from_le [simp, codec_simps]:
  "u16_from_le (u16_le a) = a"
  "u32_from_le (u32_le b) = b"
  "u64_from_le (u64_le c) = c"
  "u128_from_le (u128_le d) = d"
  "u64_from_be (u64_be c) = c"
proof -
  have "unat a < 256 ^ 2" using unat_lt_pow [of a] by simp
  then show "u16_from_le (u16_le a) = a"
    by (simp add: u16_from_le_def u16_le_def le_value_le_bytes)
  have "unat b < 256 ^ 4" using unat_lt_pow [of b] by simp
  then show "u32_from_le (u32_le b) = b"
    by (simp add: u32_from_le_def u32_le_def le_value_le_bytes)
  have "unat c < 256 ^ 8" using unat_lt_pow [of c] by simp
  then show c: "u64_from_le (u64_le c) = c"
    by (simp add: u64_from_le_def u64_le_def le_value_le_bytes)
  have "unat d < 256 ^ 16" using unat_lt_pow [of d] by simp
  then show "u128_from_le (u128_le d) = d"
    by (simp add: u128_from_le_def u128_le_def le_value_le_bytes)
  show "u64_from_be (u64_be c) = c" by (simp add: u64_from_be_def u64_be_def c)
qed

lemma int_le_from:
  "length bs = 4 \<Longrightarrow> u32_le (u32_from_le bs) = bs"
  "length bs = 8 \<Longrightarrow> u64_le (u64_from_le bs) = bs"
  "length bs = 16 \<Longrightarrow> u128_le (u128_from_le bs) = bs"
  "length bs = 8 \<Longrightarrow> u64_be (u64_from_be bs) = bs"
proof -
  show a: "length bs = 8 \<Longrightarrow> u64_le (u64_from_le bs) = bs" for bs
    using le_value_bound [of bs] le_bytes_le_value [of bs]
    by (simp add: u64_le_def u64_from_le_def unat_of_nat)
  show "length bs = 4 \<Longrightarrow> u32_le (u32_from_le bs) = bs"
    using le_value_bound [of bs] le_bytes_le_value [of bs]
    by (simp add: u32_le_def u32_from_le_def unat_of_nat)
  show "length bs = 16 \<Longrightarrow> u128_le (u128_from_le bs) = bs"
    using le_value_bound [of bs] le_bytes_le_value [of bs]
    by (simp add: u128_le_def u128_from_le_def unat_of_nat)
  show "length bs = 8 \<Longrightarrow> u64_be (u64_from_be bs) = bs"
    by (simp add: u64_be_def u64_from_be_def a)
qed

lemma int_le_inject [simp]:
  "u32_le x = u32_le x' \<longleftrightarrow> x = x'"
  "u64_le y = u64_le y' \<longleftrightarrow> y = y'"
  "u128_le z = u128_le z' \<longleftrightarrow> z = z'"
  by (metis int_from_le)+

section \<open>Reading from the front of a slice\<close>

text \<open>
  Every codec reads a mutable slice from its front: \<open>take_u8\<close>, \<open>take_u32\<close>, \<open>take_u64\<close>,
  \<open>take_u128\<close>, \<open>take_bytes\<close>, each failing with the codec's own malformed error when too few
  bytes remain. The readers return the value and the remaining slice.
\<close>

definition take_bytes :: "'e \<Rightarrow> nat \<Rightarrow> bytes \<Rightarrow> ('e, bytes \<times> bytes) res" where
  "take_bytes e n input = (if length input < n then Inl e else Inr (take n input, drop n input))"

definition take_u8 :: "'e \<Rightarrow> bytes \<Rightarrow> ('e, u8 \<times> bytes) res" where
  "take_u8 e input = (case input of [] \<Rightarrow> Inl e | b # rest \<Rightarrow> Inr (b, rest))"

definition take_u32 :: "'e \<Rightarrow> bytes \<Rightarrow> ('e, u32 \<times> bytes) res" where
  "take_u32 e input = res_bind (take_bytes e 4 input) (\<lambda>(bs, rest). Inr (u32_from_le bs, rest))"

definition take_u64 :: "'e \<Rightarrow> bytes \<Rightarrow> ('e, u64 \<times> bytes) res" where
  "take_u64 e input = res_bind (take_bytes e 8 input) (\<lambda>(bs, rest). Inr (u64_from_le bs, rest))"

definition take_u128 :: "'e \<Rightarrow> bytes \<Rightarrow> ('e, u128 \<times> bytes) res" where
  "take_u128 e input = res_bind (take_bytes e 16 input) (\<lambda>(bs, rest). Inr (u128_from_le bs, rest))"

text \<open>\<open>cond.then(|| take(input)).transpose()?\<close>\<close>

definition take_when :: "bool \<Rightarrow> (bytes \<Rightarrow> ('e, 'a \<times> bytes) res) \<Rightarrow> bytes \<Rightarrow> ('e, 'a option \<times> bytes) res" where
  "take_when b rd input =
     (if b then res_bind (rd input) (\<lambda>(x, rest). Inr (Some x, rest)) else Inr (None, input))"

lemma take_bytes_append [simp, codec_simps]:
  "n = length xs \<Longrightarrow> take_bytes e n (xs @ rest) = Inr (xs, rest)"
  by (simp add: take_bytes_def)

lemma take_u8_simps [simp, codec_simps]:
  "take_u8 e [] = Inl e"
  "take_u8 e (b # rest) = Inr (b, rest)"
  by (simp_all add: take_u8_def)

lemma take_int_append [simp, codec_simps]:
  "take_u32 e (u32_le a @ rest) = Inr (a, rest)"
  "take_u64 e (u64_le b @ rest) = Inr (b, rest)"
  "take_u128 e (u128_le c @ rest) = Inr (c, rest)"
  by (simp_all add: take_u32_def take_u64_def take_u128_def)

lemma take_int_exact [simp]:
  "take_u32 e (u32_le a) = Inr (a, [])" "take_u64 e (u64_le b) = Inr (b, [])" "take_u128 e (u128_le c) = Inr (c, [])"
  using take_int_append [of e _ "[]"] by simp_all

lemma take_when_simps [simp, codec_simps]:
  "take_when False rd input = Inr (None, input)"
  "take_when True rd input = res_bind (rd input) (\<lambda>(x, rest). Inr (Some x, rest))"
  by (simp_all add: take_when_def)

lemma take_bytes_Inr_iff:
  "take_bytes e n input = Inr (xs, rest) \<longleftrightarrow> input = xs @ rest \<and> length xs = n"
  by (auto simp: take_bytes_def)

lemma take_u8_Inr_iff: "take_u8 e input = Inr (b, rest) \<longleftrightarrow> input = b # rest"
  by (cases input) auto

lemma take_int_Inr_iff:
  "take_u32 e input = Inr (a, rest) \<longleftrightarrow> input = u32_le a @ rest"
  "take_u64 e input = Inr (b, rest) \<longleftrightarrow> input = u64_le b @ rest"
  "take_u128 e input = Inr (c, rest) \<longleftrightarrow> input = u128_le c @ rest"
  by (auto simp: take_u32_def take_u64_def take_u128_def res_bind_Inr_iff take_bytes_Inr_iff
      int_le_from)

text \<open>The optional field: its bytes when present, nothing otherwise.\<close>

definition opt_bytes :: "('a \<Rightarrow> bytes) \<Rightarrow> 'a option \<Rightarrow> bytes" where
  "opt_bytes enc x = (case x of None \<Rightarrow> [] | Some y \<Rightarrow> enc y)"

lemma opt_bytes_simps [simp]:
  "opt_bytes enc None = []"
  "opt_bytes enc (Some y) = enc y"
  by (simp_all add: opt_bytes_def)

lemma take_when_opt [simp, codec_simps]:
  "take_when (x \<noteq> None) (take_u64 e) (opt_bytes u64_le x @ rest) = Inr (x, rest)"
  "take_when (y \<noteq> None) (take_u128 e) (opt_bytes u128_le y @ rest) = Inr (y, rest)"
  by (cases x; simp) (cases y; simp)

section \<open>Orderings\<close>

text \<open>\<open>std::cmp::Ordering\<close>, \<open>Ord::cmp\<close> and \<open>Ordering::then_with\<close>.\<close>

datatype ordering = OrdLess | OrdEqual | OrdGreater

definition cmp :: "'a::linorder \<Rightarrow> 'a \<Rightarrow> ordering" where
  "cmp x y = (if x < y then OrdLess else if x = y then OrdEqual else OrdGreater)"

definition then_with :: "ordering \<Rightarrow> ordering \<Rightarrow> ordering" where
  "then_with a b = (if a = OrdEqual then b else a)"

lemma cmp_iff [simp]:
  "cmp x y = OrdLess \<longleftrightarrow> x < y"
  "cmp x y = OrdEqual \<longleftrightarrow> x = y"
  "cmp x y = OrdGreater \<longleftrightarrow> y < x"
  by (auto simp: cmp_def)

lemma cmp_refl [simp]: "cmp x x = OrdEqual"
  by simp

lemma then_with_simps [simp]:
  "then_with OrdEqual b = b"
  "then_with OrdLess b = OrdLess"
  "then_with OrdGreater b = OrdGreater"
  by (simp_all add: then_with_def)

lemma then_with_assoc: "then_with (then_with a b) c = then_with a (then_with b c)"
  by (cases a) simp_all

lemma then_with_neq: "a \<noteq> OrdEqual \<Longrightarrow> then_with a b = a"
  by (cases a) simp_all

text \<open>Lexicographic comparison of equal-length blocks followed by a tail.\<close>

lemma cmp_Cons: "cmp (x # xs) (y # ys) = then_with (cmp x y) (cmp xs ys)"
  by (cases "x = y"; cases "x < y") (auto simp: cmp_def then_with_def)

lemma cmp_append_same_length:
  "length xs = length ys \<Longrightarrow> cmp (xs @ us) (ys @ vs) = then_with (cmp xs ys) (cmp us vs)"
  by (induction xs ys rule: list_induct2) (simp_all add: cmp_Cons then_with_assoc)

lemma cmp_Nil: "cmp [] (y # ys) = OrdLess" "cmp (y # ys) [] = OrdGreater"
  by (simp_all add: cmp_def)

lemma prefix_le_list: "prefix xs ys \<Longrightarrow> xs \<le> (ys :: 'a::linorder list)"
proof (induction xs arbitrary: ys)
  case (Cons x xs)
  then show ?case by (cases ys) auto
qed simp

text \<open>
  Above a prefix, the lists that extend it come first: once a larger list does not, none after it
  does.
\<close>

lemma prefix_contiguous:
  "xs \<le> ys \<Longrightarrow> ys \<le> zs \<Longrightarrow> prefix xs zs \<Longrightarrow> prefix xs (ys :: 'a::linorder list)"
proof (induction xs arbitrary: ys zs)
  case (Cons x xs)
  then obtain z where zs: "zs = x # z" and xz: "prefix xs z" by (cases zs) auto
  from Cons.prems(1) obtain y ys' where ys: "ys = y # ys'" by (cases ys) auto
  from Cons.prems zs ys have "x = y" "xs \<le> ys'" "ys' \<le> z" by auto
  with Cons.IH xz ys show ?case by auto
qed simp

section \<open>Lists\<close>

lemma find_Some_in: "List.find P xs = Some x \<Longrightarrow> x \<in> set xs \<and> P x"
  by (induction xs) (auto split: if_splits)

lemma find_None_iff': "List.find P xs = None \<longleftrightarrow> (\<forall>x \<in> set xs. \<not> P x)"
  by (auto simp: find_None_iff)

lemma find_sorted_least:
  "sorted_wrt (<) xs \<Longrightarrow> List.find P xs = Some x \<Longrightarrow> y \<in> set xs \<Longrightarrow> P y \<Longrightarrow> x \<le> (y :: 'a::linorder)"
  by (induction xs) (auto split: if_splits)

lemma find_filter: "List.find P (filter Q xs) = List.find (\<lambda>x. Q x \<and> P x) xs"
  by (induction xs) auto

text \<open>The element at the first position satisfying a predicate, removed.\<close>

fun remove_first :: "('a \<Rightarrow> bool) \<Rightarrow> 'a list \<Rightarrow> 'a list" where
  "remove_first P [] = []"
| "remove_first P (x # xs) = (if P x then xs else x # remove_first P xs)"

lemma set_remove_first_subset: "set (remove_first P xs) \<subseteq> set xs"
  by (induction xs) auto

lemma distinct_remove_first: "distinct xs \<Longrightarrow> distinct (remove_first P xs)"
  by (induction xs) (use set_remove_first_subset in fastforce)+

lemma remove_first_notin: "distinct xs \<Longrightarrow> x \<notin> set (remove_first (\<lambda>y. y = x) xs)"
  by (induction xs) auto

lemma length_remove_first_le: "length (remove_first P xs) \<le> length xs"
  by (induction xs) auto

end
