(* ===== verification/Ordered_Map.thy ===== *)
theory Ordered_Map
  imports Excise_Prelude
begin

text \<open>
  The ordered collections of the Rust standard library as the sources use them: a \<open>BTreeSet\<close> is
  the strictly increasing list of its elements and a \<open>BTreeMap\<close> the list of its entries with
  strictly increasing keys, which is what their iterators and \<open>range\<close> yield. The representation is
  canonical, so two collections are equal exactly when they hold the same elements. The interface
  the clients rely on is the locale \<open>ordered_map\<close> at the end, interpreted on these operations.
\<close>

section \<open>Ordered sets\<close>

definition bset_insert :: "'a::linorder \<Rightarrow> 'a list \<Rightarrow> 'a list" where
  "bset_insert x s = filter (\<lambda>y. y < x) s @ x # filter (\<lambda>y. x < y) s"

definition bset_remove :: "'a \<Rightarrow> 'a list \<Rightarrow> 'a list" where
  "bset_remove x s = filter (\<lambda>y. y \<noteq> x) s"

abbreviation bset_wf :: "'a::linorder list \<Rightarrow> bool" where
  "bset_wf s \<equiv> sorted_wrt (<) s"

lemma set_bset_insert [simp]: "set (bset_insert x s) = insert x (set s)"
  by (auto simp: bset_insert_def)

lemma set_bset_remove [simp]: "set (bset_remove x s) = set s - {x}"
  by (auto simp: bset_remove_def)

lemma bset_wf_insert [simp]: "bset_wf s \<Longrightarrow> bset_wf (bset_insert x s)"
  by (fastforce simp: bset_insert_def sorted_wrt_append sorted_wrt_filter)

lemma bset_wf_remove [simp]: "bset_wf s \<Longrightarrow> bset_wf (bset_remove x s)"
  by (simp add: bset_remove_def sorted_wrt_filter)

lemma bset_insert_not_Nil [simp]: "bset_insert x s \<noteq> []"
  by (simp add: bset_insert_def)

lemma bset_ext: "bset_wf s \<Longrightarrow> bset_wf t \<Longrightarrow> set s = set t \<Longrightarrow> s = t"
  by (metis strict_sorted_equal)

lemma bset_wf_distinct: "bset_wf s \<Longrightarrow> distinct (s :: 'a::linorder list)"
  by (simp add: strict_sorted_iff)

section \<open>Ordered maps\<close>

type_synonym ('k, 'v) omap = "('k \<times> 'v) list"

definition om_insert :: "'k::linorder \<Rightarrow> 'v \<Rightarrow> ('k, 'v) omap \<Rightarrow> ('k, 'v) omap" where
  "om_insert k v m = filter (\<lambda>e. fst e < k) m @ (k, v) # filter (\<lambda>e. k < fst e) m"

definition om_remove :: "'k \<Rightarrow> ('k, 'v) omap \<Rightarrow> ('k, 'v) omap" where
  "om_remove k m = filter (\<lambda>e. fst e \<noteq> k) m"

definition om_get :: "('k, 'v) omap \<Rightarrow> 'k \<Rightarrow> 'v option" where
  "om_get m k = map_of m k"

text \<open>\<open>range(from..)\<close>\<close>

definition om_range_from :: "'k::linorder \<Rightarrow> ('k, 'v) omap \<Rightarrow> ('k, 'v) omap" where
  "om_range_from k m = filter (\<lambda>e. k \<le> fst e) m"

definition om_wf :: "('k::linorder, 'v) omap \<Rightarrow> bool" where
  "om_wf m \<longleftrightarrow> sorted_wrt (<) (map fst m)"

lemma om_wf_Nil [simp]: "om_wf []"
  by (simp add: om_wf_def)

lemma om_wf_iff: "om_wf m \<longleftrightarrow> sorted_wrt (\<lambda>a b. fst a < fst b) m"
  by (simp add: om_wf_def sorted_wrt_map)

lemma om_wf_distinct: "om_wf m \<Longrightarrow> distinct (map fst m)"
  by (simp add: om_wf_def strict_sorted_iff)

lemma om_wf_filter [simp]: "om_wf m \<Longrightarrow> om_wf (filter P m)"
  by (simp add: om_wf_iff sorted_wrt_filter)

lemma om_wf_insert [simp]: "om_wf m \<Longrightarrow> om_wf (om_insert k v m)"
  by (fastforce simp: om_insert_def om_wf_iff sorted_wrt_append sorted_wrt_filter)

lemma om_wf_remove [simp]: "om_wf m \<Longrightarrow> om_wf (om_remove k m)"
  by (simp add: om_remove_def)

lemma om_insert_not_Nil [simp]: "om_insert k v m \<noteq> []"
  by (simp add: om_insert_def)

lemma set_om_insert: "set (om_insert k v m) = insert (k, v) {e \<in> set m. fst e \<noteq> k}"
  by (auto simp: om_insert_def)

lemma set_om_remove: "set (om_remove k m) = {e \<in> set m. fst e \<noteq> k}"
  by (auto simp: om_remove_def)

lemma om_get_Nil [simp]: "om_get [] k = None"
  by (simp add: om_get_def)

lemma om_get_iff: "om_wf m \<Longrightarrow> om_get m k = Some v \<longleftrightarrow> (k, v) \<in> set m"
  by (simp add: om_get_def om_wf_distinct)

lemma om_get_mem: "om_get m k = Some v \<Longrightarrow> (k, v) \<in> set m"
  by (simp add: om_get_def map_of_SomeD)

lemma om_get_None_iff: "om_get m k = None \<longleftrightarrow> k \<notin> fst ` set m"
  by (simp add: om_get_def map_of_eq_None_iff)

lemma om_get_insert: "om_wf m \<Longrightarrow> om_get (om_insert k v m) k' = (if k' = k then Some v else om_get m k')"
proof (cases "k' = k")
  case True
  assume "om_wf m"
  then have "om_wf (om_insert k v m)" by simp
  moreover have "(k, v) \<in> set (om_insert k v m)" by (simp add: set_om_insert)
  ultimately show ?thesis using True by (simp add: om_get_iff)
next
  case False
  assume wf: "om_wf m"
  then have "om_wf (om_insert k v m)" by simp
  then have "om_get (om_insert k v m) k' = Some w \<longleftrightarrow> om_get m k' = Some w" for w
    using False wf by (simp add: om_get_iff set_om_insert)
  then show ?thesis using False by (metis not_None_eq)
qed

lemma om_get_remove [simp]: "om_get (om_remove k m) k' = (if k' = k then None else om_get m k')"
  by (induction m) (auto simp: om_get_def om_remove_def)

lemma om_get_filter: "om_wf m \<Longrightarrow>
    om_get (filter P m) k = (case om_get m k of None \<Rightarrow> None | Some v \<Rightarrow> if P (k, v) then Some v else None)"
proof -
  assume wf: "om_wf m"
  have eq: "om_get (filter P m) k = Some v \<longleftrightarrow> om_get m k = Some v \<and> P (k, v)" for v
    using wf by (auto simp: om_get_iff)
  show ?thesis
  proof (cases "om_get (filter P m) k")
    case None
    with eq show ?thesis by (cases "om_get m k") simp_all
  next
    case (Some v)
    with eq have "om_get m k = Some v \<and> P (k, v)" by blast
    with Some show ?thesis by simp
  qed
qed

lemma om_ext:
  assumes m: "om_wf m" and n: "om_wf n" and eq: "\<And>k. om_get m k = om_get n k"
  shows "m = n"
proof -
  have same: "set m = set n"
    using m n eq by (auto simp flip: om_get_iff)
  have "inj_on fst (set m \<union> set n)"
    using om_wf_distinct [OF m] same by (simp add: distinct_map)
  moreover have "sorted (map fst m)" "sorted (map fst n)"
    using m n unfolding om_wf_def strict_sorted_iff by blast+
  ultimately show ?thesis
    using om_wf_distinct [OF m] om_wf_distinct [OF n] same map_sorted_distinct_set_unique by blast
qed

lemma om_insert_remove_swap:
  shows "om_insert k v (om_remove k m) = om_insert k v m"
proof -
  have "filter (\<lambda>e. fst e < k) (om_remove k m) = filter (\<lambda>e. fst e < k) m"
    and "filter (\<lambda>e. k < fst e) (om_remove k m) = filter (\<lambda>e. k < fst e) m"
    by (auto simp: om_remove_def intro: filter_cong)
  then show ?thesis by (simp add: om_insert_def)
qed

lemma om_keys_remove: "fst ` set (om_remove k m) = fst ` set m - {k}"
  by (auto simp: set_om_remove)

lemma om_keys_insert: "fst ` set (om_insert k v m) = insert k (fst ` set m)"
  by (auto simp: set_om_insert image_iff)

lemma length_om_remove:
  assumes "om_wf m"
  shows "length (om_remove k m) = (if om_get m k = None then length m else length m - 1)"
proof -
  have d: "distinct m" using om_wf_distinct [OF assms] by (simp add: distinct_map)
  have "length (om_remove k m) = card (set (om_remove k m))"
    using d by (metis distinct_card distinct_filter om_remove_def)
  also have "\<dots> = (if om_get m k = None then length m else length m - 1)"
  proof (cases "om_get m k")
    case None
    then have "set (om_remove k m) = set m" by (auto simp: set_om_remove om_get_None_iff image_iff)
    then show ?thesis using None d by (simp add: distinct_card)
  next
    case (Some v)
    have "set (om_remove k m) = set m - {(k, v)}"
      using Some assms by (auto simp: set_om_remove om_get_iff) (metis om_get_iff option.inject assms)
    moreover have "(k, v) \<in> set m" using Some by (rule om_get_mem)
    ultimately show ?thesis using Some d by (simp add: distinct_card)
  qed
  finally show ?thesis .
qed

lemma om_removed_count:
  assumes "om_wf m"
  shows "length m - length (om_remove k m) = (if om_get m k = None then 0 else 1)"
proof -
  have "om_get m k \<noteq> None \<Longrightarrow> \<exists>n. length m = Suc n" by (cases m) auto
  with length_om_remove [OF assms, of k] show ?thesis by (cases "om_get m k = None") auto
qed

lemma length_om_insert:
  assumes "om_wf m"
  shows "length (om_insert k v m) = (if om_get m k = None then Suc (length m) else length m)"
proof -
  have "length (om_insert k v m) = Suc (length (om_remove k m))"
    by (induction m) (auto simp: om_insert_def om_remove_def)
  moreover have "om_get m k \<noteq> None \<Longrightarrow> length m > 0" by (cases m) auto
  ultimately show ?thesis using length_om_remove [OF assms, of k] by auto
qed

section \<open>The interface of an ordered map\<close>

text \<open>
  What the ready queues and the coordinator rely on: lookups after every update, and iteration in
  key order of exactly the stored entries.
\<close>

locale ordered_map =
  fixes insert :: "'k::linorder \<Rightarrow> 'v \<Rightarrow> 'm \<Rightarrow> 'm"
    and remove :: "'k \<Rightarrow> 'm \<Rightarrow> 'm"
    and get :: "'m \<Rightarrow> 'k \<Rightarrow> 'v option"
    and entries :: "'m \<Rightarrow> ('k \<times> 'v) list"
    and invar :: "'m \<Rightarrow> bool"
  assumes get_insert: "invar m \<Longrightarrow> get (insert k v m) = (get m)(k \<mapsto> v)"
    and get_remove: "invar m \<Longrightarrow> get (remove k m) = (get m)(k := None)"
    and entries_get: "invar m \<Longrightarrow> get m k = Some v \<longleftrightarrow> (k, v) \<in> set (entries m)"
    and entries_sorted: "invar m \<Longrightarrow> sorted_wrt (<) (map fst (entries m))"
    and invar_insert: "invar m \<Longrightarrow> invar (insert k v m)"
    and invar_remove: "invar m \<Longrightarrow> invar (remove k m)"
begin

lemma dom_insert: "invar m \<Longrightarrow> dom (get (insert k v m)) = Set.insert k (dom (get m))"
  by (simp add: get_insert)

lemma insert_remove_get: "invar m \<Longrightarrow> get (insert k v (remove k m)) = get (insert k v m)"
  by (simp add: get_insert get_remove invar_remove)

lemma remove_absent: "invar m \<Longrightarrow> get m k = None \<Longrightarrow> get (remove k m) = get m"
  by (simp add: get_remove fun_upd_idem)

lemma least_entry:
  "invar m \<Longrightarrow> entries m = (k, v) # rest \<Longrightarrow> get m k' = Some v' \<Longrightarrow> k \<le> k'"
  using entries_sorted [of m] entries_get [of m k' v'] by force

end

interpretation bt: ordered_map om_insert om_remove om_get "\<lambda>m. m" om_wf
  by unfold_locales
    (auto simp: fun_eq_iff om_get_insert om_get_iff om_wf_def [symmetric])

end
