(* ===== verification/Relative_Path.thy ===== *)
theory Relative_Path
  imports Ordered_Map
begin

text \<open>
  Root-relative paths (\<open>RelativePath\<close> of \<open>src/scan_coordinator_core.rs\<close>) and the part of
  \<open>std::path\<close> they are built on, for Unix, where a native string is a sequence of bytes: how a path
  splits into components, how components join, and component-wise equality and prefix of paths.
\<close>

section \<open>Native paths\<close>

type_synonym os_string = bytes

text \<open>The Windows-only \<open>Prefix\<close> component does not occur on Unix.\<close>

datatype component = RootDir | CurDir | ParentDir | Normal os_string

abbreviation sep :: u8 where "sep \<equiv> 47"
abbreviation dot :: u8 where "dot \<equiv> 46"

text \<open>The maximal separator-free segments of a path, empty ones included.\<close>

fun segments :: "bytes \<Rightarrow> bytes list" where
  "segments [] = [[]]"
| "segments (b # bs) =
     (if b = sep then [] # segments bs
      else case segments bs of [] \<Rightarrow> [[b]] | s # ss \<Rightarrow> (b # s) # ss)"

text \<open>
  \<open>Path::components\<close>: a leading separator is the root; repeated separators and \<open>.\<close> segments are
  dropped, but a \<open>.\<close> that begins a relative path is kept.
\<close>

definition segment_component :: "bytes \<Rightarrow> component list" where
  "segment_component s =
     (if s = [] \<or> s = [dot] then [] else if s = [dot, dot] then [ParentDir] else [Normal s])"

definition components :: "bytes \<Rightarrow> component list" where
  "components path =
     (case path of [] \<Rightarrow> []
      | b # bs \<Rightarrow>
          if b = sep then RootDir # concat (map segment_component (segments bs))
          else (if hd (segments path) = [dot] then [CurDir] else [])
               @ concat (map segment_component (segments path)))"

text \<open>\<open>PathBuf::push\<close> (an absolute argument replaces the buffer), \<open>Path\<close> equality and prefix.\<close>

definition has_root :: "bytes \<Rightarrow> bool" where
  "has_root path = (case path of [] \<Rightarrow> False | b # _ \<Rightarrow> b = sep)"

definition path_push :: "bytes \<Rightarrow> bytes \<Rightarrow> bytes" where
  "path_push path arg =
     (if has_root arg then arg
      else if path = [] \<or> last path = sep then path @ arg
      else path @ sep # arg)"

definition path_eq :: "bytes \<Rightarrow> bytes \<Rightarrow> bool" where
  "path_eq a b \<longleftrightarrow> components a = components b"

definition path_starts_with :: "bytes \<Rightarrow> bytes \<Rightarrow> bool" where
  "path_starts_with a b \<longleftrightarrow> prefix (components b) (components a)"

lemma segments_not_Nil [simp]: "segments bs \<noteq> []"
  by (induction bs) (auto split: list.splits)

lemma segments_plain: "sep \<notin> set c \<Longrightarrow> segments c = [c]"
  by (induction c) auto

lemma segments_sep: "sep \<notin> set c \<Longrightarrow> segments (c @ sep # rest) = c # segments rest"
  by (induction c) auto

lemma segments_append_sep: "segments (xs @ sep # ys) = segments xs @ segments ys"
proof (induction xs)
  case (Cons b xs)
  then show ?case by (cases "segments xs") auto
qed simp

section \<open>Relative paths\<close>

type_synonym relative_path = "os_string list"

datatype relative_path_error = NotRelative

text \<open>A valid component is exactly one normal component that spells the whole string.\<close>

definition valid_component :: "os_string \<Rightarrow> bool" where
  "valid_component c \<longleftrightarrow> components c = [Normal c]"

definition from_components :: "os_string list \<Rightarrow> (relative_path_error, relative_path) res" where
  "from_components cs = (if \<exists>c \<in> set cs. \<not> valid_component c then Inl NotRelative else Inr cs)"

fun collect_components :: "component list \<Rightarrow> (relative_path_error, os_string list) res" where
  "collect_components [] = Inr []"
| "collect_components (CurDir # cs) = collect_components cs"
| "collect_components (Normal name # cs) =
     res_bind (collect_components cs) (\<lambda>rest. Inr (name # rest))"
| "collect_components (ParentDir # cs) = Inl NotRelative"
| "collect_components (RootDir # cs) = Inl NotRelative"

definition from_path :: "bytes \<Rightarrow> (relative_path_error, relative_path) res" where
  "from_path path = res_bind (collect_components (components path)) from_components"

definition rp_root :: relative_path where
  "rp_root = []"

definition is_root :: "relative_path \<Rightarrow> bool" where
  "is_root p \<longleftrightarrow> p = []"

definition depth :: "relative_path \<Rightarrow> nat" where
  "depth p = length p"

text \<open>\<open>self.0.starts_with(&prefix.0)\<close>: a prefix of components, not of text.\<close>

definition starts_with :: "relative_path \<Rightarrow> relative_path \<Rightarrow> bool" where
  "starts_with p pre \<longleftrightarrow> take (length pre) p = pre"

definition is_direct_child_of :: "relative_path \<Rightarrow> relative_path \<Rightarrow> bool" where
  "is_direct_child_of p parent \<longleftrightarrow> depth p = usize_sat_add (depth parent) 1 \<and> starts_with p parent"

definition to_path_buf :: "relative_path \<Rightarrow> bytes" where
  "to_path_buf p = foldl path_push [] p"

text \<open>\<open>impl Ord for RelativePath\<close>: the first differing component decides.\<close>

fun rp_cmp :: "relative_path \<Rightarrow> relative_path \<Rightarrow> ordering" where
  "rp_cmp (l # ls) (r # rs) = (if cmp l r \<noteq> OrdEqual then cmp l r else rp_cmp ls rs)"
| "rp_cmp [] (r # rs) = OrdLess"
| "rp_cmp (l # ls) [] = OrdGreater"
| "rp_cmp [] [] = OrdEqual"

definition relative_path_ok :: "relative_path \<Rightarrow> bool" where
  "relative_path_ok p \<longleftrightarrow> (\<forall>c \<in> set p. valid_component c)"

subsection \<open>Components\<close>

lemma concat_segment_component_Normal:
  "concat (map segment_component ss) = [Normal s] \<Longrightarrow> s \<in> set ss"
proof (induction ss)
  case (Cons t ss)
  show ?case
  proof (cases "segment_component t = []")
    case True
    with Cons show ?thesis by simp
  next
    case False
    then have "segment_component t = [ParentDir] \<or> segment_component t = [Normal t]"
      by (auto simp: segment_component_def split: if_splits)
    with Cons.prems show ?thesis by auto
  qed
qed simp

lemma segments_sep_free: "s \<in> set (segments bs) \<Longrightarrow> sep \<notin> set s"
  by (induction bs arbitrary: s) (auto split: if_splits list.splits)

lemma valid_component_iff:
  "valid_component c \<longleftrightarrow> c \<noteq> [] \<and> sep \<notin> set c \<and> c \<noteq> [dot] \<and> c \<noteq> [dot, dot]"
proof
  assume v: "valid_component c"
  then have ne: "c \<noteq> []" by (auto simp: valid_component_def components_def)
  then obtain b bs where c: "c = b # bs" by (cases c) auto
  from v have nsep: "b \<noteq> sep" by (auto simp: c valid_component_def components_def)
  have cs: "(if hd (segments c) = [dot] then [CurDir] else []) @
      concat (map segment_component (segments c)) = [Normal c]"
    using v nsep by (simp add: c valid_component_def components_def)
  then have "concat (map segment_component (segments c)) = [Normal c]"
    by (cases "hd (segments c) = [dot]") simp_all
  then have "sep \<notin> set c" by (blast dest: concat_segment_component_Normal segments_sep_free)
  moreover from this have "segments c = [c]" by (rule segments_plain)
  ultimately show "c \<noteq> [] \<and> sep \<notin> set c \<and> c \<noteq> [dot] \<and> c \<noteq> [dot, dot]"
    using cs ne by (auto simp: segment_component_def)
next
  assume *: "c \<noteq> [] \<and> sep \<notin> set c \<and> c \<noteq> [dot] \<and> c \<noteq> [dot, dot]"
  then have "segments c = [c]" by (simp add: segments_plain)
  with * show "valid_component c"
    by (auto simp: valid_component_def components_def segment_component_def split: list.splits)
qed

lemma valid_component_segment: "valid_component c \<Longrightarrow> segment_component c = [Normal c]"
  by (simp add: valid_component_iff segment_component_def)

lemma from_components_ok: "relative_path_ok p \<Longrightarrow> from_components p = Inr p"
  by (auto simp: from_components_def relative_path_ok_def)

lemma from_components_Inr: "from_components cs = Inr p \<longleftrightarrow> p = cs \<and> relative_path_ok cs"
  by (auto simp: from_components_def relative_path_ok_def)

lemma relative_path_ok_simps [simp]:
  "relative_path_ok []"
  "relative_path_ok (c # p) \<longleftrightarrow> valid_component c \<and> relative_path_ok p"
  "relative_path_ok (p @ q) \<longleftrightarrow> relative_path_ok p \<and> relative_path_ok q"
  by (auto simp: relative_path_ok_def)

lemma relative_path_ok_take: "relative_path_ok p \<Longrightarrow> relative_path_ok (take n p)"
  by (auto simp: relative_path_ok_def dest: in_set_takeD)

lemma relative_path_ok_root [simp]: "relative_path_ok rp_root"
  by (simp add: rp_root_def)

subsection \<open>Prefix and order\<close>

lemma starts_with_prefix: "starts_with p pre \<longleftrightarrow> prefix pre p"
  by (metis append_take_drop_id prefixI prefix_def append_eq_conv_conj starts_with_def)

lemma starts_with_root [simp]: "starts_with p []"
  by (simp add: starts_with_prefix)

lemma starts_with_refl [simp]: "starts_with p p"
  by (simp add: starts_with_prefix)

lemma rp_cmp_cmp: "rp_cmp p q = cmp p q"
  by (induction p q rule: rp_cmp.induct) (simp_all add: cmp_Cons cmp_Nil then_with_neq)

text \<open>A Rust vector holds at most \<open>isize::MAX\<close> bytes, so a path never reaches this depth.\<close>

abbreviation vec_sized :: "'a list \<Rightarrow> bool" where
  "vec_sized xs \<equiv> length xs < 2 ^ 63"

lemma direct_child_iff:
  assumes "vec_sized parent"
  shows "is_direct_child_of p parent \<longleftrightarrow> (\<exists>c. p = parent @ [c])"
proof -
  have "is_direct_child_of p parent \<longleftrightarrow> length p = Suc (length parent) \<and> prefix parent p"
    using assms by (simp add: is_direct_child_of_def usize_sat_add_def depth_def starts_with_prefix)
  also have "\<dots> \<longleftrightarrow> (\<exists>q. p = parent @ q \<and> length q = 1)" by (auto simp: prefix_def)
  finally show ?thesis by (auto simp: length_Suc_conv)
qed

subsection \<open>Paths as text\<close>

lemma valid_component_not_rooted: "valid_component c \<Longrightarrow> \<not> has_root c"
  by (auto simp: valid_component_iff has_root_def split: list.splits)

lemma segments_push:
  assumes "path \<noteq> []" "last path \<noteq> sep" "valid_component c"
  shows "segments (path_push path c) = segments path @ [c]"
  using assms
  by (simp add: path_push_def valid_component_not_rooted segments_append_sep)
    (simp add: valid_component_iff segments_plain)

lemma to_path_buf_segments:
  assumes "relative_path_ok p" "p \<noteq> []"
  shows "to_path_buf p \<noteq> [] \<and> last (to_path_buf p) \<noteq> sep \<and> segments (to_path_buf p) = p"
  using assms
proof (induction p rule: rev_induct)
  case (snoc c p)
  then have c: "valid_component c" and p: "relative_path_ok p" by simp_all
  have last_c: "last c \<noteq> sep" "c \<noteq> []" "sep \<notin> set c" using c last_in_set [of c]
    by (metis valid_component_iff)+
  show ?case
  proof (cases "p = []")
    case True
    with c last_c show ?thesis
      by (simp add: to_path_buf_def path_push_def valid_component_not_rooted segments_plain)
  next
    case False
    with snoc.IH p have IH: "to_path_buf p \<noteq> []" "last (to_path_buf p) \<noteq> sep" "segments (to_path_buf p) = p"
      by simp_all
    have push: "to_path_buf (p @ [c]) = path_push (to_path_buf p) c" by (simp add: to_path_buf_def)
    have "path_push (to_path_buf p) c = to_path_buf p @ sep # c"
      using IH c by (simp add: path_push_def valid_component_not_rooted)
    with push IH c last_c show ?thesis by (simp add: segments_append_sep segments_plain)
  qed
qed simp

lemma concat_segment_components:
  "relative_path_ok p \<Longrightarrow> concat (map segment_component p) = map Normal p"
  by (induction p) (simp_all add: valid_component_segment)

lemma components_to_path_buf:
  assumes "relative_path_ok p"
  shows "components (to_path_buf p) = map Normal p"
proof (cases "p = []")
  case True
  then show ?thesis by (simp add: to_path_buf_def components_def)
next
  case False
  then obtain c cs where p: "p = c # cs" by (cases p) auto
  obtain b bs where buf: "to_path_buf p = b # bs"
    using to_path_buf_segments [OF assms False] by (cases "to_path_buf p") auto
  have seg: "segments (to_path_buf p) = p" using to_path_buf_segments [OF assms False] by simp
  have vc: "valid_component c" using assms p by simp
  have "b \<noteq> sep"
  proof
    assume "b = sep"
    with seg buf have "hd p = []" by (metis list.sel(1) segments.simps(2))
    with vc p show False by (simp add: valid_component_iff)
  qed
  moreover have "hd p \<noteq> [dot]" using vc p by (simp add: valid_component_iff)
  ultimately show ?thesis
    using buf seg concat_segment_components [OF assms] by (simp add: components_def)
qed

lemma collect_components_Normal: "collect_components (map Normal p) = Inr p"
  by (induction p) simp_all

lemma from_path_to_path_buf: "relative_path_ok p \<Longrightarrow> from_path (to_path_buf p) = Inr p"
  by (simp add: from_path_def components_to_path_buf collect_components_Normal from_components_ok)

lemma from_path_ok: "from_path path = Inr p \<Longrightarrow> relative_path_ok p"
  by (auto simp: from_path_def res_bind_Inr_iff from_components_Inr)

end
