(* ===== verification/Ready_Queues.thy ===== *)
theory Ready_Queues
  imports Relative_Path
begin

text \<open>
  The work items of the session coordinator and its ready queues (\<open>WorkKind\<close> to \<open>ReadyQueues\<close> of
  \<open>src/scan_coordinator_core.rs\<close>). A ready item is queued twice, by priority and by priority and
  path; the two indexes are kept consistent, and the range scan below a path prefix, which stops
  at the first path outside the prefix, sees every item below it. The abstract value of the queues
  is the set of ready items of each priority.
\<close>

section \<open>Work items\<close>

text \<open>A session identifier is 16 bytes and a scan generation a \<open>u64\<close>.\<close>

type_synonym scan_session_id = bytes
type_synonym scan_generation = u64
type_synonym lease_id = u64

datatype work_kind =
  EnumerateDirectory | ReduceRun | PlanDeletion | ExecuteDeletion | RefreshSubtree

definition is_scan_work :: "work_kind \<Rightarrow> bool" where
  "is_scan_work k = (k = EnumerateDirectory \<or> k = ReduceRun \<or> k = RefreshSubtree)"

datatype work_priority = Safety | Foreground | Reducer | Background | Prefetch

definition all_priorities :: "work_priority list" where
  "all_priorities = [Safety, Foreground, Reducer, Background, Prefetch]"

datatype work_key = WorkKey
  (wk_session: scan_session_id) (wk_generation: scan_generation)
  (wk_kind: work_kind) (wk_path: relative_path)

datatype queued_work = QueuedWork (qw_sequence: u64) (qw_key: work_key)

record pending_work =
  pw_priority :: work_priority
  pw_queued :: queued_work

record work_lease =
  wl_id :: lease_id
  wl_key :: work_key
  wl_priority :: work_priority
  wl_focused :: bool

record work_counts =
  wc_safety :: nat
  wc_foreground :: nat
  wc_reducer :: nat
  wc_background :: nat
  wc_prefetch :: nat

definition work_counts_total :: "work_counts \<Rightarrow> nat" where
  "work_counts_total c =
     usize_sat_add (usize_sat_add (usize_sat_add (usize_sat_add (wc_safety c) (wc_foreground c))
       (wc_reducer c)) (wc_background c)) (wc_prefetch c)"

subsection \<open>Derived orders\<close>

text \<open>
  \<open>#[derive(Ord)]\<close>: an enum by its discriminant, a struct lexicographically by its fields.
\<close>

primrec kind_rank :: "work_kind \<Rightarrow> nat" where
  "kind_rank EnumerateDirectory = 0"
| "kind_rank ReduceRun = 1"
| "kind_rank PlanDeletion = 2"
| "kind_rank ExecuteDeletion = 3"
| "kind_rank RefreshSubtree = 4"

primrec priority_rank :: "work_priority \<Rightarrow> nat" where
  "priority_rank Safety = 0"
| "priority_rank Foreground = 1"
| "priority_rank Reducer = 2"
| "priority_rank Background = 3"
| "priority_rank Prefetch = 4"

definition key_fields :: "work_key \<Rightarrow> scan_session_id \<times> u64 \<times> nat \<times> relative_path" where
  "key_fields k = (wk_session k, wk_generation k, kind_rank (wk_kind k), wk_path k)"

lemma kind_rank_inject [simp]: "kind_rank a = kind_rank b \<longleftrightarrow> a = b"
  by (cases a; cases b) simp_all

lemma priority_rank_inject [simp]: "priority_rank a = priority_rank b \<longleftrightarrow> a = b"
  by (cases a; cases b) simp_all

lemma key_fields_inject [simp]: "key_fields a = key_fields b \<longleftrightarrow> a = b"
  by (cases a; cases b) (simp add: key_fields_def)

instantiation work_priority :: linorder
begin

definition less_eq_work_priority :: "work_priority \<Rightarrow> work_priority \<Rightarrow> bool" where
  "less_eq_work_priority a b \<longleftrightarrow> priority_rank a \<le> priority_rank b"

definition less_work_priority :: "work_priority \<Rightarrow> work_priority \<Rightarrow> bool" where
  "less_work_priority a b \<longleftrightarrow> priority_rank a < priority_rank b"

instance
  by standard (auto simp: less_eq_work_priority_def less_work_priority_def)

end

instantiation work_key :: linorder
begin

definition less_eq_work_key :: "work_key \<Rightarrow> work_key \<Rightarrow> bool" where
  "less_eq_work_key a b \<longleftrightarrow> key_fields a \<le> key_fields b"

definition less_work_key :: "work_key \<Rightarrow> work_key \<Rightarrow> bool" where
  "less_work_key a b \<longleftrightarrow> key_fields a < key_fields b"

instance
proof
  fix x y z :: work_key
  show "x < y \<longleftrightarrow> x \<le> y \<and> \<not> y \<le> x"
    unfolding less_eq_work_key_def less_work_key_def by (rule less_le_not_le)
  show "x \<le> y \<Longrightarrow> y \<le> z \<Longrightarrow> x \<le> z"
    unfolding less_eq_work_key_def by (rule order_trans)
  show "x \<le> y \<Longrightarrow> y \<le> x \<Longrightarrow> x = y"
    unfolding less_eq_work_key_def using key_fields_inject by (blast intro: antisym)
  show "x \<le> y \<or> y \<le> x"
    unfolding less_eq_work_key_def by (rule linear)
qed (simp add: less_eq_work_key_def)

end

instantiation queued_work :: linorder
begin

definition less_eq_queued_work :: "queued_work \<Rightarrow> queued_work \<Rightarrow> bool" where
  "less_eq_queued_work a b \<longleftrightarrow> (qw_sequence a, qw_key a) \<le> (qw_sequence b, qw_key b)"

definition less_queued_work :: "queued_work \<Rightarrow> queued_work \<Rightarrow> bool" where
  "less_queued_work a b \<longleftrightarrow> (qw_sequence a, qw_key a) < (qw_sequence b, qw_key b)"

instance
proof
  fix x y z :: queued_work
  show "x < y \<longleftrightarrow> x \<le> y \<and> \<not> y \<le> x"
    unfolding less_eq_queued_work_def less_queued_work_def by (rule less_le_not_le)
  show "x \<le> y \<Longrightarrow> y \<le> z \<Longrightarrow> x \<le> z"
    unfolding less_eq_queued_work_def by (rule order_trans)
  show "x \<le> y \<Longrightarrow> y \<le> x \<Longrightarrow> x = y"
    unfolding less_eq_queued_work_def by (metis antisym prod.inject queued_work.expand)
  show "x \<le> y \<or> y \<le> x"
    unfolding less_eq_queued_work_def by (rule linear)
qed (simp add: less_eq_queued_work_def)

end

section \<open>Ready queues\<close>

record ready_queues =
  by_priority :: "work_priority \<rightharpoonup> queued_work list"
  by_path :: "work_priority \<rightharpoonup> (relative_path, queued_work list) omap"

definition rq_default :: ready_queues where
  "rq_default = \<lparr>by_priority = Map.empty, by_path = Map.empty\<rparr>"

text \<open>\<open>entry(k).or_default()\<close>: the stored collection or an empty one.\<close>

definition or_default :: "'a list option \<Rightarrow> 'a list" where
  "or_default x = (case x of None \<Rightarrow> [] | Some s \<Rightarrow> s)"

definition rq_insert :: "work_priority \<Rightarrow> queued_work \<Rightarrow> ready_queues \<Rightarrow> ready_queues" where
  "rq_insert pr w q =
     (let queue = or_default (by_priority q pr);
          paths = or_default (by_path q pr);
          path = wk_path (qw_key w);
          entries = or_default (om_get paths path)
      in q\<lparr>by_priority := (by_priority q)(pr \<mapsto> bset_insert w queue),
           by_path := (by_path q)(pr \<mapsto> om_insert path (bset_insert w entries) paths)\<rparr>)"

text \<open>Both indexes drop a collection that becomes empty.\<close>

definition rq_remove_priority :: "work_priority \<Rightarrow> queued_work \<Rightarrow> ready_queues \<Rightarrow> ready_queues" where
  "rq_remove_priority pr w q =
     (case by_priority q pr of
        None \<Rightarrow> q
      | Some queue \<Rightarrow>
          let queue' = bset_remove w queue
          in q\<lparr>by_priority := (by_priority q)(pr := if queue' = [] then None else Some queue')\<rparr>)"

definition rq_remove_path :: "work_priority \<Rightarrow> queued_work \<Rightarrow> ready_queues \<Rightarrow> ready_queues" where
  "rq_remove_path pr w q =
     (let path = wk_path (qw_key w) in
      case by_path q pr of
        None \<Rightarrow> q
      | Some paths \<Rightarrow>
          (case om_get paths path of
             None \<Rightarrow> q
           | Some entries \<Rightarrow>
               let entries' = bset_remove w entries
               in if entries' = [] then
                    let paths' = om_remove path paths
                    in q\<lparr>by_path := (by_path q)(pr := if paths' = [] then None else Some paths')\<rparr>
                  else q\<lparr>by_path := (by_path q)(pr \<mapsto> om_insert path entries' paths)\<rparr>))"

definition rq_remove :: "work_priority \<Rightarrow> queued_work \<Rightarrow> ready_queues \<Rightarrow> ready_queues" where
  "rq_remove pr w q = rq_remove_path pr w (rq_remove_priority pr w q)"

definition eligible :: "bool \<Rightarrow> queued_work \<Rightarrow> bool" where
  "eligible execution_active w \<longleftrightarrow> wk_kind (qw_key w) \<noteq> ExecuteDeletion \<or> \<not> execution_active"

definition scan_eligible :: "queued_work \<Rightarrow> bool" where
  "scan_eligible w \<longleftrightarrow> is_scan_work (wk_kind (qw_key w))"

definition first_eligible :: "work_priority \<Rightarrow> bool \<Rightarrow> ready_queues \<Rightarrow> queued_work option" where
  "first_eligible pr execution_active q =
     (case by_priority q pr of None \<Rightarrow> None | Some queue \<Rightarrow> List.find (eligible execution_active) queue)"

definition first_scan_eligible :: "work_priority \<Rightarrow> ready_queues \<Rightarrow> queued_work option" where
  "first_scan_eligible pr q =
     (case by_priority q pr of None \<Rightarrow> None | Some queue \<Rightarrow> List.find scan_eligible queue)"

text \<open>
  The loop over \<open>paths.range(prefix..)\<close>: it stops at the first path that does not start with the
  prefix and returns the first accepted item before that.
\<close>

fun scan_under :: "relative_path \<Rightarrow> (queued_work \<Rightarrow> bool) \<Rightarrow>
    (relative_path, queued_work list) omap \<Rightarrow> queued_work option" where
  "scan_under pre accept [] = None"
| "scan_under pre accept ((path, entries) # rest) =
     (if \<not> starts_with path pre then None
      else case List.find accept entries of
             Some w \<Rightarrow> Some w
           | None \<Rightarrow> scan_under pre accept rest)"

definition first_under :: "work_priority \<Rightarrow> relative_path \<Rightarrow> bool \<Rightarrow> ready_queues \<Rightarrow> queued_work option" where
  "first_under pr pre execution_active q =
     (case by_path q pr of
        None \<Rightarrow> None
      | Some paths \<Rightarrow> scan_under pre (eligible execution_active) (om_range_from pre paths))"

definition first_scan_under :: "work_priority \<Rightarrow> relative_path \<Rightarrow> ready_queues \<Rightarrow> queued_work option" where
  "first_scan_under pr pre q =
     (case by_path q pr of
        None \<Rightarrow> None
      | Some paths \<Rightarrow> scan_under pre scan_eligible (om_range_from pre paths))"

fun collect_under :: "relative_path \<Rightarrow> scan_generation \<Rightarrow>
    (relative_path, queued_work list) omap \<Rightarrow> queued_work list" where
  "collect_under pre gen [] = []"
| "collect_under pre gen ((path, entries) # rest) =
     (if \<not> starts_with path pre then []
      else filter (\<lambda>w. wk_generation (qw_key w) = gen) entries @ collect_under pre gen rest)"

definition pending_under :: "scan_generation \<Rightarrow> relative_path \<Rightarrow> ready_queues \<Rightarrow>
    (work_priority \<times> queued_work) list" where
  "pending_under gen pre q =
     concat (map (\<lambda>pr. case by_path q pr of
                         None \<Rightarrow> []
                       | Some paths \<Rightarrow> map (Pair pr) (collect_under pre gen (om_range_from pre paths)))
              all_priorities)"

definition rq_count :: "ready_queues \<Rightarrow> work_priority \<Rightarrow> nat" where
  "rq_count q pr = (case by_priority q pr of None \<Rightarrow> 0 | Some s \<Rightarrow> length s)"

definition rq_counts :: "ready_queues \<Rightarrow> work_counts" where
  "rq_counts q =
     \<lparr>wc_safety = rq_count q Safety, wc_foreground = rq_count q Foreground,
      wc_reducer = rq_count q Reducer, wc_background = rq_count q Background,
      wc_prefetch = rq_count q Prefetch\<rparr>"

section \<open>Correctness of the ready queues\<close>

subsection \<open>Range scans\<close>

text \<open>The items below a prefix, in path order: what the range scans mean.\<close>

definition items_under :: "relative_path \<Rightarrow> (relative_path, queued_work list) omap \<Rightarrow> queued_work list" where
  "items_under pre m = concat (map snd (filter (\<lambda>e. starts_with (fst e) pre) m))"

lemma takeWhile_range:
  assumes "om_wf m"
  shows "takeWhile (\<lambda>e. starts_with (fst e) pre) (om_range_from pre m) =
    filter (\<lambda>e. starts_with (fst e) pre) m"
  using assms
proof (induction m)
  case (Cons e m)
  from Cons.prems have wf: "om_wf m" and above: "\<And>e'. e' \<in> set m \<Longrightarrow> fst e < fst e'"
    by (auto simp: om_wf_iff)
  show ?case
  proof (cases "pre \<le> fst e")
    case False
    then have "\<not> starts_with (fst e) pre" using prefix_le_list by (auto simp: starts_with_prefix)
    with False Cons.IH wf show ?thesis by (simp add: om_range_from_def)
  next
    case le: True
    show ?thesis
    proof (cases "starts_with (fst e) pre")
      case True
      with le Cons.IH wf show ?thesis by (simp add: om_range_from_def)
    next
      case False
      then have "filter (\<lambda>e. starts_with (fst e) pre) m = []"
        using above prefix_contiguous [OF le]
        by (metis filter_False less_imp_le starts_with_prefix)
      with False le show ?thesis by (simp add: om_range_from_def)
    qed
  qed
qed (simp add: om_range_from_def)

lemma scan_under_takeWhile:
  "scan_under pre accept m =
    List.find accept (concat (map snd (takeWhile (\<lambda>e. starts_with (fst e) pre) m)))"
proof (induction pre accept m rule: scan_under.induct)
  case (2 pre accept path entries rest)
  have "List.find accept (xs @ ys) = (case List.find accept xs of None \<Rightarrow> List.find accept ys | Some w \<Rightarrow> Some w)"
    for xs ys by (induction xs) auto
  with 2 show ?case by (auto split: option.splits)
qed simp

lemma collect_under_takeWhile:
  "collect_under pre gen m =
    filter (\<lambda>w. wk_generation (qw_key w) = gen)
      (concat (map snd (takeWhile (\<lambda>e. starts_with (fst e) pre) m)))"
  by (induction pre gen m rule: collect_under.induct) auto

lemma scan_under_reference:
  "om_wf m \<Longrightarrow> scan_under pre accept (om_range_from pre m) = List.find accept (items_under pre m)"
  by (simp add: scan_under_takeWhile takeWhile_range items_under_def)

lemma collect_under_reference:
  "om_wf m \<Longrightarrow> collect_under pre gen (om_range_from pre m) =
    filter (\<lambda>w. wk_generation (qw_key w) = gen) (items_under pre m)"
  by (simp add: collect_under_takeWhile takeWhile_range items_under_def)

subsection \<open>Abstract value and invariant\<close>

definition rq_elems :: "ready_queues \<Rightarrow> work_priority \<Rightarrow> queued_work set" where
  "rq_elems q pr = set (or_default (by_priority q pr))"

definition rq_at :: "ready_queues \<Rightarrow> work_priority \<Rightarrow> relative_path \<Rightarrow> queued_work set" where
  "rq_at q pr p = set (or_default (om_get (or_default (by_path q pr)) p))"

definition queue_wf :: "queued_work list option \<Rightarrow> bool" where
  "queue_wf x \<longleftrightarrow> (\<forall>s. x = Some s \<longrightarrow> s \<noteq> [] \<and> bset_wf s)"

definition paths_wf :: "(relative_path, queued_work list) omap option \<Rightarrow> bool" where
  "paths_wf x \<longleftrightarrow> (\<forall>m. x = Some m \<longrightarrow> m \<noteq> [] \<and> om_wf m \<and> (\<forall>p. queue_wf (om_get m p)))"

definition rq_wf :: "ready_queues \<Rightarrow> bool" where
  "rq_wf q \<longleftrightarrow>
     (\<forall>pr. queue_wf (by_priority q pr)) \<and> (\<forall>pr. paths_wf (by_path q pr)) \<and>
     (\<forall>pr p. rq_at q pr p = {w \<in> rq_elems q pr. wk_path (qw_key w) = p})"

lemma or_default_simps [simp]: "or_default None = []" "or_default (Some s) = s"
  by (simp_all add: or_default_def)

lemma or_default_if [simp]: "or_default (if xs = [] then None else Some xs) = xs"
  by simp

lemma queue_wf_simps [simp]:
  "queue_wf None" "queue_wf (Some s) \<longleftrightarrow> s \<noteq> [] \<and> bset_wf s"
  by (simp_all add: queue_wf_def)

lemma paths_wf_simps [simp]:
  "paths_wf None" "paths_wf (Some m) \<longleftrightarrow> m \<noteq> [] \<and> om_wf m \<and> (\<forall>p. queue_wf (om_get m p))"
  by (simp_all add: paths_wf_def)

lemma queue_wf_or_default: "queue_wf x \<Longrightarrow> bset_wf (or_default x)"
  by (cases x) simp_all

lemma paths_wf_or_default:
  "paths_wf x \<Longrightarrow> om_wf (or_default x)"
  "paths_wf x \<Longrightarrow> queue_wf (om_get (or_default x) p)"
  by (cases x; simp)+

lemma rq_wfD:
  assumes "rq_wf q"
  shows "queue_wf (by_priority q pr)" "paths_wf (by_path q pr)"
    "rq_at q pr p = {w \<in> rq_elems q pr. wk_path (qw_key w) = p}"
  using assms by (simp_all add: rq_wf_def)

lemma rq_wf_default [simp]: "rq_wf rq_default"
  by (simp add: rq_wf_def rq_default_def rq_at_def rq_elems_def)

lemma rq_elems_default [simp]: "rq_elems rq_default pr = {}"
  by (simp add: rq_elems_def rq_default_def)

lemma rq_elems_insert [simp]:
  "rq_elems (rq_insert pr w q) pr' = (if pr' = pr then insert w (rq_elems q pr) else rq_elems q pr')"
  by (simp add: rq_elems_def rq_insert_def Let_def)

lemma rq_at_insert:
  assumes "rq_wf q"
  shows "rq_at (rq_insert pr w q) pr' p =
    (if pr' = pr \<and> p = wk_path (qw_key w) then insert w (rq_at q pr p) else rq_at q pr' p)"
proof -
  have "om_wf (or_default (by_path q pr))"
    using rq_wfD(2) [OF assms] by (rule paths_wf_or_default)
  then show ?thesis by (simp add: rq_at_def rq_insert_def Let_def om_get_insert)
qed

lemma rq_wf_insert [simp]:
  assumes "rq_wf q"
  shows "rq_wf (rq_insert pr w q)"
proof -
  note wf = rq_wfD [OF assms]
  have om: "om_wf (or_default (by_path q pr))" by (rule paths_wf_or_default(1) [OF wf(2)])
  have "queue_wf (by_priority (rq_insert pr w q) pr')" for pr'
    using wf(1) [of pr'] queue_wf_or_default [OF wf(1) [of pr]] by (simp add: rq_insert_def Let_def)
  moreover have "paths_wf (by_path (rq_insert pr w q) pr')" for pr'
    using wf(2) [of pr'] om paths_wf_or_default(2) [OF wf(2) [of pr]]
    by (auto simp: rq_insert_def Let_def om_get_insert queue_wf_or_default)
  moreover have "rq_at (rq_insert pr w q) pr' p =
      {x \<in> rq_elems (rq_insert pr w q) pr'. wk_path (qw_key x) = p}" for pr' p
    using wf(3) by (auto simp: rq_at_insert [OF assms])
  ultimately show ?thesis by (simp add: rq_wf_def)
qed

lemma by_path_rq_remove_priority [simp]: "by_path (rq_remove_priority pr w q) = by_path q"
  by (simp add: rq_remove_priority_def Let_def split: option.split)

lemma by_priority_rq_remove_path [simp]: "by_priority (rq_remove_path pr w q) = by_priority q"
  by (simp add: rq_remove_path_def Let_def split: option.split)

lemma rq_elems_remove [simp]:
  "rq_elems (rq_remove pr w q) pr' = (if pr' = pr then rq_elems q pr - {w} else rq_elems q pr')"
proof (cases "by_priority q pr")
  case None
  then show ?thesis by (simp add: rq_elems_def rq_remove_def rq_remove_priority_def)
next
  case (Some s)
  then show ?thesis by (simp add: rq_elems_def rq_remove_def rq_remove_priority_def Let_def)
qed

lemma rq_at_remove:
  assumes "paths_wf (by_path q pr)"
  shows "rq_at (rq_remove pr w q) pr' p =
    (if pr' = pr \<and> p = wk_path (qw_key w) then rq_at q pr p - {w} else rq_at q pr' p)"
proof -
  have at: "rq_at (rq_remove pr w q) = rq_at (rq_remove_path pr w q)"
    by (simp add: rq_remove_def rq_at_def fun_eq_iff rq_remove_path_def Let_def split: option.split)
  show ?thesis
  proof (cases "by_path q pr")
    case None
    then show ?thesis by (simp add: at rq_remove_path_def rq_at_def Let_def)
  next
    case m: (Some m)
    show ?thesis
    proof (cases "om_get m (wk_path (qw_key w))")
      case None
      with m show ?thesis by (simp add: at rq_remove_path_def rq_at_def Let_def)
    next
      case s: (Some s)
      have "om_wf m" using assms m by simp
      show ?thesis
      proof (cases "bset_remove w s = []")
        case True
        then have "set s - {w} = {}" by (metis empty_set set_bset_remove)
        with True m s show ?thesis by (simp add: at rq_remove_path_def rq_at_def Let_def)
      next
        case False
        with \<open>om_wf m\<close> m s show ?thesis
          by (simp add: at rq_remove_path_def rq_at_def Let_def om_get_insert)
      qed
    qed
  qed
qed

lemma paths_wf_remove:
  assumes "paths_wf (by_path q pr')"
  shows "paths_wf (by_path (rq_remove_path pr w q) pr')"
proof (cases "by_path q pr")
  case None
  then show ?thesis using assms by (simp add: rq_remove_path_def)
next
  case m: (Some m)
  show ?thesis
  proof (cases "om_get m (wk_path (qw_key w))")
    case None
    then show ?thesis using assms m by (simp add: rq_remove_path_def)
  next
    case (Some s)
    then have "pr' = pr \<Longrightarrow> bset_wf s"
      using assms m by (metis option.sel paths_wf_simps(2) queue_wf_simps(2))
    with assms m Some show ?thesis
      by (cases "pr' = pr") (simp_all add: rq_remove_path_def Let_def om_get_insert)
  qed
qed

lemma rq_wf_remove [simp]:
  assumes "rq_wf q"
  shows "rq_wf (rq_remove pr w q)"
proof -
  note wf = rq_wfD [OF assms]
  have "queue_wf (by_priority (rq_remove pr w q) pr')" for pr'
    using wf(1) [of pr'] wf(1) [of pr]
    by (auto simp: rq_remove_def rq_remove_priority_def Let_def split: option.split)
  moreover have "paths_wf (by_path (rq_remove pr w q) pr')" for pr'
    unfolding rq_remove_def by (rule paths_wf_remove) (simp add: wf)
  moreover have "rq_at (rq_remove pr w q) pr' p =
      {x \<in> rq_elems (rq_remove pr w q) pr'. wk_path (qw_key x) = p}" for pr' p
    using wf(3) by (auto simp: rq_at_remove [OF wf(2)])
  ultimately show ?thesis by (simp add: rq_wf_def)
qed

subsection \<open>Selection\<close>

lemma items_under_rq:
  assumes "rq_wf q" "by_path q pr = Some m"
  shows "set (items_under pre m) = {w \<in> rq_elems q pr. starts_with (wk_path (qw_key w)) pre}"
proof -
  have wf: "om_wf m" using rq_wfD(2) [OF assms(1), of pr] assms(2) by simp
  have at: "set s = {w \<in> rq_elems q pr. wk_path (qw_key w) = p}" if "(p, s) \<in> set m" for p s
    using rq_wfD(3) [OF assms(1), of pr p] that wf assms(2) by (simp add: rq_at_def om_get_iff [symmetric])
  have present: "\<exists>s. (wk_path (qw_key w), s) \<in> set m" if "w \<in> rq_elems q pr" for w
  proof -
    have "w \<in> rq_at q pr (wk_path (qw_key w))" using that rq_wfD(3) [OF assms(1)] by simp
    then show ?thesis
      using assms(2) by (cases "om_get m (wk_path (qw_key w))") (auto simp: rq_at_def dest: om_get_mem)
  qed
  show ?thesis
  proof (intro set_eqI iffI)
    fix w assume "w \<in> set (items_under pre m)"
    then obtain p s where "(p, s) \<in> set m" "starts_with p pre" "w \<in> set s" by (auto simp: items_under_def)
    with at show "w \<in> {w \<in> rq_elems q pr. starts_with (wk_path (qw_key w)) pre}" by auto
  next
    fix w assume w: "w \<in> {w \<in> rq_elems q pr. starts_with (wk_path (qw_key w)) pre}"
    then obtain s where "(wk_path (qw_key w), s) \<in> set m" using present by blast
    with w at show "w \<in> set (items_under pre m)" by (force simp: items_under_def)
  qed
qed

lemma by_path_None:
  assumes "rq_wf q" "by_path q pr = None"
  shows "rq_elems q pr = {}"
proof -
  have "w \<notin> rq_elems q pr" for w
    using rq_wfD(3) [OF assms(1), of pr "wk_path (qw_key w)"] assms(2) by (auto simp: rq_at_def)
  then show ?thesis by blast
qed

lemma first_eligible_Some:
  "first_eligible pr ex q = Some w \<Longrightarrow> w \<in> rq_elems q pr \<and> eligible ex w"
  by (auto simp: first_eligible_def rq_elems_def split: option.splits dest: find_Some_in)

lemma first_eligible_None:
  "first_eligible pr ex q = None \<longleftrightarrow> (\<forall>w \<in> rq_elems q pr. \<not> eligible ex w)"
  by (auto simp: first_eligible_def rq_elems_def find_None_iff' split: option.splits)

lemma first_eligible_least:
  "rq_wf q \<Longrightarrow> first_eligible pr ex q = Some w \<Longrightarrow> v \<in> rq_elems q pr \<Longrightarrow> eligible ex v \<Longrightarrow> w \<le> v"
  using rq_wfD(1) [of q pr]
  by (auto simp: first_eligible_def rq_elems_def split: option.splits intro: find_sorted_least)

lemma first_scan_eligible_Some:
  "first_scan_eligible pr q = Some w \<Longrightarrow> w \<in> rq_elems q pr \<and> scan_eligible w"
  by (auto simp: first_scan_eligible_def rq_elems_def split: option.splits dest: find_Some_in)

lemma first_scan_eligible_None:
  "first_scan_eligible pr q = None \<longleftrightarrow> (\<forall>w \<in> rq_elems q pr. \<not> scan_eligible w)"
  by (auto simp: first_scan_eligible_def rq_elems_def find_None_iff' split: option.splits)

lemma scan_under_rq:
  assumes "rq_wf q" "by_path q pr = Some m"
  shows "scan_under pre accept (om_range_from pre m) = Some w \<Longrightarrow>
      w \<in> rq_elems q pr \<and> starts_with (wk_path (qw_key w)) pre \<and> accept w"
    and "scan_under pre accept (om_range_from pre m) = None \<longleftrightarrow>
      (\<forall>w \<in> rq_elems q pr. starts_with (wk_path (qw_key w)) pre \<longrightarrow> \<not> accept w)"
proof -
  have wf: "om_wf m" using rq_wfD(2) [OF assms(1), of pr] assms(2) by simp
  show "scan_under pre accept (om_range_from pre m) = Some w \<Longrightarrow>
      w \<in> rq_elems q pr \<and> starts_with (wk_path (qw_key w)) pre \<and> accept w"
    unfolding scan_under_reference [OF wf]
    using items_under_rq [OF assms] by (blast dest: find_Some_in)
  show "scan_under pre accept (om_range_from pre m) = None \<longleftrightarrow>
      (\<forall>w \<in> rq_elems q pr. starts_with (wk_path (qw_key w)) pre \<longrightarrow> \<not> accept w)"
    unfolding scan_under_reference [OF wf] find_None_iff' items_under_rq [OF assms] by blast
qed

lemma first_under_Some:
  "rq_wf q \<Longrightarrow> first_under pr pre ex q = Some w \<Longrightarrow>
    w \<in> rq_elems q pr \<and> starts_with (wk_path (qw_key w)) pre \<and> eligible ex w"
  by (auto simp: first_under_def split: option.splits dest: scan_under_rq(1))

lemma first_under_None:
  "rq_wf q \<Longrightarrow> first_under pr pre ex q = None \<longleftrightarrow>
    (\<forall>w \<in> rq_elems q pr. starts_with (wk_path (qw_key w)) pre \<longrightarrow> \<not> eligible ex w)"
  by (auto simp: first_under_def scan_under_rq(2) by_path_None split: option.splits)

lemma first_scan_under_Some:
  "rq_wf q \<Longrightarrow> first_scan_under pr pre q = Some w \<Longrightarrow>
    w \<in> rq_elems q pr \<and> starts_with (wk_path (qw_key w)) pre \<and> scan_eligible w"
  by (auto simp: first_scan_under_def split: option.splits dest: scan_under_rq(1))

lemma set_all_priorities [simp]: "pr \<in> set all_priorities"
  by (cases pr) (simp_all add: all_priorities_def)

lemma set_pending_under:
  assumes "rq_wf q"
  shows "set (pending_under gen pre q) =
    {(pr, w). w \<in> rq_elems q pr \<and> wk_generation (qw_key w) = gen \<and> starts_with (wk_path (qw_key w)) pre}"
proof -
  have "set (case by_path q pr of None \<Rightarrow> []
        | Some paths \<Rightarrow> map (Pair pr) (collect_under pre gen (om_range_from pre paths))) =
      Pair pr ` {w \<in> rq_elems q pr. wk_generation (qw_key w) = gen \<and> starts_with (wk_path (qw_key w)) pre}" for pr
  proof (cases "by_path q pr")
    case None
    with by_path_None [OF assms] show ?thesis by simp
  next
    case (Some m)
    have wf: "om_wf m" using rq_wfD(2) [OF assms, of pr] Some by simp
    show ?thesis
      using items_under_rq [OF assms Some, of pre] Some by (auto simp: collect_under_reference [OF wf])
  qed
  then show ?thesis by (fastforce simp: pending_under_def)
qed

section \<open>The interface of the ready queues\<close>

text \<open>
  The coordinator sees a set of ready items per priority: inserting and removing change exactly
  that set, and selection returns an accepted member, or nothing only when there is none.
\<close>

locale ready_queue =
  fixes insert :: "'p \<Rightarrow> 'w \<Rightarrow> 'q \<Rightarrow> 'q"
    and remove :: "'p \<Rightarrow> 'w \<Rightarrow> 'q \<Rightarrow> 'q"
    and empty :: 'q
    and elems :: "'q \<Rightarrow> 'p \<Rightarrow> 'w set"
    and select :: "'p \<Rightarrow> bool \<Rightarrow> 'q \<Rightarrow> 'w option"
    and accepts :: "bool \<Rightarrow> 'w \<Rightarrow> bool"
    and invar :: "'q \<Rightarrow> bool"
  assumes invar_empty: "invar empty"
    and invar_insert: "invar q \<Longrightarrow> invar (insert p w q)"
    and invar_remove: "invar q \<Longrightarrow> invar (remove p w q)"
    and elems_empty: "elems empty p = {}"
    and elems_insert: "invar q \<Longrightarrow> elems (insert p w q) = (elems q)(p := Set.insert w (elems q p))"
    and elems_remove: "invar q \<Longrightarrow> elems (remove p w q) = (elems q)(p := elems q p - {w})"
    and select_Some: "invar q \<Longrightarrow> select p b q = Some w \<Longrightarrow> w \<in> elems q p \<and> accepts b w"
    and select_None: "invar q \<Longrightarrow> select p b q = None \<Longrightarrow> w \<in> elems q p \<Longrightarrow> \<not> accepts b w"
begin

lemma insert_selects: "invar q \<Longrightarrow> accepts b w \<Longrightarrow> select p b (insert p w q) \<noteq> None"
  using select_None [OF invar_insert] elems_insert by (metis fun_upd_same insertI1)

lemma remove_insert_elems: "invar q \<Longrightarrow> w \<notin> elems q p \<Longrightarrow> elems (remove p w (insert p w q)) = elems q"
  by (simp add: elems_remove invar_insert elems_insert fun_eq_iff)

lemma removed_not_selected: "invar q \<Longrightarrow> select p b (remove p w q) \<noteq> Some w"
  using select_Some [OF invar_remove] by (fastforce simp: elems_remove)

lemma move_elems:
  "invar q \<Longrightarrow> p \<noteq> p' \<Longrightarrow>
    elems (insert p' w (remove p w q)) = (elems q)(p := elems q p - {w}, p' := Set.insert w (elems q p'))"
  by (simp add: elems_remove invar_remove elems_insert fun_eq_iff)

end

interpretation rq: ready_queue rq_insert rq_remove rq_default rq_elems first_eligible eligible rq_wf
  by unfold_locales (auto simp: fun_eq_iff first_eligible_None dest: first_eligible_Some)

end
