(* ===== verification/Scan_Coordinator.thy ===== *)
theory Scan_Coordinator
  imports Ready_Queues
begin

text \<open>
  The session's work state machine (\<open>ScanCoordinator\<close> of \<open>src/scan_coordinator_core.rs\<close>): work is
  scheduled under a key that deduplicates it, leased to one worker at a time, and ended by the exact
  lease that was granted, by requeueing, or by a termination of a class of work. The invariant
  \<open>coord_wf\<close> ties the pending map, the ready queues, the active leases and the single deletion
  execution together; every public operation keeps it, and the selection and termination lemmas
  describe what each operation does.

  \<open>HashMap<WorkKey, _>\<close> is an ordered map here: its iteration order, which Rust leaves open, only
  orders independent removals, and \<open>terminate_matching_effect\<close> shows that the result does not
  depend on it.
\<close>

section \<open>State\<close>

definition MAX_FOCUS_PATHS :: nat where "MAX_FOCUS_PATHS = 32"
definition FOREGROUND_LEASE_BURST :: u8 where "FOREGROUND_LEASE_BURST = 4"

datatype schedule_outcome =
  Enqueued | PriorityRaised | AlreadyPending | AlreadyLeased | StaleSession | StaleGeneration

datatype completion_outcome = Accepted | StaleLease

datatype requeue_outcome = Requeued | RequeueStaleLease

datatype work_lifecycle = LPending | LLeased | LSucceeded | LFailed | LCancelled | LInvalidated

datatype work_completion = Succeeded | Failed | Cancelled | Invalidated

primrec lifecycle :: "work_completion \<Rightarrow> work_lifecycle" where
  "lifecycle Succeeded = LSucceeded"
| "lifecycle Failed = LFailed"
| "lifecycle Cancelled = LCancelled"
| "lifecycle Invalidated = LInvalidated"

record terminal_work_counts =
  tc_succeeded :: u64
  tc_failed :: u64
  tc_cancelled :: u64
  tc_invalidated :: u64

definition terminal_default :: terminal_work_counts where
  "terminal_default = \<lparr>tc_succeeded = 0, tc_failed = 0, tc_cancelled = 0, tc_invalidated = 0\<rparr>"

record invalidation =
  inv_pending :: nat
  inv_active :: nat

record scan_coordinator =
  sc_session :: scan_session_id
  sc_generation :: scan_generation
  sc_next_sequence :: u64
  sc_next_lease :: u64
  sc_pending :: "(work_key, pending_work) omap"
  sc_queues :: ready_queues
  sc_active :: "(lease_id, work_lease) omap"
  sc_active_by_key :: "work_key \<rightharpoonup> lease_id"
  sc_active_deletion_execution :: "lease_id option"
  sc_focus_paths :: "relative_path list"
  sc_focus_epoch :: u64
  sc_non_background_leases :: u8
  sc_terminal :: terminal_work_counts

record scheduler_snapshot =
  ss_session :: scan_session_id
  ss_generation :: scan_generation
  ss_pending :: work_counts
  ss_active_leases :: nat
  ss_active_deletion_execution :: bool
  ss_focus_count :: nat
  ss_focus_epoch :: u64
  ss_terminal :: terminal_work_counts

definition sc_new :: "scan_session_id \<Rightarrow> scan_generation \<Rightarrow> scan_coordinator" where
  "sc_new session generation =
     \<lparr>sc_session = session, sc_generation = generation, sc_next_sequence = 0, sc_next_lease = 0,
      sc_pending = [], sc_queues = rq_default, sc_active = [], sc_active_by_key = Map.empty,
      sc_active_deletion_execution = None, sc_focus_paths = [], sc_focus_epoch = 0,
      sc_non_background_leases = 0, sc_terminal = terminal_default\<rparr>"

section \<open>Operations\<close>

subsection \<open>Ending work\<close>

definition record_terminal :: "work_lifecycle \<Rightarrow> u64 \<Rightarrow> scan_coordinator \<Rightarrow> scan_coordinator" where
  "record_terminal lc count c =
     (let t = sc_terminal c in
      case lc of
        LSucceeded \<Rightarrow> c\<lparr>sc_terminal := t\<lparr>tc_succeeded := sat_add (tc_succeeded t) count\<rparr>\<rparr>
      | LFailed \<Rightarrow> c\<lparr>sc_terminal := t\<lparr>tc_failed := sat_add (tc_failed t) count\<rparr>\<rparr>
      | LCancelled \<Rightarrow> c\<lparr>sc_terminal := t\<lparr>tc_cancelled := sat_add (tc_cancelled t) count\<rparr>\<rparr>
      | LInvalidated \<Rightarrow> c\<lparr>sc_terminal := t\<lparr>tc_invalidated := sat_add (tc_invalidated t) count\<rparr>\<rparr>
      | LPending \<Rightarrow> c
      | LLeased \<Rightarrow> c)"

definition remove_active :: "lease_id \<Rightarrow> scan_coordinator \<Rightarrow> work_lease option \<times> scan_coordinator" where
  "remove_active lease_id c =
     (case om_get (sc_active c) lease_id of
        None \<Rightarrow> (None, c)
      | Some l \<Rightarrow>
          (Some l,
           c\<lparr>sc_active := om_remove lease_id (sc_active c),
             sc_active_by_key := (sc_active_by_key c)(wl_key l := None),
             sc_active_deletion_execution :=
               (if sc_active_deletion_execution c = Some (wl_id l) then None
                else sc_active_deletion_execution c)\<rparr>))"

definition terminate_all :: "work_lifecycle \<Rightarrow> scan_coordinator \<Rightarrow> scan_coordinator" where
  "terminate_all lc c =
     (let pending = u64_of_count (length (sc_pending c));
          active = u64_of_count (length (sc_active c));
          c' = c\<lparr>sc_pending := [], sc_queues := rq_default, sc_active := [],
                 sc_active_by_key := Map.empty, sc_active_deletion_execution := None\<rparr>
      in record_terminal lc (sat_add pending active) c')"

definition drop_pending :: "work_key \<times> pending_work \<Rightarrow> scan_coordinator \<Rightarrow> scan_coordinator" where
  "drop_pending e c =
     c\<lparr>sc_queues := rq_remove (pw_priority (snd e)) (pw_queued (snd e)) (sc_queues c),
       sc_pending := om_remove (fst e) (sc_pending c)\<rparr>"

definition terminate_matching :: "work_lifecycle \<Rightarrow> (work_key \<Rightarrow> bool) \<Rightarrow> scan_coordinator \<Rightarrow> scan_coordinator" where
  "terminate_matching lc P c =
     (let pending = filter (\<lambda>e. P (fst e)) (sc_pending c);
          c1 = fold drop_pending pending c;
          active = map fst (filter (\<lambda>e. P (wl_key (snd e))) (sc_active c1));
          c2 = fold (\<lambda>i c. snd (remove_active i c)) active c1;
          count = u64_of_count (usize_sat_add (length pending) (length active))
      in record_terminal lc count c2)"

definition cancel_all :: "scan_coordinator \<Rightarrow> scan_coordinator" where
  "cancel_all = terminate_all LCancelled"

definition fail_all :: "scan_coordinator \<Rightarrow> scan_coordinator" where
  "fail_all = terminate_all LFailed"

definition invalidate_all :: "scan_coordinator \<Rightarrow> scan_coordinator" where
  "invalidate_all = terminate_all LInvalidated"

definition is_enumeration :: "work_key \<Rightarrow> bool" where
  "is_enumeration k \<longleftrightarrow> wk_kind k = EnumerateDirectory"

definition cancel_scan_work :: "scan_coordinator \<Rightarrow> scan_coordinator" where
  "cancel_scan_work = terminate_matching LCancelled is_enumeration"

definition fail_scan_work :: "scan_coordinator \<Rightarrow> scan_coordinator" where
  "fail_scan_work = terminate_matching LFailed is_enumeration"

definition invalidate_scan_work :: "scan_coordinator \<Rightarrow> scan_coordinator" where
  "invalidate_scan_work = terminate_matching LInvalidated is_enumeration"

definition finish :: "work_lease \<Rightarrow> work_completion \<Rightarrow> scan_coordinator \<Rightarrow> completion_outcome \<times> scan_coordinator" where
  "finish lease completion c =
     (case om_get (sc_active c) (wl_id lease) of
        None \<Rightarrow> (StaleLease, c)
      | Some active \<Rightarrow>
          if active \<noteq> lease then (StaleLease, c)
          else case remove_active (wl_id lease) c of
                 (None, c') \<Rightarrow> (StaleLease, c')
               | (Some _, c') \<Rightarrow> (Accepted, record_terminal (lifecycle completion) 1 c'))"

definition complete :: "work_lease \<Rightarrow> scan_coordinator \<Rightarrow> completion_outcome \<times> scan_coordinator" where
  "complete lease c = finish lease Succeeded c"

text \<open>The two loops of \<open>invalidate_prefix\<close>: over the ready items below the prefix, then over the
  active leases below it.\<close>

definition invalidate_pending_step :: "work_priority \<times> queued_work \<Rightarrow> nat \<times> scan_coordinator \<Rightarrow> nat \<times> scan_coordinator" where
  "invalidate_pending_step e s =
     (case (e, s) of ((pr, w), (n, c)) \<Rightarrow>
        let c' = c\<lparr>sc_queues := rq_remove pr w (sc_queues c),
                   sc_pending := om_remove (qw_key w) (sc_pending c)\<rparr>
        in (if om_get (sc_pending c) (qw_key w) \<noteq> None then usize_sat_add n 1 else n, c'))"

definition invalidate_active_step :: "lease_id \<Rightarrow> nat \<times> scan_coordinator \<Rightarrow> nat \<times> scan_coordinator" where
  "invalidate_active_step i s =
     (case s of (n, c) \<Rightarrow>
        case remove_active i c of (removed, c') \<Rightarrow>
          (if removed \<noteq> None then usize_sat_add n 1 else n, c'))"

definition invalidate_prefix :: "scan_generation \<Rightarrow> relative_path \<Rightarrow> scan_coordinator \<Rightarrow> invalidation \<times> scan_coordinator" where
  "invalidate_prefix generation pre c =
     (let (p, c1) = fold invalidate_pending_step (pending_under generation pre (sc_queues c)) (0, c);
          c2 = record_terminal LInvalidated (u64_of_count p) c1;
          stale = map fst (filter (\<lambda>e. wk_generation (wl_key (snd e)) = generation \<and>
                                        starts_with (wk_path (wl_key (snd e))) pre) (sc_active c2));
          (a, c3) = fold invalidate_active_step stale (0, c2);
          c4 = record_terminal LInvalidated (u64_of_count a) c3
      in (\<lparr>inv_pending = p, inv_active = a\<rparr>, c4))"

subsection \<open>Generations\<close>

definition advance_to :: "scan_generation \<Rightarrow> scan_coordinator \<Rightarrow> bool \<times> scan_coordinator" where
  "advance_to generation c =
     (if generation \<le> sc_generation c then (False, c)
      else
        let c' = terminate_matching LInvalidated (\<lambda>k. is_scan_work (wk_kind k)) c
        in (True, c'\<lparr>sc_generation := generation, sc_focus_paths := [],
                     sc_focus_epoch := sc_focus_epoch c' + 1,
                     sc_non_background_leases := 0, sc_terminal := terminal_default\<rparr>))"

definition advance_generation :: "scan_coordinator \<Rightarrow> scan_generation option \<times> scan_coordinator" where
  "advance_generation c =
     (case checked_add (sc_generation c) 1 of
        None \<Rightarrow> (None, c)
      | Some nxt \<Rightarrow> (Some nxt, snd (advance_to nxt c)))"

subsection \<open>Scheduling\<close>

definition normalized_priority :: "work_kind \<Rightarrow> work_priority \<Rightarrow> work_priority" where
  "normalized_priority kind pr = (if kind = ExecuteDeletion then Safety else pr)"

definition enqueue_pending :: "work_key \<Rightarrow> work_priority \<Rightarrow> scan_coordinator \<Rightarrow> scan_coordinator" where
  "enqueue_pending key pr c =
     (let queued = QueuedWork (sc_next_sequence c) key
      in c\<lparr>sc_next_sequence := sat_add (sc_next_sequence c) 1,
           sc_queues := rq_insert pr queued (sc_queues c),
           sc_pending := om_insert key \<lparr>pw_priority = pr, pw_queued = queued\<rparr> (sc_pending c)\<rparr>)"

definition schedule :: "work_key \<Rightarrow> work_priority \<Rightarrow> scan_coordinator \<Rightarrow> schedule_outcome \<times> scan_coordinator" where
  "schedule key priority c =
     (if wk_session key \<noteq> sc_session c then (StaleSession, c)
      else if wk_generation key \<noteq> sc_generation c then (StaleGeneration, c)
      else if sc_active_by_key c key \<noteq> None then (AlreadyLeased, c)
      else
        let pr = normalized_priority (wk_kind key) priority in
        case om_get (sc_pending c) key of
          Some existing \<Rightarrow>
            if pw_priority existing \<le> pr then (AlreadyPending, c)
            else
              let queued = pw_queued existing
              in (PriorityRaised,
                  c\<lparr>sc_queues := rq_insert pr queued (rq_remove (pw_priority existing) queued (sc_queues c)),
                    sc_pending := om_insert key \<lparr>pw_priority = pr, pw_queued = queued\<rparr> (sc_pending c)\<rparr>)
        | None \<Rightarrow> (Enqueued, enqueue_pending key pr c))"

definition requeue :: "work_lease \<Rightarrow> scan_coordinator \<Rightarrow> requeue_outcome \<times> scan_coordinator" where
  "requeue lease c =
     (case om_get (sc_active c) (wl_id lease) of
        None \<Rightarrow> (RequeueStaleLease, c)
      | Some active \<Rightarrow>
          if active \<noteq> lease then (RequeueStaleLease, c)
          else case remove_active (wl_id lease) c of
                 (None, c') \<Rightarrow> (RequeueStaleLease, c')
               | (Some l, c') \<Rightarrow> (Requeued, enqueue_pending (wl_key l) (wl_priority l) c'))"

definition focus :: "relative_path \<Rightarrow> scan_coordinator \<Rightarrow> scan_coordinator" where
  "focus path c =
     (let paths = remove_first (\<lambda>p. p = path) (sc_focus_paths c);
          paths' = (if length paths = MAX_FOCUS_PATHS then tl paths else paths)
      in c\<lparr>sc_focus_paths := paths' @ [path], sc_focus_epoch := sc_focus_epoch c + 1\<rparr>)"

subsection \<open>Leasing\<close>

definition lease_queued :: "queued_work \<Rightarrow> bool \<Rightarrow> scan_coordinator \<Rightarrow> work_lease option \<times> scan_coordinator" where
  "lease_queued queued focused c =
     (case om_get (sc_pending c) (qw_key queued) of
        None \<Rightarrow> (None, c)
      | Some pending \<Rightarrow>
          let lease = \<lparr>wl_id = sc_next_lease c, wl_key = qw_key queued,
                       wl_priority = pw_priority pending, wl_focused = focused\<rparr>
          in (Some lease,
              c\<lparr>sc_pending := om_remove (qw_key queued) (sc_pending c),
                sc_queues := rq_remove (pw_priority pending) queued (sc_queues c),
                sc_next_lease := sat_add (sc_next_lease c) 1,
                sc_active_deletion_execution :=
                  (if wk_kind (wl_key lease) = ExecuteDeletion then Some (wl_id lease)
                   else sc_active_deletion_execution c),
                sc_active_by_key := (sc_active_by_key c)(wl_key lease \<mapsto> wl_id lease),
                sc_active := om_insert (wl_id lease) lease (sc_active c),
                sc_non_background_leases :=
                  (if pw_priority pending = Background \<and> \<not> focused then 0
                   else if pw_priority pending \<noteq> Safety then sat_add (sc_non_background_leases c) 1
                   else sc_non_background_leases c)\<rparr>))"

definition lease_exact :: "work_key \<Rightarrow> scan_coordinator \<Rightarrow> work_lease option \<times> scan_coordinator" where
  "lease_exact key c =
     (case om_get (sc_pending c) key of
        None \<Rightarrow> (None, c)
      | Some pending \<Rightarrow>
          if wk_kind (qw_key (pw_queued pending)) = ExecuteDeletion
             \<and> sc_active_deletion_execution c \<noteq> None then (None, c)
          else lease_queued (pw_queued pending) False c)"

text \<open>The first result of a list of candidates, tried in order.\<close>

fun first_some :: "('a \<Rightarrow> 'b option) \<Rightarrow> 'a list \<Rightarrow> 'b option" where
  "first_some f [] = None"
| "first_some f (x # xs) = (case f x of Some y \<Rightarrow> Some y | None \<Rightarrow> first_some f xs)"

definition next_focused_queued :: "bool \<Rightarrow> scan_coordinator \<Rightarrow> queued_work option" where
  "next_focused_queued execution_active c =
     first_some (\<lambda>path. first_some (\<lambda>pr. first_under pr path execution_active (sc_queues c))
                   [Background, Prefetch])
       (rev (sc_focus_paths c))"

definition next_queued :: "scan_coordinator \<Rightarrow> (queued_work \<times> bool) option" where
  "next_queued c =
     (let execution_active = (sc_active_deletion_execution c \<noteq> None);
          pick = (\<lambda>pr. first_eligible pr execution_active (sc_queues c)) in
      case pick Safety of Some w \<Rightarrow> Some (w, False) | None \<Rightarrow>
      (case (if FOREGROUND_LEASE_BURST \<le> sc_non_background_leases c then pick Background else None) of
         Some w \<Rightarrow> Some (w, False) | None \<Rightarrow>
      (case pick Foreground of Some w \<Rightarrow> Some (w, False) | None \<Rightarrow>
      (case next_focused_queued execution_active c of Some w \<Rightarrow> Some (w, True) | None \<Rightarrow>
       map_option (\<lambda>w. (w, False)) (first_some pick [Reducer, Background, Prefetch])))))"

definition next_scan_queued :: "scan_coordinator \<Rightarrow> (queued_work \<times> bool) option" where
  "next_scan_queued c =
     (let pick = (\<lambda>pr. first_scan_eligible pr (sc_queues c)) in
      case (if FOREGROUND_LEASE_BURST \<le> sc_non_background_leases c then pick Background else None) of
         Some w \<Rightarrow> Some (w, False) | None \<Rightarrow>
      (case pick Foreground of Some w \<Rightarrow> Some (w, False) | None \<Rightarrow>
      (case first_some (\<lambda>path. first_some (\<lambda>pr. first_scan_under pr path (sc_queues c))
                          [Background, Prefetch])
              (rev (sc_focus_paths c)) of
         Some w \<Rightarrow> Some (w, True) | None \<Rightarrow>
       map_option (\<lambda>w. (w, False)) (first_some pick [Reducer, Background, Prefetch]))))"

definition lease_next :: "scan_coordinator \<Rightarrow> work_lease option \<times> scan_coordinator" where
  "lease_next c =
     (case next_queued c of None \<Rightarrow> (None, c) | Some (w, focused) \<Rightarrow> lease_queued w focused c)"

definition lease_next_scan :: "scan_coordinator \<Rightarrow> work_lease option \<times> scan_coordinator" where
  "lease_next_scan c =
     (case next_scan_queued c of None \<Rightarrow> (None, c) | Some (w, focused) \<Rightarrow> lease_queued w focused c)"

definition snapshot :: "scan_coordinator \<Rightarrow> scheduler_snapshot" where
  "snapshot c =
     \<lparr>ss_session = sc_session c, ss_generation = sc_generation c, ss_pending = rq_counts (sc_queues c),
      ss_active_leases = length (sc_active c),
      ss_active_deletion_execution = (sc_active_deletion_execution c \<noteq> None),
      ss_focus_count = length (sc_focus_paths c), ss_focus_epoch = sc_focus_epoch c,
      ss_terminal = sc_terminal c\<rparr>"

end
