(* ===== verification/Coordinator_Invariant.thy ===== *)
theory Coordinator_Invariant
  imports Scan_Coordinator
begin

text \<open>
  The invariant of the session coordinator and the proofs that every operation keeps it. The
  invariant is stated over the components that change together (the pending map with the ready
  queues, the active leases with their index and the deletion execution slot), so that the few
  primitive changes, adding and removing a pending item and adding and removing a lease, are
  proved once and the operations compose them.
\<close>

section \<open>The invariant\<close>

text \<open>The pending map and the ready queues hold the same items.\<close>

definition pq_inv :: "(work_key, pending_work) omap \<Rightarrow> ready_queues \<Rightarrow> bool" where
  "pq_inv P Q \<longleftrightarrow> om_wf P \<and> rq_wf Q \<and>
     (\<forall>pr w. w \<in> rq_elems Q pr \<longleftrightarrow> om_get P (qw_key w) = Some \<lparr>pw_priority = pr, pw_queued = w\<rparr>) \<and>
     (\<forall>k p. om_get P k = Some p \<longrightarrow> qw_key (pw_queued p) = k)"

text \<open>
  Leases are stored under their own id, below the next id; the key index is the inverse of the
  lease table; the deletion slot names the lease of the only deletion execution.
\<close>

definition act_inv :: "(lease_id, work_lease) omap \<Rightarrow> (work_key \<rightharpoonup> lease_id) \<Rightarrow> lease_id option \<Rightarrow> u64 \<Rightarrow> bool" where
  "act_inv A B E N \<longleftrightarrow> om_wf A \<and>
     (\<forall>i l. om_get A i = Some l \<longrightarrow> wl_id l = i \<and> i < N) \<and>
     (\<forall>k i. B k = Some i \<longleftrightarrow> (\<exists>l. om_get A i = Some l \<and> wl_key l = k)) \<and>
     (\<forall>i. E = Some i \<longleftrightarrow> (\<exists>l. om_get A i = Some l \<and> wk_kind (wl_key l) = ExecuteDeletion))"

text \<open>What a live key promises: its session, and for scan work the current generation.\<close>

definition key_current :: "scan_session_id \<Rightarrow> scan_generation \<Rightarrow> work_key \<Rightarrow> bool" where
  "key_current session generation k \<longleftrightarrow>
     wk_session k = session \<and> wk_generation k \<le> generation \<and>
     (is_scan_work (wk_kind k) \<longrightarrow> wk_generation k = generation)"

definition priority_ok :: "work_key \<Rightarrow> work_priority \<Rightarrow> bool" where
  "priority_ok k pr \<longleftrightarrow> (wk_kind k = ExecuteDeletion \<longrightarrow> pr = Safety)"

definition keys_inv :: "scan_session_id \<Rightarrow> scan_generation \<Rightarrow> (work_key, pending_work) omap \<Rightarrow>
    (lease_id, work_lease) omap \<Rightarrow> (work_key \<rightharpoonup> lease_id) \<Rightarrow> bool" where
  "keys_inv s g P A B \<longleftrightarrow>
     (\<forall>k p. om_get P k = Some p \<longrightarrow> B k = None \<and> key_current s g k \<and> priority_ok k (pw_priority p)) \<and>
     (\<forall>i l. om_get A i = Some l \<longrightarrow> key_current s g (wl_key l) \<and> priority_ok (wl_key l) (wl_priority l))"

definition focus_inv :: "relative_path list \<Rightarrow> bool" where
  "focus_inv F \<longleftrightarrow> length F \<le> MAX_FOCUS_PATHS \<and> distinct F"

definition coord_wf :: "scan_coordinator \<Rightarrow> bool" where
  "coord_wf c \<longleftrightarrow>
     pq_inv (sc_pending c) (sc_queues c) \<and>
     act_inv (sc_active c) (sc_active_by_key c) (sc_active_deletion_execution c) (sc_next_lease c) \<and>
     keys_inv (sc_session c) (sc_generation c) (sc_pending c) (sc_active c) (sc_active_by_key c) \<and>
     focus_inv (sc_focus_paths c)"

lemma coord_wfD:
  assumes "coord_wf c"
  shows "pq_inv (sc_pending c) (sc_queues c)"
    "act_inv (sc_active c) (sc_active_by_key c) (sc_active_deletion_execution c) (sc_next_lease c)"
    "keys_inv (sc_session c) (sc_generation c) (sc_pending c) (sc_active c) (sc_active_by_key c)"
    "focus_inv (sc_focus_paths c)"
  using assms by (simp_all add: coord_wf_def)

section \<open>Primitive changes\<close>

lemma pq_inv_empty [simp]: "pq_inv [] rq_default"
  by (simp add: pq_inv_def)

lemma pq_inv_elems:
  "pq_inv P Q \<Longrightarrow> w \<in> rq_elems Q pr \<longleftrightarrow> om_get P (qw_key w) = Some \<lparr>pw_priority = pr, pw_queued = w\<rparr>"
  by (simp add: pq_inv_def)

lemma pq_inv_key: "pq_inv P Q \<Longrightarrow> om_get P k = Some p \<Longrightarrow> qw_key (pw_queued p) = k"
  by (simp add: pq_inv_def)

lemma pq_inv_pending_elems:
  assumes "pq_inv P Q" "om_get P k = Some p"
  shows "pw_queued p \<in> rq_elems Q (pw_priority p)"
  using assms pq_inv_key [OF assms] by (simp add: pq_inv_elems)

lemma pq_inv_add:
  assumes "pq_inv P Q" "om_get P (qw_key w) = None"
  shows "pq_inv (om_insert (qw_key w) \<lparr>pw_priority = pr, pw_queued = w\<rparr> P) (rq_insert pr w Q)"
  using assms by (auto simp: pq_inv_def om_get_insert)

lemma pq_inv_remove:
  assumes "pq_inv P Q" "om_get P (qw_key w) = Some \<lparr>pw_priority = pr, pw_queued = w\<rparr>"
  shows "pq_inv (om_remove (qw_key w) P) (rq_remove pr w Q)"
  using assms by (auto simp: pq_inv_def)

lemma pq_inv_raise:
  assumes "pq_inv P Q" "om_get P (qw_key w) = Some \<lparr>pw_priority = pr, pw_queued = w\<rparr>"
  shows "pq_inv (om_insert (qw_key w) \<lparr>pw_priority = pr', pw_queued = w\<rparr> P)
    (rq_insert pr' w (rq_remove pr w Q))"
  using pq_inv_add [OF pq_inv_remove [OF assms], of w pr'] by (simp add: om_insert_remove_swap)

lemma act_inv_empty [simp]: "act_inv [] Map.empty None N"
  by (simp add: act_inv_def)

lemma act_inv_id: "act_inv A B E N \<Longrightarrow> om_get A i = Some l \<Longrightarrow> wl_id l = i"
  by (simp add: act_inv_def)

lemma act_inv_index: "act_inv A B E N \<Longrightarrow> B k = Some i \<longleftrightarrow> (\<exists>l. om_get A i = Some l \<and> wl_key l = k)"
  by (simp add: act_inv_def)

lemma act_inv_below: "act_inv A B E N \<Longrightarrow> om_get A i = Some l \<Longrightarrow> i < N"
  by (simp add: act_inv_def)

lemma act_inv_exec:
  "act_inv A B E N \<Longrightarrow> E = Some i \<longleftrightarrow> (\<exists>l. om_get A i = Some l \<and> wk_kind (wl_key l) = ExecuteDeletion)"
  by (simp add: act_inv_def)

lemma act_inv_om: "act_inv A B E N \<Longrightarrow> om_wf A"
  by (simp add: act_inv_def)

lemma act_invI:
  assumes "om_wf A" "\<And>i l. om_get A i = Some l \<Longrightarrow> wl_id l = i \<and> i < N"
    and "\<And>k i. B k = Some i \<longleftrightarrow> (\<exists>l. om_get A i = Some l \<and> wl_key l = k)"
    and "\<And>i. E = Some i \<longleftrightarrow> (\<exists>l. om_get A i = Some l \<and> wk_kind (wl_key l) = ExecuteDeletion)"
  shows "act_inv A B E N"
  using assms by (simp add: act_inv_def)

lemma act_inv_unique_key:
  assumes "act_inv A B E N" "om_get A i = Some l" "om_get A j = Some m" "wl_key l = wl_key m"
  shows "i = j"
proof -
  have "B (wl_key l) = Some i" "B (wl_key m) = Some j"
    using assms(2,3) by (auto simp: act_inv_index [OF assms(1)])
  with assms(4) show ?thesis by simp
qed

lemma act_inv_remove:
  assumes inv: "act_inv A B E N" and l: "om_get A i = Some l"
  shows "act_inv (om_remove i A) (B(wl_key l := None)) (if E = Some (wl_id l) then None else E) N"
proof -
  have id: "wl_id l = i" using inv l by (rule act_inv_id)
  have key: "om_get A j = Some m \<Longrightarrow> wl_key m = wl_key l \<Longrightarrow> j = i" for j m
    using act_inv_unique_key [OF inv _ l] by blast
  show ?thesis
  proof (rule act_invI)
    show "om_wf (om_remove i A)" using act_inv_om [OF inv] by simp
    show "wl_id m = j \<and> j < N" if "om_get (om_remove i A) j = Some m" for j m
      using that act_inv_id [OF inv, of j m] act_inv_below [OF inv, of j m] by (simp split: if_splits)
    show "(B(wl_key l := None)) k = Some j \<longleftrightarrow> (\<exists>m. om_get (om_remove i A) j = Some m \<and> wl_key m = k)" for k j
    proof -
      have "(B(wl_key l := None)) k = Some j \<longleftrightarrow> k \<noteq> wl_key l \<and> B k = Some j" by simp
      also have "\<dots> \<longleftrightarrow> (\<exists>m. om_get A j = Some m \<and> wl_key m = k \<and> j \<noteq> i)"
        unfolding act_inv_index [OF inv] using l key by (metis option.inject)
      finally show ?thesis by simp
    qed
    show "(if E = Some (wl_id l) then None else E) = Some j \<longleftrightarrow>
        (\<exists>m. om_get (om_remove i A) j = Some m \<and> wk_kind (wl_key m) = ExecuteDeletion)" for j
    proof -
      have "(if E = Some (wl_id l) then None else E) = Some j \<longleftrightarrow> E = Some j \<and> j \<noteq> i" using id by auto
      also have "\<dots> \<longleftrightarrow> (\<exists>m. om_get A j = Some m \<and> wk_kind (wl_key m) = ExecuteDeletion \<and> j \<noteq> i)"
        unfolding act_inv_exec [OF inv] by blast
      finally show ?thesis by simp
    qed
  qed
qed

lemma act_inv_add:
  assumes inv: "act_inv A B E N" and free: "B (wl_key l) = None" and id: "wl_id l = N" and max: "N \<noteq> - 1"
    and exec: "wk_kind (wl_key l) = ExecuteDeletion \<Longrightarrow> E = None"
  shows "act_inv (om_insert N l A) (B(wl_key l \<mapsto> N))
    (if wk_kind (wl_key l) = ExecuteDeletion then Some N else E) (sat_add N 1)"
proof -
  have wf: "om_wf A" using inv by (simp add: act_inv_def)
  have fresh: "om_get A N = None"
  proof (cases "om_get A N")
    case (Some m)
    with inv have "N < N" by (rule act_inv_below)
    then show ?thesis by simp
  qed simp
  have no_key: "om_get A j = Some m \<Longrightarrow> wl_key m \<noteq> wl_key l" for j m
    using free act_inv_index [OF inv, of "wl_key l" j] by auto
  have lt: "N < sat_add N 1" using max by (rule sat_add_1_greater)
  have "wl_id m = j \<and> j < sat_add N 1" if "om_get (om_insert N l A) j = Some m" for j m
    using that id lt act_inv_id [OF inv, of j m] act_inv_below [OF inv, of j m]
    by (auto simp: om_get_insert [OF wf] split: if_splits)
  moreover have "(B(wl_key l \<mapsto> N)) k = Some j \<longleftrightarrow>
      (\<exists>m. om_get (om_insert N l A) j = Some m \<and> wl_key m = k)" for k j
    using fresh no_key by (auto simp: om_get_insert [OF wf] act_inv_index [OF inv])
  moreover have "(if wk_kind (wl_key l) = ExecuteDeletion then Some N else E) = Some j \<longleftrightarrow>
      (\<exists>m. om_get (om_insert N l A) j = Some m \<and> wk_kind (wl_key m) = ExecuteDeletion)" for j
  proof -
    have "E = None \<Longrightarrow> om_get A j = Some m \<Longrightarrow> wk_kind (wl_key m) \<noteq> ExecuteDeletion" for m
      using act_inv_exec [OF inv, of j] by auto
    with exec fresh act_inv_exec [OF inv, of j] show ?thesis
      by (cases "j = N") (auto simp: om_get_insert [OF wf])
  qed
  ultimately show ?thesis using wf by (intro act_invI) simp_all
qed

lemma keys_inv_empty [simp]: "keys_inv s g [] [] B"
  by (simp add: keys_inv_def)

lemma keys_inv_pending:
  "keys_inv s g P A B \<Longrightarrow> om_get P k = Some p \<Longrightarrow>
    B k = None \<and> key_current s g k \<and> priority_ok k (pw_priority p)"
  by (simp add: keys_inv_def)

text \<open>Fewer live items keep the promises of the others.\<close>

lemma keys_inv_mono:
  assumes "keys_inv s g P A B"
    and "\<And>k p. om_get P' k = Some p \<Longrightarrow> om_get P k = Some p"
    and "\<And>i l. om_get A' i = Some l \<Longrightarrow> om_get A i = Some l"
    and "\<And>k. B k = None \<Longrightarrow> B' k = None"
  shows "keys_inv s g P' A' B'"
  using assms unfolding keys_inv_def by blast

section \<open>Removing sets of items\<close>

lemma fold_drop_pending:
  assumes "pq_inv (sc_pending c) (sc_queues c)" "distinct (map fst es)"
    "\<And>e. e \<in> set es \<Longrightarrow> om_get (sc_pending c) (fst e) = Some (snd e)"
  shows "\<exists>Q. fold drop_pending es c =
      c\<lparr>sc_pending := filter (\<lambda>e. fst e \<notin> fst ` set es) (sc_pending c), sc_queues := Q\<rparr> \<and>
    pq_inv (filter (\<lambda>e. fst e \<notin> fst ` set es) (sc_pending c)) Q"
  using assms
proof (induction es arbitrary: c)
  case Nil
  then show ?case by (intro exI [of _ "sc_queues c"]) simp
next
  case (Cons e es)
  obtain k p where e: "e = (k, p)" by (cases e)
  have get: "om_get (sc_pending c) k = Some p" using Cons.prems(3) e by force
  have key: "qw_key (pw_queued p) = k" using Cons.prems(1) get by (rule pq_inv_key)
  let ?P = "om_remove k (sc_pending c)" and ?Q = "rq_remove (pw_priority p) (pw_queued p) (sc_queues c)"
  have inv: "pq_inv ?P ?Q"
    using pq_inv_remove [of "sc_pending c" "sc_queues c" "pw_queued p" "pw_priority p"] Cons.prems(1) get key
    by simp
  have drop: "drop_pending e c = c\<lparr>sc_pending := ?P, sc_queues := ?Q\<rparr>"
    by (simp add: drop_pending_def e)
  have sub: "filter (\<lambda>x. fst x \<notin> fst ` set es) ?P = filter (\<lambda>x. fst x \<notin> fst ` set (e # es)) (sc_pending c)"
    by (auto simp: om_remove_def e intro: filter_cong)
  have "om_get ?P (fst x) = Some (snd x)" if "x \<in> set es" for x
    using that Cons.prems(2,3) e by force
  then obtain Q where "fold drop_pending es (c\<lparr>sc_pending := ?P, sc_queues := ?Q\<rparr>) =
      c\<lparr>sc_pending := filter (\<lambda>x. fst x \<notin> fst ` set es) ?P, sc_queues := Q\<rparr>"
    "pq_inv (filter (\<lambda>x. fst x \<notin> fst ` set es) ?P) Q"
    using Cons.IH [of "c\<lparr>sc_pending := ?P, sc_queues := ?Q\<rparr>"] Cons.prems(2) inv by auto
  then show ?case unfolding sub by (auto simp: drop)
qed

lemma fold_remove_active:
  assumes "act_inv (sc_active c) (sc_active_by_key c) (sc_active_deletion_execution c) N"
  shows "\<exists>B E. fold (\<lambda>i c. snd (remove_active i c)) is c =
      c\<lparr>sc_active := filter (\<lambda>e. fst e \<notin> set is) (sc_active c), sc_active_by_key := B,
        sc_active_deletion_execution := E\<rparr> \<and>
    act_inv (filter (\<lambda>e. fst e \<notin> set is) (sc_active c)) B E N \<and>
    (\<forall>k. sc_active_by_key c k = None \<longrightarrow> B k = None)"
  using assms
proof (induction "is" arbitrary: c)
  case Nil
  then show ?case
    by (intro exI [of _ "sc_active_by_key c"] exI [of _ "sc_active_deletion_execution c"]) simp
next
  case (Cons i "is")
  show ?case
  proof (cases "om_get (sc_active c) i")
    case None
    then have absent: "e \<in> set (sc_active c) \<Longrightarrow> fst e \<noteq> i" for e
      by (auto simp: om_get_None_iff)
    have "filter (\<lambda>e. fst e \<notin> set (i # is)) (sc_active c) = filter (\<lambda>e. fst e \<notin> set is) (sc_active c)"
      using absent by (intro filter_cong) auto
    then show ?thesis using Cons.IH [OF Cons.prems] None by (simp add: remove_active_def)
  next
    case (Some l)
    let ?c = "snd (remove_active i c)"
    have inv: "act_inv (sc_active ?c) (sc_active_by_key ?c) (sc_active_deletion_execution ?c) N"
      using act_inv_remove [OF Cons.prems Some] Some by (simp add: remove_active_def)
    have sub: "filter (\<lambda>e. fst e \<notin> set is) (sc_active ?c) =
        filter (\<lambda>e. fst e \<notin> set (i # is)) (sc_active c)"
      using Some by (auto simp: remove_active_def om_remove_def intro: filter_cong)
    have keep: "sc_active_by_key c k = None \<Longrightarrow> sc_active_by_key ?c k = None" for k
      using Some by (simp add: remove_active_def)
    have upd: "?c\<lparr>sc_active := X, sc_active_by_key := Y, sc_active_deletion_execution := Z\<rparr> =
        c\<lparr>sc_active := X, sc_active_by_key := Y, sc_active_deletion_execution := Z\<rparr>" for X Y Z
      using Some by (simp add: remove_active_def)
    obtain B E where "fold (\<lambda>i c. snd (remove_active i c)) is ?c =
        c\<lparr>sc_active := filter (\<lambda>e. fst e \<notin> set (i # is)) (sc_active c), sc_active_by_key := B,
          sc_active_deletion_execution := E\<rparr>"
      "act_inv (filter (\<lambda>e. fst e \<notin> set (i # is)) (sc_active c)) B E N"
      "\<forall>k. sc_active_by_key ?c k = None \<longrightarrow> B k = None"
      using Cons.IH [OF inv] unfolding upd sub by blast
    then show ?thesis using keep by (intro exI [of _ B] exI [of _ E] conjI) (simp_all)
  qed
qed

section \<open>Every operation keeps the invariant\<close>

lemma record_terminal_fields [simp]:
  "sc_session (record_terminal lc n c) = sc_session c"
  "sc_generation (record_terminal lc n c) = sc_generation c"
  "sc_next_sequence (record_terminal lc n c) = sc_next_sequence c"
  "sc_next_lease (record_terminal lc n c) = sc_next_lease c"
  "sc_pending (record_terminal lc n c) = sc_pending c"
  "sc_queues (record_terminal lc n c) = sc_queues c"
  "sc_active (record_terminal lc n c) = sc_active c"
  "sc_active_by_key (record_terminal lc n c) = sc_active_by_key c"
  "sc_active_deletion_execution (record_terminal lc n c) = sc_active_deletion_execution c"
  "sc_focus_paths (record_terminal lc n c) = sc_focus_paths c"
  "sc_focus_epoch (record_terminal lc n c) = sc_focus_epoch c"
  "sc_non_background_leases (record_terminal lc n c) = sc_non_background_leases c"
  by (simp_all add: record_terminal_def Let_def split: work_lifecycle.split)

lemma coord_wf_record_terminal [simp]: "coord_wf (record_terminal lc n c) \<longleftrightarrow> coord_wf c"
  by (simp add: coord_wf_def)

lemma coord_wf_new: "coord_wf (sc_new session generation)"
  by (simp add: coord_wf_def sc_new_def focus_inv_def)

lemma coord_wf_terminate_all: "coord_wf c \<Longrightarrow> coord_wf (terminate_all lc c)"
  by (simp add: coord_wf_def terminate_all_def Let_def)

lemma remove_active_wf:
  assumes "coord_wf c"
  shows "coord_wf (snd (remove_active i c))"
proof (cases "om_get (sc_active c) i")
  case None
  with assms show ?thesis by (simp add: remove_active_def)
next
  case (Some l)
  note wf = coord_wfD [OF assms]
  have "keys_inv (sc_session c) (sc_generation c) (sc_pending c) (om_remove i (sc_active c))
      ((sc_active_by_key c)(wl_key l := None))"
    by (rule keys_inv_mono [OF wf(3)]) (auto split: if_splits)
  with wf act_inv_remove [OF wf(2) Some] Some show ?thesis
    by (simp add: coord_wf_def remove_active_def)
qed

lemma terminate_matching_effect:
  assumes "coord_wf c"
  obtains Q B E T where
    "terminate_matching lc P c = c\<lparr>sc_pending := filter (\<lambda>e. \<not> P (fst e)) (sc_pending c), sc_queues := Q,
       sc_active := filter (\<lambda>e. \<not> P (wl_key (snd e))) (sc_active c), sc_active_by_key := B,
       sc_active_deletion_execution := E, sc_terminal := T\<rparr>"
    "pq_inv (filter (\<lambda>e. \<not> P (fst e)) (sc_pending c)) Q"
    "act_inv (filter (\<lambda>e. \<not> P (wl_key (snd e))) (sc_active c)) B E (sc_next_lease c)"
    "\<And>k. sc_active_by_key c k = None \<Longrightarrow> B k = None"
proof -
  note wf = coord_wfD [OF assms]
  let ?es = "filter (\<lambda>e. P (fst e)) (sc_pending c)"
  let ?is = "map fst (filter (\<lambda>e. P (wl_key (snd e))) (sc_active c))"
  have om: "om_wf (sc_pending c)" "om_wf (sc_active c)"
    using wf(1,2) by (simp_all add: pq_inv_def act_inv_def)
  have keep: "filter (\<lambda>e. fst e \<notin> fst ` set ?es) (sc_pending c) = filter (\<lambda>e. \<not> P (fst e)) (sc_pending c)"
    by (auto intro: filter_cong)
  have "om_get (sc_pending c) (fst e) = Some (snd e)" if "e \<in> set ?es" for e
    using that om(1) by (simp add: om_get_iff)
  moreover have "distinct (map fst ?es)" using om(1) om_wf_filter om_wf_distinct by blast
  ultimately obtain Q where Q: "fold drop_pending ?es c =
      c\<lparr>sc_pending := filter (\<lambda>e. \<not> P (fst e)) (sc_pending c), sc_queues := Q\<rparr>"
    "pq_inv (filter (\<lambda>e. \<not> P (fst e)) (sc_pending c)) Q"
    using fold_drop_pending [OF wf(1), of ?es] unfolding keep by blast
  let ?c1 = "c\<lparr>sc_pending := filter (\<lambda>e. \<not> P (fst e)) (sc_pending c), sc_queues := Q\<rparr>"
  have keep': "filter (\<lambda>e. fst e \<notin> set ?is) (sc_active c) = filter (\<lambda>e. \<not> P (wl_key (snd e))) (sc_active c)"
  proof (rule filter_cong [OF refl])
    fix e assume e: "e \<in> set (sc_active c)"
    have "f = e" if "f \<in> set (sc_active c)" "fst f = fst e" for f
      using om_wf_distinct [OF om(2)] e that by (auto simp: distinct_map inj_on_def)
    with e show "fst e \<notin> set ?is \<longleftrightarrow> \<not> P (wl_key (snd e))" by force
  qed
  obtain B E where BE: "fold (\<lambda>i c. snd (remove_active i c)) ?is ?c1 =
      ?c1\<lparr>sc_active := filter (\<lambda>e. \<not> P (wl_key (snd e))) (sc_active c), sc_active_by_key := B,
        sc_active_deletion_execution := E\<rparr>"
    "act_inv (filter (\<lambda>e. \<not> P (wl_key (snd e))) (sc_active c)) B E (sc_next_lease c)"
    "\<forall>k. sc_active_by_key c k = None \<longrightarrow> B k = None"
    using fold_remove_active [of ?c1 "sc_next_lease c" ?is] wf(2) keep' by auto
  have rt: "record_terminal lc n d = d\<lparr>sc_terminal := sc_terminal (record_terminal lc n d)\<rparr>" for n d
    by (simp add: record_terminal_def Let_def split: work_lifecycle.split)
  let ?n = "u64_of_count (usize_sat_add (length ?es) (length ?is))"
  let ?c2 = "?c1\<lparr>sc_active := filter (\<lambda>e. \<not> P (wl_key (snd e))) (sc_active c), sc_active_by_key := B,
        sc_active_deletion_execution := E\<rparr>"
  have "terminate_matching lc P c = record_terminal lc ?n ?c2"
    using Q(1) BE(1) by (simp add: terminate_matching_def Let_def)
  also have "\<dots> = ?c2\<lparr>sc_terminal := sc_terminal (record_terminal lc ?n ?c2)\<rparr>" by (rule rt)
  finally have eq: "terminate_matching lc P c = ?c2\<lparr>sc_terminal := sc_terminal (record_terminal lc ?n ?c2)\<rparr>" .
  show ?thesis by (rule that [OF eq Q(2) BE(2)]) (use BE(3) in blast)
qed

lemma keys_inv_filter:
  assumes "keys_inv s g P A B" "om_wf P" "om_wf A" "\<And>k. B k = None \<Longrightarrow> B' k = None"
  shows "keys_inv s g (filter f P) (filter h A) B'"
  by (rule keys_inv_mono [OF assms(1)])
    (use assms(2-) in \<open>auto simp: om_get_filter split: option.splits if_splits\<close>)

lemma coord_wf_om:
  assumes "coord_wf c"
  shows "om_wf (sc_pending c)" "om_wf (sc_active c)"
  using coord_wfD(1,2) [OF assms] by (simp_all add: pq_inv_def act_inv_def)

lemma coord_wf_terminate_matching:
  assumes "coord_wf c"
  shows "coord_wf (terminate_matching lc P c)"
proof (rule terminate_matching_effect [where lc = lc and P = P, OF assms])
  fix Q B E T
  assume eq: "terminate_matching lc P c =
      c\<lparr>sc_pending := filter (\<lambda>e. \<not> P (fst e)) (sc_pending c), sc_queues := Q,
       sc_active := filter (\<lambda>e. \<not> P (wl_key (snd e))) (sc_active c), sc_active_by_key := B,
       sc_active_deletion_execution := E, sc_terminal := T\<rparr>"
    and inv: "pq_inv (filter (\<lambda>e. \<not> P (fst e)) (sc_pending c)) Q"
      "act_inv (filter (\<lambda>e. \<not> P (wl_key (snd e))) (sc_active c)) B E (sc_next_lease c)"
      "\<And>k. sc_active_by_key c k = None \<Longrightarrow> B k = None"
  from inv coord_wfD(4) [OF assms] keys_inv_filter [OF coord_wfD(3) [OF assms] coord_wf_om [OF assms] inv(3)]
  show ?thesis by (simp add: eq coord_wf_def)
qed

text \<open>Only the exact active lease gets past the guards of \<open>finish\<close> and \<open>requeue\<close>.\<close>

lemma remove_active_exact:
  assumes "om_get (sc_active c) i = Some l"
  obtains c' where "remove_active i c = (Some l, c')"
  using assms by (simp add: remove_active_def)

lemma finish_stale: "om_get (sc_active c) (wl_id lease) \<noteq> Some lease \<Longrightarrow> finish lease completion c = (StaleLease, c)"
  by (simp add: finish_def split: option.split)

lemma finish_exact:
  "om_get (sc_active c) (wl_id lease) = Some lease \<Longrightarrow>
    finish lease completion c =
      (Accepted, record_terminal (lifecycle completion) 1 (snd (remove_active (wl_id lease) c)))"
  by (simp add: finish_def remove_active_def)

lemma requeue_stale: "om_get (sc_active c) (wl_id lease) \<noteq> Some lease \<Longrightarrow> requeue lease c = (RequeueStaleLease, c)"
  by (simp add: requeue_def split: option.split)

lemma requeue_exact:
  "om_get (sc_active c) (wl_id lease) = Some lease \<Longrightarrow>
    requeue lease c =
      (Requeued, enqueue_pending (wl_key lease) (wl_priority lease) (snd (remove_active (wl_id lease) c)))"
  by (simp add: requeue_def remove_active_def)

lemma coord_wf_finish:
  assumes "coord_wf c"
  shows "coord_wf (snd (finish lease completion c))"
  using assms remove_active_wf [OF assms, of "wl_id lease"]
  by (cases "om_get (sc_active c) (wl_id lease) = Some lease") (simp_all add: finish_stale finish_exact)

lemma enqueue_pending_wf:
  assumes "coord_wf c" "om_get (sc_pending c) key = None" "sc_active_by_key c key = None"
    "key_current (sc_session c) (sc_generation c) key" "priority_ok key pr"
  shows "coord_wf (enqueue_pending key pr c)"
proof -
  note wf = coord_wfD [OF assms(1)]
  have "pq_inv (om_insert key \<lparr>pw_priority = pr, pw_queued = QueuedWork (sc_next_sequence c) key\<rparr> (sc_pending c))
      (rq_insert pr (QueuedWork (sc_next_sequence c) key) (sc_queues c))"
    using pq_inv_add [OF wf(1), of "QueuedWork (sc_next_sequence c) key" pr] assms(2) by simp
  moreover have "keys_inv (sc_session c) (sc_generation c)
      (om_insert key \<lparr>pw_priority = pr, pw_queued = QueuedWork (sc_next_sequence c) key\<rparr> (sc_pending c))
      (sc_active c) (sc_active_by_key c)"
    using wf(3) assms(3-5) by (auto simp: keys_inv_def om_get_insert [OF coord_wf_om(1) [OF assms(1)]])
  ultimately show ?thesis using wf by (simp add: coord_wf_def enqueue_pending_def Let_def)
qed

lemma coord_wf_schedule:
  assumes "coord_wf c"
  shows "coord_wf (snd (schedule key priority c))"
proof -
  note wf = coord_wfD [OF assms]
  let ?pr = "normalized_priority (wk_kind key) priority"
  have ok: "priority_ok key ?pr" by (simp add: priority_ok_def normalized_priority_def)
  show ?thesis
  proof (cases "wk_session key = sc_session c \<and> wk_generation key = sc_generation c \<and>
      sc_active_by_key c key = None")
    case False
    with assms show ?thesis by (auto simp: schedule_def)
  next
    case True
    then have cur: "key_current (sc_session c) (sc_generation c) key" by (simp add: key_current_def)
    show ?thesis
    proof (cases "om_get (sc_pending c) key")
      case None
      with enqueue_pending_wf [OF assms None _ cur ok] True show ?thesis by (simp add: schedule_def)
    next
      case (Some p)
      have key: "qw_key (pw_queued p) = key" using wf(1) Some by (rule pq_inv_key)
      have "pq_inv (om_insert key \<lparr>pw_priority = ?pr, pw_queued = pw_queued p\<rparr> (sc_pending c))
          (rq_insert ?pr (pw_queued p) (rq_remove (pw_priority p) (pw_queued p) (sc_queues c)))"
        using pq_inv_raise [OF wf(1), of "pw_queued p" "pw_priority p" ?pr] Some key by simp
      moreover have "keys_inv (sc_session c) (sc_generation c)
          (om_insert key \<lparr>pw_priority = ?pr, pw_queued = pw_queued p\<rparr> (sc_pending c))
          (sc_active c) (sc_active_by_key c)"
        using wf(3) True cur ok by (auto simp: keys_inv_def om_get_insert [OF coord_wf_om(1) [OF assms]])
      ultimately show ?thesis using True Some wf assms by (auto simp: schedule_def Let_def coord_wf_def)
    qed
  qed
qed

lemma remove_active_frees:
  assumes "coord_wf c" "remove_active i c = (Some l, c')"
  shows "om_get (sc_active c) i = Some l" "wl_id l = i" "sc_active_by_key c' (wl_key l) = None"
    "om_get (sc_pending c') (wl_key l) = None" "coord_wf c'" "sc_pending c' = sc_pending c"
    "sc_session c' = sc_session c" "sc_generation c' = sc_generation c"
    "sc_active c' = om_remove i (sc_active c)" "sc_next_lease c' = sc_next_lease c"
proof -
  show l: "om_get (sc_active c) i = Some l" using assms(2) by (auto simp: remove_active_def split: option.splits)
  then show "wl_id l = i" using coord_wfD(2) [OF assms(1)] act_inv_id by blast
  have key: "sc_active_by_key c (wl_key l) = Some i"
    using l act_inv_index [OF coord_wfD(2) [OF assms(1)]] by blast
  then have "om_get (sc_pending c) (wl_key l) = None"
    using coord_wfD(3) [OF assms(1)] by (cases "om_get (sc_pending c) (wl_key l)") (auto simp: keys_inv_def)
  then show "sc_active_by_key c' (wl_key l) = None" "om_get (sc_pending c') (wl_key l) = None"
    "sc_pending c' = sc_pending c" "sc_session c' = sc_session c" "sc_generation c' = sc_generation c"
    "sc_active c' = om_remove i (sc_active c)" "sc_next_lease c' = sc_next_lease c"
    using assms(2) l by (auto simp: remove_active_def)
  show "coord_wf c'" using remove_active_wf [OF assms(1), of i] assms(2) by simp
qed

lemma coord_wf_requeue:
  assumes "coord_wf c"
  shows "coord_wf (snd (requeue lease c))"
proof (cases "om_get (sc_active c) (wl_id lease) = Some lease")
  case False
  with assms show ?thesis by (simp add: requeue_stale)
next
  case True
  then obtain c' where rm: "remove_active (wl_id lease) c = (Some lease, c')"
    by (rule remove_active_exact)
  note fr = remove_active_frees [OF assms rm]
  have "key_current (sc_session c) (sc_generation c) (wl_key lease)" "priority_ok (wl_key lease) (wl_priority lease)"
    using coord_wfD(3) [OF assms] True by (auto simp: keys_inv_def)
  then have "coord_wf (enqueue_pending (wl_key lease) (wl_priority lease) c')"
    using fr by (intro enqueue_pending_wf) simp_all
  with True rm show ?thesis by (simp add: requeue_exact)
qed

lemma coord_wf_focus: "coord_wf c \<Longrightarrow> coord_wf (focus path c)"
proof -
  assume wf: "coord_wf c"
  let ?paths = "remove_first (\<lambda>p. p = path) (sc_focus_paths c)"
  have F: "length (sc_focus_paths c) \<le> 32" "distinct (sc_focus_paths c)"
    using coord_wfD(4) [OF wf] by (simp_all add: focus_inv_def MAX_FOCUS_PATHS_def)
  have fresh: "path \<notin> set ?paths" using F(2) by (rule remove_first_notin)
  have d: "distinct ?paths" using F(2) by (rule distinct_remove_first)
  have len: "length ?paths \<le> 32" using F(1) length_remove_first_le [of "\<lambda>p. p = path"] order_trans by blast
  have "path \<notin> set (tl ?paths)" using fresh by (cases ?paths) auto
  then have "focus_inv (sc_focus_paths (focus path c))"
    using fresh d len by (auto simp: focus_def Let_def focus_inv_def MAX_FOCUS_PATHS_def distinct_tl)
  with coord_wfD [OF wf] show ?thesis by (simp add: coord_wf_def focus_def Let_def)
qed

section \<open>Selection and leasing\<close>

text \<open>A ready item: pending, and in the ready queue of its priority.\<close>

definition ready :: "scan_coordinator \<Rightarrow> work_priority \<Rightarrow> queued_work \<Rightarrow> bool" where
  "ready c pr w \<longleftrightarrow> om_get (sc_pending c) (qw_key w) = Some \<lparr>pw_priority = pr, pw_queued = w\<rparr>"

lemma ready_elems: "coord_wf c \<Longrightarrow> w \<in> rq_elems (sc_queues c) pr \<longleftrightarrow> ready c pr w"
  using pq_inv_elems [OF coord_wfD(1)] by (simp add: ready_def)

lemma pending_ready: "coord_wf c \<Longrightarrow> om_get (sc_pending c) k = Some p \<Longrightarrow> ready c (pw_priority p) (pw_queued p)"
  using pq_inv_key [OF coord_wfD(1)] by (simp add: ready_def)

lemma first_some_Some: "first_some f xs = Some y \<Longrightarrow> \<exists>x \<in> set xs. f x = Some y"
  by (induction xs) (auto split: option.splits)

lemma first_some_None: "first_some f xs = None \<longleftrightarrow> (\<forall>x \<in> set xs. f x = None)"
  by (induction xs) (auto split: option.splits)

abbreviation exec_active :: "scan_coordinator \<Rightarrow> bool" where
  "exec_active c \<equiv> sc_active_deletion_execution c \<noteq> None"

lemma next_focused_queued_Some:
  assumes "coord_wf c" "next_focused_queued ex c = Some w"
  shows "\<exists>pr p. pr \<in> {Background, Prefetch} \<and> ready c pr w \<and> eligible ex w \<and>
    p \<in> set (sc_focus_paths c) \<and> starts_with (wk_path (qw_key w)) p"
proof -
  have "\<exists>p \<in> set (rev (sc_focus_paths c)).
      first_some (\<lambda>pr. first_under pr p ex (sc_queues c)) [Background, Prefetch] = Some w"
    using assms(2) unfolding next_focused_queued_def by (rule first_some_Some)
  then obtain p where p: "p \<in> set (sc_focus_paths c)"
    "first_some (\<lambda>pr. first_under pr p ex (sc_queues c)) [Background, Prefetch] = Some w"
    unfolding set_rev by blast
  have "\<exists>pr \<in> set [Background, Prefetch]. first_under pr p ex (sc_queues c) = Some w"
    using p(2) by (rule first_some_Some)
  then obtain pr where pr: "pr \<in> {Background, Prefetch}" "first_under pr p ex (sc_queues c) = Some w"
    unfolding list.set by blast
  have "rq_wf (sc_queues c)" using coord_wfD(1) [OF assms(1)] by (simp add: pq_inv_def)
  from first_under_Some [OF this pr(2)] show ?thesis
    using p(1) pr(1) unfolding ready_elems [OF assms(1)] by (intro exI [of _ pr] exI [of _ p]) simp
qed

lemma next_queued_Some:
  assumes "coord_wf c" "next_queued c = Some (w, f)"
  shows "\<exists>pr. ready c pr w \<and> eligible (exec_active c) w"
proof -
  have pick: "first_eligible pr (exec_active c) (sc_queues c) = Some w \<Longrightarrow> ?thesis" for pr
    using first_eligible_Some ready_elems [OF assms(1)] by blast
  show ?thesis
    using assms(2) pick next_focused_queued_Some [OF assms(1)]
    unfolding next_queued_def Let_def
    by (auto split: option.splits if_splits dest!: first_some_Some) blast+
qed

lemma next_queued_None:
  assumes "coord_wf c"
  shows "next_queued c = None \<longleftrightarrow> (\<forall>pr w. ready c pr w \<longrightarrow> \<not> eligible (exec_active c) w)"
proof
  assume "next_queued c = None"
  then have "first_eligible pr (exec_active c) (sc_queues c) = None" for pr
    by (cases pr) (simp_all add: next_queued_def Let_def split: option.splits)
  then show "\<forall>pr w. ready c pr w \<longrightarrow> \<not> eligible (exec_active c) w"
    by (simp add: first_eligible_None ready_elems [OF assms])
next
  assume none: "\<forall>pr w. ready c pr w \<longrightarrow> \<not> eligible (exec_active c) w"
  show "next_queued c = None"
  proof (cases "next_queued c")
    case (Some x)
    obtain w f where "x = (w, f)" by (cases x)
    with Some next_queued_Some [OF assms] none show ?thesis by blast
  qed simp
qed

lemma next_scan_queued_Some:
  assumes "coord_wf c" "next_scan_queued c = Some (w, f)"
  shows "\<exists>pr. ready c pr w \<and> scan_eligible w"
proof -
  have rq: "rq_wf (sc_queues c)" using coord_wfD(1) [OF assms(1)] by (simp add: pq_inv_def)
  have pick: "first_scan_eligible pr (sc_queues c) = Some w \<Longrightarrow> ?thesis" for pr
    using first_scan_eligible_Some ready_elems [OF assms(1)] by blast
  have under: "first_scan_under pr p (sc_queues c) = Some w \<Longrightarrow> ?thesis" for pr p
    using first_scan_under_Some [OF rq] ready_elems [OF assms(1)] by blast
  show ?thesis
    using assms(2) pick under unfolding next_scan_queued_def Let_def
    by (auto split: option.splits if_splits dest!: first_some_Some)
qed

lemma next_scan_queued_None:
  assumes "coord_wf c" "next_scan_queued c = None"
  shows "ready c pr w \<Longrightarrow> pr \<noteq> Safety \<Longrightarrow> \<not> scan_eligible w"
proof -
  have "first_scan_eligible pr (sc_queues c) = None" if "pr \<noteq> Safety"
    using that assms(2) by (cases pr) (simp_all add: next_scan_queued_def Let_def split: option.splits)
  then show "ready c pr w \<Longrightarrow> pr \<noteq> Safety \<Longrightarrow> \<not> scan_eligible w"
    by (simp add: first_scan_eligible_None ready_elems [OF assms(1)])
qed

text \<open>The lease a ready item is granted.\<close>

definition lease_of :: "scan_coordinator \<Rightarrow> work_priority \<Rightarrow> queued_work \<Rightarrow> bool \<Rightarrow> work_lease" where
  "lease_of c pr w focused =
     \<lparr>wl_id = sc_next_lease c, wl_key = qw_key w, wl_priority = pr, wl_focused = focused\<rparr>"

lemma lease_queued_ready:
  "ready c pr w \<Longrightarrow> fst (lease_queued w f c) = Some (lease_of c pr w f)"
  by (simp add: lease_queued_def ready_def lease_of_def Let_def)

lemma lease_queued_wf:
  assumes "coord_wf c" "ready c pr w" "eligible (exec_active c) w" "sc_next_lease c \<noteq> - 1"
  shows "coord_wf (snd (lease_queued w f c))"
proof -
  note wf = coord_wfD [OF assms(1)]
  let ?l = "lease_of c pr w f"
  have get: "om_get (sc_pending c) (qw_key w) = Some \<lparr>pw_priority = pr, pw_queued = w\<rparr>"
    using assms(2) by (simp add: ready_def)
  have key: "sc_active_by_key c (qw_key w) = None" "key_current (sc_session c) (sc_generation c) (qw_key w)"
    "priority_ok (qw_key w) pr"
    using keys_inv_pending [OF wf(3) get] by simp_all
  have "pq_inv (om_remove (qw_key w) (sc_pending c)) (rq_remove pr w (sc_queues c))"
    using wf(1) get by (rule pq_inv_remove)
  moreover have "act_inv (om_insert (sc_next_lease c) ?l (sc_active c))
      ((sc_active_by_key c)(qw_key w \<mapsto> sc_next_lease c))
      (if wk_kind (qw_key w) = ExecuteDeletion then Some (sc_next_lease c) else sc_active_deletion_execution c)
      (sat_add (sc_next_lease c) 1)"
    using act_inv_add [OF wf(2), of ?l] key(1) assms(3,4) by (auto simp: lease_of_def eligible_def)
  moreover have "keys_inv (sc_session c) (sc_generation c) (om_remove (qw_key w) (sc_pending c))
      (om_insert (sc_next_lease c) ?l (sc_active c)) ((sc_active_by_key c)(qw_key w \<mapsto> sc_next_lease c))"
    using wf(3) key coord_wf_om(2) [OF assms(1)]
    by (auto simp: keys_inv_def om_get_insert lease_of_def split: if_splits)
  ultimately show ?thesis
    using wf(4) get
    by (cases "wk_kind (qw_key w) = ExecuteDeletion")
      (simp_all add: lease_queued_def Let_def coord_wf_def lease_of_def)
qed

lemma lease_next_cases:
  assumes "coord_wf c"
  obtains (none) "lease_next c = (None, c)" "next_queued c = None"
  | (lease) pr w f where "next_queued c = Some (w, f)" "ready c pr w" "eligible (exec_active c) w"
      "lease_next c = (Some (lease_of c pr w f), snd (lease_queued w f c))"
proof (cases "next_queued c")
  case None
  then show ?thesis using none by (simp add: lease_next_def)
next
  case (Some x)
  obtain w f where x: "x = (w, f)" by (cases x)
  then obtain pr where pr: "ready c pr w" "eligible (exec_active c) w"
    using next_queued_Some [OF assms] Some by blast
  have "lease_next c = (Some (lease_of c pr w f), snd (lease_queued w f c))"
    using Some x lease_queued_ready [OF pr(1), of f] by (simp add: lease_next_def prod_eq_iff)
  with Some x pr show ?thesis using lease by blast
qed

lemma scan_eligible_eligible: "scan_eligible w \<Longrightarrow> eligible ex w"
  by (auto simp: scan_eligible_def eligible_def is_scan_work_def)

lemma lease_next_scan_cases:
  assumes "coord_wf c"
  obtains (none) "lease_next_scan c = (None, c)" "next_scan_queued c = None"
  | (lease) pr w f where "next_scan_queued c = Some (w, f)" "ready c pr w" "scan_eligible w"
      "lease_next_scan c = (Some (lease_of c pr w f), snd (lease_queued w f c))"
proof (cases "next_scan_queued c")
  case None
  then show ?thesis using none by (simp add: lease_next_scan_def)
next
  case (Some x)
  obtain w f where x: "x = (w, f)" by (cases x)
  then obtain pr where pr: "ready c pr w" "scan_eligible w"
    using next_scan_queued_Some [OF assms] Some by blast
  have "lease_next_scan c = (Some (lease_of c pr w f), snd (lease_queued w f c))"
    using Some x lease_queued_ready [OF pr(1), of f] by (simp add: lease_next_scan_def prod_eq_iff)
  with Some x pr show ?thesis using lease by blast
qed

lemma lease_exact_cases:
  assumes "coord_wf c"
  obtains (none) "lease_exact k c = (None, c)"
    "om_get (sc_pending c) k = None \<or> wk_kind k = ExecuteDeletion \<and> exec_active c"
  | (lease) pr w where "qw_key w = k" "ready c pr w" "eligible (exec_active c) w"
      "lease_exact k c = (Some (lease_of c pr w False), snd (lease_queued w False c))"
proof (cases "om_get (sc_pending c) k")
  case None
  then show ?thesis using none by (simp add: lease_exact_def)
next
  case (Some p)
  have key: "qw_key (pw_queued p) = k" using coord_wfD(1) [OF assms] Some by (rule pq_inv_key)
  have rdy: "ready c (pw_priority p) (pw_queued p)" using assms Some by (rule pending_ready)
  show ?thesis
  proof (cases "wk_kind k = ExecuteDeletion \<and> exec_active c")
    case True
    with Some key show ?thesis using none by (simp add: lease_exact_def)
  next
    case False
    then have "eligible (exec_active c) (pw_queued p)" using key by (auto simp: eligible_def)
    moreover have "lease_exact k c = (Some (lease_of c (pw_priority p) (pw_queued p) False),
        snd (lease_queued (pw_queued p) False c))"
      using False Some key lease_queued_ready [OF rdy, of False] by (simp add: lease_exact_def prod_eq_iff)
    ultimately show ?thesis using lease key rdy by blast
  qed
qed

lemma coord_wf_lease_next:
  assumes "coord_wf c" "sc_next_lease c \<noteq> - 1"
  shows "coord_wf (snd (lease_next c))"
  using assms(1) by (cases rule: lease_next_cases) (simp_all add: assms lease_queued_wf)

lemma coord_wf_lease_next_scan:
  assumes "coord_wf c" "sc_next_lease c \<noteq> - 1"
  shows "coord_wf (snd (lease_next_scan c))"
  using assms(1)
  by (cases rule: lease_next_scan_cases) (simp_all add: assms lease_queued_wf scan_eligible_eligible)

lemma coord_wf_lease_exact:
  assumes "coord_wf c" "sc_next_lease c \<noteq> - 1"
  shows "coord_wf (snd (lease_exact k c))"
  using assms(1) by (cases rule: lease_exact_cases [where k = k]) (simp_all add: assms lease_queued_wf)

end
