(* ===== verification/Coordinator_Properties.thy ===== *)
theory Coordinator_Properties
  imports Coordinator_Invariant
begin

text \<open>
  What the session coordinator guarantees: the invariant in every reachable state, one lease per
  key and one deletion execution at a time, exact completion, selection that never misses eligible
  work and never starves background traversal, exact invalidation, and the handover between scan
  generations. Properties that the root theory states are proved here as lemmas.
\<close>

section \<open>Invalidation below a prefix\<close>

lemma pq_inv_drop_absent:
  assumes "pq_inv P Q" "om_get P (qw_key w) = None"
  shows "pq_inv P (rq_remove pr w Q)"
proof -
  have "w \<notin> rq_elems Q pr'" for pr' using assms by (simp add: pq_inv_elems)
  then show ?thesis using assms(1) by (simp add: pq_inv_def)
qed

lemma om_remove_absent: "om_get P k = None \<Longrightarrow> om_remove k P = P"
  by (auto simp: om_remove_def om_get_None_iff filter_id_conv)

lemma om_remove_filter:
  "filter (\<lambda>e. fst e \<notin> K) (om_remove k P) = filter (\<lambda>e. fst e \<notin> insert k K) P"
  by (auto simp: om_remove_def intro: filter_cong)

definition entry_key :: "work_priority \<times> queued_work \<Rightarrow> work_key" where
  "entry_key e = qw_key (snd e)"

text \<open>A step of the pending loop keeps the invariant and counts a removal exactly when it happens.\<close>

lemma invalidate_pending_step_effect:
  assumes "pq_inv (sc_pending c) (sc_queues c)" "n \<le> 2 ^ 64 - 1"
    "om_get (sc_pending c) (qw_key w) \<in> {None, Some \<lparr>pw_priority = pr, pw_queued = w\<rparr>}"
  shows "invalidate_pending_step (pr, w) (n, c) =
      (min (n + (length (sc_pending c) - length (om_remove (qw_key w) (sc_pending c)))) (2 ^ 64 - 1),
       c\<lparr>sc_pending := om_remove (qw_key w) (sc_pending c), sc_queues := rq_remove pr w (sc_queues c)\<rparr>)"
    and "pq_inv (om_remove (qw_key w) (sc_pending c)) (rq_remove pr w (sc_queues c))"
proof -
  have om: "om_wf (sc_pending c)" using assms(1) by (simp add: pq_inv_def)
  show "pq_inv (om_remove (qw_key w) (sc_pending c)) (rq_remove pr w (sc_queues c))"
  proof (cases "om_get (sc_pending c) (qw_key w)")
    case None
    then show ?thesis using pq_inv_drop_absent [OF assms(1)] by (simp add: om_remove_absent)
  next
    case (Some p)
    then show ?thesis using assms(3) by (intro pq_inv_remove [OF assms(1)]) simp
  qed
  show "invalidate_pending_step (pr, w) (n, c) =
      (min (n + (length (sc_pending c) - length (om_remove (qw_key w) (sc_pending c)))) (2 ^ 64 - 1),
       c\<lparr>sc_pending := om_remove (qw_key w) (sc_pending c), sc_queues := rq_remove pr w (sc_queues c)\<rparr>)"
    unfolding om_removed_count [OF om] using assms(2)
    by (simp add: invalidate_pending_step_def usize_sat_add_def Let_def)
qed

lemma fold_invalidate_pending:
  assumes "pq_inv (sc_pending c) (sc_queues c)" "n \<le> 2 ^ 64 - 1"
    "\<And>pr w. (pr, w) \<in> set L \<Longrightarrow>
      om_get (sc_pending c) (qw_key w) \<in> {None, Some \<lparr>pw_priority = pr, pw_queued = w\<rparr>}"
  defines "P' \<equiv> filter (\<lambda>e. fst e \<notin> entry_key ` set L) (sc_pending c)"
  shows "\<exists>Q. fold invalidate_pending_step L (n, c) =
      (min (n + (length (sc_pending c) - length P')) (2 ^ 64 - 1), c\<lparr>sc_pending := P', sc_queues := Q\<rparr>) \<and>
    pq_inv P' Q"
  using assms(1-3) unfolding P'_def
proof (induction L arbitrary: c n)
  case Nil
  then show ?case by (intro exI [of _ "sc_queues c"]) simp
next
  case (Cons e L)
  obtain pr w where e: "e = (pr, w)" by (cases e)
  have here: "om_get (sc_pending c) (qw_key w) \<in> {None, Some \<lparr>pw_priority = pr, pw_queued = w\<rparr>}"
    using Cons.prems(3) e by simp
  note step = invalidate_pending_step_effect [OF Cons.prems(1,2) here]
  let ?P = "om_remove (qw_key w) (sc_pending c)"
  let ?c = "c\<lparr>sc_pending := ?P, sc_queues := rq_remove pr w (sc_queues c)\<rparr>"
  let ?n = "min (n + (length (sc_pending c) - length ?P)) (2 ^ 64 - 1)"
  let ?P' = "filter (\<lambda>x. fst x \<notin> entry_key ` set (e # L)) (sc_pending c)"
  have sub: "filter (\<lambda>x. fst x \<notin> entry_key ` set L) ?P = ?P'"
    by (simp add: om_remove_filter e entry_key_def)
  have le: "length ?P' \<le> length ?P" "length ?P \<le> length (sc_pending c)"
    unfolding sub [symmetric] by (rule length_filter_le, simp add: om_remove_def)
  have "om_get ?P (qw_key v) \<in> {None, Some \<lparr>pw_priority = pr', pw_queued = v\<rparr>}" if "(pr', v) \<in> set L" for pr' v
    using Cons.prems(3) [of pr' v] that by auto
  then have "\<exists>Q. fold invalidate_pending_step L (?n, ?c) =
      (min (?n + (length (sc_pending ?c) - length (filter (\<lambda>x. fst x \<notin> entry_key ` set L) (sc_pending ?c)))) (2 ^ 64 - 1),
       ?c\<lparr>sc_pending := filter (\<lambda>x. fst x \<notin> entry_key ` set L) (sc_pending ?c), sc_queues := Q\<rparr>) \<and>
      pq_inv (filter (\<lambda>x. fst x \<notin> entry_key ` set L) (sc_pending ?c)) Q"
    using step(2) by (intro Cons.IH) simp_all
  then obtain Q where "fold invalidate_pending_step L (?n, ?c) =
      (min (?n + (length ?P - length ?P')) (2 ^ 64 - 1), c\<lparr>sc_pending := ?P', sc_queues := Q\<rparr>)"
    "pq_inv ?P' Q"
    using sub by auto
  moreover have "min (?n + (length ?P - length ?P')) (2 ^ 64 - 1) =
      min (n + (length (sc_pending c) - length ?P')) (2 ^ 64 - 1)" using le by linarith
  ultimately show ?case using step(1) e by auto
qed

lemma snd_fold_invalidate_active:
  "snd (fold invalidate_active_step is (n, c)) = fold (\<lambda>i c. snd (remove_active i c)) is c"
  by (induction "is" arbitrary: n c) (simp_all add: invalidate_active_step_def split_beta)

lemma fst_fold_invalidate_active:
  assumes "om_wf (sc_active c)" "n \<le> 2 ^ 64 - 1"
  shows "fst (fold invalidate_active_step is (n, c)) =
    min (n + (length (sc_active c) - length (filter (\<lambda>e. fst e \<notin> set is) (sc_active c)))) (2 ^ 64 - 1)"
  using assms
proof (induction "is" arbitrary: n c)
  case (Cons i "is")
  let ?c = "snd (remove_active i c)"
  let ?n = "min (n + (length (sc_active c) - length (om_remove i (sc_active c)))) (2 ^ 64 - 1)"
  have act: "sc_active ?c = om_remove i (sc_active c)"
    by (cases "om_get (sc_active c) i") (simp_all add: remove_active_def om_remove_absent)
  have "invalidate_active_step i (n, c) = (?n, ?c)"
    unfolding om_removed_count [OF Cons.prems(1)] using Cons.prems(2)
    by (cases "om_get (sc_active c) i")
      (simp_all add: invalidate_active_step_def remove_active_def usize_sat_add_def)
  moreover have "fst (fold invalidate_active_step is (?n, ?c)) =
      min (?n + (length (sc_active ?c) - length (filter (\<lambda>e. fst e \<notin> set is) (sc_active ?c)))) (2 ^ 64 - 1)"
    using Cons.IH [of ?c ?n] Cons.prems act by simp
  moreover have "filter (\<lambda>e. fst e \<notin> set is) (sc_active ?c) = filter (\<lambda>e. fst e \<notin> set (i # is)) (sc_active c)"
    by (simp add: act om_remove_filter)
  moreover have "length (filter (\<lambda>e. fst e \<notin> set is) (sc_active ?c)) \<le> length (sc_active ?c)"
    by (rule length_filter_le)
  moreover have "length (sc_active ?c) \<le> length (sc_active c)" by (simp add: act om_remove_def)
  ultimately show ?case unfolding act by (simp only: fold_simps) linarith
qed simp

text \<open>The work an invalidation of a prefix reaches.\<close>

definition below :: "scan_generation \<Rightarrow> relative_path \<Rightarrow> work_key \<Rightarrow> bool" where
  "below g pre k \<longleftrightarrow> wk_generation k = g \<and> starts_with (wk_path k) pre"

lemma filter_active_ids:
  assumes "om_wf A"
  shows "filter (\<lambda>e. fst e \<notin> set (map fst (filter P A))) A = filter (\<lambda>e. \<not> P e) A"
proof (rule filter_cong [OF refl])
  fix e assume e: "e \<in> set A"
  have "f = e" if "f \<in> set A" "fst f = fst e" for f
    using om_wf_distinct [OF assms] e that by (auto simp: distinct_map inj_on_def)
  with e show "fst e \<notin> set (map fst (filter P A)) \<longleftrightarrow> \<not> P e" by force
qed

lemma invalidate_prefix_effect:
  fixes c :: scan_coordinator and g :: scan_generation and pre :: relative_path
  assumes "coord_wf c"
  defines "P' \<equiv> filter (\<lambda>e. \<not> below g pre (fst e)) (sc_pending c)"
    and "A' \<equiv> filter (\<lambda>e. \<not> below g pre (wl_key (snd e))) (sc_active c)"
  shows "\<exists>Q B E T. invalidate_prefix g pre c =
      (\<lparr>inv_pending = min (length (sc_pending c) - length P') (2 ^ 64 - 1),
        inv_active = min (length (sc_active c) - length A') (2 ^ 64 - 1)\<rparr>,
       c\<lparr>sc_pending := P', sc_queues := Q, sc_active := A', sc_active_by_key := B,
         sc_active_deletion_execution := E, sc_terminal := T\<rparr>) \<and>
    pq_inv P' Q \<and> act_inv A' B E (sc_next_lease c) \<and> (\<forall>k. sc_active_by_key c k = None \<longrightarrow> B k = None)"
proof -
  note wf = coord_wfD [OF assms(1)] and om = coord_wf_om [OF assms(1)]
  let ?L = "pending_under g pre (sc_queues c)"
  have L: "(pr, w) \<in> set ?L \<longleftrightarrow> ready c pr w \<and> below g pre (qw_key w)" for pr w
    using set_pending_under [of "sc_queues c" g pre] wf(1) ready_elems [OF assms(1)]
    by (auto simp: pq_inv_def below_def)
  have keys: "fst e \<in> entry_key ` set ?L \<longleftrightarrow> below g pre (fst e)" if "e \<in> set (sc_pending c)" for e
  proof
    assume "fst e \<in> entry_key ` set ?L"
    with L show "below g pre (fst e)" by (auto simp: entry_key_def)
  next
    assume b: "below g pre (fst e)"
    have get: "om_get (sc_pending c) (fst e) = Some (snd e)" using that om(1) by (simp add: om_get_iff)
    have "(pw_priority (snd e), pw_queued (snd e)) \<in> set ?L"
      using b pending_ready [OF assms(1) get] pq_inv_key [OF wf(1) get] by (simp add: L)
    then show "fst e \<in> entry_key ` set ?L"
      using pq_inv_key [OF wf(1) get] by (intro image_eqI [of _ _ "(pw_priority (snd e), pw_queued (snd e))"]) (simp_all add: entry_key_def)
  qed
  have P': "filter (\<lambda>e. fst e \<notin> entry_key ` set ?L) (sc_pending c) = P'"
    unfolding P'_def by (rule filter_cong [OF refl]) (use keys in blast)
  have "om_get (sc_pending c) (qw_key w) \<in> {None, Some \<lparr>pw_priority = pr, pw_queued = w\<rparr>}"
    if "(pr, w) \<in> set ?L" for pr w using that by (simp add: L ready_def)
  then obtain Q where Q: "fold invalidate_pending_step ?L (0, c) =
      (min (length (sc_pending c) - length P') (2 ^ 64 - 1), c\<lparr>sc_pending := P', sc_queues := Q\<rparr>)" "pq_inv P' Q"
    using fold_invalidate_pending [OF wf(1), of 0 ?L] unfolding P' by auto
  let ?p = "min (length (sc_pending c) - length P') (2 ^ 64 - 1)"
  let ?c2 = "record_terminal LInvalidated (u64_of_count ?p) (c\<lparr>sc_pending := P', sc_queues := Q\<rparr>)"
  let ?is = "map fst (filter (\<lambda>e. below g pre (wl_key (snd e))) (sc_active c))"
  have A': "filter (\<lambda>e. fst e \<notin> set ?is) (sc_active c) = A'"
    unfolding A'_def by (rule filter_active_ids [OF om(2)])
  have inv2: "act_inv (sc_active ?c2) (sc_active_by_key ?c2) (sc_active_deletion_execution ?c2) (sc_next_lease c)"
    using wf(2) by simp
  obtain B E where BE: "fold (\<lambda>i c. snd (remove_active i c)) ?is ?c2 =
      ?c2\<lparr>sc_active := A', sc_active_by_key := B, sc_active_deletion_execution := E\<rparr>"
    "act_inv A' B E (sc_next_lease c)" "\<forall>k. sc_active_by_key c k = None \<longrightarrow> B k = None"
    using fold_remove_active [OF inv2, of ?is] A' by auto
  have act: "fold invalidate_active_step ?is (0, ?c2) =
      (min (length (sc_active c) - length A') (2 ^ 64 - 1),
       ?c2\<lparr>sc_active := A', sc_active_by_key := B, sc_active_deletion_execution := E\<rparr>)"
    using snd_fold_invalidate_active [of ?is 0 ?c2] fst_fold_invalidate_active [of ?c2 0 ?is] om(2) A' BE(1)
    by (simp add: prod_eq_iff)
  have rt: "record_terminal LInvalidated n d = d\<lparr>sc_terminal := sc_terminal (record_terminal LInvalidated n d)\<rparr>" for n d
    by (simp add: record_terminal_def Let_def)
  have eq: "invalidate_prefix g pre c =
      (\<lparr>inv_pending = ?p, inv_active = min (length (sc_active c) - length A') (2 ^ 64 - 1)\<rparr>,
       record_terminal LInvalidated (u64_of_count (min (length (sc_active c) - length A') (2 ^ 64 - 1)))
         (?c2\<lparr>sc_active := A', sc_active_by_key := B, sc_active_deletion_execution := E\<rparr>))"
    using Q(1) act by (simp add: invalidate_prefix_def below_def)
  show ?thesis
    unfolding eq using Q(2) BE(2,3)
    by (intro exI [of _ Q] exI [of _ B] exI [of _ E] exI conjI) (simp_all add: record_terminal_def Let_def)
qed

lemma coord_wf_invalidate_prefix:
  assumes "coord_wf c"
  shows "coord_wf (snd (invalidate_prefix g pre c))"
proof -
  let ?P = "filter (\<lambda>e. \<not> below g pre (fst e)) (sc_pending c)"
  let ?A = "filter (\<lambda>e. \<not> below g pre (wl_key (snd e))) (sc_active c)"
  obtain Q B E T i where eq: "invalidate_prefix g pre c =
      (i, c\<lparr>sc_pending := ?P, sc_queues := Q, sc_active := ?A, sc_active_by_key := B,
         sc_active_deletion_execution := E, sc_terminal := T\<rparr>)"
    and inv: "pq_inv ?P Q" "act_inv ?A B E (sc_next_lease c)" "\<forall>k. sc_active_by_key c k = None \<longrightarrow> B k = None"
    using invalidate_prefix_effect [OF assms, of g pre] by blast
  show ?thesis
    using inv keys_inv_filter [OF coord_wfD(3) [OF assms] coord_wf_om [OF assms], of B] coord_wfD(4) [OF assms]
    by (simp add: coord_wf_def eq)
qed

section \<open>Generations\<close>

lemma key_current_advance:
  "key_current s g k \<Longrightarrow> g < g' \<Longrightarrow> \<not> is_scan_work (wk_kind k) \<Longrightarrow> key_current s g' k"
  by (auto simp: key_current_def)

lemma advance_to_effect:
  assumes wf: "coord_wf c" and newer: "sc_generation c < g"
  shows "fst (advance_to g c)" "coord_wf (snd (advance_to g c))"
    "sc_pending (snd (advance_to g c)) = filter (\<lambda>e. \<not> is_scan_work (wk_kind (fst e))) (sc_pending c)"
    "sc_active (snd (advance_to g c)) = filter (\<lambda>e. \<not> is_scan_work (wk_kind (wl_key (snd e)))) (sc_active c)"
    "sc_generation (snd (advance_to g c)) = g" "sc_focus_paths (snd (advance_to g c)) = []"
    "sc_terminal (snd (advance_to g c)) = terminal_default"
    "sc_next_lease (snd (advance_to g c)) = sc_next_lease c"
proof -
  let ?P = "filter (\<lambda>e. \<not> is_scan_work (wk_kind (fst e))) (sc_pending c)"
  let ?A = "filter (\<lambda>e. \<not> is_scan_work (wk_kind (wl_key (snd e)))) (sc_active c)"
  let ?d = "snd (advance_to g c)"
  have "fst (advance_to g c) \<and> coord_wf ?d \<and> sc_pending ?d = ?P \<and> sc_active ?d = ?A \<and> sc_generation ?d = g \<and>
    sc_focus_paths ?d = [] \<and> sc_terminal ?d = terminal_default \<and> sc_next_lease ?d = sc_next_lease c"
  proof (rule terminate_matching_effect [where lc = LInvalidated and P = "\<lambda>k. is_scan_work (wk_kind k)", OF wf])
  fix Q B E T
  assume eq: "terminate_matching LInvalidated (\<lambda>k. is_scan_work (wk_kind k)) c =
      c\<lparr>sc_pending := ?P, sc_queues := Q, sc_active := ?A, sc_active_by_key := B,
       sc_active_deletion_execution := E, sc_terminal := T\<rparr>"
    and inv: "pq_inv ?P Q" "act_inv ?A B E (sc_next_lease c)"
      "\<And>k. sc_active_by_key c k = None \<Longrightarrow> B k = None"
  have "keys_inv (sc_session c) (sc_generation c) ?P ?A B"
    by (rule keys_inv_filter [OF coord_wfD(3) [OF wf] coord_wf_om [OF wf] inv(3)])
  then have "keys_inv (sc_session c) g ?P ?A B"
    using coord_wf_om [OF wf] key_current_advance [OF _ newer]
    by (auto simp: keys_inv_def om_get_filter split: option.splits if_splits)
  with inv(1,2) newer show "fst (advance_to g c) \<and> coord_wf ?d \<and> sc_pending ?d = ?P \<and> sc_active ?d = ?A \<and>
      sc_generation ?d = g \<and> sc_focus_paths ?d = [] \<and> sc_terminal ?d = terminal_default \<and>
      sc_next_lease ?d = sc_next_lease c"
    by (simp add: advance_to_def eq Let_def coord_wf_def focus_inv_def)
  qed
  then show "fst (advance_to g c)" "coord_wf ?d" "sc_pending ?d = ?P" "sc_active ?d = ?A" "sc_generation ?d = g"
    "sc_focus_paths ?d = []" "sc_terminal ?d = terminal_default" "sc_next_lease ?d = sc_next_lease c"
    by blast+
qed

lemma advance_to_stale: "g \<le> sc_generation c \<Longrightarrow> advance_to g c = (False, c)"
  by (simp add: advance_to_def)

lemma coord_wf_advance_to: "coord_wf c \<Longrightarrow> coord_wf (snd (advance_to g c))"
  using advance_to_effect(2) [of c g] advance_to_stale [of g c] by (cases "g \<le> sc_generation c") auto

section \<open>Reachable states\<close>

text \<open>One call of a public operation.\<close>

inductive coord_step :: "scan_coordinator \<Rightarrow> scan_coordinator \<Rightarrow> bool" where
  schedule: "coord_step c (snd (schedule k pr c))"
| focus: "coord_step c (focus p c)"
| lease_next: "coord_step c (snd (lease_next c))"
| lease_next_scan: "coord_step c (snd (lease_next_scan c))"
| lease_exact: "coord_step c (snd (lease_exact k c))"
| finish: "coord_step c (snd (finish l done_as c))"
| requeue: "coord_step c (snd (requeue l c))"
| terminate_all: "lc \<in> {LCancelled, LFailed, LInvalidated} \<Longrightarrow> coord_step c (terminate_all lc c)"
| terminate_scan: "lc \<in> {LCancelled, LFailed, LInvalidated} \<Longrightarrow>
    coord_step c (terminate_matching lc is_enumeration c)"
| invalidate_prefix: "coord_step c (snd (invalidate_prefix g pre c))"
| advance_to: "coord_step c (snd (advance_to g c))"
| advance_generation: "coord_step c (snd (advance_generation c))"

text \<open>The states after exactly \<open>n\<close> operations on a new coordinator.\<close>

inductive coord_run :: "scan_session_id \<Rightarrow> scan_generation \<Rightarrow> nat \<Rightarrow> scan_coordinator \<Rightarrow> bool"
  for s g where
  start: "coord_run s g 0 (sc_new s g)"
| step: "coord_run s g n c \<Longrightarrow> coord_step c c' \<Longrightarrow> coord_run s g (Suc n) c'"

inductive_cases coord_run_SucE: "coord_run s g (Suc n) c"

lemma lease_queued_next: "unat (sc_next_lease (snd (lease_queued w f c))) \<le> Suc (unat (sc_next_lease c))"
  using unat_sat_add_1_le [of "sc_next_lease c"]
  by (simp add: lease_queued_def Let_def split: option.split)

lemma remove_active_next [simp]: "sc_next_lease (snd (remove_active i c)) = sc_next_lease c"
  by (simp add: remove_active_def split: option.split)

lemma terminate_matching_next:
  assumes "coord_wf c"
  shows "sc_next_lease (terminate_matching lc P c) = sc_next_lease c"
proof (rule terminate_matching_effect [where lc = lc and P = P, OF assms])
  fix Q B E T
  assume eq: "terminate_matching lc P c =
      c\<lparr>sc_pending := filter (\<lambda>e. \<not> P (fst e)) (sc_pending c), sc_queues := Q,
       sc_active := filter (\<lambda>e. \<not> P (wl_key (snd e))) (sc_active c), sc_active_by_key := B,
       sc_active_deletion_execution := E, sc_terminal := T\<rparr>"
  show ?thesis by (simp add: eq)
qed

lemma invalidate_prefix_next:
  assumes "coord_wf c"
  shows "sc_next_lease (snd (invalidate_prefix g pre c)) = sc_next_lease c"
proof -
  obtain i P Q A B E T where "invalidate_prefix g pre c =
      (i, c\<lparr>sc_pending := P, sc_queues := Q, sc_active := A, sc_active_by_key := B,
         sc_active_deletion_execution := E, sc_terminal := T\<rparr>)"
    using invalidate_prefix_effect [OF assms, of g pre] by blast
  then show ?thesis by simp
qed

lemma finish_next [simp]: "sc_next_lease (snd (finish l done_as c)) = sc_next_lease c"
  by (cases "om_get (sc_active c) (wl_id l) = Some l") (simp_all add: finish_stale finish_exact)

lemma requeue_next [simp]: "sc_next_lease (snd (requeue l c)) = sc_next_lease c"
  by (cases "om_get (sc_active c) (wl_id l) = Some l")
    (simp_all add: requeue_stale requeue_exact enqueue_pending_def Let_def)

lemma schedule_next [simp]: "sc_next_lease (snd (schedule k pr c)) = sc_next_lease c"
  by (auto simp: schedule_def Let_def enqueue_pending_def split: option.split)

lemma advance_to_next: "coord_wf c \<Longrightarrow> sc_next_lease (snd (advance_to g c)) = sc_next_lease c"
  using advance_to_effect(8) [of c g] advance_to_stale [of g c] by (cases "g \<le> sc_generation c") auto

lemma coord_step_next:
  assumes "coord_step c c'" "coord_wf c"
  shows "unat (sc_next_lease c') \<le> Suc (unat (sc_next_lease c))"
  using assms
proof (cases rule: coord_step.cases)
  case lease_next
  then show ?thesis using lease_queued_next by (auto simp: lease_next_def split: option.split)
next
  case lease_next_scan
  then show ?thesis using lease_queued_next by (auto simp: lease_next_scan_def split: option.split)
next
  case lease_exact
  then show ?thesis using lease_queued_next by (auto simp: lease_exact_def split: option.split)
next
  case advance_generation
  then show ?thesis using advance_to_next [OF assms(2)] by (auto simp: advance_generation_def split: option.split)
qed (use assms(2) in \<open>simp_all add: focus_def Let_def terminate_all_def terminate_matching_next
    invalidate_prefix_next advance_to_next\<close>)

lemma coord_step_wf:
  assumes "coord_step c c'" "coord_wf c" "sc_next_lease c \<noteq> - 1"
  shows "coord_wf c'"
  using assms
proof (cases rule: coord_step.cases)
  case advance_generation
  then show ?thesis using assms(2) coord_wf_advance_to by (auto simp: advance_generation_def split: option.split)
qed (simp_all add: coord_wf_schedule coord_wf_focus coord_wf_lease_next coord_wf_lease_next_scan
    coord_wf_lease_exact coord_wf_finish coord_wf_requeue coord_wf_terminate_all
    coord_wf_terminate_matching coord_wf_invalidate_prefix coord_wf_advance_to)

lemma coord_run_wf:
  assumes "coord_run s g n c" "n < 2 ^ 64"
  shows "coord_wf c \<and> unat (sc_next_lease c) \<le> n"
  using assms
proof (induction rule: coord_run.induct)
  case start
  show ?case by (simp add: coord_wf_new) (simp add: sc_new_def)
next
  case (step n c c')
  then have wf: "coord_wf c" and le: "unat (sc_next_lease c) \<le> n" and n: "n < 2 ^ 64 - 1" by simp_all
  have "sc_next_lease c \<noteq> - 1"
    using le n unat_minus_one_word [where 'a = 64] by auto
  with step.hyps(2) wf have "coord_wf c'" by (rule coord_step_wf)
  moreover have "unat (sc_next_lease c') \<le> Suc n"
    using coord_step_next [OF step.hyps(2) wf] le by simp
  ultimately show ?case by simp
qed

section \<open>Effects of leasing\<close>

lemma lease_queued_ready_iff:
  assumes "ready c pr w"
  shows "ready (snd (lease_queued w f c)) pr' v \<longleftrightarrow> ready c pr' v \<and> qw_key v \<noteq> qw_key w"
  using assms by (auto simp: ready_def lease_queued_def Let_def)

lemma lease_queued_active:
  assumes "coord_wf c" "ready c pr w"
  shows "om_get (sc_active (snd (lease_queued w f c))) (sc_next_lease c) = Some (lease_of c pr w f)"
    "om_get (sc_pending (snd (lease_queued w f c))) (qw_key w) = None"
    "sc_active_by_key (snd (lease_queued w f c)) (qw_key w) = Some (sc_next_lease c)"
  using assms(2) coord_wf_om(2) [OF assms(1)]
  by (simp_all add: ready_def lease_queued_def Let_def lease_of_def om_get_insert)

lemma lease_queued_burst:
  assumes "ready c pr w" "pr \<noteq> Safety" "pr \<noteq> Background"
  shows "sc_non_background_leases (snd (lease_queued w f c)) = sat_add (sc_non_background_leases c) 1"
  using assms by (simp add: ready_def lease_queued_def Let_def)

lemma safety_only_exec: "coord_wf c \<Longrightarrow> ready c pr w \<Longrightarrow> pr \<noteq> Safety \<Longrightarrow> eligible ex w"
  using keys_inv_pending [OF coord_wfD(3)] by (fastforce simp: ready_def priority_ok_def eligible_def)

lemma lease_next_background:
  assumes "coord_wf c" "\<And>v. \<not> ready c Safety v" "ready c Background w"
    "FOREGROUND_LEASE_BURST \<le> sc_non_background_leases c"
  obtains v where "ready c Background v" "v \<le> w" "fst (lease_next c) = Some (lease_of c Background v False)"
proof -
  let ?pick = "\<lambda>pr. first_eligible pr (exec_active c) (sc_queues c)"
  have el: "eligible (exec_active c) w" using safety_only_exec [OF assms(1,3)] by simp
  have "?pick Safety = None" unfolding first_eligible_None using assms(2) ready_elems [OF assms(1)] by blast
  moreover have "?pick Background \<noteq> None"
    unfolding first_eligible_None using assms(3) el ready_elems [OF assms(1)] by blast
  then obtain v where v: "?pick Background = Some v" by blast
  ultimately have nq: "next_queued c = Some (v, False)"
    using assms(4) by (simp add: next_queued_def Let_def)
  have rv: "ready c Background v" using first_eligible_Some [OF v] by (simp add: ready_elems [OF assms(1)])
  have rq: "rq_wf (sc_queues c)" using coord_wfD(1) [OF assms(1)] by (simp add: pq_inv_def)
  have "v \<le> w"
    using first_eligible_least [OF rq v] assms(3) el by (simp add: ready_elems [OF assms(1)])
  moreover have "fst (lease_next c) = Some (lease_of c Background v False)"
    using nq lease_queued_ready [OF rv] by (simp add: lease_next_def)
  ultimately show ?thesis using rv that by blast
qed

text \<open>Consecutive grants, as a pool of idle workers would take them.\<close>

fun lease_run :: "nat \<Rightarrow> scan_coordinator \<Rightarrow> work_lease list \<times> scan_coordinator" where
  "lease_run 0 c = ([], c)"
| "lease_run (Suc n) c =
     (case lease_next c of
        (None, c') \<Rightarrow> ([], c')
      | (Some l, c') \<Rightarrow> (case lease_run n c' of (ls, c'') \<Rightarrow> (l # ls, c'')))"

lemma lease_run_background:
  assumes "coord_wf c" "\<And>v. \<not> ready c Safety v" "ready c Background w"
    "unat FOREGROUND_LEASE_BURST \<le> unat (sc_non_background_leases c) + j"
    "unat (sc_next_lease c) + j < 2 ^ 64 - 1"
  shows "\<exists>l \<in> set (fst (lease_run (Suc j) c)). wl_priority l = Background"
  using assms
proof (induction j arbitrary: c)
  case 0
  then have "FOREGROUND_LEASE_BURST \<le> sc_non_background_leases c" by (simp add: word_le_nat_alt)
  then obtain v where "fst (lease_next c) = Some (lease_of c Background v False)"
    using lease_next_background [OF 0(1-3)] by blast
  then show ?case by (auto simp: lease_of_def split: prod.splits option.splits)
next
  case (Suc j)
  have nomax: "sc_next_lease c \<noteq> - 1"
    using Suc.prems(5) unat_minus_one_word [where 'a = 64] by auto
  from Suc.prems(1) show ?case
  proof (cases rule: lease_next_cases)
    case none
    then show ?thesis
      using next_queued_None [OF Suc.prems(1)] Suc.prems(3) safety_only_exec [OF Suc.prems(1)] by blast
  next
    case (lease pr v f)
    let ?c = "snd (lease_queued v f c)"
    have run: "fst (lease_run (Suc (Suc j)) c) = lease_of c pr v f # fst (lease_run (Suc j) ?c)"
      using lease(4) by (simp del: lease_run.simps(2) add: lease_run.simps(2) [of "Suc j" c] split: prod.split)
    show ?thesis
    proof (cases "pr = Background")
      case True
      then show ?thesis unfolding run by (simp add: lease_of_def)
    next
      case False
      have pr: "pr \<noteq> Safety" using lease(2) Suc.prems(2) by blast
      have wf: "coord_wf ?c" using Suc.prems(1) lease(2,3) nomax by (rule lease_queued_wf)
      have other: "qw_key w \<noteq> qw_key v" using lease(2) Suc.prems(3) False by (auto simp: ready_def)
      have "sc_non_background_leases ?c = sat_add (sc_non_background_leases c) 1"
        using lease(2) pr False by (rule lease_queued_burst)
      then have "unat FOREGROUND_LEASE_BURST \<le> unat (sc_non_background_leases ?c) + j"
        using Suc.prems(4) by (simp add: unat_sat_add FOREGROUND_LEASE_BURST_def)
      moreover have "unat (sc_next_lease ?c) + j < 2 ^ 64 - 1"
        using lease_queued_next [of v f c] Suc.prems(5) by linarith
      ultimately have "\<exists>l \<in> set (fst (lease_run (Suc j) ?c)). wl_priority l = Background"
        using wf other Suc.prems(2,3) by (intro Suc.IH) (simp_all add: lease_queued_ready_iff [OF lease(2)])
      then show ?thesis unfolding run by auto
    qed
  qed
qed

section \<open>Counting ready work\<close>

text \<open>The number of pending items of one priority is the length of its ready queue.\<close>

lemma rq_count_pending:
  assumes "coord_wf c"
  shows "rq_count (sc_queues c) pr = length (filter (\<lambda>e. pw_priority (snd e) = pr) (sc_pending c))"
proof -
  note wf = coord_wfD [OF assms]
  let ?F = "filter (\<lambda>e. pw_priority (snd e) = pr) (sc_pending c)"
  have "rq_wf (sc_queues c)" using wf(1) by (simp add: pq_inv_def)
  then have "bset_wf (or_default (by_priority (sc_queues c) pr))"
    using rq_wfD(1) queue_wf_or_default by blast
  then have "distinct (or_default (by_priority (sc_queues c) pr))" by (rule bset_wf_distinct)
  then have "rq_count (sc_queues c) pr = card (rq_elems (sc_queues c) pr)"
    by (simp add: rq_count_def rq_elems_def or_default_def distinct_card split: option.splits)
  also have "rq_elems (sc_queues c) pr = (pw_queued \<circ> snd) ` set ?F"
  proof (intro set_eqI iffI)
    fix w assume "w \<in> rq_elems (sc_queues c) pr"
    then have "(qw_key w, \<lparr>pw_priority = pr, pw_queued = w\<rparr>) \<in> set ?F"
      by (auto simp: ready_elems [OF assms] ready_def dest: om_get_mem)
    then show "w \<in> (pw_queued \<circ> snd) ` set ?F" by force
  next
    fix w assume "w \<in> (pw_queued \<circ> snd) ` set ?F"
    then obtain k p where "(k, p) \<in> set (sc_pending c)" "pw_priority p = pr" "w = pw_queued p" by auto
    then have "ready c pr w" using pending_ready [OF assms, of k p] coord_wf_om(1) [OF assms] by (simp add: om_get_iff)
    then show "w \<in> rq_elems (sc_queues c) pr" by (simp add: ready_elems [OF assms])
  qed
  also have "card \<dots> = card (set ?F)"
  proof (rule card_image, rule inj_onI)
    fix x y assume "x \<in> set ?F" "y \<in> set ?F" and same: "(pw_queued \<circ> snd) x = (pw_queued \<circ> snd) y"
    then have get: "om_get (sc_pending c) (fst x) = Some (snd x)" "om_get (sc_pending c) (fst y) = Some (snd y)"
      using coord_wf_om(1) [OF assms] by (simp_all add: om_get_iff)
    then have "fst x = fst y" using pq_inv_key [OF wf(1)] same by (metis comp_apply)
    with get show "x = y" by (simp add: prod_eq_iff)
  qed
  also have "\<dots> = length ?F"
    using om_wf_distinct [OF coord_wf_om(1) [OF assms]] by (metis distinct_card distinct_filter distinct_map)
  finally show ?thesis .
qed

lemma length_by_priority:
  "length es = (\<Sum>pr \<leftarrow> all_priorities. length (filter (\<lambda>e. pw_priority (snd e) = pr) es))"
proof (induction es)
  case (Cons e es)
  then show ?case by (cases "pw_priority (snd e)") (simp_all add: all_priorities_def)
qed (simp add: all_priorities_def)

end
