(* ===== verification/Coordinator_Theorems.thy ===== *)
theory Coordinator_Theorems
  imports Coordinator_Properties
begin

text \<open>
  The guarantees of the session coordinator, stated over the model of
  \<open>src/scan_coordinator_core.rs\<close>, with the concrete runs that witness their hypotheses: a session
  with one directory to enumerate, one deletion to execute and a focus.
\<close>

section \<open>A concrete session\<close>

definition ex_session :: scan_session_id where
  "ex_session = replicate 16 7"

definition ex_key :: "work_kind \<Rightarrow> relative_path \<Rightarrow> work_key" where
  "ex_key kind path = WorkKey ex_session 0 kind path"

definition ex_scheduled :: scan_coordinator where
  "ex_scheduled =
     snd (schedule (ex_key ExecuteDeletion [[98]]) Prefetch
       (snd (schedule (ex_key EnumerateDirectory [[97]]) Background (sc_new ex_session 0))))"

definition ex_leased :: scan_coordinator where
  "ex_leased = snd (lease_exact (ex_key ExecuteDeletion [[98]]) ex_scheduled)"

definition ex_lease :: work_lease where
  "ex_lease = \<lparr>wl_id = 0, wl_key = ex_key ExecuteDeletion [[98]], wl_priority = Safety, wl_focused = False\<rparr>"

lemmas coord_eval =
  schedule_def lease_exact_def lease_queued_def enqueue_pending_def normalized_priority_def
  sc_new_def Let_def om_get_def om_insert_def om_remove_def
  less_work_key_def less_eq_work_key_def key_fields_def less_work_priority_def less_eq_work_priority_def

lemma ex_scheduled_run: "coord_run ex_session 0 2 ex_scheduled"
proof -
  have "coord_run ex_session 0 (Suc (Suc 0)) ex_scheduled"
    unfolding ex_scheduled_def
    by (rule coord_run.step [OF coord_run.step [OF coord_run.start coord_step.schedule] coord_step.schedule])
  then show ?thesis by (simp add: numeral_2_eq_2)
qed

lemma ex_leased_run: "coord_run ex_session 0 3 ex_leased"
proof -
  have "coord_run ex_session 0 (Suc 2) ex_leased"
    unfolding ex_leased_def by (intro coord_run.step [OF ex_scheduled_run] coord_step.lease_exact)
  then show ?thesis by simp
qed

lemma ex_leased_active: "om_get (sc_active ex_leased) 0 = Some ex_lease"
  by (simp add: ex_leased_def ex_scheduled_def ex_lease_def ex_key_def ex_session_def coord_eval)

lemma ex_scheduled_wf: "coord_wf ex_scheduled"
  using coord_run_wf [OF ex_scheduled_run] by simp

lemma ex_leased_wf: "coord_wf ex_leased"
  using coord_run_wf [OF ex_leased_run] by simp

lemma ex_leased_exec: "sc_active_deletion_execution ex_leased = Some 0"
  by (simp add: ex_leased_def ex_scheduled_def ex_key_def ex_session_def coord_eval)

lemma ex_scheduled_pending:
  "om_get (sc_pending ex_scheduled) (ex_key EnumerateDirectory [[97]]) =
     Some \<lparr>pw_priority = Background, pw_queued = QueuedWork 0 (ex_key EnumerateDirectory [[97]])\<rparr>"
  by (simp add: ex_scheduled_def ex_key_def ex_session_def coord_eval)

section \<open>Leases\<close>

text \<open>
  C1. In every state reached by fewer than \<open>2 ^ 64\<close> operations, a work key has at most one active
  lease, every lease is stored under its own identifier, and a leased key is not pending at the same
  time: no unit of work is ever held by two workers, or held and queued.
\<close>

theorem lease_exclusive:
  assumes "coord_run s g n c" "n < 2 ^ 64"
    and "om_get (sc_active c) i = Some l"
  shows "wl_id l = i \<and> om_get (sc_pending c) (wl_key l) = None \<and>
    (\<forall>j m. om_get (sc_active c) j = Some m \<and> wl_key m = wl_key l \<longrightarrow> m = l)"
proof -
  have wf: "coord_wf c" using coord_run_wf assms(1,2) by blast
  have key: "sc_active_by_key c (wl_key l) = Some i"
    using act_inv_index [OF coord_wfD(2) [OF wf]] assms(3) by blast
  have "om_get (sc_pending c) (wl_key l) = None"
    using keys_inv_pending [OF coord_wfD(3) [OF wf]] key by (cases "om_get (sc_pending c) (wl_key l)") auto
  moreover have "m = l" if "om_get (sc_active c) j = Some m" "wl_key m = wl_key l" for j m
    using act_inv_unique_key [OF coord_wfD(2) [OF wf] that(1) assms(3) that(2)] that(1) assms(3) by simp
  ultimately show ?thesis using act_inv_id [OF coord_wfD(2) [OF wf] assms(3)] by blast
qed

theorem lease_exclusive_witness:
  "coord_run ex_session 0 3 ex_leased \<and> wl_id ex_lease = 0 \<and>
    om_get (sc_pending ex_leased) (wl_key ex_lease) = None"
  using lease_exclusive [OF ex_leased_run _ ex_leased_active] ex_leased_run by simp

text \<open>
  C2. At most one deletion execution is leased in any reachable state, and the coordinator's
  deletion slot names exactly that lease: two executors never change the file system at once.
\<close>

theorem single_deletion_execution:
  assumes "coord_run s g n c" "n < 2 ^ 64"
    and "om_get (sc_active c) i = Some l" "wk_kind (wl_key l) = ExecuteDeletion"
    and "om_get (sc_active c) j = Some m" "wk_kind (wl_key m) = ExecuteDeletion"
  shows "i = j \<and> l = m \<and> sc_active_deletion_execution c = Some i"
proof -
  have wf: "coord_wf c" using coord_run_wf assms(1,2) by blast
  have "sc_active_deletion_execution c = Some i" "sc_active_deletion_execution c = Some j"
    using act_inv_exec [OF coord_wfD(2) [OF wf]] assms(3-6) by blast+
  with assms(3,5) show ?thesis by simp
qed

theorem single_deletion_execution_witness:
  "om_get (sc_active ex_leased) 0 = Some ex_lease \<and> wk_kind (wl_key ex_lease) = ExecuteDeletion \<and>
    sc_active_deletion_execution ex_leased = Some 0"
  using single_deletion_execution [OF ex_leased_run _ ex_leased_active _ ex_leased_active] ex_leased_active
  by (simp add: ex_lease_def ex_key_def)

text \<open>
  C3. The coordinator's invariant holds after every sequence of fewer than \<open>2 ^ 64\<close> public
  operations: the pending map, the two ready indexes, the lease table, its key index and the
  deletion slot agree, scan work belongs to the current generation, a deletion execution is only
  ever queued with safety priority, and at most 32 distinct focus paths are retained.
\<close>

theorem coordinator_invariant:
  assumes "coord_run s g n c" "n < 2 ^ 64"
  shows "coord_wf c"
  using coord_run_wf [OF assms] by blast

theorem coordinator_invariant_witness: "coord_wf ex_leased"
  by (rule coordinator_invariant [OF ex_leased_run]) simp

text \<open>
  C4. A completion is accepted exactly when the lease is the active lease of its identifier, field
  for field; a stale or forged lease changes nothing; and a lease is accepted at most once: after a
  completion, completing it again and requeueing it are refused without any effect.
\<close>

theorem finish_exactly_once:
  "finish l d c =
     (if om_get (sc_active c) (wl_id l) = Some l
      then (Accepted, record_terminal (lifecycle d) 1 (snd (remove_active (wl_id l) c)))
      else (StaleLease, c)) \<and>
   finish l e (snd (finish l d c)) = (StaleLease, snd (finish l d c)) \<and>
   requeue l (snd (finish l d c)) = (RequeueStaleLease, snd (finish l d c))"
proof (cases "om_get (sc_active c) (wl_id l) = Some l")
  case True
  then have "om_get (sc_active (snd (finish l d c))) (wl_id l) = None"
    by (simp add: finish_exact remove_active_def)
  with True show ?thesis by (simp add: finish_stale requeue_stale finish_exact)
next
  case False
  then show ?thesis by (simp add: finish_stale requeue_stale)
qed

text \<open>
  C5. \<open>lease_next\<close> grants nothing only when nothing can be granted: exactly when every pending item
  is a deletion execution that must wait for the active one. When it grants a lease, the item was
  pending with the lease's priority, is pending no longer, and is active under the lease's fresh
  identifier; a granted deletion execution found no other one active.
\<close>

theorem lease_next_complete:
  assumes "coord_wf c"
  shows "case lease_next c of
      (None, c') \<Rightarrow> c' = c \<and>
        (\<forall>k p. om_get (sc_pending c) k = Some p \<longrightarrow>
           wk_kind k = ExecuteDeletion \<and> sc_active_deletion_execution c \<noteq> None)
    | (Some l, c') \<Rightarrow>
        (\<exists>p. om_get (sc_pending c) (wl_key l) = Some p \<and> pw_priority p = wl_priority l) \<and>
        wl_id l = sc_next_lease c \<and> om_get (sc_pending c') (wl_key l) = None \<and>
        om_get (sc_active c') (wl_id l) = Some l \<and>
        (wk_kind (wl_key l) = ExecuteDeletion \<longrightarrow> sc_active_deletion_execution c = None)"
  using assms
proof (cases rule: lease_next_cases)
  case none
  have "wk_kind k = ExecuteDeletion \<and> exec_active c" if "om_get (sc_pending c) k = Some p" for k p
    using none(2) next_queued_None [OF assms] pending_ready [OF assms that]
      pq_inv_key [OF coord_wfD(1) [OF assms] that] by (auto simp: eligible_def)
  with none(1) show ?thesis by simp
next
  case (lease pr w f)
  then show ?thesis
    using lease_queued_active [OF assms lease(2), of f] by (auto simp: lease_of_def ready_def eligible_def)
qed

theorem lease_next_complete_witness:
  "coord_wf ex_scheduled \<and> fst (lease_next ex_scheduled) \<noteq> None"
proof -
  have "fst (lease_next ex_scheduled) \<noteq> None"
    using lease_next_complete [OF ex_scheduled_wf] ex_scheduled_pending
    by (auto simp: ex_key_def split: prod.splits option.splits)
  then show ?thesis using ex_scheduled_wf by simp
qed

text \<open>
  C6. Background traversal is never starved: while no safety work is ready and a background item is,
  one of the next five grants goes to background work, whatever foreground, reducer, prefetch or
  focused work is queued beside it (the fairness burst is four). The grants are counted against the
  64-bit lease identifiers.
\<close>

theorem background_not_starved:
  assumes "coord_wf c" "\<And>v. \<not> ready c Safety v" "ready c Background w"
    and "unat (sc_next_lease c) + 4 < 2 ^ 64 - 1"
  shows "\<exists>l \<in> set (fst (lease_run 5 c)). wl_priority l = Background"
proof -
  have "\<exists>l \<in> set (fst (lease_run (Suc 4) c)). wl_priority l = Background"
    by (rule lease_run_background [OF assms(1-3) _ assms(4)]) (simp add: FOREGROUND_LEASE_BURST_def)
  then show ?thesis by simp
qed

definition ex_background :: scan_coordinator where
  "ex_background = snd (schedule (ex_key EnumerateDirectory [[97]]) Background (sc_new ex_session 0))"

lemma ex_background_pending:
  "sc_pending ex_background =
     [(ex_key EnumerateDirectory [[97]],
       \<lparr>pw_priority = Background, pw_queued = QueuedWork 0 (ex_key EnumerateDirectory [[97]])\<rparr>)]"
  by (simp add: ex_background_def ex_key_def ex_session_def coord_eval)

lemma ex_background_wf: "coord_wf ex_background"
  unfolding ex_background_def by (rule coord_wf_schedule [OF coord_wf_new])

theorem background_not_starved_witness:
  "\<exists>l \<in> set (fst (lease_run 5 ex_background)). wl_priority l = Background"
proof (rule background_not_starved [OF ex_background_wf])
  show "\<not> ready ex_background Safety v" for v
    by (auto simp: ready_def ex_background_pending om_get_def)
  show "ready ex_background Background (QueuedWork 0 (ex_key EnumerateDirectory [[97]]))"
    by (simp add: ready_def ex_background_pending om_get_def)
  show "unat (sc_next_lease ex_background) + 4 < 2 ^ 64 - 1"
    by (simp add: ex_background_def sc_new_def)
qed

section \<open>Scheduling and requeueing\<close>

text \<open>
  C7. Scheduling on every branch.  Each outcome has exactly its condition: work of another session or
  generation is refused as stale; a key that is out on a lease is not queued again; a pending key keeps
  one entry and its place in line, and only its priority can change, to a more urgent one; new work
  enters at the end of the line with its normalized priority.  Only the last two change the state: the
  pending map at that key and the ready item of that key, and the sequence number for new work; the
  invariant is kept, so the item can be found in both ready indexes.
\<close>

theorem schedule_outcomes:
  fixes c :: scan_coordinator and k :: work_key and priority :: work_priority
  assumes "coord_wf c"
  defines "outcome \<equiv> fst (schedule k priority c)" and "c' \<equiv> snd (schedule k priority c)"
    and "pr \<equiv> normalized_priority (wk_kind k) priority"
    and "current \<equiv> wk_session k = sc_session c \<and> wk_generation k = sc_generation c"
    and "leased \<equiv> \<exists>i l. om_get (sc_active c) i = Some l \<and> wl_key l = k"
  shows "(outcome = StaleSession \<longleftrightarrow> wk_session k \<noteq> sc_session c) \<and>
    (outcome = StaleGeneration \<longleftrightarrow> wk_session k = sc_session c \<and> wk_generation k \<noteq> sc_generation c) \<and>
    (outcome = AlreadyLeased \<longleftrightarrow> current \<and> leased) \<and>
    (outcome = AlreadyPending \<longleftrightarrow> current \<and> \<not> leased \<and> (\<exists>p. om_get (sc_pending c) k = Some p \<and> pw_priority p \<le> pr)) \<and>
    (outcome = PriorityRaised \<longleftrightarrow> current \<and> \<not> leased \<and> (\<exists>p. om_get (sc_pending c) k = Some p \<and> pr < pw_priority p)) \<and>
    (outcome = Enqueued \<longleftrightarrow> current \<and> \<not> leased \<and> om_get (sc_pending c) k = None) \<and>
    (outcome \<notin> {PriorityRaised, Enqueued} \<longrightarrow> c' = c) \<and>
    (outcome = PriorityRaised \<longrightarrow> (\<exists>p. om_get (sc_pending c) k = Some p \<and>
       om_get (sc_pending c') = (om_get (sc_pending c))(k \<mapsto> p\<lparr>pw_priority := pr\<rparr>) \<and>
       c' = c\<lparr>sc_pending := sc_pending c', sc_queues := sc_queues c'\<rparr>)) \<and>
    (outcome = Enqueued \<longrightarrow>
       om_get (sc_pending c') = (om_get (sc_pending c))(k \<mapsto> \<lparr>pw_priority = pr, pw_queued = QueuedWork (sc_next_sequence c) k\<rparr>) \<and>
       c' = c\<lparr>sc_next_sequence := sat_add (sc_next_sequence c) 1, sc_pending := sc_pending c', sc_queues := sc_queues c'\<rparr>) \<and>
    coord_wf c' \<and>
    (\<forall>v. rq_elems (sc_queues c') v = {w. om_get (sc_pending c') (qw_key w) = Some \<lparr>pw_priority = v, pw_queued = w\<rparr>})"
proof -
  note om = coord_wf_om(1) [OF assms(1)] and ix = act_inv_index [OF coord_wfD(2) [OF assms(1)], of k]
  have leased: "leased \<longleftrightarrow> sc_active_by_key c k \<noteq> None" unfolding leased_def using ix by (metis not_None_eq)
  have wf: "coord_wf c'" unfolding c'_def by (rule coord_wf_schedule [OF assms(1)])
  have ins: "om_get (om_insert k p (sc_pending c)) = (om_get (sc_pending c))(k \<mapsto> p)" for p
    by (rule ext) (simp add: om_get_insert [OF om])
  have elems: "\<forall>v. rq_elems (sc_queues c') v = {w. om_get (sc_pending c') (qw_key w) = Some \<lparr>pw_priority = v, pw_queued = w\<rparr>}"
    using coord_wfD(1) [OF wf] by (auto simp: pq_inv_def)
  consider (stale) "\<not> current" | (leased) "current" "leased" | (pending) p where "current" "\<not> leased" "om_get (sc_pending c) k = Some p"
    | (fresh) "current" "\<not> leased" "om_get (sc_pending c) k = None" by fastforce
  then show ?thesis
  proof cases
    case (pending p)
    then have raise: "schedule k priority c = (if pw_priority p \<le> pr then (AlreadyPending, c) else (PriorityRaised,
        c\<lparr>sc_queues := rq_insert pr (pw_queued p) (rq_remove (pw_priority p) (pw_queued p) (sc_queues c)),
          sc_pending := om_insert k (p\<lparr>pw_priority := pr\<rparr>) (sc_pending c)\<rparr>))"
      by (cases p) (simp add: schedule_def current_def leased pr_def Let_def)
    show ?thesis using pending wf elems unfolding outcome_def c'_def raise by (auto simp: current_def ins)
  qed (use wf elems in \<open>auto simp: outcome_def c'_def schedule_def current_def leased ins enqueue_pending_def pr_def Let_def\<close>)
qed

theorem schedule_outcomes_witness:
  "fst (schedule (ex_key EnumerateDirectory [[97]]) Foreground ex_scheduled) = PriorityRaised \<and>
   fst (schedule (ex_key ExecuteDeletion [[98]]) Background ex_leased) = AlreadyLeased \<and>
   (\<exists>p. om_get (sc_pending (snd (schedule (ex_key EnumerateDirectory [[97]]) Foreground ex_scheduled)))
      (ex_key EnumerateDirectory [[97]]) = Some p \<and> pw_priority p = Foreground)"
proof -
  have out: "fst (schedule (ex_key EnumerateDirectory [[97]]) Foreground ex_scheduled) = PriorityRaised"
    by (simp add: ex_scheduled_def ex_key_def ex_session_def coord_eval)
  have now: "sc_session ex_leased = ex_session" "sc_generation ex_leased = 0"
    by (simp_all add: ex_leased_def ex_scheduled_def ex_key_def ex_session_def coord_eval)
  have "fst (schedule (ex_key ExecuteDeletion [[98]]) Background ex_leased) = AlreadyLeased"
    using schedule_outcomes [OF ex_leased_wf, of "ex_key ExecuteDeletion [[98]]" Background]
  proof (elim conjE)
    assume "fst (schedule (ex_key ExecuteDeletion [[98]]) Background ex_leased) = AlreadyLeased \<longleftrightarrow>
        (wk_session (ex_key ExecuteDeletion [[98]]) = sc_session ex_leased \<and> wk_generation (ex_key ExecuteDeletion [[98]]) = sc_generation ex_leased) \<and>
        (\<exists>i l. om_get (sc_active ex_leased) i = Some l \<and> wl_key l = ex_key ExecuteDeletion [[98]])"
    moreover have "wl_key ex_lease = ex_key ExecuteDeletion [[98]]" by (simp add: ex_lease_def)
    ultimately show ?thesis using ex_leased_active now by (auto simp: ex_key_def)
  qed
  moreover have "\<exists>p. om_get (sc_pending (snd (schedule (ex_key EnumerateDirectory [[97]]) Foreground ex_scheduled)))
      (ex_key EnumerateDirectory [[97]]) = Some p \<and> pw_priority p = Foreground"
    using schedule_outcomes [OF ex_scheduled_wf, of "ex_key EnumerateDirectory [[97]]" Foreground]
  proof (elim conjE)
    let ?k = "ex_key EnumerateDirectory [[97]]" and ?d = "snd (schedule (ex_key EnumerateDirectory [[97]]) Foreground ex_scheduled)"
    assume "fst (schedule ?k Foreground ex_scheduled) = PriorityRaised \<longrightarrow> (\<exists>p. om_get (sc_pending ex_scheduled) ?k = Some p \<and>
        om_get (sc_pending ?d) = (om_get (sc_pending ex_scheduled))(?k \<mapsto> p\<lparr>pw_priority := normalized_priority (wk_kind ?k) Foreground\<rparr>) \<and>
        ?d = ex_scheduled\<lparr>sc_pending := sc_pending ?d, sc_queues := sc_queues ?d\<rparr>)"
    with out obtain p where "om_get (sc_pending ?d) =
        (om_get (sc_pending ex_scheduled))(?k \<mapsto> p\<lparr>pw_priority := normalized_priority (wk_kind ?k) Foreground\<rparr>)" by blast
    then show ?thesis by (simp add: ex_key_def normalized_priority_def)
  qed
  ultimately show ?thesis using out by blast
qed

text \<open>
  C8. A worker that did not take its command gives the work back.  Requeueing the exact active lease puts
  its key back: pending with the lease's priority, at the end of the line in both ready indexes, so that
  it can be leased again at once.  The lease leaves the lease table, the key index and the deletion slot;
  every other field, the terminal counts among them, is as it was.  Any other lease is refused without
  effect.
\<close>

theorem requeue_returns_work:
  fixes c :: scan_coordinator and l :: work_lease
  assumes "coord_wf c"
  defines "c' \<equiv> snd (requeue l c)" and "item \<equiv> QueuedWork (sc_next_sequence c) (wl_key l)"
  shows "(om_get (sc_active c) (wl_id l) \<noteq> Some l \<longrightarrow> requeue l c = (RequeueStaleLease, c)) \<and>
    (om_get (sc_active c) (wl_id l) = Some l \<longrightarrow> fst (requeue l c) = Requeued \<and> coord_wf c' \<and>
      om_get (sc_active c') = (om_get (sc_active c))(wl_id l := None) \<and>
      sc_active_by_key c' = (sc_active_by_key c)(wl_key l := None) \<and>
      sc_active_deletion_execution c' = (if wk_kind (wl_key l) = ExecuteDeletion then None else sc_active_deletion_execution c) \<and>
      om_get (sc_pending c') = (om_get (sc_pending c))(wl_key l \<mapsto> \<lparr>pw_priority = wl_priority l, pw_queued = item\<rparr>) \<and>
      rq_elems (sc_queues c') = (rq_elems (sc_queues c))(wl_priority l := insert item (rq_elems (sc_queues c) (wl_priority l))) \<and>
      c' = c\<lparr>sc_next_sequence := sat_add (sc_next_sequence c) 1, sc_pending := sc_pending c', sc_queues := sc_queues c',
        sc_active := sc_active c', sc_active_by_key := sc_active_by_key c',
        sc_active_deletion_execution := sc_active_deletion_execution c'\<rparr> \<and>
      (\<exists>l'. fst (lease_exact (wl_key l) c') = Some l' \<and> wl_key l' = wl_key l \<and> wl_priority l' = wl_priority l))"
proof (intro conjI impI)
  assume "om_get (sc_active c) (wl_id l) \<noteq> Some l"
  then show "requeue l c = (RequeueStaleLease, c)" by (rule requeue_stale)
next
  assume get: "om_get (sc_active c) (wl_id l) = Some l"
  note inv = coord_wfD(2) [OF assms(1)] and om = coord_wf_om [OF assms(1)]
  have slot: "sc_active_deletion_execution c = Some (wl_id l) \<longleftrightarrow> wk_kind (wl_key l) = ExecuteDeletion"
    using get by (simp add: act_inv_exec [OF inv])
  have only: "wk_kind (wl_key l) = ExecuteDeletion \<Longrightarrow> sc_active_deletion_execution c = Some (wl_id l)" using slot by simp
  have c': "c' = c\<lparr>sc_next_sequence := sat_add (sc_next_sequence c) 1,
      sc_pending := om_insert (wl_key l) \<lparr>pw_priority = wl_priority l, pw_queued = item\<rparr> (sc_pending c),
      sc_queues := rq_insert (wl_priority l) item (sc_queues c), sc_active := om_remove (wl_id l) (sc_active c),
      sc_active_by_key := (sc_active_by_key c)(wl_key l := None),
      sc_active_deletion_execution := (if wk_kind (wl_key l) = ExecuteDeletion then None else sc_active_deletion_execution c)\<rparr>"
    using get slot by (simp add: c'_def item_def requeue_exact enqueue_pending_def remove_active_def Let_def)
  show "fst (requeue l c) = Requeued" using get by (simp add: requeue_exact)
  show "coord_wf c'" unfolding c'_def by (rule coord_wf_requeue [OF assms(1)])
  show "om_get (sc_active c') = (om_get (sc_active c))(wl_id l := None)"
    by (rule ext) (simp add: c' om_get_remove)
  show "om_get (sc_pending c') = (om_get (sc_pending c))(wl_key l \<mapsto> \<lparr>pw_priority = wl_priority l, pw_queued = item\<rparr>)"
    by (rule ext) (simp add: c' om_get_insert [OF om(1)])
  then show "\<exists>l'. fst (lease_exact (wl_key l) c') = Some l' \<and> wl_key l' = wl_key l \<and> wl_priority l' = wl_priority l"
    by (auto simp: lease_exact_def lease_queued_def item_def Let_def c')
  show "rq_elems (sc_queues c') = (rq_elems (sc_queues c))(wl_priority l := insert item (rq_elems (sc_queues c) (wl_priority l)))"
    by (rule ext) (simp add: c')
  show "sc_active_by_key c' = (sc_active_by_key c)(wl_key l := None)"
    "sc_active_deletion_execution c' = (if wk_kind (wl_key l) = ExecuteDeletion then None else sc_active_deletion_execution c)"
    "c' = c\<lparr>sc_next_sequence := sat_add (sc_next_sequence c) 1, sc_pending := sc_pending c', sc_queues := sc_queues c',
        sc_active := sc_active c', sc_active_by_key := sc_active_by_key c',
        sc_active_deletion_execution := sc_active_deletion_execution c'\<rparr>"
    by (simp_all add: c')
qed

theorem requeue_returns_work_witness:
  "fst (requeue ex_lease ex_leased) = Requeued \<and>
   sc_active_deletion_execution (snd (requeue ex_lease ex_leased)) = None \<and>
   QueuedWork 2 (ex_key ExecuteDeletion [[98]]) \<in> rq_elems (sc_queues (snd (requeue ex_lease ex_leased))) Safety"
proof -
  have "om_get (sc_active ex_leased) (wl_id ex_lease) = Some ex_lease" "sc_next_sequence ex_leased = 2"
    using ex_leased_active
    by (simp_all add: ex_lease_def) (simp add: ex_leased_def ex_scheduled_def ex_key_def ex_session_def coord_eval sat_add_def)
  with requeue_returns_work [OF ex_leased_wf, of ex_lease] show ?thesis by (simp add: ex_lease_def ex_key_def)
qed

section \<open>Ending classes of work\<close>

text \<open>
  C9. Advancing to a newer generation ends exactly the scan work: pending and leased enumeration,
  reduction and refresh work is dropped, pending and leased deletion work survives untouched and its
  leases are still accepted, and the terminal counters and the focus start afresh.
\<close>

theorem advance_keeps_deletions:
  assumes "coord_wf c" "sc_generation c < g"
  defines "c' \<equiv> snd (advance_to g c)"
  shows "fst (advance_to g c) \<and> sc_generation c' = g \<and> sc_focus_paths c' = [] \<and>
    sc_terminal c' = terminal_default \<and>
    sc_pending c' = filter (\<lambda>e. \<not> is_scan_work (wk_kind (fst e))) (sc_pending c) \<and>
    (\<forall>l d. fst (finish l d c') = Accepted \<longleftrightarrow>
       om_get (sc_active c) (wl_id l) = Some l \<and> \<not> is_scan_work (wk_kind (wl_key l)))"
proof -
  note eff = advance_to_effect [OF assms(1,2)]
  have "om_get (sc_active c') (wl_id l) = Some l \<longleftrightarrow>
      om_get (sc_active c) (wl_id l) = Some l \<and> \<not> is_scan_work (wk_kind (wl_key l))" for l
    unfolding c'_def eff(4) using coord_wf_om(2) [OF assms(1)]
    by (auto simp: om_get_filter split: option.splits if_splits)
  then have "fst (finish l d c') = Accepted \<longleftrightarrow>
      om_get (sc_active c) (wl_id l) = Some l \<and> \<not> is_scan_work (wk_kind (wl_key l))" for l d
    by (cases "om_get (sc_active c') (wl_id l) = Some l") (auto simp: finish_stale finish_exact)
  then show ?thesis using eff(1,3,5,6,7) unfolding c'_def by blast
qed

theorem advance_keeps_deletions_witness:
  "fst (finish ex_lease Succeeded (snd (advance_to 5 ex_leased))) = Accepted \<and>
   sc_generation (snd (advance_to 5 ex_leased)) = 5"
proof -
  have gen: "sc_generation ex_leased < 5"
    by (simp add: ex_leased_def ex_scheduled_def ex_key_def ex_session_def coord_eval)
  show ?thesis
    using advance_keeps_deletions [OF ex_leased_wf gen] ex_leased_active
    by (simp add: ex_lease_def ex_key_def is_scan_work_def)
qed

text \<open>
  C10. Invalidating a prefix ends exactly the work of that generation at or below the prefix,
  component by component and whatever its priority, pending or leased, and reports how much of each
  it ended; everything else stays pending or leased.
\<close>

theorem invalidate_prefix_exact:
  fixes c :: scan_coordinator and g :: scan_generation and pre :: relative_path
  assumes "coord_wf c"
  defines "P' \<equiv> filter (\<lambda>e. \<not> (wk_generation (fst e) = g \<and> starts_with (wk_path (fst e)) pre)) (sc_pending c)"
    and "A' \<equiv> filter (\<lambda>e. \<not> (wk_generation (wl_key (snd e)) = g \<and> starts_with (wk_path (wl_key (snd e))) pre)) (sc_active c)"
  shows "sc_pending (snd (invalidate_prefix g pre c)) = P' \<and>
    sc_active (snd (invalidate_prefix g pre c)) = A' \<and>
    fst (invalidate_prefix g pre c) =
      \<lparr>inv_pending = min (length (sc_pending c) - length P') (2 ^ 64 - 1),
       inv_active = min (length (sc_active c) - length A') (2 ^ 64 - 1)\<rparr> \<and>
    coord_wf (snd (invalidate_prefix g pre c))"
proof -
  have below: "(\<lambda>e. \<not> below g pre (f e)) =
      (\<lambda>e. \<not> (wk_generation (f e) = g \<and> starts_with (wk_path (f e)) pre))" for f :: "'z \<Rightarrow> work_key"
    by (simp add: below_def)
  show ?thesis
    using invalidate_prefix_effect [OF assms(1), of g pre] coord_wf_invalidate_prefix [OF assms(1), of g pre]
    unfolding P'_def A'_def below by auto
qed

theorem invalidate_prefix_exact_witness:
  "sc_active (snd (invalidate_prefix 0 [[98]] ex_leased)) = [] \<and>
   inv_active (fst (invalidate_prefix 0 [[98]] ex_leased)) = 1"
proof -
  have "sc_active ex_leased = [(0, ex_lease)]"
    by (simp add: ex_leased_def ex_scheduled_def ex_lease_def ex_key_def ex_session_def coord_eval)
  then show ?thesis
    using invalidate_prefix_exact [OF ex_leased_wf, of 0 "[[98]]"]
    by (simp add: ex_lease_def ex_key_def starts_with_def)
qed

section \<open>Queues\<close>

text \<open>
  C11. The focused selection is exact: the scan over the ordered path index from the prefix, which
  stops at the first path outside it, returns the first eligible item among all items whose path
  starts with the prefix, in path order, and so misses none.
\<close>

theorem range_scan_reference:
  assumes "rq_wf q" "by_path q pr = Some paths"
  shows "first_under pr pre ex q = List.find (eligible ex) (items_under pre paths) \<and>
    set (items_under pre paths) = {w \<in> rq_elems q pr. starts_with (wk_path (qw_key w)) pre}"
proof -
  have "om_wf paths" using rq_wfD(2) [OF assms(1), of pr] assms(2) by simp
  then show ?thesis
    using items_under_rq [OF assms] assms(2) by (simp add: first_under_def scan_under_reference)
qed

theorem range_scan_reference_witness:
  "first_under Background [[97]] False (sc_queues ex_scheduled) =
     Some (QueuedWork 0 (ex_key EnumerateDirectory [[97]]))"
proof -
  have rq: "rq_wf (sc_queues ex_scheduled)" using coord_wfD(1) [OF ex_scheduled_wf] by (simp add: pq_inv_def)
  have "by_path (sc_queues ex_scheduled) Background =
      Some [([[97]], [QueuedWork 0 (ex_key EnumerateDirectory [[97]])])]"
    by (simp add: ex_scheduled_def ex_key_def ex_session_def coord_eval rq_insert_def rq_default_def bset_insert_def)
  from range_scan_reference [OF rq this] show ?thesis
    by (simp add: items_under_def starts_with_def eligible_def ex_key_def)
qed

text \<open>
  The status snapshot counts what is there: for each priority the snapshot reports the number of
  pending items with that priority, and the five counts add up to the number of pending items.
\<close>

lemma snapshot_counts:
  assumes "coord_wf c"
  shows "ss_pending (snapshot c) =
     \<lparr>wc_safety = length (filter (\<lambda>e. pw_priority (snd e) = Safety) (sc_pending c)),
      wc_foreground = length (filter (\<lambda>e. pw_priority (snd e) = Foreground) (sc_pending c)),
      wc_reducer = length (filter (\<lambda>e. pw_priority (snd e) = Reducer) (sc_pending c)),
      wc_background = length (filter (\<lambda>e. pw_priority (snd e) = Background) (sc_pending c)),
      wc_prefetch = length (filter (\<lambda>e. pw_priority (snd e) = Prefetch) (sc_pending c))\<rparr> \<and>
    work_counts_total (ss_pending (snapshot c)) = min (length (sc_pending c)) (2 ^ 64 - 1)"
proof -
  have "length (sc_pending c) = (\<Sum>pr \<leftarrow> all_priorities. rq_count (sc_queues c) pr)"
    using length_by_priority [of "sc_pending c"] by (simp add: rq_count_pending [OF assms])
  then show ?thesis
    by (simp add: snapshot_def rq_counts_def rq_count_pending [OF assms, symmetric] work_counts_total_def
        usize_sat_add_def all_priorities_def)
qed

end
