(* ===== verification/Session_Actor.thy ===== *)
theory Session_Actor
  imports Coordinator_Properties
begin

text \<open>
  The private actor that owns a session's work records (\<open>src/src/scan_coordinator.rs\<close>) and the
  lifecycle of a scan result (\<open>src/src/scan_session.rs\<close>).

  A client sends one command over a channel and waits for the reply; the actor takes the commands in
  channel order and applies each to the coordinator it owns.  \<open>handle_command\<close> is the body of
  the actor's loop for one command, \<open>run_actor\<close> the loop, and the \<open>session_\<close> functions are
  the client calls, on a state that is None once the actor has stopped (its receiving end is gone, so
  that every send or reply fails with \<open>Disconnected\<close>).  The bounded channel itself belongs to the
  \<open>crossbeam_channel\<close> crate: the order in which it delivers the commands of the clients is the list
  argument of the loop, any list, and how long a sender waits for a free place is not modelled.

  Starting the thread and joining it on drop are not modelled beyond the shutdown command;
  \<open>ScanSessionId::random\<close> is operating-system entropy.
\<close>

section \<open>Scan result lifecycle\<close>

datatype scan_generation_state =
  Creating | Scanning | Reducing | Published | Incomplete | GenerationCancelled | SummaryOnly

fun can_transition_to :: "scan_generation_state \<Rightarrow> scan_generation_state \<Rightarrow> bool" where
  "can_transition_to Creating s = (s \<in> {Scanning, Incomplete, GenerationCancelled})"
| "can_transition_to Scanning s = (s \<in> {Reducing, SummaryOnly, Incomplete, GenerationCancelled})"
| "can_transition_to Reducing s = (s \<in> {Published, SummaryOnly, Incomplete, GenerationCancelled})"
| "can_transition_to _ s = False"

text \<open>The order of progress: a transition always moves to a state of a later stage.\<close>

primrec stage :: "scan_generation_state \<Rightarrow> nat" where
  "stage Creating = 0"
| "stage Scanning = 1"
| "stage Reducing = 2"
| "stage Published = 3"
| "stage Incomplete = 3"
| "stage GenerationCancelled = 3"
| "stage SummaryOnly = 3"

lemma transition_stage: "can_transition_to s t \<Longrightarrow> stage s < stage t"
  by (cases s) auto

lemma transition_Published: "can_transition_to s Published \<longleftrightarrow> s = Reducing"
  by (cases s) auto

lemma transition_Reducing: "can_transition_to s Reducing \<longleftrightarrow> s = Scanning"
  by (cases s) auto

lemma transition_Scanning: "can_transition_to s Scanning \<longleftrightarrow> s = Creating"
  by (cases s) auto

lemma transition_Creating: "\<not> can_transition_to s Creating"
  by (cases s) auto

section \<open>The actor\<close>

datatype session_coordinator_error = Disconnected | GenerationMismatch

datatype coordinator_command =
    CmdRegister work_key work_priority
  | CmdLeaseExact work_key
  | CmdLeaseNextScan
  | CmdAcquire work_kind relative_path work_priority
  | CmdFinish work_lease work_completion
  | CmdRequeue work_lease
  | CmdFocus relative_path
  | CmdAdvanceGeneration scan_generation
  | CmdCancelScanWork
  | CmdFailScanWork
  | CmdInvalidateScanWork
  | CmdSnapshot
  | CmdShutdown

text \<open>What is sent on the reply channel of a command; commands without one answer \<open>NoReply\<close>.\<close>

datatype coordinator_reply =
    ReplySchedule schedule_outcome
  | ReplyLease "work_lease option"
  | ReplyCompletion completion_outcome
  | ReplyRequeue requeue_outcome
  | ReplyAdvance "(session_coordinator_error, unit) res"
  | ReplySnapshot scheduler_snapshot
  | NoReply

definition acquire_work :: "work_kind \<Rightarrow> relative_path \<Rightarrow> work_priority \<Rightarrow> scan_coordinator \<Rightarrow>
    work_lease option \<times> scan_coordinator" where
  "acquire_work kind path priority c =
     (let key = WorkKey (sc_session c) (sc_generation c) kind path in
      case schedule key priority c of
        (Enqueued, c) \<Rightarrow> lease_exact key c
      | (PriorityRaised, c) \<Rightarrow> lease_exact key c
      | (AlreadyPending, c) \<Rightarrow> lease_exact key c
      | (AlreadyLeased, c) \<Rightarrow> (None, c)
      | (StaleSession, c) \<Rightarrow> (None, c)
      | (StaleGeneration, c) \<Rightarrow> (None, c))"

definition actor_advance :: "scan_generation \<Rightarrow> scan_coordinator \<Rightarrow>
    (session_coordinator_error, unit) res \<times> scan_coordinator" where
  "actor_advance generation c =
     (if sc_generation c = generation then (Inr (), c)
      else case advance_to generation c of
        (True, c) \<Rightarrow> (Inr (), c)
      | (False, c) \<Rightarrow> (Inl GenerationMismatch, c))"

fun handle_command :: "coordinator_command \<Rightarrow> scan_coordinator \<Rightarrow>
    coordinator_reply \<times> scan_coordinator option" where
  "handle_command (CmdRegister key priority) c = map_prod ReplySchedule Some (schedule key priority c)"
| "handle_command (CmdLeaseExact key) c = map_prod ReplyLease Some (lease_exact key c)"
| "handle_command CmdLeaseNextScan c = map_prod ReplyLease Some (lease_next_scan c)"
| "handle_command (CmdAcquire kind path priority) c =
     map_prod ReplyLease Some (acquire_work kind path priority c)"
| "handle_command (CmdFinish lease completion) c =
     map_prod ReplyCompletion Some (finish lease completion c)"
| "handle_command (CmdRequeue lease) c = map_prod ReplyRequeue Some (requeue lease c)"
| "handle_command (CmdFocus path) c = (NoReply, Some (focus path c))"
| "handle_command (CmdAdvanceGeneration generation) c =
     map_prod ReplyAdvance Some (actor_advance generation c)"
| "handle_command CmdCancelScanWork c = (NoReply, Some (cancel_scan_work c))"
| "handle_command CmdFailScanWork c = (NoReply, Some (fail_scan_work c))"
| "handle_command CmdInvalidateScanWork c = (NoReply, Some (invalidate_scan_work c))"
| "handle_command CmdSnapshot c = (ReplySnapshot (snapshot c), Some c)"
| "handle_command CmdShutdown c = (NoReply, None)"

text \<open>
  The loop: it ends when the channel is empty and closed (all senders gone) or at a shutdown command,
  after which nothing more is received.
\<close>

fun run_actor :: "coordinator_command list \<Rightarrow> scan_coordinator \<Rightarrow>
    coordinator_reply list \<times> scan_coordinator option" where
  "run_actor [] c = ([], Some c)"
| "run_actor (cmd # cmds) c =
     (case handle_command cmd c of
        (r, None) \<Rightarrow> ([r], None)
      | (r, Some c') \<Rightarrow> (case run_actor cmds c' of (rs, s) \<Rightarrow> (r # rs, s)))"

section \<open>The client calls\<close>

type_synonym session_coordinator = "scan_coordinator option"

definition session_start :: "scan_session_id \<Rightarrow> scan_generation \<Rightarrow> session_coordinator" where
  "session_start session generation = Some (sc_new session generation)"

definition session_call :: "coordinator_command \<Rightarrow> session_coordinator \<Rightarrow>
    (session_coordinator_error, coordinator_reply) res \<times> session_coordinator" where
  "session_call cmd s =
     (case s of
        None \<Rightarrow> (Inl Disconnected, None)
      | Some c \<Rightarrow> (case handle_command cmd c of (r, s') \<Rightarrow> (Inr r, s')))"

text \<open>
  Every reply channel carries one type of reply; the other constructors cannot come back on it
  (\<open>session_calls\<close> evaluates each call), and are the error value here.
\<close>

definition expect_reply :: "(coordinator_reply \<Rightarrow> 'a option) \<Rightarrow>
    (session_coordinator_error, coordinator_reply) res \<times> session_coordinator \<Rightarrow>
    (session_coordinator_error, 'a) res \<times> session_coordinator" where
  "expect_reply pick = map_prod (\<lambda>r. res_bind r (\<lambda>x. ok_or (pick x) Disconnected)) id"

definition session_register :: "work_key \<Rightarrow> work_priority \<Rightarrow> session_coordinator \<Rightarrow>
    (session_coordinator_error, schedule_outcome) res \<times> session_coordinator" where
  "session_register key priority s =
     expect_reply (\<lambda>r. case r of ReplySchedule x \<Rightarrow> Some x | _ \<Rightarrow> None)
       (session_call (CmdRegister key priority) s)"

definition session_lease_exact :: "work_key \<Rightarrow> session_coordinator \<Rightarrow>
    (session_coordinator_error, work_lease option) res \<times> session_coordinator" where
  "session_lease_exact key s =
     expect_reply (\<lambda>r. case r of ReplyLease x \<Rightarrow> Some x | _ \<Rightarrow> None) (session_call (CmdLeaseExact key) s)"

definition session_lease_next_scan :: "session_coordinator \<Rightarrow>
    (session_coordinator_error, work_lease option) res \<times> session_coordinator" where
  "session_lease_next_scan s =
     expect_reply (\<lambda>r. case r of ReplyLease x \<Rightarrow> Some x | _ \<Rightarrow> None) (session_call CmdLeaseNextScan s)"

definition session_acquire :: "work_kind \<Rightarrow> relative_path \<Rightarrow> work_priority \<Rightarrow> session_coordinator \<Rightarrow>
    (session_coordinator_error, work_lease option) res \<times> session_coordinator" where
  "session_acquire kind path priority s =
     expect_reply (\<lambda>r. case r of ReplyLease x \<Rightarrow> Some x | _ \<Rightarrow> None)
       (session_call (CmdAcquire kind path priority) s)"

definition session_finish :: "work_lease \<Rightarrow> work_completion \<Rightarrow> session_coordinator \<Rightarrow>
    (session_coordinator_error, completion_outcome) res \<times> session_coordinator" where
  "session_finish lease completion s =
     expect_reply (\<lambda>r. case r of ReplyCompletion x \<Rightarrow> Some x | _ \<Rightarrow> None)
       (session_call (CmdFinish lease completion) s)"

definition session_requeue :: "work_lease \<Rightarrow> session_coordinator \<Rightarrow>
    (session_coordinator_error, requeue_outcome) res \<times> session_coordinator" where
  "session_requeue lease s =
     expect_reply (\<lambda>r. case r of ReplyRequeue x \<Rightarrow> Some x | _ \<Rightarrow> None) (session_call (CmdRequeue lease) s)"

definition session_focus :: "relative_path \<Rightarrow> session_coordinator \<Rightarrow> session_coordinator" where
  "session_focus path s = snd (session_call (CmdFocus path) s)"

definition session_advance_generation :: "scan_generation \<Rightarrow> session_coordinator \<Rightarrow>
    (session_coordinator_error, unit) res \<times> session_coordinator" where
  "session_advance_generation generation s =
     map_prod (\<lambda>r. res_bind r id) id
       (expect_reply (\<lambda>r. case r of ReplyAdvance x \<Rightarrow> Some x | _ \<Rightarrow> None)
         (session_call (CmdAdvanceGeneration generation) s))"

definition session_cancel_scan_work :: "session_coordinator \<Rightarrow> session_coordinator" where
  "session_cancel_scan_work s = snd (session_call CmdCancelScanWork s)"

definition session_fail_scan_work :: "session_coordinator \<Rightarrow> session_coordinator" where
  "session_fail_scan_work s = snd (session_call CmdFailScanWork s)"

definition session_invalidate_scan_work :: "session_coordinator \<Rightarrow> session_coordinator" where
  "session_invalidate_scan_work s = snd (session_call CmdInvalidateScanWork s)"

definition session_snapshot :: "session_coordinator \<Rightarrow>
    (session_coordinator_error, scheduler_snapshot) res \<times> session_coordinator" where
  "session_snapshot s =
     expect_reply (\<lambda>r. case r of ReplySnapshot x \<Rightarrow> Some x | _ \<Rightarrow> None) (session_call CmdSnapshot s)"

section \<open>Sequences of calls\<close>

text \<open>Calls of any clients, one after the other in the order the actor receives them.\<close>

fun serve :: "coordinator_command list \<Rightarrow> session_coordinator \<Rightarrow>
    (session_coordinator_error, coordinator_reply) res list \<times> session_coordinator" where
  "serve [] s = ([], s)"
| "serve (cmd # cmds) s =
     (case session_call cmd s of (r, s') \<Rightarrow> (case serve cmds s' of (rs, s'') \<Rightarrow> (r # rs, s'')))"

section \<open>Calls\<close>

lemma session_call_None [simp]: "session_call cmd None = (Inl Disconnected, None)"
  by (simp add: session_call_def)

lemma session_call_Some: "session_call cmd (Some c) = map_prod Inr id (handle_command cmd c)"
  by (simp add: session_call_def split: prod.split)

lemma expect_reply_simps [simp]:
  "expect_reply pick (Inl e, s) = (Inl e, s)"
  "expect_reply pick (Inr r, s) = (ok_or (pick r) Disconnected, s)"
  by (simp_all add: expect_reply_def res_simps)

lemma session_stopped:
  "session_register key priority None = (Inl Disconnected, None)"
  "session_lease_exact key None = (Inl Disconnected, None)"
  "session_lease_next_scan None = (Inl Disconnected, None)"
  "session_acquire kind path priority None = (Inl Disconnected, None)"
  "session_finish lease completion None = (Inl Disconnected, None)"
  "session_requeue lease None = (Inl Disconnected, None)"
  "session_focus path None = None"
  "session_advance_generation generation None = (Inl Disconnected, None)"
  "session_cancel_scan_work None = None"
  "session_fail_scan_work None = None"
  "session_invalidate_scan_work None = None"
  "session_snapshot None = (Inl Disconnected, None)"
  by (simp_all add: session_register_def session_lease_exact_def session_lease_next_scan_def
      session_acquire_def session_finish_def session_requeue_def session_focus_def
      session_advance_generation_def session_cancel_scan_work_def session_fail_scan_work_def
      session_invalidate_scan_work_def session_snapshot_def res_simps)

lemma session_calls:
  "session_register key priority (Some c) = map_prod Inr Some (schedule key priority c)"
  "session_lease_exact key (Some c) = map_prod Inr Some (lease_exact key c)"
  "session_lease_next_scan (Some c) = map_prod Inr Some (lease_next_scan c)"
  "session_acquire kind path priority (Some c) = map_prod Inr Some (acquire_work kind path priority c)"
  "session_finish lease completion (Some c) = map_prod Inr Some (finish lease completion c)"
  "session_requeue lease (Some c) = map_prod Inr Some (requeue lease c)"
  "session_focus path (Some c) = Some (focus path c)"
  "session_advance_generation generation (Some c) = map_prod id Some (actor_advance generation c)"
  "session_cancel_scan_work (Some c) = Some (cancel_scan_work c)"
  "session_fail_scan_work (Some c) = Some (fail_scan_work c)"
  "session_invalidate_scan_work (Some c) = Some (invalidate_scan_work c)"
  "session_snapshot (Some c) = (Inr (snapshot c), Some c)"
  by (simp_all add: session_register_def session_lease_exact_def session_lease_next_scan_def
      session_acquire_def session_finish_def session_requeue_def session_focus_def
      session_advance_generation_def session_cancel_scan_work_def session_fail_scan_work_def
      session_invalidate_scan_work_def session_snapshot_def session_call_Some expect_reply_def
      res_simps ok_or_def case_prod_beta prod_eq_iff)

lemma serve_None [simp]: "serve cmds None = (map (\<lambda>_. Inl Disconnected) cmds, None)"
  by (induction cmds) simp_all

lemma length_serve [simp]: "length (fst (serve cmds s)) = length cmds"
  by (induction cmds arbitrary: s) (simp_all add: case_prod_beta)

lemma serve_append:
  "serve (xs @ ys) s = (fst (serve xs s) @ fst (serve ys (snd (serve xs s))), snd (serve ys (snd (serve xs s))))"
  by (induction xs arbitrary: s) (simp_all add: case_prod_beta)

text \<open>The loop serves the calls that come before it stops; later ones find nobody.\<close>

lemma serve_run_actor:
  "run_actor cmds c = (rs, s) \<Longrightarrow> serve cmds (Some c) = (map Inr rs @ replicate (length cmds - length rs) (Inl Disconnected), s)"
proof (induction cmds arbitrary: c rs)
  case (Cons cmd cmds)
  then show ?case
    by (auto simp: session_call_Some map_replicate_const split: prod.splits option.splits)
qed simp

end
