(* ===== verification/Run_File.thy ===== *)
theory Run_File
  imports Ready_Queues
begin

text \<open>
  Sealed sorted runs (\<open>src/src/scan_store/run_file.rs\<close>): the block-framed writer, the sequential
  reader and the range reader that starts from the sparse block index.

  A file is its bytes.  \<open>sha\<close> stands for SHA-256 of the \<open>sha2\<close> crate, of which only
  the length of a digest is used.  The outcome of charging the storage quota and writing to the file is
  the parameter \<open>grow\<close>, given the offset the file would grow to, and the check that the session
  is still running is \<open>running\<close>, given the number of blocks read; each answers with an
  operating-system error or nothing.  Reopening, sharing and deleting files, and errors of the
  operating system while reading, are not modelled: a reader fails on its bytes alone.  A writer or
  reader that failed is not used again by the code, so a failed call returns the error only.
  An \<open>expect\<close> that would not hold is the error \<open>RunPanic\<close>.
\<close>

section \<open>Descriptors and errors\<close>

datatype run_kind =
    RunPathObservation | RunIdentityObservation | RunAllocationContribution
  | RunDirectorySummary | RunChildQuery | RunPathCatalog

primrec run_kind_code :: "run_kind \<Rightarrow> u8" where
  "run_kind_code RunPathObservation = 1"
| "run_kind_code RunIdentityObservation = 2"
| "run_kind_code RunAllocationContribution = 3"
| "run_kind_code RunDirectorySummary = 4"
| "run_kind_code RunChildQuery = 5"
| "run_kind_code RunPathCatalog = 6"

definition run_kind_from_code :: "u8 \<Rightarrow> run_kind option" where
  "run_kind_from_code v =
     (if v = 1 then Some RunPathObservation else if v = 2 then Some RunIdentityObservation
      else if v = 3 then Some RunAllocationContribution else if v = 4 then Some RunDirectorySummary
      else if v = 5 then Some RunChildQuery else if v = 6 then Some RunPathCatalog else None)"

record run_descriptor =
  rd_generation :: scan_generation
  rd_run_id :: u64
  rd_kind :: run_kind

datatype 'io run_error =
    RunIo 'io | NonEmptyStart | ZeroBlockCapacity | RecordTooLarge | UnsortedKey | InvalidHeader
  | InvalidBlock | ChecksumMismatch | Truncated | TrailingData | AlreadyConsumed | UnindexedRange
  | CountOverflow | OffsetOverflow | RunPanic

definition RUN_MAGIC :: bytes where "RUN_MAGIC = [69, 88, 83, 82]"
definition BLOCK_MAGIC :: bytes where "BLOCK_MAGIC = [69, 88, 83, 66]"
definition FOOTER_MAGIC :: bytes where "FOOTER_MAGIC = [69, 88, 83, 70]"
definition RUN_VERSION :: u16 where "RUN_VERSION = 1"
definition HEADER_BYTES :: nat where "HEADER_BYTES = 28"
definition FOOTER_BYTES :: nat where "FOOTER_BYTES = 20"
definition RECORD_LENGTH_BYTES :: nat where "RECORD_LENGTH_BYTES = 2 * 4"

text \<open>\<open>checked_add\<close> on \<open>usize\<close> and the narrowing of lengths.\<close>

definition usize_checked_add :: "nat \<Rightarrow> nat \<Rightarrow> nat option" where
  "usize_checked_add a b = (if a + b < 2 ^ 64 then Some (a + b) else None)"

definition u32_of_len :: "'e \<Rightarrow> nat \<Rightarrow> ('e, u32) res" where
  "u32_of_len e n = (if n < 2 ^ 32 then Inr (of_nat n) else Inl e)"

section \<open>Frames\<close>

definition encode_header :: "run_descriptor \<Rightarrow> nat \<Rightarrow> ('io run_error, bytes) res" where
  "encode_header d block_capacity =
     res_bind (u32_of_len RecordTooLarge block_capacity) (\<lambda>capacity.
       Inr (RUN_MAGIC @ u16_le RUN_VERSION @ [run_kind_code (rd_kind d), 0] @ u64_le (rd_generation d)
            @ u64_le (rd_run_id d) @ u32_le capacity))"

definition decode_header :: "bytes \<Rightarrow> ('io run_error, (run_descriptor \<times> nat) \<times> bytes) res" where
  "decode_header input =
     res_bind (take_bytes Truncated HEADER_BYTES input) (\<lambda>(header, rest).
       if take 4 header \<noteq> RUN_MAGIC \<or> u16_from_le (take 2 (drop 4 header)) \<noteq> RUN_VERSION \<or> header ! 7 \<noteq> 0
       then Inl InvalidHeader
       else
         case run_kind_from_code (header ! 6) of
           None \<Rightarrow> Inl InvalidHeader
         | Some kind \<Rightarrow>
             let generation = u64_from_le (take 8 (drop 8 header));
                 run_id = u64_from_le (take 8 (drop 16 header));
                 block_capacity = unat (u32_from_le (take 4 (drop 24 header)))
             in if block_capacity = 0 then Inl InvalidHeader
                else Inr ((\<lparr>rd_generation = generation, rd_run_id = run_id, rd_kind = kind\<rparr>, block_capacity), rest))"

definition encode_footer :: "u64 \<Rightarrow> u64 \<Rightarrow> bytes" where
  "encode_footer records blocks = FOOTER_MAGIC @ u64_le records @ u64_le blocks"

section \<open>The writer\<close>

record sparse_run_block =
  sb_first_key :: bytes
  sb_offset :: u64

record run_writer =
  rw_file :: bytes
  rw_descriptor :: run_descriptor
  rw_block_capacity :: nat
  rw_block :: bytes
  rw_block_first_key :: "bytes option"
  rw_block_records :: u32
  rw_total_records :: u64
  rw_total_blocks :: u64
  rw_bytes_written :: u64
  rw_last_key :: bytes
  rw_has_key :: bool
  rw_sparse_index :: "sparse_run_block list option"

record sealed_run =
  sr_file :: bytes
  sr_descriptor :: run_descriptor
  sr_bytes :: u64
  sr_sparse_index :: "(nat \<times> sparse_run_block list) option"

type_synonym 'io grow = "u64 \<Rightarrow> 'io option"

definition write_reserved :: "'io grow \<Rightarrow> bytes \<Rightarrow> run_writer \<Rightarrow> ('io run_error, run_writer) res" where
  "write_reserved grow bs w =
     (if \<not> length bs < 2 ^ 64 then Inl OffsetOverflow
      else
        res_bind (ok_or (checked_add (rw_bytes_written w) (of_nat (length bs))) OffsetOverflow) (\<lambda>next_offset.
          case grow next_offset of
            Some e \<Rightarrow> Inl (RunIo e)
          | None \<Rightarrow> Inr (w\<lparr>rw_file := rw_file w @ bs, rw_bytes_written := next_offset\<rparr>)))"

definition indexed_kind :: "run_kind \<Rightarrow> bool" where
  "indexed_kind k \<longleftrightarrow> k = RunChildQuery \<or> k = RunPathCatalog"

definition rw_new :: "'io grow \<Rightarrow> bytes \<Rightarrow> u64 \<Rightarrow> run_descriptor \<Rightarrow> nat \<Rightarrow> ('io run_error, run_writer) res" where
  "rw_new grow file reserved d block_capacity =
     (if block_capacity = 0 then Inl ZeroBlockCapacity
      else if file \<noteq> [] \<or> reserved \<noteq> 0 then Inl NonEmptyStart
      else
        let w = \<lparr>rw_file = file, rw_descriptor = d, rw_block_capacity = block_capacity, rw_block = [],
                 rw_block_first_key = None, rw_block_records = 0, rw_total_records = 0, rw_total_blocks = 0,
                 rw_bytes_written = 0, rw_last_key = [], rw_has_key = False,
                 rw_sparse_index = (if indexed_kind (rd_kind d) then Some [] else None)\<rparr>
        in res_bind (encode_header d block_capacity) (\<lambda>header. write_reserved grow header w))"

definition block_header :: "(bytes \<Rightarrow> bytes) \<Rightarrow> u32 \<Rightarrow> u32 \<Rightarrow> bytes \<Rightarrow> bytes" where
  "block_header sha records payload_length payload =
     BLOCK_MAGIC @ u32_le records @ u32_le payload_length @ sha payload"

text \<open>The index entry of the block about to be written, at the offset of its header.\<close>

definition index_block :: "run_writer \<Rightarrow> ('io run_error, run_writer) res" where
  "index_block w =
     (case rw_sparse_index w of
        None \<Rightarrow> Inr w
      | Some index \<Rightarrow>
          (case rw_block_first_key w of
             None \<Rightarrow> Inl RunPanic
           | Some first_key \<Rightarrow>
               Inr (w\<lparr>rw_block_first_key := None,
                      rw_sparse_index := Some (index @ [\<lparr>sb_first_key = first_key, sb_offset = rw_bytes_written w\<rparr>])\<rparr>)))"

definition flush_block :: "(bytes \<Rightarrow> bytes) \<Rightarrow> 'io grow \<Rightarrow> run_writer \<Rightarrow> ('io run_error, run_writer) res" where
  "flush_block sha grow w =
     (if rw_block w = [] then Inr w
      else
        res_bind (u32_of_len RecordTooLarge (length (rw_block w))) (\<lambda>payload_length.
        let header = block_header sha (rw_block_records w) payload_length (rw_block w) in
        res_bind (index_block w) (\<lambda>w.
        res_bind (write_reserved grow header w) (\<lambda>w.
        let payload = rw_block w in
        res_bind (write_reserved grow payload (w\<lparr>rw_block := []\<rparr>)) (\<lambda>w.
        res_bind (ok_or (checked_add (rw_total_blocks w) 1) CountOverflow) (\<lambda>total.
          Inr (w\<lparr>rw_block_records := 0, rw_total_blocks := total\<rparr>)))))))"

definition record_frame :: "u32 \<Rightarrow> u32 \<Rightarrow> bytes \<Rightarrow> bytes \<Rightarrow> bytes" where
  "record_frame key_length value_length key val = u32_le key_length @ u32_le value_length @ key @ val"

text \<open>The record goes into the current block, whose first key an indexed run remembers.\<close>

definition push_record :: "bytes \<Rightarrow> bytes \<Rightarrow> run_writer \<Rightarrow> ('io run_error, run_writer) res" where
  "push_record key framed w =
     (let fk = (if rw_block w = [] \<and> rw_sparse_index w \<noteq> None then Some key else rw_block_first_key w);
          w = w\<lparr>rw_block_first_key := fk, rw_block := rw_block w @ framed, rw_last_key := key, rw_has_key := True\<rparr> in
      res_bind (ok_or (checked_add (rw_block_records w) 1) CountOverflow) (\<lambda>block_records.
      res_bind (ok_or (checked_add (rw_total_records w) 1) CountOverflow) (\<lambda>total_records.
        Inr (w\<lparr>rw_block_records := block_records, rw_total_records := total_records\<rparr>))))"

definition rw_append :: "(bytes \<Rightarrow> bytes) \<Rightarrow> 'io grow \<Rightarrow> bytes \<Rightarrow> bytes \<Rightarrow> run_writer \<Rightarrow>
    ('io run_error, run_writer) res" where
  "rw_append sha grow key val w =
     (if rw_has_key w \<and> key \<le> rw_last_key w then Inl UnsortedKey
      else
        res_bind (ok_or (Option.bind (usize_checked_add RECORD_LENGTH_BYTES (length key))
                    (\<lambda>n. usize_checked_add n (length val))) OffsetOverflow) (\<lambda>record_bytes.
        res_bind (u32_of_len RecordTooLarge (length key)) (\<lambda>key_length.
        res_bind (u32_of_len RecordTooLarge (length val)) (\<lambda>value_length.
        if rw_block_capacity w < record_bytes then Inl RecordTooLarge
        else
          res_bind
            (if rw_block w \<noteq> [] \<and>
                (case usize_checked_add (length (rw_block w)) record_bytes of
                   None \<Rightarrow> True | Some n \<Rightarrow> rw_block_capacity w < n)
             then flush_block sha grow w else Inr w) (\<lambda>w.
            push_record key (record_frame key_length value_length key val) w)))))"

definition rw_seal :: "(bytes \<Rightarrow> bytes) \<Rightarrow> 'io grow \<Rightarrow> run_writer \<Rightarrow> ('io run_error, sealed_run) res" where
  "rw_seal sha grow w =
     res_bind (flush_block sha grow w) (\<lambda>w.
     res_bind (write_reserved grow (encode_footer (rw_total_records w) (rw_total_blocks w)) w) (\<lambda>w.
       Inr \<lparr>sr_file = rw_file w, sr_descriptor = rw_descriptor w, sr_bytes = rw_bytes_written w,
            sr_sparse_index = map_option (\<lambda>blocks. (rw_block_capacity w, blocks)) (rw_sparse_index w)\<rparr>))"

section \<open>The sequential reader\<close>

record run_reader =
  rr_input :: bytes
  rr_descriptor :: run_descriptor
  rr_block_capacity :: nat
  rr_block :: bytes
  rr_block_cursor :: nat
  rr_block_records :: u32
  rr_total_records :: u64
  rr_total_blocks :: u64
  rr_last_key :: bytes
  rr_has_key :: bool
  rr_consumed :: bool
  rr_finished :: bool

definition rr_open :: "bytes \<Rightarrow> ('io run_error, run_reader) res" where
  "rr_open file =
     res_bind (decode_header file) (\<lambda>((d, block_capacity), rest).
       Inr \<lparr>rr_input = rest, rr_descriptor = d, rr_block_capacity = block_capacity, rr_block = [],
            rr_block_cursor = 0, rr_block_records = 0, rr_total_records = 0, rr_total_blocks = 0,
            rr_last_key = [], rr_has_key = False, rr_consumed = False, rr_finished = False\<rparr>)"

definition read_length :: "bytes \<Rightarrow> nat \<Rightarrow> ('io run_error, nat \<times> nat) res" where
  "read_length payload cursor =
     res_bind (ok_or (usize_checked_add cursor 4) InvalidBlock) (\<lambda>end_offset.
       if length payload < end_offset then Inl InvalidBlock
       else Inr (unat (u32_from_le (take 4 (drop cursor payload))), end_offset))"

text \<open>A block frame after its tag: counts, digest, payload, and the rest of the file.\<close>

definition read_block :: "(bytes \<Rightarrow> bytes) \<Rightarrow> nat \<Rightarrow> bytes \<Rightarrow> ('io run_error, u32 \<times> bytes \<times> bytes) res" where
  "read_block sha block_capacity input =
     res_bind (take_u32 Truncated input) (\<lambda>(records, input).
     res_bind (take_u32 Truncated input) (\<lambda>(payload_length, input).
     if records = 0 \<or> payload_length = 0 \<or> block_capacity < unat payload_length then Inl InvalidBlock
     else
       res_bind (take_bytes Truncated 32 input) (\<lambda>(expected_digest, input).
       res_bind (take_bytes Truncated (unat payload_length) input) (\<lambda>(payload, input).
         if sha payload \<noteq> expected_digest then Inl ChecksumMismatch
         else Inr (records, payload, input)))))"

definition rr_load_next_block :: "(bytes \<Rightarrow> bytes) \<Rightarrow> (u64 \<Rightarrow> 'io option) \<Rightarrow> run_reader \<Rightarrow>
    ('io run_error, bool \<times> run_reader) res" where
  "rr_load_next_block sha running r =
     (case running (rr_total_blocks r) of
        Some e \<Rightarrow> Inl (RunIo e)
      | None \<Rightarrow>
          res_bind (take_bytes Truncated 4 (rr_input r)) (\<lambda>(tag, input).
            if tag = FOOTER_MAGIC then
              res_bind (take_u64 Truncated input) (\<lambda>(expected_records, input).
              res_bind (take_u64 Truncated input) (\<lambda>(expected_blocks, input).
                if rr_total_records r \<noteq> expected_records \<or> rr_total_blocks r \<noteq> expected_blocks
                then Inl InvalidBlock
                else if input \<noteq> [] then Inl TrailingData
                else Inr (False, r\<lparr>rr_input := input, rr_finished := True\<rparr>)))
            else if tag \<noteq> BLOCK_MAGIC then Inl InvalidBlock
            else
              res_bind (read_block sha (rr_block_capacity r) input) (\<lambda>(records, payload, input).
              res_bind (ok_or (checked_add (rr_total_blocks r) 1) CountOverflow) (\<lambda>total_blocks.
                Inr (True, r\<lparr>rr_input := input, rr_block := payload, rr_block_cursor := 0,
                              rr_block_records := records, rr_total_blocks := total_blocks\<rparr>)))))"

text \<open>The record at the cursor of the block in memory: shared by both readers.\<close>

definition parse_record :: "bytes \<Rightarrow> nat \<Rightarrow> bool \<Rightarrow> bytes \<Rightarrow> u32 \<Rightarrow>
    ('io run_error, (bytes \<times> bytes) \<times> nat \<times> u32) res" where
  "parse_record block cursor has_key last_key records =
     res_bind (read_length block cursor) (\<lambda>(key_length, cursor).
     res_bind (read_length block cursor) (\<lambda>(value_length, cursor).
     res_bind (ok_or (usize_checked_add cursor key_length) InvalidBlock) (\<lambda>key_end.
     res_bind (ok_or (usize_checked_add key_end value_length) InvalidBlock) (\<lambda>value_end.
     if length block < value_end then Inl InvalidBlock
     else
       let key = take key_length (drop cursor block); val = take value_length (drop key_end block) in
       if has_key \<and> key \<le> last_key then Inl UnsortedKey
       else if records = 0 then Inl InvalidBlock
       else if records - 1 = 0 \<and> value_end \<noteq> length block then Inl InvalidBlock
       else Inr ((key, val), value_end, records - 1)))))"

definition rr_take_record :: "run_reader \<Rightarrow> ('io run_error, (bytes \<times> bytes) option \<times> run_reader) res" where
  "rr_take_record r =
     res_bind (parse_record (rr_block r) (rr_block_cursor r) (rr_has_key r) (rr_last_key r) (rr_block_records r))
       (\<lambda>((key, val), cursor, records).
     res_bind (ok_or (checked_add (rr_total_records r) 1) CountOverflow) (\<lambda>total_records.
       Inr (Some (key, val), r\<lparr>rr_last_key := key, rr_has_key := True, rr_block_cursor := cursor,
                                rr_block_records := records, rr_total_records := total_records\<rparr>)))"

definition rr_next_record :: "(bytes \<Rightarrow> bytes) \<Rightarrow> (u64 \<Rightarrow> 'io option) \<Rightarrow> run_reader \<Rightarrow>
    ('io run_error, (bytes \<times> bytes) option \<times> run_reader) res" where
  "rr_next_record sha running r =
     (if rr_finished r then Inr (None, r)
      else
        let r = r\<lparr>rr_consumed := True\<rparr> in
        if rr_block_records r = 0 then
          res_bind (rr_load_next_block sha running r) (\<lambda>(loaded, r).
            if \<not> loaded then Inr (None, r) else rr_take_record r)
        else rr_take_record r)"

text \<open>
  The loop of \<open>visit_records\<close> and of every sequential pass, with a visitor on the caller's
  state.  Every record read leaves fewer bytes to read.
\<close>

definition rr_remaining :: "run_reader \<Rightarrow> nat" where
  "rr_remaining r = length (rr_input r) + (length (rr_block r) - rr_block_cursor r)"

lemma read_length_Inr:
  "read_length payload cursor = Inr (n, e) \<Longrightarrow> e = cursor + 4 \<and> cursor + 4 \<le> length payload"
  by (auto simp: read_length_def res_bind_Inr_iff usize_checked_add_def split: if_splits)

lemma parse_record_cursor:
  "parse_record block cursor has_key last_key records = Inr (kv, cursor', records') \<Longrightarrow>
    cursor < cursor' \<and> cursor' \<le> length block"
  by (auto simp: parse_record_def res_bind_Inr_iff Let_def usize_checked_add_def split: if_splits dest!: read_length_Inr)

lemma rr_take_record_remaining:
  assumes "rr_take_record r = Inr (kv, r')"
  shows "rr_remaining r' < rr_remaining r"
  using assms by (auto simp: rr_take_record_def rr_remaining_def res_bind_Inr_iff dest!: parse_record_cursor)

lemma read_block_length:
  "read_block sha capacity input = Inr (records, payload, input') \<Longrightarrow> length payload + length input' < length input"
  by (auto simp: read_block_def res_bind_Inr_iff take_int_Inr_iff take_bytes_Inr_iff split: if_splits)

lemma rr_load_remaining:
  assumes "rr_load_next_block sha running r = Inr (loaded, r')"
  shows "rr_remaining r' < rr_remaining r"
  using assms
  by (auto simp: rr_load_next_block_def rr_remaining_def res_bind_Inr_iff take_int_Inr_iff take_bytes_Inr_iff
      split: option.splits if_splits dest!: read_block_length)

lemma rr_remaining_consumed [simp]: "rr_remaining (r\<lparr>rr_consumed := b\<rparr>) = rr_remaining r"
  by (simp add: rr_remaining_def)

lemma rr_next_record_remaining:
  assumes "rr_next_record sha running r = Inr (Some kv, r')"
  shows "rr_remaining r' < rr_remaining r"
  using assms
  by (auto simp: rr_next_record_def Let_def res_bind_Inr_iff split: if_splits
      dest!: rr_take_record_remaining rr_load_remaining)

function rr_visit :: "(bytes \<Rightarrow> bytes) \<Rightarrow> (u64 \<Rightarrow> 'io option) \<Rightarrow> ('io run_error \<Rightarrow> 'e) \<Rightarrow>
    (bytes \<Rightarrow> bytes \<Rightarrow> 's \<Rightarrow> ('e, 's) res) \<Rightarrow> run_reader \<Rightarrow> 's \<Rightarrow> ('e, 's \<times> run_reader) res" where
  "rr_visit sha running from visit r s =
     (case rr_next_record sha running r of
        Inl e \<Rightarrow> Inl (from e)
      | Inr (None, r') \<Rightarrow> Inr (s, r')
      | Inr (Some kv, r') \<Rightarrow>
          (case visit (fst kv) (snd kv) s of
             Inl e \<Rightarrow> Inl e
           | Inr s' \<Rightarrow> rr_visit sha running from visit r' s'))"
  by pat_completeness auto
termination
  by (relation "measure (\<lambda>(sha, running, from, visit, r, s). rr_remaining r)")
    (auto dest: rr_next_record_remaining)

declare rr_visit.simps [simp del]

definition visit_records :: "(bytes \<Rightarrow> bytes) \<Rightarrow> (u64 \<Rightarrow> 'io option) \<Rightarrow>
    (bytes \<Rightarrow> bytes \<Rightarrow> 's \<Rightarrow> ('io run_error, 's) res) \<Rightarrow> run_reader \<Rightarrow> 's \<Rightarrow> ('io run_error, 's \<times> run_reader) res" where
  "visit_records sha running visit r s =
     (if rr_consumed r then Inl AlreadyConsumed else rr_visit sha running id visit r s)"

section \<open>The range reader\<close>

record run_range_reader =
  gr_input :: bytes
  gr_block_capacity :: nat
  gr_block :: bytes
  gr_block_cursor :: nat
  gr_block_records :: u32
  gr_last_key :: bytes
  gr_has_key :: bool
  gr_finished :: bool

definition gr_new :: "bytes \<Rightarrow> u64 \<Rightarrow> nat \<Rightarrow> run_range_reader" where
  "gr_new file offset block_capacity =
     \<lparr>gr_input = drop (unat offset) file, gr_block_capacity = block_capacity, gr_block = [],
      gr_block_cursor = 0, gr_block_records = 0, gr_last_key = [], gr_has_key = False, gr_finished = False\<rparr>"

text \<open>\<open>partition_point\<close> on blocks in key order: how many first keys are at most the bound.\<close>

definition range_reader :: "sealed_run \<Rightarrow> bytes \<Rightarrow> ('io run_error, run_range_reader) res" where
  "range_reader run lower_bound =
     (if \<not> indexed_kind (rd_kind (sr_descriptor run)) then Inl UnindexedRange
      else case sr_sparse_index run of
        None \<Rightarrow> Inl UnindexedRange
      | Some (block_capacity, blocks) \<Rightarrow>
          if unat (sr_bytes run) < FOOTER_BYTES then Inl InvalidBlock
          else
            let fallback = sr_bytes run - of_nat FOOTER_BYTES;
                n = length (takeWhile (\<lambda>b. sb_first_key b \<le> lower_bound) blocks);
                offset = (if n = 0 then fallback else sb_offset (blocks ! (n - 1)))
            in Inr (gr_new (sr_file run) offset block_capacity))"

definition gr_load_next_block :: "(bytes \<Rightarrow> bytes) \<Rightarrow> run_range_reader \<Rightarrow>
    ('io run_error, bool \<times> run_range_reader) res" where
  "gr_load_next_block sha r =
     res_bind (take_bytes Truncated 4 (gr_input r)) (\<lambda>(tag, input).
       if tag = FOOTER_MAGIC then
         res_bind (take_u64 Truncated input) (\<lambda>(expected_records, input).
         res_bind (take_u64 Truncated input) (\<lambda>(expected_blocks, input).
           if input \<noteq> [] then Inl TrailingData
           else Inr (False, r\<lparr>gr_input := input, gr_finished := True\<rparr>)))
       else if tag \<noteq> BLOCK_MAGIC then Inl InvalidBlock
       else
         res_bind (read_block sha (gr_block_capacity r) input) (\<lambda>(records, payload, input).
           Inr (True, r\<lparr>gr_input := input, gr_block := payload, gr_block_cursor := 0, gr_block_records := records\<rparr>)))"

definition gr_take_record :: "run_range_reader \<Rightarrow> ('io run_error, (bytes \<times> bytes) option \<times> run_range_reader) res" where
  "gr_take_record r =
     res_bind (parse_record (gr_block r) (gr_block_cursor r) (gr_has_key r) (gr_last_key r) (gr_block_records r))
       (\<lambda>((key, val), cursor, records).
         Inr (Some (key, val), r\<lparr>gr_last_key := key, gr_has_key := True, gr_block_cursor := cursor,
                                  gr_block_records := records\<rparr>))"

definition gr_next_record :: "(bytes \<Rightarrow> bytes) \<Rightarrow> run_range_reader \<Rightarrow>
    ('io run_error, (bytes \<times> bytes) option \<times> run_range_reader) res" where
  "gr_next_record sha r =
     (if gr_finished r then Inr (None, r)
      else if gr_block_records r = 0 then
        res_bind (gr_load_next_block sha r) (\<lambda>(loaded, r).
          if \<not> loaded then Inr (None, r) else gr_take_record r)
      else gr_take_record r)"

end
