(* ===== verification/Scan_Manifest.thy ===== *)
theory Scan_Manifest
  imports Session_Actor Run_File
begin

text \<open>
  The manifest of the active scan generation (\<open>src/src/scan_store/manifest.rs\<close>) and the places of
  \<open>src/src/scan_store/session.rs\<close> that change it: recording a run, replacing runs and publishing.

  An operation answers with its result and the manifest it leaves behind, because
  \<open>replace_runs\<close> drops the obsolete runs before it can still refuse the new one; the session
  works on a copy and keeps it only on success.  \<open>manifest_steps\<close> is any sequence of calls,
  \<open>manifest_ok\<close> its invariant, and \<open>manifest_trace\<close> the history of states.
\<close>

section \<open>Definitions\<close>

record run_manifest_entry =
  me_descriptor :: run_descriptor
  me_bytes :: u64

datatype manifest_error = RunGenerationMismatch | DuplicateRun | ClosedForRuns | InvalidTransition | MissingRun

record scan_manifest =
  mf_session :: scan_session_id
  mf_generation :: scan_generation
  mf_state :: scan_generation_state
  mf_runs :: "run_manifest_entry list"

definition manifest_new :: "scan_session_id \<Rightarrow> scan_generation \<Rightarrow> scan_manifest" where
  "manifest_new session generation =
     \<lparr>mf_session = session, mf_generation = generation, mf_state = Creating, mf_runs = []\<rparr>"

text \<open>Two descriptors name the same run of a generation.\<close>

definition same_run :: "run_descriptor \<Rightarrow> run_descriptor \<Rightarrow> bool" where
  "same_run a b \<longleftrightarrow> rd_run_id a = rd_run_id b \<and> rd_kind a = rd_kind b"

definition open_for_runs :: "scan_manifest \<Rightarrow> bool" where
  "open_for_runs m \<longleftrightarrow> mf_state m \<in> {Scanning, Reducing}"

definition has_run :: "run_descriptor \<Rightarrow> run_manifest_entry list \<Rightarrow> bool" where
  "has_run d runs \<longleftrightarrow> (\<exists>e \<in> set runs. same_run (me_descriptor e) d)"

definition add_run :: "run_manifest_entry \<Rightarrow> scan_manifest \<Rightarrow> (manifest_error, unit) res \<times> scan_manifest" where
  "add_run run m =
     (if \<not> open_for_runs m then (Inl ClosedForRuns, m)
      else if rd_generation (me_descriptor run) \<noteq> mf_generation m then (Inl RunGenerationMismatch, m)
      else if has_run (me_descriptor run) (mf_runs m) then (Inl DuplicateRun, m)
      else (Inr (), m\<lparr>mf_runs := mf_runs m @ [run]\<rparr>))"

definition replace_runs :: "run_descriptor list \<Rightarrow> run_manifest_entry \<Rightarrow> scan_manifest \<Rightarrow>
    (manifest_error, unit) res \<times> scan_manifest" where
  "replace_runs removed added m =
     (if \<not> open_for_runs m then (Inl ClosedForRuns, m)
      else if rd_generation (me_descriptor added) \<noteq> mf_generation m then (Inl RunGenerationMismatch, m)
      else if \<exists>d \<in> set removed. rd_generation d \<noteq> mf_generation m then (Inl RunGenerationMismatch, m)
      else if \<exists>d \<in> set removed. \<not> has_run d (mf_runs m) then (Inl MissingRun, m)
      else
        let m = m\<lparr>mf_runs := filter (\<lambda>e. \<not> (\<exists>d \<in> set removed. same_run (me_descriptor e) d)) (mf_runs m)\<rparr> in
        if has_run (me_descriptor added) (mf_runs m) then (Inl DuplicateRun, m)
        else (Inr (), m\<lparr>mf_runs := mf_runs m @ [added]\<rparr>))"

definition replace_all_runs :: "run_manifest_entry \<Rightarrow> scan_manifest \<Rightarrow> (manifest_error, unit) res \<times> scan_manifest" where
  "replace_all_runs added m = replace_runs (map me_descriptor (mf_runs m)) added m"

definition manifest_transition :: "scan_generation_state \<Rightarrow> scan_manifest \<Rightarrow> (manifest_error, unit) res \<times> scan_manifest" where
  "manifest_transition next m =
     (if \<not> can_transition_to (mf_state m) next then (Inl InvalidTransition, m)
      else (Inr (), m\<lparr>mf_state := next\<rparr>))"

text \<open>The session works on a clone and keeps it only when every step succeeded.\<close>

definition on_clone :: "(scan_manifest \<Rightarrow> (manifest_error, unit) res \<times> scan_manifest) \<Rightarrow> scan_manifest \<Rightarrow>
    (manifest_error, unit) res \<times> scan_manifest" where
  "on_clone f m = (case f m of (Inl e, _) \<Rightarrow> (Inl e, m) | (Inr u, m') \<Rightarrow> (Inr u, m'))"

definition mf_then :: "(scan_manifest \<Rightarrow> (manifest_error, unit) res \<times> scan_manifest) \<Rightarrow>
    (scan_manifest \<Rightarrow> (manifest_error, unit) res \<times> scan_manifest) \<Rightarrow>
    scan_manifest \<Rightarrow> (manifest_error, unit) res \<times> scan_manifest" where
  "mf_then f g m = (case f m of (Inl e, m') \<Rightarrow> (Inl e, m') | (Inr _, m') \<Rightarrow> g m')"

definition record_added_run :: "run_manifest_entry \<Rightarrow> scan_manifest \<Rightarrow> (manifest_error, unit) res \<times> scan_manifest" where
  "record_added_run run = on_clone (add_run run)"

definition record_replaced_runs :: "run_descriptor list \<Rightarrow> run_manifest_entry \<Rightarrow> scan_manifest \<Rightarrow>
    (manifest_error, unit) res \<times> scan_manifest" where
  "record_replaced_runs removed output = on_clone (replace_runs removed output)"

primrec add_runs :: "run_manifest_entry list \<Rightarrow> scan_manifest \<Rightarrow> (manifest_error, unit) res \<times> scan_manifest" where
  "add_runs [] m = (Inr (), m)"
| "add_runs (run # runs) m = mf_then (add_run run) (add_runs runs) m"

definition publish_manifest :: "run_manifest_entry \<Rightarrow> run_manifest_entry list \<Rightarrow> scan_manifest \<Rightarrow>
    (manifest_error, unit) res \<times> scan_manifest" where
  "publish_manifest child_queries others =
     on_clone (mf_then (replace_all_runs child_queries)
       (mf_then (add_runs others) (manifest_transition Published)))"

definition summary_only_manifest :: "run_manifest_entry \<Rightarrow> scan_manifest \<Rightarrow> (manifest_error, unit) res \<times> scan_manifest" where
  "summary_only_manifest directory_summaries =
     on_clone (mf_then (replace_all_runs directory_summaries) (manifest_transition SummaryOnly))"

datatype manifest_call =
    CallAddRun run_manifest_entry
  | CallReplaceRuns "run_descriptor list" run_manifest_entry
  | CallReplaceAllRuns run_manifest_entry
  | CallTransition scan_generation_state

primrec manifest_apply :: "manifest_call \<Rightarrow> scan_manifest \<Rightarrow> (manifest_error, unit) res \<times> scan_manifest" where
  "manifest_apply (CallAddRun run) m = add_run run m"
| "manifest_apply (CallReplaceRuns removed added) m = replace_runs removed added m"
| "manifest_apply (CallReplaceAllRuns added) m = replace_all_runs added m"
| "manifest_apply (CallTransition next) m = manifest_transition next m"

fun manifest_steps :: "manifest_call list \<Rightarrow> scan_manifest \<Rightarrow> scan_manifest" where
  "manifest_steps [] m = m"
| "manifest_steps (c # cs) m = manifest_steps cs (snd (manifest_apply c m))"

text \<open>The states a sequence of calls goes through, without repetitions.\<close>

fun manifest_trace :: "manifest_call list \<Rightarrow> scan_manifest \<Rightarrow> scan_generation_state list" where
  "manifest_trace [] m = [mf_state m]"
| "manifest_trace (c # cs) m =
     (let m' = snd (manifest_apply c m) in
      if mf_state m' = mf_state m then manifest_trace cs m' else mf_state m # manifest_trace cs m')"

section \<open>Invariant\<close>

definition run_names :: "run_manifest_entry list \<Rightarrow> (u64 \<times> run_kind) list" where
  "run_names = map (\<lambda>e. (rd_run_id (me_descriptor e), rd_kind (me_descriptor e)))"

definition manifest_ok :: "scan_manifest \<Rightarrow> bool" where
  "manifest_ok m \<longleftrightarrow> distinct (run_names (mf_runs m)) \<and>
     (\<forall>e \<in> set (mf_runs m). rd_generation (me_descriptor e) = mf_generation m) \<and>
     (mf_state m = Creating \<longrightarrow> mf_runs m = [])"

lemma has_run_names: "has_run d runs \<longleftrightarrow> (rd_run_id d, rd_kind d) \<in> set (run_names runs)"
  unfolding has_run_def same_run_def run_names_def set_map image_iff prod.inject by metis

lemma run_names_append [simp]: "run_names (xs @ ys) = run_names xs @ run_names ys" "run_names [] = []"
  "run_names [e] = [(rd_run_id (me_descriptor e), rd_kind (me_descriptor e))]"
  by (simp_all add: run_names_def)

lemma distinct_run_names_filter: "distinct (run_names runs) \<Longrightarrow> distinct (run_names (filter P runs))"
  by (simp add: run_names_def distinct_map_filter)

lemma add_run_ok: "manifest_ok m \<Longrightarrow> manifest_ok (snd (add_run run m))"
  by (auto simp: add_run_def manifest_ok_def open_for_runs_def has_run_names)

lemma replace_runs_ok: "manifest_ok m \<Longrightarrow> manifest_ok (snd (replace_runs removed added m))"
  by (auto simp: replace_runs_def manifest_ok_def open_for_runs_def has_run_names distinct_run_names_filter Let_def)

lemma manifest_transition_ok: "manifest_ok m \<Longrightarrow> manifest_ok (snd (manifest_transition next m))"
  by (auto simp: manifest_transition_def manifest_ok_def transition_Creating)

lemma manifest_apply_ok: "manifest_ok m \<Longrightarrow> manifest_ok (snd (manifest_apply c m))"
  by (cases c) (simp_all add: add_run_ok replace_runs_ok replace_all_runs_def manifest_transition_ok)

lemma manifest_apply_keeps:
  "mf_session (snd (manifest_apply c m)) = mf_session m" "mf_generation (snd (manifest_apply c m)) = mf_generation m"
  by (cases c; simp add: add_run_def replace_runs_def replace_all_runs_def manifest_transition_def Let_def)+

lemma manifest_steps_ok: "manifest_ok m \<Longrightarrow> manifest_ok (manifest_steps cs m)"
  by (induction cs arbitrary: m) (simp_all add: manifest_apply_ok)

lemma manifest_new_ok: "manifest_ok (manifest_new session generation)"
  by (simp add: manifest_ok_def manifest_new_def)

section \<open>Lifecycle\<close>

lemma manifest_apply_state:
  "mf_state (snd (manifest_apply c m)) \<noteq> mf_state m \<Longrightarrow>
    can_transition_to (mf_state m) (mf_state (snd (manifest_apply c m)))"
  by (cases c) (auto simp: add_run_def replace_runs_def replace_all_runs_def manifest_transition_def Let_def split: if_splits)

lemma hd_manifest_trace: "manifest_trace cs m \<noteq> [] \<and> hd (manifest_trace cs m) = mf_state m"
proof (induction cs arbitrary: m)
  case (Cons c cs)
  from Cons [of "snd (manifest_apply c m)"] show ?case by (simp add: Let_def)
qed simp

lemma last_manifest_trace: "last (manifest_trace cs m) = mf_state (manifest_steps cs m)"
  by (induction cs arbitrary: m) (use hd_manifest_trace in \<open>auto simp: Let_def\<close>)

lemma manifest_trace_chain: "successively can_transition_to (manifest_trace cs m)"
proof (induction cs arbitrary: m)
  case (Cons c cs)
  let ?m = "snd (manifest_apply c m)"
  obtain t where t: "manifest_trace cs ?m = mf_state ?m # t"
    using hd_manifest_trace [of cs ?m] by (cases "manifest_trace cs ?m") auto
  from Cons [of ?m] manifest_apply_state [of c m] t show ?case by (auto simp: Let_def)
qed simp

lemma chain_length: "successively can_transition_to (s # ss) \<Longrightarrow> length ss + stage s \<le> 3"
proof (induction ss arbitrary: s)
  case Nil
  show ?case by (cases s) simp_all
next
  case (Cons t ss)
  then have "stage s < stage t" "length ss + stage t \<le> 3" using transition_stage by simp_all
  then show ?case by simp
qed

lemma chain_Published:
  assumes "successively can_transition_to ss" "hd ss = Creating" "last ss = Published" "ss \<noteq> []"
  shows "ss = [Creating, Scanning, Reducing, Published]"
proof -
  obtain ts where ts: "ss = Creating # ts" using assms(2,4) by (cases ss) auto
  have "length ts \<le> 3" using chain_length [of Creating ts] assms(1) ts by simp
  then show ?thesis using assms(1,3) ts
    by (cases ts rule: remdups_adj.cases; cases "tl (tl ts)"; cases "tl (tl (tl ts))")
      (auto simp: transition_Published transition_Reducing transition_Scanning split: if_splits)
qed

text \<open>Nothing changes a manifest in a terminal state.\<close>

lemma terminal_manifest:
  assumes "stage (mf_state m) = 3"
  shows "snd (manifest_apply c m) = m \<and> fst (manifest_apply c m) \<noteq> Inr ()"
proof -
  have "\<not> can_transition_to (mf_state m) s" for s using assms transition_stage [of "mf_state m" s] by (cases s) auto
  moreover have "\<not> open_for_runs m" using assms by (auto simp: open_for_runs_def)
  ultimately show ?thesis
    by (cases c) (simp_all add: add_run_def replace_runs_def replace_all_runs_def manifest_transition_def)
qed

section \<open>Replacing and publishing\<close>

lemma replace_all_runs_eq:
  assumes "manifest_ok m" "open_for_runs m" "rd_generation (me_descriptor added) = mf_generation m"
  shows "replace_all_runs added m = (Inr (), m\<lparr>mf_runs := [added]\<rparr>)"
proof -
  have none: "filter (\<lambda>e. \<not> (\<exists>d \<in> set (map me_descriptor (mf_runs m)). same_run (me_descriptor e) d)) (mf_runs m) = []"
    by (auto simp: filter_empty_conv same_run_def)
  have "\<not> (\<exists>d \<in> set (map me_descriptor (mf_runs m)). \<not> has_run d (mf_runs m))"
    by (auto simp: has_run_def same_run_def)
  moreover have "\<not> (\<exists>d \<in> set (map me_descriptor (mf_runs m)). rd_generation d \<noteq> mf_generation m)"
    using assms(1) by (auto simp: manifest_ok_def)
  moreover have "\<not> has_run (me_descriptor added) []" by (simp add: has_run_def)
  ultimately show ?thesis
    unfolding replace_all_runs_def replace_runs_def none Let_def using assms(2,3) by simp
qed

lemma add_runs_eq:
  "open_for_runs m \<Longrightarrow> \<forall>e \<in> set runs. rd_generation (me_descriptor e) = mf_generation m \<Longrightarrow>
    distinct (run_names (mf_runs m @ runs)) \<Longrightarrow> add_runs runs m = (Inr (), m\<lparr>mf_runs := mf_runs m @ runs\<rparr>)"
proof (induction runs arbitrary: m)
  case (Cons e runs)
  have "add_run e m = (Inr (), m\<lparr>mf_runs := mf_runs m @ [e]\<rparr>)"
    using Cons.prems by (auto simp: add_run_def has_run_names run_names_def)
  moreover have "add_runs runs (m\<lparr>mf_runs := mf_runs m @ [e]\<rparr>) = (Inr (), m\<lparr>mf_runs := mf_runs m @ e # runs\<rparr>)"
    using Cons.IH [of "m\<lparr>mf_runs := mf_runs m @ [e]\<rparr>"] Cons.prems by (simp add: open_for_runs_def)
  ultimately show ?case by (simp add: mf_then_def)
qed simp

lemma on_clone_keeps: "fst (on_clone f m) = Inl e \<Longrightarrow> snd (on_clone f m) = m"
  by (auto simp: on_clone_def split: prod.splits sum.splits)

lemma publish_manifest_eq:
  assumes "manifest_ok m" "mf_state m = Reducing" "distinct (run_names (child_queries # others))"
    "\<forall>e \<in> set (child_queries # others). rd_generation (me_descriptor e) = mf_generation m"
  shows "publish_manifest child_queries others m = (Inr (), m\<lparr>mf_runs := child_queries # others, mf_state := Published\<rparr>)"
proof -
  have "open_for_runs m" using assms(2) by (simp add: open_for_runs_def)
  then have "replace_all_runs child_queries m = (Inr (), m\<lparr>mf_runs := [child_queries]\<rparr>)"
    using replace_all_runs_eq assms by simp
  moreover have "add_runs others (m\<lparr>mf_runs := [child_queries]\<rparr>) = (Inr (), m\<lparr>mf_runs := child_queries # others\<rparr>)"
    using add_runs_eq [of "m\<lparr>mf_runs := [child_queries]\<rparr>" others] assms by (simp add: open_for_runs_def)
  ultimately show ?thesis
    using assms(2) by (simp add: publish_manifest_def on_clone_def mf_then_def manifest_transition_def)
qed

end
