(* ===== verification/Lease_Service.thy ===== *)
theory Lease_Service
  imports Session_Actor
begin

text \<open>
  What the deletion lane relies on of the session actor.  The locale \<open>lease_service\<close> fixes the
  calls that acquire, finish and requeue a lease and the set of active leases, and promises what each
  call does to that set and that deletions are exclusive; \<open>environment\<close> is a call of some other
  client, who never hands in a lease it was not given.  The actor's client calls provide it: the number
  in \<open>session_ok\<close> is how many more grants the identifiers are sure to last for.
\<close>

section \<open>The contract\<close>

definition is_deletion :: "work_lease \<Rightarrow> bool" where
  "is_deletion l \<longleftrightarrow> wk_kind (wl_key l) = PlanDeletion \<or> wk_kind (wl_key l) = ExecuteDeletion"

locale lease_service =
  fixes acquire :: "work_kind \<Rightarrow> relative_path \<Rightarrow> work_priority \<Rightarrow> 's \<Rightarrow> ('e, work_lease option) res \<times> 's"
    and finish_lease :: "work_lease \<Rightarrow> work_completion \<Rightarrow> 's \<Rightarrow> ('e, completion_outcome) res \<times> 's"
    and requeue_lease :: "work_lease \<Rightarrow> 's \<Rightarrow> ('e, requeue_outcome) res \<times> 's"
    and environment :: "work_lease set \<Rightarrow> 's \<Rightarrow> 's \<Rightarrow> bool"
    and running :: "'s \<Rightarrow> bool"
    and active :: "'s \<Rightarrow> work_lease set"
    and ok :: "nat \<Rightarrow> 's \<Rightarrow> bool"
  assumes ok_less: "ok (Suc k) s \<Longrightarrow> ok k s"
    and acquire_ok: "ok (Suc k) s \<Longrightarrow> acquire kind path priority s = (r, s') \<Longrightarrow> ok k s' \<and> running s' = running s"
    and acquire_granted: "ok (Suc k) s \<Longrightarrow> acquire kind path priority s = (Inr (Some l), s') \<Longrightarrow>
      l \<notin> active s \<and> active s' = insert l (active s) \<and> wk_kind (wl_key l) = kind \<and> wk_path (wl_key l) = path"
    and acquire_refused: "ok (Suc k) s \<Longrightarrow> acquire kind path priority s = (r, s') \<Longrightarrow> (\<And>l. r \<noteq> Inr (Some l)) \<Longrightarrow>
      active s' = active s"
    and finish_ok: "ok k s \<Longrightarrow> finish_lease l completion s = (f, s') \<Longrightarrow>
      ok k s' \<and> running s' = running s \<and> active s' = active s - {l} \<and> (f = Inr Accepted \<longleftrightarrow> l \<in> active s)"
    and requeue_ok: "ok k s \<Longrightarrow> requeue_lease l s = (q, s') \<Longrightarrow>
      ok k s' \<and> running s' = running s \<and> active s' = active s - {l} \<and> (q = Inr Requeued \<longleftrightarrow> l \<in> active s)"
    and environment_ok: "ok (Suc k) s \<Longrightarrow> environment held s s' \<Longrightarrow>
      ok k s' \<and> (running s' \<longrightarrow> running s) \<and> (running s' \<longrightarrow> {l \<in> held \<inter> active s. is_deletion l} \<subseteq> active s')"
    and execution_exclusive: "ok k s \<Longrightarrow> l \<in> active s \<Longrightarrow> m \<in> active s \<Longrightarrow>
      wk_kind (wl_key l) = ExecuteDeletion \<Longrightarrow> wk_kind (wl_key m) = ExecuteDeletion \<Longrightarrow> l = m"
begin

text \<open>A client's own leases: what it holds is active and deletion work.\<close>

definition backed :: "work_lease list \<Rightarrow> 's \<Rightarrow> bool" where
  "backed ls s \<longleftrightarrow> running s \<longrightarrow> distinct ls \<and> (\<forall>l \<in> set ls. l \<in> active s \<and> is_deletion l)"

lemma backed_acquire:
  assumes "ok (Suc k) s" "acquire kind path priority s = (Inr (Some l), s')" "kind = PlanDeletion \<or> kind = ExecuteDeletion"
    and "backed ls s"
  shows "backed (l # ls) s'" "wk_kind (wl_key l) = kind" "wk_path (wl_key l) = path"
  using acquire_granted [OF assms(1,2)] acquire_ok [OF assms(1,2)] assms(3,4) by (auto simp: backed_def is_deletion_def)

lemma backed_refused:
  assumes "ok (Suc k) s" "acquire kind path priority s = (r, s')" "\<And>l. r \<noteq> Inr (Some l)" "backed ls s"
  shows "backed ls s'"
  using acquire_refused [OF assms(1-3)] acquire_ok [OF assms(1,2)] assms(4) by (auto simp: backed_def)

lemma backed_finish:
  assumes "ok k s" "finish_lease l completion s = (r, s')" "backed (l # ls) s" "running s"
  shows "backed ls s'" "r = Inr Accepted"
  using finish_ok [OF assms(1,2)] assms(3,4) by (auto simp: backed_def)

lemma backed_requeue:
  assumes "ok k s" "requeue_lease l s = (q, s')" "backed (l # ls) s" "running s"
  shows "backed ls s'" "q = Inr Requeued"
  using requeue_ok [OF assms(1,2)] assms(3,4) by (auto simp: backed_def)

lemma backed_environment:
  assumes "ok (Suc k) s" "environment (set ls) s s'" "backed ls s"
  shows "backed ls s'"
  using environment_ok [OF assms(1,2)] assms(3) by (auto simp: backed_def)

end

section \<open>The actor provides it\<close>

definition active_leases :: "session_coordinator \<Rightarrow> work_lease set" where
  "active_leases s = (case s of None \<Rightarrow> {} | Some c \<Rightarrow> {l. om_get (sc_active c) (wl_id l) = Some l})"

definition is_running :: "session_coordinator \<Rightarrow> bool" where
  "is_running s \<longleftrightarrow> s \<noteq> None"

definition session_ok :: "nat \<Rightarrow> session_coordinator \<Rightarrow> bool" where
  "session_ok k s \<longleftrightarrow> (case s of None \<Rightarrow> True | Some c \<Rightarrow> coord_wf c \<and> unat (sc_next_lease c) + k < 2 ^ 64)"

text \<open>A call of another client: any command but handing in a lease that is not its own.\<close>

definition other_client :: "work_lease set \<Rightarrow> session_coordinator \<Rightarrow> session_coordinator \<Rightarrow> bool" where
  "other_client held s s' \<longleftrightarrow>
     (\<exists>cmd. (\<forall>l \<in> held. cmd \<noteq> CmdRequeue l \<and> (\<forall>completion. cmd \<noteq> CmdFinish l completion)) \<and> s' = snd (session_call cmd s))"

lemma active_leases_simps [simp]:
  "active_leases None = {}" "l \<in> active_leases (Some c) \<longleftrightarrow> om_get (sc_active c) (wl_id l) = Some l"
  by (simp_all add: active_leases_def)

lemma session_ok_simps [simp]:
  "session_ok k None" "session_ok k (Some c) \<longleftrightarrow> coord_wf c \<and> unat (sc_next_lease c) + k < 2 ^ 64"
  by (simp_all add: session_ok_def)

lemma next_lease_max: "unat (sc_next_lease c) + Suc k < 2 ^ 64 \<Longrightarrow> sc_next_lease c \<noteq> - 1"
  by (auto simp: unat_minus_one_word)

lemma schedule_active [simp]: "sc_active (snd (schedule key priority c)) = sc_active c"
  by (auto simp: schedule_def Let_def enqueue_pending_def split: option.split)

lemma lease_queued_leases:
  assumes "coord_wf c" "ready c pr w"
  shows "active_leases (Some (snd (lease_queued w f c))) = insert (lease_of c pr w f) (active_leases (Some c))"
    "lease_of c pr w f \<notin> active_leases (Some c)"
proof -
  note wf = coord_wfD [OF assms(1)] and om = coord_wf_om [OF assms(1)]
  have free: "om_get (sc_active c) (sc_next_lease c) = None"
    using act_inv_below [OF wf(2), of "sc_next_lease c"] by (cases "om_get (sc_active c) (sc_next_lease c)") auto
  show "lease_of c pr w f \<notin> active_leases (Some c)" using free by (simp add: lease_of_def)
  have "sc_active (snd (lease_queued w f c)) = om_insert (sc_next_lease c) (lease_of c pr w f) (sc_active c)"
    using assms(2) by (simp add: ready_def lease_queued_def Let_def lease_of_def)
  then show "active_leases (Some (snd (lease_queued w f c))) = insert (lease_of c pr w f) (active_leases (Some c))"
    using om(2) free by (auto simp: om_get_insert lease_of_def split: if_splits)
qed

lemma lease_exact_leases:
  assumes "coord_wf c" "lease_exact k c = (r, c')"
  shows "case r of None \<Rightarrow> active_leases (Some c') = active_leases (Some c)
    | Some l \<Rightarrow> l \<notin> active_leases (Some c) \<and> active_leases (Some c') = insert l (active_leases (Some c)) \<and> wl_key l = k"
  using assms(1)
proof (cases rule: lease_exact_cases [where k = k])
  case none
  then show ?thesis using assms(2) by simp
next
  case (lease pr w)
  then show ?thesis using assms(2) lease_queued_leases [OF assms(1) lease(2), of False] by (auto simp: lease_of_def)
qed

lemma lease_next_scan_leases:
  assumes "coord_wf c"
  shows "active_leases (Some c) \<subseteq> active_leases (Some (snd (lease_next_scan c)))"
  using assms
proof (cases rule: lease_next_scan_cases)
  case (lease pr w f)
  then show ?thesis using lease_queued_leases(1) [OF assms lease(2), of f] by auto
qed simp

lemma lease_exact_next: "unat (sc_next_lease (snd (lease_exact k c))) \<le> Suc (unat (sc_next_lease c))"
  using lease_queued_next by (simp add: lease_exact_def split: option.split)

lemma lease_next_scan_next: "unat (sc_next_lease (snd (lease_next_scan c))) \<le> Suc (unat (sc_next_lease c))"
  using lease_queued_next by (simp add: lease_next_scan_def split: option.split)

lemma acquire_work_effect:
  assumes "coord_wf c" "sc_next_lease c \<noteq> - 1" "acquire_work kind path priority c = (r, c')"
  shows "coord_wf c' \<and> unat (sc_next_lease c') \<le> Suc (unat (sc_next_lease c)) \<and>
    (case r of None \<Rightarrow> active_leases (Some c') = active_leases (Some c)
     | Some l \<Rightarrow> l \<notin> active_leases (Some c) \<and> active_leases (Some c') = insert l (active_leases (Some c)) \<and>
         wk_kind (wl_key l) = kind \<and> wk_path (wl_key l) = path)"
proof -
  let ?k = "WorkKey (sc_session c) (sc_generation c) kind path"
  let ?d = "snd (schedule ?k priority c)"
  have d: "coord_wf ?d" "sc_next_lease ?d = sc_next_lease c" "active_leases (Some ?d) = active_leases (Some c)"
    using coord_wf_schedule [OF assms(1)] by (simp_all add: active_leases_def)
  have "(r, c') = lease_exact ?k ?d \<or> r = None \<and> c' = ?d"
    using assms(3) by (auto simp: acquire_work_def Let_def split: prod.splits schedule_outcome.splits)
  then show ?thesis
  proof
    assume eq: "(r, c') = lease_exact ?k ?d"
    then show ?thesis
      using lease_exact_leases [OF d(1) eq [symmetric]] coord_wf_lease_exact [OF d(1), of ?k] lease_exact_next [of ?k ?d] d assms(2)
      by (auto simp: eq [symmetric] prod_eq_iff split: option.splits)
  qed (use d in simp)
qed

lemma remove_active_leases:
  assumes "coord_wf c" "om_get (sc_active c) (wl_id l) = Some l"
  shows "active_leases (Some (snd (remove_active (wl_id l) c))) = active_leases (Some c) - {l}"
proof -
  have "sc_active (snd (remove_active (wl_id l) c)) = om_remove (wl_id l) (sc_active c)"
    using assms(2) by (simp add: remove_active_def)
  then show ?thesis using coord_wf_om(2) [OF assms(1)] assms(2) by (auto simp: om_get_remove split: if_splits)
qed

lemma finish_leases:
  assumes "coord_wf c"
  shows "active_leases (Some (snd (finish l completion c))) = active_leases (Some c) - {l}"
    "fst (finish l completion c) = Accepted \<longleftrightarrow> l \<in> active_leases (Some c)"
proof -
  have "active_leases (Some (record_terminal lc n d)) = active_leases (Some d)" for lc n d
    by (simp add: active_leases_def)
  then show "active_leases (Some (snd (finish l completion c))) = active_leases (Some c) - {l}"
    using remove_active_leases [OF assms, of l]
    by (cases "om_get (sc_active c) (wl_id l) = Some l") (auto simp: finish_stale finish_exact simp del: active_leases_simps(2),
        auto)
  show "fst (finish l completion c) = Accepted \<longleftrightarrow> l \<in> active_leases (Some c)"
    by (cases "om_get (sc_active c) (wl_id l) = Some l") (simp_all add: finish_stale finish_exact)
qed

lemma requeue_leases:
  assumes "coord_wf c"
  shows "active_leases (Some (snd (requeue l c))) = active_leases (Some c) - {l}"
    "fst (requeue l c) = Requeued \<longleftrightarrow> l \<in> active_leases (Some c)"
proof -
  have "active_leases (Some (enqueue_pending key pr d)) = active_leases (Some d)" for key pr d
    by (simp add: active_leases_def enqueue_pending_def Let_def)
  then show "active_leases (Some (snd (requeue l c))) = active_leases (Some c) - {l}"
    using remove_active_leases [OF assms, of l]
    by (cases "om_get (sc_active c) (wl_id l) = Some l") (auto simp: requeue_stale requeue_exact simp del: active_leases_simps(2),
        auto)
  show "fst (requeue l c) = Requeued \<longleftrightarrow> l \<in> active_leases (Some c)"
    by (cases "om_get (sc_active c) (wl_id l) = Some l") (simp_all add: requeue_stale requeue_exact)
qed

lemma terminate_matching_leases:
  assumes "coord_wf c" "l \<in> active_leases (Some c)" "\<not> P (wl_key l)"
  shows "l \<in> active_leases (Some (terminate_matching lc P c))"
proof (rule terminate_matching_effect [where lc = lc and P = P, OF assms(1)])
  fix Q B E T
  assume "terminate_matching lc P c =
      c\<lparr>sc_pending := filter (\<lambda>e. \<not> P (fst e)) (sc_pending c), sc_queues := Q,
       sc_active := filter (\<lambda>e. \<not> P (wl_key (snd e))) (sc_active c), sc_active_by_key := B,
       sc_active_deletion_execution := E, sc_terminal := T\<rparr>"
  then show ?thesis using assms coord_wf_om(2) [OF assms(1)] by (simp add: om_get_filter)
qed

lemma advance_leases:
  assumes "coord_wf c" "l \<in> active_leases (Some c)" "is_deletion l"
  shows "l \<in> active_leases (Some (snd (actor_advance g c)))"
proof (cases "sc_generation c < g")
  case True
  have kept: "\<not> is_scan_work (wk_kind (wl_key l))" using assms(3) by (auto simp: is_deletion_def is_scan_work_def)
  have "snd (actor_advance g c) = snd (advance_to g c)"
    using True by (simp add: actor_advance_def split: prod.split bool.split)
  then show ?thesis
    using advance_to_effect(4) [OF assms(1) True] assms(2) kept coord_wf_om(2) [OF assms(1)] by (simp add: om_get_filter)
next
  case False
  then show ?thesis using assms(2) advance_to_stale [of g c] by (auto simp: actor_advance_def not_less)
qed

lemma actor_advance_keeps:
  assumes "coord_wf c"
  shows "coord_wf (snd (actor_advance g c)) \<and> sc_next_lease (snd (actor_advance g c)) = sc_next_lease c"
  using assms coord_wf_advance_to [OF assms, of g] advance_to_next [OF assms, of g]
  by (auto simp: actor_advance_def split: prod.split bool.split)

text \<open>A command of another client: the invariant is kept and deletion leases stay active.\<close>

lemma other_command:
  assumes wf: "coord_wf c" and max: "sc_next_lease c \<noteq> - 1" and h: "handle_command cmd c = (r, Some c')"
    and l: "l \<in> active_leases (Some c)" "is_deletion l" "cmd \<noteq> CmdRequeue l" "\<And>completion. cmd \<noteq> CmdFinish l completion"
  shows "l \<in> active_leases (Some c')"
proof -
  have enum: "\<not> is_enumeration (wl_key l)" using l(2) by (auto simp: is_deletion_def is_enumeration_def)
  show ?thesis
  proof (cases cmd)
    case (CmdLeaseExact k)
    then show ?thesis using h l(1) lease_exact_leases [OF wf, of k] by (cases "lease_exact k c") (auto split: option.splits)
  next
    case CmdLeaseNextScan
    then show ?thesis using h l(1) lease_next_scan_leases [OF wf] by (cases "lease_next_scan c") auto
  next
    case (CmdAcquire kind path priority)
    obtain q d where q: "acquire_work kind path priority c = (q, d)" by fastforce
    then show ?thesis using CmdAcquire h l(1) acquire_work_effect [OF wf max q] by (auto split: option.splits)
  next
    case (CmdFinish m completion)
    then show ?thesis using h l finish_leases(1) [OF wf, of m completion] by (cases "finish m completion c") auto
  next
    case (CmdRequeue m)
    then show ?thesis using h l requeue_leases(1) [OF wf, of m] by (cases "requeue m c") auto
  next
    case (CmdAdvanceGeneration g)
    then show ?thesis using h advance_leases [OF wf l(1,2), of g] by (cases "actor_advance g c") auto
  next
    case CmdCancelScanWork
    then show ?thesis using h terminate_matching_leases [where P = is_enumeration, OF wf l(1) enum] by (auto simp: cancel_scan_work_def simp del: active_leases_simps(2))
  next
    case CmdFailScanWork
    then show ?thesis using h terminate_matching_leases [where P = is_enumeration, OF wf l(1) enum] by (auto simp: fail_scan_work_def simp del: active_leases_simps(2))
  next
    case CmdInvalidateScanWork
    then show ?thesis using h terminate_matching_leases [where P = is_enumeration, OF wf l(1) enum] by (auto simp: invalidate_scan_work_def simp del: active_leases_simps(2))
  next
    case (CmdRegister k priority)
    then show ?thesis using h l(1) schedule_active [of k priority c] by (cases "schedule k priority c") auto
  next
    case (CmdFocus p)
    then show ?thesis using h l(1) by (auto simp: focus_def Let_def)
  qed (use h l(1) in auto)
qed

lemma other_command_keeps:
  assumes wf: "coord_wf c" and max: "sc_next_lease c \<noteq> - 1" and h: "handle_command cmd c = (r, Some c')"
  shows "coord_wf c' \<and> unat (sc_next_lease c') \<le> Suc (unat (sc_next_lease c))"
proof -
  have scan: "coord_wf (terminate_matching lc is_enumeration c) \<and> sc_next_lease (terminate_matching lc is_enumeration c) = sc_next_lease c" for lc
    using coord_wf_terminate_matching [OF wf] terminate_matching_next [OF wf] by simp
  show ?thesis
  proof (cases cmd)
    case (CmdLeaseExact k)
    then show ?thesis using h coord_wf_lease_exact [OF wf max, of k] lease_exact_next [of k c] by (cases "lease_exact k c") auto
  next
    case CmdLeaseNextScan
    then show ?thesis using h coord_wf_lease_next_scan [OF wf max] lease_next_scan_next [of c] by (cases "lease_next_scan c") auto
  next
    case (CmdAcquire kind path priority)
    obtain q d where q: "acquire_work kind path priority c = (q, d)" by fastforce
    then show ?thesis using CmdAcquire h acquire_work_effect [OF wf max q] by auto
  next
    case (CmdFinish m completion)
    then show ?thesis using h coord_wf_finish [OF wf, of m completion] finish_next [of m completion c] by (cases "finish m completion c") auto
  next
    case (CmdRequeue m)
    then show ?thesis using h coord_wf_requeue [OF wf, of m] requeue_next [of m c] by (cases "requeue m c") auto
  next
    case (CmdAdvanceGeneration g)
    then show ?thesis using h actor_advance_keeps [OF wf, of g] by (cases "actor_advance g c") auto
  next
    case (CmdRegister k priority)
    then show ?thesis using h coord_wf_schedule [OF wf, of k priority] schedule_next [of k priority c] by (cases "schedule k priority c") auto
  next
    case (CmdFocus p)
    then show ?thesis using h coord_wf_focus [OF wf, of p] by (auto simp: focus_def Let_def)
  qed (use h scan wf in \<open>auto simp: cancel_scan_work_def fail_scan_work_def invalidate_scan_work_def\<close>)
qed

interpretation actor: lease_service session_acquire session_finish session_requeue other_client is_running
  active_leases session_ok
proof (unfold_locales, unfold is_running_def)
  fix k s
  assume "session_ok (Suc k) s"
  then show "session_ok k s" by (cases s) simp_all
next
  fix k s kind path priority r s'
  assume ok: "session_ok (Suc k) s" and call: "session_acquire kind path priority s = (r, s')"
  show "session_ok k s' \<and> (s' \<noteq> None) = (s \<noteq> None)"
  proof (cases s)
    case (Some c)
    obtain q d where q: "acquire_work kind path priority c = (q, d)" by fastforce
    from acquire_work_effect [OF _ next_lease_max [of c k] q] ok Some call q show ?thesis by (auto simp: session_calls)
  qed (use call in \<open>simp add: session_stopped\<close>)
next
  fix k s kind path priority l s'
  assume ok: "session_ok (Suc k) s" and call: "session_acquire kind path priority s = (Inr (Some l), s')"
  show "l \<notin> active_leases s \<and> active_leases s' = insert l (active_leases s) \<and> wk_kind (wl_key l) = kind \<and> wk_path (wl_key l) = path"
  proof (cases s)
    case (Some c)
    obtain q d where q: "acquire_work kind path priority c = (q, d)" by fastforce
    from acquire_work_effect [OF _ next_lease_max [of c k] q] ok Some call q show ?thesis by (auto simp: session_calls)
  qed (use call in \<open>simp add: session_stopped\<close>)
next
  fix k s kind path priority r s'
  assume ok: "session_ok (Suc k) s" and call: "session_acquire kind path priority s = (r, s')" and none: "\<And>l. r \<noteq> Inr (Some l)"
  show "active_leases s' = active_leases s"
  proof (cases s)
    case (Some c)
    obtain q d where q: "acquire_work kind path priority c = (q, d)" by fastforce
    from acquire_work_effect [OF _ next_lease_max [of c k] q] ok Some call q none show ?thesis
      by (auto simp: session_calls split: option.splits)
  qed (use call in \<open>simp add: session_stopped\<close>)
next
  fix k s l completion f s'
  assume ok: "session_ok k s" and call: "session_finish l completion s = (f, s')"
  show "session_ok k s' \<and> (s' \<noteq> None) = (s \<noteq> None) \<and> active_leases s' = active_leases s - {l} \<and> (f = Inr Accepted \<longleftrightarrow> l \<in> active_leases s)"
  proof (cases s)
    case (Some c)
    obtain q d where q: "finish l completion c = (q, d)" by fastforce
    have wf: "coord_wf c" using ok Some by simp
    have eq: "f = Inr q" "s' = Some d" using call q Some by (simp_all add: session_calls)
    have "coord_wf d" "sc_next_lease d = sc_next_lease c"
      using coord_wf_finish [OF wf, of l completion] finish_next [of l completion c] q by simp_all
    then show ?thesis
      using finish_leases [OF wf, of l completion] ok Some eq q by (simp del: active_leases_simps(2))
  qed (use call in \<open>auto simp: session_stopped\<close>)
next
  fix k s l q s'
  assume ok: "session_ok k s" and call: "session_requeue l s = (q, s')"
  show "session_ok k s' \<and> (s' \<noteq> None) = (s \<noteq> None) \<and> active_leases s' = active_leases s - {l} \<and> (q = Inr Requeued \<longleftrightarrow> l \<in> active_leases s)"
  proof (cases s)
    case (Some c)
    obtain o1 d where q: "requeue l c = (o1, d)" by fastforce
    have wf: "coord_wf c" using ok Some by simp
    have eq: "q = Inr o1" "s' = Some d" using call q Some by (simp_all add: session_calls)
    have "coord_wf d" "sc_next_lease d = sc_next_lease c"
      using coord_wf_requeue [OF wf, of l] requeue_next [of l c] q by simp_all
    then show ?thesis
      using requeue_leases [OF wf, of l] ok Some eq q by (simp del: active_leases_simps(2))
  qed (use call in \<open>auto simp: session_stopped\<close>)
next
  fix k s s' held
  assume ok: "session_ok (Suc k) s" and env: "other_client held s s'"
  then obtain cmd where cmd: "\<forall>l \<in> held. cmd \<noteq> CmdRequeue l \<and> (\<forall>completion. cmd \<noteq> CmdFinish l completion)"
    "s' = snd (session_call cmd s)" by (auto simp: other_client_def)
  show "session_ok k s' \<and> (s' \<noteq> None \<longrightarrow> s \<noteq> None) \<and> (s' \<noteq> None \<longrightarrow> {l \<in> held \<inter> active_leases s. is_deletion l} \<subseteq> active_leases s')"
  proof (cases s)
    case (Some c)
    obtain r t where h: "handle_command cmd c = (r, t)" by fastforce
    have t: "s' = t" using cmd(2) Some h by (simp add: session_call_Some)
    show ?thesis
    proof (cases t)
      case (Some c')
      then have h': "handle_command cmd c = (r, Some c')" using h by simp
      have wf: "coord_wf c" and max: "sc_next_lease c \<noteq> - 1" using ok \<open>s = Some c\<close> next_lease_max by auto
      have "l \<in> active_leases (Some c')" if "l \<in> held" "l \<in> active_leases (Some c)" "is_deletion l" for l
        using other_command [OF wf max h' that(2,3)] cmd(1) that(1) by blast
      then show ?thesis using other_command_keeps [OF wf max h'] ok \<open>s = Some c\<close> t Some by auto
    qed (use t in simp)
  qed (use cmd(2) in simp)
next
  fix k s l m
  assume ok: "session_ok k s" and l: "l \<in> active_leases s" "m \<in> active_leases s"
    and ex: "wk_kind (wl_key l) = ExecuteDeletion" "wk_kind (wl_key m) = ExecuteDeletion"
  obtain c where c: "s = Some c" using l(1) by (cases s) auto
  then have inv: "act_inv (sc_active c) (sc_active_by_key c) (sc_active_deletion_execution c) (sc_next_lease c)"
    using ok coord_wfD(2) by simp
  have get: "om_get (sc_active c) (wl_id l) = Some l" "om_get (sc_active c) (wl_id m) = Some m" using l c by simp_all
  then have "sc_active_deletion_execution c = Some (wl_id l)" "sc_active_deletion_execution c = Some (wl_id m)"
    using ex unfolding act_inv_exec [OF inv] by blast+
  with get show "l = m" by simp
qed

end
