(* ===== verification/Lease_Ledger.thy ===== *)
theory Lease_Ledger
  imports Lease_Service
begin

text \<open>
  What the clients of the session actor can rely on, whatever the others send: the actor answers as a
  ledger of work would that knows only the pending keys with their priorities and the leases that are
  out.  \<open>ledger_of\<close> abstracts a coordinator to its ledger, \<open>answer_ok\<close> says which answers
  the ledger allows and \<open>ledger_step\<close> what an exchange does to it; \<open>handle_command_ledger\<close> is
  the refinement for one command and \<open>run_actor_ledger\<close> the one for the actor's loop.
\<close>

section \<open>The ledger\<close>

record ledger =
  lg_session :: scan_session_id
  lg_generation :: scan_generation
  lg_pending :: "work_key \<rightharpoonup> work_priority"
  lg_leases :: "work_lease set"

definition ledger_new :: "scan_session_id \<Rightarrow> scan_generation \<Rightarrow> ledger" where
  "ledger_new session generation =
     \<lparr>lg_session = session, lg_generation = generation, lg_pending = Map.empty, lg_leases = {}\<rparr>"

definition register_outcome :: "ledger \<Rightarrow> work_key \<Rightarrow> work_priority \<Rightarrow> schedule_outcome" where
  "register_outcome lg k priority =
     (if wk_session k \<noteq> lg_session lg then StaleSession
      else if wk_generation k \<noteq> lg_generation lg then StaleGeneration
      else if k \<in> wl_key ` lg_leases lg then AlreadyLeased
      else case lg_pending lg k of
        None \<Rightarrow> Enqueued
      | Some pr \<Rightarrow> if pr \<le> normalized_priority (wk_kind k) priority then AlreadyPending else PriorityRaised)"

definition enlist :: "work_key \<Rightarrow> work_priority \<Rightarrow> ledger \<Rightarrow> ledger" where
  "enlist k priority lg =
     (if register_outcome lg k priority \<in> {Enqueued, PriorityRaised}
      then lg\<lparr>lg_pending := (lg_pending lg)(k \<mapsto> normalized_priority (wk_kind k) priority)\<rparr> else lg)"

definition grant :: "work_lease \<Rightarrow> ledger \<Rightarrow> ledger" where
  "grant l lg = lg\<lparr>lg_pending := (lg_pending lg)(wl_key l := None), lg_leases := insert l (lg_leases lg)\<rparr>"

definition drop_keys :: "(work_key \<Rightarrow> bool) \<Rightarrow> ledger \<Rightarrow> ledger" where
  "drop_keys P lg =
     lg\<lparr>lg_pending := (\<lambda>k. if P k then None else lg_pending lg k), lg_leases := {l \<in> lg_leases lg. \<not> P (wl_key l)}\<rparr>"

definition executing :: "ledger \<Rightarrow> bool" where
  "executing lg \<longleftrightarrow> (\<exists>l \<in> lg_leases lg. wk_kind (wl_key l) = ExecuteDeletion)"

definition may_lease :: "ledger \<Rightarrow> work_key \<Rightarrow> bool" where
  "may_lease lg k \<longleftrightarrow> lg_pending lg k \<noteq> None \<and> (wk_kind k = ExecuteDeletion \<longrightarrow> \<not> executing lg)"

definition lease_fits :: "ledger \<Rightarrow> work_lease \<Rightarrow> bool" where
  "lease_fits lg l \<longleftrightarrow> may_lease lg (wl_key l) \<and> lg_pending lg (wl_key l) = Some (wl_priority l) \<and>
     (\<forall>m \<in> lg_leases lg. wl_id m \<noteq> wl_id l \<and> wl_key m \<noteq> wl_key l)"

definition acquired_key :: "ledger \<Rightarrow> work_kind \<Rightarrow> relative_path \<Rightarrow> work_key" where
  "acquired_key lg kind path = WorkKey (lg_session lg) (lg_generation lg) kind path"

definition granted :: "coordinator_reply \<Rightarrow> ledger \<Rightarrow> ledger" where
  "granted r lg = (case r of ReplyLease (Some l) \<Rightarrow> grant l lg | _ \<Rightarrow> lg)"

fun ledger_step :: "coordinator_command \<Rightarrow> coordinator_reply \<Rightarrow> ledger \<Rightarrow> ledger" where
  "ledger_step (CmdRegister k priority) r lg = enlist k priority lg"
| "ledger_step (CmdLeaseExact k) r lg = granted r lg"
| "ledger_step CmdLeaseNextScan r lg = granted r lg"
| "ledger_step (CmdAcquire kind path priority) r lg = granted r (enlist (acquired_key lg kind path) priority lg)"
| "ledger_step (CmdFinish l completion) r lg = lg\<lparr>lg_leases := lg_leases lg - {l}\<rparr>"
| "ledger_step (CmdRequeue l) r lg =
     (if l \<in> lg_leases lg
      then lg\<lparr>lg_pending := (lg_pending lg)(wl_key l \<mapsto> wl_priority l), lg_leases := lg_leases lg - {l}\<rparr> else lg)"
| "ledger_step (CmdAdvanceGeneration g) r lg =
     (if lg_generation lg < g then (drop_keys (\<lambda>k. is_scan_work (wk_kind k)) lg)\<lparr>lg_generation := g\<rparr> else lg)"
| "ledger_step CmdCancelScanWork r lg = drop_keys is_enumeration lg"
| "ledger_step CmdFailScanWork r lg = drop_keys is_enumeration lg"
| "ledger_step CmdInvalidateScanWork r lg = drop_keys is_enumeration lg"
| "ledger_step _ r lg = lg"

fun ledger_run :: "(coordinator_command \<times> coordinator_reply) list \<Rightarrow> ledger \<Rightarrow> ledger" where
  "ledger_run [] lg = lg"
| "ledger_run ((cmd, r) # h) lg = ledger_run h (ledger_step cmd r lg)"

text \<open>The answers the ledger allows: a lease exactly when one may be given, and only for what was asked.\<close>

definition exact_answer :: "ledger \<Rightarrow> work_key \<Rightarrow> coordinator_reply \<Rightarrow> bool" where
  "exact_answer lg k r \<longleftrightarrow> (\<exists>x. r = ReplyLease x \<and>
     (case x of None \<Rightarrow> \<not> may_lease lg k | Some l \<Rightarrow> lease_fits lg l \<and> wl_key l = k))"

fun answer_ok :: "ledger \<Rightarrow> coordinator_command \<Rightarrow> coordinator_reply \<Rightarrow> bool" where
  "answer_ok lg (CmdRegister k priority) r = (r = ReplySchedule (register_outcome lg k priority))"
| "answer_ok lg (CmdLeaseExact k) r = exact_answer lg k r"
| "answer_ok lg CmdLeaseNextScan r = (\<exists>x. r = ReplyLease x \<and>
     (case x of None \<Rightarrow> \<forall>k. is_scan_work (wk_kind k) \<longrightarrow> lg_pending lg k \<in> {None, Some Safety}
      | Some l \<Rightarrow> lease_fits lg l \<and> is_scan_work (wk_kind (wl_key l))))"
| "answer_ok lg (CmdAcquire kind path priority) r =
     exact_answer (enlist (acquired_key lg kind path) priority lg) (acquired_key lg kind path) r"
| "answer_ok lg (CmdFinish l completion) r = (r = ReplyCompletion (if l \<in> lg_leases lg then Accepted else StaleLease))"
| "answer_ok lg (CmdRequeue l) r = (r = ReplyRequeue (if l \<in> lg_leases lg then Requeued else RequeueStaleLease))"
| "answer_ok lg (CmdAdvanceGeneration g) r =
     (r = ReplyAdvance (if lg_generation lg \<le> g then Inr () else Inl GenerationMismatch))"
| "answer_ok lg CmdSnapshot r = (\<exists>x. r = ReplySnapshot x \<and> ss_session x = lg_session lg \<and> ss_generation x = lg_generation lg \<and>
     ss_active_leases x = card (lg_leases lg) \<and> ss_active_deletion_execution x = executing lg)"
| "answer_ok lg _ r = (r = NoReply)"

section \<open>The ledger of a coordinator\<close>

definition ledger_of :: "scan_coordinator \<Rightarrow> ledger" where
  "ledger_of c = \<lparr>lg_session = sc_session c, lg_generation = sc_generation c,
     lg_pending = (\<lambda>k. map_option pw_priority (om_get (sc_pending c) k)), lg_leases = active_leases (Some c)\<rparr>"

lemma ledger_of_fields [simp]:
  "lg_session (ledger_of c) = sc_session c" "lg_generation (ledger_of c) = sc_generation c"
  "lg_pending (ledger_of c) k = map_option pw_priority (om_get (sc_pending c) k)"
  "lg_leases (ledger_of c) = active_leases (Some c)"
  by (simp_all add: ledger_of_def)

lemma ledger_of_new: "ledger_of (sc_new session generation) = ledger_new session generation"
  by (simp add: ledger_of_def ledger_new_def sc_new_def active_leases_def)

lemma leased_keys:
  assumes "coord_wf c"
  shows "k \<in> wl_key ` active_leases (Some c) \<longleftrightarrow> sc_active_by_key c k \<noteq> None"
proof -
  note inv = coord_wfD(2) [OF assms]
  have "om_get (sc_active c) i = Some l \<Longrightarrow> l \<in> active_leases (Some c)" for i l using inv by (auto simp: act_inv_def)
  then show ?thesis using act_inv_index [OF inv, of k] by (fastforce simp: image_iff)
qed

lemma executing_ledger: "coord_wf c \<Longrightarrow> executing (ledger_of c) \<longleftrightarrow> sc_active_deletion_execution c \<noteq> None"
proof -
  assume wf: "coord_wf c"
  note inv = coord_wfD(2) [OF wf]
  have "executing (ledger_of c) \<longleftrightarrow> (\<exists>i l. om_get (sc_active c) i = Some l \<and> wk_kind (wl_key l) = ExecuteDeletion)"
    using inv unfolding executing_def act_inv_def ledger_of_fields active_leases_simps Bex_def by metis
  also have "\<dots> \<longleftrightarrow> (\<exists>i. sc_active_deletion_execution c = Some i)" using act_inv_exec [OF inv] by simp
  finally show ?thesis by simp
qed

lemma card_leases:
  assumes "coord_wf c"
  shows "card (active_leases (Some c)) = length (sc_active c)"
proof -
  note om = coord_wf_om(2) [OF assms] and inv = coord_wfD(2) [OF assms]
  have id: "e \<in> set (sc_active c) \<Longrightarrow> wl_id (snd e) = fst e" for e
    using om inv by (cases e) (auto simp: act_inv_def om_get_iff)
  have "distinct (map fst (sc_active c))" using om by (rule om_wf_distinct)
  moreover have "map fst (sc_active c) = map wl_id (map snd (sc_active c))" using id by simp
  ultimately have d: "distinct (map snd (sc_active c))" by (metis distinct_map)
  have "active_leases (Some c) = set (map snd (sc_active c))"
  proof (rule set_eqI)
    fix l
    have "l \<in> active_leases (Some c) \<longleftrightarrow> (wl_id l, l) \<in> set (sc_active c)" using om_get_iff [OF om] by simp
    also have "\<dots> \<longleftrightarrow> l \<in> snd ` set (sc_active c)"
    proof
      assume "l \<in> snd ` set (sc_active c)"
      then obtain e where e: "e \<in> set (sc_active c)" "l = snd e" by blast
      then have "(wl_id l, l) = e" using id [OF e(1)] by simp
      then show "(wl_id l, l) \<in> set (sc_active c)" using e(1) by simp
    qed (metis imageI snd_conv)
    finally show "l \<in> active_leases (Some c) \<longleftrightarrow> l \<in> set (map snd (sc_active c))" by simp
  qed
  then show ?thesis using d by (metis distinct_card length_map)
qed

section \<open>One command\<close>

text \<open>The identifiers of an exchange: a grant takes the next one.\<close>

definition fresh_ids :: "scan_coordinator \<Rightarrow> coordinator_reply \<Rightarrow> scan_coordinator \<Rightarrow> bool" where
  "fresh_ids c r c' \<longleftrightarrow> sc_next_lease c \<le> sc_next_lease c' \<and> unat (sc_next_lease c') \<le> Suc (unat (sc_next_lease c)) \<and>
     (\<forall>l. r = ReplyLease (Some l) \<longrightarrow> wl_id l = sc_next_lease c \<and> sc_next_lease c < sc_next_lease c')"

lemma schedule_ledger:
  assumes "coord_wf c" "schedule k priority c = (x, c')"
  shows "x = register_outcome (ledger_of c) k priority" "ledger_of c' = enlist k priority (ledger_of c)"
    "sc_next_lease c' = sc_next_lease c" "sc_session c' = sc_session c" "sc_generation c' = sc_generation c"
proof -
  note om = coord_wf_om(1) [OF assms(1)] and lk = leased_keys [OF assms(1), of k]
  have ro: "register_outcome (ledger_of c) k priority =
      (if wk_session k \<noteq> sc_session c then StaleSession else if wk_generation k \<noteq> sc_generation c then StaleGeneration
       else if sc_active_by_key c k \<noteq> None then AlreadyLeased
       else case om_get (sc_pending c) k of None \<Rightarrow> Enqueued
         | Some p \<Rightarrow> if pw_priority p \<le> normalized_priority (wk_kind k) priority then AlreadyPending else PriorityRaised)"
    by (simp add: register_outcome_def lk del: active_leases_simps split: option.split)
  show x: "x = register_outcome (ledger_of c) k priority"
    using assms(2) unfolding ro by (auto simp: schedule_def Let_def split: option.splits if_splits)
  have leases: "active_leases (Some c') = active_leases (Some c)"
    using schedule_active [of k priority c] assms(2) by (simp add: active_leases_def)
  have same: "sc_session c' = sc_session c" "sc_generation c' = sc_generation c"
    using assms(2) by (auto simp: schedule_def enqueue_pending_def Let_def split: option.splits if_splits)
  have "map_option pw_priority (om_get (sc_pending c') k') = (if x \<in> {Enqueued, PriorityRaised} \<and> k' = k
      then Some (normalized_priority (wk_kind k) priority) else map_option pw_priority (om_get (sc_pending c) k'))" for k'
    using assms(2) by (auto simp: schedule_def enqueue_pending_def Let_def om_get_insert [OF om] split: option.splits if_splits)
  then show "ledger_of c' = enlist k priority (ledger_of c)"
    using leases same unfolding enlist_def x [symmetric] by (auto simp: ledger_of_def fun_eq_iff)
  show "sc_next_lease c' = sc_next_lease c" "sc_session c' = sc_session c" "sc_generation c' = sc_generation c"
    using assms(2) by (auto simp: schedule_def enqueue_pending_def Let_def split: option.splits if_splits)
qed

lemma lease_queued_ledger:
  fixes f :: bool
  assumes "coord_wf c" "ready c pr w" "eligible (exec_active c) w" "sc_next_lease c \<noteq> - 1"
  defines "l \<equiv> lease_of c pr w f" and "c' \<equiv> snd (lease_queued w f c)"
  shows "lease_fits (ledger_of c) l" "ledger_of c' = grant l (ledger_of c)" "fresh_ids c (ReplyLease (Some l)) c'"
proof -
  note inv = coord_wfD [OF assms(1)] and leases = lease_queued_leases [OF assms(1,2), of f]
  have get: "om_get (sc_pending c) (qw_key w) = Some \<lparr>pw_priority = pr, pw_queued = w\<rparr>" using assms(2) by (simp add: ready_def)
  have c': "c' = c\<lparr>sc_pending := sc_pending c', sc_queues := sc_queues c', sc_next_lease := sat_add (sc_next_lease c) 1,
      sc_active_deletion_execution := sc_active_deletion_execution c', sc_active_by_key := sc_active_by_key c',
      sc_active := sc_active c', sc_non_background_leases := sc_non_background_leases c'\<rparr>"
    "sc_pending c' = om_remove (qw_key w) (sc_pending c)"
    using get by (simp_all add: c'_def lease_queued_def Let_def)
  have "sc_session c' = sc_session c" "sc_generation c' = sc_generation c" "sc_next_lease c' = sat_add (sc_next_lease c) 1"
    by (subst c'(1), simp)+
  note same = this
  show "ledger_of c' = grant l (ledger_of c)"
    using leases(1) same c'(2) by (auto simp: ledger_of_def grant_def l_def c'_def lease_of_def om_get_remove fun_eq_iff)
  have "sc_active_by_key c (qw_key w) = None" using inv(3) get by (auto simp: keys_inv_def)
  then have "qw_key w \<notin> wl_key ` active_leases (Some c)" using leased_keys [OF assms(1)] by blast
  moreover have "wl_id m < sc_next_lease c" if "m \<in> active_leases (Some c)" for m using act_inv_below [OF inv(2)] that by simp
  ultimately have "\<forall>m \<in> active_leases (Some c). wl_id m \<noteq> sc_next_lease c \<and> wl_key m \<noteq> qw_key w"
    by (metis image_eqI less_irrefl)
  then show "lease_fits (ledger_of c) l"
    using get assms(3) executing_ledger [OF assms(1)]
    by (auto simp: lease_fits_def may_lease_def l_def lease_of_def eligible_def simp del: active_leases_simps)
  show "fresh_ids c (ReplyLease (Some l)) c'"
    using same(3) sat_add_1_greater [OF assms(4)] unat_sat_add_1_le [of "sc_next_lease c"]
    by (simp add: fresh_ids_def l_def lease_of_def)
qed

lemma exact_ledger:
  assumes "coord_wf c" "sc_next_lease c \<noteq> - 1" "lease_exact k c = (x, c')"
  shows "exact_answer (ledger_of c) k (ReplyLease x) \<and> ledger_of c' = granted (ReplyLease x) (ledger_of c) \<and> fresh_ids c (ReplyLease x) c'"
  using assms(1)
proof (cases rule: lease_exact_cases [where k = k])
  case none
  then show ?thesis
    using assms executing_ledger [OF assms(1)]
    by (auto simp: exact_answer_def may_lease_def granted_def fresh_ids_def)
next
  case (lease pr w)
  then show ?thesis
    using assms(3) lease_queued_ledger [OF assms(1) lease(2,3) assms(2), of False]
    by (auto simp: exact_answer_def granted_def lease_of_def)
qed

lemma next_scan_ledger:
  assumes "coord_wf c" "sc_next_lease c \<noteq> - 1" "lease_next_scan c = (x, c')"
  shows "answer_ok (ledger_of c) CmdLeaseNextScan (ReplyLease x) \<and> ledger_of c' = granted (ReplyLease x) (ledger_of c) \<and>
    fresh_ids c (ReplyLease x) c'"
  using assms(1)
proof (cases rule: lease_next_scan_cases)
  case none
  have "is_scan_work (wk_kind k) \<Longrightarrow> om_get (sc_pending c) k = None \<or> (\<exists>p. om_get (sc_pending c) k = Some p \<and> pw_priority p = Safety)" for k
  proof (cases "om_get (sc_pending c) k")
    case (Some p)
    moreover have "qw_key (pw_queued p) = k" using coord_wfD(1) [OF assms(1)] Some by (auto simp: pq_inv_def)
    ultimately have "ready c (pw_priority p) (pw_queued p)" by (simp add: ready_def)
    moreover assume "is_scan_work (wk_kind k)"
    ultimately show ?thesis
      using next_scan_queued_None [OF assms(1) none(2), of "pw_priority p" "pw_queued p"] Some \<open>qw_key (pw_queued p) = k\<close>
      by (auto simp: scan_eligible_def)
  qed simp
  then show ?thesis using none assms(3) by (auto simp: granted_def fresh_ids_def)
next
  case (lease pr w f)
  have "eligible (exec_active c) w" using lease(3) by (auto simp: eligible_def scan_eligible_def is_scan_work_def)
  with lease show ?thesis
    using assms(3) lease_queued_ledger [OF assms(1) lease(2) _ assms(2), of f] by (auto simp: granted_def lease_of_def scan_eligible_def)
qed

lemma acquire_ledger:
  assumes "coord_wf c" "sc_next_lease c \<noteq> - 1" "acquire_work kind path priority c = (x, c')"
  shows "answer_ok (ledger_of c) (CmdAcquire kind path priority) (ReplyLease x) \<and>
    ledger_of c' = ledger_step (CmdAcquire kind path priority) (ReplyLease x) (ledger_of c) \<and> fresh_ids c (ReplyLease x) c'"
proof -
  let ?k = "WorkKey (sc_session c) (sc_generation c) kind path"
  obtain out d where d: "schedule ?k priority c = (out, d)" by fastforce
  note sl = schedule_ledger [OF assms(1) d]
  have wf: "coord_wf d" using coord_wf_schedule [OF assms(1), of ?k priority] d by simp
  have key: "acquired_key (ledger_of c) kind path = ?k" by (simp add: acquired_key_def)
  have same: "fresh_ids c r e = fresh_ids d r e" for r e by (simp add: fresh_ids_def sl(3))
  show ?thesis
  proof (cases "out = AlreadyLeased")
    case True
    then have "?k \<in> wl_key ` active_leases (Some d)"
      using sl(1,2) by (auto simp: register_outcome_def enlist_def ledger_of_def split: if_splits option.splits)
    then have "om_get (sc_pending d) ?k = None"
      using leased_keys [OF wf] coord_wfD(3) [OF wf] by (cases "om_get (sc_pending d) ?k") (auto simp: keys_inv_def simp del: active_leases_simps)
    then have "exact_answer (ledger_of d) ?k (ReplyLease None)" by (simp add: exact_answer_def may_lease_def)
    moreover have "x = None" "c' = d" using True assms(3) d by (simp_all add: acquire_work_def)
    moreover have "fresh_ids c (ReplyLease None) d" by (simp add: fresh_ids_def sl(3))
    ultimately show ?thesis by (simp add: key sl(2) [symmetric] granted_def)
  next
    case False
    have "out \<noteq> StaleSession" "out \<noteq> StaleGeneration"
      using sl(1) by (auto simp: register_outcome_def split: option.splits if_splits)
    then have "lease_exact ?k d = (x, c')"
      using False assms(3) d by (cases out) (simp_all add: acquire_work_def)
    from exact_ledger [OF wf _ this] show ?thesis using assms(2) by (simp add: sl(3) key sl(2) [symmetric] same [of "ReplyLease x" c'])
  qed
qed

lemma finish_ledger:
  assumes "coord_wf c"
  shows "ledger_of (snd (finish l completion c)) = (ledger_of c)\<lparr>lg_leases := active_leases (Some c) - {l}\<rparr>"
    "fst (finish l completion c) = (if l \<in> active_leases (Some c) then Accepted else StaleLease)"
proof -
  have "sc_session (snd (finish l completion c)) = sc_session c" "sc_generation (snd (finish l completion c)) = sc_generation c"
    "sc_pending (snd (finish l completion c)) = sc_pending c"
    by (cases "om_get (sc_active c) (wl_id l) = Some l"; simp add: finish_stale finish_exact remove_active_def)+
  then show "ledger_of (snd (finish l completion c)) = (ledger_of c)\<lparr>lg_leases := active_leases (Some c) - {l}\<rparr>"
    using finish_leases(1) [OF assms] by (simp add: ledger_of_def)
  show "fst (finish l completion c) = (if l \<in> active_leases (Some c) then Accepted else StaleLease)"
    by (cases "om_get (sc_active c) (wl_id l) = Some l") (simp_all add: finish_stale finish_exact)
qed

lemma requeue_ledger:
  assumes "coord_wf c"
  shows "ledger_of (snd (requeue l c)) = ledger_step (CmdRequeue l) r (ledger_of c)"
    "fst (requeue l c) = (if l \<in> active_leases (Some c) then Requeued else RequeueStaleLease)"
proof -
  have "ledger_of (snd (requeue l c)) = ledger_step (CmdRequeue l) r (ledger_of c)" if "om_get (sc_active c) (wl_id l) = Some l"
  proof -
    have "sc_session (snd (requeue l c)) = sc_session c" "sc_generation (snd (requeue l c)) = sc_generation c"
      "om_get (sc_pending (snd (requeue l c))) k = (if k = wl_key l
         then Some \<lparr>pw_priority = wl_priority l, pw_queued = QueuedWork (sc_next_sequence c) (wl_key l)\<rparr> else om_get (sc_pending c) k)" for k
      using that coord_wf_om(1) [OF assms] by (simp_all add: requeue_exact enqueue_pending_def remove_active_def om_get_insert Let_def)
    then show ?thesis using that requeue_leases(1) [OF assms, of l] by (auto simp: ledger_of_def fun_eq_iff)
  qed
  then show "ledger_of (snd (requeue l c)) = ledger_step (CmdRequeue l) r (ledger_of c)"
    by (cases "om_get (sc_active c) (wl_id l) = Some l") (simp_all add: requeue_stale)
  show "fst (requeue l c) = (if l \<in> active_leases (Some c) then Requeued else RequeueStaleLease)"
    by (cases "om_get (sc_active c) (wl_id l) = Some l") (simp_all add: requeue_stale requeue_exact)
qed

lemma filtered_ledger:
  assumes "coord_wf c" "sc_pending d = filter (\<lambda>e. \<not> P (fst e)) (sc_pending c)"
    "sc_active d = filter (\<lambda>e. \<not> P (wl_key (snd e))) (sc_active c)" "sc_session d = sc_session c"
  shows "ledger_of d = (drop_keys P (ledger_of c))\<lparr>lg_generation := sc_generation d\<rparr>"
  using assms coord_wf_om [OF assms(1)]
  by (auto simp: ledger_of_def drop_keys_def om_get_filter fun_eq_iff split: option.splits if_splits)

lemma terminate_ledger:
  assumes "coord_wf c"
  shows "ledger_of (terminate_matching lc P c) = drop_keys P (ledger_of c)"
proof (rule terminate_matching_effect [where lc = lc and P = P, OF assms])
  fix Q B E T
  assume "terminate_matching lc P c = c\<lparr>sc_pending := filter (\<lambda>e. \<not> P (fst e)) (sc_pending c), sc_queues := Q,
       sc_active := filter (\<lambda>e. \<not> P (wl_key (snd e))) (sc_active c), sc_active_by_key := B,
       sc_active_deletion_execution := E, sc_terminal := T\<rparr>"
  then show ?thesis using filtered_ledger [OF assms, of "terminate_matching lc P c" P] by (simp add: drop_keys_def)
qed

lemma advance_ledger:
  assumes "coord_wf c"
  shows "ledger_of (snd (actor_advance g c)) = ledger_step (CmdAdvanceGeneration g) r (ledger_of c)"
    "fst (actor_advance g c) = (if sc_generation c \<le> g then Inr () else Inl GenerationMismatch)"
proof -
  show "fst (actor_advance g c) = (if sc_generation c \<le> g then Inr () else Inl GenerationMismatch)"
    using advance_to_effect(1) [OF assms, of g] advance_to_stale [of g c]
    by (auto simp: actor_advance_def not_le order.order_iff_strict split: prod.splits bool.splits)
  show "ledger_of (snd (actor_advance g c)) = ledger_step (CmdAdvanceGeneration g) r (ledger_of c)"
  proof (cases "sc_generation c < g")
    case True
    note eff = advance_to_effect [OF assms True]
    have "sc_session (snd (advance_to g c)) = sc_session c"
      using True by (rule_tac terminate_matching_effect [OF assms, of LInvalidated "\<lambda>k. is_scan_work (wk_kind k)"])
        (simp add: advance_to_def Let_def)
    then have "ledger_of (snd (advance_to g c)) = ledger_step (CmdAdvanceGeneration g) r (ledger_of c)"
      using filtered_ledger [OF assms eff(3,4)] eff(5) True by simp
    moreover have "snd (actor_advance g c) = snd (advance_to g c)"
      using True by (simp add: actor_advance_def split: prod.split bool.split)
    ultimately show ?thesis by simp
  next
    case False
    then show ?thesis using advance_to_stale [of g c] by (auto simp: actor_advance_def not_less)
  qed
qed

text \<open>The refinement for one command.\<close>

lemma handle_command_ledger:
  assumes wf: "coord_wf c" and max: "sc_next_lease c \<noteq> - 1" and h: "handle_command cmd c = (r, s)"
  shows "answer_ok (ledger_of c) cmd r \<and> (s = None \<longleftrightarrow> cmd = CmdShutdown) \<and>
    (\<forall>c'. s = Some c' \<longrightarrow> coord_wf c' \<and> ledger_of c' = ledger_step cmd r (ledger_of c) \<and> fresh_ids c r c')"
proof -
  have keep: "s = Some c' \<Longrightarrow> coord_wf c'" for c' using other_command_keeps [OF wf max, of cmd r c'] h by simp
  have idle: "fresh_ids c r c'" if "sc_next_lease c' = sc_next_lease c" "\<And>l. r \<noteq> ReplyLease (Some l)" for c'
    using that by (simp add: fresh_ids_def)
  show ?thesis
  proof (cases cmd)
    case (CmdRegister k priority)
    obtain x d where x: "schedule k priority c = (x, d)" by fastforce
    then show ?thesis using CmdRegister h keep schedule_ledger [OF wf x] idle by auto
  next
    case (CmdLeaseExact k)
    obtain x d where x: "lease_exact k c = (x, d)" by fastforce
    then show ?thesis using CmdLeaseExact h keep exact_ledger [OF wf max x] by auto
  next
    case CmdLeaseNextScan
    obtain x d where x: "lease_next_scan c = (x, d)" by fastforce
    then show ?thesis using CmdLeaseNextScan h keep next_scan_ledger [OF wf max x] by auto
  next
    case (CmdAcquire kind path priority)
    obtain x d where x: "acquire_work kind path priority c = (x, d)" by fastforce
    then show ?thesis using CmdAcquire h keep acquire_ledger [OF wf max x] by auto
  next
    case (CmdFinish l completion)
    then show ?thesis using h keep finish_ledger [OF wf, of l completion] finish_next [of l completion c] idle
      by (cases "finish l completion c") auto
  next
    case (CmdRequeue l)
    then show ?thesis using h keep requeue_ledger [OF wf, of l] requeue_next [of l c] idle by (cases "requeue l c") auto
  next
    case (CmdAdvanceGeneration g)
    then show ?thesis using h keep advance_ledger [OF wf, of g] actor_advance_keeps [OF wf, of g] idle by (cases "actor_advance g c") auto
  next
    case (CmdFocus p)
    then show ?thesis using h keep idle by (auto simp: focus_def Let_def ledger_of_def active_leases_def)
  next
    case CmdSnapshot
    then show ?thesis using h keep idle executing_ledger [OF wf] card_leases [OF wf] by (auto simp: snapshot_def)
  qed (use h keep idle terminate_ledger [OF wf] terminate_matching_next [OF wf] in
      \<open>auto simp: cancel_scan_work_def fail_scan_work_def invalidate_scan_work_def\<close>)
qed

section \<open>The loop\<close>

lemma run_actor_ledger:
  assumes "coord_wf c" "unat (sc_next_lease c) + length cmds < 2 ^ 64" "run_actor cmds c = (rs, s)"
  shows "length rs = length (takeWhile (\<lambda>cmd. cmd \<noteq> CmdShutdown) cmds) + (if CmdShutdown \<in> set cmds then 1 else 0) \<and>
    (s = None \<longleftrightarrow> CmdShutdown \<in> set cmds) \<and>
    (\<forall>k < length rs. answer_ok (ledger_run (zip (take k cmds) (take k rs)) (ledger_of c)) (cmds ! k) (rs ! k)) \<and>
    (\<forall>k l. k < length rs \<longrightarrow> rs ! k = ReplyLease (Some l) \<longrightarrow> sc_next_lease c \<le> wl_id l) \<and>
    (\<forall>j k l m. j < k \<longrightarrow> k < length rs \<longrightarrow> rs ! j = ReplyLease (Some l) \<longrightarrow> rs ! k = ReplyLease (Some m) \<longrightarrow> wl_id l < wl_id m)"
  using assms
proof (induction cmds arbitrary: c rs)
  case (Cons cmd cmds)
  obtain r t where h: "handle_command cmd c = (r, t)" by fastforce
  have max: "sc_next_lease c \<noteq> - 1" using Cons.prems(2) by (auto simp: unat_minus_one_word)
  note one = handle_command_ledger [OF Cons.prems(1) max h]
  show ?case
  proof (cases t)
    case None
    then have "rs = [r]" "s = None" "cmd = CmdShutdown" using Cons.prems(3) h one by auto
    then show ?thesis using one by auto
  next
    case (Some d)
    obtain rs' where rs: "rs = r # rs'" "run_actor cmds d = (rs', s)" using Cons.prems(3) h Some by (auto split: prod.splits)
    have d: "coord_wf d" "ledger_of d = ledger_step cmd r (ledger_of c)" "fresh_ids c r d" "cmd \<noteq> CmdShutdown"
      using one Some by auto
    have "unat (sc_next_lease d) + length cmds < 2 ^ 64" using d(3) Cons.prems(2) by (simp add: fresh_ids_def)
    note IH = Cons.IH [OF d(1) this rs(2)]
    have answers: "answer_ok (ledger_run (zip (take k (cmd # cmds)) (take k rs)) (ledger_of c)) ((cmd # cmds) ! k) (rs ! k)" if "k < length rs" for k
      using that IH one rs(1) d(2) by (cases k) auto
    have low: "sc_next_lease c \<le> wl_id l" if "k < length rs" "rs ! k = ReplyLease (Some l)" for k l
    proof (cases k)
      case 0
      then show ?thesis using that rs(1) d(3) by (simp add: fresh_ids_def)
    next
      case (Suc n)
      then have "sc_next_lease d \<le> wl_id l" using that rs(1) IH by auto
      moreover have "sc_next_lease c \<le> sc_next_lease d" using d(3) by (simp add: fresh_ids_def)
      ultimately show ?thesis by (rule order.trans [rotated])
    qed
    have mono: "wl_id l < wl_id m"
      if less: "j < k" "k < length rs" and at: "rs ! j = ReplyLease (Some l)" "rs ! k = ReplyLease (Some m)" for j k l m
    proof -
      obtain n where n: "k = Suc n" "n < length rs'" using less rs(1) by (cases k) auto
      show ?thesis
      proof (cases j)
        case 0
        then have "wl_id l < sc_next_lease d" using at(1) rs(1) d(3) by (simp add: fresh_ids_def)
        moreover have "sc_next_lease d \<le> wl_id m" using n at(2) rs(1) IH by auto
        ultimately show ?thesis by (rule order.strict_trans2)
      next
        case (Suc i)
        then show ?thesis using less at n rs(1) IH by auto
      qed
    qed
    show ?thesis using IH rs(1) d(4) answers low mono by auto
  qed
qed auto

end
