(* ===== verification/Actor_Theorems.thy ===== *)
theory Actor_Theorems
  imports Scan_Manifest Lease_Ledger
begin

text \<open>
  The guarantees of the session actor and of the scan manifest, with a short exchange of commands and a
  small manifest history as the runs that witness their hypotheses.
\<close>

section \<open>The actor\<close>

definition ex_exchange :: "coordinator_command list" where
  "ex_exchange = [CmdAcquire PlanDeletion [[97]] Foreground, CmdShutdown, CmdSnapshot]"

text \<open>
  C12. The contract of the session actor.  Whatever commands its clients send and in whatever order they
  arrive, the actor answers each one up to the first shutdown and stops there, and every answer is one
  that the ledger of the exchanges before it allows: registering tells what the ledger says of the key;
  a lease is given exactly when the key asked for is pending and no other deletion executes, with the
  priority the key is pending with, and never for a key or under an identifier that is out; finishing
  and requeueing are accepted exactly for a lease that was granted and has not been handed in or ended
  since; a generation is refused exactly when it is older; and a snapshot counts the leases that are
  out.  The identifiers of the grants increase, so a lease is granted once.
\<close>

theorem actor_lease_contract:
  assumes "run_actor cmds (sc_new session generation) = (replies, s)" "length cmds < 2 ^ 64"
  shows "length replies = length (takeWhile (\<lambda>cmd. cmd \<noteq> CmdShutdown) cmds) + (if CmdShutdown \<in> set cmds then 1 else 0) \<and>
    (s = None \<longleftrightarrow> CmdShutdown \<in> set cmds) \<and>
    (\<forall>k < length replies. answer_ok (ledger_run (zip (take k cmds) (take k replies)) (ledger_new session generation)) (cmds ! k) (replies ! k)) \<and>
    (\<forall>j k l m. j < k \<longrightarrow> k < length replies \<longrightarrow> replies ! j = ReplyLease (Some l) \<longrightarrow> replies ! k = ReplyLease (Some m) \<longrightarrow>
      wl_id l < wl_id m)"
proof -
  have "unat (sc_next_lease (sc_new session generation)) + length cmds < 2 ^ 64" using assms(2) by (simp add: sc_new_def)
  from run_actor_ledger [OF coord_wf_new this assms(1)] show ?thesis unfolding ledger_of_new by blast
qed

theorem actor_lease_contract_witness:
  "\<exists>l. fst (run_actor ex_exchange (sc_new [] 0)) = [ReplyLease (Some l), NoReply] \<and> wl_key l = WorkKey [] 0 PlanDeletion [[97]] \<and>
     snd (run_actor ex_exchange (sc_new [] 0)) = None"
proof -
  obtain rs s where run: "run_actor ex_exchange (sc_new [] 0) = (rs, s)" by fastforce
  have "length ex_exchange < 2 ^ 64" by (simp add: ex_exchange_def)
  note con = actor_lease_contract [OF run this]
  then have two: "length rs = 2" "s = None" by (simp_all add: ex_exchange_def)
  then obtain r r' where rs: "rs = [r, r']" by (auto simp: length_Suc_conv numeral_2_eq_2)
  have ans: "answer_ok (ledger_run (zip (take k ex_exchange) (take k rs)) (ledger_new [] 0)) (ex_exchange ! k) (rs ! k)" if "k < 2" for k
    using con that two(1) by simp
  have "answer_ok (ledger_new [] 0) (CmdAcquire PlanDeletion [[97]] Foreground) r" using ans [of 0] rs by (simp add: ex_exchange_def)
  then obtain l where "r = ReplyLease (Some l)" "wl_key l = WorkKey [] 0 PlanDeletion [[97]]"
    by (auto simp: exact_answer_def may_lease_def enlist_def register_outcome_def ledger_new_def acquired_key_def split: option.splits)
  moreover have "r' = NoReply" using ans [of 1] rs by (simp add: ex_exchange_def)
  ultimately show ?thesis using run rs two by simp
qed

section \<open>The manifest\<close>

definition ex_run :: "run_kind \<Rightarrow> u64 \<Rightarrow> run_manifest_entry" where
  "ex_run kind n = \<lparr>me_descriptor = \<lparr>rd_generation = 0, rd_run_id = n, rd_kind = kind\<rparr>, me_bytes = 48\<rparr>"

definition ex_calls :: "manifest_call list" where
  "ex_calls = [CallTransition Scanning, CallAddRun (ex_run RunPathObservation 1), CallTransition Reducing,
     CallReplaceAllRuns (ex_run RunChildQuery 2), CallTransition Published, CallTransition Scanning]"

text \<open>
  C38. The lifecycle of a scan result ends: whatever calls are made on a new manifest, it goes through
  at most four states; when it ends up published it went through scanning and reducing, in that order,
  and it never leaves a terminal state.
\<close>

theorem manifest_lifecycle:
  "length (manifest_trace calls (manifest_new session generation)) \<le> 4 \<and>
   (mf_state (manifest_steps calls (manifest_new session generation)) = Published \<longrightarrow>
      manifest_trace calls (manifest_new session generation) = [Creating, Scanning, Reducing, Published]) \<and>
   (stage (mf_state m) = 3 \<longrightarrow> manifest_steps calls m = m)"
proof (intro conjI impI)
  let ?m = "manifest_new session generation"
  have hd: "manifest_trace calls ?m \<noteq> []" "hd (manifest_trace calls ?m) = Creating"
    using hd_manifest_trace [of calls ?m] by (simp_all add: manifest_new_def)
  then obtain ss where "manifest_trace calls ?m = Creating # ss" by (metis list.collapse)
  with manifest_trace_chain [of calls ?m] chain_length [of Creating ss] show "length (manifest_trace calls ?m) \<le> 4" by simp
  assume "mf_state (manifest_steps calls ?m) = Published"
  with chain_Published [OF manifest_trace_chain hd(2) _ hd(1)] last_manifest_trace [of calls ?m]
  show "manifest_trace calls ?m = [Creating, Scanning, Reducing, Published]" by simp
next
  assume "stage (mf_state m) = 3"
  then show "manifest_steps calls m = m" by (induction calls) (simp_all add: terminal_manifest)
qed

theorem manifest_lifecycle_witness:
  "manifest_trace ex_calls (manifest_new [] 0) = [Creating, Scanning, Reducing, Published]"
proof -
  have "mf_state (manifest_steps ex_calls (manifest_new [] 0)) = Published"
    by (simp add: ex_calls_def manifest_transition_def add_run_def replace_all_runs_def replace_runs_def manifest_new_def
        open_for_runs_def has_run_def same_run_def ex_run_def Let_def)
  with manifest_lifecycle [of ex_calls "[]" 0] show ?thesis by blast
qed

text \<open>
  After any sequence of calls, accepted or refused, a manifest lists every run once, only runs of
  its own generation, and none before scanning started; the session and the generation never change.
\<close>

lemma manifest_invariant:
  "manifest_ok (manifest_steps calls (manifest_new session generation)) \<and>
   mf_session (manifest_steps calls (manifest_new session generation)) = session \<and>
   mf_generation (manifest_steps calls (manifest_new session generation)) = generation"
proof -
  have "mf_session (manifest_steps calls m) = mf_session m \<and> mf_generation (manifest_steps calls m) = mf_generation m" for m
    by (induction calls arbitrary: m) (simp_all add: manifest_apply_keeps)
  then show ?thesis using manifest_steps_ok [OF manifest_new_ok] by (simp add: manifest_new_def)
qed

text \<open>
  Publishing replaces whatever a reducing generation lists by the query run and its companions:
  when they carry the manifest's generation and different names, it succeeds and the published manifest
  lists exactly these runs.
\<close>

lemma publish_installs_runs:
  assumes "manifest_ok m" "mf_state m = Reducing" "distinct (run_names (child_queries # others))"
    "\<forall>e \<in> set (child_queries # others). rd_generation (me_descriptor e) = mf_generation m"
  shows "publish_manifest child_queries others m = (Inr (), m\<lparr>mf_runs := child_queries # others, mf_state := Published\<rparr>)"
  using assms by (rule publish_manifest_eq)

end
