(* ===== verification/Model_Types.thy ===== *)
theory Model_Types
  imports Excise_Prelude
begin

text \<open>
  The facts the scan records about an entry (\<open>src/src/model/types.rs\<close>, the identity of
  \<open>src/src/native_path.rs\<close>, and the accounting types of
  \<open>src/src/scan_store/path_reducer.rs\<close>): byte bounds with an optional upper bound, metrics,
  kinds, snapshots and coverage.

  \<open>FileId\<close> belongs to the \<open>file_id\<close> crate; the type below has the three variants
  and the field widths the codec of \<open>src/src/file_id_codec.rs\<close> matches on.  The lemmas show
  that addition of bounds is sound (the bounds of a sum contain every sum of values within the bounds,
  as long as nothing saturates), that it is associative and commutative with saturation included, and
  that subtraction undoes addition.
\<close>

section \<open>Definitions\<close>

type_synonym node_id = u32

record byte_bounds =
  bb_lower :: u128
  bb_upper :: "u128 option"

definition bb_exact :: "u128 \<Rightarrow> byte_bounds" where
  "bb_exact bytes = \<lparr>bb_lower = bytes, bb_upper = Some bytes\<rparr>"

definition bb_unknown :: byte_bounds where
  "bb_unknown = \<lparr>bb_lower = 0, bb_upper = None\<rparr>"

definition bb_default :: byte_bounds where
  "bb_default = bb_exact 0"

definition upper_with :: "(u128 \<Rightarrow> u128 \<Rightarrow> u128) \<Rightarrow> u128 option \<Rightarrow> u128 option \<Rightarrow> u128 option" where
  "upper_with f a b = (case (a, b) of (Some left, Some right) \<Rightarrow> Some (f left right) | _ \<Rightarrow> None)"

definition bb_add :: "byte_bounds \<Rightarrow> byte_bounds \<Rightarrow> byte_bounds" where
  "bb_add a b = \<lparr>bb_lower = sat_add (bb_lower a) (bb_lower b),
                 bb_upper = upper_with sat_add (bb_upper a) (bb_upper b)\<rparr>"

definition bb_subtract :: "byte_bounds \<Rightarrow> byte_bounds \<Rightarrow> byte_bounds" where
  "bb_subtract a b = \<lparr>bb_lower = sat_sub (bb_lower a) (bb_lower b),
                      bb_upper = upper_with sat_sub (bb_upper a) (bb_upper b)\<rparr>"

record node_metrics =
  nm_apparent_bytes :: u128
  nm_allocated_bytes :: byte_bounds
  nm_reclaimable_bytes :: byte_bounds
  nm_descendants :: u64

definition nm_add :: "node_metrics \<Rightarrow> node_metrics \<Rightarrow> node_metrics" where
  "nm_add a b = \<lparr>nm_apparent_bytes = sat_add (nm_apparent_bytes a) (nm_apparent_bytes b),
     nm_allocated_bytes = bb_add (nm_allocated_bytes a) (nm_allocated_bytes b),
     nm_reclaimable_bytes = bb_add (nm_reclaimable_bytes a) (nm_reclaimable_bytes b),
     nm_descendants = sat_add (nm_descendants a) (nm_descendants b)\<rparr>"

datatype synthetic_kind = Shared

datatype node_kind = NodeRoot | NodeDirectory | NodeFile | NodeLink | NodeSynthetic synthetic_kind

definition nk_is_directory :: "node_kind \<Rightarrow> bool" where
  "nk_is_directory k \<longleftrightarrow> k = NodeRoot \<or> k = NodeDirectory"

definition nk_is_synthetic :: "node_kind \<Rightarrow> bool" where
  "nk_is_synthetic k \<longleftrightarrow> (\<exists>s \<in> {Shared}. k = NodeSynthetic s)"

datatype node_state = StateScanning | StateComplete | StateUncertain

datatype file_id =
    Inode u64 u64
  | LowRes u32 u64
  | HighRes u64 u128

record native_identity =
  ni_file_id :: file_id
  ni_link_count :: "u64 option"
  ni_reparse_point :: bool

record entry_snapshot =
  es_identity :: "native_identity option"
  es_kind :: node_kind
  es_apparent_bytes :: u128
  es_allocated_bytes :: "u128 option"
  es_modified_nanos :: "u128 option"

datatype path_entry_kind = EntryDirectory | EntryFile | EntryLink

datatype coverage = CoverageComplete | CoverageUncertain

definition coverage_combine :: "coverage \<Rightarrow> coverage \<Rightarrow> coverage" where
  "coverage_combine a b =
     (if a = CoverageUncertain \<or> b = CoverageUncertain then CoverageUncertain else CoverageComplete)"

primrec coverage_code :: "coverage \<Rightarrow> u8" where
  "coverage_code CoverageComplete = 1"
| "coverage_code CoverageUncertain = 2"

definition coverage_from_code :: "u8 \<Rightarrow> coverage option" where
  "coverage_from_code v =
     (if v = 1 then Some CoverageComplete else if v = 2 then Some CoverageUncertain else None)"

record summary_metrics =
  sm_apparent_bytes :: u128
  sm_allocated_bytes :: byte_bounds
  sm_reclaimable_bytes :: byte_bounds
  sm_descendants :: u64

definition sm_default :: summary_metrics where
  "sm_default = \<lparr>sm_apparent_bytes = 0, sm_allocated_bytes = bb_default,
     sm_reclaimable_bytes = bb_default, sm_descendants = 0\<rparr>"

definition sm_leaf :: "u128 \<Rightarrow> byte_bounds \<Rightarrow> byte_bounds \<Rightarrow> summary_metrics" where
  "sm_leaf apparent allocated reclaimable =
     \<lparr>sm_apparent_bytes = apparent, sm_allocated_bytes = allocated,
      sm_reclaimable_bytes = reclaimable, sm_descendants = 0\<rparr>"

definition sm_add_child :: "summary_metrics \<Rightarrow> summary_metrics \<Rightarrow> summary_metrics" where
  "sm_add_child m child =
     \<lparr>sm_apparent_bytes = sat_add (sm_apparent_bytes m) (sm_apparent_bytes child),
      sm_allocated_bytes = bb_add (sm_allocated_bytes m) (sm_allocated_bytes child),
      sm_reclaimable_bytes = bb_add (sm_reclaimable_bytes m) (sm_reclaimable_bytes child),
      sm_descendants = sat_add (sat_add (sm_descendants m) (sm_descendants child)) 1\<rparr>"

section \<open>Bounds\<close>

text \<open>The values a bound admits, and bounds that admit any.\<close>

definition within :: "byte_bounds \<Rightarrow> nat set" where
  "within b = {n. unat (bb_lower b) \<le> n \<and> (case bb_upper b of None \<Rightarrow> True | Some u \<Rightarrow> n \<le> unat u)}"

definition bounds_ok :: "byte_bounds \<Rightarrow> bool" where
  "bounds_ok b \<longleftrightarrow> (case bb_upper b of None \<Rightarrow> True | Some u \<Rightarrow> bb_lower b \<le> u)"

lemma within_bb_exact [simp]: "within (bb_exact v) = {unat v}"
  by (auto simp: within_def bb_exact_def)

lemma within_bb_unknown [simp]: "within bb_unknown = UNIV"
  by (simp add: within_def bb_unknown_def)

lemma bounds_ok_simps [simp]: "bounds_ok (bb_exact v)" "bounds_ok bb_unknown" "bounds_ok bb_default"
  by (simp_all add: bounds_ok_def bb_exact_def bb_unknown_def bb_default_def)

lemma bounds_ok_bb_add: "bounds_ok a \<Longrightarrow> bounds_ok b \<Longrightarrow> bounds_ok (bb_add a b)"
  by (auto simp: bounds_ok_def bb_add_def upper_with_def sat_add_mono split: option.splits)

lemma upper_with_commute: "(\<And>x y. f x y = f y x) \<Longrightarrow> upper_with f a b = upper_with f b a"
  by (auto simp: upper_with_def split: option.splits)

lemma upper_with_assoc:
  "(\<And>x y z. f (f x y) z = f x (f y z)) \<Longrightarrow> upper_with f (upper_with f a b) c = upper_with f a (upper_with f b c)"
  by (auto simp: upper_with_def split: option.splits)

lemma bb_add_commute: "bb_add a b = bb_add b a"
  unfolding bb_add_def sat_add_commute [of "bb_lower a"] upper_with_commute [where f = sat_add and a = "bb_upper a", OF sat_add_commute]
  by (rule refl)

lemma bb_add_assoc: "bb_add (bb_add a b) c = bb_add a (bb_add b c)"
  by (simp add: bb_add_def upper_with_assoc [OF sat_add_assoc] sat_add_assoc)

lemma bb_add_default [simp]: "bb_add b bb_default = b" "bb_add bb_default b = b"
proof -
  have "upper_with sat_add u (Some 0) = u" for u by (cases u) (simp_all add: upper_with_def)
  then show "bb_add b bb_default = b" by (simp add: bb_add_def bb_default_def bb_exact_def)
  then show "bb_add bb_default b = b" by (simp add: bb_add_commute)
qed

text \<open>Addition is sound: sums of admitted values are admitted, up to the width of the counters.\<close>

lemma within_bb_add:
  assumes "m \<in> within a" "n \<in> within b" "m + n < 2 ^ 128"
  shows "m + n \<in> within (bb_add a b)"
  using assms by (auto simp: within_def bb_add_def upper_with_def unat_sat_add split: option.splits)

lemma sat_sub_sat_add: "unat a + unat b < 2 ^ LENGTH('a) \<Longrightarrow> sat_sub (sat_add a b) b = a" for a b :: "'a::len word"
  by (simp add: word_unat_eq_iff unat_sat_sub unat_sat_add)

lemma bb_subtract_bb_add:
  assumes "unat (bb_lower a) + unat (bb_lower b) < 2 ^ 128" "bb_upper b = Some v"
    "\<And>u. bb_upper a = Some u \<Longrightarrow> unat u + unat v < 2 ^ 128"
  shows "bb_subtract (bb_add a b) b = a"
  using assms
  by (cases "bb_upper a") (simp_all add: bb_subtract_def bb_add_def upper_with_def sat_sub_sat_add)

lemma coverage_code_inverse [simp]: "coverage_from_code (coverage_code c) = Some c"
  by (cases c) (simp_all add: coverage_from_code_def)

lemma coverage_from_code_Some: "coverage_from_code v = Some c \<longleftrightarrow> v = coverage_code c"
  by (cases c) (auto simp: coverage_from_code_def split: if_splits)

lemma coverage_combine_simps [simp]:
  "coverage_combine c CoverageComplete = c" "coverage_combine CoverageComplete c = c"
  "coverage_combine c CoverageUncertain = CoverageUncertain" "coverage_combine CoverageUncertain c = CoverageUncertain"
  by (cases c; simp add: coverage_combine_def)+

lemma coverage_combine_ac:
  "coverage_combine a b = coverage_combine b a"
  "coverage_combine (coverage_combine a b) c = coverage_combine a (coverage_combine b c)"
  by (auto simp: coverage_combine_def)

end
