(* ===== verification/Path_Reducer.thy ===== *)
theory Path_Reducer
  imports Relative_Path Model_Types
begin

text \<open>
  The streaming reduction of sorted path observations to directory summaries
  (\<open>src/src/scan_store/path_reducer.rs\<close>).

  The stack of open directories is a list with the innermost one at its head.  The source of
  observations is the list of the results its successive calls give (the stream ends with the list),
  and \<open>emit\<close> is a function on the caller's own state that may fail.  An \<open>expect\<close> on
  the stack that would not hold is the outcome \<open>ReducePanic\<close>; \<open>reduce_canonical\<close>
  shows that it never occurs.

  The reference is not a traversal but a sum: metrics and coverage form a commutative monoid in which
  counting a descendant and opening the upper bounds of an unreadable directory are elements too, and
  the summary of a directory is the total of the contributions of everything at or below it.
\<close>

section \<open>Definitions\<close>

record path_observation =
  po_path :: relative_path
  po_kind :: path_entry_kind
  po_metrics :: summary_metrics
  po_coverage :: coverage
  po_snapshot :: "entry_snapshot option"

definition po_new :: "relative_path \<Rightarrow> path_entry_kind \<Rightarrow> summary_metrics \<Rightarrow> coverage \<Rightarrow> path_observation" where
  "po_new path kind metrics cov =
     \<lparr>po_path = path, po_kind = kind, po_metrics = metrics, po_coverage = cov, po_snapshot = None\<rparr>"

definition po_with_snapshot :: "relative_path \<Rightarrow> path_entry_kind \<Rightarrow> summary_metrics \<Rightarrow> coverage \<Rightarrow>
    entry_snapshot option \<Rightarrow> path_observation" where
  "po_with_snapshot path kind metrics cov snap =
     \<lparr>po_path = path, po_kind = kind, po_metrics = metrics, po_coverage = cov, po_snapshot = snap\<rparr>"

record directory_summary =
  ds_path :: relative_path
  ds_metrics :: summary_metrics
  ds_coverage :: coverage

datatype path_reduction_error = RootObservation | UnsortedPath | DuplicatePath | MissingParent

text \<open>An error of the caller's type, or a failed \<open>expect\<close>.\<close>

datatype 'e reduce_error = ReduceError 'e | ReducePanic

record open_directory =
  od_path :: relative_path
  od_metrics :: summary_metrics
  od_coverage :: coverage

definition od_from_observation :: "path_observation \<Rightarrow> open_directory" where
  "od_from_observation o1 = \<lparr>od_path = po_path o1, od_metrics = po_metrics o1, od_coverage = po_coverage o1\<rparr>"

definition od_into_summary :: "open_directory \<Rightarrow> directory_summary" where
  "od_into_summary d = \<lparr>ds_path = od_path d, ds_metrics = od_metrics d, ds_coverage = od_coverage d\<rparr>"

definition od_add_child :: "open_directory \<Rightarrow> summary_metrics \<Rightarrow> coverage \<Rightarrow> open_directory" where
  "od_add_child d metrics cov =
     d\<lparr>od_metrics := sm_add_child (od_metrics d) metrics, od_coverage := coverage_combine (od_coverage d) cov\<rparr>"

datatype unreadable_directories = Tracked "relative_path list" | Overflowed

primrec unreadable_contains :: "unreadable_directories \<Rightarrow> relative_path \<Rightarrow> bool" where
  "unreadable_contains (Tracked tracked) path = (path \<in> set tracked)"
| "unreadable_contains Overflowed path = True"

definition force_uncertain_if_unreadable :: "unreadable_directories \<Rightarrow> open_directory \<Rightarrow> open_directory" where
  "force_uncertain_if_unreadable un d =
     (if unreadable_contains un (od_path d)
      then d\<lparr>od_coverage := CoverageUncertain,
             od_metrics := (od_metrics d)
               \<lparr>sm_allocated_bytes := (sm_allocated_bytes (od_metrics d))\<lparr>bb_upper := None\<rparr>,
                sm_reclaimable_bytes := (sm_reclaimable_bytes (od_metrics d))\<lparr>bb_upper := None\<rparr>\<rparr>\<rparr>
      else d)"

type_synonym ('e, 's) emit = "directory_summary \<Rightarrow> 's \<Rightarrow> ('e, 's) res"

fun close_directory :: "unreadable_directories \<Rightarrow> ('e, 's) emit \<Rightarrow> open_directory list \<Rightarrow> 's \<Rightarrow>
    ('e reduce_error, open_directory list \<times> 's) res" where
  "close_directory un emit [] s = Inl ReducePanic"
| "close_directory un emit (d # ds) s =
     (let d = force_uncertain_if_unreadable un d in
      case emit (od_into_summary d) s of
        Inl e \<Rightarrow> Inl (ReduceError e)
      | Inr s \<Rightarrow>
          (case ds of
             [] \<Rightarrow> Inl ReducePanic
           | p # ds \<Rightarrow> Inr (od_add_child p (od_metrics d) (od_coverage d) # ds, s)))"

lemma close_directory_length:
  "close_directory un emit ds s = Inr (ds', s') \<Longrightarrow> length ds' < length ds"
  by (cases "(un, emit, ds, s)" rule: close_directory.cases)
    (auto simp: Let_def split: sum.splits list.splits)

text \<open>Both \<open>while\<close> loops of the reduction.\<close>

function close_until :: "unreadable_directories \<Rightarrow> ('e, 's) emit \<Rightarrow> relative_path \<Rightarrow>
    open_directory list \<Rightarrow> 's \<Rightarrow> ('e reduce_error, open_directory list \<times> 's) res" where
  "close_until un emit path ds s =
     (case ds of
        [] \<Rightarrow> Inl ReducePanic
      | d # _ \<Rightarrow>
          if starts_with path (od_path d) then Inr (ds, s)
          else
            (case close_directory un emit ds s of
               Inl e \<Rightarrow> Inl e
             | Inr (ds', s') \<Rightarrow> close_until un emit path ds' s'))"
  by pat_completeness auto
termination
  by (relation "measure (\<lambda>(un, emit, path, ds, s). length ds)") (auto simp del: close_directory.simps dest: close_directory_length)

function close_all :: "unreadable_directories \<Rightarrow> ('e, 's) emit \<Rightarrow> open_directory list \<Rightarrow> 's \<Rightarrow>
    ('e reduce_error, open_directory list \<times> 's) res" where
  "close_all un emit ds s =
     (if length ds \<le> 1 then Inr (ds, s)
      else
        (case close_directory un emit ds s of
           Inl e \<Rightarrow> Inl e
         | Inr (ds', s') \<Rightarrow> close_all un emit ds' s'))"
  by pat_completeness auto
termination
  by (relation "measure (\<lambda>(un, emit, ds, s). length ds)") (auto simp del: close_directory.simps dest: close_directory_length)

declare close_until.simps [simp del] close_all.simps [simp del]

text \<open>The checks on one observation, in order, then what it does to the stack.\<close>

definition check_order :: "path_observation \<Rightarrow> relative_path option \<Rightarrow> (path_reduction_error, unit) res" where
  "check_order o1 previous =
     (if is_root (po_path o1) then Inl RootObservation
      else case previous of
        None \<Rightarrow> Inr ()
      | Some prev \<Rightarrow>
          (case rp_cmp (po_path o1) prev of
             OrdLess \<Rightarrow> Inl UnsortedPath
           | OrdEqual \<Rightarrow> Inl DuplicatePath
           | OrdGreater \<Rightarrow> Inr ()))"

definition place_observation :: "path_observation \<Rightarrow> open_directory list \<Rightarrow>
    (path_reduction_error reduce_error, open_directory list) res" where
  "place_observation o1 ds =
     (case ds of
        [] \<Rightarrow> Inl ReducePanic
      | parent # rest \<Rightarrow>
          if \<not> is_direct_child_of (po_path o1) (od_path parent) then Inl (ReduceError MissingParent)
          else
            (case po_kind o1 of
               EntryDirectory \<Rightarrow> Inr (od_from_observation o1 # ds)
             | _ \<Rightarrow> Inr (od_add_child parent (po_metrics o1) (po_coverage o1) # rest)))"

fun lift_reduction :: "(path_reduction_error \<Rightarrow> 'e) \<Rightarrow> path_reduction_error reduce_error \<Rightarrow> 'e reduce_error" where
  "lift_reduction from (ReduceError e) = ReduceError (from e)"
| "lift_reduction from ReducePanic = ReducePanic"

fun reduce_loop :: "(path_reduction_error \<Rightarrow> 'e) \<Rightarrow> unreadable_directories \<Rightarrow> ('e, 's) emit \<Rightarrow>
    ('e, path_observation) res list \<Rightarrow> relative_path option \<Rightarrow> open_directory list \<Rightarrow> 's \<Rightarrow>
    ('e reduce_error, open_directory list \<times> 's) res" where
  "reduce_loop from un emit [] previous ds s = Inr (ds, s)"
| "reduce_loop from un emit (Inl e # rest) previous ds s = Inl (ReduceError e)"
| "reduce_loop from un emit (Inr o1 # rest) previous ds s =
     res_bind (map_err (\<lambda>e. ReduceError (from e)) (check_order o1 previous)) (\<lambda>_.
     res_bind (close_until un emit (po_path o1) ds s) (\<lambda>(ds, s).
     res_bind (map_err (lift_reduction from) (place_observation o1 ds)) (\<lambda>ds.
       reduce_loop from un emit rest (Some (po_path o1)) ds s)))"

definition root_directory :: open_directory where
  "root_directory = \<lparr>od_path = rp_root, od_metrics = sm_default, od_coverage = CoverageComplete\<rparr>"

definition reduce_sorted_path_stream :: "(path_reduction_error \<Rightarrow> 'e) \<Rightarrow> ('e, path_observation) res list \<Rightarrow>
    ('e, 's) emit \<Rightarrow> unreadable_directories \<Rightarrow> 's \<Rightarrow> ('e reduce_error, 's) res" where
  "reduce_sorted_path_stream from source emit un s =
     res_bind (reduce_loop from un emit source None [root_directory] s) (\<lambda>(ds, s).
     res_bind (close_all un emit ds s) (\<lambda>(ds, s).
       case ds of
         [] \<Rightarrow> Inl ReducePanic
       | root # _ \<Rightarrow>
           map_err ReduceError (emit (od_into_summary (force_uncertain_if_unreadable un root)) s)))"

definition reduce_sorted_paths :: "path_observation list \<Rightarrow> (path_reduction_error, 's) emit \<Rightarrow>
    unreadable_directories \<Rightarrow> 's \<Rightarrow> (path_reduction_error reduce_error, 's) res" where
  "reduce_sorted_paths observations emit un s =
     reduce_sorted_path_stream id (map Inr observations) emit un s"

end
