(* ===== verification/Path_Reducer_Spec.thy ===== *)
theory Path_Reducer_Spec
  imports Path_Reducer
begin

text \<open>
  Correctness of the path reduction: the contribution monoid, the pure form of the two closing loops,
  and the invariant of the stack of open directories.  \<open>reduce_canonical\<close> is the resulting
  description of the whole reduction for a canonical stream, \<open>reduce_Inr_canonical\<close> its
  converse: nothing else is accepted.
\<close>

section \<open>Contributions\<close>

type_synonym contribution = "summary_metrics \<times> coverage"

definition sm_plus :: "summary_metrics \<Rightarrow> summary_metrics \<Rightarrow> summary_metrics" where
  "sm_plus a b =
     \<lparr>sm_apparent_bytes = sat_add (sm_apparent_bytes a) (sm_apparent_bytes b),
      sm_allocated_bytes = bb_add (sm_allocated_bytes a) (sm_allocated_bytes b),
      sm_reclaimable_bytes = bb_add (sm_reclaimable_bytes a) (sm_reclaimable_bytes b),
      sm_descendants = sat_add (sm_descendants a) (sm_descendants b)\<rparr>"

definition cplus :: "contribution \<Rightarrow> contribution \<Rightarrow> contribution" where
  "cplus a b = (sm_plus (fst a) (fst b), coverage_combine (snd a) (snd b))"

definition czero :: contribution where
  "czero = (sm_default, CoverageComplete)"

text \<open>One more descendant; the open upper bounds of a directory that could not be listed.\<close>

definition cone :: contribution where
  "cone = (sm_default\<lparr>sm_descendants := 1\<rparr>, CoverageComplete)"

definition cunc :: contribution where
  "cunc = (\<lparr>sm_apparent_bytes = 0, sm_allocated_bytes = bb_unknown, sm_reclaimable_bytes = bb_unknown,
            sm_descendants = 0\<rparr>, CoverageUncertain)"

interpretation contrib: comm_monoid cplus czero
proof
  fix a b c :: contribution
  show "cplus (cplus a b) c = cplus a (cplus b c)"
    by (simp add: cplus_def sm_plus_def sat_add_assoc bb_add_assoc coverage_combine_ac(2))
  show "cplus a b = cplus b a"
    by (simp add: cplus_def sm_plus_def sat_add_commute bb_add_commute coverage_combine_ac(1))
  show "cplus a czero = a"
    by (simp add: cplus_def czero_def sm_plus_def sm_default_def prod_eq_iff)
qed

definition ctotal :: "contribution list \<Rightarrow> contribution" where
  "ctotal cs = foldr cplus cs czero"

lemma ctotal_simps [simp]: "ctotal [] = czero" "ctotal (c # cs) = cplus c (ctotal cs)"
  by (simp_all add: ctotal_def)

lemma ctotal_append: "ctotal (xs @ ys) = cplus (ctotal xs) (ctotal ys)"
  by (induction xs) (simp_all add: contrib.assoc)

text \<open>A total splits over a property of its terms.\<close>

lemma ctotal_split:
  "ctotal (map f xs) = cplus (ctotal (map f (filter P xs))) (ctotal (map f (filter (\<lambda>x. \<not> P x) xs)))"
  by (induction xs) (simp_all add: contrib.assoc contrib.left_commute)

section \<open>The reference\<close>

definition unc_at :: "unreadable_directories \<Rightarrow> relative_path \<Rightarrow> contribution" where
  "unc_at un p = (if unreadable_contains un p then cunc else czero)"

definition weight :: "unreadable_directories \<Rightarrow> path_observation \<Rightarrow> contribution" where
  "weight un x = cplus (po_metrics x, po_coverage x)
     (if po_kind x = EntryDirectory then unc_at un (po_path x) else czero)"

definition strictly_below :: "relative_path \<Rightarrow> path_observation list \<Rightarrow> path_observation list" where
  "strictly_below p xs = filter (\<lambda>x. strict_prefix p (po_path x)) xs"

definition own :: "unreadable_directories \<Rightarrow> path_observation list \<Rightarrow> relative_path \<Rightarrow> contribution" where
  "own un xs p = (if p = [] then unc_at un [] else ctotal (map (weight un) (filter (\<lambda>x. po_path x = p) xs)))"

text \<open>The summary of a directory: itself, and everything strictly below it as one descendant each.\<close>

definition subtree_total :: "unreadable_directories \<Rightarrow> path_observation list \<Rightarrow> relative_path \<Rightarrow> contribution" where
  "subtree_total un xs p =
     cplus (own un xs p) (ctotal (map (\<lambda>x. cplus (weight un x) cone) (strictly_below p xs)))"

text \<open>A stream the reduction accepts: no root, strictly sorted, every parent a directory before it.\<close>

definition canonical :: "path_observation list \<Rightarrow> bool" where
  "canonical xs \<longleftrightarrow> sorted_wrt (<) (map po_path xs) \<and> (\<forall>x \<in> set xs. po_path x \<noteq> []) \<and>
     (\<forall>x \<in> set xs. butlast (po_path x) = [] \<or>
        (\<exists>d \<in> set xs. po_path d = butlast (po_path x) \<and> po_kind d = EntryDirectory))"

definition directory_paths :: "path_observation list \<Rightarrow> relative_path set" where
  "directory_paths xs = insert [] (po_path ` {x \<in> set xs. po_kind x = EntryDirectory})"

primrec emit_all :: "('e, 's) emit \<Rightarrow> directory_summary list \<Rightarrow> 's \<Rightarrow> ('e, 's) res" where
  "emit_all emit [] s = Inr s"
| "emit_all emit (x # xs) s = res_bind (emit x s) (emit_all emit xs)"

lemma emit_all_append: "emit_all emit (xs @ ys) s = res_bind (emit_all emit xs s) (emit_all emit ys)"
  by (induction xs arbitrary: s) (simp_all add: res_bind_def split: sum.split)

section \<open>Closing directories\<close>

definition od_value :: "unreadable_directories \<Rightarrow> open_directory \<Rightarrow> contribution" where
  "od_value un d = cplus (od_metrics d, od_coverage d) (unc_at un (od_path d))"

definition summary_of :: "unreadable_directories \<Rightarrow> open_directory \<Rightarrow> directory_summary" where
  "summary_of un d = od_into_summary (force_uncertain_if_unreadable un d)"

lemma force_uncertain_value:
  "(od_metrics (force_uncertain_if_unreadable un d), od_coverage (force_uncertain_if_unreadable un d)) = od_value un d"
  "od_path (force_uncertain_if_unreadable un d) = od_path d"
proof -
  have "bb_add b bb_unknown = b\<lparr>bb_upper := None\<rparr>" for b
    by (cases b) (simp add: bb_add_def bb_unknown_def upper_with_def split: option.split)
  then show "(od_metrics (force_uncertain_if_unreadable un d), od_coverage (force_uncertain_if_unreadable un d)) = od_value un d"
    by (cases "unreadable_contains un (od_path d)")
      (simp_all add: force_uncertain_if_unreadable_def od_value_def unc_at_def,
        simp add: cunc_def cplus_def sm_plus_def)
qed (simp add: force_uncertain_if_unreadable_def)

lemma summary_of_simps [simp]:
  "ds_path (summary_of un d) = od_path d"
  "(ds_metrics (summary_of un d), ds_coverage (summary_of un d)) = od_value un d"
  using force_uncertain_value [of un d] by (simp_all add: summary_of_def od_into_summary_def)

lemma od_add_child_path [simp]: "od_path (od_add_child p m c) = od_path p"
  by (simp add: od_add_child_def)

lemma od_value_add_child: "od_value un (od_add_child p m c) = cplus (od_value un p) (cplus (m, c) cone)"
proof -
  have "(od_metrics (od_add_child p m c), od_coverage (od_add_child p m c)) =
      cplus (od_metrics p, od_coverage p) (cplus (m, c) cone)"
    by (simp add: od_add_child_def sm_add_child_def cplus_def sm_plus_def cone_def sm_default_def sat_add_assoc)
  then show ?thesis by (simp add: od_value_def contrib.assoc contrib.commute contrib.left_commute)
qed

definition pclose :: "unreadable_directories \<Rightarrow> open_directory \<Rightarrow> open_directory \<Rightarrow> open_directory" where
  "pclose un d p = od_add_child p (fst (od_value un d)) (snd (od_value un d))"

lemma pclose_simps [simp]:
  "od_path (pclose un d p) = od_path p"
  "od_value un (pclose un d p) = cplus (od_value un p) (cplus (od_value un d) cone)"
  by (simp_all add: pclose_def od_value_add_child)

lemma close_directory_eq:
  "close_directory un emit (d # p # ds) s =
     res_bind (map_err ReduceError (emit (summary_of un d) s)) (\<lambda>s. Inr (pclose un d p # ds, s))"
  by (simp add: close_directory.simps summary_of_def pclose_def Let_def
      force_uncertain_value(1) [of un d, symmetric] split: sum.split)

declare close_directory.simps(2) [simp del]

fun pclose_until :: "unreadable_directories \<Rightarrow> relative_path \<Rightarrow> open_directory list \<Rightarrow>
    directory_summary list \<times> open_directory list" where
  "pclose_until un path (d # p # ds) =
     (if starts_with path (od_path d) then ([], d # p # ds)
      else case pclose_until un path (pclose un d p # ds) of (out, r) \<Rightarrow> (summary_of un d # out, r))"
| "pclose_until un path ds = ([], ds)"

fun pclose_all :: "unreadable_directories \<Rightarrow> open_directory list \<Rightarrow>
    directory_summary list \<times> open_directory list" where
  "pclose_all un (d # p # ds) =
     (case pclose_all un (pclose un d p # ds) of (out, r) \<Rightarrow> (summary_of un d # out, r))"
| "pclose_all un ds = ([], ds)"

lemma res_bind_assoc: "res_bind (res_bind r f) g = res_bind r (\<lambda>x. res_bind (f x) g)"
  by (cases r) simp_all

lemma close_until_eq:
  assumes "ds \<noteq> []" "od_path (last ds) = []"
  shows "close_until un emit path ds s =
    res_bind (map_err ReduceError (emit_all emit (fst (pclose_until un path ds)) s))
      (\<lambda>s. Inr (snd (pclose_until un path ds), s))"
  using assms
proof (induction un path ds arbitrary: s rule: pclose_until.induct)
  case (1 un path d p ds)
  have IH: "\<not> starts_with path (od_path d) \<Longrightarrow> close_until un emit path (pclose un d p # ds) s =
      res_bind (map_err ReduceError (emit_all emit (fst (pclose_until un path (pclose un d p # ds))) s))
        (\<lambda>s. Inr (snd (pclose_until un path (pclose un d p # ds)), s))" for s
    using 1 by (cases ds) simp_all
  show ?case
    by (subst close_until.simps)
      (auto simp: close_directory_eq IH res_bind_def map_err_def case_prod_beta split: sum.split)
qed (simp_all add: close_until.simps)

lemma close_all_eq:
  "close_all un emit ds s =
    res_bind (map_err ReduceError (emit_all emit (fst (pclose_all un ds)) s))
      (\<lambda>s. Inr (snd (pclose_all un ds), s))"
proof (induction un ds arbitrary: s rule: pclose_all.induct)
  case (1 un d p ds)
  show ?case
    by (subst close_all.simps)
      (auto simp: close_directory_eq 1 res_bind_def map_err_def case_prod_beta split: sum.split)
qed (simp_all add: close_all.simps)

section \<open>The stack of open directories\<close>

text \<open>
  Each open directory holds the total of what was seen at or below it, except for what is at or below
  the open directory inside it.
\<close>

fun stack_ok :: "unreadable_directories \<Rightarrow> path_observation list \<Rightarrow> open_directory list \<Rightarrow> bool" where
  "stack_ok un xs [] = False"
| "stack_ok un xs [r] = (od_path r = [] \<and> od_value un r = subtree_total un xs [])"
| "stack_ok un xs (d # p # ds) =
     ((\<exists>c. od_path d = od_path p @ [c]) \<and>
      (\<exists>x. filter (\<lambda>x. po_path x = od_path d) xs = [x] \<and> po_kind x = EntryDirectory) \<and>
      od_value un d = subtree_total un xs (od_path d) \<and>
      stack_ok un (filter (\<lambda>x. \<not> prefix (od_path d) (po_path x)) xs) (p # ds))"

lemma stack_ok_value: "stack_ok un xs (d # ds) \<Longrightarrow> od_value un d = subtree_total un xs (od_path d)"
  by (cases ds) auto

lemma stack_ok_root: "stack_ok un xs ds \<Longrightarrow> ds \<noteq> [] \<and> od_path (last ds) = []"
  by (induction un xs ds rule: stack_ok.induct) auto

lemma strict_prefix_snoc [simp]: "strict_prefix p (p @ [c])"
  by (simp add: strict_prefix_def)

lemma stack_ok_chain: "stack_ok un xs ds \<Longrightarrow> sorted_wrt (\<lambda>a b. strict_prefix b a) (map od_path ds)"
proof (induction un xs ds rule: stack_ok.induct)
  case (3 un xs d p ds)
  then have step: "strict_prefix (od_path p) (od_path d)"
    and IH: "sorted_wrt (\<lambda>a b. strict_prefix b a) (map od_path (p # ds))" by auto
  then show ?case by (auto intro: prefix_order.less_trans)
qed auto

lemma subtree_total_skip:
  "\<not> prefix q (po_path x) \<Longrightarrow> subtree_total un (xs @ [x]) q = subtree_total un xs q"
  by (auto simp: subtree_total_def own_def strictly_below_def)

lemma subtree_total_add:
  assumes "strict_prefix q (po_path x)"
  shows "subtree_total un (xs @ [x]) q = cplus (subtree_total un xs q) (cplus (weight un x) cone)"
  using assms by (auto simp: subtree_total_def own_def strictly_below_def ctotal_append contrib.assoc)

text \<open>The total of a directory is the total without one of its folders, and that folder's total.\<close>

lemma subtree_total_split:
  assumes q: "q = p @ [c]" and one: "filter (\<lambda>x. po_path x = q) xs = [x]"
  shows "subtree_total un xs p =
    cplus (subtree_total un (filter (\<lambda>x. \<not> prefix q (po_path x)) xs) p) (cplus (subtree_total un xs q) cone)"
proof -
  let ?w = "\<lambda>x. cplus (weight un x) cone"
  let ?rest = "filter (\<lambda>x. \<not> prefix q (po_path x)) xs"
  have own: "own un ?rest p = own un xs p"
  proof -
    have "\<not> prefix q p" using q by simp
    then have "filter (\<lambda>x. po_path x = p) ?rest = filter (\<lambda>x. po_path x = p) xs"
      unfolding filter_filter by (intro filter_cong) auto
    then show ?thesis by (simp add: own_def)
  qed
  have "filter (\<lambda>x. prefix q (po_path x)) (strictly_below p xs) = filter (\<lambda>x. prefix q (po_path x)) xs"
    unfolding strictly_below_def filter_filter by (intro filter_cong) (auto simp: q prefix_def strict_prefix_def)
  moreover have "filter (\<lambda>x. \<not> prefix q (po_path x)) (strictly_below p xs) = strictly_below p ?rest"
    by (simp add: strictly_below_def conj_commute)
  ultimately have split: "ctotal (map ?w (strictly_below p xs)) =
      cplus (ctotal (map ?w (filter (\<lambda>x. prefix q (po_path x)) xs))) (ctotal (map ?w (strictly_below p ?rest)))"
    using ctotal_split [of ?w "strictly_below p xs" "\<lambda>x. prefix q (po_path x)"] by simp
  have "filter (\<lambda>x. po_path x = q) (filter (\<lambda>x. prefix q (po_path x)) xs) = [x]"
    using one unfolding filter_filter by (metis (mono_tags, lifting) filter_cong prefix_order.refl)
  moreover have "filter (\<lambda>x. po_path x \<noteq> q) (filter (\<lambda>x. prefix q (po_path x)) xs) = strictly_below q xs"
    unfolding strictly_below_def filter_filter by (intro filter_cong) (auto simp: strict_prefix_def)
  ultimately have "ctotal (map ?w (filter (\<lambda>x. prefix q (po_path x)) xs)) =
      cplus (?w x) (ctotal (map ?w (strictly_below q xs)))"
    using ctotal_split [of ?w "filter (\<lambda>x. prefix q (po_path x)) xs" "\<lambda>x. po_path x = q"] by simp
  moreover have "subtree_total un xs q = cplus (weight un x) (ctotal (map ?w (strictly_below q xs)))"
    using q one by (simp add: subtree_total_def own_def)
  ultimately show ?thesis
    unfolding subtree_total_def [of un xs p] subtree_total_def [of un ?rest p] own split
    by (simp add: contrib.assoc contrib.commute contrib.left_commute)
qed

lemma stack_ok_close:
  assumes "stack_ok un xs (d # p # ds)"
  shows "stack_ok un xs (pclose un d p # ds)"
proof -
  let ?q = "od_path d" and ?p = "od_path p"
  let ?rest = "filter (\<lambda>x. \<not> prefix ?q (po_path x)) xs"
  from assms obtain c x where q: "?q = ?p @ [c]" and one: "filter (\<lambda>x. po_path x = ?q) xs = [x]"
    and val: "od_value un d = subtree_total un xs ?q" and rest: "stack_ok un ?rest (p # ds)" by auto
  have val': "od_value un (pclose un d p) = subtree_total un xs ?p"
    using subtree_total_split [OF q one] stack_ok_value [OF rest] val by simp
  show ?thesis
  proof (cases ds)
    case Nil
    with val' rest show ?thesis by simp
  next
    case (Cons p2 ds2)
    have "filter (\<lambda>x. po_path x = ?p) ?rest = filter (\<lambda>x. po_path x = ?p) xs"
      unfolding filter_filter by (intro filter_cong) (auto simp: q)
    moreover have "filter (\<lambda>x. \<not> prefix ?p (po_path x)) ?rest = filter (\<lambda>x. \<not> prefix ?p (po_path x)) xs"
      unfolding filter_filter by (intro filter_cong) (auto simp: q prefix_def)
    ultimately show ?thesis using rest val' unfolding Cons by simp
  qed
qed

lemma stack_ok_leaf:
  assumes ok: "stack_ok un xs (d # ds)" and x: "po_path x = od_path d @ [c]" "po_kind x \<noteq> EntryDirectory"
  shows "stack_ok un (xs @ [x]) (od_add_child d (po_metrics x) (po_coverage x) # ds)"
proof -
  have "strict_prefix (od_path d) (po_path x)" using x by auto
  moreover have "weight un x = (po_metrics x, po_coverage x)" using x(2) by (simp add: weight_def)
  ultimately have "od_value un (od_add_child d (po_metrics x) (po_coverage x)) =
      subtree_total un (xs @ [x]) (od_path d)"
    using stack_ok_value [OF ok] by (simp add: od_value_add_child subtree_total_add)
  with ok x show ?thesis by (cases ds) auto
qed

lemma stack_ok_directory:
  assumes ok: "stack_ok un xs (d # ds)" and x: "po_path x = od_path d @ [c]" "po_kind x = EntryDirectory"
    and new: "\<forall>y \<in> set xs. \<not> prefix (po_path x) (po_path y)"
  shows "stack_ok un (xs @ [x]) (od_from_observation x # d # ds)"
proof -
  have none: "filter (\<lambda>y. po_path y = po_path x) xs = []" "filter (\<lambda>y. strict_prefix (po_path x) (po_path y)) xs = []"
    using new by (auto simp: filter_empty_conv)
  have "filter (\<lambda>y. \<not> prefix (po_path x) (po_path y)) (xs @ [x]) = xs"
    using new by (simp add: filter_id_conv)
  moreover have "od_value un (od_from_observation x) = subtree_total un (xs @ [x]) (po_path x)"
    using none x by (simp add: od_value_def od_from_observation_def subtree_total_def own_def strictly_below_def weight_def)
  ultimately show ?thesis using ok x none by (simp add: od_from_observation_def)
qed

section \<open>The loop\<close>

definition summary_ok :: "unreadable_directories \<Rightarrow> path_observation list \<Rightarrow> directory_summary \<Rightarrow> bool" where
  "summary_ok un xs y \<longleftrightarrow> (ds_metrics y, ds_coverage y) = subtree_total un xs (ds_path y)"

lemma pclose_until_spec:
  assumes "stack_ok un xs ds" "pclose_until un path ds = (out, r)"
  shows "stack_ok un xs r \<and> map od_path ds = map ds_path out @ map od_path r \<and>
    (\<forall>y \<in> set out. summary_ok un xs y \<and> \<not> prefix (ds_path y) path) \<and> prefix (od_path (hd r)) path"
  using assms
proof (induction un path ds arbitrary: out r rule: pclose_until.induct)
  case (1 un path d p ds)
  show ?case
  proof (cases "starts_with path (od_path d)")
    case True
    with 1 show ?thesis by (auto simp: starts_with_prefix)
  next
    case False
    then obtain out' where out: "pclose_until un path (pclose un d p # ds) = (out', r)" "out = summary_of un d # out'"
      using "1.prems"(2) by (auto split: prod.splits)
    have "summary_ok un xs (summary_of un d)"
      unfolding summary_ok_def summary_of_simps using stack_ok_value [OF "1.prems"(1)] .
    then show ?thesis
      using "1.IH" [OF False stack_ok_close [OF "1.prems"(1)] out(1)] False
      by (simp add: out(2) starts_with_prefix)
  qed
qed auto

lemma pclose_all_spec:
  assumes "stack_ok un xs ds" "pclose_all un ds = (out, r)"
  shows "\<exists>root. r = [root] \<and> stack_ok un xs r \<and> map od_path ds = map ds_path out @ [[]] \<and>
    (\<forall>y \<in> set out. summary_ok un xs y)"
  using assms
proof (induction un ds arbitrary: out r rule: pclose_all.induct)
  case (1 un d p ds)
  then obtain out' where out: "pclose_all un (pclose un d p # ds) = (out', r)" "out = summary_of un d # out'"
    by (auto split: prod.splits)
  have "summary_ok un xs (summary_of un d)"
    unfolding summary_ok_def summary_of_simps using stack_ok_value [OF "1.prems"(1)] .
  then show ?case
    using "1.IH" [OF stack_ok_close [OF "1.prems"(1)] out(1)] by (auto simp: out(2))
qed auto

text \<open>What holds between two observations.\<close>

definition passed :: "relative_path \<Rightarrow> path_observation list \<Rightarrow> bool" where
  "passed q xs \<longleftrightarrow> (\<exists>y \<in> set xs. q \<le> po_path y \<and> \<not> prefix q (po_path y))"

definition stage_inv :: "unreadable_directories \<Rightarrow> path_observation list \<Rightarrow> directory_summary list \<Rightarrow>
    open_directory list \<Rightarrow> bool" where
  "stage_inv un xs out ds \<longleftrightarrow> stack_ok un xs ds \<and>
     set (map ds_path out @ map od_path ds) = directory_paths xs \<and>
     sorted_wrt (\<lambda>p q. \<not> prefix p q) (map ds_path out @ map od_path ds) \<and>
     (\<forall>y \<in> set out. summary_ok un xs y)"

definition loop_inv :: "unreadable_directories \<Rightarrow> path_observation list \<Rightarrow> directory_summary list \<Rightarrow>
    open_directory list \<Rightarrow> bool" where
  "loop_inv un xs out ds \<longleftrightarrow> stage_inv un xs out ds \<and> (\<forall>y \<in> set out. passed (ds_path y) xs)"

lemma loop_inv_start: "loop_inv un [] [] [root_directory]"
proof -
  have "(sm_default, CoverageComplete) = czero" by (simp add: czero_def)
  then show ?thesis
    by (simp add: loop_inv_def stage_inv_def root_directory_def rp_root_def directory_paths_def od_value_def
        subtree_total_def own_def strictly_below_def)
qed

lemma passed_skip:
  assumes "passed q xs" "\<forall>y \<in> set xs. po_path y < p"
  shows "\<not> prefix q p"
proof
  assume "prefix q p"
  from assms(1) obtain y where y: "y \<in> set xs" "q \<le> po_path y" "\<not> prefix q (po_path y)"
    by (auto simp: passed_def)
  with assms(2) have "po_path y \<le> p" by auto
  with \<open>prefix q p\<close> y(2,3) show False using prefix_contiguous by blast
qed

lemma directory_path_le:
  assumes "canonical (xs @ x # ys)" "q \<in> directory_paths xs"
  shows "q < po_path x"
proof (cases "q = []")
  case True
  have "po_path x \<noteq> []" using assms(1) by (simp add: canonical_def)
  with True show ?thesis by (cases "po_path x") simp_all
next
  case False
  with assms show ?thesis by (auto simp: canonical_def directory_paths_def sorted_wrt_append)
qed

lemma canonical_before:
  assumes "canonical (xs @ x # ys)"
  shows "\<forall>y \<in> set xs. po_path y < po_path x" "po_path x \<noteq> []" "butlast (po_path x) \<in> directory_paths xs"
proof -
  show lt: "\<forall>y \<in> set xs. po_path y < po_path x" and ne: "po_path x \<noteq> []"
    using assms by (auto simp: canonical_def sorted_wrt_append)
  show "butlast (po_path x) \<in> directory_paths xs"
  proof (cases "butlast (po_path x) = []")
    case False
    then obtain d where d: "d \<in> set (xs @ x # ys)" "po_path d = butlast (po_path x)" "po_kind d = EntryDirectory"
      using assms by (auto simp: canonical_def)
    have "prefix (po_path d) (po_path x)" "po_path d \<noteq> po_path x"
      using ne d(2) by (auto simp: prefixeq_butlast) (metis length_butlast length_greater_0_conv diff_less less_irrefl_nat zero_less_one)
    then have "po_path d < po_path x" using prefix_le_list by (auto simp: order_less_le)
    then have "d \<in> set xs" using d(1) assms by (auto simp: canonical_def sorted_wrt_append)
    with d show ?thesis by (force simp: directory_paths_def)
  qed (simp add: directory_paths_def)
qed

text \<open>The innermost open directory that is left is the parent of the observation.\<close>

lemma parent_on_top:
  assumes inv: "loop_inv un xs out ds" and can: "canonical (xs @ x # ys)"
    and r: "pclose_until un (po_path x) ds = (out1, r)"
  obtains d rest c where "r = d # rest" "po_path x = od_path d @ [c]"
proof -
  have spec: "stack_ok un xs r" "map od_path ds = map ds_path out1 @ map od_path r"
    "\<forall>y \<in> set out1. \<not> prefix (ds_path y) (po_path x)" "prefix (od_path (hd r)) (po_path x)"
    using pclose_until_spec [OF _ r] inv by (auto simp: loop_inv_def stage_inv_def)
  note before = canonical_before [OF can]
  obtain d rest where dr: "r = d # rest" using stack_ok_root [OF spec(1)] by (cases r) auto
  let ?p = "butlast (po_path x)"
  have pp: "prefix ?p (po_path x)" by (rule prefixeq_butlast)
  have "?p \<in> set (map ds_path out @ map od_path ds)" using inv before(3) by (simp add: loop_inv_def stage_inv_def)
  moreover have "?p \<notin> set (map ds_path out)"
    using inv passed_skip [OF _ before(1)] pp by (auto simp: loop_inv_def stage_inv_def)
  moreover have "?p \<notin> set (map ds_path out1)" using spec(3) pp by auto
  ultimately have "?p \<in> set (map od_path r)" by (simp add: spec(2))
  with stack_ok_chain [OF spec(1)] have le: "prefix ?p (od_path d)" by (auto simp: dr)
  have "od_path d \<in> directory_paths xs" using inv by (auto simp: loop_inv_def stage_inv_def spec(2) dr)
  from directory_path_le [OF can this] have "od_path d \<noteq> po_path x" by auto
  with spec(4) dr have "strict_prefix (od_path d) (po_path x)" by (auto simp: strict_prefix_def)
  then have "prefix (od_path d) ?p"
    using before(2) by (metis append_butlast_last_id prefix_snoc strict_prefix_def)
  with le have "od_path d = ?p" by (simp add: prefix_order.eq_iff)
  with before(2) that [OF dr, of "last (po_path x)"] show ?thesis by simp
qed

lemma stage_passed:
  assumes "stage_inv un xs out ds" "\<forall>y \<in> set out. \<not> prefix (ds_path y) (po_path x)"
    "\<forall>y \<in> set xs. po_path y < po_path x"
  shows "\<forall>y \<in> set out. passed (ds_path y) (xs @ [x])"
proof
  fix y assume y: "y \<in> set out"
  with assms(1) have "ds_path y \<in> directory_paths xs" by (auto simp: stage_inv_def)
  moreover have "ds_path y \<noteq> []" using assms(2) y by auto
  ultimately have "ds_path y < po_path x" using assms(3) by (auto simp: directory_paths_def)
  with assms(2) y show "passed (ds_path y) (xs @ [x])" by (auto simp: passed_def)
qed

lemma stage_summaries:
  assumes "stage_inv un xs out ds" "\<forall>y \<in> set out. \<not> prefix (ds_path y) (po_path x)"
  shows "\<forall>y \<in> set out. summary_ok un (xs @ [x]) y"
  using assms by (auto simp: stage_inv_def summary_ok_def subtree_total_skip)

lemma loop_inv_leaf:
  assumes inv: "stage_inv un xs out (d # ds)" and x: "po_path x = od_path d @ [c]" "po_kind x \<noteq> EntryDirectory"
    and skip: "\<forall>y \<in> set out. \<not> prefix (ds_path y) (po_path x)"
    and new: "\<forall>y \<in> set xs. po_path y < po_path x"
  shows "loop_inv un (xs @ [x]) out (od_add_child d (po_metrics x) (po_coverage x) # ds)"
proof -
  note stack_ok.simps [simp del]
  have "stack_ok un xs (d # ds)" using inv by (simp add: stage_inv_def)
  then have "stack_ok un (xs @ [x]) (od_add_child d (po_metrics x) (po_coverage x) # ds)"
    using stack_ok_leaf x by blast
  moreover have "directory_paths (xs @ [x]) = directory_paths xs" using x(2) by (auto simp: directory_paths_def)
  ultimately show ?thesis
    using inv stage_passed [OF inv skip new] stage_summaries [OF inv skip] by (simp add: loop_inv_def stage_inv_def)
qed

lemma loop_inv_directory:
  assumes inv: "stage_inv un xs out (d # ds)" and x: "po_path x = od_path d @ [c]" "po_kind x = EntryDirectory"
    and skip: "\<forall>y \<in> set out. \<not> prefix (ds_path y) (po_path x)"
    and new: "\<forall>y \<in> set xs. po_path y < po_path x"
  shows "loop_inv un (xs @ [x]) out (od_from_observation x # d # ds)"
proof -
  note stack_ok.simps [simp del]
  have "stack_ok un xs (d # ds)" using inv by (simp add: stage_inv_def)
  moreover have "\<forall>y \<in> set xs. \<not> prefix (po_path x) (po_path y)" using new prefix_le_list by (metis leD)
  ultimately have ok: "stack_ok un (xs @ [x]) (od_from_observation x # d # ds)"
    using stack_ok_directory x by blast
  have top: "od_path (od_from_observation x) = po_path x" by (simp add: od_from_observation_def)
  have "directory_paths (xs @ [x]) = insert (po_path x) (directory_paths xs)"
    using x(2) by (auto simp: directory_paths_def)
  moreover have "\<forall>e \<in> set (d # ds). \<not> prefix (po_path x) (od_path e)"
    using stack_ok_chain [OF ok] by (auto simp: top dest: prefix_order.leD)
  ultimately show ?thesis
    using inv skip ok stage_passed [OF inv skip new] stage_summaries [OF inv skip]
    by (simp add: loop_inv_def stage_inv_def sorted_wrt_append top ball_Un)
qed

lemma check_order_canonical:
  assumes "canonical (xs @ x # ys)"
  shows "check_order x (if xs = [] then None else Some (po_path (last xs))) = Inr ()"
proof -
  have "xs \<noteq> [] \<Longrightarrow> rp_cmp (po_path x) (po_path (last xs)) = OrdGreater"
    using canonical_before(1) [OF assms] by (simp add: rp_cmp_cmp)
  then show ?thesis
    using canonical_before(2) [OF assms] by (simp add: check_order_def is_root_def)
qed

text \<open>One observation: close, then place it.\<close>

lemma reduce_step:
  assumes inv: "loop_inv un xs out ds" and can: "canonical (xs @ x # ys)" and small: "vec_sized (po_path x)"
    and r: "pclose_until un (po_path x) ds = (out1, r)"
  shows "\<exists>ds'. place_observation x r = Inr ds' \<and> loop_inv un (xs @ [x]) (out @ out1) ds'"
proof -
  note before = canonical_before [OF can]
  have ok: "stack_ok un xs ds" using inv by (simp add: loop_inv_def stage_inv_def)
  note spec = pclose_until_spec [OF ok r]
  obtain d rest c where d: "r = d # rest" "po_path x = od_path d @ [c]" using parent_on_top [OF inv can r] .
  have stage: "stage_inv un xs (out @ out1) (d # rest)"
    using inv spec unfolding loop_inv_def stage_inv_def d(1) by auto
  have skip: "\<forall>y \<in> set (out @ out1). \<not> prefix (ds_path y) (po_path x)"
    using inv spec passed_skip [OF _ before(1)] by (auto simp: loop_inv_def)
  have child: "is_direct_child_of (po_path x) (od_path d)"
    using d(2) small direct_child_iff [of "od_path d"] by simp
  show ?thesis
  proof (cases "po_kind x = EntryDirectory")
    case True
    then show ?thesis
      using loop_inv_directory [OF stage d(2) True skip before(1)] child by (simp add: place_observation_def d(1))
  next
    case False
    then show ?thesis
      using loop_inv_leaf [OF stage d(2) False skip before(1)] child
      by (cases "po_kind x") (simp_all add: place_observation_def d(1))
  qed
qed

lemma reduce_loop_canonical:
  fixes from_err :: "path_reduction_error \<Rightarrow> 'e"
  assumes "loop_inv un xs out ds" "canonical (xs @ ys)" "\<forall>y \<in> set ys. vec_sized (po_path y)"
  shows "\<exists>out' ds'. loop_inv un (xs @ ys) (out @ out') ds' \<and>
    (\<forall>(emit :: ('e, 's) emit) s.
      reduce_loop from_err un emit (map Inr ys) (if xs = [] then None else Some (po_path (last xs))) ds s =
      res_bind (map_err ReduceError (emit_all emit out' s)) (\<lambda>s. Inr (ds', s)))"
  using assms
proof (induction ys arbitrary: xs out ds)
  case Nil
  then show ?case by (intro exI [of _ "[]"] exI [of _ ds]) simp
next
  case (Cons x ys)
  obtain out1 r where r: "pclose_until un (po_path x) ds = (out1, r)" by fastforce
  obtain ds1 where ds1: "place_observation x r = Inr ds1" "loop_inv un (xs @ [x]) (out @ out1) ds1"
    using reduce_step [OF Cons.prems(1,2) _ r] Cons.prems(3) by auto
  have can: "canonical ((xs @ [x]) @ ys)" using Cons.prems(2) by simp
  obtain out' ds' where IH: "loop_inv un ((xs @ [x]) @ ys) ((out @ out1) @ out') ds'"
    "\<And>(emit :: ('e, 's) emit) s. reduce_loop from_err un emit (map Inr ys) (Some (po_path x)) ds1 s =
      res_bind (map_err ReduceError (emit_all emit out' s)) (\<lambda>s. Inr (ds', s))"
    using Cons.IH [OF ds1(2) can] Cons.prems(3) by auto
  have root: "ds \<noteq> []" "od_path (last ds) = []"
    using stack_ok_root Cons.prems(1) by (auto simp: loop_inv_def stage_inv_def)
  have "reduce_loop from_err un emit (map Inr (x # ys)) (if xs = [] then None else Some (po_path (last xs))) ds s =
      res_bind (map_err ReduceError (emit_all emit (out1 @ out') s)) (\<lambda>s. Inr (ds', s))" for emit :: "('e, 's) emit" and s
    unfolding list.map reduce_loop.simps check_order_canonical [OF Cons.prems(2)] close_until_eq [OF root] r
    by (simp add: res_bind_assoc map_err_bind emit_all_append ds1(1) IH(2))
  with IH(1) show ?case by (intro exI [of _ "out1 @ out'"] exI [of _ ds']) simp
qed

section \<open>The whole reduction\<close>

lemma res_bind_Inr_right [simp]: "res_bind r Inr = r"
  by (cases r) simp_all

definition post_order :: "unreadable_directories \<Rightarrow> path_observation list \<Rightarrow> directory_summary list \<Rightarrow> bool" where
  "post_order un xs out \<longleftrightarrow>
     set (map ds_path out) = directory_paths xs \<and>
     sorted_wrt (\<lambda>p q. \<not> prefix p q) (map ds_path out) \<and>
     (\<forall>y \<in> set out. summary_ok un xs y)"

lemma reduce_canonical:
  fixes from_err :: "path_reduction_error \<Rightarrow> 'e"
  assumes "canonical xs" "\<forall>x \<in> set xs. vec_sized (po_path x)"
  shows "\<exists>out. post_order un xs out \<and>
    (\<forall>(emit :: ('e, 's) emit) s.
      reduce_sorted_path_stream from_err (map Inr xs) emit un s = map_err ReduceError (emit_all emit out s))"
proof -
  obtain out ds where inv: "loop_inv un xs out ds" and
    loop: "\<And>(emit :: ('e, 's) emit) s. reduce_loop from_err un emit (map Inr xs) None [root_directory] s =
      res_bind (map_err ReduceError (emit_all emit out s)) (\<lambda>s. Inr (ds, s))"
    using reduce_loop_canonical [OF loop_inv_start, of xs un from_err] assms by auto
  obtain out2 r where r: "pclose_all un ds = (out2, r)" by fastforce
  have "stack_ok un xs ds" using inv by (simp add: loop_inv_def stage_inv_def)
  from pclose_all_spec [OF this r] obtain root where root: "r = [root]" "stack_ok un xs [root]"
    "map od_path ds = map ds_path out2 @ [[]]" "\<forall>y \<in> set out2. summary_ok un xs y" by auto
  let ?out = "out @ out2 @ [summary_of un root]"
  have top: "od_path root = []" using root(2) by simp
  have "summary_ok un xs (summary_of un root)"
    unfolding summary_ok_def summary_of_simps using stack_ok_value [OF root(2)] .
  moreover have "map ds_path ?out = map ds_path out @ map od_path ds" using root(3) top by simp
  ultimately have "post_order un xs ?out"
    using inv root(4) unfolding loop_inv_def stage_inv_def post_order_def by auto
  moreover have "reduce_sorted_path_stream from_err (map Inr xs) emit un s = map_err ReduceError (emit_all emit ?out s)"
    for emit :: "('e, 's) emit" and s
    by (simp add: reduce_sorted_path_stream_def loop res_bind_assoc close_all_eq r root(1)
        emit_all_append map_err_bind summary_of_def)
  ultimately show ?thesis by blast
qed

text \<open>The converse: what the reduction accepts is canonical.\<close>

lemma close_directory_paths:
  assumes "close_directory un emit ds s = Inr (ds', s')"
  shows "od_path ` set ds' \<subseteq> od_path ` set ds"
proof -
  obtain d p rest where ds: "ds = d # p # rest"
    using assms by (cases ds; cases "tl ds") (auto simp: close_directory.simps Let_def split: sum.splits)
  with assms show ?thesis by (auto simp: close_directory_eq res_bind_Inr_iff)
qed

lemma close_until_paths:
  "close_until un emit path ds s = Inr (ds', s') \<Longrightarrow> od_path ` set ds' \<subseteq> od_path ` set ds"
proof (induction un emit path ds s rule: close_until.induct)
  case (1 un emit path ds s)
  show ?case
  proof (cases ds)
    case (Cons d rest)
    show ?thesis
    proof (cases "starts_with path (od_path d)")
      case True
      with "1.prems" Cons show ?thesis by (simp add: close_until.simps [of _ _ _ "d # rest"])
    next
      case False
      then obtain ds1 s1 where step: "close_directory un emit ds s = Inr (ds1, s1)"
        "close_until un emit path ds1 s1 = Inr (ds', s')"
        using "1.prems" Cons by (auto simp: close_until.simps [of _ _ _ "d # rest"] split: sum.splits)
      from "1.IH" [OF Cons False step(1) refl step(2)] close_directory_paths [OF step(1)] show ?thesis by blast
    qed
  qed (use "1.prems" in \<open>simp add: close_until.simps\<close>)
qed

lemma check_order_Inr:
  "check_order x prev = Inr () \<longleftrightarrow> po_path x \<noteq> [] \<and> (\<forall>p. prev = Some p \<longrightarrow> p < po_path x)"
  by (cases prev) (auto simp: check_order_def is_root_def rp_cmp_cmp split: ordering.splits)

lemma place_observation_Inr:
  assumes "place_observation x ds = Inr ds'"
  shows "\<exists>d \<in> set ds. is_direct_child_of (po_path x) (od_path d)"
    and "od_path ` set ds' \<subseteq> od_path ` set ds \<union> (if po_kind x = EntryDirectory then {po_path x} else {})"
  using assms
  by (cases ds; cases "po_kind x";
      auto simp: place_observation_def od_from_observation_def split: if_splits)+

lemma direct_child_butlast: "is_direct_child_of p q \<Longrightarrow> p \<noteq> [] \<Longrightarrow> vec_sized p \<Longrightarrow> q = butlast p"
proof -
  assume "is_direct_child_of p q" "p \<noteq> []" "vec_sized p"
  then have pre: "prefix q p" and len: "length p = usize_sat_add (length q) 1"
    by (auto simp: is_direct_child_of_def depth_def starts_with_prefix)
  from prefix_length_le [OF pre] len have "length p = Suc (length q)" using \<open>vec_sized p\<close> by (simp add: usize_sat_add_def)
  with pre obtain zs where zs: "p = q @ zs" "length zs = 1" by (auto simp: prefix_def)
  then obtain z where "zs = [z]" by (auto simp: length_Suc_conv)
  with zs(1) show ?thesis by simp
qed

lemma canonical_snoc:
  assumes "canonical xs" "po_path x \<noteq> []" "\<forall>y \<in> set xs. po_path y < po_path x"
    "butlast (po_path x) \<in> directory_paths xs"
  shows "canonical (xs @ [x])"
proof -
  have "butlast (po_path x) = [] \<or> (\<exists>d \<in> set xs. po_path d = butlast (po_path x) \<and> po_kind d = EntryDirectory)"
    using assms(4) by (auto simp: directory_paths_def)
  with assms show ?thesis by (auto simp: canonical_def sorted_wrt_append)
qed

lemma reduce_loop_Inr:
  assumes "reduce_loop from_err un emit (map Inr ys) prev ds s = Inr r"
    and "canonical xs" "\<forall>y \<in> set ys. vec_sized (po_path y)" "od_path ` set ds \<subseteq> directory_paths xs"
    and "prev = (if xs = [] then None else Some (po_path (last xs)))"
  shows "canonical (xs @ ys)"
  using assms
proof (induction ys arbitrary: xs prev ds s)
  case (Cons x ys)
  from Cons.prems(1) obtain ds1 s1 ds2 where step: "check_order x prev = Inr ()"
    "close_until un emit (po_path x) ds s = Inr (ds1, s1)" "place_observation x ds1 = Inr ds2"
    "reduce_loop from_err un emit (map Inr ys) (Some (po_path x)) ds2 s1 = Inr r"
    by (auto simp: res_bind_Inr_iff)
  note ord = check_order_Inr [THEN iffD1, OF step(1)]
  have below: "\<forall>y \<in> set xs. po_path y < po_path x"
  proof (cases xs rule: rev_cases)
    case (snoc zs z)
    then have "po_path z < po_path x" using ord Cons.prems(5) by simp
    moreover have "\<forall>y \<in> set zs. po_path y < po_path z" using Cons.prems(2) snoc by (simp add: canonical_def sorted_wrt_append)
    ultimately show ?thesis using snoc by (auto intro: order_less_trans)
  qed simp
  have paths: "od_path ` set ds1 \<subseteq> directory_paths xs" using close_until_paths [OF step(2)] Cons.prems(4) by blast
  obtain d where d: "d \<in> set ds1" "is_direct_child_of (po_path x) (od_path d)"
    using place_observation_Inr(1) [OF step(3)] by blast
  have "od_path d = butlast (po_path x)" using direct_child_butlast [OF d(2)] ord Cons.prems(3) by simp
  then have can: "canonical (xs @ [x])" using canonical_snoc [OF Cons.prems(2) _ below] ord paths d(1) by auto
  have "directory_paths (xs @ [x]) = directory_paths xs \<union> (if po_kind x = EntryDirectory then {po_path x} else {})"
    by (auto simp: directory_paths_def)
  then have "od_path ` set ds2 \<subseteq> directory_paths (xs @ [x])"
    using place_observation_Inr(2) [OF step(3)] paths by blast
  from Cons.IH [OF step(4) can _ this] Cons.prems(3) show ?case by simp
qed simp

lemma reduce_Inr_canonical:
  assumes "reduce_sorted_path_stream from_err (map Inr xs) emit un s = Inr r" "\<forall>x \<in> set xs. vec_sized (po_path x)"
  shows "canonical xs"
proof -
  obtain ds s' where "reduce_loop from_err un emit (map Inr xs) None [root_directory] s = Inr (ds, s')"
    using assms(1) by (auto simp: reduce_sorted_path_stream_def res_bind_Inr_iff)
  then show ?thesis
    using reduce_loop_Inr [of from_err un emit xs None "[root_directory]" s _ "[]"] assms(2)
    by (simp add: canonical_def directory_paths_def root_directory_def rp_root_def)
qed

end
