(* ===== verification/Path_Key.thy ===== *)
theory Path_Key
  imports Relative_Path
begin

text \<open>
  The sortable path keys of the scan store (\<open>src/src/scan_store/path_key.rs\<close>, the unix branch):
  each component followed by a NUL byte, the root as the empty key.

  The lemmas show that encoding fails exactly on a component with a NUL byte, that decoding inverts
  encoding and accepts only keys an encoding produces, and that the byte order of the keys is the
  component order of the paths.
\<close>

section \<open>Definitions\<close>

datatype path_key_error = NulComponent | KeyMalformed | WrongPlatform

definition append_path_component_key :: "os_string \<Rightarrow> bytes \<Rightarrow> (path_key_error, bytes) res" where
  "append_path_component_key component encoded =
     (if 0 \<in> set component then Inl NulComponent else Inr (encoded @ component @ [0]))"

fun append_path_key :: "relative_path \<Rightarrow> bytes \<Rightarrow> (path_key_error, bytes) res" where
  "append_path_key [] encoded = Inr encoded"
| "append_path_key (c # cs) encoded =
     res_bind (append_path_component_key c encoded) (append_path_key cs)"

text \<open>\<open>encode_path_key_into\<close> clears its buffer first, \<open>encode_path_key\<close> starts with a new one.\<close>

definition encode_path_key_into :: "relative_path \<Rightarrow> bytes \<Rightarrow> (path_key_error, bytes) res" where
  "encode_path_key_into path buffer = append_path_key path []"

definition encode_path_key :: "relative_path \<Rightarrow> (path_key_error, bytes) res" where
  "encode_path_key path = encode_path_key_into path []"

text \<open>
  The decoder's loop: the position of the first NUL ends a component, an empty or unterminated
  component is malformed.
\<close>

function decode_loop :: "bytes \<Rightarrow> os_string list \<Rightarrow> (path_key_error, os_string list) res" where
  "decode_loop remaining comps =
     (if remaining = [] then Inr comps
      else if 0 \<notin> set remaining then Inl KeyMalformed
      else
        let len = length (takeWhile (\<lambda>b. b \<noteq> 0) remaining)
        in if len = 0 then Inl KeyMalformed
           else decode_loop (drop (Suc len) remaining) (comps @ [take len remaining]))"
  by pat_completeness auto
termination
  by (relation "measure (\<lambda>(remaining, comps). length remaining)") auto

declare decode_loop.simps [simp del]

definition decode_path_key :: "bytes \<Rightarrow> (path_key_error, relative_path) res" where
  "decode_path_key encoded =
     res_bind (decode_loop encoded []) (\<lambda>comps. map_err (\<lambda>_. KeyMalformed) (from_components comps))"

section \<open>Encoding\<close>

text \<open>The reference: the concatenation of the terminated components.\<close>

definition nul_free :: "relative_path \<Rightarrow> bool" where
  "nul_free p \<longleftrightarrow> (\<forall>c \<in> set p. 0 \<notin> set c)"

definition key_bytes :: "relative_path \<Rightarrow> bytes" where
  "key_bytes p = concat (map (\<lambda>c. c @ [0]) p)"

lemma nul_free_simps [simp]: "nul_free []" "nul_free (c # p) \<longleftrightarrow> 0 \<notin> set c \<and> nul_free p"
  by (auto simp: nul_free_def)

lemma key_bytes_simps [simp]: "key_bytes [] = []" "key_bytes (c # p) = c @ 0 # key_bytes p"
  by (simp_all add: key_bytes_def)

lemma append_path_key_eq:
  "append_path_key p encoded = (if nul_free p then Inr (encoded @ key_bytes p) else Inl NulComponent)"
  by (induction p encoded rule: append_path_key.induct) (simp_all add: append_path_component_key_def res_simps)

lemma encode_path_key_eq: "encode_path_key p = (if nul_free p then Inr (key_bytes p) else Inl NulComponent)"
  by (simp add: encode_path_key_def encode_path_key_into_def append_path_key_eq)

lemma encode_path_key_Inr: "encode_path_key p = Inr k \<longleftrightarrow> nul_free p \<and> k = key_bytes p"
  by (auto simp: encode_path_key_eq)

section \<open>Decoding\<close>

lemma takeWhile_component: "0 \<notin> set c \<Longrightarrow> takeWhile (\<lambda>b. b \<noteq> 0) (c @ 0 # rest) = c" for c :: bytes
  by (induction c) auto

lemma decode_loop_step:
  assumes "0 \<notin> set c" "c \<noteq> []"
  shows "decode_loop (c @ 0 # rest) comps = decode_loop rest (comps @ [c])"
  using assms by (subst decode_loop.simps) (simp add: takeWhile_component Let_def)

lemma decode_loop_key_bytes:
  "nul_free p \<Longrightarrow> [] \<notin> set p \<Longrightarrow> decode_loop (key_bytes p) comps = Inr (comps @ p)"
proof (induction p arbitrary: comps)
  case Nil
  then show ?case by (simp add: decode_loop.simps)
next
  case (Cons c p)
  then show ?case using decode_loop_step [of c "key_bytes p" comps] by (cases "c = []") simp_all
qed

lemma decode_loop_Inr:
  "decode_loop remaining comps = Inr cs \<Longrightarrow>
    \<exists>p. cs = comps @ p \<and> remaining = key_bytes p \<and> nul_free p \<and> [] \<notin> set p"
proof (induction remaining comps rule: decode_loop.induct)
  case (1 remaining comps)
  let ?c = "takeWhile (\<lambda>b. b \<noteq> 0) remaining"
  show ?case
  proof (cases "remaining = []")
    case True
    with "1.prems" show ?thesis by (intro exI [of _ "[]"]) (simp add: decode_loop.simps)
  next
    case False
    have zero: "0 \<in> set remaining" and ne: "?c \<noteq> []"
      using "1.prems" False by (auto simp: decode_loop.simps [of remaining] Let_def split: if_splits)
    have "dropWhile (\<lambda>b. b \<noteq> 0) remaining \<noteq> []" "hd (dropWhile (\<lambda>b. b \<noteq> 0) remaining) = 0"
      using zero hd_dropWhile [of "\<lambda>b. b \<noteq> 0" remaining] by auto
    then obtain rest where "dropWhile (\<lambda>b. b \<noteq> 0) remaining = 0 # rest" by (cases "dropWhile (\<lambda>b. b \<noteq> 0) remaining") auto
    then have split: "remaining = ?c @ 0 # rest" by (metis takeWhile_dropWhile_id)
    have free: "0 \<notin> set ?c" by (auto dest: set_takeWhileD)
    have drop: "drop (Suc (length ?c)) remaining = rest" "take (length ?c) remaining = ?c"
      by (subst (2) split, simp)+
    have "decode_loop rest (comps @ [?c]) = Inr cs"
      using "1.prems" decode_loop_step [OF free ne, of rest comps] split by simp
    with "1.IH" [OF False _ refl] zero ne drop
    obtain p where "cs = (comps @ [?c]) @ p" "rest = key_bytes p" "nul_free p" "[] \<notin> set p" by auto
    with split free ne show ?thesis by (intro exI [of _ "?c # p"]) auto
  qed
qed

lemma decode_path_key_bytes:
  "nul_free p \<Longrightarrow> relative_path_ok p \<Longrightarrow> decode_path_key (key_bytes p) = Inr p"
proof -
  assume p: "nul_free p" "relative_path_ok p"
  then have "[] \<notin> set p" by (auto simp: relative_path_ok_def valid_component_iff)
  with p show ?thesis
    by (simp add: decode_path_key_def decode_loop_key_bytes from_components_ok res_simps)
qed

lemma decode_path_key_Inr: "decode_path_key k = Inr p \<longleftrightarrow> nul_free p \<and> relative_path_ok p \<and> k = key_bytes p"
proof
  assume "decode_path_key k = Inr p"
  then obtain comps where c: "decode_loop k [] = Inr comps" "from_components comps = Inr p"
    by (auto simp: decode_path_key_def res_bind_Inr_iff)
  with decode_loop_Inr [OF c(1)] show "nul_free p \<and> relative_path_ok p \<and> k = key_bytes p"
    by (auto simp: from_components_Inr)
qed (auto simp: decode_path_key_bytes)

section \<open>Order\<close>

lemma cmp_zero: "b \<noteq> 0 \<Longrightarrow> cmp 0 b = OrdLess" "b \<noteq> 0 \<Longrightarrow> cmp b 0 = OrdGreater" for b :: u8
  by (simp_all add: word_neq_0_conv)

lemma cmp_terminated:
  fixes c d :: bytes
  assumes "0 \<notin> set c" "0 \<notin> set d"
  shows "cmp (c @ 0 # xs) (d @ 0 # ys) = then_with (cmp c d) (cmp xs ys)"
  using assms
proof (induction c arbitrary: d)
  case Nil
  then show ?case
    using cmp_zero(1) [of "hd d"] by (cases d) (simp_all add: cmp_Cons cmp_Nil del: cmp_iff)
next
  case (Cons b c)
  note IH = Cons.IH and prems = Cons.prems
  show ?case
  proof (cases d)
    case Nil
    with prems cmp_zero(2) [of b] show ?thesis by (simp add: cmp_Cons cmp_Nil del: cmp_iff)
  next
    case (Cons b' d')
    with IH [of d'] prems show ?thesis by (simp add: cmp_Cons then_with_assoc)
  qed
qed

lemma cmp_Nil_append: "cmp [] (xs @ x # ys) = OrdLess" "cmp (xs @ x # ys) [] = OrdGreater"
  by (cases xs; simp add: cmp_Nil del: cmp_iff)+

lemma cmp_key_bytes: "nul_free p \<Longrightarrow> nul_free q \<Longrightarrow> cmp (key_bytes p) (key_bytes q) = rp_cmp p q"
proof (induction p q rule: rp_cmp.induct)
  case (1 l ls r rs)
  then show ?case by (cases "l = r") (simp_all add: cmp_terminated then_with_neq)
qed (simp_all add: cmp_Nil_append del: cmp_iff)

end
