(* ===== verification/File_Id_Codec.thy ===== *)
theory File_Id_Codec
  imports Model_Types
begin

text \<open>
  The canonical bytes of a file identity (\<open>src/src/file_id_codec.rs\<close>): a tag and two
  little-endian integers.  Buffer reservation has no effect on the bytes and is left out.

  The lemmas show the round trip with any bytes following, that only canonical bytes decode, and that
  \<open>compare_file_ids_by_encoding\<close> is the byte order of the encodings, which are a prefix code.
\<close>

section \<open>Definitions\<close>

datatype file_id_codec_error = FileIdMalformed

definition INODE_TAG :: u8 where "INODE_TAG = 0"
definition LOW_RES_TAG :: u8 where "LOW_RES_TAG = 1"
definition HIGH_RES_TAG :: u8 where "HIGH_RES_TAG = 2"

primrec file_id_tag :: "file_id \<Rightarrow> u8" where
  "file_id_tag (Inode d i) = INODE_TAG"
| "file_id_tag (LowRes v i) = LOW_RES_TAG"
| "file_id_tag (HighRes v i) = HIGH_RES_TAG"

primrec file_id_encoded_bytes :: "file_id \<Rightarrow> nat" where
  "file_id_encoded_bytes (Inode d i) = 1 + 2 * 8"
| "file_id_encoded_bytes (LowRes v i) = 1 + 4 + 8"
| "file_id_encoded_bytes (HighRes v i) = 1 + 8 + 16"

primrec append_file_id :: "file_id \<Rightarrow> bytes \<Rightarrow> bytes" where
  "append_file_id (Inode device_id inode_number) encoded =
     encoded @ [INODE_TAG] @ u64_le device_id @ u64_le inode_number"
| "append_file_id (LowRes volume_serial_number file_index) encoded =
     encoded @ [LOW_RES_TAG] @ u32_le volume_serial_number @ u64_le file_index"
| "append_file_id (HighRes volume_serial_number file_id) encoded =
     encoded @ [HIGH_RES_TAG] @ u64_le volume_serial_number @ u128_le file_id"

definition encode_file_id_into :: "file_id \<Rightarrow> bytes \<Rightarrow> bytes" where
  "encode_file_id_into f buffer = append_file_id f []"

fun compare_file_ids_by_encoding :: "file_id \<Rightarrow> file_id \<Rightarrow> ordering" where
  "compare_file_ids_by_encoding (Inode ld li) (Inode rd ri) =
     then_with (cmp (u64_le ld) (u64_le rd)) (cmp (u64_le li) (u64_le ri))"
| "compare_file_ids_by_encoding (LowRes lv li) (LowRes rv ri) =
     then_with (cmp (u32_le lv) (u32_le rv)) (cmp (u64_le li) (u64_le ri))"
| "compare_file_ids_by_encoding (HighRes lv li) (HighRes rv ri) =
     then_with (cmp (u64_le lv) (u64_le rv)) (cmp (u128_le li) (u128_le ri))"
| "compare_file_ids_by_encoding left right = cmp (file_id_tag left) (file_id_tag right)"

text \<open>The payload after the tag, of the length the tag names.\<close>

definition payload_bytes :: "u8 \<Rightarrow> (file_id_codec_error, nat) res" where
  "payload_bytes tag =
     (if tag = INODE_TAG then Inr (2 * 8)
      else if tag = LOW_RES_TAG then Inr (4 + 8)
      else if tag = HIGH_RES_TAG then Inr (8 + 16)
      else Inl FileIdMalformed)"

definition decode_payload :: "u8 \<Rightarrow> bytes \<Rightarrow> (file_id_codec_error, file_id) res" where
  "decode_payload tag payload =
     (if tag = INODE_TAG then
        res_bind (take_u64 FileIdMalformed payload) (\<lambda>(d, payload).
        res_bind (take_u64 FileIdMalformed payload) (\<lambda>(i, payload). Inr (Inode d i)))
      else if tag = LOW_RES_TAG then
        res_bind (take_u32 FileIdMalformed payload) (\<lambda>(v, payload).
        res_bind (take_u64 FileIdMalformed payload) (\<lambda>(i, payload). Inr (LowRes v i)))
      else
        res_bind (take_u64 FileIdMalformed payload) (\<lambda>(v, payload).
        res_bind (take_u128 FileIdMalformed payload) (\<lambda>(i, payload). Inr (HighRes v i))))"

definition decode_file_id_prefix :: "bytes \<Rightarrow> (file_id_codec_error, file_id \<times> nat) res" where
  "decode_file_id_prefix encoded =
     (case encoded of
        [] \<Rightarrow> Inl FileIdMalformed
      | tag # _ \<Rightarrow>
          res_bind (payload_bytes tag) (\<lambda>payload.
            let total = usize_sat_add payload 1 in
            if length encoded < total then Inl FileIdMalformed
            else res_bind (decode_payload tag (drop 1 (take total encoded))) (\<lambda>f. Inr (f, total))))"

definition decode_file_id :: "bytes \<Rightarrow> (file_id_codec_error, file_id) res" where
  "decode_file_id encoded =
     res_bind (decode_file_id_prefix encoded) (\<lambda>(f, consumed).
       if consumed \<noteq> length encoded then Inl FileIdMalformed else Inr f)"

section \<open>Round trip\<close>

definition file_id_bytes :: "file_id \<Rightarrow> bytes" where
  "file_id_bytes f = append_file_id f []"

lemmas file_id_tags = INODE_TAG_def LOW_RES_TAG_def HIGH_RES_TAG_def

lemma append_file_id_eq: "append_file_id f encoded = encoded @ file_id_bytes f"
  by (cases f) (simp_all add: file_id_bytes_def)

lemma length_file_id_bytes [simp]: "length (file_id_bytes f) = file_id_encoded_bytes f"
  by (cases f) (simp_all add: file_id_bytes_def)

lemma file_id_bytes_Cons: "\<exists>payload. file_id_bytes f = file_id_tag f # payload"
  by (cases f) (simp_all add: file_id_bytes_def)

lemma decode_file_id_prefix_append [simp, codec_simps]:
  "decode_file_id_prefix (file_id_bytes f @ rest) = Inr (f, file_id_encoded_bytes f)"
  by (cases f)
    (simp_all add: file_id_bytes_def decode_file_id_prefix_def payload_bytes_def decode_payload_def
      file_id_tags res_simps usize_sat_add_def)

lemma take_two_ints:
  assumes "length bs = a + b" "\<And>r x rest. rd1 r = Inr (x, rest) \<longleftrightarrow> r = enc1 x @ rest"
    "\<And>r x rest. rd2 r = Inr (x, rest) \<longleftrightarrow> r = enc2 x @ rest" "\<And>x. length (enc1 x) = a" "\<And>x. length (enc2 x) = b"
    "res_bind (rd1 bs) (\<lambda>(x, r). res_bind (rd2 r) (\<lambda>(y, r). Inr (C x y))) = Inr f"
  shows "\<exists>x y. f = C x y \<and> bs = enc1 x @ enc2 y"
  using assms by (fastforce simp: res_bind_Inr_iff)

lemma decode_payload_Inr:
  assumes "payload_bytes tag = Inr n" "length payload = n" "decode_payload tag payload = Inr f"
  shows "file_id_bytes f = tag # payload"
proof -
  consider "tag = INODE_TAG" "n = 8 + 8" | "tag = LOW_RES_TAG" "n = 4 + 8" | "tag = HIGH_RES_TAG" "n = 8 + 16"
    using assms(1) by (auto simp: payload_bytes_def split: if_splits)
  then show ?thesis
  proof cases
    case 1
    with assms take_two_ints [of payload 8 8 "take_u64 FileIdMalformed" u64_le "take_u64 FileIdMalformed" u64_le Inode f]
    show ?thesis by (auto simp: decode_payload_def file_id_bytes_def take_int_Inr_iff)
  next
    case 2
    with assms take_two_ints [of payload 4 8 "take_u32 FileIdMalformed" u32_le "take_u64 FileIdMalformed" u64_le LowRes f]
    show ?thesis by (auto simp: decode_payload_def file_id_bytes_def take_int_Inr_iff file_id_tags)
  next
    case 3
    with assms take_two_ints [of payload 8 16 "take_u64 FileIdMalformed" u64_le "take_u128 FileIdMalformed" u128_le HighRes f]
    show ?thesis by (auto simp: decode_payload_def file_id_bytes_def take_int_Inr_iff file_id_tags)
  qed
qed

lemma decode_file_id_prefix_Inr:
  "decode_file_id_prefix encoded = Inr (f, n) \<longleftrightarrow>
     n = file_id_encoded_bytes f \<and> (\<exists>rest. encoded = file_id_bytes f @ rest)"
proof
  assume dec: "decode_file_id_prefix encoded = Inr (f, n)"
  then obtain tag rest where enc: "encoded = tag # rest"
    by (cases encoded) (auto simp: decode_file_id_prefix_def)
  with dec obtain m where m: "payload_bytes tag = Inr m" "n = usize_sat_add m 1" "n \<le> length encoded"
      "decode_payload tag (drop 1 (take n encoded)) = Inr f"
    by (auto simp: decode_file_id_prefix_def res_bind_Inr_iff Let_def split: if_splits)
  have n: "n = Suc m" using m(1,2) by (auto simp: payload_bytes_def usize_sat_add_def split: if_splits)
  then have "file_id_bytes f = tag # take m rest"
    using decode_payload_Inr [OF m(1) _ m(4)] m(3) by (simp add: enc)
  moreover from this have "n = file_id_encoded_bytes f"
    using m(3) n length_file_id_bytes [of f] by (simp add: enc)
  ultimately show "n = file_id_encoded_bytes f \<and> (\<exists>rest. encoded = file_id_bytes f @ rest)"
    by (simp add: enc) (metis append_take_drop_id)
qed auto

lemma decode_file_id_Inr: "decode_file_id encoded = Inr f \<longleftrightarrow> encoded = file_id_bytes f"
  by (auto simp: decode_file_id_def res_bind_Inr_iff decode_file_id_prefix_Inr split: if_splits)

section \<open>Order\<close>

lemma cmp_file_id_bytes:
  "cmp (file_id_bytes f @ xs) (file_id_bytes g @ ys) = then_with (compare_file_ids_by_encoding f g) (cmp xs ys)"
proof (cases "file_id_tag f = file_id_tag g")
  case True
  then show ?thesis
    by (cases f; cases g)
      (simp_all add: file_id_bytes_def file_id_tags cmp_Cons cmp_append_same_length then_with_assoc del: cmp_iff)
next
  case False
  then have "cmp (file_id_tag f) (file_id_tag g) \<noteq> OrdEqual" by simp
  moreover have "compare_file_ids_by_encoding f g = cmp (file_id_tag f) (file_id_tag g)"
    using False by (cases f; cases g) simp_all
  moreover obtain u v where "file_id_bytes f = file_id_tag f # u" "file_id_bytes g = file_id_tag g # v"
    using file_id_bytes_Cons by blast
  ultimately show ?thesis by (simp add: cmp_Cons then_with_neq del: cmp_iff)
qed

lemma compare_file_ids_cmp: "compare_file_ids_by_encoding f g = cmp (file_id_bytes f) (file_id_bytes g)"
  using cmp_file_id_bytes [of f "[]" g "[]"] 
  by (cases "compare_file_ids_by_encoding f g") (simp_all del: cmp_iff)

lemma file_id_bytes_inject [simp]: "file_id_bytes f = file_id_bytes g \<longleftrightarrow> f = g"
  by (metis decode_file_id_Inr sum.inject(2))

end
