(* ===== verification/Summary_Metrics_Codec.thy ===== *)
theory Summary_Metrics_Codec
  imports Model_Types
begin

text \<open>
  The metric payload shared by path observations and directory summaries
  (\<open>src/src/scan_store/summary_metrics.rs\<close>): fixed fields, then the upper bounds whose flag
  bit is set.  Buffer reservation is left out.

  The lemmas show the round trip with any bytes following, under exactly the flags of the metrics, and
  that everything the decoder accepts is the encoding of the metrics it returns, with bounds in order.
\<close>

unbundle bit_operations_syntax

section \<open>Definitions\<close>

datatype summary_metrics_codec_error = MetricsMalformed

text \<open>\<open>1 << n\<close>\<close>

definition flag :: "nat \<Rightarrow> u8" where "flag n = push_bit n 1"

definition ALLOCATED_UPPER_PRESENT :: u8 where "ALLOCATED_UPPER_PRESENT = flag 0"
definition RECLAIMABLE_UPPER_PRESENT :: u8 where "RECLAIMABLE_UPPER_PRESENT = flag 1"
definition KNOWN_FLAGS :: u8 where "KNOWN_FLAGS = ALLOCATED_UPPER_PRESENT OR RECLAIMABLE_UPPER_PRESENT"

text \<open>\<open>if cond { flags |= flag }\<close>\<close>

definition set_flag :: "bool \<Rightarrow> u8 \<Rightarrow> u8 \<Rightarrow> u8" where
  "set_flag b f flags = (if b then flags OR f else flags)"

definition summary_metrics_flags :: "summary_metrics \<Rightarrow> u8" where
  "summary_metrics_flags m =
     set_flag (bb_upper (sm_reclaimable_bytes m) \<noteq> None) RECLAIMABLE_UPPER_PRESENT
       (set_flag (bb_upper (sm_allocated_bytes m) \<noteq> None) ALLOCATED_UPPER_PRESENT 0)"

definition encode_summary_metrics_into :: "summary_metrics \<Rightarrow> bytes \<Rightarrow> bytes" where
  "encode_summary_metrics_into m output =
     output @ u128_le (sm_apparent_bytes m) @ u128_le (bb_lower (sm_allocated_bytes m))
       @ u128_le (bb_lower (sm_reclaimable_bytes m)) @ u64_le (sm_descendants m)
       @ opt_bytes u128_le (bb_upper (sm_allocated_bytes m))
       @ opt_bytes u128_le (bb_upper (sm_reclaimable_bytes m))"

definition decode_summary_metrics :: "u8 \<Rightarrow> bytes \<Rightarrow>
    (summary_metrics_codec_error, summary_metrics \<times> bytes) res" where
  "decode_summary_metrics flags input =
     (if flags AND NOT KNOWN_FLAGS \<noteq> 0 then Inl MetricsMalformed
      else
        res_bind (take_u128 MetricsMalformed input) (\<lambda>(apparent, input).
        res_bind (take_u128 MetricsMalformed input) (\<lambda>(alloc_lower, input).
        res_bind (take_u128 MetricsMalformed input) (\<lambda>(reclaim_lower, input).
        res_bind (take_u64 MetricsMalformed input) (\<lambda>(descendants, input).
        res_bind (take_when (flags AND ALLOCATED_UPPER_PRESENT \<noteq> 0) (take_u128 MetricsMalformed) input)
          (\<lambda>(alloc_upper, input).
        res_bind (take_when (flags AND RECLAIMABLE_UPPER_PRESENT \<noteq> 0) (take_u128 MetricsMalformed) input)
          (\<lambda>(reclaim_upper, input).
        if (case alloc_upper of None \<Rightarrow> False | Some upper \<Rightarrow> upper < alloc_lower) \<or>
           (case reclaim_upper of None \<Rightarrow> False | Some upper \<Rightarrow> upper < reclaim_lower)
        then Inl MetricsMalformed
        else Inr (\<lparr>sm_apparent_bytes = apparent,
                   sm_allocated_bytes = \<lparr>bb_lower = alloc_lower, bb_upper = alloc_upper\<rparr>,
                   sm_reclaimable_bytes = \<lparr>bb_lower = reclaim_lower, bb_upper = reclaim_upper\<rparr>,
                   sm_descendants = descendants\<rparr>, input))))))))"

section \<open>Flags\<close>

lemma bit_flag: "bit (flag n) m \<longleftrightarrow> m = n \<and> n < 8"
  by (auto simp: flag_def bit_simps)

lemma and_flag: "n < 8 \<Longrightarrow> w AND flag n = 0 \<longleftrightarrow> \<not> bit w n"
  by (auto simp: bit_eq_iff [of "w AND flag n" 0] bit_simps bit_flag)

lemma bit_set_flag: "bit (set_flag b (flag n) flags) m \<longleftrightarrow> bit flags m \<or> b \<and> m = n \<and> n < 8"
  by (auto simp: set_flag_def bit_simps bit_flag)

lemma bit_summary_metrics_flags:
  "bit (summary_metrics_flags m) n \<longleftrightarrow>
     n = 0 \<and> bb_upper (sm_allocated_bytes m) \<noteq> None \<or> n = 1 \<and> bb_upper (sm_reclaimable_bytes m) \<noteq> None"
  by (auto simp: summary_metrics_flags_def ALLOCATED_UPPER_PRESENT_def RECLAIMABLE_UPPER_PRESENT_def
      bit_set_flag)

lemma bit_KNOWN_FLAGS: "bit KNOWN_FLAGS n \<longleftrightarrow> n = 0 \<or> n = 1"
  by (auto simp: KNOWN_FLAGS_def ALLOCATED_UPPER_PRESENT_def RECLAIMABLE_UPPER_PRESENT_def bit_simps bit_flag)

lemma flags_known: "flags AND NOT KNOWN_FLAGS = 0 \<longleftrightarrow> (\<forall>n. bit flags n \<longrightarrow> n = 0 \<or> n = 1)"
proof -
  have "bit flags n \<Longrightarrow> n < 8" for n using bit_imp_le_length [of flags n] by simp
  then show ?thesis
    unfolding bit_eq_iff [of "flags AND NOT KNOWN_FLAGS" 0]
    by (auto simp: bit_simps bit_KNOWN_FLAGS)
qed

lemma flag_tests:
  "flags AND ALLOCATED_UPPER_PRESENT \<noteq> 0 \<longleftrightarrow> bit flags 0"
  "flags AND RECLAIMABLE_UPPER_PRESENT \<noteq> 0 \<longleftrightarrow> bit flags 1" for flags :: u8
  by (simp_all add: ALLOCATED_UPPER_PRESENT_def RECLAIMABLE_UPPER_PRESENT_def and_flag)

text \<open>The flags of metrics are known ones and say which upper bounds follow.\<close>

lemma summary_metrics_flag_tests:
  "summary_metrics_flags m AND NOT KNOWN_FLAGS = 0"
  "summary_metrics_flags m AND ALLOCATED_UPPER_PRESENT \<noteq> 0 \<longleftrightarrow> bb_upper (sm_allocated_bytes m) \<noteq> None"
  "summary_metrics_flags m AND RECLAIMABLE_UPPER_PRESENT \<noteq> 0 \<longleftrightarrow> bb_upper (sm_reclaimable_bytes m) \<noteq> None"
  by (auto simp: flags_known flag_tests bit_summary_metrics_flags)

section \<open>Round trip\<close>

definition metrics_bytes :: "summary_metrics \<Rightarrow> bytes" where
  "metrics_bytes m = encode_summary_metrics_into m []"

definition metrics_ok :: "summary_metrics \<Rightarrow> bool" where
  "metrics_ok m \<longleftrightarrow> bounds_ok (sm_allocated_bytes m) \<and> bounds_ok (sm_reclaimable_bytes m)"

lemma encode_summary_metrics_eq: "encode_summary_metrics_into m output = output @ metrics_bytes m"
  by (simp add: metrics_bytes_def encode_summary_metrics_into_def)

lemma length_metrics_bytes: "56 \<le> length (metrics_bytes m) \<and> length (metrics_bytes m) \<le> 88"
  by (auto simp: metrics_bytes_def encode_summary_metrics_into_def opt_bytes_def split: option.split)

lemma bounds_check:
  "bounds_ok b \<longleftrightarrow> \<not> (case bb_upper b of None \<Rightarrow> False | Some upper \<Rightarrow> upper < bb_lower b)"
  by (auto simp: bounds_ok_def split: option.split)

lemma decode_summary_metrics_append:
  assumes "metrics_ok m"
  shows "decode_summary_metrics (summary_metrics_flags m) (metrics_bytes m @ rest) = Inr (m, rest)"
  using assms
  by (simp add: decode_summary_metrics_def metrics_bytes_def encode_summary_metrics_into_def
      summary_metrics_flag_tests res_simps metrics_ok_def bounds_check del: not_None_eq)

lemma take_when_Inr_iff:
  "take_when b rd input = Inr (x, rest) \<longleftrightarrow>
     (b \<and> (\<exists>y. x = Some y \<and> rd input = Inr (y, rest))) \<or> (\<not> b \<and> x = None \<and> rest = input)"
  by (auto simp: take_when_def res_bind_Inr_iff)

lemma take_when_u128_Inr:
  "take_when b (take_u128 e) input = Inr (x, rest) \<longleftrightarrow> b = (x \<noteq> None) \<and> input = opt_bytes u128_le x @ rest"
  by (cases x) (auto simp: take_when_Inr_iff take_int_Inr_iff)

lemma take_when_u64_Inr:
  "take_when b (take_u64 e) input = Inr (x, rest) \<longleftrightarrow> b = (x \<noteq> None) \<and> input = opt_bytes u64_le x @ rest"
  by (cases x) (auto simp: take_when_Inr_iff take_int_Inr_iff)

lemma decode_summary_metrics_Inr:
  assumes "decode_summary_metrics flags input = Inr (m, rest)"
  shows "flags = summary_metrics_flags m \<and> metrics_ok m \<and> input = metrics_bytes m @ rest"
proof -
  have known: "\<And>n. bit flags n \<Longrightarrow> n = 0 \<or> n = 1"
    using assms by (auto simp: decode_summary_metrics_def flags_known split: if_splits)
  have parts: "input = metrics_bytes m @ rest \<and> metrics_ok m \<and>
      (bit flags 0 \<longleftrightarrow> bb_upper (sm_allocated_bytes m) \<noteq> None) \<and>
      (bit flags 1 \<longleftrightarrow> bb_upper (sm_reclaimable_bytes m) \<noteq> None)"
    using assms
    by (auto simp: decode_summary_metrics_def metrics_bytes_def encode_summary_metrics_into_def
        res_bind_Inr_iff take_int_Inr_iff take_when_u128_Inr flag_tests metrics_ok_def bounds_check
        split: if_splits)
  have "bit flags n = bit (summary_metrics_flags m) n" for n
    using known [of n] parts by (auto simp: bit_summary_metrics_flags)
  then show ?thesis using parts by (auto intro: bit_eqI)
qed

end
