(* ===== verification/Path_Observation.thy ===== *)
theory Path_Observation
  imports Path_Reducer Path_Key File_Id_Codec Summary_Metrics_Codec
begin

text \<open>
  The record codec of path observations (\<open>src/src/scan_store/path_observation.rs\<close>): the
  sortable path key, and a value of version, kind, coverage and flag bytes, the metric payload and the
  optional snapshot fields.

  \<open>decode_encode_observation\<close> is the round trip for every observation the encoder accepts,
  \<open>encode_observation_Inr\<close> says which those are, and \<open>decode_observation_sound\<close>
  describes what the decoder accepts.  The guard of the decoder that means to refuse snapshot flags
  without the snapshot flag tests \<open>flags & !SNAPSHOT_PRESENT == 0\<close>, which excludes the other
  flags it then asks for; \<open>snapshot_guard_dead\<close> shows that it never refuses anything.
\<close>

unbundle bit_operations_syntax

section \<open>Definitions\<close>

definition PATH_OBSERVATION_VERSION :: u8 where "PATH_OBSERVATION_VERSION = 2"
definition METRIC_FLAGS :: u8 where "METRIC_FLAGS = ALLOCATED_UPPER_PRESENT OR RECLAIMABLE_UPPER_PRESENT"
definition SNAPSHOT_PRESENT :: u8 where "SNAPSHOT_PRESENT = flag 2"
definition SNAPSHOT_IDENTITY_PRESENT :: u8 where "SNAPSHOT_IDENTITY_PRESENT = flag 3"
definition SNAPSHOT_LINK_COUNT_PRESENT :: u8 where "SNAPSHOT_LINK_COUNT_PRESENT = flag 4"
definition SNAPSHOT_ALLOCATED_PRESENT :: u8 where "SNAPSHOT_ALLOCATED_PRESENT = flag 5"
definition SNAPSHOT_MODIFIED_PRESENT :: u8 where "SNAPSHOT_MODIFIED_PRESENT = flag 6"
definition SNAPSHOT_REPARSE_POINT :: u8 where "SNAPSHOT_REPARSE_POINT = flag 7"

datatype path_observation_codec_error =
    PathKeyErr path_key_error
  | FileIdErr file_id_codec_error
  | SnapshotKindMismatch
  | ObservationMalformed

primrec entry_kind_byte :: "path_entry_kind \<Rightarrow> u8" where
  "entry_kind_byte EntryDirectory = 1"
| "entry_kind_byte EntryFile = 2"
| "entry_kind_byte EntryLink = 3"

definition entry_kind_from_byte :: "u8 \<Rightarrow> path_entry_kind option" where
  "entry_kind_from_byte v =
     (if v = 1 then Some EntryDirectory else if v = 2 then Some EntryFile
      else if v = 3 then Some EntryLink else None)"

primrec node_kind_for_entry :: "path_entry_kind \<Rightarrow> node_kind" where
  "node_kind_for_entry EntryDirectory = NodeDirectory"
| "node_kind_for_entry EntryFile = NodeFile"
| "node_kind_for_entry EntryLink = NodeLink"

text \<open>The checks and the flag bits of an optional snapshot.\<close>

definition identity_flags :: "native_identity \<Rightarrow> u8 \<Rightarrow> (path_observation_codec_error, u8) res" where
  "identity_flags identity flags =
     (if ni_link_count identity = Some 0 then Inl ObservationMalformed
      else Inr (set_flag (ni_reparse_point identity) SNAPSHOT_REPARSE_POINT
             (set_flag (ni_link_count identity \<noteq> None) SNAPSHOT_LINK_COUNT_PRESENT
               (flags OR SNAPSHOT_IDENTITY_PRESENT))))"

definition snapshot_flags :: "path_observation \<Rightarrow> u8 \<Rightarrow> (path_observation_codec_error, u8) res" where
  "snapshot_flags ob flags =
     (case po_snapshot ob of
        None \<Rightarrow> Inr flags
      | Some snap \<Rightarrow>
          if es_kind snap \<noteq> node_kind_for_entry (po_kind ob)
             \<or> es_apparent_bytes snap \<noteq> sm_apparent_bytes (po_metrics ob)
             \<or> (case es_identity snap of None \<Rightarrow> False
                | Some identity \<Rightarrow> ni_reparse_point identity \<noteq> (po_kind ob = EntryLink))
          then Inl SnapshotKindMismatch
          else
            let flags = flags OR SNAPSHOT_PRESENT in
            res_bind (case es_identity snap of None \<Rightarrow> Inr flags | Some identity \<Rightarrow> identity_flags identity flags)
              (\<lambda>flags. Inr (set_flag (es_modified_nanos snap \<noteq> None) SNAPSHOT_MODIFIED_PRESENT
                 (set_flag (es_allocated_bytes snap \<noteq> None) SNAPSHOT_ALLOCATED_PRESENT flags))))"

definition append_identity :: "native_identity \<Rightarrow> bytes" where
  "append_identity identity = file_id_bytes (ni_file_id identity) @ opt_bytes u64_le (ni_link_count identity)"

definition append_snapshot :: "entry_snapshot \<Rightarrow> bytes" where
  "append_snapshot snap =
     opt_bytes append_identity (es_identity snap)
       @ opt_bytes u128_le (es_allocated_bytes snap) @ opt_bytes u128_le (es_modified_nanos snap)"

definition encode_path_observation_into :: "path_observation \<Rightarrow> (path_observation_codec_error, bytes \<times> bytes) res" where
  "encode_path_observation_into ob =
     res_bind (map_err PathKeyErr (encode_path_key (po_path ob))) (\<lambda>key.
     res_bind (snapshot_flags ob (summary_metrics_flags (po_metrics ob))) (\<lambda>flags.
       Inr (key,
         encode_summary_metrics_into (po_metrics ob)
           [PATH_OBSERVATION_VERSION, entry_kind_byte (po_kind ob), coverage_code (po_coverage ob), flags]
           @ opt_bytes append_snapshot (po_snapshot ob))))"

definition decode_identity :: "u8 \<Rightarrow> bytes \<Rightarrow>
    (path_observation_codec_error, native_identity option \<times> bytes) res" where
  "decode_identity flags input =
     (if flags AND SNAPSHOT_IDENTITY_PRESENT = 0 then
        if flags AND (SNAPSHOT_LINK_COUNT_PRESENT OR SNAPSHOT_REPARSE_POINT) \<noteq> 0
        then Inl ObservationMalformed else Inr (None, input)
      else
        res_bind (map_err FileIdErr (decode_file_id_prefix input)) (\<lambda>(file_id, n).
        res_bind (take_when (flags AND SNAPSHOT_LINK_COUNT_PRESENT \<noteq> 0) (take_u64 ObservationMalformed) (drop n input))
          (\<lambda>(link_count, input).
            if link_count = Some 0 then Inl ObservationMalformed
            else Inr (Some \<lparr>ni_file_id = file_id, ni_link_count = link_count,
                            ni_reparse_point = (flags AND SNAPSHOT_REPARSE_POINT \<noteq> 0)\<rparr>, input))))"

definition decode_snapshot :: "u8 \<Rightarrow> path_entry_kind \<Rightarrow> summary_metrics \<Rightarrow> bytes \<Rightarrow>
    (path_observation_codec_error, entry_snapshot option \<times> bytes) res" where
  "decode_snapshot flags kind metrics input =
     (if flags AND SNAPSHOT_PRESENT = 0 then Inr (None, input)
      else
        res_bind (decode_identity flags input) (\<lambda>(identity, input).
          if (case identity of None \<Rightarrow> False | Some i \<Rightarrow> ni_reparse_point i \<noteq> (kind = EntryLink))
          then Inl ObservationMalformed
          else
            res_bind (take_when (flags AND SNAPSHOT_ALLOCATED_PRESENT \<noteq> 0) (take_u128 ObservationMalformed) input)
              (\<lambda>(allocated, input).
            res_bind (take_when (flags AND SNAPSHOT_MODIFIED_PRESENT \<noteq> 0) (take_u128 ObservationMalformed) input)
              (\<lambda>(modified, input).
            Inr (Some \<lparr>es_identity = identity, es_kind = node_kind_for_entry kind,
                       es_apparent_bytes = sm_apparent_bytes metrics, es_allocated_bytes = allocated,
                       es_modified_nanos = modified\<rparr>, input)))))"

definition snapshot_guard :: "u8 \<Rightarrow> bool" where
  "snapshot_guard flags \<longleftrightarrow>
     flags AND NOT SNAPSHOT_PRESENT = 0 \<and>
     flags AND (SNAPSHOT_IDENTITY_PRESENT OR SNAPSHOT_LINK_COUNT_PRESENT OR SNAPSHOT_ALLOCATED_PRESENT
       OR SNAPSHOT_MODIFIED_PRESENT OR SNAPSHOT_REPARSE_POINT) \<noteq> 0"

definition decode_path_observation :: "bytes \<Rightarrow> bytes \<Rightarrow> (path_observation_codec_error, path_observation) res" where
  "decode_path_observation key input =
     res_bind (take_u8 ObservationMalformed input) (\<lambda>(version, input).
     if version \<noteq> PATH_OBSERVATION_VERSION then Inl ObservationMalformed
     else
       res_bind (take_u8 ObservationMalformed input) (\<lambda>(kb, input).
       res_bind (ok_or (entry_kind_from_byte kb) ObservationMalformed) (\<lambda>kind.
       res_bind (take_u8 ObservationMalformed input) (\<lambda>(cb, input).
       res_bind (ok_or (coverage_from_code cb) ObservationMalformed) (\<lambda>cov.
       res_bind (take_u8 ObservationMalformed input) (\<lambda>(flags, input).
       if snapshot_guard flags then Inl ObservationMalformed
       else
         res_bind (map_err (\<lambda>_. ObservationMalformed) (decode_summary_metrics (flags AND METRIC_FLAGS) input))
           (\<lambda>(metrics, input).
         res_bind (decode_snapshot flags kind metrics input) (\<lambda>(snap, input).
         if input \<noteq> [] then Inl ObservationMalformed
         else
           res_bind (map_err PathKeyErr (decode_path_key key)) (\<lambda>path.
             Inr (po_with_snapshot path kind metrics cov snap))))))))))"

section \<open>Flags\<close>

lemmas snapshot_flag_defs =
  SNAPSHOT_PRESENT_def SNAPSHOT_IDENTITY_PRESENT_def SNAPSHOT_LINK_COUNT_PRESENT_def
  SNAPSHOT_ALLOCATED_PRESENT_def SNAPSHOT_MODIFIED_PRESENT_def SNAPSHOT_REPARSE_POINT_def

lemma snapshot_flag_tests:
  "flags AND SNAPSHOT_PRESENT = 0 \<longleftrightarrow> \<not> bit flags 2"
  "flags AND SNAPSHOT_IDENTITY_PRESENT = 0 \<longleftrightarrow> \<not> bit flags 3"
  "flags AND SNAPSHOT_LINK_COUNT_PRESENT = 0 \<longleftrightarrow> \<not> bit flags 4"
  "flags AND SNAPSHOT_ALLOCATED_PRESENT = 0 \<longleftrightarrow> \<not> bit flags 5"
  "flags AND SNAPSHOT_MODIFIED_PRESENT = 0 \<longleftrightarrow> \<not> bit flags 6"
  "flags AND SNAPSHOT_REPARSE_POINT = 0 \<longleftrightarrow> \<not> bit flags 7"
  by (simp_all add: snapshot_flag_defs and_flag)

lemma and_two_flags: "m < 8 \<Longrightarrow> n < 8 \<Longrightarrow> w AND (flag m OR flag n) = 0 \<longleftrightarrow> \<not> bit w m \<and> \<not> bit w n"
proof -
  assume mn: "m < 8" "n < 8"
  have "w AND (flag m OR flag n) = (w AND flag m) OR (w AND flag n)" by (rule bit.conj_disj_distrib)
  then show ?thesis using mn by (simp add: and_flag or_eq_0_iff)
qed

lemma metric_bits: "bit (flags AND METRIC_FLAGS) n \<longleftrightarrow> bit flags n \<and> (n = 0 \<or> n = 1)"
  by (auto simp: METRIC_FLAGS_def ALLOCATED_UPPER_PRESENT_def RECLAIMABLE_UPPER_PRESENT_def bit_simps bit_flag)

text \<open>The guard against snapshot flags without a snapshot can never hold.\<close>

lemma snapshot_guard_dead: "\<not> snapshot_guard flags"
proof
  assume "snapshot_guard flags"
  then have only: "flags AND NOT SNAPSHOT_PRESENT = 0"
    and some: "flags AND (SNAPSHOT_IDENTITY_PRESENT OR SNAPSHOT_LINK_COUNT_PRESENT OR SNAPSHOT_ALLOCATED_PRESENT
       OR SNAPSHOT_MODIFIED_PRESENT OR SNAPSHOT_REPARSE_POINT) \<noteq> 0"
    by (simp_all add: snapshot_guard_def)
  have two: "n = 2" if b: "bit flags n" for n
  proof (rule ccontr)
    assume n: "n \<noteq> 2"
    from b have "n < 8" using bit_imp_le_length [of flags n] by simp
    with n b have "bit (flags AND NOT SNAPSHOT_PRESENT) n" by (simp add: bit_simps SNAPSHOT_PRESENT_def bit_flag)
    with only show False by simp
  qed
  have "flags AND (SNAPSHOT_IDENTITY_PRESENT OR SNAPSHOT_LINK_COUNT_PRESENT OR SNAPSHOT_ALLOCATED_PRESENT
       OR SNAPSHOT_MODIFIED_PRESENT OR SNAPSHOT_REPARSE_POINT) = 0"
    by (intro bit_eqI) (auto simp: bit_simps snapshot_flag_defs bit_flag dest!: two)
  with some show False by simp
qed

definition snapshot_bit :: "entry_snapshot \<Rightarrow> nat \<Rightarrow> bool" where
  "snapshot_bit snap n \<longleftrightarrow> n = 2 \<or> n = 5 \<and> es_allocated_bytes snap \<noteq> None \<or> n = 6 \<and> es_modified_nanos snap \<noteq> None \<or>
     (\<exists>i. es_identity snap = Some i \<and> (n = 3 \<or> n = 4 \<and> ni_link_count i \<noteq> None \<or> n = 7 \<and> ni_reparse_point i))"

definition snapshot_consistent :: "path_observation \<Rightarrow> entry_snapshot \<Rightarrow> bool" where
  "snapshot_consistent ob snap \<longleftrightarrow>
     es_kind snap = node_kind_for_entry (po_kind ob) \<and> es_apparent_bytes snap = sm_apparent_bytes (po_metrics ob) \<and>
     (\<forall>i. es_identity snap = Some i \<longrightarrow>
        ni_reparse_point i = (po_kind ob = EntryLink) \<and> ni_link_count i \<noteq> Some 0)"

lemma snapshot_flags_None: "po_snapshot ob = None \<Longrightarrow> snapshot_flags ob flags = Inr flags"
  by (simp add: snapshot_flags_def)

lemma snapshot_flags_Some:
  assumes "po_snapshot ob = Some snap"
  shows "snapshot_flags ob flags = Inr f \<Longrightarrow>
      snapshot_consistent ob snap \<and> (\<forall>n. bit f n \<longleftrightarrow> bit flags n \<or> snapshot_bit snap n)"
    and "snapshot_consistent ob snap \<Longrightarrow> \<exists>f. snapshot_flags ob flags = Inr f"
  using assms
  by (auto simp: snapshot_flags_def snapshot_consistent_def snapshot_bit_def identity_flags_def res_bind_Inr_iff
      bit_set_flag bit_simps bit_flag snapshot_flag_defs Let_def split: option.splits if_splits)

section \<open>Round trip\<close>

lemma entry_kind_inverse [simp]: "entry_kind_from_byte (entry_kind_byte k) = Some k"
  by (cases k) (simp_all add: entry_kind_from_byte_def)

lemma entry_kind_from_byte_Some: "entry_kind_from_byte v = Some k \<longleftrightarrow> v = entry_kind_byte k"
  by (cases k) (auto simp: entry_kind_from_byte_def split: if_splits)

text \<open>The value bytes under given flags.\<close>

definition observation_value :: "path_observation \<Rightarrow> u8 \<Rightarrow> bytes" where
  "observation_value ob f =
     [PATH_OBSERVATION_VERSION, entry_kind_byte (po_kind ob), coverage_code (po_coverage ob), f]
       @ metrics_bytes (po_metrics ob) @ opt_bytes append_snapshot (po_snapshot ob)"

lemma encode_observation_Inr:
  "encode_path_observation_into ob = Inr (k, v) \<longleftrightarrow>
     nul_free (po_path ob) \<and> k = key_bytes (po_path ob) \<and>
     (\<exists>f. snapshot_flags ob (summary_metrics_flags (po_metrics ob)) = Inr f \<and> v = observation_value ob f)"
  by (auto simp: encode_path_observation_into_def res_bind_Inr_iff encode_path_key_Inr observation_value_def
      encode_summary_metrics_eq)

lemma metric_flags_eq:
  assumes "\<And>n. bit f n \<longleftrightarrow> bit (summary_metrics_flags m) n \<or> Q n" "\<not> Q 0" "\<not> Q 1"
  shows "f AND METRIC_FLAGS = summary_metrics_flags m"
  using assms by (intro bit_eqI) (auto simp: metric_bits bit_summary_metrics_flags)

lemma decode_identity_append:
  assumes "\<And>i. snap_id = Some i \<Longrightarrow> ni_link_count i \<noteq> Some 0 \<and> ni_reparse_point i = bit f 7"
    and "bit f 3 \<longleftrightarrow> snap_id \<noteq> None" "bit f 4 \<longleftrightarrow> (\<exists>i. snap_id = Some i \<and> ni_link_count i \<noteq> None)"
    and "bit f 7 \<Longrightarrow> snap_id \<noteq> None"
  shows "decode_identity f (opt_bytes append_identity snap_id @ rest) = Inr (snap_id, rest)"
proof (cases snap_id)
  case None
  then have bits: "\<not> bit f 3" "\<not> bit f 4" "\<not> bit f 7" using assms(2-) by auto
  then have "f AND (SNAPSHOT_LINK_COUNT_PRESENT OR SNAPSHOT_REPARSE_POINT) = 0"
    by (simp add: SNAPSHOT_LINK_COUNT_PRESENT_def SNAPSHOT_REPARSE_POINT_def and_two_flags)
  with None bits(1) show ?thesis by (simp add: decode_identity_def snapshot_flag_tests(2))
next
  case (Some i)
  have lc: "bit f 4 \<longleftrightarrow> ni_link_count i \<noteq> None" using assms(3) Some by simp
  have "take_when (f AND SNAPSHOT_LINK_COUNT_PRESENT \<noteq> 0) (take_u64 ObservationMalformed)
      (opt_bytes u64_le (ni_link_count i) @ rest) = Inr (ni_link_count i, rest)"
    unfolding snapshot_flag_tests(3) not_not lc by (rule take_when_opt)
  with assms Some show ?thesis
    by (simp add: decode_identity_def snapshot_flag_tests(2,6) append_identity_def)
qed

lemma decode_snapshot_append:
  assumes "\<And>n. bit f n \<longleftrightarrow> bit (summary_metrics_flags (po_metrics ob)) n \<or> snapshot_bit snap n"
    and con: "snapshot_consistent ob snap"
  shows "decode_snapshot f (po_kind ob) (po_metrics ob) (append_snapshot snap @ rest) = Inr (Some snap, rest)"
proof -
  have bits: "bit f 2" "bit f 3 \<longleftrightarrow> es_identity snap \<noteq> None"
    "bit f 4 \<longleftrightarrow> (\<exists>i. es_identity snap = Some i \<and> ni_link_count i \<noteq> None)"
    "bit f 5 \<longleftrightarrow> es_allocated_bytes snap \<noteq> None" "bit f 6 \<longleftrightarrow> es_modified_nanos snap \<noteq> None"
    "bit f 7 \<longleftrightarrow> (\<exists>i. es_identity snap = Some i \<and> ni_reparse_point i)"
    by (auto simp: assms(1) snapshot_bit_def bit_summary_metrics_flags)
  have id: "decode_identity f (opt_bytes append_identity (es_identity snap) @ r) = Inr (es_identity snap, r)" for r
    using con bits by (intro decode_identity_append) (auto simp: snapshot_consistent_def)
  have opts: "take_when (f AND SNAPSHOT_ALLOCATED_PRESENT \<noteq> 0) (take_u128 ObservationMalformed)
      (opt_bytes u128_le (es_allocated_bytes snap) @ r) = Inr (es_allocated_bytes snap, r)"
    "take_when (f AND SNAPSHOT_MODIFIED_PRESENT \<noteq> 0) (take_u128 ObservationMalformed)
      (opt_bytes u128_le (es_modified_nanos snap) @ r) = Inr (es_modified_nanos snap, r)" for r
    unfolding snapshot_flag_tests(4,5) not_not bits(4,5) by (rule take_when_opt)+
  have rp: "\<not> (case es_identity snap of None \<Rightarrow> False | Some i \<Rightarrow> ni_reparse_point i \<noteq> (po_kind ob = EntryLink))"
    using con by (auto simp: snapshot_consistent_def split: option.split)
  show ?thesis
    using con bits(1) rp
    by (simp add: decode_snapshot_def snapshot_flag_tests(1) append_snapshot_def id opts)
      (simp add: snapshot_consistent_def)
qed

lemma decode_observation_value:
  assumes "f AND METRIC_FLAGS = summary_metrics_flags (po_metrics ob)" "metrics_ok (po_metrics ob)"
    "decode_snapshot f (po_kind ob) (po_metrics ob) (opt_bytes append_snapshot (po_snapshot ob)) = Inr (po_snapshot ob, [])"
    "nul_free (po_path ob)" "relative_path_ok (po_path ob)"
  shows "decode_path_observation (key_bytes (po_path ob)) (observation_value ob f) = Inr ob"
  using assms
  by (simp add: decode_path_observation_def observation_value_def snapshot_guard_dead decode_summary_metrics_append
      decode_path_key_bytes po_with_snapshot_def)

lemma decode_encode_observation:
  assumes "encode_path_observation_into ob = Inr (k, v)" "relative_path_ok (po_path ob)" "metrics_ok (po_metrics ob)"
  shows "decode_path_observation k v = Inr ob"
proof -
  obtain f where f: "nul_free (po_path ob)" "k = key_bytes (po_path ob)" "v = observation_value ob f"
    "snapshot_flags ob (summary_metrics_flags (po_metrics ob)) = Inr f"
    using assms(1) by (auto simp: encode_observation_Inr)
  show ?thesis
  proof (cases "po_snapshot ob")
    case None
    then have "f = summary_metrics_flags (po_metrics ob)" using f(4) by (simp add: snapshot_flags_def)
    moreover from this have "f AND METRIC_FLAGS = f" using metric_flags_eq [of f _ "\<lambda>_. False"] by simp
    moreover from calculation have "decode_snapshot f (po_kind ob) (po_metrics ob) [] = Inr (None, [])"
      by (simp add: decode_snapshot_def snapshot_flag_tests(1) bit_summary_metrics_flags)
    ultimately show ?thesis using decode_observation_value [of f ob] None assms f by simp
  next
    case (Some snap)
    note s = snapshot_flags_Some(1) [OF Some f(4)]
    have "f AND METRIC_FLAGS = summary_metrics_flags (po_metrics ob)"
      by (rule metric_flags_eq [of f _ "snapshot_bit snap"]) (use s in \<open>auto simp: snapshot_bit_def\<close>)
    moreover have "decode_snapshot f (po_kind ob) (po_metrics ob) (append_snapshot snap) = Inr (Some snap, [])"
      using decode_snapshot_append [of f ob snap "[]"] s by simp
    ultimately show ?thesis using decode_observation_value [of f ob] Some assms f by simp
  qed
qed

section \<open>What the decoder accepts\<close>

lemma decode_identity_Inr:
  assumes "decode_identity f input = Inr (snap_id, rest)"
  shows "input = opt_bytes append_identity snap_id @ rest \<and> (bit f 3 \<longleftrightarrow> snap_id \<noteq> None) \<and>
    (bit f 4 \<longleftrightarrow> (\<exists>i. snap_id = Some i \<and> ni_link_count i \<noteq> None)) \<and>
    (bit f 7 \<longleftrightarrow> (\<exists>i. snap_id = Some i \<and> ni_reparse_point i)) \<and>
    (\<forall>i. snap_id = Some i \<longrightarrow> ni_link_count i \<noteq> Some 0)"
proof (cases "bit f 3")
  case False
  then have "f AND (SNAPSHOT_LINK_COUNT_PRESENT OR SNAPSHOT_REPARSE_POINT) = 0" "snap_id = None" "rest = input"
    using assms by (auto simp: decode_identity_def snapshot_flag_tests(2) split: if_splits)
  with False show ?thesis
    by (simp add: SNAPSHOT_LINK_COUNT_PRESENT_def SNAPSHOT_REPARSE_POINT_def and_two_flags)
next
  case True
  then obtain fid n lc where d: "decode_file_id_prefix input = Inr (fid, n)"
    "take_when (bit f 4) (take_u64 ObservationMalformed) (drop n input) = Inr (lc, rest)" "lc \<noteq> Some 0"
    "snap_id = Some \<lparr>ni_file_id = fid, ni_link_count = lc, ni_reparse_point = bit f 7\<rparr>"
    using assms
    by (auto simp: decode_identity_def snapshot_flag_tests res_bind_Inr_iff split: if_splits)
  then have "bit f 4 = (lc \<noteq> None)" "drop n input = opt_bytes u64_le lc @ rest"
    unfolding take_when_u64_Inr by blast+
  moreover obtain r where "input = file_id_bytes fid @ r" "n = file_id_encoded_bytes fid"
    using d(1) by (auto simp: decode_file_id_prefix_Inr)
  ultimately show ?thesis using True d(3,4) by (simp add: append_identity_def)
qed

lemma decode_snapshot_Inr:
  assumes "decode_snapshot f kind metrics input = Inr (snap, rest)"
  shows "input = opt_bytes append_snapshot snap @ rest \<and> (bit f 2 \<longleftrightarrow> snap \<noteq> None) \<and>
    (\<forall>x. snap = Some x \<longrightarrow> es_kind x = node_kind_for_entry kind \<and> es_apparent_bytes x = sm_apparent_bytes metrics \<and>
      (\<forall>i. es_identity x = Some i \<longrightarrow> ni_reparse_point i = (kind = EntryLink) \<and> ni_link_count i \<noteq> Some 0) \<and>
      (\<forall>n \<ge> 2. n < 8 \<longrightarrow> bit f n = snapshot_bit x n))"
proof (cases "bit f 2")
  case False
  with assms show ?thesis by (simp add: decode_snapshot_def snapshot_flag_tests)
next
  case True
  then obtain i input1 al input2 mo where d: "decode_identity f input = Inr (i, input1)"
    "\<not> (case i of None \<Rightarrow> False | Some i \<Rightarrow> ni_reparse_point i \<noteq> (kind = EntryLink))"
    "take_when (bit f 5) (take_u128 ObservationMalformed) input1 = Inr (al, input2)"
    "take_when (bit f 6) (take_u128 ObservationMalformed) input2 = Inr (mo, rest)"
    "snap = Some \<lparr>es_identity = i, es_kind = node_kind_for_entry kind, es_apparent_bytes = sm_apparent_bytes metrics,
       es_allocated_bytes = al, es_modified_nanos = mo\<rparr>"
    using assms
    by (auto simp: decode_snapshot_def snapshot_flag_tests res_bind_Inr_iff split: if_splits)
  have al: "bit f 5 = (al \<noteq> None)" "input1 = opt_bytes u128_le al @ input2"
    and mo: "bit f 6 = (mo \<noteq> None)" "input2 = opt_bytes u128_le mo @ rest"
    using d(3,4) unfolding take_when_u128_Inr by blast+
  note id = decode_identity_Inr [OF d(1)]
  have bits: "bit f n = snapshot_bit (the snap) n" if "2 \<le> n" "n < 8" for n
  proof -
    from that have "n = 2 \<or> n = 3 \<or> n = 4 \<or> n = 5 \<or> n = 6 \<or> n = 7" by linarith
    then show ?thesis using True id al(1) mo(1) by (elim disjE) (auto simp: snapshot_bit_def d(5))
  qed
  show ?thesis
    using True id al mo d(2) bits by (auto simp: d(5) append_snapshot_def split: option.splits)
qed

lemma decode_observation_sound:
  assumes "decode_path_observation k v = Inr ob"
  obtains f where "k = key_bytes (po_path ob)" "nul_free (po_path ob)" "relative_path_ok (po_path ob)"
    "v = observation_value ob f" "metrics_ok (po_metrics ob)"
    "f AND METRIC_FLAGS = summary_metrics_flags (po_metrics ob)"
    "\<And>snap. po_snapshot ob = Some snap \<Longrightarrow>
      snapshot_flags ob (summary_metrics_flags (po_metrics ob)) = Inr f"
    "po_snapshot ob = None \<Longrightarrow> \<not> bit f 2"
proof -
  obtain kb cb f kind cov metrics snap path input1 input2 where d:
    "v = [PATH_OBSERVATION_VERSION, kb, cb, f] @ input1" "kb = entry_kind_byte kind" "cb = coverage_code cov"
    "decode_summary_metrics (f AND METRIC_FLAGS) input1 = Inr (metrics, input2)"
    "decode_snapshot f kind metrics input2 = Inr (snap, [])"
    "decode_path_key k = Inr path" "ob = po_with_snapshot path kind metrics cov snap"
    using assms
    by (auto simp: decode_path_observation_def res_bind_Inr_iff take_u8_Inr_iff entry_kind_from_byte_Some
        coverage_from_code_Some split: if_splits)
  note met = decode_summary_metrics_Inr [OF d(4)] and sn = decode_snapshot_Inr [OF d(5)]
  have fields: "po_path ob = path" "po_kind ob = kind" "po_metrics ob = metrics" "po_coverage ob = cov" "po_snapshot ob = snap"
    by (simp_all add: d(7) po_with_snapshot_def)
  have flags: "snapshot_flags ob (summary_metrics_flags metrics) = Inr f" if s: "snap = Some x" for x
  proof -
    have ps: "po_snapshot ob = Some x" using s fields by simp
    have "snapshot_consistent ob x" using sn s by (simp add: snapshot_consistent_def fields)
    then obtain f' where f': "snapshot_flags ob (summary_metrics_flags metrics) = Inr f'"
      using snapshot_flags_Some(2) [OF ps] by blast
    have b': "bit f' n \<longleftrightarrow> bit (summary_metrics_flags metrics) n \<or> snapshot_bit x n" for n
      using snapshot_flags_Some(1) [OF ps f'] by simp
    have "bit f' n = bit f n" if n: "n < 8" for n
    proof (cases "2 \<le> n")
      case True
      then have "\<not> bit (summary_metrics_flags metrics) n" by (simp add: bit_summary_metrics_flags)
      with True n sn s b' show ?thesis by simp
    next
      case False
      then have "n = 0 \<or> n = 1" by linarith
      then have "bit f n = bit (f AND METRIC_FLAGS) n" by (auto simp: metric_bits)
      also have "\<dots> = bit (summary_metrics_flags metrics) n" using met by simp
      finally show ?thesis using b' False by (auto simp: snapshot_bit_def)
    qed
    then have "f' = f" by (intro bit_word_eqI) simp
    with f' show ?thesis by simp
  qed
  have "v = observation_value ob f" using d(1-3) met sn by (simp add: observation_value_def fields)
  with d(6) met sn flags show ?thesis
    by (intro that [of f]) (auto simp: decode_path_key_Inr fields)
qed

end
