(* ===== verification/Run_File_Spec.thy ===== *)
theory Run_File_Spec
  imports Run_File
begin

text \<open>
  Correctness of the run files: the canonical bytes of a list of blocks, the writer's invariant, and
  the states of the readers.  \<open>sealed_run_bytes\<close> says what a successful sequence of appends
  and a seal leave on disk, \<open>rr_visit_records\<close> that a sequential pass over those bytes visits
  exactly the appended records, \<open>rr_visit_sorted\<close> that any pass that succeeds, over any bytes,
  visits strictly increasing keys, and \<open>gr_reads\<close> what the range reader returns from a block on.
\<close>

section \<open>Canonical bytes\<close>

type_synonym run_record = "bytes \<times> bytes"

definition frame :: "run_record \<Rightarrow> bytes" where
  "frame kv = record_frame (of_nat (length (fst kv))) (of_nat (length (snd kv))) (fst kv) (snd kv)"

definition payload :: "run_record list \<Rightarrow> bytes" where
  "payload rs = concat (map frame rs)"

definition block_bytes :: "(bytes \<Rightarrow> bytes) \<Rightarrow> run_record list \<Rightarrow> bytes" where
  "block_bytes sha rs =
     block_header sha (of_nat (length rs)) (of_nat (length (payload rs))) (payload rs) @ payload rs"

definition body_bytes :: "(bytes \<Rightarrow> bytes) \<Rightarrow> run_record list list \<Rightarrow> bytes" where
  "body_bytes sha bs = concat (map (block_bytes sha) bs)"

definition header_bytes :: "run_descriptor \<Rightarrow> nat \<Rightarrow> bytes" where
  "header_bytes d capacity =
     RUN_MAGIC @ u16_le RUN_VERSION @ [run_kind_code (rd_kind d), 0] @ u64_le (rd_generation d)
       @ u64_le (rd_run_id d) @ u32_le (of_nat capacity)"

definition block_ok :: "nat \<Rightarrow> run_record list \<Rightarrow> bool" where
  "block_ok capacity rs \<longleftrightarrow> rs \<noteq> [] \<and> length (payload rs) \<le> capacity"

definition keys_sorted :: "run_record list \<Rightarrow> bool" where
  "keys_sorted rs \<longleftrightarrow> sorted_wrt (<) (map fst rs)"

lemma payload_simps [simp]: "payload [] = []" "payload (kv # rs) = frame kv @ payload rs" "payload (rs @ qs) = payload rs @ payload qs"
  by (simp_all add: payload_def)

lemma body_bytes_simps [simp]:
  "body_bytes sha [] = []" "body_bytes sha (b # bs) = block_bytes sha b @ body_bytes sha bs"
  "body_bytes sha (bs @ cs) = body_bytes sha bs @ body_bytes sha cs"
  by (simp_all add: body_bytes_def)

lemma length_frame [simp]: "length (frame kv) = 8 + length (fst kv) + length (snd kv)"
  by (simp add: frame_def record_frame_def)

lemma payload_length: "8 * length rs \<le> length (payload rs)"
  by (induction rs) simp_all

lemma payload_eq_Nil [simp]: "payload rs = [] \<longleftrightarrow> rs = []"
  using payload_length [of rs] by (cases rs) (auto dest: arg_cong [where f = length])

lemma keys_sorted_Cons: "keys_sorted (kv # rs) \<longleftrightarrow> (\<forall>x \<in> set rs. fst kv < fst x) \<and> keys_sorted rs"
  by (simp add: keys_sorted_def)

lemma keys_sorted_append:
  "keys_sorted (rs @ [(k, v)]) \<longleftrightarrow> keys_sorted rs \<and> (rs \<noteq> [] \<longrightarrow> fst (last rs) < k)"
proof (cases rs rule: rev_cases)
  case (snoc qs q)
  then show ?thesis by (auto simp: keys_sorted_def sorted_wrt_append intro: order_less_trans)
qed (simp add: keys_sorted_def)

section \<open>The writer\<close>

text \<open>The sparse index of blocks that start at a byte offset.\<close>

fun index_of :: "(bytes \<Rightarrow> bytes) \<Rightarrow> nat \<Rightarrow> run_record list list \<Rightarrow> sparse_run_block list" where
  "index_of sha offset [] = []"
| "index_of sha offset (b # bs) =
     \<lparr>sb_first_key = fst (hd b), sb_offset = of_nat offset\<rparr> # index_of sha (offset + length (block_bytes sha b)) bs"

lemma index_of_append:
  "index_of sha offset (bs @ cs) = index_of sha offset bs @ index_of sha (offset + length (body_bytes sha bs)) cs"
  by (induction bs arbitrary: offset) (simp_all add: add.assoc)

definition writer_inv :: "(bytes \<Rightarrow> bytes) \<Rightarrow> run_writer \<Rightarrow> run_record list list \<Rightarrow> run_record list \<Rightarrow> bool" where
  "writer_inv sha w bs pend \<longleftrightarrow>
     0 < rw_block_capacity w \<and> rw_block_capacity w < 2 ^ 32 \<and>
     rw_file w = header_bytes (rw_descriptor w) (rw_block_capacity w) @ body_bytes sha bs \<and>
     unat (rw_bytes_written w) = length (rw_file w) \<and>
     rw_block w = payload pend \<and> length (payload pend) \<le> rw_block_capacity w \<and>
     unat (rw_block_records w) = length pend \<and>
     unat (rw_total_records w) = length (concat bs @ pend) \<and>
     unat (rw_total_blocks w) = length bs \<and>
     (\<forall>b \<in> set bs. block_ok (rw_block_capacity w) b) \<and>
     keys_sorted (concat bs @ pend) \<and>
     rw_has_key w = (concat bs @ pend \<noteq> []) \<and>
     (rw_has_key w \<longrightarrow> rw_last_key w = fst (last (concat bs @ pend))) \<and>
     rw_sparse_index w = (if indexed_kind (rd_kind (rw_descriptor w)) then Some (index_of sha 28 bs) else None) \<and>
     (indexed_kind (rd_kind (rw_descriptor w)) \<and> pend \<noteq> [] \<longrightarrow> rw_block_first_key w = Some (fst (hd pend)))"

lemma unat_eqD: "unat w = n \<Longrightarrow> w = of_nat n" for w :: "'a::len word"
  using unat_lt_pow [of w] by (simp add: word_unat_eq_iff unat_of_nat)

lemma checked_add_one: "checked_add a 1 = Some c \<Longrightarrow> unat c = Suc (unat a)" for a :: "'a::len word"
proof -
  assume "checked_add a 1 = Some c"
  then have "unat a + unat (1 :: 'a word) < 2 ^ LENGTH('a)" "c = a + 1" by (simp_all add: checked_add_Some)
  then show ?thesis by (simp add: unat_word_ariths)
qed

lemma write_reserved_Inr:
  assumes "write_reserved grow bs w = Inr w'"
  shows "\<exists>n. w' = w\<lparr>rw_file := rw_file w @ bs, rw_bytes_written := n\<rparr> \<and> unat n = unat (rw_bytes_written w) + length bs"
proof -
  obtain n where n: "length bs < 2 ^ 64" "checked_add (rw_bytes_written w) (of_nat (length bs)) = Some n"
    "w' = w\<lparr>rw_file := rw_file w @ bs, rw_bytes_written := n\<rparr>"
    using assms by (auto simp: write_reserved_def res_bind_Inr_iff split: if_splits option.splits)
  from n(1) have len: "unat (of_nat (length bs) :: u64) = length bs" by (simp add: unat_of_nat)
  from n(2) have "unat (rw_bytes_written w) + length bs < 2 ^ 64" "n = rw_bytes_written w + of_nat (length bs)"
    by (simp_all add: checked_add_Some len)
  then have "unat n = unat (rw_bytes_written w) + length bs" by (simp add: unat_word_ariths len)
  with n(3) show ?thesis by blast
qed

lemma length_header_bytes [simp]: "length (header_bytes d c) = 28"
  by (simp add: header_bytes_def RUN_MAGIC_def)

lemma rw_new_inv:
  assumes "rw_new grow file reserved d capacity = Inr w"
  shows "writer_inv sha w [] [] \<and> rw_descriptor w = d \<and> rw_block_capacity w = capacity"
proof -
  let ?w = "\<lparr>rw_file = [], rw_descriptor = d, rw_block_capacity = capacity, rw_block = [],
                 rw_block_first_key = None, rw_block_records = 0, rw_total_records = 0, rw_total_blocks = 0,
                 rw_bytes_written = 0, rw_last_key = [], rw_has_key = False,
                 rw_sparse_index = (if indexed_kind (rd_kind d) then Some [] else None)\<rparr>"
  have c: "capacity \<noteq> 0" "capacity < 2 ^ 32" and wr: "write_reserved grow (header_bytes d capacity) ?w = Inr w"
    using assms by (auto simp: rw_new_def Let_def res_bind_Inr_iff encode_header_def u32_of_len_def header_bytes_def
        split: if_splits)
  from write_reserved_Inr [OF wr] show ?thesis
    using c by (auto simp: writer_inv_def keys_sorted_def)
qed

lemma flush_block_inv:
  assumes inv: "writer_inv sha w bs pend" and ne: "pend \<noteq> []" and fl: "flush_block sha grow w = Inr w'"
  shows "writer_inv sha w' (bs @ [pend]) [] \<and> rw_descriptor w' = rw_descriptor w \<and>
    rw_block_capacity w' = rw_block_capacity w \<and> rw_last_key w' = rw_last_key w"
proof -
  have blk: "rw_block w = payload pend" "payload pend \<noteq> []" using inv ne by (simp_all add: writer_inv_def)
  have len: "length (payload pend) < 2 ^ 32" using inv by (simp add: writer_inv_def)
  let ?h = "block_header sha (rw_block_records w) (of_nat (length (payload pend))) (payload pend)"
  obtain w1 w2 w3 total where steps: "index_block w = (Inr w1 :: ('a run_error, run_writer) res)"
      "write_reserved grow ?h w1 = Inr w2"
      "write_reserved grow (rw_block w2) (w2\<lparr>rw_block := []\<rparr>) = Inr w3"
      "checked_add (rw_total_blocks w3) 1 = Some total"
      "w' = w3\<lparr>rw_block_records := 0, rw_total_blocks := total\<rparr>"
    using fl blk len
    by (auto simp: flush_block_def res_bind_Inr_iff u32_of_len_def Let_def split: if_splits)
  have w1: "w1 = w \<or> (\<exists>x y. w1 = w\<lparr>rw_block_first_key := x, rw_sparse_index := y\<rparr>)"
    and idx: "rw_sparse_index w1 =
      (if indexed_kind (rd_kind (rw_descriptor w)) then Some (index_of sha 28 (bs @ [pend])) else None)"
  proof -
    have off: "rw_bytes_written w = of_nat (28 + length (body_bytes sha bs))"
      using inv by (intro unat_eqD) (simp add: writer_inv_def)
    show "w1 = w \<or> (\<exists>x y. w1 = w\<lparr>rw_block_first_key := x, rw_sparse_index := y\<rparr>)"
      using steps(1) by (auto simp: index_block_def split: option.splits)
    show "rw_sparse_index w1 =
      (if indexed_kind (rd_kind (rw_descriptor w)) then Some (index_of sha 28 (bs @ [pend])) else None)"
      using steps(1) inv ne off by (auto simp: index_block_def writer_inv_def index_of_append split: option.splits if_splits)
  qed
  obtain n2 where w2: "w2 = w1\<lparr>rw_file := rw_file w1 @ ?h, rw_bytes_written := n2\<rparr>"
    "unat n2 = unat (rw_bytes_written w1) + length ?h" using write_reserved_Inr [OF steps(2)] by blast
  obtain n3 where w3: "w3 = w2\<lparr>rw_block := [], rw_file := rw_file w2 @ rw_block w2, rw_bytes_written := n3\<rparr>"
    "unat n3 = unat n2 + length (rw_block w2)" using write_reserved_Inr [OF steps(3)] w2 by auto
  have recs: "rw_block_records w = of_nat (length pend)" using inv by (intro unat_eqD) (simp add: writer_inv_def)
  have total: "unat total = Suc (length bs)"
    using checked_add_one [OF steps(4)] inv w1 by (auto simp: writer_inv_def w2 w3)
  show ?thesis
    using inv ne w1 idx w2(2) w3(2) total blk(1) recs
    by (elim disjE exE) (simp_all add: writer_inv_def steps(5) w2(1) w3(1) block_bytes_def block_ok_def)
qed

lemma add_record_inv:
  assumes inv: "writer_inv sha w bs pend" and room: "length (payload pend) + (8 + length k + length v) \<le> rw_block_capacity w"
    and ord: "rw_has_key w \<Longrightarrow> rw_last_key w < k"
    and counts: "unat br = Suc (unat (rw_block_records w))" "unat tr = Suc (unat (rw_total_records w))"
    and fk: "indexed_kind (rd_kind (rw_descriptor w)) \<Longrightarrow> fk = (if pend = [] then Some k else rw_block_first_key w)"
  shows "writer_inv sha (w\<lparr>rw_block_first_key := fk, rw_block := rw_block w @ frame (k, v),
      rw_last_key := k, rw_has_key := True, rw_block_records := br, rw_total_records := tr\<rparr>) bs (pend @ [(k, v)])"
proof -
  have "keys_sorted (concat bs @ pend @ [(k, v)])"
    using inv ord keys_sorted_append [of "concat bs @ pend" k v] by (simp add: writer_inv_def del: append_is_Nil_conv)
  moreover have "indexed_kind (rd_kind (rw_descriptor w)) \<Longrightarrow> fk = Some (fst (hd (pend @ [(k, v)])))"
    using fk inv by (cases pend) (auto simp: writer_inv_def)
  ultimately show ?thesis using inv room counts by (simp add: writer_inv_def)
qed

lemma record_bytes_eq:
  "ok_or (Option.bind (usize_checked_add RECORD_LENGTH_BYTES a) (\<lambda>n. usize_checked_add n b)) e =
    (if 8 + a + b < 2 ^ 64 then Inr (8 + a + b) else Inl e)"
  by (simp add: usize_checked_add_def RECORD_LENGTH_BYTES_def)

lemma rw_append_Inr:
  fixes grow :: "'io grow"
  assumes "rw_append sha grow k v w = Inr w'"
  shows "8 + length k + length v \<le> rw_block_capacity w \<and> (\<exists>w1.
    (if rw_block w \<noteq> [] \<and> (case usize_checked_add (length (rw_block w)) (8 + length k + length v) of
        None \<Rightarrow> True | Some n \<Rightarrow> rw_block_capacity w < n) then flush_block sha grow w else Inr w) = Inr w1 \<and>
    push_record k (frame (k, v)) w1 = (Inr w' :: ('io run_error, run_writer) res))"
proof -
  have c: "\<not> (rw_has_key w \<and> k \<le> rw_last_key w)" "8 + length k + length v < 2 ^ 64" "length k < 2 ^ 32" "length v < 2 ^ 32"
    "\<not> rw_block_capacity w < 8 + length k + length v"
    using assms by (simp_all add: rw_append_def record_bytes_eq u32_of_len_def split: if_splits)
  show ?thesis
    using assms
    unfolding rw_append_def record_bytes_eq u32_of_len_def if_not_P [OF c(1)] if_P [OF c(2)] if_P [OF c(3)] if_P [OF c(4)]
      res_bind_simps if_not_P [OF c(5)] res_bind_Inr_iff frame_def fst_conv snd_conv
    by (intro conjI leI [OF c(5)])
qed

lemma rw_append_inv:
  fixes grow :: "'io grow"
  assumes inv: "writer_inv sha w bs pend" and ap: "rw_append sha grow k v w = Inr w'"
  shows "\<exists>bs' pend'. writer_inv sha w' bs' pend' \<and> concat bs' @ pend' = concat bs @ pend @ [(k, v)] \<and>
    rw_descriptor w' = rw_descriptor w \<and> rw_block_capacity w' = rw_block_capacity w"
proof -
  let ?n = "8 + length k + length v"
  let ?full = "rw_block w \<noteq> [] \<and> (case usize_checked_add (length (rw_block w)) ?n of None \<Rightarrow> True | Some n \<Rightarrow> rw_block_capacity w < n)"
  have ord: "rw_has_key w \<Longrightarrow> rw_last_key w < k" using ap by (auto simp: rw_append_def not_le split: if_splits)
  obtain w1 where st: "?n \<le> rw_block_capacity w"
      "(if ?full then flush_block sha grow w else Inr w) = Inr w1" and push: "push_record k (frame (k, v)) w1 = (Inr w' :: ('io run_error, run_writer) res)"
    using rw_append_Inr [OF ap] by blast
  obtain br tr where cnt: "checked_add (rw_block_records w1) 1 = Some br" "checked_add (rw_total_records w1) 1 = Some tr"
      and w': "w' = w1\<lparr>rw_block_first_key := (if rw_block w1 = [] \<and> rw_sparse_index w1 \<noteq> None then Some k else rw_block_first_key w1),
         rw_block := rw_block w1 @ frame (k, v), rw_last_key := k, rw_has_key := True,
         rw_block_records := br, rw_total_records := tr\<rparr>"
    using push by (auto simp: push_record_def res_bind_Inr_iff Let_def)
  obtain bs1 pend1 where one: "writer_inv sha w1 bs1 pend1" "concat bs1 @ pend1 = concat bs @ pend"
      "length (payload pend1) + ?n \<le> rw_block_capacity w" "rw_descriptor w1 = rw_descriptor w"
      "rw_block_capacity w1 = rw_block_capacity w" "rw_last_key w1 = rw_last_key w"
  proof (cases ?full)
    case True
    then have "flush_block sha grow w = Inr w1" "pend \<noteq> []" using st(2) inv by (auto simp: writer_inv_def)
    from flush_block_inv [OF inv this(2,1)] st(1) show ?thesis by (intro that [of "bs @ [pend]" "[]"]) auto
  next
    case False
    have "w1 = w" using st(2) unfolding if_not_P [OF False] by simp
    moreover have "length (payload pend) + ?n \<le> rw_block_capacity w"
      using False st(1) inv by (auto simp: writer_inv_def usize_checked_add_def split: if_splits)
    ultimately show ?thesis using inv by (intro that [of bs pend]) auto
  qed
  have hk: "rw_has_key w1 = rw_has_key w" using inv one(1,2) by (simp add: writer_inv_def)
  have "writer_inv sha w' bs1 (pend1 @ [(k, v)])"
    unfolding w'
    by (rule add_record_inv [OF one(1)])
      (use one ord hk checked_add_one [OF cnt(1)] checked_add_one [OF cnt(2)] in \<open>auto simp: writer_inv_def\<close>)
  then show ?thesis using one(2,4,5) w'
    by (intro exI [of _ bs1] exI [of _ "pend1 @ [(k, v)]"]) simp
qed

primrec append_all :: "(bytes \<Rightarrow> bytes) \<Rightarrow> 'io grow \<Rightarrow> run_record list \<Rightarrow> run_writer \<Rightarrow> ('io run_error, run_writer) res" where
  "append_all sha grow [] w = Inr w"
| "append_all sha grow (kv # rs) w = res_bind (rw_append sha grow (fst kv) (snd kv) w) (append_all sha grow rs)"

lemma append_all_inv:
  assumes "writer_inv sha w bs pend" "append_all sha grow rs w = Inr w'"
  shows "\<exists>bs' pend'. writer_inv sha w' bs' pend' \<and> concat bs' @ pend' = concat bs @ pend @ rs \<and>
    rw_descriptor w' = rw_descriptor w \<and> rw_block_capacity w' = rw_block_capacity w"
  using assms
proof (induction rs arbitrary: w bs pend)
  case Nil
  then show ?case by auto
next
  case (Cons kv rs)
  then obtain w1 where w1: "rw_append sha grow (fst kv) (snd kv) w = Inr w1" "append_all sha grow rs w1 = Inr w'"
    by (auto simp: res_bind_Inr_iff)
  obtain bs1 p1 where inv1: "writer_inv sha w1 bs1 p1" "concat bs1 @ p1 = concat bs @ pend @ [kv]"
    "rw_descriptor w1 = rw_descriptor w" "rw_block_capacity w1 = rw_block_capacity w"
    using rw_append_inv [OF Cons.prems(1) w1(1)] by auto
  obtain bs2 p2 where inv2: "writer_inv sha w' bs2 p2" "concat bs2 @ p2 = concat bs1 @ p1 @ rs"
    "rw_descriptor w' = rw_descriptor w1" "rw_block_capacity w' = rw_block_capacity w1"
    using Cons.IH [OF inv1(1) w1(2)] by blast
  have "concat bs2 @ p2 = concat bs @ pend @ kv # rs" using inv2(2) inv1(2) by (simp flip: append_assoc)
  with inv2 inv1 show ?case by (intro exI [of _ bs2] exI [of _ p2]) simp
qed

text \<open>What is on disk once a run is sealed.\<close>

definition run_bytes :: "(bytes \<Rightarrow> bytes) \<Rightarrow> run_descriptor \<Rightarrow> nat \<Rightarrow> run_record list list \<Rightarrow> bytes" where
  "run_bytes sha d capacity bs =
     header_bytes d capacity @ body_bytes sha bs @ encode_footer (of_nat (length (concat bs))) (of_nat (length bs))"

definition run_ok :: "nat \<Rightarrow> run_record list list \<Rightarrow> bool" where
  "run_ok capacity bs \<longleftrightarrow> 0 < capacity \<and> capacity < 2 ^ 32 \<and> (\<forall>b \<in> set bs. block_ok capacity b) \<and>
     keys_sorted (concat bs) \<and> length (concat bs) < 2 ^ 64 \<and> length bs < 2 ^ 64"

lemma rw_seal_bytes:
  assumes inv: "writer_inv sha w bs pend" and se: "rw_seal sha grow w = Inr run"
  shows "\<exists>bs'. concat bs' = concat bs @ pend \<and> run_ok (rw_block_capacity w) bs' \<and>
    sr_file run = run_bytes sha (rw_descriptor w) (rw_block_capacity w) bs' \<and> sr_descriptor run = rw_descriptor w \<and>
    unat (sr_bytes run) = length (sr_file run) \<and>
    sr_sparse_index run =
      (if indexed_kind (rd_kind (rw_descriptor w)) then Some (rw_block_capacity w, index_of sha 28 bs') else None)"
proof -
  obtain w1 w2 where st: "flush_block sha grow w = Inr w1"
    "write_reserved grow (encode_footer (rw_total_records w1) (rw_total_blocks w1)) w1 = Inr w2"
    "run = \<lparr>sr_file = rw_file w2, sr_descriptor = rw_descriptor w2, sr_bytes = rw_bytes_written w2,
            sr_sparse_index = map_option (\<lambda>blocks. (rw_block_capacity w2, blocks)) (rw_sparse_index w2)\<rparr>"
    using se by (auto simp: rw_seal_def res_bind_Inr_iff)
  obtain bs1 where one: "writer_inv sha w1 bs1 []" "concat bs1 = concat bs @ pend" "rw_descriptor w1 = rw_descriptor w"
      "rw_block_capacity w1 = rw_block_capacity w"
  proof (cases "pend = []")
    case True
    then have "w1 = w" using st(1) inv by (simp add: flush_block_def writer_inv_def)
    with inv True show ?thesis by (intro that [of bs]) auto
  next
    case False
    from flush_block_inv [OF inv False st(1)] show ?thesis by (intro that [of "bs @ [pend]"]) auto
  qed
  obtain n where w2: "w2 = w1\<lparr>rw_file := rw_file w1 @ encode_footer (rw_total_records w1) (rw_total_blocks w1), rw_bytes_written := n\<rparr>"
    "unat n = unat (rw_bytes_written w1) + length (encode_footer (rw_total_records w1) (rw_total_blocks w1))"
    using write_reserved_Inr [OF st(2)] by blast
  have tot: "rw_total_records w1 = of_nat (length (concat bs1))" "rw_total_blocks w1 = of_nat (length bs1)"
    using one(1) by (intro unat_eqD; simp add: writer_inv_def)+
  have "length (concat bs1) < 2 ^ 64" "length bs1 < 2 ^ 64"
    using one(1) unat_lt_pow [of "rw_total_records w1"] unat_lt_pow [of "rw_total_blocks w1"] by (simp_all add: writer_inv_def)
  then have "run_ok (rw_block_capacity w) bs1" using one by (simp add: run_ok_def writer_inv_def)
  moreover have "rw_file w2 = run_bytes sha (rw_descriptor w) (rw_block_capacity w) bs1"
    using one unfolding tot w2(1) by (simp add: run_bytes_def writer_inv_def)
  moreover have "unat n = length (rw_file w2)" using one(1) w2 by (simp add: writer_inv_def)
  moreover have "rw_sparse_index w1 = (if indexed_kind (rd_kind (rw_descriptor w)) then Some (index_of sha 28 bs1) else None)"
    using one(1,3) by (simp add: writer_inv_def)
  ultimately show ?thesis
    using one(2-4) w2(1) by (intro exI [of _ bs1]) (simp add: st(3))
qed

text \<open>The whole of writing a run.\<close>

definition write_run :: "(bytes \<Rightarrow> bytes) \<Rightarrow> 'io grow \<Rightarrow> run_descriptor \<Rightarrow> nat \<Rightarrow> run_record list \<Rightarrow> ('io run_error, sealed_run) res" where
  "write_run sha grow d capacity rs =
     res_bind (rw_new grow [] 0 d capacity) (\<lambda>w.
     res_bind (append_all sha grow rs w) (rw_seal sha grow))"

lemma sealed_run_bytes:
  assumes "write_run sha grow d capacity rs = Inr run"
  shows "\<exists>bs. concat bs = rs \<and> run_ok capacity bs \<and> sr_file run = run_bytes sha d capacity bs \<and> sr_descriptor run = d \<and>
    unat (sr_bytes run) = length (sr_file run) \<and>
    sr_sparse_index run = (if indexed_kind (rd_kind d) then Some (capacity, index_of sha 28 bs) else None)"
proof -
  obtain w w1 where st: "rw_new grow [] 0 d capacity = Inr w" "append_all sha grow rs w = Inr w1" "rw_seal sha grow w1 = Inr run"
    using assms by (auto simp: write_run_def res_bind_Inr_iff)
  note new = rw_new_inv [OF st(1), of sha]
  obtain bs pend where inv: "writer_inv sha w1 bs pend" "concat bs @ pend = rs"
    "rw_descriptor w1 = d" "rw_block_capacity w1 = capacity"
    using append_all_inv [OF conjunct1 [OF new] st(2)] new by auto
  from rw_seal_bytes [OF inv(1) st(3)] show ?thesis unfolding inv(2-4) .
qed

section \<open>Reading a record\<close>

lemma read_length_at:
  assumes "drop cursor block = u32_le n @ rest" "cursor \<le> length block" "length block < 2 ^ 32"
  shows "read_length block cursor = Inr (unat n, cursor + 4)" "drop (cursor + 4) block = rest" "cursor + 4 \<le> length block"
proof -
  have len: "length block - cursor = 4 + length rest" using arg_cong [OF assms(1), of length] by simp
  then show "cursor + 4 \<le> length block" using assms(2) by simp
  then show "read_length block cursor = Inr (unat n, cursor + 4)"
    using assms by (simp add: read_length_def usize_checked_add_def)
  show "drop (cursor + 4) block = rest" using assms(1) by (metis add.commute append_eq_conv_conj drop_drop length_int_le(2))
qed

lemma parse_frame:
  assumes at: "drop cursor block = frame (k, v) @ rest" and cur: "cursor \<le> length block" "length block < 2 ^ 32"
    and ord: "has_key \<Longrightarrow> last_key < k" and rec: "records \<noteq> 0" "records = 1 \<Longrightarrow> rest = []"
  shows "parse_record block cursor has_key last_key records =
      Inr ((k, v), cursor + length (frame (k, v)), records - 1)"
    and "drop (cursor + length (frame (k, v))) block = rest" "cursor + length (frame (k, v)) \<le> length block"
proof -
  have len: "length block - cursor = length (frame (k, v)) + length rest" using arg_cong [OF at, of length] by simp
  then show le: "cursor + length (frame (k, v)) \<le> length block" using cur(1) by simp
  show dr: "drop (cursor + length (frame (k, v))) block = rest"
    using at by (metis add.commute append_eq_conv_conj drop_drop)
  have small: "length k < 2 ^ 32" "length v < 2 ^ 32" using le cur(2) by simp_all
  have at1: "drop cursor block = u32_le (of_nat (length k)) @ u32_le (of_nat (length v)) @ k @ v @ rest"
    using at by (simp add: frame_def record_frame_def)
  note r1 = read_length_at [OF at1 cur]
  note r2 = read_length_at [OF r1(2,3) cur(2)]
  have k: "take (length k) (drop (cursor + 4 + 4) block) = k" using r2(2) by simp
  have v: "take (length v) (drop (cursor + 4 + 4 + length k) block) = v"
    using r2(2) by (metis add.commute append_eq_conv_conj drop_drop)
  have un: "unat (of_nat (length k) :: u32) = length k" "unat (of_nat (length v) :: u32) = length v"
    using small by (simp_all add: unat_of_nat)
  have last: "\<not> (records - 1 = 0 \<and> cursor + (8 + (length k + length v)) \<noteq> length block)"
    using rec(2) len cur(1) by auto
  have fit: "cursor + (8 + length k) < 2 ^ 64" "cursor + (8 + (length k + length v)) < 2 ^ 64"
    "\<not> length block < cursor + (8 + (length k + length v))" "\<not> (has_key \<and> k \<le> last_key)"
    using le cur(2) ord by auto
  have kv: "take (length k) (drop (cursor + 8) block) = k" "take (length v) (drop (cursor + (8 + length k)) block) = v"
    using k v by (simp_all add: add.assoc)
  show "parse_record block cursor has_key last_key records =
      Inr ((k, v), cursor + length (frame (k, v)), records - 1)"
    unfolding parse_record_def r1(1) res_bind_simps prod.case r2(1) un usize_checked_add_def Let_def
    using fit last rec(1) by (simp add: add.assoc kv)
qed

section \<open>The sequential reader\<close>

definition reader_at :: "(bytes \<Rightarrow> bytes) \<Rightarrow> run_reader \<Rightarrow> run_record list \<Rightarrow> run_record list list \<Rightarrow> nat \<Rightarrow> nat \<Rightarrow> bool" where
  "reader_at sha r rs bs N B \<longleftrightarrow>
     \<not> rr_finished r \<and> rr_input r = body_bytes sha bs @ encode_footer (of_nat N) (of_nat B) \<and>
     rr_block_capacity r < 2 ^ 32 \<and> length (rr_block r) \<le> rr_block_capacity r \<and>
     drop (rr_block_cursor r) (rr_block r) = payload rs \<and> rr_block_cursor r \<le> length (rr_block r) \<and>
     unat (rr_block_records r) = length rs \<and>
     unat (rr_total_records r) + length (rs @ concat bs) = N \<and> unat (rr_total_blocks r) + length bs = B \<and>
     N < 2 ^ 64 \<and> B < 2 ^ 64 \<and> (\<forall>b \<in> set bs. block_ok (rr_block_capacity r) b) \<and>
     keys_sorted (rs @ concat bs) \<and>
     (rr_has_key r \<longrightarrow> (\<forall>kv \<in> set (rs @ concat bs). rr_last_key r < fst kv))"

lemma unat_minus_1: "w \<noteq> 0 \<Longrightarrow> unat (w - 1) = unat w - 1" for w :: "'a::len word"
  by (simp add: unat_minus_one)

lemma checked_add_one_Some: "unat w < 2 ^ LENGTH('a) - 1 \<Longrightarrow> checked_add w 1 = Some (w + 1) \<and> unat (w + 1) = Suc (unat w)"
  for w :: "'a::len word"
  by (simp add: checked_add_Some unat_word_ariths)

lemma rr_take_record_at:
  assumes at: "reader_at sha r ((k, v) # rs) bs N B"
  shows "\<exists>r'. rr_take_record r = (Inr (Some (k, v), r') :: ('io run_error, _) res) \<and> reader_at sha r' rs bs N B"
proof -
  note a = at [unfolded reader_at_def]
  have len: "length (rr_block r) < 2 ^ 32" using a by linarith
  have rec: "rr_block_records r \<noteq> 0" "rr_block_records r = 1 \<Longrightarrow> payload rs = []" using a by auto
  have ord: "rr_has_key r \<Longrightarrow> rr_last_key r < k" using a by simp
  have d: "drop (rr_block_cursor r) (rr_block r) = frame (k, v) @ payload rs" using a by simp
  have cur: "rr_block_cursor r \<le> length (rr_block r)" using a by simp
  note p = parse_frame [OF d cur len ord rec(1) rec(2)]
  let ?r = "r\<lparr>rr_last_key := k, rr_has_key := True, rr_block_cursor := rr_block_cursor r + length (frame (k, v)),
      rr_block_records := rr_block_records r - 1, rr_total_records := rr_total_records r + 1\<rparr>"
  have tot: "checked_add (rr_total_records r) 1 = Some (rr_total_records r + 1)"
    "unat (rr_total_records r + 1) = Suc (unat (rr_total_records r))"
    using checked_add_one_Some [of "rr_total_records r"] a by simp_all
  have "rr_take_record r = (Inr (Some (k, v), ?r) :: ('io run_error, _) res)"
    by (simp add: rr_take_record_def p(1) tot(1))
  moreover have "unat (rr_block_records r - 1) = length rs" using a rec(1) by (simp add: unat_minus_1)
  moreover have "\<forall>kv \<in> set (rs @ concat bs). k < fst kv" "keys_sorted (rs @ concat bs)"
    using a by (simp_all add: keys_sorted_Cons)
  ultimately show ?thesis using a p(2,3) tot by (intro exI [of _ ?r]) (simp add: reader_at_def)
qed

lemma read_block_at:
  assumes "block_ok capacity b" "capacity < 2 ^ 32" "\<And>x. length (sha x) = 32"
  shows "read_block sha capacity (drop 4 (block_bytes sha b) @ rest) = Inr (of_nat (length b), payload b, rest)"
    "take 4 (block_bytes sha b @ rest) = BLOCK_MAGIC" "length b < 2 ^ 32"
proof -
  have len: "length (payload b) \<le> capacity" "b \<noteq> []" using assms(1) by (simp_all add: block_ok_def)
  have small: "length (payload b) < 2 ^ 32" using len assms(2) by linarith
  then show lb: "length b < 2 ^ 32" using payload_length [of b] by linarith
  have un: "unat (of_nat (length (payload b)) :: u32) = length (payload b)" "unat (of_nat (length b) :: u32) = length b"
    using small lb by (simp_all add: unat_of_nat)
  have nz: "(of_nat (length b) :: u32) \<noteq> 0" "(of_nat (length (payload b)) :: u32) \<noteq> 0"
    using un len(2) by (metis length_0_conv unat_0, metis length_0_conv payload_eq_Nil unat_0)
  have "drop 4 (block_bytes sha b) = u32_le (of_nat (length b)) @ u32_le (of_nat (length (payload b))) @ sha (payload b) @ payload b"
    by (simp add: block_bytes_def block_header_def BLOCK_MAGIC_def)
  then show "read_block sha capacity (drop 4 (block_bytes sha b) @ rest) = Inr (of_nat (length b), payload b, rest)"
    using nz un len(1) assms(3) by (simp add: read_block_def)
  show "take 4 (block_bytes sha b @ rest) = BLOCK_MAGIC" by (simp add: block_bytes_def block_header_def BLOCK_MAGIC_def)
qed

lemma take_tag: "take_bytes e 4 (block_bytes sha b @ rest) = Inr (BLOCK_MAGIC, drop 4 (block_bytes sha b) @ rest)"
  by (simp add: take_bytes_def block_bytes_def block_header_def BLOCK_MAGIC_def)

lemma take_footer_tag: "take_bytes e 4 (encode_footer n b) = Inr (FOOTER_MAGIC, u64_le n @ u64_le b)"
  by (simp add: take_bytes_def encode_footer_def FOOTER_MAGIC_def)

lemma magic_neq [simp]: "BLOCK_MAGIC \<noteq> FOOTER_MAGIC"
  by (simp add: BLOCK_MAGIC_def FOOTER_MAGIC_def)

lemma rr_load_at:
  assumes at: "reader_at sha r [] (b # bs) N B" and sha: "\<And>x. length (sha x) = 32" and run: "\<And>n. running n = None"
  shows "\<exists>r'. rr_load_next_block sha running r = Inr (True, r') \<and> reader_at sha r' b bs N B"
proof -
  note a = at [unfolded reader_at_def]
  have b: "block_ok (rr_block_capacity r) b" "rr_block_capacity r < 2 ^ 32" using a by auto
  note rb = read_block_at [where sha = sha, OF b sha]
  have tot: "checked_add (rr_total_blocks r) 1 = Some (rr_total_blocks r + 1)"
    "unat (rr_total_blocks r + 1) = Suc (unat (rr_total_blocks r))"
    using checked_add_one_Some [of "rr_total_blocks r"] a by simp_all
  let ?r = "r\<lparr>rr_input := body_bytes sha bs @ encode_footer (of_nat N) (of_nat B), rr_block := payload b,
      rr_block_cursor := 0, rr_block_records := of_nat (length b), rr_total_blocks := rr_total_blocks r + 1\<rparr>"
  have "rr_load_next_block sha running r = Inr (True, ?r)"
    using a by (simp add: rr_load_next_block_def take_tag run rb(1) tot(1))
  moreover have "unat (of_nat (length b) :: u32) = length b" using rb(3) by (simp add: unat_of_nat)
  ultimately show ?thesis using a b(1) tot by (intro exI [of _ ?r]) (simp add: reader_at_def block_ok_def)
qed

lemma rr_load_end:
  assumes at: "reader_at sha r [] [] N B" and run: "\<And>n. running n = None"
  shows "rr_load_next_block sha running r = Inr (False, r\<lparr>rr_input := [], rr_finished := True\<rparr>)"
proof -
  have "rr_total_records r = of_nat N" "rr_total_blocks r = of_nat B"
    using at by (intro unat_eqD; simp add: reader_at_def)+
  then show ?thesis using at run by (simp add: rr_load_next_block_def reader_at_def take_footer_tag)
qed

lemma reader_at_consumed [simp]: "reader_at sha (r\<lparr>rr_consumed := c\<rparr>) rs bs N B \<longleftrightarrow> reader_at sha r rs bs N B"
  by (simp add: reader_at_def)

lemma rr_next_at:
  fixes running :: "u64 \<Rightarrow> 'io option"
  assumes at: "reader_at sha r rs bs N B" and sha: "\<And>x. length (sha x) = 32" and run: "\<And>n. running n = None"
    and some: "rs @ concat bs = kv # rest"
  shows "\<exists>r' rs' bs'. rr_next_record sha running r = Inr (Some kv, r') \<and> reader_at sha r' rs' bs' N B \<and>
    rs' @ concat bs' = rest"
proof -
  let ?r = "r\<lparr>rr_consumed := True\<rparr>"
  have at': "reader_at sha ?r rs bs N B" using at by simp
  have fin: "\<not> rr_finished r" using at by (simp add: reader_at_def)
  show ?thesis
  proof (cases rs)
    case (Cons x rs')
    with some have x: "x = kv" by simp
    obtain k v where kv: "kv = (k, v)" by fastforce
    have "rr_block_records ?r \<noteq> 0" using at' Cons by (auto simp: reader_at_def)
    moreover obtain r' where "rr_take_record ?r = (Inr (Some kv, r') :: ('io run_error, _) res)" "reader_at sha r' rs' bs N B"
      using rr_take_record_at [of sha ?r k v rs' bs N B] at' Cons x kv by auto
    ultimately show ?thesis using fin some Cons by (auto simp: rr_next_record_def Let_def)
  next
    case Nil
    have z: "rr_block_records ?r = 0" using at' Nil by (simp add: reader_at_def unat_eq_0)
    obtain b bs' where bs: "bs = b # bs'" using some Nil by (cases bs) auto
    have "b \<noteq> []" using at bs by (simp add: reader_at_def block_ok_def)
    then obtain rs' where b: "b = kv # rs'" "rest = rs' @ concat bs'" using some Nil bs by (cases b) auto
    obtain r1 where r1: "rr_load_next_block sha running ?r = Inr (True, r1)" "reader_at sha r1 b bs' N B"
      using rr_load_at [of sha ?r b bs' N B running] at' Nil bs sha run by auto
    obtain k v where kv: "kv = (k, v)" by fastforce
    obtain r' where "rr_take_record r1 = (Inr (Some kv, r') :: ('io run_error, _) res)" "reader_at sha r' rs' bs' N B"
      using rr_take_record_at [of sha r1 k v rs' bs' N B] r1(2) b(1) kv by auto
    then show ?thesis using fin z r1(1) b(2) by (auto simp: rr_next_record_def Let_def)
  qed
qed

lemma rr_next_end:
  assumes at: "reader_at sha r rs bs N B" and run: "\<And>n. running n = None" and none: "rs @ concat bs = []"
  shows "\<exists>r'. rr_next_record sha running r = Inr (None, r') \<and> rr_finished r'"
proof -
  let ?r = "r\<lparr>rr_consumed := True\<rparr>"
  have "bs = []"
  proof (cases bs)
    case (Cons b bs')
    with at have "b \<noteq> []" by (simp add: reader_at_def block_ok_def)
    with none Cons show ?thesis by simp
  qed simp
  with none at have at': "reader_at sha ?r [] [] N B" by simp
  then have "rr_block_records ?r = 0" "\<not> rr_finished r" by (simp_all add: reader_at_def unat_eq_0)
  then show ?thesis using rr_load_end [OF at' run] by (simp add: rr_next_record_def Let_def)
qed

primrec visit_all :: "(bytes \<Rightarrow> bytes \<Rightarrow> 's \<Rightarrow> ('e, 's) res) \<Rightarrow> run_record list \<Rightarrow> 's \<Rightarrow> ('e, 's) res" where
  "visit_all visit [] s = Inr s"
| "visit_all visit (kv # rs) s = res_bind (visit (fst kv) (snd kv) s) (visit_all visit rs)"

lemma rr_visit_at:
  assumes "reader_at sha r rs bs N B" "\<And>x. length (sha x) = 32" "\<And>n. running n = None"
  shows "\<exists>r'. rr_finished r' \<and> rr_visit sha running from_err visit r s =
    res_bind (visit_all visit (rs @ concat bs) s) (\<lambda>s. Inr (s, r'))"
  using assms
proof (induction "rs @ concat bs" arbitrary: rs bs r s)
  case Nil
  from rr_next_end [where running = running, OF Nil.prems(1,3) Nil.hyps [symmetric]]
  obtain r' where "rr_next_record sha running r = Inr (None, r')" "rr_finished r'" by blast
  then show ?case by (intro exI [of _ r']) (simp add: rr_visit.simps [of _ _ _ _ r] flip: Nil.hyps)
next
  case (Cons kv rest)
  obtain r' rs' bs' where n: "rr_next_record sha running r = Inr (Some kv, r')" "reader_at sha r' rs' bs' N B" "rest = rs' @ concat bs'"
    using rr_next_at [where running = running, OF Cons.prems Cons.hyps(2) [symmetric]] by blast
  show ?case
  proof (cases "visit (fst kv) (snd kv) s")
    case (Inl e)
    obtain r2 :: run_reader where "rr_finished r2"
      using Cons.hyps(1) [OF n(3,2) assms(2,3)] by blast
    then show ?thesis
      using Inl n(1) by (intro exI [of _ r2]) (simp add: rr_visit.simps [of _ _ _ _ r] flip: Cons.hyps(2))
  next
    case (Inr s')
    from Cons.hyps(1) [OF n(3,2) assms(2,3)] obtain r2 where "rr_finished r2"
      "rr_visit sha running from_err visit r' s' = res_bind (visit_all visit (rs' @ concat bs') s') (\<lambda>s. Inr (s, r2))" by blast
    then show ?thesis
      using Inr n(1,3) by (intro exI [of _ r2]) (simp add: rr_visit.simps [of _ _ _ _ r] flip: Cons.hyps(2))
  qed
qed

section \<open>Opening\<close>

lemma run_kind_code_inverse [simp]: "run_kind_from_code (run_kind_code k) = Some k"
  by (cases k) (simp_all add: run_kind_from_code_def)

lemma decode_header_bytes:
  assumes "0 < capacity" "capacity < 2 ^ 32"
  shows "decode_header (header_bytes d capacity @ rest) = (Inr ((d, capacity), rest) :: ('io run_error, _) res)"
proof -
  have cap: "unat (of_nat capacity :: u32) = capacity" using assms(2) by (simp add: unat_of_nat)
  have tb: "take_bytes e HEADER_BYTES (header_bytes d capacity @ rest) = Inr (header_bytes d capacity, rest)" for e :: "'io run_error"
    by (rule take_bytes_append) (simp add: HEADER_BYTES_def)
  have fields: "take 4 (header_bytes d capacity) = RUN_MAGIC" "take 2 (drop 4 (header_bytes d capacity)) = u16_le RUN_VERSION"
    "header_bytes d capacity ! 6 = run_kind_code (rd_kind d)" "header_bytes d capacity ! 7 = 0"
    "take 8 (drop 8 (header_bytes d capacity)) = u64_le (rd_generation d)"
    "take 8 (drop 16 (header_bytes d capacity)) = u64_le (rd_run_id d)"
    "take 4 (drop 24 (header_bytes d capacity)) = u32_le (of_nat capacity)"
    by (simp_all add: header_bytes_def RUN_MAGIC_def nth_append)
  show ?thesis using assms(1) by (simp add: decode_header_def tb fields cap)
qed

lemma rr_open_run:
  assumes "run_ok capacity bs"
  shows "\<exists>r. rr_open (run_bytes sha d capacity bs) = Inr r \<and> rr_descriptor r = d \<and> \<not> rr_consumed r \<and>
    reader_at sha r [] bs (length (concat bs)) (length bs)"
  using assms by (simp add: rr_open_def run_bytes_def decode_header_bytes run_ok_def reader_at_def)

lemma rr_visit_records:
  fixes running :: "u64 \<Rightarrow> 'io option"
  assumes "run_ok capacity bs" "\<And>x. length (sha x) = 32" "\<And>n. running n = None"
  shows "\<exists>r r'. rr_open (run_bytes sha d capacity bs) = (Inr r :: ('io run_error, run_reader) res) \<and> rr_descriptor r = d \<and> rr_finished r' \<and>
    rr_visit sha running from_err visit r s = res_bind (visit_all visit (concat bs) s) (\<lambda>s. Inr (s, r'))"
proof -
  obtain r where r: "rr_open (run_bytes sha d capacity bs) = (Inr r :: ('io run_error, run_reader) res)" "rr_descriptor r = d"
    "reader_at sha r [] bs (length (concat bs)) (length bs)"
    using rr_open_run [OF assms(1)] by blast
  from rr_visit_at [where sha = sha and running = running and from_err = from_err and visit = visit and s = s,
      OF r(3) assms(2,3)]
  obtain r' where "rr_finished r'"
    "rr_visit sha running from_err visit r s = res_bind (visit_all visit (concat bs) s) (\<lambda>s. Inr (s, r'))" by auto
  with r(1,2) show ?thesis by blast
qed

section \<open>Passes over arbitrary bytes\<close>

definition collect :: "bytes \<Rightarrow> bytes \<Rightarrow> run_record list \<Rightarrow> ('e, run_record list) res" where
  "collect k v acc = Inr (acc @ [(k, v)])"

lemma visit_all_collect: "visit_all collect rs acc = Inr (acc @ rs)"
  by (induction rs arbitrary: acc) (simp_all add: collect_def)

text \<open>The reader remembers the last key and refuses any key that is not greater.\<close>

definition key_memory :: "run_reader \<Rightarrow> run_record list \<Rightarrow> bool" where
  "key_memory r acc \<longleftrightarrow> keys_sorted acc \<and> (acc \<noteq> [] \<longrightarrow> rr_has_key r \<and> rr_last_key r = fst (last acc))"

lemma parse_record_key:
  "parse_record block cursor has_key last_key records = Inr ((k, v), c, n) \<Longrightarrow> has_key \<longrightarrow> last_key < k"
  by (auto simp: parse_record_def res_bind_Inr_iff Let_def not_le split: if_splits)

lemma rr_load_keys:
  "rr_load_next_block sha running r = Inr (b, r') \<Longrightarrow> rr_has_key r' = rr_has_key r \<and> rr_last_key r' = rr_last_key r"
  by (auto simp: rr_load_next_block_def res_bind_Inr_iff split: option.splits if_splits)

lemma rr_take_keys:
  assumes "rr_take_record r = Inr (kv, r')" "key_memory r acc"
  shows "\<exists>k v. kv = Some (k, v) \<and> key_memory r' (acc @ [(k, v)])"
  using assms
  by (auto simp: rr_take_record_def res_bind_Inr_iff key_memory_def keys_sorted_append dest!: parse_record_key)

lemma rr_next_keys:
  fixes running :: "u64 \<Rightarrow> 'io option"
  assumes "rr_next_record sha running r = Inr (Some kv, r')" "key_memory r acc"
  shows "key_memory r' (acc @ [kv])"
proof -
  have mem: "key_memory (r\<lparr>rr_consumed := True\<rparr>) acc" using assms(2) by (simp add: key_memory_def)
  obtain r1 where r1: "rr_take_record r1 = (Inr (Some kv, r') :: ('io run_error, _) res)" "rr_has_key r1 = rr_has_key r" "rr_last_key r1 = rr_last_key r"
    using assms(1)
    by (auto simp: rr_next_record_def Let_def res_bind_Inr_iff split: if_splits dest!: rr_load_keys)
  then have "key_memory r1 acc" using mem by (simp add: key_memory_def)
  from rr_take_keys [OF r1(1) this] show ?thesis by auto
qed

lemma rr_visit_collect_sorted:
  fixes running :: "u64 \<Rightarrow> 'io option" and from_err :: "'io run_error \<Rightarrow> 'e"
  shows "rr_visit sha running from_err collect r acc = Inr (rs, r') \<Longrightarrow> key_memory r acc \<Longrightarrow> keys_sorted rs"
proof (induction sha running from_err "collect :: bytes \<Rightarrow> bytes \<Rightarrow> run_record list \<Rightarrow> ('e, run_record list) res" r acc
    rule: rr_visit.induct)
  case (1 sha running from_err r acc)
  show ?case
  proof (cases "rr_next_record sha running r")
    case (Inl e)
    with "1.prems" show ?thesis by (simp add: rr_visit.simps [of _ _ _ _ r])
  next
    case (Inr p)
    obtain o1 r1 where p: "p = (o1, r1)" by fastforce
    show ?thesis
    proof (cases o1)
      case None
      with "1.prems" Inr p show ?thesis by (simp add: rr_visit.simps [of _ _ _ _ r] key_memory_def)
    next
      case (Some kv)
      with Inr p have n: "rr_next_record sha running r = Inr (Some kv, r1)" by simp
      have v: "collect (fst kv) (snd kv) acc = (Inr (acc @ [kv]) :: ('e, run_record list) res)" by (simp add: collect_def)
      have "rr_visit sha running from_err collect r1 (acc @ [kv]) = Inr (rs, r')"
        using "1.prems"(1) n v by (simp add: rr_visit.simps [of _ _ _ _ r])
      from "1.hyps" [OF Inr p [symmetric] Some v this rr_next_keys [OF n "1.prems"(2)]] show ?thesis .
    qed
  qed
qed

lemma rr_visit_sorted:
  assumes "rr_open file = (Inr r :: ('io run_error, run_reader) res)"
    "rr_visit sha (running :: u64 \<Rightarrow> 'io option) from_err collect r [] = Inr (rs, r')"
  shows "keys_sorted rs"
proof -
  have "key_memory r []" by (simp add: key_memory_def keys_sorted_def)
  from rr_visit_collect_sorted [OF assms(2) this] show ?thesis .
qed

text \<open>More bytes after a file that a pass accepts make the pass fail.\<close>

abbreviation more_input :: "bytes \<Rightarrow> run_reader \<Rightarrow> run_reader" where
  "more_input x r \<equiv> r\<lparr>rr_input := rr_input r @ x\<rparr>"

lemma read_block_more:
  "read_block sha c input = (Inr (n, p, rest) :: ('io run_error, _) res) \<Longrightarrow>
   read_block sha c (input @ x) = (Inr (n, p, rest @ x) :: ('io run_error, _) res)"
  by (auto simp: read_block_def res_bind_Inr_iff take_int_Inr_iff take_bytes_Inr_iff split: if_splits)

lemma rr_load_more:
  assumes "rr_load_next_block sha running r = Inr (b, r')" "x \<noteq> []"
  shows "rr_load_next_block sha running (more_input x r) = (if b then Inr (True, more_input x r') else Inl TrailingData)"
proof -
  obtain tag input where t: "rr_input r = tag @ input" "length tag = 4" "running (rr_total_blocks r) = None"
    using assms(1) by (auto simp: rr_load_next_block_def res_bind_Inr_iff take_bytes_Inr_iff split: option.splits)
  have tb: "take_bytes Truncated 4 (tag @ input @ y) = (Inr (tag, input @ y) :: ('a run_error, _) res)" for y
    using t(2) by (simp add: take_bytes_def)
  show ?thesis
  proof (cases "tag = FOOTER_MAGIC")
    case True
    then show ?thesis
      using assms t tb [of "[]"] tb [of x]
      by (auto simp: rr_load_next_block_def res_bind_Inr_iff take_int_Inr_iff split: if_splits)
  next
    case False
    then obtain n p rest where rb: "tag = BLOCK_MAGIC" "b"
      "read_block sha (rr_block_capacity r) input = (Inr (n, p, rest) :: ('a run_error, _) res)"
      using assms(1) t tb [of "[]"]
      by (auto simp: rr_load_next_block_def res_bind_Inr_iff split: if_splits)
    show ?thesis
      using assms(1) False t tb [of "[]"] tb [of x] rb read_block_more [OF rb(3), of x]
      by (auto simp: rr_load_next_block_def res_bind_Inr_iff split: if_splits)
  qed
qed

lemma rr_take_more: "rr_take_record r = (Inr (kv, r') :: ('io run_error, _) res) \<Longrightarrow>
    rr_take_record (more_input x r) = (Inr (kv, more_input x r') :: ('io run_error, _) res)"
  by (auto simp: rr_take_record_def res_bind_Inr_iff)

lemma rr_next_more:
  fixes running :: "u64 \<Rightarrow> 'io option"
  assumes "rr_next_record sha running r = Inr (o1, r')" "x \<noteq> []" "\<not> rr_finished r"
  shows "rr_next_record sha running (more_input x r) =
    (case o1 of None \<Rightarrow> Inl TrailingData | Some kv \<Rightarrow> Inr (Some kv, more_input x r'))"
proof (cases "rr_block_records r = 0")
  case True
  let ?r = "r\<lparr>rr_consumed := True\<rparr>"
  obtain b r1 where l: "rr_load_next_block sha running ?r = Inr (b, r1)"
    "(if b then rr_take_record r1 else Inr (None, r1)) = (Inr (o1, r') :: ('io run_error, _) res)"
    using assms(1,3) True by (auto simp: rr_next_record_def Let_def res_bind_Inr_iff split: if_splits)
  have c: "more_input x ?r = (more_input x r)\<lparr>rr_consumed := True\<rparr>" by simp
  note m = rr_load_more [OF l(1) assms(2), unfolded c]
  show ?thesis
  proof (cases b)
    case False
    with l(2) m True assms(3) show ?thesis by (auto simp: rr_next_record_def Let_def)
  next
    case b: True
    with l(2) have t: "rr_take_record r1 = (Inr (o1, r') :: ('io run_error, _) res)" by simp
    then obtain kv where "o1 = Some kv" by (auto simp: rr_take_record_def res_bind_Inr_iff)
    with b m True assms(3) rr_take_more [OF t, of x] show ?thesis by (simp add: rr_next_record_def Let_def)
  qed
next
  case False
  let ?r = "r\<lparr>rr_consumed := True\<rparr>"
  have t: "rr_take_record ?r = (Inr (o1, r') :: ('io run_error, _) res)"
    using assms(1,3) False by (simp add: rr_next_record_def Let_def)
  then obtain kv where "o1 = Some kv" by (auto simp: rr_take_record_def res_bind_Inr_iff)
  have c: "more_input x ?r = (more_input x r)\<lparr>rr_consumed := True\<rparr>" by simp
  from rr_take_more [OF t, of x, unfolded c] \<open>o1 = Some kv\<close> False assms(3) show ?thesis
    by (simp add: rr_next_record_def Let_def)
qed

lemma rr_next_unfinished:
  fixes running :: "u64 \<Rightarrow> 'io option"
  assumes "rr_next_record sha running r = Inr (Some kv, r')"
  shows "\<not> rr_finished r'"
proof -
  have nf: "\<not> rr_finished r" using assms by (auto simp: rr_next_record_def)
  have ld: "rr_load_next_block sha running q = Inr (True, q') \<Longrightarrow> rr_finished q' = rr_finished q" for q q'
    by (auto simp: rr_load_next_block_def res_bind_Inr_iff split: option.splits if_splits)
  have tk: "rr_take_record q = (Inr (y, q') :: ('io run_error, _) res) \<Longrightarrow> rr_finished q' = rr_finished q" for q q' y
    by (auto simp: rr_take_record_def res_bind_Inr_iff)
  show ?thesis
    using assms nf by (auto simp: rr_next_record_def Let_def res_bind_Inr_iff split: if_splits dest!: ld tk)
qed

lemma rr_visit_more:
  "rr_visit sha running from_err visit r s = Inr res \<Longrightarrow> x \<noteq> [] \<Longrightarrow> \<not> rr_finished r \<Longrightarrow>
    rr_visit sha running from_err visit (more_input x r) s = Inl (from_err TrailingData)"
proof (induction sha running from_err visit r s rule: rr_visit.induct)
  case (1 sha running from_err visit r s)
  obtain o1 r1 where n: "rr_next_record sha running r = Inr (o1, r1)"
    using "1.prems"(1) by (auto simp: rr_visit.simps [of _ _ _ _ r] split: sum.splits prod.splits)
  note m = rr_next_more [OF n "1.prems"(2,3)]
  show ?case
  proof (cases o1)
    case None
    with m show ?thesis by (simp add: rr_visit.simps [of _ _ _ _ "more_input x r"])
  next
    case (Some kv)
    with n "1.prems"(1) obtain s' where v: "visit (fst kv) (snd kv) s = Inr s'"
      "rr_visit sha running from_err visit r1 s' = Inr res"
      by (auto simp: rr_visit.simps [of _ _ _ _ r] split: sum.splits)
    have "\<not> rr_finished r1" using rr_next_unfinished n Some by blast
    from "1.IH" [OF n refl Some v "1.prems"(2) this] m Some v(1) show ?thesis
      by (simp add: rr_visit.simps [of _ _ _ _ "more_input x r"])
  qed
qed

lemma decode_header_more:
  assumes "decode_header file = (Inr (h, rest) :: ('io run_error, _) res)"
  shows "decode_header (file @ x) = (Inr (h, rest @ x) :: ('io run_error, _) res)"
proof -
  obtain hdr tl where t: "take_bytes Truncated HEADER_BYTES file = (Inr (hdr, tl) :: ('io run_error, _) res)"
    using assms by (auto simp: decode_header_def res_bind_Inr_iff)
  then have "take_bytes Truncated HEADER_BYTES (file @ x) = (Inr (hdr, tl @ x) :: ('io run_error, _) res)"
    by (auto simp: take_bytes_Inr_iff)
  with t assms show ?thesis by (auto simp: decode_header_def Let_def split: if_splits option.splits)
qed

lemma rr_open_more:
  assumes "rr_open file = (Inr r :: ('io run_error, _) res)"
  shows "rr_open (file @ x) = (Inr (more_input x r) :: ('io run_error, _) res) \<and> \<not> rr_finished r"
proof -
  obtain d c rest where h: "decode_header file = (Inr ((d, c), rest) :: ('io run_error, _) res)"
    using assms by (auto simp: rr_open_def res_bind_Inr_iff)
  from assms h decode_header_more [OF h, of x] show ?thesis by (auto simp: rr_open_def)
qed

text \<open>No proper prefix of a file that a pass accepts is accepted by that pass.\<close>

lemma accepted_prefix_free:
  fixes running :: "u64 \<Rightarrow> 'io option"
  assumes "rr_open file = (Inr r :: ('io run_error, _) res)" "rr_visit sha running from_err visit r s = Inr res"
    and "file = pre @ x" "x \<noteq> []" "rr_open pre = (Inr q :: ('io run_error, _) res)"
  shows "\<exists>e. rr_visit sha running from_err visit q s = Inl e"
proof (rule ccontr)
  assume "\<not> ?thesis"
  then obtain out where "rr_visit sha running from_err visit q s = Inr out"
    by (cases "rr_visit sha running from_err visit q s") auto
  with rr_open_more [OF assms(5), of x] rr_visit_more [OF this assms(4)] assms(1-3) show False by auto
qed

section \<open>Descriptors are kept\<close>

lemma rw_append_descriptor: "rw_append sha grow k v w = Inr w' \<Longrightarrow> rw_descriptor w' = rw_descriptor w"
proof -
  have wr: "write_reserved grow bs u = Inr u' \<Longrightarrow> rw_descriptor u' = rw_descriptor u" for bs u u' and grow :: "'a grow"
    by (auto simp: write_reserved_def res_bind_Inr_iff split: if_splits option.splits)
  have ib: "index_block u = (Inr u' :: ('a run_error, _) res) \<Longrightarrow> rw_descriptor u' = rw_descriptor u" for u u'
    by (auto simp: index_block_def split: option.splits)
  have fb: "flush_block sha grow u = Inr u' \<Longrightarrow> rw_descriptor u' = rw_descriptor u" for u u' and grow :: "'a grow"
    by (auto simp: flush_block_def res_bind_Inr_iff Let_def split: if_splits dest!: wr ib)
  show "rw_append sha grow k v w = Inr w' \<Longrightarrow> rw_descriptor w' = rw_descriptor w"
    by (auto simp: rw_append_def push_record_def res_bind_Inr_iff Let_def split: if_splits dest!: fb)
qed

lemma rw_new_descriptor: "rw_new grow [] 0 d capacity = Inr w \<Longrightarrow> rw_descriptor w = d"
  by (auto simp: rw_new_def write_reserved_def res_bind_Inr_iff Let_def split: if_splits option.splits)

section \<open>Whole runs\<close>

text \<open>A sealed run opens as a reader at its first record.\<close>

lemma sealed_run_reader:
  assumes "write_run sha grow d capacity rs = Inr run"
  shows "\<exists>r bs N B. rr_open (sr_file run) = (Inr r :: ('io run_error, _) res) \<and> rr_descriptor r = d \<and>
    reader_at sha r [] bs N B \<and> concat bs = rs"
proof -
  obtain bs where bs: "concat bs = rs" "run_ok capacity bs" "sr_file run = run_bytes sha d capacity bs"
    using sealed_run_bytes [OF assms] by blast
  from rr_open_run [where ?'a = 'io, OF bs(2), of sha d] bs(1,3) show ?thesis by auto
qed

lemma sealed_run_sorted: "write_run sha grow d capacity rs = Inr run \<Longrightarrow> keys_sorted rs"
  using sealed_run_bytes [of sha grow d capacity rs run] by (auto simp: run_ok_def)

text \<open>Appending to a new writer and sealing it is writing the run.\<close>

lemma append_all_seal:
  assumes "rw_new grow [] 0 d capacity = Inr w"
  shows "res_bind (map_err h (append_all sha grow rs w)) (\<lambda>w. map_err h (rw_seal sha grow w)) =
    map_err h (write_run sha grow d capacity rs)"
  using assms by (cases "append_all sha grow rs w") (simp_all add: write_run_def)

end
