(* ===== verification/Directory_Summary.thy ===== *)
theory Directory_Summary
  imports Path_Reducer_Spec Path_Observation Run_File_Spec
begin

text \<open>
  Directory-summary runs (\<open>src/src/scan_store/directory_summary.rs\<close>) and the run-level
  operations of path observations (\<open>src/src/scan_store/path_observation.rs\<close>): encoding and
  decoding a summary, appending and visiting records, and the reduction of a whole observation run into
  a summary run.

  The reader that \<open>reduce_path_observation_run\<close> pulls from and the writer it emits to do not share
  state, so the source of the reduction is the list of what the reader will answer, up to its first
  error (\<open>pull_observations\<close>).  \<open>encode_summary_eq\<close>, \<open>decode_encode_summary\<close> and
  \<open>decode_summary_Inr\<close> are the codec laws; the theory \<open>Summary_Pipeline\<close> treats the
  whole pass.
\<close>

section \<open>The codec\<close>

definition DIRECTORY_SUMMARY_VERSION :: u8 where "DIRECTORY_SUMMARY_VERSION = 1"
definition ORDINAL_BYTES :: nat where "ORDINAL_BYTES = 8"
definition PATH_LENGTH_BYTES :: nat where "PATH_LENGTH_BYTES = 4"

datatype directory_summary_codec_error =
    SummaryPathKey path_key_error | SummaryMetricsErr summary_metrics_codec_error | SummaryMalformed

datatype 'io directory_summary_run_error =
    InputCodec path_observation_codec_error | OutputCodec directory_summary_codec_error
  | Reduction path_reduction_error | SummaryRun "'io run_error"
  | WrongInputKind | WrongOutputKind | SummaryGenerationMismatch | OrdinalOverflow

text \<open>The path length is written over a placeholder once the path is known.\<close>

definition encode_directory_summary_into :: "u64 \<Rightarrow> directory_summary \<Rightarrow>
    (directory_summary_codec_error, bytes \<times> bytes) res" where
  "encode_directory_summary_into ordinal summary =
     (let key = u64_be ordinal;
          val = [DIRECTORY_SUMMARY_VERSION, coverage_code (ds_coverage summary), summary_metrics_flags (ds_metrics summary)];
          path_length_offset = length val;
          val = val @ replicate PATH_LENGTH_BYTES 0;
          path_start = length val in
      res_bind (map_err SummaryPathKey (append_path_key (ds_path summary) val)) (\<lambda>val.
      res_bind (u32_of_len SummaryMalformed (length val - path_start)) (\<lambda>path_length.
        let val = take path_length_offset val @ u32_le path_length @ drop path_start val in
        Inr (key, encode_summary_metrics_into (ds_metrics summary) val))))"

definition decode_directory_summary :: "bytes \<Rightarrow> bytes \<Rightarrow>
    (directory_summary_codec_error, u64 \<times> directory_summary) res" where
  "decode_directory_summary key input =
     (if length key \<noteq> ORDINAL_BYTES then Inl SummaryMalformed
      else
        let ordinal = u64_from_be key in
        res_bind (take_u8 SummaryMalformed input) (\<lambda>(version, input).
        if version \<noteq> DIRECTORY_SUMMARY_VERSION then Inl SummaryMalformed
        else
          res_bind (take_u8 SummaryMalformed input) (\<lambda>(cb, input).
          res_bind (ok_or (coverage_from_code cb) SummaryMalformed) (\<lambda>cov.
          res_bind (take_u8 SummaryMalformed input) (\<lambda>(flags, input).
          res_bind (take_u32 SummaryMalformed input) (\<lambda>(path_length, input).
          res_bind (take_bytes SummaryMalformed (unat path_length) input) (\<lambda>(path_bytes, input).
          res_bind (map_err SummaryPathKey (decode_path_key path_bytes)) (\<lambda>path.
          res_bind (map_err SummaryMetricsErr (decode_summary_metrics flags input)) (\<lambda>(metrics, input).
            if input \<noteq> [] then Inl SummaryMalformed
            else Inr (ordinal, \<lparr>ds_path = path, ds_metrics = metrics, ds_coverage = cov\<rparr>))))))))))"

section \<open>Runs of summaries and observations\<close>

definition append_directory_summary :: "(bytes \<Rightarrow> bytes) \<Rightarrow> 'io grow \<Rightarrow> u64 \<Rightarrow> directory_summary \<Rightarrow> run_writer \<Rightarrow>
    ('io directory_summary_run_error, run_writer) res" where
  "append_directory_summary sha grow ordinal summary w =
     (if rd_kind (rw_descriptor w) \<noteq> RunDirectorySummary then Inl WrongOutputKind
      else
        res_bind (map_err OutputCodec (encode_directory_summary_into ordinal summary)) (\<lambda>(key, val).
          map_err SummaryRun (rw_append sha grow key val w)))"

definition visit_summary :: "(u64 \<Rightarrow> directory_summary \<Rightarrow> 's \<Rightarrow> ('io directory_summary_run_error, 's) res) \<Rightarrow>
    bytes \<Rightarrow> bytes \<Rightarrow> u64 \<times> 's \<Rightarrow> ('io directory_summary_run_error, u64 \<times> 's) res" where
  "visit_summary visit key val = (\<lambda>(expected_ordinal, s).
     res_bind (map_err OutputCodec (decode_directory_summary key val)) (\<lambda>(ordinal, summary).
     if ordinal \<noteq> expected_ordinal then Inl OrdinalOverflow
     else
       res_bind (ok_or (checked_add expected_ordinal 1) OrdinalOverflow) (\<lambda>expected_ordinal.
       res_bind (visit ordinal summary s) (\<lambda>s. Inr (expected_ordinal, s)))))"

definition visit_directory_summaries :: "(bytes \<Rightarrow> bytes) \<Rightarrow> (u64 \<Rightarrow> 'io option) \<Rightarrow>
    (u64 \<Rightarrow> directory_summary \<Rightarrow> 's \<Rightarrow> ('io directory_summary_run_error, 's) res) \<Rightarrow> run_reader \<Rightarrow> 's \<Rightarrow>
    ('io directory_summary_run_error, 's \<times> run_reader) res" where
  "visit_directory_summaries sha running visit r s =
     (if rd_kind (rr_descriptor r) \<noteq> RunDirectorySummary then Inl WrongInputKind
      else
        res_bind (rr_visit sha running SummaryRun (visit_summary visit) r (0, s)) (\<lambda>((_, s), r). Inr (s, r)))"

datatype 'io path_observation_run_error =
  ObservationCodec path_observation_codec_error | ObservationRun "'io run_error" | WrongRunKind

definition append_path_observation :: "(bytes \<Rightarrow> bytes) \<Rightarrow> 'io grow \<Rightarrow> path_observation \<Rightarrow> run_writer \<Rightarrow>
    ('io path_observation_run_error, run_writer) res" where
  "append_path_observation sha grow ob w =
     (if rd_kind (rw_descriptor w) \<noteq> RunPathObservation then Inl WrongRunKind
      else
        res_bind (map_err ObservationCodec (encode_path_observation_into ob)) (\<lambda>(key, val).
          map_err ObservationRun (rw_append sha grow key val w)))"

definition visit_path_observations :: "(bytes \<Rightarrow> bytes) \<Rightarrow> (u64 \<Rightarrow> 'io option) \<Rightarrow>
    (path_observation \<Rightarrow> 's \<Rightarrow> ('io path_observation_run_error, 's) res) \<Rightarrow> run_reader \<Rightarrow> 's \<Rightarrow>
    ('io path_observation_run_error, 's \<times> run_reader) res" where
  "visit_path_observations sha running visit r s =
     (if rd_kind (rr_descriptor r) \<noteq> RunPathObservation then Inl WrongRunKind
      else
        rr_visit sha running ObservationRun
          (\<lambda>key val s. res_bind (map_err ObservationCodec (decode_path_observation key val)) (\<lambda>ob. visit ob s)) r s)"

section \<open>The reduction of a run\<close>

function pull_observations :: "(bytes \<Rightarrow> bytes) \<Rightarrow> (u64 \<Rightarrow> 'io option) \<Rightarrow> run_reader \<Rightarrow>
    ('io directory_summary_run_error, path_observation) res list" where
  "pull_observations sha running r =
     (case rr_next_record sha running r of
        Inl e \<Rightarrow> [Inl (SummaryRun e)]
      | Inr (None, r') \<Rightarrow> []
      | Inr (Some kv, r') \<Rightarrow>
          (case decode_path_observation (fst kv) (snd kv) of
             Inl e \<Rightarrow> [Inl (InputCodec e)]
           | Inr ob \<Rightarrow> Inr ob # pull_observations sha running r'))"
  by pat_completeness auto
termination
  by (relation "measure (\<lambda>(sha, running, r). rr_remaining r)") (auto dest: rr_next_record_remaining)

declare pull_observations.simps [simp del]

definition emit_summary :: "(bytes \<Rightarrow> bytes) \<Rightarrow> 'io grow \<Rightarrow> directory_summary \<Rightarrow> u64 \<times> run_writer \<Rightarrow>
    ('io directory_summary_run_error, u64 \<times> run_writer) res" where
  "emit_summary sha grow summary = (\<lambda>(ordinal, w).
     res_bind (append_directory_summary sha grow ordinal summary w) (\<lambda>w.
     res_bind (ok_or (checked_add ordinal 1) OrdinalOverflow) (\<lambda>ordinal. Inr (ordinal, w))))"

definition reduce_path_observation_run :: "(bytes \<Rightarrow> bytes) \<Rightarrow> (u64 \<Rightarrow> 'io option) \<Rightarrow> 'io grow \<Rightarrow> run_reader \<Rightarrow>
    run_writer \<Rightarrow> unreadable_directories \<Rightarrow> ('io directory_summary_run_error reduce_error, run_writer) res" where
  "reduce_path_observation_run sha running grow input output un =
     (if rd_kind (rr_descriptor input) \<noteq> RunPathObservation then Inl (ReduceError WrongInputKind)
      else if rd_kind (rw_descriptor output) \<noteq> RunDirectorySummary then Inl (ReduceError WrongOutputKind)
      else if rd_generation (rr_descriptor input) \<noteq> rd_generation (rw_descriptor output)
      then Inl (ReduceError SummaryGenerationMismatch)
      else
        res_bind (reduce_sorted_path_stream Reduction (pull_observations sha running input)
                    (emit_summary sha grow) un (0, output))
          (\<lambda>(_, output). Inr output))"

section \<open>Codec laws\<close>

definition summary_value :: "directory_summary \<Rightarrow> bytes" where
  "summary_value y =
     [DIRECTORY_SUMMARY_VERSION, coverage_code (ds_coverage y), summary_metrics_flags (ds_metrics y)]
       @ u32_le (of_nat (length (key_bytes (ds_path y)))) @ key_bytes (ds_path y) @ metrics_bytes (ds_metrics y)"

definition summary_fits :: "directory_summary \<Rightarrow> bool" where
  "summary_fits y \<longleftrightarrow> nul_free (ds_path y) \<and> length (key_bytes (ds_path y)) < 2 ^ 32"

lemma encode_summary_eq:
  "encode_directory_summary_into n y =
     (if \<not> nul_free (ds_path y) then Inl (SummaryPathKey NulComponent)
      else if \<not> length (key_bytes (ds_path y)) < 2 ^ 32 then Inl SummaryMalformed
      else Inr (u64_be n, summary_value y))"
  by (simp add: encode_directory_summary_into_def Let_def append_path_key_eq u32_of_len_def PATH_LENGTH_BYTES_def
      summary_value_def encode_summary_metrics_eq)

lemma encode_summary_fits: "summary_fits y \<Longrightarrow> encode_directory_summary_into n y = Inr (u64_be n, summary_value y)"
  by (simp add: encode_summary_eq summary_fits_def)

lemma decode_encode_summary:
  assumes "summary_fits y" "relative_path_ok (ds_path y)" "metrics_ok (ds_metrics y)"
  shows "decode_directory_summary (u64_be n) (summary_value y) = Inr (n, y)"
proof -
  have "unat (of_nat (length (key_bytes (ds_path y))) :: u32) = length (key_bytes (ds_path y))"
    using assms(1) by (simp add: summary_fits_def unat_of_nat)
  moreover have "decode_path_key (key_bytes (ds_path y)) = Inr (ds_path y)"
    using assms(1,2) by (simp add: summary_fits_def decode_path_key_bytes)
  moreover have "decode_summary_metrics (summary_metrics_flags (ds_metrics y)) (metrics_bytes (ds_metrics y)) = Inr (ds_metrics y, [])"
    using decode_summary_metrics_append [OF assms(3), of "[]"] by simp
  ultimately show ?thesis
    by (simp add: decode_directory_summary_def summary_value_def ORDINAL_BYTES_def res_simps)
qed

lemma decode_summary_Inr:
  assumes "decode_directory_summary k v = Inr (n, y)"
  shows "k = u64_be n \<and> v = summary_value y \<and> summary_fits y \<and> relative_path_ok (ds_path y) \<and> metrics_ok (ds_metrics y)"
proof -
  obtain cov flags pl rest path_bytes m where p:
    "length k = 8" "n = u64_from_be k" "v = DIRECTORY_SUMMARY_VERSION # coverage_code cov # flags # u32_le pl @ path_bytes @ rest"
    "length path_bytes = unat pl" "decode_path_key path_bytes = Inr (ds_path y)"
    "decode_summary_metrics flags rest = Inr (m, [])" "y = \<lparr>ds_path = ds_path y, ds_metrics = m, ds_coverage = cov\<rparr>"
    using assms
    by (auto simp: decode_directory_summary_def ORDINAL_BYTES_def Let_def res_bind_Inr_iff take_u8_Inr_iff take_int_Inr_iff
        take_bytes_Inr_iff coverage_from_code_Some split: if_splits)
  have "pl = of_nat (length path_bytes)" using p(4) by simp
  moreover have "length path_bytes < 2 ^ 32" using p(4) unat_lt_pow [of pl] by simp
  ultimately show ?thesis
    using p decode_summary_metrics_Inr [OF p(6)]
    by (cases y) (simp add: decode_path_key_Inr summary_value_def summary_fits_def int_le_from)
qed

end
