(* ===== verification/Identity_Observation.thy ===== *)
theory Identity_Observation
  imports Path_Key File_Id_Codec Summary_Metrics_Codec Run_File_Spec
begin

text \<open>
  Identity observations and allocation contributions
  (\<open>src/src/scan_store/identity_observation.rs\<close>): the two record codecs, their run operations,
  and the streaming reduction of observations sorted by file identity into one contribution per
  identity.

  \<open>decode_encode_identity\<close>, \<open>decode_identity_record_Inr\<close>, \<open>decode_encode_contribution\<close> and
  \<open>decode_contribution_Inr\<close> are the codec laws; what the reduction computes is in
  \<open>Identity_Reduction\<close>.  The \<open>expect\<close> in \<open>common_ancestor\<close> is the error \<open>IdentityPanic\<close>.
\<close>

section \<open>Observations\<close>

definition IDENTITY_OBSERVATION_VERSION :: u8 where "IDENTITY_OBSERVATION_VERSION = 1"
definition OBSERVATION_DECLARED_LINKS_PRESENT :: u8 where "OBSERVATION_DECLARED_LINKS_PRESENT = flag 0"
definition OBSERVATION_ALLOCATION_UPPER_PRESENT :: u8 where "OBSERVATION_ALLOCATION_UPPER_PRESENT = flag 1"
definition OBSERVATION_KNOWN_FLAGS :: u8 where
  "OBSERVATION_KNOWN_FLAGS = OBSERVATION_DECLARED_LINKS_PRESENT OR OBSERVATION_ALLOCATION_UPPER_PRESENT"

definition ALLOCATION_CONTRIBUTION_VERSION :: u8 where "ALLOCATION_CONTRIBUTION_VERSION = 1"
definition CONTRIBUTION_ALLOCATION_UPPER_PRESENT :: u8 where "CONTRIBUTION_ALLOCATION_UPPER_PRESENT = flag 0"
definition CONTRIBUTION_RECLAIMABLE_UPPER_PRESENT :: u8 where "CONTRIBUTION_RECLAIMABLE_UPPER_PRESENT = flag 1"
definition CONTRIBUTION_KNOWN_FLAGS :: u8 where
  "CONTRIBUTION_KNOWN_FLAGS = CONTRIBUTION_ALLOCATION_UPPER_PRESENT OR CONTRIBUTION_RECLAIMABLE_UPPER_PRESENT"

record identity_observation =
  io_path :: relative_path
  io_file_id :: file_id
  io_declared_links :: "u64 option"
  io_allocated_bytes :: byte_bounds

definition compare_identity_observations :: "identity_observation \<Rightarrow> identity_observation \<Rightarrow> ordering" where
  "compare_identity_observations left right =
     then_with (compare_file_ids_by_encoding (io_file_id left) (io_file_id right)) (rp_cmp (io_path left) (io_path right))"

datatype identity_observation_codec_error =
  IdentityFileId file_id_codec_error | IdentityPathKey path_key_error | RootPath | InconsistentBounds | IdentityMalformed

definition validate_bounds :: "'e \<Rightarrow> byte_bounds \<Rightarrow> ('e, unit) res" where
  "validate_bounds e b = (if (case bb_upper b of None \<Rightarrow> False | Some upper \<Rightarrow> upper < bb_lower b) then Inl e else Inr ())"

definition observation_flags :: "identity_observation \<Rightarrow> u8" where
  "observation_flags ob =
     set_flag (bb_upper (io_allocated_bytes ob) \<noteq> None) OBSERVATION_ALLOCATION_UPPER_PRESENT
       (set_flag (io_declared_links ob \<noteq> None) OBSERVATION_DECLARED_LINKS_PRESENT 0)"

definition encode_identity_observation_into :: "identity_observation \<Rightarrow>
    (identity_observation_codec_error, bytes \<times> bytes) res" where
  "encode_identity_observation_into ob =
     (if is_root (io_path ob) then Inl RootPath
      else
        res_bind (validate_bounds InconsistentBounds (io_allocated_bytes ob)) (\<lambda>_.
        if io_declared_links ob = Some 0 then Inl IdentityMalformed
        else
          res_bind (map_err IdentityPathKey (append_path_key (io_path ob) (encode_file_id_into (io_file_id ob) []))) (\<lambda>key.
            Inr (key,
              [IDENTITY_OBSERVATION_VERSION, observation_flags ob]
                @ opt_bytes u64_le (io_declared_links ob) @ u128_le (bb_lower (io_allocated_bytes ob))
                @ opt_bytes u128_le (bb_upper (io_allocated_bytes ob))))))"

definition decode_identity_observation :: "bytes \<Rightarrow> bytes \<Rightarrow>
    (identity_observation_codec_error, identity_observation) res" where
  "decode_identity_observation key input =
     res_bind (map_err IdentityFileId (decode_file_id_prefix key)) (\<lambda>(file_id, n).
     res_bind (map_err IdentityPathKey (decode_path_key (drop n key))) (\<lambda>path.
     if is_root path then Inl RootPath
     else
       res_bind (take_u8 IdentityMalformed input) (\<lambda>(version, input).
       if version \<noteq> IDENTITY_OBSERVATION_VERSION then Inl IdentityMalformed
       else
         res_bind (take_u8 IdentityMalformed input) (\<lambda>(flags, input).
         if flags AND NOT OBSERVATION_KNOWN_FLAGS \<noteq> 0 then Inl IdentityMalformed
         else
           res_bind (take_when (flags AND OBSERVATION_DECLARED_LINKS_PRESENT \<noteq> 0) (take_u64 IdentityMalformed) input)
             (\<lambda>(declared_links, input).
           if declared_links = Some 0 then Inl IdentityMalformed
           else
             res_bind (take_u128 IdentityMalformed input) (\<lambda>(lower, input).
             res_bind (take_when (flags AND OBSERVATION_ALLOCATION_UPPER_PRESENT \<noteq> 0) (take_u128 IdentityMalformed) input)
               (\<lambda>(upper, input).
             if input \<noteq> [] then Inl IdentityMalformed
             else
               let allocated_bytes = \<lparr>bb_lower = lower, bb_upper = upper\<rparr> in
               res_bind (validate_bounds IdentityMalformed allocated_bytes) (\<lambda>_.
                 Inr \<lparr>io_path = path, io_file_id = file_id, io_declared_links = declared_links,
                      io_allocated_bytes = allocated_bytes\<rparr>))))))))"

section \<open>Contributions\<close>

datatype allocation_placement = PlaceLeaf | PlaceShared

primrec placement_code :: "allocation_placement \<Rightarrow> u8" where
  "placement_code PlaceLeaf = 1"
| "placement_code PlaceShared = 2"

definition placement_from_code :: "u8 \<Rightarrow> allocation_placement option" where
  "placement_from_code v = (if v = 1 then Some PlaceLeaf else if v = 2 then Some PlaceShared else None)"

record allocation_contribution =
  ac_recipient :: relative_path
  ac_placement :: allocation_placement
  ac_allocated_bytes :: byte_bounds
  ac_reclaimable_bytes :: byte_bounds

datatype allocation_contribution_codec_error =
    ContributionFileId file_id_codec_error | ContributionPathKey path_key_error | RootLeaf
  | ContributionInconsistentBounds | ContributionMalformed

definition contribution_flags :: "allocation_contribution \<Rightarrow> u8" where
  "contribution_flags c =
     set_flag (bb_upper (ac_reclaimable_bytes c) \<noteq> None) CONTRIBUTION_RECLAIMABLE_UPPER_PRESENT
       (set_flag (bb_upper (ac_allocated_bytes c) \<noteq> None) CONTRIBUTION_ALLOCATION_UPPER_PRESENT 0)"

definition contribution_path_value :: "allocation_contribution \<Rightarrow> (allocation_contribution_codec_error, bytes) res" where
  "contribution_path_value c =
     (let val = [ALLOCATION_CONTRIBUTION_VERSION, placement_code (ac_placement c), contribution_flags c];
          path_length_offset = length val;
          val = val @ replicate 4 0;
          path_start = length val in
      res_bind (map_err ContributionPathKey (append_path_key (ac_recipient c) val)) (\<lambda>val.
      res_bind (u32_of_len ContributionMalformed (length val - path_start)) (\<lambda>path_length.
        Inr (take path_length_offset val @ u32_le path_length @ drop path_start val))))"

definition encode_allocation_contribution_into :: "file_id \<Rightarrow> allocation_contribution \<Rightarrow>
    (allocation_contribution_codec_error, bytes \<times> bytes) res" where
  "encode_allocation_contribution_into file_id c =
     (if ac_placement c = PlaceLeaf \<and> is_root (ac_recipient c) then Inl RootLeaf
      else
        res_bind (validate_bounds ContributionInconsistentBounds (ac_allocated_bytes c)) (\<lambda>_.
        res_bind (validate_bounds ContributionInconsistentBounds (ac_reclaimable_bytes c)) (\<lambda>_.
        res_bind (contribution_path_value c) (\<lambda>val.
          Inr (encode_file_id_into file_id [],
            val @ u128_le (bb_lower (ac_allocated_bytes c)) @ u128_le (bb_lower (ac_reclaimable_bytes c))
              @ opt_bytes u128_le (bb_upper (ac_allocated_bytes c))
              @ opt_bytes u128_le (bb_upper (ac_reclaimable_bytes c)))))))"

definition decode_allocation_contribution :: "bytes \<Rightarrow> bytes \<Rightarrow>
    (allocation_contribution_codec_error, file_id \<times> allocation_contribution) res" where
  "decode_allocation_contribution key input =
     res_bind (map_err ContributionFileId (decode_file_id key)) (\<lambda>file_id.
     res_bind (take_u8 ContributionMalformed input) (\<lambda>(version, input).
     if version \<noteq> ALLOCATION_CONTRIBUTION_VERSION then Inl ContributionMalformed
     else
       res_bind (take_u8 ContributionMalformed input) (\<lambda>(pb, input).
       res_bind (ok_or (placement_from_code pb) ContributionMalformed) (\<lambda>placement.
       res_bind (take_u8 ContributionMalformed input) (\<lambda>(flags, input).
       if flags AND NOT CONTRIBUTION_KNOWN_FLAGS \<noteq> 0 then Inl ContributionMalformed
       else
         res_bind (take_u32 ContributionMalformed input) (\<lambda>(path_length, input).
         res_bind (take_bytes ContributionMalformed (unat path_length) input) (\<lambda>(path_bytes, input).
         res_bind (map_err ContributionPathKey (decode_path_key path_bytes)) (\<lambda>recipient.
         if placement = PlaceLeaf \<and> is_root recipient then Inl RootLeaf
         else
           res_bind (take_u128 ContributionMalformed input) (\<lambda>(allocated_lower, input).
           res_bind (take_u128 ContributionMalformed input) (\<lambda>(reclaimable_lower, input).
           res_bind (take_when (flags AND CONTRIBUTION_ALLOCATION_UPPER_PRESENT \<noteq> 0) (take_u128 ContributionMalformed) input)
             (\<lambda>(allocated_upper, input).
           res_bind (take_when (flags AND CONTRIBUTION_RECLAIMABLE_UPPER_PRESENT \<noteq> 0) (take_u128 ContributionMalformed) input)
             (\<lambda>(reclaimable_upper, input).
           if input \<noteq> [] then Inl ContributionMalformed
           else
             let allocated = \<lparr>bb_lower = allocated_lower, bb_upper = allocated_upper\<rparr>;
                 reclaimable = \<lparr>bb_lower = reclaimable_lower, bb_upper = reclaimable_upper\<rparr> in
             res_bind (validate_bounds ContributionMalformed allocated) (\<lambda>_.
             res_bind (validate_bounds ContributionMalformed reclaimable) (\<lambda>_.
               Inr (file_id, \<lparr>ac_recipient = recipient, ac_placement = placement, ac_allocated_bytes = allocated,
                              ac_reclaimable_bytes = reclaimable\<rparr>)))))))))))))))"

section \<open>Run operations\<close>

datatype 'io identity_observation_run_error =
  IdentityCodec identity_observation_codec_error | IdentityRun "'io run_error" | IdentityWrongRunKind

datatype 'io allocation_contribution_run_error =
  ContributionCodec allocation_contribution_codec_error | ContributionRun "'io run_error" | ContributionWrongRunKind

definition append_identity_observation :: "(bytes \<Rightarrow> bytes) \<Rightarrow> 'io grow \<Rightarrow> identity_observation \<Rightarrow> run_writer \<Rightarrow>
    ('io identity_observation_run_error, run_writer) res" where
  "append_identity_observation sha grow ob w =
     (if rd_kind (rw_descriptor w) \<noteq> RunIdentityObservation then Inl IdentityWrongRunKind
      else
        res_bind (map_err IdentityCodec (encode_identity_observation_into ob)) (\<lambda>(key, val).
          map_err IdentityRun (rw_append sha grow key val w)))"

definition visit_identity_observations :: "(bytes \<Rightarrow> bytes) \<Rightarrow> (u64 \<Rightarrow> 'io option) \<Rightarrow>
    (identity_observation \<Rightarrow> 's \<Rightarrow> ('io identity_observation_run_error, 's) res) \<Rightarrow> run_reader \<Rightarrow> 's \<Rightarrow>
    ('io identity_observation_run_error, 's \<times> run_reader) res" where
  "visit_identity_observations sha running visit r s =
     (if rd_kind (rr_descriptor r) \<noteq> RunIdentityObservation then Inl IdentityWrongRunKind
      else
        rr_visit sha running IdentityRun
          (\<lambda>key val s. res_bind (map_err IdentityCodec (decode_identity_observation key val)) (\<lambda>ob. visit ob s)) r s)"

definition append_allocation_contribution :: "(bytes \<Rightarrow> bytes) \<Rightarrow> 'io grow \<Rightarrow> file_id \<Rightarrow> allocation_contribution \<Rightarrow>
    run_writer \<Rightarrow> ('io allocation_contribution_run_error, run_writer) res" where
  "append_allocation_contribution sha grow file_id c w =
     (if rd_kind (rw_descriptor w) \<noteq> RunAllocationContribution then Inl ContributionWrongRunKind
      else
        res_bind (map_err ContributionCodec (encode_allocation_contribution_into file_id c)) (\<lambda>(key, val).
          map_err ContributionRun (rw_append sha grow key val w)))"

definition visit_allocation_contributions :: "(bytes \<Rightarrow> bytes) \<Rightarrow> (u64 \<Rightarrow> 'io option) \<Rightarrow>
    (file_id \<Rightarrow> allocation_contribution \<Rightarrow> 's \<Rightarrow> ('io allocation_contribution_run_error, 's) res) \<Rightarrow> run_reader \<Rightarrow> 's \<Rightarrow>
    ('io allocation_contribution_run_error, 's \<times> run_reader) res" where
  "visit_allocation_contributions sha running visit r s =
     (if rd_kind (rr_descriptor r) \<noteq> RunAllocationContribution then Inl ContributionWrongRunKind
      else
        rr_visit sha running ContributionRun
          (\<lambda>key val s. res_bind (map_err ContributionCodec (decode_allocation_contribution key val))
             (\<lambda>(file_id, c). visit file_id c s)) r s)"

section \<open>The reduction\<close>

datatype 'io identity_reduction_error =
    IdentityInputCodec identity_observation_codec_error | IdentityOutputCodec allocation_contribution_codec_error
  | IdentityReductionRun "'io run_error" | IdentityWrongInputKind | IdentityWrongOutputKind
  | IdentityGenerationMismatch | ObservationCountOverflow | IdentityPanic

record identity_group =
  ig_file_id :: file_id
  ig_recipient :: relative_path
  ig_observed_links :: u64
  ig_declared_links :: "u64 option"
  ig_exact_allocated_bytes :: "u128 option"

definition exact_bytes :: "byte_bounds \<Rightarrow> u128 option" where
  "exact_bytes b = (if bb_upper b = Some (bb_lower b) then Some (bb_lower b) else None)"

text \<open>\<open>merge_declared_links\<close>, and the same rule on exact allocations in \<open>observe\<close>.\<close>

definition merge_declared_links :: "'a option \<Rightarrow> 'a option \<Rightarrow> 'a option" where
  "merge_declared_links current observed =
     (case (current, observed) of
        (Some c, Some d) \<Rightarrow> if c = d then Some c else None
      | _ \<Rightarrow> None)"

definition common_ancestor :: "relative_path \<Rightarrow> relative_path \<Rightarrow> relative_path option" where
  "common_ancestor left right =
     (let shared = length (takeWhile (\<lambda>(a, b). a = b) (zip left right)) in
      case from_components (take shared left) of Inl _ \<Rightarrow> None | Inr p \<Rightarrow> Some p)"

definition ig_from_observation :: "identity_observation \<Rightarrow> identity_group" where
  "ig_from_observation ob =
     \<lparr>ig_file_id = io_file_id ob, ig_recipient = io_path ob, ig_observed_links = 1,
      ig_declared_links = io_declared_links ob, ig_exact_allocated_bytes = exact_bytes (io_allocated_bytes ob)\<rparr>"

definition ig_observe :: "identity_observation \<Rightarrow> identity_group \<Rightarrow> ('io identity_reduction_error, identity_group) res" where
  "ig_observe ob g =
     res_bind (ok_or (checked_add (ig_observed_links g) 1) ObservationCountOverflow) (\<lambda>observed.
     res_bind (ok_or (common_ancestor (ig_recipient g) (io_path ob)) IdentityPanic) (\<lambda>recipient.
       Inr (g\<lparr>ig_observed_links := observed,
              ig_declared_links := merge_declared_links (ig_declared_links g) (io_declared_links ob),
              ig_exact_allocated_bytes := merge_declared_links (ig_exact_allocated_bytes g) (exact_bytes (io_allocated_bytes ob)),
              ig_recipient := recipient\<rparr>)))"

definition ig_contribution :: "identity_group \<Rightarrow> allocation_contribution" where
  "ig_contribution g =
     (let allocated = (case ig_exact_allocated_bytes g of None \<Rightarrow> bb_unknown | Some v \<Rightarrow> bb_exact v);
          reclaimable = (if (case ig_declared_links g of None \<Rightarrow> False | Some declared \<Rightarrow> declared \<le> ig_observed_links g)
                         then allocated else \<lparr>bb_lower = 0, bb_upper = bb_upper allocated\<rparr>)
      in \<lparr>ac_recipient = ig_recipient g,
          ac_placement = (if ig_observed_links g = 1 then PlaceLeaf else PlaceShared),
          ac_allocated_bytes = allocated, ac_reclaimable_bytes = reclaimable\<rparr>)"

fun contribution_error :: "'io allocation_contribution_run_error \<Rightarrow> 'io identity_reduction_error" where
  "contribution_error (ContributionCodec e) = IdentityOutputCodec e"
| "contribution_error (ContributionRun e) = IdentityReductionRun e"
| "contribution_error ContributionWrongRunKind = IdentityWrongOutputKind"

definition flush_group :: "(bytes \<Rightarrow> bytes) \<Rightarrow> 'io grow \<Rightarrow> identity_group \<Rightarrow> run_writer \<Rightarrow>
    ('io identity_reduction_error, run_writer) res" where
  "flush_group sha grow g w =
     map_err contribution_error (append_allocation_contribution sha grow (ig_file_id g) (ig_contribution g) w)"

text \<open>The body of the loop on one decoded observation.\<close>

definition reduce_identity_step :: "(bytes \<Rightarrow> bytes) \<Rightarrow> 'io grow \<Rightarrow> identity_observation \<Rightarrow>
    identity_group option \<times> run_writer \<Rightarrow> ('io identity_reduction_error, identity_group option \<times> run_writer) res" where
  "reduce_identity_step sha grow ob = (\<lambda>(group, w).
     case group of
       None \<Rightarrow> Inr (Some (ig_from_observation ob), w)
     | Some g \<Rightarrow>
         if ig_file_id g = io_file_id ob then res_bind (ig_observe ob g) (\<lambda>g. Inr (Some g, w))
         else res_bind (flush_group sha grow g w) (\<lambda>w. Inr (Some (ig_from_observation ob), w)))"

definition reduce_identity_observations :: "(bytes \<Rightarrow> bytes) \<Rightarrow> (u64 \<Rightarrow> 'io option) \<Rightarrow> 'io grow \<Rightarrow> run_reader \<Rightarrow>
    run_writer \<Rightarrow> ('io identity_reduction_error, run_writer) res" where
  "reduce_identity_observations sha running grow input output =
     (if rd_kind (rr_descriptor input) \<noteq> RunIdentityObservation then Inl IdentityWrongInputKind
      else if rd_kind (rw_descriptor output) \<noteq> RunAllocationContribution then Inl IdentityWrongOutputKind
      else if rd_generation (rr_descriptor input) \<noteq> rd_generation (rw_descriptor output) then Inl IdentityGenerationMismatch
      else
        res_bind
          (rr_visit sha running IdentityReductionRun
             (\<lambda>key val s. res_bind (map_err IdentityInputCodec (decode_identity_observation key val))
                (\<lambda>ob. reduce_identity_step sha grow ob s)) input (None, output)) (\<lambda>((group, output), _).
        case group of None \<Rightarrow> Inr output | Some g \<Rightarrow> flush_group sha grow g output))"

section \<open>Codec laws\<close>

lemma two_flags:
  "flags AND NOT OBSERVATION_KNOWN_FLAGS = 0 \<longleftrightarrow> (\<forall>n. bit flags n \<longrightarrow> n = 0 \<or> n = 1)"
  "flags AND NOT CONTRIBUTION_KNOWN_FLAGS = 0 \<longleftrightarrow> (\<forall>n. bit flags n \<longrightarrow> n = 0 \<or> n = 1)"
  "flags AND OBSERVATION_DECLARED_LINKS_PRESENT \<noteq> 0 \<longleftrightarrow> bit flags 0"
  "flags AND OBSERVATION_ALLOCATION_UPPER_PRESENT \<noteq> 0 \<longleftrightarrow> bit flags 1"
  "flags AND CONTRIBUTION_ALLOCATION_UPPER_PRESENT \<noteq> 0 \<longleftrightarrow> bit flags 0"
  "flags AND CONTRIBUTION_RECLAIMABLE_UPPER_PRESENT \<noteq> 0 \<longleftrightarrow> bit flags 1"
  using flags_known [of flags] flag_tests [of flags]
  by (simp_all add: KNOWN_FLAGS_def OBSERVATION_KNOWN_FLAGS_def CONTRIBUTION_KNOWN_FLAGS_def
      OBSERVATION_DECLARED_LINKS_PRESENT_def OBSERVATION_ALLOCATION_UPPER_PRESENT_def ALLOCATED_UPPER_PRESENT_def
      RECLAIMABLE_UPPER_PRESENT_def CONTRIBUTION_ALLOCATION_UPPER_PRESENT_def CONTRIBUTION_RECLAIMABLE_UPPER_PRESENT_def)

lemma bit_two_flags:
  "bit (observation_flags ob) n \<longleftrightarrow>
     n = 0 \<and> io_declared_links ob \<noteq> None \<or> n = 1 \<and> bb_upper (io_allocated_bytes ob) \<noteq> None"
  "bit (contribution_flags c) n \<longleftrightarrow>
     n = 0 \<and> bb_upper (ac_allocated_bytes c) \<noteq> None \<or> n = 1 \<and> bb_upper (ac_reclaimable_bytes c) \<noteq> None"
  by (auto simp: observation_flags_def contribution_flags_def bit_set_flag OBSERVATION_DECLARED_LINKS_PRESENT_def
      OBSERVATION_ALLOCATION_UPPER_PRESENT_def CONTRIBUTION_ALLOCATION_UPPER_PRESENT_def
      CONTRIBUTION_RECLAIMABLE_UPPER_PRESENT_def)

lemma two_flags_eqI:
  assumes "flags AND NOT KNOWN_FLAGS = 0" "bit flags 0 = bit f 0" "bit flags 1 = bit f 1" "f AND NOT KNOWN_FLAGS = 0"
  shows "flags = f"
  using assms by (intro bit_eqI) (metis flags_known)

lemma known_flags_eq: "OBSERVATION_KNOWN_FLAGS = KNOWN_FLAGS" "CONTRIBUTION_KNOWN_FLAGS = KNOWN_FLAGS"
  by (simp_all add: KNOWN_FLAGS_def OBSERVATION_KNOWN_FLAGS_def CONTRIBUTION_KNOWN_FLAGS_def
      OBSERVATION_DECLARED_LINKS_PRESENT_def OBSERVATION_ALLOCATION_UPPER_PRESENT_def ALLOCATED_UPPER_PRESENT_def
      RECLAIMABLE_UPPER_PRESENT_def CONTRIBUTION_ALLOCATION_UPPER_PRESENT_def CONTRIBUTION_RECLAIMABLE_UPPER_PRESENT_def)

lemma encoder_flags_known: "observation_flags ob AND NOT KNOWN_FLAGS = 0" "contribution_flags c AND NOT KNOWN_FLAGS = 0"
  by (auto simp: flags_known bit_two_flags)

lemma validate_bounds_eq: "validate_bounds e b = (if bounds_ok b then Inr () else Inl e)"
  by (simp add: validate_bounds_def bounds_check)

lemma encode_file_id_into_eq: "encode_file_id_into f buffer = file_id_bytes f"
  by (simp add: encode_file_id_into_def file_id_bytes_def)

lemma bounds_eta: "\<lparr>bb_lower = bb_lower b, bb_upper = bb_upper b\<rparr> = b"
  by (cases b) simp

lemma take_when_opt_exact:
  "take_when (y \<noteq> None) (take_u128 e) (opt_bytes u128_le y) = Inr (y, [])"
  using take_when_opt(2) [of y e "[]"] by simp

definition identity_value :: "identity_observation \<Rightarrow> bytes" where
  "identity_value ob =
     [IDENTITY_OBSERVATION_VERSION, observation_flags ob]
       @ opt_bytes u64_le (io_declared_links ob) @ u128_le (bb_lower (io_allocated_bytes ob))
       @ opt_bytes u128_le (bb_upper (io_allocated_bytes ob))"

definition identity_ok :: "identity_observation \<Rightarrow> bool" where
  "identity_ok ob \<longleftrightarrow> io_path ob \<noteq> [] \<and> nul_free (io_path ob) \<and> bounds_ok (io_allocated_bytes ob) \<and> io_declared_links ob \<noteq> Some 0"

lemma encode_identity_Inr:
  "encode_identity_observation_into ob = Inr (k, v) \<longleftrightarrow>
     identity_ok ob \<and> k = file_id_bytes (io_file_id ob) @ key_bytes (io_path ob) \<and> v = identity_value ob"
  by (auto simp: encode_identity_observation_into_def identity_ok_def validate_bounds_eq append_path_key_eq is_root_def
      encode_file_id_into_eq identity_value_def)

lemma decode_encode_identity:
  assumes "identity_ok ob" "relative_path_ok (io_path ob)"
  shows "decode_identity_observation (file_id_bytes (io_file_id ob) @ key_bytes (io_path ob)) (identity_value ob) = Inr ob"
  using assms
  by (simp add: decode_identity_observation_def identity_value_def identity_ok_def is_root_def decode_path_key_bytes
      two_flags(3,4) bit_two_flags known_flags_eq encoder_flags_known validate_bounds_eq res_simps take_when_opt_exact bounds_eta
      Let_def del: not_None_eq)

lemma decode_identity_record_Inr:
  assumes "decode_identity_observation k v = Inr ob"
  shows "identity_ok ob \<and> relative_path_ok (io_path ob) \<and>
    k = file_id_bytes (io_file_id ob) @ key_bytes (io_path ob) \<and> v = identity_value ob"
proof -
  obtain f flags dl lower upper path where p:
    "decode_file_id_prefix k = Inr (f, file_id_encoded_bytes f)" "decode_path_key (drop (file_id_encoded_bytes f) k) = Inr path" "path \<noteq> []"
    "v = IDENTITY_OBSERVATION_VERSION # flags # opt_bytes u64_le dl @ u128_le lower @ opt_bytes u128_le upper"
    "flags AND NOT KNOWN_FLAGS = 0" "bit flags 0 = (dl \<noteq> None)" "bit flags 1 = (upper \<noteq> None)" "dl \<noteq> Some 0"
    "bounds_ok \<lparr>bb_lower = lower, bb_upper = upper\<rparr>"
    "ob = \<lparr>io_path = path, io_file_id = f, io_declared_links = dl, io_allocated_bytes = \<lparr>bb_lower = lower, bb_upper = upper\<rparr>\<rparr>"
    using assms
    by (auto simp: decode_identity_observation_def res_bind_Inr_iff take_u8_Inr_iff take_int_Inr_iff take_when_u64_Inr
        take_when_u128_Inr decode_file_id_prefix_Inr is_root_def two_flags(3,4) known_flags_eq validate_bounds_eq Let_def
        split: if_splits) blast
  obtain rest where k: "k = file_id_bytes f @ rest" using p(1) by (auto simp: decode_file_id_prefix_Inr)
  have "length (file_id_bytes f) = file_id_encoded_bytes f" by (cases f) (simp_all add: file_id_bytes_def)
  then have path: "rest = key_bytes path" "nul_free path" "relative_path_ok path"
    using p(2) k by (simp_all add: decode_path_key_Inr)
  have "flags = observation_flags ob"
  proof (rule two_flags_eqI)
    show "bit flags 0 = bit (observation_flags ob) 0" "bit flags 1 = bit (observation_flags ob) 1"
      unfolding bit_two_flags p(6,7,10) by simp_all
  qed (rule p(5) encoder_flags_known)+
  then show ?thesis using p(3,4,8,9,10) k path by (simp add: identity_ok_def identity_value_def)
qed

lemma placement_inverse [simp]: "placement_from_code (placement_code p) = Some p"
  by (cases p) (simp_all add: placement_from_code_def)

lemma placement_from_code_Some: "placement_from_code v = Some p \<longleftrightarrow> v = placement_code p"
  by (cases p) (auto simp: placement_from_code_def split: if_splits)

definition contribution_value :: "allocation_contribution \<Rightarrow> bytes" where
  "contribution_value c =
     [ALLOCATION_CONTRIBUTION_VERSION, placement_code (ac_placement c), contribution_flags c]
       @ u32_le (of_nat (length (key_bytes (ac_recipient c)))) @ key_bytes (ac_recipient c)
       @ u128_le (bb_lower (ac_allocated_bytes c)) @ u128_le (bb_lower (ac_reclaimable_bytes c))
       @ opt_bytes u128_le (bb_upper (ac_allocated_bytes c)) @ opt_bytes u128_le (bb_upper (ac_reclaimable_bytes c))"

definition contribution_ok :: "allocation_contribution \<Rightarrow> bool" where
  "contribution_ok c \<longleftrightarrow> (ac_placement c = PlaceLeaf \<longrightarrow> ac_recipient c \<noteq> []) \<and> nul_free (ac_recipient c) \<and>
     length (key_bytes (ac_recipient c)) < 2 ^ 32 \<and> bounds_ok (ac_allocated_bytes c) \<and> bounds_ok (ac_reclaimable_bytes c)"

lemma encode_contribution_Inr:
  "encode_allocation_contribution_into f c = Inr (k, v) \<longleftrightarrow>
     contribution_ok c \<and> k = file_id_bytes f \<and> v = contribution_value c"
  by (auto simp: encode_allocation_contribution_into_def contribution_path_value_def contribution_ok_def validate_bounds_eq
      append_path_key_eq is_root_def encode_file_id_into_eq contribution_value_def u32_of_len_def Let_def res_bind_Inr_iff
      split: if_splits)

lemma decode_encode_contribution:
  assumes "contribution_ok c" "relative_path_ok (ac_recipient c)"
  shows "decode_allocation_contribution (file_id_bytes f) (contribution_value c) = Inr (f, c)"
proof -
  have "unat (of_nat (length (key_bytes (ac_recipient c))) :: u32) = length (key_bytes (ac_recipient c))"
    using assms(1) by (simp add: contribution_ok_def unat_of_nat)
  moreover have "decode_file_id (file_id_bytes f) = Inr f" by (simp add: decode_file_id_Inr)
  ultimately show ?thesis
    using assms
    by (simp add: decode_allocation_contribution_def contribution_value_def contribution_ok_def is_root_def decode_path_key_bytes
        two_flags(5,6) bit_two_flags known_flags_eq encoder_flags_known validate_bounds_eq res_simps Let_def take_when_opt_exact bounds_eta
        del: not_None_eq)
qed

lemma decode_contribution_Inr:
  assumes "decode_allocation_contribution k v = Inr (f, c)"
  shows "k = file_id_bytes f \<and> v = contribution_value c \<and> contribution_ok c \<and> relative_path_ok (ac_recipient c)"
proof -
  obtain p flags pl path_bytes path al rl au ru where d:
    "decode_file_id k = Inr f"
    "v = ALLOCATION_CONTRIBUTION_VERSION # placement_code p # flags # u32_le pl @ path_bytes @ u128_le al @ u128_le rl
       @ opt_bytes u128_le au @ opt_bytes u128_le ru"
    "length path_bytes = unat pl" "decode_path_key path_bytes = Inr path" "p = PlaceLeaf \<longrightarrow> path \<noteq> []"
    "flags AND NOT KNOWN_FLAGS = 0" "bit flags 0 = (au \<noteq> None)" "bit flags 1 = (ru \<noteq> None)"
    "bounds_ok \<lparr>bb_lower = al, bb_upper = au\<rparr>" "bounds_ok \<lparr>bb_lower = rl, bb_upper = ru\<rparr>"
    "c = \<lparr>ac_recipient = path, ac_placement = p, ac_allocated_bytes = \<lparr>bb_lower = al, bb_upper = au\<rparr>,
          ac_reclaimable_bytes = \<lparr>bb_lower = rl, bb_upper = ru\<rparr>\<rparr>"
    using assms
    by (auto simp: decode_allocation_contribution_def res_bind_Inr_iff take_u8_Inr_iff take_int_Inr_iff take_bytes_Inr_iff
        take_when_u128_Inr placement_from_code_Some is_root_def two_flags(5,6) known_flags_eq validate_bounds_eq Let_def
        split: if_splits) blast
  have flags: "flags = contribution_flags c"
  proof (rule two_flags_eqI)
    show "bit flags 0 = bit (contribution_flags c) 0" "bit flags 1 = bit (contribution_flags c) 1"
      unfolding bit_two_flags d(7,8,11) by simp_all
  qed (rule d(6) encoder_flags_known)+
  have path: "path_bytes = key_bytes path" "nul_free path" "relative_path_ok path"
    using d(4) by (simp_all add: decode_path_key_Inr)
  have "length (key_bytes path) < 2 ^ 32" "pl = of_nat (length (key_bytes path))"
    using d(3) path(1) unat_lt_pow [of pl] by simp_all
  then show ?thesis
    using d(1,2,5,9,10,11) path flags by (simp add: decode_file_id_Inr contribution_value_def contribution_ok_def)
qed

end
