(* ===== verification/Codec_Theorems.thy ===== *)
theory Codec_Theorems
  imports Directory_Summary Identity_Observation
begin

text \<open>
  The guarantees of the record codecs, with small records as witnesses.  They use nothing but the
  codec laws of the component theories.
\<close>

section \<open>Keys\<close>

text \<open>
  C36. A path key decodes to a path exactly when that path is well formed and encodes to the key:
  decoding inverts encoding, and every key that is not an encoding is refused.
\<close>

theorem path_key_roundtrip:
  "decode_path_key k = Inr p \<longleftrightarrow> encode_path_key p = Inr k \<and> relative_path_ok p"
  by (auto simp: decode_path_key_Inr encode_path_key_Inr)

text \<open>
  The byte order of path keys is the component order of paths, so that a run sorted by key is
  sorted by path.
\<close>

lemma path_key_order:
  assumes "encode_path_key p = Inr k" "encode_path_key q = Inr l"
  shows "cmp k l = rp_cmp p q"
  using assms by (simp add: encode_path_key_Inr cmp_key_bytes)

text \<open>
  File identities: decoding accepts exactly the encoding of an identity, an identity is read off
  the front of a longer key with its length, and comparing identities is comparing their encodings.
\<close>

lemma file_id_codec:
  "(decode_file_id bs = Inr f \<longleftrightarrow> encode_file_id_into f buffer = bs) \<and>
   decode_file_id_prefix (append_file_id f [] @ rest) = Inr (f, length (append_file_id f [])) \<and>
   cmp (append_file_id f []) (append_file_id g []) = compare_file_ids_by_encoding f g"
proof -
  have len: "length (file_id_bytes f) = file_id_encoded_bytes f" by (cases f) (simp_all add: file_id_bytes_def)
  have "cmp (file_id_bytes f) (file_id_bytes g) = compare_file_ids_by_encoding f g"
    using cmp_file_id_bytes [of f "[]" g "[]"] by (simp add: then_with_def del: cmp_iff)
  then show ?thesis
    using decode_file_id_prefix_append [of f rest] len
    by (auto simp: decode_file_id_Inr encode_file_id_into_eq file_id_bytes_def simp del: cmp_iff)
qed

section \<open>Observations\<close>

definition ex_metrics :: summary_metrics where
  "ex_metrics = \<lparr>sm_apparent_bytes = 5, sm_allocated_bytes = bb_exact 8, sm_reclaimable_bytes = bb_unknown, sm_descendants = 0\<rparr>"

definition ex_snapshot :: entry_snapshot where
  "ex_snapshot = \<lparr>es_identity = Some \<lparr>ni_file_id = Inode 1 2, ni_link_count = Some 2, ni_reparse_point = False\<rparr>,
     es_kind = NodeFile, es_apparent_bytes = 5, es_allocated_bytes = None, es_modified_nanos = Some 9\<rparr>"

definition ex_observation :: path_observation where
  "ex_observation = \<lparr>po_path = [[97]], po_kind = EntryFile, po_metrics = ex_metrics, po_coverage = CoverageComplete,
     po_snapshot = Some ex_snapshot\<rparr>"

lemma ex_path_ok: "relative_path_ok [[97]]" "nul_free [[97]]" "relative_path_ok ([] :: relative_path)"
  by (simp_all add: relative_path_ok_def valid_component_iff)

lemma ex_metrics_ok: "metrics_ok ex_metrics"
  by (simp add: metrics_ok_def ex_metrics_def)

lemma ex_observation_encodes: "\<exists>v. encode_path_observation_into ex_observation = Inr ([97, 0], v)"
proof -
  have "po_snapshot ex_observation = Some ex_snapshot" "snapshot_consistent ex_observation ex_snapshot"
    by (simp_all add: ex_observation_def snapshot_consistent_def ex_metrics_def ex_snapshot_def)
  then obtain f where "snapshot_flags ex_observation (summary_metrics_flags (po_metrics ex_observation)) = Inr f"
    using snapshot_flags_Some(2) by blast
  then have "encode_path_observation_into ex_observation = Inr ([97, 0], observation_value ex_observation f)"
    by (simp add: encode_observation_Inr) (simp add: ex_observation_def)
  then show ?thesis by blast
qed

text \<open>
  C37. A path observation that could be encoded is decoded back unchanged, snapshot included, when its
  path and its metrics are well formed.
\<close>

theorem observation_roundtrip:
  assumes "encode_path_observation_into ob = Inr (k, v)" "relative_path_ok (po_path ob)" "metrics_ok (po_metrics ob)"
  shows "decode_path_observation k v = Inr ob"
  using assms by (rule decode_encode_observation)

theorem observation_roundtrip_witness:
  "\<exists>v. decode_path_observation [97, 0] v = Inr ex_observation"
proof -
  obtain v where "encode_path_observation_into ex_observation = Inr ([97, 0], v)" using ex_observation_encodes by blast
  from observation_roundtrip [OF this] ex_path_ok(1) ex_metrics_ok show ?thesis by (auto simp: ex_observation_def)
qed

text \<open>
  The decoder of path observations lets stray snapshot bits pass: next to the encoding of an
  observation without a snapshot it accepts the value with the identity bit set, which no observation
  encodes to.  The guard in the decoder that mentions these bits never refuses anything.
\<close>

lemma observation_stray_bits:
  assumes "encode_path_observation_into ob = Inr (k, v)" "relative_path_ok (po_path ob)" "metrics_ok (po_metrics ob)"
    "po_snapshot ob = None"
  shows "decode_path_observation k (v[3 := v ! 3 OR SNAPSHOT_IDENTITY_PRESENT]) = Inr ob \<and>
    (\<forall>ob' k'. encode_path_observation_into ob' \<noteq> Inr (k', v[3 := v ! 3 OR SNAPSHOT_IDENTITY_PRESENT])) \<and>
    \<not> snapshot_guard flags"
proof (intro conjI allI)
  let ?m = "summary_metrics_flags (po_metrics ob)" and ?f = "summary_metrics_flags (po_metrics ob) OR SNAPSHOT_IDENTITY_PRESENT"
  have v: "nul_free (po_path ob)" "k = key_bytes (po_path ob)" "v = observation_value ob ?m"
    using assms(1,4) by (auto simp: encode_observation_Inr snapshot_flags_def)
  have v3: "v[3 := v ! 3 OR SNAPSHOT_IDENTITY_PRESENT] = observation_value ob ?f"
    by (simp add: v(3) observation_value_def numeral_3_eq_3)
  have bits: "bit ?f n \<longleftrightarrow> bit ?m n \<or> n = 3" for n
    by (auto simp: bit_simps SNAPSHOT_IDENTITY_PRESENT_def bit_flag)
  have "?f AND METRIC_FLAGS = ?m" by (rule metric_flags_eq [of _ _ "\<lambda>n. n = 3"]) (auto simp: bits)
  moreover have "decode_snapshot ?f (po_kind ob) (po_metrics ob) [] = Inr (None, [])"
    by (simp add: decode_snapshot_def snapshot_flag_tests(1) bits bit_summary_metrics_flags)
  ultimately show "decode_path_observation k (v[3 := v ! 3 OR SNAPSHOT_IDENTITY_PRESENT]) = Inr ob"
    using decode_observation_value [of ?f ob] assms v v3 by simp
  show "\<not> snapshot_guard flags" by (rule snapshot_guard_dead)
  fix ob' k'
  show "encode_path_observation_into ob' \<noteq> Inr (k', v[3 := v ! 3 OR SNAPSHOT_IDENTITY_PRESENT])"
  proof
    assume "encode_path_observation_into ob' = Inr (k', v[3 := v ! 3 OR SNAPSHOT_IDENTITY_PRESENT])"
    then obtain f where f: "snapshot_flags ob' (summary_metrics_flags (po_metrics ob')) = Inr f"
      "observation_value ob' f = observation_value ob ?f" unfolding v3 encode_observation_Inr by metis
    then have "f = ?f" by (simp add: observation_value_def)
    then have b: "bit f 3" "\<not> bit f 2" by (simp_all add: bits bit_summary_metrics_flags)
    show False
    proof (cases "po_snapshot ob'")
      case None
      then have "f = summary_metrics_flags (po_metrics ob')" using f(1) by (simp add: snapshot_flags_def)
      with b(1) show False by (simp add: bit_summary_metrics_flags)
    next
      case (Some snap)
      with snapshot_flags_Some(1) [OF Some f(1)] b(2) show False by (simp add: snapshot_bit_def)
    qed
  qed
qed

section \<open>Summaries and identities\<close>

text \<open>
  A record of a directory-summary run decodes to an ordinal and a summary exactly when they encode
  to it and the summary's path and bounds are well formed.
\<close>

lemma directory_summary_roundtrip:
  "decode_directory_summary k v = Inr (n, y) \<longleftrightarrow>
     encode_directory_summary_into n y = Inr (k, v) \<and> relative_path_ok (ds_path y) \<and> metrics_ok (ds_metrics y)"
proof
  assume "decode_directory_summary k v = Inr (n, y)"
  from decode_summary_Inr [OF this] show "encode_directory_summary_into n y = Inr (k, v) \<and> relative_path_ok (ds_path y) \<and> metrics_ok (ds_metrics y)"
    by (simp add: encode_summary_fits)
next
  assume enc: "encode_directory_summary_into n y = Inr (k, v) \<and> relative_path_ok (ds_path y) \<and> metrics_ok (ds_metrics y)"
  then have "summary_fits y" "k = u64_be n" "v = summary_value y" by (auto simp: encode_summary_eq summary_fits_def split: if_splits)
  with enc show "decode_directory_summary k v = Inr (n, y)" by (simp add: decode_encode_summary)
qed

text \<open>
  Identity observations and allocation contributions: each decoder accepts exactly what its encoder
  produces for a well-formed path, and returns what was encoded.
\<close>

lemma identity_codecs:
  "(decode_identity_observation k v = Inr ob \<longleftrightarrow>
      encode_identity_observation_into ob = Inr (k, v) \<and> relative_path_ok (io_path ob)) \<and>
   (decode_allocation_contribution k v = Inr (f, c) \<longleftrightarrow>
      encode_allocation_contribution_into f c = Inr (k, v) \<and> relative_path_ok (ac_recipient c))"
proof -
  have "decode_identity_observation k v = Inr ob" if "encode_identity_observation_into ob = Inr (k, v)" "relative_path_ok (io_path ob)"
    using that decode_encode_identity [of ob] by (simp add: encode_identity_Inr)
  moreover have "decode_allocation_contribution k v = Inr (f, c)"
    if "encode_allocation_contribution_into f c = Inr (k, v)" "relative_path_ok (ac_recipient c)"
    using that decode_encode_contribution [of c f] by (simp add: encode_contribution_Inr)
  ultimately show ?thesis
    using decode_identity_record_Inr decode_contribution_Inr by (auto simp: encode_identity_Inr encode_contribution_Inr)
qed

end
