(* ===== verification/Run_Range_Spec.thy ===== *)
theory Run_Range_Spec
  imports Run_File_Spec
begin

text \<open>
  What the range reader returns: every record from the block its sparse index selects to the end of the
  run.  \<open>range_reader_reads\<close> says which block that is for a bound, and in particular that a
  bound below the first key of the run selects the end of the run.
\<close>

section \<open>States of the range reader\<close>

definition range_at :: "(bytes \<Rightarrow> bytes) \<Rightarrow> run_range_reader \<Rightarrow> run_record list \<Rightarrow> run_record list list \<Rightarrow> bool" where
  "range_at sha g rs bs \<longleftrightarrow>
     \<not> gr_finished g \<and> (\<exists>n m. gr_input g = body_bytes sha bs @ encode_footer n m) \<and>
     gr_block_capacity g < 2 ^ 32 \<and> length (gr_block g) \<le> gr_block_capacity g \<and>
     drop (gr_block_cursor g) (gr_block g) = payload rs \<and> gr_block_cursor g \<le> length (gr_block g) \<and>
     unat (gr_block_records g) = length rs \<and> (\<forall>b \<in> set bs. block_ok (gr_block_capacity g) b) \<and>
     keys_sorted (rs @ concat bs) \<and>
     (gr_has_key g \<longrightarrow> (\<forall>kv \<in> set (rs @ concat bs). gr_last_key g < fst kv))"

lemma gr_take_record_at:
  assumes at: "range_at sha g ((k, v) # rs) bs"
  shows "\<exists>g'. gr_take_record g = (Inr (Some (k, v), g') :: ('io run_error, _) res) \<and> range_at sha g' rs bs"
proof -
  note a = at [unfolded range_at_def]
  have len: "length (gr_block g) < 2 ^ 32" using a by linarith
  have rec: "gr_block_records g \<noteq> 0" "gr_block_records g = 1 \<Longrightarrow> payload rs = []" using a by auto
  have ord: "gr_has_key g \<Longrightarrow> gr_last_key g < k" using a by simp
  have d: "drop (gr_block_cursor g) (gr_block g) = frame (k, v) @ payload rs" using a by simp
  have cur: "gr_block_cursor g \<le> length (gr_block g)" using a by simp
  note p = parse_frame [OF d cur len ord rec(1) rec(2)]
  let ?g = "g\<lparr>gr_last_key := k, gr_has_key := True, gr_block_cursor := gr_block_cursor g + length (frame (k, v)),
      gr_block_records := gr_block_records g - 1\<rparr>"
  have "gr_take_record g = (Inr (Some (k, v), ?g) :: ('io run_error, _) res)" by (simp add: gr_take_record_def p(1))
  moreover have "unat (gr_block_records g - 1) = length rs" using a rec(1) by (simp add: unat_minus_1)
  moreover have "\<forall>kv \<in> set (rs @ concat bs). k < fst kv" "keys_sorted (rs @ concat bs)"
    using a by (simp_all add: keys_sorted_Cons)
  ultimately show ?thesis using a p(2,3) by (intro exI [of _ ?g]) (simp add: range_at_def)
qed

lemma gr_load_at:
  assumes at: "range_at sha g [] (b # bs)" and sha: "\<And>x. length (sha x) = 32"
  shows "\<exists>g'. gr_load_next_block sha g = (Inr (True, g') :: ('io run_error, _) res) \<and> range_at sha g' b bs"
proof -
  note a = at [unfolded range_at_def]
  obtain n m where inp: "gr_input g = block_bytes sha b @ body_bytes sha bs @ encode_footer n m" using a by auto
  have b: "block_ok (gr_block_capacity g) b" "gr_block_capacity g < 2 ^ 32" using a by auto
  note rb = read_block_at [where sha = sha, OF b sha]
  let ?g = "g\<lparr>gr_input := body_bytes sha bs @ encode_footer n m, gr_block := payload b,
      gr_block_cursor := 0, gr_block_records := of_nat (length b)\<rparr>"
  have "gr_load_next_block sha g = (Inr (True, ?g) :: ('io run_error, _) res)"
    by (simp add: gr_load_next_block_def inp take_tag rb(1))
  moreover have "unat (of_nat (length b) :: u32) = length b" using rb(3) by (simp add: unat_of_nat)
  ultimately show ?thesis using a b(1) by (intro exI [of _ ?g]) (auto simp: range_at_def block_ok_def)
qed

lemma gr_load_end:
  assumes "range_at sha g [] []"
  shows "gr_load_next_block sha g = Inr (False, g\<lparr>gr_input := [], gr_finished := True\<rparr>)"
  using assms by (auto simp: gr_load_next_block_def range_at_def take_footer_tag)

lemma gr_next_at:
  assumes at: "range_at sha g rs bs" and sha: "\<And>x. length (sha x) = 32" and some: "rs @ concat bs = kv # rest"
  shows "\<exists>g' rs' bs'. gr_next_record sha g = (Inr (Some kv, g') :: ('io run_error, _) res) \<and> range_at sha g' rs' bs' \<and>
    rs' @ concat bs' = rest"
proof -
  have fin: "\<not> gr_finished g" using at by (simp add: range_at_def)
  obtain k v where kv: "kv = (k, v)" by fastforce
  show ?thesis
  proof (cases rs)
    case (Cons x rs')
    have "gr_block_records g \<noteq> 0" using at Cons by (auto simp: range_at_def)
    moreover obtain g' where "gr_take_record g = (Inr (Some kv, g') :: ('io run_error, _) res)" "range_at sha g' rs' bs"
      using gr_take_record_at [of sha g k v rs' bs] at Cons some kv by auto
    ultimately show ?thesis using fin some Cons by (auto simp: gr_next_record_def)
  next
    case Nil
    have z: "gr_block_records g = 0" using at Nil by (simp add: range_at_def unat_eq_0)
    obtain b bs' where bs: "bs = b # bs'" using some Nil by (cases bs) auto
    have "b \<noteq> []" using at bs by (simp add: range_at_def block_ok_def)
    then obtain rs' where b: "b = kv # rs'" "rest = rs' @ concat bs'" using some Nil bs by (cases b) auto
    obtain g1 where g1: "gr_load_next_block sha g = (Inr (True, g1) :: ('io run_error, _) res)" "range_at sha g1 b bs'"
      using gr_load_at [of sha g b bs'] at Nil bs sha by auto
    obtain g' where "gr_take_record g1 = (Inr (Some kv, g') :: ('io run_error, _) res)" "range_at sha g' rs' bs'"
      using gr_take_record_at [of sha g1 k v rs' bs'] g1(2) b(1) kv by auto
    then show ?thesis using fin z g1(1) b(2) by (auto simp: gr_next_record_def)
  qed
qed

text \<open>Reading until the end, as a relation: the records a caller that does not stop sees.\<close>

inductive gr_reads :: "(bytes \<Rightarrow> bytes) \<Rightarrow> run_range_reader \<Rightarrow> run_record list \<Rightarrow> bool" for sha where
  at_end: "gr_next_record sha g = (Inr (None, g') :: (unit run_error, _) res) \<Longrightarrow> gr_reads sha g []"
| at_record: "gr_next_record sha g = (Inr (Some kv, g') :: (unit run_error, _) res) \<Longrightarrow> gr_reads sha g' rs \<Longrightarrow>
    gr_reads sha g (kv # rs)"

lemma gr_reads_at:
  assumes "range_at sha g rs bs" "\<And>x. length (sha x) = 32"
  shows "gr_reads sha g (rs @ concat bs)"
  using assms(1)
proof (induction "rs @ concat bs" arbitrary: rs bs g)
  case Nil
  then have "rs = []" by simp
  moreover have "bs = []"
  proof (cases bs)
    case (Cons b cs)
    with Nil have "b \<noteq> []" by (simp add: range_at_def block_ok_def)
    with Nil Cons show ?thesis by simp
  qed simp
  ultimately have at: "range_at sha g [] []" using Nil by simp
  then have "gr_block_records g = 0" "\<not> gr_finished g" by (simp_all add: range_at_def unat_eq_0)
  then have "gr_next_record sha g = (Inr (None, g\<lparr>gr_input := [], gr_finished := True\<rparr>) :: (unit run_error, _) res)"
    by (simp add: gr_next_record_def gr_load_end [OF at])
  then show ?case unfolding Nil(1) [symmetric] by (rule gr_reads.at_end)
next
  case (Cons kv rest)
  from gr_next_at [where 'io = unit, OF Cons.prems assms(2) Cons.hyps(2) [symmetric]]
  obtain g' rs' bs' where n: "gr_next_record sha g = (Inr (Some kv, g') :: (unit run_error, _) res)"
    "range_at sha g' rs' bs'" "rest = rs' @ concat bs'" by blast
  from gr_reads.at_record [OF n(1) Cons.hyps(1) [OF n(3,2)]] show ?case
    unfolding Cons.hyps(2) [symmetric] by (simp add: n(3))
qed

lemma gr_reads_unique: "gr_reads sha g rs \<Longrightarrow> gr_reads sha g qs \<Longrightarrow> rs = qs"
proof (induction arbitrary: qs rule: gr_reads.induct)
  case (at_end g g')
  from at_end.prems at_end.hyps show ?case by cases auto
next
  case (at_record g kv g' rs)
  from at_record.prems at_record.hyps(1) at_record.IH show ?case by cases auto
qed

section \<open>The selected block\<close>

lemma unat_of_nat_small: "n < 2 ^ 64 \<Longrightarrow> unat (of_nat n :: u64) = n"
  by (simp add: unat_of_nat)

lemma keys_sorted_appendD: "keys_sorted (rs @ qs) \<Longrightarrow> keys_sorted qs"
  by (simp add: keys_sorted_def sorted_wrt_append)

lemma keys_sorted_less: "keys_sorted (rs @ qs) \<Longrightarrow> a \<in> set rs \<Longrightarrow> b \<in> set qs \<Longrightarrow> fst a < fst b"
  by (auto simp: keys_sorted_def sorted_wrt_append)

lemma concat_take_drop: "concat bs = concat (take n bs) @ concat (drop n bs)"
  by (metis append_take_drop_id concat_append)

lemma range_at_new:
  assumes ok: "run_ok capacity bs" and len: "length (run_bytes sha d capacity bs) < 2 ^ 64" and n: "n \<le> length bs"
  shows "range_at sha (gr_new (run_bytes sha d capacity bs) (of_nat (28 + length (body_bytes sha (take n bs)))) capacity) [] (drop n bs)"
proof -
  let ?o = "28 + length (body_bytes sha (take n bs))"
  have body: "body_bytes sha bs = body_bytes sha (take n bs) @ body_bytes sha (drop n bs)"
    by (metis append_take_drop_id body_bytes_simps(3))
  have "?o < 2 ^ 64" using len by (simp add: run_bytes_def body)
  then have "unat (of_nat ?o :: u64) = ?o" by (metis unat_of_nat_small)
  moreover have "drop ?o (run_bytes sha d capacity bs) =
      body_bytes sha (drop n bs) @ encode_footer (of_nat (length (concat bs))) (of_nat (length bs))"
    by (simp add: run_bytes_def body)
  moreover have "keys_sorted (concat (drop n bs))"
    using ok concat_take_drop [of bs n] keys_sorted_appendD by (metis run_ok_def)
  ultimately show ?thesis
    using ok by (auto simp: range_at_def gr_new_def run_ok_def dest: in_set_dropD)
qed

lemma index_of_nth:
  "i < length bs \<Longrightarrow> index_of sha o1 bs ! i =
     \<lparr>sb_first_key = fst (hd (bs ! i)), sb_offset = of_nat (o1 + length (body_bytes sha (take i bs)))\<rparr>"
proof (induction bs arbitrary: i o1)
  case (Cons b bs)
  then show ?case by (cases i) (simp_all add: add.assoc)
qed simp

lemma length_index_of [simp]: "length (index_of sha o1 bs) = length bs"
  by (induction bs arbitrary: o1) simp_all

lemma length_takeWhile_index:
  "length (takeWhile (\<lambda>x. sb_first_key x \<le> lower) (index_of sha o1 bs)) = length (takeWhile (\<lambda>b. fst (hd b) \<le> lower) bs)"
  by (induction bs arbitrary: o1) simp_all

definition selected :: "bytes \<Rightarrow> run_record list list \<Rightarrow> nat" where
  "selected lower bs = length (takeWhile (\<lambda>b. fst (hd b) \<le> lower) bs)"

lemma selected_le: "selected lower bs \<le> length bs"
  by (simp add: selected_def length_takeWhile_le)

lemma range_reader_at:
  assumes run: "sr_file run = run_bytes sha d capacity bs" "sr_descriptor run = d" "unat (sr_bytes run) = length (sr_file run)"
    "sr_sparse_index run = Some (capacity, index_of sha 28 bs)" and ix: "indexed_kind (rd_kind d)"
    and ok: "run_ok capacity bs"
  shows "\<exists>g. range_reader run lower = (Inr g :: ('io run_error, _) res) \<and>
    range_at sha g [] (if selected lower bs = 0 then [] else drop (selected lower bs - 1) bs)"
proof -
  let ?n = "selected lower bs"
  have len: "length (run_bytes sha d capacity bs) < 2 ^ 64" using unat_lt_pow [of "sr_bytes run"] run(1,3) by simp
  have foot: "length (sr_file run) = 28 + length (body_bytes sha bs) + 20"
    by (simp add: run(1) run_bytes_def encode_footer_def FOOTER_MAGIC_def)
  have fb: "sr_bytes run - 20 = of_nat (28 + length (body_bytes sha bs))"
  proof (rule unat_eqD)
    have "20 \<le> sr_bytes run" using run(3) foot by (simp add: word_le_nat_alt)
    then show "unat (sr_bytes run - 20) = 28 + length (body_bytes sha bs)"
      using run(3) foot by (simp add: unat_sub)
  qed
  have tw: "length (takeWhile (\<lambda>b. sb_first_key b \<le> lower) (index_of sha 28 bs)) = ?n"
    by (simp add: length_takeWhile_index selected_def)
  let ?off = "if ?n = 0 then of_nat (28 + length (body_bytes sha bs)) else sb_offset (index_of sha 28 bs ! (?n - 1))"
  have rr: "range_reader run lower = (Inr (gr_new (sr_file run) ?off capacity) :: ('io run_error, _) res)"
    unfolding range_reader_def run(2,4) FOOTER_BYTES_def Let_def option.case prod.case tw
    using ix foot fb run(3) by simp
  show ?thesis
  proof (cases "?n = 0")
    case True
    have "range_at sha (gr_new (sr_file run) (of_nat (28 + length (body_bytes sha bs))) capacity) [] []"
      using range_at_new [OF ok len, of "length bs"] by (simp add: run(1))
    with rr True show ?thesis by auto
  next
    case False
    then have i: "?n - 1 < length bs" using selected_le [of lower bs] by linarith
    have "range_at sha (gr_new (sr_file run) ?off capacity) [] (drop (?n - 1) bs)"
      using range_at_new [OF ok len, of "?n - 1"] i False by (simp add: run(1) index_of_nth)
    with rr False show ?thesis by auto
  qed
qed

lemma range_reader_reads:
  assumes "sr_file run = run_bytes sha d capacity bs" "sr_descriptor run = d" "unat (sr_bytes run) = length (sr_file run)"
    "sr_sparse_index run = Some (capacity, index_of sha 28 bs)" "indexed_kind (rd_kind d)" "run_ok capacity bs"
    and "\<And>x. length (sha x) = 32"
  shows "\<exists>g. range_reader run lower = (Inr g :: ('io run_error, _) res) \<and>
    gr_reads sha g (if selected lower bs = 0 then [] else concat (drop (selected lower bs - 1) bs))"
  using range_reader_at [where ?'io = 'io, OF assms(1-6), of lower] gr_reads_at [OF _ assms(7)] by fastforce

text \<open>Records before the selected block are below the bound.\<close>

lemma selected_skips:
  assumes ok: "run_ok capacity bs" and kv: "kv \<in> set (concat (take (selected lower bs - 1) bs))"
  shows "fst kv < lower"
proof -
  let ?n = "selected lower bs"
  have n: "?n \<noteq> 0" using kv by (cases "?n = 0") simp_all
  then have i: "?n - 1 < length bs" using selected_le [of lower bs] by linarith
  have le: "fst (hd (bs ! (?n - 1))) \<le> lower"
  proof -
    have "?n - 1 < length (takeWhile (\<lambda>b. fst (hd b) \<le> lower) bs)" using n by (simp add: selected_def)
    from nth_mem [OF this] set_takeWhileD show ?thesis
      using takeWhile_nth [OF \<open>?n - 1 < length (takeWhile (\<lambda>b. fst (hd b) \<le> lower) bs)\<close>] by fastforce
  qed
  have ne: "bs ! (?n - 1) \<noteq> []" using ok i by (simp add: run_ok_def block_ok_def)
  have "drop (?n - 1) bs = bs ! (?n - 1) # drop ?n bs" using i n by (simp add: Cons_nth_drop_Suc [symmetric])
  then have "hd (bs ! (?n - 1)) \<in> set (concat (drop (?n - 1) bs))" using ne by simp
  moreover have "keys_sorted (concat (take (?n - 1) bs) @ concat (drop (?n - 1) bs))"
    using ok concat_take_drop by (metis run_ok_def)
  ultimately have "fst kv < fst (hd (bs ! (?n - 1)))" using kv keys_sorted_less by blast
  with le show ?thesis by simp
qed

end
