(* ===== verification/Run_Merge.thy ===== *)
theory Run_Merge
  imports Run_File_Spec "HOL-Library.Multiset"
begin

text \<open>
  The merge of sorted runs into one (\<open>src/src/scan_store/run_merge.rs\<close>).

  Each input keeps one decoded record; a buffer that is not ready is None here.  The loop takes the
  input with the smallest key, the first one on ties, until no input is ready.

  \<open>merge_loop_distinct\<close>: when no key occurs twice, the merge appends exactly the records of all
  inputs in key order.  \<open>merge_loop_success\<close>: when it succeeds, no key occurred twice.
\<close>

section \<open>Definitions\<close>

datatype 'io run_merge_error = MergeRun "'io run_error" | DescriptorMismatch | DuplicateKey | MergePanic

type_synonym merge_input = "run_reader \<times> run_record option"

text \<open>\<open>min_by\<close> over the ready inputs: the index of the first smallest key.\<close>

fun next_record_index :: "run_record option list \<Rightarrow> nat option" where
  "next_record_index [] = None"
| "next_record_index (None # bs) = map_option Suc (next_record_index bs)"
| "next_record_index (Some kv # bs) =
     (case next_record_index bs of
        None \<Rightarrow> Some 0
      | Some j \<Rightarrow>
          (case bs ! j of
             None \<Rightarrow> Some 0
           | Some kv' \<Rightarrow> if fst kv \<le> fst kv' then Some 0 else Some (Suc j)))"

definition input_measure :: "merge_input \<Rightarrow> nat" where
  "input_measure x = 2 * rr_remaining (fst x) + (if snd x = None then 0 else 1)"

lemma rr_next_record_le:
  assumes "rr_next_record sha running r = Inr (kv, r')"
  shows "rr_remaining r' \<le> rr_remaining r"
proof -
  let ?r = "r\<lparr>rr_consumed := True\<rparr>"
  have "rr_remaining ?r = rr_remaining r" by simp
  moreover have "rr_load_next_block sha running q = Inr (b, q') \<Longrightarrow> rr_remaining q' \<le> rr_remaining q" for b q q'
    using rr_load_remaining less_imp_le by blast
  moreover have "rr_take_record q = (Inr (y, q') :: ('a run_error, _) res) \<Longrightarrow> rr_remaining q' \<le> rr_remaining q" for y q q'
    using rr_take_record_remaining less_imp_le by blast
  ultimately show ?thesis
    using assms by (fastforce simp: rr_next_record_def Let_def res_bind_Inr_iff split: if_splits)
qed

lemma input_measure_next:
  assumes "snd x = Some kv" "rr_next_record sha running (fst x) = Inr (nx, r')"
  shows "input_measure (r', nx) < input_measure x"
  using assms rr_next_record_le [OF assms(2)] rr_next_record_remaining [of sha running "fst x" _ r']
  by (cases nx) (auto simp: input_measure_def)

lemma sum_list_update_less:
  "i < length xs \<Longrightarrow> f y < f (xs ! i) \<Longrightarrow> sum_list (map f (xs[i := y])) < (sum_list (map f xs) :: nat)"
proof (induction xs arbitrary: i)
  case (Cons x xs)
  then show ?case by (cases i) simp_all
qed simp

function merge_loop :: "(bytes \<Rightarrow> bytes) \<Rightarrow> (u64 \<Rightarrow> 'io option) \<Rightarrow> 'io grow \<Rightarrow> merge_input list \<Rightarrow> bytes option \<Rightarrow>
    run_writer \<Rightarrow> ('io run_merge_error, run_writer) res" where
  "merge_loop sha running grow ins previous_key w =
     (case next_record_index (map snd ins) of
        None \<Rightarrow> Inr w
      | Some i \<Rightarrow>
          if \<not> i < length ins then Inl MergePanic
          else
            (case snd (ins ! i) of
               None \<Rightarrow> Inl MergePanic
             | Some kv \<Rightarrow>
                 if previous_key = Some (fst kv) then Inl DuplicateKey
                 else
                   (case rw_append sha grow (fst kv) (snd kv) w of
                      Inl e \<Rightarrow> Inl (MergeRun e)
                    | Inr w' \<Rightarrow>
                        (case rr_next_record sha running (fst (ins ! i)) of
                           Inl e \<Rightarrow> Inl (MergeRun e)
                         | Inr (nx, r') \<Rightarrow>
                             merge_loop sha running grow (ins[i := (r', nx)]) (Some (fst kv)) w'))))"
  by pat_completeness auto
termination
  by (relation "measure (\<lambda>(sha, running, grow, ins, previous_key, w). sum_list (map input_measure ins))")
    (auto intro!: sum_list_update_less input_measure_next)

declare merge_loop.simps [simp del]

fun fill_inputs :: "(bytes \<Rightarrow> bytes) \<Rightarrow> (u64 \<Rightarrow> 'io option) \<Rightarrow> run_reader list \<Rightarrow> ('io run_merge_error, merge_input list) res" where
  "fill_inputs sha running [] = Inr []"
| "fill_inputs sha running (r # rs) =
     res_bind (map_err MergeRun (rr_next_record sha running r)) (\<lambda>(nx, r').
     res_bind (fill_inputs sha running rs) (\<lambda>ins. Inr ((r', nx) # ins)))"

definition merge_sorted_runs :: "(bytes \<Rightarrow> bytes) \<Rightarrow> (u64 \<Rightarrow> 'io option) \<Rightarrow> 'io grow \<Rightarrow> run_reader list \<Rightarrow>
    run_writer \<Rightarrow> ('io run_merge_error, run_writer) res" where
  "merge_sorted_runs sha running grow inputs output =
     (if \<exists>r \<in> set inputs. rd_generation (rr_descriptor r) \<noteq> rd_generation (rw_descriptor output)
                        \<or> rd_kind (rr_descriptor r) \<noteq> rd_kind (rw_descriptor output)
      then Inl DescriptorMismatch
      else res_bind (fill_inputs sha running inputs) (\<lambda>ins. merge_loop sha running grow ins None output))"

section \<open>Choosing an input\<close>

lemma next_record_index_None: "next_record_index bs = None \<longleftrightarrow> (\<forall>b \<in> set bs. b = None)"
  by (induction bs rule: next_record_index.induct) (auto split: option.splits if_splits)

lemma next_record_index_Some:
  "next_record_index bs = Some i \<Longrightarrow>
    i < length bs \<and> (\<exists>kv. bs ! i = Some kv \<and> (\<forall>kv'. Some kv' \<in> set bs \<longrightarrow> fst kv \<le> fst kv'))"
proof (induction bs arbitrary: i rule: next_record_index.induct)
  case (3 kv bs)
  show ?case
  proof (cases "next_record_index bs")
    case None
    with 3 show ?thesis by (auto simp: next_record_index_None)
  next
    case (Some j)
    from "3.IH" [OF Some] obtain kv' where kv': "j < length bs" "bs ! j = Some kv'"
      "\<forall>x. Some x \<in> set bs \<longrightarrow> fst kv' \<le> fst x" by blast
    show ?thesis
    proof (cases "fst kv \<le> fst kv'")
      case True
      with "3.prems" Some kv' have "i = 0" by simp
      moreover have "\<forall>x. Some x \<in> set (Some kv # bs) \<longrightarrow> fst kv \<le> fst x" using True kv'(3) by force
      ultimately show ?thesis by simp
    next
      case False
      with "3.prems" Some kv' have "i = Suc j" by simp
      moreover have "\<forall>x. Some x \<in> set (Some kv # bs) \<longrightarrow> fst kv' \<le> fst x" using False kv'(3) by force
      ultimately show ?thesis using kv'(1,2) by simp
    qed
  qed
qed auto

section \<open>Streams\<close>

text \<open>What an input still has to give: its buffered record and the records behind it.\<close>

definition stream_at :: "(bytes \<Rightarrow> bytes) \<Rightarrow> merge_input \<Rightarrow> run_record list \<Rightarrow> bool" where
  "stream_at sha x s \<longleftrightarrow>
     (case snd x of
        None \<Rightarrow> s = []
      | Some kv \<Rightarrow> \<exists>rs bs N B. reader_at sha (fst x) rs bs N B \<and> s = kv # rs @ concat bs) \<and> keys_sorted s"

lemma reader_at_sorted: "reader_at sha r rs bs N B \<Longrightarrow> keys_sorted (rs @ concat bs)"
  by (simp add: reader_at_def)

lemma stream_at_next:
  fixes running :: "u64 \<Rightarrow> 'io option"
  assumes at: "reader_at sha r rs bs N B" and sha: "\<And>x. length (sha x) = 32" and run: "\<And>n. running n = None"
  shows "\<exists>nx r'. rr_next_record sha running r = Inr (nx, r') \<and> stream_at sha (r', nx) (rs @ concat bs)"
proof (cases "rs @ concat bs")
  case Nil
  from rr_next_end [where running = running, OF at run Nil]
  obtain r' where "rr_next_record sha running r = Inr (None, r')" by blast
  moreover have "stream_at sha (r', None) []" by (simp add: stream_at_def keys_sorted_def)
  ultimately show ?thesis unfolding Nil by blast
next
  case (Cons kv rest)
  from rr_next_at [where running = running, OF at sha run Cons]
  obtain r' rs' bs' where "rr_next_record sha running r = Inr (Some kv, r')" "reader_at sha r' rs' bs' N B"
    "rs' @ concat bs' = rest" by blast
  moreover have "keys_sorted (kv # rest)" using reader_at_sorted [OF at] Cons by simp
  ultimately show ?thesis unfolding Cons by (fastforce simp: stream_at_def)
qed

lemma stream_at_tail:
  fixes running :: "u64 \<Rightarrow> 'io option"
  assumes "stream_at sha x s" "snd x = Some kv" "\<And>x. length (sha x) = 32" "\<And>n. running n = None"
  shows "s = kv # tl s" "\<exists>nx r'. rr_next_record sha running (fst x) = Inr (nx, r') \<and> stream_at sha (r', nx) (tl s)"
proof -
  obtain rs bs N B where at: "reader_at sha (fst x) rs bs N B" "s = kv # rs @ concat bs"
    using assms(1,2) by (auto simp: stream_at_def)
  then show "s = kv # tl s" by simp
  from stream_at_next [where running = running, OF at(1) assms(3,4)] at(2)
  show "\<exists>nx r'. rr_next_record sha running (fst x) = Inr (nx, r') \<and> stream_at sha (r', nx) (tl s)" by simp
qed

lemma mset_concat_update:
  "i < length ss \<Longrightarrow> ss ! i = x # t \<Longrightarrow> mset (concat ss) = add_mset x (mset (concat (ss[i := t])))"
proof (induction ss arbitrary: i)
  case (Cons s ss)
  then show ?case by (cases i) simp_all
qed simp

lemma stream_at_head_le:
  assumes "stream_at sha x s" "kv \<in> set s"
  obtains h where "snd x = Some h" "fst h \<le> fst kv"
proof (cases "snd x")
  case None
  with assms show ?thesis by (simp add: stream_at_def)
next
  case (Some h)
  then obtain t where t: "s = h # t" using assms(1) by (auto simp: stream_at_def)
  then have "\<forall>y \<in> set t. fst h < fst y" using assms(1) by (simp add: stream_at_def keys_sorted_def)
  then have "fst h \<le> fst kv" using assms(2) t by (auto simp: less_imp_le)
  with Some show ?thesis by (rule that)
qed

text \<open>One round of the loop: either every stream is exhausted, or a least record is taken.\<close>

lemma merge_round:
  fixes running :: "u64 \<Rightarrow> 'io option"
  assumes at: "list_all2 (stream_at sha) ins ss" and sha: "\<And>x. length (sha x) = 32" and run: "\<And>n. running n = None"
    and some: "next_record_index (map snd ins) = Some i"
  shows "\<exists>kv t nx r'. i < length ins \<and> snd (ins ! i) = Some kv \<and> mset (concat ss) = add_mset kv (mset (concat (ss[i := t])))
    \<and> rr_next_record sha running (fst (ins ! i)) = Inr (nx, r')
    \<and> list_all2 (stream_at sha) (ins[i := (r', nx)]) (ss[i := t]) \<and> (\<forall>x \<in> set (concat ss). fst kv \<le> fst x)"
proof -
  from next_record_index_Some [OF some] obtain kv where kv: "i < length ins" "snd (ins ! i) = Some kv"
    "\<forall>kv'. Some kv' \<in> set (map snd ins) \<longrightarrow> fst kv \<le> fst kv'" by auto
  have len: "length ins = length ss" using at by (rule list_all2_lengthD)
  have si: "stream_at sha (ins ! i) (ss ! i)" using list_all2_nthD [OF at kv(1)] .
  note tail = stream_at_tail [where running = running, OF si kv(2) sha run]
  from tail(2) obtain nx r' where nx: "rr_next_record sha running (fst (ins ! i)) = Inr (nx, r')"
    "stream_at sha (r', nx) (tl (ss ! i))" by blast
  have "list_all2 (stream_at sha) (ins[i := (r', nx)]) (ss[i := tl (ss ! i)])"
    using at nx(2) by (rule list_all2_update_cong)
  moreover have "mset (concat ss) = add_mset kv (mset (concat (ss[i := tl (ss ! i)])))"
    by (rule mset_concat_update) (use kv(1) len tail(1) in simp_all)
  moreover have "fst kv \<le> fst x" if x: "x \<in> set (concat ss)" for x
  proof -
    from x obtain j where j: "j < length ss" "x \<in> set (ss ! j)" by (auto simp: in_set_conv_nth [of _ ss])
    from stream_at_head_le [OF list_all2_nthD2 [OF at j(1)] j(2)]
    obtain h where h: "snd (ins ! j) = Some h" "fst h \<le> fst x" .
    have "snd (ins ! j) \<in> set (map snd ins)" using j(1) len by simp
    with h(1) kv(3) have "fst kv \<le> fst h" by metis
    from this h(2) show ?thesis by (rule order_trans)
  qed
  ultimately show ?thesis using kv(1,2) nx(1) by blast
qed

lemma merge_exhausted:
  assumes "list_all2 (stream_at sha) ins ss" "next_record_index (map snd ins) = None"
  shows "concat ss = []"
proof -
  have "ss ! j = []" if "j < length ss" for j
    using list_all2_nthD2 [OF assms(1) that] assms(2) that list_all2_lengthD [OF assms(1)]
    by (auto simp: next_record_index_None stream_at_def)
  then show ?thesis by (auto simp: in_set_conv_nth [of _ ss])
qed

section \<open>Correctness of the loop\<close>

lemma merge_loop_distinct:
  fixes running :: "u64 \<Rightarrow> 'io option"
  assumes sha: "\<And>x. length (sha x) = 32" and run: "\<And>n. running n = None"
  shows "list_all2 (stream_at sha) ins ss \<Longrightarrow> distinct (map fst (concat ss)) \<Longrightarrow>
    (\<forall>kv \<in> set (concat ss). prev \<noteq> Some (fst kv)) \<Longrightarrow>
    \<exists>ms. keys_sorted ms \<and> mset ms = mset (concat ss)
       \<and> merge_loop sha running grow ins prev w = map_err MergeRun (append_all sha grow ms w)"
proof (induction "mset (concat ss)" arbitrary: ins ss prev w rule: measure_induct_rule [of size])
  case less
  show ?case
  proof (cases "next_record_index (map snd ins)")
    case None
    from merge_exhausted [OF less.prems(1) None] have "concat ss = []" .
    then show ?thesis using None by (intro exI [of _ "[]"]) (simp add: merge_loop.simps [of _ _ _ ins] keys_sorted_def)
  next
    case (Some i)
    from merge_round [where running = running, OF less.prems(1) sha run Some]
    obtain kv t nx r' where r: "i < length ins" "snd (ins ! i) = Some kv"
      "mset (concat ss) = add_mset kv (mset (concat (ss[i := t])))"
      "rr_next_record sha running (fst (ins ! i)) = Inr (nx, r')"
      "list_all2 (stream_at sha) (ins[i := (r', nx)]) (ss[i := t])" "\<forall>x \<in> set (concat ss). fst kv \<le> fst x" by blast
    let ?rest = "concat (ss[i := t])"
    have sets: "set (concat ss) = insert kv (set ?rest)" by (metis r(3) set_mset_add_mset_insert set_mset_mset)
    have "mset (map fst (concat ss)) = mset (fst kv # map fst ?rest)" using r(3) by simp
    then have d: "distinct (fst kv # map fst ?rest)" using less.prems(2) by (metis mset_eq_imp_distinct_iff)
    have np: "prev \<noteq> Some (fst kv)" using less.prems(3) sets by blast
    have step: "merge_loop sha running grow ins prev w =
        res_bind (map_err MergeRun (rw_append sha grow (fst kv) (snd kv) w))
          (merge_loop sha running grow (ins[i := (r', nx)]) (Some (fst kv)))"
      using Some r(1,2,4) np by (simp add: merge_loop.simps [of _ _ _ ins] split: sum.split)
    have ih: "\<exists>ms. keys_sorted ms \<and> mset ms = mset ?rest
       \<and> merge_loop sha running grow (ins[i := (r', nx)]) (Some (fst kv)) w' = map_err MergeRun (append_all sha grow ms w')" for w'
      by (rule less.hyps) (use d r(3,5) in \<open>auto simp: image_iff\<close>)
    have sorted: "keys_sorted (kv # ms)" if "keys_sorted ms" "mset ms = mset ?rest" for ms
    proof -
      have "set ms = set ?rest" using that(2) by (metis set_mset_mset)
      moreover have "fst kv < fst x" if "x \<in> set ?rest" for x
      proof -
        have "fst kv \<noteq> fst x" using d that by (metis distinct.simps(2) image_eqI list.set_map)
        moreover have "fst kv \<le> fst x" using r(6) sets that by blast
        ultimately show ?thesis by (simp only: less_le simp_thms)
      qed
      ultimately have "\<forall>x \<in> set ms. fst kv < fst x" by blast
      with that(1) show ?thesis by (simp add: keys_sorted_def)
    qed
    show ?thesis
    proof (cases "rw_append sha grow (fst kv) (snd kv) w")
      case (Inl e)
      obtain ms where "keys_sorted ms" "mset ms = mset ?rest" using ih by blast
      then show ?thesis using sorted step Inl r(3) by (intro exI [of _ "kv # ms"]) simp
    next
      case (Inr w')
      obtain ms where "keys_sorted ms" "mset ms = mset ?rest"
        "merge_loop sha running grow (ins[i := (r', nx)]) (Some (fst kv)) w' = map_err MergeRun (append_all sha grow ms w')"
        using ih by blast
      then show ?thesis using sorted step Inr r(3) by (intro exI [of _ "kv # ms"]) simp
    qed
  qed
qed

lemma merge_loop_success:
  fixes running :: "u64 \<Rightarrow> 'io option"
  assumes sha: "\<And>x. length (sha x) = 32" and run: "\<And>n. running n = None"
  shows "list_all2 (stream_at sha) ins ss \<Longrightarrow> merge_loop sha running grow ins prev w = Inr w' \<Longrightarrow>
    (\<forall>k. prev = Some k \<longrightarrow> (\<forall>x \<in> set (concat ss). k \<le> fst x)) \<Longrightarrow>
    distinct (map fst (concat ss)) \<and> (\<forall>x \<in> set (concat ss). prev \<noteq> Some (fst x))"
proof (induction "mset (concat ss)" arbitrary: ins ss prev w rule: measure_induct_rule [of size])
  case less
  show ?case
  proof (cases "next_record_index (map snd ins)")
    case None
    then show ?thesis unfolding merge_exhausted [OF less.prems(1) None] by simp
  next
    case (Some i)
    from merge_round [where running = running, OF less.prems(1) sha run Some]
    obtain kv t nx r' where r: "i < length ins" "snd (ins ! i) = Some kv"
      "mset (concat ss) = add_mset kv (mset (concat (ss[i := t])))"
      "rr_next_record sha running (fst (ins ! i)) = Inr (nx, r')"
      "list_all2 (stream_at sha) (ins[i := (r', nx)]) (ss[i := t])" "\<forall>x \<in> set (concat ss). fst kv \<le> fst x" by blast
    let ?rest = "concat (ss[i := t])"
    have sets: "set (concat ss) = insert kv (set ?rest)" by (metis r(3) set_mset_add_mset_insert set_mset_mset)
    have np: "prev \<noteq> Some (fst kv)"
      using less.prems(2) Some r(1,2) by (auto simp: merge_loop.simps [of _ _ _ ins])
    then obtain w1 where "merge_loop sha running grow (ins[i := (r', nx)]) (Some (fst kv)) w1 = Inr w'"
      using less.prems(2) Some r(1,2,4) by (auto simp: merge_loop.simps [of _ _ _ ins] split: sum.splits)
    from less.hyps [OF _ r(5) this] r(3,6) sets
    have ih: "distinct (map fst ?rest)" "\<forall>x \<in> set ?rest. fst kv \<noteq> fst x" by auto
    then have "distinct (map fst (kv # ?rest))" by auto
    moreover have "mset (map fst (concat ss)) = mset (map fst (kv # ?rest))" using r(3) by simp
    ultimately have "distinct (map fst (concat ss))" by (metis mset_eq_imp_distinct_iff)
    moreover have "prev \<noteq> Some (fst x)" if "x \<in> set (concat ss)" for x
      using np less.prems(3) r(6) sets that by fastforce
    ultimately show ?thesis by blast
  qed
qed

section \<open>Whole runs\<close>

lemma fill_inputs_at:
  fixes running :: "u64 \<Rightarrow> 'io option"
  assumes sha: "\<And>x. length (sha x) = 32" and run: "\<And>n. running n = None"
  shows "list_all2 (\<lambda>r s. \<exists>bs N B. reader_at sha r [] bs N B \<and> s = concat bs) rs ss \<Longrightarrow>
    \<exists>ins. fill_inputs sha running rs = Inr ins \<and> list_all2 (stream_at sha) ins ss"
proof (induction rule: list_all2_induct)
  case (Cons r rs s ss)
  then obtain bs N B ins where at: "reader_at sha r [] bs N B" "s = concat bs" and
    ins: "fill_inputs sha running rs = Inr ins" "list_all2 (stream_at sha) ins ss" by blast
  obtain nx r' where "rr_next_record sha running r = Inr (nx, r')" "stream_at sha (r', nx) s"
    using stream_at_next [where running = running, OF at(1) sha run] at(2) by auto
  with ins show ?case by auto
qed simp

lemma keys_sorted_unique:
  assumes "keys_sorted ms" "mset ms = mset rs"
  shows "ms = sort_key fst rs"
proof (rule map_sorted_distinct_set_unique [of fst])
  have strict: "sorted_wrt (<) (map fst ms)" using assms(1) by (simp add: keys_sorted_def sorted_wrt_map)
  then show d: "distinct (map fst ms)" "sorted (map fst ms)"
    using strict_sorted_iff by blast+
  have "mset (map fst ms) = mset (map fst (sort_key fst rs))" using assms(2) by simp
  then show "distinct (map fst (sort_key fst rs))" using d(1) mset_eq_imp_distinct_iff by blast
  show "set ms = set (sort_key fst rs)" using assms(2) by (metis mset_eq_setD set_sort)
  then show "inj_on fst (set ms \<union> set (sort_key fst rs))" using d(1) by (simp add: distinct_map)
qed simp

lemma merge_sorted_runs_at:
  fixes running :: "u64 \<Rightarrow> 'io option"
  assumes sha: "\<And>x. length (sha x) = 32" and run: "\<And>n. running n = None"
    and at: "list_all2 (\<lambda>r s. \<exists>bs N B. reader_at sha r [] bs N B \<and> s = concat bs) inputs ss"
    and ds: "\<forall>r \<in> set inputs. rd_generation (rr_descriptor r) = rd_generation (rw_descriptor w) \<and>
      rd_kind (rr_descriptor r) = rd_kind (rw_descriptor w)"
  shows "distinct (map fst (concat ss)) \<Longrightarrow> merge_sorted_runs sha running grow inputs w =
      map_err MergeRun (append_all sha grow (sort_key fst (concat ss)) w)"
    "\<not> distinct (map fst (concat ss)) \<Longrightarrow> \<exists>e. merge_sorted_runs sha running grow inputs w = Inl e"
proof -
  obtain ins where ins: "fill_inputs sha running inputs = Inr ins" "list_all2 (stream_at sha) ins ss"
    using fill_inputs_at [where running = running, OF sha run at] by blast
  have eq: "merge_sorted_runs sha running grow inputs w = merge_loop sha running grow ins None w"
    using ds ins(1) by (auto simp: merge_sorted_runs_def)
  show "distinct (map fst (concat ss)) \<Longrightarrow> merge_sorted_runs sha running grow inputs w =
      map_err MergeRun (append_all sha grow (sort_key fst (concat ss)) w)"
    using merge_loop_distinct [where running = running and grow = grow and w = w and prev = None, OF sha run ins(2)]
      keys_sorted_unique eq by auto
  show "\<not> distinct (map fst (concat ss)) \<Longrightarrow> \<exists>e. merge_sorted_runs sha running grow inputs w = Inl e"
    using merge_loop_success [where running = running and grow = grow and w = w and prev = None, OF sha run ins(2)] eq
    by (cases "merge_loop sha running grow ins None w") auto
qed

end
