(* ===== verification/Quota.thy ===== *)
theory Quota
  imports Excise_Prelude
begin

text \<open>
  The contract that the memory budget and the storage quota share: an amount is taken when it fits
  under the limit and given back later.  \<open>quota_steps\<close> is a client that takes amounts, one
  reservation each, and drops reservations in any order; in every provider of the contract the counter
  is then the sum of the reservations that are left.
\<close>

datatype 'n quota_op = Take 'n | Drop nat

definition quota_step :: "('n \<Rightarrow> 's \<Rightarrow> ('e, 's) res) \<Rightarrow> ('n \<Rightarrow> 's \<Rightarrow> ('e, 's) res) \<Rightarrow> 'n quota_op \<Rightarrow> 's \<times> 'n list \<Rightarrow> 's \<times> 'n list" where
  "quota_step acquire give op1 x =
     (case op1 of
        Take n \<Rightarrow> (case acquire n (fst x) of Inl _ \<Rightarrow> x | Inr s \<Rightarrow> (s, n # snd x))
      | Drop i \<Rightarrow>
          if i < length (snd x)
          then (case give (snd x ! i) (fst x) of Inl _ \<Rightarrow> x | Inr s \<Rightarrow> (s, List.take i (snd x) @ drop (Suc i) (snd x)))
          else x)"

primrec quota_steps :: "('n \<Rightarrow> 's \<Rightarrow> ('e, 's) res) \<Rightarrow> ('n \<Rightarrow> 's \<Rightarrow> ('e, 's) res) \<Rightarrow> 'n quota_op list \<Rightarrow> 's \<times> 'n list \<Rightarrow> 's \<times> 'n list" where
  "quota_steps acquire give [] x = x"
| "quota_steps acquire give (op1 # ops) x = quota_steps acquire give ops (quota_step acquire give op1 x)"

lemma sum_list_remove_nth:
  "i < length xs \<Longrightarrow> sum_list (map f (List.take i xs @ drop (Suc i) xs)) + f (xs ! i) = (sum_list (map f xs) :: nat)"
proof (induction xs arbitrary: i)
  case (Cons x xs)
  then show ?case by (cases i) (simp_all add: add.assoc)
qed simp

locale quota =
  fixes acquire :: "'n \<Rightarrow> 's \<Rightarrow> ('e, 's) res"
    and give :: "'n \<Rightarrow> 's \<Rightarrow> ('e, 's) res"
    and amount :: "'n \<Rightarrow> nat"
    and used :: "'s \<Rightarrow> nat"
    and limit :: "'s \<Rightarrow> nat"
    and ok :: "'s \<Rightarrow> bool"
  assumes ok_used: "ok s \<Longrightarrow> used s \<le> limit s"
    and acquire_iff: "ok s \<Longrightarrow> (\<exists>s'. acquire n s = Inr s') \<longleftrightarrow> used s + amount n \<le> limit s"
    and acquire_Inr: "ok s \<Longrightarrow> acquire n s = Inr s' \<Longrightarrow> ok s' \<and> used s' = used s + amount n \<and> limit s' = limit s"
    and give_Inr: "ok s \<Longrightarrow> amount n \<le> used s \<Longrightarrow>
      \<exists>s'. give n s = Inr s' \<and> ok s' \<and> used s' = used s - amount n \<and> limit s' = limit s"
begin

definition held :: "'n list \<Rightarrow> nat" where
  "held ns = sum_list (map amount ns)"

lemma step_held:
  assumes "ok s" "used s = base + held ns" "quota_step acquire give op1 (s, ns) = (s', ns')"
  shows "ok s' \<and> used s' = base + held ns' \<and> limit s' = limit s"
proof (cases op1)
  case (Take n)
  then show ?thesis
    using assms acquire_Inr [of s n] by (cases "acquire n s") (auto simp: quota_step_def held_def)
next
  case (Drop i)
  show ?thesis
  proof (cases "i < length ns")
    case True
    have rest: "held (List.take i ns @ drop (Suc i) ns) + amount (ns ! i) = held ns"
      unfolding held_def by (rule sum_list_remove_nth [OF True])
    then obtain s1 where "give (ns ! i) s = Inr s1" "ok s1" "used s1 = used s - amount (ns ! i)" "limit s1 = limit s"
      using give_Inr [of s "ns ! i"] assms(1,2) by auto
    then show ?thesis using assms Drop True rest by (auto simp: quota_step_def)
  next
    case False
    then show ?thesis using assms Drop by (simp add: quota_step_def)
  qed
qed

lemma steps_held:
  "ok s \<Longrightarrow> used s = base + held ns \<Longrightarrow> quota_steps acquire give ops (s, ns) = (s', ns') \<Longrightarrow>
    ok s' \<and> used s' = base + held ns' \<and> limit s' = limit s"
proof (induction ops arbitrary: s ns)
  case (Cons op1 ops)
  obtain s1 ns1 where one: "quota_step acquire give op1 (s, ns) = (s1, ns1)" by fastforce
  from step_held [OF Cons.prems(1,2) one] Cons.IH [of s1 ns1] Cons.prems(3) one show ?case by simp
qed simp

lemma drop_all:
  assumes "ok s" "used s = base + held ns"
  shows "\<exists>s'. quota_steps acquire give (map (\<lambda>_. Drop 0) ns) (s, ns) = (s', []) \<and> used s' = base \<and> limit s' = limit s"
  using assms
proof (induction ns arbitrary: s)
  case Nil
  then show ?case by (simp add: held_def)
next
  case (Cons n ns)
  have "used s = base + (amount n + held ns)" using Cons.prems(2) by (simp add: held_def)
  then obtain s1 where s1: "give n s = Inr s1" "ok s1" "used s1 = base + held ns" "limit s1 = limit s"
    using give_Inr [OF Cons.prems(1), of n] by auto
  from Cons.IH [OF s1(2,3)] s1(1,4) show ?case by (simp add: quota_step_def)
qed

lemma refused_iff: "ok s \<Longrightarrow> (\<exists>e. acquire n s = Inl e) \<longleftrightarrow> limit s < used s + amount n"
  using acquire_iff [of s n] by (cases "acquire n s") auto

end

end
