(* ===== verification/Temporary_Storage.thy ===== *)
theory Temporary_Storage
  imports Quota
begin

text \<open>
  The session's storage quota (\<open>src/src/temporary_storage.rs\<close>): limits, the atomic counter of
  reserved bytes, reservations, and the file backend that charges a database file to one reservation.

  \<open>reserve_required\<close> and \<open>release_remaining\<close> are the bodies of the two compare-and-exchange
  loops; \<open>ts_reserve\<close> and \<open>ts_release\<close> are the loops run without interference, and
  \<open>storage_step\<close> is the program of several threads, one step per atomic access, in which a weak
  exchange may fail whenever the code allows it.  \<open>storage_invariant\<close> shows that the counter is
  always the sum of the live reservations and never exceeds the limit, and \<open>release_never_panics\<close>
  that the underflow panic is unreachable.  \<open>backend_ok\<close> is the invariant of the file backend.

  Messages, the \<open>peak_used\<close> counter of the internal feature and the registry of private files are
  left out; free space of a volume and outcomes of file calls are arguments.
\<close>

section \<open>Limits\<close>

datatype 'io io_error =
    StorageFull | SessionStopped | InvalidInput | InvalidData | UnexpectedEof | WriteZero | OsError 'io
  | AccountingPanic

definition MIB :: u64 where "MIB = 1024 * 1024"
definition SCAN_STORE_FREE_SPACE_RESERVE_DIVISOR :: u64 where "SCAN_STORE_FREE_SPACE_RESERVE_DIVISOR = 4"
definition MIN_SCAN_STORE_BYTES :: u64 where "MIN_SCAN_STORE_BYTES = MIB * 2"

definition checked_mul :: "u64 \<Rightarrow> u64 \<Rightarrow> u64 option" where
  "checked_mul a b = (if unat a * unat b < 2 ^ 64 then Some (a * b) else None)"

definition mib_to_bytes :: "u64 \<Rightarrow> ('io io_error, u64) res" where
  "mib_to_bytes mib = ok_or (checked_mul mib MIB) InvalidInput"

definition scan_store_limit_bytes :: "u64 option \<Rightarrow> u64 option \<Rightarrow> u64 \<Rightarrow> u64" where
  "scan_store_limit_bytes requested reserve available =
     (let desired_reserve = (case reserve of Some r \<Rightarrow> r | None \<Rightarrow> available div SCAN_STORE_FREE_SPACE_RESERVE_DIVISOR);
          maximum_reserve = sat_sub available MIN_SCAN_STORE_BYTES;
          effective_reserve = (if desired_reserve < maximum_reserve then desired_reserve else maximum_reserve);
          safe_available = sat_sub available effective_reserve
      in case requested of
           Some r \<Rightarrow> if r < safe_available then r else safe_available
         | None \<Rightarrow> safe_available)"

definition available_bytes :: "u64 \<Rightarrow> u64 \<Rightarrow> u64 \<Rightarrow> ('io io_error, u64) res" where
  "available_bytes f_bavail f_frsize f_bsize =
     (let block_size = (if f_frsize = 0 then f_bsize else f_frsize)
      in ok_or (checked_mul f_bavail block_size) InvalidData)"

section \<open>The quota\<close>

record temporary_storage =
  ts_limit :: u64
  ts_used :: u64
  ts_stopped :: bool

definition with_limit_bytes_named :: "u64 \<Rightarrow> temporary_storage" where
  "with_limit_bytes_named limit = \<lparr>ts_limit = limit, ts_used = 0, ts_stopped = False\<rparr>"

definition from_mib_named :: "u64 \<Rightarrow> ('io io_error, temporary_storage) res" where
  "from_mib_named mib = res_bind (mib_to_bytes mib) (\<lambda>bytes. Inr (with_limit_bytes_named bytes))"

definition mib_transpose :: "u64 option \<Rightarrow> ('io io_error, u64 option) res" where
  "mib_transpose m = (case m of None \<Rightarrow> Inr None | Some mib \<Rightarrow> res_bind (mib_to_bytes mib) (\<lambda>b. Inr (Some b)))"

definition scan_store_from_mib_for_scratch :: "u64 option \<Rightarrow> u64 option \<Rightarrow> ('io io_error, u64) res \<Rightarrow>
    ('io io_error, temporary_storage) res" where
  "scan_store_from_mib_for_scratch mib reserve_mib volume =
     res_bind (mib_transpose mib) (\<lambda>requested.
     res_bind (mib_transpose reserve_mib) (\<lambda>reserve.
     res_bind volume (\<lambda>available.
       Inr (with_limit_bytes_named (scan_store_limit_bytes requested reserve available)))))"

definition ts_stop :: "temporary_storage \<Rightarrow> temporary_storage" where
  "ts_stop s = s\<lparr>ts_stopped := True\<rparr>"

definition ts_ensure_running :: "temporary_storage \<Rightarrow> ('io io_error, unit) res" where
  "ts_ensure_running s = ensure (\<not> ts_stopped s) SessionStopped"

text \<open>One round of each loop on the value of the counter last read.\<close>

definition reserve_required :: "u64 \<Rightarrow> u64 \<Rightarrow> u64 \<Rightarrow> ('io io_error, u64) res" where
  "reserve_required limit used bytes =
     res_bind (ok_or (checked_add used bytes) StorageFull) (\<lambda>required.
       if limit < required then Inl StorageFull else Inr required)"

definition release_remaining :: "u64 \<Rightarrow> u64 \<Rightarrow> u64 option" where
  "release_remaining used bytes = (if bytes \<le> used then Some (used - bytes) else None)"

definition ts_reserve :: "u64 \<Rightarrow> temporary_storage \<Rightarrow> ('io io_error, temporary_storage) res" where
  "ts_reserve bytes s =
     res_bind (ts_ensure_running s) (\<lambda>_.
     res_bind (reserve_required (ts_limit s) (ts_used s) bytes) (\<lambda>required. Inr (s\<lparr>ts_used := required\<rparr>)))"

definition ts_release :: "u64 \<Rightarrow> temporary_storage \<Rightarrow> ('io io_error, temporary_storage) res" where
  "ts_release bytes s =
     res_bind (ok_or (release_remaining (ts_used s) bytes) AccountingPanic) (\<lambda>remaining. Inr (s\<lparr>ts_used := remaining\<rparr>))"

text \<open>A reservation is the number of bytes it holds.\<close>

definition ts_reservation :: "u64 \<Rightarrow> temporary_storage \<Rightarrow> ('io io_error, u64 \<times> temporary_storage) res" where
  "ts_reservation bytes s = res_bind (ts_reserve bytes s) (\<lambda>s. Inr (bytes, s))"

definition rs_grow_to :: "u64 \<Rightarrow> u64 \<Rightarrow> temporary_storage \<Rightarrow> ('io io_error, u64 \<times> temporary_storage) res" where
  "rs_grow_to bytes held s =
     (if bytes \<le> held then Inr (held, s)
      else res_bind (ts_reserve (bytes - held) s) (\<lambda>s. Inr (bytes, s)))"

definition rs_shrink_to :: "u64 \<Rightarrow> u64 \<Rightarrow> temporary_storage \<Rightarrow> ('io io_error, u64 \<times> temporary_storage) res" where
  "rs_shrink_to bytes held s =
     (if held \<le> bytes then Inr (held, s)
      else res_bind (ts_release (held - bytes) s) (\<lambda>s. Inr (bytes, s)))"

definition rs_drop :: "u64 \<Rightarrow> temporary_storage \<Rightarrow> ('io io_error, temporary_storage) res" where
  "rs_drop held s = ts_release held s"

section \<open>Several threads\<close>

text \<open>
  A client is one reservation and the point its operation has reached: past the stop check
  (\<open>PcStarted\<close>), or in a loop with the value of the counter it read last.
\<close>

datatype storage_pc = PcIdle | PcStarted u64 | PcReserve u64 u64 | PcRelease u64 u64

record storage_client =
  cl_bytes :: u64
  cl_pc :: storage_pc

record storage_system =
  sy_storage :: temporary_storage
  sy_clients :: "storage_client list"

definition set_pc :: "nat \<Rightarrow> storage_pc \<Rightarrow> storage_system \<Rightarrow> storage_system" where
  "set_pc i pc y = y\<lparr>sy_clients := (sy_clients y)[i := (sy_clients y ! i)\<lparr>cl_pc := pc\<rparr>]\<rparr>"

text \<open>The exchange succeeds: the counter changes and the operation is over.\<close>

definition exchange :: "nat \<Rightarrow> u64 \<Rightarrow> u64 \<Rightarrow> storage_system \<Rightarrow> storage_system" where
  "exchange i used bytes y =
     y\<lparr>sy_storage := (sy_storage y)\<lparr>ts_used := used\<rparr>,
       sy_clients := (sy_clients y)[i := \<lparr>cl_bytes = bytes, cl_pc = PcIdle\<rparr>]\<rparr>"

definition at_pc :: "storage_system \<Rightarrow> nat \<Rightarrow> storage_pc \<Rightarrow> bool" where
  "at_pc y i pc \<longleftrightarrow> i < length (sy_clients y) \<and> cl_pc (sy_clients y ! i) = pc"

definition client_bytes :: "storage_system \<Rightarrow> nat \<Rightarrow> u64" where
  "client_bytes y i = cl_bytes (sy_clients y ! i)"

inductive storage_step :: "storage_system \<Rightarrow> storage_system \<Rightarrow> bool" where
  join: "storage_step y (y\<lparr>sy_clients := sy_clients y @ [\<lparr>cl_bytes = 0, cl_pc = PcIdle\<rparr>]\<rparr>)"
| stop: "storage_step y (y\<lparr>sy_storage := ts_stop (sy_storage y)\<rparr>)"
| start_reserve: "at_pc y i PcIdle \<Longrightarrow> ts_ensure_running (sy_storage y) = (Inr () :: (unit io_error, unit) res) \<Longrightarrow>
    storage_step y (set_pc i (PcStarted n) y)"
| load_reserve: "at_pc y i (PcStarted n) \<Longrightarrow>
    storage_step y (set_pc i (PcReserve n (ts_used (sy_storage y))) y)"
| reserve_full: "at_pc y i (PcReserve n u) \<Longrightarrow>
    reserve_required (ts_limit (sy_storage y)) u n = (Inl e :: (unit io_error, u64) res) \<Longrightarrow>
    storage_step y (set_pc i PcIdle y)"
| reserve_exchange: "at_pc y i (PcReserve n u) \<Longrightarrow>
    reserve_required (ts_limit (sy_storage y)) u n = (Inr required :: (unit io_error, u64) res) \<Longrightarrow>
    ts_used (sy_storage y) = u \<Longrightarrow> storage_step y (exchange i required (client_bytes y i + n) y)"
| reserve_retry: "at_pc y i (PcReserve n u) \<Longrightarrow>
    reserve_required (ts_limit (sy_storage y)) u n = (Inr required :: (unit io_error, u64) res) \<Longrightarrow>
    storage_step y (set_pc i (PcReserve n (ts_used (sy_storage y))) y)"
| load_release: "at_pc y i PcIdle \<Longrightarrow> n \<le> client_bytes y i \<Longrightarrow>
    storage_step y (set_pc i (PcRelease n (ts_used (sy_storage y))) y)"
| release_exchange: "at_pc y i (PcRelease n u) \<Longrightarrow> release_remaining u n = Some remaining \<Longrightarrow>
    ts_used (sy_storage y) = u \<Longrightarrow> storage_step y (exchange i remaining (client_bytes y i - n) y)"
| release_retry: "at_pc y i (PcRelease n u) \<Longrightarrow> release_remaining u n = Some remaining \<Longrightarrow>
    storage_step y (set_pc i (PcRelease n (ts_used (sy_storage y))) y)"

definition storage_init :: "u64 \<Rightarrow> storage_system" where
  "storage_init limit = \<lparr>sy_storage = with_limit_bytes_named limit, sy_clients = []\<rparr>"

text \<open>The \<open>panic!\<close> of \<open>release\<close>: a thread in the loop whose last read is too small.\<close>

definition release_panics :: "storage_system \<Rightarrow> bool" where
  "release_panics y \<longleftrightarrow> (\<exists>i n u. at_pc y i (PcRelease n u) \<and> release_remaining u n = None)"

section \<open>The file backend\<close>

datatype file_call = CallMetadata | CallSetLen | CallSeek | CallRead | CallWrite

record bounded_file =
  bf_file :: bytes
  bf_length :: u64

record backend =
  be_file :: bounded_file
  be_reserved :: u64
  be_exhausted :: bool
  be_storage :: temporary_storage

type_synonym 'io file_os = "file_call \<Rightarrow> 'io option"

definition file_call_result :: "'io file_os \<Rightarrow> file_call \<Rightarrow> ('io io_error, unit) res" where
  "file_call_result os c = (case os c of None \<Rightarrow> Inr () | Some e \<Rightarrow> Inl (OsError e))"

definition verify_length :: "'io file_os \<Rightarrow> bounded_file \<Rightarrow> ('io io_error, unit) res" where
  "verify_length os f =
     res_bind (file_call_result os CallMetadata) (\<lambda>_.
       if of_nat (length (bf_file f)) \<noteq> bf_length f then Inl InvalidData else Inr ())"

definition note_capacity_error :: "'io io_error \<Rightarrow> backend \<Rightarrow> backend" where
  "note_capacity_error e b = (if e = StorageFull then b\<lparr>be_exhausted := True\<rparr> else b)"

definition backend_new :: "'io file_os \<Rightarrow> bytes \<Rightarrow> u64 \<Rightarrow> bool \<Rightarrow> temporary_storage \<Rightarrow>
    ('io io_error, backend) res \<times> bool" where
  "backend_new os file reserved exhausted s =
     (case file_call_result os CallMetadata of
        Inl e \<Rightarrow> (Inl e, exhausted)
      | Inr _ \<Rightarrow>
          if reserved \<noteq> 0 then (Inl InvalidInput, exhausted)
          else
            (case rs_grow_to (of_nat (length file)) reserved s of
               Inl e \<Rightarrow> (Inl e, if e = StorageFull then True else exhausted)
             | Inr (reserved, s) \<Rightarrow>
                 (Inr \<lparr>be_file = \<lparr>bf_file = file, bf_length = of_nat (length file)\<rparr>, be_reserved = reserved,
                       be_exhausted = exhausted, be_storage = s\<rparr>, exhausted)))"

definition backend_len :: "backend \<Rightarrow> u64" where
  "backend_len b = bf_length (be_file b)"

text \<open>The checked end of an access at an offset.\<close>

definition access_end :: "u64 \<Rightarrow> nat \<Rightarrow> ('io io_error, u64) res" where
  "access_end offset n =
     (if \<not> n < 2 ^ 64 then Inl InvalidInput else ok_or (checked_add offset (of_nat n)) InvalidInput)"

definition backend_read :: "'io file_os \<Rightarrow> u64 \<Rightarrow> nat \<Rightarrow> backend \<Rightarrow> ('io io_error, bytes) res" where
  "backend_read os offset n b =
     res_bind (access_end offset n) (\<lambda>end_offset.
     if bf_length (be_file b) < end_offset then Inl UnexpectedEof
     else
       res_bind (file_call_result os CallSeek) (\<lambda>_.
       res_bind (file_call_result os CallRead) (\<lambda>_.
         if length (bf_file (be_file b)) < unat offset + n then Inl UnexpectedEof
         else Inr (take n (drop (unat offset) (bf_file (be_file b)))))))"

definition backend_write :: "'io file_os \<Rightarrow> u64 \<Rightarrow> bytes \<Rightarrow> backend \<Rightarrow> ('io io_error, backend) res" where
  "backend_write os offset bs b =
     res_bind (access_end offset (length bs)) (\<lambda>end_offset.
     if bf_length (be_file b) < end_offset then Inl WriteZero
     else
       res_bind (file_call_result os CallSeek) (\<lambda>_.
       res_bind (file_call_result os CallWrite) (\<lambda>_.
         let f = be_file b; o1 = unat offset;
             file = take o1 (bf_file f @ replicate (o1 - length (bf_file f)) 0) @ bs @ drop (o1 + length bs) (bf_file f)
         in Inr (b\<lparr>be_file := f\<lparr>bf_file := file\<rparr>\<rparr>))))"

definition resize :: "u64 \<Rightarrow> bytes \<Rightarrow> bytes" where
  "resize len file = take (unat len) file @ replicate (unat len - length file) 0"

definition store_length :: "u64 \<Rightarrow> backend \<Rightarrow> backend" where
  "store_length len b = b\<lparr>be_file := (be_file b)\<lparr>bf_file := resize len (bf_file (be_file b)), bf_length := len\<rparr>\<rparr>"

definition backend_set_len :: "'io file_os \<Rightarrow> u64 \<Rightarrow> backend \<Rightarrow> ('io io_error, unit) res \<times> backend" where
  "backend_set_len os len b =
     (case verify_length os (be_file b) of
        Inl e \<Rightarrow> (Inl e, b)
      | Inr _ \<Rightarrow>
          if be_reserved b \<noteq> bf_length (be_file b) then (Inl InvalidData, b)
          else if bf_length (be_file b) < len then
            (case rs_grow_to len (be_reserved b) (be_storage b) of
               Inl e \<Rightarrow> (Inl e, note_capacity_error e b)
             | Inr (reserved, s) \<Rightarrow>
                 (case file_call_result os CallSetLen of
                    Inl e \<Rightarrow>
                      (case rs_shrink_to (bf_length (be_file b)) reserved s of
                         Inl p \<Rightarrow> (Inl p, b)
                       | Inr (reserved, s) \<Rightarrow> (Inl e, b\<lparr>be_reserved := reserved, be_storage := s\<rparr>))
                  | Inr _ \<Rightarrow> (Inr (), store_length len (b\<lparr>be_reserved := reserved, be_storage := s\<rparr>))))
          else if len < bf_length (be_file b) then
            (case file_call_result os CallSetLen of
               Inl e \<Rightarrow> (Inl e, b)
             | Inr _ \<Rightarrow>
                 (case rs_shrink_to len (be_reserved b) (be_storage b) of
                    Inl p \<Rightarrow> (Inl p, b)
                  | Inr (reserved, s) \<Rightarrow> (Inr (), store_length len (b\<lparr>be_reserved := reserved, be_storage := s\<rparr>))))
          else (Inr (), b\<lparr>be_file := (be_file b)\<lparr>bf_length := len\<rparr>\<rparr>))"

section \<open>Limits of a scan store\<close>

lemma unat_MIN_SCAN_STORE_BYTES: "unat MIN_SCAN_STORE_BYTES = 2097152"
  by (simp add: MIN_SCAN_STORE_BYTES_def MIB_def)

lemma scan_store_limit_le: "unat (scan_store_limit_bytes requested reserve available) \<le> unat available"
  by (auto simp: scan_store_limit_bytes_def Let_def word_less_nat_alt unat_sat_sub split: option.split)

lemma scan_store_limit_requested:
  "unat (scan_store_limit_bytes (Some r) reserve available) \<le> unat r"
  by (auto simp: scan_store_limit_bytes_def Let_def word_less_nat_alt split: option.split)

lemma scan_store_limit_reserve:
  "unat (scan_store_limit_bytes None (Some r) available) = max (unat available - unat r) (min (unat available) 2097152)"
  by (auto simp: scan_store_limit_bytes_def Let_def word_less_nat_alt unat_sat_sub unat_MIN_SCAN_STORE_BYTES)

section \<open>The counter\<close>

lemma reserve_required_eq:
  "reserve_required limit used n = (if unat used + unat n \<le> unat limit then Inr (used + n) else Inl StorageFull)"
  using unat_lt_pow [of limit]
  by (auto simp: reserve_required_def checked_add_def word_less_nat_alt unat_word_ariths)

lemma reserve_required_Inr:
  "reserve_required limit used n = Inr required \<longleftrightarrow> unat used + unat n \<le> unat limit \<and> required = used + n"
  by (auto simp: reserve_required_eq)

lemma release_remaining_Some: "release_remaining used n = Some r \<longleftrightarrow> n \<le> used \<and> r = used - n"
  by (auto simp: release_remaining_def)

lemma release_remaining_None: "release_remaining used n = None \<longleftrightarrow> used < n"
  by (auto simp: release_remaining_def not_le)

definition held_bytes :: "storage_client list \<Rightarrow> nat" where
  "held_bytes cs = (\<Sum>c \<leftarrow> cs. unat (cl_bytes c))"

lemma held_bytes_simps [simp]: "held_bytes [] = 0" "held_bytes (c # cs) = unat (cl_bytes c) + held_bytes cs"
  "held_bytes (cs @ ds) = held_bytes cs + held_bytes ds"
  by (simp_all add: held_bytes_def)

lemma held_bytes_update:
  "i < length cs \<Longrightarrow> held_bytes (cs[i := c]) + unat (cl_bytes (cs ! i)) = held_bytes cs + unat (cl_bytes c)"
proof (induction cs arbitrary: i)
  case (Cons d cs)
  then show ?case by (cases i) (simp_all add: ac_simps)
qed simp

lemma held_bytes_ge: "i < length cs \<Longrightarrow> unat (cl_bytes (cs ! i)) \<le> held_bytes cs"
proof (induction cs arbitrary: i)
  case (Cons d cs)
  then show ?case by (cases i) (auto simp: trans_le_add2)
qed simp

definition pc_ok :: "storage_client \<Rightarrow> bool" where
  "pc_ok c \<longleftrightarrow> (case cl_pc c of PcRelease n u \<Rightarrow> n \<le> cl_bytes c \<and> n \<le> u | _ \<Rightarrow> True)"

definition storage_ok :: "storage_system \<Rightarrow> bool" where
  "storage_ok y \<longleftrightarrow>
     held_bytes (sy_clients y) = unat (ts_used (sy_storage y)) \<and> ts_used (sy_storage y) \<le> ts_limit (sy_storage y) \<and>
     (\<forall>c \<in> set (sy_clients y). pc_ok c)"

lemma storage_ok_set_pc:
  assumes "storage_ok y" "i < length (sy_clients y)" "pc_ok ((sy_clients y ! i)\<lparr>cl_pc := pc\<rparr>)"
  shows "storage_ok (set_pc i pc y)"
proof -
  have "held_bytes ((sy_clients y)[i := (sy_clients y ! i)\<lparr>cl_pc := pc\<rparr>]) = held_bytes (sy_clients y)"
    using held_bytes_update [OF assms(2), of "(sy_clients y ! i)\<lparr>cl_pc := pc\<rparr>"] by simp
  with assms show ?thesis
    by (auto simp: storage_ok_def set_pc_def dest!: set_update_subset_insert [THEN subsetD])
qed

lemma storage_ok_exchange:
  assumes ok: "storage_ok y" and i: "i < length (sy_clients y)" and lim: "used \<le> ts_limit (sy_storage y)"
    and sum: "unat used + unat (client_bytes y i) = unat (ts_used (sy_storage y)) + unat bytes"
  shows "storage_ok (exchange i used bytes y)"
proof -
  have "held_bytes ((sy_clients y)[i := \<lparr>cl_bytes = bytes, cl_pc = PcIdle\<rparr>]) = unat used"
    using held_bytes_update [OF i, of "\<lparr>cl_bytes = bytes, cl_pc = PcIdle\<rparr>"] ok sum
    by (simp add: storage_ok_def client_bytes_def)
  with ok lim show ?thesis
    by (auto simp: storage_ok_def exchange_def pc_ok_def dest!: set_update_subset_insert [THEN subsetD])
qed

lemma client_bytes_used:
  assumes "storage_ok y" "at_pc y i pc"
  shows "client_bytes y i \<le> ts_used (sy_storage y)"
  using held_bytes_ge [of i "sy_clients y"] assms
  by (simp add: storage_ok_def at_pc_def client_bytes_def word_le_nat_alt)

lemma at_pc_ok: "storage_ok y \<Longrightarrow> at_pc y i pc \<Longrightarrow> pc_ok (sy_clients y ! i) \<and> cl_pc (sy_clients y ! i) = pc"
  by (simp add: storage_ok_def at_pc_def)

lemma storage_step_ok:
  assumes "storage_step y z" "storage_ok y"
  shows "storage_ok z"
  using assms
proof cases
  case join
  with assms(2) show ?thesis by (simp add: storage_ok_def pc_ok_def)
next
  case stop
  with assms(2) show ?thesis by (simp add: storage_ok_def ts_stop_def)
next
  case (start_reserve i n)
  with assms(2) show ?thesis by (simp add: storage_ok_set_pc at_pc_def pc_ok_def)
next
  case (load_reserve i n)
  with assms(2) show ?thesis by (simp add: storage_ok_set_pc at_pc_def pc_ok_def)
next
  case (reserve_full i n u e)
  with assms(2) show ?thesis by (simp add: storage_ok_set_pc at_pc_def pc_ok_def)
next
  case (reserve_retry i n u required)
  with assms(2) show ?thesis by (simp add: storage_ok_set_pc at_pc_def pc_ok_def)
next
  case (reserve_exchange i n u required)
  let ?b = "client_bytes y i"
  have r: "unat u + unat n \<le> unat (ts_limit (sy_storage y))" "required = u + n"
    using reserve_exchange(3) by (simp_all add: reserve_required_Inr)
  have u: "unat ?b \<le> unat u"
    using client_bytes_used [OF assms(2) reserve_exchange(2)] reserve_exchange(4) by (simp add: word_le_nat_alt)
  have small: "unat u + unat n < 2 ^ 64" using r(1) unat_lt_pow [of "ts_limit (sy_storage y)"] by simp
  then have "unat required = unat u + unat n" "unat (?b + n) = unat ?b + unat n"
    using u r(2) by (simp_all add: unat_word_ariths)
  then show ?thesis
    unfolding reserve_exchange(1)
    using assms(2) reserve_exchange(2,4) r by (intro storage_ok_exchange) (simp_all add: at_pc_def word_le_nat_alt)
next
  case (load_release i n)
  have "n \<le> ts_used (sy_storage y)"
    using client_bytes_used [OF assms(2) load_release(2)] load_release(3) by simp
  then show ?thesis
    unfolding load_release(1)
    using assms(2) load_release(2,3) by (intro storage_ok_set_pc) (simp_all add: at_pc_def pc_ok_def client_bytes_def)
next
  case (release_exchange i n u remaining)
  let ?b = "client_bytes y i"
  have n: "n \<le> ?b" "n \<le> u"
    using at_pc_ok [OF assms(2) release_exchange(2)] by (auto simp: pc_ok_def client_bytes_def)
  then have "unat (?b - n) = unat ?b - unat n" "unat (u - n) = unat u - unat n" by (simp_all add: unat_sub)
  moreover have "unat n \<le> unat ?b" "unat n \<le> unat u" using n by (simp_all add: word_le_nat_alt)
  moreover have "remaining = u - n" using release_exchange(3) by (simp add: release_remaining_Some)
  ultimately show ?thesis
    unfolding release_exchange(1)
    using assms(2) release_exchange(2,4)
    by (intro storage_ok_exchange) (auto simp: at_pc_def storage_ok_def word_le_nat_alt)
next
  case (release_retry i n u remaining)
  have "n \<le> client_bytes y i"
    using at_pc_ok [OF assms(2) release_retry(2)] by (auto simp: pc_ok_def client_bytes_def)
  then have "n \<le> ts_used (sy_storage y)" using client_bytes_used [OF assms(2) release_retry(2)] by simp
  with \<open>n \<le> client_bytes y i\<close> show ?thesis
    unfolding release_retry(1)
    using assms(2) release_retry(2) by (intro storage_ok_set_pc) (simp_all add: at_pc_def pc_ok_def client_bytes_def)
qed

lemma storage_step_limit: "storage_step y z \<Longrightarrow> ts_limit (sy_storage z) = ts_limit (sy_storage y)"
  by (cases rule: storage_step.cases) (auto simp: ts_stop_def set_pc_def exchange_def)

lemma storage_invariant:
  assumes "storage_step\<^sup>*\<^sup>* (storage_init limit) y"
  shows "storage_ok y \<and> ts_limit (sy_storage y) = limit"
  using assms
proof (induction rule: rtranclp_induct)
  case base
  then show ?case by (simp add: storage_ok_def storage_init_def with_limit_bytes_named_def)
next
  case (step y z)
  then show ?case using storage_step_ok storage_step_limit by metis
qed

lemma release_never_panics: "storage_ok y \<Longrightarrow> \<not> release_panics y"
  using at_pc_ok by (fastforce simp: release_panics_def release_remaining_None pc_ok_def)

text \<open>
  A reserving thread that runs alone is done after one more read of the counter: the exchange then
  succeeds or the request is refused.
\<close>

lemma reserve_alone:
  assumes "at_pc y i (PcReserve n u)"
  shows "\<exists>z. storage_step\<^sup>*\<^sup>* y z \<and> at_pc z i PcIdle"
proof -
  have now: "\<exists>z. storage_step y z \<and> at_pc z i PcIdle"
    if "at_pc y i (PcReserve n (ts_used (sy_storage y)))" for y :: storage_system
  proof (cases "reserve_required (ts_limit (sy_storage y)) (ts_used (sy_storage y)) n :: (unit io_error, u64) res")
    case (Inl e)
    from storage_step.reserve_full [OF that this] that show ?thesis by (auto simp: at_pc_def set_pc_def)
  next
    case (Inr r)
    from storage_step.reserve_exchange [OF that this refl] that show ?thesis by (auto simp: at_pc_def exchange_def)
  qed
  show ?thesis
  proof (cases "reserve_required (ts_limit (sy_storage y)) u n :: (unit io_error, u64) res")
    case (Inl e)
    from storage_step.reserve_full [OF assms this] assms show ?thesis by (auto simp: at_pc_def set_pc_def)
  next
    case (Inr r)
    let ?z = "set_pc i (PcReserve n (ts_used (sy_storage y))) y"
    have "storage_step y ?z" using storage_step.reserve_retry [OF assms Inr] .
    moreover have "at_pc ?z i (PcReserve n (ts_used (sy_storage ?z)))" using assms by (simp add: at_pc_def set_pc_def)
    ultimately show ?thesis using now by (meson converse_rtranclp_into_rtranclp r_into_rtranclp)
  qed
qed

section \<open>Reservations without interference\<close>

lemma ts_reserve_Inr:
  "ts_reserve n s = Inr s' \<longleftrightarrow> \<not> ts_stopped s \<and> unat (ts_used s) + unat n \<le> unat (ts_limit s) \<and>
     s' = s\<lparr>ts_used := ts_used s + n\<rparr>"
  by (auto simp: ts_reserve_def ts_ensure_running_def res_bind_Inr_iff reserve_required_Inr)

lemma ts_reserve_Inl:
  "ts_reserve n s = Inl e \<longleftrightarrow> (if ts_stopped s then e = SessionStopped
     else unat (ts_limit s) < unat (ts_used s) + unat n \<and> e = StorageFull)"
  by (auto simp: ts_reserve_def ts_ensure_running_def reserve_required_eq)

lemma ts_release_Inr: "ts_release n s = Inr s' \<longleftrightarrow> n \<le> ts_used s \<and> s' = s\<lparr>ts_used := ts_used s - n\<rparr>"
  by (auto simp: ts_release_def res_bind_Inr_iff release_remaining_Some)

text \<open>A storage that was not stopped provides the shared contract.\<close>

interpretation storage: quota "ts_reserve :: u64 \<Rightarrow> _ \<Rightarrow> (unit io_error, _) res" ts_release unat
  "\<lambda>s. unat (ts_used s)" "\<lambda>s. unat (ts_limit s)" "\<lambda>s. \<not> ts_stopped s \<and> ts_used s \<le> ts_limit s"
proof
  fix s s' :: temporary_storage and n :: u64
  assume ok: "\<not> ts_stopped s \<and> ts_used s \<le> ts_limit s"
  then show "unat (ts_used s) \<le> unat (ts_limit s)" by (simp add: word_le_nat_alt)
  show "(\<exists>s'. ts_reserve n s = (Inr s' :: (unit io_error, _) res)) \<longleftrightarrow> unat (ts_used s) + unat n \<le> unat (ts_limit s)"
    using ok by (auto simp: ts_reserve_Inr)
  have add: "unat (ts_used s + n) = unat (ts_used s) + unat n" if "unat (ts_used s) + unat n \<le> unat (ts_limit s)"
    using that unat_lt_pow [of "ts_limit s"] by (simp add: unat_word_ariths)
  show "(\<not> ts_stopped s' \<and> ts_used s' \<le> ts_limit s') \<and> unat (ts_used s') = unat (ts_used s) + unat n \<and>
      unat (ts_limit s') = unat (ts_limit s)" if "ts_reserve n s = (Inr s' :: (unit io_error, _) res)"
    using that ok add by (auto simp: ts_reserve_Inr word_le_nat_alt)
  show "\<exists>s'. ts_release n s = (Inr s' :: (unit io_error, _) res) \<and> (\<not> ts_stopped s' \<and> ts_used s' \<le> ts_limit s') \<and>
      unat (ts_used s') = unat (ts_used s) - unat n \<and> unat (ts_limit s') = unat (ts_limit s)" if "unat n \<le> unat (ts_used s)"
    using that ok by (auto simp: ts_release_Inr word_le_nat_alt unat_sub)
qed

text \<open>Growing, when it fits, and then dropping gives back exactly what was taken.\<close>

lemma rs_grow_to_Inr:
  assumes "rs_grow_to bytes held s = Inr (held', s')" "held \<le> bytes"
  shows "held' = bytes" "unat (ts_used s') = unat (ts_used s) + (unat bytes - unat held)"
    "ts_limit s' = ts_limit s" "ts_stopped s' = ts_stopped s" "ts_used s \<le> ts_limit s \<Longrightarrow> ts_used s' \<le> ts_limit s'"
proof -
  show "held' = bytes" using assms by (auto simp: rs_grow_to_def res_bind_Inr_iff split: if_splits)
  have d: "unat (bytes - held) = unat bytes - unat held" using assms(2) by (simp add: unat_sub)
  consider "bytes = held" "s' = s" | "unat (ts_used s) + unat (bytes - held) \<le> unat (ts_limit s)"
    "s' = s\<lparr>ts_used := ts_used s + (bytes - held)\<rparr>"
    using assms by (auto simp: rs_grow_to_def res_bind_Inr_iff ts_reserve_Inr split: if_splits)
  then have *: "unat (ts_used s') = unat (ts_used s) + (unat bytes - unat held) \<and> ts_limit s' = ts_limit s \<and>
     ts_stopped s' = ts_stopped s \<and> (ts_used s \<le> ts_limit s \<longrightarrow> ts_used s' \<le> ts_limit s)"
  proof cases
    case 2
    have "unat (ts_used s + (bytes - held)) = unat (ts_used s) + unat (bytes - held)"
      using 2(1) unat_lt_pow [of "ts_limit s"] by (simp add: unat_word_ariths)
    then show ?thesis using 2 d by (simp add: word_le_nat_alt)
  qed simp
  then show "unat (ts_used s') = unat (ts_used s) + (unat bytes - unat held)" "ts_limit s' = ts_limit s"
    "ts_stopped s' = ts_stopped s" "ts_used s \<le> ts_limit s \<Longrightarrow> ts_used s' \<le> ts_limit s'" by simp_all
qed

lemma rs_shrink_to_Inr:
  assumes "bytes \<le> held" "held \<le> ts_used s"
  shows "\<exists>s'. rs_shrink_to bytes held s = Inr (bytes, s') \<and> unat (ts_used s') = unat (ts_used s) - (unat held - unat bytes) \<and>
    ts_limit s' = ts_limit s \<and> ts_stopped s' = ts_stopped s"
proof (cases "held \<le> bytes")
  case True
  then have "held = bytes" using assms(1) by simp
  then show ?thesis by (simp add: rs_shrink_to_def)
next
  case False
  have d: "unat (held - bytes) = unat held - unat bytes" using assms(1) by (simp add: unat_sub)
  then have le: "held - bytes \<le> ts_used s" using assms by (simp add: word_le_nat_alt)
  then have "unat (ts_used s - (held - bytes)) = unat (ts_used s) - (unat held - unat bytes)" using d by (simp add: unat_sub)
  then show ?thesis using False le
    by (simp add: rs_shrink_to_def res_bind_def ts_release_Inr [THEN iffD2, OF conjI, OF _ refl])
qed

section \<open>The file backend\<close>

text \<open>
  The file, its recorded length and its reservation agree, and the reservation is part of what the
  quota counts.
\<close>

definition backend_ok :: "backend \<Rightarrow> bool" where
  "backend_ok b \<longleftrightarrow> length (bf_file (be_file b)) = unat (bf_length (be_file b)) \<and> be_reserved b = bf_length (be_file b) \<and>
     bf_length (be_file b) \<le> ts_used (be_storage b) \<and> ts_used (be_storage b) \<le> ts_limit (be_storage b)"

lemma length_resize [simp]: "length (resize len file) = unat len"
  by (simp add: resize_def)

lemma backend_new_ok:
  assumes "backend_new os file reserved exhausted s = (Inr b, x)" "ts_used s \<le> ts_limit s" "length file < 2 ^ 64"
  shows "backend_ok b \<and> unat (ts_used (be_storage b)) = unat (ts_used s) + length file"
proof -
  have len: "unat (of_nat (length file) :: u64) = length file" using assms(3) by (simp add: unat_of_nat)
  obtain r s' where g: "rs_grow_to (of_nat (length file)) 0 s = (Inr (r, s') :: ('a io_error, _) res)"
    "b = \<lparr>be_file = \<lparr>bf_file = file, bf_length = of_nat (length file)\<rparr>, be_reserved = r, be_exhausted = exhausted, be_storage = s'\<rparr>"
    using assms(1) by (auto simp: backend_new_def split: sum.splits if_splits)
  note gg = rs_grow_to_Inr [OF g(1) word_zero_le]
  from gg(2) have u: "unat (ts_used s') = unat (ts_used s) + length file" using len by simp
  then show ?thesis using gg(1) gg(5) [OF assms(2)] g(2) len by (simp add: backend_ok_def word_le_nat_alt)
qed

lemma backend_write_ok:
  assumes "backend_write os offset bs b = Inr b'" "backend_ok b"
  shows "backend_ok b' \<and> be_storage b' = be_storage b"
    and "backend_read (\<lambda>_. None) offset (length bs) b' = (Inr bs :: ('io io_error, bytes) res)"
proof -
  let ?f = "bf_file (be_file b)" and ?o = "unat offset"
  have small: "length bs < 2 ^ 64" and off: "?o + length bs < 2 ^ 64"
    and fit: "\<not> bf_length (be_file b) < offset + of_nat (length bs)"
    and b': "b' = b\<lparr>be_file := (be_file b)\<lparr>bf_file := take ?o (?f @ replicate (?o - length ?f) 0) @ bs @ drop (?o + length bs) ?f\<rparr>\<rparr>"
    using assms(1)
    by (auto simp: backend_write_def access_end_def res_bind_Inr_iff checked_add_Some Let_def unat_of_nat split: if_splits)
  have e: "unat (offset + of_nat (length bs)) = ?o + length bs" using small off by (simp add: unat_word_ariths unat_of_nat)
  then have le: "?o + length bs \<le> length ?f" using fit assms(2) by (simp add: backend_ok_def word_less_nat_alt not_less)
  then show "backend_ok b' \<and> be_storage b' = be_storage b" using assms(2) b' by (simp add: backend_ok_def)
  show "backend_read (\<lambda>_. None) offset (length bs) b' = (Inr bs :: ('io io_error, bytes) res)"
    using le small off fit b'
    by (simp add: backend_read_def access_end_def checked_add_def unat_of_nat file_call_result_def)
qed

lemma backend_set_len_ok:
  assumes "backend_ok b" "backend_set_len os len b = (r, b')"
  shows "backend_ok b'" "r = Inr () \<longrightarrow> bf_file (be_file b') = resize len (bf_file (be_file b)) \<and> bf_length (be_file b') = len"
    "r \<noteq> Inr () \<longrightarrow> be_file b' = be_file b \<and> ts_used (be_storage b') = ts_used (be_storage b) \<and> r \<noteq> Inl AccountingPanic"
proof -
  let ?f = "be_file b"
  have ok: "length (bf_file ?f) = unat (bf_length ?f)" "be_reserved b = bf_length ?f"
    "bf_length ?f \<le> ts_used (be_storage b)" "ts_used (be_storage b) \<le> ts_limit (be_storage b)"
    using assms(1) by (simp_all add: backend_ok_def)
  have same: "resize (bf_length ?f) (bf_file ?f) = bf_file ?f" using ok(1) by (simp add: resize_def)
  let ?G = "backend_ok b' \<and> (r = Inr () \<longrightarrow> bf_file (be_file b') = resize len (bf_file ?f) \<and> bf_length (be_file b') = len) \<and>
     (r \<noteq> Inr () \<longrightarrow> be_file b' = ?f \<and> ts_used (be_storage b') = ts_used (be_storage b) \<and> r \<noteq> Inl AccountingPanic)"
  have ?G
  proof (cases "verify_length os ?f")
    case (Inl e)
    then have "r = Inl e" "b' = b" "e \<noteq> AccountingPanic" using assms(2)
      by (auto simp: backend_set_len_def verify_length_def file_call_result_def res_bind_def split: sum.splits option.splits if_splits)
    with assms(1) show ?thesis by simp
  next
    case (Inr u)
    consider (grow) "bf_length ?f < len" | (shrink) "len < bf_length ?f" | (same) "len = bf_length ?f" by force
    then show ?thesis
    proof cases
      case grow
      then have le: "be_reserved b \<le> len" using ok(2) by simp
      show ?thesis
      proof (cases "rs_grow_to len (be_reserved b) (be_storage b) :: ('a io_error, _) res")
        case (Inl e)
        have "e \<noteq> AccountingPanic"
          using Inl by (auto simp: rs_grow_to_def res_bind_def ts_reserve_Inl split: if_splits sum.splits)
        then show ?thesis using Inl Inr assms ok grow
          by (auto simp: backend_set_len_def backend_ok_def note_capacity_error_def)
      next
        case (Inr g)
        obtain held s where g: "rs_grow_to len (be_reserved b) (be_storage b) = (Inr (held, s) :: ('a io_error, _) res)"
          using Inr by (cases g) simp
        note gg = rs_grow_to_Inr [OF g le]
        have used: "bf_length ?f \<le> s_used \<and> len \<le> s_used" if "s_used = ts_used s" for s_used
          using that gg(2) le ok(3) unfolding ok(2) word_le_nat_alt by (intro conjI) simp_all
        show ?thesis
        proof (cases "os CallSetLen")
          case None
          then show ?thesis using \<open>verify_length os ?f = Inr u\<close> assms(2) ok grow g gg(1) gg(5) [OF ok(4)] used
            by (auto simp: backend_set_len_def file_call_result_def backend_ok_def store_length_def)
        next
          case (Some e)
          obtain s' where s': "rs_shrink_to (bf_length ?f) held s = (Inr (bf_length ?f, s') :: ('a io_error, _) res)"
            "unat (ts_used s') = unat (ts_used s) - (unat held - unat (bf_length ?f))" "ts_limit s' = ts_limit s"
            using rs_shrink_to_Inr [of "bf_length ?f" held s, where ?'a = 'a] gg(1) less_imp_le [OF grow] used by auto
          have "ts_used s' = ts_used (be_storage b)"
            by (rule word_unat_eq_iff [THEN iffD2]) (use s'(2) gg(1,2) ok(2) le in \<open>simp add: word_le_nat_alt\<close>)
          then show ?thesis using \<open>verify_length os ?f = Inr u\<close> assms(2) ok grow g s'(1,3) gg(3) Some
            by (auto simp: backend_set_len_def file_call_result_def backend_ok_def)
        qed
      qed
    next
      case shrink
      obtain s' where s': "rs_shrink_to len (be_reserved b) (be_storage b) = (Inr (len, s') :: ('a io_error, _) res)"
        "unat (ts_used s') = unat (ts_used (be_storage b)) - (unat (be_reserved b) - unat len)" "ts_limit s' = ts_limit (be_storage b)"
        using rs_shrink_to_Inr [of len "be_reserved b" "be_storage b", where ?'a = 'a] less_imp_le [OF shrink] ok by auto
      have "len \<le> ts_used s'" "ts_used s' \<le> ts_limit s'"
        using s'(2,3) shrink ok by (simp_all add: word_le_nat_alt word_less_nat_alt)
      moreover have "\<not> bf_length ?f < len" using shrink by simp
      ultimately show ?thesis using Inr assms ok shrink s'(1)
        by (cases "os CallSetLen") (auto simp: backend_set_len_def file_call_result_def backend_ok_def store_length_def)
    next
      case same
      then show ?thesis using Inr assms ok \<open>resize (bf_length ?f) (bf_file ?f) = bf_file ?f\<close>
        by (simp add: backend_set_len_def backend_ok_def)
    qed
  qed
  then show "backend_ok b'" "r = Inr () \<longrightarrow> bf_file (be_file b') = resize len (bf_file ?f) \<and> bf_length (be_file b') = len"
    "r \<noteq> Inr () \<longrightarrow> be_file b' = ?f \<and> ts_used (be_storage b') = ts_used (be_storage b) \<and> r \<noteq> Inl AccountingPanic"
    by blast+
qed

end
