(* ===== verification/Run_Quota.thy ===== *)
theory Run_Quota
  imports Run_File_Spec Temporary_Storage
begin

text \<open>
  Writing a run under a storage quota: \<open>write_run_succeeds\<close> bounds the space that is always
  enough for a sorted list of records, and the quota of \<open>Temporary_Storage\<close> is put in place of
  the writer's parameter: \<open>reservation_grow\<close> is the outcome of growing the writer's reservation,
  and \<open>rs_grow_to_compose\<close> shows that growing it step by step, as the writer does, is growing it
  at once.
\<close>

section \<open>Enough space\<close>

text \<open>At worst every record fills a block of its own: a block header, two lengths, key and value.\<close>

definition record_cost :: "run_record list \<Rightarrow> nat" where
  "record_cost rs = (\<Sum>kv \<leftarrow> rs. 52 + length (fst kv) + length (snd kv))"

lemma record_cost_simps [simp]:
  "record_cost [] = 0" "record_cost (kv # rs) = 52 + length (fst kv) + length (snd kv) + record_cost rs"
  "record_cost (rs @ qs) = record_cost rs + record_cost qs"
  by (simp_all add: record_cost_def)

definition grants :: "'io grow \<Rightarrow> nat \<Rightarrow> bool" where
  "grants grow limit \<longleftrightarrow> limit < 2 ^ 64 \<and> (\<forall>n. unat n \<le> limit \<longrightarrow> grow n = None)"

lemma write_reserved_grants:
  assumes "grants grow limit" "unat (rw_bytes_written w) + length bs \<le> limit"
  shows "\<exists>w'. write_reserved grow bs w = Inr w'"
proof -
  have lim: "limit < 2 ^ 64" "\<And>n. unat n \<le> limit \<Longrightarrow> grow n = None" using assms(1) by (simp_all add: grants_def)
  have len: "unat (of_nat (length bs) :: u64) = length bs" using lim(1) assms(2) by (simp add: unat_of_nat)
  have fits: "unat (rw_bytes_written w) + length bs < 2 ^ 64" using lim(1) assms(2) by simp
  then have "unat (rw_bytes_written w + of_nat (length bs)) = unat (rw_bytes_written w) + length bs"
    using len by (simp add: unat_word_ariths)
  then have "grow (rw_bytes_written w + of_nat (length bs)) = None" using lim(2) assms(2) by simp
  moreover have "checked_add (rw_bytes_written w) (of_nat (length bs)) = Some (rw_bytes_written w + of_nat (length bs))"
    using fits len by (simp add: checked_add_def)
  ultimately show ?thesis using fits by (simp add: write_reserved_def)
qed

lemma payload_cost: "rs \<noteq> [] \<Longrightarrow> 44 + length (payload rs) \<le> record_cost rs"
  by (induction rs rule: list_nonempty_induct) simp_all

lemma length_block_bytes: "(\<And>x. length (sha x) = 32) \<Longrightarrow> length (block_bytes sha b) = 44 + length (payload b)"
  by (simp add: block_bytes_def block_header_def BLOCK_MAGIC_def)

lemma body_cost:
  assumes "\<And>x. length (sha x) = 32"
  shows "\<forall>b \<in> set bs. b \<noteq> [] \<Longrightarrow> length (body_bytes sha bs) \<le> record_cost (concat bs) \<and> 44 * length bs \<le> length (body_bytes sha bs)"
proof (induction bs)
  case (Cons b bs)
  then show ?case using payload_cost [of b] length_block_bytes [of sha b] assms by auto
qed simp

text \<open>What the invariant says about the space used so far.\<close>

lemma writer_space:
  assumes "writer_inv sha w bs pend" "\<And>x. length (sha x) = 32"
  shows "unat (rw_bytes_written w) \<le> 28 + record_cost (concat bs)" "44 * unat (rw_total_blocks w) \<le> unat (rw_bytes_written w)"
proof -
  have "\<forall>b \<in> set bs. b \<noteq> []" using assms(1) by (auto simp: writer_inv_def block_ok_def)
  from body_cost [of sha bs, OF assms(2) this] assms(1)
  show "unat (rw_bytes_written w) \<le> 28 + record_cost (concat bs)" "44 * unat (rw_total_blocks w) \<le> unat (rw_bytes_written w)"
    by (simp_all add: writer_inv_def)
qed

lemma flush_block_grants:
  fixes grow :: "'io grow"
  assumes inv: "writer_inv sha w bs pend" and sha: "\<And>x. length (sha x) = 32" and g: "grants grow limit"
    and room: "28 + record_cost (concat bs @ pend) \<le> limit" and ne: "pend \<noteq> []"
  shows "\<exists>w'. flush_block sha grow w = Inr w'"
proof -
  have blk: "rw_block w = payload pend" "length (payload pend) < 2 ^ 32" using inv by (simp_all add: writer_inv_def)
  let ?h = "block_header sha (rw_block_records w) (of_nat (length (payload pend))) (payload pend)"
  have h: "length ?h = 44" using sha by (simp add: block_header_def BLOCK_MAGIC_def)
  obtain w1 where w1: "index_block w = (Inr w1 :: ('io run_error, _) res)" "rw_bytes_written w1 = rw_bytes_written w"
    "rw_block w1 = rw_block w" "rw_total_blocks w1 = rw_total_blocks w"
    using inv ne by (cases "indexed_kind (rd_kind (rw_descriptor w))") (auto simp: index_block_def writer_inv_def)
  have space: "unat (rw_bytes_written w) + 44 + length (payload pend) \<le> limit"
    using writer_space [OF inv sha] payload_cost [OF ne] room by simp
  obtain w2 where w2: "write_reserved grow ?h w1 = Inr w2"
    using write_reserved_grants [OF g, of w1 ?h] space h w1(2) by auto
  from write_reserved_Inr [OF w2] obtain n where n: "w2 = w1\<lparr>rw_file := rw_file w1 @ ?h, rw_bytes_written := n\<rparr>"
    "unat n = unat (rw_bytes_written w1) + length ?h" by blast
  obtain w3 where w3: "write_reserved grow (rw_block w2) (w2\<lparr>rw_block := []\<rparr>) = Inr w3"
    using write_reserved_grants [OF g, of "w2\<lparr>rw_block := []\<rparr>" "rw_block w2"] space h n w1 blk(1) by auto
  have "rw_total_blocks w3 = rw_total_blocks w" using write_reserved_Inr [OF w3] n(1) w1(4) by auto
  moreover have "unat (rw_total_blocks w) < 2 ^ 64 - 1"
    using writer_space(2) [OF inv sha] space g by (simp add: grants_def)
  ultimately have "\<exists>total. checked_add (rw_total_blocks w3) 1 = Some total"
    using checked_add_one_Some [of "rw_total_blocks w3"] by auto
  then show ?thesis using blk ne w1(1) w2 w3 by (auto simp: flush_block_def u32_of_len_def Let_def)
qed

lemma rw_append_grants:
  fixes grow :: "'io grow"
  assumes inv: "writer_inv sha w bs pend" and sha: "\<And>x. length (sha x) = 32" and g: "grants grow limit"
    and room: "28 + record_cost (concat bs @ pend) \<le> limit" and cap: "8 + length k + length v \<le> rw_block_capacity w"
    and ord: "\<forall>x \<in> set (concat bs @ pend). fst x < k"
  shows "\<exists>w'. rw_append sha grow k v w = Inr w'"
proof -
  let ?n = "8 + length k + length v"
  let ?full = "rw_block w \<noteq> [] \<and> (case usize_checked_add (length (rw_block w)) ?n of None \<Rightarrow> True | Some n \<Rightarrow> rw_block_capacity w < n)"
  have c32: "rw_block_capacity w < 2 ^ 32" using inv by (simp add: writer_inv_def)
  have ok: "\<not> (rw_has_key w \<and> k \<le> rw_last_key w)"
  proof
    assume "rw_has_key w \<and> k \<le> rw_last_key w"
    then have "concat bs @ pend \<noteq> []" "k \<le> fst (last (concat bs @ pend))" using inv by (simp_all add: writer_inv_def)
    then show False using ord last_in_set by (metis leD)
  qed
  have small: "unat (rw_block_records w) < 2 ^ 32 - 1" "unat (rw_total_records w) < 2 ^ 64 - 1"
  proof -
    have "8 * length pend \<le> rw_block_capacity w" using inv payload_length [of pend] by (simp add: writer_inv_def)
    then show "unat (rw_block_records w) < 2 ^ 32 - 1" using inv c32 by (simp add: writer_inv_def)
    have "52 * length rs \<le> record_cost rs" for rs by (induction rs) simp_all
    from this [of "concat bs @ pend"] show "unat (rw_total_records w) < 2 ^ 64 - 1"
      using inv room g by (simp add: writer_inv_def grants_def)
  qed
  have "\<exists>w1. (if ?full then flush_block sha grow w else Inr w) = Inr w1 \<and>
      unat (rw_block_records w1) < 2 ^ 32 - 1 \<and> unat (rw_total_records w1) < 2 ^ 64 - 1"
  proof (cases ?full)
    case True
    then have ne: "pend \<noteq> []" using inv by (simp add: writer_inv_def)
    obtain w1 where w1: "flush_block sha grow w = Inr w1" using flush_block_grants [OF inv sha g room ne] by blast
    from flush_block_inv [OF inv ne w1] have "writer_inv sha w1 (bs @ [pend]) []" by simp
    then have "unat (rw_block_records w1) = 0" "unat (rw_total_records w1) = unat (rw_total_records w)"
      using inv by (simp_all add: writer_inv_def)
    then show ?thesis using True w1 small(2) by simp
  next
    case False
    then show ?thesis using small by (intro exI [of _ w]) (simp only: if_False simp_thms)
  qed
  then obtain w1 where w1: "(if ?full then flush_block sha grow w else Inr w) = Inr w1"
    "unat (rw_block_records w1) < 2 ^ 32 - 1" "unat (rw_total_records w1) < 2 ^ 64 - 1" by blast
  have "\<exists>w'. push_record k (record_frame (of_nat (length k)) (of_nat (length v)) k v) w1 = (Inr w' :: ('io run_error, _) res)"
    using w1(2,3) checked_add_one_Some [of "rw_block_records w1"] checked_add_one_Some [of "rw_total_records w1"]
    by (simp add: push_record_def Let_def)
  moreover have "8 + length k + length v < 2 ^ 64" "length k < 2 ^ 32" "length v < 2 ^ 32" "\<not> rw_block_capacity w < ?n"
    using cap c32 by simp_all
  ultimately show ?thesis
    unfolding rw_append_def if_not_P [OF ok] record_bytes_eq u32_of_len_def using w1(1) by (simp del: not_None_eq split del: if_split)
qed

lemma append_all_grants:
  fixes grow :: "'io grow"
  assumes sha: "\<And>x. length (sha x) = 32" and g: "grants grow limit"
  shows "writer_inv sha w bs pend \<Longrightarrow> 28 + record_cost (concat bs @ pend @ rs) \<le> limit \<Longrightarrow>
    \<forall>kv \<in> set rs. 8 + length (fst kv) + length (snd kv) \<le> rw_block_capacity w \<Longrightarrow> keys_sorted (concat bs @ pend @ rs) \<Longrightarrow>
    \<exists>w' bs' pend'. append_all sha grow rs w = Inr w' \<and> writer_inv sha w' bs' pend' \<and>
      concat bs' @ pend' = concat bs @ pend @ rs"
proof (induction rs arbitrary: w bs pend)
  case Nil
  then show ?case by auto
next
  case (Cons kv rs)
  have ord: "\<forall>x \<in> set (concat bs @ pend). fst x < fst kv"
    using Cons.prems(4) by (auto simp: keys_sorted_def sorted_wrt_append)
  obtain w1 where w1: "rw_append sha grow (fst kv) (snd kv) w = Inr w1"
    using rw_append_grants [OF Cons.prems(1) sha g _ _ ord, of "snd kv"] Cons.prems(2,3) by auto
  obtain bs1 p1 where one: "writer_inv sha w1 bs1 p1" "concat bs1 @ p1 = concat bs @ pend @ [kv]"
    "rw_block_capacity w1 = rw_block_capacity w" using rw_append_inv [OF Cons.prems(1) w1] by auto
  have eq: "concat bs1 @ p1 @ rs = concat bs @ pend @ kv # rs" using one(2) by (simp flip: append_assoc)
  from Cons.IH [OF one(1)] Cons.prems(2,3,4) one(3) eq w1 show ?case by simp
qed

lemma write_run_succeeds:
  fixes grow :: "'io grow"
  assumes sha: "\<And>x. length (sha x) = 32" and g: "grants grow limit" and room: "48 + record_cost rs \<le> limit"
    and cap: "0 < capacity" "capacity < 2 ^ 32" "\<forall>kv \<in> set rs. 8 + length (fst kv) + length (snd kv) \<le> capacity"
    and sorted: "keys_sorted rs"
  shows "\<exists>run. write_run sha grow d capacity rs = Inr run"
proof -
  let ?w = "\<lparr>rw_file = [], rw_descriptor = d, rw_block_capacity = capacity, rw_block = [],
                 rw_block_first_key = None, rw_block_records = 0, rw_total_records = 0, rw_total_blocks = 0,
                 rw_bytes_written = 0, rw_last_key = [], rw_has_key = False,
                 rw_sparse_index = (if indexed_kind (rd_kind d) then Some [] else None)\<rparr>"
  obtain w where "write_reserved grow (header_bytes d capacity) ?w = Inr w"
    using write_reserved_grants [OF g, of ?w "header_bytes d capacity"] room by auto
  then have w: "rw_new grow [] 0 d capacity = Inr w"
    using cap by (simp add: rw_new_def encode_header_def u32_of_len_def header_bytes_def Let_def)
  note inv = rw_new_inv [OF w, of sha]
  obtain w1 bs pend where w1: "append_all sha grow rs w = Inr w1" "writer_inv sha w1 bs pend" "concat bs @ pend = rs"
    using append_all_grants [where sha = sha, OF sha g, of w "[]" "[]" rs] inv room cap(3) sorted by auto
  have room1: "28 + record_cost (concat bs @ pend) \<le> limit" using room w1(3) by simp
  obtain w2 bs2 where w2: "flush_block sha grow w1 = Inr w2" "writer_inv sha w2 bs2 []" "concat bs2 = rs"
  proof (cases "pend = []")
    case True
    then have "flush_block sha grow w1 = Inr w1" using w1(2) by (simp add: flush_block_def writer_inv_def)
    with that [of w1 bs] w1 True show ?thesis by simp
  next
    case False
    obtain w2 where "flush_block sha grow w1 = Inr w2" using flush_block_grants [OF w1(2) sha g room1 False] by blast
    with that [of w2 "bs @ [pend]"] flush_block_inv [OF w1(2) False this] w1(3) show ?thesis by simp
  qed
  have "unat (rw_bytes_written w2) + 20 \<le> limit" using writer_space(1) [OF w2(2) sha] w2(3) room by simp
  then obtain w3 where "write_reserved grow (encode_footer (rw_total_records w2) (rw_total_blocks w2)) w2 = Inr w3"
    using write_reserved_grants [OF g, of w2 "encode_footer (rw_total_records w2) (rw_total_blocks w2)"]
    by (auto simp: encode_footer_def FOOTER_MAGIC_def)
  then show ?thesis using w w1(1) w2(1) by (simp add: write_run_def rw_seal_def)
qed

section \<open>The quota of the session\<close>

text \<open>Growing an empty reservation of the storage, as the writer's parameter.\<close>

definition reservation_grow :: "temporary_storage \<Rightarrow> unit io_error grow" where
  "reservation_grow s n = (case rs_grow_to n 0 s of Inl e \<Rightarrow> Some e | Inr _ \<Rightarrow> None)"

lemma reservation_grow_None:
  "reservation_grow s n = None \<longleftrightarrow> n = 0 \<or> \<not> ts_stopped s \<and> unat (ts_used s) + unat n < 2 ^ 64 \<and> unat (ts_used s) + unat n \<le> unat (ts_limit s)"
proof -
  have "unat (ts_used s + n) = unat (ts_used s) + unat n" if "unat (ts_used s) + unat n < 2 ^ 64"
    using that by (simp add: unat_word_ariths)
  then show ?thesis
    by (auto simp: reservation_grow_def rs_grow_to_def ts_reserve_def ts_ensure_running_def ensure_def reserve_required_def
        ok_or_def checked_add_def word_less_nat_alt word_le_nat_alt unat_eq_0 split: if_splits)
qed

lemma rs_grow_to_compose:
  assumes "rs_grow_to a held s = (Inr (held', s') :: ('io io_error, _) res)" "held \<le> a" "a \<le> b"
  shows "rs_grow_to b held' s' = (rs_grow_to b held s :: ('io io_error, _) res)"
proof (cases "a = held \<or> b = a")
  case True
  then show ?thesis using assms by (auto simp: rs_grow_to_def res_bind_Inr_iff split: if_splits)
next
  case False
  then have lt: "held < a" "a < b" using assms(2,3) by auto
  have st: "held' = a" "\<not> ts_stopped s" "s' = s\<lparr>ts_used := ts_used s + (a - held)\<rparr>"
    "unat (ts_used s) + unat (a - held) < 2 ^ 64"
    using assms(1) lt(1)
    by (auto simp: rs_grow_to_def ts_reserve_def ts_ensure_running_def ensure_def reserve_required_def
        ok_or_def checked_add_def res_bind_Inr_iff split: if_splits)
  have un: "unat (b - a) = unat b - unat a" "unat (a - held) = unat a - unat held" "unat (b - held) = unat b - unat held"
    using lt by (simp_all add: unat_sub less_imp_le order_trans [of held a b])
  have le: "unat held \<le> unat a" "unat a \<le> unat b" using lt by (simp_all add: word_less_nat_alt)
  have "unat (ts_used s + (a - held)) = unat (ts_used s) + unat (a - held)"
    using st(4) by (simp add: unat_word_ariths)
  then have "checked_add (ts_used s + (a - held)) (b - a) = checked_add (ts_used s) (b - held)"
    using le un by (simp add: checked_add_def)
  moreover have "\<not> b \<le> a" "\<not> b \<le> held" using lt by auto
  ultimately show ?thesis
    using st by (simp add: rs_grow_to_def ts_reserve_def ts_ensure_running_def reserve_required_def)
qed

lemma reservation_grow_grants:
  assumes "\<not> ts_stopped s"
  shows "grants (reservation_grow s) (unat (ts_limit s) - unat (ts_used s))"
proof -
  have "unat (ts_limit s) < 2 ^ 64" using unat_lt_pow [of "ts_limit s"] by simp
  moreover have "n = 0 \<or> unat (ts_used s) + unat n \<le> unat (ts_limit s)"
    if "unat n \<le> unat (ts_limit s) - unat (ts_used s)" for n
    using that unat_eq_0 [of n] by arith
  ultimately show ?thesis using assms unfolding grants_def reservation_grow_None by fastforce
qed

text \<open>The reservation of a sealed run holds exactly the bytes of its file.\<close>

lemma sealed_run_charged:
  assumes "write_run sha grow d capacity rs = Inr run"
  shows "grow (sr_bytes run) = None"
  using assms
  by (auto simp: write_run_def rw_seal_def write_reserved_def res_bind_Inr_iff split: if_splits option.splits)

end
