(* ===== verification/Run_Theorems.thy ===== *)
theory Run_Theorems
  imports Run_Range_Spec Run_Merge Run_Quota
begin

text \<open>
  Properties of the run files: what is written is read back, what a pass accepts, how much space a run
  takes of the session's quota, what a range reader returns and what merging runs produces.
\<close>

text \<open>A digest of the right length and runs small enough to be evaluated, for the witnesses.\<close>

definition ex_sha :: "bytes \<Rightarrow> bytes" where
  "ex_sha bs = replicate 32 (of_nat (length bs))"

definition ex_descriptor :: run_descriptor where
  "ex_descriptor = \<lparr>rd_generation = 3, rd_run_id = 7, rd_kind = RunPathCatalog\<rparr>"

definition ex_records :: "run_record list" where
  "ex_records = [([1], [10, 11]), ([1, 0], []), ([2], [5])]"

definition ex_storage :: temporary_storage where
  "ex_storage = \<lparr>ts_limit = 1000, ts_used = 200, ts_stopped = False\<rparr>"

lemma length_ex_sha [simp]: "length (ex_sha x) = 32"
  by (simp add: ex_sha_def)

lemma ex_records_sorted: "keys_sorted ex_records" "\<forall>kv \<in> set ex_records. 8 + length (fst kv) + length (snd kv) \<le> 16"
  by (simp_all add: ex_records_def keys_sorted_def)

lemma ex_run_sealed: "\<exists>run. write_run ex_sha (\<lambda>_. None :: unit option) d 16 ex_records = Inr run"
  by (rule write_run_succeeds [where limit = 1000]) (simp_all add: grants_def ex_records_sorted, simp add: ex_records_def)

lemma sealed_run_read:
  fixes running :: "u64 \<Rightarrow> 'io option"
  assumes "write_run sha grow d capacity rs = Inr run"
    and "\<And>x. length (sha x) = 32" and "\<And>n. running n = None"
  shows "\<exists>r r'. rr_open (sr_file run) = (Inr r :: ('io run_error, _) res) \<and> rr_descriptor r = d \<and>
    rr_visit sha running from_err collect r [] = Inr (rs, r') \<and> rr_finished r'"
proof -
  obtain r bs N B where r: "rr_open (sr_file run) = (Inr r :: ('io run_error, _) res)" "rr_descriptor r = d"
    "reader_at sha r [] bs N B" "concat bs = rs"
    using sealed_run_reader [where ?'io = 'io, OF assms(1)] by blast
  from rr_visit_at [where running = running and from_err = from_err and visit = collect and s = "[]", OF r(3) assms(2,3)] r
  show ?thesis by (auto simp: visit_all_collect)
qed

text \<open>
  C21. Records survive a run: whenever writing a list of records to a new run succeeds, opening its file
  gives a reader with the run's descriptor whose pass visits exactly those records, in order, and ends
  at the footer.
\<close>

theorem run_roundtrip:
  fixes running :: "u64 \<Rightarrow> 'io option"
  assumes "write_run sha grow d capacity rs = Inr run"
    and "\<And>x. length (sha x) = 32" and "\<And>n. running n = None"
  shows "\<exists>r r'. rr_open (sr_file run) = (Inr r :: ('io run_error, _) res) \<and> rr_descriptor r = d \<and>
    rr_visit sha running from_err collect r [] = Inr (rs, r') \<and> rr_finished r'"
  by (rule sealed_run_read [OF assms])

theorem run_roundtrip_witness:
  "\<exists>run r r'. write_run ex_sha (\<lambda>_. None :: unit option) ex_descriptor 16 ex_records = Inr run \<and>
    rr_open (sr_file run) = (Inr r :: (unit run_error, _) res) \<and>
    rr_visit ex_sha (\<lambda>_. None) id collect r [] = (Inr (ex_records, r') :: (unit run_error, _) res)"
proof -
  obtain run where run: "write_run ex_sha (\<lambda>_. None :: unit option) ex_descriptor 16 ex_records = Inr run" using ex_run_sealed by blast
  from run_roundtrip [where running = "\<lambda>_. None :: unit option" and from_err = id, OF run] run show ?thesis by auto
qed

text \<open>
  C22. A run takes a bounded share of the quota: records with strictly increasing keys that each fit a
  block are written successfully when the space left is at least 48 bytes plus 52 bytes, key and value
  for each record; and whenever a run is written, the reservation that the writer has grown is exactly
  the length of the file, and within the limit of the session.
\<close>

theorem run_within_quota:
  assumes "\<And>x. length (sha x) = 32" and "\<not> ts_stopped s" and "ts_used s \<le> ts_limit s"
  shows "(keys_sorted rs \<and> 0 < capacity \<and> capacity < 2 ^ 32 \<and>
      (\<forall>kv \<in> set rs. 8 + length (fst kv) + length (snd kv) \<le> capacity) \<and>
      unat (ts_used s) + 48 + (\<Sum>kv \<leftarrow> rs. 52 + length (fst kv) + length (snd kv)) \<le> unat (ts_limit s) \<longrightarrow>
      (\<exists>run. write_run sha (reservation_grow s) d capacity rs = Inr run)) \<and>
    (\<forall>run. write_run sha (reservation_grow s) d capacity rs = Inr run \<longrightarrow>
      (\<exists>s'. rs_grow_to (sr_bytes run) 0 s = (Inr (sr_bytes run, s') :: (unit io_error, _) res) \<and>
        unat (sr_bytes run) = length (sr_file run) \<and> unat (ts_used s') = unat (ts_used s) + length (sr_file run) \<and>
        ts_used s' \<le> ts_limit s' \<and> ts_limit s' = ts_limit s))"
proof (intro conjI allI impI)
  assume "keys_sorted rs \<and> 0 < capacity \<and> capacity < 2 ^ 32 \<and>
      (\<forall>kv \<in> set rs. 8 + length (fst kv) + length (snd kv) \<le> capacity) \<and>
      unat (ts_used s) + 48 + (\<Sum>kv \<leftarrow> rs. 52 + length (fst kv) + length (snd kv)) \<le> unat (ts_limit s)"
  then show "\<exists>run. write_run sha (reservation_grow s) d capacity rs = Inr run"
    using write_run_succeeds [where sha = sha and rs = rs, OF assms(1) reservation_grow_grants [OF assms(2)]]
    by (auto simp: record_cost_def)
next
  fix run
  assume w: "write_run sha (reservation_grow s) d capacity rs = Inr run"
  have "reservation_grow s (sr_bytes run) = None" by (rule sealed_run_charged [OF w])
  then obtain h s' where g: "rs_grow_to (sr_bytes run) 0 s = (Inr (h, s') :: (unit io_error, _) res)"
    by (auto simp: reservation_grow_def split: sum.splits)
  have "unat (sr_bytes run) = length (sr_file run)" using sealed_run_bytes [OF w] by blast
  with rs_grow_to_Inr [OF g] g assms(3)
  show "\<exists>s'. rs_grow_to (sr_bytes run) 0 s = (Inr (sr_bytes run, s') :: (unit io_error, _) res) \<and>
      unat (sr_bytes run) = length (sr_file run) \<and> unat (ts_used s') = unat (ts_used s) + length (sr_file run) \<and>
      ts_used s' \<le> ts_limit s' \<and> ts_limit s' = ts_limit s" by simp
qed

theorem run_within_quota_witness:
  "\<exists>run. write_run ex_sha (reservation_grow ex_storage) ex_descriptor 16 ex_records = Inr run"
  by (rule run_within_quota [where sha = ex_sha and s = ex_storage and rs = ex_records and capacity = 16, THEN conjunct1, rule_format])
    (simp_all add: ex_storage_def ex_records_def keys_sorted_def word_le_nat_alt)

text \<open>
  A pass over any file, however it came about, only succeeds when the keys it visited are strictly
  increasing, and never on a proper prefix of a file a pass accepts: a truncated run is refused.
\<close>

lemma run_pass_checks:
  fixes running :: "u64 \<Rightarrow> 'io option" and from_err :: "'io run_error \<Rightarrow> 'e"
  assumes "rr_open file = (Inr r :: ('io run_error, _) res)" and "rr_visit sha running from_err collect r [] = Inr (rs, r')"
  shows "keys_sorted rs \<and> (\<forall>pre x q. file = pre @ x \<and> x \<noteq> [] \<and> rr_open pre = (Inr q :: ('io run_error, _) res) \<longrightarrow>
    (\<exists>e. rr_visit sha running from_err collect q [] = Inl e))"
proof -
  have "keys_sorted rs" by (rule rr_visit_sorted [OF assms])
  with accepted_prefix_free [OF assms] show ?thesis by blast
qed

text \<open>
  C35. A range reader of an indexed run returns every record at or above its bound: the records it reads
  are an end of the run and the records left out are below the bound, as long as the bound is not below
  the first key.  Below the first key it returns nothing at all.
\<close>

theorem range_reader_complete:
  assumes "write_run sha grow d capacity rs = Inr run" and "indexed_kind (rd_kind d)" and "\<And>x. length (sha x) = 32"
  shows "\<exists>g skipped out. range_reader run lower = (Inr g :: ('io run_error, _) res) \<and> gr_reads sha g out \<and> rs = skipped @ out \<and>
    (rs \<noteq> [] \<and> fst (hd rs) \<le> lower \<longrightarrow> (\<forall>kv \<in> set skipped. fst kv < lower)) \<and>
    (rs \<noteq> [] \<and> lower < fst (hd rs) \<longrightarrow> out = [])"
proof -
  obtain bs where bs: "concat bs = rs" "run_ok capacity bs" "sr_file run = run_bytes sha d capacity bs" "sr_descriptor run = d"
    "unat (sr_bytes run) = length (sr_file run)" "sr_sparse_index run = Some (capacity, index_of sha 28 bs)"
    using sealed_run_bytes [OF assms(1)] assms(2) by auto
  let ?n = "selected lower bs"
  obtain g where g: "range_reader run lower = (Inr g :: ('io run_error, _) res)"
    "gr_reads sha g (if ?n = 0 then [] else concat (drop (?n - 1) bs))"
    using range_reader_reads [OF bs(3-6) assms(2) bs(2) assms(3)] by blast
  have zero: "?n = 0 \<longleftrightarrow> rs = [] \<or> lower < fst (hd rs)"
  proof (cases bs)
    case (Cons b cs)
    then have "b \<noteq> []" using bs(2) by (simp add: run_ok_def block_ok_def)
    then show ?thesis using Cons bs(1) by (auto simp: selected_def not_le)
  qed (use bs(1) in \<open>simp add: selected_def\<close>)
  show ?thesis
  proof (cases "?n = 0")
    case True
    with g zero show ?thesis by (intro exI [of _ g] exI [of _ rs] exI [of _ "[]"]) auto
  next
    case False
    have "rs = concat (take (?n - 1) bs) @ concat (drop (?n - 1) bs)" using bs(1) concat_take_drop by metis
    moreover have "\<forall>kv \<in> set (concat (take (?n - 1) bs)). fst kv < lower" using selected_skips [OF bs(2)] by blast
    moreover have "gr_reads sha g (concat (drop (?n - 1) bs))" using g(2) False by simp
    ultimately show ?thesis using g(1) zero False by blast
  qed
qed

theorem range_reader_complete_witness:
  "\<exists>run g skipped out. write_run ex_sha (\<lambda>_. None :: unit option) ex_descriptor 16 ex_records = Inr run \<and>
    range_reader run [1, 5] = (Inr g :: (unit run_error, _) res) \<and> gr_reads ex_sha g out \<and> ex_records = skipped @ out \<and>
    (\<forall>kv \<in> set skipped. fst kv < [1, 5])"
proof -
  obtain run where run: "write_run ex_sha (\<lambda>_. None :: unit option) ex_descriptor 16 ex_records = Inr run" using ex_run_sealed by blast
  have "ex_records \<noteq> []" "fst (hd ex_records) \<le> [1, 5]" by (simp_all add: ex_records_def)
  with range_reader_complete [OF run, where lower = "[1, 5]"] run show ?thesis
    by (fastforce simp: ex_descriptor_def indexed_kind_def)
qed

text \<open>
  C23. Merging sealed runs of one generation and kind into a new run is writing the records of all of
  them, sorted by key, to that run, errors of the writer included, when no key occurs twice; and
  the merge fails when some key does.
\<close>

theorem merge_runs_sorts:
  fixes running :: "u64 \<Rightarrow> 'io option" and grow :: "'io grow"
  assumes "\<And>x. length (sha x) = 32" and "\<And>n. running n = None"
    and "list_all2 (\<lambda>run rs. \<exists>granted i capacity. write_run sha (granted :: 'io grow) (d\<lparr>rd_run_id := i\<rparr>) capacity rs = Inr run) runs rss"
    and "map (\<lambda>run. rr_open (sr_file run)) runs = map (Inr :: _ \<Rightarrow> ('io run_error, _) res) inputs"
    and "rw_new grow [] 0 d capacity' = Inr w"
  shows "if distinct (map fst (concat rss))
    then res_bind (merge_sorted_runs sha running grow inputs w) (\<lambda>w. map_err MergeRun (rw_seal sha grow w)) =
      map_err MergeRun (write_run sha grow d capacity' (sort_key fst (concat rss)))
    else \<exists>e. merge_sorted_runs sha running grow inputs w = Inl e"
proof -
  have len: "length runs = length inputs" using arg_cong [OF assms(4), of length] by simp
  have each: "\<exists>bs N B. reader_at sha (inputs ! i) [] bs N B \<and> rss ! i = concat bs \<and>
      rd_kind (rr_descriptor (inputs ! i)) = rd_kind d \<and> rd_generation (rr_descriptor (inputs ! i)) = rd_generation d"
    if i: "i < length inputs" for i
  proof -
    obtain granted :: "'io grow" and j capacity where
      "write_run sha granted (d\<lparr>rd_run_id := j\<rparr>) capacity (rss ! i) = Inr (runs ! i)"
      using list_all2_nthD [OF assms(3), of i] i unfolding len by blast
    from sealed_run_reader [where ?'io = 'io, OF this] obtain r bs N B where
      "rr_open (sr_file (runs ! i)) = (Inr r :: ('io run_error, _) res)" "rr_descriptor r = d\<lparr>rd_run_id := j\<rparr>"
      "reader_at sha r [] bs N B" "concat bs = rss ! i" by blast
    moreover have "rr_open (sr_file (runs ! i)) = (Inr (inputs ! i) :: ('io run_error, _) res)"
      using arg_cong [OF assms(4), of "\<lambda>xs. xs ! i"] i len by simp
    ultimately show ?thesis by (intro exI [of _ bs] exI [of _ N] exI [of _ B]) simp
  qed
  have at: "list_all2 (\<lambda>r s. \<exists>bs N B. reader_at sha r [] bs N B \<and> s = concat bs) inputs rss"
    unfolding list_all2_conv_all_nth using each list_all2_lengthD [OF assms(3)] len by fastforce
  have ds: "\<forall>r \<in> set inputs. rd_generation (rr_descriptor r) = rd_generation (rw_descriptor w) \<and>
      rd_kind (rr_descriptor r) = rd_kind (rw_descriptor w)"
    unfolding all_set_conv_all_nth rw_new_descriptor [OF assms(5)] using each by blast
  from merge_sorted_runs_at [where running = running and grow = grow, OF assms(1,2) at ds]
  show ?thesis using append_all_seal [OF assms(5), where h = MergeRun] by auto
qed

text \<open>Two runs of one kind, for the witness.\<close>

lemma ex_inputs:
  obtains r1 r2 q1 q2 where
    "write_run ex_sha (\<lambda>_. None :: unit option) (ex_descriptor\<lparr>rd_run_id := 1\<rparr>) 16 [([2], [5]), ([3], [])] = Inr r1"
    "write_run ex_sha (\<lambda>_. None :: unit option) (ex_descriptor\<lparr>rd_run_id := 2\<rparr>) 16 [([1], [])] = Inr r2"
    "rr_open (sr_file r1) = (Inr q1 :: (unit run_error, _) res)" "rr_open (sr_file r2) = (Inr q2 :: (unit run_error, _) res)"
proof -
  have g: "grants (\<lambda>_. None :: unit option) 1000" by (simp add: grants_def)
  have "\<exists>run. write_run ex_sha (\<lambda>_. None :: unit option) (ex_descriptor\<lparr>rd_run_id := 1\<rparr>) 16 [([2], [5]), ([3], [])] = Inr run"
    "\<exists>run. write_run ex_sha (\<lambda>_. None :: unit option) (ex_descriptor\<lparr>rd_run_id := 2\<rparr>) 16 [([1], [])] = Inr run"
    by (rule write_run_succeeds [OF length_ex_sha g]; simp add: keys_sorted_def)+
  then obtain r1 r2 where r:
    "write_run ex_sha (\<lambda>_. None :: unit option) (ex_descriptor\<lparr>rd_run_id := 1\<rparr>) 16 [([2], [5]), ([3], [])] = Inr r1"
    "write_run ex_sha (\<lambda>_. None :: unit option) (ex_descriptor\<lparr>rd_run_id := 2\<rparr>) 16 [([1], [])] = Inr r2" by blast
  from sealed_run_reader [where ?'io = unit, OF r(1)] sealed_run_reader [where ?'io = unit, OF r(2)]
  have "\<exists>q. rr_open (sr_file r1) = (Inr q :: (unit run_error, _) res)" "\<exists>q. rr_open (sr_file r2) = (Inr q :: (unit run_error, _) res)"
    by blast+
  with r that show thesis by blast
qed

theorem merge_runs_sorts_witness:
  "\<exists>q1 q2 w. rw_new (\<lambda>_. None :: unit option) [] 0 ex_descriptor 16 = Inr w \<and>
    map_err MergeRun (write_run ex_sha (\<lambda>_. None) ex_descriptor 16 [([1], []), ([2], [5]), ([3], [])]) =
    res_bind (merge_sorted_runs ex_sha (\<lambda>_. None :: unit option) (\<lambda>_. None) [q1, q2] w) (\<lambda>w. map_err MergeRun (rw_seal ex_sha (\<lambda>_. None) w))"
proof -
  obtain r1 r2 q1 q2 where e:
    "write_run ex_sha (\<lambda>_. None :: unit option) (ex_descriptor\<lparr>rd_run_id := 1\<rparr>) 16 [([2], [5]), ([3], [])] = Inr r1"
    "write_run ex_sha (\<lambda>_. None :: unit option) (ex_descriptor\<lparr>rd_run_id := 2\<rparr>) 16 [([1], [])] = Inr r2"
    "rr_open (sr_file r1) = (Inr q1 :: (unit run_error, _) res)" "rr_open (sr_file r2) = (Inr q2 :: (unit run_error, _) res)"
    by (rule ex_inputs)
  obtain w where w: "rw_new (\<lambda>_. None :: unit option) [] 0 ex_descriptor 16 = Inr w"
    using ex_run_sealed [of ex_descriptor] by (auto simp: write_run_def res_bind_Inr_iff)
  have in1: "list_all2 (\<lambda>run rs. \<exists>granted i capacity. write_run ex_sha (granted :: unit grow) (ex_descriptor\<lparr>rd_run_id := i\<rparr>) capacity rs = Inr run)
      [r1, r2] [[([2], [5]), ([3], [])], [([1], [])]]" using e(1,2) by auto
  have in2: "map (\<lambda>run. rr_open (sr_file run)) [r1, r2] = map (Inr :: _ \<Rightarrow> (unit run_error, _) res) [q1, q2]" using e(3,4) by simp
  from merge_runs_sorts [where sha = ex_sha and running = "\<lambda>_. None", OF length_ex_sha refl in1 in2 w] w
  show ?thesis by (intro exI [of _ q1] exI [of _ q2] exI [of _ w] conjI) (rule w, simp)
qed

end
