(* ===== verification/Summary_Pipeline.thy ===== *)
theory Summary_Pipeline
  imports Directory_Summary
begin

text \<open>
  The pass from an observation run to a summary run, end to end.  \<open>pull_at\<close>: a reader at the
  start of a run that holds encoded observations answers exactly those.  \<open>emit_all_summaries\<close>:
  emitting summaries appends their records under consecutive ordinals.  Together with the correctness of
  the reduction they give \<open>reduce_run_canonical\<close>; \<open>visit_summaries_at\<close> reads the result back.
\<close>

section \<open>The source\<close>

definition observation_record :: "path_observation \<Rightarrow> run_record \<Rightarrow> bool" where
  "observation_record ob kv \<longleftrightarrow> encode_path_observation_into ob = Inr kv \<and> relative_path_ok (po_path ob) \<and> metrics_ok (po_metrics ob)"

lemma observation_record_decode: "observation_record ob kv \<Longrightarrow> decode_path_observation (fst kv) (snd kv) = Inr ob"
  using decode_encode_observation [of ob "fst kv" "snd kv"] by (simp add: observation_record_def)

lemma pull_at:
  fixes running :: "u64 \<Rightarrow> 'io option"
  assumes "reader_at sha r rs bs N B" "\<And>x. length (sha x) = 32" "\<And>n. running n = None"
    "list_all2 observation_record obs (rs @ concat bs)"
  shows "pull_observations sha running r = map Inr obs"
  using assms
proof (induction obs arbitrary: r rs bs)
  case Nil
  then have "rs @ concat bs = []" by simp
  from rr_next_end [where running = running, OF Nil.prems(1,3) this] show ?case
    by (auto simp: pull_observations.simps)
next
  case (Cons ob obs)
  then obtain kv rest where kv: "rs @ concat bs = kv # rest" "observation_record ob kv" "list_all2 observation_record obs rest"
    by (auto simp: list_all2_Cons1)
  from rr_next_at [where running = running, OF Cons.prems(1,2,3) kv(1)] obtain r' rs' bs' where
    n: "rr_next_record sha running r = Inr (Some kv, r')" "reader_at sha r' rs' bs' N B" "rs' @ concat bs' = rest" by blast
  from Cons.IH [OF n(2) Cons.prems(2,3)] kv(3) n(3) have "pull_observations sha running r' = map Inr obs" by simp
  then show ?case
    using n(1) observation_record_decode [OF kv(2)] by (simp add: pull_observations.simps [of sha running r])
qed

section \<open>The output\<close>

fun summary_records :: "u64 \<Rightarrow> directory_summary list \<Rightarrow> run_record list" where
  "summary_records n [] = []"
| "summary_records n (y # ys) = (u64_be n, summary_value y) # summary_records (n + 1) ys"

lemma append_summary_eq:
  assumes "rd_kind (rw_descriptor w) = RunDirectorySummary" "summary_fits y"
  shows "append_directory_summary sha grow n y w = map_err SummaryRun (rw_append sha grow (u64_be n) (summary_value y) w)"
  using assms by (simp add: append_directory_summary_def encode_summary_fits)

lemma emit_summary_eq:
  "emit_summary sha grow y (n, w) =
     res_bind (append_directory_summary sha grow n y w) (\<lambda>w.
     res_bind (ok_or (checked_add n 1) OrdinalOverflow) (\<lambda>n. Inr (n, w)))"
  by (simp add: emit_summary_def)

lemma emit_all_summaries:
  "rd_kind (rw_descriptor w) = RunDirectorySummary \<Longrightarrow> \<forall>y \<in> set out. summary_fits y \<Longrightarrow> unat n + length out < 2 ^ 64 \<Longrightarrow>
    emit_all (emit_summary sha grow) out (n, w) =
      res_bind (map_err SummaryRun (append_all sha grow (summary_records n out) w)) (\<lambda>w. Inr (n + of_nat (length out), w))"
proof (induction out arbitrary: n w)
  case (Cons y out)
  have add: "checked_add n 1 = Some (n + 1)" "unat (n + 1) + length out < 2 ^ 64"
    using Cons.prems(3) checked_add_one_Some [of n] by simp_all
  show ?case
  proof (cases "rw_append sha grow (u64_be n) (summary_value y) w")
    case (Inl e)
    then show ?thesis using Cons.prems append_summary_eq [of w y sha grow n] by (simp add: emit_summary_eq)
  next
    case (Inr w')
    from Cons.IH [of w' "n + 1"] Cons.prems(1,2) add(2) rw_append_descriptor [OF Inr]
    have "emit_all (emit_summary sha grow) out (n + 1, w') =
      res_bind (map_err SummaryRun (append_all sha grow (summary_records (n + 1) out) w')) (\<lambda>w. Inr (n + 1 + of_nat (length out), w))"
      by simp
    then show ?thesis
      using Cons.prems append_summary_eq [of w y sha grow n] Inr add(1) by (simp add: emit_summary_eq ac_simps)
  qed
qed simp

section \<open>Totals are well formed\<close>

lemma metrics_ok_sm_plus: "metrics_ok a \<Longrightarrow> metrics_ok b \<Longrightarrow> metrics_ok (sm_plus a b)"
  by (simp add: metrics_ok_def sm_plus_def bounds_ok_bb_add)

lemma metrics_ok_parts [simp]: "metrics_ok (fst czero)" "metrics_ok (fst cone)" "metrics_ok (fst cunc)"
  by (simp_all add: metrics_ok_def czero_def cone_def cunc_def sm_default_def)

lemma metrics_ok_ctotal: "\<forall>c \<in> set cs. metrics_ok (fst c) \<Longrightarrow> metrics_ok (fst (ctotal cs))"
  by (induction cs) (simp_all add: cplus_def metrics_ok_sm_plus)

lemma metrics_ok_weight: "metrics_ok (po_metrics x) \<Longrightarrow> metrics_ok (fst (weight un x))"
  by (simp add: weight_def cplus_def unc_at_def metrics_ok_sm_plus)

lemma metrics_ok_subtree_total:
  assumes "\<forall>x \<in> set xs. metrics_ok (po_metrics x)"
  shows "metrics_ok (fst (subtree_total un xs p))"
proof -
  have "metrics_ok (fst (own un xs p))"
    using assms by (simp add: own_def unc_at_def metrics_ok_weight metrics_ok_ctotal)
  moreover have "metrics_ok (fst (ctotal (map (\<lambda>x. cplus (weight un x) cone) (strictly_below p xs))))"
    using assms by (intro metrics_ok_ctotal) (simp add: strictly_below_def cplus_def metrics_ok_sm_plus metrics_ok_weight)
  ultimately show ?thesis by (simp add: subtree_total_def cplus_def metrics_ok_sm_plus)
qed

lemma post_order_wf:
  assumes "post_order un xs out" "y \<in> set out" "\<forall>x \<in> set xs. metrics_ok (po_metrics x) \<and> relative_path_ok (po_path x) \<and> nul_free (po_path x)"
  shows "metrics_ok (ds_metrics y)" "relative_path_ok (ds_path y)" "nul_free (ds_path y)"
    "ds_path y = [] \<or> (\<exists>x \<in> set xs. ds_path y = po_path x)"
proof -
  have "summary_ok un xs y" using assms(1,2) by (simp add: post_order_def)
  then have "ds_metrics y = fst (subtree_total un xs (ds_path y))" by (simp add: summary_ok_def prod_eq_iff)
  then show "metrics_ok (ds_metrics y)" using metrics_ok_subtree_total [of xs un] assms(3) by simp
  have "ds_path y \<in> directory_paths xs" using assms(1,2) by (auto simp: post_order_def)
  then show "relative_path_ok (ds_path y)" "nul_free (ds_path y)" "ds_path y = [] \<or> (\<exists>x \<in> set xs. ds_path y = po_path x)"
    using assms(3) by (auto simp: directory_paths_def relative_path_ok_def)
qed

section \<open>The pass\<close>

lemma length_key_bytes_ge: "length p \<le> length (key_bytes p)"
  by (induction p) auto

lemma post_order_length:
  assumes "post_order un xs out"
  shows "length out \<le> Suc (length xs)"
proof -
  have "distinct (map ds_path out)"
    using assms unfolding post_order_def by (metis distinct_conv_nth prefix_order.refl sorted_wrt_nth_less linorder_neqE_nat)
  then have "length out = card (directory_paths xs)"
    using assms by (metis distinct_card length_map post_order_def)
  also have "\<dots> \<le> Suc (card (po_path ` {x \<in> set xs. po_kind x = EntryDirectory}))"
    unfolding directory_paths_def by (simp add: card_insert_le_m1 card_insert_if)
  also have "card (po_path ` {x \<in> set xs. po_kind x = EntryDirectory}) \<le> length xs"
  proof -
    have "card (po_path ` {x \<in> set xs. po_kind x = EntryDirectory}) \<le> card {x \<in> set xs. po_kind x = EntryDirectory}"
      by (rule card_image_le) simp
    also have "\<dots> \<le> card (set xs)" by (intro card_mono) auto
    also have "\<dots> \<le> length xs" by (rule card_length)
    finally show ?thesis .
  qed
  finally show ?thesis by simp
qed

lemma reduce_run_canonical:
  fixes running :: "u64 \<Rightarrow> 'io option"
  assumes at: "reader_at sha r rs bs N B" and sha: "\<And>x. length (sha x) = 32" and run: "\<And>n. running n = None"
    and obs: "list_all2 observation_record obs (rs @ concat bs)" and can: "canonical obs"
    and keys: "\<forall>x \<in> set obs. length (key_bytes (po_path x)) < 2 ^ 32" and count: "length obs < 2 ^ 63"
    and kinds: "rd_kind (rr_descriptor r) = RunPathObservation" "rd_kind (rw_descriptor w) = RunDirectorySummary"
      "rd_generation (rr_descriptor r) = rd_generation (rw_descriptor w)"
  shows "\<exists>out. post_order un obs out \<and> (\<forall>y \<in> set out. summary_fits y \<and> relative_path_ok (ds_path y) \<and> metrics_ok (ds_metrics y)) \<and>
    reduce_path_observation_run sha running grow r w un =
      map_err (\<lambda>e. ReduceError (SummaryRun e)) (append_all sha grow (summary_records 0 out) w)"
proof -
  have "vec_sized (po_path x)" if "x \<in> set obs" for x
    using keys that length_key_bytes_ge [of "po_path x"] by fastforce
  then obtain out where out: "post_order un obs out"
    "\<And>(emit :: ('io directory_summary_run_error, u64 \<times> run_writer) emit) s.
      reduce_sorted_path_stream Reduction (map Inr obs) emit un s = map_err ReduceError (emit_all emit out s)"
    using reduce_canonical [OF can, of un Reduction] by blast
  have wf: "\<forall>x \<in> set obs. metrics_ok (po_metrics x) \<and> relative_path_ok (po_path x) \<and> nul_free (po_path x)"
  proof
    fix x assume "x \<in> set obs"
    then obtain i where i: "i < length obs" "x = obs ! i" by (auto simp: in_set_conv_nth)
    from list_all2_nthD [OF obs i(1)] obtain k v where "observation_record x (k, v)" using i(2) by (metis surj_pair)
    then show "metrics_ok (po_metrics x) \<and> relative_path_ok (po_path x) \<and> nul_free (po_path x)"
      by (simp add: observation_record_def encode_observation_Inr)
  qed
  have fits: "summary_fits y \<and> relative_path_ok (ds_path y) \<and> metrics_ok (ds_metrics y)" if y: "y \<in> set out" for y
    using post_order_wf [OF out(1) y wf] keys by (auto simp: summary_fits_def)
  have "emit_all (emit_summary sha grow) out (0, w) =
      res_bind (map_err SummaryRun (append_all sha grow (summary_records 0 out) w)) (\<lambda>w. Inr (of_nat (length out), w))"
    using emit_all_summaries [of w out 0 sha grow] kinds(2) fits post_order_length [OF out(1)] count by simp
  then have "reduce_path_observation_run sha running grow r w un =
      map_err (\<lambda>e. ReduceError (SummaryRun e)) (append_all sha grow (summary_records 0 out) w)"
    using kinds out(2) [of "emit_summary sha grow" "(0, w)"] pull_at [where running = running, OF at sha run obs]
    by (cases "append_all sha grow (summary_records 0 out) w") (simp_all add: reduce_path_observation_run_def)
  with out(1) fits show ?thesis by blast
qed

section \<open>Reading the summaries back\<close>

definition collect_summary :: "u64 \<Rightarrow> directory_summary \<Rightarrow> directory_summary list \<Rightarrow> ('e, directory_summary list) res" where
  "collect_summary n y acc = Inr (acc @ [y])"

lemma visit_all_summaries:
  "\<forall>y \<in> set out. summary_fits y \<and> relative_path_ok (ds_path y) \<and> metrics_ok (ds_metrics y) \<Longrightarrow> unat n + length out < 2 ^ 64 \<Longrightarrow>
    visit_all (visit_summary collect_summary) (summary_records n out) (n, acc) =
      (Inr (n + of_nat (length out), acc @ out) :: ('io directory_summary_run_error, _) res)"
proof (induction out arbitrary: n acc)
  case (Cons y out)
  have add: "checked_add n 1 = Some (n + 1)" "unat (n + 1) + length out < 2 ^ 64"
    using Cons.prems(2) checked_add_one_Some [of n] by simp_all
  have "visit_summary collect_summary (u64_be n) (summary_value y) (n, acc) =
      (Inr (n + 1, acc @ [y]) :: ('io directory_summary_run_error, _) res)"
    using Cons.prems(1) add(1) decode_encode_summary [of y n] by (simp add: visit_summary_def collect_summary_def)
  then show ?case using Cons.IH [of "n + 1" "acc @ [y]"] Cons.prems(1) add(2) by (simp add: ac_simps)
qed simp

lemma visit_summaries_at:
  fixes running :: "u64 \<Rightarrow> 'io option"
  assumes at: "reader_at sha r rs bs N B" and sha: "\<And>x. length (sha x) = 32" and run: "\<And>n. running n = None"
    and kind: "rd_kind (rr_descriptor r) = RunDirectorySummary" and recs: "rs @ concat bs = summary_records 0 out"
    and fits: "\<forall>y \<in> set out. summary_fits y \<and> relative_path_ok (ds_path y) \<and> metrics_ok (ds_metrics y)" and count: "length out < 2 ^ 64"
  shows "\<exists>r'. rr_finished r' \<and> visit_directory_summaries sha running collect_summary r [] = Inr (out, r')"
proof -
  from rr_visit_at [where running = running, OF at sha run, of SummaryRun "visit_summary collect_summary" "(0, [])"]
  obtain r' where "rr_finished r'" "rr_visit sha running SummaryRun (visit_summary collect_summary) r (0, []) =
      res_bind (visit_all (visit_summary collect_summary) (rs @ concat bs) (0, [])) (\<lambda>s. Inr (s, r'))" by blast
  then show ?thesis
    using visit_all_summaries [OF fits, of 0 "[]", where ?'io = 'io] count kind recs by (auto simp: visit_directory_summaries_def)
qed

section \<open>The output is sorted\<close>

text \<open>Big-endian ordinals sort as numbers.\<close>

lemma le_value_append: "le_value (xs @ ys) = le_value xs + 256 ^ length xs * le_value ys"
  by (induction xs) (simp_all add: algebra_simps)

lemma rev_value_less: "length xs = length ys \<Longrightarrow> xs < ys \<longleftrightarrow> le_value (rev xs) < le_value (rev ys)"
proof (induction xs ys rule: list_induct2)
  case (Cons x xs y ys)
  let ?n = "256 ^ length xs :: nat"
  have bound: "le_value (rev xs) < ?n" "le_value (rev ys) < ?n"
    using le_value_bound [of "rev xs"] le_value_bound [of "rev ys"] Cons.hyps by simp_all
  have carry: "u + ?n * a < v + ?n * b" if "a < b" "u < ?n" for u v a b :: nat
  proof -
    have "u + ?n * a < ?n * Suc a" using that(2) by simp
    also have "\<dots> \<le> ?n * b" using that(1) by (intro mult_le_mono2) simp
    finally show ?thesis by simp
  qed
  consider "x = y" | "x < y" | "y < x" by (cases x y rule: linorder_cases) auto
  then show ?case
  proof cases
    case 2
    then show ?thesis using carry [of "unat x" "unat y" "le_value (rev xs)" "le_value (rev ys)"] bound Cons.hyps
      by (simp add: le_value_append word_less_nat_alt)
  next
    case 3
    then show ?thesis using carry [of "unat y" "unat x" "le_value (rev ys)" "le_value (rev xs)"] bound Cons.hyps
      by (auto simp: le_value_append word_less_nat_alt)
  qed (use Cons in \<open>simp add: le_value_append\<close>)
qed simp

lemma u64_be_less: "u64_be a < u64_be b \<longleftrightarrow> a < b"
proof -
  have "le_value (rev (u64_be c)) = unat c" for c
    using le_value_le_bytes [of "unat c" 8] unat_lt_pow [of c] by (simp add: u64_be_def u64_le_def)
  then show ?thesis
    using rev_value_less [of "u64_be a" "u64_be b"] by (simp add: word_less_nat_alt)
qed

lemma summary_records_above:
  "unat n + length out < 2 ^ 64 \<Longrightarrow> m < n \<Longrightarrow> kv \<in> set (summary_records n out) \<Longrightarrow> u64_be m < fst kv"
proof (induction out arbitrary: n)
  case (Cons y out)
  have "unat (n + 1) = Suc (unat n)" using Cons.prems(1) checked_add_one_Some [of n] by simp
  then show ?case using Cons.IH [of "n + 1"] Cons.prems by (auto simp: u64_be_less word_less_nat_alt)
qed simp

lemma summary_records_sorted: "unat n + length out < 2 ^ 64 \<Longrightarrow> keys_sorted (summary_records n out)"
proof (induction out arbitrary: n)
  case (Cons y out)
  have n: "unat (n + 1) = Suc (unat n)" using Cons.prems(1) checked_add_one_Some [of n] by simp
  then have "n < n + 1" by (simp add: word_less_nat_alt)
  then show ?case
    using Cons n summary_records_above [of "n + 1" out n] by (auto simp: keys_sorted_Cons)
qed (simp add: keys_sorted_def)

end
