(* ===== verification/Identity_Reduction.thy ===== *)
theory Identity_Reduction
  imports Identity_Observation
begin

text \<open>
  What the identity reduction computes.  \<open>group_contribution\<close> is the reference for the
  observations of one file identity: they count once, at the deepest directory that holds all of them;
  the allocation is known only when every observation reports the same exact size, and it is
  reclaimable only when every declared link was observed.  \<open>reduce_identity_run\<close> shows that
  the streaming reduction writes exactly these, one per identity and in key order, and
  \<open>adjacent_groups_sorted\<close> that in a sorted run each identity forms one group.
\<close>

section \<open>The reference\<close>

text \<open>The value all observations agree on, if they all have one.\<close>

definition agreed :: "'a option list \<Rightarrow> 'a option" where
  "agreed xs = (if \<forall>x \<in> set xs. x = hd xs then hd xs else None)"

definition shared_path :: "relative_path list \<Rightarrow> relative_path" where
  "shared_path ps = foldl longest_common_prefix (hd ps) (tl ps)"

definition group_allocation :: "identity_observation list \<Rightarrow> byte_bounds" where
  "group_allocation g =
     (case agreed (map (\<lambda>x. exact_bytes (io_allocated_bytes x)) g) of None \<Rightarrow> bb_unknown | Some v \<Rightarrow> bb_exact v)"

definition links_complete :: "identity_observation list \<Rightarrow> bool" where
  "links_complete g \<longleftrightarrow>
     (case agreed (map io_declared_links g) of None \<Rightarrow> False | Some declared \<Rightarrow> unat declared \<le> length g)"

definition group_contribution :: "identity_observation list \<Rightarrow> allocation_contribution" where
  "group_contribution g =
     \<lparr>ac_recipient = shared_path (map io_path g),
      ac_placement = (if length g = 1 then PlaceLeaf else PlaceShared),
      ac_allocated_bytes = group_allocation g,
      ac_reclaimable_bytes =
        (if links_complete g then group_allocation g else \<lparr>bb_lower = 0, bb_upper = bb_upper (group_allocation g)\<rparr>)\<rparr>"

function adjacent_groups :: "identity_observation list \<Rightarrow> identity_observation list list" where
  "adjacent_groups [] = []"
| "adjacent_groups (x # xs) =
     (x # takeWhile (\<lambda>y. io_file_id y = io_file_id x) xs) # adjacent_groups (dropWhile (\<lambda>y. io_file_id y = io_file_id x) xs)"
  by pat_completeness auto
termination
  by (relation "measure length") (auto simp: le_imp_less_Suc length_dropWhile_le)

definition group_record :: "identity_observation list \<Rightarrow> run_record" where
  "group_record g = (file_id_bytes (io_file_id (hd g)), contribution_value (group_contribution g))"

section \<open>Paths\<close>

lemma shared_prefix:
  "length (takeWhile (\<lambda>(a, b). a = b) (zip l r)) = length (longest_common_prefix l r)"
  by (induction l r rule: longest_common_prefix.induct) auto

lemma take_longest_common_prefix: "take (length (longest_common_prefix l r)) l = longest_common_prefix l r"
  using longest_common_prefix_prefix1 [of l r] by (metis append_eq_conv_conj prefixE)

lemma relative_path_ok_prefix: "prefix p q \<Longrightarrow> relative_path_ok q \<Longrightarrow> relative_path_ok p"
  by (auto simp: relative_path_ok_def elim!: prefixE)

lemma common_ancestor_eq: "relative_path_ok l \<Longrightarrow> common_ancestor l r = Some (longest_common_prefix l r)"
  using relative_path_ok_prefix [OF longest_common_prefix_prefix1 [of l r]]
  by (auto simp: common_ancestor_def shared_prefix take_longest_common_prefix from_components_def relative_path_ok_def)

lemma foldl_lcp_append: "foldl longest_common_prefix p (qs @ [q]) = longest_common_prefix (foldl longest_common_prefix p qs) q"
  by simp

lemma shared_path_snoc: "ps \<noteq> [] \<Longrightarrow> shared_path (ps @ [q]) = longest_common_prefix (shared_path ps) q"
  by (cases ps) (simp_all add: shared_path_def)

lemma shared_path_single [simp]: "shared_path [p] = p"
  by (simp add: shared_path_def)

lemma shared_path_prefix: "ps \<noteq> [] \<Longrightarrow> q \<in> set ps \<Longrightarrow> prefix (shared_path ps) q"
proof (induction ps rule: rev_nonempty_induct)
  case (snoc p ps)
  have "prefix (longest_common_prefix (shared_path ps) p) (shared_path ps)" "prefix (longest_common_prefix (shared_path ps) p) p"
    by (simp_all add: longest_common_prefix_prefix1 longest_common_prefix_prefix2)
  then show ?case using snoc shared_path_snoc [of ps p] by (auto intro: prefix_order.trans)
qed simp

lemma shared_path_greatest: "ps \<noteq> [] \<Longrightarrow> (\<And>q. q \<in> set ps \<Longrightarrow> prefix p q) \<Longrightarrow> prefix p (shared_path ps)"
proof (induction ps rule: rev_nonempty_induct)
  case (snoc q ps)
  then show ?case using shared_path_snoc [of ps q] by (simp add: longest_common_prefix_max_prefix)
qed simp

lemma shared_path_ok: "ps \<noteq> [] \<Longrightarrow> \<forall>p \<in> set ps. relative_path_ok p \<Longrightarrow> relative_path_ok (shared_path ps)"
  using shared_path_prefix [of ps "hd ps"] relative_path_ok_prefix by (metis hd_in_set)

section \<open>One group\<close>

definition group_of :: "identity_observation list \<Rightarrow> identity_group" where
  "group_of g =
     \<lparr>ig_file_id = io_file_id (hd g), ig_recipient = shared_path (map io_path g), ig_observed_links = of_nat (length g),
      ig_declared_links = agreed (map io_declared_links g),
      ig_exact_allocated_bytes = agreed (map (\<lambda>x. exact_bytes (io_allocated_bytes x)) g)\<rparr>"

lemma agreed_snoc: "xs \<noteq> [] \<Longrightarrow> agreed (xs @ [x]) = merge_declared_links (agreed xs) x"
  by (cases "hd xs") (auto simp: agreed_def merge_declared_links_def hd_append split: option.splits)

lemma agreed_single [simp]: "agreed [x] = x"
  by (simp add: agreed_def)

lemma ig_from_observation_eq: "ig_from_observation x = group_of [x]"
  by (simp add: ig_from_observation_def group_of_def)

lemma ig_observe_eq:
  assumes "g \<noteq> []" "\<forall>y \<in> set g. relative_path_ok (io_path y)" "Suc (length g) < 2 ^ 64"
  shows "ig_observe x (group_of g) = Inr (group_of (g @ [x]))"
proof -
  have "unat (of_nat (length g) :: u64) = length g" using assms(3) by (simp add: unat_of_nat)
  then have "checked_add (of_nat (length g) :: u64) 1 = Some (of_nat (length g) + 1)"
    using assms(3) by (simp add: checked_add_def)
  moreover have "relative_path_ok (shared_path (map io_path g))" using assms(1,2) by (intro shared_path_ok) auto
  ultimately show ?thesis
    using assms(1) agreed_snoc [of "map io_declared_links g" "io_declared_links x"] shared_path_snoc [of "map io_path g" "io_path x"]
      agreed_snoc [of "map (\<lambda>x. exact_bytes (io_allocated_bytes x)) g" "exact_bytes (io_allocated_bytes x)"]
    by (simp add: ig_observe_def group_of_def common_ancestor_eq add.commute)
qed

lemma ig_contribution_eq:
  assumes "length g < 2 ^ 64"
  shows "ig_contribution (group_of g) = group_contribution g"
proof -
  have n: "unat (of_nat (length g) :: u64) = length g" using assms by (simp add: unat_of_nat)
  have "(of_nat (length g) = (1 :: u64)) \<longleftrightarrow> length g = 1" using n by (metis unat_1 word_unat_eq_iff)
  moreover have "d \<le> (of_nat (length g) :: u64) \<longleftrightarrow> unat d \<le> length g" for d using n by (simp add: word_le_nat_alt)
  ultimately show ?thesis
    by (simp add: ig_contribution_def group_of_def group_contribution_def group_allocation_def links_complete_def Let_def
        split: option.split)
qed

section \<open>The loop\<close>

primrec reduce_all :: "(bytes \<Rightarrow> bytes) \<Rightarrow> 'io grow \<Rightarrow> identity_observation list \<Rightarrow> identity_group option \<times> run_writer \<Rightarrow>
    ('io identity_reduction_error, identity_group option \<times> run_writer) res" where
  "reduce_all sha grow [] s = Inr s"
| "reduce_all sha grow (x # xs) s = res_bind (reduce_identity_step sha grow x s) (reduce_all sha grow xs)"

definition last_flush :: "(bytes \<Rightarrow> bytes) \<Rightarrow> 'io grow \<Rightarrow> identity_group option \<times> run_writer \<Rightarrow>
    ('io identity_reduction_error, run_writer) res" where
  "last_flush sha grow = (\<lambda>(group, w). case group of None \<Rightarrow> Inr w | Some g \<Rightarrow> flush_group sha grow g w)"

primrec flush_all :: "(bytes \<Rightarrow> bytes) \<Rightarrow> 'io grow \<Rightarrow> identity_observation list list \<Rightarrow> run_writer \<Rightarrow>
    ('io identity_reduction_error, run_writer) res" where
  "flush_all sha grow [] w = Inr w"
| "flush_all sha grow (g # gs) w = res_bind (flush_group sha grow (group_of g) w) (flush_all sha grow gs)"

lemma flush_all_Nil [simp]: "flush_all sha grow [] = Inr"
  by (rule ext) simp

lemma adjacent_groups_same:
  assumes "\<forall>y \<in> set g. io_file_id y = io_file_id x"
  shows "adjacent_groups (x # g) = [x # g]"
proof -
  have "takeWhile (\<lambda>y. io_file_id y = io_file_id x) g = g" "dropWhile (\<lambda>y. io_file_id y = io_file_id x) g = []"
    using assms by (simp_all add: takeWhile_eq_all_conv dropWhile_eq_Nil_conv)
  then show ?thesis by (simp only: adjacent_groups.simps)
qed

lemma adjacent_groups_split:
  assumes "\<forall>y \<in> set g. io_file_id y = io_file_id x" "io_file_id z \<noteq> io_file_id x"
  shows "adjacent_groups ((x # g) @ z # zs) = (x # g) # adjacent_groups (z # zs)"
  using assms by (simp add: takeWhile_append2 dropWhile_append2 del: adjacent_groups.simps(2)
      add: adjacent_groups.simps(2) [of x "g @ z # zs"])

lemma reduce_all_groups:
  "\<forall>y \<in> set g. io_file_id y = io_file_id x \<Longrightarrow> \<forall>y \<in> set (x # g @ xs). relative_path_ok (io_path y) \<Longrightarrow>
    Suc (length (g @ xs)) < 2 ^ 64 \<Longrightarrow>
    res_bind (reduce_all sha grow xs (Some (group_of (x # g)), w)) (last_flush sha grow) =
      flush_all sha grow (adjacent_groups (x # g @ xs)) w"
proof (induction xs arbitrary: x g w)
  case Nil
  then show ?case
    using adjacent_groups_same [of g x] by (simp add: last_flush_def res_bind_def del: adjacent_groups.simps split: sum.split)
next
  case (Cons z xs)
  show ?case
  proof (cases "io_file_id z = io_file_id x")
    case True
    have "ig_observe z (group_of (x # g)) = (Inr (group_of (x # g @ [z])) :: ('a identity_reduction_error, _) res)"
      using ig_observe_eq [of "x # g" z] Cons.prems by simp
    then have "reduce_identity_step sha grow z (Some (group_of (x # g)), w) = Inr (Some (group_of (x # g @ [z])), w)"
      using True by (simp add: reduce_identity_step_def group_of_def [of "x # g"])
    then show ?thesis using Cons.IH [of "g @ [z]" x w] Cons.prems True by simp
  next
    case False
    have step: "reduce_identity_step sha grow z (Some (group_of (x # g)), w) =
        res_bind (flush_group sha grow (group_of (x # g)) w) (\<lambda>w. Inr (Some (group_of [z]), w))"
      using False by (simp add: reduce_identity_step_def ig_from_observation_eq group_of_def [of "x # g"])
    have "res_bind (reduce_all sha grow xs (Some (group_of [z]), w')) (last_flush sha grow) =
        flush_all sha grow (adjacent_groups (z # xs)) w'" for w'
      using Cons.IH [of "[]" z w'] Cons.prems by simp
    then show ?thesis
      using adjacent_groups_split [OF Cons.prems(1) False, of xs] step
      by (cases "flush_group sha grow (group_of (x # g)) w") simp_all
  qed
qed

lemma reduce_all_None:
  assumes "\<forall>y \<in> set xs. relative_path_ok (io_path y)" "length xs < 2 ^ 64"
  shows "res_bind (reduce_all sha grow xs (None, w)) (last_flush sha grow) = flush_all sha grow (adjacent_groups xs) w"
proof (cases xs)
  case Nil
  then show ?thesis by (simp add: last_flush_def)
next
  case (Cons x zs)
  have "reduce_identity_step sha grow x (None, w) = (Inr (Some (group_of [x]), w) :: ('a identity_reduction_error, _) res)" for grow :: "'a grow"
    by (simp add: reduce_identity_step_def ig_from_observation_eq)
  then show ?thesis using reduce_all_groups [of "[]" x zs sha grow w] assms Cons by simp
qed

section \<open>Groups and records\<close>

lemma adjacent_groups_concat [simp]: "concat (adjacent_groups xs) = xs"
  by (induction xs rule: adjacent_groups.induct) simp_all

lemma adjacent_groups_ne: "g \<in> set (adjacent_groups xs) \<Longrightarrow> g \<noteq> [] \<and> (\<forall>y \<in> set g. io_file_id y = io_file_id (hd g))"
proof (induction xs rule: adjacent_groups.induct)
  case (2 x xs)
  then consider "g = x # takeWhile (\<lambda>y. io_file_id y = io_file_id x) xs"
    | "g \<in> set (adjacent_groups (dropWhile (\<lambda>y. io_file_id y = io_file_id x) xs))" by fastforce
  then show ?case
  proof cases
    case 1
    have "io_file_id y = io_file_id x" if "y \<in> set g" for y
      using that unfolding 1 by (auto dest: set_takeWhileD)
    moreover have "g \<noteq> []" "hd g = x" using 1 by simp_all
    ultimately show ?thesis by metis
  qed (rule "2.IH")
qed simp

lemma length_concat_ge: "g \<in> set gs \<Longrightarrow> length g \<le> length (concat gs)"
  by (induction gs) auto

lemma adjacent_groups_length: "g \<in> set (adjacent_groups xs) \<Longrightarrow> length g \<le> length xs"
  using length_concat_ge [of g "adjacent_groups xs"] by simp

lemma adjacent_groups_subset: "g \<in> set (adjacent_groups xs) \<Longrightarrow> set g \<subseteq> set xs"
  using adjacent_groups_concat [of xs] by (metis Union_upper image_eqI set_concat)

lemma length_key_bytes_prefix: "prefix p q \<Longrightarrow> length (key_bytes p) \<le> length (key_bytes q)"
  by (auto elim!: prefixE simp: key_bytes_def)

lemma nul_free_prefix: "prefix p q \<Longrightarrow> nul_free q \<Longrightarrow> nul_free p"
  by (auto elim!: prefixE simp: nul_free_def)

lemma group_allocation_ok: "bounds_ok (group_allocation g)" "bounds_ok \<lparr>bb_lower = 0, bb_upper = bb_upper (group_allocation g)\<rparr>"
  by (simp_all add: group_allocation_def bounds_ok_def bb_unknown_def bb_exact_def split: option.split)

lemma group_contribution_ok:
  assumes "g \<noteq> []" "\<forall>y \<in> set g. identity_ok y \<and> length (key_bytes (io_path y)) < 2 ^ 32"
  shows "contribution_ok (group_contribution g)"
proof -
  have hd: "hd g \<in> set g" using assms(1) by simp
  have pre: "prefix (shared_path (map io_path g)) (io_path (hd g))"
    using shared_path_prefix [of "map io_path g" "io_path (hd g)"] assms(1) hd by simp
  have "length (key_bytes (shared_path (map io_path g))) < 2 ^ 32"
    using length_key_bytes_prefix [OF pre] assms(2) hd by fastforce
  moreover have "nul_free (shared_path (map io_path g))"
    using nul_free_prefix [OF pre] assms(2) hd by (simp add: identity_ok_def)
  moreover have "shared_path (map io_path g) \<noteq> []" if "length g = 1"
    using that assms(2) by (cases g) (simp_all add: identity_ok_def)
  ultimately show ?thesis using group_allocation_ok by (simp add: contribution_ok_def group_contribution_def)
qed

lemma flush_all_records:
  "\<forall>g \<in> set gs. length g < 2 ^ 64 \<and> contribution_ok (group_contribution g) \<Longrightarrow>
    rd_kind (rw_descriptor w) = RunAllocationContribution \<Longrightarrow>
    flush_all sha grow gs w = map_err IdentityReductionRun (append_all sha grow (map group_record gs) w)"
proof (induction gs arbitrary: w)
  case (Cons g gs)
  have "encode_allocation_contribution_into (io_file_id (hd g)) (group_contribution g) = Inr (group_record g)"
    using Cons.prems(1) encode_contribution_Inr [of "io_file_id (hd g)" "group_contribution g"] by (simp add: group_record_def)
  moreover have "ig_contribution (group_of g) = group_contribution g" using Cons.prems(1) by (simp add: ig_contribution_eq)
  ultimately have "flush_group sha grow (group_of g) w =
      map_err IdentityReductionRun (rw_append sha grow (fst (group_record g)) (snd (group_record g)) w)"
    using Cons.prems(2)
    by (cases "rw_append sha grow (fst (group_record g)) (snd (group_record g)) w")
      (simp_all add: flush_group_def append_allocation_contribution_def group_of_def case_prod_beta)
  then show ?case
    using Cons rw_append_descriptor [of sha grow "fst (group_record g)" "snd (group_record g)" w]
    by (cases "rw_append sha grow (fst (group_record g)) (snd (group_record g)) w") simp_all
qed simp

section \<open>The whole pass\<close>

definition identity_record :: "identity_observation \<Rightarrow> run_record \<Rightarrow> bool" where
  "identity_record x kv \<longleftrightarrow> encode_identity_observation_into x = Inr kv \<and> relative_path_ok (io_path x) \<and>
     length (key_bytes (io_path x)) < 2 ^ 32"

lemma identity_recordD:
  assumes "identity_record x kv"
  shows "decode_identity_observation (fst kv) (snd kv) = Inr x" "identity_ok x" "relative_path_ok (io_path x)"
    "length (key_bytes (io_path x)) < 2 ^ 32" "fst kv = file_id_bytes (io_file_id x) @ key_bytes (io_path x)"
  using assms decode_encode_identity [of x] encode_identity_Inr [of x "fst kv" "snd kv"] by (auto simp: identity_record_def)

lemma visit_all_reduce:
  "list_all2 identity_record xs rs \<Longrightarrow>
    visit_all (\<lambda>key val s. res_bind (map_err IdentityInputCodec (decode_identity_observation key val))
      (\<lambda>x. reduce_identity_step sha grow x s)) rs s = reduce_all sha grow xs s"
proof (induction xs arbitrary: rs s)
  case (Cons x xs)
  then obtain kv qs where "rs = kv # qs" "identity_record x kv" "list_all2 identity_record xs qs" by (auto simp: list_all2_Cons1)
  with Cons.IH show ?case using identity_recordD(1) [of x kv]
    by (cases "reduce_identity_step sha grow x s") simp_all
qed simp

theorem reduce_identity_run:
  fixes running :: "u64 \<Rightarrow> 'io option"
  assumes at: "reader_at sha r rs bs N B" and sha: "\<And>x. length (sha x) = 32" and run: "\<And>n. running n = None"
    and xs: "list_all2 identity_record xs (rs @ concat bs)" and count: "length xs < 2 ^ 64"
    and kinds: "rd_kind (rr_descriptor r) = RunIdentityObservation" "rd_kind (rw_descriptor w) = RunAllocationContribution"
      "rd_generation (rr_descriptor r) = rd_generation (rw_descriptor w)"
  shows "reduce_identity_observations sha running grow r w =
    map_err IdentityReductionRun (append_all sha grow (map group_record (adjacent_groups xs)) w)"
proof -
  have wf: "identity_ok x \<and> relative_path_ok (io_path x) \<and> length (key_bytes (io_path x)) < 2 ^ 32" if "x \<in> set xs" for x
    using that xs identity_recordD by (metis in_set_conv_nth list_all2_conv_all_nth)
  let ?visit = "\<lambda>key val s. res_bind (map_err IdentityInputCodec (decode_identity_observation key val))
      (\<lambda>x. reduce_identity_step sha grow x s)"
  from rr_visit_at [where running = running, OF at sha run, of IdentityReductionRun ?visit "(None, w)"]
  obtain r' where "rr_visit sha running IdentityReductionRun ?visit r (None, w) =
      res_bind (reduce_all sha grow xs (None, w)) (\<lambda>s. Inr (s, r'))"
    unfolding visit_all_reduce [OF xs] by blast
  then have "reduce_identity_observations sha running grow r w =
      res_bind (reduce_all sha grow xs (None, w)) (last_flush sha grow)"
    using kinds
    by (cases "reduce_all sha grow xs (None, w)") (simp_all add: reduce_identity_observations_def last_flush_def case_prod_beta)
  also have "\<dots> = flush_all sha grow (adjacent_groups xs) w"
    by (rule reduce_all_None) (use wf count in auto)
  also have "\<dots> = map_err IdentityReductionRun (append_all sha grow (map group_record (adjacent_groups xs)) w)"
  proof (rule flush_all_records)
    show "\<forall>g \<in> set (adjacent_groups xs). length g < 2 ^ 64 \<and> contribution_ok (group_contribution g)"
    proof
      fix g assume g: "g \<in> set (adjacent_groups xs)"
      from adjacent_groups_length [OF g] count have "length g < 2 ^ 64" by simp
      moreover have "contribution_ok (group_contribution g)"
        using adjacent_groups_ne [OF g] adjacent_groups_subset [OF g] wf by (intro group_contribution_ok) auto
      ultimately show "length g < 2 ^ 64 \<and> contribution_ok (group_contribution g)" ..
    qed
  qed (rule kinds(2))
  finally show ?thesis .
qed

section \<open>Sorted runs\<close>

text \<open>In key order the observations of one identity are adjacent, so each identity has one group.\<close>

definition id_key :: "identity_observation \<Rightarrow> bytes" where
  "id_key x = file_id_bytes (io_file_id x) @ key_bytes (io_path x)"

lemma id_key_less: "id_key x < id_key y \<Longrightarrow> file_id_bytes (io_file_id x) \<le> file_id_bytes (io_file_id y)"
proof -
  assume "id_key x < id_key y"
  then have "cmp (id_key x) (id_key y) = OrdLess" by simp
  then have "then_with (compare_file_ids_by_encoding (io_file_id x) (io_file_id y)) (cmp (key_bytes (io_path x)) (key_bytes (io_path y))) = OrdLess"
    by (simp add: id_key_def cmp_file_id_bytes del: cmp_iff)
  then have "compare_file_ids_by_encoding (io_file_id x) (io_file_id y) \<noteq> OrdGreater" by auto
  then have "cmp (file_id_bytes (io_file_id x)) (file_id_bytes (io_file_id y)) \<noteq> OrdGreater"
    using cmp_file_id_bytes [of "io_file_id x" "[]" "io_file_id y" "[]"] by (simp add: then_with_def del: cmp_iff)
  then show ?thesis by simp
qed

lemma adjacent_groups_sorted:
  assumes "sorted_wrt (<) (map id_key xs)"
  shows "distinct (map (\<lambda>g. io_file_id (hd g)) (adjacent_groups xs)) \<and>
    (\<forall>g \<in> set (adjacent_groups xs). g = filter (\<lambda>y. io_file_id y = io_file_id (hd g)) xs)"
  using assms
proof (induction xs rule: adjacent_groups.induct)
  case (2 x xs)
  let ?P = "\<lambda>y. io_file_id y = io_file_id x"
  let ?t = "takeWhile ?P xs" and ?d = "dropWhile ?P xs"
  have le: "file_id_bytes (io_file_id a) \<le> file_id_bytes (io_file_id b)" if "a \<in> set us" "b \<in> set vs" "x # xs = us @ vs" for a b us vs
    using that "2.prems" id_key_less [of a b] by (auto simp: sorted_wrt_append sorted_wrt_map)
  have none: "\<not> ?P y" if y: "y \<in> set ?d" for y
  proof
    assume eq: "?P y"
    obtain z zs where d: "?d = z # zs" using y by (cases ?d) auto
    have nz: "\<not> ?P z" using hd_dropWhile [of ?P xs] unfolding d by (simp only: list.sel list.distinct simp_thms)
    have "file_id_bytes (io_file_id x) \<le> file_id_bytes (io_file_id z)"
    proof (rule le)
      show "x \<in> set (x # ?t)" "z \<in> set (z # zs)" by simp_all
      show "x # xs = (x # ?t) @ z # zs" by (simp flip: d)
    qed
    moreover have "file_id_bytes (io_file_id z) \<le> file_id_bytes (io_file_id y)"
    proof (cases "y = z")
      case False
      have split: "x # xs = (x # ?t @ [z]) @ zs" using takeWhile_dropWhile_id [of ?P xs] unfolding d by simp
      have "y \<in> set zs" using y False unfolding d by simp
      from le [OF _ this split, of z] show ?thesis by simp
    qed simp
    ultimately have "io_file_id z = io_file_id x" using eq by (simp flip: file_id_bytes_inject)
    with nz show False by simp
  qed
  have sorted: "sorted_wrt (<) (map id_key ?d)"
  proof -
    have "sorted_wrt (<) (map id_key (?t @ ?d))" using "2.prems" by simp
    then show ?thesis unfolding map_append sorted_wrt_append by blast
  qed
  note IH = "2.IH" [OF sorted]
  have here: "filter ?P xs = ?t"
  proof -
    have "filter ?P ?t = ?t" by (rule filter_True) (blast dest: set_takeWhileD)
    moreover have "filter ?P ?d = []" unfolding filter_empty_conv using none by blast
    ultimately have "filter ?P (?t @ ?d) = ?t" unfolding filter_append by simp
    then show ?thesis by (simp only: takeWhile_dropWhile_id)
  qed
  have there: "filter (\<lambda>y. io_file_id y = io_file_id (hd g)) (x # xs) = g" if g: "g \<in> set (adjacent_groups ?d)" for g
  proof -
    have hd: "hd g \<in> set ?d" using adjacent_groups_ne [OF g] adjacent_groups_subset [OF g] by auto
    then have "\<not> ?P (hd g)" by (rule none)
    moreover have "io_file_id y = io_file_id x" if "y \<in> set (x # ?t)" for y
      using that set_takeWhileD [of y ?P xs] by (cases "y = x") simp_all
    ultimately have "filter (\<lambda>y. io_file_id y = io_file_id (hd g)) (x # ?t) = []"
      unfolding filter_empty_conv by metis
    moreover have "filter (\<lambda>y. io_file_id y = io_file_id (hd g)) ?d = g" using IH g by simp
    moreover have "x # xs = (x # ?t) @ ?d" by simp
    ultimately show ?thesis by (metis append_Nil filter_append)
  qed
  have "io_file_id x \<notin> (\<lambda>g. io_file_id (hd g)) ` set (adjacent_groups ?d)"
  proof
    assume "io_file_id x \<in> (\<lambda>g. io_file_id (hd g)) ` set (adjacent_groups ?d)"
    then obtain g where g: "g \<in> set (adjacent_groups ?d)" "io_file_id x = io_file_id (hd g)" by blast
    have "hd g \<in> set ?d" using adjacent_groups_ne [OF g(1)] adjacent_groups_subset [OF g(1)] by auto
    from none [OF this] g(2) show False by simp
  qed
  moreover have "filter (\<lambda>y. io_file_id y = io_file_id (hd (x # ?t))) (x # xs) = x # ?t" using here by simp
  ultimately show ?case using IH there by (simp only: adjacent_groups.simps list.map list.sel distinct.simps list.set set_map ball_simps) simp
qed simp

end
