(* ===== verification/Reduction_Theorems.thy ===== *)
theory Reduction_Theorems
  imports Summary_Pipeline Identity_Reduction Run_Quota
begin

text \<open>
  Properties of the two reductions: sorted path observations to directory summaries, and sorted
  identity observations to one allocation contribution per file.
\<close>

section \<open>Byte bounds\<close>

text \<open>
  Adding byte bounds is sound: what two bounds admit adds up to something the sum of the bounds
  admits, as far as the width of the counters, and bounds whose upper end is not below their lower end
  stay that way.
\<close>

lemma bounds_add_sound:
  "(\<forall>m \<in> within a. \<forall>n \<in> within b. m + n < 2 ^ 128 \<longrightarrow> m + n \<in> within (bb_add a b)) \<and>
   (bounds_ok a \<and> bounds_ok b \<longrightarrow> bounds_ok (bb_add a b))"
  using within_bb_add [of _ a _ b] bounds_ok_bb_add [of a b] by blast

section \<open>Directory summaries\<close>

text \<open>A directory with one file, for the witnesses.\<close>

definition ex_directory :: path_observation where
  "ex_directory = \<lparr>po_path = [[97]], po_kind = EntryDirectory, po_metrics = sm_leaf 4096 (bb_exact 4096) (bb_exact 4096),
     po_coverage = CoverageComplete, po_snapshot = None\<rparr>"

definition ex_file :: path_observation where
  "ex_file = \<lparr>po_path = [[97], [98]], po_kind = EntryFile, po_metrics = sm_leaf 5 (bb_exact 8) bb_unknown,
     po_coverage = CoverageComplete, po_snapshot = None\<rparr>"

lemma ex_stream: "canonical [ex_directory, ex_file]" "\<forall>x \<in> set [ex_directory, ex_file]. length (key_bytes (po_path x)) < 2 ^ 32"
  "\<forall>x \<in> set [ex_directory, ex_file]. vec_sized (po_path x)"
  by (simp_all add: canonical_def ex_directory_def ex_file_def)

lemma ex_stream_records: "\<exists>recs. list_all2 observation_record [ex_directory, ex_file] recs \<and> keys_sorted recs \<and>
    (\<forall>kv \<in> set recs. 8 + length (fst kv) + length (snd kv) \<le> 1000) \<and> record_cost recs \<le> 2000"
proof -
  let ?v = "\<lambda>x. observation_value x (summary_metrics_flags (po_metrics x))"
  have one: "observation_record x (key_bytes (po_path x), ?v x) \<and> length (?v x) \<le> 100"
    if "x = ex_directory \<or> x = ex_file" for x
    using that
    by (auto simp: observation_record_def encode_observation_Inr snapshot_flags_def ex_directory_def ex_file_def relative_path_ok_def
        valid_component_iff metrics_ok_def sm_leaf_def observation_value_def metrics_bytes_def encode_summary_metrics_into_def bb_exact_def bb_unknown_def bounds_ok_def)
  show ?thesis
    using one [of ex_directory] one [of ex_file]
    by (intro exI [of _ "[(key_bytes (po_path ex_directory), ?v ex_directory), (key_bytes (po_path ex_file), ?v ex_file)]"])
      (auto simp: keys_sorted_def ex_directory_def ex_file_def)
qed

text \<open>
  C24. The reduction of a canonical stream of observations emits one summary for the root and for each
  observed directory, nothing else, every directory before those that contain it, and each summary is
  the total of its subtree: its own observation and, one descendant each, everything strictly below it,
  with the upper bounds opened for unreadable directories.  It fails only if an emission fails.
\<close>

theorem reduce_subtree_totals:
  fixes from_err :: "path_reduction_error \<Rightarrow> 'e"
  assumes "canonical xs" and "\<forall>x \<in> set xs. vec_sized (po_path x)"
  shows "\<exists>out. set (map ds_path out) = directory_paths xs \<and> sorted_wrt (\<lambda>p q. \<not> prefix p q) (map ds_path out) \<and>
    (\<forall>y \<in> set out. (ds_metrics y, ds_coverage y) = subtree_total un xs (ds_path y)) \<and>
    (\<forall>(emit :: ('e, 's) emit) s.
      reduce_sorted_path_stream from_err (map Inr xs) emit un s = map_err ReduceError (emit_all emit out s))"
  by (rule reduce_canonical [OF assms, unfolded post_order_def summary_ok_def conj_assoc])

theorem reduce_subtree_totals_witness:
  "\<exists>out. set (map ds_path out) = {[], [[97]]} \<and>
    (\<forall>y \<in> set out. ds_path y = [] \<longrightarrow> sm_descendants (ds_metrics y) = 2 \<and> sm_apparent_bytes (ds_metrics y) = 4101) \<and>
    reduce_sorted_path_stream (\<lambda>e. e) (map Inr [ex_directory, ex_file]) (\<lambda>y ys. Inr (ys @ [y])) (Tracked []) [] = Inr out"
proof -
  let ?emit = "\<lambda>y ys. Inr (ys @ [y]) :: (path_reduction_error, directory_summary list) res"
  from reduce_subtree_totals [OF ex_stream(1,3), of "Tracked []" "\<lambda>e. e", where ?'s = "directory_summary list"]
  obtain out where out: "set (map ds_path out) = directory_paths [ex_directory, ex_file]"
    "\<forall>y \<in> set out. (ds_metrics y, ds_coverage y) = subtree_total (Tracked []) [ex_directory, ex_file] (ds_path y)"
    "\<forall>emit s. reduce_sorted_path_stream (\<lambda>e. e) (map Inr [ex_directory, ex_file]) emit (Tracked []) s =
      map_err ReduceError (emit_all emit out (s :: directory_summary list))" by (elim exE conjE)
  have "emit_all ?emit ys acc = Inr (acc @ ys)" for ys acc
    by (induction ys arbitrary: acc) simp_all
  moreover have "directory_paths [ex_directory, ex_file] = {[], [[97]]}"
  proof -
    have "{x \<in> set [ex_directory, ex_file]. po_kind x = EntryDirectory} = {ex_directory}"
      by (auto simp: ex_directory_def ex_file_def)
    then show ?thesis by (simp add: directory_paths_def ex_directory_def)
  qed
  moreover have "sm_descendants (ds_metrics y) = 2 \<and> sm_apparent_bytes (ds_metrics y) = 4101" if "y \<in> set out" "ds_path y = []" for y
  proof -
    have "ds_metrics y = fst (subtree_total (Tracked []) [ex_directory, ex_file] [])" using out(2) that by (metis fst_conv)
    then show ?thesis
      by (simp add: subtree_total_def own_def unc_at_def weight_def strictly_below_def cplus_def sm_plus_def czero_def cone_def
          ex_directory_def ex_file_def sm_leaf_def sm_default_def sat_add_def)
  qed
  ultimately show ?thesis using out(1) out(3) [rule_format, of ?emit "[]"] by (intro exI [of _ out] conjI) simp_all
qed

text \<open>
  Whatever the caller does with the summaries, a stream is only reduced successfully when it is
  canonical: no root observation, paths strictly increasing, and every parent observed as a directory.
\<close>

lemma reduce_rejects:
  assumes "\<forall>x \<in> set xs. vec_sized (po_path x)" and "\<not> canonical xs"
  shows "\<exists>e. reduce_sorted_path_stream from_err (map Inr xs) emit un s = Inl e"
  using reduce_Inr_canonical [of from_err xs emit un s] assms
  by (cases "reduce_sorted_path_stream from_err (map Inr xs) emit un s") auto

text \<open>
  C25. From disk to disk: the pass over a sealed run of encoded canonical observations, sealed, is exactly
  the writing of the run of their summaries in emission order; it succeeds whenever the space granted is
  enough for that run; and reading the run it writes gives those summaries back.
\<close>

theorem summary_pipeline:
  fixes running :: "u64 \<Rightarrow> 'io option" and grow :: "'io grow"
  assumes "\<And>x. length (sha x) = 32" and "\<And>n. running n = None"
    and "list_all2 observation_record obs recs" and "canonical obs"
    and "\<forall>x \<in> set obs. length (key_bytes (po_path x)) < 2 ^ 32" and "length obs < 2 ^ 63"
    and "write_run sha granted d capacity recs = Inr run" and "rd_kind d = RunPathObservation"
    and "rw_new grow [] 0 d' capacity' = Inr w" and "rd_kind d' = RunDirectorySummary" and "rd_generation d' = rd_generation d"
  shows "\<exists>r out. rr_open (sr_file run) = (Inr r :: ('io run_error, _) res) \<and> post_order un obs out \<and>
    res_bind (reduce_path_observation_run sha running grow r w un) (\<lambda>w. map_err (\<lambda>e. ReduceError (SummaryRun e)) (rw_seal sha grow w)) =
      map_err (\<lambda>e. ReduceError (SummaryRun e)) (write_run sha grow d' capacity' (summary_records 0 out)) \<and>
    (\<forall>limit. grants grow limit \<and> 48 + record_cost (summary_records 0 out) \<le> limit \<and> 0 < capacity' \<and> capacity' < 2 ^ 32 \<and>
      (\<forall>kv \<in> set (summary_records 0 out). 8 + length (fst kv) + length (snd kv) \<le> capacity') \<longrightarrow>
      (\<exists>sealed. write_run sha grow d' capacity' (summary_records 0 out) = Inr sealed)) \<and>
    (\<forall>sealed. write_run sha grow d' capacity' (summary_records 0 out) = Inr sealed \<longrightarrow>
      (\<exists>q q'. rr_open (sr_file sealed) = (Inr q :: ('io run_error, _) res) \<and>
        visit_directory_summaries sha running collect_summary q [] = Inr (out, q')))"
proof -
  let ?h = "\<lambda>e. ReduceError (SummaryRun e)"
  obtain r bs N B where r: "rr_open (sr_file run) = (Inr r :: ('io run_error, _) res)" "rr_descriptor r = d"
    "reader_at sha r [] bs N B" "concat bs = recs" using sealed_run_reader [where ?'io = 'io, OF assms(7)] by blast
  have w: "rw_descriptor w = d'" by (rule rw_new_descriptor [OF assms(9)])
  have obs: "list_all2 observation_record obs ([] @ concat bs)" using assms(3) r(4) by simp
  have kinds: "rd_kind (rr_descriptor r) = RunPathObservation" "rd_kind (rw_descriptor w) = RunDirectorySummary"
    "rd_generation (rr_descriptor r) = rd_generation (rw_descriptor w)" using assms(8,10,11) r(2) w by simp_all
  from reduce_run_canonical [where running = running and grow = grow and un = un, OF r(3) assms(1,2) obs assms(4-6) kinds]
  obtain out where out: "post_order un obs out"
    "\<forall>y \<in> set out. summary_fits y \<and> relative_path_ok (ds_path y) \<and> metrics_ok (ds_metrics y)"
    "reduce_path_observation_run sha running grow r w un = map_err ?h (append_all sha grow (summary_records 0 out) w)" by blast
  have len: "length out < 2 ^ 64" using post_order_length [OF out(1)] assms(6) by simp
  have pass: "res_bind (reduce_path_observation_run sha running grow r w un) (\<lambda>w. map_err ?h (rw_seal sha grow w)) =
      map_err ?h (write_run sha grow d' capacity' (summary_records 0 out))"
    unfolding out(3) by (rule append_all_seal [OF assms(9)])
  have sorted: "keys_sorted (summary_records 0 out)" using summary_records_sorted [of 0 out] len by simp
  have enough: "\<exists>sealed. write_run sha grow d' capacity' (summary_records 0 out) = Inr sealed"
    if "grants grow limit \<and> 48 + record_cost (summary_records 0 out) \<le> limit \<and> 0 < capacity' \<and> capacity' < 2 ^ 32 \<and>
      (\<forall>kv \<in> set (summary_records 0 out). 8 + length (fst kv) + length (snd kv) \<le> capacity')" for limit
    using write_run_succeeds [where sha = sha and grow = grow and limit = limit, OF assms(1) _ _ _ _ _ sorted] that by blast
  have reread: "\<exists>q q'. rr_open (sr_file sealed) = (Inr q :: ('io run_error, _) res) \<and>
      visit_directory_summaries sha running collect_summary q [] = Inr (out, q')"
    if s: "write_run sha grow d' capacity' (summary_records 0 out) = Inr sealed" for sealed
  proof -
    obtain q cs M C where q: "rr_open (sr_file sealed) = (Inr q :: ('io run_error, _) res)" "rr_descriptor q = d'"
      "reader_at sha q [] cs M C" "concat cs = summary_records 0 out" using sealed_run_reader [where ?'io = 'io, OF s] by blast
    have "rd_kind (rr_descriptor q) = RunDirectorySummary" "[] @ concat cs = summary_records 0 out" using q assms(10) by simp_all
    from visit_summaries_at [where running = running, OF q(3) assms(1,2) this out(2) len] q(1) show ?thesis by blast
  qed
  show ?thesis
    by (rule exI [of _ r], rule exI [of _ out]) (use r(1) out(1) pass enough reread in blast)
qed

text \<open>A digest of the right length and two descriptors of one generation.\<close>

definition ex_digest :: "bytes \<Rightarrow> bytes" where
  "ex_digest bs = replicate 32 (of_nat (length bs))"

definition ex_run_of :: "run_kind \<Rightarrow> run_descriptor" where
  "ex_run_of kind = \<lparr>rd_generation = 1, rd_run_id = 2, rd_kind = kind\<rparr>"

lemma ex_run_of_simps [simp]: "length (ex_digest x) = 32" "rd_kind (ex_run_of kind) = kind" "rd_generation (ex_run_of kind) = 1"
  by (simp_all add: ex_digest_def ex_run_of_def)

lemma ex_run_written:
  assumes "keys_sorted recs" "\<forall>kv \<in> set recs. 8 + length (fst kv) + length (snd kv) \<le> 1000" "record_cost recs \<le> 2000"
  shows "\<exists>run w. write_run ex_digest (\<lambda>_. None :: unit option) (ex_run_of kind) 1000 recs = Inr run \<and>
    rw_new (\<lambda>_. None :: unit option) [] 0 (ex_run_of kind) 1000 = Inr w"
proof -
  have "\<exists>run. write_run ex_digest (\<lambda>_. None :: unit option) (ex_run_of kind) 1000 recs = Inr run"
    by (rule write_run_succeeds [where limit = 3000]) (use assms in \<open>simp_all add: grants_def\<close>)
  then show ?thesis by (auto simp: write_run_def res_bind_Inr_iff)
qed

lemma ex_writer: "\<exists>w. rw_new (\<lambda>_. None :: unit option) [] 0 (ex_run_of kind) 1000 = Inr w"
  using ex_run_written [of "[]" kind] by (auto simp: keys_sorted_def)

theorem summary_pipeline_witness:
  "\<exists>recs run r w out. list_all2 observation_record [ex_directory, ex_file] recs \<and>
    write_run ex_digest (\<lambda>_. None :: unit option) (ex_run_of RunPathObservation) 1000 recs = Inr run \<and>
    rr_open (sr_file run) = (Inr r :: (unit run_error, _) res) \<and> post_order (Tracked []) [ex_directory, ex_file] out \<and>
    res_bind (reduce_path_observation_run ex_digest (\<lambda>_. None) (\<lambda>_. None :: unit option) r w (Tracked []))
      (\<lambda>w. map_err (\<lambda>e. ReduceError (SummaryRun e)) (rw_seal ex_digest (\<lambda>_. None) w)) =
    map_err (\<lambda>e. ReduceError (SummaryRun e)) (write_run ex_digest (\<lambda>_. None) (ex_run_of RunDirectorySummary) 1000 (summary_records 0 out))"
proof -
  obtain recs where recs: "list_all2 observation_record [ex_directory, ex_file] recs" "keys_sorted recs"
    "\<forall>kv \<in> set recs. 8 + length (fst kv) + length (snd kv) \<le> 1000" "record_cost recs \<le> 2000"
    using ex_stream_records by blast
  obtain run where run: "write_run ex_digest (\<lambda>_. None :: unit option) (ex_run_of RunPathObservation) 1000 recs = Inr run"
    using ex_run_written [OF recs(2-4)] by blast
  obtain w where w: "rw_new (\<lambda>_. None :: unit option) [] 0 (ex_run_of RunDirectorySummary) 1000 = Inr w" using ex_writer by blast
  have small: "length [ex_directory, ex_file] < 2 ^ 63" by simp
  from summary_pipeline [where running = "\<lambda>_. None" and un = "Tracked []" and sha = ex_digest,
      OF ex_run_of_simps(1) refl recs(1) ex_stream(1,2) small run ex_run_of_simps(2) w ex_run_of_simps(2)] recs(1) run
  show ?thesis by (simp only: ex_run_of_simps(3)) blast
qed

section \<open>Allocation per file\<close>

text \<open>
  C26. The pass over a sealed run of encoded identity observations, sealed, is exactly the writing of one
  contribution per file identity, in key order: the observations of an identity form one group, which
  counts once, at the deepest directory above all its links.
\<close>

theorem identity_reduction:
  fixes running :: "u64 \<Rightarrow> 'io option" and grow :: "'io grow"
  assumes "\<And>x. length (sha x) = 32" and "\<And>n. running n = None"
    and "list_all2 identity_record xs recs" and "length xs < 2 ^ 64"
    and "write_run sha granted d capacity recs = Inr run" and "rd_kind d = RunIdentityObservation"
    and "rw_new grow [] 0 d' capacity' = Inr w" and "rd_kind d' = RunAllocationContribution" and "rd_generation d' = rd_generation d"
  shows "\<exists>r gs. rr_open (sr_file run) = (Inr r :: ('io run_error, _) res) \<and>
    res_bind (reduce_identity_observations sha running grow r w) (\<lambda>w. map_err IdentityReductionRun (rw_seal sha grow w)) =
      map_err IdentityReductionRun (write_run sha grow d' capacity' (map group_record gs)) \<and>
    concat gs = xs \<and> distinct (map (\<lambda>g. io_file_id (hd g)) gs) \<and>
    (\<forall>g \<in> set gs. g \<noteq> [] \<and> g = filter (\<lambda>y. io_file_id y = io_file_id (hd g)) xs \<and>
      (\<forall>p. prefix p (ac_recipient (group_contribution g)) \<longleftrightarrow> (\<forall>x \<in> set g. prefix p (io_path x))))"
proof -
  obtain r bs N B where r: "rr_open (sr_file run) = (Inr r :: ('io run_error, _) res)" "rr_descriptor r = d"
    "reader_at sha r [] bs N B" "concat bs = recs" using sealed_run_reader [where ?'io = 'io, OF assms(5)] by blast
  have w: "rw_descriptor w = d'" by (rule rw_new_descriptor [OF assms(7)])
  have xs: "list_all2 identity_record xs ([] @ concat bs)" using assms(3) r(4) by simp
  have kinds: "rd_kind (rr_descriptor r) = RunIdentityObservation" "rd_kind (rw_descriptor w) = RunAllocationContribution"
    "rd_generation (rr_descriptor r) = rd_generation (rw_descriptor w)" using assms(6,8,9) r(2) w by simp_all
  have pass: "res_bind (reduce_identity_observations sha running grow r w) (\<lambda>w. map_err IdentityReductionRun (rw_seal sha grow w)) =
      map_err IdentityReductionRun (write_run sha grow d' capacity' (map group_record (adjacent_groups xs)))"
    unfolding reduce_identity_run [where running = running and grow = grow, OF r(3) assms(1,2) xs assms(4) kinds]
    by (rule append_all_seal [OF assms(7)])
  have "map id_key xs = map fst recs" using assms(3)
    by (induction rule: list_all2_induct) (simp_all add: id_key_def identity_recordD(5))
  then have "sorted_wrt (<) (map id_key xs)" using sealed_run_sorted [OF assms(5)] by (simp add: keys_sorted_def)
  note groups = adjacent_groups_sorted [OF this]
  have deepest: "prefix p (ac_recipient (group_contribution g)) \<longleftrightarrow> (\<forall>x \<in> set g. prefix p (io_path x))" if "g \<noteq> []" for g p
    using that shared_path_prefix [of "map io_path g"] shared_path_greatest [of "map io_path g" p]
    by (auto simp: group_contribution_def intro: prefix_order.trans)
  have "\<forall>g \<in> set (adjacent_groups xs). g \<noteq> [] \<and> g = filter (\<lambda>y. io_file_id y = io_file_id (hd g)) xs \<and>
      (\<forall>p. prefix p (ac_recipient (group_contribution g)) \<longleftrightarrow> (\<forall>x \<in> set g. prefix p (io_path x)))"
    using adjacent_groups_ne groups deepest by blast
  with r(1) pass groups show ?thesis
    by (intro exI [of _ r] exI [of _ "adjacent_groups xs"] conjI) (simp_all only: adjacent_groups_concat)
qed

text \<open>One file with two links in two directories.\<close>

definition ex_link :: "relative_path \<Rightarrow> identity_observation" where
  "ex_link path = \<lparr>io_path = path, io_file_id = Inode 1 2, io_declared_links = Some 2, io_allocated_bytes = bb_exact 8\<rparr>"

lemma ex_links: "\<exists>recs. list_all2 identity_record [ex_link [[97], [98]], ex_link [[97], [99]]] recs \<and> keys_sorted recs \<and>
    (\<forall>kv \<in> set recs. 8 + length (fst kv) + length (snd kv) \<le> 1000) \<and> record_cost recs \<le> 2000"
proof -
  let ?kv = "\<lambda>x. (file_id_bytes (io_file_id x) @ key_bytes (io_path x), identity_value x)"
  have one: "identity_record x (?kv x) \<and> length (identity_value x) \<le> 100" if "x \<in> {ex_link [[97], [98]], ex_link [[97], [99]]}" for x
    using that by (auto simp: identity_record_def encode_identity_Inr identity_ok_def ex_link_def relative_path_ok_def
        valid_component_iff identity_value_def bb_exact_def bounds_ok_def)
  have same: "p @ a < p @ b \<longleftrightarrow> a < b" for p a b :: bytes by (induction p) simp_all
  show ?thesis
    using one [of "ex_link [[97], [98]]"] one [of "ex_link [[97], [99]]"]
    by (intro exI [of _ "[?kv (ex_link [[97], [98]]), ?kv (ex_link [[97], [99]])]"])
      (auto simp: keys_sorted_def ex_link_def same)
qed

theorem identity_reduction_witness:
  "\<exists>recs run r w gs. write_run ex_digest (\<lambda>_. None :: unit option) (ex_run_of RunIdentityObservation) 1000 recs = Inr run \<and>
    rr_open (sr_file run) = (Inr r :: (unit run_error, _) res) \<and>
    res_bind (reduce_identity_observations ex_digest (\<lambda>_. None) (\<lambda>_. None :: unit option) r w)
      (\<lambda>w. map_err IdentityReductionRun (rw_seal ex_digest (\<lambda>_. None) w)) =
    map_err IdentityReductionRun (write_run ex_digest (\<lambda>_. None) (ex_run_of RunAllocationContribution) 1000 (map group_record gs)) \<and>
    concat gs = [ex_link [[97], [98]], ex_link [[97], [99]]]"
proof -
  obtain recs where recs: "list_all2 identity_record [ex_link [[97], [98]], ex_link [[97], [99]]] recs" "keys_sorted recs"
    "\<forall>kv \<in> set recs. 8 + length (fst kv) + length (snd kv) \<le> 1000" "record_cost recs \<le> 2000"
    using ex_links by blast
  obtain run where run: "write_run ex_digest (\<lambda>_. None :: unit option) (ex_run_of RunIdentityObservation) 1000 recs = Inr run"
    using ex_run_written [OF recs(2-4)] by blast
  obtain w where w: "rw_new (\<lambda>_. None :: unit option) [] 0 (ex_run_of RunAllocationContribution) 1000 = Inr w" using ex_writer by blast
  have small: "length [ex_link [[97], [98]], ex_link [[97], [99]]] < 2 ^ 64" by simp
  from identity_reduction [where running = "\<lambda>_. None" and sha = ex_digest,
      OF ex_run_of_simps(1) refl recs(1) small run ex_run_of_simps(2) w ex_run_of_simps(2)] run
  show ?thesis by (simp only: ex_run_of_simps(3)) blast
qed

end
