(* ===== verification/Memory_Budget.thy ===== *)
theory Memory_Budget
  imports Quota
begin

text \<open>
  The memory budget of the process (\<open>src/src/model/memory.rs\<close>): the limits derived from the
  configured size, reserving and releasing.  Sizes are 64-bit \<open>usize\<close> values kept as \<open>nat\<close> with their
  saturation written out; the detected memory of the machine is an argument.
\<close>

definition usize_sat_mul :: "nat \<Rightarrow> nat \<Rightarrow> nat" where
  "usize_sat_mul a b = min (a * b) (2 ^ 64 - 1)"

definition MIN_PROCESS_MIB :: nat where "MIN_PROCESS_MIB = 128"
definition BYTES_PER_MIB :: nat where "BYTES_PER_MIB = 1024 * 1024"

datatype model_error =
    MemoryExhausted (required_bytes: nat) (limit_bytes: nat) | IdentityError string | InvalidPathError string | InvariantError string

record memory_budget =
  mb_process_limit :: nat
  mb_model_limit :: nat
  mb_headroom :: nat
  mb_used :: nat

definition detected_memory_limit_mib :: "nat \<Rightarrow> nat" where
  "detected_memory_limit_mib total_memory =
     usize_sat_mul (min total_memory (2 ^ 64 - 1)) 3 div 4 div BYTES_PER_MIB"

definition from_mib :: "nat \<Rightarrow> nat \<Rightarrow> (model_error, memory_budget) res" where
  "from_mib total_memory process_mib =
     (let maximum = max (detected_memory_limit_mib total_memory) MIN_PROCESS_MIB in
      if \<not> (MIN_PROCESS_MIB \<le> process_mib \<and> process_mib \<le> maximum)
      then Inl (MemoryExhausted (usize_sat_mul process_mib BYTES_PER_MIB) (usize_sat_mul maximum BYTES_PER_MIB))
      else
        let process_limit = usize_sat_mul process_mib BYTES_PER_MIB;
            model_limit = usize_sat_mul process_limit 3 div 4
        in Inr \<lparr>mb_process_limit = process_limit, mb_model_limit = model_limit,
                mb_headroom = process_limit - model_limit, mb_used = 0\<rparr>)"

definition mb_reserve :: "nat \<Rightarrow> memory_budget \<Rightarrow> (model_error, memory_budget) res" where
  "mb_reserve bytes b =
     (let required = usize_sat_add (mb_used b) bytes in
      if mb_model_limit b < required then Inl (MemoryExhausted required (mb_model_limit b))
      else Inr (b\<lparr>mb_used := required\<rparr>))"

definition mb_release :: "nat \<Rightarrow> memory_budget \<Rightarrow> memory_budget" where
  "mb_release bytes b = b\<lparr>mb_used := mb_used b - bytes\<rparr>"

text \<open>
  What every reachable budget satisfies: the reserved bytes stay within the model limit, and model
  limit and headroom divide the process limit.
\<close>

definition budget_ok :: "memory_budget \<Rightarrow> bool" where
  "budget_ok b \<longleftrightarrow> mb_used b \<le> mb_model_limit b \<and> mb_model_limit b + mb_headroom b = mb_process_limit b \<and>
     4 * mb_model_limit b \<le> 3 * mb_process_limit b \<and> mb_process_limit b < 2 ^ 64"

lemma usize_sat_mul_quarters: "4 * (usize_sat_mul p 3 div 4) \<le> 3 * p"
proof -
  have "4 * (usize_sat_mul p 3 div 4) \<le> usize_sat_mul p 3" by (rule times_div_less_eq_dividend)
  also have "\<dots> \<le> 3 * p" by (simp add: usize_sat_mul_def)
  finally show ?thesis .
qed

lemma from_mib_ok:
  assumes "from_mib total_memory process_mib = Inr b"
  shows "budget_ok b"
proof -
  let ?p = "usize_sat_mul process_mib BYTES_PER_MIB"
  have b: "b = \<lparr>mb_process_limit = ?p, mb_model_limit = usize_sat_mul ?p 3 div 4,
      mb_headroom = ?p - usize_sat_mul ?p 3 div 4, mb_used = 0\<rparr>"
    using assms by (auto simp: from_mib_def Let_def split: if_splits)
  have "?p < 2 ^ 64" by (simp add: usize_sat_mul_def)
  then show ?thesis using usize_sat_mul_quarters [of ?p] b by (simp add: budget_ok_def)
qed

lemma mb_reserve_Inr:
  assumes "budget_ok b"
  shows "mb_reserve n b = Inr b' \<longleftrightarrow> mb_used b + n \<le> mb_model_limit b \<and> b' = b\<lparr>mb_used := mb_used b + n\<rparr>"
  using assms by (auto simp: mb_reserve_def Let_def usize_sat_add_def budget_ok_def min_def split: if_splits)

lemma mb_reserve_release: "budget_ok b \<Longrightarrow> mb_reserve n b = Inr b' \<Longrightarrow> mb_release n b' = b"
  by (auto simp: mb_reserve_Inr mb_release_def)

lemma mb_ops_ok: "budget_ok b \<Longrightarrow> mb_reserve n b = Inr b' \<Longrightarrow> budget_ok b'" "budget_ok b \<Longrightarrow> budget_ok (mb_release n b)"
  by (auto simp: mb_reserve_Inr mb_release_def budget_ok_def)

text \<open>The budget provides the shared contract; releasing never fails.\<close>

interpretation budget: quota mb_reserve "\<lambda>n b. Inr (mb_release n b)" "\<lambda>n. n" mb_used mb_model_limit budget_ok
proof
  show "(\<exists>b'. mb_reserve n b = Inr b') \<longleftrightarrow> mb_used b + n \<le> mb_model_limit b" if "budget_ok b" for n b
    using mb_reserve_Inr [OF that] by blast
qed (auto simp: mb_reserve_Inr mb_release_def budget_ok_def)

end
