(* ===== verification/Storage_Theorems.thy ===== *)
theory Storage_Theorems
  imports Temporary_Storage Memory_Budget
begin

text \<open>
  Properties of the storage quota under concurrent use, of the file backend charged to it, and of the
  limits and the memory budget derived from the configuration.
\<close>

section \<open>The storage quota\<close>

text \<open>
  C34. Whatever any number of threads do, one atomic access at a time and with spurious failures of the
  exchange, the counter of the storage quota is the sum of the bytes their reservations hold, never more
  than the limit, and no release ever finds the counter too small and panics.
\<close>

theorem storage_quota_safety:
  assumes "storage_step\<^sup>*\<^sup>* (storage_init limit) y"
  shows "(\<Sum>c \<leftarrow> sy_clients y. unat (cl_bytes c)) = unat (ts_used (sy_storage y)) \<and>
    ts_used (sy_storage y) \<le> limit \<and> \<not> release_panics y"
  using storage_invariant [OF assms] release_never_panics [of y] by (auto simp: storage_ok_def held_bytes_def)

theorem storage_quota_safety_witness:
  "\<exists>y. storage_step\<^sup>*\<^sup>* (storage_init 100) y \<and> length (sy_clients y) = 1 \<and> ts_used (sy_storage y) \<le> 100 \<and> \<not> release_panics y"
proof -
  let ?y = "(storage_init 100)\<lparr>sy_clients := sy_clients (storage_init 100) @ [\<lparr>cl_bytes = 0, cl_pc = PcIdle\<rparr>]\<rparr>"
  have run: "storage_step\<^sup>*\<^sup>* (storage_init 100) ?y" by (rule r_into_rtranclp) (rule storage_step.join)
  from storage_quota_safety [OF run] run show ?thesis by (intro exI [of _ ?y]) (simp add: storage_init_def)
qed

text \<open>
  Reservations are balanced: however reservations of a running storage are taken and dropped, the
  counter is what it was plus the reservations that are left, and dropping those restores it.
\<close>

lemma reservations_balanced:
  assumes "\<not> ts_stopped s" and "ts_used s \<le> ts_limit s"
    and "quota_steps (ts_reserve :: u64 \<Rightarrow> _ \<Rightarrow> (unit io_error, _) res) ts_release ops (s, []) = (s', ns)"
  shows "unat (ts_used s') = unat (ts_used s) + (\<Sum>n \<leftarrow> ns. unat n) \<and> ts_used s' \<le> ts_limit s \<and>
    (\<exists>s''. quota_steps (ts_reserve :: u64 \<Rightarrow> _ \<Rightarrow> (unit io_error, _) res) ts_release (map (\<lambda>_. Drop 0) ns) (s', ns) = (s'', []) \<and>
      ts_used s'' = ts_used s)"
proof -
  have zero: "unat (ts_used s) = unat (ts_used s) + storage.held []" by (simp add: storage.held_def)
  note steps = storage.steps_held [OF conjI [OF assms(1,2)] zero assms(3)]
  obtain s'' where "quota_steps (ts_reserve :: u64 \<Rightarrow> _ \<Rightarrow> (unit io_error, _) res) ts_release (map (\<lambda>_. Drop 0) ns) (s', ns) = (s'', [])" "unat (ts_used s'') = unat (ts_used s)"
    using storage.drop_all [OF conjunct1 [OF steps] conjunct1 [OF conjunct2 [OF steps]]] by blast
  with steps show ?thesis by (auto simp: storage.held_def word_unat_eq_iff word_le_nat_alt)
qed

section \<open>Limits\<close>

text \<open>
  The limit of a scan store never exceeds the free space of its volume nor the requested size, keeps
  the requested reserve free unless less than the minimal store would be left, and without request and
  reserve leaves a quarter of a volume of at least eight mebibytes free.
\<close>

lemma scan_store_limit:
  "unat (scan_store_limit_bytes requested reserve available) \<le> unat available \<and>
   unat (scan_store_limit_bytes (Some r) reserve available) \<le> unat r \<and>
   unat (scan_store_limit_bytes None (Some q) available) = max (unat available - unat q) (min (unat available) (2 * 1024 * 1024)) \<and>
   (8 * 1024 * 1024 \<le> unat available \<longrightarrow>
     unat (scan_store_limit_bytes None None available) = unat available - unat available div 4)"
proof (intro conjI impI)
  have four: "unat (available div SCAN_STORE_FREE_SPACE_RESERVE_DIVISOR) = unat available div 4"
    by (simp add: SCAN_STORE_FREE_SPACE_RESERVE_DIVISOR_def unat_div)
  assume "8 * 1024 * 1024 \<le> unat available"
  then show "unat (scan_store_limit_bytes None None available) = unat available - unat available div 4"
    by (auto simp: scan_store_limit_bytes_def Let_def word_less_nat_alt unat_sat_sub unat_MIN_SCAN_STORE_BYTES four)
qed (use scan_store_limit_le scan_store_limit_requested scan_store_limit_reserve in auto)

section \<open>The file backend\<close>

text \<open>
  A failed change of the length of a database file has no effect on the file, on the length that was
  recorded or on the bytes charged to the quota, and never ends in an accounting panic; a successful one
  cuts the file or extends it with zeros and charges exactly the new length.
\<close>

lemma backend_set_len_atomic:
  assumes "backend_ok b" and "backend_set_len os len b = (r, b')"
  shows "backend_ok b' \<and>
    (r = Inr () \<longrightarrow> bf_file (be_file b') = List.take (unat len) (bf_file (be_file b)) @ replicate (unat len - length (bf_file (be_file b))) 0 \<and>
      be_reserved b' = len) \<and>
    (r \<noteq> Inr () \<longrightarrow> be_file b' = be_file b \<and> be_reserved b' = be_reserved b \<and> ts_used (be_storage b') = ts_used (be_storage b) \<and>
      r \<noteq> Inl AccountingPanic)"
  using backend_set_len_ok [OF assms] assms(1) by (auto simp: backend_ok_def resize_def)

definition ex_backend :: backend where
  "ex_backend = \<lparr>be_file = \<lparr>bf_file = [1, 2, 3], bf_length = 3\<rparr>, be_reserved = 3, be_exhausted = False,
     be_storage = \<lparr>ts_limit = 10, ts_used = 5, ts_stopped = False\<rparr>\<rparr>"

text \<open>
  The bytes written at an offset are the bytes read there afterwards, and a write changes neither the
  length of the file nor what is charged to the quota.
\<close>

lemma backend_write_read:
  assumes "backend_ok b" and "backend_write os offset bs b = Inr b'"
  shows "backend_read (\<lambda>_. None) offset (length bs) b' = (Inr bs :: (unit io_error, bytes) res) \<and> backend_ok b' \<and>
    backend_len b' = backend_len b \<and> be_storage b' = be_storage b"
proof -
  have "backend_len b' = backend_len b"
    using assms(2) by (auto simp: backend_write_def backend_len_def res_bind_Inr_iff Let_def split: if_splits)
  with backend_write_ok [OF assms(2,1)] show ?thesis by blast
qed

section \<open>The memory budget\<close>

text \<open>
  C39. A memory budget is three quarters of the process limit at most, and stays a budget: however bytes
  are reserved and released, the bytes in use are those of the reservations that are left, never above
  the model limit; a reservation is refused exactly when it would exceed it.
\<close>

theorem memory_budget_type:
  assumes "from_mib total_memory process_mib = Inr b"
    and "quota_steps mb_reserve (\<lambda>n b. Inr (mb_release n b)) ops (b, []) = (b', ns)"
  shows "mb_used b' = sum_list ns \<and> mb_used b' \<le> mb_model_limit b' \<and> mb_model_limit b' = mb_model_limit b \<and>
    4 * mb_model_limit b' \<le> 3 * mb_process_limit b' \<and> mb_model_limit b' + mb_headroom b' = mb_process_limit b' \<and>
    mb_process_limit b' < 2 ^ 64 \<and> ((\<exists>e. mb_reserve n b' = Inl e) \<longleftrightarrow> mb_model_limit b' < mb_used b' + n)"
proof -
  note ok = from_mib_ok [OF assms(1)]
  have "mb_used b = 0" using assms(1) by (auto simp: from_mib_def Let_def split: if_splits)
  then have zero: "mb_used b = 0 + budget.held []" by (simp add: budget.held_def)
  note steps = budget.steps_held [OF ok zero assms(2)]
  from steps budget.refused_iff [of b' n] show ?thesis by (auto simp: budget.held_def budget_ok_def)
qed

theorem memory_budget_type_witness:
  "\<exists>b b' ns. from_mib (2 ^ 34) 512 = Inr b \<and>
    quota_steps mb_reserve (\<lambda>n b. Inr (mb_release n b)) [Take 1000, Take (2 ^ 40), Take 24, Drop 1] (b, []) = (b', ns) \<and>
    mb_used b' = sum_list ns"
proof -
  obtain b where b: "from_mib (2 ^ 34) 512 = Inr b"
    by (simp add: from_mib_def Let_def detected_memory_limit_mib_def usize_sat_mul_def BYTES_PER_MIB_def MIN_PROCESS_MIB_def)
  obtain b' ns where r: "quota_steps mb_reserve (\<lambda>n b. Inr (mb_release n b)) [Take 1000, Take (2 ^ 40), Take 24, Drop 1] (b, []) = (b', ns)"
    by fastforce
  from memory_budget_type [OF b r] b r show ?thesis by blast
qed

end
