(* ===== verification/Deletion_Progress.thy ===== *)
theory Deletion_Progress
  imports Excise_Prelude
begin

text \<open>
  The progress of an executing deletion (\<open>DeletionExecutionProgress\<close> in
  \<open>src/src/state/deletion_work.rs\<close>): the count of completed entries and the atomic state through
  which the executor claims and begins the mutation and the user interface asks it to stop.

  \<open>try_claim_mutation\<close>, \<open>try_begin_mutation\<close> and \<open>request_stop\<close> are the three loops run
  without interference; \<open>mutation_step\<close> is the program of any number of threads running them, one
  atomic access per step, with the log of what each call returned.  \<open>mutation_log_ok\<close> shows that a
  mutation that begins and a stop that is granted exclude each other.  The unconditional store
  \<open>begin_mutation\<close> is only called by tests of the user interface.
\<close>

definition MUTATION_PREPARING :: u8 where "MUTATION_PREPARING = 0"
definition MUTATION_CLAIMED :: u8 where "MUTATION_CLAIMED = 1"
definition MUTATION_STARTED :: u8 where "MUTATION_STARTED = 2"
definition MUTATION_STOP_REQUESTED :: u8 where "MUTATION_STOP_REQUESTED = 3"

lemmas mutation_constants = MUTATION_PREPARING_def MUTATION_CLAIMED_def MUTATION_STARTED_def MUTATION_STOP_REQUESTED_def

record deletion_execution_progress =
  ep_completed :: u64
  ep_mutation_state :: u8

definition progress_new :: deletion_execution_progress where
  "progress_new = \<lparr>ep_completed = 0, ep_mutation_state = MUTATION_PREPARING\<rparr>"

definition try_claim_mutation :: "deletion_execution_progress \<Rightarrow> bool \<times> deletion_execution_progress" where
  "try_claim_mutation p =
     (if ep_mutation_state p = MUTATION_PREPARING then (True, p\<lparr>ep_mutation_state := MUTATION_CLAIMED\<rparr>)
      else if ep_mutation_state p = MUTATION_CLAIMED \<or> ep_mutation_state p = MUTATION_STARTED then (True, p)
      else (False, p))"

definition try_begin_mutation :: "deletion_execution_progress \<Rightarrow> bool \<times> deletion_execution_progress" where
  "try_begin_mutation p =
     (if ep_mutation_state p = MUTATION_CLAIMED then (True, p\<lparr>ep_mutation_state := MUTATION_STARTED\<rparr>)
      else if ep_mutation_state p = MUTATION_STARTED then (True, p)
      else (False, p))"

definition request_stop :: "deletion_execution_progress \<Rightarrow> bool \<times> deletion_execution_progress" where
  "request_stop p =
     (if ep_mutation_state p = MUTATION_PREPARING \<or> ep_mutation_state p = MUTATION_CLAIMED
      then (True, p\<lparr>ep_mutation_state := MUTATION_STOP_REQUESTED\<rparr>)
      else (False, p))"

definition has_started_mutation :: "deletion_execution_progress \<Rightarrow> bool" where
  "has_started_mutation p \<longleftrightarrow> ep_mutation_state p = MUTATION_STARTED"

section \<open>Several threads\<close>

datatype mutation_op = OpClaim | OpBegin | OpStop

text \<open>
  Where a thread is: outside, about to load at the head of the loop of an operation, about to load a
  second time (only \<open>request_stop\<close> does), or about to exchange the value it expects.
\<close>

datatype mutation_pc = OutsideLoop | LoopHead mutation_op | SecondLoad | BeforeExchange mutation_op u8

record mutation_system =
  mu_state :: u8
  mu_threads :: "mutation_pc list"
  mu_log :: "(mutation_op \<times> bool) list"

text \<open>What the load at the head of a loop decides: to go on, or to return a value.\<close>

definition head_decision :: "mutation_op \<Rightarrow> u8 \<Rightarrow> mutation_pc + bool" where
  "head_decision op1 v =
     (case op1 of
        OpClaim \<Rightarrow> if v = MUTATION_PREPARING then Inl (BeforeExchange OpClaim v)
                   else Inr (v = MUTATION_CLAIMED \<or> v = MUTATION_STARTED)
      | OpBegin \<Rightarrow> if v = MUTATION_CLAIMED then Inl (BeforeExchange OpBegin v) else Inr (v = MUTATION_STARTED)
      | OpStop \<Rightarrow> if v = MUTATION_PREPARING \<or> v = MUTATION_CLAIMED then Inl SecondLoad else Inr False)"

primrec exchange_target :: "mutation_op \<Rightarrow> u8" where
  "exchange_target OpClaim = MUTATION_CLAIMED"
| "exchange_target OpBegin = MUTATION_STARTED"
| "exchange_target OpStop = MUTATION_STOP_REQUESTED"

definition thread_at :: "mutation_system \<Rightarrow> nat \<Rightarrow> mutation_pc \<Rightarrow> bool" where
  "thread_at y i pc \<longleftrightarrow> i < length (mu_threads y) \<and> mu_threads y ! i = pc"

definition move_thread :: "nat \<Rightarrow> mutation_pc \<Rightarrow> mutation_system \<Rightarrow> mutation_system" where
  "move_thread i pc y = y\<lparr>mu_threads := (mu_threads y)[i := pc]\<rparr>"

definition return_from :: "nat \<Rightarrow> mutation_op \<Rightarrow> bool \<Rightarrow> mutation_system \<Rightarrow> mutation_system" where
  "return_from i op1 r y = (move_thread i OutsideLoop y)\<lparr>mu_log := mu_log y @ [(op1, r)]\<rparr>"

inductive mutation_step :: "mutation_system \<Rightarrow> mutation_system \<Rightarrow> bool" where
  join: "mutation_step y (y\<lparr>mu_threads := mu_threads y @ [OutsideLoop]\<rparr>)"
| call: "thread_at y i OutsideLoop \<Longrightarrow> mutation_step y (move_thread i (LoopHead op1) y)"
| load_goes_on: "thread_at y i (LoopHead op1) \<Longrightarrow> head_decision op1 (mu_state y) = Inl pc \<Longrightarrow>
    mutation_step y (move_thread i pc y)"
| load_returns: "thread_at y i (LoopHead op1) \<Longrightarrow> head_decision op1 (mu_state y) = Inr r \<Longrightarrow>
    mutation_step y (return_from i op1 r y)"
| reload: "thread_at y i SecondLoad \<Longrightarrow> mu_state y = MUTATION_PREPARING \<or> mu_state y = MUTATION_CLAIMED \<Longrightarrow>
    mutation_step y (move_thread i (BeforeExchange OpStop (mu_state y)) y)"
| reload_repeats: "thread_at y i SecondLoad \<Longrightarrow> \<not> (mu_state y = MUTATION_PREPARING \<or> mu_state y = MUTATION_CLAIMED) \<Longrightarrow>
    mutation_step y (move_thread i (LoopHead OpStop) y)"
| exchange: "thread_at y i (BeforeExchange op1 v) \<Longrightarrow> mu_state y = v \<Longrightarrow>
    mutation_step y ((return_from i op1 True y)\<lparr>mu_state := exchange_target op1\<rparr>)"
| exchange_fails: "thread_at y i (BeforeExchange op1 v) \<Longrightarrow> mu_state y \<noteq> v \<Longrightarrow>
    mutation_step y (move_thread i (LoopHead op1) y)"

definition mutation_init :: mutation_system where
  "mutation_init = \<lparr>mu_state = MUTATION_PREPARING, mu_threads = [], mu_log = []\<rparr>"

text \<open>What a thread may expect to exchange.\<close>

definition expects_ok :: "mutation_pc \<Rightarrow> bool" where
  "expects_ok pc \<longleftrightarrow>
     (case pc of
        BeforeExchange OpClaim v \<Rightarrow> v = MUTATION_PREPARING
      | BeforeExchange OpBegin v \<Rightarrow> v = MUTATION_CLAIMED
      | BeforeExchange OpStop v \<Rightarrow> v = MUTATION_PREPARING \<or> v = MUTATION_CLAIMED
      | _ \<Rightarrow> True)"

text \<open>
  The log tells the state: a granted stop, once logged, is final and nothing is claimed or begun after
  it; a mutation that began is final too.
\<close>

definition log_ok :: "mutation_system \<Rightarrow> bool" where
  "log_ok y \<longleftrightarrow>
     (\<forall>pc \<in> set (mu_threads y). expects_ok pc) \<and>
     ((OpStop, True) \<in> set (mu_log y) \<longleftrightarrow> mu_state y = MUTATION_STOP_REQUESTED) \<and>
     ((OpBegin, True) \<in> set (mu_log y) \<longleftrightarrow> mu_state y = MUTATION_STARTED) \<and>
     (\<forall>before later op1. mu_log y = before @ (OpStop, True) # later \<longrightarrow> (op1, True) \<notin> set later)"

lemma expects_ok_simps [simp]:
  "expects_ok OutsideLoop" "expects_ok (LoopHead op1)" "expects_ok SecondLoad"
  "expects_ok (BeforeExchange OpClaim v) \<longleftrightarrow> v = MUTATION_PREPARING"
  "expects_ok (BeforeExchange OpBegin v) \<longleftrightarrow> v = MUTATION_CLAIMED"
  "expects_ok (BeforeExchange OpStop v) \<longleftrightarrow> v = MUTATION_PREPARING \<or> v = MUTATION_CLAIMED"
  by (simp_all add: expects_ok_def)

lemma log_ok_move: "log_ok y \<Longrightarrow> expects_ok pc \<Longrightarrow> log_ok (move_thread i pc y)"
  by (auto simp: log_ok_def move_thread_def dest!: set_update_subset_insert [THEN subsetD])

text \<open>The last entry of a log either is or comes after a granted stop.\<close>

lemma stop_in_log:
  assumes "log @ [e] = before @ (OpStop, True) # later" "\<And>before later op1. log = before @ (OpStop, True) # later \<Longrightarrow> (op1, True) \<notin> set later"
    and "(OpStop, True) \<in> set log \<Longrightarrow> \<not> snd e"
  shows "(op1, True) \<notin> set later"
proof (cases later rule: rev_cases)
  case (snoc mid x)
  with assms(1) have "log = before @ (OpStop, True) # mid" "x = e" by simp_all
  with assms(2,3) snoc show ?thesis by fastforce
qed simp

lemma log_ok_return:
  assumes "log_ok y" "\<not> r \<or> mu_state y \<noteq> MUTATION_STOP_REQUESTED"
    and "s = (if r \<and> op1 = OpStop then MUTATION_STOP_REQUESTED else if r \<and> op1 = OpBegin then MUTATION_STARTED else s)"
    and "\<not> r \<or> op1 = OpClaim \<longrightarrow> (s = MUTATION_STOP_REQUESTED \<longleftrightarrow> mu_state y = MUTATION_STOP_REQUESTED) \<and> (s = MUTATION_STARTED \<longleftrightarrow> mu_state y = MUTATION_STARTED)"
    and "r \<and> op1 = OpStop \<longrightarrow> mu_state y \<noteq> MUTATION_STARTED"
  shows "log_ok ((return_from i op1 r y)\<lparr>mu_state := s\<rparr>)"
proof -
  note ok = assms(1) [unfolded log_ok_def]
  have "(op2, True) \<notin> set later" if "mu_log y @ [(op1, r)] = before @ (OpStop, True) # later" for before later op2
    by (rule stop_in_log [OF that]) (use ok assms(2) in auto)
  moreover have "MUTATION_STARTED \<noteq> MUTATION_STOP_REQUESTED" by (simp add: mutation_constants)
  ultimately show ?thesis
    using ok assms(2-5)
    by (cases op1; cases r)
      (auto simp: log_ok_def return_from_def move_thread_def dest!: set_update_subset_insert [THEN subsetD])
qed

lemma mutation_step_log_ok:
  assumes "mutation_step y z" "log_ok y"
  shows "log_ok z"
  using assms
proof (cases rule: mutation_step.cases)
  case join
  then show ?thesis using assms(2) by (auto simp: log_ok_def)
next
  case (load_goes_on i op1 pc)
  have "expects_ok pc" using load_goes_on(3) by (cases op1) (auto simp: head_decision_def split: if_splits)
  then show ?thesis using load_goes_on(1) assms(2) by (simp add: log_ok_move)
next
  case (load_returns i op1 r)
  have "log_ok ((return_from i op1 r y)\<lparr>mu_state := mu_state y\<rparr>)"
    by (rule log_ok_return [OF assms(2)])
      (use load_returns(3) in \<open>cases op1; auto simp: head_decision_def mutation_constants split: if_splits\<close>)+
  then show ?thesis using load_returns(1) by (simp add: return_from_def move_thread_def)
next
  case (exchange i op1 v)
  have "expects_ok (BeforeExchange op1 v)"
    using exchange(2) assms(2) by (auto simp: log_ok_def thread_at_def dest!: nth_mem)
  then have "log_ok ((return_from i op1 True y)\<lparr>mu_state := exchange_target op1\<rparr>)"
    using exchange(3) by (intro log_ok_return [OF assms(2)]) (cases op1; auto simp: mutation_constants)+
  then show ?thesis using exchange(1) by simp
qed (simp_all add: log_ok_move)

lemma mutation_log_ok: "mutation_step\<^sup>*\<^sup>* mutation_init y \<Longrightarrow> log_ok y"
proof (induction rule: rtranclp_induct)
  case base
  then show ?case by (simp add: log_ok_def mutation_init_def mutation_constants)
qed (rule mutation_step_log_ok)

section \<open>The loops run alone\<close>

primrec mutation_call :: "mutation_op \<Rightarrow> deletion_execution_progress \<Rightarrow> bool \<times> deletion_execution_progress" where
  "mutation_call OpClaim = try_claim_mutation"
| "mutation_call OpBegin = try_begin_mutation"
| "mutation_call OpStop = request_stop"

lemma thread_at_move [simp]: "thread_at y i pc \<Longrightarrow> thread_at (move_thread i pc' y) i pc'"
  by (simp add: thread_at_def move_thread_def)

lemma move_thread_simps [simp]:
  "mu_state (move_thread i pc y) = mu_state y" "mu_log (move_thread i pc y) = mu_log y"
  "mu_state (return_from i op1 r y) = mu_state y" "mu_log (return_from i op1 r y) = mu_log y @ [(op1, r)]"
  by (simp_all add: move_thread_def return_from_def)

lemma from_loop_head:
  assumes "thread_at y i (LoopHead op1)" "ep_mutation_state p = mu_state y"
  shows "\<exists>z. mutation_step\<^sup>*\<^sup>* y z \<and> mu_log z = mu_log y @ [(op1, fst (mutation_call op1 p))] \<and>
    mu_state z = ep_mutation_state (snd (mutation_call op1 p))"
proof (cases "head_decision op1 (mu_state y)")
  case (Inr r)
  have "r = fst (mutation_call op1 p) \<and> mu_state y = ep_mutation_state (snd (mutation_call op1 p))"
    using Inr assms(2)
    by (cases op1) (auto simp: head_decision_def try_claim_mutation_def try_begin_mutation_def request_stop_def split: if_splits)
  then show ?thesis
    using mutation_step.load_returns [OF assms(1) Inr] by (intro exI [of _ "return_from i op1 r y"]) auto
next
  case (Inl pc)
  let ?u = "move_thread i (BeforeExchange op1 (mu_state y)) y"
  have "mutation_step\<^sup>*\<^sup>* y ?u"
  proof (cases "pc = SecondLoad")
    case True
    then have op: "op1 = OpStop" "mu_state y = MUTATION_PREPARING \<or> mu_state y = MUTATION_CLAIMED"
      using Inl by (cases op1; auto simp: head_decision_def split: if_splits)+
    have at: "thread_at (move_thread i SecondLoad y) i SecondLoad" using assms(1) by simp
    have "mutation_step y (move_thread i SecondLoad y)" using mutation_step.load_goes_on [OF assms(1) Inl] True by simp
    moreover have "mutation_step (move_thread i SecondLoad y) ?u"
      using mutation_step.reload [OF at] op by (simp add: move_thread_def)
    ultimately show ?thesis by (meson rtranclp.rtrancl_into_rtrancl rtranclp.rtrancl_refl)
  next
    case False
    then have "pc = BeforeExchange op1 (mu_state y)"
      using Inl by (cases op1) (auto simp: head_decision_def split: if_splits)
    then show ?thesis using mutation_step.load_goes_on [OF assms(1) Inl] by simp
  qed
  moreover have at: "thread_at ?u i (BeforeExchange op1 (mu_state y))" using assms(1) by simp
  have "mutation_step ?u ((return_from i op1 True ?u)\<lparr>mu_state := exchange_target op1\<rparr>)"
    by (rule mutation_step.exchange [OF at]) simp
  moreover have "fst (mutation_call op1 p) \<and> ep_mutation_state (snd (mutation_call op1 p)) = exchange_target op1"
    using Inl assms(2)
    by (cases op1) (auto simp: head_decision_def try_claim_mutation_def try_begin_mutation_def request_stop_def split: if_splits)
  ultimately show ?thesis
    by (intro exI [of _ "(return_from i op1 True ?u)\<lparr>mu_state := exchange_target op1\<rparr>"]) auto
qed

end
