(* ===== verification/Deletion_Work.thy ===== *)
theory Deletion_Work
  imports Lease_Service Deletion_Progress Model_Types
begin

text \<open>
  The deletion lane of the owner loop (\<open>src/src/state/deletion_work.rs\<close>,
  \<open>src/src/state/file_to_delete.rs\<close>): a short rail of items from the user's confirmation through
  planning to execution, each worker command backed by a lease of the session coordinator.

  Paths of the file system are their lists of components: pushing a component that a relative path may
  contain appends it, and \<open>starts_with\<close> compares components.  A deletion plan
  (\<open>src/src/deletion.rs\<close>) is seen through the two things the lane reads, its target and its number
  of entries.  Progress objects are shared with the executor; an item refers to one by its position in
  \<open>dw_progress\<close>, where the executor changes it.  Times are in nanoseconds.  Labels and other texts
  for the display are left out, as is the assertion of debug builds in \<open>remember_lease\<close>.  The
  \<open>expect\<close> on a target's components is the error \<open>TargetPanic\<close>.
\<close>

section \<open>Targets and plans\<close>

datatype file_type = TypeFile | TypeFolder | TypeSynthetic

datatype planned_kind = PlannedDirectory | PlannedFile | PlannedLink

record planned_snapshot =
  ps_identity :: native_identity
  ps_kind :: planned_kind
  ps_apparent_bytes :: u128
  ps_allocated_bytes :: "u128 option"
  ps_modified_nanos :: "u128 option"

record reviewed_entry =
  re_relative_path :: "os_string list"
  re_snapshot :: planned_snapshot

record file_to_delete =
  fd_node_id :: u32
  fd_synthetic :: bool
  fd_path_in_filesystem :: "os_string list"
  fd_path_to_file :: "os_string list"
  fd_file_type :: file_type
  fd_num_descendants :: "u64 option"
  fd_size :: u128
  fd_expected_snapshot :: entry_snapshot
  fd_reviewed_entries :: "reviewed_entry list"

definition full_path :: "file_to_delete \<Rightarrow> os_string list" where
  "full_path t = foldl (\<lambda>p c. p @ [c]) (fd_path_in_filesystem t) (fd_path_to_file t)"

definition display_copy :: "file_to_delete \<Rightarrow> file_to_delete" where
  "display_copy t = t\<lparr>fd_reviewed_entries := []\<rparr>"

record deletion_plan =
  dp_target :: file_to_delete
  dp_planned_entries :: u64

section \<open>The rail\<close>

definition MAX_DELETION_WORK_ITEMS :: nat where "MAX_DELETION_WORK_ITEMS = 4"
definition DELETION_CHECKER_COVER_DURATION :: nat where "DELETION_CHECKER_COVER_DURATION = 600 * 10 ^ 6"

type_synonym deletion_work_id = u64

record deletion_work_summary =
  su_pending_operations :: nat
  su_mutating :: bool
  su_planned_entries :: "u64 option"
  su_completed_entries :: "u64 option"

definition summary_new :: deletion_work_summary where
  "summary_new = \<lparr>su_pending_operations = 0, su_mutating = False, su_planned_entries = None, su_completed_entries = None\<rparr>"

definition summary_has_work :: "deletion_work_summary \<Rightarrow> bool" where
  "summary_has_work s \<longleftrightarrow> su_pending_operations s > 0 \<or> su_mutating s"

datatype deletion_work_error = QueueFull | OverlappingTarget | TargetPanic

datatype deletion_work_command =
    PlanCommand (cmd_work_id: deletion_work_id) (cmd_plan_target: file_to_delete) (cmd_guardrails: bool) (cmd_maximum: nat)
  | ExecuteCommand (cmd_work_id: deletion_work_id) (cmd_plan: deletion_plan) (cmd_progress: nat)

datatype deletion_work_stage =
    AwaitingConfirmation file_to_delete bool nat
  | Confirming bool nat
  | QueuedPlanning file_to_delete bool nat
  | Planning
  | QueuedExecution
  | Executing u64 nat
  | CancellingPlanning

datatype rail_status = RailPlanning | RailAwaitingConfirmation | RailQueued | RailExecuting

record deletion_work_item =
  di_id :: deletion_work_id
  di_path :: "os_string list"
  di_relative_path :: relative_path
  di_target :: "file_to_delete option"
  di_plan :: "deletion_plan option"
  di_stage :: deletion_work_stage
  di_confirmed_at :: "nat option"
  di_history_bytes :: nat

record deletion_work =
  dw_items :: "deletion_work_item list"
  dw_coordinator :: session_coordinator
  dw_leases :: "(deletion_work_id \<times> work_lease) list"
  dw_next_id :: u64
  dw_progress :: "deletion_execution_progress list"

definition dw_new :: "session_coordinator \<Rightarrow> deletion_work" where
  "dw_new coordinator = \<lparr>dw_items = [], dw_coordinator = coordinator, dw_leases = [], dw_next_id = 0, dw_progress = []\<rparr>"

text \<open>\<open>matches!\<close> on the stage.\<close>

definition is_awaiting :: "deletion_work_stage \<Rightarrow> bool" where
  "is_awaiting st = (case st of AwaitingConfirmation _ _ _ \<Rightarrow> True | _ \<Rightarrow> False)"

definition is_confirming :: "deletion_work_stage \<Rightarrow> bool" where
  "is_confirming st = (case st of Confirming _ _ \<Rightarrow> True | _ \<Rightarrow> False)"

definition is_queued_planning :: "deletion_work_stage \<Rightarrow> bool" where
  "is_queued_planning st = (case st of QueuedPlanning _ _ _ \<Rightarrow> True | _ \<Rightarrow> False)"

definition is_executing :: "deletion_work_stage \<Rightarrow> bool" where
  "is_executing st = (case st of Executing _ _ \<Rightarrow> True | _ \<Rightarrow> False)"

definition is_planning :: "deletion_work_stage \<Rightarrow> bool" where
  "is_planning st \<longleftrightarrow> st = Planning \<or> st = CancellingPlanning"

fun position :: "('a \<Rightarrow> bool) \<Rightarrow> 'a list \<Rightarrow> nat option" where
  "position P [] = None"
| "position P (x # xs) = (if P x then Some 0 else map_option Suc (position P xs))"

definition remove_at :: "nat \<Rightarrow> 'a list \<Rightarrow> 'a list" where
  "remove_at i xs = take i xs @ drop (Suc i) xs"

definition swap_remove :: "nat \<Rightarrow> 'a list \<Rightarrow> 'a list" where
  "swap_remove i xs = butlast (xs[i := last xs])"

definition work_position :: "deletion_work_id \<Rightarrow> deletion_work \<Rightarrow> nat option" where
  "work_position work_id d = position (\<lambda>item. di_id item = work_id) (dw_items d)"

definition update_item :: "nat \<Rightarrow> (deletion_work_item \<Rightarrow> deletion_work_item) \<Rightarrow> deletion_work \<Rightarrow> deletion_work" where
  "update_item i f d = d\<lparr>dw_items := (dw_items d)[i := f (dw_items d ! i)]\<rparr>"

definition remove_item :: "nat \<Rightarrow> deletion_work \<Rightarrow> deletion_work" where
  "remove_item i d = d\<lparr>dw_items := remove_at i (dw_items d)\<rparr>"

section \<open>Identifiers and leases\<close>

definition next_work_id :: "deletion_work \<Rightarrow> deletion_work_id \<times> deletion_work" where
  "next_work_id d =
     (let n = dw_next_id d + 1; n = (if n = 0 then 1 else n) in (n, d\<lparr>dw_next_id := n\<rparr>))"

definition acquire_lease :: "work_kind \<Rightarrow> relative_path \<Rightarrow> work_priority \<Rightarrow> deletion_work \<Rightarrow> work_lease option \<times> deletion_work" where
  "acquire_lease kind path priority d =
     (case session_acquire kind path priority (dw_coordinator d) of
        (r, s) \<Rightarrow> ((case r of Inr l \<Rightarrow> l | Inl _ \<Rightarrow> None), d\<lparr>dw_coordinator := s\<rparr>))"

definition remember_lease :: "deletion_work_id \<Rightarrow> work_lease \<Rightarrow> deletion_work \<Rightarrow> deletion_work" where
  "remember_lease work_id l d =
     (case position (\<lambda>e. fst e = work_id) (dw_leases d) of
        Some i \<Rightarrow> d\<lparr>dw_leases := (dw_leases d)[i := (fst (dw_leases d ! i), l)]\<rparr>
      | None \<Rightarrow> d\<lparr>dw_leases := dw_leases d @ [(work_id, l)]\<rparr>)"

definition has_lease :: "deletion_work_id \<Rightarrow> deletion_work \<Rightarrow> bool" where
  "has_lease work_id d \<longleftrightarrow> (\<exists>e \<in> set (dw_leases d). fst e = work_id)"

definition take_lease :: "deletion_work_id \<Rightarrow> deletion_work \<Rightarrow> work_lease option \<times> deletion_work" where
  "take_lease work_id d =
     (case position (\<lambda>e. fst e = work_id) (dw_leases d) of
        None \<Rightarrow> (None, d)
      | Some i \<Rightarrow> (Some (snd (dw_leases d ! i)), d\<lparr>dw_leases := swap_remove i (dw_leases d)\<rparr>))"

definition finish_lease :: "deletion_work_id \<Rightarrow> work_completion \<Rightarrow> deletion_work \<Rightarrow> bool \<times> deletion_work" where
  "finish_lease work_id completion d =
     (case take_lease work_id d of
        (None, d) \<Rightarrow> (False, d)
      | (Some l, d) \<Rightarrow>
          (case session_finish l completion (dw_coordinator d) of (r, s) \<Rightarrow> (r = Inr Accepted, d\<lparr>dw_coordinator := s\<rparr>)))"

definition requeue_lease :: "deletion_work_id \<Rightarrow> deletion_work \<Rightarrow> bool \<times> deletion_work" where
  "requeue_lease work_id d =
     (case take_lease work_id d of
        (None, d) \<Rightarrow> (False, d)
      | (Some l, d) \<Rightarrow>
          (case session_requeue l (dw_coordinator d) of (r, s) \<Rightarrow> (r = Inr Requeued, d\<lparr>dw_coordinator := s\<rparr>)))"

section \<open>Entering the rail\<close>

definition targets_overlap :: "os_string list \<Rightarrow> os_string list \<Rightarrow> bool" where
  "targets_overlap left right \<longleftrightarrow> starts_with left right \<or> starts_with right left"

definition enqueue :: "os_string list \<Rightarrow> file_to_delete option \<Rightarrow> deletion_work_stage \<Rightarrow> nat option \<Rightarrow> nat \<Rightarrow> deletion_work \<Rightarrow>
    (deletion_work_error, deletion_work_id) res \<times> deletion_work" where
  "enqueue path target stage1 confirmed_at history_bytes d =
     (if MAX_DELETION_WORK_ITEMS \<le> length (dw_items d) then (Inl QueueFull, d)
      else if \<exists>item \<in> set (dw_items d). targets_overlap (di_path item) path then (Inl OverlappingTarget, d)
      else
        (case (case target of None \<Rightarrow> Inr rp_root | Some t \<Rightarrow> from_components (fd_path_to_file t)) of
           Inl _ \<Rightarrow> (Inl TargetPanic, d)
         | Inr relative_path \<Rightarrow>
             (case next_work_id d of
                (work_id, d) \<Rightarrow>
                  (Inr work_id,
                   d\<lparr>dw_items := dw_items d @
                      [\<lparr>di_id = work_id, di_path = path, di_relative_path = relative_path, di_target = target, di_plan = None,
                        di_stage = stage1, di_confirmed_at = confirmed_at, di_history_bytes = history_bytes\<rparr>]\<rparr>))))"

definition enqueue_confirmation :: "file_to_delete \<Rightarrow> bool \<Rightarrow> nat \<Rightarrow> nat \<Rightarrow> deletion_work \<Rightarrow>
    (deletion_work_error, deletion_work_id) res \<times> deletion_work" where
  "enqueue_confirmation target reduced_guardrails maximum_bytes now d =
     (let path = full_path target; display_target = display_copy target;
          stage1 = (if reduced_guardrails then QueuedPlanning target reduced_guardrails maximum_bytes
                    else AwaitingConfirmation target reduced_guardrails maximum_bytes)
      in enqueue path (Some display_target) stage1 (if reduced_guardrails then Some now else None) maximum_bytes d)"

definition history_bytes_in_flight :: "deletion_work \<Rightarrow> nat" where
  "history_bytes_in_flight d = foldl (\<lambda>sum item. usize_sat_add sum (di_history_bytes item)) 0 (dw_items d)"

section \<open>Commands for the workers\<close>

definition next_planning_command :: "deletion_work \<Rightarrow> deletion_work_command option \<times> deletion_work" where
  "next_planning_command d =
     (if \<exists>item \<in> set (dw_items d). is_planning (di_stage item) then (None, d)
      else
        (case position (\<lambda>item. is_queued_planning (di_stage item)) (dw_items d) of
           None \<Rightarrow> (None, d)
         | Some i \<Rightarrow>
             (let item = dw_items d ! i in
              case acquire_lease PlanDeletion (di_relative_path item) Foreground d of
                (None, d) \<Rightarrow> (None, d)
              | (Some l, d) \<Rightarrow>
                  (case di_stage item of
                     QueuedPlanning target reduced_guardrails maximum_bytes \<Rightarrow>
                       (Some (PlanCommand (di_id item) target reduced_guardrails maximum_bytes),
                        remember_lease (di_id item) l
                          (update_item i (\<lambda>item. item\<lparr>di_stage := Planning, di_target := Some (display_copy target)\<rparr>) d))
                   | _ \<Rightarrow> (None, d)))))"

definition next_execution_command :: "deletion_work \<Rightarrow> deletion_work_command option \<times> deletion_work" where
  "next_execution_command d =
     (if \<exists>item \<in> set (dw_items d). is_executing (di_stage item) then (None, d)
      else
        (case position (\<lambda>item. di_stage item = QueuedExecution) (dw_items d) of
           None \<Rightarrow> (None, d)
         | Some i \<Rightarrow>
             (let item = dw_items d ! i; work_id = di_id item in
              case acquire_lease ExecuteDeletion (di_relative_path item) Safety d of
                (None, d) \<Rightarrow> (None, d)
              | (Some l, d) \<Rightarrow>
                  (let d = remember_lease work_id l d in
                   case di_plan item of
                     None \<Rightarrow> (None, snd (finish_lease work_id Failed d))
                   | Some plan \<Rightarrow>
                       (let d = update_item i (\<lambda>item. item\<lparr>di_plan := None\<rparr>) d in
                        if di_path item \<noteq> full_path (dp_target plan)
                        then (None, remove_item i (snd (finish_lease work_id Invalidated d)))
                        else
                          let progress = length (dw_progress d);
                              d = d\<lparr>dw_progress := dw_progress d @ [progress_new]\<rparr>
                          in (Some (ExecuteCommand work_id plan progress),
                              update_item i (\<lambda>item. item\<lparr>di_stage := Executing (dp_planned_entries plan) progress\<rparr>) d))))))"

fun restoreable :: "deletion_work_command \<Rightarrow> deletion_work_stage \<Rightarrow> bool" where
  "restoreable (PlanCommand _ _ _ _) Planning = True"
| "restoreable (ExecuteCommand _ _ _) (Executing _ _) = True"
| "restoreable _ _ = False"

primrec restored :: "deletion_work_command \<Rightarrow> deletion_work_item \<Rightarrow> deletion_work_item" where
  "restored (PlanCommand _ target reduced_guardrails maximum_bytes) item =
     item\<lparr>di_stage := QueuedPlanning target reduced_guardrails maximum_bytes\<rparr>"
| "restored (ExecuteCommand _ plan _) item = item\<lparr>di_plan := Some plan, di_stage := QueuedExecution\<rparr>"

definition restore_unsubmitted :: "deletion_work_command \<Rightarrow> deletion_work \<Rightarrow> deletion_work" where
  "restore_unsubmitted command d =
     (case work_position (cmd_work_id command) d of
        None \<Rightarrow> snd (finish_lease (cmd_work_id command) Cancelled d)
      | Some i \<Rightarrow>
          if \<not> restoreable command (di_stage (dw_items d ! i))
          then snd (finish_lease (cmd_work_id command) Cancelled d)
          else
            (case requeue_lease (cmd_work_id command) d of
               (False, d) \<Rightarrow> d
             | (True, d) \<Rightarrow> update_item i (restored command) d))"

section \<open>Results of the planner\<close>

definition planning_succeeded :: "deletion_work_id \<Rightarrow> deletion_plan \<Rightarrow> deletion_work \<Rightarrow> bool \<times> deletion_work" where
  "planning_succeeded work_id plan d =
     (case work_position work_id d of
        None \<Rightarrow> (False, d)
      | Some i \<Rightarrow>
          (let item = dw_items d ! i in
           if di_stage item = CancellingPlanning
           then (False, remove_item i (snd (finish_lease work_id Cancelled d)))
           else if di_stage item \<noteq> Planning \<or> di_path item \<noteq> full_path (dp_target plan)
           then (False, remove_item i (snd (finish_lease work_id Failed d)))
           else
             (case finish_lease work_id Succeeded d of
                (False, d) \<Rightarrow> (False, remove_item i d)
              | (True, d) \<Rightarrow> (True, update_item i (\<lambda>item. item\<lparr>di_plan := Some plan, di_stage := QueuedExecution\<rparr>) d))))"

text \<open>
  \<open>finish_planning\<close> and \<open>finish_execution\<close> differ in the stages they accept; an item whose
  lease the coordinator does not accept stays on the rail.
\<close>

definition finish_stage :: "(deletion_work_stage \<Rightarrow> bool) \<Rightarrow> deletion_work_id \<Rightarrow> work_completion \<Rightarrow> deletion_work \<Rightarrow>
    bool \<times> deletion_work" where
  "finish_stage accepts work_id completion d =
     (case work_position work_id d of
        None \<Rightarrow> (False, d)
      | Some i \<Rightarrow>
          if \<not> accepts (di_stage (dw_items d ! i)) then (False, d)
          else
            (case finish_lease work_id completion d of
               (accepted, d) \<Rightarrow> (accepted, if accepted then remove_item i d else d)))"

definition finish_planning :: "deletion_work_id \<Rightarrow> work_completion \<Rightarrow> deletion_work \<Rightarrow> bool \<times> deletion_work" where
  "finish_planning = finish_stage is_planning"

definition planning_cancelled :: "deletion_work_id \<Rightarrow> deletion_work \<Rightarrow> bool \<times> deletion_work" where
  "planning_cancelled work_id = finish_planning work_id Cancelled"

definition planning_failed :: "deletion_work_id \<Rightarrow> deletion_work \<Rightarrow> bool \<times> deletion_work" where
  "planning_failed work_id = finish_planning work_id Failed"

definition planning_stale :: "deletion_work_id \<Rightarrow> deletion_work \<Rightarrow> bool \<times> deletion_work" where
  "planning_stale work_id = finish_planning work_id Invalidated"

section \<open>Confirmations\<close>

definition take_next_confirmation :: "deletion_work \<Rightarrow> (deletion_work_id \<times> file_to_delete) option \<times> deletion_work" where
  "take_next_confirmation d =
     (case position (\<lambda>item. is_awaiting (di_stage item)) (dw_items d) of
        None \<Rightarrow> (None, d)
      | Some i \<Rightarrow>
          (case di_stage (dw_items d ! i) of
             AwaitingConfirmation target reduced_guardrails maximum_bytes \<Rightarrow>
               (Some (di_id (dw_items d ! i), target),
                update_item i (\<lambda>item. item\<lparr>di_stage := Confirming reduced_guardrails maximum_bytes\<rparr>) d)
           | _ \<Rightarrow> (None, d)))"

definition return_confirmation :: "deletion_work_id \<Rightarrow> file_to_delete \<Rightarrow> deletion_work \<Rightarrow> bool \<times> deletion_work" where
  "return_confirmation work_id target d =
     (case work_position work_id d of
        None \<Rightarrow> (False, d)
      | Some i \<Rightarrow>
          (case di_stage (dw_items d ! i) of
             Confirming reduced_guardrails maximum_bytes \<Rightarrow>
               if di_path (dw_items d ! i) \<noteq> full_path target then (False, d)
               else (True, update_item i (\<lambda>item. item\<lparr>di_confirmed_at := None,
                       di_stage := AwaitingConfirmation target reduced_guardrails maximum_bytes\<rparr>) d)
           | _ \<Rightarrow> (False, d)))"

definition queue_confirmation :: "deletion_work_id \<Rightarrow> file_to_delete \<Rightarrow> nat \<Rightarrow> deletion_work \<Rightarrow> bool \<times> deletion_work" where
  "queue_confirmation work_id target now d =
     (case work_position work_id d of
        None \<Rightarrow> (False, d)
      | Some i \<Rightarrow>
          (case di_stage (dw_items d ! i) of
             Confirming reduced_guardrails maximum_bytes \<Rightarrow>
               if di_path (dw_items d ! i) \<noteq> full_path target then (False, d)
               else (True, update_item i (\<lambda>item. item\<lparr>di_confirmed_at := Some now,
                       di_stage := QueuedPlanning target reduced_guardrails maximum_bytes\<rparr>) d)
           | _ \<Rightarrow> (False, d)))"

section \<open>Cancelling\<close>

definition cancel_modal :: "deletion_work_id \<Rightarrow> deletion_work \<Rightarrow> bool \<times> deletion_work" where
  "cancel_modal work_id d =
     (case work_position work_id d of
        None \<Rightarrow> (False, d)
      | Some i \<Rightarrow>
          (let stage1 = di_stage (dw_items d ! i) in
           if stage1 = Planning
           then (has_lease work_id d, update_item i (\<lambda>item. item\<lparr>di_stage := CancellingPlanning\<rparr>) d)
           else if is_queued_planning stage1 \<or> is_awaiting stage1 \<or> is_confirming stage1 \<or> stage1 = QueuedExecution
           then (False, remove_item i d)
           else (False, d)))"

text \<open>The loop over the identifiers in planning sets the stage of the first item with each.\<close>

definition start_cancelling :: "deletion_work_id \<Rightarrow> deletion_work \<Rightarrow> deletion_work" where
  "start_cancelling work_id d =
     (case work_position work_id d of
        None \<Rightarrow> d
      | Some i \<Rightarrow> update_item i (\<lambda>item. item\<lparr>di_stage := CancellingPlanning\<rparr>) d)"

definition cancel_pending :: "deletion_work \<Rightarrow> bool \<times> deletion_work" where
  "cancel_pending d =
     (let planning = map di_id (filter (\<lambda>item. di_stage item = Planning) (dw_items d));
          d = fold start_cancelling planning d;
          planner_cancelled = list_ex (\<lambda>work_id. has_lease work_id d) planning
      in (planner_cancelled,
          d\<lparr>dw_items := filter (\<lambda>item. is_executing (di_stage item) \<or> di_stage item = CancellingPlanning) (dw_items d)\<rparr>))"

section \<open>Results of the executor\<close>

definition finish_execution :: "deletion_work_id \<Rightarrow> work_completion \<Rightarrow> deletion_work \<Rightarrow> bool \<times> deletion_work" where
  "finish_execution = finish_stage is_executing"

definition execution_failed :: "deletion_work_id \<Rightarrow> deletion_work \<Rightarrow> bool \<times> deletion_work" where
  "execution_failed work_id = finish_execution work_id Failed"

definition execution_stale :: "deletion_work_id \<Rightarrow> deletion_work \<Rightarrow> bool \<times> deletion_work" where
  "execution_stale work_id = finish_execution work_id Invalidated"

definition execution_finished :: "deletion_work_id \<Rightarrow> work_completion \<Rightarrow> deletion_work \<Rightarrow> bool \<times> deletion_work" where
  "execution_finished = finish_execution"

definition remove_if :: "deletion_work_id \<Rightarrow> (deletion_work_stage \<Rightarrow> bool) \<Rightarrow> deletion_work \<Rightarrow> bool \<times> deletion_work" where
  "remove_if work_id predicate d =
     (case work_position work_id d of
        None \<Rightarrow> (False, d)
      | Some i \<Rightarrow> if \<not> predicate (di_stage (dw_items d ! i)) then (False, d) else (True, remove_item i d))"

definition discard :: "deletion_work_id \<Rightarrow> deletion_work \<Rightarrow> bool \<times> deletion_work" where
  "discard work_id d = remove_if work_id (\<lambda>_. True) (snd (finish_lease work_id Cancelled d))"

definition discard_cancelled_event :: "deletion_work_id \<Rightarrow> deletion_work \<Rightarrow> deletion_work" where
  "discard_cancelled_event work_id d =
     (if \<exists>item \<in> set (dw_items d). di_id item = work_id then d else snd (finish_lease work_id Cancelled d))"

section \<open>What the display reads\<close>

definition summary_add :: "deletion_execution_progress list \<Rightarrow> deletion_work_item \<Rightarrow> deletion_work_summary \<Rightarrow>
    deletion_work_summary" where
  "summary_add progresses item s =
     (case di_stage item of
        Executing planned_entries progress \<Rightarrow>
          s\<lparr>su_mutating := True, su_planned_entries := Some planned_entries,
            su_completed_entries := Some (ep_completed (progresses ! progress))\<rparr>
      | _ \<Rightarrow> s\<lparr>su_pending_operations := usize_sat_add (su_pending_operations s) 1\<rparr>)"

definition summary :: "deletion_work \<Rightarrow> deletion_work_summary" where
  "summary d = fold (summary_add (dw_progress d)) (dw_items d) summary_new"

definition has_work :: "deletion_work \<Rightarrow> bool" where
  "has_work d = summary_has_work (summary d)"

definition pending_count :: "deletion_work \<Rightarrow> nat" where
  "pending_count d = su_pending_operations (summary d)"

definition has_background_activity :: "deletion_work \<Rightarrow> bool" where
  "has_background_activity d \<longleftrightarrow>
     (\<exists>item \<in> set (dw_items d).
        is_queued_planning (di_stage item) \<or> di_stage item = Planning \<or> di_stage item = QueuedExecution \<or>
        is_executing (di_stage item) \<or> di_stage item = CancellingPlanning)"

definition has_active_mutation :: "deletion_work \<Rightarrow> bool" where
  "has_active_mutation d \<longleftrightarrow>
     (case fst (session_snapshot (dw_coordinator d)) of Inr s \<Rightarrow> ss_active_deletion_execution s | Inl _ \<Rightarrow> False) \<and>
     (\<exists>item \<in> set (dw_items d). is_executing (di_stage item))"

primrec find_map :: "('a \<Rightarrow> 'b option) \<Rightarrow> 'a list \<Rightarrow> 'b option" where
  "find_map f [] = None"
| "find_map f (x # xs) = (case f x of None \<Rightarrow> find_map f xs | Some y \<Rightarrow> Some y)"

definition active_progress :: "deletion_work \<Rightarrow> (u64 \<times> nat) option" where
  "active_progress d =
     find_map (\<lambda>item. case di_stage item of Executing planned_entries progress \<Rightarrow> Some (planned_entries, progress) | _ \<Rightarrow> None)
       (dw_items d)"

definition execution_mutation_started :: "deletion_work \<Rightarrow> bool option" where
  "execution_mutation_started d =
     find_map (\<lambda>item. case di_stage item of Executing _ progress \<Rightarrow> Some (has_started_mutation (dw_progress d ! progress)) | _ \<Rightarrow> None)
       (dw_items d)"

definition executing_target_contains :: "relative_path \<Rightarrow> deletion_work \<Rightarrow> bool" where
  "executing_target_contains path d \<longleftrightarrow>
     (\<exists>item \<in> set (dw_items d).
        is_executing (di_stage item) \<and> \<not> is_root (di_relative_path item) \<and> starts_with path (di_relative_path item))"

record deletion_work_phase_snapshot =
  ph_execution_mutation_started :: "bool option"

definition phase_snapshot_empty :: deletion_work_phase_snapshot where
  "phase_snapshot_empty = \<lparr>ph_execution_mutation_started = None\<rparr>"

definition presentation_snapshot :: "deletion_work \<Rightarrow> deletion_work_phase_snapshot" where
  "presentation_snapshot d = \<lparr>ph_execution_mutation_started = execution_mutation_started d\<rparr>"

record work_rail_item =
  wr_status :: rail_status
  wr_planned_entries :: "u64 option"
  wr_completed :: "u64 option"
  wr_mutation_started :: "bool option"
  wr_confirmed_at :: "nat option"

definition is_preparing :: "work_rail_item \<Rightarrow> bool" where
  "is_preparing r =
     (case wr_status r of
        RailPlanning \<Rightarrow> True
      | RailQueued \<Rightarrow> True
      | RailExecuting \<Rightarrow> (case wr_mutation_started r of None \<Rightarrow> True | Some started \<Rightarrow> \<not> started)
      | RailAwaitingConfirmation \<Rightarrow> False)"

definition work_rail_status :: "deletion_work_stage \<Rightarrow> rail_status" where
  "work_rail_status stage1 =
     (case stage1 of
        QueuedPlanning _ _ _ \<Rightarrow> RailPlanning
      | Planning \<Rightarrow> RailPlanning
      | CancellingPlanning \<Rightarrow> RailPlanning
      | AwaitingConfirmation _ _ _ \<Rightarrow> RailAwaitingConfirmation
      | Confirming _ _ \<Rightarrow> RailAwaitingConfirmation
      | QueuedExecution \<Rightarrow> RailQueued
      | Executing _ _ \<Rightarrow> RailExecuting)"

definition work_rail_item_with_phase_snapshot ::
    "deletion_execution_progress list \<Rightarrow> deletion_work_item \<Rightarrow> deletion_work_phase_snapshot option \<Rightarrow> work_rail_item" where
  "work_rail_item_with_phase_snapshot progresses item phase_snapshot =
     (case di_stage item of
        Executing planned_entries progress \<Rightarrow>
          \<lparr>wr_status = RailExecuting, wr_planned_entries = Some planned_entries,
           wr_completed = Some (ep_completed (progresses ! progress)),
           wr_mutation_started =
             (case phase_snapshot of
                None \<Rightarrow> Some (has_started_mutation (progresses ! progress))
              | Some snapshot1 \<Rightarrow> ph_execution_mutation_started snapshot1),
           wr_confirmed_at = di_confirmed_at item\<rparr>
      | stage1 \<Rightarrow>
          \<lparr>wr_status = work_rail_status stage1, wr_planned_entries = None, wr_completed = None,
           wr_mutation_started = None, wr_confirmed_at = di_confirmed_at item\<rparr>)"

definition work_rail_item_of :: "deletion_execution_progress list \<Rightarrow> deletion_work_item \<Rightarrow> work_rail_item" where
  "work_rail_item_of progresses item = work_rail_item_with_phase_snapshot progresses item None"

definition has_checker_animation :: "nat \<Rightarrow> deletion_work \<Rightarrow> bool" where
  "has_checker_animation now d \<longleftrightarrow>
     (\<exists>item \<in> set (dw_items d).
        is_preparing (work_rail_item_of (dw_progress d) item) \<and>
        (case di_confirmed_at item of None \<Rightarrow> False
         | Some confirmed_at \<Rightarrow> now - confirmed_at < DELETION_CHECKER_COVER_DURATION))"

definition rail_item_for_relative_path_with_phase_snapshot ::
    "os_string list \<Rightarrow> relative_path \<Rightarrow> deletion_work_phase_snapshot option \<Rightarrow> deletion_work \<Rightarrow> work_rail_item option" where
  "rail_item_for_relative_path_with_phase_snapshot scan_root relative_path phase_snapshot d =
     map_option (\<lambda>item. work_rail_item_with_phase_snapshot (dw_progress d) item phase_snapshot)
       (find (\<lambda>item. (case di_target item of None \<Rightarrow> False | Some target \<Rightarrow> fd_path_in_filesystem target = scan_root) \<and>
                di_relative_path item = relative_path)
          (dw_items d))"

definition rail_item_for_relative_path :: "os_string list \<Rightarrow> relative_path \<Rightarrow> deletion_work \<Rightarrow> work_rail_item option" where
  "rail_item_for_relative_path scan_root relative_path =
     rail_item_for_relative_path_with_phase_snapshot scan_root relative_path None"

definition dw_len :: "deletion_work \<Rightarrow> nat" where
  "dw_len d = length (dw_items d)"

definition rail_item :: "nat \<Rightarrow> deletion_work \<Rightarrow> work_rail_item option" where
  "rail_item i d = (if i < length (dw_items d) then Some (work_rail_item_of (dw_progress d) (dw_items d ! i)) else None)"

definition foreground_rail_item_with_phase_snapshot :: "deletion_work_phase_snapshot option \<Rightarrow> deletion_work \<Rightarrow>
    work_rail_item option" where
  "foreground_rail_item_with_phase_snapshot phase_snapshot d =
     (let active = position (\<lambda>item. is_executing (di_stage item)) (dw_items d);
          i = (case active of None \<Rightarrow> 0 | Some i \<Rightarrow> i)
      in if i < length (dw_items d)
         then Some (work_rail_item_with_phase_snapshot (dw_progress d) (dw_items d ! i) phase_snapshot) else None)"

definition foreground_rail_item :: "deletion_work \<Rightarrow> work_rail_item option" where
  "foreground_rail_item = foreground_rail_item_with_phase_snapshot None"

end
