(* ===== verification/Deletion_Invariant.thy ===== *)
theory Deletion_Invariant
  imports Deletion_Work "HOL-Library.Sublist" "HOL-Library.Multiset"
begin

text \<open>
  The deletion lane as a state machine and its invariant.  \<open>lane_step\<close> is one call of the owner
  loop, one command of another client of the session coordinator, or progress of the executor; the log
  records what the user confirmed and what was handed to the workers.  \<open>lane_reachable\<close> counts the
  steps that may still follow, so that neither work identifiers nor lease identifiers wrap around.

  The invariant has two halves.  \<open>rail_ok\<close> speaks of the items: at most four, with distinct
  identifiers and targets that do not overlap, at most one being planned and one being executed, each
  past the confirmation only if the log has it.  \<open>lease_ok\<close> relates the items whose work is with a
  worker, seen as the set \<open>flights\<close>, to the leases of the lane and to those active in the
  coordinator; it rests on the contract \<open>lease_service\<close>.
\<close>

section \<open>The state machine\<close>

primrec cmd_target :: "deletion_work_command \<Rightarrow> file_to_delete" where
  "cmd_target (PlanCommand _ target _ _) = target"
| "cmd_target (ExecuteCommand _ plan _) = dp_target plan"

datatype lane_event = Confirmed deletion_work_id "os_string list" | Issued deletion_work_command

text \<open>
  The owner hands a command it got to a worker lane before its next call; a lane that is busy gives it
  back and the owner restores it.
\<close>

record lane =
  ln_work :: deletion_work
  ln_offered :: "deletion_work_command option"
  ln_log :: "lane_event list"

datatype lane_call =
    PlanningSucceeded deletion_work_id deletion_plan
  | PlanningCancelled deletion_work_id
  | PlanningFailed deletion_work_id
  | PlanningStale deletion_work_id
  | TakeNextConfirmation
  | ReturnConfirmation deletion_work_id file_to_delete
  | CancelModal deletion_work_id
  | CancelPending
  | ExecutionFailed deletion_work_id
  | ExecutionStale deletion_work_id
  | ExecutionFinished deletion_work_id work_completion
  | Discard deletion_work_id
  | DiscardCancelledEvent deletion_work_id

primrec lane_effect :: "lane_call \<Rightarrow> deletion_work \<Rightarrow> deletion_work" where
  "lane_effect (PlanningSucceeded work_id plan) d = snd (planning_succeeded work_id plan d)"
| "lane_effect (PlanningCancelled work_id) d = snd (planning_cancelled work_id d)"
| "lane_effect (PlanningFailed work_id) d = snd (planning_failed work_id d)"
| "lane_effect (PlanningStale work_id) d = snd (planning_stale work_id d)"
| "lane_effect TakeNextConfirmation d = snd (take_next_confirmation d)"
| "lane_effect (ReturnConfirmation work_id target) d = snd (return_confirmation work_id target d)"
| "lane_effect (CancelModal work_id) d = snd (cancel_modal work_id d)"
| "lane_effect CancelPending d = snd (cancel_pending d)"
| "lane_effect (ExecutionFailed work_id) d = snd (execution_failed work_id d)"
| "lane_effect (ExecutionStale work_id) d = snd (execution_stale work_id d)"
| "lane_effect (ExecutionFinished work_id completion) d = snd (execution_finished work_id completion d)"
| "lane_effect (Discard work_id) d = snd (discard work_id d)"
| "lane_effect (DiscardCancelledEvent work_id) d = discard_cancelled_event work_id d"

text \<open>
  In reduced confirmation mode the request is the confirmation (\<open>docs/development.md\<close>: the accepted
  Backspace is the whole request); otherwise the item waits for the dialog.
\<close>

definition logged_enqueue :: "file_to_delete \<Rightarrow> bool \<Rightarrow> (deletion_work_error, deletion_work_id) res \<Rightarrow> lane_event list" where
  "logged_enqueue target reduced_guardrails r =
     (case r of Inr work_id \<Rightarrow> (if reduced_guardrails then [Confirmed work_id (full_path target)] else []) | Inl _ \<Rightarrow> [])"

inductive lane_step :: "lane \<Rightarrow> lane \<Rightarrow> bool" where
  enqueue: "enqueue_confirmation target reduced_guardrails maximum_bytes now d = (r, d') \<Longrightarrow>
    lane_step \<lparr>ln_work = d, ln_offered = None, ln_log = log\<rparr>
      \<lparr>ln_work = d', ln_offered = None, ln_log = log @ logged_enqueue target reduced_guardrails r\<rparr>"
| confirm: "queue_confirmation work_id target now d = (r, d') \<Longrightarrow>
    lane_step \<lparr>ln_work = d, ln_offered = None, ln_log = log\<rparr>
      \<lparr>ln_work = d', ln_offered = None, ln_log = log @ (if r then [Confirmed work_id (full_path target)] else [])\<rparr>"
| plan: "next_planning_command d = (r, d') \<Longrightarrow>
    lane_step \<lparr>ln_work = d, ln_offered = None, ln_log = log\<rparr>
      \<lparr>ln_work = d', ln_offered = r, ln_log = log @ (case r of None \<Rightarrow> [] | Some cmd \<Rightarrow> [Issued cmd])\<rparr>"
| execute: "next_execution_command d = (r, d') \<Longrightarrow>
    lane_step \<lparr>ln_work = d, ln_offered = None, ln_log = log\<rparr>
      \<lparr>ln_work = d', ln_offered = r, ln_log = log @ (case r of None \<Rightarrow> [] | Some cmd \<Rightarrow> [Issued cmd])\<rparr>"
| submit: "lane_step \<lparr>ln_work = d, ln_offered = Some cmd, ln_log = log\<rparr> \<lparr>ln_work = d, ln_offered = None, ln_log = log\<rparr>"
| restore: "lane_step \<lparr>ln_work = d, ln_offered = Some cmd, ln_log = log\<rparr>
    \<lparr>ln_work = restore_unsubmitted cmd d, ln_offered = None, ln_log = log\<rparr>"
| call: "lane_step \<lparr>ln_work = d, ln_offered = None, ln_log = log\<rparr>
    \<lparr>ln_work = lane_effect c d, ln_offered = None, ln_log = log\<rparr>"
| other: "other_client (snd ` set (dw_leases d)) (dw_coordinator d) s \<Longrightarrow>
    lane_step \<lparr>ln_work = d, ln_offered = o1, ln_log = log\<rparr>
      \<lparr>ln_work = d\<lparr>dw_coordinator := s\<rparr>, ln_offered = o1, ln_log = log\<rparr>"
| executor: "length ps = length (dw_progress d) \<Longrightarrow>
    lane_step \<lparr>ln_work = d, ln_offered = o1, ln_log = log\<rparr>
      \<lparr>ln_work = d\<lparr>dw_progress := ps\<rparr>, ln_offered = o1, ln_log = log\<rparr>"

text \<open>\<open>lane_reachable k y\<close>: the lane is in state \<open>y\<close> and at least \<open>k\<close> more steps are within the budget.\<close>

inductive lane_reachable :: "nat \<Rightarrow> lane \<Rightarrow> bool" where
  start: "session_ok k s \<Longrightarrow> k < 2 ^ 64 \<Longrightarrow> lane_reachable k \<lparr>ln_work = dw_new s, ln_offered = None, ln_log = []\<rparr>"
| step: "lane_reachable (Suc k) y \<Longrightarrow> lane_step y z \<Longrightarrow> lane_reachable k z"

section \<open>The invariant\<close>

definition confirmed :: "lane_event list \<Rightarrow> deletion_work_item \<Rightarrow> bool" where
  "confirmed log item \<longleftrightarrow> di_confirmed_at item \<noteq> None \<and> Confirmed (di_id item) (di_path item) \<in> set log"

definition item_ok :: "lane_event list \<Rightarrow> nat \<Rightarrow> deletion_work_item \<Rightarrow> bool" where
  "item_ok log n item =
     (case di_stage item of
        AwaitingConfirmation target _ _ \<Rightarrow> full_path target = di_path item
      | Confirming _ _ \<Rightarrow> True
      | QueuedPlanning target _ _ \<Rightarrow> full_path target = di_path item \<and> confirmed log item
      | Planning \<Rightarrow> confirmed log item
      | CancellingPlanning \<Rightarrow> confirmed log item
      | QueuedExecution \<Rightarrow>
          confirmed log item \<and> (case di_plan item of None \<Rightarrow> False | Some plan \<Rightarrow> full_path (dp_target plan) = di_path item)
      | Executing _ progress \<Rightarrow> confirmed log item \<and> progress < n)"

definition apart :: "deletion_work_item \<Rightarrow> deletion_work_item \<Rightarrow> bool" where
  "apart a b \<longleftrightarrow> \<not> targets_overlap (di_path a) (di_path b)"

definition at_most_one :: "(deletion_work_stage \<Rightarrow> bool) \<Rightarrow> deletion_work_item list \<Rightarrow> bool" where
  "at_most_one P items \<longleftrightarrow> length (filter (\<lambda>item. P (di_stage item)) items) \<le> 1"

definition rail_ok :: "lane_event list \<Rightarrow> deletion_work \<Rightarrow> bool" where
  "rail_ok log d \<longleftrightarrow>
     length (dw_items d) \<le> MAX_DELETION_WORK_ITEMS \<and> distinct (map di_id (dw_items d)) \<and> sorted_wrt apart (dw_items d) \<and>
     at_most_one is_planning (dw_items d) \<and> at_most_one is_executing (dw_items d) \<and>
     (\<forall>item \<in> set (dw_items d). 0 < di_id item \<and> di_id item \<le> dw_next_id d \<and> item_ok log (length (dw_progress d)) item)"

text \<open>The work that is with a worker: identifier, kind of lease and path.\<close>

definition flight :: "deletion_work_item \<Rightarrow> (deletion_work_id \<times> work_kind \<times> relative_path) set" where
  "flight item =
     (if is_planning (di_stage item) then {(di_id item, PlanDeletion, di_relative_path item)}
      else if is_executing (di_stage item) then {(di_id item, ExecuteDeletion, di_relative_path item)} else {})"

definition flights :: "deletion_work_item list \<Rightarrow> (deletion_work_id \<times> work_kind \<times> relative_path) set" where
  "flights items = (\<Union>item \<in> set items. flight item)"

definition lease_ok :: "(deletion_work_id \<times> work_kind \<times> relative_path) set \<Rightarrow> (deletion_work_id \<times> work_lease) list \<Rightarrow>
    session_coordinator \<Rightarrow> bool" where
  "lease_ok F ls s \<longleftrightarrow>
     distinct (map fst ls) \<and> (\<forall>e \<in> set ls. (fst e, wk_kind (wl_key (snd e)), wk_path (wl_key (snd e))) \<in> F) \<and>
     (is_running s \<longrightarrow> fst ` F \<subseteq> fst ` set ls) \<and> actor.backed (map snd ls) s"

definition offered_ok :: "deletion_work \<Rightarrow> deletion_work_command \<Rightarrow> bool" where
  "offered_ok d cmd \<longleftrightarrow>
     (\<exists>item \<in> set (dw_items d). di_id item = cmd_work_id cmd \<and> restoreable cmd (di_stage item) \<and> di_path item = full_path (cmd_target cmd))"

text \<open>Every command in the log comes after the confirmation of its target.\<close>

definition consent_ok :: "lane_event list \<Rightarrow> bool" where
  "consent_ok log \<longleftrightarrow>
     (\<forall>before cmd later. log = before @ Issued cmd # later \<longrightarrow>
        Confirmed (cmd_work_id cmd) (full_path (cmd_target cmd)) \<in> set before)"

definition work_ok :: "nat \<Rightarrow> lane_event list \<Rightarrow> deletion_work \<Rightarrow> bool" where
  "work_ok k log d \<longleftrightarrow>
     session_ok k (dw_coordinator d) \<and> unat (dw_next_id d) + k < 2 ^ 64 \<and> rail_ok log d \<and>
     lease_ok (flights (dw_items d)) (dw_leases d) (dw_coordinator d)"

definition lane_ok :: "nat \<Rightarrow> lane \<Rightarrow> bool" where
  "lane_ok k y \<longleftrightarrow>
     work_ok k (ln_log y) (ln_work y) \<and> consent_ok (ln_log y) \<and>
     (case ln_offered y of None \<Rightarrow> True | Some cmd \<Rightarrow> offered_ok (ln_work y) cmd)"

section \<open>Lists\<close>

lemma position_Some: "position P xs = Some i \<Longrightarrow> i < length xs \<and> P (xs ! i)"
  by (induction xs arbitrary: i) (auto split: if_splits)

lemma position_None: "position P xs = None \<longleftrightarrow> \<not> (\<exists>x \<in> set xs. P x)"
  by (induction xs) auto

lemma position_the:
  assumes "distinct (map f xs)" "position (\<lambda>x. f x = a) xs = Some i" "j < length xs" "f (xs ! j) = a"
  shows "j = i"
  using assms position_Some [OF assms(2)] by (metis nth_eq_iff_index_eq nth_map length_map)

lemma set_remove_at:
  assumes "distinct (map f xs)" "i < length xs"
  shows "set (remove_at i xs) = {x \<in> set xs. f x \<noteq> f (xs ! i)}"
proof -
  have xs: "xs = take i xs @ xs ! i # drop (Suc i) xs" using assms(2) by (rule id_take_nth_drop)
  then have "distinct (map f (take i xs @ xs ! i # drop (Suc i) xs))" using assms(1) by simp
  then show ?thesis
    by (subst (2) xs) (auto simp: remove_at_def image_iff intro: rev_image_eqI)
qed

lemma set_swap_remove:
  assumes "distinct (map f xs)" "i < length xs"
  shows "set (swap_remove i xs) = {x \<in> set xs. f x \<noteq> f (xs ! i)}" "distinct (map f (swap_remove i xs))"
    "mset (swap_remove i xs) = mset xs - {#xs ! i#}"
proof -
  obtain ys z where xs: "xs = ys @ [z]" using assms(2) by (cases xs rule: rev_cases) auto
  have m: "mset (swap_remove i xs) = mset xs - {#xs ! i#}"
  proof (cases "i = length ys")
    case False
    then have "i < length ys" using assms(2) xs by simp
    then show ?thesis using xs by (simp add: swap_remove_def list_update_append nth_append mset_update)
  qed (simp add: swap_remove_def xs list_update_append)
  show "mset (swap_remove i xs) = mset xs - {#xs ! i#}" by (rule m)
  have r: "mset (remove_at i xs) = mset xs - {#xs ! i#}"
    using assms(2) by (subst (2) id_take_nth_drop [OF assms(2)]) (simp add: remove_at_def)
  have mr: "mset (swap_remove i xs) = mset (remove_at i xs)" using m r by simp
  then show "set (swap_remove i xs) = {x \<in> set xs. f x \<noteq> f (xs ! i)}"
    using set_remove_at [OF assms] mset_eq_setD by blast
  have "distinct (map f (remove_at i xs))"
    using assms(1) by (subst (asm) id_take_nth_drop [OF assms(2)]) (auto simp: remove_at_def)
  then show "distinct (map f (swap_remove i xs))"
    using mr by (metis mset_eq_imp_distinct_iff mset_map)
qed

lemma subseq_remove_at: "subseq (remove_at i xs) xs"
proof (cases "i < length xs")
  case True
  have "subseq (take i xs @ drop (Suc i) xs) (take i xs @ xs ! i # drop (Suc i) xs)"
    by (rule list_emb_append_mono) auto
  then show ?thesis using id_take_nth_drop [OF True] by (simp add: remove_at_def)
qed (simp add: remove_at_def)

lemma sorted_wrt_subseq:
  assumes "subseq xs ys" "sorted_wrt P ys"
  shows "sorted_wrt P xs"
  using assms by (induction rule: list_emb.induct) (auto dest: list_emb_set)

lemma distinct_subseq:
  assumes "subseq xs ys" "distinct ys"
  shows "distinct xs"
  using assms by (induction rule: list_emb.induct) (auto dest: list_emb_set)

lemma length_filter_subseq: "subseq xs ys \<Longrightarrow> length (filter P xs) \<le> length (filter P ys)"
  by (induction rule: list_emb.induct) auto

section \<open>The leases\<close>

lemma take_lease_effect:
  assumes "distinct (map fst (dw_leases d))" "take_lease work_id d = (r, d')"
  shows "(\<exists>ls. d' = d\<lparr>dw_leases := ls\<rparr> \<and> set ls = {e \<in> set (dw_leases d). fst e \<noteq> work_id} \<and> distinct (map fst ls) \<and>
      (case r of None \<Rightarrow> work_id \<notin> fst ` set (dw_leases d) \<and> mset ls = mset (dw_leases d)
       | Some l \<Rightarrow> (work_id, l) \<in> set (dw_leases d) \<and> mset (dw_leases d) = add_mset (work_id, l) (mset ls)))"
proof (cases "position (\<lambda>e. fst e = work_id) (dw_leases d)")
  case None
  then have "work_id \<notin> fst ` set (dw_leases d)" by (auto simp: position_None)
  moreover have "r = None" "d' = d" using assms(2) None by (simp_all add: take_lease_def)
  ultimately show ?thesis using assms(1) by (intro exI [of _ "dw_leases d"]) (auto intro: rev_image_eqI)
next
  case (Some i)
  let ?ls = "swap_remove i (dw_leases d)"
  note i = position_Some [OF Some]
  note sw = set_swap_remove [OF assms(1), of i]
  have e: "(work_id, snd (dw_leases d ! i)) = dw_leases d ! i" using i by (simp add: prod_eq_iff)
  have "r = Some (snd (dw_leases d ! i))" "d' = d\<lparr>dw_leases := ?ls\<rparr>" using assms(2) Some by (simp_all add: take_lease_def)
  moreover have "mset (dw_leases d) = add_mset (dw_leases d ! i) (mset ?ls)" using i sw(3) by simp
  ultimately show ?thesis using i sw(1,2) e by (intro exI [of _ ?ls]) simp
qed

lemma backed_mset: "mset ls = mset ms \<Longrightarrow> actor.backed ls s \<longleftrightarrow> actor.backed ms s"
  unfolding actor.backed_def using mset_eq_imp_distinct_iff [of ls ms] mset_eq_setD [of ls ms] by simp

text \<open>
  Handing a lease in, to be finished or requeued: \<open>give\<close> is the call and \<open>fine\<close> its expected answer.
\<close>

definition hand_in :: "(work_lease \<Rightarrow> session_coordinator \<Rightarrow> 'a \<times> session_coordinator) \<Rightarrow> 'a \<Rightarrow> deletion_work_id \<Rightarrow>
    deletion_work \<Rightarrow> bool \<times> deletion_work" where
  "hand_in give fine work_id d =
     (case take_lease work_id d of
        (None, d) \<Rightarrow> (False, d)
      | (Some l, d) \<Rightarrow> (case give l (dw_coordinator d) of (r, s) \<Rightarrow> (r = fine, d\<lparr>dw_coordinator := s\<rparr>)))"

lemma finish_lease_hand_in: "finish_lease work_id completion = hand_in (\<lambda>l. session_finish l completion) (Inr Accepted) work_id"
  by (rule ext) (simp add: finish_lease_def hand_in_def)

lemma requeue_lease_hand_in: "requeue_lease work_id = hand_in session_requeue (Inr Requeued) work_id"
  by (rule ext) (simp add: requeue_lease_def hand_in_def)

definition gives_back :: "(work_lease \<Rightarrow> session_coordinator \<Rightarrow> 'a \<times> session_coordinator) \<Rightarrow> 'a \<Rightarrow> bool" where
  "gives_back give fine \<longleftrightarrow>
     (\<forall>k s l r s'. session_ok k s \<longrightarrow> give l s = (r, s') \<longrightarrow>
        session_ok k s' \<and> is_running s' = is_running s \<and> active_leases s' = active_leases s - {l} \<and>
        (r = fine \<longleftrightarrow> l \<in> active_leases s))"

lemma finish_gives_back: "gives_back (\<lambda>l. session_finish l completion) (Inr Accepted)"
  unfolding gives_back_def using actor.finish_ok by blast

lemma requeue_gives_back: "gives_back session_requeue (Inr Requeued)"
  unfolding gives_back_def using actor.requeue_ok by blast

lemma not_running_active: "\<not> is_running s \<Longrightarrow> l \<notin> active_leases s"
  by (simp add: is_running_def)

lemma gives_back_backed:
  assumes "gives_back give fine" "session_ok k s" "actor.backed (l # ls) s" "give l s = (r, s')"
  shows "session_ok k s' \<and> is_running s' = is_running s \<and> actor.backed ls s' \<and> (r = fine \<longleftrightarrow> is_running s)"
proof -
  have g: "session_ok k s'" "is_running s' = is_running s" "active_leases s' = active_leases s - {l}"
    "r = fine \<longleftrightarrow> l \<in> active_leases s"
    using assms(1,2,4) unfolding gives_back_def by blast+
  moreover have "l \<in> active_leases s \<longleftrightarrow> is_running s" using assms(3) not_running_active by (auto simp: actor.backed_def)
  ultimately show ?thesis using assms(3) by (auto simp: actor.backed_def)
qed

definition without :: "deletion_work_id \<Rightarrow> (deletion_work_id \<times> work_kind \<times> relative_path) set \<Rightarrow>
    (deletion_work_id \<times> work_kind \<times> relative_path) set" where
  "without work_id F = {f \<in> F. fst f \<noteq> work_id}"

lemma lease_ok_without:
  assumes "lease_ok F ls s" "set ms = {e \<in> set ls. fst e \<noteq> work_id}" "distinct (map fst ms)"
    and "actor.backed (map snd ms) s'" "is_running s' = is_running s"
  shows "lease_ok (without work_id F) ms s'" "\<not> is_running s' \<Longrightarrow> lease_ok F ms s'"
proof -
  have "fst ` without work_id F \<subseteq> fst ` set ms" if "fst ` F \<subseteq> fst ` set ls"
    using that assms(2) by (force simp: without_def)
  then show "lease_ok (without work_id F) ms s'" using assms by (simp add: lease_ok_def without_def)
  show "lease_ok F ms s'" if "\<not> is_running s'" using that assms by (simp add: lease_ok_def)
qed

lemma hand_in_effect:
  assumes "gives_back give fine" "session_ok k (dw_coordinator d)" "lease_ok F (dw_leases d) (dw_coordinator d)"
    and "hand_in give fine work_id d = (r, d')"
  obtains ls s where "d' = d\<lparr>dw_leases := ls, dw_coordinator := s\<rparr>" "session_ok k s" "is_running s = is_running (dw_coordinator d)"
    "lease_ok (without work_id F) ls s" "\<not> is_running s \<Longrightarrow> lease_ok F ls s"
    "r \<longleftrightarrow> work_id \<in> fst ` set (dw_leases d) \<and> is_running s"
proof -
  note ok = assms(3) [unfolded lease_ok_def]
  obtain q d1 where t: "take_lease work_id d = (q, d1)" by fastforce
  from take_lease_effect [OF _ t] ok obtain ls where ls: "d1 = d\<lparr>dw_leases := ls\<rparr>"
    "set ls = {e \<in> set (dw_leases d). fst e \<noteq> work_id}" "distinct (map fst ls)"
    "case q of None \<Rightarrow> work_id \<notin> fst ` set (dw_leases d) \<and> mset ls = mset (dw_leases d)
       | Some l \<Rightarrow> (work_id, l) \<in> set (dw_leases d) \<and> mset (dw_leases d) = add_mset (work_id, l) (mset ls)" by auto
  note sub = lease_ok_without [OF assms(3) ls(2,3)]
  show ?thesis
  proof (cases q)
    case None
    have b: "actor.backed (map snd ls) (dw_coordinator d)"
      using ok ls(4) None backed_mset [of "map snd ls" "map snd (dw_leases d)"] by simp
    have "d' = d1" "\<not> r" using assms(4) t None by (simp_all add: hand_in_def)
    then have "d' = d\<lparr>dw_leases := ls, dw_coordinator := dw_coordinator d\<rparr>" "\<not> r" using ls(1) by simp_all
    then show ?thesis using that [where ls = ls and s = "dw_coordinator d"] sub [OF b refl] assms(2) ls(4) None by simp
  next
    case (Some l)
    obtain q1 s where call: "give l (dw_coordinator d) = (q1, s)" by fastforce
    have "actor.backed (l # map snd ls) (dw_coordinator d)"
      using ok ls(4) Some backed_mset [of "l # map snd ls" "map snd (dw_leases d)"] by simp
    note g = gives_back_backed [OF assms(1,2) this call]
    have "r \<longleftrightarrow> q1 = fine" "d' = d\<lparr>dw_leases := ls, dw_coordinator := s\<rparr>"
      using assms(4) t Some ls(1) call by (auto simp: hand_in_def)
    moreover have "work_id \<in> fst ` set (dw_leases d)" using ls(4) Some by (auto intro: rev_image_eqI)
    ultimately show ?thesis using that [where ls = ls and s = s] sub [of s] g by simp
  qed
qed

lemma acquire_lease_effect:
  assumes "session_ok (Suc k) (dw_coordinator d)" "lease_ok F (dw_leases d) (dw_coordinator d)"
    and "acquire_lease kind path priority d = (r, d1)" "kind = PlanDeletion \<or> kind = ExecuteDeletion"
  obtains s where "d1 = d\<lparr>dw_coordinator := s\<rparr>" "session_ok k s"
    "case r of None \<Rightarrow> lease_ok F (dw_leases d) s
     | Some l \<Rightarrow> work_id \<notin> fst ` F \<longrightarrow>
         remember_lease work_id l d1 = d1\<lparr>dw_leases := dw_leases d @ [(work_id, l)]\<rparr> \<and>
         lease_ok (insert (work_id, kind, path) F) (dw_leases d @ [(work_id, l)]) s"
proof -
  obtain q s where call: "session_acquire kind path priority (dw_coordinator d) = (q, s)" by fastforce
  note ok = assms(2) [unfolded lease_ok_def] and acq = actor.acquire_ok [OF assms(1) call]
  have d1: "d1 = d\<lparr>dw_coordinator := s\<rparr>" and r: "r = (case q of Inr l \<Rightarrow> l | Inl _ \<Rightarrow> None)"
    using assms(3) call by (auto simp: acquire_lease_def)
  show ?thesis
  proof (rule that [OF d1])
    show "session_ok k s" using acq by simp
    show "case r of None \<Rightarrow> lease_ok F (dw_leases d) s
     | Some l \<Rightarrow> work_id \<notin> fst ` F \<longrightarrow>
         remember_lease work_id l d1 = d1\<lparr>dw_leases := dw_leases d @ [(work_id, l)]\<rparr> \<and>
         lease_ok (insert (work_id, kind, path) F) (dw_leases d @ [(work_id, l)]) s"
    proof (cases r)
      case None
      then have "q \<noteq> Inr (Some l)" for l using r by (auto split: sum.splits)
      from actor.backed_refused [OF assms(1) call this] show ?thesis using None ok acq by (auto simp: lease_ok_def)
    next
      case (Some l)
      then have q: "q = Inr (Some l)" using r by (auto split: sum.splits)
      note b = actor.backed_acquire [OF assms(1) call [unfolded q] assms(4)]
      show ?thesis
      proof (simp add: Some, intro impI conjI)
        assume new: "work_id \<notin> fst ` F"
        then have no: "work_id \<notin> fst ` set (dw_leases d)" using ok by (force simp: image_iff)
        then have "position (\<lambda>e. fst e = work_id) (dw_leases d) = None" by (auto simp: position_None)
        then show "remember_lease work_id l d1 = d1\<lparr>dw_leases := dw_leases d @ [(work_id, l)]\<rparr>"
          using d1 by (simp add: remember_lease_def)
        have "actor.backed (l # map snd (dw_leases d)) s" using b(1) ok by blast
        then have "actor.backed (map snd (dw_leases d @ [(work_id, l)])) s"
          using backed_mset [of "l # map snd (dw_leases d)" "map snd (dw_leases d @ [(work_id, l)])"] by simp
        then show "lease_ok (insert (work_id, kind, path) F) (dw_leases d @ [(work_id, l)]) s"
          using ok b(2,3) [of "map snd (dw_leases d)"] acq no by (auto simp: lease_ok_def)
      qed
    qed
  qed
qed

section \<open>The rail\<close>

lemma fst_flight: "f \<in> flight item \<Longrightarrow> fst f = di_id item"
  by (auto simp: flight_def split: if_splits)

lemma without_flights: "without work_id (\<Union>item \<in> A. flight item) = (\<Union>item \<in> {x \<in> A. di_id x \<noteq> work_id}. flight item)"
  using fst_flight by (fastforce simp: without_def)

lemma flights_remove_at:
  assumes "distinct (map di_id xs)" "i < length xs"
  shows "flights (remove_at i xs) = without (di_id (xs ! i)) (flights xs)"
  unfolding flights_def without_flights set_remove_at [OF assms] ..

lemma flights_update:
  assumes "distinct (map di_id xs)" "i < length xs" "di_id x = di_id (xs ! i)"
  shows "flights (xs[i := x]) = without (di_id x) (flights xs) \<union> flight x"
proof -
  have "set (xs[i := x]) = insert x (set (remove_at i xs))"
    using assms(2) by (auto simp: upd_conv_take_nth_drop remove_at_def)
  then show ?thesis using flights_remove_at [OF assms(1,2)] assms(3) by (auto simp: flights_def)
qed

lemma without_grounded:
  assumes "distinct (map di_id xs)" "i < length xs" "flight (xs ! i) = {}"
  shows "without (di_id (xs ! i)) (flights xs) = flights xs"
proof -
  have "x = xs ! i" if "x \<in> set xs" "di_id x = di_id (xs ! i)" for x
    using that assms(1,2) by (metis distinct_map inj_onD nth_mem)
  then show ?thesis unfolding flights_def without_flights using assms(3) by auto
qed

lemma at_most_one_update:
  assumes "at_most_one P xs" "i < length xs"
    and "P (di_stage x) \<Longrightarrow> P (di_stage (xs ! i)) \<or> \<not> (\<exists>y \<in> set xs. P (di_stage y))"
  shows "at_most_one P (xs[i := x])"
proof -
  let ?f = "filter (\<lambda>y. P (di_stage y))"
  have xs: "length (?f xs) = length (?f (take i xs)) + (if P (di_stage (xs ! i)) then 1 else 0) + length (?f (drop (Suc i) xs))"
    by (subst id_take_nth_drop [OF assms(2)]) simp
  have up: "length (?f (xs[i := x])) = length (?f (take i xs)) + (if P (di_stage x) then 1 else 0) + length (?f (drop (Suc i) xs))"
    using assms(2) by (simp add: upd_conv_take_nth_drop)
  have "\<not> (\<exists>y \<in> set xs. P (di_stage y)) \<Longrightarrow> ?f ys = []" if "set ys \<subseteq> set xs" for ys
    using that by (auto simp: filter_empty_conv)
  from this [of "take i xs"] this [of "drop (Suc i) xs"] show ?thesis
    using xs up assms(1,3) set_take_subset [of i xs] set_drop_subset [of "Suc i" xs]
    by (auto simp: at_most_one_def split: if_splits)
qed

lemma rail_ok_simps [simp]:
  "rail_ok log (d\<lparr>dw_leases := ls\<rparr>) = rail_ok log d"
  "rail_ok log (d\<lparr>dw_coordinator := s\<rparr>) = rail_ok log d"
  "length ps = length (dw_progress d) \<Longrightarrow> rail_ok log (d\<lparr>dw_progress := ps\<rparr>) = rail_ok log d"
  by (simp_all add: rail_ok_def)

lemma item_ok_mono: "item_ok log n item \<Longrightarrow> n \<le> m \<Longrightarrow> item_ok (log @ es) m item"
  by (auto simp: item_ok_def confirmed_def split: deletion_work_stage.splits)

lemma rail_ok_mono: "rail_ok log d \<Longrightarrow> rail_ok (log @ es) (d\<lparr>dw_progress := dw_progress d @ ps\<rparr>)"
  using item_ok_mono [where log = log and n = "length (dw_progress d)" and es = es and m = "length (dw_progress d @ ps)"]
  by (simp add: rail_ok_def)

lemma rail_ok_log: "rail_ok log d \<Longrightarrow> rail_ok (log @ es) d"
  using rail_ok_mono [of log d es "[]"] by simp

lemma rail_ok_subseq:
  assumes "rail_ok log d" "subseq xs (dw_items d)"
  shows "rail_ok log (d\<lparr>dw_items := xs\<rparr>)"
proof -
  note ok = assms(1) [unfolded rail_ok_def]
  have "distinct (map di_id xs)" using ok distinct_subseq [OF subseq_map [OF assms(2)]] by blast
  moreover have "length xs \<le> length (dw_items d)" using assms(2) by (rule list_emb_length)
  moreover have "set xs \<subseteq> set (dw_items d)" using assms(2) by (auto dest: list_emb_set)
  ultimately show ?thesis
    using ok sorted_wrt_subseq [OF assms(2)] le_trans [OF length_filter_subseq [OF assms(2)]]
    by (auto simp: rail_ok_def at_most_one_def)
qed

lemma rail_ok_update:
  assumes "rail_ok log d" "i < length (dw_items d)" "x = f (dw_items d ! i)"
    and "di_id x = di_id (dw_items d ! i)" "di_path x = di_path (dw_items d ! i)" "item_ok log (length (dw_progress d)) x"
    and "is_planning (di_stage x) \<Longrightarrow> is_planning (di_stage (dw_items d ! i)) \<or> \<not> (\<exists>y \<in> set (dw_items d). is_planning (di_stage y))"
    and "is_executing (di_stage x) \<Longrightarrow> is_executing (di_stage (dw_items d ! i)) \<or> \<not> (\<exists>y \<in> set (dw_items d). is_executing (di_stage y))"
  shows "rail_ok log (update_item i f d)"
proof -
  note ok = assms(1) [unfolded rail_ok_def]
  let ?xs = "(dw_items d)[i := x]"
  have ids: "map di_id ?xs = map di_id (dw_items d)" and paths: "map di_path ?xs = map di_path (dw_items d)"
    using assms(2,4,5) by (simp_all add: map_update list_update_same_conv)
  have apart: "sorted_wrt apart ys = sorted_wrt (\<lambda>p q. \<not> targets_overlap p q) (map di_path ys)" for ys
    by (simp add: sorted_wrt_map apart_def [abs_def])
  have "\<forall>y \<in> set ?xs. 0 < di_id y \<and> di_id y \<le> dw_next_id d \<and> item_ok log (length (dw_progress d)) y"
    using ok assms(2,4,6) by (auto dest!: set_update_subset_insert [THEN subsetD])
  moreover have "at_most_one is_planning ?xs" "at_most_one is_executing ?xs"
    using ok assms(2,7,8) by (auto intro: at_most_one_update)
  ultimately show ?thesis using ok ids paths assms(3) by (simp add: rail_ok_def update_item_def apart)
qed

lemma rail_ok_distinct: "rail_ok log d \<Longrightarrow> distinct (map di_id (dw_items d))"
  by (simp add: rail_ok_def)

lemma rail_ok_item: "rail_ok log d \<Longrightarrow> i < length (dw_items d) \<Longrightarrow> item_ok log (length (dw_progress d)) (dw_items d ! i)"
  by (simp add: rail_ok_def)

end
