(* ===== verification/Deletion_Lane.thy ===== *)
theory Deletion_Lane
  imports Deletion_Invariant
begin

text \<open>
  Every step of the deletion lane keeps its invariant.  The calls are built from few moves: take an item
  off the rail, change its stage, hand its lease in, acquire a lease for it.  Each move has a lemma on
  \<open>work_ok\<close>, and the lemma of a call follows its branches.
\<close>

section \<open>Moves\<close>

lemma rail_ok_cong:
  assumes "dw_items d = dw_items e" "dw_next_id d = dw_next_id e" "dw_progress d = dw_progress e"
  shows "rail_ok log d = rail_ok log e"
  using assms by (simp add: rail_ok_def)

lemma work_ok_less: "work_ok (Suc k) log d \<Longrightarrow> work_ok k log d"
  using actor.ok_less by (auto simp: work_ok_def)

lemma work_ok_log: "work_ok k log d \<Longrightarrow> work_ok k (log @ es) d"
  by (simp add: work_ok_def rail_ok_log)

lemma flights_same:
  assumes "distinct (map di_id xs)" "i < length xs" "di_id x = di_id (xs ! i)" "flight x = flight (xs ! i)"
  shows "flights (xs[i := x]) = flights xs"
proof -
  have "xs[i := xs ! i] = xs" by simp
  then show ?thesis
    using flights_update [OF assms(1-3)] flights_update [OF assms(1,2), of "xs ! i"] assms(3,4) by simp
qed

lemma update_item_simps [simp]:
  "dw_items (update_item i f d) = (dw_items d)[i := f (dw_items d ! i)]" "dw_leases (update_item i f d) = dw_leases d"
  "dw_coordinator (update_item i f d) = dw_coordinator d" "dw_next_id (update_item i f d) = dw_next_id d"
  "dw_progress (update_item i f d) = dw_progress d"
  "dw_items (remove_item i d) = remove_at i (dw_items d)" "dw_leases (remove_item i d) = dw_leases d"
  "dw_coordinator (remove_item i d) = dw_coordinator d" "dw_next_id (remove_item i d) = dw_next_id d"
  "dw_progress (remove_item i d) = dw_progress d"
  by (simp_all add: update_item_def remove_item_def)

lemma rail_ok_remove: "rail_ok log d \<Longrightarrow> rail_ok log (remove_item i d)"
  unfolding remove_item_def by (rule rail_ok_subseq [OF _ subseq_remove_at])

lemma remove_grounded:
  assumes "work_ok k log d" "i < length (dw_items d)" "flight (dw_items d ! i) = {}"
  shows "work_ok k log (remove_item i d)"
proof -
  have rail: "rail_ok log d" using assms(1) by (simp add: work_ok_def)
  have "flights (remove_at i (dw_items d)) = flights (dw_items d)"
    using flights_remove_at without_grounded rail_ok_distinct [OF rail] assms(2,3) by simp
  then show ?thesis using assms(1) rail_ok_remove [OF rail] by (simp add: work_ok_def)
qed

lemma update_keeps:
  assumes "work_ok k log d" "i < length (dw_items d)" "rail_ok log (update_item i f d)"
    and "di_id (f (dw_items d ! i)) = di_id (dw_items d ! i)" "flight (f (dw_items d ! i)) = flight (dw_items d ! i)"
  shows "work_ok k log (update_item i f d)"
proof -
  have "distinct (map di_id (dw_items d))" using assms(1) by (simp add: work_ok_def rail_ok_def)
  from flights_same [OF this assms(2,4,5)] show ?thesis using assms(1,3) by (simp add: work_ok_def)
qed

text \<open>A lease is handed in and its item leaves the rail, is changed, or stays because the session is over.\<close>

lemma hand_in_moves:
  assumes "work_ok k log d" "gives_back give fine" "hand_in give fine work_id d = (r, d')"
  shows "dw_items d' = dw_items d" "dw_progress d' = dw_progress d" "is_running (dw_coordinator d') = is_running (dw_coordinator d)"
    and "r \<longleftrightarrow> work_id \<in> fst ` set (dw_leases d) \<and> is_running (dw_coordinator d)"
    and "work_id \<notin> di_id ` set (dw_items d) \<Longrightarrow> work_ok k log d'"
    and "\<not> is_running (dw_coordinator d) \<Longrightarrow> work_ok k log d'"
    and "i < length (dw_items d) \<Longrightarrow> di_id (dw_items d ! i) = work_id \<Longrightarrow> work_ok k log (remove_item i d')"
    and "i < length (dw_items d) \<Longrightarrow> di_id (dw_items d ! i) = work_id \<Longrightarrow> flight (f (dw_items d ! i)) = {} \<Longrightarrow>
      di_id (f (dw_items d ! i)) = work_id \<Longrightarrow> rail_ok log (update_item i f d) \<Longrightarrow> work_ok k log (update_item i f d')"
proof -
  note ok = assms(1) [unfolded work_ok_def]
  have so: "session_ok k (dw_coordinator d)" and lo: "lease_ok (flights (dw_items d)) (dw_leases d) (dw_coordinator d)"
    using ok by blast+
  obtain ls s where
    d': "d' = d\<lparr>dw_leases := ls, dw_coordinator := s\<rparr>" and s: "session_ok k s" "is_running s = is_running (dw_coordinator d)"
    and l: "lease_ok (without work_id (flights (dw_items d))) ls s" "\<not> is_running s \<Longrightarrow> lease_ok (flights (dw_items d)) ls s"
    and r: "r \<longleftrightarrow> work_id \<in> fst ` set (dw_leases d) \<and> is_running s"
    by (rule hand_in_effect [OF assms(2) so lo assms(3)]) blast
  have rail: "rail_ok log d" "rail_ok log d'" and dist: "distinct (map di_id (dw_items d))"
    using ok d' by (simp_all add: rail_ok_def)
  show "dw_items d' = dw_items d" "dw_progress d' = dw_progress d" "is_running (dw_coordinator d') = is_running (dw_coordinator d)"
    "r \<longleftrightarrow> work_id \<in> fst ` set (dw_leases d) \<and> is_running (dw_coordinator d)"
    using d' s r by simp_all
  show "work_ok k log d'" if "work_id \<notin> di_id ` set (dw_items d)"
  proof -
    have "{x \<in> set (dw_items d). di_id x \<noteq> work_id} = set (dw_items d)" using that by auto
    then have "without work_id (flights (dw_items d)) = flights (dw_items d)" by (simp add: flights_def without_flights)
    then show ?thesis using ok rail s l d' by (simp add: work_ok_def)
  qed
  show "work_ok k log d'" if "\<not> is_running (dw_coordinator d)"
    using that ok rail s l(2) d' by (simp add: work_ok_def)
  show "work_ok k log (remove_item i d')" if "i < length (dw_items d)" "di_id (dw_items d ! i) = work_id"
    using that ok rail_ok_remove [OF rail(2)] s l(1) d' flights_remove_at [OF dist that(1)] by (simp add: work_ok_def)
  show "work_ok k log (update_item i f d')"
    if "i < length (dw_items d)" "di_id (dw_items d ! i) = work_id" "flight (f (dw_items d ! i)) = {}"
      "di_id (f (dw_items d ! i)) = work_id" "rail_ok log (update_item i f d)"
    using that ok s l(1) d' flights_update [OF dist that(1), of "f (dw_items d ! i)"]
    by (simp add: work_ok_def rail_ok_def)
qed

lemmas finish_moves = hand_in_moves [OF _ finish_gives_back, folded finish_lease_hand_in]
lemmas requeue_moves = hand_in_moves [OF _ requeue_gives_back, folded requeue_lease_hand_in]

lemma work_position_Some:
  assumes "work_position work_id d = Some i"
  shows "i < length (dw_items d)" "di_id (dw_items d ! i) = work_id"
  using position_Some [OF assms [unfolded work_position_def]] by simp_all

lemma work_position_None: "work_position work_id d = None \<longleftrightarrow> work_id \<notin> di_id ` set (dw_items d)"
  by (auto simp: work_position_def position_None)

lemma flight_leased:
  assumes "work_ok k log d" "is_running (dw_coordinator d)" "i < length (dw_items d)" "flight (dw_items d ! i) \<noteq> {}"
  shows "di_id (dw_items d ! i) \<in> fst ` set (dw_leases d)"
proof -
  obtain f where f: "f \<in> flight (dw_items d ! i)" using assms(4) by blast
  then have "f \<in> flights (dw_items d)" using assms(3) by (auto simp: flights_def)
  then have "fst f \<in> fst ` set (dw_leases d)" using assms(1,2) by (auto simp: work_ok_def lease_ok_def)
  then show ?thesis using fst_flight [OF f] by simp
qed

lemma own_lease:
  assumes "work_ok k log d" "is_running (dw_coordinator d)" "item \<in> set (dw_items d)" "(di_id item, l) \<in> set (dw_leases d)"
  shows "l \<in> active_leases (dw_coordinator d)" "(di_id item, wk_kind (wl_key l), wk_path (wl_key l)) \<in> flight item"
proof -
  have ok: "lease_ok (flights (dw_items d)) (dw_leases d) (dw_coordinator d)" "distinct (map di_id (dw_items d))"
    using assms(1) by (simp_all add: work_ok_def rail_ok_def)
  show "l \<in> active_leases (dw_coordinator d)" using ok(1) assms(2,4) by (force simp: lease_ok_def actor.backed_def)
  have "(di_id item, wk_kind (wl_key l), wk_path (wl_key l)) \<in> flights (dw_items d)" using ok(1) assms(4) by (force simp: lease_ok_def)
  then obtain x where x: "x \<in> set (dw_items d)" "(di_id item, wk_kind (wl_key l), wk_path (wl_key l)) \<in> flight x"
    by (auto simp: flights_def)
  have "x = item" using fst_flight [OF x(2)] x(1) assms(3) ok(2) by (metis distinct_map fst_conv inj_onD)
  then show "(di_id item, wk_kind (wl_key l), wk_path (wl_key l)) \<in> flight item" using x(2) by simp
qed

section \<open>Calls\<close>

lemma flight_empty [simp]: "flight x = {} \<longleftrightarrow> \<not> is_planning (di_stage x) \<and> \<not> is_executing (di_stage x)"
  by (simp add: flight_def)

lemma stage_simps [simp]:
  "is_planning Planning" "is_planning CancellingPlanning" "\<not> is_planning QueuedExecution" "\<not> is_planning (Executing n p)"
  "\<not> is_planning (QueuedPlanning t g m)" "\<not> is_planning (AwaitingConfirmation t g m)" "\<not> is_planning (Confirming g m)"
  "is_executing (Executing n p)" "\<not> is_executing Planning" "\<not> is_executing CancellingPlanning" "\<not> is_executing QueuedExecution"
  "\<not> is_executing (QueuedPlanning t g m)" "\<not> is_executing (AwaitingConfirmation t g m)" "\<not> is_executing (Confirming g m)"
  by (simp_all add: is_planning_def is_executing_def)

lemma stage_cases_simps:
  "is_awaiting st \<longleftrightarrow> (\<exists>t g m. st = AwaitingConfirmation t g m)" "is_confirming st \<longleftrightarrow> (\<exists>g m. st = Confirming g m)"
  "is_queued_planning st \<longleftrightarrow> (\<exists>t g m. st = QueuedPlanning t g m)" "is_executing st \<longleftrightarrow> (\<exists>n p. st = Executing n p)"
  by (auto simp: is_awaiting_def is_confirming_def is_queued_planning_def is_executing_def split: deletion_work_stage.splits)

lemma finish_stage_ok:
  assumes "work_ok k log d" "\<And>st. accepts st \<Longrightarrow> is_planning st \<or> is_executing st"
  shows "work_ok k log (snd (finish_stage accepts work_id completion d))"
proof (cases "work_position work_id d")
  case (Some i)
  note i = work_position_Some [OF Some]
  show ?thesis
  proof (cases "accepts (di_stage (dw_items d ! i))")
    case True
    obtain r d' where f: "finish_lease work_id completion d = (r, d')" by fastforce
    note mv = finish_moves [OF assms(1) f]
    have "r \<longleftrightarrow> is_running (dw_coordinator d)"
      using mv(4) flight_leased [OF assms(1) _ i(1)] assms(2) [OF True] i(2) by auto
    then show ?thesis using Some True f mv(6) mv(7) [OF i] by (simp add: finish_stage_def)
  qed (use assms(1) Some in \<open>simp add: finish_stage_def\<close>)
qed (use assms(1) in \<open>simp add: finish_stage_def\<close>)

lemma finish_stage_accepted:
  assumes "work_ok k log d" "is_running (dw_coordinator d)" "work_position work_id d = Some i"
    and "accepts (di_stage (dw_items d ! i))" "is_planning (di_stage (dw_items d ! i)) \<or> is_executing (di_stage (dw_items d ! i))"
  shows "fst (finish_stage accepts work_id completion d)"
    "dw_items (snd (finish_stage accepts work_id completion d)) = remove_at i (dw_items d)"
proof -
  note i = work_position_Some [OF assms(3)]
  obtain r d' where f: "finish_lease work_id completion d = (r, d')" by fastforce
  note mv = finish_moves [OF assms(1) f]
  have "r" using mv(4) flight_leased [OF assms(1,2) i(1)] assms(2,5) i(2) by auto
  then show "fst (finish_stage accepts work_id completion d)"
    "dw_items (snd (finish_stage accepts work_id completion d)) = remove_at i (dw_items d)"
    using assms(3,4) f mv(1) by (simp_all add: finish_stage_def)
qed

lemma planning_succeeded_ok:
  assumes "work_ok k log d"
  shows "work_ok k log (snd (planning_succeeded work_id plan d))"
proof (cases "work_position work_id d")
  case (Some i)
  note i = work_position_Some [OF Some]
  have rail: "rail_ok log d" using assms by (simp add: work_ok_def)
  have gone: "work_ok k log (remove_item i (snd (finish_lease work_id completion d)))" for completion
    using finish_moves(7) [OF assms _ i, of completion] by (metis prod.collapse)
  show ?thesis
  proof (cases "di_stage (dw_items d ! i) = Planning \<and> di_path (dw_items d ! i) = full_path (dp_target plan)")
    case True
    obtain r d' where f: "finish_lease work_id Succeeded d = (r, d')" by fastforce
    let ?f = "\<lambda>item. item\<lparr>di_plan := Some plan, di_stage := QueuedExecution\<rparr>"
    have "item_ok log (length (dw_progress d)) (?f (dw_items d ! i))"
      using rail_ok_item [OF rail i(1)] True by (simp add: item_ok_def confirmed_def)
    then have "rail_ok log (update_item i ?f d)" by (intro rail_ok_update [OF rail i(1) refl]) simp_all
    then have "work_ok k log (update_item i ?f d')" using finish_moves(8) [OF assms f i, of ?f] i(2) by simp
    then show ?thesis using Some True f gone [of Succeeded] by (cases r) (simp_all add: planning_succeeded_def)
  next
    case False
    then show ?thesis using gone Some by (auto simp: planning_succeeded_def Let_def)
  qed
qed (use assms in \<open>simp add: planning_succeeded_def\<close>)

lemma take_next_confirmation_ok:
  assumes "work_ok k log d"
  shows "work_ok k log (snd (take_next_confirmation d))"
proof (cases "position (\<lambda>item. is_awaiting (di_stage item)) (dw_items d)")
  case (Some i)
  note i = position_Some [OF Some]
  then obtain t g m where st: "di_stage (dw_items d ! i) = AwaitingConfirmation t g m" by (auto simp: stage_cases_simps)
  have rail: "rail_ok log d" using assms by (simp add: work_ok_def)
  have "rail_ok log (update_item i (\<lambda>item. item\<lparr>di_stage := Confirming g m\<rparr>) d)"
    using i by (intro rail_ok_update [OF rail _ refl]) (simp_all add: item_ok_def)
  then have "work_ok k log (update_item i (\<lambda>item. item\<lparr>di_stage := Confirming g m\<rparr>) d)"
    using i st by (intro update_keeps [OF assms]) (simp_all add: flight_def)
  then show ?thesis using Some st by (simp add: take_next_confirmation_def)
qed (use assms in \<open>simp add: take_next_confirmation_def\<close>)

text \<open>Both answers to a confirmation: the item keeps its path, and a confirmed one is in the log.\<close>

lemma answer_confirmation:
  assumes "work_ok k log d" "i < length (dw_items d)" "di_stage (dw_items d ! i) = Confirming g m"
    and "\<not> is_planning st" "\<not> is_executing st" "item_ok (log @ es) (length (dw_progress d)) ((dw_items d ! i)\<lparr>di_confirmed_at := at, di_stage := st\<rparr>)"
  shows "work_ok k (log @ es) (update_item i (\<lambda>item. item\<lparr>di_confirmed_at := at, di_stage := st\<rparr>) d)"
proof -
  have w: "work_ok k (log @ es) d" by (rule work_ok_log [OF assms(1)])
  then have "rail_ok (log @ es) d" by (simp add: work_ok_def)
  then have "rail_ok (log @ es) (update_item i (\<lambda>item. item\<lparr>di_confirmed_at := at, di_stage := st\<rparr>) d)"
    using assms by (intro rail_ok_update [OF _ assms(2) refl]) simp_all
  then show ?thesis using assms(2-5) by (intro update_keeps [OF w]) (simp_all add: flight_def)
qed

lemma return_confirmation_ok:
  assumes "work_ok k log d"
  shows "work_ok k log (snd (return_confirmation work_id target d))"
proof (cases "work_position work_id d")
  case (Some i)
  note i = work_position_Some [OF Some]
  then show ?thesis
    using assms Some answer_confirmation [OF assms i(1), where es = "[]" and at = None]
    by (auto simp: return_confirmation_def item_ok_def split: deletion_work_stage.split)
qed (use assms in \<open>simp add: return_confirmation_def\<close>)

lemma queue_confirmation_ok:
  assumes "work_ok k log d" "queue_confirmation work_id target now d = (r, d')"
  shows "work_ok k (log @ (if r then [Confirmed work_id (full_path target)] else [])) d'"
proof (cases "work_position work_id d")
  case (Some i)
  note i = work_position_Some [OF Some]
  then show ?thesis
    using assms Some answer_confirmation [OF assms(1) i(1), where es = "[Confirmed work_id (full_path target)]" and at = "Some now"]
    by (auto simp: queue_confirmation_def item_ok_def confirmed_def split: deletion_work_stage.splits if_splits)
qed (use assms in \<open>simp add: queue_confirmation_def\<close>)

lemma cancel_modal_ok:
  assumes "work_ok k log d"
  shows "work_ok k log (snd (cancel_modal work_id d))"
proof (cases "work_position work_id d")
  case (Some i)
  note i = work_position_Some [OF Some]
  have rail: "rail_ok log d" using assms by (simp add: work_ok_def)
  show ?thesis
  proof (cases "di_stage (dw_items d ! i) = Planning")
    case True
    have "item_ok log (length (dw_progress d)) ((dw_items d ! i)\<lparr>di_stage := CancellingPlanning\<rparr>)"
      using rail_ok_item [OF rail i(1)] True by (simp add: item_ok_def confirmed_def)
    then have "rail_ok log (update_item i (\<lambda>item. item\<lparr>di_stage := CancellingPlanning\<rparr>) d)"
      using True by (intro rail_ok_update [OF rail i(1) refl]) simp_all
    then have "work_ok k log (update_item i (\<lambda>item. item\<lparr>di_stage := CancellingPlanning\<rparr>) d)"
      using True by (intro update_keeps [OF assms i(1)]) (simp_all add: flight_def)
    then show ?thesis using Some True by (simp add: cancel_modal_def)
  next
    case False
    then show ?thesis
      using Some assms remove_grounded [OF assms i(1)]
      by (auto simp: cancel_modal_def Let_def stage_cases_simps)
  qed
qed (use assms in \<open>simp add: cancel_modal_def\<close>)

text \<open>\<open>cancel_pending\<close> without its loop.\<close>

definition cancelled_item :: "deletion_work_item \<Rightarrow> deletion_work_item" where
  "cancelled_item item = (if di_stage item = Planning then item\<lparr>di_stage := CancellingPlanning\<rparr> else item)"

lemma start_cancelling_eq:
  assumes "distinct (map di_id (dw_items d))"
  shows "start_cancelling work_id d =
    d\<lparr>dw_items := map (\<lambda>x. if di_id x = work_id then x\<lparr>di_stage := CancellingPlanning\<rparr> else x) (dw_items d)\<rparr>"
proof (cases "work_position work_id d")
  case None
  then have "map (\<lambda>x. if di_id x = work_id then x\<lparr>di_stage := CancellingPlanning\<rparr> else x) (dw_items d) = dw_items d"
    by (auto simp: work_position_None intro!: map_idI)
  then show ?thesis using None by (simp add: start_cancelling_def)
next
  case (Some i)
  note i = work_position_Some [OF Some]
  have "(dw_items d)[i := (dw_items d ! i)\<lparr>di_stage := CancellingPlanning\<rparr>] =
      map (\<lambda>x. if di_id x = work_id then x\<lparr>di_stage := CancellingPlanning\<rparr> else x) (dw_items d)"
    (is "?l = map ?g _")
  proof (rule nth_equalityI)
    fix j
    assume j: "j < length ?l"
    have "di_id (dw_items d ! j) \<noteq> work_id" if "j \<noteq> i"
      using that position_the [OF assms Some [unfolded work_position_def], of j] j by auto
    then show "?l ! j = map ?g (dw_items d) ! j" using i j by (cases "j = i") simp_all
  qed simp
  then show ?thesis using Some by (simp add: start_cancelling_def update_item_def)
qed

lemma start_cancelling_fold:
  assumes "distinct (map di_id (dw_items d))"
  shows "fold start_cancelling ids d =
    d\<lparr>dw_items := map (\<lambda>x. if di_id x \<in> set ids then x\<lparr>di_stage := CancellingPlanning\<rparr> else x) (dw_items d)\<rparr>"
  using assms
proof (induction ids arbitrary: d)
  case (Cons a ids)
  let ?d = "start_cancelling a d"
  have eq: "?d = d\<lparr>dw_items := map (\<lambda>x. if di_id x = a then x\<lparr>di_stage := CancellingPlanning\<rparr> else x) (dw_items d)\<rparr>"
    by (rule start_cancelling_eq [OF Cons.prems])
  have "map di_id (dw_items ?d) = map di_id (dw_items d)" by (simp add: eq)
  then have "distinct (map di_id (dw_items ?d))" using Cons.prems by simp
  from Cons.IH [OF this] show ?case by (auto simp: eq intro!: map_cong)
qed simp

lemma cancel_pending_eq:
  assumes "distinct (map di_id (dw_items d))"
  shows "snd (cancel_pending d) =
    d\<lparr>dw_items := map cancelled_item (filter (\<lambda>item. is_planning (di_stage item) \<or> is_executing (di_stage item)) (dw_items d))\<rparr>"
proof -
  let ?ids = "map di_id (filter (\<lambda>item. di_stage item = Planning) (dw_items d))"
  have "di_id x \<in> set ?ids \<longleftrightarrow> di_stage x = Planning" if "x \<in> set (dw_items d)" for x
    using that assms by (auto simp: distinct_map dest: inj_onD)
  then have "map (\<lambda>x. if di_id x \<in> set ?ids then x\<lparr>di_stage := CancellingPlanning\<rparr> else x) (dw_items d) = map cancelled_item (dw_items d)"
    by (auto simp: cancelled_item_def intro!: map_cong)
  then have "fold start_cancelling ?ids d = d\<lparr>dw_items := map cancelled_item (dw_items d)\<rparr>"
    by (simp only: start_cancelling_fold [OF assms])
  moreover have "filter (\<lambda>item. is_executing (di_stage item) \<or> di_stage item = CancellingPlanning) (map cancelled_item xs) =
      map cancelled_item (filter (\<lambda>item. is_planning (di_stage item) \<or> is_executing (di_stage item)) xs)" for xs
    by (induction xs) (auto simp: cancelled_item_def is_planning_def)
  ultimately show ?thesis by (simp add: cancel_pending_def Let_def)
qed

lemma cancelled_item_simps [simp]:
  "di_id (cancelled_item x) = di_id x" "di_path (cancelled_item x) = di_path x"
  "is_planning (di_stage (cancelled_item x)) = is_planning (di_stage x)"
  "is_executing (di_stage (cancelled_item x)) = is_executing (di_stage x)"
  "flight (cancelled_item x) = flight x" "item_ok log n x \<Longrightarrow> item_ok log n (cancelled_item x)"
  by (auto simp: cancelled_item_def flight_def item_ok_def confirmed_def)

lemma rail_ok_cancelled:
  assumes "rail_ok log d"
  shows "rail_ok log (d\<lparr>dw_items := map cancelled_item (dw_items d)\<rparr>)"
proof -
  have "map di_id (map cancelled_item (dw_items d)) = map di_id (dw_items d)" by simp
  moreover have "sorted_wrt apart (map cancelled_item (dw_items d)) = sorted_wrt apart (dw_items d)"
    by (simp add: sorted_wrt_map apart_def [abs_def])
  moreover have "at_most_one P (map cancelled_item (dw_items d)) = at_most_one P (dw_items d)" if "P = is_planning \<or> P = is_executing" for P
    using that by (auto simp: at_most_one_def filter_map o_def)
  ultimately show ?thesis using assms by (auto simp: rail_ok_def simp del: map_map)
qed

lemma cancel_pending_ok:
  assumes "work_ok k log d"
  shows "work_ok k log (snd (cancel_pending d))"
proof -
  let ?P = "\<lambda>item. is_planning (di_stage item) \<or> is_executing (di_stage item)"
  have rail: "rail_ok log d" using assms by (simp add: work_ok_def)
  have "rail_ok log (d\<lparr>dw_items := filter ?P (dw_items d)\<rparr>)" by (rule rail_ok_subseq [OF rail subseq_filter_left])
  from rail_ok_cancelled [OF this] have "rail_ok log (snd (cancel_pending d))"
    by (simp add: cancel_pending_eq [OF rail_ok_distinct [OF rail]])
  moreover have "flights (map cancelled_item (filter ?P xs)) = flights xs" for xs
    by (induction xs) (simp_all add: flights_def flight_empty [THEN iffD2])
  ultimately show ?thesis using assms by (simp add: work_ok_def cancel_pending_eq [OF rail_ok_distinct [OF rail]])
qed

lemma discard_ok:
  assumes "work_ok k log d"
  shows "work_ok k log (snd (discard work_id d))"
proof -
  obtain r d' where f: "finish_lease work_id Cancelled d = (r, d')" by fastforce
  note mv = finish_moves [OF assms f]
  have "work_position work_id d' = work_position work_id d" using mv(1) by (simp add: work_position_def)
  then have eq: "snd (discard work_id d) = (case work_position work_id d of None \<Rightarrow> d' | Some i \<Rightarrow> remove_item i d')"
    using f by (simp add: discard_def remove_if_def split: option.split)
  show ?thesis
  proof (cases "work_position work_id d")
    case None
    then show ?thesis using eq mv(5) work_position_None [of work_id d] by simp
  next
    case (Some i)
    then show ?thesis using eq mv(7) [OF work_position_Some [OF Some]] by simp
  qed
qed

lemma discard_cancelled_event_ok:
  assumes "work_ok k log d"
  shows "work_ok k log (discard_cancelled_event work_id d)"
proof -
  obtain r d' where f: "finish_lease work_id Cancelled d = (r, d')" by fastforce
  have "work_ok k log d'" if "\<not> (\<exists>item \<in> set (dw_items d). di_id item = work_id)"
    by (rule finish_moves(5) [OF assms f]) (use that in blast)
  then show ?thesis using assms f by (simp add: discard_cancelled_event_def)
qed

lemma lane_effect_ok:
  assumes "work_ok k log d"
  shows "work_ok k log (lane_effect c d)"
proof -
  have "work_ok k log (snd (finish_planning work_id completion d))" "work_ok k log (snd (finish_execution work_id completion d))"
    for work_id completion
    unfolding finish_planning_def finish_execution_def by (auto intro: finish_stage_ok [OF assms])
  note this [folded execution_finished_def] this
  then show ?thesis
    using assms
    by (cases c) (simp_all add: planning_succeeded_ok take_next_confirmation_ok return_confirmation_ok cancel_modal_ok
        cancel_pending_ok discard_ok discard_cancelled_event_ok planning_cancelled_def planning_failed_def planning_stale_def
        execution_failed_def execution_stale_def execution_finished_def)
qed

section \<open>Calls that issue identifiers and leases\<close>

lemma next_work_id_new:
  assumes "work_ok (Suc k) log d" "next_work_id d = (work_id, d')"
  shows "d' = d\<lparr>dw_next_id := work_id\<rparr>" "unat work_id = Suc (unat (dw_next_id d))"
proof -
  have small: "Suc (unat (dw_next_id d)) < 2 ^ 64" using assms(1) by (simp add: work_ok_def)
  then have n: "unat (dw_next_id d + 1) = Suc (unat (dw_next_id d))" by (simp add: unat_word_ariths take_bit_nat_eq_self)
  then have "dw_next_id d + 1 \<noteq> 0" by (metis nat.distinct(1) unat_0)
  then show "d' = d\<lparr>dw_next_id := work_id\<rparr>" "unat work_id = Suc (unat (dw_next_id d))"
    using assms(2) n by (auto simp: next_work_id_def Let_def)
qed

lemma enqueue_ok:
  assumes "work_ok (Suc k) log d" "enqueue path target stage1 at bytes d = (r, d')" "\<not> is_planning stage1" "\<not> is_executing stage1"
    and "\<And>work_id relative_path. r = Inr work_id \<Longrightarrow>
      item_ok (log @ es) (length (dw_progress d)) \<lparr>di_id = work_id, di_path = path, di_relative_path = relative_path, di_target = target,
        di_plan = None, di_stage = stage1, di_confirmed_at = at, di_history_bytes = bytes\<rparr>"
  shows "work_ok k (log @ es) d'"
proof (cases r)
  case (Inl e)
  then have "d' = d" using assms(2) by (auto simp: enqueue_def Let_def split: if_splits sum.splits prod.splits)
  then show ?thesis using work_ok_less [OF assms(1)] by (simp add: work_ok_log)
next
  case (Inr work_id)
  note ok = assms(1) [unfolded work_ok_def rail_ok_def]
  obtain rel d1 where q: "next_work_id d = (work_id, d1)"
    "length (dw_items d) < MAX_DELETION_WORK_ITEMS" "\<not> (\<exists>item \<in> set (dw_items d). targets_overlap (di_path item) path)"
    "d' = d1\<lparr>dw_items := dw_items d1 @ [\<lparr>di_id = work_id, di_path = path, di_relative_path = rel, di_target = target,
        di_plan = None, di_stage = stage1, di_confirmed_at = at, di_history_bytes = bytes\<rparr>]\<rparr>"
    using assms(2) Inr by (auto simp: enqueue_def not_le split: if_splits sum.splits prod.splits)
  let ?x = "\<lparr>di_id = work_id, di_path = path, di_relative_path = rel, di_target = target,
        di_plan = None, di_stage = stage1, di_confirmed_at = at, di_history_bytes = bytes\<rparr>"
  note new = next_work_id_new [OF assms(1) q(1)]
  have d': "d' = d\<lparr>dw_next_id := work_id, dw_items := dw_items d @ [?x]\<rparr>" using q(4) new(1) by simp
  have below: "di_id item < work_id" if "item \<in> set (dw_items d)" for item
    using that ok new(2) by (auto simp: word_le_nat_alt word_less_nat_alt less_Suc_eq_le)
  have "0 < work_id" using new(2) by (simp add: word_less_nat_alt)
  moreover have "distinct (map di_id (dw_items d @ [?x]))" using ok below by force
  moreover have "sorted_wrt apart (dw_items d @ [?x])" using ok q(3) by (auto simp: sorted_wrt_append apart_def)
  moreover have "item_ok (log @ es) (length (dw_progress d)) ?x" by (rule assms(5) [OF Inr])
  ultimately have "rail_ok (log @ es) d'"
    using ok below q(2) assms(3,4) item_ok_mono [OF _ order_refl, of log "length (dw_progress d)" _ es]
    by (auto simp: d' rail_ok_def at_most_one_def less_imp_le)
  moreover have "flights (dw_items d @ [?x]) = flights (dw_items d)" using assms(3,4) by (simp add: flights_def flight_def)
  ultimately show ?thesis
    using work_ok_less [OF assms(1)] ok new(2) by (simp add: work_ok_def d')
qed

lemma enqueue_confirmation_ok:
  assumes "work_ok (Suc k) log d" "enqueue_confirmation target g m now d = (r, d')"
  shows "work_ok k (log @ logged_enqueue target g r) d'"
proof -
  let ?st = "if g then QueuedPlanning target g m else AwaitingConfirmation target g m"
  have e: "enqueue (full_path target) (Some (display_copy target)) ?st (if g then Some now else None) m d = (r, d')"
    using assms(2) by (simp add: enqueue_confirmation_def Let_def)
  show ?thesis
    by (rule enqueue_ok [OF assms(1) e]) (auto simp: item_ok_def confirmed_def logged_enqueue_def)
qed

lemma grounded_id:
  assumes "rail_ok log d" "i < length (dw_items d)" "flight (dw_items d ! i) = {}"
  shows "di_id (dw_items d ! i) \<notin> fst ` flights (dw_items d)"
proof
  assume "di_id (dw_items d ! i) \<in> fst ` flights (dw_items d)"
  then obtain f where f: "f \<in> flights (dw_items d)" "di_id (dw_items d ! i) = fst f" by (rule imageE)
  have "f \<in> without (di_id (dw_items d ! i)) (flights (dw_items d))"
    by (subst without_grounded [OF rail_ok_distinct [OF assms(1)] assms(2,3)]) (rule f(1))
  then show False using f(2) by (simp add: without_def)
qed

lemma flights_launch:
  assumes "rail_ok log d" "i < length (dw_items d)" "flight (dw_items d ! i) = {}" "di_id x = di_id (dw_items d ! i)"
  shows "flights ((dw_items d)[i := x]) = flights (dw_items d) \<union> flight x"
  using flights_update [OF rail_ok_distinct [OF assms(1)] assms(2,4)] without_grounded [OF rail_ok_distinct [OF assms(1)] assms(2,3)] assms(4)
  by simp

text \<open>What holds of a command just issued.\<close>

definition issued_ok :: "lane_event list \<Rightarrow> deletion_work \<Rightarrow> deletion_work_command option \<Rightarrow> bool" where
  "issued_ok log d r =
     (case r of None \<Rightarrow> True
      | Some cmd \<Rightarrow> offered_ok d cmd \<and> Confirmed (cmd_work_id cmd) (full_path (cmd_target cmd)) \<in> set log)"

lemma next_planning_command_ok:
  assumes "work_ok (Suc k) log d" "next_planning_command d = (r, d')"
  shows "work_ok k log d' \<and> issued_ok log d' r"
proof (cases "(\<exists>item \<in> set (dw_items d). is_planning (di_stage item)) \<or>
    position (\<lambda>item. is_queued_planning (di_stage item)) (dw_items d) = None")
  case True
  then have "d' = d" "r = None" using assms(2) by (auto simp: next_planning_command_def split: if_splits)
  then show ?thesis using work_ok_less [OF assms(1)] by (simp add: issued_ok_def)
next
  case False
  then obtain i where pos: "position (\<lambda>item. is_queued_planning (di_stage item)) (dw_items d) = Some i"
    and none: "\<not> (\<exists>item \<in> set (dw_items d). is_planning (di_stage item))" by auto
  note ok = assms(1) [unfolded work_ok_def] and i = position_Some [OF pos]
  let ?item = "dw_items d ! i"
  obtain t g m where st: "di_stage ?item = QueuedPlanning t g m" using i by (auto simp: stage_cases_simps)
  let ?f = "\<lambda>item. item\<lparr>di_stage := Planning, di_target := Some (display_copy t)\<rparr>"
  have rail: "rail_ok log d" using ok by blast
  have item: "full_path t = di_path ?item" "confirmed log ?item"
    using rail_ok_item [OF rail, of i] i st by (simp_all add: item_ok_def)
  obtain q d1 where acq: "acquire_lease PlanDeletion (di_relative_path ?item) Foreground d = (q, d1)" by fastforce
  obtain s where s: "d1 = d\<lparr>dw_coordinator := s\<rparr>" "session_ok k s"
    "case q of None \<Rightarrow> lease_ok (flights (dw_items d)) (dw_leases d) s
     | Some l \<Rightarrow> di_id ?item \<notin> fst ` flights (dw_items d) \<longrightarrow>
         remember_lease (di_id ?item) l d1 = d1\<lparr>dw_leases := dw_leases d @ [(di_id ?item, l)]\<rparr> \<and>
         lease_ok (insert (di_id ?item, PlanDeletion, di_relative_path ?item) (flights (dw_items d))) (dw_leases d @ [(di_id ?item, l)]) s"
    by (rule acquire_lease_effect [OF _ _ acq, where k = k and F = "flights (dw_items d)" and work_id = "di_id ?item"])
      (use ok in blast)+
  show ?thesis
  proof (cases q)
    case None
    then have "d' = d1" "r = None" using assms(2) pos none acq by (simp_all add: next_planning_command_def)
    then show ?thesis using ok rail s None by (simp add: work_ok_def issued_ok_def)
  next
    case (Some l)
    have up: "rail_ok log (update_item i ?f d)"
      using i item none by (intro rail_ok_update [OF rail _ refl]) (simp_all add: item_ok_def confirmed_def)
    have fl: "flights ((dw_items d)[i := ?f ?item]) = insert (di_id ?item, PlanDeletion, di_relative_path ?item) (flights (dw_items d))"
      using flights_launch [OF rail, of i "?f ?item"] i st by (simp add: flight_def)
    have "di_id ?item \<notin> fst ` flights (dw_items d)" using grounded_id [OF rail] i st by simp
    then have l: "remember_lease (di_id ?item) l d1 = d1\<lparr>dw_leases := dw_leases d @ [(di_id ?item, l)]\<rparr>"
      "lease_ok (insert (di_id ?item, PlanDeletion, di_relative_path ?item) (flights (dw_items d))) (dw_leases d @ [(di_id ?item, l)]) s"
      using s(3) Some by simp_all
    have rem: "remember_lease (di_id ?item) l (update_item i ?f d1) = update_item i ?f (remember_lease (di_id ?item) l d1)"
      by (simp add: remember_lease_def update_item_def split: option.split)
    have r: "r = Some (PlanCommand (di_id ?item) t g m)"
      and d': "d' = update_item i ?f (d\<lparr>dw_coordinator := s, dw_leases := dw_leases d @ [(di_id ?item, l)]\<rparr>)"
      using assms(2) pos none acq Some st rem l(1) s(1) by (simp_all add: next_planning_command_def Let_def)
    have "rail_ok log d'" using up by (subst rail_ok_cong [of d' "update_item i ?f d"]) (simp_all add: d')
    then have "work_ok k log d'" using ok s(2) l(2) fl by (simp add: d' work_ok_def)
    moreover have "offered_ok d' (PlanCommand (di_id ?item) t g m)"
      using i item by (auto simp: offered_ok_def d' intro!: bexI [OF _ set_update_memI])
    ultimately show ?thesis using item by (simp add: issued_ok_def r confirmed_def)
  qed
qed

lemma next_execution_command_ok:
  assumes "work_ok (Suc k) log d" "next_execution_command d = (r, d')"
  shows "work_ok k log d' \<and> issued_ok log d' r"
proof (cases "(\<exists>item \<in> set (dw_items d). is_executing (di_stage item)) \<or>
    position (\<lambda>item. di_stage item = QueuedExecution) (dw_items d) = None")
  case True
  then have "d' = d" "r = None" using assms(2) by (auto simp: next_execution_command_def split: if_splits)
  then show ?thesis using work_ok_less [OF assms(1)] by (simp add: issued_ok_def)
next
  case False
  then obtain i where pos: "position (\<lambda>item. di_stage item = QueuedExecution) (dw_items d) = Some i"
    and none: "\<not> (\<exists>item \<in> set (dw_items d). is_executing (di_stage item))" by auto
  note ok = assms(1) [unfolded work_ok_def] and i = position_Some [OF pos]
  let ?item = "dw_items d ! i" and ?n = "length (dw_progress d)"
  have rail: "rail_ok log d" using ok by blast
  obtain plan where item: "di_plan ?item = Some plan" "full_path (dp_target plan) = di_path ?item" "confirmed log ?item"
    using rail_ok_item [OF rail, of i] i by (auto simp: item_ok_def split: option.splits)
  let ?f = "\<lambda>item. item\<lparr>di_plan := None, di_stage := Executing (dp_planned_entries plan) ?n\<rparr>"
  let ?d = "d\<lparr>dw_progress := dw_progress d @ [progress_new]\<rparr>"
  obtain q d1 where acq: "acquire_lease ExecuteDeletion (di_relative_path ?item) Safety d = (q, d1)" by fastforce
  obtain s where s: "d1 = d\<lparr>dw_coordinator := s\<rparr>" "session_ok k s"
    "case q of None \<Rightarrow> lease_ok (flights (dw_items d)) (dw_leases d) s
     | Some l \<Rightarrow> di_id ?item \<notin> fst ` flights (dw_items d) \<longrightarrow>
         remember_lease (di_id ?item) l d1 = d1\<lparr>dw_leases := dw_leases d @ [(di_id ?item, l)]\<rparr> \<and>
         lease_ok (insert (di_id ?item, ExecuteDeletion, di_relative_path ?item) (flights (dw_items d))) (dw_leases d @ [(di_id ?item, l)]) s"
    by (rule acquire_lease_effect [OF _ _ acq, where k = k and F = "flights (dw_items d)" and work_id = "di_id ?item"])
      (use ok in blast)+
  show ?thesis
  proof (cases q)
    case None
    then have "d' = d1" "r = None" using assms(2) pos none acq by (simp_all add: next_execution_command_def)
    then show ?thesis using ok rail s None by (simp add: work_ok_def issued_ok_def)
  next
    case (Some l)
    have up: "rail_ok log (update_item i ?f ?d)"
      using i item none rail_ok_mono [OF rail, of "[]" "[progress_new]"]
      by (intro rail_ok_update [OF _ _ refl]) (simp_all add: item_ok_def confirmed_def)
    have fl: "flights ((dw_items d)[i := ?f ?item]) = insert (di_id ?item, ExecuteDeletion, di_relative_path ?item) (flights (dw_items d))"
      using flights_launch [OF rail, of i "?f ?item"] i by (simp add: flight_def)
    have "di_id ?item \<notin> fst ` flights (dw_items d)" using grounded_id [OF rail] i by simp
    then have l: "remember_lease (di_id ?item) l d1 = d1\<lparr>dw_leases := dw_leases d @ [(di_id ?item, l)]\<rparr>"
      "lease_ok (insert (di_id ?item, ExecuteDeletion, di_relative_path ?item) (flights (dw_items d))) (dw_leases d @ [(di_id ?item, l)]) s"
      using s(3) Some by simp_all
    have r: "r = Some (ExecuteCommand (di_id ?item) plan ?n)"
      and d': "d' = update_item i ?f (d\<lparr>dw_coordinator := s, dw_leases := dw_leases d @ [(di_id ?item, l)], dw_progress := dw_progress d @ [progress_new]\<rparr>)"
      using assms(2) pos none acq Some item i l(1) s(1) by (auto simp add: next_execution_command_def Let_def update_item_def)
    have "rail_ok log d'" using up by (subst rail_ok_cong [of d' "update_item i ?f ?d"]) (simp_all add: d')
    then have "work_ok k log d'" using ok s(2) l(2) fl by (simp add: d' work_ok_def)
    moreover have "offered_ok d' (ExecuteCommand (di_id ?item) plan ?n)"
      using i item by (auto simp: offered_ok_def d' intro!: bexI [OF _ set_update_memI])
    ultimately show ?thesis using item by (simp add: issued_ok_def r confirmed_def)
  qed
qed

lemma restore_unsubmitted_ok:
  assumes "work_ok k log d" "offered_ok d cmd"
  shows "work_ok k log (restore_unsubmitted cmd d)"
proof -
  have rail: "rail_ok log d" using assms(1) by (simp add: work_ok_def)
  obtain item where item: "item \<in> set (dw_items d)" "di_id item = cmd_work_id cmd" "restoreable cmd (di_stage item)"
    "di_path item = full_path (cmd_target cmd)" using assms(2) by (auto simp: offered_ok_def)
  then obtain i where pos: "work_position (cmd_work_id cmd) d = Some i"
    using work_position_None [of "cmd_work_id cmd" d] imageI [OF item(1), of di_id]
    by (cases "work_position (cmd_work_id cmd) d") auto
  note i = work_position_Some [OF pos]
  have at: "dw_items d ! i = item"
    using item(1,2) i rail_ok_distinct [OF rail] by (metis distinct_map inj_onD nth_mem)
  obtain r d' where q: "requeue_lease (cmd_work_id cmd) d = (r, d')" by fastforce
  note mv = requeue_moves [OF assms(1) q]
  have flying: "is_planning (di_stage item) \<or> is_executing (di_stage item)"
    using item(3) by (cases "(cmd, di_stage item)" rule: restoreable.cases) simp_all
  have r: "r \<longleftrightarrow> is_running (dw_coordinator d)"
    using mv(4) flight_leased [OF assms(1) _ i(1)] at flying i(2) by auto
  have new: "\<not> is_planning (di_stage (restored cmd item))" "\<not> is_executing (di_stage (restored cmd item))"
    "di_id (restored cmd item) = di_id item" "di_path (restored cmd item) = di_path item"
    by (cases cmd; simp)+
  have "item_ok log (length (dw_progress d)) item" using rail_ok_item [OF rail i(1)] at by simp
  then have "item_ok log (length (dw_progress d)) (restored cmd item)"
    using item(3,4) by (cases "(cmd, di_stage item)" rule: restoreable.cases) (simp_all add: item_ok_def confirmed_def)
  then have "rail_ok log (update_item i (restored cmd) d)"
    using i at new by (intro rail_ok_update [OF rail _ refl]) simp_all
  then have "work_ok k log (update_item i (restored cmd) d')"
    using mv(8) [OF i, of "restored cmd"] at new item(2) by simp
  then show ?thesis using pos at item(3) q r mv(6) by (cases r) (simp_all add: restore_unsubmitted_def)
qed

section \<open>Reachable lanes\<close>

lemma consent_ok_snoc:
  assumes "consent_ok log" "\<And>cmd. e = Issued cmd \<Longrightarrow> Confirmed (cmd_work_id cmd) (full_path (cmd_target cmd)) \<in> set log"
  shows "consent_ok (log @ [e])"
  unfolding consent_ok_def
proof (intro allI impI)
  fix before cmd later
  assume eq: "log @ [e] = before @ Issued cmd # later"
  show "Confirmed (cmd_work_id cmd) (full_path (cmd_target cmd)) \<in> set before"
  proof (cases later rule: rev_cases)
    case Nil
    then show ?thesis using eq assms(2) by simp
  next
    case (snoc mid x)
    then have "log = before @ Issued cmd # mid" using eq by simp
    then show ?thesis using assms(1) by (simp add: consent_ok_def)
  qed
qed

lemma issued_lane_ok:
  assumes "work_ok k log d \<and> issued_ok log d r" "consent_ok log"
  shows "lane_ok k \<lparr>ln_work = d, ln_offered = r, ln_log = log @ (case r of None \<Rightarrow> [] | Some cmd \<Rightarrow> [Issued cmd])\<rparr>"
  using assms by (cases r) (auto simp: lane_ok_def issued_ok_def work_ok_log intro: consent_ok_snoc)

lemma lane_step_ok:
  assumes "lane_step y z" "lane_ok (Suc k) y"
  shows "lane_ok k z"
  using assms
proof (cases rule: lane_step.cases)
  case (enqueue t g m now d r d' log)
  then show ?thesis
    using assms(2) enqueue_confirmation_ok [of k log d t g m now r d'] consent_ok_snoc [of log]
    by (auto simp: lane_ok_def logged_enqueue_def split: sum.splits)
next
  case (confirm work_id target now d r d' log)
  have "work_ok k (log @ (if r then [Confirmed work_id (full_path target)] else [])) d'"
    by (rule queue_confirmation_ok [OF _ confirm(3)]) (use assms(2) confirm(1) in \<open>simp add: lane_ok_def work_ok_less\<close>)
  then show ?thesis using confirm assms(2) by (auto simp: lane_ok_def intro: consent_ok_snoc)
next
  case (plan d r d' log)
  then show ?thesis using assms(2) issued_lane_ok [OF next_planning_command_ok [of k log d r d']] by (simp add: lane_ok_def)
next
  case (execute d r d' log)
  then show ?thesis using assms(2) issued_lane_ok [OF next_execution_command_ok [of k log d r d']] by (simp add: lane_ok_def)
next
  case (submit d cmd log)
  then show ?thesis using assms(2) by (simp add: lane_ok_def work_ok_less)
next
  case (restore d cmd log)
  then show ?thesis using assms(2) by (simp add: lane_ok_def work_ok_less restore_unsubmitted_ok)
next
  case (call d log c)
  then show ?thesis using assms(2) by (simp add: lane_ok_def work_ok_less lane_effect_ok)
next
  case (other d s o1 log)
  have "session_ok (Suc k) (dw_coordinator d)" "lease_ok (flights (dw_items d)) (dw_leases d) (dw_coordinator d)"
    using assms(2) other(1) by (simp_all add: lane_ok_def work_ok_def)
  moreover note actor.environment_ok [OF this(1) other(3)] actor.backed_environment [of k "dw_coordinator d" "map snd (dw_leases d)" s]
  ultimately have "session_ok k s" "lease_ok (flights (dw_items d)) (dw_leases d) s"
    using other(3) by (auto simp: lease_ok_def)
  then show ?thesis using assms(2) other(1,2) by (simp add: lane_ok_def work_ok_def offered_ok_def split: option.splits)
next
  case (executor ps d o1 log)
  then show ?thesis
    using assms(2) actor.ok_less by (auto simp: lane_ok_def work_ok_def offered_ok_def split: option.splits)
qed

lemma lane_reachable_ok: "lane_reachable k y \<Longrightarrow> lane_ok k y"
proof (induction rule: lane_reachable.induct)
  case (start k s)
  have "actor.backed [] s" by (simp add: actor.backed_def)
  then show ?case
    using start
    by (simp add: lane_ok_def work_ok_def rail_ok_def dw_new_def flights_def lease_ok_def consent_ok_def at_most_one_def)
qed (rule lane_step_ok)

end
