(* ===== verification/Deletion_Theorems.thy ===== *)
theory Deletion_Theorems
  imports Deletion_Lane
begin

text \<open>
  The properties of the deletion lane, with a lane that has one confirmed target and a started planner as
  the run that witnesses their hypotheses.
\<close>

section \<open>A concrete lane\<close>

definition ex_target :: file_to_delete where
  "ex_target = \<lparr>fd_node_id = 7, fd_synthetic = False, fd_path_in_filesystem = [[114]], fd_path_to_file = [[97]], fd_file_type = TypeFile,
     fd_num_descendants = None, fd_size = 5,
     fd_expected_snapshot = \<lparr>es_identity = None, es_kind = NodeFile, es_apparent_bytes = 5, es_allocated_bytes = None, es_modified_nanos = None\<rparr>,
     fd_reviewed_entries = []\<rparr>"

definition ex_new :: deletion_work where
  "ex_new = dw_new (Some (sc_new [] 0))"

definition ex_confirmed :: deletion_work where
  "ex_confirmed = snd (enqueue_confirmation ex_target True 100 3 ex_new)"

definition ex_planning :: deletion_work where
  "ex_planning = snd (next_planning_command ex_confirmed)"

definition ex_lane :: lane where
  "ex_lane = \<lparr>ln_work = ex_planning, ln_offered = Some (PlanCommand 1 ex_target True 100),
     ln_log = [Confirmed 1 [[114], [97]], Issued (PlanCommand 1 ex_target True 100)]\<rparr>"

lemma acquire_fresh:
  "acquire_work PlanDeletion path Foreground (sc_new session generation) =
     (Some \<lparr>wl_id = 0, wl_key = WorkKey session generation PlanDeletion path, wl_priority = Foreground, wl_focused = False\<rparr>,
      snd (acquire_work PlanDeletion path Foreground (sc_new session generation)))"
  by (simp add: acquire_work_def schedule_def lease_exact_def lease_queued_def enqueue_pending_def normalized_priority_def
      sc_new_def Let_def om_get_def om_insert_def om_remove_def)

lemma ex_full_path: "full_path ex_target = [[114], [97]]"
  by (simp add: full_path_def ex_target_def)

lemma ex_enqueue: "enqueue_confirmation ex_target True 100 3 ex_new =
   (Inr 1, \<lparr>dw_items = [\<lparr>di_id = 1, di_path = [[114], [97]], di_relative_path = [[97]], di_target = Some ex_target, di_plan = None,
      di_stage = QueuedPlanning ex_target True 100, di_confirmed_at = Some 3, di_history_bytes = 100\<rparr>],
      dw_coordinator = Some (sc_new [] 0), dw_leases = [], dw_next_id = 1, dw_progress = []\<rparr>)"
proof -
  have "from_components [[97]] = (Inr [[97]] :: (relative_path_error, relative_path) res)" by code_simp
  then show ?thesis
    by (simp add: enqueue_confirmation_def enqueue_def ex_new_def dw_new_def MAX_DELETION_WORK_ITEMS_def next_work_id_def
        display_copy_def full_path_def ex_target_def Let_def)
qed

lemma ex_plan: "next_planning_command ex_confirmed = (Some (PlanCommand 1 ex_target True 100), ex_planning)"
  "dw_items ex_planning = [\<lparr>di_id = 1, di_path = [[114], [97]], di_relative_path = [[97]], di_target = Some (display_copy ex_target), di_plan = None,
      di_stage = Planning, di_confirmed_at = Some 3, di_history_bytes = 100\<rparr>]"
  "is_running (dw_coordinator ex_planning)"
proof -
  obtain c where "acquire_work PlanDeletion [[97]] Foreground (sc_new [] 0) =
     (Some \<lparr>wl_id = 0, wl_key = WorkKey [] 0 PlanDeletion [[97]], wl_priority = Foreground, wl_focused = False\<rparr>, c)"
    using acquire_fresh [of "[[97]]" "[]" 0] by blast
  then show "next_planning_command ex_confirmed = (Some (PlanCommand 1 ex_target True 100), ex_planning)"
    "dw_items ex_planning = [\<lparr>di_id = 1, di_path = [[114], [97]], di_relative_path = [[97]], di_target = Some (display_copy ex_target), di_plan = None,
      di_stage = Planning, di_confirmed_at = Some 3, di_history_bytes = 100\<rparr>]"
    "is_running (dw_coordinator ex_planning)"
    by (simp_all add: ex_planning_def ex_confirmed_def ex_enqueue next_planning_command_def is_planning_def is_queued_planning_def
        acquire_lease_def session_calls remember_lease_def update_item_def is_running_def Let_def)
qed

lemma ex_lane_reachable: "lane_reachable 5 ex_lane"
proof -
  have "lane_reachable (Suc (Suc 5)) \<lparr>ln_work = ex_new, ln_offered = None, ln_log = []\<rparr>"
    unfolding ex_new_def by (rule lane_reachable.start) (simp_all add: coord_wf_new, simp add: sc_new_def)
  then have "lane_reachable (Suc 5) \<lparr>ln_work = ex_confirmed, ln_offered = None, ln_log = [] @ logged_enqueue ex_target True (Inr 1)\<rparr>"
    by (rule lane_reachable.step) (rule lane_step.enqueue [of _ _ 100 3], simp add: ex_confirmed_def ex_enqueue)
  then have "lane_reachable (Suc 5) \<lparr>ln_work = ex_confirmed, ln_offered = None, ln_log = [Confirmed 1 [[114], [97]]]\<rparr>"
    by (simp add: logged_enqueue_def ex_full_path)
  from lane_reachable.step [OF this lane_step.plan [OF ex_plan(1)]] show ?thesis
    by (simp add: ex_lane_def)
qed

section \<open>The summary\<close>

lemma summary_fold:
  assumes "su_pending_operations s + length items < 2 ^ 64"
  shows "su_pending_operations (fold (summary_add ps) items s) =
      su_pending_operations s + length (filter (\<lambda>item. \<not> is_executing (di_stage item)) items) \<and>
    su_mutating (fold (summary_add ps) items s) = (su_mutating s \<or> (\<exists>item \<in> set items. is_executing (di_stage item)))"
  using assms
proof (induction items arbitrary: s)
  case (Cons item items)
  have "su_pending_operations (summary_add ps item s) = su_pending_operations s + (if is_executing (di_stage item) then 0 else 1)"
    "su_mutating (summary_add ps item s) = (su_mutating s \<or> is_executing (di_stage item))"
    using Cons.prems by (cases "di_stage item"; simp add: summary_add_def usize_sat_add_def)+
  then show ?case using Cons.IH [of "summary_add ps item s"] Cons.prems by auto
qed simp

lemma executing_in_snapshot:
  assumes "work_ok k log d" "dw_coordinator d = Some c" "item \<in> set (dw_items d)" "is_executing (di_stage item)"
  shows "sc_active_deletion_execution c \<noteq> None"
proof -
  have ok: "session_ok k (Some c)" and run: "is_running (dw_coordinator d)"
    using assms(1,2) by (simp_all add: work_ok_def is_running_def)
  obtain i where i: "i < length (dw_items d)" "dw_items d ! i = item" using assms(3) by (auto simp: in_set_conv_nth)
  have "di_id item \<in> fst ` set (dw_leases d)" using flight_leased [OF assms(1) run i(1)] i(2) assms(4) by simp
  then obtain l where "(di_id item, l) \<in> set (dw_leases d)" by force
  note l = own_lease [OF assms(1) run assms(3) this]
  have "wk_kind (wl_key l) = ExecuteDeletion"
    using l(2) assms(4) by (auto simp: flight_def is_planning_def stage_cases_simps split: if_splits)
  moreover have "l \<in> active_leases (Some c)" using l(1) assms(2) by simp
  ultimately show ?thesis using ok act_inv_exec [OF coord_wfD(2) [of c]] by auto
qed

section \<open>Stopping and mutating\<close>

text \<open>
  C16. However the threads that claim, begin and stop a deletion interleave, one atomic access at a time,
  a granted stop and a begun mutation exclude each other, the shared state tells which of the two
  happened, and after a granted stop no call claims, begins or stops again.
\<close>

theorem mutation_stop_exclusive:
  assumes "mutation_step\<^sup>*\<^sup>* mutation_init y"
  shows "\<not> ((OpStop, True) \<in> set (mu_log y) \<and> (OpBegin, True) \<in> set (mu_log y)) \<and>
    ((OpStop, True) \<in> set (mu_log y) \<longleftrightarrow> mu_state y = MUTATION_STOP_REQUESTED) \<and>
    ((OpBegin, True) \<in> set (mu_log y) \<longleftrightarrow> mu_state y = MUTATION_STARTED) \<and>
    (\<forall>before later op1. mu_log y = before @ (OpStop, True) # later \<longrightarrow> (op1, True) \<notin> set later)"
  using mutation_log_ok [OF assms] by (auto simp: log_ok_def mutation_constants)

theorem mutation_stop_exclusive_witness:
  "\<exists>y. mutation_step\<^sup>*\<^sup>* mutation_init y \<and> mu_log y = [(OpStop, True)] \<and> mu_state y = MUTATION_STOP_REQUESTED"
proof -
  let ?a = "mutation_init\<lparr>mu_threads := mu_threads mutation_init @ [OutsideLoop]\<rparr>"
  let ?b = "move_thread 0 (LoopHead OpStop) ?a"
  have "mutation_step mutation_init ?a" by (rule mutation_step.join)
  moreover have "mutation_step ?a ?b" by (rule mutation_step.call) (simp add: thread_at_def mutation_init_def)
  ultimately have b: "mutation_step\<^sup>*\<^sup>* mutation_init ?b" by auto
  have "thread_at ?b 0 (LoopHead OpStop)" by (simp add: thread_at_def mutation_init_def move_thread_def)
  from from_loop_head [OF this, of progress_new] obtain z where z: "mutation_step\<^sup>*\<^sup>* ?b z" "mu_log z = [(OpStop, True)]"
    by (auto simp: progress_new_def mutation_init_def request_stop_def)
  have r: "mutation_step\<^sup>*\<^sup>* mutation_init z" using b z(1) by (rule rtranclp_trans)
  from mutation_stop_exclusive [OF r] have "mu_state z = MUTATION_STOP_REQUESTED" using z(2) by simp
  with r z(2) show ?thesis by blast
qed

section \<open>The lane\<close>

text \<open>
  C14. Consent comes first: in every run of the lane, with other clients of the coordinator and the
  executor interleaved and with commands given back by busy workers, each command handed to a planner or
  an executor comes after the user confirmed that work item, and for exactly the path the command acts on.
  The user confirms in the dialog, or, in reduced confirmation mode, by the request itself.  This is the
  order the code keeps (\<open>enqueue_confirmation\<close> \<open>retains an immediate user confirmation before
  granting the planner work\<close>); \<open>docs/safety/deletion.md\<close> describes the other order, a plan
  made before its confirmation.
\<close>

theorem deletion_consent:
  assumes "lane_reachable k y" "ln_log y = before @ Issued cmd # later"
  shows "Confirmed (cmd_work_id cmd) (full_path (cmd_target cmd)) \<in> set before"
  using lane_reachable_ok [OF assms(1)] assms(2) by (simp add: lane_ok_def consent_ok_def)

theorem deletion_consent_witness:
  "lane_reachable 5 ex_lane \<and> Issued (PlanCommand 1 ex_target True 100) \<in> set (ln_log ex_lane) \<and>
   Confirmed 1 [[114], [97]] \<in> set (takeWhile (\<lambda>e. e \<noteq> Issued (PlanCommand 1 ex_target True 100)) (ln_log ex_lane))"
proof -
  let ?cmd = "PlanCommand 1 ex_target True 100" and ?before = "takeWhile (\<lambda>e. e \<noteq> Issued (PlanCommand 1 ex_target True 100)) (ln_log ex_lane)"
  have "ln_log ex_lane = ?before @ Issued ?cmd # []" by (simp add: ex_lane_def)
  from deletion_consent [OF ex_lane_reachable this] ex_lane_reachable show ?thesis by (simp add: ex_lane_def ex_full_path)
qed

text \<open>
  C14. The rail holds at most four items with distinct nonzero identifiers; no target lies inside or
  equals another; at most one item is with the planner and one with the executor; and an item that is past
  the confirmation, which in the code comes before the planning, was confirmed, with the plan of a queued
  execution made for its own path.
\<close>

theorem deletion_rail_invariant:
  assumes "lane_reachable k y"
  shows "length (dw_items (ln_work y)) \<le> 4 \<and> distinct (map di_id (dw_items (ln_work y))) \<and>
    (\<forall>i j. i < j \<longrightarrow> j < length (dw_items (ln_work y)) \<longrightarrow>
      \<not> prefix (di_path (dw_items (ln_work y) ! i)) (di_path (dw_items (ln_work y) ! j)) \<and>
      \<not> prefix (di_path (dw_items (ln_work y) ! j)) (di_path (dw_items (ln_work y) ! i))) \<and>
    length (filter (\<lambda>item. is_planning (di_stage item)) (dw_items (ln_work y))) \<le> 1 \<and>
    length (filter (\<lambda>item. is_executing (di_stage item)) (dw_items (ln_work y))) \<le> 1 \<and>
    (\<forall>item \<in> set (dw_items (ln_work y)). di_id item \<noteq> 0 \<and>
      (\<not> is_awaiting (di_stage item) \<longrightarrow> \<not> is_confirming (di_stage item) \<longrightarrow>
        di_confirmed_at item \<noteq> None \<and> Confirmed (di_id item) (di_path item) \<in> set (ln_log y)) \<and>
      (di_stage item = QueuedExecution \<longrightarrow> (\<exists>plan. di_plan item = Some plan \<and> full_path (dp_target plan) = di_path item)))"
proof -
  have rail: "rail_ok (ln_log y) (ln_work y)" using lane_reachable_ok [OF assms] by (simp add: lane_ok_def work_ok_def)
  have "di_id item \<noteq> 0 \<and> (\<not> is_awaiting (di_stage item) \<longrightarrow> \<not> is_confirming (di_stage item) \<longrightarrow> confirmed (ln_log y) item) \<and>
      (di_stage item = QueuedExecution \<longrightarrow> (\<exists>plan. di_plan item = Some plan \<and> full_path (dp_target plan) = di_path item))"
    if "item \<in> set (dw_items (ln_work y))" for item
  proof -
    have "di_id item \<noteq> 0" "item_ok (ln_log y) (length (dw_progress (ln_work y))) item" using rail that by (auto simp: rail_ok_def)
    then show ?thesis
      by (cases "di_stage item") (auto simp: item_ok_def is_awaiting_def is_confirming_def split: option.splits)
  qed
  then show ?thesis
    using rail
    by (auto simp: rail_ok_def at_most_one_def MAX_DELETION_WORK_ITEMS_def confirmed_def sorted_wrt_iff_nth_less apart_def
        targets_overlap_def starts_with_prefix)
qed

theorem deletion_rail_invariant_witness: "Confirmed 1 [[114], [97]] \<in> set (ln_log ex_lane)"
  using deletion_rail_invariant [OF ex_lane_reachable] ex_plan(2)
  by (auto simp: ex_lane_def is_awaiting_def is_confirming_def)

text \<open>
  C15. The rail and the coordinator agree.  While the session runs, the lane holds a lease for exactly the
  items that are with a worker, of the matching kind and path, and every such lease is active in the
  coordinator; so the report of a worker is accepted and takes exactly its item off the rail.
\<close>

theorem deletion_lease_accepted:
  assumes "lane_reachable k y" "dw_coordinator (ln_work y) \<noteq> None" "work_position work_id (ln_work y) = Some i"
    and "st = di_stage (dw_items (ln_work y) ! i)"
  shows "(is_planning st \<longrightarrow> fst (finish_planning work_id completion (ln_work y)) \<and>
      dw_items (snd (finish_planning work_id completion (ln_work y))) = remove_at i (dw_items (ln_work y))) \<and>
    (is_executing st \<longrightarrow> fst (finish_execution work_id completion (ln_work y)) \<and>
      dw_items (snd (finish_execution work_id completion (ln_work y))) = remove_at i (dw_items (ln_work y))) \<and>
    (has_lease work_id (ln_work y) \<longleftrightarrow> is_planning st \<or> is_executing st) \<and>
    (\<forall>l. (work_id, l) \<in> set (dw_leases (ln_work y)) \<longrightarrow>
      l \<in> active_leases (dw_coordinator (ln_work y)) \<and> wk_kind (wl_key l) = (if is_planning st then PlanDeletion else ExecuteDeletion) \<and>
      wk_path (wl_key l) = di_relative_path (dw_items (ln_work y) ! i))"
proof -
  let ?d = "ln_work y" and ?item = "dw_items (ln_work y) ! i"
  have w: "work_ok k (ln_log y) ?d" using lane_reachable_ok [OF assms(1)] by (simp add: lane_ok_def)
  have run: "is_running (dw_coordinator ?d)" using assms(2) by (simp add: is_running_def)
  note i = work_position_Some [OF assms(3)] and done1 = finish_stage_accepted [OF w run assms(3)]
  have leased: "has_lease work_id ?d" if "is_planning st \<or> is_executing st"
    using flight_leased [OF w run i(1)] that assms(4) i(2) by (force simp: has_lease_def)
  note own = own_lease [OF w run nth_mem [OF i(1)], unfolded i(2)]
  have "is_planning st \<or> is_executing st" if "has_lease work_id ?d"
    using that own(2) assms(4) by (fastforce simp: has_lease_def flight_def split: if_splits)
  with leased have "has_lease work_id ?d \<longleftrightarrow> is_planning st \<or> is_executing st" by blast
  moreover have "l \<in> active_leases (dw_coordinator ?d) \<and> wk_kind (wl_key l) = (if is_planning st then PlanDeletion else ExecuteDeletion) \<and>
      wk_path (wl_key l) = di_relative_path ?item" if "(work_id, l) \<in> set (dw_leases ?d)" for l
    using own(1) [OF that] own(2) [OF that] assms(4) by (auto simp: flight_def split: if_splits)
  ultimately show ?thesis
    using done1 [of is_planning completion] done1 [of is_executing completion] assms(4)
    by (simp add: finish_planning_def finish_execution_def)
qed

theorem deletion_lease_accepted_witness:
  "fst (finish_planning 1 Succeeded ex_planning) \<and> dw_items (snd (finish_planning 1 Succeeded ex_planning)) = []"
proof -
  have "work_position 1 (ln_work ex_lane) = Some 0" by (simp add: work_position_def ex_lane_def ex_plan(2))
  from deletion_lease_accepted [OF ex_lane_reachable _ this refl, of Succeeded] ex_plan(3) show ?thesis
    by (simp add: ex_lane_def ex_plan(2) is_running_def remove_at_def)
qed

text \<open>
  What the display and the exit path read is exact: the summary counts every item that is not
  executing and tells whether one is, there is work exactly while the rail is not empty, and, while the
  session runs, the coordinator's snapshot confirms a mutation exactly when an item is executing.
\<close>

lemma deletion_summary_exact:
  assumes "lane_reachable k y"
  shows "pending_count (ln_work y) = length (filter (\<lambda>item. \<not> is_executing (di_stage item)) (dw_items (ln_work y))) \<and>
    su_mutating (summary (ln_work y)) = (\<exists>item \<in> set (dw_items (ln_work y)). is_executing (di_stage item)) \<and>
    has_work (ln_work y) = (dw_items (ln_work y) \<noteq> []) \<and>
    has_active_mutation (ln_work y) =
      (dw_coordinator (ln_work y) \<noteq> None \<and> (\<exists>item \<in> set (dw_items (ln_work y)). is_executing (di_stage item)))"
proof -
  let ?d = "ln_work y"
  have w: "work_ok k (ln_log y) ?d" using lane_reachable_ok [OF assms] by (simp add: lane_ok_def)
  then have four: "length (dw_items ?d) \<le> 4" by (simp add: work_ok_def rail_ok_def MAX_DELETION_WORK_ITEMS_def)
  note sum = summary_fold [of summary_new "dw_items ?d" "dw_progress ?d"]
  have n: "pending_count ?d = length (filter (\<lambda>item. \<not> is_executing (di_stage item)) (dw_items ?d))"
    "su_mutating (summary ?d) = (\<exists>item \<in> set (dw_items ?d). is_executing (di_stage item))"
    using sum four by (simp_all add: pending_count_def summary_def summary_new_def)
  have "has_work ?d = (dw_items ?d \<noteq> [])"
    using n by (auto simp: has_work_def summary_has_work_def pending_count_def filter_empty_conv)
  moreover have "has_active_mutation ?d = (dw_coordinator ?d \<noteq> None \<and> (\<exists>item \<in> set (dw_items ?d). is_executing (di_stage item)))"
    using executing_in_snapshot [OF w] by (cases "dw_coordinator ?d") (auto simp: has_active_mutation_def session_stopped session_calls snapshot_def)
  ultimately show ?thesis using n by blast
qed

end
