(* ===== verification/Run_Scan.thy ===== *)
theory Run_Scan
  imports Run_Range_Spec
begin

text \<open>
  Loops over a range reader.  \<open>gr_scan\<close> is the loop \<open>while reader.next_record_into(...)? \<dots>\<close> of the
  callers in \<open>scan_store/path_catalog.rs\<close> and \<open>scan_store/page.rs\<close>, with the body as a function that
  goes on with a new state or leaves the loop with a result.  \<open>scan_sealed\<close> replaces the reader by the
  records of the run: a body that skips keys below the bound sees exactly the records at or above it,
  whatever block the sparse index selects.
\<close>

section \<open>The loop\<close>

datatype ('s, 'r) control = Continue 's | Return 'r

definition gr_remaining :: "run_range_reader \<Rightarrow> nat" where
  "gr_remaining r = length (gr_input r) + (length (gr_block r) - gr_block_cursor r)"

lemma gr_take_record_remaining:
  assumes "gr_take_record r = Inr (kv, r')"
  shows "gr_remaining r' < gr_remaining r"
  using assms by (auto simp: gr_take_record_def gr_remaining_def res_bind_Inr_iff dest!: parse_record_cursor)

lemma gr_load_remaining:
  assumes "gr_load_next_block sha r = Inr (loaded, r')"
  shows "gr_remaining r' < gr_remaining r"
  using assms
  by (auto simp: gr_load_next_block_def gr_remaining_def res_bind_Inr_iff take_int_Inr_iff take_bytes_Inr_iff
      split: if_splits dest!: read_block_length)

lemma gr_next_record_remaining:
  assumes "gr_next_record sha r = Inr (Some kv, r')"
  shows "gr_remaining r' < gr_remaining r"
  using assms
  by (auto simp: gr_next_record_def res_bind_Inr_iff split: if_splits dest!: gr_take_record_remaining gr_load_remaining)

function gr_scan :: "(bytes \<Rightarrow> bytes) \<Rightarrow> ('io run_error \<Rightarrow> 'e) \<Rightarrow> (bytes \<Rightarrow> bytes \<Rightarrow> 's \<Rightarrow> ('e, ('s, 'r) control) res) \<Rightarrow>
    run_range_reader \<Rightarrow> 's \<Rightarrow> ('e, ('s, 'r) control) res" where
  "gr_scan sha from body r s =
     (case gr_next_record sha r of
        Inl e \<Rightarrow> Inl (from e)
      | Inr (None, r') \<Rightarrow> Inr (Continue s)
      | Inr (Some kv, r') \<Rightarrow>
          (case body (fst kv) (snd kv) s of
             Inl e \<Rightarrow> Inl e
           | Inr (Return x) \<Rightarrow> Inr (Return x)
           | Inr (Continue s') \<Rightarrow> gr_scan sha from body r' s'))"
  by pat_completeness auto
termination
  by (relation "measure (\<lambda>(sha, from, body, r, s). gr_remaining r)") (auto dest: gr_next_record_remaining)

declare gr_scan.simps [simp del]

section \<open>The loop over records\<close>

primrec scan_all :: "(bytes \<Rightarrow> bytes \<Rightarrow> 's \<Rightarrow> ('e, ('s, 'r) control) res) \<Rightarrow> run_record list \<Rightarrow> 's \<Rightarrow> ('e, ('s, 'r) control) res" where
  "scan_all body [] s = Inr (Continue s)"
| "scan_all body (kv # rs) s =
     (case body (fst kv) (snd kv) s of
        Inl e \<Rightarrow> Inl e
      | Inr (Return x) \<Rightarrow> Inr (Return x)
      | Inr (Continue s') \<Rightarrow> scan_all body rs s')"

lemma scan_all_append:
  "scan_all body (rs @ qs) s =
     (case scan_all body rs s of
        Inl e \<Rightarrow> Inl e | Inr (Return x) \<Rightarrow> Inr (Return x) | Inr (Continue s') \<Rightarrow> scan_all body qs s')"
  by (induction rs arbitrary: s) (simp_all split: sum.split control.split)

lemma scan_all_skip: "\<forall>kv \<in> set rs. body (fst kv) (snd kv) s = Inr (Continue s) \<Longrightarrow> scan_all body (rs @ qs) s = scan_all body qs s"
  by (induction rs) simp_all

lemma gr_scan_at:
  assumes "range_at sha g rs bs" "\<And>x. length (sha x) = 32"
  shows "gr_scan sha (from :: 'io run_error \<Rightarrow> 'e) body g s = scan_all body (rs @ concat bs) s"
  using assms(1)
proof (induction "rs @ concat bs" arbitrary: rs bs g s)
  case Nil
  then have "rs = []" by simp
  moreover have "bs = []"
  proof (cases bs)
    case (Cons b cs)
    with Nil have "b \<noteq> []" by (simp add: range_at_def block_ok_def)
    with Nil Cons show ?thesis by simp
  qed simp
  ultimately have at: "range_at sha g [] []" using Nil by simp
  then have "gr_block_records g = 0" "\<not> gr_finished g" by (simp_all add: range_at_def unat_eq_0)
  then have "gr_next_record sha g = (Inr (None, g\<lparr>gr_input := [], gr_finished := True\<rparr>) :: ('io run_error, _) res)"
    by (simp add: gr_next_record_def gr_load_end [OF at])
  then show ?case unfolding Nil(1) [symmetric] by (simp add: gr_scan.simps [of sha _ _ g])
next
  case (Cons kv rest)
  from gr_next_at [where 'io = 'io, OF Cons.prems assms(2) Cons.hyps(2) [symmetric]]
  obtain g' rs' bs' where n: "gr_next_record sha g = (Inr (Some kv, g') :: ('io run_error, _) res)"
    "range_at sha g' rs' bs'" "rest = rs' @ concat bs'" by blast
  note IH = Cons.hyps(1) [OF n(3,2)]
  show ?case
    using n(1,3) IH unfolding Cons.hyps(2) [symmetric]
    by (simp add: gr_scan.simps [of sha _ _ g] split: sum.split control.split)
qed

section \<open>Sealed runs\<close>

definition at_or_above :: "bytes \<Rightarrow> run_record list \<Rightarrow> run_record list" where
  "at_or_above lower rs = filter (\<lambda>kv. lower \<le> fst kv) rs"

lemma at_or_above_split:
  assumes "keys_sorted rs"
  shows "\<exists>below. rs = below @ at_or_above lower rs \<and> (\<forall>kv \<in> set below. fst kv < lower)"
  using assms
proof (induction rs)
  case (Cons kv rs)
  show ?case
  proof (cases "fst kv < lower")
    case True
    obtain below where "rs = below @ at_or_above lower rs" "\<forall>kv \<in> set below. fst kv < lower"
      using Cons by (auto simp: keys_sorted_Cons)
    then show ?thesis using True by (intro exI [of _ "kv # below"]) (auto simp: at_or_above_def)
  next
    case False
    then have "\<forall>q \<in> set (kv # rs). lower \<le> fst q" using Cons.prems by (auto simp: keys_sorted_Cons)
    then show ?thesis by (intro exI [of _ "[]"]) (simp add: at_or_above_def)
  qed
qed (simp add: at_or_above_def)

lemma scan_sealed:
  assumes run: "write_run sha grow d capacity rs = Inr run" "indexed_kind (rd_kind d)" and sha: "\<And>x. length (sha x) = 32"
    and skip: "\<And>k v. k < lower \<Longrightarrow> body k v s = Inr (Continue s)"
  shows "\<exists>g. range_reader run lower = (Inr g :: ('io run_error, _) res) \<and>
    gr_scan sha (from :: 'io run_error \<Rightarrow> 'e) body g s =
      scan_all body (if rs = [] \<or> lower < fst (hd rs) then [] else at_or_above lower rs) s"
proof -
  obtain bs where bs: "concat bs = rs" "run_ok capacity bs" "sr_file run = run_bytes sha d capacity bs" "sr_descriptor run = d"
    "unat (sr_bytes run) = length (sr_file run)" "sr_sparse_index run = Some (capacity, index_of sha 28 bs)"
    using sealed_run_bytes [OF run(1)] run(2) by auto
  let ?n = "selected lower bs"
  obtain g where g: "range_reader run lower = (Inr g :: ('io run_error, _) res)"
    "range_at sha g [] (if ?n = 0 then [] else drop (?n - 1) bs)"
    using range_reader_at [OF bs(3-6) run(2) bs(2), of lower] by blast
  have zero: "?n = 0 \<longleftrightarrow> rs = [] \<or> lower < fst (hd rs)"
  proof (cases bs)
    case (Cons b cs)
    then have "b \<noteq> []" using bs(2) by (simp add: run_ok_def block_ok_def)
    then show ?thesis using Cons bs(1) by (auto simp: selected_def not_le)
  qed (use bs(1) in \<open>simp add: selected_def\<close>)
  note scan = gr_scan_at [OF g(2) sha, of "from" body s]
  show ?thesis
  proof (cases "?n = 0")
    case True
    then show ?thesis using g(1) scan zero by auto
  next
    case False
    let ?out = "concat (drop (?n - 1) bs)"
    have eq: "rs = concat (take (?n - 1) bs) @ ?out" using bs(1) concat_take_drop by metis
    have sorted: "keys_sorted rs" using bs(1,2) by (simp add: run_ok_def)
    have "\<forall>kv \<in> set (concat (take (?n - 1) bs)). fst kv < lower" using selected_skips [OF bs(2)] by blast
    then have "at_or_above lower rs = at_or_above lower ?out"
      by (subst eq) (fastforce simp: at_or_above_def filter_empty_conv)
    moreover obtain below where "?out = below @ at_or_above lower ?out" "\<forall>kv \<in> set below. fst kv < lower"
      using at_or_above_split [of ?out lower] keys_sorted_appendD [of "concat (take (?n - 1) bs)" ?out] sorted eq by auto
    ultimately have "scan_all body ?out s = scan_all body (at_or_above lower rs) s"
      using scan_all_skip [of below body s "at_or_above lower ?out"] skip by metis
    then show ?thesis using g(1) scan zero False by auto
  qed
qed

text \<open>A body that skips smaller keys, answers on the key it looks for and gives up on a greater one.\<close>

definition lookup_body :: "bytes \<Rightarrow> (bytes \<Rightarrow> ('e, 'a) res) \<Rightarrow> bytes \<Rightarrow> bytes \<Rightarrow> unit \<Rightarrow> ('e, (unit, 'a option) control) res" where
  "lookup_body expected decode key val u =
     (if key < expected then Inr (Continue ())
      else if key \<noteq> expected then Inr (Return None)
      else res_bind (decode val) (\<lambda>x. Inr (Return (Some x))))"

definition scan_result :: "('s \<Rightarrow> 'r) \<Rightarrow> ('e, ('s, 'r) control) res \<Rightarrow> ('e, 'r) res" where
  "scan_result finish_loop r = res_bind r (\<lambda>c. Inr (case c of Continue s \<Rightarrow> finish_loop s | Return x \<Rightarrow> x))"

lemma scan_result_simps [simp]:
  "scan_result f (Inl e) = Inl e" "scan_result f (Inr (Continue s)) = Inr (f s)" "scan_result f (Inr (Return x)) = Inr x"
  by (simp_all add: scan_result_def)

lemma scan_lookup:
  assumes "keys_sorted rs" "\<forall>kv \<in> set rs. expected \<le> fst kv"
  shows "scan_result (\<lambda>_. None) (scan_all (lookup_body expected decode) rs ()) =
    (case map_of rs expected of None \<Rightarrow> Inr None | Some v \<Rightarrow> res_bind (decode v) (\<lambda>x. Inr (Some x)))"
proof (cases rs)
  case (Cons kv qs)
  show ?thesis
  proof (cases "fst kv = expected")
    case True
    then show ?thesis using Cons by (cases "decode (snd kv)") (simp_all add: lookup_body_def)
  next
    case False
    then have "expected < fst kv" using assms(2) Cons by auto
    moreover have "\<forall>q \<in> set qs. fst kv < fst q" using assms(1) Cons by (simp add: keys_sorted_Cons)
    ultimately have "expected \<notin> fst ` set rs" using Cons by fastforce
    then have "map_of rs expected = None" by (simp add: map_of_eq_None_iff)
    moreover have "lookup_body expected decode (fst kv) (snd kv) () = Inr (Return None)"
      using \<open>expected < fst kv\<close> by (auto simp: lookup_body_def)
    ultimately show ?thesis using Cons by simp
  qed
qed simp

lemma lookup_sealed:
  assumes run: "write_run sha grow d capacity rs = Inr run" "indexed_kind (rd_kind d)" and sha: "\<And>x. length (sha x) = 32"
  shows "\<exists>g. range_reader run expected = (Inr g :: ('io run_error, _) res) \<and>
    scan_result (\<lambda>_. None) (gr_scan sha (from :: 'io run_error \<Rightarrow> 'e) (lookup_body expected decode) g ()) =
      (case map_of rs expected of None \<Rightarrow> Inr None | Some v \<Rightarrow> res_bind (decode v) (\<lambda>x. Inr (Some x)))"
proof -
  have skip: "lookup_body expected decode k v () = Inr (Continue ())" if "k < expected" for k v
    using that by (simp add: lookup_body_def)
  obtain g where g: "range_reader run expected = (Inr g :: ('io run_error, _) res)"
    "gr_scan sha from (lookup_body expected decode) g () =
      scan_all (lookup_body expected decode) (if rs = [] \<or> expected < fst (hd rs) then [] else at_or_above expected rs) ()"
    using scan_sealed [OF run sha, of expected "lookup_body expected decode" "()" "from"] skip by metis
  have sorted: "keys_sorted rs" using sealed_run_sorted [OF run(1)] .
  obtain below where below: "rs = below @ at_or_above expected rs" "\<forall>kv \<in> set below. fst kv < expected"
    using at_or_above_split [OF sorted] by blast
  have "expected \<notin> fst ` set below" using below(2) by fastforce
  then have "map_of below expected = None" by (simp add: map_of_eq_None_iff)
  then have above: "map_of (at_or_above expected rs) expected = map_of rs expected"
    by (subst (2) below(1)) (simp add: map_add_def)
  show ?thesis
  proof (cases "rs = [] \<or> expected < fst (hd rs)")
    case True
    have "expected \<notin> fst ` set rs"
    proof (cases rs)
      case (Cons kv qs)
      then show ?thesis using True sorted by (fastforce simp: keys_sorted_Cons)
    qed simp
    then have "map_of rs expected = None" by (simp add: map_of_eq_None_iff)
    then show ?thesis using g True by auto
  next
    case False
    have "keys_sorted (at_or_above expected rs)" using keys_sorted_appendD below(1) sorted by metis
    from scan_lookup [OF this, of expected decode] show ?thesis using g False above by (auto simp: at_or_above_def)
  qed
qed

end
