(* ===== verification/Path_Catalog.thy ===== *)
theory Path_Catalog
  imports Summary_Pipeline Run_Scan
begin

text \<open>
  The path catalogue (\<open>src/src/scan_store/path_catalog.rs\<close>): one row per path of a canonical
  observation run, with an identifier, the identifier of its parent and its last component.

  The pass keeps a stack of the directories above the current path; the list has its top first.  The
  \<open>expect\<close> on a stack that is never empty is the error \<open>CatalogPanic\<close>.  \<open>build_canonical\<close> shows that the
  pass numbers the paths in their order and finds every parent, and \<open>lookup_row\<close> that the sparse index
  finds every row again.
\<close>

section \<open>Definitions\<close>

definition PATH_CATALOG_VERSION :: u8 where "PATH_CATALOG_VERSION = 1"

type_synonym path_id = u64

record path_catalog_entry =
  pc_id :: path_id
  pc_parent_id :: path_id
  pc_name :: os_string

datatype 'io path_catalog_error =
    CatalogRun "'io run_error"
  | CatalogPathKey path_key_error
  | CatalogObservation path_observation_codec_error
  | CatalogWrongInputKind
  | CatalogWrongOutputKind
  | CatalogGenerationMismatch
  | CatalogMissingParent
  | CatalogIdOverflow
  | CatalogMalformed
  | CatalogPanic

text \<open>The loop that pops directories that are not above the path.\<close>

fun pop_ancestors :: "relative_path \<Rightarrow> (relative_path \<times> path_id) list \<Rightarrow>
    ('io path_catalog_error, (relative_path \<times> path_id) list) res" where
  "pop_ancestors path [] = Inl CatalogPanic"
| "pop_ancestors path (a # rest) =
     (if starts_with path (fst a) then Inr (a # rest)
      else if rest = [] then Inl CatalogMissingParent else pop_ancestors path rest)"

definition catalog_step :: "(bytes \<Rightarrow> bytes) \<Rightarrow> 'io grow \<Rightarrow> bytes \<Rightarrow> bytes \<Rightarrow>
    (relative_path \<times> path_id) list \<times> u64 \<times> run_writer \<Rightarrow>
    ('io path_catalog_error, (relative_path \<times> path_id) list \<times> u64 \<times> run_writer) res" where
  "catalog_step sha grow key val = (\<lambda>(ancestors, next_id, output).
     res_bind (map_err CatalogObservation (decode_path_observation key val)) (\<lambda>ob.
     res_bind (pop_ancestors (po_path ob) ancestors) (\<lambda>ancestors.
     if \<not> is_direct_child_of (po_path ob) (fst (hd ancestors)) then Inl CatalogMissingParent
     else if po_path ob = [] then Inl CatalogMissingParent
     else
       let name = last (po_path ob); id = next_id in
       res_bind (ok_or (checked_add next_id 1) CatalogIdOverflow) (\<lambda>next_id.
       res_bind (map_err CatalogPathKey
           (append_path_component_key name ([PATH_CATALOG_VERSION] @ u64_le id @ u64_le (snd (hd ancestors))))) (\<lambda>output_value.
       res_bind (map_err CatalogRun (rw_append sha grow key output_value output)) (\<lambda>output.
         Inr (if po_kind ob = EntryDirectory then (po_path ob, id) # ancestors else ancestors, next_id, output)))))))"

definition build_path_catalog :: "(bytes \<Rightarrow> bytes) \<Rightarrow> (u64 \<Rightarrow> 'io option) \<Rightarrow> 'io grow \<Rightarrow> run_reader \<Rightarrow> run_writer \<Rightarrow>
    ('io path_catalog_error, run_writer) res" where
  "build_path_catalog sha running grow input output =
     (if rd_kind (rr_descriptor input) \<noteq> RunPathObservation then Inl CatalogWrongInputKind
      else if rd_kind (rw_descriptor output) \<noteq> RunPathCatalog then Inl CatalogWrongOutputKind
      else if rd_generation (rr_descriptor input) \<noteq> rd_generation (rw_descriptor output) then Inl CatalogGenerationMismatch
      else
        res_bind (rr_visit sha running CatalogRun (catalog_step sha grow) input ([(rp_root, 0)], 1, output))
          (\<lambda>((ancestors, next_id, output), input). Inr output))"

definition decode_path_catalog_entry :: "bytes \<Rightarrow> ('io path_catalog_error, path_catalog_entry) res" where
  "decode_path_catalog_entry val =
     res_bind (take_u8 CatalogMalformed val) (\<lambda>(version, val).
     if version \<noteq> PATH_CATALOG_VERSION then Inl CatalogMalformed
     else
       res_bind (take_u64 CatalogMalformed val) (\<lambda>(id, val).
       res_bind (take_u64 CatalogMalformed val) (\<lambda>(parent_id, val).
       res_bind (map_err CatalogPathKey (decode_path_key val)) (\<lambda>name_path.
       if depth name_path \<noteq> 1 then Inl CatalogMalformed
       else Inr \<lparr>pc_id = id, pc_parent_id = parent_id, pc_name = hd name_path\<rparr>))))"

definition read_path_catalog_entry :: "(bytes \<Rightarrow> bytes) \<Rightarrow> sealed_run \<Rightarrow> relative_path \<Rightarrow>
    ('io path_catalog_error, path_catalog_entry option) res" where
  "read_path_catalog_entry sha run path =
     (if rd_kind (sr_descriptor run) \<noteq> RunPathCatalog then Inl CatalogWrongOutputKind
      else
        res_bind (map_err CatalogPathKey (encode_path_key_into path [])) (\<lambda>expected.
        res_bind (map_err CatalogRun (range_reader run expected)) (\<lambda>reader.
          scan_result (\<lambda>_. None) (gr_scan sha CatalogRun (lookup_body expected decode_path_catalog_entry) reader ()))))"

section \<open>The numbering\<close>

text \<open>The root is number zero, and the path at position \<open>i\<close> of the stream number \<open>i + 1\<close>.\<close>

definition path_number :: "path_observation list \<Rightarrow> relative_path \<Rightarrow> nat" where
  "path_number obs p = (case map_of (zip (map po_path obs) [1..<Suc (length obs)]) p of None \<Rightarrow> 0 | Some n \<Rightarrow> n)"

definition catalog_row :: "path_observation list \<Rightarrow> nat \<Rightarrow> path_catalog_entry" where
  "catalog_row obs i =
     \<lparr>pc_id = of_nat (Suc i), pc_parent_id = of_nat (path_number obs (butlast (po_path (obs ! i)))), pc_name = last (po_path (obs ! i))\<rparr>"

definition catalog_record :: "path_observation list \<Rightarrow> nat \<Rightarrow> run_record" where
  "catalog_record obs i =
     (key_bytes (po_path (obs ! i)),
      PATH_CATALOG_VERSION # u64_le (pc_id (catalog_row obs i)) @ u64_le (pc_parent_id (catalog_row obs i)) @
        pc_name (catalog_row obs i) @ [0])"

lemma path_number_nth:
  assumes "distinct (map po_path obs)" "i < length obs"
  shows "path_number obs (po_path (obs ! i)) = Suc i"
proof -
  have "(po_path (obs ! i), Suc i) \<in> set (zip (map po_path obs) [1..<Suc (length obs)])"
    using assms(2) by (auto simp: set_zip intro!: exI [of _ i] simp del: upt_Suc)
  moreover have "distinct (map fst (zip (map po_path obs) [1..<Suc (length obs)]))" using assms(1) by (simp del: upt_Suc)
  ultimately have "map_of (zip (map po_path obs) [1..<Suc (length obs)]) (po_path (obs ! i)) = Some (Suc i)"
    by (rule map_of_is_SomeI [rotated])
  then show ?thesis by (simp add: path_number_def)
qed

lemma path_number_root: "canonical obs \<Longrightarrow> path_number obs [] = 0"
proof -
  assume "canonical obs"
  then have "[] \<notin> set (map po_path obs)" by (auto simp: canonical_def)
  then have "map_of (zip (map po_path obs) [1..<Suc (length obs)]) [] = None"
    by (subst map_of_eq_None_iff) (auto dest: in_set_zipE simp del: upt_Suc elim: in_set_zipE)
  then show ?thesis by (simp add: path_number_def)
qed

section \<open>The stack\<close>

definition is_dir :: "path_observation list \<Rightarrow> relative_path \<Rightarrow> bool" where
  "is_dir xs p \<longleftrightarrow> p = [] \<or> (\<exists>x \<in> set xs. po_path x = p \<and> po_kind x = EntryDirectory)"

definition ancestors_of :: "path_observation list \<Rightarrow> path_observation list \<Rightarrow> relative_path \<Rightarrow> (relative_path \<times> path_id) list" where
  "ancestors_of obs xs p = map (\<lambda>q. (q, of_nat (path_number obs q))) (rev (filter (is_dir xs) (prefixes p)))"

lemma pop_ancestors_skip:
  "\<forall>a \<in> set as. \<not> prefix (fst a) path \<Longrightarrow> bs \<noteq> [] \<Longrightarrow> pop_ancestors path (as @ bs) = pop_ancestors path bs"
  by (induction as) (simp_all add: starts_with_prefix)

lemma prefixes_butlast: "p \<noteq> [] \<Longrightarrow> prefixes p = prefixes (butlast p) @ [p]"
  by (metis append_butlast_last_id prefixes_snoc)

lemma pop_to_parent:
  assumes "is_dir xs (butlast p)" "p \<noteq> []" "prefix (butlast p) l" "\<not> prefix p l"
  shows "pop_ancestors p (ancestors_of obs xs l) = Inr (ancestors_of obs xs (butlast p))"
    "hd (ancestors_of obs xs (butlast p)) = (butlast p, of_nat (path_number obs (butlast p)))"
proof -
  let ?d = "butlast p" and ?g = "\<lambda>q. (q, of_nat (path_number obs q))"
  have p: "p = ?d @ [last p]" using assms(2) by simp
  obtain z where l: "l = ?d @ z" using assms(3) by (auto simp: prefix_def)
  have pl: "prefixes l = prefixes ?d @ map ((@) ?d) (tl (prefixes z))" by (simp add: l prefixes_append)
  have deep: "\<not> prefix q p" if q: "q \<in> set (map ((@) ?d) (tl (prefixes z)))" for q
  proof
    assume "prefix q p"
    obtain y where y: "q = ?d @ y" "y \<in> set (tl (prefixes z))" using q by auto
    have "prefix y z" "y \<noteq> []" using y(2) by (cases z; auto)+
    moreover have "prefix y [last p]" using \<open>prefix q p\<close> y(1) p by (metis same_prefix_prefix)
    ultimately have "y = [last p]" by (cases y) (auto simp: prefix_Cons)
    with \<open>prefix y z\<close> have "prefix (?d @ [last p]) l" by (simp add: l)
    with p assms(4) show False by simp
  qed
  have top: "ancestors_of obs xs ?d = ?g ?d # map ?g (rev (filter (is_dir xs) (butlast (prefixes ?d))))"
  proof -
    have "prefixes ?d = butlast (prefixes ?d) @ [?d]" by (cases ?d rule: rev_cases) (simp_all add: prefixes_snoc)
    then have "filter (is_dir xs) (prefixes ?d) = filter (is_dir xs) (butlast (prefixes ?d)) @ [?d]"
      using assms(1) filter_append [of "is_dir xs" "butlast (prefixes ?d)" "[?d]"] by simp
    then show ?thesis by (simp add: ancestors_of_def)
  qed
  then show "hd (ancestors_of obs xs ?d) = (?d, of_nat (path_number obs ?d))" by simp
  have "ancestors_of obs xs l = map ?g (rev (filter (is_dir xs) (map ((@) ?d) (tl (prefixes z))))) @ ancestors_of obs xs ?d"
    by (simp add: ancestors_of_def pl)
  also have "pop_ancestors p \<dots> = pop_ancestors p (ancestors_of obs xs ?d)"
    using deep by (intro pop_ancestors_skip) (auto simp: top)
  also have "\<dots> = Inr (ancestors_of obs xs ?d)" using assms(3) p by (simp add: top starts_with_prefix) (metis prefixI)
  finally show "pop_ancestors p (ancestors_of obs xs l) = Inr (ancestors_of obs xs ?d)" .
qed

lemma ancestors_push:
  assumes "po_path x \<noteq> []" "po_path x \<notin> set (map po_path xs)"
  shows "ancestors_of obs (xs @ [x]) (po_path x) =
    (if po_kind x = EntryDirectory then (po_path x, of_nat (path_number obs (po_path x))) # ancestors_of obs xs (butlast (po_path x))
     else ancestors_of obs xs (butlast (po_path x)))"
proof -
  have "is_dir (xs @ [x]) q = is_dir xs q" if "q \<in> set (prefixes (butlast (po_path x)))" for q
  proof -
    have "prefix q (butlast (po_path x))" using that by simp
    moreover have "0 < length (po_path x)" using assms(1) by simp
    ultimately have "length q < length (po_path x)" using prefix_length_le [of q "butlast (po_path x)"] length_butlast [of "po_path x"] by linarith
    then show ?thesis by (auto simp: is_dir_def)
  qed
  then have "filter (is_dir (xs @ [x])) (prefixes (butlast (po_path x))) = filter (is_dir xs) (prefixes (butlast (po_path x)))"
    by (intro filter_cong) simp_all
  moreover have "po_path y \<noteq> po_path x" if "y \<in> set xs" for y using assms(2) that by (metis image_eqI set_map)
  then have "is_dir (xs @ [x]) (po_path x) \<longleftrightarrow> po_kind x = EntryDirectory"
    using assms(1) by (auto simp: is_dir_def)
  ultimately show ?thesis by (simp add: ancestors_of_def prefixes_butlast [OF assms(1)])
qed

section \<open>The pass\<close>

lemma canonical_nth:
  assumes "canonical obs" "i < length obs"
  shows "po_path (obs ! i) \<noteq> []" "is_dir (take i obs) (butlast (po_path (obs ! i)))"
    "prefix (butlast (po_path (obs ! i))) (if i = 0 then [] else po_path (obs ! (i - 1)))"
    "\<not> prefix (po_path (obs ! i)) (if i = 0 then [] else po_path (obs ! (i - 1)))"
    "po_path (obs ! i) \<notin> set (map po_path (take i obs))"
proof -
  let ?p = "po_path (obs ! i)"
  have sorted: "sorted_wrt (<) (map po_path obs)" using assms(1) by (simp add: canonical_def)
  have less: "po_path (obs ! j) < po_path (obs ! k)" if "j < k" "k < length obs" for j k
    using sorted_wrt_nth_less [OF sorted, of j k] that by simp
  show ne: "?p \<noteq> []" using assms by (simp add: canonical_def)
  have dir: "is_dir (take i obs) (butlast ?p) \<and> (\<forall>j. butlast ?p = po_path (obs ! j) \<longrightarrow> j < length obs \<longrightarrow> j < i)"
  proof -
    have below: "j < i" if j: "butlast ?p = po_path (obs ! j)" "j < length obs" for j
    proof (rule ccontr)
      assume "\<not> j < i"
      then have "?p \<le> butlast ?p" using j less [of i j] by (cases "j = i") auto
      moreover have "butlast ?p < ?p" using ne by (metis prefix_le_list prefixeq_butlast order_le_less append_butlast_last_id not_Cons_self2 append_self_conv)
      ultimately show False by simp
    qed
    have "butlast ?p = [] \<or> (\<exists>d \<in> set obs. po_path d = butlast ?p \<and> po_kind d = EntryDirectory)"
      using assms by (simp add: canonical_def)
    then show ?thesis
    proof
      assume "\<exists>d \<in> set obs. po_path d = butlast ?p \<and> po_kind d = EntryDirectory"
      then obtain j where j: "j < length obs" "po_path (obs ! j) = butlast ?p" "po_kind (obs ! j) = EntryDirectory"
        by (auto simp: in_set_conv_nth)
      then have "obs ! j \<in> set (take i obs)" using below assms(2) by (force simp: in_set_conv_nth)
      then show ?thesis using j below by (auto simp: is_dir_def)
    qed (use below in \<open>auto simp: is_dir_def\<close>)
  qed
  then show "is_dir (take i obs) (butlast ?p)" by blast
  show "\<not> prefix ?p (if i = 0 then [] else po_path (obs ! (i - 1)))"
    using ne less [of "i - 1" i] assms(2) prefix_le_list [of ?p "po_path (obs ! (i - 1))"] by (cases "i = 0") auto
  show "po_path (obs ! i) \<notin> set (map po_path (take i obs))"
    using less [of _ i] assms(2) by (force simp: in_set_conv_nth)
  show "prefix (butlast ?p) (if i = 0 then [] else po_path (obs ! (i - 1)))"
  proof (cases "butlast ?p = []")
    case False
    then obtain x where x: "x \<in> set (take i obs)" "po_path x = butlast ?p" using dir by (auto simp: is_dir_def)
    then obtain j where j: "j < i" "po_path (obs ! j) = butlast ?p" by (auto simp: in_set_conv_nth)
    then have i: "i \<noteq> 0" by simp
    have "j = i - 1 \<or> j < i - 1" using j(1) by linarith
    moreover have "i - 1 < length obs" using assms(2) by simp
    ultimately have "butlast ?p \<le> po_path (obs ! (i - 1))" using j(2) less [of j "i - 1"] by auto
    moreover have "po_path (obs ! (i - 1)) \<le> ?p" using less [of "i - 1" i] assms(2) i by simp
    ultimately show ?thesis using prefix_contiguous [OF _ _ prefixeq_butlast [of ?p]] i by simp
  qed simp
qed

definition last_path :: "path_observation list \<Rightarrow> nat \<Rightarrow> relative_path" where
  "last_path obs i = (if i = 0 then [] else po_path (obs ! (i - 1)))"

lemma catalog_step_canonical:
  assumes can: "canonical obs" and i: "i < length obs" and ob: "observation_record (obs ! i) kv"
    and sized: "vec_sized (po_path (obs ! i))" and n: "Suc (length obs) < 2 ^ 64"
  shows "catalog_step sha grow (fst kv) (snd kv) (ancestors_of obs (take i obs) (last_path obs i), of_nat (Suc i), w) =
    map_err CatalogRun (res_bind (rw_append sha grow (fst (catalog_record obs i)) (snd (catalog_record obs i)) w)
      (\<lambda>w. Inr (ancestors_of obs (take (Suc i) obs) (last_path obs (Suc i)), of_nat (Suc (Suc i)), w)))"
proof -
  let ?x = "obs ! i" and ?p = "po_path (obs ! i)"
  note c = canonical_nth [OF can i]
  note pop = pop_to_parent [OF c(2,1,3,4), of obs, folded last_path_def]
  have dist: "distinct (map po_path obs)" using can by (auto simp: canonical_def strict_sorted_iff)
  have kv: "nul_free ?p" "fst kv = key_bytes ?p" using ob encode_observation_Inr [of ?x "fst kv" "snd kv"] by (auto simp: observation_record_def)
  have direct: "is_direct_child_of ?p (butlast ?p)"
    using direct_child_iff [of "butlast ?p" ?p] sized c(1) by (metis append_butlast_last_id length_butlast less_imp_diff_less)
  have name: "0 \<notin> set (last ?p)" using kv(1) c(1) by (simp add: nul_free_def)
  have add: "checked_add (of_nat (Suc i) :: u64) 1 = Some (of_nat (Suc (Suc i)))"
    using n i unat_of_nat_small [of "Suc i"] by (simp add: checked_add_Some del: of_nat_Suc) simp
  have push: "ancestors_of obs (take (Suc i) obs) ?p =
    (if po_kind ?x = EntryDirectory then (?p, of_nat (Suc i)) # ancestors_of obs (take i obs) (butlast ?p)
     else ancestors_of obs (take i obs) (butlast ?p))"
    using ancestors_push [OF c(1,5), of obs] path_number_nth [OF dist i] by (simp add: take_Suc_conv_app_nth [OF i])
  have hd: "fst (hd (ancestors_of obs (take i obs) (butlast ?p))) = butlast ?p"
    "snd (hd (ancestors_of obs (take i obs) (butlast ?p))) = of_nat (path_number obs (butlast ?p))" using pop(2) by simp_all
  have lp: "last_path obs (Suc i) = ?p" by (simp add: last_path_def)
  show ?thesis
    using observation_record_decode [OF ob] c(1) direct name add push kv(2)
    by (cases "rw_append sha grow (fst (catalog_record obs i)) (snd (catalog_record obs i)) w")
      (simp_all add: catalog_step_def pop(1) hd append_path_component_key_def catalog_record_def catalog_row_def lp Let_def
        del: of_nat_Suc)
qed

lemma visit_all_catalog:
  assumes can: "canonical obs" and ob: "list_all2 observation_record obs recs"
    and sized: "\<forall>x \<in> set obs. vec_sized (po_path x)" and n: "Suc (length obs) < 2 ^ 64" and i: "i \<le> length obs"
  shows "visit_all (catalog_step sha grow) (drop i recs) (ancestors_of obs (take i obs) (last_path obs i), of_nat (Suc i), w) =
    map_err CatalogRun (res_bind (append_all sha grow (map (catalog_record obs) [i..<length obs]) w)
      (\<lambda>w. Inr (ancestors_of obs obs (last_path obs (length obs)), of_nat (Suc (length obs)), w)))"
  using i
proof (induction "length obs - i" arbitrary: i w)
  case 0
  then have "i = length obs" "i = length recs" using list_all2_lengthD [OF ob] by simp_all
  then show ?case by (simp del: of_nat_Suc)
next
  case (Suc m)
  then have i: "i < length obs" by simp
  have len: "length recs = length obs" using list_all2_lengthD [OF ob] by simp
  have "drop i recs = recs ! i # drop (Suc i) recs" using i len by (simp add: Cons_nth_drop_Suc)
  moreover have "[i..<length obs] = i # [Suc i..<length obs]" using i by (simp add: upt_conv_Cons)
  moreover have "observation_record (obs ! i) (recs ! i)" using list_all2_nthD [OF ob i] .
  note step = catalog_step_canonical [OF can i this _ n, of sha grow w]
  have "vec_sized (po_path (obs ! i))" using sized i by simp
  note step = step [OF this]
  have IH: "visit_all (catalog_step sha grow) (drop (Suc i) recs) (ancestors_of obs (take (Suc i) obs) (last_path obs (Suc i)), of_nat (Suc (Suc i)), w') =
    map_err CatalogRun (res_bind (append_all sha grow (map (catalog_record obs) [Suc i..<length obs]) w')
      (\<lambda>w. Inr (ancestors_of obs obs (last_path obs (length obs)), of_nat (Suc (length obs)), w)))" for w'
    using Suc.hyps(1) [of "Suc i" w'] Suc.hyps(2) i by simp
  ultimately show ?case
    using step by (cases "rw_append sha grow (fst (catalog_record obs i)) (snd (catalog_record obs i)) w")
      (simp_all add: IH del: of_nat_Suc upt_Suc)
qed

lemma build_canonical:
  fixes running :: "u64 \<Rightarrow> 'io option"
  assumes at: "reader_at sha r rs bs N B" and sha: "\<And>x. length (sha x) = 32" and run: "\<And>n. running n = None"
    and obs: "list_all2 observation_record obs (rs @ concat bs)" and can: "canonical obs"
    and sized: "\<forall>x \<in> set obs. vec_sized (po_path x)" and n: "Suc (length obs) < 2 ^ 64"
    and kinds: "rd_kind (rr_descriptor r) = RunPathObservation" "rd_kind (rw_descriptor w) = RunPathCatalog"
      "rd_generation (rr_descriptor r) = rd_generation (rw_descriptor w)"
  shows "build_path_catalog sha running grow r w =
    map_err CatalogRun (append_all sha grow (map (catalog_record obs) [0..<length obs]) w)"
proof -
  have "[(rp_root, 0)] = ancestors_of obs (take 0 obs) (last_path obs 0)"
    by (simp add: ancestors_of_def last_path_def is_dir_def path_number_root [OF can] rp_root_def)
  moreover have "(1 :: u64) = of_nat (Suc 0)" by simp
  moreover from rr_visit_at [where running = running, OF at sha run, of CatalogRun "catalog_step sha grow" "([(rp_root, 0)], 1, w)"]
  obtain r' where "rr_visit sha running CatalogRun (catalog_step sha grow) r ([(rp_root, 0)], 1, w) =
      res_bind (visit_all (catalog_step sha grow) (rs @ concat bs) ([(rp_root, 0)], 1, w)) (\<lambda>s. Inr (s, r'))" by blast
  ultimately have "rr_visit sha running CatalogRun (catalog_step sha grow) r ([(rp_root, 0)], 1, w) =
      res_bind (map_err CatalogRun (res_bind (append_all sha grow (map (catalog_record obs) [0..<length obs]) w)
      (\<lambda>w. Inr (ancestors_of obs obs (last_path obs (length obs)), of_nat (Suc (length obs)), w)))) (\<lambda>s. Inr (s, r'))"
    using visit_all_catalog [OF can obs sized n, of 0 sha grow w] by (simp del: of_nat_Suc)
  then show ?thesis
    using kinds by (cases "append_all sha grow (map (catalog_record obs) [0..<length obs]) w") (simp_all add: build_path_catalog_def)
qed

section \<open>Finding rows\<close>

lemma decode_catalog_row:
  assumes "valid_component (pc_name (catalog_row obs i))" "0 \<notin> set (pc_name (catalog_row obs i))"
  shows "decode_path_catalog_entry (snd (catalog_record obs i)) = (Inr (catalog_row obs i) :: ('io path_catalog_error, _) res)"
proof -
  have "decode_path_key (pc_name (catalog_row obs i) @ [0]) = Inr [pc_name (catalog_row obs i)]"
    using decode_path_key_bytes [of "[pc_name (catalog_row obs i)]"] assms by simp
  then show ?thesis by (simp add: decode_path_catalog_entry_def catalog_record_def depth_def)
qed

lemma key_bytes_inject:
  assumes "nul_free p" "nul_free q" "key_bytes p = key_bytes q"
  shows "p = q"
  using cmp_key_bytes [OF assms(1,2)] assms(3) cmp_iff(2) [of p q] by (simp add: rp_cmp_cmp)

lemma lookup_row:
  assumes run: "write_run sha grow d capacity (map (catalog_record obs) [0..<length obs]) = Inr run"
    and kind: "rd_kind d = RunPathCatalog" and sha: "\<And>x. length (sha x) = 32"
    and obs: "\<forall>x \<in> set obs. relative_path_ok (po_path x) \<and> nul_free (po_path x) \<and> po_path x \<noteq> []" and p: "nul_free p"
  shows "i < length obs \<Longrightarrow> po_path (obs ! i) = p \<Longrightarrow> distinct (map po_path obs) \<Longrightarrow>
      read_path_catalog_entry sha run p = (Inr (Some (catalog_row obs i)) :: ('io path_catalog_error, _) res)"
    and "p \<notin> set (map po_path obs) \<Longrightarrow> read_path_catalog_entry sha run p = (Inr None :: ('io path_catalog_error, _) res)"
proof -
  let ?recs = "map (catalog_record obs) [0..<length obs]"
  have d: "sr_descriptor run = d" using sealed_run_bytes [OF run] by blast
  have ix: "indexed_kind (rd_kind d)" by (simp add: indexed_kind_def kind)
  obtain g where g: "range_reader run (key_bytes p) = (Inr g :: ('io run_error, _) res)"
    "scan_result (\<lambda>_. None) (gr_scan sha (CatalogRun :: 'io run_error \<Rightarrow> _) (lookup_body (key_bytes p) decode_path_catalog_entry) g ()) =
      (case map_of ?recs (key_bytes p) of None \<Rightarrow> Inr None | Some v \<Rightarrow> res_bind (decode_path_catalog_entry v) (\<lambda>x. Inr (Some x)))"
    using lookup_sealed [OF run ix sha, of "key_bytes p" CatalogRun decode_path_catalog_entry] by blast
  have read: "(read_path_catalog_entry sha run p :: ('io path_catalog_error, _) res) =
      (case map_of ?recs (key_bytes p) of None \<Rightarrow> Inr None | Some v \<Rightarrow> res_bind (decode_path_catalog_entry v) (\<lambda>x. Inr (Some x)))"
    using p g kind d by (simp add: read_path_catalog_entry_def encode_path_key_into_def append_path_key_eq)
  show "read_path_catalog_entry sha run p = (Inr (Some (catalog_row obs i)) :: ('io path_catalog_error, _) res)"
    if i: "i < length obs" "po_path (obs ! i) = p" "distinct (map po_path obs)"
  proof -
    have "key_bytes p = fst (catalog_record obs i)" using i(2) by (simp add: catalog_record_def)
    moreover have "catalog_record obs i \<in> set ?recs" using i(1) by simp
    ultimately have "(key_bytes p, snd (catalog_record obs i)) \<in> set ?recs" by (metis prod.collapse)
    moreover have "distinct (map fst ?recs)" using sealed_run_sorted [OF run] by (simp add: keys_sorted_def strict_sorted_iff del: map_map)
    ultimately have "map_of ?recs (key_bytes p) = Some (snd (catalog_record obs i))" by (rule map_of_is_SomeI [rotated])
    moreover have "valid_component (last p)" "0 \<notin> set (last p)"
      using bspec [OF obs nth_mem [OF i(1)]] i(2) by (auto simp: relative_path_ok_def nul_free_def)
    ultimately show ?thesis using read decode_catalog_row [where ?'io = 'io, of obs i] i(2) by (simp add: catalog_row_def)
  qed
  show "read_path_catalog_entry sha run p = (Inr None :: ('io path_catalog_error, _) res)" if no: "p \<notin> set (map po_path obs)"
  proof -
    have "key_bytes p \<noteq> key_bytes (po_path x)" if "x \<in> set obs" for x
      using that no key_bytes_inject [OF p, of "po_path x"] obs by auto
    then have "key_bytes p \<notin> fst ` set ?recs" using nth_mem by (fastforce simp: catalog_record_def)
    then have "map_of ?recs (key_bytes p) = None" by (simp add: map_of_eq_None_iff)
    then show ?thesis using read by simp
  qed
qed

end
