(* ===== verification/Folder_Digest.thy ===== *)
theory Folder_Digest
  imports File_Id_Codec Relative_Path "HOL-Library.Multiset"
begin

text \<open>
  The digest of a folder's entries (\<open>src/src/scan_store/folder_digest.rs\<close>): a count and four sums
  modulo \<open>2 ^ 64\<close> of the hashes of the entries.  The buffer kept between entries is left out.  The
  hash is a parameter; \<open>digest_fold\<close> gives the digest of a list of entries, \<open>digest_same\<close> that it depends
  on the entries and not on their order, and \<open>digest_replace\<close> that two folders that differ in one entry
  have the same digest only if the hash collides on two different inputs.
\<close>

section \<open>Definitions\<close>

record folder_digest =
  fg_entries :: u64
  fg_sum :: "u64 list"

definition fg_default :: folder_digest where
  "fg_default = \<lparr>fg_entries = 0, fg_sum = [0, 0, 0, 0]\<rparr>"

primrec kind_code :: "path_entry_kind \<Rightarrow> u8" where
  "kind_code EntryDirectory = 0"
| "kind_code EntryFile = 1"
| "kind_code EntryLink = 2"

type_synonym folder_entry = "os_string \<times> path_entry_kind \<times> file_id option"

text \<open>The bytes hashed for an entry, and a hash of 32 bytes as four little-endian numbers.\<close>

definition term_input :: "folder_entry \<Rightarrow> bytes" where
  "term_input = (\<lambda>(name, kind, identity).
     u64_le (of_nat (length name)) @ name @ [kind_code kind] @
       (case identity of Some f \<Rightarrow> [1] @ append_file_id f [] | None \<Rightarrow> [0]))"

definition term_lanes :: "bytes \<Rightarrow> u64 list" where
  "term_lanes d = map (\<lambda>i. u64_from_le (take 8 (drop (8 * i) d))) [0..<4]"

definition fg_add :: "(bytes \<Rightarrow> bytes) \<Rightarrow> folder_entry \<Rightarrow> folder_digest \<Rightarrow> folder_digest" where
  "fg_add sha entry g =
     g\<lparr>fg_sum := map2 (+) (fg_sum g) (term_lanes (sha (term_input entry))), fg_entries := sat_add (fg_entries g) 1\<rparr>"

definition fg_eq :: "folder_digest \<Rightarrow> folder_digest \<Rightarrow> bool" where
  "fg_eq a b \<longleftrightarrow> fg_entries a = fg_entries b \<and> fg_sum a = fg_sum b"

definition fg_of :: "(bytes \<Rightarrow> bytes) \<Rightarrow> folder_entry list \<Rightarrow> folder_digest" where
  "fg_of sha entries = fold (fg_add sha) entries fg_default"

section \<open>The digest of a folder\<close>

lemma length_term_lanes [simp]: "length (term_lanes d) = 4"
  by (simp add: term_lanes_def)

lemma fg_add_commute: "fg_add sha x \<circ> fg_add sha y = fg_add sha y \<circ> fg_add sha x"
proof
  fix g
  have "map2 (+) (map2 (+) u v) w = map2 (+) (map2 (+) u w) v" for u v w :: "u64 list"
    by (rule nth_equalityI) (simp_all add: ac_simps)
  then show "(fg_add sha x \<circ> fg_add sha y) g = (fg_add sha y \<circ> fg_add sha x) g" by (simp add: fg_add_def)
qed

lemma digest_same: "mset xs = mset ys \<Longrightarrow> fg_of sha xs = fg_of sha ys"
  unfolding fg_of_def using fold_multiset_equiv [of xs "fg_add sha" ys] fg_add_commute by metis

lemma digest_fold:
  "length (fg_sum g) = 4 \<Longrightarrow>
    length (fg_sum (fold (fg_add sha) xs g)) = 4 \<and>
    (\<forall>i < 4. fg_sum (fold (fg_add sha) xs g) ! i = fg_sum g ! i + (\<Sum>x \<leftarrow> xs. term_lanes (sha (term_input x)) ! i)) \<and>
    unat (fg_entries (fold (fg_add sha) xs g)) = min (unat (fg_entries g) + length xs) (2 ^ 64 - 1)"
proof (induction xs arbitrary: g)
  case Nil
  then show ?case using unat_lt_pow [of "fg_entries g"] by simp
next
  case (Cons x xs)
  let ?h = "fg_add sha x g"
  have h: "length (fg_sum ?h) = 4" "unat (fg_entries ?h) = min (Suc (unat (fg_entries g))) (2 ^ 64 - 1)"
    using Cons.prems by (simp_all add: fg_add_def unat_sat_add)
  have "fg_sum ?h ! i = fg_sum g ! i + term_lanes (sha (term_input x)) ! i" if "i < 4" for i
    using Cons.prems that by (simp add: fg_add_def)
  then show ?case using Cons.IH [OF h(1)] h(2) by (simp add: add.assoc)
qed

lemma digest_of:
  "length (fg_sum (fg_of sha xs)) = 4" "unat (fg_entries (fg_of sha xs)) = min (length xs) (2 ^ 64 - 1)"
  "i < 4 \<Longrightarrow> fg_sum (fg_of sha xs) ! i = (\<Sum>x \<leftarrow> xs. term_lanes (sha (term_input x)) ! i)"
proof -
  have four: "[0, 0, 0, 0 :: u64] ! i = 0" if "i < 4" for i
    using that by (auto simp: less_Suc_eq numeral_eq_Suc)
  show "length (fg_sum (fg_of sha xs)) = 4" "unat (fg_entries (fg_of sha xs)) = min (length xs) (2 ^ 64 - 1)"
    "i < 4 \<Longrightarrow> fg_sum (fg_of sha xs) ! i = (\<Sum>x \<leftarrow> xs. term_lanes (sha (term_input x)) ! i)"
    using digest_fold [of fg_default sha xs] four [of i] by (simp_all add: fg_of_def fg_default_def)
qed

section \<open>What the digest tells apart\<close>

lemma term_input_inject:
  assumes "length (fst x) < 2 ^ 64" "length (fst y) < 2 ^ 64" "term_input x = term_input y"
  shows "x = y"
proof -
  obtain n k f m j g where xy: "x = (n, k, f)" "y = (m, j, g)" by (metis surj_pair)
  have "u64_le (of_nat (length n)) = u64_le (of_nat (length m))"
    using assms(3) unfolding xy term_input_def by (auto simp: append_eq_append_conv)
  then have "(of_nat (length n) :: u64) = of_nat (length m)" by simp
  moreover have "unat (of_nat (length n) :: u64) = length n" "unat (of_nat (length m) :: u64) = length m"
    using assms(1,2) xy by (simp_all add: unat_of_nat)
  ultimately have len: "length n = length m" by metis
  have rest: "n @ kind_code k # (case f of Some f \<Rightarrow> 1 # append_file_id f [] | None \<Rightarrow> [0]) =
      m @ kind_code j # (case g of Some f \<Rightarrow> 1 # append_file_id f [] | None \<Rightarrow> [0])"
    using assms(3) unfolding xy term_input_def by (simp add: len split: option.splits)
  then have "n = m" "kind_code k = kind_code j"
    "(case f of Some f \<Rightarrow> 1 # append_file_id f [] | None \<Rightarrow> [0]) = (case g of Some f \<Rightarrow> 1 # append_file_id f [] | None \<Rightarrow> [0])"
    using len by (simp_all add: append_eq_append_conv)
  then show ?thesis by (cases k; cases j; cases f; cases g) (simp_all add: xy flip: file_id_bytes_def)
qed

lemma term_lanes_inject:
  assumes "length a = 32" "length b = 32" "term_lanes a = term_lanes b"
  shows "a = b"
proof -
  have parts: "d = take 8 d @ take 8 (drop 8 d) @ take 8 (drop 16 d) @ take 8 (drop 24 d)" if "length d = 32" for d :: bytes
    by (rule nth_equalityI) (use that in \<open>auto simp: nth_append min_def\<close>)
  have "take 8 (drop (8 * i) a) = take 8 (drop (8 * i) b)" if "i < 4" for i
  proof -
    have "u64_from_le (take 8 (drop (8 * i) a)) = u64_from_le (take 8 (drop (8 * i) b))"
      using assms(3) that arg_cong [of _ _ "\<lambda>l. l ! i", OF assms(3)] by (simp add: term_lanes_def)
    moreover have "length (take 8 (drop (8 * i) a)) = 8" "length (take 8 (drop (8 * i) b)) = 8" using assms that by auto
    ultimately show ?thesis using int_le_from by metis
  qed
  from this [of 0] this [of 1] this [of 2] this [of 3] show ?thesis using parts [OF assms(1)] parts [OF assms(2)] by simp
qed

lemma digest_replace:
  assumes "\<And>x. length (sha x) = 32"
  shows "fg_of sha (x # xs) = fg_of sha (y # xs) \<longleftrightarrow> sha (term_input x) = sha (term_input y)"
proof
  assume eq: "fg_of sha (x # xs) = fg_of sha (y # xs)"
  have "term_lanes (sha (term_input x)) ! i = term_lanes (sha (term_input y)) ! i" if "i < 4" for i
    using digest_of(3) [OF that, of sha "x # xs"] digest_of(3) [OF that, of sha "y # xs"] eq by simp
  then have "term_lanes (sha (term_input x)) = term_lanes (sha (term_input y))" by (intro nth_equalityI) simp_all
  then show "sha (term_input x) = sha (term_input y)" using term_lanes_inject assms by blast
qed (simp add: fg_of_def fg_add_def)

end
