(* ===== verification/Scan_Page.thy ===== *)
theory Scan_Page
  imports Path_Reducer_Spec Path_Observation Ordered_Map Run_File "HOL-Library.Multiset"
begin

text \<open>
  Pages of direct children (\<open>src/src/scan_store/page.rs\<close>): requests, cursors, entries and pages,
  the order of the entries, and the provisional page that a scan in progress keeps for one folder.

  \<open>sort_unstable_by\<close> is an insertion sort: the comparison is only equal on equal paths, so every sort
  gives the same list when no path occurs twice.  \<open>BTreeMap\<close> is the ordered map of \<open>Ordered_Map\<close>, and
  the \<open>expect\<close> of \<open>observe\<close> is the value \<open>None\<close>.  What a provisional page promises is proved in
  \<open>Provisional_Page\<close>.
\<close>

section \<open>Requests, entries and pages\<close>

definition MAX_PAGE_ENTRIES :: nat where "MAX_PAGE_ENTRIES = 4096"

record page_cursor =
  cur_path :: relative_path
  cur_represented_bytes :: u128

record page_request =
  rq_folder :: relative_path
  rq_after :: "page_cursor option"
  rq_limit :: nat

definition request_first :: "relative_path \<Rightarrow> nat \<Rightarrow> page_request" where
  "request_first folder limit = \<lparr>rq_folder = folder, rq_after = None, rq_limit = limit\<rparr>"

definition request_after :: "relative_path \<Rightarrow> page_cursor \<Rightarrow> nat \<Rightarrow> page_request" where
  "request_after folder after limit = \<lparr>rq_folder = folder, rq_after = Some after, rq_limit = limit\<rparr>"

datatype page_entry_kind = PageDirectory | PageFile | PageLink

definition pk_is_directory :: "page_entry_kind \<Rightarrow> bool" where
  "pk_is_directory k \<longleftrightarrow> k = PageDirectory"

record scan_page_entry =
  pe_path :: relative_path
  pe_kind :: page_entry_kind
  pe_metrics :: summary_metrics
  pe_coverage :: coverage
  pe_snapshot :: "entry_snapshot option"

definition represented_bytes :: "scan_page_entry \<Rightarrow> u128" where
  "represented_bytes e = bb_lower (sm_allocated_bytes (pe_metrics e))"

definition cursor_from_entry :: "scan_page_entry \<Rightarrow> page_cursor" where
  "cursor_from_entry e = \<lparr>cur_path = pe_path e, cur_represented_bytes = represented_bytes e\<rparr>"

definition cursor_at :: "relative_path \<Rightarrow> u128 \<Rightarrow> page_cursor" where
  "cursor_at path bytes = \<lparr>cur_path = path, cur_represented_bytes = bytes\<rparr>"

record shared_allocation_summary =
  sh_metrics :: summary_metrics
  sh_coverage :: coverage

record scan_page =
  pg_generation :: u64
  pg_folder :: relative_path
  pg_folder_metrics :: summary_metrics
  pg_folder_coverage :: coverage
  pg_root_metrics :: summary_metrics
  pg_root_coverage :: coverage
  pg_entries :: "scan_page_entry list"
  pg_next_after :: "page_cursor option"
  pg_shared_allocation :: "shared_allocation_summary option"
  pg_unrecorded_path_count :: u64

datatype page_record_error =
    RecordFileId file_id_codec_error
  | RecordPathKey path_key_error
  | RecordPathObservation path_observation_codec_error
  | RecordSummaryMetrics summary_metrics_codec_error
  | RecordMalformed

datatype 'io scan_page_error =
    PageRun "'io run_error"
  | PagePathKey path_key_error
  | PageRecord page_record_error
  | InvalidLimit
  | InvalidCursor
  | MissingFolder
  | NotDirectory
  | LivePagePagination
  | PagePanic

section \<open>Paths, order and metrics\<close>

definition direct_child_under :: "relative_path \<Rightarrow> relative_path \<Rightarrow> ('io scan_page_error, relative_path) res" where
  "direct_child_under folder path =
     (if \<not> starts_with path folder \<or> depth path \<le> depth folder then Inl (PageRecord RecordMalformed)
      else map_err (\<lambda>_. PageRecord RecordMalformed) (from_components (take (usize_sat_add (depth folder) 1) path)))"

definition relative_parent :: "relative_path \<Rightarrow> relative_path option" where
  "relative_parent path = (if is_root path then None else Some (take (depth path - 1) path))"

definition compare_page_entries :: "scan_page_entry \<Rightarrow> scan_page_entry \<Rightarrow> ordering" where
  "compare_page_entries left right =
     then_with (cmp (represented_bytes right) (represented_bytes left)) (rp_cmp (pe_path left) (pe_path right))"

definition is_after_cursor :: "scan_page_entry \<Rightarrow> page_cursor \<Rightarrow> bool" where
  "is_after_cursor e after \<longleftrightarrow> represented_bytes e < cur_represented_bytes after \<or>
     (represented_bytes e = cur_represented_bytes after \<and> rp_cmp (pe_path e) (cur_path after) = OrdGreater)"

definition validate_page_request :: "page_request \<Rightarrow> ('io scan_page_error, unit) res" where
  "validate_page_request rq =
     (if rq_limit rq = 0 \<or> rq_limit rq > MAX_PAGE_ENTRIES then Inl InvalidLimit
      else if (case rq_after rq of None \<Rightarrow> False | Some after \<Rightarrow> \<not> is_direct_child_of (cur_path after) (rq_folder rq))
      then Inl InvalidCursor
      else Inr ())"

definition combine_coverage :: "coverage \<Rightarrow> coverage \<Rightarrow> coverage" where
  "combine_coverage left right =
     (if left = CoverageUncertain \<or> right = CoverageUncertain then CoverageUncertain else CoverageComplete)"

definition merge_metrics :: "summary_metrics \<Rightarrow> summary_metrics \<Rightarrow> summary_metrics" where
  "merge_metrics target source =
     target\<lparr>sm_apparent_bytes := sat_add (sm_apparent_bytes target) (sm_apparent_bytes source),
       sm_allocated_bytes := bb_add (sm_allocated_bytes target) (sm_allocated_bytes source),
       sm_reclaimable_bytes := bb_add (sm_reclaimable_bytes target) (sm_reclaimable_bytes source),
       sm_descendants := sat_add (sm_descendants target) (sm_descendants source)\<rparr>"

definition add_child_metrics :: "summary_metrics \<Rightarrow> summary_metrics \<Rightarrow> summary_metrics" where
  "add_child_metrics target child =
     (let target = merge_metrics target child in target\<lparr>sm_descendants := sat_add (sm_descendants target) 1\<rparr>)"

definition mark_metrics_uncertain :: "summary_metrics \<Rightarrow> summary_metrics" where
  "mark_metrics_uncertain m =
     m\<lparr>sm_allocated_bytes := (sm_allocated_bytes m)\<lparr>bb_upper := None\<rparr>,
       sm_reclaimable_bytes := (sm_reclaimable_bytes m)\<lparr>bb_upper := None\<rparr>\<rparr>"

definition clear_uncertain_physical_bounds :: "summary_metrics \<Rightarrow> coverage \<Rightarrow> summary_metrics" where
  "clear_uncertain_physical_bounds m cov =
     (if cov = CoverageUncertain
      then m\<lparr>sm_allocated_bytes := (sm_allocated_bytes m)\<lparr>bb_upper := None\<rparr>,
             sm_reclaimable_bytes := (sm_reclaimable_bytes m)\<lparr>bb_upper := None\<rparr>\<rparr>
      else m)"

definition bounds_are_exact :: "byte_bounds \<Rightarrow> bool" where
  "bounds_are_exact b \<longleftrightarrow> bb_upper b = Some (bb_lower b)"

definition add_physical :: "summary_metrics \<Rightarrow> byte_bounds \<Rightarrow> byte_bounds \<Rightarrow> summary_metrics" where
  "add_physical m allocated reclaimable =
     m\<lparr>sm_allocated_bytes := bb_add (sm_allocated_bytes m) allocated,
       sm_reclaimable_bytes := bb_add (sm_reclaimable_bytes m) reclaimable\<rparr>"

primrec page_entry_kind_of :: "path_entry_kind \<Rightarrow> page_entry_kind" where
  "page_entry_kind_of EntryDirectory = PageDirectory"
| "page_entry_kind_of EntryFile = PageFile"
| "page_entry_kind_of EntryLink = PageLink"

text \<open>\<open>slice::sort_unstable_by\<close> and \<open>Iterator::max_by\<close>.\<close>

fun insert_by :: "('a \<Rightarrow> 'a \<Rightarrow> ordering) \<Rightarrow> 'a \<Rightarrow> 'a list \<Rightarrow> 'a list" where
  "insert_by c x [] = [x]"
| "insert_by c x (y # ys) = (if c y x = OrdGreater then x # y # ys else y # insert_by c x ys)"

definition sort_by :: "('a \<Rightarrow> 'a \<Rightarrow> ordering) \<Rightarrow> 'a list \<Rightarrow> 'a list" where
  "sort_by c xs = foldl (\<lambda>acc x. insert_by c x acc) [] xs"

definition max_by :: "('a \<Rightarrow> 'a \<Rightarrow> ordering) \<Rightarrow> 'a list \<Rightarrow> 'a option" where
  "max_by c xs = (case xs of [] \<Rightarrow> None | x # xs \<Rightarrow> Some (foldl (\<lambda>a b. if c a b = OrdGreater then a else b) x xs))"

section \<open>The provisional page\<close>

record provisional_entry =
  pv_kind :: path_entry_kind
  pv_metrics :: summary_metrics
  pv_coverage :: coverage
  pv_snapshot :: "entry_snapshot option"

record provisional_page =
  pp_generation :: u64
  pp_folder :: relative_path
  pp_limit :: nat
  pp_folder_kind :: "path_entry_kind option"
  pp_folder_metrics :: summary_metrics
  pp_root_metrics :: summary_metrics
  pp_entries :: "(relative_path, provisional_entry) omap"

definition pv_observe :: "path_observation \<Rightarrow> bool \<Rightarrow> provisional_entry \<Rightarrow> provisional_entry" where
  "pv_observe ob is_direct e =
     (if is_direct then
        e\<lparr>pv_kind := po_kind ob, pv_metrics := merge_metrics (pv_metrics e) (po_metrics ob),
          pv_coverage := combine_coverage (pv_coverage e) (po_coverage ob), pv_snapshot := po_snapshot ob\<rparr>
      else
        e\<lparr>pv_metrics := add_child_metrics (pv_metrics e) (po_metrics ob),
          pv_coverage := combine_coverage (pv_coverage e) (po_coverage ob)\<rparr>)"

definition pv_from_observation :: "path_observation \<Rightarrow> bool \<Rightarrow> provisional_entry" where
  "pv_from_observation ob is_direct =
     pv_observe ob is_direct
       \<lparr>pv_kind = EntryDirectory, pv_metrics = sm_default, pv_coverage = CoverageComplete, pv_snapshot = None\<rparr>"

definition pv_page_entry :: "relative_path \<times> provisional_entry \<Rightarrow> scan_page_entry" where
  "pv_page_entry = (\<lambda>(path, e).
     let uncertain = pv_kind e = EntryDirectory \<or> pv_snapshot e = None in
     \<lparr>pe_path = path, pe_kind = page_entry_kind_of (pv_kind e),
      pe_metrics = (if uncertain then mark_metrics_uncertain (pv_metrics e) else pv_metrics e),
      pe_coverage = (if uncertain then CoverageUncertain else pv_coverage e), pe_snapshot = pv_snapshot e\<rparr>)"

definition compare_provisional_entries ::
    "relative_path \<times> provisional_entry \<Rightarrow> relative_path \<times> provisional_entry \<Rightarrow> ordering" where
  "compare_provisional_entries = (\<lambda>(left_path, left) (right_path, right).
     then_with (cmp (bb_lower (sm_allocated_bytes (pv_metrics right))) (bb_lower (sm_allocated_bytes (pv_metrics left))))
       (rp_cmp left_path right_path))"

definition pp_new :: "u64 \<Rightarrow> page_request \<Rightarrow> ('io scan_page_error, provisional_page) res" where
  "pp_new generation rq =
     res_bind (validate_page_request rq) (\<lambda>_.
     if rq_after rq \<noteq> None then Inl LivePagePagination
     else Inr \<lparr>pp_generation = generation, pp_folder = rq_folder rq, pp_limit = rq_limit rq,
       pp_folder_kind = (if is_root (rq_folder rq) then Some EntryDirectory else None),
       pp_folder_metrics = sm_default, pp_root_metrics = sm_default, pp_entries = []\<rparr>)"

definition pp_matches :: "page_request \<Rightarrow> provisional_page \<Rightarrow> bool" where
  "pp_matches rq p \<longleftrightarrow> rq_after rq = None \<and> pp_folder p = rq_folder rq \<and> pp_limit p = rq_limit rq"

definition pp_insert :: "relative_path \<Rightarrow> provisional_entry \<Rightarrow> provisional_page \<Rightarrow> provisional_page" where
  "pp_insert path e p =
     (if length (pp_entries p) < pp_limit p then p\<lparr>pp_entries := om_insert path e (pp_entries p)\<rparr>
      else
        case max_by compare_provisional_entries (pp_entries p) of
          None \<Rightarrow> p
        | Some worst \<Rightarrow>
            if compare_provisional_entries (path, e) worst = OrdLess
            then p\<lparr>pp_entries := om_insert path e (om_remove (fst worst) (pp_entries p))\<rparr>
            else p)"

definition pp_observe :: "path_observation \<Rightarrow> provisional_page \<Rightarrow> provisional_page option" where
  "pp_observe ob p =
     (let p = p\<lparr>pp_root_metrics := add_child_metrics (pp_root_metrics p) (po_metrics ob)\<rparr> in
      if po_path ob = pp_folder p then
        Some (p\<lparr>pp_folder_kind := Some (po_kind ob), pp_folder_metrics := merge_metrics (pp_folder_metrics p) (po_metrics ob)\<rparr>)
      else if \<not> starts_with (po_path ob) (pp_folder p) then Some p
      else
        let p = p\<lparr>pp_folder_metrics := add_child_metrics (pp_folder_metrics p) (po_metrics ob)\<rparr> in
        case (direct_child_under (pp_folder p) (po_path ob) :: (unit scan_page_error, relative_path) res) of
          Inl _ \<Rightarrow> None
        | Inr child \<Rightarrow>
            let is_direct = (child = po_path ob) in
            (case om_get (pp_entries p) child of
               Some e \<Rightarrow> Some (p\<lparr>pp_entries := om_insert child (pv_observe ob is_direct e) (pp_entries p)\<rparr>)
             | None \<Rightarrow> Some (pp_insert child (pv_from_observation ob is_direct) p)))"

definition pp_page :: "u64 \<Rightarrow> provisional_page \<Rightarrow> ('io scan_page_error, scan_page) res" where
  "pp_page unrecorded_path_count p =
     res_bind
       (if is_root (pp_folder p) then Inr ()
        else case pp_folder_kind p of
            Some EntryDirectory \<Rightarrow> Inr ()
          | Some _ \<Rightarrow> Inl NotDirectory
          | None \<Rightarrow> Inl MissingFolder) (\<lambda>_.
     Inr \<lparr>pg_generation = pp_generation p, pg_folder = pp_folder p,
       pg_folder_metrics = mark_metrics_uncertain (pp_folder_metrics p), pg_folder_coverage = CoverageUncertain,
       pg_root_metrics = mark_metrics_uncertain (pp_root_metrics p), pg_root_coverage = CoverageUncertain,
       pg_entries = sort_by compare_page_entries (map pv_page_entry (pp_entries p)),
       pg_next_after = None, pg_shared_allocation = None, pg_unrecorded_path_count = unrecorded_path_count\<rparr>)"

section \<open>Facts\<close>

text \<open>The order of the entries: more bytes first, then the path.\<close>

definition page_rank :: "scan_page_entry \<Rightarrow> u128 \<times> relative_path" where
  "page_rank e = (- 1 - represented_bytes e, pe_path e)"

lemma reversed_less: "- 1 - a < - 1 - b \<longleftrightarrow> b < a" for a b :: "'a::len word"
proof -
  have u: "unat (- 1 - w) = 2 ^ LENGTH('a) - 1 - unat w" for w :: "'a word"
    by (simp add: unat_sub unat_minus_one_word)
  have arith: "x < N \<Longrightarrow> y < N \<Longrightarrow> N - 1 - x < N - 1 - y \<longleftrightarrow> y < x" for x y N :: nat by arith
  show ?thesis unfolding word_less_nat_alt u by (rule arith) (rule unat_lt_pow)+
qed

lemma reversed_le: "- 1 - a \<le> - 1 - b \<longleftrightarrow> b \<le> a" for a b :: "'a::len word"
  using reversed_less [of b a] by (simp add: not_less [symmetric])

lemma then_with_cmp: "then_with (cmp a b) (cmp x y) = cmp (a, x) (b, y)"
  by (auto simp: cmp_def then_with_def less_prod_def)

lemma cmp_reversed: "cmp (- 1 - a) (- 1 - b) = cmp b a" for a b :: "'a::len word"
  by (auto simp: cmp_def reversed_less)

lemma compare_page_entries_rank: "compare_page_entries e f = cmp (page_rank e) (page_rank f)"
  unfolding compare_page_entries_def page_rank_def rp_cmp_cmp then_with_cmp [symmetric] cmp_reversed by (rule refl)

lemma is_after_cursor_rank: "is_after_cursor e (cursor_from_entry f) \<longleftrightarrow> page_rank f < page_rank e"
  by (auto simp: is_after_cursor_def cursor_from_entry_def page_rank_def rp_cmp_cmp reversed_less reversed_le)

text \<open>Sorting by a key.\<close>

lemma insert_by_insort: "(\<And>a b. c a b = cmp (k a) (k b)) \<Longrightarrow> sorted (map k xs) \<Longrightarrow> k x \<notin> k ` set xs \<Longrightarrow>
    insert_by c x xs = insort_key k x xs"
  by (induction xs) (auto simp: not_less)

lemma sort_by_sort_key:
  assumes "\<And>a b. c a b = cmp (k a) (k b)" "distinct (map k xs)"
  shows "sort_by c xs = sort_key k xs"
  using assms(2)
proof (induction xs rule: rev_induct)
  case (snoc x xs)
  have "sort_by c (xs @ [x]) = insert_by c x (sort_key k xs)" using snoc by (simp add: sort_by_def)
  also have "\<dots> = insort_key k x (sort_key k xs)" using snoc.prems by (intro insert_by_insort assms(1)) auto
  also have "\<dots> = sort_key k (xs @ [x])"
  proof (rule sort_key_inj_key_eq [symmetric])
    show "inj_on k (set (xs @ [x]))" using snoc.prems by (simp only: distinct_map)
  qed (simp_all add: sorted_insort_key)
  finally show ?case .
qed (simp add: sort_by_def)

text \<open>The greatest element of a list.\<close>

lemma max_by_Some:
  assumes "\<And>a b. c a b = cmp (k a) (k b)" "max_by c xs = Some x"
  shows "x \<in> set xs" "\<forall>y \<in> set xs. k y \<le> (k x :: 'b::linorder)"
proof -
  let ?f = "\<lambda>a b. if c a b = OrdGreater then a else b"
  have "foldl ?f a ys \<in> insert a (set ys) \<and> (\<forall>y \<in> insert a (set ys). k y \<le> k (foldl ?f a ys))" for a ys
  proof (induction ys arbitrary: a)
    case (Cons y ys)
    from Cons.IH [of a] Cons.IH [of y] show ?case by (auto simp: assms(1) not_less)
  qed simp
  then show "x \<in> set xs" "\<forall>y \<in> set xs. k y \<le> k x" using assms(2) by (cases xs; auto simp: max_by_def)+
qed

lemma max_by_None [simp]: "max_by c xs = None \<longleftrightarrow> xs = []"
  by (cases xs) (simp_all add: max_by_def)

lemma direct_child_under_Inr:
  assumes "strict_prefix folder path" "relative_path_ok path" "vec_sized path"
  shows "direct_child_under folder path = (Inr (take (Suc (length folder)) path) :: ('io scan_page_error, _) res)"
proof -
  have "length folder < length path" "prefix folder path" using assms(1) by (auto simp: strict_prefix_def prefix_def)
  moreover then have "usize_sat_add (depth folder) 1 = Suc (length folder)" using assms(3) by (simp add: usize_sat_add_def depth_def)
  ultimately show ?thesis
    using assms(2) by (simp add: direct_child_under_def starts_with_prefix depth_def from_components_ok relative_path_ok_take)
qed

end
