(* ===== verification/Provisional_Page.thy ===== *)
theory Provisional_Page
  imports Scan_Page Summary_Pipeline
begin

text \<open>
  What a provisional page shows.  \<open>live_total\<close> is the total of the observations at or below a path, in
  the monoid of contributions of \<open>Path_Reducer_Spec\<close>; \<open>entry_of\<close> is the entry that a list of
  observations makes for one child.  \<open>live_inv\<close> relates a page to everything it observed: it never holds
  more than its limit, every entry is the exact aggregate of the observations since the child was last
  taken in, and as long as the folder has no more children than the limit the page is the exact aggregate
  of all of them.
\<close>

section \<open>Passes over observations\<close>

primrec pp_observe_all :: "path_observation list \<Rightarrow> provisional_page \<Rightarrow> provisional_page option" where
  "pp_observe_all [] p = Some p"
| "pp_observe_all (x # xs) p = Option.bind (pp_observe x p) (pp_observe_all xs)"

text \<open>\<open>observe_run\<close>, over the reader of the run; the state \<open>None\<close> is the failed \<open>expect\<close>.\<close>

definition pp_observe_run :: "(bytes \<Rightarrow> bytes) \<Rightarrow> (u64 \<Rightarrow> 'io option) \<Rightarrow> run_reader \<Rightarrow> provisional_page \<Rightarrow>
    ('io path_observation_run_error, provisional_page option \<times> run_reader) res" where
  "pp_observe_run sha running r p =
     visit_path_observations sha running (\<lambda>ob p. Inr (Option.bind p (pp_observe ob))) r (Some p)"

lemma observe_visit_all:
  assumes "list_all2 observation_record obs rs"
  shows "visit_all (\<lambda>key val s. res_bind (map_err ObservationCodec (decode_path_observation key val))
      (\<lambda>ob. Inr (Option.bind s (pp_observe ob)))) rs s = Inr (Option.bind s (pp_observe_all obs))"
  using assms
proof (induction obs rs arbitrary: s rule: list_all2_induct)
  case Nil
  then show ?case by (cases s) simp_all
next
  case (Cons x xs y ys)
  then show ?case using observation_record_decode [of x y] by (cases s) simp_all
qed

lemma observe_run_at:
  fixes running :: "u64 \<Rightarrow> 'io option"
  assumes at: "reader_at sha r rs bs N B" and sha: "\<And>x. length (sha x) = 32" and run: "\<And>n. running n = None"
    and obs: "list_all2 observation_record obs (rs @ concat bs)" and kind: "rd_kind (rr_descriptor r) = RunPathObservation"
  shows "\<exists>r'. rr_finished r' \<and> pp_observe_run sha running r p = Inr (pp_observe_all obs p, r')"
proof -
  obtain r' where "rr_finished r'" "rr_visit sha running ObservationRun
      (\<lambda>key val s. res_bind (map_err ObservationCodec (decode_path_observation key val))
        (\<lambda>ob. Inr (Option.bind s (pp_observe ob)))) r (Some p) = Inr (pp_observe_all obs p, r')"
    using rr_visit_at [where running = running, OF at sha run, of ObservationRun "\<lambda>key val s.
      res_bind (map_err ObservationCodec (decode_path_observation key val)) (\<lambda>ob. Inr (Option.bind s (pp_observe ob)))" "Some p"]
    by (auto simp: observe_visit_all [OF obs])
  then show ?thesis using kind by (auto simp: pp_observe_run_def visit_path_observations_def)
qed

section \<open>Totals\<close>

definition live_part :: "relative_path \<Rightarrow> path_observation \<Rightarrow> contribution" where
  "live_part c x = cplus (po_metrics x, po_coverage x) (if po_path x = c then czero else cone)"

definition live_total :: "relative_path \<Rightarrow> path_observation list \<Rightarrow> contribution" where
  "live_total c xs = ctotal (map (live_part c) (filter (\<lambda>x. prefix c (po_path x)) xs))"

definition pv_default :: provisional_entry where
  "pv_default = \<lparr>pv_kind = EntryDirectory, pv_metrics = sm_default, pv_coverage = CoverageComplete, pv_snapshot = None\<rparr>"

definition entry_of :: "relative_path \<Rightarrow> path_observation list \<Rightarrow> provisional_entry" where
  "entry_of c xs = foldl (\<lambda>e x. pv_observe x (c = po_path x) e) pv_default (filter (\<lambda>x. prefix c (po_path x)) xs)"

definition child_of :: "relative_path \<Rightarrow> path_observation \<Rightarrow> relative_path" where
  "child_of f x = take (Suc (length f)) (po_path x)"

definition children :: "relative_path \<Rightarrow> path_observation list \<Rightarrow> relative_path set" where
  "children f xs = child_of f ` {x \<in> set xs. strict_prefix f (po_path x)}"

lemma merge_metrics_plus: "merge_metrics a b = sm_plus a b"
  by (simp add: merge_metrics_def sm_plus_def)

lemma add_child_metrics_plus: "add_child_metrics a b = sm_plus a (fst (cplus (b, cov) cone))"
  by (simp add: add_child_metrics_def merge_metrics_plus sm_plus_def cplus_def cone_def sm_default_def Let_def sat_add_assoc)

lemma combine_coverage_eq: "combine_coverage = coverage_combine"
  by (intro ext) (simp add: combine_coverage_def coverage_combine_def)

lemma live_total_snoc:
  "live_total c (xs @ [x]) = (if prefix c (po_path x) then cplus (live_total c xs) (live_part c x) else live_total c xs)"
  by (simp add: live_total_def ctotal_append)

lemma live_total_append: "live_total c (xs @ ys) = cplus (live_total c xs) (live_total c ys)"
  by (simp add: live_total_def ctotal_append)

lemma entry_of_snoc:
  "entry_of c (xs @ [x]) = (if prefix c (po_path x) then pv_observe x (c = po_path x) (entry_of c xs) else entry_of c xs)"
  by (simp add: entry_of_def)

lemma entry_of_Nil: "entry_of c [] = pv_default"
  by (simp add: entry_of_def)

lemma pv_observe_plus:
  "(pv_metrics (pv_observe x d e), pv_coverage (pv_observe x d e)) =
     cplus (pv_metrics e, pv_coverage e) (cplus (po_metrics x, po_coverage x) (if d then czero else cone))"
  using add_child_metrics_plus [of "pv_metrics e" "po_metrics x" "po_coverage x"]
  by (simp add: pv_observe_def combine_coverage_eq merge_metrics_plus cplus_def [of "(pv_metrics e, pv_coverage e)"])
    (simp add: cplus_def cone_def)

lemma entry_of_total: "(pv_metrics (entry_of c xs), pv_coverage (entry_of c xs)) = live_total c xs"
proof (induction xs rule: rev_induct)
  case Nil
  then show ?case by (simp add: entry_of_Nil pv_default_def live_total_def czero_def)
next
  case (snoc x xs)
  then show ?case
    using pv_observe_plus [of x "c = po_path x" "entry_of c xs"]
    by (auto simp: entry_of_snoc live_total_snoc live_part_def)
qed

lemma from_observation_entry: "prefix c (po_path x) \<Longrightarrow> pv_from_observation x (c = po_path x) = entry_of c [x]"
  by (simp add: entry_of_def pv_from_observation_def pv_default_def)

lemma entry_of_unseen: "\<forall>x \<in> set xs. \<not> prefix c (po_path x) \<Longrightarrow> entry_of c (xs @ ys) = entry_of c ys"
  by (simp add: entry_of_def)

section \<open>Children\<close>

lemma child_prefix_iff:
  assumes "strict_prefix f (po_path x)"
  shows "prefix (f @ [a]) (po_path x) \<longleftrightarrow> f @ [a] = child_of f x"
proof -
  obtain b q where "po_path x = f @ b # q" using assms by (metis strict_prefixE' append_Cons)
  then show ?thesis by (simp add: child_of_def)
qed

lemma child_of_form: "strict_prefix f (po_path x) \<Longrightarrow> \<exists>a. child_of f x = f @ [a]"
proof -
  assume "strict_prefix f (po_path x)"
  then obtain b q where "po_path x = f @ b # q" by (metis strict_prefixE' append_Cons)
  then show ?thesis by (simp add: child_of_def)
qed

lemma not_below_child: "\<not> strict_prefix f (po_path x) \<Longrightarrow> \<not> prefix (f @ [a]) (po_path x)"
  by (metis append_prefixD prefix_order.le_less prefix_snoc prefix_order.antisym_conv1 prefix_order.dual_order.trans prefixI
      same_prefix_nil append_Nil2 strict_prefix_def not_Cons_self2 append_self_conv)

lemma children_snoc:
  "children f (xs @ [x]) = (if strict_prefix f (po_path x) then insert (child_of f x) (children f xs) else children f xs)"
  by (auto simp: children_def)

lemma children_iff: "f @ [a] \<in> children f xs \<longleftrightarrow> (\<exists>x \<in> set xs. prefix (f @ [a]) (po_path x))"
proof -
  have "prefix (f @ [a]) (po_path x) \<longleftrightarrow> strict_prefix f (po_path x) \<and> f @ [a] = child_of f x" for x
    using child_prefix_iff [of f x a] not_below_child [of f x a] by blast
  then show ?thesis by (auto simp: children_def)
qed

lemma finite_children [simp]: "finite (children f xs)"
  by (simp add: children_def)

section \<open>The invariant\<close>

definition folder_kind_of :: "relative_path \<Rightarrow> path_observation list \<Rightarrow> path_entry_kind option" where
  "folder_kind_of f xs =
     foldl (\<lambda>k x. if po_path x = f then Some (po_kind x) else k) (if f = [] then Some EntryDirectory else None) xs"

definition live_inv :: "u64 \<Rightarrow> relative_path \<Rightarrow> nat \<Rightarrow> path_observation list \<Rightarrow> provisional_page \<Rightarrow> bool" where
  "live_inv g f limit xs p \<longleftrightarrow>
     pp_generation p = g \<and> pp_folder p = f \<and> pp_limit p = limit \<and> om_wf (pp_entries p) \<and> length (pp_entries p) \<le> limit \<and>
     pp_folder_kind p = folder_kind_of f xs \<and> pp_folder_metrics p = fst (live_total f xs) \<and>
     pp_root_metrics p = fst (ctotal (map (\<lambda>x. cplus (po_metrics x, po_coverage x) cone) xs)) \<and>
     (\<forall>c e. (c, e) \<in> set (pp_entries p) \<longrightarrow>
        c \<in> children f xs \<and> (\<exists>pre post. xs = pre @ post \<and> e = entry_of c post)) \<and>
     (card (children f xs) \<le> limit \<longrightarrow>
        fst ` set (pp_entries p) = children f xs \<and> (\<forall>c e. (c, e) \<in> set (pp_entries p) \<longrightarrow> e = entry_of c xs))"

text \<open>The parts of the invariant that an observation changes without touching the entries.\<close>

definition live_totals :: "relative_path \<Rightarrow> path_observation list \<Rightarrow> provisional_page \<Rightarrow> bool" where
  "live_totals f xs p \<longleftrightarrow> pp_folder_kind p = folder_kind_of f xs \<and> pp_folder_metrics p = fst (live_total f xs) \<and>
     pp_root_metrics p = fst (ctotal (map (\<lambda>x. cplus (po_metrics x, po_coverage x) cone) xs))"

definition live_entries :: "relative_path \<Rightarrow> nat \<Rightarrow> path_observation list \<Rightarrow> (relative_path, provisional_entry) omap \<Rightarrow> bool" where
  "live_entries f limit xs m \<longleftrightarrow> om_wf m \<and> length m \<le> limit \<and>
     (\<forall>c e. (c, e) \<in> set m \<longrightarrow> c \<in> children f xs \<and> (\<exists>pre post. xs = pre @ post \<and> e = entry_of c post)) \<and>
     (card (children f xs) \<le> limit \<longrightarrow>
        fst ` set m = children f xs \<and> (\<forall>c e. (c, e) \<in> set m \<longrightarrow> e = entry_of c xs))"

lemma live_inv_iff:
  "live_inv g f limit xs p \<longleftrightarrow> pp_generation p = g \<and> pp_folder p = f \<and> pp_limit p = limit \<and>
     live_entries f limit xs (pp_entries p) \<and> live_totals f xs p"
  unfolding live_inv_def live_entries_def live_totals_def by blast

lemma children_form: "c \<in> children f xs \<Longrightarrow> \<exists>a. c = f @ [a]"
  using child_of_form by (auto simp: children_def)

lemma live_entriesD:
  assumes "live_entries f limit xs m" "(c, e) \<in> set m"
  shows "c \<in> children f xs" "\<exists>pre post. xs = pre @ post \<and> e = entry_of c post"
    "card (children f xs) \<le> limit \<Longrightarrow> e = entry_of c xs"
  using assms unfolding live_entries_def by blast+

text \<open>An observation outside a child does not change its entry.\<close>

lemma live_entries_outside:
  assumes "live_entries f limit xs m" "\<not> strict_prefix f (po_path x)"
  shows "live_entries f limit (xs @ [x]) m"
proof -
  have same: "children f (xs @ [x]) = children f xs" using assms(2) by (simp add: children_snoc)
  have eq: "entry_of c (ys @ [x]) = entry_of c ys" if "c \<in> children f xs" for c ys
    using children_form [OF that] not_below_child [OF assms(2)] by (auto simp: entry_of_snoc)
  have "\<exists>pre post. xs @ [x] = pre @ post \<and> e = entry_of c post" if mem: "(c, e) \<in> set m" for c e
  proof -
    obtain pre post where "xs = pre @ post" "e = entry_of c post" "c \<in> children f xs"
      using live_entriesD [OF assms(1) mem] by blast
    then show ?thesis using eq by (intro exI [of _ pre] exI [of _ "post @ [x]"]) simp
  qed
  then show ?thesis using assms(1) eq unfolding live_entries_def same by auto
qed

lemma live_entries_update:
  assumes inv: "live_entries f limit xs m" and x: "strict_prefix f (po_path x)" and get: "om_get m (child_of f x) = Some e"
  shows "live_entries f limit (xs @ [x]) (om_insert (child_of f x) (pv_observe x (child_of f x = po_path x) e) m)"
proof -
  let ?c = "child_of f x" and ?e = "pv_observe x (child_of f x = po_path x) e"
  have wf: "om_wf m" using inv by (simp add: live_entries_def)
  have mem: "(?c, e) \<in> set m" using om_get_mem [OF get] .
  have inc: "?c \<in> children f xs" using inv mem by (auto simp: live_entries_def)
  then have same: "children f (xs @ [x]) = children f xs" by (auto simp: children_snoc)
  have pre: "prefix ?c (po_path x)" by (simp add: child_of_def take_is_prefix)
  have eq: "entry_of c (ys @ [x]) = (if c = ?c then pv_observe x (?c = po_path x) (entry_of c ys) else entry_of c ys)"
    if "c \<in> children f xs" for c ys
    using children_form [OF that] child_prefix_iff [OF x] pre by (auto simp: entry_of_snoc)
  have keys: "fst ` set (om_insert ?c ?e m) = fst ` set m" using mem by (force simp: om_keys_insert)
  have len: "length (om_insert ?c ?e m) = length m"
    using length_om_insert [OF wf] get by simp
  have ent: "c \<in> children f xs \<and> (\<exists>pre post. xs @ [x] = pre @ post \<and> e' = entry_of c post)"
    if new: "(c, e') \<in> set (om_insert ?c ?e m)" for c e'
  proof -
    obtain d where d: "(c, d) \<in> set m" "e' = (if c = ?c then pv_observe x (?c = po_path x) d else d)"
    proof (cases "c = ?c")
      case True
      then show thesis using that [of e] new mem by (simp add: set_om_insert)
    next
      case False
      then show thesis using that [of e'] new by (simp add: set_om_insert)
    qed
    then obtain pre post where "xs = pre @ post" "d = entry_of c post" "c \<in> children f xs"
      using live_entriesD [OF inv d(1)] by blast
    then show ?thesis using eq d(2) by (intro conjI exI [of _ pre] exI [of _ "post @ [x]"]) simp_all
  qed
  have exact: "fst ` set (om_insert ?c ?e m) = children f xs \<and> (\<forall>c e'. (c, e') \<in> set (om_insert ?c ?e m) \<longrightarrow> e' = entry_of c (xs @ [x]))"
    if "card (children f xs) \<le> limit"
  proof -
    have all: "fst ` set m = children f xs" "\<And>c d. (c, d) \<in> set m \<Longrightarrow> d = entry_of c xs"
      using inv that unfolding live_entries_def by blast+
    have "e' = entry_of c (xs @ [x])" if "(c, e') \<in> set (om_insert ?c ?e m)" for c e'
    proof -
      have "c \<in> children f xs" using ent [OF that] by blast
      note eq = eq [OF this, of xs]
      show ?thesis
      proof (cases "c = ?c")
        case True
        then show ?thesis using that all(2) [OF mem] eq by (simp add: set_om_insert)
      next
        case False
        then show ?thesis using that all(2) [of c e'] eq by (simp add: set_om_insert)
      qed
    qed
    then show ?thesis unfolding keys all(1) by (intro conjI allI impI refl)
  qed
  have "length (om_insert ?c ?e m) \<le> limit" using len inv by (simp add: live_entries_def)
  then show ?thesis unfolding live_entries_def same using om_wf_insert [OF wf] ent exact by blast
qed

lemma live_entries_take_in:
  assumes inv: "live_entries f limit xs m" and x: "strict_prefix f (po_path x)" and get: "om_get m (child_of f x) = None"
    and sub: "om_wf m'" "set m' \<subseteq> set m" "Suc (length m') \<le> limit" "card (children f (xs @ [x])) \<le> limit \<Longrightarrow> m' = m"
  shows "live_entries f limit (xs @ [x]) (om_insert (child_of f x) (pv_from_observation x (child_of f x = po_path x)) m')"
proof -
  let ?c = "child_of f x" and ?e = "pv_from_observation x (child_of f x = po_path x)"
  have pre: "prefix ?c (po_path x)" by (simp add: child_of_def take_is_prefix)
  have eq: "entry_of c (ys @ [x]) = entry_of c ys" if "c \<in> children f xs" "c \<noteq> ?c" for c ys
    using children_form [OF that(1)] child_prefix_iff [OF x] that(2) by (auto simp: entry_of_snoc)
  have sub': "children f xs \<subseteq> children f (xs @ [x])" "?c \<in> children f (xs @ [x])" using x by (auto simp: children_snoc)
  have no: "?c \<notin> fst ` set m'" using get sub(2) unfolding om_get_None_iff by (meson image_mono subsetD)
  have len: "length (om_insert ?c ?e m') \<le> limit"
    using sub(1,3) om_get_None_iff [of m' ?c] no length_om_insert [of m' ?c ?e] by (auto split: if_splits)
  have ent: "c \<in> children f (xs @ [x]) \<and> (\<exists>pre post. xs @ [x] = pre @ post \<and> e = entry_of c post)"
    if new: "(c, e) \<in> set (om_insert ?c ?e m')" for c e
  proof (cases "c = ?c")
    case True
    then have "e = entry_of c [x]" using new from_observation_entry [OF pre] by (simp add: set_om_insert)
    then show ?thesis using True sub' by blast
  next
    case False
    then have mem: "(c, e) \<in> set m" using new sub(2) by (auto simp: set_om_insert)
    then obtain pre post where p: "xs = pre @ post" "e = entry_of c post" "c \<in> children f xs"
      using live_entriesD [OF inv mem] by blast
    then show ?thesis using eq [OF p(3) False] sub' by (intro conjI exI [of _ pre] exI [of _ "post @ [x]"]) auto
  qed
  have exact: "fst ` set (om_insert ?c ?e m') = children f (xs @ [x]) \<and>
      (\<forall>c e. (c, e) \<in> set (om_insert ?c ?e m') \<longrightarrow> e = entry_of c (xs @ [x]))"
    if card: "card (children f (xs @ [x])) \<le> limit"
  proof -
    have m: "m' = m" using sub(4) [OF card] .
    have "card (children f xs) \<le> limit" using card_mono [OF finite_children sub'(1)] card by simp
    then have all: "fst ` set m = children f xs" "\<And>c d. (c, d) \<in> set m \<Longrightarrow> d = entry_of c xs"
      using inv unfolding live_entries_def by blast+
    obtain a where a: "?c = f @ [a]" using child_of_form [OF x] by blast
    have "?c \<notin> children f xs" using no m all(1) by simp
    then have unseen: "entry_of ?c (xs @ [x]) = entry_of ?c [x]"
      using children_iff [of f a xs] a by (intro entry_of_unseen) auto
    have "e = entry_of c (xs @ [x])" if new: "(c, e) \<in> set (om_insert ?c ?e m')" for c e
    proof (cases "c = ?c")
      case True
      then show ?thesis using new unseen from_observation_entry [OF pre] by (simp add: set_om_insert)
    next
      case False
      then have "(c, e) \<in> set m" using new m by (auto simp: set_om_insert)
      moreover then have "c \<in> children f xs" using live_entriesD [OF inv] by blast
      ultimately show ?thesis using all(2) eq False by metis
    qed
    moreover have "fst ` set (om_insert ?c ?e m') = children f (xs @ [x])"
      using all(1) m x by (simp add: om_keys_insert children_snoc)
    ultimately show ?thesis by blast
  qed
  show ?thesis unfolding live_entries_def using om_wf_insert [OF sub(1)] len ent exact by blast
qed

section \<open>Every observation keeps the invariant\<close>

lemma live_entries_card:
  assumes "live_entries f limit xs m" "card (children f xs) \<le> limit"
  shows "length m = card (children f xs)"
proof -
  have "om_wf m" "fst ` set m = children f xs" using assms by (simp_all add: live_entries_def)
  then show ?thesis using om_wf_distinct [of m] distinct_card [of "map fst m"] by simp
qed

lemma pp_insert_entries:
  assumes inv: "live_entries f (pp_limit p) xs (pp_entries p)" and x: "strict_prefix f (po_path x)"
    and get: "om_get (pp_entries p) (child_of f x) = None" and limit: "0 < pp_limit p"
  shows "\<exists>m. pp_insert (child_of f x) (pv_from_observation x (child_of f x = po_path x)) p = p\<lparr>pp_entries := m\<rparr> \<and>
    live_entries f (pp_limit p) (xs @ [x]) m"
proof -
  let ?m = "pp_entries p" and ?c = "child_of f x" and ?e = "pv_from_observation x (child_of f x = po_path x)"
  have wf: "om_wf ?m" "length ?m \<le> pp_limit p" using inv by (simp_all add: live_entries_def)
  have full: False if len: "\<not> length ?m < pp_limit p" and card: "card (children f (xs @ [x])) \<le> pp_limit p"
  proof -
    have sub: "children f xs \<subseteq> children f (xs @ [x])" by (auto simp: children_snoc)
    have "card (children f xs) \<le> pp_limit p" using card_mono [OF finite_children sub] card by simp
    note eq = live_entries_card [OF inv this]
    have "?c \<notin> children f xs" using inv get \<open>card (children f xs) \<le> pp_limit p\<close> by (auto simp: live_entries_def om_get_None_iff)
    then have "card (children f (xs @ [x])) = Suc (card (children f xs))" using x by (simp add: children_snoc)
    then show False using eq len card by simp
  qed
  show ?thesis
  proof (cases "length ?m < pp_limit p")
    case True
    then show ?thesis
      using live_entries_take_in [OF inv x get wf(1)] by (intro exI [of _ "om_insert ?c ?e ?m"]) (simp add: pp_insert_def)
  next
    case False
    then obtain w where w: "max_by compare_provisional_entries ?m = Some w"
      using limit by (cases "max_by compare_provisional_entries ?m") auto
    have k: "compare_provisional_entries a b = cmp (- 1 - bb_lower (sm_allocated_bytes (pv_metrics (snd a))), fst a)
        (- 1 - bb_lower (sm_allocated_bytes (pv_metrics (snd b))), fst b)" for a b
      by (cases a; cases b) (simp add: compare_provisional_entries_def rp_cmp_cmp then_with_cmp [symmetric] cmp_reversed)
    have "w \<in> set ?m" using max_by_Some(1) [OF k w] .
    then have getw: "om_get ?m (fst w) \<noteq> None" by (simp add: om_get_None_iff)
    then have len: "Suc (length (om_remove (fst w) ?m)) \<le> pp_limit p"
      using length_om_remove [OF wf(1), of "fst w"] wf(2) by (cases ?m) auto
    have evict: "live_entries f (pp_limit p) (xs @ [x]) (om_insert ?c ?e (om_remove (fst w) ?m))"
    proof (rule live_entries_take_in [OF inv x get])
      show "om_wf (om_remove (fst w) ?m)" using wf(1) by simp
      show "set (om_remove (fst w) ?m) \<subseteq> set ?m" by (auto simp: set_om_remove)
      show "om_remove (fst w) ?m = ?m" if "card (children f (xs @ [x])) \<le> pp_limit p" using full [OF False that] by blast
    qed (rule len)
    have keep: "live_entries f (pp_limit p) (xs @ [x]) ?m"
    proof -
      have "\<exists>pre post. xs @ [x] = pre @ post \<and> e = entry_of c post" if mem: "(c, e) \<in> set ?m" for c e
      proof -
        obtain pre post where p: "xs = pre @ post" "e = entry_of c post" "c \<in> children f xs"
          using live_entriesD [OF inv mem] by blast
        have "c \<noteq> ?c" using mem get by (force simp: om_get_None_iff)
        then have "entry_of c (post @ [x]) = entry_of c post"
          using children_form [OF p(3)] child_prefix_iff [OF x] by (auto simp: entry_of_snoc)
        then show ?thesis using p by (intro exI [of _ pre] exI [of _ "post @ [x]"]) simp
      qed
      moreover have "c \<in> children f (xs @ [x])" if "(c, e) \<in> set ?m" for c e
        using live_entriesD(1) [OF inv that] by (simp add: children_snoc)
      ultimately show ?thesis unfolding live_entries_def using wf full [OF False] by blast
    qed
    show ?thesis
    proof (cases "compare_provisional_entries (?c, ?e) w = OrdLess")
      case True
      then show ?thesis using False w evict by (intro exI [of _ "om_insert ?c ?e (om_remove (fst w) ?m)"]) (simp add: pp_insert_def)
    next
      case no: False
      then show ?thesis using False w keep by (intro exI [of _ ?m]) (simp add: pp_insert_def)
    qed
  qed
qed

lemma fst_cplus: "fst (cplus a b) = sm_plus (fst a) (fst b)"
  by (simp add: cplus_def)

lemma pp_observe_inv:
  assumes inv: "live_inv g f limit xs p" and x: "relative_path_ok (po_path x)" "vec_sized (po_path x)" and limit: "0 < limit"
  shows "\<exists>p'. pp_observe x p = Some p' \<and> live_inv g f limit (xs @ [x]) p'"
proof -
  have parts: "pp_generation p = g" "pp_folder p = f" "pp_limit p = limit" "live_entries f limit xs (pp_entries p)" "live_totals f xs p"
    using inv by (simp_all add: live_inv_iff)
  let ?p = "p\<lparr>pp_root_metrics := add_child_metrics (pp_root_metrics p) (po_metrics x)\<rparr>"
  have root: "pp_root_metrics ?p = fst (ctotal (map (\<lambda>x. cplus (po_metrics x, po_coverage x) cone) (xs @ [x])))"
    using parts(5) by (simp add: live_totals_def ctotal_append fst_cplus [of "ctotal _"] add_child_metrics_plus [of _ _ "po_coverage x"])
  consider (folder) "po_path x = f" | (outside) "po_path x \<noteq> f" "\<not> prefix f (po_path x)" | (below) "strict_prefix f (po_path x)"
    by (auto simp: strict_prefix_def)
  then show ?thesis
  proof cases
    case folder
    then have "\<not> strict_prefix f (po_path x)" by simp
    note e = live_entries_outside [OF parts(4) this]
    have "live_totals f (xs @ [x]) (?p\<lparr>pp_folder_kind := Some (po_kind x), pp_folder_metrics := merge_metrics (pp_folder_metrics p) (po_metrics x)\<rparr>)"
      using folder parts(5) root
      by (simp add: live_totals_def folder_kind_of_def live_total_snoc live_part_def fst_cplus merge_metrics_plus)
    then show ?thesis using folder parts e by (simp add: pp_observe_def live_inv_iff Let_def)
  next
    case outside
    then have "\<not> strict_prefix f (po_path x)" by (auto simp: strict_prefix_def)
    note e = live_entries_outside [OF parts(4) this]
    have "live_totals f (xs @ [x]) ?p"
      using outside parts(5) root by (simp add: live_totals_def folder_kind_of_def live_total_snoc)
    then show ?thesis using outside parts e by (simp add: pp_observe_def live_inv_iff Let_def starts_with_prefix)
  next
    case below
    let ?q = "?p\<lparr>pp_folder_metrics := add_child_metrics (pp_folder_metrics p) (po_metrics x)\<rparr>"
    have ne: "po_path x \<noteq> f" "prefix f (po_path x)" using below by auto
    have t: "live_totals f (xs @ [x]) ?q"
      using ne parts(5) root
      by (simp add: live_totals_def folder_kind_of_def live_total_snoc live_part_def fst_cplus [of "live_total f xs"]
          add_child_metrics_plus [of _ _ "po_coverage x"])
    have child: "direct_child_under f (po_path x) = (Inr (child_of f x) :: (unit scan_page_error, _) res)"
      using direct_child_under_Inr [OF below x] by (simp add: child_of_def)
    show ?thesis
    proof (cases "om_get (pp_entries p) (child_of f x)")
      case None
      have "\<exists>m. pp_insert (child_of f x) (pv_from_observation x (child_of f x = po_path x)) ?q = ?q\<lparr>pp_entries := m\<rparr> \<and>
          live_entries f (pp_limit ?q) (xs @ [x]) m"
        using parts None limit by (intro pp_insert_entries below) simp_all
      then obtain m where m: "pp_insert (child_of f x) (pv_from_observation x (child_of f x = po_path x)) ?q = ?q\<lparr>pp_entries := m\<rparr>"
          "live_entries f limit (xs @ [x]) m" using parts(3) by auto
      have "live_totals f (xs @ [x]) (?q\<lparr>pp_entries := m\<rparr>)" using t by (simp add: live_totals_def)
      then show ?thesis using ne parts child None m by (simp add: pp_observe_def live_inv_iff Let_def starts_with_prefix)
    next
      case (Some e)
      note u = live_entries_update [OF parts(4) below Some]
      have "live_totals f (xs @ [x]) (?q\<lparr>pp_entries := m\<rparr>)" for m using t by (simp add: live_totals_def)
      then show ?thesis using ne parts child Some u by (simp add: pp_observe_def live_inv_iff Let_def starts_with_prefix)
    qed
  qed
qed

lemma pp_new_inv:
  assumes "pp_new g rq = (Inr p :: ('io scan_page_error, _) res)"
  shows "live_inv g (rq_folder rq) (rq_limit rq) [] p" "0 < rq_limit rq"
  using assms
  by (auto simp: pp_new_def validate_page_request_def res_bind_Inr_iff is_root_def live_inv_def folder_kind_of_def live_total_def
      czero_def children_def split: if_splits)

lemma pp_observe_all_inv:
  assumes "live_inv g f limit xs p" "0 < limit" "\<forall>y \<in> set ys. relative_path_ok (po_path y) \<and> vec_sized (po_path y)"
  shows "\<exists>p'. pp_observe_all ys p = Some p' \<and> live_inv g f limit (xs @ ys) p'"
  using assms
proof (induction ys arbitrary: xs p)
  case (Cons y ys)
  then obtain p1 where "pp_observe y p = Some p1" "live_inv g f limit (xs @ [y]) p1"
    using pp_observe_inv [of g f limit xs p y] by auto
  then show ?case using Cons.IH [of "xs @ [y]" p1] Cons.prems by auto
qed simp

section \<open>The page\<close>

lemma represented_pv_page_entry: "represented_bytes (pv_page_entry (c, e)) = bb_lower (sm_allocated_bytes (pv_metrics e))"
  by (simp add: represented_bytes_def pv_page_entry_def mark_metrics_uncertain_def Let_def)

lemma pe_path_pv_page_entry [simp]: "pe_path (pv_page_entry (c, e)) = c"
  by (simp add: pv_page_entry_def Let_def)

lemma lower_live_total: "bb_lower (sm_allocated_bytes (pv_metrics (entry_of c xs))) = bb_lower (sm_allocated_bytes (fst (live_total c xs)))"
  using entry_of_total [of c xs] by (metis fst_conv)

lemma lower_live_total_suffix:
  "bb_lower (sm_allocated_bytes (fst (live_total c post))) \<le> bb_lower (sm_allocated_bytes (fst (live_total c (pre @ post))))"
  using sat_add_mono [of 0 "bb_lower (sm_allocated_bytes (fst (live_total c pre)))"
      "bb_lower (sm_allocated_bytes (fst (live_total c post)))" "bb_lower (sm_allocated_bytes (fst (live_total c post)))"]
  by (simp add: live_total_append fst_cplus sm_plus_def bb_add_def)

text \<open>The entries of the page: in order, no path twice, never overstated, and exact while all children fit.\<close>

definition live_page_entries :: "relative_path \<Rightarrow> nat \<Rightarrow> path_observation list \<Rightarrow> scan_page_entry list \<Rightarrow> bool" where
  "live_page_entries f limit xs es \<longleftrightarrow>
     sorted_wrt (\<lambda>a b. compare_page_entries a b = OrdLess) es \<and> distinct (map pe_path es) \<and> length es \<le> limit \<and>
     (\<forall>e \<in> set es. pe_path e \<in> children f xs \<and>
        represented_bytes e \<le> bb_lower (sm_allocated_bytes (fst (live_total (pe_path e) xs)))) \<and>
     (card (children f xs) \<le> limit \<longrightarrow>
        pe_path ` set es = children f xs \<and> (\<forall>e \<in> set es. e = pv_page_entry (pe_path e, entry_of (pe_path e) xs)))"

lemma live_page_entries_sort:
  assumes inv: "live_entries f limit xs m"
  shows "live_page_entries f limit xs (sort_by compare_page_entries (map pv_page_entry m))"
proof -
  let ?es = "sort_by compare_page_entries (map pv_page_entry m)"
  have wf: "om_wf m" "length m \<le> limit" using inv by (simp_all add: live_entries_def)
  have paths: "map pe_path (map pv_page_entry m) = map fst m" by (induction m) auto
  then have dist: "distinct (map pe_path (map pv_page_entry m))" using om_wf_distinct [OF wf(1)] by metis
  then have rank: "distinct (map page_rank (map pv_page_entry m))"
    by (simp add: distinct_map inj_on_def page_rank_def del: map_map)
  have es: "?es = sort_key page_rank (map pv_page_entry m)"
    by (rule sort_by_sort_key [OF compare_page_entries_rank rank])
  have set: "set ?es = pv_page_entry ` set m" by (simp add: es)
  have mem: "\<exists>c d. e = pv_page_entry (c, d) \<and> pe_path e = c \<and> (c, d) \<in> set m" if "e \<in> set ?es" for e
    using that set by force
  have "distinct (map page_rank ?es)" using rank by (simp add: es distinct_map del: map_map)
  then have "sorted_wrt (<) (map page_rank ?es)" by (simp add: es strict_sorted_iff)
  then have sorted: "sorted_wrt (\<lambda>a b. compare_page_entries a b = OrdLess) ?es"
    by (simp add: compare_page_entries_rank sorted_wrt_map)
  have dist': "distinct (map pe_path ?es)" using dist by (simp add: es distinct_map del: map_map)
  have len: "length ?es \<le> limit" using wf(2) by (simp add: es)
  have ent: "pe_path e \<in> children f xs \<and> represented_bytes e \<le> bb_lower (sm_allocated_bytes (fst (live_total (pe_path e) xs)))"
    if "e \<in> set ?es" for e
  proof -
    obtain c d where cd: "e = pv_page_entry (c, d)" "pe_path e = c" "(c, d) \<in> set m" using mem [OF \<open>e \<in> set ?es\<close>] by blast
    note D = live_entriesD [OF inv cd(3)]
    obtain pre post where "xs = pre @ post" "d = entry_of c post" using D(2) by blast
    then show ?thesis
      using cd(1,2) D(1) lower_live_total_suffix [of c post pre] by (simp add: represented_pv_page_entry lower_live_total)
  qed
  have exact: "pe_path ` set ?es = children f xs \<and> (\<forall>e \<in> set ?es. e = pv_page_entry (pe_path e, entry_of (pe_path e) xs))"
    if card: "card (children f xs) \<le> limit"
  proof
    have "pe_path ` set ?es = fst ` set m" unfolding set using paths by (metis image_image image_set)
    then show "pe_path ` set ?es = children f xs" using inv card by (simp add: live_entries_def)
    show "\<forall>e \<in> set ?es. e = pv_page_entry (pe_path e, entry_of (pe_path e) xs)"
      using mem live_entriesD(3) [OF inv _ card] by blast
  qed
  show ?thesis unfolding live_page_entries_def using sorted dist' len ent exact by blast
qed

end
