(* ===== verification/Page_Record.thy ===== *)
theory Page_Record
  imports Scan_Page Identity_Observation
begin

text \<open>
  The records of a child-query run (\<open>src/src/scan_store/page.rs\<close>): a header per directory and an entry
  per path, their codecs and their keys.

  The key of a record is the path key of the folder, the namespace \<open>0 0\<close>, a tag and, for an entry, the
  complement of its size in big-endian order and the last component.  The round trips are
  \<open>decode_encode_header\<close> and \<open>decode_encode_entry\<close>; the facts about keys are in \<open>Page_Key\<close>.  The
  scratch buffers only spare allocations and are left out.  A failed \<open>expect\<close> is \<open>KeyPanic\<close>.
\<close>

unbundle bit_operations_syntax

section \<open>Stored records\<close>

definition PAGE_RECORD_NAMESPACE :: bytes where "PAGE_RECORD_NAMESPACE = [0, 0]"
definition PAGE_HEADER_TAG :: u8 where "PAGE_HEADER_TAG = 0"
definition PAGE_ENTRY_TAG :: u8 where "PAGE_ENTRY_TAG = 1"
definition PAGE_HEADER_VERSION :: u8 where "PAGE_HEADER_VERSION = 1"
definition PAGE_ENTRY_VERSION :: u8 where "PAGE_ENTRY_VERSION = 4"
definition QUERY_METRIC_BYTES :: nat where "QUERY_METRIC_BYTES = 16"
definition HEADER_SHARED_PRESENT :: u8 where "HEADER_SHARED_PRESENT = flag 0"
definition ENTRY_DIRECTORY_SUMMARY_SEEN :: u8 where "ENTRY_DIRECTORY_SUMMARY_SEEN = flag 0"
definition ENTRY_IDENTITY_PRESENT :: u8 where "ENTRY_IDENTITY_PRESENT = flag 1"
definition ENTRY_LEAF_ALLOCATION_SEEN :: u8 where "ENTRY_LEAF_ALLOCATION_SEEN = flag 2"
definition ENTRY_KNOWN_FLAGS :: u8 where
  "ENTRY_KNOWN_FLAGS = ENTRY_DIRECTORY_SUMMARY_SEEN OR ENTRY_IDENTITY_PRESENT OR ENTRY_LEAF_ALLOCATION_SEEN"
definition IDENTITY_DECLARED_LINKS_PRESENT :: u8 where "IDENTITY_DECLARED_LINKS_PRESENT = flag 0"
definition IDENTITY_ALLOCATION_UPPER_PRESENT :: u8 where "IDENTITY_ALLOCATION_UPPER_PRESENT = flag 1"
definition IDENTITY_KNOWN_FLAGS :: u8 where
  "IDENTITY_KNOWN_FLAGS = IDENTITY_DECLARED_LINKS_PRESENT OR IDENTITY_ALLOCATION_UPPER_PRESENT"

record stored_header =
  sh_header_metrics :: summary_metrics
  sh_header_coverage :: coverage
  sh_header_shared :: "summary_metrics option"

record stored_identity =
  si_file_id :: file_id
  si_declared_links :: "u64 option"
  si_allocated_bytes :: byte_bounds

definition si_from_observation :: "identity_observation \<Rightarrow> stored_identity" where
  "si_from_observation ob =
     \<lparr>si_file_id = io_file_id ob, si_declared_links = io_declared_links ob, si_allocated_bytes = io_allocated_bytes ob\<rparr>"

definition si_from_snapshot :: "entry_snapshot \<Rightarrow> stored_identity option" where
  "si_from_snapshot s =
     map_option (\<lambda>i. \<lparr>si_file_id = ni_file_id i, si_declared_links = ni_link_count i,
       si_allocated_bytes = (case es_allocated_bytes s of None \<Rightarrow> bb_unknown | Some b \<Rightarrow> bb_exact b)\<rparr>) (es_identity s)"

definition si_into_observation :: "relative_path \<Rightarrow> stored_identity \<Rightarrow> identity_observation" where
  "si_into_observation path i =
     \<lparr>io_path = path, io_file_id = si_file_id i, io_declared_links = si_declared_links i,
      io_allocated_bytes = si_allocated_bytes i\<rparr>"

record stored_entry =
  st_observation :: path_observation
  st_metrics :: summary_metrics
  st_coverage :: coverage
  st_parent_key_bytes :: u32
  st_identity :: "stored_identity option"
  st_directory_summary_seen :: bool
  st_leaf_allocation_seen :: bool

text \<open>\<open>observation.snapshot.as_ref().and_then(StoredIdentity::from_snapshot)\<close>\<close>

definition snapshot_identity :: "path_observation \<Rightarrow> stored_identity option" where
  "snapshot_identity ob = Option.bind (po_snapshot ob) si_from_snapshot"

definition st_from_observation :: "path_observation \<Rightarrow> u32 \<Rightarrow> stored_entry" where
  "st_from_observation ob parent_key_bytes =
     (let identity = snapshot_identity ob in
      \<lparr>st_observation = ob, st_metrics = po_metrics ob, st_coverage = po_coverage ob,
       st_parent_key_bytes = parent_key_bytes, st_identity = identity, st_directory_summary_seen = False,
       st_leaf_allocation_seen = (po_kind ob \<noteq> EntryDirectory \<and>
         (case identity of
            None \<Rightarrow> False
          | Some i \<Rightarrow> si_declared_links i = Some 1 \<and> sm_allocated_bytes (po_metrics ob) = si_allocated_bytes i \<and>
              sm_reclaimable_bytes (po_metrics ob) = si_allocated_bytes i))\<rparr>)"

definition set_physical :: "byte_bounds \<Rightarrow> byte_bounds \<Rightarrow> summary_metrics \<Rightarrow> summary_metrics" where
  "set_physical allocated reclaimable m = m\<lparr>sm_allocated_bytes := allocated, sm_reclaimable_bytes := reclaimable\<rparr>"

definition into_page_entry :: "stored_entry \<Rightarrow> scan_page_entry" where
  "into_page_entry e =
     (let kind = page_entry_kind_of (po_kind (st_observation e));
          (cov, metrics) =
            (if pk_is_directory kind then
               if \<not> st_directory_summary_seen e then (CoverageUncertain, set_physical bb_unknown bb_unknown (st_metrics e))
               else (st_coverage e, st_metrics e)
             else if st_identity e = None then (CoverageUncertain, set_physical bb_unknown bb_unknown (st_metrics e))
             else if \<not> st_leaf_allocation_seen e then (st_coverage e, set_physical (bb_exact 0) (bb_exact 0) (st_metrics e))
             else (st_coverage e, st_metrics e))
      in \<lparr>pe_path = po_path (st_observation e), pe_kind = kind, pe_metrics = clear_uncertain_physical_bounds metrics cov,
          pe_coverage = cov, pe_snapshot = po_snapshot (st_observation e)\<rparr>)"

section \<open>Codecs\<close>

definition encode_stored_header_into :: "stored_header \<Rightarrow> bytes" where
  "encode_stored_header_into h =
     encode_summary_metrics_into (sh_header_metrics h)
       [PAGE_HEADER_VERSION, coverage_code (sh_header_coverage h), summary_metrics_flags (sh_header_metrics h),
        if sh_header_shared h \<noteq> None then 1 else 0]
     @ (case sh_header_shared h of
          None \<Rightarrow> []
        | Some shared \<Rightarrow> encode_summary_metrics_into shared [summary_metrics_flags shared])"

definition decode_header_shared :: "u8 \<Rightarrow> bytes \<Rightarrow> (page_record_error, summary_metrics option \<times> bytes) res" where
  "decode_header_shared flags input =
     (if flags AND HEADER_SHARED_PRESENT = 0 then Inr (None, input)
      else
        res_bind (take_u8 RecordMalformed input) (\<lambda>(shared_flags, input).
        res_bind (map_err RecordSummaryMetrics (decode_summary_metrics shared_flags input)) (\<lambda>(shared, input).
        if sm_apparent_bytes shared \<noteq> 0 \<or> sm_descendants shared \<noteq> 0 then Inl RecordMalformed
        else Inr (Some shared, input))))"

definition decode_stored_header :: "bytes \<Rightarrow> (page_record_error, stored_header) res" where
  "decode_stored_header input =
     res_bind (take_u8 RecordMalformed input) (\<lambda>(version, input).
     if version \<noteq> PAGE_HEADER_VERSION then Inl RecordMalformed
     else
       res_bind (take_u8 RecordMalformed input) (\<lambda>(cb, input).
       res_bind (ok_or (coverage_from_code cb) RecordMalformed) (\<lambda>cov.
       res_bind (take_u8 RecordMalformed input) (\<lambda>(metrics_flags, input).
       res_bind (take_u8 RecordMalformed input) (\<lambda>(flags, input).
       res_bind (map_err RecordSummaryMetrics (decode_summary_metrics metrics_flags input)) (\<lambda>(metrics, input).
       if flags AND NOT HEADER_SHARED_PRESENT \<noteq> 0 then Inl RecordMalformed
       else
         res_bind (decode_header_shared flags input) (\<lambda>(shared, input).
         if input \<noteq> [] then Inl RecordMalformed
         else Inr \<lparr>sh_header_metrics = metrics, sh_header_coverage = cov, sh_header_shared = shared\<rparr>)))))))"

definition stored_identity_flags :: "stored_identity \<Rightarrow> u8" where
  "stored_identity_flags i =
     set_flag (bb_upper (si_allocated_bytes i) \<noteq> None) IDENTITY_ALLOCATION_UPPER_PRESENT
       (set_flag (si_declared_links i \<noteq> None) IDENTITY_DECLARED_LINKS_PRESENT 0)"

definition encode_stored_identity_into :: "stored_identity \<Rightarrow> bytes \<Rightarrow> bytes" where
  "encode_stored_identity_into i output =
     append_file_id (si_file_id i) output @ [stored_identity_flags i] @ opt_bytes u64_le (si_declared_links i)
       @ u128_le (bb_lower (si_allocated_bytes i)) @ opt_bytes u128_le (bb_upper (si_allocated_bytes i))"

definition decode_stored_identity :: "bytes \<Rightarrow> (page_record_error, stored_identity \<times> bytes) res" where
  "decode_stored_identity input =
     res_bind (map_err RecordFileId (decode_file_id_prefix input)) (\<lambda>(file_id, n).
     if length input < n then Inl RecordMalformed
     else
       res_bind (take_u8 RecordMalformed (drop n input)) (\<lambda>(flags, input).
       if flags AND NOT IDENTITY_KNOWN_FLAGS \<noteq> 0 then Inl RecordMalformed
       else
         res_bind (take_when (flags AND IDENTITY_DECLARED_LINKS_PRESENT \<noteq> 0) (take_u64 RecordMalformed) input)
           (\<lambda>(declared_links, input).
         if declared_links = Some 0 then Inl RecordMalformed
         else
           res_bind (take_u128 RecordMalformed input) (\<lambda>(lower, input).
           res_bind (take_when (flags AND IDENTITY_ALLOCATION_UPPER_PRESENT \<noteq> 0) (take_u128 RecordMalformed) input)
             (\<lambda>(upper, input).
           if (case upper of None \<Rightarrow> False | Some upper \<Rightarrow> upper < lower) then Inl RecordMalformed
           else Inr (\<lparr>si_file_id = file_id, si_declared_links = declared_links,
                      si_allocated_bytes = \<lparr>bb_lower = lower, bb_upper = upper\<rparr>\<rparr>, input))))))"

text \<open>The identity is left out when the snapshot already gives it.\<close>

definition identity_to_encode :: "stored_entry \<Rightarrow> stored_identity option" where
  "identity_to_encode e =
     (if st_identity e \<noteq> None \<and> st_identity e = snapshot_identity (st_observation e) then None else st_identity e)"

definition stored_entry_flags :: "stored_entry \<Rightarrow> u8" where
  "stored_entry_flags e =
     set_flag (st_leaf_allocation_seen e) ENTRY_LEAF_ALLOCATION_SEEN
       (set_flag (identity_to_encode e \<noteq> None) ENTRY_IDENTITY_PRESENT
         (set_flag (st_directory_summary_seen e) ENTRY_DIRECTORY_SUMMARY_SEEN 0))"

definition encode_stored_entry_into :: "stored_entry \<Rightarrow> (page_record_error, bytes) res" where
  "encode_stored_entry_into e =
     (let output = [PAGE_ENTRY_VERSION, stored_entry_flags e] @ u32_le (st_parent_key_bytes e)
            @ [coverage_code (st_coverage e), summary_metrics_flags (st_metrics e)];
          output = encode_summary_metrics_into (st_metrics e) output;
          output = (case identity_to_encode e of None \<Rightarrow> output | Some i \<Rightarrow> encode_stored_identity_into i output)
      in res_bind (map_err RecordPathObservation (encode_path_observation_into (st_observation e))) (\<lambda>(_, val).
           Inr (output @ val)))"

definition decode_stored_entry :: "bytes \<Rightarrow> bytes \<Rightarrow> (page_record_error, stored_entry) res" where
  "decode_stored_entry path_key input =
     res_bind (take_u8 RecordMalformed input) (\<lambda>(version, input).
     if version \<noteq> PAGE_ENTRY_VERSION then Inl RecordMalformed
     else
       res_bind (take_u8 RecordMalformed input) (\<lambda>(flags, input).
       if flags AND NOT ENTRY_KNOWN_FLAGS \<noteq> 0 then Inl RecordMalformed
       else
         res_bind (take_u32 RecordMalformed input) (\<lambda>(parent_key_bytes, input).
         res_bind (take_u8 RecordMalformed input) (\<lambda>(cb, input).
         res_bind (ok_or (coverage_from_code cb) RecordMalformed) (\<lambda>cov.
         res_bind (take_u8 RecordMalformed input) (\<lambda>(metrics_flags, input).
         res_bind (map_err RecordSummaryMetrics (decode_summary_metrics metrics_flags input)) (\<lambda>(metrics, input).
         res_bind (take_when (flags AND ENTRY_IDENTITY_PRESENT \<noteq> 0) decode_stored_identity input) (\<lambda>(encoded_identity, input).
         res_bind (map_err RecordPathObservation (decode_path_observation path_key input)) (\<lambda>ob.
           Inr \<lparr>st_observation = ob, st_metrics = metrics, st_coverage = cov, st_parent_key_bytes = parent_key_bytes,
                st_identity = (case encoded_identity of Some i \<Rightarrow> Some i | None \<Rightarrow> snapshot_identity ob),
                st_directory_summary_seen = (flags AND ENTRY_DIRECTORY_SUMMARY_SEEN \<noteq> 0),
                st_leaf_allocation_seen = (flags AND ENTRY_LEAF_ALLOCATION_SEEN \<noteq> 0)\<rparr>)))))))))"

definition stored_entry_parent_key_bytes :: "bytes \<Rightarrow> (page_record_error, u32) res" where
  "stored_entry_parent_key_bytes input =
     res_bind (take_u8 RecordMalformed input) (\<lambda>(version, input).
     if version \<noteq> PAGE_ENTRY_VERSION then Inl RecordMalformed
     else
       res_bind (take_u8 RecordMalformed input) (\<lambda>(flags, input).
       if flags AND NOT ENTRY_KNOWN_FLAGS \<noteq> 0 then Inl RecordMalformed
       else res_bind (take_u32 RecordMalformed input) (\<lambda>(n, _). Inr n)))"

section \<open>Keys\<close>

text \<open>\<open>slice.get(a..b)\<close> and \<open>slice.get(a..)\<close>\<close>

definition slice_get :: "nat \<Rightarrow> nat \<Rightarrow> bytes \<Rightarrow> bytes option" where
  "slice_get a b xs = (if a \<le> b \<and> b \<le> length xs then Some (take (b - a) (drop a xs)) else None)"

definition slice_from :: "nat \<Rightarrow> bytes \<Rightarrow> bytes option" where
  "slice_from a xs = (if a \<le> length xs then Some (drop a xs) else None)"

definition child_path_key_from_record_with_metric :: "bytes \<Rightarrow> u32 \<Rightarrow> bool \<Rightarrow> (page_record_error, bytes) res" where
  "child_path_key_from_record_with_metric record_key parent_bytes metric_ordered =
     (let parent_key_bytes = unat parent_bytes in
      res_bind (ok_or (usize_checked_add parent_key_bytes (length PAGE_RECORD_NAMESPACE)) RecordMalformed) (\<lambda>namespace_end.
      res_bind (ok_or (usize_checked_add namespace_end 1) RecordMalformed) (\<lambda>tag_end.
      if slice_get parent_key_bytes namespace_end record_key \<noteq> Some PAGE_RECORD_NAMESPACE \<or>
         slice_get namespace_end tag_end record_key \<noteq> Some [PAGE_ENTRY_TAG]
      then Inl RecordMalformed
      else
        res_bind (ok_or (usize_checked_add tag_end (if metric_ordered then QUERY_METRIC_BYTES else 0)) RecordMalformed)
          (\<lambda>suffix_start.
        res_bind (ok_or (slice_from suffix_start record_key) RecordMalformed) (\<lambda>suffix.
        if suffix = [] then Inl RecordMalformed
        else
          res_bind (ok_or (slice_get 0 parent_key_bytes record_key) RecordMalformed) (\<lambda>parent.
            Inr (parent @ suffix)))))))"

definition child_path_key_from_index_record :: "bytes \<Rightarrow> u32 \<Rightarrow> (page_record_error, bytes) res" where
  "child_path_key_from_index_record record_key n = child_path_key_from_record_with_metric record_key n False"

definition child_path_key_from_record :: "bytes \<Rightarrow> u32 \<Rightarrow> (page_record_error, bytes) res" where
  "child_path_key_from_record record_key n = child_path_key_from_record_with_metric record_key n True"

definition page_header_key_from_encoded :: "bytes \<Rightarrow> bytes" where
  "page_header_key_from_encoded folder_key = folder_key @ PAGE_RECORD_NAMESPACE @ [PAGE_HEADER_TAG]"

definition page_header_key_into :: "relative_path \<Rightarrow> (path_key_error, bytes) res" where
  "page_header_key_into folder =
     res_bind (encode_path_key_into folder []) (\<lambda>output. Inr (output @ PAGE_RECORD_NAMESPACE @ [PAGE_HEADER_TAG]))"

definition page_entry_prefix_from_encoded :: "bytes \<Rightarrow> bytes" where
  "page_entry_prefix_from_encoded folder_key = folder_key @ PAGE_RECORD_NAMESPACE @ [PAGE_ENTRY_TAG]"

definition page_entry_key_from_encoded :: "bytes \<Rightarrow> bytes \<Rightarrow> bytes" where
  "page_entry_key_from_encoded folder_key component_key = page_entry_prefix_from_encoded folder_key @ component_key"

definition u128_be :: "u128 \<Rightarrow> bytes" where "u128_be w = rev (u128_le w)"

definition page_entry_query_key_from_encoded :: "bytes \<Rightarrow> u128 \<Rightarrow> bytes \<Rightarrow> bytes" where
  "page_entry_query_key_from_encoded folder_key bytes child_suffix =
     page_entry_prefix_from_encoded folder_key @ u128_be (NOT bytes) @ child_suffix"

datatype page_key_error = KeyPathKey path_key_error | KeyPanic

text \<open>The suffix of a child's key behind its folder's key.\<close>

definition child_suffix_of :: "relative_path \<Rightarrow> relative_path \<Rightarrow> (page_key_error, bytes \<times> bytes) res" where
  "child_suffix_of folder child =
     res_bind (map_err KeyPathKey (encode_path_key_into folder [])) (\<lambda>folder_key.
     res_bind (map_err KeyPathKey (encode_path_key_into child [])) (\<lambda>child_path_key.
     res_bind (ok_or (slice_from (length folder_key) child_path_key) KeyPanic) (\<lambda>child_suffix.
       Inr (folder_key, child_suffix))))"

definition page_entry_query_key_into :: "relative_path \<Rightarrow> page_cursor \<Rightarrow> (page_key_error, bytes) res" where
  "page_entry_query_key_into folder cursor =
     res_bind (child_suffix_of folder (cur_path cursor)) (\<lambda>(folder_key, child_suffix).
       Inr (page_entry_query_key_from_encoded folder_key (cur_represented_bytes cursor) child_suffix))"

definition page_entry_key_into :: "relative_path \<Rightarrow> relative_path \<Rightarrow> (page_key_error, bytes) res" where
  "page_entry_key_into folder child =
     res_bind (child_suffix_of folder child) (\<lambda>(folder_key, child_suffix).
       Inr (folder_key @ PAGE_RECORD_NAMESPACE @ [PAGE_ENTRY_TAG] @ child_suffix))"

section \<open>Headers\<close>

definition header_ok :: "stored_header \<Rightarrow> bool" where
  "header_ok h \<longleftrightarrow> metrics_ok (sh_header_metrics h) \<and>
     (\<forall>s. sh_header_shared h = Some s \<longrightarrow> metrics_ok s \<and> sm_apparent_bytes s = 0 \<and> sm_descendants s = 0)"

lemma header_flag_tests:
  "(1 :: u8) AND NOT HEADER_SHARED_PRESENT = 0" "(1 :: u8) AND HEADER_SHARED_PRESENT \<noteq> 0"
  by (simp_all add: HEADER_SHARED_PRESENT_def flag_def)

lemma decode_encode_header:
  assumes "header_ok h"
  shows "decode_stored_header (encode_stored_header_into h) = Inr h"
proof (cases "sh_header_shared h")
  case None
  then show ?thesis
    using assms decode_summary_metrics_append [of "sh_header_metrics h" "[]"]
    by (simp add: decode_stored_header_def encode_stored_header_into_def encode_summary_metrics_eq header_ok_def
        decode_header_shared_def)
next
  case (Some s)
  have s: "metrics_ok s" "sm_apparent_bytes s = 0" "sm_descendants s = 0" using assms Some by (simp_all add: header_ok_def)
  have "decode_header_shared 1 (summary_metrics_flags s # metrics_bytes s) = Inr (Some s, [])"
    using s decode_summary_metrics_append [OF s(1), of "[]"] by (simp add: decode_header_shared_def header_flag_tests)
  then show ?thesis
    using assms Some decode_summary_metrics_append [of "sh_header_metrics h" "summary_metrics_flags s # metrics_bytes s"]
    by (simp add: decode_stored_header_def encode_stored_header_into_def encode_summary_metrics_eq header_ok_def header_flag_tests)
qed

text \<open>Only encodings of headers are accepted.\<close>

lemma header_flags_cases: "flags AND NOT HEADER_SHARED_PRESENT = 0 \<Longrightarrow> flags = 0 \<or> flags = (1 :: u8)"
proof -
  assume a: "flags AND NOT HEADER_SHARED_PRESENT = 0"
  have "\<not> bit flags n" if "n \<noteq> 0" for n
  proof (rule ccontr)
    assume b: "\<not> \<not> bit flags n"
    then have "n < 8" using bit_imp_le_length [of flags n] by simp
    then have "bit (flags AND NOT HEADER_SHARED_PRESENT) n" using b that by (simp add: bit_simps HEADER_SHARED_PRESENT_def bit_flag)
    then show False using a by simp
  qed
  then have "bit flags n \<longleftrightarrow> bit (if bit flags 0 then 1 else 0 :: u8) n" for n
    by (cases "n = 0") (auto simp: bit_1_iff)
  then have "flags = (if bit flags 0 then 1 else 0)" by (intro bit_eqI) blast
  then show ?thesis by (metis (full_types))
qed

lemma decode_header_Inr:
  assumes "decode_stored_header input = Inr h"
  shows "input = encode_stored_header_into h \<and> header_ok h"
proof -
  obtain mf flags metrics r1 r2 where d:
    "input = [PAGE_HEADER_VERSION, coverage_code (sh_header_coverage h), mf, flags] @ r1" "metrics = sh_header_metrics h"
    "decode_summary_metrics mf r1 = Inr (metrics, r2)" "flags AND NOT HEADER_SHARED_PRESENT = 0"
    "decode_header_shared flags r2 = Inr (sh_header_shared h, [])"
    using assms by (auto simp: decode_stored_header_def res_bind_Inr_iff take_u8_Inr_iff coverage_from_code_Some split: if_splits)
  note m = decode_summary_metrics_Inr [OF d(3)]
  consider "flags = 0" | "flags = 1" using header_flags_cases [OF d(4)] by blast
  then show ?thesis
  proof cases
    case 1
    then have "sh_header_shared h = None" "r2 = []" using d(5) by (simp_all add: decode_header_shared_def)
    then show ?thesis using 1 d(1,2) m by (simp add: encode_stored_header_into_def encode_summary_metrics_eq header_ok_def)
  next
    case 2
    then obtain sf s r3 where s: "sh_header_shared h = Some s" "r2 = sf # r3" "decode_summary_metrics sf r3 = Inr (s, [])"
      "sm_apparent_bytes s = 0" "sm_descendants s = 0"
      using d(5) unfolding decode_header_shared_def
      by (auto simp: header_flag_tests res_bind_Inr_iff take_u8_Inr_iff split: if_splits) (metis)
    then show ?thesis
      using 2 d(1,2) m decode_summary_metrics_Inr [OF s(3)]
      by (simp add: encode_stored_header_into_def encode_summary_metrics_eq header_ok_def)
  qed
qed

section \<open>Identities\<close>

definition stored_identity_ok :: "stored_identity \<Rightarrow> bool" where
  "stored_identity_ok i \<longleftrightarrow> si_declared_links i \<noteq> Some 0 \<and> bounds_ok (si_allocated_bytes i)"

lemma and_not_known: "(\<And>n. bit flags n \<Longrightarrow> bit known n) \<Longrightarrow> flags AND NOT known = 0" for flags known :: u8
  by (intro bit_eqI) (auto simp: bit_simps)

lemma bit_stored_identity_flags:
  "bit (stored_identity_flags i) n \<longleftrightarrow>
     n = 0 \<and> si_declared_links i \<noteq> None \<or> n = 1 \<and> bb_upper (si_allocated_bytes i) \<noteq> None"
  by (auto simp: stored_identity_flags_def IDENTITY_DECLARED_LINKS_PRESENT_def IDENTITY_ALLOCATION_UPPER_PRESENT_def bit_set_flag)

lemma stored_identity_flag_tests:
  "stored_identity_flags i AND NOT IDENTITY_KNOWN_FLAGS = 0"
  "stored_identity_flags i AND IDENTITY_DECLARED_LINKS_PRESENT \<noteq> 0 \<longleftrightarrow> si_declared_links i \<noteq> None"
  "stored_identity_flags i AND IDENTITY_ALLOCATION_UPPER_PRESENT \<noteq> 0 \<longleftrightarrow> bb_upper (si_allocated_bytes i) \<noteq> None"
proof -
  show "stored_identity_flags i AND NOT IDENTITY_KNOWN_FLAGS = 0"
    by (rule and_not_known)
      (auto simp: bit_stored_identity_flags IDENTITY_KNOWN_FLAGS_def IDENTITY_DECLARED_LINKS_PRESENT_def
        IDENTITY_ALLOCATION_UPPER_PRESENT_def bit_simps bit_flag)
qed (auto simp: IDENTITY_DECLARED_LINKS_PRESENT_def IDENTITY_ALLOCATION_UPPER_PRESENT_def and_flag bit_stored_identity_flags)

definition stored_identity_bytes :: "stored_identity \<Rightarrow> bytes" where
  "stored_identity_bytes i = encode_stored_identity_into i []"

lemma encode_stored_identity_eq: "encode_stored_identity_into i output = output @ stored_identity_bytes i"
  by (simp add: stored_identity_bytes_def encode_stored_identity_into_def append_file_id_eq)

lemma decode_stored_identity_append:
  assumes "stored_identity_ok i"
  shows "decode_stored_identity (stored_identity_bytes i @ rest) = Inr (i, rest)"
proof -
  have opts: "take_when (stored_identity_flags i AND IDENTITY_DECLARED_LINKS_PRESENT \<noteq> 0) (take_u64 RecordMalformed)
      (opt_bytes u64_le (si_declared_links i) @ r) = Inr (si_declared_links i, r)"
    "take_when (stored_identity_flags i AND IDENTITY_ALLOCATION_UPPER_PRESENT \<noteq> 0) (take_u128 RecordMalformed)
      (opt_bytes u128_le (bb_upper (si_allocated_bytes i)) @ r) = Inr (bb_upper (si_allocated_bytes i), r)" for r
    unfolding stored_identity_flag_tests by (rule take_when_opt)+
  have "stored_identity_bytes i @ rest = file_id_bytes (si_file_id i) @ stored_identity_flags i # opt_bytes u64_le (si_declared_links i)
      @ u128_le (bb_lower (si_allocated_bytes i)) @ opt_bytes u128_le (bb_upper (si_allocated_bytes i)) @ rest"
    by (simp add: stored_identity_bytes_def encode_stored_identity_into_def append_file_id_eq)
  then show ?thesis
    using assms by (simp add: decode_stored_identity_def stored_identity_flag_tests(1) opts stored_identity_ok_def bounds_check)
qed

section \<open>Entries\<close>

definition entry_ok :: "stored_entry \<Rightarrow> bool" where
  "entry_ok e \<longleftrightarrow> metrics_ok (st_metrics e) \<and> metrics_ok (po_metrics (st_observation e)) \<and>
     relative_path_ok (po_path (st_observation e)) \<and>
     (st_identity e = None \<longrightarrow> snapshot_identity (st_observation e) = None) \<and>
     (\<forall>i. identity_to_encode e = Some i \<longrightarrow> stored_identity_ok i)"

lemma bit_stored_entry_flags:
  "bit (stored_entry_flags e) n \<longleftrightarrow> n = 0 \<and> st_directory_summary_seen e \<or> n = 1 \<and> identity_to_encode e \<noteq> None \<or>
     n = 2 \<and> st_leaf_allocation_seen e"
  by (auto simp: stored_entry_flags_def ENTRY_DIRECTORY_SUMMARY_SEEN_def ENTRY_IDENTITY_PRESENT_def
      ENTRY_LEAF_ALLOCATION_SEEN_def bit_set_flag)

lemma stored_entry_flag_tests:
  "stored_entry_flags e AND NOT ENTRY_KNOWN_FLAGS = 0"
  "stored_entry_flags e AND ENTRY_DIRECTORY_SUMMARY_SEEN \<noteq> 0 \<longleftrightarrow> st_directory_summary_seen e"
  "stored_entry_flags e AND ENTRY_IDENTITY_PRESENT \<noteq> 0 \<longleftrightarrow> identity_to_encode e \<noteq> None"
  "stored_entry_flags e AND ENTRY_LEAF_ALLOCATION_SEEN \<noteq> 0 \<longleftrightarrow> st_leaf_allocation_seen e"
proof -
  show "stored_entry_flags e AND NOT ENTRY_KNOWN_FLAGS = 0"
    by (rule and_not_known)
      (auto simp: bit_stored_entry_flags ENTRY_KNOWN_FLAGS_def ENTRY_DIRECTORY_SUMMARY_SEEN_def ENTRY_IDENTITY_PRESENT_def
        ENTRY_LEAF_ALLOCATION_SEEN_def bit_simps bit_flag)
qed (auto simp: ENTRY_DIRECTORY_SUMMARY_SEEN_def ENTRY_IDENTITY_PRESENT_def ENTRY_LEAF_ALLOCATION_SEEN_def and_flag
    bit_stored_entry_flags)

text \<open>The bytes of an entry with the value bytes of its observation.\<close>

definition entry_bytes :: "stored_entry \<Rightarrow> bytes \<Rightarrow> bytes" where
  "entry_bytes e val = PAGE_ENTRY_VERSION # stored_entry_flags e # u32_le (st_parent_key_bytes e)
     @ coverage_code (st_coverage e) # summary_metrics_flags (st_metrics e) # metrics_bytes (st_metrics e)
     @ opt_bytes stored_identity_bytes (identity_to_encode e) @ val"

lemma encode_stored_entry_Inr:
  "encode_stored_entry_into e = Inr v \<longleftrightarrow>
     (\<exists>k val. encode_path_observation_into (st_observation e) = Inr (k, val) \<and> v = entry_bytes e val)"
  by (cases "identity_to_encode e")
    (auto simp: encode_stored_entry_into_def entry_bytes_def Let_def res_bind_Inr_iff encode_summary_metrics_eq
      encode_stored_identity_eq)

lemma take_when_identity:
  assumes "\<And>i. x = Some i \<Longrightarrow> stored_identity_ok i"
  shows "take_when (x \<noteq> None) decode_stored_identity (opt_bytes stored_identity_bytes x @ rest) = Inr (x, rest)"
  using assms decode_stored_identity_append by (cases x) (simp_all add: take_when_def)

lemma decode_encode_entry:
  assumes "entry_ok e" "encode_stored_entry_into e = Inr v"
  shows "decode_stored_entry (key_bytes (po_path (st_observation e))) v = Inr e"
    and "stored_entry_parent_key_bytes v = Inr (st_parent_key_bytes e)"
    and "hd v = PAGE_ENTRY_VERSION" "v \<noteq> []" "nul_free (po_path (st_observation e))"
proof -
  obtain k val where v: "encode_path_observation_into (st_observation e) = Inr (k, val)" "v = entry_bytes e val"
    using assms(2) by (auto simp: encode_stored_entry_Inr)
  have k: "k = key_bytes (po_path (st_observation e))" "nul_free (po_path (st_observation e))"
    using v(1) by (auto simp: encode_observation_Inr)
  have ob: "decode_path_observation (key_bytes (po_path (st_observation e))) val = Inr (st_observation e)"
    using decode_encode_observation [OF v(1)] assms(1) k(1) by (simp add: entry_ok_def)
  have id: "(case identity_to_encode e of Some i \<Rightarrow> Some i | None \<Rightarrow> snapshot_identity (st_observation e)) = st_identity e"
    using assms(1) by (auto simp: entry_ok_def identity_to_encode_def split: option.splits)
  have tw: "take_when (stored_entry_flags e AND ENTRY_IDENTITY_PRESENT \<noteq> 0) decode_stored_identity
      (opt_bytes stored_identity_bytes (identity_to_encode e) @ val) = Inr (identity_to_encode e, val)"
    unfolding stored_entry_flag_tests using assms(1) by (intro take_when_identity) (simp add: entry_ok_def)
  show "decode_stored_entry (key_bytes (po_path (st_observation e))) v = Inr e"
    using assms(1) ob id tw
    by (simp add: v(2) decode_stored_entry_def entry_bytes_def stored_entry_flag_tests(1,2,4) entry_ok_def
        decode_summary_metrics_append)
  show "stored_entry_parent_key_bytes v = Inr (st_parent_key_bytes e)" "hd v = PAGE_ENTRY_VERSION" "v \<noteq> []"
    by (simp_all add: v(2) stored_entry_parent_key_bytes_def entry_bytes_def stored_entry_flag_tests(1))
  show "nul_free (po_path (st_observation e))" by (rule k(2))
qed

end
