(* ===== verification/Page_Query.thy ===== *)
theory Page_Query
  imports Page_Record Path_Catalog Scan_Manifest
begin

text \<open>
  Queries on a published generation (\<open>src/src/scan_store/page.rs\<close>, and the accessors of
  \<open>PublishedGeneration\<close> in \<open>src/src/scan_store/session.rs\<close>): reading a header or an entry, a page of
  direct children after a cursor, a filtered page, and the passes over all entries of a run.

  Each loop over a range reader is \<open>gr_scan\<close> of \<open>Run_Scan\<close> with the loop body as a definition: \<open>continue\<close>
  is \<open>Continue\<close>, \<open>break\<close> and \<open>return\<close> are \<open>Return\<close>.  The filter of a filtered page is the argument
  \<open>matches_path\<close>; its glob matcher belongs to the \<open>globset\<close> crate.  The laws are in \<open>Page_Query_Spec\<close>.
\<close>

section \<open>Published generations\<close>

record published_generation =
  pub_manifest :: scan_manifest
  pub_child_queries :: sealed_run
  pub_path_catalog :: sealed_run
  pub_identity_index :: sealed_run
  pub_directory_summary_index :: sealed_run
  pub_root_page_metrics :: summary_metrics
  pub_root_page_coverage :: coverage
  pub_unrecorded_path_count :: u64
  pub_unreadable_directories :: "relative_path list"
  pub_unreadable_directories_overflowed :: bool

definition pub_generation :: "published_generation \<Rightarrow> scan_generation" where
  "pub_generation p = mf_generation (pub_manifest p)"

definition pub_path_catalog_entry :: "(bytes \<Rightarrow> bytes) \<Rightarrow> relative_path \<Rightarrow> published_generation \<Rightarrow>
    ('io path_catalog_error, path_catalog_entry option) res" where
  "pub_path_catalog_entry sha path p = read_path_catalog_entry sha (pub_path_catalog p) path"

section \<open>Headers and single entries\<close>

definition read_header_from_run :: "(bytes \<Rightarrow> bytes) \<Rightarrow> sealed_run \<Rightarrow> relative_path \<Rightarrow>
    ('io scan_page_error, stored_header option) res" where
  "read_header_from_run sha run folder =
     res_bind (map_err PagePathKey (page_header_key_into folder)) (\<lambda>expected.
     res_bind (map_err PageRun (range_reader run expected)) (\<lambda>reader.
       scan_result (\<lambda>_. None)
         (gr_scan sha PageRun (lookup_body expected (\<lambda>val. map_err PageRecord (decode_stored_header val))) reader ())))"

text \<open>The entry of a record, with the path key its key and value give.\<close>

definition record_path_key :: "bytes \<Rightarrow> bytes \<Rightarrow> ('io scan_page_error, bytes) res" where
  "record_path_key key val =
     map_err PageRecord (res_bind (stored_entry_parent_key_bytes val) (child_path_key_from_record key))"

definition exact_entry_body :: "bytes \<Rightarrow> relative_path \<Rightarrow> bytes \<Rightarrow> bytes \<Rightarrow> unit \<Rightarrow>
    ('io scan_page_error, (unit, stored_entry option) control) res" where
  "exact_entry_body pre child key val u =
     (if key < pre then Inr (Continue ())
      else if \<not> prefix pre key then Inr (Return None)
      else
        res_bind (record_path_key key val) (\<lambda>path_key.
        res_bind (map_err PagePathKey (decode_path_key path_key)) (\<lambda>path.
        if path \<noteq> child then Inr (Continue ())
        else res_bind (map_err PageRecord (decode_stored_entry path_key val)) (\<lambda>e. Inr (Return (Some e))))))"

definition read_exact_entry_from_run :: "(bytes \<Rightarrow> bytes) \<Rightarrow> sealed_run \<Rightarrow> relative_path \<Rightarrow> relative_path \<Rightarrow>
    ('io scan_page_error, stored_entry option) res" where
  "read_exact_entry_from_run sha run parent child =
     res_bind (map_err PagePathKey (encode_path_key_into parent [])) (\<lambda>parent_key.
     let pre = page_entry_prefix_from_encoded parent_key in
     res_bind (map_err PageRun (range_reader run pre)) (\<lambda>reader.
       scan_result (\<lambda>_. None) (gr_scan sha PageRun (exact_entry_body pre child) reader ())))"

definition read_page_entry :: "(bytes \<Rightarrow> bytes) \<Rightarrow> sealed_run \<Rightarrow> relative_path \<Rightarrow>
    ('io scan_page_error, scan_page_entry option) res" where
  "read_page_entry sha run path =
     (case relative_parent path of
        None \<Rightarrow> Inr None
      | Some parent \<Rightarrow>
          res_bind (read_exact_entry_from_run sha run parent path) (\<lambda>e. Inr (map_option into_page_entry e)))"

definition pub_page_entry :: "(bytes \<Rightarrow> bytes) \<Rightarrow> relative_path \<Rightarrow> published_generation \<Rightarrow>
    ('io scan_page_error, scan_page_entry option) res" where
  "pub_page_entry sha path p = read_page_entry sha (pub_child_queries p) path"

definition read_child_query_root_metadata :: "(bytes \<Rightarrow> bytes) \<Rightarrow> sealed_run \<Rightarrow>
    ('io scan_page_error, summary_metrics \<times> coverage) res" where
  "read_child_query_root_metadata sha run =
     res_bind (read_header_from_run sha run rp_root) (\<lambda>header.
     res_bind (ok_or header MissingFolder) (\<lambda>header. Inr (sh_header_metrics header, sh_header_coverage header)))"

definition classify_missing_folder :: "(bytes \<Rightarrow> bytes) \<Rightarrow> sealed_run \<Rightarrow> relative_path \<Rightarrow>
    ('io scan_page_error, 'io scan_page_error) res" where
  "classify_missing_folder sha run folder =
     (case relative_parent folder of
        None \<Rightarrow> Inr MissingFolder
      | Some parent \<Rightarrow>
          res_bind (read_exact_entry_from_run sha run parent folder) (\<lambda>entry.
          case entry of
            None \<Rightarrow> Inr MissingFolder
          | Some e \<Rightarrow> if po_kind (st_observation e) = EntryDirectory then Inr MissingFolder else Inr NotDirectory))"

section \<open>Pages\<close>

fun from_page_key_error :: "page_key_error \<Rightarrow> 'io scan_page_error" where
  "from_page_key_error (KeyPathKey e) = PagePathKey e"
| "from_page_key_error KeyPanic = PagePanic"

type_synonym page_slice = "scan_page_entry list \<times> page_cursor option"

definition page_entries_body :: "page_request \<Rightarrow> bytes \<Rightarrow> bytes \<Rightarrow> bytes \<Rightarrow> bytes \<Rightarrow> scan_page_entry list \<Rightarrow>
    ('io scan_page_error, (scan_page_entry list, page_slice) control) res" where
  "page_entries_body rq entry_prefix lower_bound key val entries =
     (if key < lower_bound \<or> (rq_after rq \<noteq> None \<and> key = lower_bound) then Inr (Continue entries)
      else if \<not> prefix entry_prefix key then Inr (Return (entries, None))
      else
        res_bind (record_path_key key val) (\<lambda>full_path_key.
        res_bind (map_err PageRecord (decode_stored_entry full_path_key val)) (\<lambda>stored.
        let entry = into_page_entry stored in
        if \<not> is_direct_child_of (pe_path entry) (rq_folder rq) then Inl (PageRecord RecordMalformed)
        else if length entries = rq_limit rq
        then Inr (Return (entries, if entries = [] then None else Some (cursor_from_entry (last entries))))
        else Inr (Continue (entries @ [entry])))))"

definition read_page_entries :: "(bytes \<Rightarrow> bytes) \<Rightarrow> sealed_run \<Rightarrow> page_request \<Rightarrow> ('io scan_page_error, page_slice) res" where
  "read_page_entries sha run rq =
     res_bind (map_err PagePathKey (encode_path_key_into (rq_folder rq) [])) (\<lambda>folder_key.
     let entry_prefix = page_entry_prefix_from_encoded folder_key in
     res_bind
       (case rq_after rq of
          None \<Rightarrow> Inr entry_prefix
        | Some after \<Rightarrow> map_err from_page_key_error (page_entry_query_key_into (rq_folder rq) after)) (\<lambda>lower_bound.
     res_bind (map_err PageRun (range_reader run lower_bound)) (\<lambda>reader.
       scan_result (\<lambda>entries. (entries, None))
         (gr_scan sha PageRun (page_entries_body rq entry_prefix lower_bound) reader []))))"

text \<open>The page around the entries; the same in \<open>page\<close> and \<open>filtered_page\<close>.\<close>

definition page_of :: "published_generation \<Rightarrow> relative_path \<Rightarrow> stored_header \<Rightarrow> page_slice \<Rightarrow> scan_page" where
  "page_of p folder header part =
     (let root_metrics = pub_root_page_metrics p;
          root_metrics = (if pub_unrecorded_path_count p > 0 then mark_metrics_uncertain root_metrics else root_metrics) in
      \<lparr>pg_generation = pub_generation p, pg_folder = folder,
       pg_folder_metrics = clear_uncertain_physical_bounds (sh_header_metrics header) (sh_header_coverage header),
       pg_folder_coverage = sh_header_coverage header,
       pg_root_metrics = clear_uncertain_physical_bounds root_metrics (pub_root_page_coverage p),
       pg_root_coverage = pub_root_page_coverage p, pg_entries = fst part, pg_next_after = snd part,
       pg_shared_allocation = map_option (\<lambda>metrics.
         \<lparr>sh_metrics = metrics,
          sh_coverage = (if bounds_are_exact (sm_allocated_bytes metrics) \<and> bounds_are_exact (sm_reclaimable_bytes metrics)
            then CoverageComplete else CoverageUncertain)\<rparr>) (sh_header_shared header),
       pg_unrecorded_path_count = pub_unrecorded_path_count p\<rparr>)"

definition page :: "(bytes \<Rightarrow> bytes) \<Rightarrow> page_request \<Rightarrow> published_generation \<Rightarrow> ('io scan_page_error, scan_page) res" where
  "page sha rq p =
     res_bind (validate_page_request rq) (\<lambda>_.
     res_bind (read_header_from_run sha (pub_child_queries p) (rq_folder rq)) (\<lambda>header.
     case header of
       None \<Rightarrow> res_bind (classify_missing_folder sha (pub_child_queries p) (rq_folder rq)) Inl
     | Some header \<Rightarrow>
         res_bind (read_page_entries sha (pub_child_queries p) rq) (\<lambda>part.
           Inr (page_of p (rq_folder rq) header part))))"

section \<open>Filtered pages\<close>

text \<open>\<open>candidates.push\<close>, the sort and the \<open>pop\<close> beyond the limit.\<close>

definition keep_candidate :: "nat \<Rightarrow> scan_page_entry \<Rightarrow> scan_page_entry list \<Rightarrow> scan_page_entry list" where
  "keep_candidate limit candidate candidates =
     (let candidates = sort_by compare_page_entries (candidates @ [candidate]) in
      if length candidates > usize_sat_add limit 1 then butlast candidates else candidates)"

text \<open>The entry of the direct child above a match, and its place among the candidates.\<close>

definition filtered_candidate :: "(bytes \<Rightarrow> bytes) \<Rightarrow> sealed_run \<Rightarrow> relative_path \<Rightarrow> scan_page_entry \<Rightarrow>
    ('io scan_page_error, scan_page_entry) res" where
  "filtered_candidate sha run folder entry =
     res_bind (direct_child_under folder (pe_path entry)) (\<lambda>child.
       if child = pe_path entry then Inr entry
       else
         res_bind (read_exact_entry_from_run sha run folder child) (\<lambda>found.
           ok_or (map_option into_page_entry found) (PageRecord RecordMalformed)))"

definition offer_candidate :: "page_request \<Rightarrow> scan_page_entry \<Rightarrow> scan_page_entry list \<Rightarrow> scan_page_entry list" where
  "offer_candidate rq candidate candidates =
     (if (case rq_after rq of None \<Rightarrow> False | Some after \<Rightarrow> \<not> is_after_cursor candidate after) then candidates
      else if \<exists>existing \<in> set candidates. pe_path existing = pe_path candidate then candidates
      else keep_candidate (rq_limit rq) candidate candidates)"

definition filtered_body :: "(bytes \<Rightarrow> bytes) \<Rightarrow> sealed_run \<Rightarrow> page_request \<Rightarrow> (bytes \<Rightarrow> bytes \<Rightarrow> bool) \<Rightarrow> bytes \<Rightarrow> bytes \<Rightarrow>
    relative_path \<Rightarrow> bytes \<Rightarrow> bytes \<Rightarrow> bytes \<Rightarrow> bytes \<Rightarrow> scan_page_entry list \<Rightarrow>
    ('io scan_page_error, (scan_page_entry list, scan_page_entry list) control) res" where
  "filtered_body sha run rq matches_path root_path filter_base filter_root folder_key lower_bound key val candidates =
     (if key < lower_bound then Inr (Continue candidates)
      else if \<not> prefix folder_key key then Inr (Return candidates)
      else if val \<noteq> [] \<and> hd val = PAGE_HEADER_VERSION then Inr (Continue candidates)
      else
        res_bind (record_path_key key val) (\<lambda>path_key.
        res_bind (map_err PageRecord (decode_stored_entry path_key val)) (\<lambda>stored.
        let entry = into_page_entry stored in
        if \<not> starts_with (pe_path entry) (rq_folder rq) \<or> \<not> starts_with (pe_path entry) filter_root
        then Inr (Continue candidates)
        else if \<not> matches_path (path_push root_path (to_path_buf (pe_path entry))) filter_base
        then Inr (Continue candidates)
        else
          res_bind (filtered_candidate sha run (rq_folder rq) entry) (\<lambda>candidate.
            Inr (Continue (offer_candidate rq candidate candidates))))))"

definition filtered_slice :: "nat \<Rightarrow> scan_page_entry list \<Rightarrow> page_slice" where
  "filtered_slice limit candidates =
     (take limit candidates,
      if length candidates > limit then Some (cursor_from_entry (candidates ! (limit - 1))) else None)"

definition read_filtered_page_entries :: "(bytes \<Rightarrow> bytes) \<Rightarrow> sealed_run \<Rightarrow> page_request \<Rightarrow> bytes \<Rightarrow> bytes \<Rightarrow>
    (bytes \<Rightarrow> bytes \<Rightarrow> bool) \<Rightarrow> relative_path \<Rightarrow> ('io scan_page_error, page_slice) res" where
  "read_filtered_page_entries sha run rq root_path filter_base matches_path filter_root =
     res_bind (map_err PagePathKey (encode_path_key_into (rq_folder rq) [])) (\<lambda>folder_key.
     let lower_bound = page_entry_prefix_from_encoded folder_key in
     res_bind (map_err PageRun (range_reader run lower_bound)) (\<lambda>reader.
     res_bind
       (scan_result (\<lambda>candidates. candidates)
         (gr_scan sha PageRun
           (filtered_body sha run rq matches_path root_path filter_base filter_root folder_key lower_bound) reader []))
       (\<lambda>candidates. Inr (filtered_slice (rq_limit rq) candidates))))"

definition filtered_page :: "(bytes \<Rightarrow> bytes) \<Rightarrow> page_request \<Rightarrow> bytes \<Rightarrow> (bytes \<Rightarrow> bytes \<Rightarrow> bool) \<Rightarrow> relative_path \<Rightarrow>
    published_generation \<Rightarrow> ('io scan_page_error, scan_page) res" where
  "filtered_page sha rq root_path matches_path filter_root p =
     res_bind (validate_page_request rq) (\<lambda>_.
     res_bind (read_header_from_run sha (pub_child_queries p) (rq_folder rq)) (\<lambda>header.
     case header of
       None \<Rightarrow> res_bind (classify_missing_folder sha (pub_child_queries p) (rq_folder rq)) Inl
     | Some header \<Rightarrow>
         let filter_base = path_push root_path (to_path_buf filter_root) in
         res_bind (read_filtered_page_entries sha (pub_child_queries p) rq root_path filter_base matches_path filter_root)
           (\<lambda>part. Inr (page_of p (rq_folder rq) header part))))"

section \<open>Passes over a run\<close>

datatype ('io, 'db) page_index_error =
    IndexIo 'io
  | IndexRun "'io run_error"
  | IndexPathKey path_key_error
  | IndexPathObservation path_observation_codec_error
  | IndexDirectorySummary directory_summary_codec_error
  | IndexIdentityObservation identity_observation_codec_error
  | IndexAllocationContribution allocation_contribution_codec_error
  | IndexRecord page_record_error
  | IndexDatabase 'db
  | DuplicateRecord
  | MissingEntry
  | MissingHeader
  | SummaryForNonDirectory
  | IdentityForDirectory
  | InvalidAllocationTarget
  | PageWrongInputKind
  | PageWrongOutputKind
  | IndexPanic

text \<open>\<open>E: From<RunError> + From<PageIndexError>\<close>: the visitor's error type with its two conversions.\<close>

definition visit_child_query_step :: "(('io, 'db) page_index_error \<Rightarrow> 'e) \<Rightarrow> (stored_entry \<Rightarrow> 's \<Rightarrow> ('e, 's) res) \<Rightarrow>
    bytes \<Rightarrow> bytes \<Rightarrow> 's \<Rightarrow> ('e, 's) res" where
  "visit_child_query_step from_index visit key val s =
     (if val \<noteq> [] \<and> hd val = PAGE_HEADER_VERSION then Inr s
      else
        res_bind (map_err (\<lambda>e. from_index (IndexRecord e)) (stored_entry_parent_key_bytes val)) (\<lambda>n.
        res_bind (map_err (\<lambda>e. from_index (IndexRecord e)) (child_path_key_from_record key n)) (\<lambda>path_key.
        res_bind (map_err (\<lambda>e. from_index (IndexRecord e)) (decode_stored_entry path_key val)) (\<lambda>e. visit e s))))"

definition visit_child_query_entries :: "(bytes \<Rightarrow> bytes) \<Rightarrow> (u64 \<Rightarrow> 'io option) \<Rightarrow> ('io run_error \<Rightarrow> 'e) \<Rightarrow>
    (('io, 'db) page_index_error \<Rightarrow> 'e) \<Rightarrow>
    (path_observation \<Rightarrow> identity_observation option \<Rightarrow> 's \<Rightarrow> ('e, 's) res) \<Rightarrow> run_reader \<Rightarrow> 's \<Rightarrow> ('e, 's \<times> run_reader) res" where
  "visit_child_query_entries sha running from_run from_index visit r s =
     (if rd_kind (rr_descriptor r) \<noteq> RunChildQuery then Inl (from_index PageWrongInputKind)
      else
        rr_visit sha running from_run
          (visit_child_query_step from_index (\<lambda>e. visit (st_observation e)
             (map_option (si_into_observation (po_path (st_observation e))) (st_identity e)))) r s)"

definition visit_child_query_page_entries :: "(bytes \<Rightarrow> bytes) \<Rightarrow> (u64 \<Rightarrow> 'io option) \<Rightarrow> ('io run_error \<Rightarrow> 'e) \<Rightarrow>
    (('io, 'db) page_index_error \<Rightarrow> 'e) \<Rightarrow>
    (scan_page_entry \<Rightarrow> 's \<Rightarrow> ('e, 's) res) \<Rightarrow> run_reader \<Rightarrow> 's \<Rightarrow> ('e, 's \<times> run_reader) res" where
  "visit_child_query_page_entries sha running from_run from_index visit r s =
     (if rd_kind (rr_descriptor r) \<noteq> RunChildQuery then Inl (from_index PageWrongInputKind)
      else rr_visit sha running from_run (visit_child_query_step from_index (\<lambda>e. visit (into_page_entry e))) r s)"

end
