(* ===== verification/Page_Query_Spec.thy ===== *)
theory Page_Query_Spec
  imports Page_Query
begin

text \<open>
  What the queries answer.  A child-query run is described by its items, a header per directory and an
  entry per path; \<open>item_record\<close> relates an item to its record.  The order of the keys is the order of the
  pages: the records of one folder are contiguous and sorted by \<open>page_rank\<close>.  From this every query is a
  list expression over \<open>folder_entries\<close>: \<open>read_header\<close>, \<open>read_exact\<close>, \<open>read_page\<close> and \<open>read_filtered\<close>.
\<close>

section \<open>Keys\<close>

lemma cmp_u128_be: "cmp (u128_be a) (u128_be b) = cmp a b"
proof -
  have less: "u128_be x < u128_be y \<longleftrightarrow> x < y" for x y
  proof -
    have "le_value (u128_le w) = unat w" for w
      using unat_lt_pow [of w] by (simp add: u128_le_def le_value_le_bytes)
    then show ?thesis by (simp add: u128_be_def rev_value_less word_less_nat_alt)
  qed
  have "u128_be a = u128_be b \<longleftrightarrow> a = b" using less by (metis less_irrefl linorder_neqE)
  then show ?thesis by (simp add: cmp_def less)
qed

lemma length_u128_be [simp]: "length (u128_be w) = 16"
  by (simp add: u128_be_def)

lemma prefix_terminated:
  fixes c d :: bytes
  assumes "0 \<notin> set c" "0 \<notin> set d" "prefix (c @ 0 # xs) (d @ 0 # ys)"
  shows "c = d \<and> prefix xs ys"
  using assms
proof (induction c arbitrary: d)
  case Nil
  then show ?case by (cases d) auto
next
  case (Cons b c)
  then show ?case by (cases d) auto
qed

text \<open>The namespace ends the folder: a record key extends the key of one folder only.\<close>

definition plain :: "relative_path \<Rightarrow> bool" where
  "plain p \<longleftrightarrow> nul_free p \<and> relative_path_ok p"

lemma plain_simps [simp]: "plain []" "plain (c # p) \<longleftrightarrow> 0 \<notin> set c \<and> valid_component c \<and> plain p"
  "plain (p @ q) \<longleftrightarrow> plain p \<and> plain q"
  by (auto simp: plain_def nul_free_def)

lemma valid_component_not_Nil: "valid_component c \<Longrightarrow> c \<noteq> []"
  by (auto simp: valid_component_iff)

lemma namespace_folder:
  "plain f \<Longrightarrow> plain g \<Longrightarrow> prefix (key_bytes f @ 0 # 0 # xs) (key_bytes g @ 0 # 0 # ys) \<Longrightarrow> f = g \<and> prefix xs ys"
proof (induction f arbitrary: g)
  case Nil
  then show ?case by (cases g) (auto dest!: valid_component_not_Nil simp: neq_Nil_conv)
next
  case (Cons c f)
  show ?case
  proof (cases g)
    case Nil
    then show ?thesis using Cons.prems by (auto dest!: valid_component_not_Nil simp: neq_Nil_conv)
  next
    case g: (Cons d g')
    then show ?thesis
      using Cons.prems prefix_terminated [of c d "key_bytes f @ 0 # 0 # xs" "key_bytes g' @ 0 # 0 # ys"] Cons.IH [of g'] by auto
  qed
qed

lemma key_bytes_append [simp]: "key_bytes (p @ q) = key_bytes p @ key_bytes q"
  by (simp add: key_bytes_def)

text \<open>A folder's key is a prefix of a record's key exactly when the folder is at or above the record's folder.\<close>

lemma folder_prefix:
  "plain f \<Longrightarrow> plain g \<Longrightarrow> prefix (key_bytes f) (key_bytes g @ 0 # 0 # ys) \<longleftrightarrow> prefix f g"
proof (induction f arbitrary: g)
  case (Cons c f)
  show ?case
  proof (cases g)
    case Nil
    then show ?thesis using Cons.prems by (auto dest!: valid_component_not_Nil simp: neq_Nil_conv)
  next
    case g: (Cons d g')
    have "prefix (c @ 0 # key_bytes f) (d @ 0 # key_bytes g' @ 0 # 0 # ys) \<longleftrightarrow> c = d \<and> prefix (key_bytes f) (key_bytes g' @ 0 # 0 # ys)"
      using Cons.prems g prefix_terminated [of c d "key_bytes f" "key_bytes g' @ 0 # 0 # ys"] by auto
    then show ?thesis using g Cons by simp
  qed
qed simp

section \<open>Items and their records\<close>

datatype query_item = HeaderItem relative_path stored_header | EntryItem stored_entry

definition st_path :: "stored_entry \<Rightarrow> relative_path" where "st_path e = po_path (st_observation e)"

definition header_key :: "relative_path \<Rightarrow> bytes" where
  "header_key f = key_bytes f @ [0, 0, 0]"

definition rank_key :: "relative_path \<Rightarrow> u128 \<Rightarrow> os_string \<Rightarrow> bytes" where
  "rank_key f b c = page_entry_query_key_from_encoded (key_bytes f) b (c @ [0])"

definition query_key :: "stored_entry \<Rightarrow> bytes" where
  "query_key e = rank_key (butlast (st_path e)) (represented_bytes (into_page_entry e)) (last (st_path e))"

definition entry_record :: "stored_entry \<Rightarrow> run_record \<Rightarrow> bool" where
  "entry_record e kv \<longleftrightarrow> entry_ok e \<and> st_path e \<noteq> [] \<and> length (key_bytes (butlast (st_path e))) < 2 ^ 32 \<and>
     unat (st_parent_key_bytes e) = length (key_bytes (butlast (st_path e))) \<and>
     encode_stored_entry_into e = Inr (snd kv) \<and> fst kv = query_key e"

fun item_record :: "query_item \<Rightarrow> run_record \<Rightarrow> bool" where
  "item_record (HeaderItem f h) kv \<longleftrightarrow> plain f \<and> header_ok h \<and> kv = (header_key f, encode_stored_header_into h)"
| "item_record (EntryItem e) kv \<longleftrightarrow> entry_record e kv"

lemma pe_path_into [simp]: "pe_path (into_page_entry e) = st_path e"
  by (simp add: into_page_entry_def st_path_def Let_def split: prod.split)

lemma rank_key_eq: "rank_key f b c = key_bytes f @ 0 # 0 # 1 # u128_be (NOT b) @ c @ [0]"
  by (simp add: rank_key_def page_entry_query_key_from_encoded_def page_entry_prefix_from_encoded_def
      PAGE_RECORD_NAMESPACE_def PAGE_ENTRY_TAG_def)

lemma cmp_rank_key:
  assumes "0 \<notin> set c" "0 \<notin> set d"
  shows "cmp (rank_key f a c) (rank_key f b d) = then_with (cmp b a) (cmp c d)"
proof -
  have n: "cmp (NOT a) (NOT b) = cmp b a" 
    using cmp_reversed [of a b] by (simp only: not_eq_complement minus_diff_commute [of _ 1])
  have "cmp (xs @ ys) (xs @ zs) = cmp ys zs" for xs ys zs :: bytes by (simp add: cmp_append_same_length del: cmp_iff)
  note same = this
  have "cmp (rank_key f a c) (rank_key f b d) = cmp (u128_be (NOT a) @ c @ [0]) (u128_be (NOT b) @ d @ [0])"
    using same [of "key_bytes f @ [0, 0, 1]"] by (simp add: rank_key_eq)
  also have "\<dots> = then_with (cmp b a) (then_with (cmp c d) (cmp [] ([] :: bytes)))"
    using cmp_terminated [OF assms, of "[]" "[]"] by (simp add: cmp_append_same_length cmp_u128_be n del: cmp_iff)
  also have "\<dots> = then_with (cmp b a) (cmp c d)" by (cases "cmp c d") (simp_all del: cmp_iff)
  finally show ?thesis .
qed

lemma entry_recordD:
  assumes "entry_record e kv"
  shows "plain (st_path e)" "plain (butlast (st_path e))" "0 \<notin> set (last (st_path e))" "st_path e \<noteq> []"
    "(map_err g (stored_entry_parent_key_bytes (snd kv)) :: ('e, _) res) = Inr (st_parent_key_bytes e)"
    "child_path_key_from_record (fst kv) (st_parent_key_bytes e) = Inr (key_bytes (st_path e))"
    "decode_stored_entry (key_bytes (st_path e)) (snd kv) = Inr e" "snd kv \<noteq> []" "hd (snd kv) = PAGE_ENTRY_VERSION"
proof -
  have d: "entry_ok e" "encode_stored_entry_into e = Inr (snd kv)" "st_path e \<noteq> []" "fst kv = query_key e"
    "unat (st_parent_key_bytes e) = length (key_bytes (butlast (st_path e)))"
    "length (key_bytes (butlast (st_path e))) < 2 ^ 32"
    using assms by (simp_all add: entry_record_def)
  note r = decode_encode_entry [OF d(1,2), folded st_path_def]
  show p: "plain (st_path e)" using r(5) d(1) by (simp add: plain_def entry_ok_def st_path_def)
  obtain f c where fc: "st_path e = f @ [c]" using d(3) by (metis append_butlast_last_id)
  show "plain (butlast (st_path e))" "0 \<notin> set (last (st_path e))" "st_path e \<noteq> []" using p by (simp_all add: fc)
  show "map_err g (stored_entry_parent_key_bytes (snd kv)) = Inr (st_parent_key_bytes e)"
    "decode_stored_entry (key_bytes (st_path e)) (snd kv) = Inr e" "snd kv \<noteq> []" "hd (snd kv) = PAGE_ENTRY_VERSION"
    using r by simp_all
  show "child_path_key_from_record (fst kv) (st_parent_key_bytes e) = Inr (key_bytes (st_path e))"
    using d(4-6)
    by (simp add: child_path_key_from_record_def child_path_key_from_record_with_metric_def fc query_key_def rank_key_eq
        PAGE_RECORD_NAMESPACE_def PAGE_ENTRY_TAG_def QUERY_METRIC_BYTES_def usize_checked_add_def slice_get_def slice_from_def)
qed

lemma entry_record_path_key:
  "entry_record e kv \<Longrightarrow> record_path_key (fst kv) (snd kv) = (Inr (key_bytes (st_path e)) :: ('io scan_page_error, _) res)"
  using entry_recordD(5) [of e kv id] entry_recordD(6) [of e kv] by (auto simp: record_path_key_def)

text \<open>Where the key of an item lies.\<close>

fun item_folder :: "query_item \<Rightarrow> relative_path" where
  "item_folder (HeaderItem f h) = f"
| "item_folder (EntryItem e) = butlast (st_path e)"

fun is_entry :: "query_item \<Rightarrow> bool" where
  "is_entry (HeaderItem f h) = False"
| "is_entry (EntryItem e) = True"

lemma item_key:
  assumes "item_record i kv"
  shows "plain (item_folder i)" "\<exists>rest. fst kv = key_bytes (item_folder i) @ 0 # 0 # (if is_entry i then 1 else 0) # rest"
proof -
  show "plain (item_folder i)" using assms entry_recordD(2) by (cases i) auto
  show "\<exists>rest. fst kv = key_bytes (item_folder i) @ 0 # 0 # (if is_entry i then 1 else 0) # rest"
    using assms by (cases i) (simp_all add: header_key_def entry_record_def query_key_def rank_key_eq)
qed

lemma entry_prefix_iff:
  assumes "item_record i kv" "plain f"
  shows "prefix (page_entry_prefix_from_encoded (key_bytes f)) (fst kv) \<longleftrightarrow> is_entry i \<and> item_folder i = f"
proof -
  obtain rest where k: "fst kv = key_bytes (item_folder i) @ 0 # 0 # (if is_entry i then 1 else 0) # rest"
    using item_key(2) [OF assms(1)] by blast
  have "prefix (key_bytes f @ 0 # 0 # [1]) (key_bytes (item_folder i) @ 0 # 0 # (if is_entry i then 1 else 0) # rest) \<longleftrightarrow>
      is_entry i \<and> item_folder i = f"
    using namespace_folder [OF assms(2) item_key(1) [OF assms(1)], of "[1]" "(if is_entry i then 1 else 0) # rest"] by auto
  then show ?thesis unfolding k
    by (simp add: page_entry_prefix_from_encoded_def PAGE_RECORD_NAMESPACE_def PAGE_ENTRY_TAG_def)
qed

lemma folder_key_prefix_iff:
  assumes "item_record i kv" "plain f"
  shows "prefix (key_bytes f) (fst kv) \<longleftrightarrow> prefix f (item_folder i)"
  using item_key [OF assms(1)] folder_prefix [OF assms(2), of "item_folder i"] by auto

section \<open>Scanning a folder\<close>

text \<open>A body that leaves the loop on the first key outside a prefix sees exactly the keys below it.\<close>

lemma scan_prefix:
  assumes sorted: "keys_sorted rs" and above: "\<forall>kv \<in> set rs. pre \<le> fst kv"
    and stop: "\<And>k v s. pre \<le> k \<Longrightarrow> \<not> prefix pre k \<Longrightarrow> lower \<le> k \<Longrightarrow> body k v s = Inr (Return (fin s))"
    and lower: "\<forall>kv \<in> set rs. lower \<le> fst kv"
  shows "scan_result fin (scan_all body rs s) = scan_result fin (scan_all body (filter (\<lambda>kv. prefix pre (fst kv)) rs) s)"
  using sorted above lower
proof (induction rs arbitrary: s)
  case (Cons kv rs)
  show ?case
  proof (cases "prefix pre (fst kv)")
    case True
    have IH: "scan_result fin (scan_all body rs s) = scan_result fin (scan_all body (filter (\<lambda>kv. prefix pre (fst kv)) rs) s)" for s
      using Cons by (simp add: keys_sorted_Cons)
    show ?thesis using True IH by (auto split: sum.split control.split)
  next
    case False
    have "\<not> prefix pre (fst q)" if q: "q \<in> set rs" for q
    proof
      assume "prefix pre (fst q)"
      moreover have "fst kv < fst q" "pre \<le> fst kv" using Cons.prems(1,2) q by (simp_all add: keys_sorted_Cons)
      ultimately show False using False prefix_contiguous [of pre "fst kv" "fst q"] by simp
    qed
    then have "filter (\<lambda>kv. prefix pre (fst kv)) (kv # rs) = []" using False by simp
    moreover have "body (fst kv) (snd kv) s = Inr (Return (fin s))" using False Cons.prems(2,3) by (intro stop) simp_all
    ultimately show ?thesis by simp
  qed
qed simp

text \<open>The same over a sealed run, from the lower bound of a range reader.\<close>

definition indexed_from :: "bytes \<Rightarrow> run_record list \<Rightarrow> bool" where
  "indexed_from lower rs \<longleftrightarrow> (\<exists>kv \<in> set rs. fst kv \<le> lower)"

lemma indexed_from_hd:
  assumes "keys_sorted rs" "indexed_from lower rs"
  shows "\<not> (rs = [] \<or> lower < fst (hd rs))"
proof -
  obtain kv where kv: "kv \<in> set rs" "fst kv \<le> lower" using assms(2) by (auto simp: indexed_from_def)
  then have "fst (hd rs) \<le> fst kv" using assms(1) by (cases rs) (auto simp: keys_sorted_Cons less_imp_le)
  then show ?thesis using kv by (auto simp: not_less)
qed

lemma scan_folder:
  assumes run: "write_run sha grow d capacity rs = Inr run" "indexed_kind (rd_kind d)" and sha: "\<And>x. length (sha x) = 32"
    and skip: "\<And>k v. k < lower \<Longrightarrow> body k v s = Inr (Continue s)" and pre: "pre \<le> lower" and index: "indexed_from lower rs"
    and stop: "\<And>k v s. pre \<le> k \<Longrightarrow> \<not> prefix pre k \<Longrightarrow> lower \<le> k \<Longrightarrow> body k v s = Inr (Return (fin s))"
  shows "\<exists>g. range_reader run lower = (Inr g :: ('io run_error, _) res) \<and>
    scan_result fin (gr_scan sha (from :: 'io run_error \<Rightarrow> 'e) body g s) =
      scan_result fin (scan_all body (filter (\<lambda>kv. lower \<le> fst kv \<and> prefix pre (fst kv)) rs) s)"
proof -
  obtain g where g: "range_reader run lower = (Inr g :: ('io run_error, _) res)"
    "gr_scan sha from body g s = scan_all body (if rs = [] \<or> lower < fst (hd rs) then [] else at_or_above lower rs) s"
    using scan_sealed [OF run sha, of lower body s "from"] skip by metis
  have sorted: "keys_sorted rs" using sealed_run_sorted [OF run(1)] .
  obtain below where below: "rs = below @ at_or_above lower rs" using at_or_above_split [OF sorted] by blast
  have sorted': "keys_sorted (at_or_above lower rs)" using keys_sorted_appendD below sorted by metis
  have ge: "\<forall>kv \<in> set (at_or_above lower rs). pre \<le> fst kv" "\<forall>kv \<in> set (at_or_above lower rs). lower \<le> fst kv"
    using pre by (auto simp: at_or_above_def)
  have "scan_result fin (scan_all body (at_or_above lower rs) s) =
      scan_result fin (scan_all body (filter (\<lambda>kv. prefix pre (fst kv)) (at_or_above lower rs)) s)"
    by (rule scan_prefix [OF sorted' ge(1) stop ge(2)])
  then show ?thesis
    using g indexed_from_hd [OF sorted index] by (auto simp: at_or_above_def)
qed

section \<open>The items of a run\<close>

definition query_items :: "query_item list \<Rightarrow> run_record list \<Rightarrow> bool" where
  "query_items items rs \<longleftrightarrow> list_all2 item_record items rs \<and> keys_sorted rs \<and> (\<exists>h. HeaderItem [] h \<in> set items)"

fun entries_of :: "query_item list \<Rightarrow> stored_entry list" where
  "entries_of [] = []"
| "entries_of (HeaderItem f h # items) = entries_of items"
| "entries_of (EntryItem e # items) = e # entries_of items"

definition folder_entries :: "relative_path \<Rightarrow> query_item list \<Rightarrow> stored_entry list" where
  "folder_entries f items = filter (\<lambda>e. butlast (st_path e) = f) (entries_of items)"

lemma list_all2_filter:
  "list_all2 P xs ys \<Longrightarrow> (\<And>x y. P x y \<Longrightarrow> Q x \<longleftrightarrow> R y) \<Longrightarrow> list_all2 P (filter Q xs) (filter R ys)"
  by (induction xs ys rule: list_all2_induct) auto

lemma entries_of_filter: "entries_of (filter (\<lambda>i. is_entry i \<and> Q i) items) = filter (\<lambda>e. Q (EntryItem e)) (entries_of items)"
  by (induction items rule: entries_of.induct) auto

lemma entries_records:
  "list_all2 item_record items rs \<Longrightarrow> \<forall>i \<in> set items. is_entry i \<Longrightarrow> list_all2 entry_record (entries_of items) rs"
proof (induction items rs rule: list_all2_induct)
  case (Cons i items kv rs)
  then show ?case by (cases i) auto
qed simp

lemma folder_records:
  assumes "list_all2 item_record items rs" "plain f"
  shows "list_all2 entry_record (filter (\<lambda>e. butlast (st_path e) = f \<and> lower \<le> query_key e) (entries_of items))
    (filter (\<lambda>kv. lower \<le> fst kv \<and> prefix (page_entry_prefix_from_encoded (key_bytes f)) (fst kv)) rs)"
proof -
  let ?Q = "\<lambda>i. is_entry i \<and> (item_folder i = f \<and> (\<forall>e. i = EntryItem e \<longrightarrow> lower \<le> query_key e))"
  have "list_all2 item_record (filter ?Q items)
      (filter (\<lambda>kv. lower \<le> fst kv \<and> prefix (page_entry_prefix_from_encoded (key_bytes f)) (fst kv)) rs)"
  proof (rule list_all2_filter [OF assms(1)])
    fix i kv assume "item_record i kv"
    then show "?Q i \<longleftrightarrow> lower \<le> fst kv \<and> prefix (page_entry_prefix_from_encoded (key_bytes f)) (fst kv)"
      using entry_prefix_iff [OF \<open>item_record i kv\<close> assms(2)] by (cases i) (auto simp: entry_record_def)
  qed
  then have "list_all2 entry_record (entries_of (filter ?Q items))
      (filter (\<lambda>kv. lower \<le> fst kv \<and> prefix (page_entry_prefix_from_encoded (key_bytes f)) (fst kv)) rs)"
    by (intro entries_records) auto
  then show ?thesis unfolding entries_of_filter by simp
qed

lemma entries_of_iff: "e \<in> set (entries_of items) \<longleftrightarrow> EntryItem e \<in> set items"
  by (induction items rule: entries_of.induct) auto

lemma entries_record:
  assumes "list_all2 item_record items rs" "e \<in> set (entries_of items)"
  shows "\<exists>kv \<in> set rs. entry_record e kv"
proof -
  obtain n where "n < length items" "items ! n = EntryItem e" using assms(2) unfolding entries_of_iff by (metis in_set_conv_nth)
  then show ?thesis using assms(1) by (metis item_record.simps(2) list_all2_conv_all_nth nth_mem)
qed

text \<open>The root header makes every folder's keys reachable through the sparse index.\<close>

lemma folder_indexed:
  assumes "query_items items rs" "plain f" "lower = key_bytes f @ 0 # 0 # t # rest"
  shows "indexed_from lower rs"
proof -
  obtain h where "HeaderItem [] h \<in> set items" using assms(1) by (auto simp: query_items_def)
  then obtain n where "n < length items" "items ! n = HeaderItem [] h" by (auto simp: in_set_conv_nth)
  then have "(header_key [], encode_stored_header_into h) \<in> set rs"
    using assms(1) by (metis query_items_def item_record.simps(1) list_all2_conv_all_nth nth_mem)
  moreover have "header_key [] \<le> lower"
  proof (cases f)
    case Nil
    then show ?thesis using assms(3) by (cases "t = 0") (auto simp: header_key_def word_neq_0_conv)
  next
    case (Cons c f')
    then obtain b c' where "c = b # c'" using assms(2) valid_component_not_Nil [of c] by (cases c) auto
    moreover then have "b \<noteq> 0" using Cons assms(2) by auto
    moreover obtain more' where "lower = b # more'" using assms(3) Cons calculation by auto
    ultimately show ?thesis by (simp add: header_key_def word_neq_0_conv)
  qed
  ultimately show ?thesis unfolding indexed_from_def by force
qed

section \<open>Headers and single entries\<close>

fun header_of :: "relative_path \<Rightarrow> query_item list \<Rightarrow> stored_header option" where
  "header_of f [] = None"
| "header_of f (HeaderItem g h # items) = (if g = f then Some h else header_of f items)"
| "header_of f (EntryItem e # items) = header_of f items"

lemma header_key_iff:
  assumes "item_record i kv" "plain f"
  shows "fst kv = header_key f \<longleftrightarrow> \<not> is_entry i \<and> item_folder i = f"
proof -
  obtain rest where k: "fst kv = key_bytes (item_folder i) @ 0 # 0 # (if is_entry i then 1 else 0) # rest"
    using item_key(2) [OF assms(1)] by blast
  have "fst kv = header_key f \<Longrightarrow> item_folder i = f \<and> \<not> is_entry i"
    using namespace_folder [OF assms(2) item_key(1) [OF assms(1)], of "[0]" "(if is_entry i then 1 else 0) # rest"] k
    by (auto simp: header_key_def split: if_splits)
  then show ?thesis using assms(1) by (cases i) auto
qed

lemma header_lookup:
  "list_all2 item_record items rs \<Longrightarrow> plain f \<Longrightarrow>
     map_of rs (header_key f) = map_option encode_stored_header_into (header_of f items)"
proof (induction items rs rule: list_all2_induct)
  case (Cons i items kv rs)
  then show ?case using header_key_iff [of i kv f] by (cases i; cases kv) auto
qed simp

lemma header_of_ok: "list_all2 item_record items rs \<Longrightarrow> header_of f items = Some h \<Longrightarrow> header_ok h"
proof (induction items rs rule: list_all2_induct)
  case (Cons i items kv rs)
  then show ?case by (cases i) (auto split: if_splits)
qed simp

lemma read_header:
  assumes run: "write_run sha grow d capacity rs = Inr run" "rd_kind d = RunChildQuery" and sha: "\<And>x. length (sha x) = 32"
    and items: "query_items items rs" and f: "plain f"
  shows "read_header_from_run sha run f = (Inr (header_of f items) :: ('io scan_page_error, _) res)"
proof -
  have ix: "indexed_kind (rd_kind d)" by (simp add: indexed_kind_def run(2))
  have all: "list_all2 item_record items rs" using items by (simp add: query_items_def)
  have key: "page_header_key_into f = Inr (header_key f)"
    using f by (simp add: page_header_key_into_def encode_path_key_into_def append_path_key_eq plain_def header_key_def
        PAGE_RECORD_NAMESPACE_def PAGE_HEADER_TAG_def)
  let ?dec = "\<lambda>val. map_err (PageRecord :: _ \<Rightarrow> 'io scan_page_error) (decode_stored_header val)"
  obtain g where g: "range_reader run (header_key f) = (Inr g :: ('io run_error, _) res)"
    "scan_result (\<lambda>_. None) (gr_scan sha (PageRun :: 'io run_error \<Rightarrow> _) (lookup_body (header_key f) ?dec) g ()) =
      (case map_of rs (header_key f) of None \<Rightarrow> Inr None | Some v \<Rightarrow> res_bind (?dec v) (\<lambda>x. Inr (Some x)))"
    using lookup_sealed [OF run(1) ix sha, of "header_key f" PageRun ?dec] by blast
  show ?thesis
  proof (cases "header_of f items")
    case None
    then show ?thesis using g key header_lookup [OF all f] by (simp add: read_header_from_run_def)
  next
    case (Some h)
    then show ?thesis
      using g key header_lookup [OF all f] decode_encode_header [OF header_of_ok [OF all Some]]
      by (simp add: read_header_from_run_def)
  qed
qed

text \<open>The exact entry of a path.\<close>

lemma scan_exact:
  assumes "list_all2 entry_record es qs" "\<forall>kv \<in> set qs. pre \<le> fst kv \<and> prefix pre (fst kv)"
  shows "scan_result (\<lambda>_. None) (scan_all (exact_entry_body pre child) qs ()) =
    (Inr (List.find (\<lambda>e. st_path e = child) es) :: ('io scan_page_error, _) res)"
  using assms
proof (induction es qs rule: list_all2_induct)
  case (Cons e es kv qs)
  note D = entry_recordD [OF Cons.hyps(1)]
  have dec: "decode_path_key (key_bytes (st_path e)) = Inr (st_path e)"
    using D(1) by (intro decode_path_key_bytes) (simp_all add: plain_def)
  have "\<not> fst kv < pre" "prefix pre (fst kv)" using Cons.prems by (auto simp: not_less)
  then have "exact_entry_body pre child (fst kv) (snd kv) () =
      (if st_path e = child then Inr (Return (Some e)) else Inr (Continue ()) :: ('io scan_page_error, _) res)"
    using entry_record_path_key [where ?'io = 'io, OF Cons.hyps(1)] D(7) dec by (cases "st_path e = child") (simp_all add: exact_entry_body_def)
  then show ?case using Cons.IH Cons.prems by simp
qed simp

lemma entry_prefix_form: "page_entry_prefix_from_encoded (key_bytes f) = key_bytes f @ 0 # 0 # 1 # []"
  by (simp add: page_entry_prefix_from_encoded_def PAGE_RECORD_NAMESPACE_def PAGE_ENTRY_TAG_def)

lemma prefix_query_key: "butlast (st_path e) = f \<Longrightarrow> prefix (page_entry_prefix_from_encoded (key_bytes f)) (query_key e)"
  by (simp add: query_key_def rank_key_eq entry_prefix_form)

lemma query_key_ge: "butlast (st_path e) = f \<Longrightarrow> page_entry_prefix_from_encoded (key_bytes f) \<le> query_key e"
  by (rule prefix_le_list, rule prefix_query_key)

lemma read_exact:
  assumes run: "write_run sha grow d capacity rs = Inr run" "rd_kind d = RunChildQuery" and sha: "\<And>x. length (sha x) = 32"
    and items: "query_items items rs" and f: "plain f"
  shows "read_exact_entry_from_run sha run f child =
    (Inr (List.find (\<lambda>e. st_path e = child) (folder_entries f items)) :: ('io scan_page_error, _) res)"
proof -
  let ?pre = "page_entry_prefix_from_encoded (key_bytes f)"
  let ?body = "exact_entry_body ?pre child :: _ \<Rightarrow> _ \<Rightarrow> _ \<Rightarrow> ('io scan_page_error, _) res"
  have ix: "indexed_kind (rd_kind d)" by (simp add: indexed_kind_def run(2))
  have skip: "?body k v () = Inr (Continue ())" if "k < ?pre" for k v using that by (simp add: exact_entry_body_def)
  have stop: "?body k v s = Inr (Return None)" if "?pre \<le> k" "\<not> prefix ?pre k" "?pre \<le> k" for k v s
    using that by (simp add: exact_entry_body_def)
  obtain g where g: "range_reader run ?pre = (Inr g :: ('io run_error, _) res)"
    "scan_result (\<lambda>_. None) (gr_scan sha (PageRun :: 'io run_error \<Rightarrow> _) ?body g ()) =
      scan_result (\<lambda>_. None) (scan_all ?body (filter (\<lambda>kv. ?pre \<le> fst kv \<and> prefix ?pre (fst kv)) rs) ())"
    using scan_folder [where body = ?body and fin = "\<lambda>_. None" and lower = ?pre and pre = ?pre and ?from = PageRun,
        OF run(1) ix sha skip order_refl folder_indexed [OF items f entry_prefix_form] stop] by blast
  have recs: "list_all2 entry_record (filter (\<lambda>e. butlast (st_path e) = f \<and> ?pre \<le> query_key e) (entries_of items))
      (filter (\<lambda>kv. ?pre \<le> fst kv \<and> prefix ?pre (fst kv)) rs)"
    using items f by (intro folder_records) (simp_all add: query_items_def)
  have "filter (\<lambda>e. butlast (st_path e) = f \<and> ?pre \<le> query_key e) (entries_of items) = folder_entries f items"
    unfolding folder_entries_def using query_key_ge by (intro filter_cong) auto
  then show ?thesis
    using g scan_exact [where ?'io = 'io, OF recs] f
    by (simp add: read_exact_entry_from_run_def encode_path_key_into_def append_path_key_eq plain_def)
qed

section \<open>Pages\<close>

definition folder_page :: "relative_path \<Rightarrow> query_item list \<Rightarrow> scan_page_entry list" where
  "folder_page f items = map into_page_entry (folder_entries f items)"

definition after_cursor :: "page_cursor option \<Rightarrow> scan_page_entry list \<Rightarrow> scan_page_entry list" where
  "after_cursor after es = (case after of None \<Rightarrow> es | Some cur \<Rightarrow> filter (\<lambda>e. is_after_cursor e cur) es)"

lemma scan_all_filter:
  "\<forall>kv \<in> set qs. \<not> P kv \<longrightarrow> (\<forall>s. body (fst kv) (snd kv) s = Inr (Continue s)) \<Longrightarrow> scan_all body qs s = scan_all body (filter P qs) s"
  by (induction qs arbitrary: s) (auto split: sum.split control.split)

lemma scan_page:
  assumes "list_all2 entry_record es qs" "\<forall>e \<in> set es. butlast (st_path e) = rq_folder rq" "vec_sized (rq_folder rq)"
    "\<forall>kv \<in> set qs. lower \<le> fst kv \<and> (rq_after rq \<noteq> None \<longrightarrow> fst kv \<noteq> lower) \<and> prefix pre (fst kv)"
    "length acc \<le> rq_limit rq" "0 < rq_limit rq"
  shows "scan_result (\<lambda>es. (es, None)) (scan_all (page_entries_body rq pre lower) qs acc) =
    (Inr (filtered_slice (rq_limit rq) (acc @ map into_page_entry es)) :: ('io scan_page_error, _) res)"
  using assms
proof (induction es qs arbitrary: acc rule: list_all2_induct)
  case (Cons e es kv qs)
  note D = entry_recordD [OF Cons.hyps(1)]
  have key: "\<not> (fst kv < lower \<or> (rq_after rq \<noteq> None \<and> fst kv = lower))" "prefix pre (fst kv)"
    using Cons.prems(3) by (auto simp: not_less)
  have child: "is_direct_child_of (st_path e) (rq_folder rq)"
    using direct_child_iff [OF Cons.prems(2), of "st_path e"] Cons.prems(1) D(4)
    by (metis append_butlast_last_id list.set_intros(1))
  let ?body = "page_entries_body rq pre lower (fst kv) (snd kv) acc :: ('io scan_page_error, _) res"
  have step: "?body = (if length acc = rq_limit rq then Inr (Return (acc, Some (cursor_from_entry (last acc))))
      else Inr (Continue (acc @ [into_page_entry e])))"
    using key entry_record_path_key [where ?'io = 'io, OF Cons.hyps(1)] D(7) child Cons.prems(5)
    unfolding page_entries_body_def by (cases "acc = []") (simp_all add: Let_def)
  show ?case
  proof (cases "length acc = rq_limit rq")
    case True
    then have ne: "acc \<noteq> []" using Cons.prems(5) by auto
    have "last acc = acc ! (rq_limit rq - 1)" using last_conv_nth [OF ne] True by argo
    moreover have "rq_limit rq - 1 < length acc" using Cons.prems(5) True by linarith
    then have "(acc @ map into_page_entry (e # es)) ! (rq_limit rq - 1) = acc ! (rq_limit rq - 1)" by (rule nth_append_left)
    ultimately have "filtered_slice (rq_limit rq) (acc @ map into_page_entry (e # es)) = (acc, Some (cursor_from_entry (last acc)))"
      using True unfolding filtered_slice_def by simp
    then show ?thesis using step True by simp
  next
    case False
    have "scan_result (\<lambda>es. (es, None)) (scan_all (page_entries_body rq pre lower) qs (acc @ [into_page_entry e])) =
      (Inr (filtered_slice (rq_limit rq) ((acc @ [into_page_entry e]) @ map into_page_entry es)) :: ('io scan_page_error, _) res)"
      using Cons.prems False by (intro Cons.IH) simp_all
    then show ?thesis using step False by simp
  qed
qed (simp add: filtered_slice_def)

lemma query_key_after:
  assumes "entry_record e kv" "butlast (st_path e) = f" "0 \<notin> set c"
  shows "rank_key f b c < query_key e \<longleftrightarrow> is_after_cursor (into_page_entry e) \<lparr>cur_path = f @ [c], cur_represented_bytes = b\<rparr>"
proof -
  have path: "st_path e = f @ [last (st_path e)]" using entry_recordD(4) [OF assms(1)] assms(2) by (metis append_butlast_last_id)
  have "rank_key f b c < query_key e \<longleftrightarrow>
      then_with (cmp (represented_bytes (into_page_entry e)) b) (cmp c (last (st_path e))) = OrdLess"
    unfolding cmp_iff(1) [symmetric] query_key_def assms(2)
    using cmp_rank_key [OF assms(3) entry_recordD(3) [OF assms(1)]] by simp
  also have "\<dots> \<longleftrightarrow> represented_bytes (into_page_entry e) < b \<or> (represented_bytes (into_page_entry e) = b \<and> c < last (st_path e))"
    by (auto simp: then_with_def)
  also have "c < last (st_path e) \<longleftrightarrow> f @ [c] < st_path e" by (subst (2) path) (induction f, simp_all)
  finally show ?thesis by (simp add: is_after_cursor_def rp_cmp_cmp)
qed

definition cursor_ok :: "relative_path \<Rightarrow> page_cursor option \<Rightarrow> bool" where
  "cursor_ok f after \<longleftrightarrow> (\<forall>cur. after = Some cur \<longrightarrow> (\<exists>c. cur_path cur = f @ [c] \<and> 0 \<notin> set c))"

lemma query_key_into:
  assumes "plain f" "cur_path cur = f @ [c]" "0 \<notin> set c"
  shows "page_entry_query_key_into f cur = Inr (rank_key f (cur_represented_bytes cur) c)"
  using assms
  by (simp add: page_entry_query_key_into_def child_suffix_of_def encode_path_key_into_def append_path_key_eq plain_def
      nul_free_def slice_from_def rank_key_def)

lemma read_page:
  assumes run: "write_run sha grow d capacity rs = Inr run" "rd_kind d = RunChildQuery" and sha: "\<And>x. length (sha x) = 32"
    and items: "query_items items rs" and f: "plain (rq_folder rq)" "vec_sized (rq_folder rq)"
    and cur: "cursor_ok (rq_folder rq) (rq_after rq)" and limit: "0 < rq_limit rq"
  shows "read_page_entries sha run rq =
    (Inr (filtered_slice (rq_limit rq) (after_cursor (rq_after rq) (folder_page (rq_folder rq) items))) :: ('io scan_page_error, _) res)"
proof -
  let ?f = "rq_folder rq"
  let ?pre = "page_entry_prefix_from_encoded (key_bytes ?f)"
  define lower where "lower = (case rq_after rq of None \<Rightarrow> ?pre | Some cur \<Rightarrow> rank_key ?f (cur_represented_bytes cur) (last (cur_path cur)))"
  have lower: "(case rq_after rq of None \<Rightarrow> Inr ?pre
      | Some after \<Rightarrow> map_err from_page_key_error (page_entry_query_key_into ?f after)) = (Inr lower :: ('io scan_page_error, _) res)"
    using cur query_key_into [OF f(1)] by (auto simp: lower_def cursor_ok_def split: option.split)
  have form: "\<exists>rest. lower = key_bytes ?f @ 0 # 0 # 1 # rest"
    by (cases "rq_after rq") (simp_all add: lower_def entry_prefix_form rank_key_eq)
  then obtain rest where form: "lower = key_bytes ?f @ 0 # 0 # 1 # rest" by blast
  then have pre: "?pre \<le> lower" by (intro prefix_le_list) (simp add: entry_prefix_form)
  let ?body = "page_entries_body rq ?pre lower :: _ \<Rightarrow> _ \<Rightarrow> _ \<Rightarrow> ('io scan_page_error, _) res"
  have ix: "indexed_kind (rd_kind d)" by (simp add: indexed_kind_def run(2))
  have skip: "?body k v s = Inr (Continue s)" if "k < lower" for k v s using that by (simp add: page_entries_body_def)
  have stop: "?body k v s = Inr (Return (s, None))" if "?pre \<le> k" "\<not> prefix ?pre k" "lower \<le> k" for k v s
  proof -
    have "k \<noteq> lower" using that(2) form by (auto simp: entry_prefix_form)
    then show ?thesis using that by (simp add: page_entries_body_def)
  qed
  let ?qs = "filter (\<lambda>kv. lower \<le> fst kv \<and> prefix ?pre (fst kv)) rs"
  obtain g where g: "range_reader run lower = (Inr g :: ('io run_error, _) res)"
    "scan_result (\<lambda>es. (es, None)) (gr_scan sha (PageRun :: 'io run_error \<Rightarrow> _) ?body g []) =
      scan_result (\<lambda>es. (es, None)) (scan_all ?body ?qs [])"
    using scan_folder [where body = ?body and fin = "\<lambda>es. (es, None)" and lower = lower and pre = ?pre and ?from = PageRun,
        OF run(1) ix sha skip pre folder_indexed [OF items f(1) form] stop] by blast
  let ?P = "\<lambda>k. rq_after rq \<noteq> None \<longrightarrow> k \<noteq> lower"
  let ?es = "filter (\<lambda>e. ?P (query_key e)) (filter (\<lambda>e. butlast (st_path e) = ?f \<and> lower \<le> query_key e) (entries_of items))"
  have all: "list_all2 item_record items rs" using items by (simp add: query_items_def)
  have "scan_all ?body ?qs [] = scan_all ?body (filter (\<lambda>kv. ?P (fst kv)) ?qs) []"
    by (rule scan_all_filter) (auto simp: page_entries_body_def)
  moreover have recs: "list_all2 entry_record ?es (filter (\<lambda>kv. ?P (fst kv)) ?qs)"
    by (rule list_all2_filter [OF folder_records [OF all f(1)]]) (simp add: entry_record_def)
  moreover have "scan_result (\<lambda>es. (es, None)) (scan_all ?body (filter (\<lambda>kv. ?P (fst kv)) ?qs) []) =
      (Inr (filtered_slice (rq_limit rq) ([] @ map into_page_entry ?es)) :: ('io scan_page_error, _) res)"
    using f(2) limit by (intro scan_page [OF recs]) auto
  moreover have "map into_page_entry ?es = after_cursor (rq_after rq) (folder_page ?f items)"
  proof (cases "rq_after rq")
    case None
    then have "?es = folder_entries ?f items"
      using query_key_ge [of _ ?f] by (auto simp: lower_def folder_entries_def intro!: filter_cong)
    then show ?thesis using None by (simp add: after_cursor_def folder_page_def)
  next
    case (Some a)
    then obtain c where c: "cur_path a = ?f @ [c]" "0 \<notin> set c" using cur by (auto simp: cursor_ok_def)
    have a: "a = \<lparr>cur_path = ?f @ [c], cur_represented_bytes = cur_represented_bytes a\<rparr>" using c(1) by simp
    have low: "lower = rank_key ?f (cur_represented_bytes a) c" using Some c(1) by (simp add: lower_def)
    have "(lower \<le> query_key e \<and> query_key e \<noteq> lower) \<longleftrightarrow> is_after_cursor (into_page_entry e) a"
      if e: "e \<in> set (entries_of items)" "butlast (st_path e) = ?f" for e
    proof -
      obtain kv where "entry_record e kv" using entries_record [OF all e(1)] by blast
      then have "lower < query_key e \<longleftrightarrow> is_after_cursor (into_page_entry e) a"
        unfolding low using query_key_after [OF _ e(2) c(2)] a by metis
      then show ?thesis by auto
    qed
    then have "?es = filter (\<lambda>e. is_after_cursor (into_page_entry e) a) (folder_entries ?f items)"
      using Some unfolding folder_entries_def by (auto intro!: filter_cong)
    then show ?thesis using Some by (simp add: after_cursor_def folder_page_def filter_map comp_def)
  qed
  ultimately show ?thesis
    using g lower f(1) by (simp add: read_page_entries_def encode_path_key_into_def append_path_key_eq plain_def Let_def)
qed

section \<open>The order of a folder\<close>

lemma list_all2_sorted:
  assumes "list_all2 entry_record es qs" "sorted_wrt (\<lambda>a b. fst a < fst b) qs"
  shows "sorted_wrt (\<lambda>a b. query_key a < query_key b) es"
proof -
  have "query_key (es ! i) < query_key (es ! j)" if ij: "i < j" "j < length es" for i j
  proof -
    have "entry_record (es ! i) (qs ! i)" "entry_record (es ! j) (qs ! j)" "j < length qs"
      using assms(1) ij by (simp_all add: list_all2_conv_all_nth)
    then show ?thesis using sorted_wrt_nth_less [OF assms(2) ij(1)] by (simp add: entry_record_def)
  qed
  then show ?thesis by (simp add: sorted_wrt_iff_nth_less)
qed

lemma query_key_rank:
  assumes "entry_record e kv" "entry_record e' kv'" "butlast (st_path e) = f" "butlast (st_path e') = f"
  shows "query_key e < query_key e' \<longleftrightarrow> page_rank (into_page_entry e) < page_rank (into_page_entry e')"
proof -
  have c: "0 \<notin> set (last (st_path e))" and path: "st_path e = f @ [last (st_path e)]"
    using entry_recordD(3,4) [OF assms(1)] assms(3) by (simp, metis append_butlast_last_id)
  have "query_key e = rank_key f (represented_bytes (into_page_entry e)) (last (st_path e))" using assms(3) by (simp add: query_key_def)
  then have "query_key e < query_key e' \<longleftrightarrow> is_after_cursor (into_page_entry e')
      \<lparr>cur_path = f @ [last (st_path e)], cur_represented_bytes = represented_bytes (into_page_entry e)\<rparr>"
    using query_key_after [OF assms(2,4) c] by simp
  also have "\<lparr>cur_path = f @ [last (st_path e)], cur_represented_bytes = represented_bytes (into_page_entry e)\<rparr> =
      cursor_from_entry (into_page_entry e)" using path by (simp add: cursor_from_entry_def)
  finally show ?thesis by (simp add: is_after_cursor_rank)
qed

lemma folder_page_sorted:
  assumes "query_items items rs" "plain f"
  shows "sorted_wrt (<) (map page_rank (folder_page f items))"
proof -
  have all: "list_all2 item_record items rs" and sorted: "sorted_wrt (\<lambda>a b. fst a < fst b) rs"
    using assms(1) by (simp_all add: query_items_def keys_sorted_def sorted_wrt_map)
  let ?pre = "page_entry_prefix_from_encoded (key_bytes f)"
  have "filter (\<lambda>e. butlast (st_path e) = f \<and> ?pre \<le> query_key e) (entries_of items) = folder_entries f items"
    unfolding folder_entries_def using query_key_ge by (intro filter_cong) auto
  then have "list_all2 entry_record (folder_entries f items) (filter (\<lambda>kv. ?pre \<le> fst kv \<and> prefix ?pre (fst kv)) rs)"
    using folder_records [OF all assms(2), of ?pre] by simp
  then have s: "sorted_wrt (\<lambda>a b. query_key a < query_key b) (folder_entries f items)"
    by (rule list_all2_sorted) (rule sorted_wrt_filter [OF sorted])
  show ?thesis
    unfolding folder_page_def sorted_wrt_map
  proof (rule sorted_wrt_mono_rel [OF _ s])
    fix a b assume "a \<in> set (folder_entries f items)" "b \<in> set (folder_entries f items)" "query_key a < query_key b"
    moreover then obtain kv kv' where "entry_record a kv" "entry_record b kv'"
      using entries_record [OF all, of a] entries_record [OF all, of b] unfolding folder_entries_def by auto
    ultimately show "page_rank (into_page_entry a) < page_rank (into_page_entry b)"
      using query_key_rank [of a kv b kv' f] by (simp add: folder_entries_def)
  qed
qed

text \<open>After the cursor of the \<open>n\<close>th entry come the entries behind it.\<close>

lemma after_cursor_nth:
  assumes "sorted_wrt (<) (map page_rank es)" "n < length es"
  shows "after_cursor (Some (cursor_from_entry (es ! n))) es = drop (Suc n) es"
proof -
  have less: "page_rank (es ! i) < page_rank (es ! j)" if "i < j" "j < length es" for i j
    using sorted_wrt_nth_less [OF assms(1), of i j] that by simp
  have "filter (\<lambda>e. page_rank (es ! n) < page_rank e) (take (Suc n) es) = []"
  proof -
    have "\<not> page_rank (es ! n) < page_rank e" if e: "e \<in> set (take (Suc n) es)" for e
    proof -
      obtain i where "i < Suc n" "e = es ! i" using e assms(2) unfolding in_set_conv_nth by auto
      then show ?thesis using less [of i n] assms(2) by (cases "i = n") auto
    qed
    then show ?thesis by (simp add: filter_empty_conv)
  qed
  moreover have "filter (\<lambda>e. page_rank (es ! n) < page_rank e) (drop (Suc n) es) = drop (Suc n) es"
  proof -
    have "page_rank (es ! n) < page_rank e" if e: "e \<in> set (drop (Suc n) es)" for e
    proof -
      obtain i where "i < length es - Suc n" "e = es ! (Suc n + i)" using e assms(2) unfolding in_set_conv_nth by auto
      then show ?thesis using less [of n "Suc n + i"] by simp
    qed
    then show ?thesis by (simp add: filter_id_conv)
  qed
  ultimately have "filter (\<lambda>e. page_rank (es ! n) < page_rank e) (take (Suc n) es @ drop (Suc n) es) = drop (Suc n) es"
    by (simp only: filter_append append_Nil)
  then show ?thesis by (simp add: after_cursor_def is_after_cursor_rank)
qed

section \<open>Following the cursors\<close>

text \<open>Reading page after page; \<open>None\<close> when the number of pages given does not suffice.\<close>

fun all_pages :: "nat \<Rightarrow> (page_cursor option \<Rightarrow> ('e, page_slice) res) \<Rightarrow> page_cursor option \<Rightarrow>
    ('e, scan_page_entry list) res option" where
  "all_pages 0 query after = None"
| "all_pages (Suc n) query after =
     (case query after of
        Inl e \<Rightarrow> Some (Inl e)
      | Inr (es, None) \<Rightarrow> Some (Inr es)
      | Inr (es, Some cur) \<Rightarrow> map_option (\<lambda>r. res_bind r (\<lambda>rest. Inr (es @ rest))) (all_pages n query (Some cur)))"

definition position :: "scan_page_entry list \<Rightarrow> nat \<Rightarrow> page_cursor option" where
  "position es k = (if k = 0 then None else Some (cursor_from_entry (es ! (k - 1))))"

lemma after_position:
  assumes "sorted_wrt (<) (map page_rank es)" "k \<le> length es"
  shows "after_cursor (position es k) es = drop k es"
proof (cases k)
  case (Suc n)
  then show ?thesis using after_cursor_nth [OF assms(1), of n] assms(2) by (simp add: position_def)
qed (simp add: position_def after_cursor_def)

lemma filtered_slice_position:
  assumes "0 < limit" "k \<le> length es"
  shows "filtered_slice limit (drop k es) =
    (take limit (drop k es), if k + limit < length es then position es (k + limit) else None)"
proof (cases "k + limit < length es")
  case True
  have "k + (limit - 1) = k + limit - 1" using assms(1) by simp
  then have "drop k es ! (limit - 1) = es ! (k + limit - 1)" using assms(2) by simp
  then show ?thesis using True assms(1) by (simp add: filtered_slice_def position_def)
qed (use assms(2) in \<open>simp add: filtered_slice_def\<close>)

lemma all_pages_complete:
  assumes query: "\<And>k. k < length es \<or> k = 0 \<Longrightarrow> query (position es k) = Inr (filtered_slice limit (drop k es))"
    and limit: "0 < limit"
  shows "k < length es \<or> k = 0 \<Longrightarrow> length es - k < n \<Longrightarrow> all_pages n query (position es k) = Some (Inr (drop k es))"
proof (induction n arbitrary: k)
  case (Suc n)
  have k: "k \<le> length es" using Suc.prems(1) by auto
  show ?case
  proof (cases "k + limit < length es")
    case True
    obtain cur where cur: "position es (k + limit) = Some cur" using limit by (simp add: position_def)
    have "all_pages n query (position es (k + limit)) = Some (Inr (drop (k + limit) es))"
      using True Suc.prems(2) limit by (intro Suc.IH) simp_all
    moreover have "take limit (drop k es) @ drop (k + limit) es = drop k es"
      using append_take_drop_id [of limit "drop k es"] by (simp add: add.commute)
    ultimately show ?thesis using query [OF Suc.prems(1)] filtered_slice_position [OF limit k] True cur by simp
  next
    case False
    then show ?thesis using query [OF Suc.prems(1)] filtered_slice_position [OF limit k] by simp
  qed
qed simp

section \<open>The page query\<close>

definition missing_folder_error :: "relative_path \<Rightarrow> query_item list \<Rightarrow> 'io scan_page_error" where
  "missing_folder_error f items =
     (case List.find (\<lambda>e. st_path e = f) (folder_entries (butlast f) items) of
        None \<Rightarrow> MissingFolder
      | Some e \<Rightarrow> if po_kind (st_observation e) = EntryDirectory then MissingFolder else NotDirectory)"

lemma find_root: "\<forall>e \<in> set es. st_path e \<noteq> [] \<Longrightarrow> List.find (\<lambda>e. st_path e = []) es = None"
  by (simp add: find_None_iff')

lemma classify_missing:
  assumes run: "write_run sha grow d capacity rs = Inr run" "rd_kind d = RunChildQuery" and sha: "\<And>x. length (sha x) = 32"
    and items: "query_items items rs" and f: "plain f"
  shows "classify_missing_folder sha run f = (Inr (missing_folder_error f items) :: ('io scan_page_error, _) res)"
proof (cases "f = []")
  case True
  have "st_path e \<noteq> []" if "e \<in> set (entries_of items)" for e
    using entries_record [of items rs e] that items entry_recordD(4) by (auto simp: query_items_def)
  then have "List.find (\<lambda>e. st_path e = []) (folder_entries [] items) = None" by (intro find_root) (auto simp: folder_entries_def)
  then show ?thesis using True by (simp add: classify_missing_folder_def relative_parent_def is_root_def missing_folder_error_def)
next
  case False
  have p: "plain (butlast f)" using f False by (metis append_butlast_last_id plain_simps(3))
  have "relative_parent f = Some (butlast f)" using False by (simp add: relative_parent_def is_root_def depth_def butlast_conv_take)
  then show ?thesis
    using read_exact [where ?'io = 'io, OF run sha items p, of f]
    by (auto simp: classify_missing_folder_def missing_folder_error_def split: option.split)
qed

lemma page_query:
  assumes run: "write_run sha grow d capacity rs = Inr (pub_child_queries p)" "rd_kind d = RunChildQuery"
    and sha: "\<And>x. length (sha x) = 32" and items: "query_items items rs"
    and f: "plain (rq_folder rq)" "vec_sized (rq_folder rq)" and cur: "cursor_ok (rq_folder rq) (rq_after rq)"
    and limit: "0 < rq_limit rq" "rq_limit rq \<le> MAX_PAGE_ENTRIES"
  shows "(page sha rq p :: ('io scan_page_error, _) res) =
    (case header_of (rq_folder rq) items of
       None \<Rightarrow> Inl (missing_folder_error (rq_folder rq) items)
     | Some h \<Rightarrow> Inr (page_of p (rq_folder rq) h
         (filtered_slice (rq_limit rq) (after_cursor (rq_after rq) (folder_page (rq_folder rq) items)))))"
proof -
  have "validate_page_request rq = (Inr () :: ('io scan_page_error, _) res)"
    using limit cur direct_child_iff [OF f(2)] by (auto simp: validate_page_request_def cursor_ok_def split: option.split)
  then show ?thesis
    using read_header [where ?'io = 'io, OF run sha items f(1)] classify_missing [where ?'io = 'io, OF run sha items f(1)]
      read_page [where ?'io = 'io, OF run sha items f cur limit(1)]
    by (simp add: page_def split: option.split)
qed

end
