(* ===== verification/Page_Filter_Spec.thy ===== *)
theory Page_Filter_Spec
  imports Page_Query_Spec
begin

text \<open>
  What a filtered page holds.  The loop keeps at most one entry more than the limit; \<open>keep_selected\<close> shows
  that the kept ones are always the first of the children found so far, in the order of the page, although
  a child may be found many times and may have been dropped before.  \<open>read_filtered\<close>: a filtered page is
  the page of the children with a matching path at or below them.
\<close>

section \<open>Keeping the first candidates\<close>

lemma sort_snoc:
  assumes "sorted (map k xs)" "distinct (map k (xs @ [x]))"
  shows "sort_key k (xs @ [x]) = insort_key k x xs"
proof (rule sort_key_inj_key_eq)
  show "inj_on k (set (xs @ [x]))" using assms(2) by (simp only: distinct_map)
qed (use assms(1) in \<open>simp_all add: sorted_insort_key\<close>)

lemma take_insort_take: "sorted (map k xs) \<Longrightarrow> take n (insort_key k x (take n xs)) = take n (insort_key k x xs)"
proof (induction xs arbitrary: n)
  case (Cons y xs)
  then show ?case by (cases n; cases "n - 1") (auto simp: take_Cons')
qed simp

lemma insort_last: "\<forall>y \<in> set xs. k y < (k x :: 'b::linorder) \<Longrightarrow> insort_key k x xs = xs @ [x]"
  by (induction xs) (auto simp: not_le)

lemma strict_unique:
  fixes k :: "'a \<Rightarrow> 'b::linorder"
  assumes "sorted_wrt (<) (map k xs)" "sorted_wrt (<) (map k ys)" "set xs = set ys"
  shows "xs = ys"
proof (rule map_sorted_distinct_set_unique [of k])
  have d: "distinct (map k xs)" "distinct (map k ys)" using assms(1,2) by (simp_all only: strict_sorted_iff)
  show "inj_on k (set xs \<union> set ys)" using d(1) assms(3) by (simp add: distinct_map)
  show "sorted (map k xs)" "sorted (map k ys)" using assms(1,2) by (simp_all only: strict_sorted_iff)
  show "distinct (map k xs)" "distinct (map k ys)" by (fact d)+
  show "set xs = set ys" by (fact assms(3))
qed

lemma keep_candidate_insort:
  assumes "sorted_wrt (<) (map page_rank xs)" "page_rank x \<notin> page_rank ` set xs" "length xs \<le> Suc limit" "Suc limit < 2 ^ 64"
  shows "keep_candidate limit x xs = take (Suc limit) (insort_key page_rank x xs)"
proof -
  have s: "sorted (map page_rank xs)" "distinct (map page_rank xs)" using assms(1) by (simp_all only: strict_sorted_iff)
  then have d: "distinct (map page_rank (xs @ [x]))" using assms(2) by simp
  have "sort_by compare_page_entries (xs @ [x]) = insort_key page_rank x xs"
    using sort_by_sort_key [OF compare_page_entries_rank d] sort_snoc [OF s(1) d] by simp
  moreover have "usize_sat_add limit 1 = Suc limit" using assms(4) by (simp add: usize_sat_add_def)
  moreover have "length (insort_key page_rank x xs) = Suc (length xs)" by simp
  ultimately show ?thesis
    using assms(3) by (cases "length xs = Suc limit") (simp_all add: keep_candidate_def Let_def butlast_conv_take)
qed

text \<open>The candidates after the children \<open>S\<close> were found, out of the page \<open>L\<close>.\<close>

definition selected_page :: "nat \<Rightarrow> scan_page_entry list \<Rightarrow> relative_path set \<Rightarrow> scan_page_entry list" where
  "selected_page limit L S = take (Suc limit) (filter (\<lambda>x. pe_path x \<in> S) L)"

lemma keep_selected:
  assumes sorted: "sorted_wrt (<) (map page_rank L)" and dist: "distinct (map pe_path L)" and x: "x \<in> set L"
    and new: "x \<notin> set (selected_page limit L S)" and limit: "Suc limit < 2 ^ 64"
  shows "keep_candidate limit x (selected_page limit L S) = selected_page limit L (insert (pe_path x) S)"
proof -
  let ?F = "filter (\<lambda>x. pe_path x \<in> S) L" and ?n = "Suc limit"
  have inj: "inj_on page_rank (set L)" using sorted by (simp add: strict_sorted_iff distinct_map)
  have sF: "sorted_wrt (<) (map page_rank ?F)" using sorted by (simp add: sorted_wrt_map sorted_wrt_filter)
  then have sT: "sorted_wrt (<) (map page_rank (take ?n ?F))" using sorted_wrt_take [of "(<)" "map page_rank ?F" ?n] by (simp add: take_map)
  have "page_rank x \<notin> page_rank ` set (take ?n ?F)"
  proof
    assume "page_rank x \<in> page_rank ` set (take ?n ?F)"
    then obtain y where y: "y \<in> set (take ?n ?F)" "page_rank y = page_rank x" by auto
    then have "y \<in> set L" using set_take_subset [of ?n ?F] by auto
    then have "y = x" using inj_onD [OF inj y(2)] x by blast
    then show False using y(1) new by (simp add: selected_page_def)
  qed
  then have keep: "keep_candidate limit x (take ?n ?F) = take ?n (insort_key page_rank x (take ?n ?F))"
    using sT limit by (intro keep_candidate_insort) simp_all
  have sorted': "sorted (map page_rank ?F)" using sF by (simp only: strict_sorted_iff)
  show ?thesis
  proof (cases "pe_path x \<in> S")
    case True
    then have "x \<in> set ?F" using x by simp
    then have "x \<in> set (drop ?n ?F)" using new unfolding selected_page_def by (metis Un_iff append_take_drop_id set_append)
    then have len: "length (take ?n ?F) = ?n" by (cases "?n \<le> length ?F") auto
    have "page_rank y < page_rank x" if "y \<in> set (take ?n ?F)" for y
      using sF \<open>x \<in> set (drop ?n ?F)\<close> that sorted_wrt_append [of "(<)" "map page_rank (take ?n ?F)" "map page_rank (drop ?n ?F)"]
      unfolding map_append [symmetric] append_take_drop_id by auto
    then have "insort_key page_rank x (take ?n ?F) = take ?n ?F @ [x]" by (intro insort_last) blast
    moreover have "insert (pe_path x) S = S" using True by auto
    ultimately show ?thesis using keep len by (simp add: selected_page_def)
  next
    case False
    have "insort_key page_rank x ?F = filter (\<lambda>y. pe_path y \<in> insert (pe_path x) S) L"
    proof (rule strict_unique [of page_rank])
      have "x \<notin> set ?F" using False by simp
      then have "page_rank x \<notin> page_rank ` set ?F" using inj x by (auto simp: inj_on_def)
      then have "distinct (map page_rank (insort_key page_rank x ?F))" "sorted (map page_rank (insort_key page_rank x ?F))"
        using sF sorted' by (simp_all add: sorted_insort_key strict_sorted_iff distinct_map distinct_insort set_insort_key del: map_map)
          (auto simp: inj_on_def)
      then show "sorted_wrt (<) (map page_rank (insort_key page_rank x ?F))" by (simp only: strict_sorted_iff)
      show "sorted_wrt (<) (map page_rank (filter (\<lambda>y. pe_path y \<in> insert (pe_path x) S) L))"
        using sorted by (simp add: sorted_wrt_map sorted_wrt_filter)
      have "y = x" if "y \<in> set L" "pe_path y = pe_path x" for y
        using dist that x by (auto simp: distinct_map inj_on_def)
      then show "set (insort_key page_rank x ?F) = set (filter (\<lambda>y. pe_path y \<in> insert (pe_path x) S) L)"
        using x by (auto simp: set_insort_key)
    qed
    then show ?thesis using keep take_insort_take [OF sorted', of ?n x] by (simp add: selected_page_def)
  qed
qed

lemma filtered_slice_take: "filtered_slice limit (take (Suc limit) M) = filtered_slice limit M"
  by (cases "limit < length M") (auto simp: filtered_slice_def min_def)

section \<open>The loop\<close>

definition closed_items :: "query_item list \<Rightarrow> bool" where
  "closed_items items \<longleftrightarrow> distinct (map st_path (entries_of items)) \<and>
     (\<forall>e \<in> set (entries_of items). \<forall>n. 0 < n \<and> n < length (st_path e) \<longrightarrow>
        take n (st_path e) \<in> st_path ` set (entries_of items))"

definition filter_hit :: "(bytes \<Rightarrow> bytes \<Rightarrow> bool) \<Rightarrow> bytes \<Rightarrow> bytes \<Rightarrow> relative_path \<Rightarrow> relative_path \<Rightarrow> bool" where
  "filter_hit matches_path root_path filter_base filter_root path \<longleftrightarrow>
     starts_with path filter_root \<and> matches_path (path_push root_path (to_path_buf path)) filter_base"

lemma folder_child:
  assumes "closed_items items" "e \<in> set (entries_of items)" "strict_prefix f (st_path e)"
  shows "\<exists>e'. e' \<in> set (folder_entries f items) \<and> st_path e' = take (Suc (length f)) (st_path e) \<and>
    List.find (\<lambda>x. st_path x = take (Suc (length f)) (st_path e)) (folder_entries f items) = Some e' \<and>
    (st_path e = take (Suc (length f)) (st_path e) \<longrightarrow> e' = e)"
proof -
  let ?c = "take (Suc (length f)) (st_path e)"
  obtain a q where path: "st_path e = f @ a # q" using assms(3) by (metis strict_prefixE' append_Cons)
  have "?c \<in> st_path ` set (entries_of items)"
  proof (cases "q = []")
    case True
    then show ?thesis using assms(2) path by (metis append_Nil2 image_eqI length_append_singleton take_all_iff order_refl)
  next
    case False
    have "\<forall>n. 0 < n \<and> n < length (st_path e) \<longrightarrow> take n (st_path e) \<in> st_path ` set (entries_of items)"
      using assms(1,2) unfolding closed_items_def by blast
    moreover have "Suc (length f) < length (st_path e)" using False by (simp add: path)
    ultimately show ?thesis by blast
  qed
  then obtain e' where e': "e' \<in> set (entries_of items)" "st_path e' = ?c" by auto
  then have mem: "e' \<in> set (folder_entries f items)" by (simp add: folder_entries_def path)
  have dist: "distinct (map st_path (entries_of items))" using assms(1) by (simp add: closed_items_def)
  then have inj: "x = e'" if "x \<in> set (entries_of items)" "st_path x = ?c" for x
    using that e' by (auto simp: distinct_map inj_on_def)
  have "List.find (\<lambda>x. st_path x = ?c) (folder_entries f items) = Some e'"
  proof (cases "List.find (\<lambda>x. st_path x = ?c) (folder_entries f items)")
    case None
    then show ?thesis using mem e'(2) by (simp add: find_None_iff')
  next
    case (Some x)
    then have "x \<in> set (entries_of items)" "st_path x = ?c" using find_Some_in [OF Some] by (simp_all add: folder_entries_def)
    then show ?thesis using inj Some by simp
  qed
  then show ?thesis using mem e' inj [OF assms(2)] by auto
qed

lemma is_after_in: "x \<in> set (folder_page f items) \<Longrightarrow>
    x \<in> set (after_cursor after (folder_page f items)) \<longleftrightarrow> \<not> (case after of None \<Rightarrow> False | Some cur \<Rightarrow> \<not> is_after_cursor x cur)"
  by (cases after) (simp_all add: after_cursor_def)

lemma distinct_folder_page:
  assumes "closed_items items"
  shows "distinct (map pe_path (after_cursor after (folder_page f items)))"
proof -
  have "distinct (map st_path (folder_entries f items))"
    using assms by (simp add: closed_items_def folder_entries_def distinct_map_filter)
  then have "distinct (map pe_path (folder_page f items))" by (simp add: folder_page_def comp_def)
  then show ?thesis by (cases after) (simp_all add: after_cursor_def distinct_map_filter)
qed

lemma sorted_after_cursor:
  "sorted_wrt (<) (map page_rank es) \<Longrightarrow> sorted_wrt (<) (map page_rank (after_cursor after es))"
  by (cases after) (simp_all add: after_cursor_def sorted_wrt_map sorted_wrt_filter)

lemma filtered_step:
  assumes run: "write_run sha grow d capacity rs = Inr run" "rd_kind d = RunChildQuery" and sha: "\<And>x. length (sha x) = 32"
    and items: "query_items items rs" "closed_items items" and f: "plain (rq_folder rq)" and limit: "Suc (rq_limit rq) < 2 ^ 64"
    and e: "e \<in> set (entries_of items)" "entry_record e kv" "strict_prefix (rq_folder rq) (st_path e)" "vec_sized (st_path e)"
    and key: "lower \<le> fst kv" "prefix folder_key (fst kv)"
  shows "filtered_body sha run rq matches_path root_path filter_base filter_root folder_key lower (fst kv) (snd kv)
      (selected_page (rq_limit rq) (after_cursor (rq_after rq) (folder_page (rq_folder rq) items)) S) =
    (Inr (Continue (selected_page (rq_limit rq) (after_cursor (rq_after rq) (folder_page (rq_folder rq) items))
      (if filter_hit matches_path root_path filter_base filter_root (st_path e)
       then insert (take (Suc (length (rq_folder rq))) (st_path e)) S else S))) :: ('io scan_page_error, _) res)"
proof -
  let ?f = "rq_folder rq" and ?hit = "filter_hit matches_path root_path filter_base filter_root (st_path e)"
  let ?c = "take (Suc (length ?f)) (st_path e)" and ?P = "folder_page ?f items"
  let ?L = "after_cursor (rq_after rq) ?P"
  let ?sel = "selected_page (rq_limit rq) ?L"
  note D = entry_recordD [OF e(2)]
  have ver: "\<not> (snd kv \<noteq> [] \<and> hd (snd kv) = PAGE_HEADER_VERSION)" using D(9) by (simp add: PAGE_ENTRY_VERSION_def PAGE_HEADER_VERSION_def)
  have under: "starts_with (st_path e) ?f" using e(3) by (simp add: starts_with_prefix strict_prefix_def)
  have child: "direct_child_under ?f (st_path e) = (Inr ?c :: ('io scan_page_error, _) res)"
    using direct_child_under_Inr [OF e(3)] D(1) e(4) by (simp add: plain_def)
  obtain e' where e': "e' \<in> set (folder_entries ?f items)" "st_path e' = ?c"
    "List.find (\<lambda>x. st_path x = ?c) (folder_entries ?f items) = Some e'" "st_path e = ?c \<longrightarrow> e' = e"
    using folder_child [OF items(2) e(1,3)] by blast
  let ?x = "into_page_entry e'"
  have x: "?x \<in> set ?P" "pe_path ?x = ?c" using e' by (simp_all add: folder_page_def)
  have cand: "filtered_candidate sha run ?f (into_page_entry e) = (Inr ?x :: ('io scan_page_error, _) res)"
    using child read_exact [where ?'io = 'io, OF run sha items(1) f, of ?c] e'(3,4)
    by (cases "?c = st_path e") (auto simp: filtered_candidate_def)
  have sorted: "sorted_wrt (<) (map page_rank ?L)" using folder_page_sorted [OF items(1) f] by (rule sorted_after_cursor)
  note dist = distinct_folder_page [OF items(2), of "rq_after rq" ?f]
  have uniq: "y = ?x" if "y \<in> set ?P" "pe_path y = ?c" for y
  proof -
    have "distinct (map pe_path ?P)" using distinct_folder_page [OF items(2), of None ?f] by (simp add: after_cursor_def)
    then show ?thesis using that x by (auto simp: distinct_map inj_on_def)
  qed
  have LP: "set ?L \<subseteq> set ?P" by (cases "rq_after rq") (auto simp: after_cursor_def)
  have offer: "offer_candidate rq ?x (?sel S) = ?sel (insert ?c S)"
  proof (cases "?x \<in> set ?L")
    case False
    then have "filter (\<lambda>y. pe_path y \<in> insert ?c S) ?L = filter (\<lambda>y. pe_path y \<in> S) ?L"
      using uniq LP by (intro filter_cong) auto
    then show ?thesis using False is_after_in [OF x(1), of "rq_after rq"] by (simp add: selected_page_def offer_candidate_def)
  next
    case True
    have sub: "set (?sel S) \<subseteq> set ?L" using set_take_subset [of "Suc (rq_limit rq)"] by (fastforce simp: selected_page_def)
    show ?thesis
    proof (cases "?x \<in> set (?sel S)")
      case in_sel: True
      then have "?c \<in> S" using x(2) set_take_subset [of "Suc (rq_limit rq)" "filter (\<lambda>x. pe_path x \<in> S) ?L"] by (auto simp: selected_page_def)
      then have "insert ?c S = S" by auto
      then show ?thesis using in_sel by (auto simp: offer_candidate_def)
    next
      case no: False
      then have "\<not> (\<exists>existing \<in> set (?sel S). pe_path existing = pe_path ?x)" using uniq sub LP x(2) by (metis subsetD)
      then show ?thesis
        using keep_selected [OF sorted dist True no limit] is_after_in [OF x(1), of "rq_after rq"] True x(2) by (simp add: offer_candidate_def)
    qed
  qed
  have key': "\<not> fst kv < lower" using key(1) by simp
  show ?thesis
    unfolding filtered_body_def filter_hit_def if_not_P [OF key'] if_not_P [OF ver] Let_def
    using key(2) under cand offer entry_record_path_key [where ?'io = 'io, OF e(2)] D(7) by simp
qed

lemma header_step:
  assumes "item_record (HeaderItem g h) kv" "lower \<le> fst kv" "prefix folder_key (fst kv)"
  shows "filtered_body sha run rq matches_path root_path filter_base filter_root folder_key lower (fst kv) (snd kv) cands =
    (Inr (Continue cands) :: ('io scan_page_error, _) res)"
proof -
  have "snd kv \<noteq> [] \<and> hd (snd kv) = PAGE_HEADER_VERSION"
    using assms(1) by (simp add: encode_stored_header_into_def encode_summary_metrics_eq)
  then show ?thesis using assms(2,3) by (simp add: filtered_body_def not_less)
qed

lemma scan_filtered:
  assumes run: "write_run sha grow d capacity rs = Inr run" "rd_kind d = RunChildQuery" and sha: "\<And>x. length (sha x) = 32"
    and items: "query_items items rs" "closed_items items" and f: "plain (rq_folder rq)" and limit: "Suc (rq_limit rq) < 2 ^ 64"
    and part: "list_all2 item_record xs qs" "\<forall>kv \<in> set qs. lower \<le> fst kv \<and> prefix folder_key (fst kv)"
    and under: "\<forall>e \<in> set (entries_of xs). e \<in> set (entries_of items) \<and> strict_prefix (rq_folder rq) (st_path e) \<and> vec_sized (st_path e)"
  shows "scan_all (filtered_body sha run rq matches_path root_path filter_base filter_root folder_key lower) qs
      (selected_page (rq_limit rq) (after_cursor (rq_after rq) (folder_page (rq_folder rq) items)) S) =
    (Inr (Continue (selected_page (rq_limit rq) (after_cursor (rq_after rq) (folder_page (rq_folder rq) items))
      (S \<union> {take (Suc (length (rq_folder rq))) (st_path e) | e. e \<in> set (entries_of xs) \<and>
         filter_hit matches_path root_path filter_base filter_root (st_path e)}))) :: ('io scan_page_error, _) res)"
  using part under
proof (induction xs qs arbitrary: S rule: list_all2_induct)
  case (Cons i xs kv qs)
  have key: "lower \<le> fst kv" "prefix folder_key (fst kv)" using Cons.prems(1) by simp_all
  show ?case
  proof (cases i)
    case (HeaderItem g h)
    have "\<forall>e \<in> set (entries_of xs). e \<in> set (entries_of items) \<and> strict_prefix (rq_folder rq) (st_path e) \<and> vec_sized (st_path e)"
      using Cons.prems(2) by (simp add: HeaderItem)
    then show ?thesis
      using header_step [where ?'io = 'io, of g h kv lower folder_key sha run rq matches_path root_path filter_base filter_root]
        Cons.hyps(1) key Cons.IH [of S] Cons.prems(1) HeaderItem by simp
  next
    case (EntryItem e)
    let ?hit = "filter_hit matches_path root_path filter_base filter_root (st_path e)"
    let ?c = "take (Suc (length (rq_folder rq))) (st_path e)"
    have e: "e \<in> set (entries_of items)" "entry_record e kv" "strict_prefix (rq_folder rq) (st_path e)" "vec_sized (st_path e)"
      using Cons.prems(2) Cons.hyps(1) by (simp_all add: EntryItem)
    have "\<forall>e \<in> set (entries_of xs). e \<in> set (entries_of items) \<and> strict_prefix (rq_folder rq) (st_path e) \<and> vec_sized (st_path e)"
      using Cons.prems(2) by (simp add: EntryItem)
    moreover have "(if ?hit then insert ?c S else S) \<union> {take (Suc (length (rq_folder rq))) (st_path e) | e. e \<in> set (entries_of xs) \<and>
         filter_hit matches_path root_path filter_base filter_root (st_path e)} =
      S \<union> {take (Suc (length (rq_folder rq))) (st_path e) | e. e \<in> set (entries_of (i # xs)) \<and>
         filter_hit matches_path root_path filter_base filter_root (st_path e)}" by (auto simp: EntryItem)
    ultimately show ?thesis
      using filtered_step [where ?'io = 'io, OF run sha items f limit e key] Cons.IH [of "if ?hit then insert ?c S else S"] Cons.prems(1)
      by simp
  qed
qed simp

section \<open>The filtered page\<close>

text \<open>A child is shown when some recorded path at or below it matches.\<close>

definition filter_shows :: "(bytes \<Rightarrow> bytes \<Rightarrow> bool) \<Rightarrow> bytes \<Rightarrow> bytes \<Rightarrow> relative_path \<Rightarrow> query_item list \<Rightarrow> scan_page_entry \<Rightarrow> bool" where
  "filter_shows matches_path root_path filter_base filter_root items x \<longleftrightarrow>
     (\<exists>e \<in> set (entries_of items). prefix (pe_path x) (st_path e) \<and>
        filter_hit matches_path root_path filter_base filter_root (st_path e))"

lemma key_at_entry_prefix:
  assumes "item_record i kv" "plain f" "prefix f (item_folder i)"
  shows "page_entry_prefix_from_encoded (key_bytes f) \<le> fst kv \<longleftrightarrow> is_entry i \<or> item_folder i \<noteq> f"
proof -
  obtain rest where k: "fst kv = key_bytes (item_folder i) @ 0 # 0 # (if is_entry i then 1 else 0) # rest"
    using item_key(2) [OF assms(1)] by blast
  obtain q where q: "item_folder i = f @ q" using assms(3) by (auto simp: prefix_def)
  have shift: "(zs @ xs \<le> zs @ ys) = (xs \<le> ys)" for xs ys zs :: bytes by (induction zs) auto
  show ?thesis
  proof (cases q)
    case Nil
    then have "fst kv = key_bytes f @ 0 # 0 # (if is_entry i then 1 else 0) # rest" using k q by simp
    then show ?thesis using q Nil by (simp add: entry_prefix_form shift)
  next
    case (Cons c q')
    have "plain (item_folder i)" using item_key(1) [OF assms(1)] .
    then have "c \<noteq> []" "0 \<notin> set c" using q Cons valid_component_not_Nil by auto
    then obtain b c' where "c = b # c'" "b \<noteq> 0" by (cases c) auto
    then have "fst kv = key_bytes f @ b # c' @ 0 # key_bytes q' @ 0 # 0 # (if is_entry i then 1 else 0) # rest" using k q Cons by simp
    then show ?thesis using q Cons \<open>b \<noteq> 0\<close> by (simp add: entry_prefix_form shift word_neq_0_conv)
  qed
qed

lemma read_filtered:
  assumes run: "write_run sha grow d capacity rs = Inr run" "rd_kind d = RunChildQuery" and sha: "\<And>x. length (sha x) = 32"
    and items: "query_items items rs" "closed_items items" "\<forall>e \<in> set (entries_of items). vec_sized (st_path e)"
    and f: "plain (rq_folder rq)" and limit: "rq_limit rq \<le> MAX_PAGE_ENTRIES"
  shows "read_filtered_page_entries sha run rq root_path filter_base matches_path filter_root =
    (Inr (filtered_slice (rq_limit rq) (filter (filter_shows matches_path root_path filter_base filter_root items)
      (after_cursor (rq_after rq) (folder_page (rq_folder rq) items)))) :: ('io scan_page_error, _) res)"
proof -
  let ?f = "rq_folder rq" and ?L = "after_cursor (rq_after rq) (folder_page (rq_folder rq) items)"
  let ?fk = "key_bytes ?f" and ?lower = "page_entry_prefix_from_encoded (key_bytes (rq_folder rq))"
  let ?hit = "filter_hit matches_path root_path filter_base filter_root"
  let ?body = "filtered_body sha run rq matches_path root_path filter_base filter_root ?fk ?lower :: _ \<Rightarrow> _ \<Rightarrow> _ \<Rightarrow> ('io scan_page_error, _) res"
  have ix: "indexed_kind (rd_kind d)" by (simp add: indexed_kind_def run(2))
  have lim: "Suc (rq_limit rq) < 2 ^ 64" using limit by (simp add: MAX_PAGE_ENTRIES_def)
  have skip: "?body k v s = Inr (Continue s)" if "k < ?lower" for k v s using that by (simp add: filtered_body_def)
  have stop: "?body k v s = Inr (Return s)" if "?fk \<le> k" "\<not> prefix ?fk k" "?lower \<le> k" for k v s
    using that by (simp add: filtered_body_def)
  have le: "?fk \<le> ?lower" by (intro prefix_le_list) (simp add: entry_prefix_form)
  let ?qs = "filter (\<lambda>kv. ?lower \<le> fst kv \<and> prefix ?fk (fst kv)) rs"
  obtain g where g: "range_reader run ?lower = (Inr g :: ('io run_error, _) res)"
    "scan_result (\<lambda>c. c) (gr_scan sha (PageRun :: 'io run_error \<Rightarrow> _) ?body g []) = scan_result (\<lambda>c. c) (scan_all ?body ?qs [])"
    using scan_folder [where body = ?body and fin = "\<lambda>c. c" and lower = ?lower and pre = ?fk and ?from = PageRun,
        OF run(1) ix sha skip le folder_indexed [OF items(1) f entry_prefix_form] stop] by blast
  let ?Q = "\<lambda>i. prefix ?f (item_folder i) \<and> (is_entry i \<or> item_folder i \<noteq> ?f)"
  let ?xs = "filter ?Q items"
  have all: "list_all2 item_record items rs" using items(1) by (simp add: query_items_def)
  have recs: "list_all2 item_record ?xs ?qs"
  proof (rule list_all2_filter [OF all])
    fix i kv assume r: "item_record i kv"
    show "?Q i \<longleftrightarrow> ?lower \<le> fst kv \<and> prefix ?fk (fst kv)"
      using key_at_entry_prefix [OF r f] folder_key_prefix_iff [OF r f] by blast
  qed
  have entries: "e \<in> set (entries_of ?xs) \<longleftrightarrow> e \<in> set (entries_of items) \<and> strict_prefix ?f (st_path e)" for e
  proof -
    have "prefix ?f (butlast (st_path e)) \<longleftrightarrow> strict_prefix ?f (st_path e)" if "e \<in> set (entries_of items)"
    proof -
      obtain kv where "entry_record e kv" using entries_record [OF all \<open>e \<in> set (entries_of items)\<close>] by blast
      then have ne: "st_path e \<noteq> []" using entry_recordD(4) by blast
      then have "prefix ?f (st_path e) \<longleftrightarrow> ?f = st_path e \<or> prefix ?f (butlast (st_path e))"
        using prefix_snoc [of ?f "butlast (st_path e)" "last (st_path e)"] by simp
      moreover have "\<not> prefix (st_path e) (butlast (st_path e))" using ne by (metis prefix_length_le length_butlast diff_less length_greater_0_conv not_le zero_less_one)
      ultimately show ?thesis by (auto simp: strict_prefix_def)
    qed
    then show ?thesis by (auto simp: entries_of_iff)
  qed
  have "scan_all ?body ?qs (selected_page (rq_limit rq) ?L {}) = (Inr (Continue (selected_page (rq_limit rq) ?L
      ({} \<union> {take (Suc (length ?f)) (st_path e) | e. e \<in> set (entries_of ?xs) \<and> ?hit (st_path e)}))) :: ('io scan_page_error, _) res)"
    using items(3) entries by (intro scan_filtered [OF run sha items(1,2) f lim recs]) auto
  moreover have "selected_page (rq_limit rq) ?L {} = []" by (simp add: selected_page_def)
  moreover have "filter (\<lambda>x. pe_path x \<in> {take (Suc (length ?f)) (st_path e) | e. e \<in> set (entries_of ?xs) \<and> ?hit (st_path e)}) ?L =
      filter (filter_shows matches_path root_path filter_base filter_root items) ?L"
  proof (rule filter_cong [OF refl])
    fix x assume "x \<in> set ?L"
    then have "x \<in> set (folder_page ?f items)" by (cases "rq_after rq") (auto simp: after_cursor_def)
    then obtain e0 where "e0 \<in> set (entries_of items)" "pe_path x = st_path e0" "butlast (st_path e0) = ?f"
      by (auto simp: folder_page_def folder_entries_def)
    moreover then obtain kv where "entry_record e0 kv" using entries_record [OF all] by blast
    ultimately obtain a where a: "pe_path x = ?f @ [a]" using entry_recordD(4) by (metis append_butlast_last_id)
    have "prefix (pe_path x) p \<longleftrightarrow> strict_prefix ?f p \<and> pe_path x = take (Suc (length ?f)) p" for p
    proof
      assume "prefix (pe_path x) p"
      then show "strict_prefix ?f p \<and> pe_path x = take (Suc (length ?f)) p"
        unfolding a by (auto simp: prefix_def strict_prefix_def)
    next
      assume "strict_prefix ?f p \<and> pe_path x = take (Suc (length ?f)) p"
      then show "prefix (pe_path x) p" by (simp add: take_is_prefix)
    qed
    then show "pe_path x \<in> {take (Suc (length ?f)) (st_path e) | e. e \<in> set (entries_of ?xs) \<and> ?hit (st_path e)} \<longleftrightarrow>
        filter_shows matches_path root_path filter_base filter_root items x"
      using entries by (auto simp: filter_shows_def)
  qed
  ultimately have "scan_result (\<lambda>c. c) (scan_all ?body ?qs []) =
      (Inr (take (Suc (rq_limit rq)) (filter (filter_shows matches_path root_path filter_base filter_root items) ?L)) :: ('io scan_page_error, _) res)"
    by (simp add: selected_page_def)
  then show ?thesis
    using g f by (simp add: read_filtered_page_entries_def encode_path_key_into_def append_path_key_eq plain_def Let_def filtered_slice_take)
qed

end
