(* ===== verification/Query_Theorems.thy ===== *)
theory Query_Theorems
  imports Path_Catalog Folder_Digest Provisional_Page Page_Filter_Spec Reduction_Theorems
begin

text \<open>
  Properties of the queries: the live page of a scan in progress, the pages and filtered pages of a
  published generation, the records they are read from, the path catalogue and the folder digest.
\<close>

section \<open>Live pages\<close>

text \<open>
  C32. A provisional page that took in any observations never fails on them.  It refuses a folder that was
  not observed, or observed as something else than a directory.  Otherwise it shows at most as many
  entries as its limit, all of them direct children, each once and in page order, none with more bytes
  than were observed at or below it; the folder and root totals are those of everything observed, with
  open upper bounds; and when the folder has no more children than the limit, the page has an entry for
  every child, the exact aggregate of all observations at or below it.
\<close>

theorem provisional_page_exact:
  assumes "pp_new g rq = (Inr p :: ('io scan_page_error, _) res)"
    and "\<forall>x \<in> set xs. relative_path_ok (po_path x) \<and> vec_sized (po_path x)"
  shows "\<exists>p' es. pp_observe_all xs p = Some p' \<and> live_page_entries (rq_folder rq) (rq_limit rq) xs es \<and>
    (pp_page n p' :: ('io scan_page_error, _) res) =
      (if rq_folder rq \<noteq> [] \<and> folder_kind_of (rq_folder rq) xs = None then Inl MissingFolder
       else if rq_folder rq \<noteq> [] \<and> folder_kind_of (rq_folder rq) xs \<noteq> Some EntryDirectory then Inl NotDirectory
       else Inr \<lparr>pg_generation = g, pg_folder = rq_folder rq,
         pg_folder_metrics = mark_metrics_uncertain (fst (live_total (rq_folder rq) xs)), pg_folder_coverage = CoverageUncertain,
         pg_root_metrics = mark_metrics_uncertain (fst (ctotal (map (\<lambda>x. cplus (po_metrics x, po_coverage x) cone) xs))),
         pg_root_coverage = CoverageUncertain, pg_entries = es, pg_next_after = None, pg_shared_allocation = None,
         pg_unrecorded_path_count = n\<rparr>)"
proof -
  note new = pp_new_inv [OF assms(1)]
  obtain p' where p': "pp_observe_all xs p = Some p'" "live_inv g (rq_folder rq) (rq_limit rq) ([] @ xs) p'"
    using pp_observe_all_inv [OF new assms(2)] by blast
  have inv: "pp_generation p' = g" "pp_folder p' = rq_folder rq" "live_entries (rq_folder rq) (rq_limit rq) xs (pp_entries p')"
    "live_totals (rq_folder rq) xs p'" using p'(2) by (simp_all add: live_inv_iff)
  show ?thesis
    using p'(1) live_page_entries_sort [OF inv(3)] inv
    by (intro exI [of _ p'] exI [of _ "sort_by compare_page_entries (map pv_page_entry (pp_entries p'))"])
      (auto simp: pp_page_def live_totals_def is_root_def split: option.split path_entry_kind.split)
qed

theorem provisional_page_exact_witness:
  "\<exists>p p' es. pp_new 7 (request_first [] 10) = (Inr p :: (unit scan_page_error, _) res) \<and>
    pp_observe_all [ex_directory, ex_file] p = Some p' \<and> map pe_path es = [[[97]]] \<and> map represented_bytes es = [4104] \<and>
    (\<exists>page. pp_page 0 p' = (Inr page :: (unit scan_page_error, _) res) \<and> pg_entries page = es)"
proof -
  let ?rq = "request_first [] 10" and ?xs = "[ex_directory, ex_file]"
  have rq: "rq_folder ?rq = []" "rq_limit ?rq = 10" "rq_after ?rq = None" by (simp_all add: request_first_def)
  obtain p where p: "pp_new 7 ?rq = (Inr p :: (unit scan_page_error, _) res)"
    by (simp add: pp_new_def validate_page_request_def rq MAX_PAGE_ENTRIES_def)
  have ok: "\<forall>x \<in> set ?xs. relative_path_ok (po_path x) \<and> vec_sized (po_path x)"
    by (simp add: ex_directory_def ex_file_def valid_component_iff)
  obtain p' es where p': "pp_observe_all ?xs p = Some p'" "live_page_entries [] 10 ?xs es"
    "\<exists>page. pp_page 0 p' = (Inr page :: (unit scan_page_error, _) res) \<and> pg_entries page = es"
    using provisional_page_exact [OF p ok, of 0] unfolding rq by auto
  have "{x \<in> set ?xs. strict_prefix [] (po_path x)} = {ex_directory, ex_file}" by (auto simp: ex_directory_def ex_file_def)
  then have kids: "children [] ?xs = {[[97]]}" by (simp add: children_def child_of_def ex_directory_def ex_file_def)
  have es: "pe_path ` set es = {[[97]]}" "\<forall>e \<in> set es. e = pv_page_entry (pe_path e, entry_of (pe_path e) ?xs)" "distinct (map pe_path es)"
  proof -
    have "card {[[97 :: u8]]} \<le> 10" by simp
    then show "pe_path ` set es = {[[97]]}" "\<forall>e \<in> set es. e = pv_page_entry (pe_path e, entry_of (pe_path e) ?xs)" "distinct (map pe_path es)"
      using p'(2) unfolding live_page_entries_def kids by blast+
  qed
  have "length es = card (set (map pe_path es))" using distinct_card [OF es(3)] by simp
  then have "length es = Suc 0" using es(1) by simp
  then obtain e where e: "es = [e]" by (auto simp: length_Suc_conv)
  then have e: "es = [e]" "pe_path e = [[97]]" using es(1) by simp_all
  then have one: "map pe_path es = [[[97]]]" by simp
  have "e = pv_page_entry ([[97]], entry_of [[97]] ?xs)" using es(2) e by (metis list.set_intros(1))
  then have "represented_bytes e = bb_lower (sm_allocated_bytes (fst (live_total [[97]] ?xs)))"
    using represented_pv_page_entry [of "[[97]]"] lower_live_total [of "[[97]]" ?xs] by metis
  also have "\<dots> = 4104"
    by (simp add: live_total_def live_part_def ex_directory_def ex_file_def cplus_def sm_plus_def czero_def cone_def sm_leaf_def
        sm_default_def bb_add_def bb_exact_def bb_default_def sat_add_def)
  finally show ?thesis using p p' one e by auto
qed

section \<open>Pages of a published generation\<close>

text \<open>A small child-query run for the witnesses: a directory and a file below the root.\<close>

definition ex_stored :: "os_string \<Rightarrow> path_entry_kind \<Rightarrow> u128 \<Rightarrow> stored_entry" where
  "ex_stored name kind bytes =
     \<lparr>st_observation = po_new [name] kind (sm_leaf bytes (bb_exact bytes) (bb_exact bytes)) CoverageComplete,
      st_metrics = sm_leaf bytes (bb_exact bytes) (bb_exact bytes), st_coverage = CoverageComplete, st_parent_key_bytes = 0,
      st_identity = None, st_directory_summary_seen = True, st_leaf_allocation_seen = False\<rparr>"

definition ex_header :: stored_header where
  "ex_header = \<lparr>sh_header_metrics = sm_default, sh_header_coverage = CoverageComplete, sh_header_shared = None\<rparr>"

definition ex_items :: "query_item list" where
  "ex_items = [HeaderItem [] ex_header, EntryItem (ex_stored [97] EntryDirectory 4096), EntryItem (ex_stored [98] EntryFile 5)]"

lemma ex_stored_page:
  "st_path (ex_stored c k b) = [c]" "represented_bytes (into_page_entry (ex_stored c EntryDirectory b)) = b"
  "represented_bytes (into_page_entry (ex_stored c EntryFile b)) = 0"
  by (simp_all add: ex_stored_def st_path_def po_new_def into_page_entry_def represented_bytes_def pk_is_directory_def
      clear_uncertain_physical_bounds_def set_physical_def sm_leaf_def bb_exact_def bb_unknown_def)

lemma ex_stored_record:
  assumes "0 \<notin> set c" "valid_component c"
  shows "\<exists>v. entry_record (ex_stored c k b) (query_key (ex_stored c k b), v) \<and> length v \<le> 300"
proof -
  let ?e = "ex_stored c k b"
  have ok: "entry_ok ?e"
    using assms(2) by (simp add: entry_ok_def ex_stored_def po_new_def metrics_ok_def sm_leaf_def snapshot_identity_def identity_to_encode_def)
  obtain val where val: "encode_path_observation_into (st_observation ?e) = Inr (key_bytes [c], val)" "length val \<le> 100"
    using assms(1) length_metrics_bytes [of "sm_leaf b (bb_exact b) (bb_exact b)"]
    by (auto simp: ex_stored_def po_new_def encode_path_observation_into_def encode_path_key_eq snapshot_flags_def encode_summary_metrics_eq)
  have "length (entry_bytes ?e val) \<le> 300"
    using val(2) length_metrics_bytes [of "sm_leaf b (bb_exact b) (bb_exact b)"]
    by (simp add: entry_bytes_def ex_stored_def identity_to_encode_def)
  moreover have "entry_record ?e (query_key ?e, entry_bytes ?e val)"
    using ok val(1) encode_stored_entry_Inr [of ?e "entry_bytes ?e val"]
    by (auto simp: entry_record_def ex_stored_page) (simp add: ex_stored_def)
  ultimately show ?thesis by blast
qed

lemma ex_query_run:
  "\<exists>rs run. query_items ex_items rs \<and> closed_items ex_items \<and>
     write_run ex_digest (\<lambda>_. None :: unit option) (ex_run_of RunChildQuery) 1000 rs = Inr run"
proof -
  let ?a = "ex_stored [97] EntryDirectory 4096" and ?b = "ex_stored [98] EntryFile 5"
  have valid: "valid_component [97]" "valid_component [98]" by (simp_all add: valid_component_iff)
  obtain v w where v: "entry_record ?a (query_key ?a, v)" "length v \<le> 300" and w: "entry_record ?b (query_key ?b, w)" "length w \<le> 300"
    using ex_stored_record [of "[97]" EntryDirectory 4096] ex_stored_record [of "[98]" EntryFile 5] valid by auto
  let ?h = "encode_stored_header_into ex_header"
  let ?rs = "[(header_key [], ?h), (query_key ?a, v), (query_key ?b, w)]"
  have h: "length ?h \<le> 100" "header_ok ex_header"
    using length_metrics_bytes [of sm_default]
    by (simp_all add: encode_stored_header_into_def encode_summary_metrics_eq ex_header_def header_ok_def metrics_ok_def sm_default_def)
  have keys: "query_key ?a = rank_key [] 4096 [97]" "query_key ?b = rank_key [] 0 [98]" by (simp_all add: query_key_def ex_stored_page)
  have "rank_key [] 4096 [97] < rank_key [] 0 [98]"
    using cmp_rank_key [of "[97]" "[98]" "[]" 4096 0] by (simp add: cmp_iff(1) [symmetric] del: cmp_iff) (simp add: cmp_def)
  moreover have "header_key [] < rank_key [] 4096 [97]" "header_key [] < rank_key [] 0 [98]" by (simp_all add: header_key_def rank_key_eq)
  ultimately have sorted: "keys_sorted ?rs" by (simp add: keys_sorted_def keys)
  have "query_items ex_items ?rs" using v w h sorted by (simp add: query_items_def ex_items_def)
  moreover have "closed_items ex_items" by (auto simp: closed_items_def ex_items_def ex_stored_page)
  moreover have len: "length (header_key []) = 3" "length (query_key ?a) = 21" "length (query_key ?b) = 21"
    by (simp_all add: keys header_key_def rank_key_eq)
  moreover have "\<exists>run. write_run ex_digest (\<lambda>_. None :: unit option) (ex_run_of RunChildQuery) 1000 ?rs = Inr run"
    using ex_run_written [OF sorted, of RunChildQuery] v(2) w(2) h(1) len by (auto simp: record_cost_def)
  ultimately show ?thesis by blast
qed

lemma ex_folder: "folder_page [] ex_items = [into_page_entry (ex_stored [97] EntryDirectory 4096), into_page_entry (ex_stored [98] EntryFile 5)]"
  by (simp add: folder_page_def folder_entries_def ex_items_def ex_stored_page)

text \<open>
  C29. Following the cursors from the first page of a folder reads every direct child exactly once: with
  any limit the code accepts, the pages end after at most as many requests as there are children and one
  more, their entries joined are all entries of the folder in the run, and they come with more bytes
  first, equal ones by path.
\<close>

theorem pages_complete:
  assumes "write_run sha grow d capacity rs = Inr (pub_child_queries p)" and "rd_kind d = RunChildQuery"
    and "\<And>x. length (sha x) = 32" and "query_items items rs" and "plain f" and "vec_sized f"
    and "header_of f items = Some h" and "0 < limit" and "limit \<le> MAX_PAGE_ENTRIES"
  shows "all_pages (Suc (length (folder_page f items)))
      (\<lambda>after. res_bind (page sha \<lparr>rq_folder = f, rq_after = after, rq_limit = limit\<rparr> p :: ('io scan_page_error, _) res)
        (\<lambda>pg. Inr (pg_entries pg, pg_next_after pg))) None = Some (Inr (folder_page f items)) \<and>
    sorted_wrt (\<lambda>a b. compare_page_entries a b = OrdLess) (folder_page f items) \<and>
    set (folder_page f items) = {into_page_entry e | e. EntryItem e \<in> set items \<and> butlast (st_path e) = f}"
proof -
  let ?es = "folder_page f items"
  let ?q = "\<lambda>after. res_bind (page sha \<lparr>rq_folder = f, rq_after = after, rq_limit = limit\<rparr> p :: ('io scan_page_error, _) res)
        (\<lambda>pg. Inr (pg_entries pg, pg_next_after pg))"
  have sorted: "sorted_wrt (<) (map page_rank ?es)" by (rule folder_page_sorted [OF assms(4,5)])
  have cur: "cursor_ok f (position ?es k)" if "k < length ?es \<or> k = 0" for k
  proof (cases "k = 0")
    case False
    then have "?es ! (k - 1) \<in> set ?es" using that by (intro nth_mem) auto
    then obtain e where e: "?es ! (k - 1) = into_page_entry e" "e \<in> set (entries_of items)" "butlast (st_path e) = f"
      by (auto simp: folder_page_def folder_entries_def)
    then obtain kv where "entry_record e kv" using entries_record [of items rs e] assms(4) by (auto simp: query_items_def)
    then have "st_path e = f @ [last (st_path e)]" "0 \<notin> set (last (st_path e))"
      using entry_recordD(3,4) e(3) by (metis append_butlast_last_id)+
    then show ?thesis using False e(1) by (auto simp: cursor_ok_def position_def cursor_from_entry_def)
  qed (simp add: cursor_ok_def position_def)
  have query: "?q (position ?es k) = Inr (filtered_slice limit (drop k ?es))" if "k < length ?es \<or> k = 0" for k
  proof -
    have "k \<le> length ?es" using that by auto
    then show ?thesis
      using page_query [where ?'io = 'io and rq = "\<lparr>rq_folder = f, rq_after = position ?es k, rq_limit = limit\<rparr>", OF assms(1-4)]
        cur [OF that] assms(5-9) after_position [OF sorted] by (simp add: page_of_def Let_def)
  qed
  have "all_pages (Suc (length ?es)) ?q (position ?es 0) = Some (Inr (drop 0 ?es))"
    using query assms(8) by (intro all_pages_complete [of ?es ?q limit]) simp_all
  moreover have "sorted_wrt (\<lambda>a b. compare_page_entries a b = OrdLess) ?es"
    using sorted by (simp add: compare_page_entries_rank sorted_wrt_map)
  moreover have "set ?es = {into_page_entry e | e. EntryItem e \<in> set items \<and> butlast (st_path e) = f}"
    by (auto simp: folder_page_def folder_entries_def entries_of_iff)
  ultimately show ?thesis by (simp add: position_def)
qed

definition ex_published :: "sealed_run \<Rightarrow> published_generation" where
  "ex_published run =
     \<lparr>pub_manifest = manifest_new [] 1, pub_child_queries = run, pub_path_catalog = run, pub_identity_index = run,
      pub_directory_summary_index = run, pub_root_page_metrics = sm_default, pub_root_page_coverage = CoverageComplete,
      pub_unrecorded_path_count = 0, pub_unreadable_directories = [], pub_unreadable_directories_overflowed = False\<rparr>"

theorem pages_complete_witness:
  "\<exists>p. all_pages 3 (\<lambda>after. res_bind (page ex_digest \<lparr>rq_folder = [], rq_after = after, rq_limit = 1\<rparr> p :: (unit scan_page_error, _) res)
        (\<lambda>pg. Inr (pg_entries pg, pg_next_after pg))) None =
     Some (Inr [into_page_entry (ex_stored [97] EntryDirectory 4096), into_page_entry (ex_stored [98] EntryFile 5)])"
proof -
  obtain rs run where r: "query_items ex_items rs" "write_run ex_digest (\<lambda>_. None :: unit option) (ex_run_of RunChildQuery) 1000 rs = Inr run"
    using ex_query_run by blast
  have w: "write_run ex_digest (\<lambda>_. None :: unit option) (ex_run_of RunChildQuery) 1000 rs = Inr (pub_child_queries (ex_published run))"
    using r(2) by (simp add: ex_published_def)
  have h: "header_of [] ex_items = Some ex_header" by (simp add: ex_items_def)
  from pages_complete [where ?'io = unit and limit = 1, OF w ex_run_of_simps(2,1) r(1) _ _ h] show ?thesis
    unfolding ex_folder by (auto simp: MAX_PAGE_ENTRIES_def numeral_3_eq_3)
qed

text \<open>
  C30. The answer of a page query in every case: a limit of zero or above 4096 and a cursor that is not a
  direct child are refused; a folder without a header is missing, or not a directory when it has an entry
  of another kind; and the page of a directory has its header's totals, the first entries after the
  cursor up to the limit, and a continuation exactly when more follow, at the last entry shown.
\<close>

theorem page_answers:
  assumes "write_run sha grow d capacity rs = Inr (pub_child_queries p)" and "rd_kind d = RunChildQuery"
    and "\<And>x. length (sha x) = 32" and "query_items items rs" and "plain (rq_folder rq)" and "vec_sized (rq_folder rq)"
    and "\<forall>cur. rq_after rq = Some cur \<longrightarrow> plain (cur_path cur)"
  shows "(page sha rq p :: ('io scan_page_error, _) res) =
    (if rq_limit rq = 0 \<or> rq_limit rq > 4096 then Inl InvalidLimit
     else if \<exists>cur. rq_after rq = Some cur \<and> (\<forall>c. cur_path cur \<noteq> rq_folder rq @ [c]) then Inl InvalidCursor
     else case header_of (rq_folder rq) items of
       None \<Rightarrow>
         (if \<exists>e. List.find (\<lambda>e. st_path e = rq_folder rq) (folder_entries (butlast (rq_folder rq)) items) = Some e \<and>
               po_kind (st_observation e) \<noteq> EntryDirectory
          then Inl NotDirectory else Inl MissingFolder)
     | Some h \<Rightarrow>
         let es = after_cursor (rq_after rq) (folder_page (rq_folder rq) items); shown = take (rq_limit rq) es in
         Inr (page_of p (rq_folder rq) h
           (shown, if length es > rq_limit rq then Some (cursor_from_entry (last shown)) else None)))"
proof (cases "0 < rq_limit rq \<and> rq_limit rq \<le> MAX_PAGE_ENTRIES \<and>
    (\<forall>cur. rq_after rq = Some cur \<longrightarrow> (\<exists>c. cur_path cur = rq_folder rq @ [c]))")
  case True
  have slice: "filtered_slice (rq_limit rq) es =
      (take (rq_limit rq) es, if length es > rq_limit rq then Some (cursor_from_entry (last (take (rq_limit rq) es))) else None)" for es
  proof (cases "length es > rq_limit rq")
    case long: True
    have "last (take (rq_limit rq) es) = es ! (rq_limit rq - 1)" using True long by (subst last_conv_nth) auto
    then show ?thesis using long by (simp add: filtered_slice_def)
  qed (simp add: filtered_slice_def)
  have err: "missing_folder_error (rq_folder rq) items =
      (if \<exists>e. List.find (\<lambda>e. st_path e = rq_folder rq) (folder_entries (butlast (rq_folder rq)) items) = Some e \<and>
         po_kind (st_observation e) \<noteq> EntryDirectory then NotDirectory else (MissingFolder :: 'io scan_page_error))"
    by (auto simp: missing_folder_error_def split: option.split)
  have "cursor_ok (rq_folder rq) (rq_after rq)" using True assms(7) by (fastforce simp: cursor_ok_def)
  note pq = page_query [where ?'io = 'io, OF assms(1-6) this, unfolded slice err]
  have valid: "\<not> (rq_limit rq = 0 \<or> rq_limit rq > 4096)"
    "\<not> (\<exists>cur. rq_after rq = Some cur \<and> (\<forall>c. cur_path cur \<noteq> rq_folder rq @ [c]))" using True by (auto simp: MAX_PAGE_ENTRIES_def)
  show ?thesis unfolding if_not_P [OF valid(1)] if_not_P [OF valid(2)] Let_def using pq True by (auto split: option.split)
next
  case False
  then show ?thesis
    using direct_child_iff [OF assms(6)] by (auto simp: page_def validate_page_request_def MAX_PAGE_ENTRIES_def split: option.split)
qed

theorem page_answers_witness:
  "\<exists>p pg. (page ex_digest (request_first [] 1) p :: (unit scan_page_error, _) res) = Inr pg \<and> map pe_path (pg_entries pg) = [[[97]]] \<and>
     pg_next_after pg = Some (cursor_at [[97]] 4096) \<and>
     (page ex_digest (request_first [[98]] 1) p :: (unit scan_page_error, _) res) = Inl NotDirectory"
proof -
  obtain rs run where r: "query_items ex_items rs" "write_run ex_digest (\<lambda>_. None :: unit option) (ex_run_of RunChildQuery) 1000 rs = Inr run"
    using ex_query_run by blast
  let ?p = "ex_published run"
  have w: "write_run ex_digest (\<lambda>_. None :: unit option) (ex_run_of RunChildQuery) 1000 rs = Inr (pub_child_queries ?p)"
    using r(2) by (simp add: ex_published_def)
  have h: "header_of [] ex_items = Some ex_header" "header_of [[98]] ex_items = None" by (simp_all add: ex_items_def)
  note answer = page_answers [where ?'io = unit, OF w ex_run_of_simps(2,1) r(1)]
  have "(page ex_digest (request_first [] 1) ?p :: (unit scan_page_error, _) res) =
      Inr (page_of ?p [] ex_header ([into_page_entry (ex_stored [97] EntryDirectory 4096)], Some (cursor_at [[97]] 4096)))"
    by (subst answer) (simp_all add: request_first_def h ex_folder after_cursor_def cursor_from_entry_def cursor_at_def ex_stored_page)
  moreover have "(page ex_digest (request_first [[98]] 1) ?p :: (unit scan_page_error, _) res) = Inl NotDirectory"
    by (subst answer)
      (simp_all add: request_first_def h valid_component_iff folder_entries_def ex_items_def ex_stored_page, simp add: ex_stored_def po_new_def)
  ultimately show ?thesis by (intro exI [of _ ?p]) (simp add: page_of_def Let_def ex_stored_page)
qed

text \<open>
  C31. A filtered page is the page of the matching children: in a run with every ancestor of an entry and
  no path twice, the entries shown are the first ones after the cursor, up to the limit and in page order,
  among the direct children with a recorded path at or below them that lies below the filter's root and
  matches the filter; however often a child matches and in whatever order its paths are stored.
\<close>

theorem filtered_page_exact:
  assumes "write_run sha grow d capacity rs = Inr (pub_child_queries p)" and "rd_kind d = RunChildQuery"
    and "\<And>x. length (sha x) = 32" and "query_items items rs" and "closed_items items"
    and "\<forall>e \<in> set (entries_of items). vec_sized (st_path e)" and "plain (rq_folder rq)"
    and "header_of (rq_folder rq) items = Some h" and "validate_page_request rq = (Inr () :: ('io scan_page_error, _) res)"
  shows "(filtered_page sha rq root_path matches_path filter_root p :: ('io scan_page_error, _) res) =
    (let base = path_push root_path (to_path_buf filter_root);
         shown = filter (filter_shows matches_path root_path base filter_root items)
           (after_cursor (rq_after rq) (folder_page (rq_folder rq) items)) in
     Inr (page_of p (rq_folder rq) h (filtered_slice (rq_limit rq) shown)))"
proof -
  have "rq_limit rq \<le> MAX_PAGE_ENTRIES" using assms(9) by (auto simp: validate_page_request_def split: if_splits)
  then show ?thesis
    using assms(8,9) read_header [where ?'io = 'io, OF assms(1-4,7)] read_filtered [where ?'io = 'io, OF assms(1-7)]
    by (simp add: filtered_page_def Let_def)
qed

theorem filtered_page_exact_witness:
  "\<exists>p pg. (filtered_page ex_digest (request_first [] 5) [47] (\<lambda>path base. path = [47, 98]) [] p :: (unit scan_page_error, _) res) = Inr pg \<and>
     map pe_path (pg_entries pg) = [[[98]]] \<and> pg_next_after pg = None"
proof -
  obtain rs run where r: "query_items ex_items rs" "closed_items ex_items"
    "write_run ex_digest (\<lambda>_. None :: unit option) (ex_run_of RunChildQuery) 1000 rs = Inr run"
    using ex_query_run by blast
  let ?p = "ex_published run" and ?m = "\<lambda>path base. path = [47 :: u8, 98]"
  have w: "write_run ex_digest (\<lambda>_. None :: unit option) (ex_run_of RunChildQuery) 1000 rs = Inr (pub_child_queries ?p)"
    using r(3) by (simp add: ex_published_def)
  have h: "header_of (rq_folder (request_first [] 5)) ex_items = Some ex_header" by (simp add: ex_items_def request_first_def)
  have small: "\<forall>e \<in> set (entries_of ex_items). vec_sized (st_path e)" "plain (rq_folder (request_first [] 5))"
    "validate_page_request (request_first [] 5) = (Inr () :: (unit scan_page_error, _) res)"
    by (simp_all add: ex_items_def ex_stored_page request_first_def validate_page_request_def MAX_PAGE_ENTRIES_def)
  have "filter (filter_shows ?m [47] (path_push [47] (to_path_buf [])) [] ex_items) (folder_page [] ex_items) =
      [into_page_entry (ex_stored [98] EntryFile 5)]"
    unfolding ex_folder
    by (simp add: filter_shows_def filter_hit_def ex_items_def ex_stored_page to_path_buf_def path_push_def has_root_def)
  then show ?thesis
    using filtered_page_exact [where ?'io = unit, OF w ex_run_of_simps(2,1) r(1,2) small(1,2) h small(3), of "[47]" ?m "[]"]
    by (intro exI [of _ ?p])
      (simp add: request_first_def after_cursor_def filtered_slice_def page_of_def Let_def ex_stored_page)
qed

section \<open>Stored records\<close>

text \<open>
  The records of the child-query run: a header decodes exactly from its own encoding; an entry that
  encodes decodes back unchanged from its value and the path key that its record key gives, also when its
  identity is left out because the scan-time snapshot holds it; and record keys of one folder compare byte
  by byte as the entries compare on a page.
\<close>

lemma page_records:
  "(header_ok h \<longrightarrow> decode_stored_header (encode_stored_header_into h) = Inr h) \<and>
   (decode_stored_header input = Inr h \<longrightarrow> input = encode_stored_header_into h \<and> header_ok h) \<and>
   (entry_record e kv \<longrightarrow>
      (\<exists>n path_key. stored_entry_parent_key_bytes (snd kv) = Inr n \<and> child_path_key_from_record (fst kv) n = Inr path_key \<and>
        decode_path_key path_key = Inr (po_path (st_observation e)) \<and> decode_stored_entry path_key (snd kv) = Inr e)) \<and>
   (entry_record e kv \<and> entry_record e' kv' \<and> relative_parent (st_path e) = relative_parent (st_path e') \<longrightarrow>
      cmp (fst kv) (fst kv') = compare_page_entries (into_page_entry e) (into_page_entry e'))"
proof (intro conjI impI)
  show "decode_stored_header (encode_stored_header_into h) = Inr h" if "header_ok h" by (rule decode_encode_header [OF that])
  show "input = encode_stored_header_into h" "header_ok h" if "decode_stored_header input = Inr h"
    using decode_header_Inr [OF that] by simp_all
  show "\<exists>n path_key. stored_entry_parent_key_bytes (snd kv) = Inr n \<and> child_path_key_from_record (fst kv) n = Inr path_key \<and>
        decode_path_key path_key = Inr (po_path (st_observation e)) \<and> decode_stored_entry path_key (snd kv) = Inr e"
    if e: "entry_record e kv"
  proof -
    note D = entry_recordD [OF e]
    have "decode_path_key (key_bytes (st_path e)) = Inr (st_path e)" using D(1) by (intro decode_path_key_bytes) (simp_all add: plain_def)
    then show ?thesis
      using D(5) [of id] D(6,7) by (intro exI [of _ "st_parent_key_bytes e"] exI [of _ "key_bytes (st_path e)"]) (simp_all add: st_path_def)
  qed
  show "cmp (fst kv) (fst kv') = compare_page_entries (into_page_entry e) (into_page_entry e')"
    if same: "entry_record e kv \<and> entry_record e' kv' \<and> relative_parent (st_path e) = relative_parent (st_path e')"
  proof -
    have par: "relative_parent p = Some (butlast p)" if "p \<noteq> []" for p
      using that by (simp add: relative_parent_def is_root_def depth_def butlast_conv_take)
    have r: "entry_record e kv" "entry_record e' kv'" and f: "butlast (st_path e') = butlast (st_path e)"
    proof -
      show r: "entry_record e kv" "entry_record e' kv'" using same by simp_all
      show "butlast (st_path e') = butlast (st_path e)"
        using same par [OF entry_recordD(4) [OF r(1)]] par [OF entry_recordD(4) [OF r(2)]] by simp
    qed
    have keys: "fst kv = query_key e" "fst kv' = query_key e'" using r by (simp_all add: entry_record_def)
    have "page_rank (into_page_entry e) = page_rank (into_page_entry e') \<longleftrightarrow> fst kv = fst kv'"
      using query_key_rank [OF r refl f] query_key_rank [OF r(2,1) f refl] keys by (metis less_irrefl linorder_neqE)
    then show ?thesis
      using query_key_rank [OF r refl f] keys by (simp add: compare_page_entries_rank cmp_def)
  qed
qed

section \<open>The path catalogue\<close>

text \<open>
  C33. The catalogue of a canonical observation run: the pass over the run, sealed, is the writing of one row
  per path, numbered from one in path order, with the number of the directory above it (zero for the root)
  and its last component; and looking a path up in the sealed catalogue gives exactly its row, or nothing
  for a path that was not observed.
\<close>

theorem path_catalog_lookup:
  fixes running :: "u64 \<Rightarrow> 'io option"
  assumes "\<And>x. length (sha x) = 32" and "\<And>n. running n = None"
    and "list_all2 observation_record obs recs" and "canonical obs" and "\<forall>x \<in> set obs. vec_sized (po_path x)"
    and "Suc (length obs) < 2 ^ 64" and "write_run sha granted d capacity recs = Inr run" and "rd_kind d = RunPathObservation"
    and "rw_new grow [] 0 d' capacity' = Inr w" and "rd_kind d' = RunPathCatalog" and "rd_generation d' = rd_generation d"
  shows "\<exists>r. rr_open (sr_file run) = (Inr r :: ('io run_error, _) res) \<and>
    res_bind (build_path_catalog sha running grow r w) (\<lambda>w. map_err CatalogRun (rw_seal sha grow w)) =
      map_err CatalogRun (write_run sha grow d' capacity' (map (catalog_record obs) [0..<length obs])) \<and>
    (\<forall>sealed p. write_run sha grow d' capacity' (map (catalog_record obs) [0..<length obs]) = Inr sealed \<and> nul_free p \<longrightarrow>
      (\<forall>i < length obs. po_path (obs ! i) = p \<longrightarrow> read_path_catalog_entry sha sealed p = (Inr (Some (catalog_row obs i)) :: ('io path_catalog_error, _) res)) \<and>
      (p \<notin> set (map po_path obs) \<longrightarrow> read_path_catalog_entry sha sealed p = (Inr None :: ('io path_catalog_error, _) res)))"
proof -
  obtain r bs N B where r: "rr_open (sr_file run) = (Inr r :: ('io run_error, _) res)" "rr_descriptor r = d"
    "reader_at sha r [] bs N B" "concat bs = recs" using sealed_run_reader [where ?'io = 'io, OF assms(7)] by blast
  have w: "rw_descriptor w = d'" by (rule rw_new_descriptor [OF assms(9)])
  have obs: "list_all2 observation_record obs ([] @ concat bs)" using assms(3) r(4) by simp
  have build: "build_path_catalog sha running grow r w =
      map_err CatalogRun (append_all sha grow (map (catalog_record obs) [0..<length obs]) w)"
    using build_canonical [where running = running, OF r(3) assms(1,2) obs assms(4-6)] r(2) w assms(8,10,11) by simp
  have one: "relative_path_ok (po_path x) \<and> nul_free (po_path x) \<and> po_path x \<noteq> []" if x: "x \<in> set obs" for x
  proof -
    obtain i where "i < length obs" "x = obs ! i" using x by (metis in_set_conv_nth)
    then have "observation_record x (recs ! i)" using assms(3) by (simp add: list_all2_conv_all_nth)
    then show ?thesis
      using encode_observation_Inr [of x "fst (recs ! i)" "snd (recs ! i)"] assms(4) x by (auto simp: observation_record_def canonical_def)
  qed
  have dist: "distinct (map po_path obs)" using assms(4) by (auto simp: canonical_def strict_sorted_iff)
  have "res_bind (build_path_catalog sha running grow r w) (\<lambda>w. map_err CatalogRun (rw_seal sha grow w)) =
      map_err CatalogRun (write_run sha grow d' capacity' (map (catalog_record obs) [0..<length obs]))"
    unfolding build write_run_def using assms(9)
    by (cases "append_all sha grow (map (catalog_record obs) [0..<length obs]) w") simp_all
  moreover have "(\<forall>i < length obs. po_path (obs ! i) = p \<longrightarrow> read_path_catalog_entry sha sealed p = (Inr (Some (catalog_row obs i)) :: ('io path_catalog_error, _) res)) \<and>
      (p \<notin> set (map po_path obs) \<longrightarrow> read_path_catalog_entry sha sealed p = (Inr None :: ('io path_catalog_error, _) res))"
    if sealed: "write_run sha grow d' capacity' (map (catalog_record obs) [0..<length obs]) = Inr sealed" "nul_free p" for sealed p
  proof -
    have obs: "\<forall>x \<in> set obs. relative_path_ok (po_path x) \<and> nul_free (po_path x) \<and> po_path x \<noteq> []" using one by blast
    note look = lookup_row [where ?'io = 'io, OF sealed(1) assms(10) assms(1) obs sealed(2)]
    show ?thesis using look dist by blast
  qed
  ultimately show ?thesis using r(1) by blast
qed

theorem path_catalog_lookup_witness:
  "\<exists>recs run r w. write_run ex_digest (\<lambda>_. None :: unit option) (ex_run_of RunPathObservation) 1000 recs = Inr run \<and>
    rr_open (sr_file run) = (Inr r :: (unit run_error, _) res) \<and>
    res_bind (build_path_catalog ex_digest (\<lambda>_. None) (\<lambda>_. None :: unit option) r w) (\<lambda>w. map_err CatalogRun (rw_seal ex_digest (\<lambda>_. None) w)) =
      map_err CatalogRun (write_run ex_digest (\<lambda>_. None) (ex_run_of RunPathCatalog) 1000 (map (catalog_record [ex_directory, ex_file]) [0..<2])) \<and>
    catalog_row [ex_directory, ex_file] 1 = \<lparr>pc_id = 2, pc_parent_id = 1, pc_name = [98]\<rparr>"
proof -
  obtain recs where recs: "list_all2 observation_record [ex_directory, ex_file] recs" "keys_sorted recs"
    "\<forall>kv \<in> set recs. 8 + length (fst kv) + length (snd kv) \<le> 1000" "record_cost recs \<le> 2000"
    using ex_stream_records by blast
  obtain run where run: "write_run ex_digest (\<lambda>_. None :: unit option) (ex_run_of RunPathObservation) 1000 recs = Inr run"
    using ex_run_written [OF recs(2-4)] by blast
  obtain w where w: "rw_new (\<lambda>_. None :: unit option) [] 0 (ex_run_of RunPathCatalog) 1000 = Inr w" using ex_writer by blast
  have small: "Suc (length [ex_directory, ex_file]) < 2 ^ 64" "length [ex_directory, ex_file] = 2" by simp_all
  have row: "catalog_row [ex_directory, ex_file] 1 = \<lparr>pc_id = 2, pc_parent_id = 1, pc_name = [98]\<rparr>"
    by (simp add: catalog_row_def path_number_def ex_directory_def ex_file_def)
  from path_catalog_lookup [where running = "\<lambda>_. None" and sha = ex_digest,
      OF ex_run_of_simps(1) refl recs(1) ex_stream(1,3) small(1) run ex_run_of_simps(2) w ex_run_of_simps(2)] run row
  show ?thesis unfolding small(2) by (simp only: ex_run_of_simps(3)) blast
qed

section \<open>The folder digest\<close>

text \<open>
  C40. The digest of a folder depends on its entries only, not on the order they are added in; it counts
  them; and replacing one entry by a different one changes the digest unless SHA-256 maps the two
  different encodings of the entries to the same bytes.
\<close>

theorem folder_digest_exact:
  assumes "\<And>x. length (sha x) = 32"
  shows "(mset xs = mset ys \<longrightarrow> fg_of sha xs = fg_of sha ys) \<and>
    (length xs < 2 ^ 64 \<longrightarrow> unat (fg_entries (fg_of sha xs)) = length xs) \<and>
    (length (fst x) < 2 ^ 64 \<and> length (fst y) < 2 ^ 64 \<and> x \<noteq> y \<and> fg_eq (fg_of sha (x # xs)) (fg_of sha (y # xs)) \<longrightarrow>
      term_input x \<noteq> term_input y \<and> sha (term_input x) = sha (term_input y))"
  using digest_same [of xs ys sha] digest_of(2) [of sha xs] digest_replace [of sha x xs y, OF assms] term_input_inject [of x y]
  by (auto simp: fg_eq_def)

theorem folder_digest_exact_witness:
  "unat (fg_entries (fg_of ex_digest [([97], EntryFile, None), ([98], EntryFile, None)])) = 2 \<and>
    fg_of ex_digest [([97], EntryFile, None), ([98], EntryFile, None)] = fg_of ex_digest [([98], EntryFile, None), ([97], EntryFile, None)]"
proof -
  note f = folder_digest_exact [of ex_digest "[([97], EntryFile, None), ([98], EntryFile, None)]"
      "[([98], EntryFile, None), ([97], EntryFile, None)]" "([97], EntryFile, None)" "([98], EntryFile, None)", OF ex_run_of_simps(1)]
  from f [THEN conjunct1] f [THEN conjunct2, THEN conjunct1] show ?thesis by simp
qed

end
