(* ===== verification/Page_Index.thy ===== *)
theory Page_Index
  imports Page_Query Temporary_Storage
begin

text \<open>
  The build of the child-query run at publication (\<open>materialize_child_queries\<close> and the functions below it
  in \<open>src/src/scan_store/page.rs\<close>).  The four sealed fact runs are read in batches into a table of a
  temporary database, one record per path and one per directory; a second table holds the same records
  under the keys of the pages; its records are appended to the output in key order.

  The database is the \<open>redb\<close> crate, which is not part of the sources: its operations are the record
  \<open>redb\<close>, an argument of every definition, with types for the database, a write and a read
  transaction and an error.  Dropping a transaction that fails aborts it; every failure here ends the
  build and drops the database as well.  \<open>Page_Index_Spec\<close> states what the database promises and what the
  build then produces.
\<close>

section \<open>The database\<close>

datatype page_table = PAGE_INDEX_RECORDS | PAGE_QUERY_RECORDS

record ('d, 't, 'r, 'x) redb =
  rb_create :: "backend \<Rightarrow> ('x, 'd) res"
  rb_begin_write :: "'d \<Rightarrow> ('x, 't) res"
  rb_set_durability_none :: "'t \<Rightarrow> ('x, 't) res"
  rb_open_table :: "page_table \<Rightarrow> 't \<Rightarrow> ('x, 't) res"
  rb_get :: "page_table \<Rightarrow> bytes \<Rightarrow> 't \<Rightarrow> ('x, bytes option) res"
  rb_insert :: "page_table \<Rightarrow> bytes \<Rightarrow> bytes \<Rightarrow> 't \<Rightarrow> ('x, bytes option \<times> 't) res"
  rb_iter :: "page_table \<Rightarrow> 't \<Rightarrow> ('x, ('x, run_record) res list) res"
  rb_commit :: "'t \<Rightarrow> ('x, 'd) res"
  rb_begin_read :: "'d \<Rightarrow> ('x, 'r) res"
  rb_open_read_table :: "page_table \<Rightarrow> 'r \<Rightarrow> ('x, 'r) res"
  rb_read_get :: "page_table \<Rightarrow> bytes \<Rightarrow> 'r \<Rightarrow> ('x, bytes option) res"
  rb_read_iter :: "page_table \<Rightarrow> 'r \<Rightarrow> ('x, ('x, run_record) res list) res"

type_synonym ('os, 'x) build_error = "('os io_error, 'x) page_index_error"

abbreviation database_error :: "('x, 'a) res \<Rightarrow> (('os, 'x) build_error, 'a) res" where
  "database_error \<equiv> map_err IndexDatabase"

definition PAGE_INDEX_BATCH :: nat where "PAGE_INDEX_BATCH = 1024"

fun index_key_error :: "page_key_error \<Rightarrow> ('os, 'x) build_error" where
  "index_key_error (KeyPathKey e) = IndexPathKey e"
| "index_key_error KeyPanic = IndexPanic"

text \<open>A \<open>for\<close> loop over a list whose body may fail.\<close>

fun fold_res :: "('a \<Rightarrow> 's \<Rightarrow> ('e, 's) res) \<Rightarrow> 'a list \<Rightarrow> 's \<Rightarrow> ('e, 's) res" where
  "fold_res f [] s = Inr s"
| "fold_res f (x # xs) s = res_bind (f x s) (fold_res f xs)"

definition begin_ephemeral_write :: "('d, 't, 'r, 'x) redb \<Rightarrow> 'd \<Rightarrow> (('os, 'x) build_error, 't) res" where
  "begin_ephemeral_write ops d =
     res_bind (database_error (rb_begin_write ops d)) (\<lambda>t. database_error (rb_set_durability_none ops t))"

text \<open>
  \<open>index_file\<close> is the outcome of \<open>create_index_file\<close> with a session and of \<open>tempfile\<close> without one.
\<close>

definition create_page_index_database :: "('d, 't, 'r, 'x) redb \<Rightarrow> 'os file_os \<Rightarrow> ('os io_error, bytes) res \<Rightarrow>
    temporary_storage \<Rightarrow> (('os, 'x) build_error, 'd) res" where
  "create_page_index_database ops os index_file storage =
     res_bind (map_err IndexIo index_file) (\<lambda>file.
     res_bind (map_err IndexIo (ts_reservation 0 storage)) (\<lambda>(held, storage).
     res_bind (map_err IndexIo (fst (backend_new os file held False storage))) (\<lambda>backend.
     res_bind (database_error (rb_create ops backend)) (\<lambda>d.
     res_bind (begin_ephemeral_write ops d) (\<lambda>t.
     res_bind (database_error (rb_open_table ops PAGE_INDEX_RECORDS t)) (\<lambda>t.
     res_bind (database_error (rb_open_table ops PAGE_QUERY_RECORDS t)) (\<lambda>t.
       database_error (rb_commit ops t))))))))"

section \<open>Batches\<close>

text \<open>One transaction on the table of facts for a batch; an empty batch needs none.\<close>

definition flush_batch :: "('d, 't, 'r, 'x) redb \<Rightarrow> ('a \<Rightarrow> 't \<Rightarrow> (('os, 'x) build_error, 't) res) \<Rightarrow> 'a list \<Rightarrow> 'd \<Rightarrow>
    (('os, 'x) build_error, 'd) res" where
  "flush_batch ops step batch d =
     (if batch = [] then Inr d
      else
        res_bind (begin_ephemeral_write ops d) (\<lambda>t.
        res_bind (database_error (rb_open_table ops PAGE_INDEX_RECORDS t)) (\<lambda>t.
        res_bind (fold_res step batch t) (\<lambda>t. database_error (rb_commit ops t)))))"

text \<open>The body of the loop over a fact run: decode, push, flush a full batch.\<close>

definition batch_step :: "(bytes \<Rightarrow> bytes \<Rightarrow> (('os, 'x) build_error, 'a) res) \<Rightarrow> ('a list \<Rightarrow> 'd \<Rightarrow> (('os, 'x) build_error, 'd) res) \<Rightarrow>
    bytes \<Rightarrow> bytes \<Rightarrow> 'a list \<times> 'd \<Rightarrow> (('os, 'x) build_error, 'a list \<times> 'd) res" where
  "batch_step decode flush key val = (\<lambda>(batch, d).
     res_bind (decode key val) (\<lambda>x.
     let batch = batch @ [x] in
     if length batch = PAGE_INDEX_BATCH then res_bind (flush batch d) (\<lambda>d. Inr ([], d)) else Inr (batch, d)))"

definition index_facts :: "(bytes \<Rightarrow> bytes) \<Rightarrow> (u64 \<Rightarrow> 'os io_error option) \<Rightarrow>
    (bytes \<Rightarrow> bytes \<Rightarrow> (('os, 'x) build_error, 'a) res) \<Rightarrow> ('a list \<Rightarrow> 'd \<Rightarrow> (('os, 'x) build_error, 'd) res) \<Rightarrow> 'd \<Rightarrow> run_reader \<Rightarrow>
    (('os, 'x) build_error, 'd) res" where
  "index_facts sha running decode flush d reader =
     res_bind (rr_visit sha running IndexRun (batch_step decode flush) reader ([], d)) (\<lambda>((batch, d), _). flush batch d)"

section \<open>Path observations\<close>

definition index_path_record :: "('d, 't, 'r, 'x) redb \<Rightarrow> path_observation \<Rightarrow> 't \<Rightarrow> (('os, 'x) build_error, 't) res" where
  "index_path_record ops ob t =
     res_bind (ok_or (relative_parent (po_path ob)) MissingEntry) (\<lambda>parent.
     res_bind (map_err IndexPathKey (encode_path_key_into parent [])) (\<lambda>parent_key.
     res_bind (u32_of_len (IndexRecord RecordMalformed) (length parent_key)) (\<lambda>parent_key_bytes.
     res_bind (map_err IndexPathKey (encode_path_key_into (po_path ob) [])) (\<lambda>child_path_key.
     res_bind (ok_or (slice_from (length parent_key) child_path_key) IndexPanic) (\<lambda>child_suffix.
     res_bind (map_err IndexRecord (encode_stored_entry_into (st_from_observation ob parent_key_bytes))) (\<lambda>record_value.
     res_bind (database_error (rb_insert ops PAGE_INDEX_RECORDS (page_entry_key_from_encoded parent_key child_suffix) record_value t))
       (\<lambda>(old, t). if old \<noteq> None then Inl DuplicateRecord else Inr t)))))))"

definition flush_path_batch :: "('d, 't, 'r, 'x) redb \<Rightarrow> path_observation list \<Rightarrow> 'd \<Rightarrow> (('os, 'x) build_error, 'd) res" where
  "flush_path_batch ops = flush_batch ops (index_path_record ops)"

definition index_path_observations :: "('d, 't, 'r, 'x) redb \<Rightarrow> (bytes \<Rightarrow> bytes) \<Rightarrow> (u64 \<Rightarrow> 'os io_error option) \<Rightarrow> 'd \<Rightarrow>
    run_reader \<Rightarrow> (('os, 'x) build_error, 'd) res" where
  "index_path_observations ops sha running =
     index_facts sha running (\<lambda>k v. map_err IndexPathObservation (decode_path_observation k v)) (flush_path_batch ops)"

section \<open>Directory summaries\<close>

text \<open>\<open>page_entry_key_into\<close> fills two buffers: the key of the record and the key of the child's path.\<close>

definition entry_keys :: "relative_path \<Rightarrow> relative_path \<Rightarrow> (('os, 'x) build_error, bytes \<times> bytes) res" where
  "entry_keys folder child =
     res_bind (map_err index_key_error (page_entry_key_into folder child)) (\<lambda>key.
     res_bind (map_err IndexPathKey (encode_path_key_into child [])) (\<lambda>child_path_key. Inr (key, child_path_key)))"

text \<open>Reading and writing back the record of an entry, as every later fact does.\<close>

definition read_entry :: "('d, 't, 'r, 'x) redb \<Rightarrow> bytes \<Rightarrow> bytes \<Rightarrow> 't \<Rightarrow> (('os, 'x) build_error, stored_entry) res" where
  "read_entry ops record_key child_path_key t =
     res_bind (database_error (rb_get ops PAGE_INDEX_RECORDS record_key t)) (\<lambda>found.
     res_bind (ok_or found MissingEntry) (\<lambda>existing. map_err IndexRecord (decode_stored_entry child_path_key existing)))"

definition write_entry :: "('d, 't, 'r, 'x) redb \<Rightarrow> bytes \<Rightarrow> stored_entry \<Rightarrow> 't \<Rightarrow> (('os, 'x) build_error, 't) res" where
  "write_entry ops record_key e t =
     res_bind (map_err IndexRecord (encode_stored_entry_into e)) (\<lambda>record_value.
     res_bind (database_error (rb_insert ops PAGE_INDEX_RECORDS record_key record_value t)) (\<lambda>(_, t). Inr t))"

text \<open>The record of the directory in its parent, behind the header.\<close>

definition index_summary_entry :: "('d, 't, 'r, 'x) redb \<Rightarrow> directory_summary \<Rightarrow> 't \<Rightarrow> (('os, 'x) build_error, 't) res" where
  "index_summary_entry ops y t =
     (case relative_parent (ds_path y) of
        None \<Rightarrow> Inr t
      | Some parent \<Rightarrow>
          res_bind (entry_keys parent (ds_path y)) (\<lambda>(record_key, child_path_key).
          res_bind (read_entry ops record_key child_path_key t) (\<lambda>entry.
          if po_kind (st_observation entry) \<noteq> EntryDirectory then Inl SummaryForNonDirectory
          else if st_directory_summary_seen entry then Inl DuplicateRecord
          else write_entry ops record_key
            (entry\<lparr>st_metrics := ds_metrics y, st_coverage := ds_coverage y, st_directory_summary_seen := True\<rparr>) t)))"

definition index_summary_record :: "('d, 't, 'r, 'x) redb \<Rightarrow> directory_summary \<Rightarrow> 't \<Rightarrow> (('os, 'x) build_error, 't) res" where
  "index_summary_record ops y t =
     res_bind (map_err IndexPathKey (page_header_key_into (ds_path y))) (\<lambda>header_key.
     let record_value = encode_stored_header_into
           \<lparr>sh_header_metrics = ds_metrics y, sh_header_coverage = ds_coverage y, sh_header_shared = None\<rparr> in
     res_bind (database_error (rb_insert ops PAGE_INDEX_RECORDS header_key record_value t)) (\<lambda>(old, t).
       if old \<noteq> None then Inl DuplicateRecord else index_summary_entry ops y t))"

definition flush_directory_summary_batch :: "('d, 't, 'r, 'x) redb \<Rightarrow> directory_summary list \<Rightarrow> 'd \<Rightarrow>
    (('os, 'x) build_error, 'd) res" where
  "flush_directory_summary_batch ops = flush_batch ops (index_summary_record ops)"

definition index_directory_summaries :: "('d, 't, 'r, 'x) redb \<Rightarrow> (bytes \<Rightarrow> bytes) \<Rightarrow> (u64 \<Rightarrow> 'os io_error option) \<Rightarrow> 'd \<Rightarrow>
    run_reader \<Rightarrow> (('os, 'x) build_error, 'd) res" where
  "index_directory_summaries ops sha running =
     index_facts sha running
       (\<lambda>k v. res_bind (map_err IndexDirectorySummary (decode_directory_summary k v)) (\<lambda>(_, y). Inr y))
       (flush_directory_summary_batch ops)"

section \<open>Identities\<close>

definition index_identity_record :: "('d, 't, 'r, 'x) redb \<Rightarrow> identity_observation \<Rightarrow> 't \<Rightarrow> (('os, 'x) build_error, 't) res" where
  "index_identity_record ops ob t =
     res_bind (ok_or (relative_parent (io_path ob)) MissingEntry) (\<lambda>parent.
     res_bind (entry_keys parent (io_path ob)) (\<lambda>(record_key, child_path_key).
     res_bind (read_entry ops record_key child_path_key t) (\<lambda>entry.
     if po_kind (st_observation entry) = EntryDirectory then Inl IdentityForDirectory
     else
       let identity = si_from_observation ob in
       if (case st_identity entry of None \<Rightarrow> False | Some existing \<Rightarrow> existing \<noteq> identity) then Inl DuplicateRecord
       else write_entry ops record_key (entry\<lparr>st_identity := Some identity\<rparr>) t)))"

definition flush_identity_batch :: "('d, 't, 'r, 'x) redb \<Rightarrow> identity_observation list \<Rightarrow> 'd \<Rightarrow> (('os, 'x) build_error, 'd) res" where
  "flush_identity_batch ops = flush_batch ops (index_identity_record ops)"

definition index_identity_observations :: "('d, 't, 'r, 'x) redb \<Rightarrow> (bytes \<Rightarrow> bytes) \<Rightarrow> (u64 \<Rightarrow> 'os io_error option) \<Rightarrow> 'd \<Rightarrow>
    run_reader \<Rightarrow> (('os, 'x) build_error, 'd) res" where
  "index_identity_observations ops sha running =
     index_facts sha running (\<lambda>k v. map_err IndexIdentityObservation (decode_identity_observation k v)) (flush_identity_batch ops)"

section \<open>Allocations\<close>

definition update_header_physical :: "('d, 't, 'r, 'x) redb \<Rightarrow> bytes \<Rightarrow> allocation_contribution \<Rightarrow> bool \<Rightarrow> 't \<Rightarrow>
    (('os, 'x) build_error, 't) res" where
  "update_header_physical ops header_key c add_shared t =
     res_bind (database_error (rb_get ops PAGE_INDEX_RECORDS header_key t)) (\<lambda>found.
     res_bind (ok_or found MissingHeader) (\<lambda>existing.
     res_bind (map_err IndexRecord (decode_stored_header existing)) (\<lambda>header.
     let header = header\<lparr>sh_header_metrics :=
           add_physical (sh_header_metrics header) (ac_allocated_bytes c) (ac_reclaimable_bytes c)\<rparr>;
         header = (if add_shared
           then header\<lparr>sh_header_shared := Some (add_physical
             (case sh_header_shared header of None \<Rightarrow> sm_default | Some shared \<Rightarrow> shared)
             (ac_allocated_bytes c) (ac_reclaimable_bytes c))\<rparr>
           else header) in
     res_bind (database_error (rb_insert ops PAGE_INDEX_RECORDS header_key (encode_stored_header_into header) t))
       (\<lambda>(_, t). Inr t))))"

definition update_entry_physical :: "('d, 't, 'r, 'x) redb \<Rightarrow> bytes \<Rightarrow> bytes \<Rightarrow> allocation_contribution \<Rightarrow> bool \<Rightarrow> 't \<Rightarrow>
    (('os, 'x) build_error, 't) res" where
  "update_entry_physical ops record_key child_path_key c is_leaf t =
     res_bind (read_entry ops record_key child_path_key t) (\<lambda>entry.
     if is_leaf then
       if po_kind (st_observation entry) = EntryDirectory then Inl InvalidAllocationTarget
       else write_entry ops record_key
         (entry\<lparr>st_metrics := set_physical (ac_allocated_bytes c) (ac_reclaimable_bytes c) (st_metrics entry),
                st_leaf_allocation_seen := True\<rparr>) t
     else
       if po_kind (st_observation entry) \<noteq> EntryDirectory then Inl InvalidAllocationTarget
       else write_entry ops record_key
         (entry\<lparr>st_metrics := add_physical (st_metrics entry) (ac_allocated_bytes c) (ac_reclaimable_bytes c)\<rparr>) t)"

text \<open>
  The loop over the components of the recipient; \<open>folder_key\<close> is the key of the components before
  \<open>index\<close>.
\<close>

fun apply_allocation_loop :: "('d, 't, 'r, 'x) redb \<Rightarrow> allocation_contribution \<Rightarrow> nat \<Rightarrow> os_string list \<Rightarrow> bytes \<Rightarrow> 't \<Rightarrow>
    (('os, 'x) build_error, bytes \<times> 't) res" where
  "apply_allocation_loop ops c index [] folder_key t = Inr (folder_key, t)"
| "apply_allocation_loop ops c index (component # comps) folder_key t =
     res_bind (update_header_physical ops (page_header_key_from_encoded folder_key) c False t) (\<lambda>t.
     res_bind (map_err IndexPathKey (append_path_component_key component [])) (\<lambda>component_key.
     let child_path_key = folder_key @ component_key;
         is_leaf = (ac_placement c = PlaceLeaf \<and> usize_sat_add index 1 = depth (ac_recipient c)) in
     res_bind (update_entry_physical ops (page_entry_key_from_encoded folder_key component_key) child_path_key c is_leaf t) (\<lambda>t.
       apply_allocation_loop ops c (index + 1) comps child_path_key t)))"

definition apply_allocation :: "('d, 't, 'r, 'x) redb \<Rightarrow> allocation_contribution \<Rightarrow> 't \<Rightarrow> (('os, 'x) build_error, 't) res" where
  "apply_allocation ops c t =
     res_bind (apply_allocation_loop ops c 0 (ac_recipient c) [] t) (\<lambda>(folder_key, t).
     if ac_placement c = PlaceShared
     then update_header_physical ops (page_header_key_from_encoded folder_key) c True t
     else Inr t)"

definition flush_allocation_batch :: "('d, 't, 'r, 'x) redb \<Rightarrow> allocation_contribution list \<Rightarrow> 'd \<Rightarrow> (('os, 'x) build_error, 'd) res" where
  "flush_allocation_batch ops = flush_batch ops (apply_allocation ops)"

definition index_allocation_contributions :: "('d, 't, 'r, 'x) redb \<Rightarrow> (bytes \<Rightarrow> bytes) \<Rightarrow> (u64 \<Rightarrow> 'os io_error option) \<Rightarrow> 'd \<Rightarrow>
    run_reader \<Rightarrow> (('os, 'x) build_error, 'd) res" where
  "index_allocation_contributions ops sha running =
     index_facts sha running
       (\<lambda>k v. res_bind (map_err IndexAllocationContribution (decode_allocation_contribution k v)) (\<lambda>(_, c). Inr c))
       (flush_allocation_batch ops)"

section \<open>The records in page order\<close>

definition read_header_from_database :: "('d, 't, 'r, 'x) redb \<Rightarrow> 'd \<Rightarrow> relative_path \<Rightarrow>
    (('os, 'x) build_error, stored_header option) res" where
  "read_header_from_database ops d folder =
     res_bind (map_err IndexPathKey (page_header_key_into folder)) (\<lambda>key.
     res_bind (database_error (rb_begin_read ops d)) (\<lambda>r.
     res_bind (database_error (rb_open_read_table ops PAGE_INDEX_RECORDS r)) (\<lambda>r.
     res_bind (database_error (rb_read_get ops PAGE_INDEX_RECORDS key r)) (\<lambda>found.
     case found of
       None \<Rightarrow> Inr None
     | Some val \<Rightarrow> res_bind (map_err IndexRecord (decode_stored_header val)) (\<lambda>h. Inr (Some h))))))"

text \<open>
  \<open>storage_at n\<close> is the quota as the pass finds it after \<open>n\<close> records: another thread may stop the session
  meanwhile.
\<close>

definition metric_query_step :: "('d, 't, 'r, 'x) redb \<Rightarrow> (nat \<Rightarrow> temporary_storage) \<Rightarrow> nat \<times> ('x, run_record) res \<Rightarrow> 't \<Rightarrow>
    (('os, 'x) build_error, 't) res" where
  "metric_query_step ops storage_at = (\<lambda>(visited, item) t.
     res_bind (if visited mod PAGE_INDEX_BATCH = 0 then map_err IndexIo (ts_ensure_running (storage_at visited)) else Inr ()) (\<lambda>_.
     res_bind (database_error item) (\<lambda>(key, val).
     if val \<noteq> [] \<and> hd val = PAGE_HEADER_VERSION
     then res_bind (database_error (rb_insert ops PAGE_QUERY_RECORDS key val t)) (\<lambda>(_, t). Inr t)
     else
       res_bind (map_err IndexRecord (stored_entry_parent_key_bytes val)) (\<lambda>parent_key_bytes.
       res_bind (map_err IndexRecord (child_path_key_from_index_record key parent_key_bytes)) (\<lambda>full_path_key.
       res_bind (map_err IndexRecord (decode_stored_entry full_path_key val)) (\<lambda>stored.
       let represented = bb_lower (sm_allocated_bytes (pe_metrics (into_page_entry stored))) in
       res_bind (ok_or (slice_get 0 (unat parent_key_bytes) full_path_key) (IndexRecord RecordMalformed)) (\<lambda>folder_key.
       res_bind (ok_or (slice_from (unat parent_key_bytes) full_path_key) (IndexRecord RecordMalformed)) (\<lambda>child_suffix.
       res_bind (database_error (rb_insert ops PAGE_QUERY_RECORDS
           (page_entry_query_key_from_encoded folder_key represented child_suffix) val t)) (\<lambda>(old, t).
         if old \<noteq> None then Inl DuplicateRecord else Inr t)))))))))"

definition build_metric_query_index :: "('d, 't, 'r, 'x) redb \<Rightarrow> (nat \<Rightarrow> temporary_storage) \<Rightarrow> 'd \<Rightarrow> (('os, 'x) build_error, 'd) res" where
  "build_metric_query_index ops storage_at d =
     res_bind (begin_ephemeral_write ops d) (\<lambda>t.
     res_bind (database_error (rb_open_table ops PAGE_INDEX_RECORDS t)) (\<lambda>t.
     res_bind (database_error (rb_open_table ops PAGE_QUERY_RECORDS t)) (\<lambda>t.
     res_bind (database_error (rb_iter ops PAGE_INDEX_RECORDS t)) (\<lambda>items.
     res_bind (fold_res (metric_query_step ops storage_at) (enumerate 0 items) t) (\<lambda>t.
     res_bind (map_err IndexIo (ts_ensure_running (storage_at (length items)))) (\<lambda>_.
       database_error (rb_commit ops t)))))))"

definition write_page_records :: "('d, 't, 'r, 'x) redb \<Rightarrow> (bytes \<Rightarrow> bytes) \<Rightarrow> 'os io_error grow \<Rightarrow> 'd \<Rightarrow> run_writer \<Rightarrow>
    (('os, 'x) build_error, run_writer) res" where
  "write_page_records ops sha grow d output =
     res_bind (database_error (rb_begin_read ops d)) (\<lambda>r.
     res_bind (database_error (rb_open_read_table ops PAGE_QUERY_RECORDS r)) (\<lambda>r.
     res_bind (database_error (rb_read_iter ops PAGE_QUERY_RECORDS r)) (\<lambda>items.
       fold_res (\<lambda>item output.
         res_bind (database_error item) (\<lambda>(key, val). map_err IndexRun (rw_append sha grow key val output))) items output)))"

section \<open>The build\<close>

definition MATERIALIZE_STEPS :: u8 where "MATERIALIZE_STEPS = 6"

record page_index_metadata =
  pim_root_metrics :: summary_metrics
  pim_root_coverage :: coverage

text \<open>\<open>SealedRun::with_reader\<close>; \<open>reopen\<close> is the outcome of opening the file of the run and seeking to its start.\<close>

definition with_reader :: "(run_kind \<Rightarrow> 'os io_error option) \<Rightarrow> (run_reader \<Rightarrow> (('os, 'x) build_error, 'a) res) \<Rightarrow> sealed_run \<Rightarrow>
    (('os, 'x) build_error, 'a) res" where
  "with_reader reopen visit run =
     (case reopen (rd_kind (sr_descriptor run)) of
        Some e \<Rightarrow> Inl (IndexRun (RunIo e))
      | None \<Rightarrow> res_bind (map_err IndexRun (rr_open (sr_file run))) visit)"

text \<open>A step and the call of \<open>report\<close> behind it; the second component is what was reported.\<close>

definition step_reported :: "u8 \<Rightarrow> ('e, 'a) res \<Rightarrow> ('a \<Rightarrow> ('e, 'b) res \<times> u8 list) \<Rightarrow> ('e, 'b) res \<times> u8 list" where
  "step_reported n r k = (case r of Inl e \<Rightarrow> (Inl e, []) | Inr x \<Rightarrow> (fst (k x), n # snd (k x)))"

text \<open>What the build finds outside itself: the digest, the runs' files, the quota and the output's growth.\<close>

record 'os build_environment =
  en_sha :: "bytes \<Rightarrow> bytes"
  en_running :: "u64 \<Rightarrow> 'os io_error option"
  en_reopen :: "run_kind \<Rightarrow> 'os io_error option"
  en_file_os :: "'os file_os"
  en_index_file :: "('os io_error, bytes) res"
  en_storage :: temporary_storage
  en_storage_at :: "nat \<Rightarrow> temporary_storage"
  en_grow :: "'os io_error grow"

definition materialize_child_queries :: "('d, 't, 'r, 'x) redb \<Rightarrow> 'os build_environment \<Rightarrow>
    sealed_run \<Rightarrow> sealed_run \<Rightarrow> sealed_run \<Rightarrow> sealed_run \<Rightarrow> run_writer \<Rightarrow>
    (('os, 'x) build_error, page_index_metadata \<times> run_writer) res \<times> u8 list" where
  "materialize_child_queries ops en path_observations identity_observations directory_summaries allocation_contributions output =
     (if rd_kind (rw_descriptor output) \<noteq> RunChildQuery then (Inl PageWrongOutputKind, [])
      else case create_page_index_database ops (en_file_os en) (en_index_file en) (en_storage en) of
        Inl e \<Rightarrow> (Inl e, [])
      | Inr d \<Rightarrow>
          step_reported 1 (with_reader (en_reopen en) (index_path_observations ops (en_sha en) (en_running en) d) path_observations) (\<lambda>d.
          step_reported 2 (with_reader (en_reopen en) (index_identity_observations ops (en_sha en) (en_running en) d) identity_observations) (\<lambda>d.
          step_reported 3 (with_reader (en_reopen en) (index_directory_summaries ops (en_sha en) (en_running en) d) directory_summaries) (\<lambda>d.
          step_reported 4 (with_reader (en_reopen en) (index_allocation_contributions ops (en_sha en) (en_running en) d) allocation_contributions) (\<lambda>d.
          step_reported 5 (build_metric_query_index ops (en_storage_at en) d) (\<lambda>d.
          step_reported 6
            (res_bind (read_header_from_database ops d rp_root) (\<lambda>found.
             res_bind (ok_or found MissingHeader) (\<lambda>root.
             res_bind (write_page_records ops (en_sha en) (en_grow en) d output) (\<lambda>output.
               Inr (\<lparr>pim_root_metrics = sh_header_metrics root, pim_root_coverage = sh_header_coverage root\<rparr>, output)))))
            (\<lambda>r. (Inr r, []))))))))"

end
