(* ===== verification/Page_Index_Spec.thy ===== *)
theory Page_Index_Spec
  imports Page_Index Page_Query_Spec Summary_Pipeline
begin

text \<open>
  What the build of the child-query run produces.  \<open>redb_laws\<close> is what the database promises: a table is a
  finite map, iterated in key order, and an operation that succeeds reads or updates that map.
  \<open>page_facts\<close> is the content of the index table: an entry per path and a header per directory, and
  \<open>fact_path\<close>, \<open>fact_identity\<close>, \<open>fact_summary\<close> and \<open>fact_allocation\<close> say how one fact changes it.
  \<open>refines\<close> relates the code to them: unless the database or the quota fails, the code fails exactly when the
  specification does, and otherwise reaches a table that holds the specified facts.
\<close>

section \<open>The database\<close>

definition lists_map :: "(bytes \<rightharpoonup> bytes) \<Rightarrow> ('x, run_record) res list \<Rightarrow> bool" where
  "lists_map m items \<longleftrightarrow> (\<exists>kvs. keys_sorted kvs \<and> (\<forall>k v. (k, v) \<in> set kvs \<longleftrightarrow> m k = Some v) \<and>
     (items = map Inr kvs \<or> (\<exists>n x rest. items = map Inr (take n kvs) @ Inl x # rest)))"

definition redb_laws :: "('d, 't, 'r, 'x) redb \<Rightarrow> ('d \<Rightarrow> page_table \<Rightarrow> bytes \<rightharpoonup> bytes) \<Rightarrow> ('t \<Rightarrow> page_table \<Rightarrow> bytes \<rightharpoonup> bytes) \<Rightarrow>
    ('r \<Rightarrow> page_table \<Rightarrow> bytes \<rightharpoonup> bytes) \<Rightarrow> bool" where
  "redb_laws ops D T R \<longleftrightarrow>
     (\<forall>b d. rb_create ops b = Inr d \<longrightarrow> D d = (\<lambda>_. Map.empty)) \<and>
     (\<forall>d t. rb_begin_write ops d = Inr t \<longrightarrow> T t = D d) \<and>
     (\<forall>t t'. rb_set_durability_none ops t = Inr t' \<longrightarrow> T t' = T t) \<and>
     (\<forall>tb t t'. rb_open_table ops tb t = Inr t' \<longrightarrow> T t' = T t) \<and>
     (\<forall>tb k t x. rb_get ops tb k t = Inr x \<longrightarrow> x = T t tb k) \<and>
     (\<forall>tb k v t old t'. rb_insert ops tb k v t = Inr (old, t') \<longrightarrow> old = T t tb k \<and> T t' = (T t)(tb := (T t tb)(k \<mapsto> v))) \<and>
     (\<forall>tb t items. rb_iter ops tb t = Inr items \<longrightarrow> lists_map (T t tb) items) \<and>
     (\<forall>t d. rb_commit ops t = Inr d \<longrightarrow> D d = T t) \<and>
     (\<forall>d r. rb_begin_read ops d = Inr r \<longrightarrow> R r = D d) \<and>
     (\<forall>tb r r'. rb_open_read_table ops tb r = Inr r' \<longrightarrow> R r' = R r) \<and>
     (\<forall>tb k r x. rb_read_get ops tb k r = Inr x \<longrightarrow> x = R r tb k) \<and>
     (\<forall>tb r items. rb_read_iter ops tb r = Inr items \<longrightarrow> lists_map (R r tb) items)"

lemma redb_lawsD:
  assumes "redb_laws ops D T R"
  shows "rb_create ops b = Inr d \<Longrightarrow> D d = (\<lambda>_. Map.empty)"
    and "rb_begin_write ops d = Inr t \<Longrightarrow> T t = D d"
    and "rb_set_durability_none ops t = Inr t' \<Longrightarrow> T t' = T t"
    and "rb_open_table ops tb t = Inr t' \<Longrightarrow> T t' = T t"
    and "rb_get ops tb k t = Inr x \<Longrightarrow> x = T t tb k"
    and "rb_insert ops tb k v t = Inr (old, t') \<Longrightarrow> old = T t tb k \<and> T t' = (T t)(tb := (T t tb)(k \<mapsto> v))"
    and "rb_iter ops tb t = Inr items \<Longrightarrow> lists_map (T t tb) items"
    and "rb_commit ops t = Inr d \<Longrightarrow> D d = T t"
    and "rb_begin_read ops d = Inr r \<Longrightarrow> R r = D d"
    and "rb_open_read_table ops tb r = Inr r' \<Longrightarrow> R r' = R r"
    and "rb_read_get ops tb k r = Inr x \<Longrightarrow> x = R r tb k"
    and "rb_read_iter ops tb r = Inr items \<Longrightarrow> lists_map (R r tb) items"
  using assms by (simp_all add: redb_laws_def)

section \<open>Refinement\<close>

text \<open>The failures that do not depend on the facts.\<close>

definition outage :: "('os, 'x) build_error \<Rightarrow> bool" where
  "outage e \<longleftrightarrow> (\<exists>x. e = IndexDatabase x) \<or> (\<exists>i. e = IndexIo i)"

definition refines :: "('s \<Rightarrow> 'a \<Rightarrow> bool) \<Rightarrow> (('os, 'x) build_error, 's) res \<Rightarrow> 'a option \<Rightarrow> bool" where
  "refines S c a \<longleftrightarrow> (\<exists>e. c = Inl e \<and> (outage e \<or> a = None)) \<or> (\<exists>s y. c = Inr s \<and> a = Some y \<and> S s y)"

lemma refines_fail [simp]: "refines S (Inl e) None" "outage e \<Longrightarrow> refines S (Inl e) a"
  by (simp_all add: refines_def)

lemma refines_ok [simp]: "refines S (Inr s) (Some y) \<longleftrightarrow> S s y"
  by (simp add: refines_def)

lemma refines_bind:
  assumes "refines S c a" "\<And>s y. S s y \<Longrightarrow> refines S' (f s) (g y)"
  shows "refines S' (res_bind c f) (Option.bind a g)"
  using assms by (cases c; cases a) (auto simp: refines_def)

lemma refines_database:
  assumes "\<And>s. r = Inr s \<Longrightarrow> refines S (f s) a"
  shows "refines S (res_bind (database_error r) f) a"
  using assms by (cases r) (auto simp: refines_def outage_def)

lemma refines_database_last:
  assumes "\<And>s. r = Inr s \<Longrightarrow> S s y"
  shows "refines S (database_error r) (Some y)"
  using assms by (cases r) (auto simp: refines_def outage_def)

lemma refines_io: "refines S (f ()) a \<Longrightarrow> refines S (res_bind (map_err IndexIo c) f) a"
  by (cases c) (simp_all add: outage_def)

lemma refines_io_any: "(\<And>x. refines S (f x) a) \<Longrightarrow> refines S (res_bind (map_err IndexIo c) f) a"
  by (cases c) (simp_all add: outage_def)

fun fold_opt :: "('a \<Rightarrow> 's \<Rightarrow> 's option) \<Rightarrow> 'a list \<Rightarrow> 's \<Rightarrow> 's option" where
  "fold_opt f [] s = Some s"
| "fold_opt f (x # xs) s = Option.bind (f x s) (fold_opt f xs)"

lemma fold_opt_append: "fold_opt f (xs @ ys) s = Option.bind (fold_opt f xs s) (fold_opt f ys)"
  by (induction xs arbitrary: s) (simp_all split: bind_split)

lemma refines_fold:
  assumes "\<And>x s y. x \<in> set xs \<Longrightarrow> S s y \<Longrightarrow> refines S (f x s) (g x y)" "S s y"
  shows "refines S (fold_res f xs s) (fold_opt g xs y)"
  using assms
proof (induction xs arbitrary: s y)
  case (Cons x xs)
  have "refines S (f x s) (g x y)" using Cons.prems by simp
  then show ?case using Cons.IH Cons.prems(1) by (auto intro: refines_bind)
qed simp

section \<open>Facts\<close>

record page_facts =
  pf_entries :: "relative_path \<rightharpoonup> stored_entry"
  pf_headers :: "relative_path \<rightharpoonup> stored_header"

definition no_facts :: page_facts where
  "no_facts = \<lparr>pf_entries = Map.empty, pf_headers = Map.empty\<rparr>"

definition set_entry :: "stored_entry \<Rightarrow> page_facts \<Rightarrow> page_facts" where
  "set_entry e F = F\<lparr>pf_entries := (pf_entries F)(st_path e \<mapsto> e)\<rparr>"

definition set_header :: "relative_path \<Rightarrow> stored_header \<Rightarrow> page_facts \<Rightarrow> page_facts" where
  "set_header p h F = F\<lparr>pf_headers := (pf_headers F)(p \<mapsto> h)\<rparr>"

definition guard_opt :: "bool \<Rightarrow> 'a \<Rightarrow> 'a option" where
  "guard_opt b x = (if b then Some x else None)"

definition fact_path :: "path_observation \<Rightarrow> page_facts \<Rightarrow> page_facts option" where
  "fact_path ob F =
     (let n = length (key_bytes (butlast (po_path ob))) in
      guard_opt (po_path ob \<noteq> [] \<and> n < 2 ^ 32 \<and> pf_entries F (po_path ob) = None)
        (set_entry (st_from_observation ob (of_nat n)) F))"

definition fact_identity :: "identity_observation \<Rightarrow> page_facts \<Rightarrow> page_facts option" where
  "fact_identity ob F =
     Option.bind (pf_entries F (io_path ob)) (\<lambda>e.
       guard_opt (po_kind (st_observation e) \<noteq> EntryDirectory \<and>
           (st_identity e = None \<or> st_identity e = Some (si_from_observation ob)))
         (set_entry (e\<lparr>st_identity := Some (si_from_observation ob)\<rparr>) F))"

definition fact_summary :: "directory_summary \<Rightarrow> page_facts \<Rightarrow> page_facts option" where
  "fact_summary y F =
     (let F' = set_header (ds_path y) \<lparr>sh_header_metrics = ds_metrics y, sh_header_coverage = ds_coverage y, sh_header_shared = None\<rparr> F in
      if pf_headers F (ds_path y) \<noteq> None then None
      else if ds_path y = [] then Some F'
      else Option.bind (pf_entries F (ds_path y)) (\<lambda>e.
        guard_opt (po_kind (st_observation e) = EntryDirectory \<and> \<not> st_directory_summary_seen e)
          (set_entry (e\<lparr>st_metrics := ds_metrics y, st_coverage := ds_coverage y, st_directory_summary_seen := True\<rparr>) F')))"

definition add_contribution :: "summary_metrics \<Rightarrow> allocation_contribution \<Rightarrow> summary_metrics" where
  "add_contribution m c = add_physical m (ac_allocated_bytes c) (ac_reclaimable_bytes c)"

definition charge_header :: "allocation_contribution \<Rightarrow> bool \<Rightarrow> stored_header \<Rightarrow> stored_header" where
  "charge_header c shared h =
     h\<lparr>sh_header_metrics := add_contribution (sh_header_metrics h) c,
       sh_header_shared := (if shared
         then Some (add_contribution (case sh_header_shared h of None \<Rightarrow> sm_default | Some s \<Rightarrow> s) c)
         else sh_header_shared h)\<rparr>"

definition fact_header :: "allocation_contribution \<Rightarrow> bool \<Rightarrow> relative_path \<Rightarrow> page_facts \<Rightarrow> page_facts option" where
  "fact_header c shared p F = Option.bind (pf_headers F p) (\<lambda>h. Some (set_header p (charge_header c shared h) F))"

definition charge_entry :: "allocation_contribution \<Rightarrow> bool \<Rightarrow> stored_entry \<Rightarrow> stored_entry" where
  "charge_entry c leaf e =
     (if leaf then e\<lparr>st_metrics := set_physical (ac_allocated_bytes c) (ac_reclaimable_bytes c) (st_metrics e),
                     st_leaf_allocation_seen := True\<rparr>
      else e\<lparr>st_metrics := add_contribution (st_metrics e) c\<rparr>)"

definition fact_entry :: "allocation_contribution \<Rightarrow> bool \<Rightarrow> relative_path \<Rightarrow> page_facts \<Rightarrow> page_facts option" where
  "fact_entry c leaf p F =
     Option.bind (pf_entries F p) (\<lambda>e.
       guard_opt (leaf \<longleftrightarrow> po_kind (st_observation e) \<noteq> EntryDirectory) (set_entry (charge_entry c leaf e) F))"

fun fact_chain :: "allocation_contribution \<Rightarrow> relative_path \<Rightarrow> os_string list \<Rightarrow> page_facts \<Rightarrow> page_facts option" where
  "fact_chain c p [] F = Some F"
| "fact_chain c p (x # xs) F =
     Option.bind (fact_header c False p F) (\<lambda>F.
     Option.bind (fact_entry c (ac_placement c = PlaceLeaf \<and> xs = []) (p @ [x]) F) (fact_chain c (p @ [x]) xs))"

definition fact_allocation :: "allocation_contribution \<Rightarrow> page_facts \<Rightarrow> page_facts option" where
  "fact_allocation c F =
     Option.bind (fact_chain c [] (ac_recipient c) F) (\<lambda>F.
       if ac_placement c = PlaceShared then fact_header c True (ac_recipient c) F else Some F)"

definition page_facts_of :: "path_observation list \<Rightarrow> identity_observation list \<Rightarrow> directory_summary list \<Rightarrow>
    allocation_contribution list \<Rightarrow> page_facts option" where
  "page_facts_of obs ids sums cons =
     Option.bind (fold_opt fact_path obs no_facts) (\<lambda>F.
     Option.bind (fold_opt fact_identity ids F) (\<lambda>F.
     Option.bind (fold_opt fact_summary sums F) (fold_opt fact_allocation cons)))"

section \<open>Tables that hold facts\<close>

definition index_key :: "relative_path \<Rightarrow> bytes" where
  "index_key p = key_bytes (butlast p) @ 0 # 0 # 1 # last p @ [0]"

definition entry_value :: "stored_entry \<Rightarrow> bytes" where
  "entry_value e = (case encode_stored_entry_into e of Inl _ \<Rightarrow> [] | Inr v \<Rightarrow> v)"

definition good_entry :: "stored_entry \<Rightarrow> bool" where
  "good_entry e \<longleftrightarrow> entry_record e (query_key e, entry_value e)"

definition good_facts :: "page_facts \<Rightarrow> bool" where
  "good_facts F \<longleftrightarrow> (\<forall>p e. pf_entries F p = Some e \<longrightarrow> st_path e = p \<and> good_entry e) \<and>
     (\<forall>p h. pf_headers F p = Some h \<longrightarrow> plain p \<and> header_ok h)"

definition holds :: "(bytes \<rightharpoonup> bytes) \<Rightarrow> page_facts \<Rightarrow> bool" where
  "holds m F \<longleftrightarrow> good_facts F \<and>
     (\<forall>p. plain p \<longrightarrow> p \<noteq> [] \<longrightarrow> m (index_key p) = map_option entry_value (pf_entries F p)) \<and>
     (\<forall>p. plain p \<longrightarrow> m (header_key p) = map_option encode_stored_header_into (pf_headers F p)) \<and>
     (\<forall>k v. m k = Some v \<longrightarrow> (\<exists>p. plain p \<and> p \<noteq> [] \<and> k = index_key p) \<or> (\<exists>p. plain p \<and> k = header_key p))"

lemma index_key_inj:
  assumes "plain p" "plain q" "p \<noteq> []" "q \<noteq> []" "index_key p = index_key q"
  shows "p = q"
proof -
  obtain f c where p: "p = f @ [c]" using assms(3) by (metis append_butlast_last_id)
  obtain g d where q: "q = g @ [d]" using assms(4) by (metis append_butlast_last_id)
  have eq: "key_bytes f @ 0 # 0 # 1 # c @ [0] = key_bytes g @ 0 # 0 # 1 # d @ [0]" using assms(5) by (simp add: index_key_def p q)
  have "f = g \<and> prefix (1 # c @ [0]) (1 # d @ [0])"
    using assms(1,2) by (intro namespace_folder) (simp_all only: p q plain_simps eq prefix_order.refl)
  then show ?thesis using assms(5) by (simp add: index_key_def p q)
qed

lemma header_key_inj: "plain p \<Longrightarrow> plain q \<Longrightarrow> header_key p = header_key q \<Longrightarrow> p = q"
  using namespace_folder [of p q "[0]" "[0]"] by (simp add: header_key_def)

lemma index_header_key:
  assumes "plain p" "plain q" "p \<noteq> []"
  shows "index_key p \<noteq> header_key q"
proof
  assume eq: "index_key p = header_key q"
  obtain f c where p: "p = f @ [c]" using assms(3) by (metis append_butlast_last_id)
  have "key_bytes f @ 0 # 0 # 1 # c @ [0] = key_bytes q @ 0 # 0 # [0]" using eq by (simp add: index_key_def header_key_def p)
  then have "prefix (key_bytes f @ 0 # 0 # 1 # c @ [0]) (key_bytes q @ 0 # 0 # [0])" by (simp only: prefix_order.refl)
  moreover have "plain f" using assms(1) by (simp add: p)
  ultimately show False using namespace_folder [of f q "1 # c @ [0]" "[0]"] assms(2) by simp
qed

lemma good_entryD:
  assumes "good_entry e"
  shows "plain (st_path e)" "st_path e \<noteq> []" "encode_stored_entry_into e = Inr (entry_value e)" "entry_ok e"
    "decode_stored_entry (key_bytes (st_path e)) (entry_value e) = Inr e" "entry_value e \<noteq> []" "hd (entry_value e) = PAGE_ENTRY_VERSION"
    "stored_entry_parent_key_bytes (entry_value e) = Inr (st_parent_key_bytes e)"
    "unat (st_parent_key_bytes e) = length (key_bytes (butlast (st_path e)))"
  using entry_recordD(1,4,6-9) [OF assms [unfolded good_entry_def]] entry_recordD(5) [OF assms [unfolded good_entry_def], of id] assms
  by (simp_all add: good_entry_def entry_record_def)

lemma good_entry_update:
  assumes "good_entry e" "st_observation e' = st_observation e" "st_parent_key_bytes e' = st_parent_key_bytes e" "entry_ok e'"
  shows "good_entry e'" "st_path e' = st_path e"
proof -
  obtain k val where "encode_path_observation_into (st_observation e) = Inr (k, val)"
    using good_entryD(3) [OF assms(1)] by (auto simp: encode_stored_entry_Inr)
  then have "encode_stored_entry_into e' = Inr (entry_bytes e' val)" using assms(2) by (auto simp: encode_stored_entry_Inr)
  then show "st_path e' = st_path e" "good_entry e'"
    using assms by (simp_all add: good_entry_def entry_record_def entry_value_def st_path_def)
qed

lemma holdsD:
  assumes "holds m F"
  shows "plain p \<Longrightarrow> p \<noteq> [] \<Longrightarrow> m (index_key p) = map_option entry_value (pf_entries F p)"
    "plain p \<Longrightarrow> m (header_key p) = map_option encode_stored_header_into (pf_headers F p)"
    "pf_entries F p = Some e \<Longrightarrow> st_path e = p \<and> good_entry e"
    "pf_headers F p = Some h \<Longrightarrow> plain p \<and> header_ok h"
  using assms by (simp_all add: holds_def good_facts_def)

lemma holds_set_entry:
  assumes "holds m F" "good_entry e"
  shows "holds (m(index_key (st_path e) \<mapsto> entry_value e)) (set_entry e F)"
  unfolding holds_def
proof (intro conjI allI impI)
  note e = good_entryD(1,2) [OF assms(2)]
  show "good_facts (set_entry e F)" using assms by (simp add: holds_def good_facts_def set_entry_def)
  show "(m(index_key (st_path e) \<mapsto> entry_value e)) (index_key p) = map_option entry_value (pf_entries (set_entry e F) p)"
    if "plain p" "p \<noteq> []" for p
    using that holdsD(1) [OF assms(1) that] index_key_inj [OF that(1) e(1) that(2) e(2)] by (auto simp: set_entry_def)
  show "(m(index_key (st_path e) \<mapsto> entry_value e)) (header_key p) = map_option encode_stored_header_into (pf_headers (set_entry e F) p)"
    if "plain p" for p
    using that holdsD(2) [OF assms(1) that] index_header_key [OF e(1) that e(2)] by (auto simp: set_entry_def)
  show "(\<exists>p. plain p \<and> p \<noteq> [] \<and> k = index_key p) \<or> (\<exists>p. plain p \<and> k = header_key p)"
    if "(m(index_key (st_path e) \<mapsto> entry_value e)) k = Some v" for k v
    using that e assms(1) by (auto simp: holds_def split: if_splits)
qed

lemma holds_set_header:
  assumes "holds m F" "plain q" "header_ok h"
  shows "holds (m(header_key q \<mapsto> encode_stored_header_into h)) (set_header q h F)"
  unfolding holds_def
proof (intro conjI allI impI)
  show "good_facts (set_header q h F)" using assms by (simp add: holds_def good_facts_def set_header_def)
  show "(m(header_key q \<mapsto> encode_stored_header_into h)) (index_key p) = map_option entry_value (pf_entries (set_header q h F) p)"
    if "plain p" "p \<noteq> []" for p
    using that holdsD(1) [OF assms(1) that] index_header_key [OF that(1) assms(2) that(2)] by (auto simp: set_header_def)
  show "(m(header_key q \<mapsto> encode_stored_header_into h)) (header_key p) = map_option encode_stored_header_into (pf_headers (set_header q h F) p)"
    if "plain p" for p
    using that holdsD(2) [OF assms(1) that] header_key_inj [OF that assms(2)] by (auto simp: set_header_def)
  show "(\<exists>p. plain p \<and> p \<noteq> [] \<and> k = index_key p) \<or> (\<exists>p. plain p \<and> k = header_key p)"
    if "(m(header_key q \<mapsto> encode_stored_header_into h)) k = Some v" for k v
    using that assms by (auto simp: holds_def split: if_splits)
qed

definition facts_in :: "(page_table \<Rightarrow> bytes \<rightharpoonup> bytes) \<Rightarrow> page_facts \<Rightarrow> bool" where
  "facts_in tabs F \<longleftrightarrow> holds (tabs PAGE_INDEX_RECORDS) F \<and> tabs PAGE_QUERY_RECORDS = Map.empty"

abbreviation facts_of :: "('s \<Rightarrow> page_table \<Rightarrow> bytes \<rightharpoonup> bytes) \<Rightarrow> 's \<Rightarrow> page_facts \<Rightarrow> bool" where
  "facts_of A \<equiv> (\<lambda>s. facts_in (A s))"

lemma facts_holds: "facts_in tabs F \<Longrightarrow> holds (tabs PAGE_INDEX_RECORDS) F"
  by (simp add: facts_in_def)

section \<open>Single records\<close>

lemma relative_parent_eq: "relative_parent p = (if p = [] then None else Some (butlast p))"
  by (simp add: relative_parent_def is_root_def depth_def butlast_conv_take)

lemma encode_key_plain: "plain p \<Longrightarrow> encode_path_key_into p [] = Inr (key_bytes p)"
  using encode_path_key_eq [of p] by (simp add: plain_def encode_path_key_def)

lemma header_key_plain: "plain p \<Longrightarrow> page_header_key_into p = Inr (header_key p)"
  by (simp add: page_header_key_into_def encode_key_plain header_key_def PAGE_RECORD_NAMESPACE_def PAGE_HEADER_TAG_def)

lemma entry_keys_plain:
  assumes "plain p" "p \<noteq> []"
  shows "(entry_keys (butlast p) p :: (('os, 'x) build_error, _) res) = Inr (index_key p, key_bytes p)"
proof -
  obtain f c where p: "p = f @ [c]" using assms(2) by (metis append_butlast_last_id)
  with assms show ?thesis
    by (simp add: entry_keys_def page_entry_key_into_def child_suffix_of_def encode_key_plain slice_from_def index_key_def
        PAGE_RECORD_NAMESPACE_def PAGE_ENTRY_TAG_def)
qed

lemma read_entry_refines:
  assumes "redb_laws ops D T R" "facts_in (T t) F" "plain p" "p \<noteq> []"
  shows "refines (=) (read_entry ops (index_key p) (key_bytes p) t :: (('os, 'x) build_error, _) res) (pf_entries F p)"
  unfolding read_entry_def
proof (rule refines_database)
  fix found assume "rb_get ops PAGE_INDEX_RECORDS (index_key p) t = Inr found"
  then have found: "found = map_option entry_value (pf_entries F p)"
    using redb_lawsD(5) [OF assms(1)] holdsD(1) [OF facts_holds [OF assms(2)] assms(3,4)] by auto
  have "pf_entries F p = Some e \<Longrightarrow> decode_stored_entry (key_bytes p) (entry_value e) = Inr e" for e
    using holdsD(3) [OF facts_holds [OF assms(2)], of p e] good_entryD(5) [of e] by auto
  then show "refines (=) (res_bind (ok_or found MissingEntry) (\<lambda>existing. map_err IndexRecord (decode_stored_entry (key_bytes p) existing)) ::
      (('os, 'x) build_error, _) res) (pf_entries F p)"
    by (cases "pf_entries F p") (simp_all add: found)
qed

lemma write_entry_refines:
  assumes "redb_laws ops D T R" "facts_in (T t) F" "good_entry e" "p = st_path e"
  shows "refines (facts_of T) (write_entry ops (index_key p) e t :: (('os, 'x) build_error, _) res) (Some (set_entry e F))"
proof -
  have "refines (facts_of T) (res_bind (database_error (rb_insert ops PAGE_INDEX_RECORDS (index_key p) (entry_value e) t))
      (\<lambda>(_, t). Inr t) :: (('os, 'x) build_error, _) res) (Some (set_entry e F))"
  proof (rule refines_database, clarify)
    fix old t' assume "rb_insert ops PAGE_INDEX_RECORDS (index_key p) (entry_value e) t = Inr (old, t')"
    from redb_lawsD(6) [OF assms(1) this] holds_set_entry [of _ F e] assms(2-4)
    show "refines (facts_of T) (Inr t' :: (('os, 'x) build_error, _) res) (Some (set_entry e F))"
      by (simp add: facts_in_def)
  qed
  then show ?thesis using good_entryD(3) [OF assms(3)] by (simp add: write_entry_def)
qed

lemma update_entry_refines:
  assumes "redb_laws ops D T R" "facts_in (T t) F" "plain p" "p \<noteq> []"
    and "\<And>e. pf_entries F p = Some e \<Longrightarrow> good_entry e \<Longrightarrow> st_path e = p \<Longrightarrow> refines (facts_of T) (f e) (g e)"
  shows "refines (facts_of T) (res_bind (read_entry ops (index_key p) (key_bytes p) t) f :: (('os, 'x) build_error, _) res)
    (Option.bind (pf_entries F p) g)"
proof -
  have "refines (\<lambda>e e'. e = e' \<and> pf_entries F p = Some e) (read_entry ops (index_key p) (key_bytes p) t :: (('os, 'x) build_error, _) res)
      (pf_entries F p)"
    using read_entry_refines [where 'os = 'os, OF assms(1-4)] by (auto simp: refines_def)
  then show ?thesis
  proof (rule refines_bind)
    fix e e' assume "e = e' \<and> pf_entries F p = Some e"
    moreover from this have "st_path e = p \<and> good_entry e" using holdsD(3) [OF facts_holds [OF assms(2)], of p e] by blast
    ultimately show "refines (facts_of T) (f e) (g e')" using assms(5) by auto
  qed
qed

section \<open>Facts refine\<close>

definition observation_good :: "path_observation \<Rightarrow> bool" where
  "observation_good ob \<longleftrightarrow> (\<exists>kv. observation_record ob kv)"

lemma observation_plain: "observation_good ob \<Longrightarrow> plain (po_path ob)"
  by (auto simp: observation_good_def observation_record_def plain_def encode_observation_Inr)

lemma good_from_observation:
  assumes "observation_good ob" "po_path ob \<noteq> []" "length (key_bytes (butlast (po_path ob))) < 2 ^ 32"
  shows "good_entry (st_from_observation ob (of_nat (length (key_bytes (butlast (po_path ob))))))"
    "st_path (st_from_observation ob n) = po_path ob"
proof -
  let ?e = "st_from_observation ob (of_nat (length (key_bytes (butlast (po_path ob)))))"
  show path: "st_path (st_from_observation ob n) = po_path ob" for n by (simp add: st_path_def st_from_observation_def Let_def)
  obtain k v where kv: "encode_path_observation_into ob = Inr (k, v)" "relative_path_ok (po_path ob)" "metrics_ok (po_metrics ob)"
    using assms(1) by (auto simp: observation_good_def observation_record_def)
  then have "encode_stored_entry_into ?e = Inr (entry_bytes ?e v)"
    unfolding encode_stored_entry_Inr by (auto simp: st_from_observation_def Let_def)
  moreover have "entry_ok ?e" using kv(2,3) by (auto simp: entry_ok_def st_from_observation_def Let_def identity_to_encode_def)
  moreover have "st_parent_key_bytes ?e = of_nat (length (key_bytes (butlast (po_path ob))))"
    by (simp add: st_from_observation_def Let_def)
  ultimately show "good_entry ?e"
    unfolding good_entry_def entry_record_def path using assms(2,3) by (simp add: unat_of_nat entry_value_def)
qed

lemma index_path_refines:
  assumes "redb_laws ops D T R" "facts_in (T t) F" "observation_good ob"
  shows "refines (facts_of T) (index_path_record ops ob t :: (('os, 'x) build_error, _) res) (fact_path ob F)"
proof (cases "po_path ob = []")
  case True
  then show ?thesis by (simp add: index_path_record_def relative_parent_eq fact_path_def guard_opt_def)
next
  case False
  let ?p = "po_path ob" and ?n = "length (key_bytes (butlast (po_path ob)))"
  obtain f c where p: "?p = f @ [c]" using False by (metis append_butlast_last_id)
  have pl: "plain ?p" "plain f" using observation_plain [OF assms(3)] by (simp_all add: p)
  show ?thesis
  proof (cases "?n < 2 ^ 32")
    case n: True
    let ?e = "st_from_observation ob (of_nat ?n)"
    note g = good_from_observation [OF assms(3) False n]
    have key: "page_entry_key_from_encoded (key_bytes f) (c @ [0]) = index_key ?p"
      by (simp add: index_key_def p page_entry_key_from_encoded_def page_entry_prefix_from_encoded_def PAGE_RECORD_NAMESPACE_def
          PAGE_ENTRY_TAG_def)
    have eq: "index_path_record ops ob t =
        res_bind (database_error (rb_insert ops PAGE_INDEX_RECORDS (index_key ?p) (entry_value ?e) t))
          (\<lambda>(old, t). if old \<noteq> None then Inl DuplicateRecord else Inr t)"
      using n pl good_entryD(3) [OF g(1)]
      by (simp add: index_path_record_def relative_parent_eq p encode_key_plain u32_of_len_def slice_from_def key [unfolded p])
    show ?thesis unfolding eq
    proof (rule refines_database, clarify)
      fix old t' assume "rb_insert ops PAGE_INDEX_RECORDS (index_key ?p) (entry_value ?e) t = Inr (old, t')"
      from redb_lawsD(6) [OF assms(1) this] have i: "old = map_option entry_value (pf_entries F ?p)"
        "T t' = (T t)(PAGE_INDEX_RECORDS := (T t PAGE_INDEX_RECORDS)(index_key ?p \<mapsto> entry_value ?e))"
        using holdsD(1) [OF facts_holds [OF assms(2)] pl(1) False] by simp_all
      have "facts_in (T t') (set_entry ?e F)"
        using holds_set_entry [of "T t PAGE_INDEX_RECORDS" F ?e] assms(2) g by (simp add: facts_in_def i(2))
      then show "refines (facts_of T) (if old \<noteq> None then Inl DuplicateRecord else Inr t' :: (('os, 'x) build_error, _) res) (fact_path ob F)"
        using False n by (simp add: fact_path_def guard_opt_def Let_def i(1))
    qed
  next
    case False
    with pl p show ?thesis
      by (simp add: index_path_record_def relative_parent_eq encode_key_plain u32_of_len_def fact_path_def guard_opt_def)
  qed
qed

lemma index_identity_refines:
  assumes "redb_laws ops D T R" "facts_in (T t) F" "identity_ok ob" "relative_path_ok (io_path ob)"
  shows "refines (facts_of T) (index_identity_record ops ob t :: (('os, 'x) build_error, _) res) (fact_identity ob F)"
proof -
  have p: "plain (io_path ob)" "io_path ob \<noteq> []" using assms(3,4) by (simp_all add: identity_ok_def plain_def)
  note keys = entry_keys_plain [where 'os = 'os and 'x = 'x, OF p]
  show ?thesis
    unfolding index_identity_record_def fact_identity_def relative_parent_eq if_not_P [OF p(2)] keys ok_or_simps res_bind_simps
      prod.case Let_def
  proof (rule update_entry_refines [OF assms(1,2) p])
    fix e assume e: "pf_entries F (io_path ob) = Some e" "good_entry e" "st_path e = io_path ob"
    let ?i = "si_from_observation ob" and ?e = "e\<lparr>st_identity := Some (si_from_observation ob)\<rparr>"
    have "stored_identity_ok ?i" using assms(3) by (simp add: stored_identity_ok_def si_from_observation_def identity_ok_def)
    then have "entry_ok ?e" using good_entryD(4) [OF e(2)] by (auto simp: entry_ok_def identity_to_encode_def)
    then have "good_entry ?e" "st_path ?e = io_path ob" using good_entry_update [OF e(2), of ?e] e(3) by simp_all
    then have "refines (facts_of T) (write_entry ops (index_key (io_path ob)) ?e t :: (('os, 'x) build_error, _) res) (Some (set_entry ?e F))"
      using write_entry_refines [where 'os = 'os and p = "io_path ob", OF assms(1,2), of ?e] by simp
    then show "refines (facts_of T)
        (if po_kind (st_observation e) = EntryDirectory then Inl IdentityForDirectory
         else if case st_identity e of None \<Rightarrow> False | Some existing \<Rightarrow> existing \<noteq> ?i then Inl DuplicateRecord
         else write_entry ops (index_key (io_path ob)) ?e t :: (('os, 'x) build_error, _) res)
        (guard_opt (po_kind (st_observation e) \<noteq> EntryDirectory \<and> (st_identity e = None \<or> st_identity e = Some ?i)) (set_entry ?e F))"
      by (auto simp: guard_opt_def split: option.split)
  qed
qed

lemma set_header_facts:
  assumes "redb_laws ops D T R" "facts_in (T t) F" "plain p" "header_ok h"
    "rb_insert ops PAGE_INDEX_RECORDS (header_key p) (encode_stored_header_into h) t = Inr (old, t')"
  shows "facts_in (T t') (set_header p h F)" "old = None \<longleftrightarrow> pf_headers F p = None"
  using redb_lawsD(6) [OF assms(1,5)] holds_set_header [OF facts_holds [OF assms(2)] assms(3,4)]
    holdsD(2) [OF facts_holds [OF assms(2)] assms(3)] assms(2)
  by (simp_all add: facts_in_def)

lemma entry_ok_metrics: "entry_ok e \<Longrightarrow> metrics_ok m \<Longrightarrow> entry_ok (e\<lparr>st_metrics := m\<rparr>)"
  by (auto simp: entry_ok_def identity_to_encode_def split: if_splits)

lemma entry_ok_flags [simp]:
  "entry_ok (e\<lparr>st_coverage := c\<rparr>) = entry_ok e" "entry_ok (e\<lparr>st_directory_summary_seen := b\<rparr>) = entry_ok e"
  "entry_ok (e\<lparr>st_leaf_allocation_seen := b\<rparr>) = entry_ok e"
  by (simp_all add: entry_ok_def identity_to_encode_def)

definition summary_good :: "directory_summary \<Rightarrow> bool" where
  "summary_good y \<longleftrightarrow> plain (ds_path y) \<and> metrics_ok (ds_metrics y)"

lemma index_summary_entry_refines:
  assumes "redb_laws ops D T R" "facts_in (T t) F" "summary_good y"
  shows "refines (facts_of T) (index_summary_entry ops y t :: (('os, 'x) build_error, _) res)
    (if ds_path y = [] then Some F else Option.bind (pf_entries F (ds_path y)) (\<lambda>e.
       guard_opt (po_kind (st_observation e) = EntryDirectory \<and> \<not> st_directory_summary_seen e)
         (set_entry (e\<lparr>st_metrics := ds_metrics y, st_coverage := ds_coverage y, st_directory_summary_seen := True\<rparr>) F)))"
proof (cases "ds_path y = []")
  case True
  then show ?thesis using assms(2) by (simp add: index_summary_entry_def relative_parent_eq)
next
  case False
  let ?p = "ds_path y"
  have p: "plain ?p" using assms(3) by (simp add: summary_good_def)
  note keys = entry_keys_plain [where 'os = 'os and 'x = 'x, OF p False]
  show ?thesis
    unfolding index_summary_entry_def relative_parent_eq if_not_P [OF False] option.case keys res_bind_simps prod.case
  proof (rule update_entry_refines [OF assms(1,2) p False])
    fix e assume e: "pf_entries F ?p = Some e" "good_entry e" "st_path e = ?p"
    let ?e = "e\<lparr>st_metrics := ds_metrics y, st_coverage := ds_coverage y, st_directory_summary_seen := True\<rparr>"
    have "entry_ok ?e"
      using entry_ok_metrics [OF good_entryD(4) [OF e(2)], of "ds_metrics y"] assms(3) by (simp add: summary_good_def)
    then have "good_entry ?e" "st_path ?e = ?p" using good_entry_update [OF e(2), of ?e] e(3) by simp_all
    then have "refines (facts_of T) (write_entry ops (index_key ?p) ?e t :: (('os, 'x) build_error, _) res) (Some (set_entry ?e F))"
      using write_entry_refines [where 'os = 'os and p = ?p, OF assms(1,2), of ?e] by simp
    then show "refines (facts_of T) (if po_kind (st_observation e) \<noteq> EntryDirectory then Inl SummaryForNonDirectory
        else if st_directory_summary_seen e then Inl DuplicateRecord else write_entry ops (index_key ?p) ?e t ::
          (('os, 'x) build_error, _) res)
        (guard_opt (po_kind (st_observation e) = EntryDirectory \<and> \<not> st_directory_summary_seen e) (set_entry ?e F))"
      by (simp add: guard_opt_def)
  qed
qed

lemma index_summary_refines:
  assumes "redb_laws ops D T R" "facts_in (T t) F" "summary_good y"
  shows "refines (facts_of T) (index_summary_record ops y t :: (('os, 'x) build_error, _) res) (fact_summary y F)"
proof -
  let ?p = "ds_path y" and ?h = "\<lparr>sh_header_metrics = ds_metrics y, sh_header_coverage = ds_coverage y, sh_header_shared = None\<rparr>"
  have p: "plain ?p" and h: "header_ok ?h" using assms(3) by (simp_all add: summary_good_def header_ok_def)
  show ?thesis unfolding index_summary_record_def header_key_plain [OF p] map_err_simps res_bind_simps Let_def
  proof (rule refines_database, clarify)
    fix old t' assume "rb_insert ops PAGE_INDEX_RECORDS (header_key ?p) (encode_stored_header_into ?h) t = Inr (old, t')"
    note t' = set_header_facts [OF assms(1,2) p h this]
    have "pf_entries (set_header ?p ?h F) ?p = pf_entries F ?p" by (simp add: set_header_def)
    with index_summary_entry_refines [where 'os = 'os, OF assms(1) t'(1) assms(3)] t'(2)
    show "refines (facts_of T) (if old \<noteq> None then Inl DuplicateRecord else index_summary_entry ops y t' :: (('os, 'x) build_error, _) res)
        (fact_summary y F)"
      by (cases "pf_headers F ?p"; cases "?p = []") (simp_all add: fact_summary_def)
  qed
qed

lemma metrics_ok_add_contribution: "contribution_ok c \<Longrightarrow> metrics_ok m \<Longrightarrow> metrics_ok (add_contribution m c)"
  by (simp add: contribution_ok_def metrics_ok_def add_contribution_def add_physical_def bounds_ok_bb_add)

lemma add_contribution_sizes [simp]:
  "sm_apparent_bytes (add_contribution m c) = sm_apparent_bytes m" "sm_descendants (add_contribution m c) = sm_descendants m"
  by (simp_all add: add_contribution_def add_physical_def)

lemma header_ok_charge:
  assumes "contribution_ok c" "header_ok h"
  shows "header_ok (charge_header c shared h)"
proof -
  have "metrics_ok sm_default" "sm_apparent_bytes sm_default = 0" "sm_descendants sm_default = 0" by (simp_all add: metrics_ok_def sm_default_def)
  then show ?thesis using assms metrics_ok_add_contribution [OF assms(1)]
    by (auto simp: header_ok_def charge_header_def split: option.splits)
qed

lemma update_header_refines:
  assumes "redb_laws ops D T R" "facts_in (T t) F" "contribution_ok c" "plain p"
  shows "refines (facts_of T) (update_header_physical ops (header_key p) c shared t :: (('os, 'x) build_error, _) res)
    (fact_header c shared p F)"
  unfolding update_header_physical_def
proof (rule refines_database)
  fix found assume "rb_get ops PAGE_INDEX_RECORDS (header_key p) t = Inr found"
  then have found: "found = map_option encode_stored_header_into (pf_headers F p)"
    using redb_lawsD(5) [OF assms(1)] holdsD(2) [OF facts_holds [OF assms(2)] assms(4)] by auto
  show "refines (facts_of T) (res_bind (ok_or found MissingHeader) (\<lambda>existing.
     res_bind (map_err IndexRecord (decode_stored_header existing)) (\<lambda>header.
     let header = header\<lparr>sh_header_metrics :=
           add_physical (sh_header_metrics header) (ac_allocated_bytes c) (ac_reclaimable_bytes c)\<rparr>;
         header = (if shared
           then header\<lparr>sh_header_shared := Some (add_physical
             (case sh_header_shared header of None \<Rightarrow> sm_default | Some shared \<Rightarrow> shared)
             (ac_allocated_bytes c) (ac_reclaimable_bytes c))\<rparr>
           else header) in
     res_bind (database_error (rb_insert ops PAGE_INDEX_RECORDS (header_key p) (encode_stored_header_into header) t))
       (\<lambda>(_, t). Inr t))) :: (('os, 'x) build_error, _) res) (fact_header c shared p F)"
  proof (cases "pf_headers F p")
    case None
    then show ?thesis by (simp add: found fact_header_def)
  next
    case (Some h)
    then have h: "header_ok h" using holdsD(4) [OF facts_holds [OF assms(2)]] by blast
    have "refines (facts_of T) (res_bind (database_error (rb_insert ops PAGE_INDEX_RECORDS (header_key p)
        (encode_stored_header_into (charge_header c shared h)) t)) (\<lambda>(_, t). Inr t) :: (('os, 'x) build_error, _) res)
        (Some (set_header p (charge_header c shared h) F))"
    proof (rule refines_database, clarify)
      fix old t' assume "rb_insert ops PAGE_INDEX_RECORDS (header_key p) (encode_stored_header_into (charge_header c shared h)) t = Inr (old, t')"
      from set_header_facts(1) [OF assms(1,2,4) header_ok_charge [OF assms(3) h] this]
      show "refines (facts_of T) (Inr t' :: (('os, 'x) build_error, _) res) (Some (set_header p (charge_header c shared h) F))" by simp
    qed
    then show ?thesis using Some decode_encode_header [OF h]
      by (cases shared) (simp_all add: found fact_header_def charge_header_def add_contribution_def)
  qed
qed

lemma metrics_ok_set_physical: "contribution_ok c \<Longrightarrow> metrics_ok m \<Longrightarrow> metrics_ok (set_physical (ac_allocated_bytes c) (ac_reclaimable_bytes c) m)"
  by (simp add: contribution_ok_def metrics_ok_def set_physical_def)

lemma good_entry_charge:
  assumes "good_entry e" "contribution_ok c"
  shows "good_entry (charge_entry c leaf e)" "st_path (charge_entry c leaf e) = st_path e"
proof -
  note ok = good_entryD(4) [OF assms(1)]
  then have m: "metrics_ok (st_metrics e)" by (simp add: entry_ok_def)
  have "entry_ok (charge_entry c leaf e)"
    using entry_ok_metrics [OF ok metrics_ok_set_physical [OF assms(2) m]] entry_ok_metrics [OF ok metrics_ok_add_contribution [OF assms(2) m]]
    by (simp add: charge_entry_def)
  then show "good_entry (charge_entry c leaf e)" "st_path (charge_entry c leaf e) = st_path e"
    using good_entry_update [OF assms(1), of "charge_entry c leaf e"] by (simp_all add: charge_entry_def split: if_splits)
qed

lemma update_entry_physical_refines:
  assumes "redb_laws ops D T R" "facts_in (T t) F" "contribution_ok c" "plain p" "p \<noteq> []"
  shows "refines (facts_of T) (update_entry_physical ops (index_key p) (key_bytes p) c leaf t :: (('os, 'x) build_error, _) res)
    (fact_entry c leaf p F)"
  unfolding update_entry_physical_def fact_entry_def
proof (rule update_entry_refines [OF assms(1,2,4,5)])
  fix e assume e: "pf_entries F p = Some e" "good_entry e" "st_path e = p"
  have w: "refines (facts_of T) (write_entry ops (index_key p) (charge_entry c leaf e) t :: (('os, 'x) build_error, _) res)
      (Some (set_entry (charge_entry c leaf e) F))" for leaf
    using write_entry_refines [where 'os = 'os and p = p, OF assms(1,2), of "charge_entry c leaf e"]
      good_entry_charge [OF e(2) assms(3)] e(3) by simp
  show "refines (facts_of T) (if leaf then
       if po_kind (st_observation e) = EntryDirectory then Inl InvalidAllocationTarget
       else write_entry ops (index_key p)
         (e\<lparr>st_metrics := set_physical (ac_allocated_bytes c) (ac_reclaimable_bytes c) (st_metrics e), st_leaf_allocation_seen := True\<rparr>) t
     else
       if po_kind (st_observation e) \<noteq> EntryDirectory then Inl InvalidAllocationTarget
       else write_entry ops (index_key p)
         (e\<lparr>st_metrics := add_physical (st_metrics e) (ac_allocated_bytes c) (ac_reclaimable_bytes c)\<rparr>) t :: (('os, 'x) build_error, _) res)
     (guard_opt (leaf \<longleftrightarrow> po_kind (st_observation e) \<noteq> EntryDirectory) (set_entry (charge_entry c leaf e) F))"
    using w [of True] w [of False] by (simp add: guard_opt_def charge_entry_def add_contribution_def)
qed

lemma allocation_loop_refines:
  assumes "redb_laws ops D T R" "contribution_ok c" "plain (p @ xs)" "ac_recipient c = p @ xs" "index = length p"
    "length (ac_recipient c) < 2 ^ 64" "facts_in (T t) F"
  shows "refines (\<lambda>s F. fst s = key_bytes (p @ xs) \<and> facts_in (T (snd s)) F)
    (apply_allocation_loop ops c index xs (key_bytes p) t :: (('os, 'x) build_error, _) res) (fact_chain c p xs F)"
  using assms(3-7)
proof (induction xs arbitrary: p index t F)
  case (Cons x xs)
  let ?q = "p @ [x]"
  have q: "plain ?q" "plain p" "?q \<noteq> []" "0 \<notin> set x" using Cons.prems(1) by simp_all
  have leaf: "usize_sat_add index 1 = depth (ac_recipient c) \<longleftrightarrow> xs = []"
    using Cons.prems(2,3,4) by (auto simp: usize_sat_add_def depth_def)
  have keys: "page_header_key_from_encoded (key_bytes p) = header_key p"
    "page_entry_key_from_encoded (key_bytes p) (x @ [0]) = index_key ?q" "key_bytes p @ x @ [0] = key_bytes ?q"
    by (simp_all add: page_header_key_from_encoded_def header_key_def page_entry_key_from_encoded_def page_entry_prefix_from_encoded_def
        index_key_def PAGE_RECORD_NAMESPACE_def PAGE_ENTRY_TAG_def PAGE_HEADER_TAG_def)
  have comp: "append_path_component_key x [] = Inr (x @ [0])" using q(4) by (simp add: append_path_component_key_def)
  have IH: "refines (\<lambda>s F. fst s = key_bytes (p @ x # xs) \<and> facts_in (T (snd s)) F)
      (apply_allocation_loop ops c (index + 1) xs (key_bytes ?q) t :: (('os, 'x) build_error, _) res) (fact_chain c ?q xs F)"
    if "facts_in (T t) F" for t F
    using Cons.IH [of ?q "index + 1" t F] Cons.prems(1-4) that by simp
  show ?case
    unfolding apply_allocation_loop.simps fact_chain.simps comp keys map_err_simps res_bind_simps Let_def leaf
    by (intro refines_bind [OF update_header_refines [OF assms(1) Cons.prems(5) assms(2) q(2)]]
        refines_bind [OF update_entry_physical_refines [OF assms(1) _ assms(2) q(1,3)]] IH)
qed simp

definition contribution_good :: "allocation_contribution \<Rightarrow> bool" where
  "contribution_good c \<longleftrightarrow> contribution_ok c \<and> plain (ac_recipient c)"

lemma apply_allocation_refines:
  assumes "redb_laws ops D T R" "facts_in (T t) F" "contribution_good c"
  shows "refines (facts_of T) (apply_allocation ops c t :: (('os, 'x) build_error, _) res) (fact_allocation c F)"
proof -
  have c: "contribution_ok c" "plain (ac_recipient c)" using assms(3) by (simp_all add: contribution_good_def)
  have len: "length (ac_recipient c) < 2 ^ 64"
    using c(1) length_key_bytes_ge [of "ac_recipient c"] by (simp add: contribution_ok_def)
  have key: "page_header_key_from_encoded (key_bytes p) = header_key p" for p
    by (simp add: page_header_key_from_encoded_def header_key_def PAGE_RECORD_NAMESPACE_def PAGE_HEADER_TAG_def)
  have "refines (\<lambda>s F. fst s = key_bytes (ac_recipient c) \<and> facts_in (T (snd s)) F)
      (apply_allocation_loop ops c 0 (ac_recipient c) [] t :: (('os, 'x) build_error, _) res) (fact_chain c [] (ac_recipient c) F)"
    using allocation_loop_refines [where 'os = 'os and p = "[]" and xs = "ac_recipient c" and index = 0, OF assms(1) c(1) _ _ _ len assms(2)] c(2)
    by simp
  then show ?thesis unfolding apply_allocation_def fact_allocation_def
  proof (rule refines_bind)
    fix s F assume s: "fst s = key_bytes (ac_recipient c) \<and> facts_in (T (snd s)) F"
    obtain k t where kt: "s = (k, t)" by (cases s)
    with s have "facts_in (T t) F" by simp
    from update_header_refines [where 'os = 'os and shared = True, OF assms(1) this c] s
    show "refines (facts_of T) ((case s of (folder_key, t) \<Rightarrow> (if ac_placement c = PlaceShared
        then update_header_physical ops (page_header_key_from_encoded folder_key) c True t else Inr t)) :: (('os, 'x) build_error, _) res)
        (if ac_placement c = PlaceShared then fact_header c True (ac_recipient c) F else Some F)"
      by (simp add: kt key)
  qed
qed

section \<open>Passes over the fact runs\<close>

lemma begin_write_refines:
  assumes "redb_laws ops D T R" "\<And>t. T t = D d \<Longrightarrow> refines S (f t) a"
  shows "refines S (res_bind (begin_ephemeral_write ops d) f :: (('os, 'x) build_error, _) res) a"
proof -
  have "refines S (res_bind (database_error (rb_begin_write ops d)) (\<lambda>t. res_bind (database_error (rb_set_durability_none ops t)) f)) a"
  proof (intro refines_database)
    fix t t' assume "rb_begin_write ops d = Inr t" "rb_set_durability_none ops t = Inr t'"
    then have "T t' = D d" using redb_lawsD(2,3) [OF assms(1)] by metis
    then show "refines S (f t') a" by (rule assms(2))
  qed
  moreover have "res_bind (begin_ephemeral_write ops d) f =
      res_bind (database_error (rb_begin_write ops d)) (\<lambda>t. res_bind (database_error (rb_set_durability_none ops t)) f)"
    by (cases "rb_begin_write ops d") (simp_all add: begin_ephemeral_write_def)
  ultimately show ?thesis by simp
qed

lemma flush_refines:
  assumes "redb_laws ops D T R" "facts_in (D d) F"
    and "\<And>x t F. x \<in> set batch \<Longrightarrow> facts_in (T t) F \<Longrightarrow> refines (facts_of T) (step x t) (g x F)"
  shows "refines (facts_of D) (flush_batch ops step batch d :: (('os, 'x) build_error, _) res) (fold_opt g batch F)"
proof (cases "batch = []")
  case True
  then show ?thesis using assms(2) by (simp add: flush_batch_def)
next
  case False
  show ?thesis unfolding flush_batch_def if_not_P [OF False]
  proof (rule begin_write_refines [OF assms(1)], rule refines_database)
    fix t t' assume "T t = D d" "rb_open_table ops PAGE_INDEX_RECORDS t = Inr t'"
    then have "facts_in (T t') F" using redb_lawsD(4) [OF assms(1)] assms(2) by metis
    with refines_fold [where S = "facts_of T" and f = step and g = g and xs = batch, OF assms(3)]
    have "refines (facts_of T) (fold_res step batch t') (fold_opt g batch F)" by blast
    then have "refines (facts_of D) (res_bind (fold_res step batch t') (\<lambda>t. database_error (rb_commit ops t)))
        (Option.bind (fold_opt g batch F) Some)"
      by (rule refines_bind) (rule refines_database_last, use redb_lawsD(8) [OF assms(1)] in metis)
    then show "refines (facts_of D) (res_bind (fold_res step batch t') (\<lambda>t. database_error (rb_commit ops t))) (fold_opt g batch F)" by simp
  qed
qed

text \<open>The facts of a run, when every record of it decodes.\<close>

fun decode_all :: "(bytes \<Rightarrow> bytes \<Rightarrow> ('e, 'a) res) \<Rightarrow> run_record list \<Rightarrow> 'a list option" where
  "decode_all decode [] = Some []"
| "decode_all decode (kv # kvs) =
     (case decode (fst kv) (snd kv) of Inl e \<Rightarrow> None | Inr x \<Rightarrow> map_option ((#) x) (decode_all decode kvs))"

lemma batch_step_eq:
  "batch_step decode flush k v (batch, d) =
     res_bind (decode k v) (\<lambda>x. if length (batch @ [x]) = PAGE_INDEX_BATCH
       then res_bind (flush (batch @ [x]) d) (\<lambda>d. Inr ([], d)) else Inr (batch @ [x], d))"
  by (simp add: batch_step_def Let_def)

lemma decode_all_fails:
  assumes "decode_all decode kvs = None"
  shows "\<exists>e. visit_all (batch_step decode flush) kvs s = Inl e"
  using assms
proof (induction kvs arbitrary: s)
  case (Cons kv kvs)
  obtain batch d where s: "s = (batch, d)" by (cases s)
  show ?case
  proof (cases "batch_step decode flush (fst kv) (snd kv) s")
    case (Inr s')
    then obtain x where "decode (fst kv) (snd kv) = Inr x" unfolding s batch_step_eq by (auto simp: res_bind_Inr_iff)
    then have "decode_all decode kvs = None" using Cons.prems by simp
    then show ?thesis using Cons.IH [of s'] Inr by simp
  qed simp
qed simp

lemma batches_refine:
  assumes flush: "\<And>b d F. set b \<subseteq> X \<Longrightarrow> facts_in (D d) F \<Longrightarrow> refines (facts_of D) (flush b d) (fold_opt g b F)"
    and good: "\<And>k v x. decode k v = Inr x \<Longrightarrow> x \<in> X"
    and "decode_all decode kvs = Some xs" "set batch \<subseteq> X" "facts_in (D d) F"
  shows "refines (facts_of D) (res_bind (visit_all (batch_step decode flush) kvs (batch, d)) (\<lambda>(b, d). flush b d)) (fold_opt g (batch @ xs) F)"
  using assms(3-)
proof (induction kvs arbitrary: xs batch d F)
  case Nil
  then show ?case using flush by simp
next
  case (Cons kv kvs)
  then obtain x ys where xs: "xs = x # ys" "decode (fst kv) (snd kv) = Inr x" "decode_all decode kvs = Some ys"
    by (auto split: sum.splits)
  have sub: "set (batch @ [x]) \<subseteq> X" using Cons.prems(2) good [OF xs(2)] by simp
  have step: "batch_step decode flush (fst kv) (snd kv) (batch, d) =
      (if length (batch @ [x]) = PAGE_INDEX_BATCH then res_bind (flush (batch @ [x]) d) (\<lambda>d. Inr ([], d)) else Inr (batch @ [x], d))"
    by (simp add: batch_step_eq xs(2))
  show ?case
  proof (cases "length (batch @ [x]) = PAGE_INDEX_BATCH")
    case True
    have "refines (facts_of D) (res_bind (flush (batch @ [x]) d) (\<lambda>d. res_bind (visit_all (batch_step decode flush) kvs ([], d)) (\<lambda>(b, d). flush b d)))
        (Option.bind (fold_opt g (batch @ [x]) F) (fold_opt g ys))"
    proof (rule refines_bind [OF flush [OF sub Cons.prems(3)]])
      fix d F assume "facts_in (D d) F"
      from Cons.IH [OF xs(3) _ this, of "[]"]
      show "refines (facts_of D) (res_bind (visit_all (batch_step decode flush) kvs ([], d)) (\<lambda>(b, d). flush b d)) (fold_opt g ys F)" by simp
    qed
    then show ?thesis using True fold_opt_append [of g "batch @ [x]" ys]
      by (cases "flush (batch @ [x]) d") (simp_all add: xs(1) step)
  next
    case False
    then show ?thesis using Cons.IH [OF xs(3) sub Cons.prems(3)] by (simp add: xs(1) step)
  qed
qed

lemma index_facts_refines:
  assumes flush: "\<And>b d F. set b \<subseteq> X \<Longrightarrow> facts_in (D d) F \<Longrightarrow> refines (facts_of D) (flush b d) (fold_opt g b F)"
    and good: "\<And>k v x. decode k v = Inr x \<Longrightarrow> x \<in> X"
    and run: "write_run sha granted desc capacity kvs = Inr run" and sha: "\<And>x. length (sha x) = 32" and running: "\<And>n. running n = None"
    and reopen: "\<And>k. reopen k = None" and d: "facts_in (D d) F"
  shows "refines (facts_of D) (with_reader reopen (index_facts sha running decode flush d) run :: (('os, 'x) build_error, _) res)
    (Option.bind (decode_all decode kvs) (\<lambda>xs. fold_opt g xs F))"
proof -
  obtain r bs N B where r: "rr_open (sr_file run) = (Inr r :: ('os io_error run_error, _) res)" "reader_at sha r [] bs N B" "concat bs = kvs"
    using sealed_run_reader [where ?'io = "'os io_error", OF run] by blast
  from rr_visit_at [where running = running and from_err = "IndexRun :: _ \<Rightarrow> ('os, 'x) build_error", OF r(2) sha running, of "batch_step decode flush" "([], d)"]
  obtain r' where "rr_visit sha running IndexRun (batch_step decode flush) r ([], d) =
    res_bind (visit_all (batch_step decode flush) kvs ([], d)) (\<lambda>s. Inr (s, r'))" using r(3) by auto
  then have eq: "with_reader reopen (index_facts sha running decode flush d) run =
      res_bind (visit_all (batch_step decode flush) kvs ([], d)) (\<lambda>(b, d). flush b d)"
    using r(1) reopen by (cases "visit_all (batch_step decode flush) kvs ([], d)") (simp_all add: with_reader_def index_facts_def split: prod.split)
  show ?thesis
  proof (cases "decode_all decode kvs")
    case None
    then show ?thesis using decode_all_fails [OF None, of flush "([], d)"] by (auto simp: eq)
  next
    case (Some xs)
    then show ?thesis using batches_refine [where batch = "[]", OF flush good Some _ d] by (simp add: eq)
  qed
qed

lemma decode_all_map_err: "decode_all (\<lambda>k v. map_err g (decode k v)) kvs = decode_all decode kvs"
  by (induction kvs) (auto split: sum.split simp: map_err_def)

lemma index_facts_map_err:
  assumes "\<And>b d F. set b \<subseteq> X \<Longrightarrow> facts_in (D d) F \<Longrightarrow> refines (facts_of D) (flush b d) (fold_opt g b F)"
    and "\<And>k v x. decode k v = Inr x \<Longrightarrow> x \<in> X"
    and "write_run sha granted desc capacity kvs = Inr run" and "\<And>x. length (sha x) = 32" and "\<And>n. running n = None"
    and "\<And>k. reopen k = None" and "facts_in (D d) F"
  shows "refines (facts_of D) (with_reader reopen (index_facts sha running (\<lambda>k v. map_err h (decode k v)) flush d) run ::
    (('os, 'x) build_error, _) res) (Option.bind (decode_all decode kvs) (\<lambda>xs. fold_opt g xs F))"
  using index_facts_refines [where 'os = 'os and 'x = 'x and D = D and decode = "\<lambda>k v. map_err h (decode k v)" and X = X, OF assms(1) _ assms(3-7)] assms(2)
  by (simp add: decode_all_map_err)

section \<open>The records in page order\<close>

definition items_of :: "page_facts \<Rightarrow> query_item set" where
  "items_of F = {HeaderItem p h | p h. pf_headers F p = Some h} \<union> {EntryItem e | p e. pf_entries F p = Some e}"

fun index_record :: "query_item \<Rightarrow> run_record" where
  "index_record (HeaderItem p h) = (header_key p, encode_stored_header_into h)"
| "index_record (EntryItem e) = (index_key (st_path e), entry_value e)"

fun query_record :: "query_item \<Rightarrow> run_record" where
  "query_record (HeaderItem p h) = (header_key p, encode_stored_header_into h)"
| "query_record (EntryItem e) = (query_key e, entry_value e)"

lemma items_good:
  assumes "good_facts F" "i \<in> items_of F"
  shows "item_record i (query_record i)"
  using assms by (auto simp: items_of_def good_facts_def good_entry_def)

lemma holds_records:
  assumes "holds m F"
  shows "m k = Some v \<longleftrightarrow> (k, v) \<in> index_record ` items_of F"
proof
  assume kv: "m k = Some v"
  then consider p where "plain p" "p \<noteq> []" "k = index_key p" | p where "plain p" "k = header_key p"
    using assms unfolding holds_def by blast
  then show "(k, v) \<in> index_record ` items_of F"
  proof cases
    case (1 p)
    then obtain e where e: "pf_entries F p = Some e" "v = entry_value e" using holdsD(1) [OF assms 1(1,2)] kv by auto
    then have "EntryItem e \<in> items_of F" "index_record (EntryItem e) = (k, v)"
      using holdsD(3) [OF assms e(1)] 1(3) by (auto simp: items_of_def)
    then show ?thesis by (metis image_eqI)
  next
    case (2 p)
    then obtain h where h: "pf_headers F p = Some h" "v = encode_stored_header_into h" using holdsD(2) [OF assms 2(1)] kv by auto
    then have "HeaderItem p h \<in> items_of F" "index_record (HeaderItem p h) = (k, v)" using 2(2) by (auto simp: items_of_def)
    then show ?thesis by (metis image_eqI)
  qed
next
  assume "(k, v) \<in> index_record ` items_of F"
  then consider p h where "pf_headers F p = Some h" "(k, v) = (header_key p, encode_stored_header_into h)"
    | p e where "pf_entries F p = Some e" "(k, v) = (index_key (st_path e), entry_value e)" by (auto simp: items_of_def)
  then show "m k = Some v"
  proof cases
    case (1 p h)
    then show ?thesis using holdsD(2) [OF assms, of p] holdsD(4) [OF assms 1(1)] by simp
  next
    case (2 p e)
    then show ?thesis using holdsD(1) [OF assms, of p] holdsD(3) [OF assms 2(1)] good_entryD(1,2) [of e] by simp
  qed
qed

lemma query_key_inj:
  assumes "item_record i kv" "item_record j kw" "fst kv = fst kw"
  shows "is_entry i = is_entry j" "item_folder i = item_folder j"
    "i = EntryItem e \<Longrightarrow> j = EntryItem e' \<Longrightarrow> st_path e = st_path e'"
proof -
  obtain r s where k: "fst kv = key_bytes (item_folder i) @ 0 # 0 # (if is_entry i then 1 else 0) # r"
    "fst kw = key_bytes (item_folder j) @ 0 # 0 # (if is_entry j then 1 else 0) # s"
    using item_key(2) [OF assms(1)] item_key(2) [OF assms(2)] by blast
  have "prefix (fst kv) (fst kw)" using assms(3) by simp
  from namespace_folder [OF item_key(1) [OF assms(1)] item_key(1) [OF assms(2)] this [unfolded k]]
  show f: "item_folder i = item_folder j" and "is_entry i = is_entry j" by (auto split: if_splits)
  assume e: "i = EntryItem e" "j = EntryItem e'"
  let ?b = "\<lambda>e. represented_bytes (into_page_entry e)"
  have "rank_key (butlast (st_path e)) (?b e) (last (st_path e)) = rank_key (butlast (st_path e')) (?b e') (last (st_path e'))"
    using assms e by (simp add: entry_record_def query_key_def)
  moreover have "butlast (st_path e) = butlast (st_path e')" using f e by simp
  ultimately have "u128_be (NOT (?b e)) @ last (st_path e) @ [0] = u128_be (NOT (?b e')) @ last (st_path e') @ [0]"
    by (simp add: rank_key_eq)
  then have "last (st_path e) = last (st_path e')" by (simp add: append_eq_append_conv)
  moreover have "st_path e \<noteq> []" "st_path e' \<noteq> []" using assms(1,2) e by (simp_all add: entry_record_def)
  ultimately show "st_path e = st_path e'" using f e by (metis append_butlast_last_id item_folder.simps(2))
qed

lemma query_record_inj:
  assumes "good_facts F" "i \<in> items_of F" "j \<in> items_of F" "fst (query_record i) = fst (query_record j)"
  shows "i = j"
proof -
  note k = query_key_inj [OF items_good [OF assms(1,2)] items_good [OF assms(1,3)] assms(4)]
  show ?thesis
  proof (cases i)
    case (HeaderItem p h)
    with k(1,2) obtain h' where j: "j = HeaderItem p h'" by (cases j) simp_all
    show ?thesis using assms(2,3) by (auto simp: HeaderItem j items_of_def)
  next
    case (EntryItem e)
    with k(1) obtain e' where j: "j = EntryItem e'" by (cases j) simp_all
    have "st_path e = st_path e'" by (rule k(3) [OF EntryItem j])
    moreover obtain p q where "pf_entries F p = Some e" "pf_entries F q = Some e'" using assms(2,3) by (auto simp: EntryItem j items_of_def)
    ultimately show ?thesis using assms(1) by (auto simp: EntryItem j good_facts_def)
  qed
qed

lemma index_record_inj:
  assumes "good_facts F" "i \<in> items_of F" "j \<in> items_of F" "fst (index_record i) = fst (index_record j)"
  shows "i = j"
proof -
  have plain: "plain p" if "pf_headers F p = Some h" for p h using assms(1) that by (auto simp: good_facts_def)
  have path: "st_path e = p" "plain (st_path e)" "st_path e \<noteq> []" if "pf_entries F p = Some e" for p e
    using assms(1) that good_entryD(1,2) [of e] by (auto simp: good_facts_def)
  show ?thesis
  proof (cases i; cases j)
    fix p h q h' assume ij: "i = HeaderItem p h" "j = HeaderItem q h'"
    then have "p = q" using assms(2-4) header_key_inj plain by (auto simp: items_of_def)
    then show ?thesis using assms(2,3) by (auto simp: ij items_of_def)
  next
    fix e e' assume ij: "i = EntryItem e" "j = EntryItem e'"
    then obtain p q where pq: "pf_entries F p = Some e" "pf_entries F q = Some e'" using assms(2,3) by (auto simp: items_of_def)
    then have "st_path e = st_path e'" using index_key_inj path assms(4) ij by simp
    then show ?thesis using path(1) [OF pq(1)] path(1) [OF pq(2)] pq by (simp add: ij)
  next
    fix p h e assume ij: "i = HeaderItem p h" "j = EntryItem e"
    then show ?thesis using assms(2-4) index_header_key [of "st_path e" p] plain path by (auto simp: items_of_def)
  next
    fix p h e assume ij: "i = EntryItem e" "j = HeaderItem p h"
    then show ?thesis using assms(2-4) index_header_key [of "st_path e" p] plain path by (auto simp: items_of_def)
  qed
qed

definition query_table :: "(bytes \<rightharpoonup> bytes) \<Rightarrow> query_item set \<Rightarrow> bool" where
  "query_table m S \<longleftrightarrow> (\<forall>k v. m k = Some v \<longleftrightarrow> (k, v) \<in> query_record ` S)"

lemma query_table_insert:
  assumes "query_table m S" "fst (query_record i) \<notin> fst ` query_record ` S"
  shows "query_table (m(fst (query_record i) \<mapsto> snd (query_record i))) (insert i S)"
  using assms unfolding query_table_def by (force simp: image_iff prod_eq_iff)

lemma query_table_None: "query_table m S \<Longrightarrow> k \<notin> fst ` query_record ` S \<Longrightarrow> m k = None"
  unfolding query_table_def by (metis image_eqI fst_conv not_None_eq)

lemma header_value: "encode_stored_header_into h \<noteq> []" "hd (encode_stored_header_into h) = PAGE_HEADER_VERSION"
  by (simp_all add: encode_stored_header_into_def encode_summary_metrics_eq)

lemma index_child_key:
  assumes "good_entry e"
  shows "child_path_key_from_index_record (index_key (st_path e)) (st_parent_key_bytes e) = Inr (key_bytes (st_path e))"
    "slice_get 0 (unat (st_parent_key_bytes e)) (key_bytes (st_path e)) = Some (key_bytes (butlast (st_path e)))"
    "slice_from (unat (st_parent_key_bytes e)) (key_bytes (st_path e)) = Some (last (st_path e) @ [0])"
proof -
  obtain f c where p: "st_path e = f @ [c]" using good_entryD(2) [OF assms] by (metis append_butlast_last_id)
  have n: "unat (st_parent_key_bytes e) = length (key_bytes f)" "length (key_bytes f) < 2 ^ 32"
    using good_entryD(9) [OF assms] unat_lt_pow [of "st_parent_key_bytes e"] by (simp_all add: p)
  show "child_path_key_from_index_record (index_key (st_path e)) (st_parent_key_bytes e) = Inr (key_bytes (st_path e))"
    using n by (simp add: child_path_key_from_index_record_def child_path_key_from_record_with_metric_def p index_key_def
        PAGE_RECORD_NAMESPACE_def PAGE_ENTRY_TAG_def usize_checked_add_def slice_get_def slice_from_def)
  show "slice_get 0 (unat (st_parent_key_bytes e)) (key_bytes (st_path e)) = Some (key_bytes (butlast (st_path e)))"
    "slice_from (unat (st_parent_key_bytes e)) (key_bytes (st_path e)) = Some (last (st_path e) @ [0])"
    by (simp_all add: slice_get_def slice_from_def n(1) p)
qed

text \<open>The step puts the item under its page key, where no other item can be.\<close>

lemma metric_step_insert:
  assumes "good_facts F" "i \<in> items_of F" "redb_laws ops D T R" "query_table (T t PAGE_QUERY_RECORDS) S"
    "fst (query_record i) \<notin> fst ` query_record ` S"
  shows "refines (\<lambda>t' S'. T t' PAGE_INDEX_RECORDS = T t PAGE_INDEX_RECORDS \<and> query_table (T t' PAGE_QUERY_RECORDS) S')
    (metric_query_step ops storage_at (n, Inr (index_record i)) t :: (('os, 'x) build_error, _) res) (Some (insert i S))"
proof -
  let ?S = "\<lambda>t' S'. T t' PAGE_INDEX_RECORDS = T t PAGE_INDEX_RECORDS \<and> query_table (T t' PAGE_QUERY_RECORDS) S'"
  have ins: "refines ?S (res_bind (database_error (rb_insert ops PAGE_QUERY_RECORDS (fst (query_record i)) (snd (query_record i)) t))
      (\<lambda>(old, t). if b \<and> old \<noteq> None then Inl DuplicateRecord else Inr t) :: (('os, 'x) build_error, _) res) (Some (insert i S))" for b
  proof (rule refines_database, clarify)
    fix old t' assume "rb_insert ops PAGE_QUERY_RECORDS (fst (query_record i)) (snd (query_record i)) t = Inr (old, t')"
    from redb_lawsD(6) [OF assms(3) this] query_table_insert [OF assms(4,5)] query_table_None [OF assms(4,5)]
    show "refines ?S (if b \<and> old \<noteq> None then Inl DuplicateRecord else Inr t' :: (('os, 'x) build_error, _) res) (Some (insert i S))"
      by simp
  qed
  have "metric_query_step ops storage_at (n, Inr (index_record i)) t =
      res_bind (if n mod PAGE_INDEX_BATCH = 0 then map_err IndexIo (ts_ensure_running (storage_at n)) else Inr ()) (\<lambda>_.
      res_bind (database_error (rb_insert ops PAGE_QUERY_RECORDS (fst (query_record i)) (snd (query_record i)) t))
        (\<lambda>(old, t). if is_entry i \<and> old \<noteq> None then Inl DuplicateRecord else Inr t) :: (('os, 'x) build_error, _) res)"
  proof (cases i)
    case (HeaderItem p h)
    then show ?thesis by (simp add: metric_query_step_def header_value)
  next
    case (EntryItem e)
    then have e: "good_entry e" using assms(1,2) by (auto simp: items_of_def good_facts_def)
    have "query_key e = page_entry_query_key_from_encoded (key_bytes (butlast (st_path e)))
        (bb_lower (sm_allocated_bytes (pe_metrics (into_page_entry e)))) (last (st_path e) @ [0])"
      by (simp add: query_key_def rank_key_def represented_bytes_def)
    then show ?thesis using good_entryD(5-8) [OF e] index_child_key [OF e]
      by (simp add: EntryItem metric_query_step_def PAGE_ENTRY_VERSION_def PAGE_HEADER_VERSION_def)
  qed
  then show ?thesis using ins [of "is_entry i"] refines_io [OF ins [of "is_entry i"]] by simp
qed

lemma fold_res_append: "fold_res f (xs @ ys) s = res_bind (fold_res f xs s) (fold_res f ys)"
proof (induction xs arbitrary: s)
  case (Cons x xs)
  then show ?case by (cases "f x s") simp_all
qed simp

lemma metric_fold:
  assumes laws: "redb_laws ops D T R" and F: "good_facts F" "set is \<subseteq> items_of F" "distinct is" "S \<subseteq> items_of F" "set is \<inter> S = {}"
    and t: "query_table (T t PAGE_QUERY_RECORDS) S"
  shows "refines (\<lambda>t' S'. T t' PAGE_INDEX_RECORDS = T t PAGE_INDEX_RECORDS \<and> query_table (T t' PAGE_QUERY_RECORDS) S')
    (fold_res (metric_query_step ops storage_at) (enumerate n (map (\<lambda>i. Inr (index_record i)) is)) t :: (('os, 'x) build_error, _) res)
    (Some (S \<union> set is))"
  using F(2-) t
proof (induction "is" arbitrary: n S t)
  case (Cons i js)
  let ?R = "\<lambda>t t' S'. T t' PAGE_INDEX_RECORDS = T t PAGE_INDEX_RECORDS \<and> query_table (T t' PAGE_QUERY_RECORDS) S'"
  have fresh: "fst (query_record i) \<notin> fst ` query_record ` S"
  proof
    assume "fst (query_record i) \<in> fst ` query_record ` S"
    then obtain j where j: "j \<in> S" "fst (query_record i) = fst (query_record j)" by auto
    then have "i = j" using query_record_inj [OF F(1)] Cons.prems(1,3) by auto
    then show False using j Cons.prems(4) by auto
  qed
  have "i \<in> items_of F" using Cons.prems(1) by simp
  note step = metric_step_insert [where 'os = 'os and storage_at = storage_at and n = n, OF F(1) this laws Cons.prems(5) fresh]
  have rest: "refines (?R t) (fold_res (metric_query_step ops storage_at) (enumerate (Suc n) (map (\<lambda>i. Inr (index_record i)) js)) t' ::
      (('os, 'x) build_error, _) res) (Some (insert i S \<union> set js))" if t': "?R t t' (insert i S)" for t'
    using Cons.IH [of "insert i S" t' "Suc n"] Cons.prems t' by auto
  have "refines (?R t) (res_bind (metric_query_step ops storage_at (n, Inr (index_record i)) t)
      (fold_res (metric_query_step ops storage_at) (enumerate (Suc n) (map (\<lambda>i. Inr (index_record i)) js))) ::
      (('os, 'x) build_error, _) res) (Option.bind (Some (insert i S)) (\<lambda>S. Some (S \<union> set js)))"
  proof (rule refines_bind)
    show "refines (\<lambda>t' S'. ?R t t' S' \<and> S' = insert i S)
        (metric_query_step ops storage_at (n, Inr (index_record i)) t :: (('os, 'x) build_error, _) res) (Some (insert i S))"
      using step by (auto simp: refines_def)
  qed (use rest in blast)
  then show ?case by simp
qed simp

lemma list_preimage:
  assumes "inj_on f A" "set xs = f ` A" "distinct xs"
  shows "\<exists>ys. xs = map f ys \<and> set ys = A \<and> distinct ys"
proof (intro exI conjI)
  let ?ys = "map (inv_into A f) xs"
  show "xs = map f ?ys" using assms(2) by (auto simp: f_inv_into_f intro!: map_idI [symmetric])
  show "set ?ys = A" using assms(1,2) by simp
  show "distinct ?ys" using assms by (simp add: distinct_map inj_on_inv_into)
qed

lemma keys_sorted_distinct: "keys_sorted kvs \<Longrightarrow> distinct kvs"
  by (auto simp: keys_sorted_def strict_sorted_iff distinct_map)

lemma listed_items:
  assumes "lists_map m items" "\<And>k v. m k = Some v \<longleftrightarrow> (k, v) \<in> f ` A" "inj_on f A"
  shows "\<exists>is. set is = A \<and> distinct is \<and> keys_sorted (map f is) \<and>
    (items = map (\<lambda>i. Inr (f i)) is \<or> (\<exists>n x rest. items = map (\<lambda>i. Inr (f i)) (take n is) @ Inl x # rest))"
proof -
  obtain kvs where kvs: "keys_sorted kvs" "\<forall>k v. (k, v) \<in> set kvs \<longleftrightarrow> m k = Some v"
    "items = map Inr kvs \<or> (\<exists>n x rest. items = map Inr (take n kvs) @ Inl x # rest)"
    using assms(1) unfolding lists_map_def by blast
  have "set kvs = f ` A" using kvs(2) assms(2) by auto
  from list_preimage [OF assms(3) this keys_sorted_distinct [OF kvs(1)]]
  obtain "is" where i: "kvs = map f is" "set is = A" "distinct is" by blast
  have "items = map (\<lambda>i. Inr (f i)) is \<or> (\<exists>n x rest. items = map (\<lambda>i. Inr (f i)) (take n is) @ Inl x # rest)"
    using kvs(3) by (simp add: i(1) take_map comp_def)
  then show ?thesis using kvs(1) i by blast
qed

text \<open>After the pass the query table holds every item under its page key, and the index table is unchanged.\<close>

lemma build_metric_refines:
  assumes laws: "redb_laws ops D T R" and F: "facts_in (D d) F"
  shows "refines (\<lambda>d' S. D d' PAGE_INDEX_RECORDS = D d PAGE_INDEX_RECORDS \<and> query_table (D d' PAGE_QUERY_RECORDS) S)
    (build_metric_query_index ops storage_at d :: (('os, 'x) build_error, _) res) (Some (items_of F))"
  unfolding build_metric_query_index_def
proof (rule begin_write_refines [OF laws], intro refines_database)
  let ?R = "\<lambda>A s S. A s PAGE_INDEX_RECORDS = D d PAGE_INDEX_RECORDS \<and> query_table (A s PAGE_QUERY_RECORDS) S"
  fix t t1 t2 items
  assume a: "T t = D d" "rb_open_table ops PAGE_INDEX_RECORDS t = Inr t1" "rb_open_table ops PAGE_QUERY_RECORDS t1 = Inr t2"
    "rb_iter ops PAGE_INDEX_RECORDS t2 = Inr items"
  have t2: "T t2 = D d" using a(1-3) redb_lawsD(4) [OF laws] by metis
  have h: "holds (T t2 PAGE_INDEX_RECORDS) F" "T t2 PAGE_QUERY_RECORDS = Map.empty" using F by (simp_all add: facts_in_def t2)
  have good: "good_facts F" using h(1) by (simp add: holds_def)
  have inj: "inj_on index_record (items_of F)" by (rule inj_onI) (use index_record_inj [OF good] in auto)
  from listed_items [OF redb_lawsD(7) [OF laws a(4)] holds_records [OF h(1)] inj]
  obtain "is" where i: "set is = items_of F" "distinct is" "items = map (\<lambda>i. Inr (index_record i)) is \<or>
      (\<exists>n x rest. items = map (\<lambda>i. Inr (index_record i)) (take n is) @ Inl x # rest)" by blast
  have empty: "query_table (T t2 PAGE_QUERY_RECORDS) {}" by (simp add: h(2) query_table_def)
  have pass: "refines (?R T) (fold_res (metric_query_step ops storage_at) (enumerate 0 (map (\<lambda>i. Inr (index_record i)) js)) t2 ::
      (('os, 'x) build_error, _) res) (Some (set js))" if js: "set js \<subseteq> items_of F" "distinct js" for js
    using metric_fold [where 'os = 'os and n = 0 and S = "{}", OF laws good js _ _ empty] by (simp add: t2)
  from i(3) show "refines (?R D) (res_bind (fold_res (metric_query_step ops storage_at) (enumerate 0 items) t2) (\<lambda>t.
      res_bind (map_err IndexIo (ts_ensure_running (storage_at (length items)))) (\<lambda>_. database_error (rb_commit ops t))) ::
      (('os, 'x) build_error, _) res) (Some (items_of F))"
  proof (elim disjE exE)
    assume items: "items = map (\<lambda>i. Inr (index_record i)) is"
    have "refines (?R D) (res_bind (fold_res (metric_query_step ops storage_at) (enumerate 0 items) t2) (\<lambda>t.
        res_bind (map_err IndexIo (ts_ensure_running (storage_at (length items)))) (\<lambda>_. database_error (rb_commit ops t))) ::
        (('os, 'x) build_error, _) res) (Option.bind (Some (set is)) Some)"
      unfolding items using i(1,2) redb_lawsD(8) [OF laws]
      by (intro refines_bind [OF pass] refines_io refines_database_last) auto
    then show ?thesis by (simp add: i(1))
  next
    fix n x rest assume items: "items = map (\<lambda>i. Inr (index_record i)) (take n is) @ Inl x # rest"
    have "\<exists>e. fold_res (metric_query_step ops storage_at) (enumerate 0 items) t2 = (Inl e :: (('os, 'x) build_error, _) res) \<and> outage e"
    proof (cases "fold_res (metric_query_step ops storage_at) (enumerate 0 (map (\<lambda>i. Inr (index_record i)) (take n is))) t2 :: (('os, 'x) build_error, _) res")
      case (Inl e)
      then show ?thesis using pass [of "take n is"] i(1,2) set_take_subset [of n "is"]
        by (auto simp: items enumerate_append_eq fold_res_append refines_def)
    next
      case (Inr t)
      have "outage e" if "metric_query_step ops storage_at (m, Inl x) t = (Inl e :: (('os, 'x) build_error, _) res)" for m e
        using that by (cases "ts_ensure_running (storage_at m) :: ('os io_error, unit) res") (auto simp: metric_query_step_def outage_def split: if_splits)
      moreover have "\<exists>e. metric_query_step ops storage_at (m, Inl x) t = (Inl e :: (('os, 'x) build_error, _) res)" for m
        by (cases "ts_ensure_running (storage_at m) :: ('os io_error, unit) res") (auto simp: metric_query_step_def)
      ultimately show ?thesis using Inr by (simp add: items enumerate_append_eq fold_res_append) (metis res_bind_simps(1))
    qed
    then show ?thesis by (auto simp: refines_def)
  qed
qed

section \<open>The build\<close>

lemma decode_observation_good: "decode_path_observation k v = Inr ob \<Longrightarrow> observation_good ob"
proof -
  assume "decode_path_observation k v = Inr ob"
  then obtain f where f: "nul_free (po_path ob)" "relative_path_ok (po_path ob)" "metrics_ok (po_metrics ob)"
    "\<And>snap. po_snapshot ob = Some snap \<Longrightarrow> snapshot_flags ob (summary_metrics_flags (po_metrics ob)) = Inr f"
    by (rule decode_observation_sound) blast
  have "\<exists>g. snapshot_flags ob (summary_metrics_flags (po_metrics ob)) = Inr g"
    using f(4) by (cases "po_snapshot ob") (auto simp: snapshot_flags_def)
  then obtain kv where "encode_path_observation_into ob = Inr kv" using f(1) by (metis encode_observation_Inr)
  then show "observation_good ob" using f(2,3) by (auto simp: observation_good_def observation_record_def)
qed

definition decode_summary_fact :: "bytes \<Rightarrow> bytes \<Rightarrow> (directory_summary_codec_error, directory_summary) res" where
  "decode_summary_fact k v = res_bind (decode_directory_summary k v) (\<lambda>(_, y). Inr y)"

definition decode_contribution_fact :: "bytes \<Rightarrow> bytes \<Rightarrow> (allocation_contribution_codec_error, allocation_contribution) res" where
  "decode_contribution_fact k v = res_bind (decode_allocation_contribution k v) (\<lambda>(_, c). Inr c)"

definition facts_of_records :: "run_record list \<Rightarrow> run_record list \<Rightarrow> run_record list \<Rightarrow> run_record list \<Rightarrow> page_facts option" where
  "facts_of_records paths identities summaries allocations =
     Option.bind (decode_all decode_path_observation paths) (\<lambda>obs.
     Option.bind (decode_all decode_identity_observation identities) (\<lambda>ids.
     Option.bind (decode_all decode_summary_fact summaries) (\<lambda>sums.
     Option.bind (decode_all decode_contribution_fact allocations) (\<lambda>cons. page_facts_of obs ids sums cons))))"

lemma index_passes_refine:
  assumes laws: "redb_laws ops D T R" and sha: "\<And>x. length (sha x) = 32" and running: "\<And>n. running n = None"
    and reopen: "\<And>k. reopen k = None" and d: "facts_in (D d) F"
  shows "write_run sha granted desc capacity kvs = Inr run \<Longrightarrow> refines (facts_of D)
      (with_reader reopen (index_path_observations ops sha running d) run :: (('os, 'x) build_error, _) res)
      (Option.bind (decode_all decode_path_observation kvs) (\<lambda>xs. fold_opt fact_path xs F))"
    and "write_run sha granted desc capacity kvs = Inr run \<Longrightarrow> refines (facts_of D)
      (with_reader reopen (index_identity_observations ops sha running d) run :: (('os, 'x) build_error, _) res)
      (Option.bind (decode_all decode_identity_observation kvs) (\<lambda>xs. fold_opt fact_identity xs F))"
    and "write_run sha granted desc capacity kvs = Inr run \<Longrightarrow> refines (facts_of D)
      (with_reader reopen (index_directory_summaries ops sha running d) run :: (('os, 'x) build_error, _) res)
      (Option.bind (decode_all decode_summary_fact kvs) (\<lambda>xs. fold_opt fact_summary xs F))"
    and "write_run sha granted desc capacity kvs = Inr run \<Longrightarrow> refines (facts_of D)
      (with_reader reopen (index_allocation_contributions ops sha running d) run :: (('os, 'x) build_error, _) res)
      (Option.bind (decode_all decode_contribution_fact kvs) (\<lambda>xs. fold_opt fact_allocation xs F))"
proof -
  assume run: "write_run sha granted desc capacity kvs = Inr run"
  have sum: "res_bind (map_err IndexDirectorySummary (decode_directory_summary k v)) (\<lambda>(_, y). Inr y) =
      (map_err IndexDirectorySummary (decode_summary_fact k v) :: (('os, 'x) build_error, _) res)" for k v
    by (cases "decode_directory_summary k v") (auto simp: decode_summary_fact_def)
  have con: "res_bind (map_err IndexAllocationContribution (decode_allocation_contribution k v)) (\<lambda>(_, y). Inr y) =
      (map_err IndexAllocationContribution (decode_contribution_fact k v) :: (('os, 'x) build_error, _) res)" for k v
    by (cases "decode_allocation_contribution k v") (auto simp: decode_contribution_fact_def)
  have goods: "decode_identity_observation k v = Inr ob \<Longrightarrow> identity_ok ob \<and> relative_path_ok (io_path ob)"
    "decode_summary_fact k v = Inr y \<Longrightarrow> summary_good y" "decode_contribution_fact k v = Inr c \<Longrightarrow> contribution_good c" for k v ob y c
    using decode_identity_record_Inr [of k v ob] decode_summary_Inr [of k v _ y] decode_contribution_Inr [of k v _ c]
    by (auto simp: decode_summary_fact_def decode_contribution_fact_def res_bind_Inr_iff summary_good_def contribution_good_def plain_def
        summary_fits_def contribution_ok_def)
  note pass = index_facts_map_err [where 'os = 'os and 'x = 'x and D = D, OF _ _ run sha running reopen d]
  show "refines (facts_of D) (with_reader reopen (index_path_observations ops sha running d) run :: (('os, 'x) build_error, _) res)
      (Option.bind (decode_all decode_path_observation kvs) (\<lambda>xs. fold_opt fact_path xs F))"
    unfolding index_path_observations_def flush_path_batch_def
    by (rule pass [where X = "Collect observation_good" and g = fact_path])
      (auto intro!: flush_refines [OF laws] index_path_refines [OF laws] dest: decode_observation_good)
  show "refines (facts_of D) (with_reader reopen (index_identity_observations ops sha running d) run :: (('os, 'x) build_error, _) res)
      (Option.bind (decode_all decode_identity_observation kvs) (\<lambda>xs. fold_opt fact_identity xs F))"
    unfolding index_identity_observations_def flush_identity_batch_def
    by (rule pass [where X = "{ob. identity_ok ob \<and> relative_path_ok (io_path ob)}" and g = fact_identity])
      (auto intro!: flush_refines [OF laws] index_identity_refines [OF laws] dest: goods(1))
  show "refines (facts_of D) (with_reader reopen (index_directory_summaries ops sha running d) run :: (('os, 'x) build_error, _) res)
      (Option.bind (decode_all decode_summary_fact kvs) (\<lambda>xs. fold_opt fact_summary xs F))"
    unfolding index_directory_summaries_def flush_directory_summary_batch_def sum
    by (rule pass [where X = "Collect summary_good" and g = fact_summary])
      (auto intro!: flush_refines [OF laws] index_summary_refines [OF laws] dest: goods(2))
  show "refines (facts_of D) (with_reader reopen (index_allocation_contributions ops sha running d) run :: (('os, 'x) build_error, _) res)
      (Option.bind (decode_all decode_contribution_fact kvs) (\<lambda>xs. fold_opt fact_allocation xs F))"
    unfolding index_allocation_contributions_def flush_allocation_batch_def con
    by (rule pass [where X = "Collect contribution_good" and g = fact_allocation])
      (auto intro!: flush_refines [OF laws] apply_allocation_refines [OF laws] dest: goods(3))
qed

lemma create_refines:
  assumes laws: "redb_laws ops D T R"
  shows "refines (facts_of D) (create_page_index_database ops os index_file storage :: (('os, 'x) build_error, _) res) (Some no_facts)"
proof -
  have empty: "facts_in (\<lambda>_. Map.empty) no_facts"
    by (simp add: facts_in_def holds_def good_facts_def no_facts_def)
  have made: "refines (facts_of D) (res_bind (database_error (rb_create ops b)) (\<lambda>d.
     res_bind (begin_ephemeral_write ops d) (\<lambda>t.
     res_bind (database_error (rb_open_table ops PAGE_INDEX_RECORDS t)) (\<lambda>t.
     res_bind (database_error (rb_open_table ops PAGE_QUERY_RECORDS t)) (\<lambda>t.
       database_error (rb_commit ops t))))) :: (('os, 'x) build_error, _) res) (Some no_facts)" for b
  proof (rule refines_database, rule begin_write_refines [OF laws], intro refines_database refines_database_last)
    fix d t t1 t2 d'
    assume "rb_create ops b = Inr d" "T t = D d" "rb_open_table ops PAGE_INDEX_RECORDS t = Inr t1"
      "rb_open_table ops PAGE_QUERY_RECORDS t1 = Inr t2" "rb_commit ops t2 = Inr d'"
    then have "D d' = (\<lambda>_. Map.empty)" using redb_lawsD(1,4,8) [OF laws] by metis
    then show "facts_in (D d') no_facts" using empty by simp
  qed
  show ?thesis
    by (cases index_file; cases "ts_reservation 0 storage :: ('os io_error, _) res")
      (auto simp: create_page_index_database_def outage_def intro!: refines_io_any made)
qed

definition root_metadata :: "stored_header \<Rightarrow> page_index_metadata" where
  "root_metadata h = \<lparr>pim_root_metrics = sh_header_metrics h, pim_root_coverage = sh_header_coverage h\<rparr>"

lemma fold_append_items:
  "fold_res (\<lambda>item w. res_bind (database_error item) (\<lambda>(key, val). map_err IndexRun (rw_append sha grow key val w)))
     (map (\<lambda>i. Inr (f i)) js) w = (map_err IndexRun (append_all sha grow (map f js) w) :: (('os, 'x) build_error, _) res)"
proof (induction js arbitrary: w)
  case (Cons i js)
  then show ?case by (cases "rw_append sha grow (fst (f i)) (snd (f i)) w") (simp_all add: case_prod_unfold)
qed simp

lemma append_all_append: "append_all sha grow (xs @ ys) w = res_bind (append_all sha grow xs w) (append_all sha grow ys)"
proof (induction xs arbitrary: w)
  case (Cons x xs)
  then show ?case by (cases "rw_append sha grow (fst x) (snd x) w") simp_all
qed simp

lemma write_records:
  assumes laws: "redb_laws ops D T R" and t: "query_table (D d PAGE_QUERY_RECORDS) (items_of F)" and good: "good_facts F"
  shows "(\<exists>e. write_page_records ops sha grow d w = (Inl e :: (('os, 'x) build_error, _) res) \<and> outage e) \<or>
    (\<exists>items. set items = items_of F \<and> list_all2 item_record items (map query_record items) \<and> keys_sorted (map query_record items) \<and>
      write_page_records ops sha grow d w =
        (map_err IndexRun (append_all sha grow (map query_record items) w) :: (('os, 'x) build_error, _) res))"
proof -
  let ?step = "\<lambda>item w. res_bind (database_error item) (\<lambda>(key, val). map_err IndexRun (rw_append sha grow key val w)) ::
    (('os, 'x) build_error, _) res"
  consider e where "write_page_records ops sha grow d w = (Inl e :: (('os, 'x) build_error, _) res)" "outage e"
    | r r1 listed where "rb_begin_read ops d = Inr r" "rb_open_read_table ops PAGE_QUERY_RECORDS r = Inr r1"
      "rb_read_iter ops PAGE_QUERY_RECORDS r1 = Inr listed" "write_page_records ops sha grow d w = fold_res ?step listed w"
    by (cases "rb_begin_read ops d"; cases "rb_open_read_table ops PAGE_QUERY_RECORDS (projr (rb_begin_read ops d))";
        cases "rb_read_iter ops PAGE_QUERY_RECORDS (projr (rb_open_read_table ops PAGE_QUERY_RECORDS (projr (rb_begin_read ops d))))")
      (auto simp: write_page_records_def outage_def)
  then show ?thesis
  proof cases
    case (2 r r1 listed)
    then have "R r1 = D d" using redb_lawsD(9,10) [OF laws] by metis
    then have m: "R r1 PAGE_QUERY_RECORDS k = Some v \<longleftrightarrow> (k, v) \<in> query_record ` items_of F" for k v
      using t by (simp add: query_table_def)
    have inj: "inj_on query_record (items_of F)" by (rule inj_onI) (use query_record_inj [OF good] in auto)
    from listed_items [OF redb_lawsD(12) [OF laws 2(3)] m inj]
    obtain "is" where i: "set is = items_of F" "keys_sorted (map query_record is)" "listed = map (\<lambda>i. Inr (query_record i)) is \<or>
        (\<exists>n x rest. listed = map (\<lambda>i. Inr (query_record i)) (take n is) @ Inl x # rest)" by blast
    have rec: "list_all2 item_record is (map query_record is)"
      using i(1) items_good [OF good] by (auto simp: list_all2_conv_all_nth dest: nth_mem)
    from i(3) show ?thesis
    proof (elim disjE exE)
      assume "listed = map (\<lambda>i. Inr (query_record i)) is"
      then show ?thesis using i(1,2) rec 2(4) fold_append_items [of sha grow query_record "is" w] by auto
    next
      fix n x rest assume listed: "listed = map (\<lambda>i. Inr (query_record i)) (take n is) @ Inl x # rest"
      have all: "append_all sha grow (map query_record is) w =
          res_bind (append_all sha grow (map query_record (take n is)) w) (append_all sha grow (map query_record (drop n is)))"
        by (metis append_all_append append_take_drop_id map_append)
      show ?thesis
      proof (cases "append_all sha grow (map query_record (take n is)) w")
        case (Inl e)
        then have "write_page_records ops sha grow d w = (Inl (IndexRun e) :: (('os, 'x) build_error, _) res)"
          "append_all sha grow (map query_record is) w = Inl e"
          using 2(4) all fold_append_items [where 'os = 'os and 'x = 'x, of sha grow query_record "take n is" w] by (simp_all add: listed fold_res_append)
        then show ?thesis using i(1,2) rec by (intro disjI2 exI [of _ "is"]) simp
      next
        case (Inr w')
        then have "write_page_records ops sha grow d w = (Inl (IndexDatabase x) :: (('os, 'x) build_error, _) res)"
          using 2(4) fold_append_items [where 'os = 'os and 'x = 'x, of sha grow query_record "take n is" w] by (simp add: listed fold_res_append)
        then show ?thesis by (simp add: outage_def)
      qed
    qed
  qed blast
qed

text \<open>The outcome the facts determine: what is appended to the output, and the values of the root.\<close>

definition index_outcome :: "(bytes \<Rightarrow> bytes) \<Rightarrow> 'os io_error grow \<Rightarrow> page_facts option \<Rightarrow> run_writer \<Rightarrow>
    (('os, 'x) build_error, page_index_metadata \<times> run_writer) res \<Rightarrow> bool" where
  "index_outcome sha grow facts w r \<longleftrightarrow>
     (case facts of
        None \<Rightarrow> \<exists>e. r = Inl e
      | Some F \<Rightarrow>
          (case pf_headers F [] of
             None \<Rightarrow> r = Inl MissingHeader
           | Some root \<Rightarrow> \<exists>items rs. set items = items_of F \<and> query_items items rs \<and>
               r = res_bind (map_err IndexRun (append_all sha grow rs w)) (\<lambda>w. Inr (root_metadata root, w))))"

lemma read_root_header:
  assumes laws: "redb_laws ops D T R" and h: "holds (D d PAGE_INDEX_RECORDS) F"
  shows "(\<exists>x. read_header_from_database ops d rp_root = (Inl (IndexDatabase x) :: (('os, 'x) build_error, _) res)) \<or>
    read_header_from_database ops d rp_root = (Inr (pf_headers F []) :: (('os, 'x) build_error, _) res)"
proof -
  have key: "page_header_key_into rp_root = Inr (header_key [])" by (simp add: rp_root_def header_key_plain)
  have found: "R r' PAGE_INDEX_RECORDS (header_key []) = map_option encode_stored_header_into (pf_headers F [])"
    if "rb_begin_read ops d = Inr r" "rb_open_read_table ops PAGE_INDEX_RECORDS r = Inr r'" for r r'
    using holdsD(2) [OF h, of "[]"] redb_lawsD(9,10) [OF laws] that by auto
  have dec: "decode_stored_header (encode_stored_header_into root) = Inr root" if "pf_headers F [] = Some root" for root
    using decode_encode_header holdsD(4) [OF h that] by blast
  show ?thesis
  proof (cases "rb_begin_read ops d")
    case (Inr r)
    show ?thesis
    proof (cases "rb_open_read_table ops PAGE_INDEX_RECORDS r")
      case r': (Inr r')
      show ?thesis
      proof (cases "rb_read_get ops PAGE_INDEX_RECORDS (header_key []) r'")
        case f: (Inr x)
        then have "x = map_option encode_stored_header_into (pf_headers F [])" using redb_lawsD(11) [OF laws] found [OF Inr r'] by metis
        then show ?thesis using Inr r' f dec by (cases "pf_headers F []") (simp_all add: read_header_from_database_def key)
      qed (use Inr r' in \<open>simp add: read_header_from_database_def key\<close>)
    qed (use Inr in \<open>simp add: read_header_from_database_def key\<close>)
  qed (simp add: read_header_from_database_def key)
qed

lemma fst_step_reported: "fst (step_reported n r k) = res_bind r (\<lambda>x. fst (k x))"
  by (cases r) (simp_all add: step_reported_def)

lemma fst_started: "fst (case c of Inl e \<Rightarrow> (Inl e, []) | Inr d \<Rightarrow> k d) = res_bind c (\<lambda>d. fst (k d))"
  by (cases c) simp_all

lemma res_bind_Inr_id: "res_bind c Inr = c"
  by (cases c) simp_all

lemma materialize_eq:
  assumes "rd_kind (rw_descriptor w) = RunChildQuery"
  shows "fst (materialize_child_queries ops en paths ids sums allocs w) =
    res_bind
      (res_bind (create_page_index_database ops (en_file_os en) (en_index_file en) (en_storage en)) (\<lambda>d.
       res_bind (with_reader (en_reopen en) (index_path_observations ops (en_sha en) (en_running en) d) paths) (\<lambda>d.
       res_bind (with_reader (en_reopen en) (index_identity_observations ops (en_sha en) (en_running en) d) ids) (\<lambda>d.
       res_bind (with_reader (en_reopen en) (index_directory_summaries ops (en_sha en) (en_running en) d) sums) (\<lambda>d.
         with_reader (en_reopen en) (index_allocation_contributions ops (en_sha en) (en_running en) d) allocs)))))
      (\<lambda>d. res_bind (build_metric_query_index ops (en_storage_at en) d) (\<lambda>d.
       res_bind (read_header_from_database ops d rp_root) (\<lambda>found.
       res_bind (ok_or found MissingHeader) (\<lambda>root.
       res_bind (write_page_records ops (en_sha en) (en_grow en) d w) (\<lambda>w. Inr (root_metadata root, w))))))"
  unfolding materialize_child_queries_def using assms
  by (simp add: fst_started fst_step_reported res_bind_assoc root_metadata_def res_bind_Inr_id)

lemma materialize_outcome:
  fixes ops :: "('d, 't, 'r, 'x) redb" and en :: "'os build_environment"
  assumes laws: "redb_laws ops D T R" and sha: "\<And>x. length (en_sha en x) = 32" and running: "\<And>n. en_running en n = None"
    and reopen: "\<And>k. en_reopen en k = None" and kind: "rd_kind (rw_descriptor w) = RunChildQuery"
    and runs: "write_run (en_sha en) granted d1 c1 k1 = Inr paths" "write_run (en_sha en) granted d2 c2 k2 = Inr ids"
      "write_run (en_sha en) granted d3 c3 k3 = Inr sums" "write_run (en_sha en) granted d4 c4 k4 = Inr allocs"
  shows "(\<exists>e. fst (materialize_child_queries ops en paths ids sums allocs w) = Inl e \<and> outage e) \<or>
    index_outcome (en_sha en) (en_grow en) (facts_of_records k1 k2 k3 k4) w (fst (materialize_child_queries ops en paths ids sums allocs w))"
proof -
  let ?tables = "res_bind (create_page_index_database ops (en_file_os en) (en_index_file en) (en_storage en)) (\<lambda>d.
       res_bind (with_reader (en_reopen en) (index_path_observations ops (en_sha en) (en_running en) d) paths) (\<lambda>d.
       res_bind (with_reader (en_reopen en) (index_identity_observations ops (en_sha en) (en_running en) d) ids) (\<lambda>d.
       res_bind (with_reader (en_reopen en) (index_directory_summaries ops (en_sha en) (en_running en) d) sums) (\<lambda>d.
         with_reader (en_reopen en) (index_allocation_contributions ops (en_sha en) (en_running en) d) allocs)))) ::
       (('os, 'x) build_error, _) res"
  let ?rest = "\<lambda>d. res_bind (build_metric_query_index ops (en_storage_at en) d) (\<lambda>d.
       res_bind (read_header_from_database ops d rp_root) (\<lambda>found.
       res_bind (ok_or found MissingHeader) (\<lambda>root.
       res_bind (write_page_records ops (en_sha en) (en_grow en) d w) (\<lambda>w. Inr (root_metadata root, w))))) :: (('os, 'x) build_error, _) res"
  let ?facts = "facts_of_records k1 k2 k3 k4"
  note pass = index_passes_refine [where 'os = 'os and 'x = 'x, OF laws sha running reopen]
  have "refines (facts_of D) ?tables (Option.bind (Some no_facts) (\<lambda>F.
      Option.bind (Option.bind (decode_all decode_path_observation k1) (\<lambda>xs. fold_opt fact_path xs F)) (\<lambda>F.
      Option.bind (Option.bind (decode_all decode_identity_observation k2) (\<lambda>xs. fold_opt fact_identity xs F)) (\<lambda>F.
      Option.bind (Option.bind (decode_all decode_summary_fact k3) (\<lambda>xs. fold_opt fact_summary xs F)) (\<lambda>F.
      Option.bind (decode_all decode_contribution_fact k4) (\<lambda>xs. fold_opt fact_allocation xs F))))))"
    by (intro refines_bind [OF create_refines [OF laws]] refines_bind [OF pass(1) [OF _ runs(1)]] refines_bind [OF pass(2) [OF _ runs(2)]]
        refines_bind [OF pass(3) [OF _ runs(3)]] pass(4) [OF _ runs(4)])
  moreover have "\<dots> = ?facts"
    by (cases "decode_all decode_path_observation k1"; cases "decode_all decode_identity_observation k2";
        cases "decode_all decode_summary_fact k3"; cases "decode_all decode_contribution_fact k4")
      (simp_all add: facts_of_records_def page_facts_of_def)
  ultimately have tables: "refines (facts_of D) ?tables ?facts" by simp
  have built: "(\<exists>e. ?rest d = Inl e \<and> outage e) \<or> index_outcome (en_sha en) (en_grow en) (Some F) w (?rest d)"
    if F: "facts_in (D d) F" for d F
  proof (cases "build_metric_query_index ops (en_storage_at en) d :: (('os, 'x) build_error, _) res")
    case (Inl e)
    then show ?thesis using build_metric_refines [where 'os = 'os and storage_at = "en_storage_at en", OF laws F] by (auto simp: refines_def)
  next
    case (Inr d')
    then have d': "D d' PAGE_INDEX_RECORDS = D d PAGE_INDEX_RECORDS" "query_table (D d' PAGE_QUERY_RECORDS) (items_of F)"
      using build_metric_refines [where 'os = 'os and storage_at = "en_storage_at en", OF laws F] by (auto simp: refines_def)
    then have h: "holds (D d' PAGE_INDEX_RECORDS) F" using facts_holds [OF F] by simp
    then have good: "good_facts F" by (simp add: holds_def)
    show ?thesis
    proof (cases "read_header_from_database ops d' rp_root = (Inr (pf_headers F []) :: (('os, 'x) build_error, _) res)")
      case False
      then show ?thesis using read_root_header [where 'os = 'os, OF laws h] Inr by (auto simp: outage_def)
    next
      case True
      show ?thesis
      proof (cases "pf_headers F []")
        case None
        then show ?thesis using True Inr by (simp add: index_outcome_def)
      next
        case (Some root)
        then have "HeaderItem [] root \<in> items_of F" by (simp add: items_of_def)
        with write_records [where 'os = 'os and sha = "en_sha en" and grow = "en_grow en" and w = w, OF laws d'(2) good]
        show ?thesis using True Inr Some by (fastforce simp: index_outcome_def query_items_def)
      qed
    qed
  qed
  show ?thesis unfolding materialize_eq [OF kind]
    using tables built by (cases ?tables; cases ?facts) (auto simp: refines_def index_outcome_def)
qed

end
