(* ===== verification/Page_Facts.thy ===== *)
theory Page_Facts
  imports Page_Index_Spec
begin

text \<open>
  The facts of the page index in closed form.  \<open>facts_of_summaries\<close> and the lemmas before it describe the table after
  each family of facts, \<open>allocation_headers\<close> and \<open>allocation_entries\<close> what the contributions add: a contribution is charged to
  every directory above its recipient, and to the recipient itself when it is shared.  \<open>facts_agree\<close> is the
  invariant that a directory's row in its parent carries the values of the directory's own header.
  \<open>consistent_facts_exist\<close> says for which facts the build succeeds, and \<open>steady_no_outage\<close> that without a
  failure of the database or the quota nothing else can end it.
\<close>

section \<open>Contributions\<close>

definition paths_ok :: "page_facts \<Rightarrow> bool" where
  "paths_ok F \<longleftrightarrow> (\<forall>p e. pf_entries F p = Some e \<longrightarrow> st_path e = p)"

text \<open>Whether the directory \<open>p\<close> holds the contribution.\<close>

definition charged :: "relative_path \<Rightarrow> allocation_contribution \<Rightarrow> bool" where
  "charged p c \<longleftrightarrow> prefix p (ac_recipient c) \<and> (p \<noteq> ac_recipient c \<or> ac_placement c = PlaceShared)"

definition charge_header_at :: "relative_path \<Rightarrow> stored_header \<Rightarrow> allocation_contribution \<Rightarrow> stored_header" where
  "charge_header_at p h c =
     (if charged p c then charge_header c (ac_placement c = PlaceShared \<and> p = ac_recipient c) h else h)"

definition charge_entry_at :: "relative_path \<Rightarrow> stored_entry \<Rightarrow> allocation_contribution \<Rightarrow> stored_entry" where
  "charge_entry_at p e c =
     (if p \<noteq> [] \<and> prefix p (ac_recipient c) then charge_entry c (ac_placement c = PlaceLeaf \<and> p = ac_recipient c) e else e)"

lemma charge_entry_fields [simp]:
  "st_observation (charge_entry c leaf e) = st_observation e" "st_path (charge_entry c leaf e) = st_path e"
  "st_coverage (charge_entry c leaf e) = st_coverage e" "st_identity (charge_entry c leaf e) = st_identity e"
  "st_directory_summary_seen (charge_entry c leaf e) = st_directory_summary_seen e"
  by (simp_all add: charge_entry_def st_path_def)

lemma charge_header_coverage [simp]: "sh_header_coverage (charge_header c b h) = sh_header_coverage h"
  "sh_header_metrics (charge_header c b h) = add_contribution (sh_header_metrics h) c"
  by (simp_all add: charge_header_def)

lemma fact_header_Some:
  "fact_header c b p F = Some F' \<longleftrightarrow>
     (\<exists>h. pf_headers F p = Some h \<and> F' = F\<lparr>pf_headers := (pf_headers F)(p \<mapsto> charge_header c b h)\<rparr>)"
  by (auto simp: fact_header_def set_header_def bind_eq_Some_conv)

lemma fact_entry_Some:
  assumes "paths_ok F"
  shows "fact_entry c leaf p F = Some F' \<longleftrightarrow>
     (\<exists>e. pf_entries F p = Some e \<and> (leaf \<longleftrightarrow> po_kind (st_observation e) \<noteq> EntryDirectory) \<and>
        F' = F\<lparr>pf_entries := (pf_entries F)(p \<mapsto> charge_entry c leaf e)\<rparr>)"
  using assms by (auto simp: fact_entry_def set_entry_def guard_opt_def bind_eq_Some_conv paths_ok_def split: if_splits)

lemma paths_ok_header [simp]: "paths_ok (F\<lparr>pf_headers := H\<rparr>) \<longleftrightarrow> paths_ok F"
  by (simp add: paths_ok_def)

lemma paths_ok_entry: "paths_ok F \<Longrightarrow> st_path e = p \<Longrightarrow> paths_ok (F\<lparr>pf_entries := (pf_entries F)(p \<mapsto> e)\<rparr>)"
  by (simp add: paths_ok_def)

lemma chain_prefix: "prefix p q \<and> strict_prefix q (p @ x # xs) \<longleftrightarrow> q = p \<or> prefix (p @ [x]) q \<and> strict_prefix q (p @ x # xs)"
  by (auto simp: prefix_def strict_prefix_def append_eq_append_conv2 append_eq_Cons_conv Cons_eq_append_conv)

lemma chain_strict: "strict_prefix p q \<and> prefix q (p @ x # xs) \<longleftrightarrow> q = p @ [x] \<or> strict_prefix (p @ [x]) q \<and> prefix q (p @ x # xs)"
  by (auto simp: prefix_def strict_prefix_def append_eq_append_conv2 append_eq_Cons_conv Cons_eq_append_conv)

lemma fact_chain_Some:
  assumes "fact_chain c p xs F = Some F'" "paths_ok F"
  shows "pf_headers F' q = (if prefix p q \<and> strict_prefix q (p @ xs) then map_option (charge_header c False) (pf_headers F q) else pf_headers F q)"
    and "pf_entries F' q = (if strict_prefix p q \<and> prefix q (p @ xs)
      then map_option (charge_entry c (ac_placement c = PlaceLeaf \<and> q = p @ xs)) (pf_entries F q) else pf_entries F q)"
    and "strict_prefix p q \<Longrightarrow> prefix q (p @ xs) \<Longrightarrow>
      \<exists>e. pf_entries F q = Some e \<and> (ac_placement c = PlaceLeaf \<and> q = p @ xs \<longleftrightarrow> po_kind (st_observation e) \<noteq> EntryDirectory)"
    and "paths_ok F'"
  using assms
proof (induction xs arbitrary: p F)
  case Nil
  {
    case 1
    then show ?case by (auto simp: strict_prefix_def)
  next
    case 2
    then show ?case by (auto simp: strict_prefix_def)
  next
    case 3
    then show ?case by (auto simp: strict_prefix_def)
  next
    case 4
    then show ?case by simp
  }
next
  case (Cons x xs)
  have main: "pf_headers F' q = (if prefix p q \<and> strict_prefix q (p @ x # xs) then map_option (charge_header c False) (pf_headers F q) else pf_headers F q) \<and>
      pf_entries F' q = (if strict_prefix p q \<and> prefix q (p @ x # xs)
        then map_option (charge_entry c (ac_placement c = PlaceLeaf \<and> q = p @ x # xs)) (pf_entries F q) else pf_entries F q) \<and>
      (strict_prefix p q \<and> prefix q (p @ x # xs) \<longrightarrow> (\<exists>e. pf_entries F q = Some e \<and>
        (ac_placement c = PlaceLeaf \<and> q = p @ x # xs \<longleftrightarrow> po_kind (st_observation e) \<noteq> EntryDirectory))) \<and> paths_ok F'"
    if prems: "fact_chain c p (x # xs) F = Some F'" "paths_ok F" for p F
  proof -
    obtain F1 F2 where F12: "fact_header c False p F = Some F1"
      "fact_entry c (ac_placement c = PlaceLeaf \<and> xs = []) (p @ [x]) F1 = Some F2" "fact_chain c (p @ [x]) xs F2 = Some F'"
      using prems(1) by (auto simp: bind_eq_Some_conv)
    obtain h where h: "pf_headers F p = Some h" "F1 = F\<lparr>pf_headers := (pf_headers F)(p \<mapsto> charge_header c False h)\<rparr>"
      using F12(1) unfolding fact_header_Some by blast
    have "paths_ok F1" using prems(2) by (simp add: h(2))
    with F12(2) obtain e where e: "pf_entries F1 (p @ [x]) = Some e"
      "(ac_placement c = PlaceLeaf \<and> xs = []) \<longleftrightarrow> po_kind (st_observation e) \<noteq> EntryDirectory"
      "F2 = F1\<lparr>pf_entries := (pf_entries F1)(p @ [x] \<mapsto> charge_entry c (ac_placement c = PlaceLeaf \<and> xs = []) e)\<rparr>"
      unfolding fact_entry_Some [OF \<open>paths_ok F1\<close>] by blast
    have he: "pf_headers F p = Some h" "pf_entries F (p @ [x]) = Some e" using h e(1) by simp_all
    let ?F = "F\<lparr>pf_headers := (pf_headers F)(p \<mapsto> charge_header c False h),
      pf_entries := (pf_entries F)(p @ [x] \<mapsto> charge_entry c (ac_placement c = PlaceLeaf \<and> xs = []) e)\<rparr>"
    have F': "fact_chain c (p @ [x]) xs ?F = Some F'" using F12(3) by (simp only: e(3) h(2)) simp
    have "st_path e = p @ [x]" using prems(2) he(2) by (simp add: paths_ok_def)
    then have ok: "paths_ok ?F" using prems(2) by (simp add: paths_ok_def)
    note IH = Cons.IH(1) [of "p @ [x]" ?F, OF F' ok] Cons.IH(2) [of "p @ [x]" ?F, OF F' ok]
    have below: "\<exists>e. pf_entries F q = Some e \<and> (ac_placement c = PlaceLeaf \<and> q = p @ x # xs \<longleftrightarrow> po_kind (st_observation e) \<noteq> EntryDirectory)"
      if "strict_prefix (p @ [x]) q" "prefix q (p @ x # xs)"
    proof -
      have "q \<noteq> p @ [x]" using that(1) by (auto simp: strict_prefix_def)
      then show ?thesis using Cons.IH(3) [of "p @ [x]" ?F] F' ok that by simp
    qed
    have ok': "paths_ok F'" using Cons.IH(4) [of "p @ [x]" ?F] F' ok by simp
    show ?thesis unfolding chain_prefix chain_strict
    proof (intro conjI impI)
      show "pf_headers F' q = (if q = p \<or> prefix (p @ [x]) q \<and> strict_prefix q (p @ x # xs)
          then map_option (charge_header c False) (pf_headers F q) else pf_headers F q)"
        using IH(1) he(1) by (auto simp: strict_prefix_def prefix_def)
      show "pf_entries F' q = (if q = p @ [x] \<or> strict_prefix (p @ [x]) q \<and> prefix q (p @ x # xs)
          then map_option (charge_entry c (ac_placement c = PlaceLeaf \<and> q = p @ x # xs)) (pf_entries F q) else pf_entries F q)"
        using IH(2) he(2) by (auto simp: strict_prefix_def eq_commute [of "[]"])
      show "\<exists>e. pf_entries F q = Some e \<and> (ac_placement c = PlaceLeaf \<and> q = p @ x # xs \<longleftrightarrow> po_kind (st_observation e) \<noteq> EntryDirectory)"
        if q: "q = p @ [x] \<or> strict_prefix (p @ [x]) q \<and> prefix q (p @ x # xs)"
        using q he(2) e(2) below by (cases "q = p @ [x]") (auto simp: eq_commute [of "[]"])
      show "paths_ok F'" by (rule ok')
    qed
  qed
  {
    case 1
    then show ?case by (rule main [THEN conjunct1])
  next
    case 2
    then show ?case by (rule main [THEN conjunct2, THEN conjunct1])
  next
    case 3
    then show ?case using main by simp
  next
    case 4
    then show ?case using main by simp
  }
qed

lemma fact_allocation_Some:
  assumes "fact_allocation c F = Some F'" "paths_ok F"
  shows "pf_headers F' p = map_option (\<lambda>h. charge_header_at p h c) (pf_headers F p)"
    and "pf_entries F' p = map_option (\<lambda>e. charge_entry_at p e c) (pf_entries F p)"
    and "p \<noteq> [] \<Longrightarrow> prefix p (ac_recipient c) \<Longrightarrow> \<exists>e. pf_entries F p = Some e \<and>
      (ac_placement c = PlaceLeaf \<and> p = ac_recipient c \<longleftrightarrow> po_kind (st_observation e) \<noteq> EntryDirectory)"
    and "paths_ok F'"
proof -
  let ?r = "ac_recipient c"
  obtain F1 where F1: "fact_chain c [] ?r F = Some F1"
    "(if ac_placement c = PlaceShared then fact_header c True ?r F1 else Some F1) = Some F'"
    using assms(1) by (auto simp: fact_allocation_def bind_eq_Some_conv)
  note ch = fact_chain_Some [OF F1(1) assms(2)]
  have H1: "pf_headers F1 q = (if strict_prefix q ?r then map_option (charge_header c False) (pf_headers F q) else pf_headers F q)" for q
    using ch(1) [of q] by simp
  have E1: "pf_entries F1 q = map_option (\<lambda>e. charge_entry_at q e c) (pf_entries F q)" for q
    using ch(2) [of q] by (cases "pf_entries F q") (auto simp: charge_entry_at_def strict_prefix_def)
  show "p \<noteq> [] \<Longrightarrow> prefix p ?r \<Longrightarrow> \<exists>e. pf_entries F p = Some e \<and>
      (ac_placement c = PlaceLeaf \<and> p = ?r \<longleftrightarrow> po_kind (st_observation e) \<noteq> EntryDirectory)"
    using ch(3) [of p] by (simp add: strict_prefix_def)
  show "pf_headers F' p = map_option (\<lambda>h. charge_header_at p h c) (pf_headers F p)"
  proof (cases "ac_placement c = PlaceShared")
    case True
    with F1(2) obtain h where h: "pf_headers F1 ?r = Some h" "F' = F1\<lparr>pf_headers := (pf_headers F1)(?r \<mapsto> charge_header c True h)\<rparr>"
      by (auto simp: fact_header_Some)
    then show ?thesis using H1 [of p] H1 [of ?r] True
      by (cases "pf_headers F p") (auto simp: charge_header_at_def charged_def strict_prefix_def)
  next
    case False
    then show ?thesis using F1(2) H1 [of p]
      by (cases "pf_headers F p") (auto simp: charge_header_at_def charged_def strict_prefix_def)
  qed
  have "pf_entries F' = pf_entries F1" using F1(2) by (auto simp: fact_header_Some split: if_splits)
  then show "pf_entries F' p = map_option (\<lambda>e. charge_entry_at p e c) (pf_entries F p)" "paths_ok F'"
    using E1 ch(4) by (simp_all add: paths_ok_def)
qed

lemma allocations_Some:
  assumes "fold_opt fact_allocation cons F = Some F'" "paths_ok F"
  shows "pf_headers F' p = map_option (\<lambda>h. foldl (charge_header_at p) h cons) (pf_headers F p) \<and>
    pf_entries F' p = map_option (\<lambda>e. foldl (charge_entry_at p) e cons) (pf_entries F p) \<and> paths_ok F'"
  using assms
proof (induction cons arbitrary: F)
  case Nil
  then show ?case by (simp add: option.map_ident)
next
  case (Cons c cons)
  then obtain F1 where F1: "fact_allocation c F = Some F1" "fold_opt fact_allocation cons F1 = Some F'" by (auto simp: bind_eq_Some_conv)
  note c = fact_allocation_Some [OF F1(1) Cons.prems(2)]
  show ?case using Cons.IH [OF F1(2) c(4)] c(1) [of p] c(2) [of p] by (simp add: option.map_comp comp_def)
qed

text \<open>The metrics and the shared part of a header after the contributions.\<close>

lemma charged_metrics:
  "sh_header_metrics (foldl (charge_header_at p) h cons) = foldl add_contribution (sh_header_metrics h) (filter (charged p) cons)"
  by (induction cons arbitrary: h) (simp_all add: charge_header_at_def)

lemma charged_coverage: "sh_header_coverage (foldl (charge_header_at p) h cons) = sh_header_coverage h"
  by (induction cons arbitrary: h) (simp_all add: charge_header_at_def)

definition shared_at :: "relative_path \<Rightarrow> allocation_contribution \<Rightarrow> bool" where
  "shared_at p c \<longleftrightarrow> ac_placement c = PlaceShared \<and> ac_recipient c = p"

lemma charged_shared:
  "sh_header_shared (foldl (charge_header_at p) h cons) =
     (if filter (shared_at p) cons = [] then sh_header_shared h
      else Some (foldl add_contribution (case sh_header_shared h of None \<Rightarrow> sm_default | Some s \<Rightarrow> s) (filter (shared_at p) cons)))"
proof (induction cons arbitrary: h)
  case (Cons c cons)
  show ?case
  proof (cases "shared_at p c")
    case True
    then have "sh_header_shared (charge_header_at p h c) =
        Some (add_contribution (case sh_header_shared h of None \<Rightarrow> sm_default | Some s \<Rightarrow> s) c)"
      by (auto simp: charge_header_at_def charge_header_def charged_def shared_at_def)
    then show ?thesis using True Cons.IH [of "charge_header_at p h c"] by simp
  next
    case False
    then have "sh_header_shared (charge_header_at p h c) = sh_header_shared h"
      by (auto simp: charge_header_at_def charge_header_def shared_at_def)
    then show ?thesis using False Cons.IH [of "charge_header_at p h c"] by simp
  qed
qed simp

section \<open>Agreement of headers and rows\<close>

text \<open>The row of a directory in its parent carries the values of the directory's own header.\<close>

definition facts_agree :: "page_facts \<Rightarrow> bool" where
  "facts_agree F \<longleftrightarrow> paths_ok F \<and>
     (\<forall>p h. p \<noteq> [] \<longrightarrow> pf_headers F p = Some h \<longrightarrow> (\<exists>e. pf_entries F p = Some e \<and> po_kind (st_observation e) = EntryDirectory \<and>
        st_directory_summary_seen e \<and> st_metrics e = sh_header_metrics h \<and> st_coverage e = sh_header_coverage h)) \<and>
     (\<forall>p e. pf_entries F p = Some e \<longrightarrow> st_directory_summary_seen e \<longrightarrow> pf_headers F p \<noteq> None)"

lemma agree_path:
  assumes "fact_path ob F = Some F'" "facts_agree F"
  shows "facts_agree F'" "pf_headers F' = pf_headers F" "po_path ob \<noteq> []" "pf_entries F (po_path ob) = None"
    "pf_entries F' = (pf_entries F)(po_path ob \<mapsto> st_from_observation ob (of_nat (length (key_bytes (butlast (po_path ob))))))"
proof -
  let ?e = "st_from_observation ob (of_nat (length (key_bytes (butlast (po_path ob)))))"
  have e: "st_path ?e = po_path ob" "\<not> st_directory_summary_seen ?e" by (simp_all add: st_path_def st_from_observation_def Let_def)
  show F': "pf_headers F' = pf_headers F" "po_path ob \<noteq> []" "pf_entries F (po_path ob) = None"
    "pf_entries F' = (pf_entries F)(po_path ob \<mapsto> ?e)"
    using assms(1) e(1) by (auto simp: fact_path_def guard_opt_def set_entry_def Let_def split: if_splits)
  show "facts_agree F'"
    using assms(2) F'(3) e unfolding facts_agree_def paths_ok_def F'(1,4) by (auto split: if_splits)
qed

lemma agree_identity:
  assumes "fact_identity ob F = Some F'" "facts_agree F"
  shows "facts_agree F'" "pf_headers F' = pf_headers F"
    "\<exists>e. pf_entries F (io_path ob) = Some e \<and> po_kind (st_observation e) \<noteq> EntryDirectory \<and>
       (st_identity e = None \<or> st_identity e = Some (si_from_observation ob)) \<and>
       pf_entries F' = (pf_entries F)(io_path ob \<mapsto> e\<lparr>st_identity := Some (si_from_observation ob)\<rparr>)"
proof -
  obtain e where e: "pf_entries F (io_path ob) = Some e" "po_kind (st_observation e) \<noteq> EntryDirectory"
    "st_identity e = None \<or> st_identity e = Some (si_from_observation ob)"
    "F' = set_entry (e\<lparr>st_identity := Some (si_from_observation ob)\<rparr>) F"
    using assms(1) by (auto simp: fact_identity_def guard_opt_def bind_eq_Some_conv split: if_splits)
  have path: "st_path (e\<lparr>st_identity := Some (si_from_observation ob)\<rparr>) = io_path ob"
    using assms(2) e(1) by (simp add: facts_agree_def paths_ok_def st_path_def)
  have F': "pf_headers F' = pf_headers F" "pf_entries F' = (pf_entries F)(io_path ob \<mapsto> e\<lparr>st_identity := Some (si_from_observation ob)\<rparr>)"
    using e(4) path by (simp_all add: set_entry_def)
  show "pf_headers F' = pf_headers F" by (rule F'(1))
  show "\<exists>e. pf_entries F (io_path ob) = Some e \<and> po_kind (st_observation e) \<noteq> EntryDirectory \<and>
       (st_identity e = None \<or> st_identity e = Some (si_from_observation ob)) \<and>
       pf_entries F' = (pf_entries F)(io_path ob \<mapsto> e\<lparr>st_identity := Some (si_from_observation ob)\<rparr>)"
    using e(1-3) F'(2) by blast
  show "facts_agree F'"
    using assms(2) e(1,2) path unfolding facts_agree_def paths_ok_def F' by (fastforce split: if_splits)
qed

definition summary_header :: "directory_summary \<Rightarrow> stored_header" where
  "summary_header y = \<lparr>sh_header_metrics = ds_metrics y, sh_header_coverage = ds_coverage y, sh_header_shared = None\<rparr>"

definition with_summary :: "directory_summary \<Rightarrow> stored_entry \<Rightarrow> stored_entry" where
  "with_summary y e = e\<lparr>st_metrics := ds_metrics y, st_coverage := ds_coverage y, st_directory_summary_seen := True\<rparr>"

lemma agree_summary:
  assumes "fact_summary y F = Some F'" "facts_agree F"
  shows "facts_agree F'" "pf_headers F (ds_path y) = None" "pf_headers F' = (pf_headers F)(ds_path y \<mapsto> summary_header y)"
    "if ds_path y = [] then pf_entries F' = pf_entries F
     else \<exists>e. pf_entries F (ds_path y) = Some e \<and> po_kind (st_observation e) = EntryDirectory \<and>
       pf_entries F' = (pf_entries F)(ds_path y \<mapsto> with_summary y e)"
proof -
  show none: "pf_headers F (ds_path y) = None" using assms(1) by (auto simp: fact_summary_def Let_def split: if_splits)
  have both: "pf_headers F' = (pf_headers F)(ds_path y \<mapsto> summary_header y) \<and> (if ds_path y = [] then pf_entries F' = pf_entries F
     else \<exists>e. pf_entries F (ds_path y) = Some e \<and> po_kind (st_observation e) = EntryDirectory \<and>
       pf_entries F' = (pf_entries F)(ds_path y \<mapsto> with_summary y e))"
  proof (cases "ds_path y = []")
    case True
    then show ?thesis using assms(1) none by (auto simp: fact_summary_def set_header_def summary_header_def Let_def split: if_splits)
  next
    case False
    then obtain e where e: "pf_entries F (ds_path y) = Some e" "po_kind (st_observation e) = EntryDirectory"
      "F' = set_entry (with_summary y e) (set_header (ds_path y) (summary_header y) F)"
      using assms(1) none
      by (auto simp: fact_summary_def with_summary_def summary_header_def guard_opt_def bind_eq_Some_conv Let_def split: if_splits)
    have "st_path (with_summary y e) = ds_path y"
      using assms(2) e(1) by (simp add: facts_agree_def paths_ok_def st_path_def with_summary_def)
    then show ?thesis using e False by (simp add: set_entry_def set_header_def)
  qed
  then show "pf_headers F' = (pf_headers F)(ds_path y \<mapsto> summary_header y)" and entries: "if ds_path y = [] then pf_entries F' = pf_entries F
     else \<exists>e. pf_entries F (ds_path y) = Some e \<and> po_kind (st_observation e) = EntryDirectory \<and>
       pf_entries F' = (pf_entries F)(ds_path y \<mapsto> with_summary y e)" by blast+
  show "facts_agree F'"
  proof (cases "ds_path y = []")
    case True
    with both have "pf_headers F' = (pf_headers F)([] \<mapsto> summary_header y)" "pf_entries F' = pf_entries F" by simp_all
    then show ?thesis using assms(2) unfolding facts_agree_def paths_ok_def by simp
  next
    case False
    with both obtain e where e: "pf_headers F' = (pf_headers F)(ds_path y \<mapsto> summary_header y)" "pf_entries F (ds_path y) = Some e"
      "po_kind (st_observation e) = EntryDirectory" "pf_entries F' = (pf_entries F)(ds_path y \<mapsto> with_summary y e)" by auto
    have w: "st_path (with_summary y e) = st_path e" "st_observation (with_summary y e) = st_observation e" "st_directory_summary_seen (with_summary y e)"
      "st_metrics (with_summary y e) = ds_metrics y" "st_coverage (with_summary y e) = ds_coverage y" by (simp_all add: with_summary_def st_path_def)
    show ?thesis
      using assms(2) e(2,3) w unfolding facts_agree_def paths_ok_def e(1,4) by (auto simp: summary_header_def split: if_splits)
  qed
qed

lemma agree_allocation:
  assumes "fact_allocation c F = Some F'" "facts_agree F"
  shows "facts_agree F'"
proof -
  have ok: "paths_ok F" using assms(2) by (simp add: facts_agree_def)
  note c = fact_allocation_Some [OF assms(1) ok]
  have "\<exists>e'. pf_entries F' p = Some e' \<and> po_kind (st_observation e') = EntryDirectory \<and> st_directory_summary_seen e' \<and>
      st_metrics e' = sh_header_metrics h' \<and> st_coverage e' = sh_header_coverage h'"
    if p: "p \<noteq> []" "pf_headers F' p = Some h'" for p h'
  proof -
    obtain h where h: "pf_headers F p = Some h" "h' = charge_header_at p h c" using c(1) [of p] p(2) by (cases "pf_headers F p") simp_all
    obtain e where e: "pf_entries F p = Some e" "po_kind (st_observation e) = EntryDirectory" "st_directory_summary_seen e"
      "st_metrics e = sh_header_metrics h" "st_coverage e = sh_header_coverage h"
      using assms(2) p(1) h(1) unfolding facts_agree_def by blast
    have leaf: "\<not> (ac_placement c = PlaceLeaf \<and> p = ac_recipient c)" if "prefix p (ac_recipient c)" using c(3) [OF p(1) that] e(1,2) by auto
    have sh: "ac_placement c \<noteq> PlaceLeaf \<longleftrightarrow> ac_placement c = PlaceShared" by (cases "ac_placement c") simp_all
    have "st_metrics (charge_entry_at p e c) = sh_header_metrics h'" 
      using leaf sh p(1) e(4) unfolding h(2) by (auto simp: charge_entry_at_def charge_header_at_def charged_def charge_entry_def)
    moreover have "st_observation (charge_entry_at p e c) = st_observation e" "st_coverage (charge_entry_at p e c) = st_coverage e"
      "st_directory_summary_seen (charge_entry_at p e c) = st_directory_summary_seen e" by (simp_all add: charge_entry_at_def)
    moreover have "sh_header_coverage h' = sh_header_coverage h" by (simp add: h(2) charge_header_at_def)
    ultimately show ?thesis using c(2) [of p] e by simp
  qed
  moreover have "pf_headers F' p \<noteq> None" if seen: "pf_entries F' p = Some e'" "st_directory_summary_seen e'" for p e'
  proof -
    obtain e where "pf_entries F p = Some e" "e' = charge_entry_at p e c" using c(2) [of p] seen(1) by (cases "pf_entries F p") simp_all
    then have "pf_headers F p \<noteq> None" using assms(2) seen(2) by (auto simp: facts_agree_def charge_entry_at_def split: if_splits)
    then show ?thesis using c(1) [of p] by auto
  qed
  ultimately show ?thesis using c(4) unfolding facts_agree_def by blast
qed

section \<open>Families of facts\<close>

lemma fold_opt_invariant:
  assumes "fold_opt f xs s = Some s'" "P s" "\<And>x s s'. x \<in> set xs \<Longrightarrow> f x s = Some s' \<Longrightarrow> P s \<Longrightarrow> P s'"
  shows "P s'"
  using assms by (induction xs arbitrary: s) (auto simp: bind_eq_Some_conv)

definition row_of :: "path_observation \<Rightarrow> stored_entry" where
  "row_of ob = st_from_observation ob (of_nat (length (key_bytes (butlast (po_path ob)))))"

lemma paths_Some:
  assumes "fold_opt fact_path obs F = Some F'" "facts_agree F"
  shows "distinct (map po_path obs)" "[] \<notin> po_path ` set obs" "\<forall>ob \<in> set obs. pf_entries F (po_path ob) = None \<and> pf_entries F' (po_path ob) = Some (row_of ob)"
    "\<forall>p. p \<notin> po_path ` set obs \<longrightarrow> pf_entries F' p = pf_entries F p" "pf_headers F' = pf_headers F" "facts_agree F'"
  using assms
proof (induction obs arbitrary: F)
  case (Cons ob obs)
  have main: "distinct (map po_path (ob # obs)) \<and> [] \<notin> po_path ` set (ob # obs) \<and>
    (\<forall>x \<in> set (ob # obs). pf_entries F (po_path x) = None \<and> pf_entries F' (po_path x) = Some (row_of x)) \<and>
    (\<forall>p. p \<notin> po_path ` set (ob # obs) \<longrightarrow> pf_entries F' p = pf_entries F p) \<and> pf_headers F' = pf_headers F \<and> facts_agree F'"
    if prems: "fold_opt fact_path (ob # obs) F = Some F'" "facts_agree F" for F
  proof -
    obtain F1 where F1: "fact_path ob F = Some F1" "fold_opt fact_path obs F1 = Some F'" using prems(1) by (auto simp: bind_eq_Some_conv)
    note a = agree_path [OF F1(1) prems(2)]
    note IH = Cons.IH [OF F1(2) a(1)]
    have fresh: "po_path ob \<notin> po_path ` set obs"
    proof
      assume "po_path ob \<in> po_path ` set obs"
      then obtain x where "x \<in> set obs" "po_path x = po_path ob" by auto
      then have "pf_entries F1 (po_path ob) = None" using IH(3) by metis
      then show False by (simp add: a(5))
    qed
    have same: "pf_entries F1 p = pf_entries F p" if "p \<noteq> po_path ob" for p using that by (simp add: a(5))
    have "pf_entries F' (po_path ob) = Some (row_of ob)" using IH(4) fresh by (simp add: a(5) row_of_def)
    moreover have "pf_entries F (po_path x) = None" if "x \<in> set obs" for x
      using IH(3) that same [of "po_path x"] fresh by (metis image_eqI)
    ultimately show ?thesis using IH a(2-4) fresh same by auto
  qed
  {
    case 1
    then show ?case using main by blast
  next
    case 2
    then show ?case using main by blast
  next
    case 3
    then show ?case using main by blast
  next
    case 4
    then show ?case using main by blast
  next
    case 5
    then show ?case using main by blast
  next
    case 6
    then show ?case using main by blast
  }
qed simp_all

definition identity_at :: "relative_path \<Rightarrow> identity_observation list \<Rightarrow> stored_identity option \<Rightarrow> stored_identity option" where
  "identity_at p ids old = (case find (\<lambda>i. io_path i = p) ids of None \<Rightarrow> old | Some i \<Rightarrow> Some (si_from_observation i))"

lemma identities_Some:
  assumes "fold_opt fact_identity ids F = Some F'" "facts_agree F"
  shows "pf_entries F' p = map_option (\<lambda>e. e\<lparr>st_identity := identity_at p ids (st_identity e)\<rparr>) (pf_entries F p) \<and>
    (\<forall>i \<in> set ids. io_path i = p \<longrightarrow> (\<exists>e. pf_entries F p = Some e \<and> po_kind (st_observation e) \<noteq> EntryDirectory \<and>
      (st_identity e = None \<or> st_identity e = Some (si_from_observation i)))) \<and> pf_headers F' = pf_headers F \<and> facts_agree F'"
  using assms
proof (induction ids arbitrary: F)
  case Nil
  then show ?case by (simp add: identity_at_def option.map_ident)
next
  case (Cons i ids)
  then obtain F1 where F1: "fact_identity i F = Some F1" "fold_opt fact_identity ids F1 = Some F'" by (auto simp: bind_eq_Some_conv)
  note a = agree_identity [OF F1(1) Cons.prems(2)]
  note IH = Cons.IH [OF F1(2) a(1)]
  obtain e where e: "pf_entries F (io_path i) = Some e" "po_kind (st_observation e) \<noteq> EntryDirectory"
    "st_identity e = None \<or> st_identity e = Some (si_from_observation i)"
    "pf_entries F1 = (pf_entries F)(io_path i \<mapsto> e\<lparr>st_identity := Some (si_from_observation i)\<rparr>)" using a(3) by blast
  show ?case
  proof (cases "io_path i = p")
    case False
    then have "pf_entries F1 p = pf_entries F p" by (simp add: e(4))
    then show ?thesis using IH a(2) False by (simp add: identity_at_def)
  next
    case True
    have later: "si_from_observation j = si_from_observation i" if "j \<in> set ids" "io_path j = p" for j
      using IH that True e(4) by auto
    have "identity_at p ids (Some (si_from_observation i)) = Some (si_from_observation i)"
    proof (cases "find (\<lambda>i. io_path i = p) ids")
      case (Some j)
      then have "j \<in> set ids" "io_path j = p" by (auto simp: find_Some_iff)
      then show ?thesis using later Some by (simp add: identity_at_def)
    qed (simp add: identity_at_def)
    then have "pf_entries F' p = Some (e\<lparr>st_identity := Some (si_from_observation i)\<rparr>)" using IH e(4) True by simp
    then show ?thesis using True e(1-3) later IH a(2) by (simp add: identity_at_def)
  qed
qed

lemma summaries_Some:
  assumes "fold_opt fact_summary sums F = Some F'" "facts_agree F"
  shows "(\<forall>y \<in> set sums. pf_headers F (ds_path y) = None \<and> pf_headers F' (ds_path y) = Some (summary_header y)) \<and>
    (\<forall>p. p \<notin> ds_path ` set sums \<longrightarrow> pf_headers F' p = pf_headers F p) \<and>
    (\<forall>p. rel_option (\<lambda>e e'. st_observation e' = st_observation e \<and> (po_kind (st_observation e) \<noteq> EntryDirectory \<longrightarrow> e' = e))
      (pf_entries F p) (pf_entries F' p)) \<and> facts_agree F'"
  using assms
proof (induction sums arbitrary: F)
  case Nil
  then show ?case by (simp add: option.rel_refl)
next
  case (Cons y sums)
  let ?kept = "\<lambda>e e'. st_observation e' = st_observation e \<and> (po_kind (st_observation e) \<noteq> EntryDirectory \<longrightarrow> e' = e)"
  obtain F1 where F1: "fact_summary y F = Some F1" "fold_opt fact_summary sums F1 = Some F'" using Cons.prems(1) by (auto simp: bind_eq_Some_conv)
  note a = agree_summary [OF F1(1) Cons.prems(2)]
  note IH = Cons.IH [OF F1(2) a(1)]
  have fresh: "ds_path y \<notin> ds_path ` set sums"
  proof
    assume "ds_path y \<in> ds_path ` set sums"
    then obtain z where "z \<in> set sums" "ds_path z = ds_path y" by auto
    then have "pf_headers F1 (ds_path y) = None" using IH by metis
    then show False by (simp add: a(3))
  qed
  have row: "rel_option ?kept (pf_entries F p) (pf_entries F1 p)" for p
    using a(4) by (cases "pf_entries F p"; cases "ds_path y = []") (auto simp: with_summary_def)
  have "rel_option ?kept (pf_entries F p) (pf_entries F' p)" for p
  proof -
    have "rel_option ?kept (pf_entries F1 p) (pf_entries F' p)" using IH by blast
    with row [of p] show ?thesis by (cases "pf_entries F p") (auto simp: option_rel_Some1)
  qed
  moreover have "pf_headers F (ds_path z) = None" if "z \<in> set sums" for z
  proof -
    have "ds_path z \<noteq> ds_path y" using fresh that by (metis image_eqI)
    moreover have "pf_headers F1 (ds_path z) = None" using IH that by blast
    ultimately show ?thesis by (simp add: a(3))
  qed
  moreover have "pf_headers F' (ds_path y) = Some (summary_header y)" using IH fresh by (simp add: a(3))
  moreover have "pf_headers F' p = pf_headers F p" if "p \<notin> ds_path ` set (y # sums)" for p using IH that by (simp add: a(3))
  ultimately show ?case using IH a(2) by simp
qed

section \<open>The closed form\<close>

definition leaf_at :: "relative_path \<Rightarrow> allocation_contribution \<Rightarrow> bool" where
  "leaf_at p c \<longleftrightarrow> ac_placement c = PlaceLeaf \<and> ac_recipient c = p"

definition header_with :: "directory_summary \<Rightarrow> allocation_contribution list \<Rightarrow> stored_header" where
  "header_with y cons =
     \<lparr>sh_header_metrics = foldl add_contribution (ds_metrics y) (filter (charged (ds_path y)) cons),
      sh_header_coverage = ds_coverage y,
      sh_header_shared = (if filter (shared_at (ds_path y)) cons = [] then None
        else Some (foldl add_contribution sm_default (filter (shared_at (ds_path y)) cons)))\<rparr>"

definition leaf_row :: "path_observation \<Rightarrow> identity_observation list \<Rightarrow> allocation_contribution list \<Rightarrow> stored_entry" where
  "leaf_row ob ids cons =
     (let e = (row_of ob)\<lparr>st_identity := identity_at (po_path ob) ids (snapshot_identity ob)\<rparr> in
      e\<lparr>st_metrics := foldl (\<lambda>m c. set_physical (ac_allocated_bytes c) (ac_reclaimable_bytes c) m) (po_metrics ob) (filter (leaf_at (po_path ob)) cons),
        st_leaf_allocation_seen := (st_leaf_allocation_seen e \<or> filter (leaf_at (po_path ob)) cons \<noteq> [])\<rparr>)"

lemma header_with_charged: "foldl (charge_header_at (ds_path y)) (summary_header y) cons = header_with y cons"
  by (rule stored_header.equality)
    (simp_all add: charged_metrics charged_coverage charged_shared header_with_def summary_header_def)

lemma leaf_targets:
  assumes "fold_opt fact_allocation cons F = Some F'" "paths_ok F" "pf_entries F p = Some e" "po_kind (st_observation e) \<noteq> EntryDirectory" "p \<noteq> []"
  shows "\<forall>c \<in> set cons. prefix p (ac_recipient c) \<longrightarrow> leaf_at p c"
  using assms(1-4)
proof (induction cons arbitrary: F e)
  case (Cons c cons)
  then obtain F1 where F1: "fact_allocation c F = Some F1" "fold_opt fact_allocation cons F1 = Some F'" by (auto simp: bind_eq_Some_conv)
  note a = fact_allocation_Some [OF F1(1) Cons.prems(2)]
  have "leaf_at p c" if "prefix p (ac_recipient c)" using a(3) [OF assms(5) that] Cons.prems(3,4) by (auto simp: leaf_at_def)
  moreover have "pf_entries F1 p = Some (charge_entry_at p e c)" using a(2) [of p] Cons.prems(3) by simp
  moreover have "po_kind (st_observation (charge_entry_at p e c)) \<noteq> EntryDirectory" using Cons.prems(4) by (simp add: charge_entry_at_def)
  ultimately show ?case using Cons.IH [OF F1(2) a(4)] by simp
qed simp

lemma leaf_charges:
  assumes "\<forall>c \<in> set cons. prefix p (ac_recipient c) \<longrightarrow> leaf_at p c" "p \<noteq> []"
  shows "foldl (charge_entry_at p) e cons =
    e\<lparr>st_metrics := foldl (\<lambda>m c. set_physical (ac_allocated_bytes c) (ac_reclaimable_bytes c) m) (st_metrics e) (filter (leaf_at p) cons),
      st_leaf_allocation_seen := (st_leaf_allocation_seen e \<or> filter (leaf_at p) cons \<noteq> [])\<rparr>"
  using assms(1)
proof (induction cons arbitrary: e)
  case (Cons c cons)
  show ?case
  proof (cases "leaf_at p c")
    case True
    then have "charge_entry_at p e c = e\<lparr>st_metrics := set_physical (ac_allocated_bytes c) (ac_reclaimable_bytes c) (st_metrics e),
        st_leaf_allocation_seen := True\<rparr>"
      using assms(2) by (simp add: charge_entry_at_def leaf_at_def charge_entry_def)
    then show ?thesis using True Cons by simp
  next
    case False
    then have "charge_entry_at p e c = e" using Cons.prems by (auto simp: charge_entry_at_def)
    then show ?thesis using False Cons by simp
  qed
qed simp

lemma page_facts_of_Some:
  assumes "page_facts_of obs ids sums cons = Some F"
  obtains F1 F2 F3 where "fold_opt fact_path obs no_facts = Some F1" "fold_opt fact_identity ids F1 = Some F2"
    "fold_opt fact_summary sums F2 = Some F3" "fold_opt fact_allocation cons F3 = Some F"
    "facts_agree no_facts" "facts_agree F1" "facts_agree F2" "facts_agree F3" "facts_agree F"
proof -
  obtain F1 F2 F3 where F: "fold_opt fact_path obs no_facts = Some F1" "fold_opt fact_identity ids F1 = Some F2"
    "fold_opt fact_summary sums F2 = Some F3" "fold_opt fact_allocation cons F3 = Some F"
    using assms by (auto simp: page_facts_of_def bind_eq_Some_conv)
  have a0: "facts_agree no_facts" by (simp add: facts_agree_def paths_ok_def no_facts_def)
  then have a1: "facts_agree F1" using paths_Some(6) [OF F(1)] by blast
  then have a2: "facts_agree F2" using identities_Some [OF F(2)] by blast
  then have a3: "facts_agree F3" using summaries_Some [OF F(3)] by blast
  have "facts_agree F" using fold_opt_invariant [where P = facts_agree, OF F(4) a3] agree_allocation by blast
  with F a0 a1 a2 a3 show ?thesis by (rule that)
qed

lemma page_facts_closed:
  assumes "page_facts_of obs ids sums cons = Some F"
  shows "distinct (map po_path obs)" "dom (pf_entries F) = po_path ` set obs" "dom (pf_headers F) = ds_path ` set sums"
    "y \<in> set sums \<Longrightarrow> pf_headers F (ds_path y) = Some (header_with y cons)"
    "ob \<in> set obs \<Longrightarrow> po_kind ob \<noteq> EntryDirectory \<Longrightarrow> pf_entries F (po_path ob) = Some (leaf_row ob ids cons)"
    "ob \<in> set obs \<Longrightarrow> \<exists>e. pf_entries F (po_path ob) = Some e \<and> st_observation e = ob \<and>
       (st_directory_summary_seen e \<longleftrightarrow> pf_headers F (po_path ob) \<noteq> None) \<and>
       (\<forall>h. pf_headers F (po_path ob) = Some h \<longrightarrow> po_kind ob = EntryDirectory \<and> st_metrics e = sh_header_metrics h \<and> st_coverage e = sh_header_coverage h)"
    "facts_agree F"
proof -
  obtain F1 F2 F3 where F: "fold_opt fact_path obs no_facts = Some F1" "fold_opt fact_identity ids F1 = Some F2"
    "fold_opt fact_summary sums F2 = Some F3" "fold_opt fact_allocation cons F3 = Some F"
    and a: "facts_agree no_facts" "facts_agree F1" "facts_agree F2" "facts_agree F3" "facts_agree F"
    by (rule page_facts_of_Some [OF assms]) blast
  note s1 = paths_Some [OF F(1) a(1)]
  have s2: "pf_entries F2 p = map_option (\<lambda>e. e\<lparr>st_identity := identity_at p ids (st_identity e)\<rparr>) (pf_entries F1 p)"
    "pf_headers F2 = pf_headers F1" for p using identities_Some [OF F(2) a(2)] by blast+
  note s3 = summaries_Some [OF F(3) a(3)]
  have ok: "paths_ok F3" using a(4) by (simp add: facts_agree_def)
  have s4: "pf_headers F p = map_option (\<lambda>h. foldl (charge_header_at p) h cons) (pf_headers F3 p)"
    "pf_entries F p = map_option (\<lambda>e. foldl (charge_entry_at p) e cons) (pf_entries F3 p)" for p
    using allocations_Some [OF F(4) ok] by blast+
  show "distinct (map po_path obs)" "facts_agree F" by (rule s1(1)) (rule a(5))
  have H3: "pf_headers F3 p = None" if "p \<notin> ds_path ` set sums" for p
    using s3 that s2(2) s1(5) by (simp add: no_facts_def)
  show header: "pf_headers F (ds_path y) = Some (header_with y cons)" if "y \<in> set sums" for y
  proof -
    have "pf_headers F3 (ds_path y) = Some (summary_header y)" using s3 that by blast
    then show ?thesis by (simp add: s4(1) header_with_charged)
  qed
  have "pf_headers F p = None \<longleftrightarrow> p \<notin> ds_path ` set sums" for p
  proof
    assume "pf_headers F p = None"
    then show "p \<notin> ds_path ` set sums" using header by auto
  next
    assume "p \<notin> ds_path ` set sums"
    then show "pf_headers F p = None" using H3 by (simp add: s4(1))
  qed
  then show "dom (pf_headers F) = ds_path ` set sums" unfolding dom_def by simp
  have obs3: "(\<exists>e. pf_entries F3 p = Some e) \<longleftrightarrow> (\<exists>e. pf_entries F1 p = Some e)" for p
  proof -
    have "rel_option (\<lambda>e e'. st_observation e' = st_observation e \<and> (po_kind (st_observation e) \<noteq> EntryDirectory \<longrightarrow> e' = e))
      (pf_entries F2 p) (pf_entries F3 p)" using s3 by blast
    then show ?thesis using s2(1) [of p] by (cases "pf_entries F1 p"; cases "pf_entries F3 p") simp_all
  qed
  have F1: "pf_entries F1 p = None \<longleftrightarrow> p \<notin> po_path ` set obs" for p using s1(3,4) by (auto simp: no_facts_def)
  have "pf_entries F p = None \<longleftrightarrow> p \<notin> po_path ` set obs" for p using obs3 [of p] F1 [of p] s4(2) [of p] by (cases "pf_entries F3 p") auto
  then show dom: "dom (pf_entries F) = po_path ` set obs" unfolding dom_def by simp
  have row3: "\<exists>e. pf_entries F3 (po_path ob) = Some e \<and> st_observation e = ob \<and>
      (po_kind ob \<noteq> EntryDirectory \<longrightarrow> e = (row_of ob)\<lparr>st_identity := identity_at (po_path ob) ids (snapshot_identity ob)\<rparr>)"
    if ob: "ob \<in> set obs" for ob
  proof -
    have r: "st_observation (row_of ob) = ob" "st_identity (row_of ob) = snapshot_identity ob" by (simp_all add: row_of_def st_from_observation_def Let_def)
    have "pf_entries F2 (po_path ob) = Some ((row_of ob)\<lparr>st_identity := identity_at (po_path ob) ids (snapshot_identity ob)\<rparr>)"
      using s1(3) ob s2(1) [of "po_path ob"] r(2) by simp
    moreover have "rel_option (\<lambda>e e'. st_observation e' = st_observation e \<and> (po_kind (st_observation e) \<noteq> EntryDirectory \<longrightarrow> e' = e))
      (pf_entries F2 (po_path ob)) (pf_entries F3 (po_path ob))" using s3 by blast
    ultimately show ?thesis using r(1) by (auto simp: option_rel_Some1)
  qed
  show "pf_entries F (po_path ob) = Some (leaf_row ob ids cons)" if ob: "ob \<in> set obs" "po_kind ob \<noteq> EntryDirectory" for ob
  proof -
    let ?e = "(row_of ob)\<lparr>st_identity := identity_at (po_path ob) ids (snapshot_identity ob)\<rparr>"
    have e: "pf_entries F3 (po_path ob) = Some ?e" "st_observation ?e = ob" using row3 [OF ob(1)] ob(2) by auto
    have ne: "po_path ob \<noteq> []" using s1(2) ob(1) by (metis image_eqI)
    have "po_kind (st_observation ?e) \<noteq> EntryDirectory" using e(2) ob(2) by simp
    from leaf_charges [OF leaf_targets [OF F(4) ok e(1) this ne] ne, of ?e] show ?thesis
      using e(1) by (simp add: s4(2) leaf_row_def Let_def row_of_def st_from_observation_def)
  qed
  show "\<exists>e. pf_entries F (po_path ob) = Some e \<and> st_observation e = ob \<and>
       (st_directory_summary_seen e \<longleftrightarrow> pf_headers F (po_path ob) \<noteq> None) \<and>
       (\<forall>h. pf_headers F (po_path ob) = Some h \<longrightarrow> po_kind ob = EntryDirectory \<and> st_metrics e = sh_header_metrics h \<and> st_coverage e = sh_header_coverage h)"
    if ob: "ob \<in> set obs" for ob
  proof -
    obtain e3 where e3: "pf_entries F3 (po_path ob) = Some e3" "st_observation e3 = ob" using row3 [OF ob] by blast
    let ?e = "foldl (charge_entry_at (po_path ob)) e3 cons"
    have "st_observation (foldl (charge_entry_at q) e xs) = st_observation e" for q e xs
      by (induction xs arbitrary: e) (simp_all add: charge_entry_at_def)
    then have e: "pf_entries F (po_path ob) = Some ?e" "st_observation ?e = ob" using e3 by (simp_all add: s4(2))
    have ne: "po_path ob \<noteq> []" using s1(2) ob by (metis image_eqI)
    have "st_directory_summary_seen ?e \<longrightarrow> pf_headers F (po_path ob) \<noteq> None" using a(5) e(1) unfolding facts_agree_def by blast
    moreover have "st_directory_summary_seen ?e \<and> po_kind ob = EntryDirectory \<and> st_metrics ?e = sh_header_metrics h \<and> st_coverage ?e = sh_header_coverage h"
      if "pf_headers F (po_path ob) = Some h" for h
      using a(5) ne that e unfolding facts_agree_def by (metis option.inject)
    ultimately show ?thesis using e by blast
  qed
qed

section \<open>Consistent facts\<close>

definition consistent_facts :: "path_observation list \<Rightarrow> identity_observation list \<Rightarrow> directory_summary list \<Rightarrow>
    allocation_contribution list \<Rightarrow> bool" where
  "consistent_facts obs ids sums cons \<longleftrightarrow>
     distinct (map po_path obs) \<and> (\<forall>ob \<in> set obs. po_path ob \<noteq> [] \<and> length (key_bytes (butlast (po_path ob))) < 2 ^ 32) \<and>
     (\<forall>i \<in> set ids. (\<exists>ob \<in> set obs. po_path ob = io_path i \<and> po_kind ob \<noteq> EntryDirectory \<and>
        (snapshot_identity ob = None \<or> snapshot_identity ob = Some (si_from_observation i))) \<and>
        (\<forall>j \<in> set ids. io_path j = io_path i \<longrightarrow> si_from_observation j = si_from_observation i)) \<and>
     distinct (map ds_path sums) \<and> [] \<in> ds_path ` set sums \<and>
     (\<forall>y \<in> set sums. ds_path y = [] \<or> (\<exists>ob \<in> set obs. po_path ob = ds_path y \<and> po_kind ob = EntryDirectory)) \<and>
     (\<forall>c \<in> set cons. (\<forall>p. charged p c \<longrightarrow> p \<in> ds_path ` set sums) \<and>
        (ac_placement c = PlaceLeaf \<longrightarrow> (\<exists>ob \<in> set obs. po_path ob = ac_recipient c \<and> po_kind ob \<noteq> EntryDirectory)))"

lemma fold_opt_exists:
  assumes "P s" "\<And>ys x zs s. xs = ys @ x # zs \<Longrightarrow> P s \<Longrightarrow> fold_opt f ys s0 = Some s \<Longrightarrow> \<exists>s'. f x s = Some s' \<and> P s'"
    and "xs = done_xs @ rest" "fold_opt f done_xs s0 = Some s"
  shows "\<exists>s'. fold_opt f rest s = Some s' \<and> P s'"
  using assms(1,3,4)
proof (induction rest arbitrary: done_xs s)
  case (Cons x rest)
  obtain s1 where s1: "f x s = Some s1" "P s1" using assms(2) [OF Cons.prems(2,1,3)] by blast
  have "fold_opt f (done_xs @ [x]) s0 = Some s1" using Cons.prems(3) s1(1) by (simp add: fold_opt_append)
  then show ?case using Cons.IH [of s1 "done_xs @ [x]"] s1 Cons.prems(2) by simp
qed simp

lemma paths_exist:
  assumes "distinct (map po_path obs)" "\<forall>ob \<in> set obs. po_path ob \<noteq> [] \<and> length (key_bytes (butlast (po_path ob))) < 2 ^ 32"
  shows "\<exists>F. fold_opt fact_path obs no_facts = Some F"
proof -
  have "\<exists>F. fold_opt fact_path obs no_facts = Some F \<and> facts_agree F"
  proof (rule fold_opt_exists [where xs = obs and done_xs = "[]" and ?s0.0 = no_facts])
    show "facts_agree no_facts" by (simp add: facts_agree_def paths_ok_def no_facts_def)
    fix ys x zs F assume xs: "obs = ys @ x # zs" "facts_agree F" "fold_opt fact_path ys no_facts = Some F"
    have "facts_agree no_facts" by (simp add: facts_agree_def paths_ok_def no_facts_def)
    from paths_Some(4) [OF xs(3) this] have "pf_entries F (po_path x) = None" using assms(1) by (simp add: xs(1) no_facts_def)
    then have "\<exists>F'. fact_path x F = Some F'" using assms(2) by (simp add: xs(1) fact_path_def guard_opt_def Let_def)
    then show "\<exists>F'. fact_path x F = Some F' \<and> facts_agree F'" using agree_path(1) xs(2) by blast
  qed simp_all
  then show ?thesis by blast
qed

lemma identities_exist:
  assumes "facts_agree F0"
    "\<forall>i \<in> set ids. (\<exists>e. pf_entries F0 (io_path i) = Some e \<and> po_kind (st_observation e) \<noteq> EntryDirectory \<and>
        (st_identity e = None \<or> st_identity e = Some (si_from_observation i))) \<and>
      (\<forall>j \<in> set ids. io_path j = io_path i \<longrightarrow> si_from_observation j = si_from_observation i)"
  shows "\<exists>F. fold_opt fact_identity ids F0 = Some F"
proof -
  have "\<exists>F. fold_opt fact_identity ids F0 = Some F \<and> facts_agree F"
  proof (rule fold_opt_exists [where xs = ids and done_xs = "[]" and ?s0.0 = F0])
    fix ys x zs F assume xs: "ids = ys @ x # zs" "facts_agree F" "fold_opt fact_identity ys F0 = Some F"
    from assms(2) xs(1) obtain e where e: "pf_entries F0 (io_path x) = Some e" "po_kind (st_observation e) \<noteq> EntryDirectory"
      "st_identity e = None \<or> st_identity e = Some (si_from_observation x)" by auto
    have "identity_at (io_path x) ys (st_identity e) = None \<or> identity_at (io_path x) ys (st_identity e) = Some (si_from_observation x)"
    proof (cases "find (\<lambda>i. io_path i = io_path x) ys")
      case (Some j)
      then have "j \<in> set ys" "io_path j = io_path x" by (auto simp: find_Some_iff)
      then show ?thesis using assms(2) xs(1) Some by (auto simp: identity_at_def)
    qed (use e in \<open>simp add: identity_at_def\<close>)
    moreover have "pf_entries F (io_path x) = Some (e\<lparr>st_identity := identity_at (io_path x) ys (st_identity e)\<rparr>)"
      using identities_Some [OF xs(3) assms(1), of "io_path x"] e(1) by simp
    ultimately have "\<exists>F'. fact_identity x F = Some F'" using e(2) by (simp add: fact_identity_def guard_opt_def)
    then show "\<exists>F'. fact_identity x F = Some F' \<and> facts_agree F'" using agree_identity(1) xs(2) by blast
  qed (simp_all add: assms)
  then show ?thesis by blast
qed

lemma summaries_exist:
  assumes "facts_agree F0" "distinct (map ds_path sums)" "\<forall>y \<in> set sums. pf_headers F0 (ds_path y) = None"
    "\<forall>y \<in> set sums. ds_path y = [] \<or> (\<exists>e. pf_entries F0 (ds_path y) = Some e \<and> po_kind (st_observation e) = EntryDirectory)"
  shows "\<exists>F. fold_opt fact_summary sums F0 = Some F"
proof -
  have "\<exists>F. fold_opt fact_summary sums F0 = Some F \<and> facts_agree F"
  proof (rule fold_opt_exists [where xs = sums and done_xs = "[]" and ?s0.0 = F0])
    fix ys x zs F assume xs: "sums = ys @ x # zs" "facts_agree F" "fold_opt fact_summary ys F0 = Some F"
    note s = summaries_Some [OF xs(3) assms(1)]
    have none: "pf_headers F (ds_path x) = None" using s assms(2,3) by (simp add: xs(1))
    have "\<exists>F'. fact_summary x F = Some F'"
    proof (cases "ds_path x = []")
      case True
      then show ?thesis using none by (simp add: fact_summary_def Let_def)
    next
      case False
      then obtain e0 where e0: "pf_entries F0 (ds_path x) = Some e0" "po_kind (st_observation e0) = EntryDirectory" using assms(4) by (auto simp: xs(1))
      have "rel_option (\<lambda>e e'. st_observation e' = st_observation e \<and> (po_kind (st_observation e) \<noteq> EntryDirectory \<longrightarrow> e' = e))
          (pf_entries F0 (ds_path x)) (pf_entries F (ds_path x))" using s by blast
      then obtain e where e: "pf_entries F (ds_path x) = Some e" "po_kind (st_observation e) = EntryDirectory" using e0 by (auto simp: option_rel_Some1)
      have "\<not> st_directory_summary_seen e" using xs(2) e(1) none unfolding facts_agree_def by blast
      then show ?thesis using none False e by (simp add: fact_summary_def guard_opt_def Let_def)
    qed
    then show "\<exists>F'. fact_summary x F = Some F' \<and> facts_agree F'" using agree_summary(1) xs(2) by blast
  qed (simp_all add: assms)
  then show ?thesis by blast
qed

lemma fact_chain_exists:
  assumes "paths_ok F" "\<And>q. prefix p q \<Longrightarrow> strict_prefix q (p @ xs) \<Longrightarrow> pf_headers F q \<noteq> None"
    "\<And>q. strict_prefix p q \<Longrightarrow> prefix q (p @ xs) \<Longrightarrow>
      \<exists>e. pf_entries F q = Some e \<and> (ac_placement c = PlaceLeaf \<and> q = p @ xs \<longleftrightarrow> po_kind (st_observation e) \<noteq> EntryDirectory)"
  shows "\<exists>F'. fact_chain c p xs F = Some F'"
  using assms
proof (induction xs arbitrary: p F)
  case (Cons x xs)
  obtain h where h: "pf_headers F p = Some h" using Cons.prems(2) [of p] by (auto simp: strict_prefix_def)
  obtain e where e: "pf_entries F (p @ [x]) = Some e" "ac_placement c = PlaceLeaf \<and> xs = [] \<longleftrightarrow> po_kind (st_observation e) \<noteq> EntryDirectory"
    using Cons.prems(3) [of "p @ [x]"] by (auto simp: strict_prefix_def eq_commute [of "[]"])
  let ?F1 = "F\<lparr>pf_headers := (pf_headers F)(p \<mapsto> charge_header c False h)\<rparr>"
  let ?F = "?F1\<lparr>pf_entries := (pf_entries ?F1)(p @ [x] \<mapsto> charge_entry c (ac_placement c = PlaceLeaf \<and> xs = []) e)\<rparr>"
  have 1: "fact_header c False p F = Some ?F1" using h by (simp add: fact_header_Some)
  have "paths_ok ?F1" using Cons.prems(1) by simp
  then have 2: "fact_entry c (ac_placement c = PlaceLeaf \<and> xs = []) (p @ [x]) ?F1 = Some ?F"
    unfolding fact_entry_Some [OF \<open>paths_ok ?F1\<close>] using e by (intro exI [of _ e]) simp
  have "st_path e = p @ [x]" using Cons.prems(1) e(1) by (simp add: paths_ok_def)
  then have ok: "paths_ok ?F" using Cons.prems(1) by (simp add: paths_ok_def)
  have "\<exists>F'. fact_chain c (p @ [x]) xs ?F = Some F'"
  proof (rule Cons.IH [OF ok])
    show "pf_headers ?F q \<noteq> None" if q: "prefix (p @ [x]) q" "strict_prefix q ((p @ [x]) @ xs)" for q
      using Cons.prems(2) [of q] chain_prefix [of p q x xs] q by simp
    show "\<exists>e. pf_entries ?F q = Some e \<and> (ac_placement c = PlaceLeaf \<and> q = (p @ [x]) @ xs \<longleftrightarrow> po_kind (st_observation e) \<noteq> EntryDirectory)"
      if q: "strict_prefix (p @ [x]) q" "prefix q ((p @ [x]) @ xs)" for q
    proof -
      have "q \<noteq> p @ [x]" using q(1) by (auto simp: strict_prefix_def)
      then show ?thesis using Cons.prems(3) [of q] chain_strict [of p q x xs] q by simp
    qed
  qed
  then show ?case using 1 2 by simp
qed simp

lemma fact_allocation_exists:
  assumes "facts_agree F" "\<And>p. charged p c \<Longrightarrow> pf_headers F p \<noteq> None"
    "ac_placement c = PlaceLeaf \<Longrightarrow> \<exists>e. pf_entries F (ac_recipient c) = Some e \<and> po_kind (st_observation e) \<noteq> EntryDirectory"
  shows "\<exists>F'. fact_allocation c F = Some F'"
proof -
  let ?r = "ac_recipient c"
  have ok: "paths_ok F" using assms(1) by (simp add: facts_agree_def)
  have sh: "ac_placement c \<noteq> PlaceLeaf \<longleftrightarrow> ac_placement c = PlaceShared" by (cases "ac_placement c") simp_all
  have rows: "\<exists>e. pf_entries F q = Some e \<and> (ac_placement c = PlaceLeaf \<and> q = ?r \<longleftrightarrow> po_kind (st_observation e) \<noteq> EntryDirectory)"
    if q: "q \<noteq> []" "prefix q ?r" for q
  proof (cases "ac_placement c = PlaceLeaf \<and> q = ?r")
    case True
    then show ?thesis using assms(3) by auto
  next
    case False
    then have "charged q c" using q sh by (auto simp: charged_def)
    then obtain h where "pf_headers F q = Some h" using assms(2) by blast
    then obtain e where "pf_entries F q = Some e" "po_kind (st_observation e) = EntryDirectory" using assms(1) q(1) unfolding facts_agree_def by blast
    then show ?thesis using False by auto
  qed
  have "\<exists>F'. fact_chain c [] ?r F = Some F'"
    by (rule fact_chain_exists [OF ok]) (use assms(2) rows in \<open>auto simp: charged_def strict_prefix_def\<close>)
  then obtain F1 where F1: "fact_chain c [] ?r F = Some F1" by blast
  show ?thesis
  proof (cases "ac_placement c = PlaceShared")
    case True
    then have "charged ?r c" by (simp add: charged_def)
    then obtain h where "pf_headers F ?r = Some h" using assms(2) by blast
    then have "pf_headers F1 ?r = Some h" using fact_chain_Some(1) [OF F1 ok, of ?r] by simp
    then have "fact_header c True ?r F1 = Some (F1\<lparr>pf_headers := (pf_headers F1)(?r \<mapsto> charge_header c True h)\<rparr>)" by (simp add: fact_header_Some)
    then show ?thesis using F1 True by (simp add: fact_allocation_def)
  next
    case False
    then show ?thesis using F1 by (simp add: fact_allocation_def)
  qed
qed

lemma allocations_exist:
  assumes "facts_agree F0" "\<forall>c \<in> set cons. \<forall>p. charged p c \<longrightarrow> pf_headers F0 p \<noteq> None"
    "\<forall>c \<in> set cons. ac_placement c = PlaceLeaf \<longrightarrow> (\<exists>e. pf_entries F0 (ac_recipient c) = Some e \<and> po_kind (st_observation e) \<noteq> EntryDirectory)"
  shows "\<exists>F. fold_opt fact_allocation cons F0 = Some F"
proof -
  have kept: "st_observation (foldl (charge_entry_at q) e xs) = st_observation e" for q e xs
    by (induction xs arbitrary: e) (simp_all add: charge_entry_at_def)
  have "\<exists>F. fold_opt fact_allocation cons F0 = Some F \<and> facts_agree F"
  proof (rule fold_opt_exists [where xs = cons and done_xs = "[]" and ?s0.0 = F0])
    fix ys c zs F assume xs: "cons = ys @ c # zs" "facts_agree F" "fold_opt fact_allocation ys F0 = Some F"
    have "paths_ok F0" using assms(1) by (simp add: facts_agree_def)
    note s = allocations_Some [OF xs(3) this]
    have "\<exists>F'. fact_allocation c F = Some F'"
    proof (rule fact_allocation_exists [OF xs(2)])
      show "pf_headers F p \<noteq> None" if "charged p c" for p using assms(2) s [of p] that by (simp add: xs(1))
      show "\<exists>e. pf_entries F (ac_recipient c) = Some e \<and> po_kind (st_observation e) \<noteq> EntryDirectory" if "ac_placement c = PlaceLeaf"
        using assms(3) s [of "ac_recipient c"] that kept by (auto simp: xs(1))
    qed
    then show "\<exists>F'. fact_allocation c F = Some F' \<and> facts_agree F'" using agree_allocation xs(2) by blast
  qed (simp_all add: assms)
  then show ?thesis by blast
qed

lemma consistent_facts_exist:
  assumes "consistent_facts obs ids sums cons"
  shows "\<exists>F root. page_facts_of obs ids sums cons = Some F \<and> pf_headers F [] = Some root"
proof -
  note c = assms [unfolded consistent_facts_def]
  have a0: "facts_agree no_facts" by (simp add: facts_agree_def paths_ok_def no_facts_def)
  have "distinct (map po_path obs)" "\<forall>ob \<in> set obs. po_path ob \<noteq> [] \<and> length (key_bytes (butlast (po_path ob))) < 2 ^ 32" using c by blast+
  then obtain F1 where F1: "fold_opt fact_path obs no_facts = Some F1" using paths_exist by blast
  note s1 = paths_Some [OF F1 a0]
  have row: "st_observation (row_of ob) = ob" "st_identity (row_of ob) = snapshot_identity ob" for ob by (simp_all add: row_of_def st_from_observation_def Let_def)
  have target: "\<exists>e. pf_entries F1 (io_path i) = Some e \<and> po_kind (st_observation e) \<noteq> EntryDirectory \<and>
      (st_identity e = None \<or> st_identity e = Some (si_from_observation i))" if i: "i \<in> set ids" for i
  proof -
    obtain ob where "ob \<in> set obs" "po_path ob = io_path i" "po_kind ob \<noteq> EntryDirectory"
      "snapshot_identity ob = None \<or> snapshot_identity ob = Some (si_from_observation i)" using c i by blast
    then show ?thesis using s1(3) row [of ob] by (intro exI [of _ "row_of ob"]) auto
  qed
  have same: "\<forall>j \<in> set ids. io_path j = io_path i \<longrightarrow> si_from_observation j = si_from_observation i" if "i \<in> set ids" for i using c that by blast
  have "\<exists>F2. fold_opt fact_identity ids F1 = Some F2"
    by (rule identities_exist [OF s1(6)]) (intro ballI conjI target same)
  then obtain F2 where F2: "fold_opt fact_identity ids F1 = Some F2" by blast
  have s2: "pf_entries F2 p = map_option (\<lambda>e. e\<lparr>st_identity := identity_at p ids (st_identity e)\<rparr>) (pf_entries F1 p)"
    "pf_headers F2 = pf_headers F1" "facts_agree F2" for p using identities_Some [OF F2 s1(6)] by blast+
  have H2: "pf_headers F2 p = None" for p by (simp add: s2(2) s1(5) no_facts_def)
  have obs2: "\<exists>e. pf_entries F2 (po_path ob) = Some e \<and> st_observation e = ob" if "ob \<in> set obs" for ob
    using s1(3) that s2(1) [of "po_path ob"] row(1) by simp
  have "ds_path y = [] \<or> (\<exists>e. pf_entries F2 (ds_path y) = Some e \<and> po_kind (st_observation e) = EntryDirectory)" if y: "y \<in> set sums" for y
  proof -
    have "ds_path y = [] \<or> (\<exists>ob \<in> set obs. po_path ob = ds_path y \<and> po_kind ob = EntryDirectory)" using c y by blast
    then show ?thesis using obs2 by metis
  qed
  moreover have "distinct (map ds_path sums)" using c by blast
  ultimately obtain F3 where F3: "fold_opt fact_summary sums F2 = Some F3" using summaries_exist [OF s2(3), of sums] H2 by blast
  note s3 = summaries_Some [OF F3 s2(3)]
  have H3: "pf_headers F3 p \<noteq> None" if "p \<in> ds_path ` set sums" for p using s3 that by auto
  have leaf: "\<exists>e. pf_entries F3 (ac_recipient k) = Some e \<and> po_kind (st_observation e) \<noteq> EntryDirectory"
    if k: "k \<in> set cons" "ac_placement k = PlaceLeaf" for k
  proof -
    obtain ob where ob: "ob \<in> set obs" "po_path ob = ac_recipient k" "po_kind ob \<noteq> EntryDirectory" using c k by blast
    obtain e where e: "pf_entries F2 (ac_recipient k) = Some e" "st_observation e = ob" using obs2 [OF ob(1)] ob(2) by auto
    have "rel_option (\<lambda>e e'. st_observation e' = st_observation e \<and> (po_kind (st_observation e) \<noteq> EntryDirectory \<longrightarrow> e' = e))
        (pf_entries F2 (ac_recipient k)) (pf_entries F3 (ac_recipient k))" using s3 by blast
    then show ?thesis using e ob(3) by (auto simp: option_rel_Some1)
  qed
  have "\<forall>k \<in> set cons. \<forall>p. charged p k \<longrightarrow> p \<in> ds_path ` set sums" using c by blast
  then have "\<forall>k \<in> set cons. \<forall>p. charged p k \<longrightarrow> pf_headers F3 p \<noteq> None" using H3 by simp
  moreover have "facts_agree F3" using s3 by blast
  ultimately obtain F where F: "fold_opt fact_allocation cons F3 = Some F" using allocations_exist [of F3 cons] leaf by auto
  have facts: "page_facts_of obs ids sums cons = Some F" using F1 F2 F3 F by (simp add: page_facts_of_def)
  have "[] \<in> ds_path ` set sums" using c by blast
  then have "[] \<in> dom (pf_headers F)" using page_facts_closed(3) [OF facts] by simp
  then show ?thesis using facts by blast
qed

section \<open>Without failures of the database and the quota\<close>

definition redb_steady :: "('d, 't, 'r, 'x) redb \<Rightarrow> bool" where
  "redb_steady ops \<longleftrightarrow>
     (\<forall>b. \<exists>d. rb_create ops b = Inr d) \<and> (\<forall>d. \<exists>t. rb_begin_write ops d = Inr t) \<and> (\<forall>t. \<exists>t'. rb_set_durability_none ops t = Inr t') \<and>
     (\<forall>tb t. \<exists>t'. rb_open_table ops tb t = Inr t') \<and> (\<forall>tb k t. \<exists>x. rb_get ops tb k t = Inr x) \<and>
     (\<forall>tb k v t. \<exists>x. rb_insert ops tb k v t = Inr x) \<and> (\<forall>tb t. \<exists>kvs. rb_iter ops tb t = Inr (map Inr kvs)) \<and>
     (\<forall>t. \<exists>d. rb_commit ops t = Inr d) \<and> (\<forall>d. \<exists>r. rb_begin_read ops d = Inr r) \<and>
     (\<forall>tb r. \<exists>r'. rb_open_read_table ops tb r = Inr r') \<and> (\<forall>tb k r. \<exists>x. rb_read_get ops tb k r = Inr x) \<and>
     (\<forall>tb r. \<exists>kvs. rb_read_iter ops tb r = Inr (map Inr kvs))"

definition storage_steady :: "'os build_environment \<Rightarrow> bool" where
  "storage_steady en \<longleftrightarrow> en_index_file en = Inr [] \<and> en_file_os en CallMetadata = None \<and> \<not> ts_stopped (en_storage en) \<and>
     ts_used (en_storage en) \<le> ts_limit (en_storage en) \<and> (\<forall>n. \<not> ts_stopped (en_storage_at en n))"

definition no_outage :: "(('os, 'x) build_error, 'a) res \<Rightarrow> bool" where
  "no_outage c \<longleftrightarrow> (\<forall>e. c = Inl e \<longrightarrow> \<not> outage e)"

lemma no_outage_simps [simp]: "no_outage (Inr x)" "no_outage (Inl e) \<longleftrightarrow> \<not> outage e"
  by (simp_all add: no_outage_def)

lemma outage_simps [simp]:
  "\<not> outage (IndexRun e1)" "\<not> outage (IndexPathKey e2)" "\<not> outage (IndexPathObservation e3)" "\<not> outage (IndexDirectorySummary e4)"
  "\<not> outage (IndexIdentityObservation e5)" "\<not> outage (IndexAllocationContribution e6)" "\<not> outage (IndexRecord e7)"
  "\<not> outage DuplicateRecord" "\<not> outage MissingEntry" "\<not> outage MissingHeader" "\<not> outage SummaryForNonDirectory"
  "\<not> outage IdentityForDirectory" "\<not> outage InvalidAllocationTarget" "\<not> outage IndexPanic"
  by (simp_all add: outage_def)

lemma no_outage_bind: "no_outage c \<Longrightarrow> (\<And>x. no_outage (f x)) \<Longrightarrow> no_outage (res_bind c f)"
  by (cases c) simp_all

lemma no_outage_map_err: "(\<And>e. \<not> outage (g e)) \<Longrightarrow> no_outage (map_err g c)"
  by (cases c) simp_all

lemma no_outage_ok_or: "\<not> outage e \<Longrightarrow> no_outage (ok_or x e)"
  by (cases x) simp_all

lemma no_outage_database: "\<exists>x. r = Inr x \<Longrightarrow> no_outage (database_error r)"
  by auto

lemma no_outage_fold: "(\<And>x s. x \<in> set xs \<Longrightarrow> no_outage (f x s)) \<Longrightarrow> no_outage (fold_res f xs s)"
  by (induction xs arbitrary: s) (simp_all add: no_outage_bind)

lemma no_outage_if: "no_outage a \<Longrightarrow> no_outage b \<Longrightarrow> no_outage (if P then a else b)"
  by simp

lemma no_outage_prod: "(\<And>x y. no_outage (f x y)) \<Longrightarrow> no_outage (case p of (x, y) \<Rightarrow> f x y)"
  by (cases p) simp

lemma no_outage_option: "no_outage a \<Longrightarrow> (\<And>x. no_outage (f x)) \<Longrightarrow> no_outage (case m of None \<Rightarrow> a | Some x \<Rightarrow> f x)"
  by (cases m) simp_all

lemma no_outage_len: "\<not> outage e \<Longrightarrow> no_outage (u32_of_len e n)"
  by (simp add: u32_of_len_def)

lemma no_outage_key: "no_outage (map_err index_key_error c)"
proof -
  have "\<not> outage (index_key_error e)" for e by (cases e) simp_all
  then show ?thesis by (rule no_outage_map_err)
qed

lemma no_outage_visit:
  assumes "\<And>k v s. no_outage (visit k v s)" "\<And>e. \<not> outage (from e)"
  shows "no_outage (rr_visit sha running from visit r s)"
  using assms
proof (induction sha running "from" visit r s rule: rr_visit.induct)
  case (1 sha running "from" visit r s)
  show ?case
  proof (cases "rr_next_record sha running r")
    case (Inr p)
    show ?thesis
    proof (cases "fst p")
      case None
      then show ?thesis using Inr by (cases p) (simp add: rr_visit.simps [of _ _ _ _ r])
    next
      case (Some kv)
      show ?thesis
      proof (cases "visit (fst kv) (snd kv) s")
        case (Inl e)
        then show ?thesis using Inr Some "1.prems"(1) [of "fst kv" "snd kv" s] by (cases p) (simp add: rr_visit.simps [of _ _ _ _ r])
      next
        case s': (Inr s')
        obtain r' where p: "p = (Some kv, r')" using Some by (cases p) simp
        have "no_outage (rr_visit sha running from visit r' s')"
          using "1.IH" [OF Inr, of "Some kv" r' kv s'] s' "1.prems" by (simp add: p)
        then show ?thesis using Inr s' by (simp add: rr_visit.simps [of _ _ _ _ r] p)
      qed
    qed
  qed (use "1.prems" in \<open>simp add: rr_visit.simps [of _ _ _ _ r]\<close>)
qed

lemmas no_outage_rules = no_outage_bind no_outage_database no_outage_fold no_outage_if no_outage_prod no_outage_option no_outage_len
  no_outage_key no_outage_ok_or no_outage_map_err

lemma steady_steps:
  assumes "redb_steady ops"
  shows "no_outage (begin_ephemeral_write ops d)" "no_outage (read_entry ops k ck t)" "no_outage (write_entry ops k e t)"
    "no_outage (update_header_physical ops k c b t)" "no_outage (index_path_record ops ob t)"
    "no_outage (read_header_from_database ops d f)"
proof -
  note s = assms [unfolded redb_steady_def]
  show "no_outage (begin_ephemeral_write ops d)" unfolding begin_ephemeral_write_def using s by (intro no_outage_rules) simp_all
  show "no_outage (read_entry ops k ck t)" unfolding read_entry_def using s by (intro no_outage_rules) simp_all
  show "no_outage (write_entry ops k e t)" unfolding write_entry_def using s by (intro no_outage_bind no_outage_prod no_outage_database) (auto intro: no_outage_map_err)
  show "no_outage (update_header_physical ops k c b t)" unfolding update_header_physical_def Let_def
    using s by (intro no_outage_bind no_outage_prod no_outage_database no_outage_ok_or) (auto intro: no_outage_map_err)
  show "no_outage (index_path_record ops ob t)" unfolding index_path_record_def
    using s by (intro no_outage_bind no_outage_prod no_outage_database no_outage_ok_or no_outage_len no_outage_if) (auto intro: no_outage_map_err)
  show "no_outage (read_header_from_database ops d f)" unfolding read_header_from_database_def
    using s by (intro no_outage_bind no_outage_option no_outage_database) (auto intro: no_outage_map_err)
qed

lemma steady_entry_keys: "no_outage (entry_keys f p)"
  unfolding entry_keys_def by (intro no_outage_bind no_outage_key no_outage_map_err) simp_all

lemma steady_facts:
  assumes "redb_steady ops"
  shows "no_outage (index_summary_record ops y t)" "no_outage (index_identity_record ops i t)"
    "no_outage (update_entry_physical ops k ck c b t)" "no_outage (apply_allocation ops c t)"
proof -
  note s = assms [unfolded redb_steady_def]
  note steps = steady_steps [OF assms]
  show "no_outage (index_summary_record ops y t)" unfolding index_summary_record_def index_summary_entry_def Let_def
    using s steps(2,3) steady_entry_keys
    by (intro no_outage_bind no_outage_prod no_outage_option no_outage_database no_outage_if) (auto intro: no_outage_map_err)
  show "no_outage (index_identity_record ops i t)" unfolding index_identity_record_def Let_def
    using steps(2,3) steady_entry_keys by (intro no_outage_bind no_outage_prod no_outage_if no_outage_ok_or) simp_all
  show ue: "no_outage (update_entry_physical ops k ck c b t)" for k ck c b t unfolding update_entry_physical_def
    using steps(2,3) by (intro no_outage_bind no_outage_if) simp_all
  have loop: "no_outage (apply_allocation_loop ops c n xs k t)" for n xs k t
  proof (induction xs arbitrary: n k t)
    case (Cons x xs)
    then show ?case unfolding apply_allocation_loop.simps Let_def
      using steps(4) ue by (intro no_outage_bind) (auto intro: no_outage_map_err)
  qed simp
  show "no_outage (apply_allocation ops c t)" unfolding apply_allocation_def
    using loop steps(4) by (intro no_outage_bind no_outage_prod no_outage_if) simp_all
qed

lemma steady_pass:
  assumes "redb_steady ops" "\<And>k v. no_outage (decode k v)" "\<And>x t. no_outage (step x t)"
  shows "no_outage (with_reader reopen (index_facts sha running decode (flush_batch ops step) d) run)"
proof -
  note s = assms(1) [unfolded redb_steady_def]
  have flush: "no_outage (flush_batch ops step b d)" for b d unfolding flush_batch_def
    using s steady_steps(1) [OF assms(1)] assms(3) by (intro no_outage_if no_outage_bind no_outage_database no_outage_fold) simp_all
  have "no_outage (batch_step decode (flush_batch ops step) k v s)" for k v s unfolding batch_step_def Let_def
    using assms(2) flush by (intro no_outage_prod no_outage_bind no_outage_if) simp_all
  then have "no_outage (index_facts sha running decode (flush_batch ops step) d r)" for r unfolding index_facts_def
    using flush by (intro no_outage_bind no_outage_visit) (simp_all split: prod.split)
  then show ?thesis unfolding with_reader_def by (intro no_outage_option no_outage_bind no_outage_map_err) simp_all
qed

lemma steady_metric:
  assumes "redb_steady ops" "\<And>n. \<not> ts_stopped (storage_at n)"
  shows "no_outage (build_metric_query_index ops storage_at d)"
proof -
  note s = assms(1) [unfolded redb_steady_def]
  have run: "ts_ensure_running (storage_at n) = Inr ()" for n using assms(2) by (simp add: ts_ensure_running_def ensure_def)
  have step: "no_outage (metric_query_step ops storage_at (n, Inr kv) t)" for n kv t
    unfolding metric_query_step_def prod.case run Let_def
    using s by (intro no_outage_bind no_outage_prod no_outage_if no_outage_database no_outage_ok_or) (auto intro: no_outage_map_err)
  have "no_outage (fold_res (metric_query_step ops storage_at) (enumerate 0 (map Inr kvs)) t)" for kvs t
    by (rule no_outage_fold) (auto simp: in_set_enumerate_eq intro!: step)
  moreover obtain kvs where iter: "rb_iter ops PAGE_INDEX_RECORDS t = Inr (map Inr (kvs t))" for t using s by metis
  ultimately show ?thesis unfolding build_metric_query_index_def run iter map_err_simps res_bind_simps
    using s steady_steps(1) [OF assms(1)] by (intro no_outage_bind no_outage_database) auto
qed

lemma steady_no_outage:
  assumes "redb_steady ops" "storage_steady en" "rd_kind (rw_descriptor w) = RunChildQuery"
  shows "no_outage (fst (materialize_child_queries ops en paths ids sums allocs w))"
proof -
  note s = assms(1) [unfolded redb_steady_def]
  have en: "en_index_file en = Inr []" "en_file_os en CallMetadata = None" "\<not> ts_stopped (en_storage en)"
    "ts_used (en_storage en) \<le> ts_limit (en_storage en)" "\<And>n. \<not> ts_stopped (en_storage_at en n)"
    using assms(2) by (simp_all add: storage_steady_def)
  have res: "ts_reservation 0 (en_storage en) = Inr (0, en_storage en)"
    using en(3,4) unat_lt_pow [of "ts_used (en_storage en)"] by (simp add: ts_reservation_def ts_reserve_def ts_ensure_running_def ensure_def reserve_required_def checked_add_def not_less)
  have made: "\<exists>b. fst (backend_new (en_file_os en) [] 0 False (en_storage en)) = Inr b"
    using en(2) by (simp add: backend_new_def file_call_result_def rs_grow_to_def)
  then have create: "no_outage (create_page_index_database ops (en_file_os en) (en_index_file en) (en_storage en))"
    unfolding create_page_index_database_def en(1) map_err_simps res_bind_simps res prod.case
    using s steady_steps(1) [OF assms(1)] by (intro no_outage_bind no_outage_database) auto
  note pass = steady_pass [OF assms(1)]
  have dec: "no_outage (map_err IndexPathObservation a)" "no_outage (map_err IndexIdentityObservation b)"
    "no_outage (res_bind (map_err IndexDirectorySummary c) (\<lambda>(_, y). Inr y))"
    "no_outage (res_bind (map_err IndexAllocationContribution f) (\<lambda>(_, y). Inr y))" for a b c f
    by (intro no_outage_map_err no_outage_bind no_outage_prod; simp)+
  have passes: "no_outage (with_reader (en_reopen en) (index_path_observations ops (en_sha en) (en_running en) d) r)"
    "no_outage (with_reader (en_reopen en) (index_identity_observations ops (en_sha en) (en_running en) d) r)"
    "no_outage (with_reader (en_reopen en) (index_directory_summaries ops (en_sha en) (en_running en) d) r)"
    "no_outage (with_reader (en_reopen en) (index_allocation_contributions ops (en_sha en) (en_running en) d) r)" for d r
    unfolding index_path_observations_def flush_path_batch_def index_identity_observations_def flush_identity_batch_def
      index_directory_summaries_def flush_directory_summary_batch_def index_allocation_contributions_def flush_allocation_batch_def
    by (rule pass; rule dec steady_steps(5) [OF assms(1)] steady_facts [OF assms(1)])+
  obtain kvs where iter: "rb_read_iter ops PAGE_QUERY_RECORDS r = Inr (map Inr (kvs r))" for r using s by metis
  have written: "no_outage (write_page_records ops (en_sha en) (en_grow en) d w)" for d
    unfolding write_page_records_def iter map_err_simps res_bind_simps
    using s by (intro no_outage_bind no_outage_database no_outage_fold no_outage_prod) (auto intro: no_outage_map_err)
  show ?thesis unfolding materialize_eq [OF assms(3)]
    using create passes steady_metric [OF assms(1) en(5)] steady_steps(6) [OF assms(1)] written
    by (intro no_outage_bind no_outage_ok_or) simp_all
qed

section \<open>Reading the records back\<close>

lemma header_of_items:
  assumes "set items = items_of F"
  shows "header_of f items = pf_headers F f"
proof -
  have mem: "HeaderItem f h \<in> set items" if "header_of f items = Some h" for h
    using that by (induction f items rule: header_of.induct) (auto split: if_splits)
  have none: "HeaderItem f h \<notin> set items" if "header_of f items = None" for h
    using that by (induction f items rule: header_of.induct) (auto split: if_splits)
  show ?thesis
  proof (cases "header_of f items")
    case None
    then show ?thesis using none assms by (cases "pf_headers F f") (auto simp: items_of_def)
  next
    case (Some h)
    then show ?thesis using mem assms by (auto simp: items_of_def)
  qed
qed

lemma find_item:
  assumes "set items = items_of F" "paths_ok F" "pf_entries F p = Some e"
  shows "List.find (\<lambda>e. st_path e = p) (folder_entries (butlast p) items) = Some e"
proof (cases "List.find (\<lambda>e. st_path e = p) (folder_entries (butlast p) items)")
  case None
  have "st_path e = p" using assms(2,3) by (simp add: paths_ok_def)
  moreover have "EntryItem e \<in> set items" using assms(1,3) by (auto simp: items_of_def)
  ultimately have "e \<in> set (folder_entries (butlast p) items)" by (simp add: folder_entries_def entries_of_iff)
  then show ?thesis using None \<open>st_path e = p\<close> by (auto simp: find_None_iff)
next
  case (Some e')
  then have "e' \<in> set (folder_entries (butlast p) items)" "st_path e' = p" by (auto simp: find_Some_iff)
  then have "EntryItem e' \<in> items_of F" "st_path e' = p" using assms(1) by (simp_all add: folder_entries_def entries_of_iff)
  then have "pf_entries F p = Some e'" using assms(2) by (auto simp: items_of_def paths_ok_def)
  then show ?thesis using assms(3) Some by simp
qed

text \<open>The row of a directory with a summary.\<close>

definition directory_row :: "path_observation \<Rightarrow> directory_summary \<Rightarrow> allocation_contribution list \<Rightarrow> scan_page_entry" where
  "directory_row ob y cons =
     \<lparr>pe_path = po_path ob, pe_kind = PageDirectory,
      pe_metrics = clear_uncertain_physical_bounds (sh_header_metrics (header_with y cons)) (ds_coverage y),
      pe_coverage = ds_coverage y, pe_snapshot = po_snapshot ob\<rparr>"

lemma directory_row_read:
  assumes "page_facts_of obs ids sums cons = Some F" "ob \<in> set obs" "y \<in> set sums" "ds_path y = po_path ob"
  shows "\<exists>e. pf_entries F (po_path ob) = Some e \<and> into_page_entry e = directory_row ob y cons"
proof -
  have h: "pf_headers F (po_path ob) = Some (header_with y cons)" using page_facts_closed(4) [OF assms(1,3)] assms(4) by simp
  obtain e where "pf_entries F (po_path ob) = Some e" "st_observation e = ob" "st_directory_summary_seen e" "po_kind ob = EntryDirectory"
    "st_metrics e = sh_header_metrics (header_with y cons)" "st_coverage e = sh_header_coverage (header_with y cons)"
    using page_facts_closed(6) [OF assms(1,2)] h by auto
  moreover have "sh_header_coverage (header_with y cons) = ds_coverage y" by (simp add: header_with_def)
  ultimately show ?thesis by (intro exI [of _ e]) (simp add: into_page_entry_def directory_row_def pk_is_directory_def Let_def)
qed

end
