(* ===== verification/Index_Theorems.thy ===== *)
theory Index_Theorems
  imports Page_Facts Query_Theorems "HOL-Library.Finite_Map"
begin

text \<open>
  The properties of the build of the child-query run, with their witnesses: its refinement of the facts,
  and the records a published generation answers from.
\<close>

section \<open>Progress reports\<close>

definition reports_all :: "u8 list \<Rightarrow> ('e, 'a) res \<times> u8 list \<Rightarrow> bool" where
  "reports_all ns r \<longleftrightarrow> prefix (snd r) ns \<and> ((\<exists>x. fst r = Inr x) \<longleftrightarrow> snd r = ns)"

lemma reports_all_step: "(\<And>x. reports_all ns (k x)) \<Longrightarrow> reports_all (n # ns) (step_reported n c k)"
  by (cases c) (simp_all add: step_reported_def reports_all_def)

lemma reports_all_simps [simp]: "reports_all [] (Inr x, [])" "reports_all (n # ns) (Inl e, [])"
  by (simp_all add: reports_all_def)

lemma materialize_reports: "reports_all [1, 2, 3, 4, 5, MATERIALIZE_STEPS] (materialize_child_queries ops en paths ids sums allocs w)"
  unfolding materialize_child_queries_def MATERIALIZE_STEPS_def
  by (auto intro!: reports_all_step split: sum.split)

section \<open>A database for the witnesses\<close>

text \<open>Finite maps that never fail, and the records of a directory with one file of eight allocated bytes.\<close>

type_synonym ex_tables = "page_table \<Rightarrow> (bytes, bytes) fmap"

definition ex_listing :: "page_table \<Rightarrow> ex_tables \<Rightarrow> run_record list" where
  "ex_listing tb t = map (\<lambda>k. (k, the (fmlookup (t tb) k))) (sorted_list_of_set (fset (fmdom (t tb))))"

definition ex_redb :: "(ex_tables, ex_tables, ex_tables, unit) redb" where
  "ex_redb =
     \<lparr>rb_create = (\<lambda>_. Inr (\<lambda>_. fmempty)), rb_begin_write = Inr, rb_set_durability_none = Inr, rb_open_table = (\<lambda>_. Inr),
      rb_get = (\<lambda>tb k t. Inr (fmlookup (t tb) k)), rb_insert = (\<lambda>tb k v t. Inr (fmlookup (t tb) k, t(tb := fmupd k v (t tb)))),
      rb_iter = (\<lambda>tb t. Inr (map Inr (ex_listing tb t))), rb_commit = Inr, rb_begin_read = Inr, rb_open_read_table = (\<lambda>_. Inr),
      rb_read_get = (\<lambda>tb k t. Inr (fmlookup (t tb) k)), rb_read_iter = (\<lambda>tb t. Inr (map Inr (ex_listing tb t)))\<rparr>"

lemma ex_listing_lists: "lists_map (fmlookup (t tb)) (map Inr (ex_listing tb t))"
proof -
  let ?K = "sorted_list_of_set (fset (fmdom (t tb)))"
  have "map fst (ex_listing tb t) = ?K" by (simp add: ex_listing_def comp_def)
  then have "keys_sorted (ex_listing tb t)" by (simp add: keys_sorted_def strict_sorted_list_of_set)
  moreover have "(k, v) \<in> set (ex_listing tb t) \<longleftrightarrow> fmlookup (t tb) k = Some v" for k v
    by (auto simp: ex_listing_def image_iff fmlookup_dom_iff)
  ultimately show ?thesis unfolding lists_map_def by blast
qed

lemma ex_redb_laws: "redb_laws ex_redb (\<lambda>t tb. fmlookup (t tb)) (\<lambda>t tb. fmlookup (t tb)) (\<lambda>t tb. fmlookup (t tb))" "redb_steady ex_redb"
proof -
  have "lists_map (fmlookup (t tb)) items" if "items = map Inr (ex_listing tb t)" for t tb items
    using ex_listing_lists that by simp
  moreover have "(\<lambda>x. fmlookup (if x = tb then fmupd k v (t tb) else t x)) = (\<lambda>x. fmlookup (t x))(tb := (fmlookup (t tb))(k \<mapsto> v))" for tb k v and t :: ex_tables
    by (auto simp: fun_eq_iff)
  moreover have "fmlookup fmempty = (Map.empty :: bytes \<rightharpoonup> bytes)" by (simp add: fun_eq_iff)
  ultimately show "redb_laws ex_redb (\<lambda>t tb. fmlookup (t tb)) (\<lambda>t tb. fmlookup (t tb)) (\<lambda>t tb. fmlookup (t tb))"
    unfolding redb_laws_def by (auto simp: ex_redb_def fun_upd_def [where f = "_ :: ex_tables"])
  show "redb_steady ex_redb" unfolding redb_steady_def by (auto simp: ex_redb_def)
qed

definition ex_environment :: "unit build_environment" where
  "ex_environment =
     \<lparr>en_sha = ex_digest, en_running = (\<lambda>_. None), en_reopen = (\<lambda>_. None), en_file_os = (\<lambda>_. None), en_index_file = Inr [],
      en_storage = with_limit_bytes_named 4096, en_storage_at = (\<lambda>_. with_limit_bytes_named 4096), en_grow = (\<lambda>_. None)\<rparr>"

definition ex_summary :: "relative_path \<Rightarrow> directory_summary" where
  "ex_summary p = \<lparr>ds_path = p, ds_metrics = sm_leaf 5 (bb_exact 0) (bb_exact 0), ds_coverage = CoverageComplete\<rparr>"

definition ex_leaf :: allocation_contribution where
  "ex_leaf = \<lparr>ac_recipient = [[97], [98]], ac_placement = PlaceLeaf, ac_allocated_bytes = bb_exact 8, ac_reclaimable_bytes = bb_exact 8\<rparr>"

lemma ex_environment_simps:
  "en_sha ex_environment = ex_digest" "en_running ex_environment n = None" "en_reopen ex_environment k = None" "storage_steady ex_environment"
  by (simp_all add: ex_environment_def storage_steady_def with_limit_bytes_named_def)

lemma ex_consistent: "consistent_facts [ex_directory, ex_file] [] [ex_summary [[97]], ex_summary []] [ex_leaf]"
proof -
  have "charged p ex_leaf \<Longrightarrow> p = [] \<or> p = [[97]]" for p
    by (auto simp: charged_def ex_leaf_def prefix_Cons)
  then show ?thesis by (auto simp: consistent_facts_def ex_directory_def ex_file_def ex_summary_def ex_leaf_def)
qed

lemma decode_all_observations: "list_all2 observation_record obs recs \<Longrightarrow> decode_all decode_path_observation recs = Some obs"
  by (induction rule: list_all2_induct) (simp_all add: observation_record_decode)

lemma ex_fact_records:
  "decode_all decode_summary_fact (summary_records 0 [ex_summary [[97]], ex_summary []]) = Some [ex_summary [[97]], ex_summary []]"
  "decode_all decode_contribution_fact [(file_id_bytes (Inode 1 2), contribution_value ex_leaf)] = Some [ex_leaf]"
  "\<exists>run. write_run ex_digest (\<lambda>_. None :: unit option) (ex_run_of RunDirectorySummary) 1000 (summary_records 0 [ex_summary [[97]], ex_summary []]) = Inr run"
  "\<exists>run. write_run ex_digest (\<lambda>_. None :: unit option) (ex_run_of RunAllocationContribution) 1000 [(file_id_bytes (Inode 1 2), contribution_value ex_leaf)] = Inr run"
proof -
  have valid: "valid_component [97]" "valid_component [98]" by (simp_all add: valid_component_iff)
  have y: "decode_directory_summary (u64_be n) (summary_value (ex_summary p)) = Inr (n, ex_summary p)" if "p \<in> {[], [[97]]}" for n p
    using that valid by (intro decode_encode_summary) (auto simp: ex_summary_def summary_fits_def metrics_ok_def sm_leaf_def bb_exact_def bounds_ok_def)
  then show "decode_all decode_summary_fact (summary_records 0 [ex_summary [[97]], ex_summary []]) = Some [ex_summary [[97]], ex_summary []]"
    by (simp add: decode_summary_fact_def)
  have "decode_allocation_contribution (file_id_bytes (Inode 1 2)) (contribution_value ex_leaf) = Inr (Inode 1 2, ex_leaf)"
    using valid by (intro decode_encode_contribution) (auto simp: ex_leaf_def contribution_ok_def bb_exact_def bounds_ok_def)
  then show "decode_all decode_contribution_fact [(file_id_bytes (Inode 1 2), contribution_value ex_leaf)] = Some [ex_leaf]"
    by (simp add: decode_contribution_fact_def)
  have len: "length (summary_value (ex_summary p)) \<le> 200" if "p \<in> {[], [[97]]}" for p
    using that length_metrics_bytes [of "sm_leaf 5 (bb_exact 0) (bb_exact 0)"] by (auto simp: ex_summary_def summary_value_def)
  have "keys_sorted (summary_records 0 [ex_summary [[97]], ex_summary []])" using summary_records_sorted [of 0 "[ex_summary [[97]], ex_summary []]"] by simp
  then show "\<exists>run. write_run ex_digest (\<lambda>_. None :: unit option) (ex_run_of RunDirectorySummary) 1000 (summary_records 0 [ex_summary [[97]], ex_summary []]) = Inr run"
    using ex_run_written [of "summary_records 0 [ex_summary [[97]], ex_summary []]" RunDirectorySummary] len [of "[]"] len [of "[[97]]"]
    by (auto simp: record_cost_def)
  show "\<exists>run. write_run ex_digest (\<lambda>_. None :: unit option) (ex_run_of RunAllocationContribution) 1000 [(file_id_bytes (Inode 1 2), contribution_value ex_leaf)] = Inr run"
    using ex_run_written [of "[(file_id_bytes (Inode 1 2), contribution_value ex_leaf)]" RunAllocationContribution]
    by (auto simp: record_cost_def keys_sorted_def contribution_value_def ex_leaf_def bb_exact_def)
qed

lemma ex_output: "\<exists>w. rw_new (en_grow ex_environment) [] 0 (ex_run_of RunChildQuery) 1000 = Inr w"
proof -
  have "\<exists>run. write_run ex_digest (en_grow ex_environment) (ex_run_of RunChildQuery) 1000 [] = Inr run"
    by (rule write_run_succeeds [where limit = 3000]) (simp_all add: grants_def keys_sorted_def ex_environment_def)
  then show ?thesis by (auto simp: write_run_def res_bind_Inr_iff)
qed

section \<open>The refinement\<close>

text \<open>
  C27. The build of the child-query run refines the facts, whatever the four runs hold and however they are
  batched: unless the database or the quota fails, it fails exactly when a record does not decode or
  contradicts an earlier one or the root has no summary, and otherwise appends to the output one record
  per directory and per path in page order, and returns the values of the root.  With a database and a
  quota that do not fail there is no other outcome.  The steps reported are an initial part of one to
  six, and all six exactly when the build succeeds.
\<close>

theorem page_index_refines:
  fixes ops :: "('d, 't, 'r, 'x) redb" and en :: "'os build_environment"
  assumes "redb_laws ops D T R" and "\<And>x. length (en_sha en x) = 32" and "\<And>n. en_running en n = None" and "\<And>k. en_reopen en k = None"
    and "write_run (en_sha en) granted d1 c1 k1 = Inr paths" and "write_run (en_sha en) granted d2 c2 k2 = Inr ids"
    and "write_run (en_sha en) granted d3 c3 k3 = Inr sums" and "write_run (en_sha en) granted d4 c4 k4 = Inr allocs"
    and "rd_kind (rw_descriptor w) = RunChildQuery"
  shows "let r = materialize_child_queries ops en paths ids sums allocs w in
    (index_outcome (en_sha en) (en_grow en) (facts_of_records k1 k2 k3 k4) w (fst r) \<or>
      \<not> (redb_steady ops \<and> storage_steady en) \<and> (\<exists>e. fst r = Inl e \<and> outage e)) \<and>
    prefix (snd r) [1, 2, 3, 4, 5, MATERIALIZE_STEPS] \<and> ((\<exists>x. fst r = Inr x) \<longleftrightarrow> snd r = [1, 2, 3, 4, 5, MATERIALIZE_STEPS])"
proof -
  have "no_outage (fst (materialize_child_queries ops en paths ids sums allocs w))" if "redb_steady ops \<and> storage_steady en"
    using steady_no_outage that assms(9) by blast
  then show ?thesis
    using materialize_outcome [OF assms(1-4,9,5-8)] materialize_reports [of ops en paths ids sums allocs w]
    unfolding reports_all_def Let_def no_outage_def by blast
qed

theorem page_index_refines_witness:
  "\<exists>paths ids sums allocs w items rs root. query_items items rs \<and>
    fst (materialize_child_queries ex_redb ex_environment paths ids sums allocs w) =
      res_bind (map_err IndexRun (append_all ex_digest (en_grow ex_environment) rs w)) (\<lambda>w. Inr (root_metadata root, w))"
proof -
  obtain recs where recs: "list_all2 observation_record [ex_directory, ex_file] recs" "keys_sorted recs"
    "\<forall>kv \<in> set recs. 8 + length (fst kv) + length (snd kv) \<le> 1000" "record_cost recs \<le> 2000"
    using ex_stream_records by blast
  let ?k3 = "summary_records 0 [ex_summary [[97]], ex_summary []]" and ?k4 = "[(file_id_bytes (Inode 1 2), contribution_value ex_leaf)]"
  obtain paths where paths: "write_run ex_digest (\<lambda>_. None :: unit option) (ex_run_of RunPathObservation) 1000 recs = Inr paths"
    using ex_run_written [OF recs(2-4)] by blast
  obtain ids where ids: "write_run ex_digest (\<lambda>_. None :: unit option) (ex_run_of RunIdentityObservation) 1000 [] = Inr ids"
    using ex_run_written [of "[]"] by (auto simp: keys_sorted_def)
  obtain sums where sums: "write_run ex_digest (\<lambda>_. None :: unit option) (ex_run_of RunDirectorySummary) 1000 ?k3 = Inr sums"
    using ex_fact_records(3) by blast
  obtain allocs where allocs: "write_run ex_digest (\<lambda>_. None :: unit option) (ex_run_of RunAllocationContribution) 1000 ?k4 = Inr allocs"
    using ex_fact_records(4) by blast
  obtain w where w: "rw_new (en_grow ex_environment) [] 0 (ex_run_of RunChildQuery) 1000 = Inr w" using ex_output by blast
  have kind: "rd_kind (rw_descriptor w) = RunChildQuery" using rw_new_descriptor [OF w] by simp
  obtain F root where F: "page_facts_of [ex_directory, ex_file] [] [ex_summary [[97]], ex_summary []] [ex_leaf] = Some F" "pf_headers F [] = Some root"
    using consistent_facts_exist [OF ex_consistent] by blast
  have facts: "facts_of_records recs [] ?k3 ?k4 = Some F"
    using F(1) decode_all_observations [OF recs(1)] ex_fact_records(1,2) by (simp add: facts_of_records_def)
  note ex = ex_environment_simps
  have "index_outcome ex_digest (en_grow ex_environment) (Some F) w (fst (materialize_child_queries ex_redb ex_environment paths ids sums allocs w))"
    using page_index_refines [where en = ex_environment, unfolded ex(1), OF ex_redb_laws(1) ex_run_of_simps(1) ex(2,3) paths ids sums allocs kind]
      ex_redb_laws(2) ex(4) unfolding facts Let_def by blast
  then show ?thesis unfolding index_outcome_def option.case F(2) by blast
qed

section \<open>A published generation answers from the facts\<close>

text \<open>
  C28. From consistent facts the build succeeds but for the growth of the output, and the sealed run answers
  with the facts: the header of a directory is its summary with every contribution below it added, and
  with the contributions shared at it apart; the row of a directory in its parent's page carries the same
  totals and coverage as its own header; the row of a file has its identity and its last allocation; and the
  rows are exactly the observed paths.
\<close>

theorem published_rows_exact:
  fixes ops :: "('d, 't, 'r, 'x) redb" and en :: "'os build_environment"
  assumes "redb_laws ops D T R" and "\<And>x. length (en_sha en x) = 32" and "\<And>n. en_running en n = None" and "\<And>k. en_reopen en k = None"
    and "write_run (en_sha en) granted d1 c1 k1 = Inr paths" and "write_run (en_sha en) granted d2 c2 k2 = Inr ids"
    and "write_run (en_sha en) granted d3 c3 k3 = Inr sums" and "write_run (en_sha en) granted d4 c4 k4 = Inr allocs"
    and "decode_all decode_path_observation k1 = Some obs" and "decode_all decode_identity_observation k2 = Some idents"
    and "decode_all decode_summary_fact k3 = Some ys" and "decode_all decode_contribution_fact k4 = Some cons"
    and "consistent_facts obs idents ys cons" and "redb_steady ops" and "storage_steady en"
    and "rw_new (en_grow en) [] 0 d capacity = Inr w" and "rd_kind d = RunChildQuery"
  shows "\<exists>items rs root. query_items items rs \<and> root \<in> set ys \<and> ds_path root = [] \<and>
    res_bind (fst (materialize_child_queries ops en paths ids sums allocs w)) (\<lambda>(m, w).
        res_bind (map_err IndexRun (rw_seal (en_sha en) (en_grow en) w)) (\<lambda>run. Inr (m, run))) =
      res_bind (map_err IndexRun (write_run (en_sha en) (en_grow en) d capacity rs)) (\<lambda>run. Inr (root_metadata (header_with root cons), run)) \<and>
    st_path ` {e. EntryItem e \<in> set items} = po_path ` set obs \<and>
    (\<forall>run. write_run (en_sha en) (en_grow en) d capacity rs = Inr run \<longrightarrow>
      (\<forall>y \<in> set ys. read_header_from_run (en_sha en) run (ds_path y) = (Inr (Some (header_with y cons)) :: ('os scan_page_error, _) res)) \<and>
      (\<forall>f. plain f \<longrightarrow> f \<notin> ds_path ` set ys \<longrightarrow> read_header_from_run (en_sha en) run f = (Inr None :: ('os scan_page_error, _) res)) \<and>
      (\<forall>ob \<in> set obs. po_kind ob \<noteq> EntryDirectory \<longrightarrow>
        read_page_entry (en_sha en) run (po_path ob) = (Inr (Some (into_page_entry (leaf_row ob idents cons))) :: ('os scan_page_error, _) res)) \<and>
      (\<forall>ob \<in> set obs. \<forall>y \<in> set ys. ds_path y = po_path ob \<longrightarrow>
        read_page_entry (en_sha en) run (po_path ob) = (Inr (Some (directory_row ob y cons)) :: ('os scan_page_error, _) res)))"
proof -
  obtain F root0 where F: "page_facts_of obs idents ys cons = Some F" "pf_headers F [] = Some root0"
    using consistent_facts_exist [OF assms(13)] by blast
  note closed = page_facts_closed [OF F(1)]
  have ok: "paths_ok F" using closed(7) by (simp add: facts_agree_def)
  have "[] \<in> ds_path ` set ys" using closed(3) F(2) by blast
  then obtain root where root: "root \<in> set ys" "ds_path root = []" by auto
  have root0: "root0 = header_with root cons" using closed(4) [OF root(1)] root(2) F(2) by simp
  have w: "rd_kind (rw_descriptor w) = RunChildQuery" using rw_new_descriptor [OF assms(16)] assms(17) by simp
  have facts: "facts_of_records k1 k2 k3 k4 = Some F" using assms(9-12) F(1) by (simp add: facts_of_records_def)
  have "no_outage (fst (materialize_child_queries ops en paths ids sums allocs w))" by (rule steady_no_outage [OF assms(14,15) w])
  then have "index_outcome (en_sha en) (en_grow en) (Some F) w (fst (materialize_child_queries ops en paths ids sums allocs w))"
    using materialize_outcome [OF assms(1-4) w assms(5-8)] by (auto simp: facts no_outage_def)
  then obtain items rs where items: "set items = items_of F" "query_items items rs"
    "fst (materialize_child_queries ops en paths ids sums allocs w) =
      res_bind (map_err IndexRun (append_all (en_sha en) (en_grow en) rs w)) (\<lambda>w. Inr (root_metadata root0, w))"
    unfolding index_outcome_def option.case F(2) by blast
  have sealed: "res_bind (fst (materialize_child_queries ops en paths ids sums allocs w)) (\<lambda>(m, w).
        res_bind (map_err IndexRun (rw_seal (en_sha en) (en_grow en) w)) (\<lambda>run. Inr (m, run))) =
      res_bind (map_err IndexRun (write_run (en_sha en) (en_grow en) d capacity rs)) (\<lambda>run. Inr (root_metadata (header_with root cons), run))"
    unfolding items(3) root0 write_run_def using assms(16) by (cases "append_all (en_sha en) (en_grow en) rs w") simp_all
  have rows: "st_path ` {e. EntryItem e \<in> set items} = po_path ` set obs"
    using ok unfolding closed(2) [symmetric] items(1) by (force simp: items_of_def paths_ok_def image_iff dom_def)
  have reads: "read_page_entry (en_sha en) run (po_path ob) = (Inr (Some (into_page_entry e)) :: ('os scan_page_error, _) res)"
    if run: "write_run (en_sha en) (en_grow en) d capacity rs = Inr run" and e: "pf_entries F (po_path ob) = Some e" for run ob e
  proof -
    have "EntryItem e \<in> set items" "st_path e = po_path ob" using e ok items(1) by (auto simp: items_of_def paths_ok_def)
    moreover from this obtain kv where "entry_record e kv" using entries_record [of items rs e] items(2) by (auto simp: query_items_def entries_of_iff)
    ultimately have p: "plain (butlast (po_path ob))" "po_path ob \<noteq> []" using entry_recordD(2,4) [of e kv] by simp_all
    show ?thesis
      using read_exact [where ?'io = 'os, OF run assms(17,2) items(2) p(1), of "po_path ob"] find_item [OF items(1) ok e]
      by (simp add: read_page_entry_def relative_parent_eq p(2))
  qed
  have headers: "read_header_from_run (en_sha en) run f = (Inr (pf_headers F f) :: ('os scan_page_error, _) res)"
    if "write_run (en_sha en) (en_grow en) d capacity rs = Inr run" "plain f" for run f
    using read_header [where ?'io = 'os, OF that(1) assms(17,2) items(2) that(2)] header_of_items [OF items(1)] by simp
  have plain: "plain (ds_path y)" if "y \<in> set ys" for y
  proof -
    have "HeaderItem (ds_path y) (header_with y cons) \<in> set items" using closed(4) [OF that] items(1) by (simp add: items_of_def)
    then obtain kv where "item_record (HeaderItem (ds_path y) (header_with y cons)) kv"
      using items(2) unfolding query_items_def by (metis list_all2_conv_all_nth in_set_conv_nth)
    then show ?thesis by simp
  qed
  have answers: "(\<forall>y \<in> set ys. read_header_from_run (en_sha en) run (ds_path y) = (Inr (Some (header_with y cons)) :: ('os scan_page_error, _) res)) \<and>
      (\<forall>f. plain f \<longrightarrow> f \<notin> ds_path ` set ys \<longrightarrow> read_header_from_run (en_sha en) run f = (Inr None :: ('os scan_page_error, _) res)) \<and>
      (\<forall>ob \<in> set obs. po_kind ob \<noteq> EntryDirectory \<longrightarrow>
        read_page_entry (en_sha en) run (po_path ob) = (Inr (Some (into_page_entry (leaf_row ob idents cons))) :: ('os scan_page_error, _) res)) \<and>
      (\<forall>ob \<in> set obs. \<forall>y \<in> set ys. ds_path y = po_path ob \<longrightarrow>
        read_page_entry (en_sha en) run (po_path ob) = (Inr (Some (directory_row ob y cons)) :: ('os scan_page_error, _) res))"
    if run: "write_run (en_sha en) (en_grow en) d capacity rs = Inr run" for run
  proof (intro conjI ballI allI impI)
    show "read_header_from_run (en_sha en) run (ds_path y) = (Inr (Some (header_with y cons)) :: ('os scan_page_error, _) res)" if "y \<in> set ys" for y
      using headers [OF run plain [OF that]] closed(4) [OF that] by simp
    show "read_header_from_run (en_sha en) run f = (Inr None :: ('os scan_page_error, _) res)" if "plain f" "f \<notin> ds_path ` set ys" for f
    proof -
      have "pf_headers F f = None" using that(2) closed(3) by blast
      then show ?thesis using headers [OF run that(1)] by simp
    qed
    show "read_page_entry (en_sha en) run (po_path ob) = (Inr (Some (into_page_entry (leaf_row ob idents cons))) :: ('os scan_page_error, _) res)"
      if "ob \<in> set obs" "po_kind ob \<noteq> EntryDirectory" for ob using reads [OF run closed(5) [OF that]] .
    show "read_page_entry (en_sha en) run (po_path ob) = (Inr (Some (directory_row ob y cons)) :: ('os scan_page_error, _) res)"
      if "ob \<in> set obs" "y \<in> set ys" "ds_path y = po_path ob" for ob y
      using directory_row_read [OF F(1) that] reads [OF run] by fastforce
  qed
  show ?thesis using items(2) root sealed rows answers by blast
qed

theorem published_rows_exact_witness:
  "\<exists>paths ids sums allocs w items rs. query_items items rs \<and> st_path ` {e. EntryItem e \<in> set items} = {[[97]], [[97], [98]]} \<and>
    res_bind (fst (materialize_child_queries ex_redb ex_environment paths ids sums allocs w)) (\<lambda>(m, w).
        res_bind (map_err IndexRun (rw_seal ex_digest (en_grow ex_environment) w)) (\<lambda>run. Inr (m, run))) =
      res_bind (map_err IndexRun (write_run ex_digest (en_grow ex_environment) (ex_run_of RunChildQuery) 1000 rs))
        (\<lambda>run. Inr (root_metadata (header_with (ex_summary []) [ex_leaf]), run)) \<and>
    bb_lower (sm_allocated_bytes (pe_metrics (directory_row ex_directory (ex_summary [[97]]) [ex_leaf]))) = 8"
proof -
  obtain recs where recs: "list_all2 observation_record [ex_directory, ex_file] recs" "keys_sorted recs"
    "\<forall>kv \<in> set recs. 8 + length (fst kv) + length (snd kv) \<le> 1000" "record_cost recs \<le> 2000"
    using ex_stream_records by blast
  let ?k3 = "summary_records 0 [ex_summary [[97]], ex_summary []]" and ?k4 = "[(file_id_bytes (Inode 1 2), contribution_value ex_leaf)]"
  obtain paths where paths: "write_run ex_digest (\<lambda>_. None :: unit option) (ex_run_of RunPathObservation) 1000 recs = Inr paths"
    using ex_run_written [OF recs(2-4)] by blast
  obtain ids where ids: "write_run ex_digest (\<lambda>_. None :: unit option) (ex_run_of RunIdentityObservation) 1000 [] = Inr ids"
    using ex_run_written [of "[]"] by (auto simp: keys_sorted_def)
  obtain sums where sums: "write_run ex_digest (\<lambda>_. None :: unit option) (ex_run_of RunDirectorySummary) 1000 ?k3 = Inr sums"
    using ex_fact_records(3) by blast
  obtain allocs where allocs: "write_run ex_digest (\<lambda>_. None :: unit option) (ex_run_of RunAllocationContribution) 1000 ?k4 = Inr allocs"
    using ex_fact_records(4) by blast
  obtain w where w: "rw_new (en_grow ex_environment) [] 0 (ex_run_of RunChildQuery) 1000 = Inr w" using ex_output by blast
  note ex = ex_environment_simps
  have none: "decode_all decode_identity_observation [] = Some []" by simp
  note exact = published_rows_exact [where en = ex_environment, unfolded ex(1), OF ex_redb_laws(1) ex_run_of_simps(1) ex(2,3) paths ids sums allocs
      decode_all_observations [OF recs(1)] none ex_fact_records(1,2) ex_consistent ex_redb_laws(2) ex(4) w ex_run_of_simps(2)]
  then obtain items rs root where r: "query_items items rs" "root \<in> set [ex_summary [[97]], ex_summary []]" "ds_path root = []"
    "res_bind (fst (materialize_child_queries ex_redb ex_environment paths ids sums allocs w)) (\<lambda>(m, w).
        res_bind (map_err IndexRun (rw_seal ex_digest (en_grow ex_environment) w)) (\<lambda>run. Inr (m, run))) =
      res_bind (map_err IndexRun (write_run ex_digest (en_grow ex_environment) (ex_run_of RunChildQuery) 1000 rs))
        (\<lambda>run. Inr (root_metadata (header_with root [ex_leaf]), run))"
    "st_path ` {e. EntryItem e \<in> set items} = po_path ` set [ex_directory, ex_file]"
    by (elim exE conjE) (rule that)
  have root: "root = ex_summary []" using r(2,3) by (auto simp: ex_summary_def)
  have rows: "st_path ` {e. EntryItem e \<in> set items} = {[[97]], [[97], [98]]}" using r(5) by (simp add: ex_directory_def ex_file_def)
  have "bb_lower (sm_allocated_bytes (pe_metrics (directory_row ex_directory (ex_summary [[97]]) [ex_leaf]))) = 8"
    by (simp add: directory_row_def header_with_def ex_summary_def ex_leaf_def charged_def add_contribution_def add_physical_def
        clear_uncertain_physical_bounds_def sm_leaf_def bb_add_def bb_exact_def sat_add_def)
  then show ?thesis using r(1,4) rows unfolding root by blast
qed

end
