(* ===== verification/Task_Spill.thy ===== *)
theory Task_Spill
  imports Relative_Path Model_Types Temporary_Storage Run_File
begin

text \<open>
  The journal file of directories that wait to be scanned (\<open>TaskSpill\<close> of
  \<open>src/src/runtime/scanner/task_spill.rs\<close>) and the native path encoding its records use
  (\<open>encode_path\<close>, \<open>decode_path\<close> of \<open>src/src/native_path.rs\<close>, on Unix).

  The file is its bytes and a cursor; \<open>os n\<close> is the outcome of the \<open>n\<close>-th call on it,
  an operating-system error or nothing.  JSON of the \<open>serde_json\<close> crate and base64 of the
  \<open>base64\<close> crate are the record \<open>task_codec\<close>.  The storage the journal is charged to is
  passed in and returned.  The owner of a journal stops at its first error and drops it, so a failed
  call returns the error only.  \<open>usize\<close> has 64 bits: conversions between it and \<open>u64\<close>
  do not fail.
\<close>

section \<open>Paths in records\<close>

datatype encoded_native_path = UnixBytes string | WindowsUtf16Le string | Utf8 string

datatype 'b path_codec_error = CodecBase64 'b | WrongPlatform string | OddUtf16Length | InvalidUtf8

record ('j, 'b) task_codec =
  jc_base64_encode :: "bytes \<Rightarrow> string"
  jc_base64_decode :: "string \<Rightarrow> ('b, bytes) res"
  jc_to_vec :: "encoded_native_path \<times> native_identity option \<Rightarrow> ('j, bytes) res"
  jc_from_slice :: "bytes \<Rightarrow> ('j, encoded_native_path \<times> native_identity option) res"

text \<open>A Rust string is UTF-8; \<open>PathBuf::from\<close> keeps its bytes.\<close>

definition path_of_string :: "string \<Rightarrow> bytes" where
  "path_of_string s = map of_char s"

definition encode_path :: "('j, 'b) task_codec \<Rightarrow> bytes \<Rightarrow> encoded_native_path" where
  "encode_path jc path = UnixBytes (jc_base64_encode jc path)"

definition decode_path :: "('j, 'b) task_codec \<Rightarrow> encoded_native_path \<Rightarrow> ('b path_codec_error, bytes) res" where
  "decode_path jc encoded =
     (case encoded of
        UnixBytes val \<Rightarrow> map_err CodecBase64 (jc_base64_decode jc val)
      | WindowsUtf16Le _ \<Rightarrow> Inl (WrongPlatform ''windows-utf16-le'')
      | Utf8 val \<Rightarrow> Inr (path_of_string val))"

section \<open>The file\<close>

record spill_file =
  sf_bytes :: bytes
  sf_pos :: nat
  sf_calls :: nat

type_synonym 'io spill_os = "nat \<Rightarrow> 'io option"

definition spill_call :: "'io spill_os \<Rightarrow> spill_file \<Rightarrow> ('io io_error, spill_file) res" where
  "spill_call os f =
     (case os (sf_calls f) of
        Some e \<Rightarrow> Inl (OsError e)
      | None \<Rightarrow> Inr (f\<lparr>sf_calls := Suc (sf_calls f)\<rparr>))"

definition file_seek :: "'io spill_os \<Rightarrow> u64 \<Rightarrow> spill_file \<Rightarrow> ('io io_error, spill_file) res" where
  "file_seek os offset f = res_bind (spill_call os f) (\<lambda>f. Inr (f\<lparr>sf_pos := unat offset\<rparr>))"

definition file_read_exact :: "'io spill_os \<Rightarrow> nat \<Rightarrow> spill_file \<Rightarrow> ('io io_error, bytes \<times> spill_file) res" where
  "file_read_exact os n f =
     res_bind (spill_call os f) (\<lambda>f.
       if n \<noteq> 0 \<and> length (sf_bytes f) < sf_pos f + n then Inl UnexpectedEof
       else Inr (take n (drop (sf_pos f) (sf_bytes f)), f\<lparr>sf_pos := sf_pos f + n\<rparr>))"

text \<open>A write past the end fills the gap with zeros.\<close>

definition overwrite :: "nat \<Rightarrow> bytes \<Rightarrow> bytes \<Rightarrow> bytes" where
  "overwrite pos bs file =
     (if bs = [] then file
      else take pos (file @ replicate (pos - length file) 0) @ bs @ drop (pos + length bs) file)"

definition file_write_all :: "'io spill_os \<Rightarrow> bytes \<Rightarrow> spill_file \<Rightarrow> ('io io_error, spill_file) res" where
  "file_write_all os bs f =
     res_bind (spill_call os f) (\<lambda>f.
       Inr (f\<lparr>sf_bytes := overwrite (sf_pos f) bs (sf_bytes f), sf_pos := sf_pos f + length bs\<rparr>))"

definition file_set_len :: "'io spill_os \<Rightarrow> u64 \<Rightarrow> spill_file \<Rightarrow> ('io io_error, spill_file) res" where
  "file_set_len os len f =
     res_bind (spill_call os f) (\<lambda>f. Inr (f\<lparr>sf_bytes := resize len (sf_bytes f)\<rparr>))"

section \<open>The journal\<close>

record directory_task =
  dt_path :: bytes
  dt_identity :: "native_identity option"

definition MAX_SPILLED_TASK_BYTES :: nat where "MAX_SPILLED_TASK_BYTES = 1024 * 1024"
definition SPILL_LENGTH_BYTES :: u64 where "SPILL_LENGTH_BYTES = 8"
definition TASK_SPILL_COMPACTION_BYTES :: u64 where "TASK_SPILL_COMPACTION_BYTES = 64 * 1024"

record task_spill =
  sp_file :: spill_file
  sp_next_read :: u64
  sp_next_write :: u64
  sp_pending :: nat
  sp_reservation :: u64

datatype ('io, 'j, 'b) spill_error =
    SpillIo "'io io_error" | SpillJson 'j | SpillPath "'b path_codec_error"
  | SpillRecordLimit | SpillRecordExceedsLimit | SpillTruncated | SpillOffsetOverflow
  | SpillCountOverflow | SpillCountUnderflow | SpillOffsetsOutOfOrder | SpillShiftUnderflow
  | SpillCompactionUnderflow | SpillNoRecordData

definition checked_sub :: "u64 \<Rightarrow> u64 \<Rightarrow> u64 option" where
  "checked_sub a b = (if b \<le> a then Some (a - b) else None)"

definition spill_new :: "spill_file \<Rightarrow> temporary_storage \<Rightarrow> ('io io_error, task_spill \<times> temporary_storage) res" where
  "spill_new tempfile st =
     res_bind (ts_reservation 0 st) (\<lambda>(reservation, st).
       Inr (\<lparr>sp_file = tempfile, sp_next_read = 0, sp_next_write = 0, sp_pending = 0, sp_reservation = reservation\<rparr>, st))"

definition spill_push :: "('j, 'b) task_codec \<Rightarrow> 'io spill_os \<Rightarrow> directory_task \<Rightarrow> task_spill \<Rightarrow> temporary_storage \<Rightarrow>
    (('io, 'j, 'b) spill_error, task_spill \<times> temporary_storage) res" where
  "spill_push jc os task sp st =
     res_bind (map_err SpillJson (jc_to_vec jc (encode_path jc (dt_path task), dt_identity task))) (\<lambda>payload.
     if MAX_SPILLED_TASK_BYTES < length payload then Inl SpillRecordLimit
     else
       let payload_len = (of_nat (length payload) :: u64) in
       res_bind (ok_or (Option.bind (checked_add (sp_next_write sp) SPILL_LENGTH_BYTES)
                   (\<lambda>offset. checked_add offset payload_len)) SpillOffsetOverflow) (\<lambda>next_write.
       res_bind (ok_or (usize_checked_add (sp_pending sp) 1) SpillCountOverflow) (\<lambda>pending.
       res_bind (map_err SpillIo (rs_grow_to next_write (sp_reservation sp) st)) (\<lambda>(reservation, st).
       res_bind (map_err SpillIo (file_seek os (sp_next_write sp) (sp_file sp))) (\<lambda>f.
       res_bind (map_err SpillIo (file_write_all os (u64_le payload_len) f)) (\<lambda>f.
       res_bind (map_err SpillIo (file_write_all os payload f)) (\<lambda>f.
         Inr (sp\<lparr>sp_file := f, sp_next_write := next_write, sp_pending := pending, sp_reservation := reservation\<rparr>, st))))))))"

definition read_record_at :: "('j, 'b) task_codec \<Rightarrow> 'io spill_os \<Rightarrow> u64 \<Rightarrow> task_spill \<Rightarrow>
    (('io, 'j, 'b) spill_error, (directory_task \<times> u64) \<times> task_spill) res" where
  "read_record_at jc os offset sp =
     res_bind (ok_or (checked_add offset SPILL_LENGTH_BYTES) SpillOffsetOverflow) (\<lambda>header_end.
     if sp_next_write sp < header_end then Inl SpillTruncated
     else
       res_bind (map_err SpillIo (file_seek os offset (sp_file sp))) (\<lambda>f.
       res_bind (map_err SpillIo (file_read_exact os 8 f)) (\<lambda>(length_bytes, f).
       let payload_len = unat (u64_from_le length_bytes) in
       if MAX_SPILLED_TASK_BYTES < payload_len then Inl SpillRecordExceedsLimit
       else
         res_bind (ok_or (checked_add header_end (of_nat payload_len)) SpillOffsetOverflow) (\<lambda>record_end.
         if sp_next_write sp < record_end then Inl SpillTruncated
         else
           res_bind (map_err SpillIo (file_read_exact os payload_len f)) (\<lambda>(payload, f).
           res_bind (map_err SpillJson (jc_from_slice jc payload)) (\<lambda>(encoded, identity).
           res_bind (map_err SpillPath (decode_path jc encoded)) (\<lambda>path.
             Inr ((\<lparr>dt_path = path, dt_identity = identity\<rparr>, record_end), sp\<lparr>sp_file := f\<rparr>))))))))"

text \<open>Moving the records before a selected one up by its length, last chunk first.\<close>

function shift_loop :: "'io spill_os \<Rightarrow> u64 \<Rightarrow> u64 \<Rightarrow> u64 \<Rightarrow> spill_file \<Rightarrow> (('io, 'j, 'b) spill_error, spill_file) res" where
  "shift_loop os start by_bytes remaining f =
     (if 0 < remaining then
        let chunk = min remaining TASK_SPILL_COMPACTION_BYTES in
        res_bind (ok_or (Option.bind (checked_add start remaining) (\<lambda>offset. checked_sub offset chunk))
                    SpillOffsetOverflow) (\<lambda>source.
        res_bind (map_err SpillIo (file_seek os source f)) (\<lambda>f.
        res_bind (map_err SpillIo (file_read_exact os (unat chunk) f)) (\<lambda>(buffer, f).
        res_bind (ok_or (checked_add source by_bytes) SpillOffsetOverflow) (\<lambda>target.
        res_bind (map_err SpillIo (file_seek os target f)) (\<lambda>f.
        res_bind (map_err SpillIo (file_write_all os buffer f)) (\<lambda>f.
        case checked_sub remaining chunk of
          None \<Rightarrow> Inl SpillShiftUnderflow
        | Some remaining \<Rightarrow> shift_loop os start by_bytes remaining f))))))
      else Inr f)"
  by pat_completeness auto

lemma chunk_pos: "0 < remaining \<Longrightarrow> 0 < min remaining TASK_SPILL_COMPACTION_BYTES"
  by (simp add: TASK_SPILL_COMPACTION_BYTES_def min_def)

lemma checked_sub_Some: "checked_sub a b = Some c \<longleftrightarrow> b \<le> a \<and> c = a - b"
  by (auto simp: checked_sub_def)

lemma chunk_less:
  "0 < remaining \<Longrightarrow> checked_sub remaining (min remaining TASK_SPILL_COMPACTION_BYTES) = Some r \<Longrightarrow> unat r < unat remaining"
  using chunk_pos [of remaining] by (auto simp: checked_sub_Some unat_sub word_less_nat_alt)

termination shift_loop
  by (relation "measure (\<lambda>(os, start, by_bytes, remaining, f). unat remaining)")
    (simp_all add: chunk_less)

definition shift_range_right :: "'io spill_os \<Rightarrow> u64 \<Rightarrow> u64 \<Rightarrow> u64 \<Rightarrow> spill_file \<Rightarrow> (('io, 'j, 'b) spill_error, spill_file) res" where
  "shift_range_right os start end_offset by_bytes f =
     res_bind (ok_or (checked_sub end_offset start) SpillOffsetsOutOfOrder) (\<lambda>remaining.
       if remaining = 0 then Inr f else shift_loop os start by_bytes remaining f)"

text \<open>Moving what is left to the front of the file, first chunk first.\<close>

function compact_loop :: "'io spill_os \<Rightarrow> u64 \<Rightarrow> u64 \<Rightarrow> u64 \<Rightarrow> spill_file \<Rightarrow> (('io, 'j, 'b) spill_error, spill_file) res" where
  "compact_loop os source destination bytes_left f =
     (if 0 < bytes_left then
        let chunk = min bytes_left TASK_SPILL_COMPACTION_BYTES in
        res_bind (map_err SpillIo (file_seek os source f)) (\<lambda>f.
        res_bind (map_err SpillIo (file_read_exact os (unat chunk) f)) (\<lambda>(buffer, f).
        res_bind (map_err SpillIo (file_seek os destination f)) (\<lambda>f.
        res_bind (map_err SpillIo (file_write_all os buffer f)) (\<lambda>f.
        res_bind (ok_or (checked_add source chunk) SpillOffsetOverflow) (\<lambda>source.
        res_bind (ok_or (checked_add destination chunk) SpillOffsetOverflow) (\<lambda>destination.
        case checked_sub bytes_left chunk of
          None \<Rightarrow> Inl SpillCompactionUnderflow
        | Some bytes_left \<Rightarrow> compact_loop os source destination bytes_left f))))))
      else Inr f)"
  by pat_completeness auto

termination compact_loop
  by (relation "measure (\<lambda>(os, source, destination, bytes_left, f). unat bytes_left)")
    (simp_all add: chunk_less)

definition compact_after_read :: "'io spill_os \<Rightarrow> task_spill \<Rightarrow> temporary_storage \<Rightarrow>
    (('io, 'j, 'b) spill_error, task_spill \<times> temporary_storage) res" where
  "compact_after_read os sp st =
     res_bind (ok_or (checked_sub (sp_next_write sp) (sp_next_read sp)) SpillOffsetsOutOfOrder) (\<lambda>remaining.
     if remaining = 0 then Inl SpillNoRecordData
     else
       let compact_after = min (sp_reservation sp) TASK_SPILL_COMPACTION_BYTES in
       if sp_next_read sp < compact_after \<and> sp_next_read sp < remaining then Inr (sp, st)
       else
         res_bind (compact_loop os (sp_next_read sp) 0 remaining (sp_file sp)) (\<lambda>f.
         res_bind (map_err SpillIo (file_set_len os remaining f)) (\<lambda>f.
         res_bind (map_err SpillIo (rs_shrink_to remaining (sp_reservation sp) st)) (\<lambda>(reservation, st).
           Inr (sp\<lparr>sp_file := f, sp_reservation := reservation, sp_next_read := 0, sp_next_write := remaining\<rparr>, st)))))"

definition spill_take :: "('j, 'b) task_codec \<Rightarrow> 'io spill_os \<Rightarrow> task_spill \<Rightarrow> temporary_storage \<Rightarrow>
    (('io, 'j, 'b) spill_error, directory_task option \<times> task_spill \<times> temporary_storage) res" where
  "spill_take jc os sp st =
     (if sp_pending sp = 0 then Inr (None, sp, st)
      else
        res_bind (read_record_at jc os (sp_next_read sp) sp) (\<lambda>((task, next_read), sp).
        let sp = sp\<lparr>sp_next_read := next_read, sp_pending := sp_pending sp - 1\<rparr> in
        if sp_pending sp = 0 then
          let sp = sp\<lparr>sp_next_read := 0, sp_next_write := 0\<rparr> in
          res_bind (map_err SpillIo (file_set_len os 0 (sp_file sp))) (\<lambda>f.
          res_bind (map_err SpillIo (rs_shrink_to 0 (sp_reservation sp) st)) (\<lambda>(reservation, st).
            Inr (Some task, sp\<lparr>sp_file := f, sp_reservation := reservation\<rparr>, st)))
        else
          res_bind (compact_after_read os sp st) (\<lambda>(sp, st). Inr (Some task, sp, st))))"

text \<open>The record at \<open>offset\<close> is moved to the front of the journal.\<close>

definition move_to_front :: "'io spill_os \<Rightarrow> u64 \<Rightarrow> u64 \<Rightarrow> task_spill \<Rightarrow> (('io, 'j, 'b) spill_error, task_spill) res" where
  "move_to_front os offset record_end sp =
     (if offset = sp_next_read sp then Inr sp
      else
        res_bind (ok_or (checked_sub record_end offset) SpillOffsetsOutOfOrder) (\<lambda>record_len.
        res_bind (map_err SpillIo (file_seek os offset (sp_file sp))) (\<lambda>f.
        res_bind (map_err SpillIo (file_read_exact os (unat record_len) f)) (\<lambda>(bs, f).
        res_bind (shift_range_right os (sp_next_read sp) offset record_len f) (\<lambda>f.
        res_bind (map_err SpillIo (file_seek os (sp_next_read sp) f)) (\<lambda>f.
        res_bind (map_err SpillIo (file_write_all os bs f)) (\<lambda>f. Inr (sp\<lparr>sp_file := f\<rparr>))))))))"

lemma checked_add_unat: "checked_add a b = Some (c :: u64) \<Longrightarrow> unat c = unat a + unat b"
  by (auto simp: checked_add_Some unat_word_ariths)

lemma read_record_at_progress:
  assumes "read_record_at jc os offset sp = Inr ((task, record_end), sp')"
  shows "unat offset < unat record_end" "unat record_end \<le> unat (sp_next_write sp)" "sp_next_write sp' = sp_next_write sp"
  using assms
  by (auto simp: read_record_at_def res_bind_Inr_iff Let_def SPILL_LENGTH_BYTES_def word_less_nat_alt
      dest!: checked_add_unat split: if_splits prod.splits)

function take_path_loop :: "('j, 'b) task_codec \<Rightarrow> 'io spill_os \<Rightarrow> bytes \<Rightarrow> u64 \<Rightarrow> task_spill \<Rightarrow> temporary_storage \<Rightarrow>
    (('io, 'j, 'b) spill_error, directory_task option \<times> task_spill \<times> temporary_storage) res" where
  "take_path_loop jc os path offset sp st =
     (if offset < sp_next_write sp then
        case read_record_at jc os offset sp of
          Inl e \<Rightarrow> Inl e
        | Inr ((task, record_end), sp) \<Rightarrow>
            if path_eq (dt_path task) path
            then res_bind (move_to_front os offset record_end sp) (\<lambda>sp. spill_take jc os sp st)
            else take_path_loop jc os path record_end sp st
      else Inr (None, sp, st))"
  by pat_completeness auto

termination take_path_loop
proof (relation "measure (\<lambda>(jc, os, path, offset, sp, st). unat (sp_next_write sp) - unat offset)", simp, clarify)
  fix jc :: "('j, 'b) task_codec" and os :: "'io spill_os" and path offset sp and st :: temporary_storage
    and y task record_end sp'
  assume "offset < sp_next_write sp" "read_record_at jc os offset sp = Inr ((task, record_end), sp')"
  then show "((jc, os, path, record_end, sp', st), jc, os, path, offset, sp, st)
      \<in> measure (\<lambda>(jc, os, path, offset, sp, st). unat (sp_next_write sp) - unat offset)"
    using read_record_at_progress [of jc os offset sp task record_end sp'] by (simp add: word_less_nat_alt)
qed

definition spill_take_path :: "('j, 'b) task_codec \<Rightarrow> 'io spill_os \<Rightarrow> bytes \<Rightarrow> task_spill \<Rightarrow> temporary_storage \<Rightarrow>
    (('io, 'j, 'b) spill_error, directory_task option \<times> task_spill \<times> temporary_storage) res" where
  "spill_take_path jc os path sp st = take_path_loop jc os path (sp_next_read sp) sp st"

declare shift_loop.simps [simp del] compact_loop.simps [simp del] take_path_loop.simps [simp del]

end
