(* ===== verification/Task_Spill_Spec.thy ===== *)
theory Task_Spill_Spec
  imports Task_Spill
begin

text \<open>
  The journal file as a list of tasks.  \<open>spill_holds\<close> says which tasks a journal holds, in
  which order; a push appends one, \<open>take\<close> gives the first, and \<open>take_path\<close> the first with
  the selected path, whatever the file had to move for it.  \<open>settles\<close> is the postcondition of a
  call whose only failures are those of the file: it composes along \<open>res_bind\<close>, and with a file
  that does not fail the call succeeds.
\<close>

section \<open>Calls that fail only with the file\<close>

definition file_error :: "'io spill_os \<Rightarrow> ('io, 'j, 'b) spill_error \<Rightarrow> bool" where
  "file_error os e \<longleftrightarrow> (\<exists>n x. os n = Some x \<and> e = SpillIo (OsError x))"

definition settles :: "'io spill_os \<Rightarrow> ('a \<Rightarrow> bool) \<Rightarrow> (('io, 'j, 'b) spill_error, 'a) res \<Rightarrow> bool" where
  "settles os Q r \<longleftrightarrow> (case r of Inl e \<Rightarrow> file_error os e | Inr v \<Rightarrow> Q v)"

named_theorems settles_rules \<open>rules for calls on the journal file\<close>

lemma settles_Inr [simp]: "settles os Q (Inr v) \<longleftrightarrow> Q v"
  by (simp add: settles_def)

lemma settles_bind: "settles os (\<lambda>v. settles os Q (k v)) r \<Longrightarrow> settles os Q (res_bind r k)"
  by (cases r) (simp_all add: settles_def)

lemma settles_mono: "settles os P r \<Longrightarrow> (\<And>v. P v \<Longrightarrow> Q v) \<Longrightarrow> settles os Q r"
  by (cases r) (simp_all add: settles_def)

lemma settles_D: "settles os Q r \<Longrightarrow> r = Inr v \<Longrightarrow> Q v"
  by (simp add: settles_def)

lemma settles_no_fault: "settles os Q r \<Longrightarrow> (\<And>n. os n = None) \<Longrightarrow> \<exists>v. r = Inr v \<and> Q v"
  by (cases r) (simp_all add: settles_def file_error_def)

lemma settles_call:
  assumes "Q (f\<lparr>sf_calls := Suc (sf_calls f)\<rparr>)"
  shows "settles os Q (map_err SpillIo (spill_call os f))"
  using assms by (cases "os (sf_calls f)") (auto simp: spill_call_def settles_def file_error_def)

lemma settles_seek [settles_rules]:
  assumes "\<And>g. sf_bytes g = sf_bytes f \<Longrightarrow> sf_pos g = unat offset \<Longrightarrow> Q g"
  shows "settles os Q (map_err SpillIo (file_seek os offset f))"
  unfolding file_seek_def map_err_bind
  by (rule settles_bind, rule settles_call) (use assms in simp)

lemma settles_read [settles_rules]:
  assumes "sf_pos f + n \<le> length (sf_bytes f)"
    "\<And>g. sf_bytes g = sf_bytes f \<Longrightarrow> sf_pos g = sf_pos f + n \<Longrightarrow> Q (take n (drop (sf_pos f) (sf_bytes f)), g)"
  shows "settles os Q (map_err SpillIo (file_read_exact os n f))"
  unfolding file_read_exact_def map_err_bind
  by (rule settles_bind, rule settles_call) (use assms in simp)

lemma settles_write [settles_rules]:
  assumes "\<And>g. sf_bytes g = overwrite (sf_pos f) bs (sf_bytes f) \<Longrightarrow> sf_pos g = sf_pos f + length bs \<Longrightarrow> Q g"
  shows "settles os Q (map_err SpillIo (file_write_all os bs f))"
  unfolding file_write_all_def map_err_bind
  by (rule settles_bind, rule settles_call) (use assms in simp)

lemma settles_set_len [settles_rules]:
  assumes "\<And>g. sf_bytes g = resize len (sf_bytes f) \<Longrightarrow> Q g"
  shows "settles os Q (map_err SpillIo (file_set_len os len f))"
  unfolding file_set_len_def map_err_bind
  by (rule settles_bind, rule settles_call) (use assms in simp)

text \<open>A step that cannot fail here.\<close>

lemma settles_ok_or: "x = Some v \<Longrightarrow> settles os Q (k v) \<Longrightarrow> settles os Q (res_bind (ok_or x e) k)"
  by simp

lemma settles_copy:
  assumes "unat source + n \<le> length (sf_bytes f)"
    "\<And>g. sf_bytes g = overwrite (unat target) (take n (drop (unat source) (sf_bytes f))) (sf_bytes f) \<Longrightarrow> settles os Q (k g)"
  shows "settles os Q
     (res_bind (map_err SpillIo (file_seek os source f)) (\<lambda>f.
      res_bind (map_err SpillIo (file_read_exact os n f)) (\<lambda>(buffer, f).
      res_bind (map_err SpillIo (file_seek os target f)) (\<lambda>f.
      res_bind (map_err SpillIo (file_write_all os buffer f)) k))))"
  by (rule settles_bind, rule settles_seek, rule settles_bind, rule settles_read, use assms(1) in simp, simp,
      rule settles_bind, rule settles_seek, rule settles_bind, rule settles_write, use assms(2) in simp)

section \<open>Moving bytes\<close>

lemma length_overwrite: "pos + length bs \<le> length file \<Longrightarrow> length (overwrite pos bs file) = length file"
  by (simp add: overwrite_def)

lemma overwrite_nth:
  assumes "pos + length bs \<le> length file" "i < length file"
  shows "overwrite pos bs file ! i = (if pos \<le> i \<and> i < pos + length bs then bs ! (i - pos) else file ! i)"
  using assms by (auto simp: overwrite_def nth_append)

lemma overwrite_end: "overwrite (length file) bs file = file @ bs"
  by (simp add: overwrite_def)

lemma overwrite_middle: "length old = length new \<Longrightarrow> overwrite (length a) new (a @ old @ b) = a @ new @ b"
  by (cases "new = []") (auto simp: overwrite_def)

text \<open>The bytes \<open>[source, source + n)\<close> now also stand at \<open>target\<close>; \<open>span\<close> is what may change.\<close>

definition moved :: "nat \<Rightarrow> nat \<Rightarrow> nat \<Rightarrow> nat \<Rightarrow> nat \<Rightarrow> bytes \<Rightarrow> bytes \<Rightarrow> bool" where
  "moved source target n lo hi F G \<longleftrightarrow> length G = length F \<and> (\<forall>i < length F. i < lo \<or> hi \<le> i \<longrightarrow> G ! i = F ! i) \<and>
     (\<forall>i < n. G ! (target + i) = F ! (source + i))"

lemma shift_loop_moved:
  fixes os :: "'io spill_os"
  assumes "unat start + unat remaining + unat by_bytes \<le> length (sf_bytes f)" "length (sf_bytes f) < 2 ^ 64"
  shows "settles os (\<lambda>g. moved (unat start) (unat start + unat by_bytes) (unat remaining) (unat start)
      (unat start + unat remaining + unat by_bytes) (sf_bytes f) (sf_bytes g))
      (shift_loop os start by_bytes remaining f :: (('io, 'j, 'b) spill_error, _) res)"
  using assms
proof (induction os start by_bytes remaining f rule: shift_loop.induct)
  case (1 os start by_bytes remaining f)
  show ?case
  proof (cases "0 < remaining")
    case False
    then have "remaining = 0" by (simp add: word_gt_0)
    then show ?thesis by (simp add: moved_def shift_loop.simps [of _ _ _ 0])
  next
    case True
    let ?c = "min remaining TASK_SPILL_COMPACTION_BYTES" and ?s = "unat start" and ?b = "unat by_bytes"
    let ?r = "unat remaining" and ?F = "sf_bytes f"
    define c where "c = unat ?c"
    have c: "0 < c" "c \<le> ?r" using chunk_pos [OF True] by (simp_all add: c_def word_less_nat_alt min_def word_le_nat_alt)
    have s1: "checked_add start remaining = Some (start + remaining)" "unat (start + remaining) = ?s + ?r"
      using 1(2,3) by (simp_all add: checked_add_def unat_word_ariths)
    have s2: "checked_sub (start + remaining) ?c = Some (start + remaining - ?c)" "unat (start + remaining - ?c) = ?s + ?r - c"
      using c s1(2) by (simp_all add: checked_sub_def word_le_nat_alt unat_sub c_def)
    have s3: "checked_add (start + remaining - ?c) by_bytes = Some (start + remaining - ?c + by_bytes)"
      "unat (start + remaining - ?c + by_bytes) = ?s + ?r - c + ?b"
      using 1(2,3) s2(2) by (simp_all add: checked_add_def unat_word_ariths)
    have s4: "checked_sub remaining ?c = Some (remaining - ?c)" "unat (remaining - ?c) = ?r - c"
      using c by (simp_all add: checked_sub_def word_le_nat_alt unat_sub c_def)
    have eq: "shift_loop os start by_bytes remaining f =
      (res_bind (map_err SpillIo (file_seek os (start + remaining - ?c) f)) (\<lambda>f.
       res_bind (map_err SpillIo (file_read_exact os c f)) (\<lambda>(buffer, f).
       res_bind (map_err SpillIo (file_seek os (start + remaining - ?c + by_bytes) f)) (\<lambda>f.
       res_bind (map_err SpillIo (file_write_all os buffer f)) (shift_loop os start by_bytes (remaining - ?c)))))
       :: (('io, 'j, 'b) spill_error, _) res)"
      by (subst shift_loop.simps) (simp add: True s1 s2 s3 s4 Let_def c_def)
    show ?thesis unfolding eq
    proof (rule settles_copy)
      show "unat (start + remaining - ?c) + c \<le> length ?F" using 1(2) s2(2) c by simp
      fix g :: spill_file
      assume "sf_bytes g = overwrite (unat (start + remaining - ?c + by_bytes)) (take c (drop (unat (start + remaining - ?c)) ?F)) ?F"
      then have g: "sf_bytes g = overwrite (?s + ?r - c + ?b) (take c (drop (?s + ?r - c) ?F)) ?F" using s2 s3 by simp
      have fit: "?s + ?r - c + ?b + length (take c (drop (?s + ?r - c) ?F)) \<le> length ?F" using 1(2) c by simp
      have len: "length (sf_bytes g) = length ?F" using g length_overwrite [OF fit] by simp
      have nth: "sf_bytes g ! i = (if ?s + ?r - c + ?b \<le> i \<and> i < ?s + ?r + ?b then ?F ! (i - ?b) else ?F ! i)" if "i < length ?F" for i
        using overwrite_nth [OF fit that] g 1(2) c by auto
      have "settles os (\<lambda>h. moved ?s (?s + ?b) (?r - c) ?s (?s + (?r - c) + ?b) (sf_bytes g) (sf_bytes h))
          (shift_loop os start by_bytes (remaining - ?c) g :: (('io, 'j, 'b) spill_error, _) res)"
        using 1(1) [OF True refl s4(1), of g] 1(2,3) len s4(2) by simp
      then show "settles os (\<lambda>h. moved ?s (?s + ?b) ?r ?s (?s + ?r + ?b) ?F (sf_bytes h)) 
          (shift_loop os start by_bytes (remaining - ?c) g :: (('io, 'j, 'b) spill_error, _) res)"
      proof (rule settles_mono)
        fix h :: spill_file
        assume m: "moved ?s (?s + ?b) (?r - c) ?s (?s + (?r - c) + ?b) (sf_bytes g) (sf_bytes h)"
        have "sf_bytes h ! (?s + ?b + i) = ?F ! (?s + i)" if "i < ?r" for i
        proof (cases "i < ?r - c")
          case True
          then have "sf_bytes h ! (?s + ?b + i) = sf_bytes g ! (?s + i)" using m by (simp add: moved_def)
          moreover have "\<not> ?s + ?r - c + ?b \<le> ?s + i" "?s + i < length ?F" using True 1(2) by linarith+
          ultimately show ?thesis using nth [of "?s + i"] by simp
        next
          case False
          then have "sf_bytes h ! (?s + ?b + i) = sf_bytes g ! (?s + ?b + i)" using m len that 1(2) by (simp add: moved_def)
          moreover have "?s + ?r - c + ?b \<le> ?s + ?b + i" "?s + ?b + i < ?s + ?r + ?b" "?s + ?b + i < length ?F" using False that 1(2) c by linarith+
          ultimately show ?thesis using nth [of "?s + ?b + i"] by (simp add: add.commute add.left_commute)
        qed
        moreover have "sf_bytes h ! i = ?F ! i" if "i < length ?F" "i < ?s \<or> ?s + ?r + ?b \<le> i" for i
        proof -
          have "sf_bytes h ! i = sf_bytes g ! i" using m len that c by (auto simp: moved_def)
          then show ?thesis using nth [OF that(1)] that(2) c by auto
        qed
        ultimately show "moved ?s (?s + ?b) ?r ?s (?s + ?r + ?b) ?F (sf_bytes h)" using m len by (simp add: moved_def)
      qed
    qed
  qed
qed

lemma compact_loop_moved:
  fixes os :: "'io spill_os"
  assumes "unat destination \<le> unat source" "unat source + unat bytes_left \<le> length (sf_bytes f)" "length (sf_bytes f) < 2 ^ 64"
  shows "settles os (\<lambda>g. moved (unat source) (unat destination) (unat bytes_left) (unat destination)
      (unat destination + unat bytes_left) (sf_bytes f) (sf_bytes g))
      (compact_loop os source destination bytes_left f :: (('io, 'j, 'b) spill_error, _) res)"
  using assms
proof (induction os source destination bytes_left f rule: compact_loop.induct)
  case (1 os source destination bytes_left f)
  show ?case
  proof (cases "0 < bytes_left")
    case False
    then have "bytes_left = 0" by (simp add: word_gt_0)
    then show ?thesis by (simp add: moved_def compact_loop.simps [of _ _ _ 0])
  next
    case True
    let ?c = "min bytes_left TASK_SPILL_COMPACTION_BYTES" and ?s = "unat source" and ?d = "unat destination"
    let ?r = "unat bytes_left" and ?F = "sf_bytes f"
    define c where "c = unat ?c"
    have c: "0 < c" "c \<le> ?r" using chunk_pos [OF True] by (simp_all add: c_def word_less_nat_alt min_def word_le_nat_alt)
    have s1: "checked_add source ?c = Some (source + ?c)" "unat (source + ?c) = ?s + c"
      "checked_add destination ?c = Some (destination + ?c)" "unat (destination + ?c) = ?d + c"
      using 1(2-4) c by (simp_all add: checked_add_def unat_word_ariths c_def)
    have s2: "checked_sub bytes_left ?c = Some (bytes_left - ?c)" "unat (bytes_left - ?c) = ?r - c"
      using c by (simp_all add: checked_sub_def word_le_nat_alt unat_sub c_def)
    have eq: "compact_loop os source destination bytes_left f =
      (res_bind (map_err SpillIo (file_seek os source f)) (\<lambda>f.
       res_bind (map_err SpillIo (file_read_exact os c f)) (\<lambda>(buffer, f).
       res_bind (map_err SpillIo (file_seek os destination f)) (\<lambda>f.
       res_bind (map_err SpillIo (file_write_all os buffer f)) (compact_loop os (source + ?c) (destination + ?c) (bytes_left - ?c)))))
       :: (('io, 'j, 'b) spill_error, _) res)"
      by (subst compact_loop.simps) (simp add: True s1 s2 Let_def c_def)
    show ?thesis unfolding eq
    proof (rule settles_copy)
      show "?s + c \<le> length ?F" using 1(3) c by simp
      fix g :: spill_file
      assume g: "sf_bytes g = overwrite ?d (take c (drop ?s ?F)) ?F"
      have fit: "?d + length (take c (drop ?s ?F)) \<le> length ?F" using 1(2,3) c by simp
      have len: "length (sf_bytes g) = length ?F" using g length_overwrite [OF fit] by simp
      have nth: "sf_bytes g ! i = (if ?d \<le> i \<and> i < ?d + c then ?F ! (?s + (i - ?d)) else ?F ! i)" if "i < length ?F" for i
        using overwrite_nth [OF fit that] g 1(2,3) c by auto
      have "settles os (\<lambda>h. moved (?s + c) (?d + c) (?r - c) (?d + c) (?d + c + (?r - c)) (sf_bytes g) (sf_bytes h))
          (compact_loop os (source + ?c) (destination + ?c) (bytes_left - ?c) g :: (('io, 'j, 'b) spill_error, _) res)"
        using 1(1) [OF True refl s2(1), of "destination + ?c" "source + ?c" g] 1(2-4) len s1 s2(2) c by simp
      then show "settles os (\<lambda>h. moved ?s ?d ?r ?d (?d + ?r) ?F (sf_bytes h))
          (compact_loop os (source + ?c) (destination + ?c) (bytes_left - ?c) g :: (('io, 'j, 'b) spill_error, _) res)"
      proof (rule settles_mono)
        fix h :: spill_file
        assume m: "moved (?s + c) (?d + c) (?r - c) (?d + c) (?d + c + (?r - c)) (sf_bytes g) (sf_bytes h)"
        have "sf_bytes h ! (?d + i) = ?F ! (?s + i)" if "i < ?r" for i
        proof (cases "i < c")
          case True
          then have "sf_bytes h ! (?d + i) = sf_bytes g ! (?d + i)" using m len 1(2,3) that by (simp add: moved_def)
          then show ?thesis using nth [of "?d + i"] 1(2,3) True that by simp
        next
          case False
          then obtain j where j: "i = c + j" by (metis le_add_diff_inverse not_less)
          then have "sf_bytes h ! (?d + i) = sf_bytes g ! (?s + i)" using m that by (simp add: moved_def add.assoc)
          then show ?thesis using nth [of "?s + i"] 1(2,3) that False by simp
        qed
        moreover have "sf_bytes h ! i = ?F ! i" if "i < length ?F" "i < ?d \<or> ?d + ?r \<le> i" for i
        proof -
          have "sf_bytes h ! i = sf_bytes g ! i" using m len that c by (auto simp: moved_def)
          then show ?thesis using nth [OF that(1)] that(2) c by auto
        qed
        ultimately show "moved ?s ?d ?r ?d (?d + ?r) ?F (sf_bytes h)" using m len by (simp add: moved_def)
      qed
    qed
  qed
qed

lemma moved_front:
  assumes m: "moved (length A) (length A + length R) (length B) (length A) (length A + length B + length R) (A @ B @ R @ C) G"
  shows "overwrite (length A) R G = A @ R @ B @ C"
proof (rule nth_equalityI)
  let ?F = "A @ B @ R @ C"
  have len: "length G = length ?F" using m by (simp add: moved_def)
  then have fit: "length A + length R \<le> length G" by simp
  show l: "length (overwrite (length A) R G) = length (A @ R @ B @ C)" using length_overwrite [OF fit] len by simp
  fix i
  assume "i < length (overwrite (length A) R G)"
  then have i: "i < length G" using length_overwrite [OF fit] by simp
  note w = overwrite_nth [OF fit i]
  consider "i < length A" | "length A \<le> i" "i < length A + length R"
    | "length A + length R \<le> i" "i < length A + length R + length B" | "length A + length B + length R \<le> i"
    by linarith
  then show "overwrite (length A) R G ! i = (A @ R @ B @ C) ! i"
  proof cases
    case 1
    then have "G ! i = ?F ! i" using m i len by (simp add: moved_def)
    then show ?thesis using w 1 by (simp add: nth_append)
  next
    case 2
    then have "i - length A < length R" by linarith
    then show ?thesis using w 2 by (simp add: nth_append)
  next
    case 3
    define j where "j = i - (length A + length R)"
    then have 3: "j < length B" "i = length A + length R + j" using 3 by simp_all
    then have "G ! (length A + length R + j) = ?F ! (length A + j)" using m by (simp add: moved_def)
    then show ?thesis using w 3 by (simp add: nth_append)
  next
    case 4
    then have "G ! i = ?F ! i" using m i len by (simp add: moved_def)
    moreover obtain k where k: "i = length A + length B + length R + k" using 4 le_Suc_ex by blast
    moreover have "?F ! i = C ! k" "(A @ R @ B @ C) ! i = C ! k"
      using nth_append_length_plus [of "A @ B @ R" C k] nth_append_length_plus [of "A @ R @ B" C k] k
      by (simp_all add: ac_simps)
    ultimately show ?thesis using w by simp
  qed
qed

section \<open>The tasks of a journal\<close>

definition task_codec_ok :: "('j, 'b) task_codec \<Rightarrow> bool" where
  "task_codec_ok jc \<longleftrightarrow> (\<forall>bs. jc_base64_decode jc (jc_base64_encode jc bs) = Inr bs) \<and>
     (\<forall>x v. jc_to_vec jc x = Inr v \<longrightarrow> jc_from_slice jc v = Inr x)"

definition task_payload :: "('j, 'b) task_codec \<Rightarrow> directory_task \<Rightarrow> ('j, bytes) res" where
  "task_payload jc t = jc_to_vec jc (encode_path jc (dt_path t), dt_identity t)"

definition frame_ok :: "('j, 'b) task_codec \<Rightarrow> directory_task \<Rightarrow> bool" where
  "frame_ok jc t \<longleftrightarrow> (\<exists>payload. task_payload jc t = Inr payload \<and> length payload \<le> MAX_SPILLED_TASK_BYTES)"

definition spill_frame :: "('j, 'b) task_codec \<Rightarrow> directory_task \<Rightarrow> bytes" where
  "spill_frame jc t = (case task_payload jc t of Inl _ \<Rightarrow> [] | Inr payload \<Rightarrow> u64_le (of_nat (length payload)) @ payload)"

definition frames :: "('j, 'b) task_codec \<Rightarrow> directory_task list \<Rightarrow> bytes" where
  "frames jc ts = concat (map (spill_frame jc) ts)"

lemma frames_simps [simp]:
  "frames jc [] = []" "frames jc (t # ts) = spill_frame jc t @ frames jc ts"
  "frames jc (ts @ us) = frames jc ts @ frames jc us"
  by (simp_all add: frames_def)

lemma frame_length: "frame_ok jc t \<Longrightarrow> 8 \<le> length (spill_frame jc t)"
  by (auto simp: frame_ok_def spill_frame_def)

text \<open>
  The journal holds the tasks \<open>ts\<close>: their frames are the file from the read offset on, the
  reservation is the length of the file, and the part already read is less than half of it.
\<close>

definition spill_holds :: "('j, 'b) task_codec \<Rightarrow> task_spill \<Rightarrow> temporary_storage \<Rightarrow> directory_task list \<Rightarrow> bool" where
  "spill_holds jc sp st ts \<longleftrightarrow> task_codec_ok jc \<and> (\<forall>t \<in> set ts. frame_ok jc t) \<and> sp_pending sp = length ts \<and>
     length (sf_bytes (sp_file sp)) = unat (sp_next_write sp) \<and> sp_reservation sp = sp_next_write sp \<and>
     sp_next_write sp \<le> ts_used st \<and>
     drop (unat (sp_next_read sp)) (sf_bytes (sp_file sp)) = frames jc ts \<and>
     (sp_next_read sp = 0 \<or> unat (sp_next_read sp) < length (frames jc ts))"

lemma spill_holds_offsets:
  assumes "spill_holds jc sp st ts"
  shows "unat (sp_next_write sp) = unat (sp_next_read sp) + length (frames jc ts)"
    "sf_bytes (sp_file sp) = take (unat (sp_next_read sp)) (sf_bytes (sp_file sp)) @ frames jc ts"
    "unat (sp_next_read sp) \<le> length (sf_bytes (sp_file sp))"
proof -
  have d: "drop (unat (sp_next_read sp)) (sf_bytes (sp_file sp)) = frames jc ts"
    "length (sf_bytes (sp_file sp)) = unat (sp_next_write sp)" using assms by (simp_all add: spill_holds_def)
  then have "length (frames jc ts) = unat (sp_next_write sp) - unat (sp_next_read sp)" by (metis length_drop)
  moreover have "unat (sp_next_read sp) \<le> unat (sp_next_write sp)"
  proof (cases "sp_next_read sp = 0")
    case False
    then have "unat (sp_next_read sp) < length (frames jc ts)" using assms by (simp add: spill_holds_def)
    then show ?thesis using calculation by simp
  qed simp
  ultimately show "unat (sp_next_write sp) = unat (sp_next_read sp) + length (frames jc ts)"
    "unat (sp_next_read sp) \<le> length (sf_bytes (sp_file sp))" using d(2) by simp_all
  show "sf_bytes (sp_file sp) = take (unat (sp_next_read sp)) (sf_bytes (sp_file sp)) @ frames jc ts"
    by (simp flip: d(1))
qed

lemma spill_new_holds:
  assumes "spill_new tempfile st = (Inr (sp, st') :: ('io io_error, _) res)" "sf_bytes tempfile = []" "task_codec_ok jc"
  shows "spill_holds jc sp st' []" "ts_used st' = ts_used st"
  using assms by (auto simp: spill_new_def ts_reservation_def res_bind_Inr_iff ts_reserve_Inr spill_holds_def)

text \<open>What was written for a task is read back as that task.\<close>

lemma read_record_at_frame:
  fixes os :: "'io spill_os"
  assumes jc: "task_codec_ok jc" "frame_ok jc t" and len: "length (sf_bytes (sp_file sp)) = unat (sp_next_write sp)"
    and at: "drop (unat offset) (sf_bytes (sp_file sp)) = spill_frame jc t @ rest"
  shows "settles os (\<lambda>((task, record_end), sp'). task = t \<and> unat record_end = unat offset + length (spill_frame jc t) \<and>
      (\<exists>g. sp' = sp\<lparr>sp_file := g\<rparr> \<and> sf_bytes g = sf_bytes (sp_file sp)))
    (read_record_at jc os offset sp :: (('io, 'j, 'b) spill_error, _) res)"
proof -
  obtain payload where p: "task_payload jc t = Inr payload" "length payload \<le> MAX_SPILLED_TASK_BYTES"
    using jc(2) by (auto simp: frame_ok_def)
  let ?F = "sf_bytes (sp_file sp)" and ?n = "length payload"
  have small: "?n < 2 ^ 64" "unat (of_nat ?n :: u64) = ?n"
    using p(2) by (simp_all add: MAX_SPILLED_TASK_BYTES_def unat_of_nat)
  have fr: "spill_frame jc t = u64_le (of_nat ?n) @ payload" using p(1) by (simp add: spill_frame_def)
  have fit: "unat offset + 8 + ?n \<le> length ?F"
    using arg_cong [OF at, of length] fr by simp
  have ce: "checked_add offset SPILL_LENGTH_BYTES = Some (offset + 8)" "unat (offset + 8) = unat offset + 8"
    using fit len unat_lt_pow [of "sp_next_write sp"] by (simp_all add: checked_add_def SPILL_LENGTH_BYTES_def unat_word_ariths)
  have cr: "checked_add (offset + 8) (of_nat ?n) = Some (offset + 8 + of_nat ?n)" "unat (offset + 8 + of_nat ?n) = unat offset + 8 + ?n"
    using fit len ce(2) small(2) unat_lt_pow [of "sp_next_write sp"] by (simp_all add: checked_add_def unat_word_ariths)
  have le: "\<not> sp_next_write sp < offset + 8" "\<not> sp_next_write sp < offset + 8 + of_nat ?n"
    using fit len ce(2) cr(2) by (simp_all add: word_less_nat_alt)
  have b1: "take 8 (drop (unat offset) ?F) = u64_le (of_nat ?n)" using at fr by simp
  have "drop (unat offset + 8) ?F = drop 8 (drop (unat offset) ?F)" by (simp add: add.commute)
  then have b2: "take ?n (drop (unat offset + 8) ?F) = payload" using at fr by simp
  have dec: "jc_from_slice jc payload = Inr (encode_path jc (dt_path t), dt_identity t)"
    "decode_path jc (encode_path jc (dt_path t)) = Inr (dt_path t)"
    using jc(1) p(1) by (simp_all add: task_codec_ok_def task_payload_def decode_path_def encode_path_def)
  show ?thesis
    unfolding read_record_at_def
    apply (simp only: ce(1) ok_or_simps res_bind_simps le if_False)
    apply (rule settles_bind, rule settles_seek, rule settles_bind, rule settles_read)
    subgoal using fit by simp
    subgoal for f g
      using p(2) small(2) cr(1) le(2)
      apply (simp add: b1 Let_def)
      apply (rule settles_bind, rule settles_read)
      subgoal using fit by simp
      subgoal by (auto simp: b2 dec fr cr(2))
      done
    done
qed

lemma seek_write_Inr:
  "file_seek os offset f = Inr g \<Longrightarrow> sf_bytes g = sf_bytes f \<and> sf_pos g = unat offset"
  "file_write_all os bs f = Inr g \<Longrightarrow> sf_bytes g = overwrite (sf_pos f) bs (sf_bytes f) \<and> sf_pos g = sf_pos f + length bs"
  by (auto simp: file_seek_def file_write_all_def spill_call_def split: option.splits)

lemma spill_push_holds:
  fixes os :: "'io spill_os"
  assumes h: "spill_holds jc sp st ts" and p: "spill_push jc os t sp st = Inr (sp', st')"
  shows "frame_ok jc t" "spill_holds jc sp' st' (ts @ [t])"
    "unat (ts_used st') = unat (ts_used st) + length (spill_frame jc t)" "ts_limit st' = ts_limit st"
    "ts_used st \<le> ts_limit st \<Longrightarrow> ts_used st' \<le> ts_limit st'"
proof -
  obtain payload where pay: "task_payload jc t = Inr payload" "length payload \<le> MAX_SPILLED_TASK_BYTES"
    using p by (auto simp: spill_push_def task_payload_def res_bind_Inr_iff split: if_splits)
  show ok: "frame_ok jc t" using pay by (auto simp: frame_ok_def)
  let ?n = "of_nat (length payload) :: u64" and ?F = "sf_bytes (sp_file sp)" and ?w = "sp_next_write sp"
  have n: "unat ?n = length payload" using pay(2) by (simp add: MAX_SPILLED_TASK_BYTES_def unat_of_nat)
  have fr: "spill_frame jc t = u64_le ?n @ payload" using pay(1) by (simp add: spill_frame_def)
  obtain w1 w2 held f1 f2 f3 where eq: "checked_add ?w SPILL_LENGTH_BYTES = Some w1" "checked_add w1 ?n = Some w2"
    "rs_grow_to w2 (sp_reservation sp) st = (Inr (held, st') :: ('io io_error, _) res)"
    "file_seek os ?w (sp_file sp) = Inr f1" "file_write_all os (u64_le ?n) f1 = Inr f2" "file_write_all os payload f2 = Inr f3"
    "sp_pending sp + 1 < 2 ^ 64"
    "sp' = sp\<lparr>sp_file := f3, sp_next_write := w2, sp_pending := sp_pending sp + 1, sp_reservation := held\<rparr>"
    using p pay by (auto simp: spill_push_def task_payload_def res_bind_Inr_iff Let_def bind_eq_Some_conv usize_checked_add_def split: if_splits)
  have w2: "unat w2 = unat ?w + length (spill_frame jc t)"
    using checked_add_unat [OF eq(1)] checked_add_unat [OF eq(2)] n fr by (simp add: SPILL_LENGTH_BYTES_def)
  have hs: "sp_reservation sp = ?w" "length ?F = unat ?w" "?w \<le> ts_used st" using h by (simp_all add: spill_holds_def)
  have le: "sp_reservation sp \<le> w2" using w2 hs(1) by (simp add: word_le_nat_alt)
  note g = rs_grow_to_Inr [OF eq(3) le]
  have used: "unat (ts_used st') = unat (ts_used st) + length (spill_frame jc t)" using g(2) w2 hs(1) by simp
  have "sf_bytes f2 = ?F @ u64_le ?n" "sf_pos f2 = length (?F @ u64_le ?n)"
    using seek_write_Inr(1) [OF eq(4)] seek_write_Inr(2) [OF eq(5)] hs(2) overwrite_end [of ?F] by simp_all
  then have F3: "sf_bytes f3 = ?F @ spill_frame jc t"
    using seek_write_Inr(2) [OF eq(6)] overwrite_end [of "?F @ u64_le ?n" payload] fr by simp
  have "unat (sp_next_read sp) \<le> length ?F" using spill_holds_offsets [OF h] by simp
  then show "spill_holds jc sp' st' (ts @ [t])"
    using h eq(8) F3 ok used g(1) w2 hs by (auto simp: spill_holds_def word_le_nat_alt)
  show "unat (ts_used st') = unat (ts_used st) + length (spill_frame jc t)" "ts_limit st' = ts_limit st"
    "ts_used st \<le> ts_limit st \<Longrightarrow> ts_used st' \<le> ts_limit st'" using used g by simp_all
qed

text \<open>A push succeeds when the record fits the limits, the storage has room and the file does not fail.\<close>

lemma spill_push_succeeds:
  fixes os :: "'io spill_os"
  assumes h: "spill_holds jc sp st ts" and ok: "frame_ok jc t" and os: "\<And>n. os n = None"
    and room: "\<not> ts_stopped st" "unat (ts_used st) + length (spill_frame jc t) \<le> unat (ts_limit st)" "length ts + 1 < 2 ^ 64"
  shows "\<exists>sp' st'. spill_push jc os t sp st = Inr (sp', st')"
proof -
  obtain payload where pay: "task_payload jc t = Inr payload" "length payload \<le> MAX_SPILLED_TASK_BYTES"
    using ok by (auto simp: frame_ok_def)
  let ?n = "of_nat (length payload) :: u64" and ?w = "sp_next_write sp"
  have n: "unat ?n = length payload" using pay(2) by (simp add: MAX_SPILLED_TASK_BYTES_def unat_of_nat)
  have fr: "length (spill_frame jc t) = 8 + length payload" using pay(1) by (simp add: spill_frame_def)
  have hs: "sp_reservation sp = ?w" "?w \<le> ts_used st" "sp_pending sp = length ts" using h by (simp_all add: spill_holds_def)
  have fit: "unat ?w + 8 + length payload \<le> unat (ts_limit st)" using hs(2) room(2) fr by (simp add: word_le_nat_alt)
  have a1: "checked_add ?w SPILL_LENGTH_BYTES = Some (?w + 8)" "unat (?w + 8) = unat ?w + 8"
    using fit unat_lt_pow [of "ts_limit st"] by (simp_all add: checked_add_def SPILL_LENGTH_BYTES_def unat_word_ariths)
  have a2: "checked_add (?w + 8) ?n = Some (?w + 8 + ?n)" "unat (?w + 8 + ?n) = unat ?w + 8 + length payload"
    using fit a1(2) n unat_lt_pow [of "ts_limit st"] by (simp_all add: checked_add_def unat_word_ariths)
  have "unat (?w + 8 + ?n - ?w) = 8 + length payload"
    using unat_sub [of ?w "?w + 8 + ?n"] a2(2) by (simp only: word_le_nat_alt)
  then have "\<exists>held st'. rs_grow_to (?w + 8 + ?n) (sp_reservation sp) st = (Inr (held, st') :: ('io io_error, _) res)"
    using room(1,2) hs(1) fr by (auto simp: rs_grow_to_def res_bind_Inr_iff ts_reserve_Inr)
  then show ?thesis
    using pay a1(1) a2(1) hs(3) room(3) os
    by (auto simp: spill_push_def task_payload_def Let_def usize_checked_add_def file_seek_def file_write_all_def spill_call_def)
qed

lemma compact_after_read_holds:
  fixes os :: "'io spill_os"
  assumes "task_codec_ok jc" "\<forall>t \<in> set ts. frame_ok jc t" "sp_pending sp = length ts" "ts \<noteq> []"
    "length (sf_bytes (sp_file sp)) = unat (sp_next_write sp)" "sp_reservation sp = sp_next_write sp"
    "sp_next_write sp \<le> ts_used st" "unat (sp_next_read sp) \<le> unat (sp_next_write sp)"
    "drop (unat (sp_next_read sp)) (sf_bytes (sp_file sp)) = frames jc ts"
  shows "settles os (\<lambda>(sp', st'). spill_holds jc sp' st' ts \<and> ts_limit st' = ts_limit st \<and> ts_used st' \<le> ts_used st \<and>
      unat (ts_used st') + unat (sp_next_write sp) = unat (ts_used st) + unat (sp_next_write sp'))
    (compact_after_read os sp st :: (('io, 'j, 'b) spill_error, _) res)"
proof -
  let ?F = "sf_bytes (sp_file sp)" and ?a = "unat (sp_next_read sp)" and ?w = "unat (sp_next_write sp)"
  have n: "length (frames jc ts) = ?w - ?a" using arg_cong [OF assms(9), of length] assms(5) by simp
  obtain t us where ts: "ts = t # us" using assms(4) by (cases ts) auto
  then have pos: "0 < length (frames jc ts)" using frame_length [of jc t] assms(2) by auto
  have sub: "checked_sub (sp_next_write sp) (sp_next_read sp) = Some (sp_next_write sp - sp_next_read sp)"
    "unat (sp_next_write sp - sp_next_read sp) = ?w - ?a"
    using assms(8) by (simp_all add: checked_sub_def word_le_nat_alt unat_sub)
  let ?r = "sp_next_write sp - sp_next_read sp"
  have nz: "?r \<noteq> 0" using sub(2) n pos by auto
  let ?keep = "sp_next_read sp < min (sp_reservation sp) TASK_SPILL_COMPACTION_BYTES \<and> sp_next_read sp < ?r"
  show ?thesis
  proof (cases ?keep)
    case True
    have "spill_holds jc sp st ts"
      using True assms sub(2) n by (simp add: spill_holds_def word_less_nat_alt)
    then show ?thesis using True sub(1) nz by (simp add: compact_after_read_def Let_def)
  next
    case False
    have le: "?r \<le> sp_next_write sp" using sub(2) by (simp add: word_le_nat_alt)
    obtain st' where st': "rs_shrink_to ?r (sp_reservation sp) st = (Inr (?r, st') :: ('io io_error, _) res)"
      "unat (ts_used st') = unat (ts_used st) - (?w - unat ?r)" "ts_limit st' = ts_limit st"
      using rs_shrink_to_Inr [of ?r "sp_reservation sp" st] assms(6,7) le by auto
    have eq: "compact_after_read os sp st =
       (res_bind (compact_loop os (sp_next_read sp) 0 ?r (sp_file sp)) (\<lambda>f.
        res_bind (map_err SpillIo (file_set_len os ?r f)) (\<lambda>f.
        Inr (sp\<lparr>sp_file := f, sp_reservation := ?r, sp_next_read := 0, sp_next_write := ?r\<rparr>, st')))
       :: (('io, 'j, 'b) spill_error, _) res)"
      using False sub(1) nz st'(1) by (auto simp: compact_after_read_def Let_def)
    have "unat (0 :: u64) \<le> ?a" "?a + unat ?r \<le> length ?F" "length ?F < 2 ^ 64"
      using sub(2) assms(5,8) unat_lt_pow [of "sp_next_write sp"] by simp_all
    note mv = compact_loop_moved [OF this, where os = os]
    show ?thesis unfolding eq
    proof (rule settles_bind, rule settles_mono [OF mv], rule settles_bind, rule settles_set_len)
      fix f g :: spill_file
      assume m: "moved ?a (unat (0 :: u64)) (unat ?r) (unat (0 :: u64)) (unat (0 :: u64) + unat ?r) ?F (sf_bytes f)"
        and g: "sf_bytes g = resize ?r (sf_bytes f)"
      have "sf_bytes g = frames jc ts"
      proof (rule nth_equalityI)
        show l: "length (sf_bytes g) = length (frames jc ts)" using g n sub(2) by simp
        fix i
        assume "i < length (sf_bytes g)"
        then have i: "i < ?w - ?a" using l n by simp
        have "frames jc ts ! i = ?F ! (?a + i)" using assms(9) i assms(5,8) by (metis nth_drop less_imp_le add.commute le_diff_conv)
        moreover have "sf_bytes g ! i = sf_bytes f ! i"
          using g i sub(2) m assms(5) by (simp add: resize_def nth_append moved_def)
        ultimately show "sf_bytes g ! i = frames jc ts ! i" using m i sub(2) by (simp add: moved_def)
      qed
      moreover have "?r \<le> ts_used st'" using st'(2) assms(7) sub(2) by (simp add: word_le_nat_alt)
      ultimately show "settles os (\<lambda>(sp', st'). spill_holds jc sp' st' ts \<and> ts_limit st' = ts_limit st \<and> ts_used st' \<le> ts_used st \<and>
           unat (ts_used st') + ?w = unat (ts_used st) + unat (sp_next_write sp'))
         (Inr (sp\<lparr>sp_file := g, sp_reservation := ?r, sp_next_read := 0, sp_next_write := ?r\<rparr>, st') :: (('io, 'j, 'b) spill_error, _) res)"
        using assms(1-3,7,8) st'(2,3) sub(2) n by (simp add: spill_holds_def word_le_nat_alt)
    qed
  qed
qed

lemma spill_take_holds:
  fixes os :: "'io spill_os"
  assumes h: "spill_holds jc sp st (t # ts)"
  shows "settles os (\<lambda>(r, sp', st'). r = Some t \<and> spill_holds jc sp' st' ts \<and> ts_limit st' = ts_limit st \<and> ts_used st' \<le> ts_used st \<and>
      unat (ts_used st') + unat (sp_next_write sp) = unat (ts_used st) + unat (sp_next_write sp'))
    (spill_take jc os sp st :: (('io, 'j, 'b) spill_error, _) res)"
proof -
  let ?F = "sf_bytes (sp_file sp)" and ?a = "sp_next_read sp"
  have hs: "task_codec_ok jc" "frame_ok jc t" "length ?F = unat (sp_next_write sp)" "drop (unat ?a) ?F = spill_frame jc t @ frames jc ts"
    "sp_pending sp = Suc (length ts)" "sp_reservation sp = sp_next_write sp" "sp_next_write sp \<le> ts_used st" "\<forall>u \<in> set ts. frame_ok jc u"
    using h by (simp_all add: spill_holds_def)
  note off = spill_holds_offsets [OF h]
  note rd = read_record_at_frame [OF hs(1,2,3,4), where os = os]
  have eq: "spill_take jc os sp st = (res_bind (read_record_at jc os ?a sp) (\<lambda>((task, next_read), sp).
        let sp = sp\<lparr>sp_next_read := next_read, sp_pending := sp_pending sp - 1\<rparr> in
        if sp_pending sp = 0 then
          let sp = sp\<lparr>sp_next_read := 0, sp_next_write := 0\<rparr> in
          res_bind (map_err SpillIo (file_set_len os 0 (sp_file sp))) (\<lambda>f.
          res_bind (map_err SpillIo (rs_shrink_to 0 (sp_reservation sp) st)) (\<lambda>(reservation, st).
            Inr (Some task, sp\<lparr>sp_file := f, sp_reservation := reservation\<rparr>, st)))
        else res_bind (compact_after_read os sp st) (\<lambda>(sp, st). Inr (Some task, sp, st)))
     :: (('io, 'j, 'b) spill_error, _) res)"
    using hs(5) by (simp add: spill_take_def)
  show ?thesis unfolding eq
  proof (rule settles_bind, rule settles_mono [OF rd], clarify)
    fix e :: u64 and g :: spill_file
    assume e: "unat e = unat ?a + length (spill_frame jc t)" and g: "sf_bytes g = ?F"
    let ?Q = "\<lambda>(r, sp', st'). r = Some t \<and> spill_holds jc sp' st' ts \<and> ts_limit st' = ts_limit st \<and> ts_used st' \<le> ts_used st \<and>
      unat (ts_used st') + unat (sp_next_write sp) = unat (ts_used st) + unat (sp_next_write sp')"
    let ?sp = "sp\<lparr>sp_file := g, sp_next_read := e, sp_pending := length ts\<rparr>"
    show "settles os ?Q
        (let sp = sp\<lparr>sp_file := g, sp_next_read := e, sp_pending := sp_pending (sp\<lparr>sp_file := g\<rparr>) - 1\<rparr> in
        if sp_pending sp = 0 then
          let sp = sp\<lparr>sp_next_read := 0, sp_next_write := 0\<rparr> in
          res_bind (map_err SpillIo (file_set_len os 0 (sp_file sp))) (\<lambda>f.
          res_bind (map_err SpillIo (rs_shrink_to 0 (sp_reservation sp) st)) (\<lambda>(reservation, st).
            Inr (Some t, sp\<lparr>sp_file := f, sp_reservation := reservation\<rparr>, st)))
        else res_bind (compact_after_read os sp st) (\<lambda>(sp, st). Inr (Some t, sp, st))
     :: (('io, 'j, 'b) spill_error, _) res)"
    proof (cases "ts = []")
      case True
      obtain st' where st': "rs_shrink_to 0 (sp_reservation sp) st = (Inr (0, st') :: ('io io_error, _) res)"
        "unat (ts_used st') = unat (ts_used st) - unat (sp_next_write sp)" "ts_limit st' = ts_limit st"
        using rs_shrink_to_Inr [of 0 "sp_reservation sp" st] hs(6,7) by auto
      have fin: "settles os ?Q (Inr (Some t, sp\<lparr>sp_pending := 0, sp_next_read := 0, sp_next_write := 0, sp_file := f, sp_reservation := 0\<rparr>, st')
          :: (('io, 'j, 'b) spill_error, _) res)" if "sf_bytes f = []" for f
        using that st'(2,3) hs(1,7) True by (simp add: spill_holds_def word_le_nat_alt)
      show ?thesis using True hs(5) st'(1)
        by (simp add: Let_def) (rule settles_bind, rule settles_set_len, use fin in \<open>simp add: resize_def\<close>)
    next
      case False
      have "drop (unat e) (sf_bytes g) = drop (length (spill_frame jc t)) (drop (unat ?a) ?F)" using e g by (simp add: add.commute)
      then have "drop (unat e) (sf_bytes g) = frames jc ts" using hs(4) by simp
      moreover have "unat e \<le> unat (sp_next_write sp)" using e off(1) by simp
      ultimately have "settles os (\<lambda>(sp', st'). spill_holds jc sp' st' ts \<and> ts_limit st' = ts_limit st \<and> ts_used st' \<le> ts_used st \<and>
           unat (ts_used st') + unat (sp_next_write sp) = unat (ts_used st) + unat (sp_next_write sp'))
         (compact_after_read os ?sp st :: (('io, 'j, 'b) spill_error, _) res)"
        using compact_after_read_holds [of jc ts ?sp st os] False hs g by simp
      then show ?thesis using False hs(5)
        by (simp add: Let_def) (rule settles_bind, erule settles_mono, auto)
    qed
  qed
qed

lemma move_to_front_holds:
  fixes os :: "'io spill_os"
  assumes h: "spill_holds jc sp st (pre @ t # post)" and off: "unat offset = unat (sp_next_read sp) + length (frames jc pre)"
    and last: "unat record_end = unat offset + length (spill_frame jc t)"
  shows "settles os (\<lambda>sp'. spill_holds jc sp' st (t # pre @ post) \<and> sp_next_write sp' = sp_next_write sp)
    (move_to_front os offset record_end sp :: (('io, 'j, 'b) spill_error, _) res)"
proof (cases "offset = sp_next_read sp")
  case True
  then have "frames jc pre = []" using off by simp
  then have "pre = []" using h frame_length [of jc "hd pre"] by (cases pre) (auto simp: spill_holds_def)
  then show ?thesis using True h by (simp add: move_to_front_def)
next
  case False
  let ?F = "sf_bytes (sp_file sp)" and ?a = "unat (sp_next_read sp)" and ?R = "spill_frame jc t" and ?B = "frames jc pre"
  note fo = spill_holds_offsets [OF h]
  define A where "A = take ?a ?F"
  have F: "?F = A @ ?B @ ?R @ frames jc post" "length A = ?a" using fo(2,3) by (simp_all add: A_def)
  have w: "length ?F = unat (sp_next_write sp)" using h by (simp add: spill_holds_def)
  have c1: "checked_sub record_end offset = Some (record_end - offset)" "unat (record_end - offset) = length ?R"
    using last by (simp_all add: checked_sub_def word_le_nat_alt unat_sub)
  have c2: "checked_sub offset (sp_next_read sp) = Some (offset - sp_next_read sp)" "unat (offset - sp_next_read sp) = length ?B"
    using off by (simp_all add: checked_sub_def word_le_nat_alt unat_sub)
  have nz: "offset \<noteq> sp_next_read sp" using False .
  have fit: "?a + length ?B + length ?R \<le> length ?F" "length ?F < 2 ^ 64"
    using F w unat_lt_pow [of "sp_next_write sp"] by simp_all
  show ?thesis
    unfolding move_to_front_def if_not_P [OF False] c1(1) ok_or_simps res_bind_simps
  proof (rule settles_bind, rule settles_seek, rule settles_bind, rule settles_read)
    fix f :: spill_file
    assume f: "sf_bytes f = ?F" "sf_pos f = unat offset"
    then show "sf_pos f + unat (record_end - offset) \<le> length (sf_bytes f)" using c1(2) off fit by simp
    fix g :: spill_file
    assume g: "sf_bytes g = sf_bytes f"
    have R: "take (unat (record_end - offset)) (drop (sf_pos f) (sf_bytes f)) = ?R" using f F off c1(2) by simp
    have "settles os (\<lambda>h. moved ?a (?a + unat (record_end - offset)) (unat (offset - sp_next_read sp)) ?a
          (?a + unat (offset - sp_next_read sp) + unat (record_end - offset)) ?F (sf_bytes h))
        (shift_loop os (sp_next_read sp) (record_end - offset) (offset - sp_next_read sp) g :: (('io, 'j, 'b) spill_error, _) res)"
      using shift_loop_moved [of "sp_next_read sp" "offset - sp_next_read sp" "record_end - offset" g os] fit f g c1(2) c2(2) by simp
    then have sh: "settles os (\<lambda>h. overwrite ?a ?R (sf_bytes h) = A @ ?R @ ?B @ frames jc post)
        (shift_range_right os (sp_next_read sp) offset (record_end - offset) g :: (('io, 'j, 'b) spill_error, _) res)"
      unfolding shift_range_right_def c2(1) ok_or_simps res_bind_simps
      using nz moved_front [of A ?R ?B "frames jc post"] F c1(2) c2(2) by (auto elim: settles_mono)
    let ?k = "\<lambda>(bs, f). res_bind (shift_range_right os (sp_next_read sp) offset (record_end - offset) f)
              (\<lambda>f. res_bind (map_err SpillIo (file_seek os (sp_next_read sp) f))
                    (\<lambda>f. res_bind (map_err SpillIo (file_write_all os bs f)) (\<lambda>f. Inr (sp\<lparr>sp_file := f\<rparr>))))
            :: (('io, 'j, 'b) spill_error, _) res"
    let ?Q = "\<lambda>sp'. spill_holds jc sp' st (t # pre @ post) \<and> sp_next_write sp' = sp_next_write sp"
    have "settles os ?Q (?k (?R, g))"
      unfolding prod.case
    proof (rule settles_bind, rule settles_mono [OF sh], rule settles_bind, rule settles_seek, rule settles_bind, rule settles_write)
      fix h1 h2 h3 :: spill_file
      assume 1: "overwrite ?a ?R (sf_bytes h1) = A @ ?R @ ?B @ frames jc post" "sf_bytes h2 = sf_bytes h1" "sf_pos h2 = ?a"
        "sf_bytes h3 = overwrite (sf_pos h2) ?R (sf_bytes h2)"
      then have "sf_bytes h3 = A @ ?R @ ?B @ frames jc post" by simp
      then show "settles os ?Q (Inr (sp\<lparr>sp_file := h3\<rparr>) :: (('io, 'j, 'b) spill_error, _) res)"
        using h F(2) w arg_cong [OF F(1), of length] by (auto simp: spill_holds_def)
    qed
    then show "settles os ?Q (?k (take (unat (record_end - offset)) (drop (sf_pos f) (sf_bytes f)), g))" unfolding R .
  qed
qed

text \<open>The first task with an equal path and the list without it.\<close>

definition take_first :: "bytes \<Rightarrow> directory_task list \<Rightarrow> directory_task option \<times> directory_task list" where
  "take_first path ts =
     (List.find (\<lambda>t. path_eq (dt_path t) path) ts, remove_first (\<lambda>t. path_eq (dt_path t) path) ts)"

lemma take_first_skip:
  "\<forall>t \<in> set pre. \<not> path_eq (dt_path t) path \<Longrightarrow>
    take_first path (pre @ ts) = (fst (take_first path ts), pre @ snd (take_first path ts))"
  by (induction pre) (simp_all add: take_first_def)

definition spill_post :: "('j, 'b) task_codec \<Rightarrow> task_spill \<Rightarrow> temporary_storage \<Rightarrow> directory_task option \<times> directory_task list \<Rightarrow>
    directory_task option \<times> task_spill \<times> temporary_storage \<Rightarrow> bool" where
  "spill_post jc sp st x y = (case y of (r, sp', st') \<Rightarrow> r = fst x \<and> spill_holds jc sp' st' (snd x) \<and>
     ts_limit st' = ts_limit st \<and> ts_used st' \<le> ts_used st \<and>
     unat (ts_used st') + unat (sp_next_write sp) = unat (ts_used st) + unat (sp_next_write sp'))"

lemma take_path_loop_holds:
  fixes os :: "'io spill_os"
  shows "spill_holds jc sp st (pre @ ts) \<Longrightarrow> unat offset = unat (sp_next_read sp) + length (frames jc pre) \<Longrightarrow>
    \<forall>t \<in> set pre. \<not> path_eq (dt_path t) path \<Longrightarrow>
    settles os (spill_post jc sp st (take_first path (pre @ ts))) (take_path_loop jc os path offset sp st :: (('io, 'j, 'b) spill_error, _) res)"
proof (induction ts arbitrary: pre sp offset)
  case Nil
  then have "\<not> offset < sp_next_write sp" using spill_holds_offsets(1) [OF Nil.prems(1)] by (simp add: word_less_nat_alt)
  moreover have "take_first path pre = (None, pre)" using take_first_skip [OF Nil.prems(3), of "[]"] by (simp add: take_first_def)
  ultimately show ?case using Nil.prems(1) by (simp add: take_path_loop.simps [of jc os path offset] spill_post_def)
next
  case (Cons t ts)
  note h = Cons.prems(1)
  note fo = spill_holds_offsets [OF h]
  have hs: "task_codec_ok jc" "frame_ok jc t" "length (sf_bytes (sp_file sp)) = unat (sp_next_write sp)"
    using h by (simp_all add: spill_holds_def)
  have at: "drop (unat offset) (sf_bytes (sp_file sp)) = spill_frame jc t @ frames jc ts"
  proof -
    have "drop (unat offset) (sf_bytes (sp_file sp)) = drop (length (frames jc pre)) (drop (unat (sp_next_read sp)) (sf_bytes (sp_file sp)))"
      using Cons.prems(2) by (simp add: add.commute)
    also have "\<dots> = spill_frame jc t @ frames jc ts" using h by (simp add: spill_holds_def)
    finally show ?thesis .
  qed
  have lt: "offset < sp_next_write sp" using fo(1) Cons.prems(2) frame_length [OF hs(2)] by (auto simp: word_less_nat_alt)
  have eq: "take_path_loop jc os path offset sp st =
      (res_bind (read_record_at jc os offset sp) (\<lambda>((task, record_end), sp).
        if path_eq (dt_path task) path
        then res_bind (move_to_front os offset record_end sp) (\<lambda>sp. spill_take jc os sp st)
        else take_path_loop jc os path record_end sp st) :: (('io, 'j, 'b) spill_error, _) res)"
    using lt by (subst take_path_loop.simps) (simp add: res_bind_def split: sum.split)
  show ?case unfolding eq
  proof (rule settles_bind, rule settles_mono [OF read_record_at_frame [OF hs at]], clarify)
    fix e :: u64 and g :: spill_file
    assume e: "unat e = unat offset + length (spill_frame jc t)" and g: "sf_bytes g = sf_bytes (sp_file sp)"
    let ?sp = "sp\<lparr>sp_file := g\<rparr>"
    have hg: "spill_holds jc ?sp st (pre @ t # ts)" using h g by (simp add: spill_holds_def)
    show "settles os (spill_post jc sp st (take_first path (pre @ t # ts)))
       (if path_eq (dt_path t) path then res_bind (move_to_front os offset e ?sp) (\<lambda>sp. spill_take jc os sp st)
        else take_path_loop jc os path e ?sp st :: (('io, 'j, 'b) spill_error, _) res)"
    proof (cases "path_eq (dt_path t) path")
      case True
      then have tf: "take_first path (pre @ t # ts) = (Some t, pre @ ts)"
        using take_first_skip [OF Cons.prems(3)] by (simp add: take_first_def)
      have "settles os (\<lambda>sp'. spill_holds jc sp' st (t # pre @ ts) \<and> sp_next_write sp' = sp_next_write ?sp)
          (move_to_front os offset e ?sp :: (('io, 'j, 'b) spill_error, _) res)"
        by (rule move_to_front_holds [OF hg _ e]) (use Cons.prems(2) in simp)
      then have "settles os (spill_post jc sp st (Some t, pre @ ts))
          (res_bind (move_to_front os offset e ?sp) (\<lambda>sp. spill_take jc os sp st) :: (('io, 'j, 'b) spill_error, _) res)"
      proof (intro settles_bind, elim settles_mono)
        fix sp'
        assume "spill_holds jc sp' st (t # pre @ ts) \<and> sp_next_write sp' = sp_next_write ?sp"
        then show "settles os (spill_post jc sp st (Some t, pre @ ts)) (spill_take jc os sp' st :: (('io, 'j, 'b) spill_error, _) res)"
          using spill_take_holds [of jc sp' st t "pre @ ts" os] by (auto simp: spill_post_def elim: settles_mono)
      qed
      then show ?thesis using True tf by simp
    next
      case False
      have "settles os (spill_post jc ?sp st (take_first path ((pre @ [t]) @ ts))) (take_path_loop jc os path e ?sp st :: (('io, 'j, 'b) spill_error, _) res)"
        by (rule Cons.IH) (use hg e Cons.prems False in auto)
      then show ?thesis using False by (simp add: spill_post_def [abs_def])
    qed
  qed
qed

lemma spill_take_path_holds:
  "spill_holds jc sp st ts \<Longrightarrow> settles os (spill_post jc sp st (take_first path ts)) (spill_take_path jc os path sp st)"
  using take_path_loop_holds [of jc sp st "[]" ts "sp_next_read sp"] by (simp add: spill_take_path_def)

text \<open>The file is charged at most twice the records it holds.\<close>

lemma spill_space: "spill_holds jc sp st ts \<Longrightarrow> unat (sp_reservation sp) \<le> 2 * length (frames jc ts)"
  using spill_holds_offsets(1) [of jc sp st ts] by (auto simp: spill_holds_def)

end
