(* ===== verification/Task_Queue.thy ===== *)
theory Task_Queue
  imports Task_Spill_Spec
begin

text \<open>
  The bounded queue of directories to scan (\<open>TaskQueue\<close> of
  \<open>src/src/runtime/scanner/task_queue.rs\<close>): a resident queue up to a capacity, the journal file
  of \<open>Task_Spill\<close> beyond it, and the count of tasks that are queued or leased.  The queue is owned
  by one thread, the scheduler, so its mutex is not contended and is left out; the three stop flags are
  one argument, whether any of them was seen set.

  \<open>task_journal\<close> is what the queue needs of its overflow: where a push goes and what a
  selection removes.  The contract of the queue is proved from it once and interpreted on the journal
  file.
\<close>

section \<open>Paths below the root\<close>

text \<open>
  \<open>Path::strip_prefix\<close>, given by the components of the result: \<open>as_path\<close> of the components
  iterator after the prefix.
\<close>

definition strip_prefix :: "bytes \<Rightarrow> bytes \<Rightarrow> component list option" where
  "strip_prefix path base =
     (if path_starts_with path base then Some (drop (length (components base)) (components path)) else None)"

datatype task_path_error = TaskOutsideRoot | TaskUnsafePath

definition task_relative_path :: "bytes \<Rightarrow> bytes \<Rightarrow> (task_path_error, component list) res" where
  "task_relative_path root path =
     res_bind (ok_or (strip_prefix path root) TaskOutsideRoot) (\<lambda>relative.
       if \<exists>c \<in> set relative. c = ParentDir \<or> c = RootDir then Inl TaskUnsafePath else Inr relative)"

section \<open>The queue\<close>

definition TASK_QUEUE_PER_WORKER :: nat where "TASK_QUEUE_PER_WORKER = 8"

record 's task_queue =
  tq_tasks :: "directory_task list"
  tq_spill :: 's
  tq_pending :: nat
  tq_capacity :: nat
  tq_root :: bytes

datatype ('io, 'j, 'b) queue_error =
    QueuePath task_path_error | QueueSpill "('io, 'j, 'b) spill_error" | QueueCountOverflow

definition validate_task_path :: "bytes \<Rightarrow> bytes \<Rightarrow> (('io, 'j, 'b) queue_error, unit) res" where
  "validate_task_path root path = res_bind (map_err QueuePath (task_relative_path root path)) (\<lambda>_. Inr ())"

definition tq_new :: "bytes \<Rightarrow> nat \<Rightarrow> 's \<Rightarrow> 's task_queue" where
  "tq_new root capacity spill =
     \<lparr>tq_tasks = [\<lparr>dt_path = root, dt_identity = None\<rparr>], tq_spill = spill, tq_pending = 1,
      tq_capacity = capacity, tq_root = root\<rparr>"

text \<open>
  The calls on the journal are arguments, \<open>jpush\<close> and \<open>jtake\<close>, so that the queue can be read
  apart from the file: \<open>tq_schedule\<close> and \<open>tq_take_path\<close> are used with the calls of
  \<open>Task_Spill\<close>.
\<close>

definition tq_take_path :: "(bytes \<Rightarrow> 's \<Rightarrow> (('io, 'j, 'b) spill_error, directory_task option \<times> 's) res) \<Rightarrow>
    bool \<Rightarrow> bytes \<Rightarrow> 's task_queue \<Rightarrow> (('io, 'j, 'b) queue_error, directory_task option \<times> 's task_queue) res" where
  "tq_take_path jtake stopping path q =
     (if stopping \<or> tq_pending q = 0 then Inr (None, q)
      else
        res_bind
          (case List.find (\<lambda>task. path_eq (dt_path task) path) (tq_tasks q) of
             Some task \<Rightarrow> Inr (Some task, q\<lparr>tq_tasks := remove_first (\<lambda>task. path_eq (dt_path task) path) (tq_tasks q)\<rparr>)
           | None \<Rightarrow> res_bind (map_err QueueSpill (jtake path (tq_spill q))) (\<lambda>(task, s). Inr (task, q\<lparr>tq_spill := s\<rparr>)))
          (\<lambda>(task, q).
             case task of
               Some task \<Rightarrow> res_bind (validate_task_path (tq_root q) (dt_path task)) (\<lambda>_. Inr (Some task, q))
             | None \<Rightarrow> Inr (None, q)))"

definition tq_schedule :: "(directory_task \<Rightarrow> 's \<Rightarrow> (('io, 'j, 'b) spill_error, 's) res) \<Rightarrow>
    directory_task \<Rightarrow> 's task_queue \<Rightarrow> (('io, 'j, 'b) queue_error, 's task_queue) res" where
  "tq_schedule jpush task q =
     res_bind (validate_task_path (tq_root q) (dt_path task)) (\<lambda>_.
     res_bind (ok_or (usize_checked_add (tq_pending q) 1) QueueCountOverflow) (\<lambda>pending.
     res_bind
       (if length (tq_tasks q) < tq_capacity q then Inr (q\<lparr>tq_tasks := tq_tasks q @ [task]\<rparr>)
        else res_bind (map_err QueueSpill (jpush task (tq_spill q))) (\<lambda>s. Inr (q\<lparr>tq_spill := s\<rparr>)))
       (\<lambda>q. Inr (q\<lparr>tq_pending := pending\<rparr>))))"

definition tq_complete :: "'s task_queue \<Rightarrow> 's task_queue" where
  "tq_complete q = q\<lparr>tq_pending := tq_pending q - 1\<rparr>"

definition tq_is_idle :: "'s task_queue \<Rightarrow> bool" where
  "tq_is_idle q \<longleftrightarrow> tq_pending q = 0"

section \<open>The contract of the queue\<close>

text \<open>What the scheduler relies on: a list of tasks below the root, counted with the leased ones.\<close>

locale directory_queue =
  fixes qtake :: "bool \<Rightarrow> bytes \<Rightarrow> 'q \<Rightarrow> ('e, directory_task option \<times> 'q) res"
    and qschedule :: "directory_task \<Rightarrow> 'q \<Rightarrow> ('e, 'q) res"
    and qcomplete :: "'q \<Rightarrow> 'q"
    and qidle :: "'q \<Rightarrow> bool"
    and queued :: "'q \<Rightarrow> nat \<Rightarrow> directory_task list \<Rightarrow> bool"
    and faulty :: "'e \<Rightarrow> bool"
  assumes qtake_queued: "queued q n ts \<Longrightarrow> qtake False path q = Inr (r, q') \<Longrightarrow>
      r = fst (take_first path ts) \<and> queued q' (n + (if r = None then 0 else 1)) (snd (take_first path ts))"
    and qtake_error: "queued q n ts \<Longrightarrow> qtake stopping path q = Inl e \<Longrightarrow> faulty e"
    and qtake_stopping: "qtake True path q = Inr (None, q)"
    and qschedule_queued: "queued q n ts \<Longrightarrow> qschedule t q = Inr q' \<Longrightarrow> \<exists>a b. ts = a @ b \<and> queued q' n (a @ t # b)"
    and qcomplete_queued: "queued q (Suc n) ts \<Longrightarrow> queued (qcomplete q) n ts"
    and qidle_iff: "queued q n ts \<Longrightarrow> qidle q \<longleftrightarrow> n = 0 \<and> ts = []"
begin

text \<open>A path that is queued is found, wherever the queue keeps it.\<close>

lemma qtake_found:
  assumes "queued q n ts" "t \<in> set ts" "path_eq (dt_path t) path"
  shows "case qtake False path q of Inl e \<Rightarrow> faulty e
    | Inr (r, q') \<Rightarrow> \<exists>u. r = Some u \<and> List.find (\<lambda>t. path_eq (dt_path t) path) ts = Some u \<and>
        queued q' (Suc n) (remove_first (\<lambda>t. path_eq (dt_path t) path) ts)"
proof (cases "qtake False path q")
  case (Inl e)
  then show ?thesis using qtake_error [OF assms(1)] by simp
next
  case (Inr x)
  obtain r q' where x: "x = (r, q')" by (cases x)
  obtain u where u: "List.find (\<lambda>t. path_eq (dt_path t) path) ts = Some u"
    using assms(2,3) by (metis find_None_iff' option.exhaust)
  have "r = Some u" "queued q' (n + (if r = None then 0 else 1)) (remove_first (\<lambda>t. path_eq (dt_path t) path) ts)"
    using qtake_queued [OF assms(1), of path r q'] Inr x u by (auto simp: take_first_def)
  then show ?thesis using Inr x u by simp
qed

end

text \<open>What the queue relies on of its overflow.\<close>

locale task_journal =
  fixes jpush :: "directory_task \<Rightarrow> 's \<Rightarrow> (('io, 'j, 'b) spill_error, 's) res"
    and jtake :: "bytes \<Rightarrow> 's \<Rightarrow> (('io, 'j, 'b) spill_error, directory_task option \<times> 's) res"
    and holds :: "'s \<Rightarrow> directory_task list \<Rightarrow> bool"
    and fault :: "('io, 'j, 'b) spill_error \<Rightarrow> bool"
  assumes push_holds: "holds s ts \<Longrightarrow> jpush t s = Inr s' \<Longrightarrow> holds s' (ts @ [t])"
    and take_holds: "holds s ts \<Longrightarrow> jtake path s = Inr (r, s') \<Longrightarrow> r = fst (take_first path ts) \<and> holds s' (snd (take_first path ts))"
    and take_error: "holds s ts \<Longrightarrow> jtake path s = Inl e \<Longrightarrow> fault e"

definition below_root :: "bytes \<Rightarrow> directory_task \<Rightarrow> bool" where
  "below_root root t \<longleftrightarrow> (\<exists>r. task_relative_path root (dt_path t) = Inr r)"

text \<open>
  The queue holds \<open>ts\<close>, the resident tasks first, and counts them together with the \<open>leased\<close>
  ones; every task lies below the root and the resident queue stays within its capacity.
\<close>

definition queue_holds :: "('s \<Rightarrow> directory_task list \<Rightarrow> bool) \<Rightarrow> 's task_queue \<Rightarrow> nat \<Rightarrow> directory_task list \<Rightarrow> bool" where
  "queue_holds holds q leased ts \<longleftrightarrow> (\<exists>spilled. ts = tq_tasks q @ spilled \<and> holds (tq_spill q) spilled) \<and>
     tq_pending q = leased + length ts \<and> length (tq_tasks q) \<le> max 1 (tq_capacity q) \<and> (\<forall>t \<in> set ts. below_root (tq_root q) t)"

definition queue_fault :: "(('io, 'j, 'b) spill_error \<Rightarrow> bool) \<Rightarrow> ('io, 'j, 'b) queue_error \<Rightarrow> bool" where
  "queue_fault fault e \<longleftrightarrow> (\<exists>x. e = QueueSpill x \<and> fault x)"

lemma validate_iff: "validate_task_path root path = Inr u \<longleftrightarrow> (\<exists>r. task_relative_path root path = Inr r)"
  by (auto simp: validate_task_path_def res_bind_Inr_iff)

lemma take_first_append:
  "take_first path (xs @ ys) =
    (case List.find (\<lambda>t. path_eq (dt_path t) path) xs of
       Some t \<Rightarrow> (Some t, remove_first (\<lambda>t. path_eq (dt_path t) path) xs @ ys)
     | None \<Rightarrow> (fst (take_first path ys), xs @ snd (take_first path ys)))"
  by (induction xs) (auto simp: take_first_def split: option.splits)

lemma set_take_first: "set (snd (take_first path ts)) \<subseteq> set ts" "fst (take_first path ts) = Some t \<Longrightarrow> t \<in> set ts"
  "length (snd (take_first path ts)) + (if fst (take_first path ts) = None then 0 else 1) = length ts"
proof -
  show "set (snd (take_first path ts)) \<subseteq> set ts" by (simp add: take_first_def set_remove_first_subset)
  show "fst (take_first path ts) = Some t \<Longrightarrow> t \<in> set ts" by (simp add: take_first_def find_Some_in)
  show "length (snd (take_first path ts)) + (if fst (take_first path ts) = None then 0 else 1) = length ts"
    by (induction ts) (auto simp: take_first_def split: if_splits)
qed

context task_journal
begin

lemma queue_take:
  assumes h: "queue_holds holds q n ts" and t: "tq_take_path jtake False path q = Inr (r, q')"
  shows "r = fst (take_first path ts) \<and> queue_holds holds q' (n + (if r = None then 0 else 1)) (snd (take_first path ts))"
proof -
  obtain spilled where s: "ts = tq_tasks q @ spilled" "holds (tq_spill q) spilled" using h by (auto simp: queue_holds_def)
  have count: "tq_pending q = n + length ts" "length (tq_tasks q) \<le> max 1 (tq_capacity q)" "\<forall>t \<in> set ts. below_root (tq_root q) t"
    using h by (simp_all add: queue_holds_def)
  show ?thesis
  proof (cases "tq_pending q = 0")
    case True
    then show ?thesis using t h count(1) by (simp add: tq_take_path_def take_first_def)
  next
    case False
    show ?thesis
    proof (cases "List.find (\<lambda>task. path_eq (dt_path task) path) (tq_tasks q)")
      case (Some u)
      then have "r = Some u \<and> q' = q\<lparr>tq_tasks := remove_first (\<lambda>task. path_eq (dt_path task) path) (tq_tasks q)\<rparr>"
        using t False by (auto simp: tq_take_path_def res_bind_Inr_iff)
      moreover have tf: "take_first path ts = (Some u, remove_first (\<lambda>t. path_eq (dt_path t) path) (tq_tasks q) @ spilled)"
        using Some s(1) by (simp add: take_first_append)
      ultimately show ?thesis
        using s(2) count set_take_first(1,3) [of path ts] length_remove_first_le [of _ "tq_tasks q"] False
        by (auto simp: queue_holds_def intro: order_trans)
    next
      case None
      obtain s' where s': "jtake path (tq_spill q) = Inr (r, s')" "q' = q\<lparr>tq_spill := s'\<rparr>"
        using t False None by (auto simp: tq_take_path_def res_bind_Inr_iff split: option.splits)
      have tf: "take_first path ts = (fst (take_first path spilled), tq_tasks q @ snd (take_first path spilled))"
        using None s(1) by (simp add: take_first_append)
      then show ?thesis
        using take_holds [OF s(2) s'(1)] s'(2) count set_take_first(1,3) [of path ts] False
        by (auto simp: queue_holds_def split: if_splits)
    qed
  qed
qed

lemma queue_take_error:
  assumes h: "queue_holds holds q n ts" and t: "tq_take_path jtake stopping path q = Inl e"
  shows "queue_fault fault e"
proof -
  obtain spilled where s: "ts = tq_tasks q @ spilled" "holds (tq_spill q) spilled" using h by (auto simp: queue_holds_def)
  have ok: "\<forall>t \<in> set ts. validate_task_path (tq_root q) (dt_path t) = (Inr () :: (('io, 'j, 'b) queue_error, unit) res)"
    using h unfolding validate_iff by (simp add: queue_holds_def below_root_def)
  have run: "\<not> (stopping \<or> tq_pending q = 0)" using t by (auto simp: tq_take_path_def split: if_splits)
  show ?thesis
  proof (cases "List.find (\<lambda>task. path_eq (dt_path task) path) (tq_tasks q)")
    case (Some u)
    then show ?thesis using t run ok s(1) find_Some_in [OF Some] by (simp add: tq_take_path_def)
  next
    case None
    show ?thesis
    proof (cases "jtake path (tq_spill q)")
      case (Inl x)
      then show ?thesis using t run None take_error [OF s(2) Inl] by (auto simp: tq_take_path_def queue_fault_def)
    next
      case (Inr y)
      obtain r s' where y: "y = (r, s')" by (cases y)
      have "\<forall>u. r = Some u \<longrightarrow> u \<in> set ts"
        using take_holds [OF s(2), of path r s'] Inr y s(1) set_take_first(2) [of path spilled] by auto
      then show ?thesis using t run None Inr y ok by (auto simp: tq_take_path_def split: option.splits)
    qed
  qed
qed

lemma queue_schedule:
  assumes h: "queue_holds holds q n ts" and t: "tq_schedule jpush t q = Inr q'"
  shows "\<exists>a b. ts = a @ b \<and> queue_holds holds q' n (a @ t # b)"
proof -
  obtain spilled where s: "ts = tq_tasks q @ spilled" "holds (tq_spill q) spilled" using h by (auto simp: queue_holds_def)
  have ok: "below_root (tq_root q) t" using t by (auto simp: tq_schedule_def res_bind_Inr_iff validate_iff below_root_def)
  show ?thesis
  proof (cases "length (tq_tasks q) < tq_capacity q")
    case True
    then have "q' = q\<lparr>tq_tasks := tq_tasks q @ [t], tq_pending := Suc (tq_pending q)\<rparr>"
      using t by (auto simp: tq_schedule_def res_bind_Inr_iff usize_checked_add_def split: if_splits)
    then show ?thesis using h s ok True by (intro exI [of _ "tq_tasks q"] exI [of _ spilled]) (auto simp: queue_holds_def)
  next
    case False
    obtain s' where "jpush t (tq_spill q) = Inr s'" "q' = q\<lparr>tq_spill := s', tq_pending := Suc (tq_pending q)\<rparr>"
      using t False by (auto simp: tq_schedule_def res_bind_Inr_iff usize_checked_add_def split: if_splits)
    then show ?thesis using h s ok push_holds [OF s(2)]
      by (intro exI [of _ ts] exI [of _ "[]"]) (auto simp: queue_holds_def)
  qed
qed

end

sublocale task_journal \<subseteq> directory_queue "tq_take_path jtake" "tq_schedule jpush" tq_complete tq_is_idle "queue_holds holds" "queue_fault fault"
proof (unfold_locales, goal_cases)
  case 1
  then show ?case by (rule queue_take)
next
  case 2
  then show ?case by (rule queue_take_error)
next
  case 3
  then show ?case by (simp add: tq_take_path_def)
next
  case 4
  then show ?case by (rule queue_schedule)
next
  case 5
  then show ?case by (simp add: queue_holds_def tq_complete_def)
next
  case 6
  then show ?case by (auto simp: queue_holds_def tq_is_idle_def)
qed

section \<open>The queue over the journal file\<close>

type_synonym scan_queue = "(task_spill \<times> temporary_storage) task_queue"

definition journal_push :: "('j, 'b) task_codec \<Rightarrow> 'io spill_os \<Rightarrow> directory_task \<Rightarrow> task_spill \<times> temporary_storage \<Rightarrow>
    (('io, 'j, 'b) spill_error, task_spill \<times> temporary_storage) res" where
  "journal_push jc os task s = spill_push jc os task (fst s) (snd s)"

definition journal_take :: "('j, 'b) task_codec \<Rightarrow> 'io spill_os \<Rightarrow> bytes \<Rightarrow> task_spill \<times> temporary_storage \<Rightarrow>
    (('io, 'j, 'b) spill_error, directory_task option \<times> task_spill \<times> temporary_storage) res" where
  "journal_take jc os path s = spill_take_path jc os path (fst s) (snd s)"

definition journal_holds :: "('j, 'b) task_codec \<Rightarrow> task_spill \<times> temporary_storage \<Rightarrow> directory_task list \<Rightarrow> bool" where
  "journal_holds jc s ts \<longleftrightarrow> spill_holds jc (fst s) (snd s) ts"

definition queue_take_path :: "('j, 'b) task_codec \<Rightarrow> 'io spill_os \<Rightarrow> bool \<Rightarrow> bytes \<Rightarrow> scan_queue \<Rightarrow>
    (('io, 'j, 'b) queue_error, directory_task option \<times> scan_queue) res" where
  "queue_take_path jc os = tq_take_path (journal_take jc os)"

definition queue_schedule :: "('j, 'b) task_codec \<Rightarrow> 'io spill_os \<Rightarrow> directory_task \<Rightarrow> scan_queue \<Rightarrow>
    (('io, 'j, 'b) queue_error, scan_queue) res" where
  "queue_schedule jc os = tq_schedule (journal_push jc os)"

definition queue_new :: "bytes \<Rightarrow> nat \<Rightarrow> spill_file \<Rightarrow> temporary_storage \<Rightarrow> ('io io_error, scan_queue) res" where
  "queue_new root capacity tempfile st =
     res_bind (spill_new tempfile st) (\<lambda>s. Inr (tq_new root capacity s))"

interpretation file_journal: task_journal "journal_push jc os" "journal_take jc os" "journal_holds jc" "file_error os"
  for jc :: "('j, 'b) task_codec" and os :: "'io spill_os"
proof (unfold_locales, goal_cases)
  case (1 s ts t s')
  then show ?case
    using spill_push_holds(2) [of jc "fst s" "snd s" ts os t "fst s'" "snd s'"] by (simp add: journal_holds_def journal_push_def)
next
  case (2 s ts path r s')
  then show ?case
    using settles_D [OF spill_take_path_holds [of jc "fst s" "snd s" ts os path], of "(r, s')"]
    by (simp add: journal_holds_def journal_take_def spill_post_def case_prod_beta prod_eq_iff)
next
  case (3 s ts path e)
  then show ?case
    using spill_take_path_holds [of jc "fst s" "snd s" ts os path]
    by (simp add: journal_holds_def journal_take_def settles_def)
qed

text \<open>The contract on the calls the scheduler makes.\<close>

interpretation scan_queue: directory_queue "queue_take_path jc os" "queue_schedule jc os" tq_complete tq_is_idle
    "queue_holds (journal_holds jc)" "queue_fault (file_error os)"
  for jc :: "('j, 'b) task_codec" and os :: "'io spill_os"
  unfolding queue_take_path_def queue_schedule_def by (rule file_journal.directory_queue_axioms)

end
