(* ===== verification/Scan_Scheduler.thy ===== *)
theory Scan_Scheduler
  imports Task_Queue Lease_Service
begin

text \<open>
  The actor that hands directories to the scanner's workers
  (\<open>src/src/runtime/scanner/scheduler.rs\<close>): it admits a directory through the session
  coordinator, keeps it in the task queue, leases it to a free worker, forwards what the worker reports
  under that lease, and ends the lease when the worker hands it in.

  One call of the loop's body is \<open>sched_iterate\<close>; \<open>sched_run\<close> is the loop on what the
  outside does: the stop flags read at the top of each round and the operation its select picked.
  The rest of the outside is the record \<open>sched_world\<close>, read at the times \<open>sd_clock\<close> counts:
  the commands other clients of the coordinator get in before each call of the scheduler, the stop flags
  as the queue reads them, and the outcomes of sends on the channels of the \<open>crossbeam_channel\<close>
  crate.  \<open>sd_trace\<close> records what the scheduler did, in order.  A worker's report is its lease and
  an opaque rest; the display form given to texts before they are sent is left out.
\<close>

section \<open>Data\<close>

record leased_directory_task =
  ld_task :: directory_task
  ld_lease :: work_lease

datatype ('io, 'j, 'b) scheduler_error =
    ChannelsInconsistent | RootNotAdmitted | TaskEscapedRoot | TaskInvalidPath
  | TaskNotCurrent | CoordinatorGone session_coordinator_error
  | TaskNotQueued "('io, 'j, 'b) queue_error" | JournalUnreadable "('io, 'j, 'b) queue_error" | MissingTask
  | WorkerAlreadyBusy | AssignmentDisconnected | InvalidWorker
  | NoActiveLease | StaleOrForgedLease | CompletionRejected
  | ResultWithoutLease | UnleasedResult | StaleResult | OwnerStopped
  | WorkersDisconnected | WorkerDisconnected

datatype 'p worker_event =
    ScanBatch "work_lease option" 'p | ScanUnscanned "work_lease option" 'p | OtherEvent 'p

datatype send_outcome = SendOk | SendFull | SendDisconnected

text \<open>A blocking send: delivered, or given up with the \<open>cancelled\<close> flag as read after it.\<close>

datatype delivery = Delivered | GivenUp bool

datatype ('io, 'j, 'b, 'p) sched_action =
    Admitted relative_path
  | Assigned nat leased_directory_task
  | Forwarded nat "'p worker_event"
  | Finished nat work_lease work_completion
  | ReportedFailure "('io, 'j, 'b) scheduler_error"

record ('io, 'j, 'b) sched_world =
  sw_session :: scan_session_id
  sw_generation :: scan_generation
  sw_root :: bytes
  sw_codec :: "('j, 'b) task_codec"
  sw_os :: "'io spill_os"
  sw_others :: "nat \<Rightarrow> coordinator_command list"
  sw_stopping :: "nat \<Rightarrow> bool"
  sw_send :: "nat \<Rightarrow> send_outcome"
  sw_delivery :: "nat \<Rightarrow> delivery"

record ('io, 'j, 'b, 'p) scheduler =
  sd_coordinator :: session_coordinator
  sd_queue :: scan_queue
  sd_active :: "work_lease option list"
  sd_root_invalidated :: bool
  sd_failed :: bool
  sd_clock :: nat
  sd_trace :: "('io, 'j, 'b, 'p) sched_action list"

record sched_flags =
  fl_root_invalid :: bool
  fl_cancelled :: bool
  fl_failed :: bool

text \<open>
  What the select picked: a command (with a completion, the reports still waiting in that worker's
  channel), a focus request, a report of a worker, a closed channel, or the poll interval.
\<close>

datatype 'p sched_event =
    SelEnqueue directory_task
  | SelComplete nat work_lease work_completion "'p worker_event list"
  | SelCommandsClosed
  | SelFocus "bytes option"
  | SelWorkerEvent nat "'p worker_event"
  | SelWorkerClosed nat
  | SelTimeout

datatype ('io, 'j, 'b) sched_exit =
    ExitIdle | ExitRootInvalid | ExitCancelled | ExitFailed | ExitClosed | ExitError "('io, 'j, 'b) scheduler_error"

datatype ('io, 'j, 'b, 'p) sched_state =
    Running "('io, 'j, 'b, 'p) scheduler"
  | Ended "('io, 'j, 'b) sched_exit" "('io, 'j, 'b, 'p) scheduler"

section \<open>Calls\<close>

definition tick :: "('io, 'j, 'b, 'p) scheduler \<Rightarrow> ('io, 'j, 'b, 'p) scheduler" where
  "tick s = s\<lparr>sd_clock := Suc (sd_clock s)\<rparr>"

definition act :: "('io, 'j, 'b, 'p) sched_action \<Rightarrow> ('io, 'j, 'b, 'p) scheduler \<Rightarrow> ('io, 'j, 'b, 'p) scheduler" where
  "act a s = s\<lparr>sd_trace := sd_trace s @ [a]\<rparr>"

text \<open>A call of the coordinator, after the commands of others that reach its channel first.\<close>

definition coordinate :: "('io, 'j, 'b) sched_world \<Rightarrow> (session_coordinator \<Rightarrow> 'a \<times> session_coordinator) \<Rightarrow>
    ('io, 'j, 'b, 'p) scheduler \<Rightarrow> 'a \<times> ('io, 'j, 'b, 'p) scheduler" where
  "coordinate w call s =
     (case call (snd (serve (sw_others w (sd_clock s)) (sd_coordinator s))) of
        (r, c) \<Rightarrow> (r, tick (s\<lparr>sd_coordinator := c\<rparr>)))"

definition coordinate_unit :: "('io, 'j, 'b) sched_world \<Rightarrow> (session_coordinator \<Rightarrow> session_coordinator) \<Rightarrow>
    ('io, 'j, 'b, 'p) scheduler \<Rightarrow> ('io, 'j, 'b, 'p) scheduler" where
  "coordinate_unit w call s = snd (coordinate w (\<lambda>c. ((), call c)) s)"

definition sched_fail :: "('io, 'j, 'b) sched_world \<Rightarrow> ('io, 'j, 'b) scheduler_error \<Rightarrow>
    ('io, 'j, 'b, 'p) scheduler \<Rightarrow> ('io, 'j, 'b, 'p) sched_state" where
  "sched_fail w e s =
     (let s = coordinate_unit w session_fail_scan_work s;
          s = s\<lparr>sd_failed := True\<rparr>;
          delivered = (sw_delivery w (sd_clock s) = Delivered);
          s = tick s
      in Ended (ExitError e) (if delivered then act (ReportedFailure e) s else s))"

section \<open>Tasks\<close>

text \<open>\<open>RelativePath::from_path\<close> of a path given by its components.\<close>

definition relative_from_components :: "component list \<Rightarrow> (relative_path_error, relative_path) res" where
  "relative_from_components cs = res_bind (collect_components cs) from_components"

definition task_key :: "('io, 'j, 'b) sched_world \<Rightarrow> bytes \<Rightarrow> (('io, 'j, 'b) scheduler_error, work_key) res" where
  "task_key w path =
     res_bind (ok_or (strip_prefix path (sw_root w)) TaskEscapedRoot) (\<lambda>relative.
     res_bind (map_err (\<lambda>_. TaskInvalidPath) (relative_from_components relative)) (\<lambda>relative.
       Inr (WorkKey (sw_session w) (sw_generation w) EnumerateDirectory relative)))"

definition register_task :: "('io, 'j, 'b) sched_world \<Rightarrow> directory_task \<Rightarrow> ('io, 'j, 'b, 'p) scheduler \<Rightarrow>
    (('io, 'j, 'b) scheduler_error, bool) res \<times> ('io, 'j, 'b, 'p) scheduler" where
  "register_task w task s =
     (case task_key w (dt_path task) of
        Inl e \<Rightarrow> (Inl e, s)
      | Inr key \<Rightarrow>
          (case coordinate w (session_register key Background) s of
             (Inl e, s) \<Rightarrow> (Inl (CoordinatorGone e), s)
           | (Inr outcome, s) \<Rightarrow>
               (case outcome of
                  Enqueued \<Rightarrow> (Inr True, s)
                | PriorityRaised \<Rightarrow> (Inr False, s)
                | AlreadyPending \<Rightarrow> (Inr False, s)
                | AlreadyLeased \<Rightarrow> (Inr False, s)
                | StaleSession \<Rightarrow> (Inl TaskNotCurrent, s)
                | StaleGeneration \<Rightarrow> (Inl TaskNotCurrent, s))))"

definition lease_task :: "('io, 'j, 'b) sched_world \<Rightarrow> ('io, 'j, 'b, 'p) scheduler \<Rightarrow>
    (('io, 'j, 'b) scheduler_error, leased_directory_task option) res \<times> ('io, 'j, 'b, 'p) scheduler" where
  "lease_task w s =
     (case coordinate w session_lease_next_scan s of
        (Inl e, s) \<Rightarrow> (Inl (CoordinatorGone e), s)
      | (Inr None, s) \<Rightarrow> (Inr None, s)
      | (Inr (Some lease), s) \<Rightarrow>
          let path = path_push (sw_root w) (to_path_buf (wk_path (wl_key lease)));
              stopping = sw_stopping w (sd_clock s);
              s = tick s in
          (case queue_take_path (sw_codec w) (sw_os w) stopping path (sd_queue s) of
             Inl e \<Rightarrow> (Inl (JournalUnreadable e), s)
           | Inr (None, q) \<Rightarrow>
               (Inl MissingTask, snd (coordinate w (session_finish lease Failed) (s\<lparr>sd_queue := q\<rparr>)))
           | Inr (Some task, q) \<Rightarrow>
               (Inr (Some \<lparr>ld_task = task, ld_lease = lease\<rparr>), s\<lparr>sd_queue := q\<rparr>)))"

fun dispatch_workers :: "('io, 'j, 'b) sched_world \<Rightarrow> nat list \<Rightarrow> ('io, 'j, 'b, 'p) scheduler \<Rightarrow>
    (('io, 'j, 'b) scheduler_error, unit) res \<times> ('io, 'j, 'b, 'p) scheduler" where
  "dispatch_workers w [] s = (Inr (), s)"
| "dispatch_workers w (worker # workers) s =
     (if sd_active s ! worker \<noteq> None then dispatch_workers w workers s
      else case lease_task w s of
        (Inl e, s) \<Rightarrow> (Inl e, s)
      | (Inr None, s) \<Rightarrow> (Inr (), s)
      | (Inr (Some assignment), s) \<Rightarrow>
          let sent = sw_send w (sd_clock s); s = tick s in
          (case sent of
             SendOk \<Rightarrow> dispatch_workers w workers
               (act (Assigned worker assignment) (s\<lparr>sd_active := (sd_active s)[worker := Some (ld_lease assignment)]\<rparr>))
           | SendFull \<Rightarrow> (Inl WorkerAlreadyBusy, s)
           | SendDisconnected \<Rightarrow> (Inl AssignmentDisconnected, s)))"

definition dispatch_ready :: "('io, 'j, 'b) sched_world \<Rightarrow> ('io, 'j, 'b, 'p) scheduler \<Rightarrow>
    (('io, 'j, 'b) scheduler_error, unit) res \<times> ('io, 'j, 'b, 'p) scheduler" where
  "dispatch_ready w s = dispatch_workers w [0..<length (sd_active s)] s"

text \<open>\<open>active.get(worker).and_then(Option::as_ref)\<close>\<close>

definition active_lease :: "nat \<Rightarrow> ('io, 'j, 'b, 'p) scheduler \<Rightarrow> work_lease option" where
  "active_lease worker s = (if worker < length (sd_active s) then sd_active s ! worker else None)"

definition all_idle :: "('io, 'j, 'b, 'p) scheduler \<Rightarrow> bool" where
  "all_idle s \<longleftrightarrow> (\<forall>a \<in> set (sd_active s). a = None)"

definition complete_lease :: "('io, 'j, 'b) sched_world \<Rightarrow> nat \<Rightarrow> work_lease \<Rightarrow> work_completion \<Rightarrow> ('io, 'j, 'b, 'p) scheduler \<Rightarrow>
    (('io, 'j, 'b) scheduler_error, unit) res \<times> ('io, 'j, 'b, 'p) scheduler" where
  "complete_lease w worker lease completion s =
     (case active_lease worker s of
        None \<Rightarrow> (Inl NoActiveLease, s)
      | Some expected \<Rightarrow>
          if expected \<noteq> lease then (Inl StaleOrForgedLease, s)
          else case coordinate w (session_finish lease completion) s of
            (Inl e, s) \<Rightarrow> (Inl (CoordinatorGone e), s)
          | (Inr outcome, s) \<Rightarrow>
              if outcome \<noteq> Accepted then (Inl CompletionRejected, s)
              else (Inr (), act (Finished worker lease completion)
                (s\<lparr>sd_active := (sd_active s)[worker := None], sd_queue := tq_complete (sd_queue s)\<rparr>)))"

section \<open>Reports of workers\<close>

definition sealed_lease :: "'p worker_event \<Rightarrow> work_lease option option" where
  "sealed_lease event = (case event of ScanBatch l _ \<Rightarrow> Some l | ScanUnscanned l _ \<Rightarrow> Some l | OtherEvent _ \<Rightarrow> None)"

definition forward_worker_event :: "('io, 'j, 'b) sched_world \<Rightarrow> nat \<Rightarrow> 'p worker_event \<Rightarrow> ('io, 'j, 'b, 'p) scheduler \<Rightarrow>
    (('io, 'j, 'b) scheduler_error, unit) res \<times> ('io, 'j, 'b, 'p) scheduler" where
  "forward_worker_event w worker event s =
     (case active_lease worker s of
        None \<Rightarrow> (Inl ResultWithoutLease, s)
      | Some active \<Rightarrow>
          (case sealed_lease event of
             Some None \<Rightarrow> (Inl UnleasedResult, s)
           | sealed \<Rightarrow>
               if sealed \<noteq> None \<and> sealed \<noteq> Some (Some active) then (Inl StaleResult, s)
               else case sw_delivery w (sd_clock s) of
                 Delivered \<Rightarrow> (Inr (), act (Forwarded worker event) (tick s))
               | GivenUp cancelled \<Rightarrow> (if cancelled then Inr () else Inl OwnerStopped, tick s)))"

fun forward_pending_events :: "('io, 'j, 'b) sched_world \<Rightarrow> nat \<Rightarrow> 'p worker_event list \<Rightarrow> ('io, 'j, 'b, 'p) scheduler \<Rightarrow>
    (('io, 'j, 'b) scheduler_error, unit) res \<times> ('io, 'j, 'b, 'p) scheduler" where
  "forward_pending_events w worker [] s = (Inr (), s)"
| "forward_pending_events w worker (event # events) s =
     (case forward_worker_event w worker event s of
        (Inl e, s) \<Rightarrow> (Inl e, s)
      | (Inr _, s) \<Rightarrow> forward_pending_events w worker events s)"

section \<open>The loop\<close>

definition sched_select :: "('io, 'j, 'b) sched_world \<Rightarrow> 'p sched_event \<Rightarrow> ('io, 'j, 'b, 'p) scheduler \<Rightarrow> ('io, 'j, 'b, 'p) sched_state" where
  "sched_select w event s =
     (case event of
        SelTimeout \<Rightarrow> Running s
      | SelEnqueue task \<Rightarrow>
          (case register_task w task s of
             (Inl e, s) \<Rightarrow> sched_fail w e s
           | (Inr admitted, s) \<Rightarrow>
               if admitted then
                 case queue_schedule (sw_codec w) (sw_os w) task (sd_queue s) of
                   Inl e \<Rightarrow> sched_fail w (TaskNotQueued e) s
                 | Inr q \<Rightarrow>
                     Running (case task_key w (dt_path task) of
                       Inl _ \<Rightarrow> s\<lparr>sd_queue := q\<rparr>
                     | Inr key \<Rightarrow> act (Admitted (wk_path key)) (s\<lparr>sd_queue := q\<rparr>))
               else Running s)
      | SelComplete worker lease completion pending \<Rightarrow>
          if \<not> worker < length (sd_active s) then sched_fail w InvalidWorker s
          else (case forward_pending_events w worker pending s of
             (Inl e, s) \<Rightarrow> sched_fail w e s
           | (Inr _, s) \<Rightarrow>
               (case complete_lease w worker lease completion s of
                  (Inl e, s) \<Rightarrow> sched_fail w e s
                | (Inr _, s) \<Rightarrow> Running s))
      | SelCommandsClosed \<Rightarrow> if all_idle s then Ended ExitClosed s else sched_fail w WorkersDisconnected s
      | SelFocus path \<Rightarrow>
          Running (case Option.bind path (\<lambda>path. strip_prefix path (sw_root w)) of
            None \<Rightarrow> s
          | Some relative \<Rightarrow>
              (case relative_from_components relative of
                 Inl _ \<Rightarrow> s
               | Inr relative \<Rightarrow> coordinate_unit w (session_focus relative) s))
      | SelWorkerEvent worker event \<Rightarrow>
          (case forward_worker_event w worker event s of
             (Inl e, s) \<Rightarrow> sched_fail w e s
           | (Inr _, s) \<Rightarrow> Running s)
      | SelWorkerClosed worker \<Rightarrow>
          if active_lease worker s \<noteq> None then sched_fail w WorkerDisconnected s else Ended ExitClosed s)"

definition sched_iterate :: "('io, 'j, 'b) sched_world \<Rightarrow> sched_flags \<Rightarrow> 'p sched_event \<Rightarrow>
    ('io, 'j, 'b, 'p) scheduler \<Rightarrow> ('io, 'j, 'b, 'p) sched_state" where
  "sched_iterate w flags event s =
     (let s = (if fl_root_invalid flags \<and> \<not> sd_root_invalidated s
               then (coordinate_unit w session_invalidate_scan_work s)\<lparr>sd_root_invalidated := True\<rparr> else s) in
      if fl_root_invalid flags \<and> all_idle s then Ended ExitRootInvalid s
      else if fl_cancelled flags then Ended ExitCancelled (coordinate_unit w session_cancel_scan_work s)
      else if fl_failed flags then Ended ExitFailed (coordinate_unit w session_fail_scan_work s)
      else if sd_root_invalidated s then sched_select w event s
      else case dispatch_ready w s of
        (Inl e, s) \<Rightarrow> sched_fail w e s
      | (Inr _, s) \<Rightarrow>
          if tq_is_idle (sd_queue s) \<and> all_idle s then Ended ExitIdle s else sched_select w event s)"

fun sched_loop :: "('io, 'j, 'b) sched_world \<Rightarrow> (sched_flags \<times> 'p sched_event) list \<Rightarrow>
    ('io, 'j, 'b, 'p) sched_state \<Rightarrow> ('io, 'j, 'b, 'p) sched_state" where
  "sched_loop w ((flags, event) # inputs) (Running s) = sched_loop w inputs (sched_iterate w flags event s)"
| "sched_loop w inputs state = state"

text \<open>The start: the root directory is admitted before the first round; the queue already holds it.\<close>

definition sched_start :: "('io, 'j, 'b) sched_world \<Rightarrow> nat \<Rightarrow> nat \<Rightarrow> session_coordinator \<Rightarrow> scan_queue \<Rightarrow>
    ('io, 'j, 'b, 'p) sched_state" where
  "sched_start w assignments worker_events c q =
     (let s = \<lparr>sd_coordinator = c, sd_queue = q, sd_active = replicate assignments None, sd_root_invalidated = False,
               sd_failed = False, sd_clock = 0, sd_trace = []\<rparr> in
      if assignments \<noteq> worker_events then sched_fail w ChannelsInconsistent s
      else case task_key w (sw_root w) of
        Inl e \<Rightarrow> sched_fail w e s
      | Inr root_key \<Rightarrow>
          (case coordinate w (session_register root_key Background) s of
             (Inr Enqueued, s) \<Rightarrow> Running (act (Admitted (wk_path root_key)) s)
           | (_, s) \<Rightarrow> sched_fail w RootNotAdmitted s))"

definition sched_run :: "('io, 'j, 'b) sched_world \<Rightarrow> nat \<Rightarrow> session_coordinator \<Rightarrow> scan_queue \<Rightarrow>
    (sched_flags \<times> 'p sched_event) list \<Rightarrow> ('io, 'j, 'b, 'p) sched_state" where
  "sched_run w workers c q inputs = sched_loop w inputs (sched_start w workers workers c q)"

end
