(* ===== verification/Scan_Work_View.thy ===== *)
theory Scan_Work_View
  imports Lease_Service
begin

text \<open>
  What the directory scheduler relies on of the session coordinator: the scan work that is pending and
  the leases of directories to enumerate that are active.  \<open>scan_effect\<close> collects what each of the
  scheduler's calls does to them, and \<open>foreign_command\<close> names the commands of other clients: they
  leave both alone.
\<close>

definition scan_pending :: "scan_coordinator \<Rightarrow> work_key set" where
  "scan_pending c = {k. is_scan_work (wk_kind k) \<and> om_get (sc_pending c) k \<noteq> None}"

definition scan_leases :: "scan_coordinator \<Rightarrow> work_lease set" where
  "scan_leases c = {l \<in> active_leases (Some c). is_enumeration (wl_key l)}"

text \<open>The change of the two sets along a call, which keeps the invariant, session and generation.\<close>

definition scan_effect :: "scan_coordinator \<Rightarrow> scan_coordinator \<Rightarrow> work_key set \<Rightarrow> work_lease set \<Rightarrow> bool" where
  "scan_effect c c' P L \<longleftrightarrow> coord_wf c' \<and> scan_pending c' = P \<and> scan_leases c' = L \<and>
     sc_session c' = sc_session c \<and> sc_generation c' = sc_generation c \<and>
     unat (sc_next_lease c') \<le> Suc (unat (sc_next_lease c))"

definition only_enumeration :: "scan_coordinator \<Rightarrow> bool" where
  "only_enumeration c \<longleftrightarrow> (\<forall>k \<in> scan_pending c. is_enumeration k)"

lemma enumeration_scan: "is_enumeration k \<Longrightarrow> is_scan_work (wk_kind k)"
  by (simp add: is_enumeration_def is_scan_work_def)

lemma scan_pending_fields: "sc_pending c' = sc_pending c \<Longrightarrow> scan_pending c' = scan_pending c"
  by (simp add: scan_pending_def)

lemma scan_leases_fields: "sc_active c' = sc_active c \<Longrightarrow> scan_leases c' = scan_leases c"
  by (simp add: scan_leases_def)

lemma scan_leases_eq: "active_leases (Some c') = active_leases (Some c) \<Longrightarrow> scan_leases c' = scan_leases c"
  unfolding scan_leases_def by simp

section \<open>Scheduling\<close>

lemma schedule_fields [simp]:
  "sc_session (snd (schedule k pr c)) = sc_session c" "sc_generation (snd (schedule k pr c)) = sc_generation c"
  by (auto simp: schedule_def Let_def enqueue_pending_def split: option.split)

lemma schedule_scan:
  assumes wf: "coord_wf c" and s: "schedule k pr c = (r, c')"
  shows "scan_effect c c' (if r = Enqueued \<and> is_scan_work (wk_kind k) then insert k (scan_pending c) else scan_pending c) (scan_leases c)"
    "r = Enqueued \<Longrightarrow> om_get (sc_pending c) k = None \<and> sc_active_by_key c k = None"
    "r = StaleSession \<or> r = StaleGeneration \<Longrightarrow> wk_session k \<noteq> sc_session c \<or> wk_generation k \<noteq> sc_generation c"
proof -
  have om: "om_wf (sc_pending c)" using coord_wf_om(1) [OF wf] .
  have c': "c' = snd (schedule k pr c)" using s by simp
  have "om_get (sc_pending c') k' \<noteq> None \<longleftrightarrow> (if r = Enqueued \<and> k' = k then True else om_get (sc_pending c) k' \<noteq> None)" for k'
    using s om by (auto simp: schedule_def Let_def enqueue_pending_def om_get_insert split: if_splits option.splits)
  then have "scan_pending c' = (if r = Enqueued \<and> is_scan_work (wk_kind k) then insert k (scan_pending c) else scan_pending c)"
    by (auto simp: scan_pending_def)
  then show "scan_effect c c' (if r = Enqueued \<and> is_scan_work (wk_kind k) then insert k (scan_pending c) else scan_pending c) (scan_leases c)"
    using coord_wf_schedule [OF wf, of k pr] c' scan_leases_fields [of c' c] by (simp add: scan_effect_def)
  show "r = Enqueued \<Longrightarrow> om_get (sc_pending c) k = None \<and> sc_active_by_key c k = None"
    using s by (auto simp: schedule_def Let_def split: if_splits option.splits)
  show "r = StaleSession \<or> r = StaleGeneration \<Longrightarrow> wk_session k \<noteq> sc_session c \<or> wk_generation k \<noteq> sc_generation c"
    using s by (auto simp: schedule_def Let_def split: if_splits option.splits)
qed

section \<open>Leasing\<close>

lemma lease_queued_scan:
  assumes wf: "coord_wf c" and rdy: "ready c pr w" "eligible (exec_active c) w" "sc_next_lease c \<noteq> - 1"
  shows "scan_effect c (snd (lease_queued w f c)) (scan_pending c - {qw_key w})
     (if is_enumeration (qw_key w) then insert (lease_of c pr w f) (scan_leases c) else scan_leases c)"
proof -
  let ?c = "snd (lease_queued w f c)"
  have f: "sc_pending ?c = om_remove (qw_key w) (sc_pending c)" "sc_session ?c = sc_session c" "sc_generation ?c = sc_generation c"
    using rdy(1) by (simp_all add: ready_def lease_queued_def Let_def)
  then have "scan_pending ?c = scan_pending c - {qw_key w}" by (auto simp: scan_pending_def)
  moreover have "scan_leases ?c = (if is_enumeration (qw_key w) then insert (lease_of c pr w f) (scan_leases c) else scan_leases c)"
    unfolding scan_leases_def lease_queued_leases(1) [OF wf rdy(1)] by (auto simp: lease_of_def)
  ultimately show ?thesis
    using lease_queued_wf [OF wf rdy] lease_queued_next [of w f c] f by (simp add: scan_effect_def)
qed

lemma lease_next_scan_effect:
  assumes wf: "coord_wf c" and max: "sc_next_lease c \<noteq> - 1" and only: "only_enumeration c" and s: "lease_next_scan c = (r, c')"
  shows "case r of None \<Rightarrow> c' = c
    | Some l \<Rightarrow> wl_key l \<in> scan_pending c \<and> l \<notin> active_leases (Some c) \<and> is_enumeration (wl_key l) \<and>
        scan_effect c c' (scan_pending c - {wl_key l}) (insert l (scan_leases c))"
  using wf
proof (cases rule: lease_next_scan_cases)
  case none
  then show ?thesis using s by simp
next
  case (lease pr w f)
  have k: "qw_key w \<in> scan_pending c" using lease(2,3) by (simp add: scan_pending_def ready_def scan_eligible_def)
  then have "is_enumeration (qw_key w)" using only by (simp add: only_enumeration_def)
  then show ?thesis
    using s lease k lease_queued_scan [OF wf lease(2) scan_eligible_eligible [OF lease(3)] max, of f] lease_queued_leases(2) [OF wf lease(2), of f]
    by (auto simp: lease_of_def)
qed

lemma lease_exact_scan:
  assumes wf: "coord_wf c" and max: "sc_next_lease c \<noteq> - 1" and k: "\<not> is_enumeration k" and s: "lease_exact k c = (r, c')"
  shows "scan_effect c c' (scan_pending c - (if r = None then {} else {k})) (scan_leases c)"
    "is_scan_work (wk_kind k) \<Longrightarrow> k \<in> scan_pending c \<Longrightarrow> r \<noteq> None"
proof -
  show "scan_effect c c' (scan_pending c - (if r = None then {} else {k})) (scan_leases c)"
    using wf
  proof (cases rule: lease_exact_cases [where k = k])
    case none
    then show ?thesis using s wf by (simp add: scan_effect_def)
  next
    case (lease pr w)
    then show ?thesis using s k lease_queued_scan [OF wf lease(2,3) max, of False] by simp
  qed
  show "is_scan_work (wk_kind k) \<Longrightarrow> k \<in> scan_pending c \<Longrightarrow> r \<noteq> None"
    using wf
  proof (cases rule: lease_exact_cases [where k = k])
    case none
    then show "is_scan_work (wk_kind k) \<Longrightarrow> k \<in> scan_pending c \<Longrightarrow> r \<noteq> None"
      by (auto simp: scan_pending_def is_scan_work_def)
  next
    case (lease pr w)
    then show ?thesis using s by simp
  qed
qed

section \<open>Ending work\<close>

lemma finish_scan:
  assumes wf: "coord_wf c"
  shows "scan_effect c (snd (finish l completion c)) (scan_pending c) (scan_leases c - {l})"
    "fst (finish l completion c) = Accepted \<longleftrightarrow> l \<in> active_leases (Some c)"
proof -
  let ?c = "snd (finish l completion c)"
  have "sc_pending ?c = sc_pending c \<and> sc_session ?c = sc_session c \<and> sc_generation ?c = sc_generation c"
    by (cases "om_get (sc_active c) (wl_id l) = Some l") (simp_all add: finish_stale finish_exact remove_active_def)
  then show "scan_effect c ?c (scan_pending c) (scan_leases c - {l})"
    using coord_wf_finish [OF wf, of l completion] finish_leases(1) [OF wf, of l completion]
    by (auto simp: scan_effect_def scan_leases_def scan_pending_def simp del: active_leases_simps)
  show "fst (finish l completion c) = Accepted \<longleftrightarrow> l \<in> active_leases (Some c)" by (rule finish_leases(2) [OF wf])
qed

lemma requeue_scan:
  assumes wf: "coord_wf c" and k: "\<not> is_scan_work (wk_kind (wl_key l))"
  shows "scan_effect c (snd (requeue l c)) (scan_pending c) (scan_leases c)"
proof -
  let ?c = "snd (requeue l c)"
  have ne: "\<not> is_enumeration (wl_key l)" using k enumeration_scan by blast
  have "scan_pending ?c = scan_pending c \<and> sc_session ?c = sc_session c \<and> sc_generation ?c = sc_generation c"
    using k coord_wf_om(1) [OF wf]
    by (cases "om_get (sc_active c) (wl_id l) = Some l")
      (auto simp: requeue_stale requeue_exact remove_active_def enqueue_pending_def Let_def scan_pending_def om_get_insert)
  then show ?thesis
    using coord_wf_requeue [OF wf, of l] requeue_leases(1) [OF wf, of l] ne
    by (auto simp: scan_effect_def scan_leases_def simp del: active_leases_simps)
qed

lemma terminate_scan:
  assumes wf: "coord_wf c" and only: "only_enumeration c"
  shows "scan_effect c (terminate_matching lc is_enumeration c) {} {}"
proof (rule terminate_matching_effect [where lc = lc and P = is_enumeration, OF wf])
  fix Q B E T
  assume eq: "terminate_matching lc is_enumeration c =
      c\<lparr>sc_pending := filter (\<lambda>e. \<not> is_enumeration (fst e)) (sc_pending c), sc_queues := Q,
       sc_active := filter (\<lambda>e. \<not> is_enumeration (wl_key (snd e))) (sc_active c), sc_active_by_key := B,
       sc_active_deletion_execution := E, sc_terminal := T\<rparr>"
  let ?c = "terminate_matching lc is_enumeration c"
  have "scan_pending ?c = {}"
    using only coord_wf_om(1) [OF wf]
    by (auto simp: eq scan_pending_def only_enumeration_def om_get_filter split: option.splits if_splits)
  moreover have "scan_leases ?c = {}"
    using coord_wf_om(2) [OF wf] by (auto simp: eq scan_leases_def om_get_filter split: option.splits if_splits)
  ultimately show ?thesis
    using coord_wf_terminate_matching [OF wf, of lc is_enumeration] by (simp add: scan_effect_def, simp add: eq)
qed

section \<open>Other clients\<close>

fun foreign_command :: "coordinator_command \<Rightarrow> bool" where
  "foreign_command (CmdRegister k _) = (\<not> is_scan_work (wk_kind k))"
| "foreign_command (CmdLeaseExact k) = (\<not> is_scan_work (wk_kind k))"
| "foreign_command CmdLeaseNextScan = False"
| "foreign_command (CmdAcquire kind _ _) = (kind \<noteq> EnumerateDirectory)"
| "foreign_command (CmdFinish l _) = (\<not> is_enumeration (wl_key l))"
| "foreign_command (CmdRequeue l) = (\<not> is_scan_work (wk_kind (wl_key l)))"
| "foreign_command (CmdFocus _) = True"
| "foreign_command (CmdAdvanceGeneration _) = False"
| "foreign_command CmdCancelScanWork = False"
| "foreign_command CmdFailScanWork = False"
| "foreign_command CmdInvalidateScanWork = False"
| "foreign_command CmdSnapshot = True"
| "foreign_command CmdShutdown = False"

lemma acquire_scan:
  assumes wf: "coord_wf c" and max: "sc_next_lease c \<noteq> - 1" and only: "only_enumeration c" and k: "kind \<noteq> EnumerateDirectory"
  shows "scan_effect c (snd (acquire_work kind path priority c)) (scan_pending c) (scan_leases c)"
proof -
  let ?k = "WorkKey (sc_session c) (sc_generation c) kind path"
  obtain r d where s: "schedule ?k priority c = (r, d)" by fastforce
  obtain q e where l: "lease_exact ?k d = (q, e)" by fastforce
  have ne: "\<not> is_enumeration ?k" "?k \<notin> scan_pending c" using k only by (auto simp: is_enumeration_def only_enumeration_def)
  note sc = schedule_scan [OF wf s]
  have d: "coord_wf d" "sc_next_lease d = sc_next_lease c" "scan_leases d = scan_leases c"
    "scan_pending d = (if r = Enqueued \<and> is_scan_work (wk_kind ?k) then insert ?k (scan_pending c) else scan_pending c)"
    "sc_session d = sc_session c" "sc_generation d = sc_generation c"
    using sc(1) schedule_next [of ?k priority c] s by (simp_all add: scan_effect_def)
  note le = lease_exact_scan [OF d(1) _ ne(1) l]
  have "snd (acquire_work kind path priority c) = (if r \<in> {Enqueued, PriorityRaised, AlreadyPending} then e else d)"
    using s l by (cases r) (simp_all add: acquire_work_def Let_def)
  moreover have "scan_effect c d (scan_pending c) (scan_leases c)" if "r \<noteq> Enqueued" using sc(1) that by simp
  moreover have "scan_effect c e (scan_pending c) (scan_leases c)"
  proof (cases "r = Enqueued \<and> is_scan_work (wk_kind ?k)")
    case True
    then have "q \<noteq> None" "scan_pending d = insert ?k (scan_pending c)" using le(2) d max by simp_all
    then show ?thesis using le(1) d max ne by (simp add: scan_effect_def)
  next
    case False
    then have "scan_pending d = scan_pending c" using d(4) by auto
    then have "scan_pending d - (if q = None then {} else {?k}) = scan_pending c" using ne(2) by auto
    then show ?thesis using le(1) d max by (simp add: scan_effect_def)
  qed
  ultimately show ?thesis by auto
qed

lemma foreign_effect:
  assumes wf: "coord_wf c" and max: "sc_next_lease c \<noteq> - 1" and only: "only_enumeration c" and f: "foreign_command cmd"
  shows "\<exists>r c'. handle_command cmd c = (r, Some c') \<and> scan_effect c c' (scan_pending c) (scan_leases c)"
proof (cases cmd)
  case (CmdRegister k priority)
  obtain r d where s: "schedule k priority c = (r, d)" by fastforce
  then show ?thesis using CmdRegister f schedule_scan(1) [OF wf s] by simp
next
  case (CmdLeaseExact k)
  obtain r d where s: "lease_exact k c = (r, d)" by fastforce
  have "\<not> is_enumeration k" "k \<notin> scan_pending c" using CmdLeaseExact f enumeration_scan by (auto simp: scan_pending_def)
  then have "scan_effect c d (scan_pending c) (scan_leases c)"
    using lease_exact_scan(1) [OF wf max _ s] by (auto split: if_splits)
  then show ?thesis using CmdLeaseExact s by simp
next
  case (CmdAcquire kind path priority)
  then show ?thesis using acquire_scan [OF wf max only, of kind path priority] f
    by (cases "acquire_work kind path priority c") simp
next
  case (CmdFinish l completion)
  have "scan_leases c - {l} = scan_leases c" using CmdFinish f by (auto simp: scan_leases_def)
  then show ?thesis using CmdFinish finish_scan(1) [OF wf, of l completion] by (cases "finish l completion c") simp
next
  case (CmdRequeue l)
  then show ?thesis using requeue_scan [OF wf, of l] f by (cases "requeue l c") simp
next
  case (CmdFocus path)
  then show ?thesis using coord_wf_focus [OF wf, of path] scan_pending_fields [of "focus path c" c] scan_leases_fields [of "focus path c" c]
    by (simp add: scan_effect_def) (simp add: focus_def Let_def)
qed (use f wf in \<open>simp_all add: scan_effect_def\<close>)

text \<open>Any number of them, as long as lease numbers last.\<close>

lemma serve_foreign:
  "coord_wf c \<Longrightarrow> only_enumeration c \<Longrightarrow> \<forall>cmd \<in> set cmds. foreign_command cmd \<Longrightarrow>
    unat (sc_next_lease c) + length cmds < 2 ^ 64 - 1 \<Longrightarrow>
    \<exists>c'. snd (serve cmds (Some c)) = Some c' \<and> coord_wf c' \<and> scan_pending c' = scan_pending c \<and> scan_leases c' = scan_leases c \<and>
      sc_session c' = sc_session c \<and> sc_generation c' = sc_generation c \<and>
      unat (sc_next_lease c') \<le> unat (sc_next_lease c) + length cmds"
proof (induction cmds arbitrary: c)
  case (Cons cmd cmds)
  have max: "sc_next_lease c \<noteq> - 1" using Cons.prems(4) by (auto simp: unat_minus_one_word)
  obtain r d where d: "handle_command cmd c = (r, Some d)" "scan_effect c d (scan_pending c) (scan_leases c)"
    using foreign_effect [OF Cons.prems(1) max Cons.prems(2), of cmd] Cons.prems(3) by auto
  then have "only_enumeration d" "coord_wf d" "unat (sc_next_lease d) \<le> Suc (unat (sc_next_lease c))"
    using Cons.prems(2) by (simp_all add: only_enumeration_def scan_effect_def)
  with Cons.IH [of d] Cons.prems(3,4) d show ?case
    by (auto simp: session_call_Some scan_effect_def case_prod_beta intro: le_trans)
qed simp

end
