(* ===== verification/Scan_Scheduler_Spec.thy ===== *)
theory Scan_Scheduler_Spec
  imports Scan_Scheduler Scan_Work_View "HOL-Library.Multiset"
begin

text \<open>
  No directory is lost: \<open>sched_ok\<close> ties the pending directories of the coordinator to the tasks in
  the queue, its active leases to the workers that are busy, and counts every admitted directory as
  finished, leased or queued.  It holds in every round, whatever the other clients of the coordinator do
  in between (\<open>foreign_command\<close>), as long as lease numbers last: \<open>calls\<close> bounds how many have
  been used.  An error of the scheduler has a cause outside it (\<open>explained\<close>).
\<close>

section \<open>Paths\<close>

lemma component_kinds: "c \<in> set (concat (map segment_component ss)) \<Longrightarrow> c \<noteq> RootDir \<and> c \<noteq> CurDir"
  by (auto simp: segment_component_def split: if_splits)

lemma components_rooted: "has_root p \<Longrightarrow> \<exists>cs. components p = RootDir # cs \<and> RootDir \<notin> set cs \<and> CurDir \<notin> set cs"
proof -
  assume "has_root p"
  then obtain bs where "p = sep # bs" by (auto simp: has_root_def split: list.splits)
  then have "components p = RootDir # concat (map segment_component (segments bs))" by (simp add: components_def)
  then show ?thesis using component_kinds [of RootDir "segments bs"] component_kinds [of CurDir "segments bs"] by blast
qed

lemma components_join:
  assumes "has_root root" "relative_path_ok p"
  shows "components (path_push root (to_path_buf p)) = components root @ map Normal p"
proof -
  obtain bs where root: "root = sep # bs" using assms(1) by (auto simp: has_root_def split: list.splits)
  let ?b = "to_path_buf p"
  have seg: "concat (map segment_component (segments ?b)) = map Normal p"
  proof (cases "p = []")
    case True
    then show ?thesis by (simp add: to_path_buf_def segment_component_def)
  next
    case False
    then show ?thesis using to_path_buf_segments [OF assms(2)] concat_segment_components [OF assms(2)] by simp
  qed
  have nr: "\<not> has_root ?b"
    using components_to_path_buf [OF assms(2)] components_rooted [of ?b] by (cases p) auto
  show ?thesis
  proof (cases "last root = sep")
    case True
    show ?thesis
    proof (cases "bs = []")
      case True
      then show ?thesis using nr seg root by (simp add: path_push_def components_def segment_component_def)
    next
      case False
      then obtain cs where bs: "bs = cs @ [sep]" using root \<open>last root = sep\<close> by (metis append_butlast_last_id last_ConsR)
      then show ?thesis
        using nr seg root segments_append_sep [of cs "[]"] segments_append_sep [of cs ?b]
        by (simp add: path_push_def components_def segment_component_def)
    qed
  next
    case False
    then show ?thesis
      using nr seg root segments_append_sep [of bs ?b] by (simp add: path_push_def components_def)
  qed
qed

lemma collect_normal:
  "collect_components cs = Inr p \<Longrightarrow> CurDir \<notin> set cs \<Longrightarrow> cs = map Normal p"
  by (induction cs arbitrary: p rule: collect_components.induct) (auto simp: res_bind_Inr_iff)

definition enum_key :: "('io, 'j, 'b) sched_world \<Rightarrow> relative_path \<Rightarrow> work_key" where
  "enum_key w p = WorkKey (sw_session w) (sw_generation w) EnumerateDirectory p"

lemma enum_key_simps [simp]:
  "wk_path (enum_key w p) = p" "is_enumeration (enum_key w p)" "is_scan_work (wk_kind (enum_key w p))"
  "wk_session (enum_key w p) = sw_session w" "wk_generation (enum_key w p) = sw_generation w"
  "enum_key w p = enum_key w q \<longleftrightarrow> p = q"
  by (simp_all add: enum_key_def is_enumeration_def is_scan_work_def)

text \<open>The path of a task below the root.\<close>

definition task_rel :: "('io, 'j, 'b) sched_world \<Rightarrow> directory_task \<Rightarrow> relative_path option" where
  "task_rel w t = (case task_key w (dt_path t) of Inl _ \<Rightarrow> None | Inr k \<Rightarrow> Some (wk_path k))"

lemma task_key_Inr:
  assumes "task_key w path = Inr k" "has_root (sw_root w)"
  shows "\<exists>p. k = enum_key w p \<and> relative_path_ok p \<and> components path = components (sw_root w) @ map Normal p"
proof -
  obtain cs p where cs: "strip_prefix path (sw_root w) = Some cs" "collect_components cs = Inr p" "relative_path_ok p" "k = enum_key w p"
    using assms(1) by (auto simp: task_key_def relative_from_components_def res_bind_Inr_iff from_components_Inr enum_key_def)
  obtain rs where rs: "components (sw_root w) = RootDir # rs" using components_rooted [OF assms(2)] by blast
  have pre: "components path = components (sw_root w) @ cs"
    using cs(1) by (auto simp: strip_prefix_def path_starts_with_def prefix_def split: if_splits)
  then have "has_root path" using rs by (cases path) (auto simp: has_root_def components_def segment_component_def split: if_splits list.splits)
  then have "CurDir \<notin> set cs" using components_rooted [of path] pre rs by auto
  then show ?thesis using collect_normal [OF cs(2)] cs(3,4) pre by blast
qed

lemma task_rel_Some:
  assumes "has_root (sw_root w)"
  shows "task_rel w t = Some p \<longleftrightarrow> task_key w (dt_path t) = Inr (enum_key w p)"
  using task_key_Inr [OF _ assms] by (auto simp: task_rel_def split: sum.splits) fastforce

lemma task_rel_path:
  assumes "has_root (sw_root w)" "task_rel w t = Some p" "relative_path_ok q"
  shows "path_eq (dt_path t) (path_push (sw_root w) (to_path_buf q)) \<longleftrightarrow> p = q"
proof -
  obtain p' where "enum_key w p = enum_key w p'" "components (dt_path t) = components (sw_root w) @ map Normal p'"
    using task_key_Inr [OF _ assms(1), of "dt_path t" "enum_key w p"] assms(2) task_rel_Some [OF assms(1)] by blast
  then show ?thesis using components_join [OF assms(1,3)] by (auto simp: path_eq_def inj_map_eq_map inj_def)
qed

lemma task_rel_ok: "has_root (sw_root w) \<Longrightarrow> task_rel w t = Some p \<Longrightarrow> relative_path_ok p"
  using task_key_Inr [of w "dt_path t"] task_rel_Some [of w t p] by fastforce

lemma root_task:
  assumes "has_root (sw_root w)"
  shows "task_key w (sw_root w) = Inr (enum_key w [])"
  by (simp add: task_key_def strip_prefix_def path_starts_with_def relative_from_components_def from_components_def enum_key_def)

section \<open>Busy workers\<close>

fun busy :: "work_lease option list \<Rightarrow> work_lease list" where
  "busy [] = []"
| "busy (None # as) = busy as"
| "busy (Some l # as) = l # busy as"

lemma busy_assign: "i < length as \<Longrightarrow> as ! i = None \<Longrightarrow> mset (busy (as[i := Some l])) = add_mset l (mset (busy as))"
proof (induction as arbitrary: i)
  case (Cons a as)
  then show ?case by (cases a; cases i) simp_all
qed simp

lemma busy_release: "i < length as \<Longrightarrow> as ! i = Some l \<Longrightarrow> mset (busy as) = add_mset l (mset (busy (as[i := None])))"
proof (induction as arbitrary: i)
  case (Cons a as)
  then show ?case by (cases a; cases i) simp_all
qed simp

lemma busy_Nil: "busy as = [] \<longleftrightarrow> (\<forall>a \<in> set as. a = None)"
  by (induction as rule: busy.induct) simp_all

lemma busy_nth: "i < length as \<Longrightarrow> as ! i = Some l \<Longrightarrow> l \<in> set (busy as)"
proof (induction as arbitrary: i)
  case (Cons a as)
  then show ?case by (cases a; cases i) simp_all
qed simp

lemma busy_replicate [simp]: "busy (replicate n None) = []"
  by (induction n) simp_all

section \<open>Lease numbers\<close>

definition calls :: "('io, 'j, 'b) sched_world \<Rightarrow> nat \<Rightarrow> nat" where
  "calls w n = (\<Sum>i < n. Suc (length (sw_others w i)))"

lemma calls_Suc: "calls w (Suc n) = calls w n + Suc (length (sw_others w n))"
  by (simp add: calls_def)

lemma calls_mono: "m \<le> n \<Longrightarrow> calls w m \<le> calls w n"
  unfolding calls_def by (rule sum_mono2) auto

definition foreign_world :: "('io, 'j, 'b) sched_world \<Rightarrow> bool" where
  "foreign_world w \<longleftrightarrow> (\<forall>n. \<forall>cmd \<in> set (sw_others w n). foreign_command cmd)"

section \<open>The coordinator between calls\<close>

definition coord_ok :: "('io, 'j, 'b) sched_world \<Rightarrow> nat \<Rightarrow> nat \<Rightarrow> scan_coordinator \<Rightarrow> work_key set \<Rightarrow> work_lease set \<Rightarrow> bool" where
  "coord_ok w base n c P L \<longleftrightarrow> coord_wf c \<and> (\<forall>k \<in> P. is_enumeration k) \<and> scan_pending c = P \<and> scan_leases c = L \<and>
     sc_session c = sw_session w \<and> sc_generation c = sw_generation w \<and> unat (sc_next_lease c) \<le> base + calls w n"

definition sees :: "('io, 'j, 'b) sched_world \<Rightarrow> nat \<Rightarrow> ('io, 'j, 'b, 'p) scheduler \<Rightarrow> work_key set \<Rightarrow> work_lease set \<Rightarrow> bool" where
  "sees w base s P L \<longleftrightarrow> (\<exists>c. sd_coordinator s = Some c \<and> coord_ok w base (sd_clock s) c P L)"

definition ids_left :: "('io, 'j, 'b) sched_world \<Rightarrow> nat \<Rightarrow> ('io, 'j, 'b, 'p) scheduler \<Rightarrow> bool" where
  "ids_left w base s \<longleftrightarrow> base + calls w (sd_clock s) < 2 ^ 64 - 1"

lemma ids_left_mono: "ids_left w base s' \<Longrightarrow> sd_clock s \<le> sd_clock s' \<Longrightarrow> ids_left w base s"
  using calls_mono [of "sd_clock s" "sd_clock s'" w] by (simp add: ids_left_def)

lemma sees_clock: "sees w base s P L \<Longrightarrow> sd_coordinator s' = sd_coordinator s \<Longrightarrow> sd_clock s \<le> sd_clock s' \<Longrightarrow> sees w base s' P L"
  using calls_mono [of "sd_clock s" "sd_clock s'" w] by (auto simp: sees_def coord_ok_def)

text \<open>A call finds the scan work as it was left.\<close>

lemma coordinate_call:
  assumes "coordinate w call s = (r, s')" "sees w base s P L" "foreign_world w" "ids_left w base s'"
  obtains c where "call (Some c) = (r, sd_coordinator s')" "coord_wf c" "\<forall>k \<in> P. is_enumeration k" "scan_pending c = P" "scan_leases c = L"
    "sc_session c = sw_session w" "sc_generation c = sw_generation w" "sc_next_lease c \<noteq> - 1"
    "unat (sc_next_lease c) < base + calls w (Suc (sd_clock s))" "s' = s\<lparr>sd_coordinator := sd_coordinator s', sd_clock := Suc (sd_clock s)\<rparr>"
proof -
  obtain d where d: "sd_coordinator s = Some d" "coord_ok w base (sd_clock s) d P L" using assms(2) by (auto simp: sees_def)
  let ?o = "sw_others w (sd_clock s)"
  have s': "s' = s\<lparr>sd_coordinator := sd_coordinator s', sd_clock := Suc (sd_clock s)\<rparr>"
    "call (snd (serve ?o (Some d))) = (r, sd_coordinator s')"
    using assms(1) d(1) by (auto simp: coordinate_def tick_def split: prod.splits)
  have "sd_clock s' = Suc (sd_clock s)" using assms(1) by (auto simp: coordinate_def tick_def split: prod.splits)
  then have lim: "base + calls w (Suc (sd_clock s)) < 2 ^ 64 - 1" using assms(4) by (simp add: ids_left_def)
  obtain c where c: "snd (serve ?o (Some d)) = Some c \<and> coord_wf c \<and> scan_pending c = scan_pending d \<and> scan_leases c = scan_leases d \<and>
      sc_session c = sc_session d \<and> sc_generation c = sc_generation d \<and> unat (sc_next_lease c) \<le> unat (sc_next_lease d) + length ?o"
    using serve_foreign [of d ?o] d(2) lim assms(3) by (auto simp: coord_ok_def only_enumeration_def foreign_world_def calls_Suc)
  then have lt: "unat (sc_next_lease c) < base + calls w (Suc (sd_clock s))" using d(2) by (simp add: coord_ok_def calls_Suc)
  have "sc_next_lease c \<noteq> - 1" using lt lim by (auto simp: unat_minus_one_word)
  with c s' d(2) lt show ?thesis by (intro that [of c]) (auto simp: coord_ok_def)
qed

lemma scan_effect_sees:
  assumes "scan_effect c c' P' L'" "\<forall>k \<in> P'. is_enumeration k" "sd_coordinator s' = Some c'" "sd_clock s' = Suc n"
    "sc_session c = sw_session w" "sc_generation c = sw_generation w" "unat (sc_next_lease c) < base + calls w (Suc n)"
  shows "sees w base s' P' L'"
  using assms by (auto simp: sees_def coord_ok_def scan_effect_def)

definition coordinated :: "('io, 'j, 'b, 'p) scheduler \<Rightarrow> ('io, 'j, 'b, 'p) scheduler \<Rightarrow> bool" where
  "coordinated s s' \<longleftrightarrow> sd_queue s' = sd_queue s \<and> sd_active s' = sd_active s \<and> sd_root_invalidated s' = sd_root_invalidated s \<and>
     sd_failed s' = sd_failed s \<and> sd_trace s' = sd_trace s \<and> sd_clock s' = Suc (sd_clock s)"

lemma coordinate_coordinated: "coordinate w call s = (r, s') \<Longrightarrow> coordinated s s'"
  by (auto simp: coordinate_def tick_def coordinated_def split: prod.splits)

lemma coordinate_unit_coordinated: "coordinated s (coordinate_unit w call s)"
  unfolding coordinate_unit_def by (rule coordinate_coordinated [where r = "()"]) (simp add: prod_eq_iff)

lemma register_call:
  assumes co: "coordinate w (session_register (enum_key w p) pr) s = (r, s')" and s: "sees w base s P L" "foreign_world w" "ids_left w base s'"
  obtains (new) "r = Inr Enqueued" "enum_key w p \<notin> P" "\<forall>l \<in> L. wl_key l \<noteq> enum_key w p" "sees w base s' (insert (enum_key w p) P) L"
  | (known) out where "r = Inr out" "out \<in> {PriorityRaised, AlreadyPending, AlreadyLeased}"
      "enum_key w p \<in> P \<or> (\<exists>l \<in> L. wl_key l = enum_key w p)" "sees w base s' P L"
proof (rule coordinate_call [OF co s])
  fix c
  let ?k = "enum_key w p"
  assume c: "session_register ?k pr (Some c) = (r, sd_coordinator s')" "coord_wf c" "\<forall>k \<in> P. is_enumeration k" "scan_pending c = P"
    "scan_leases c = L" "sc_session c = sw_session w" "sc_generation c = sw_generation w" "sc_next_lease c \<noteq> - 1"
    "unat (sc_next_lease c) < base + calls w (Suc (sd_clock s))" "s' = s\<lparr>sd_coordinator := sd_coordinator s', sd_clock := Suc (sd_clock s)\<rparr>"
  obtain out c' where o: "schedule ?k pr c = (out, c')" by fastforce
  have r: "r = Inr out" "sd_coordinator s' = Some c'" using c(1) o by (simp_all add: session_calls)
  have clk: "sd_clock s' = Suc (sd_clock s)" using coordinate_coordinated [OF co] by (simp add: coordinated_def)
  note sc = schedule_scan [OF c(2) o]
  show ?thesis
  proof (cases "out = Enqueued")
    case True
    have "sees w base s' (insert ?k P) L"
      using scan_effect_sees [OF sc(1) _ r(2) clk c(6,7,9)] True c(3-5) by simp
    moreover have "?k \<notin> P" using sc(2) [OF True] c(4) by (auto simp: scan_pending_def)
    moreover have "\<forall>l \<in> L. wl_key l \<noteq> ?k"
    proof
      fix l
      assume "l \<in> L"
      then have "sc_active_by_key c (wl_key l) = Some (wl_id l)"
        using c(5) act_inv_index [OF coord_wfD(2) [OF c(2)]] by (auto simp: scan_leases_def)
      then show "wl_key l \<noteq> ?k" using sc(2) [OF True] by auto
    qed
    ultimately show ?thesis using new r True by blast
  next
    case False
    then have "out \<in> {PriorityRaised, AlreadyPending, AlreadyLeased}" using sc(3) c(6,7) by (cases out) auto
    moreover have "sees w base s' P L"
      using scan_effect_sees [OF sc(1) _ r(2) clk c(6,7,9)] False c(3-5) by simp
    moreover have "om_get (sc_pending c) ?k \<noteq> None \<or> sc_active_by_key c ?k \<noteq> None"
      using o False c(6,7) by (auto simp: schedule_def Let_def split: if_splits option.splits)
    then have "?k \<in> P \<or> (\<exists>l \<in> L. wl_key l = ?k)"
    proof
      assume "om_get (sc_pending c) ?k \<noteq> None"
      then show ?thesis using c(4) by (auto simp: scan_pending_def)
    next
      assume "sc_active_by_key c ?k \<noteq> None"
      then obtain i where "sc_active_by_key c ?k = Some i" by blast
      then obtain l where l: "om_get (sc_active c) i = Some l" "wl_key l = ?k"
        using act_inv_index [OF coord_wfD(2) [OF c(2)]] by blast
      then have "om_get (sc_active c) (wl_id l) = Some l" using act_inv_id [OF coord_wfD(2) [OF c(2)]] by simp
      then show ?thesis using c(5) l(2) by (auto simp: scan_leases_def)
    qed
    ultimately show ?thesis using known r by blast
  qed
qed

lemma lease_call:
  assumes co: "coordinate w session_lease_next_scan s = (r, s')" and s: "sees w base s P L" "foreign_world w" "ids_left w base s'"
  obtains (none) "r = Inr None" "sees w base s' P L"
  | (lease) l where "r = Inr (Some l)" "wl_key l \<in> P" "l \<notin> L" "sees w base s' (P - {wl_key l}) (insert l L)"
proof (rule coordinate_call [OF co s])
  fix c
  assume c: "session_lease_next_scan (Some c) = (r, sd_coordinator s')" "coord_wf c" "\<forall>k \<in> P. is_enumeration k" "scan_pending c = P"
    "scan_leases c = L" "sc_session c = sw_session w" "sc_generation c = sw_generation w" "sc_next_lease c \<noteq> - 1"
    "unat (sc_next_lease c) < base + calls w (Suc (sd_clock s))" "s' = s\<lparr>sd_coordinator := sd_coordinator s', sd_clock := Suc (sd_clock s)\<rparr>"
  obtain out c' where o: "lease_next_scan c = (out, c')" by fastforce
  have r: "r = Inr out" "sd_coordinator s' = Some c'" using c(1) o by (simp_all add: session_calls)
  have clk: "sd_clock s' = Suc (sd_clock s)" using coordinate_coordinated [OF co] by (simp add: coordinated_def)
  have only: "only_enumeration c" using c(3,4) by (simp add: only_enumeration_def)
  note le = lease_next_scan_effect [OF c(2,8) only o]
  show ?thesis
  proof (cases out)
    case None
    then have "scan_effect c c' P L" using le c(2,4,5) by (simp add: scan_effect_def)
    then show ?thesis using none r None scan_effect_sees [OF _ c(3) r(2) clk c(6,7,9)] by simp
  next
    case (Some l)
    then have "wl_key l \<in> P" "l \<notin> L" "scan_effect c c' (P - {wl_key l}) (insert l L)"
      using le c(4,5) by (auto simp: scan_leases_def simp del: active_leases_simps)
    then show ?thesis using lease r Some scan_effect_sees [OF _ _ r(2) clk c(6,7,9)] c(3) by simp
  qed
qed

lemma finish_call:
  assumes co: "coordinate w (session_finish l completion) s = (r, s')" and s: "sees w base s P L" "foreign_world w" "ids_left w base s'"
    and enum: "is_enumeration (wl_key l)"
  obtains out where "r = Inr out" "out = Accepted \<longleftrightarrow> l \<in> L" "sees w base s' P (L - {l})"
proof (rule coordinate_call [OF co s])
  fix c
  assume c: "session_finish l completion (Some c) = (r, sd_coordinator s')" "coord_wf c" "\<forall>k \<in> P. is_enumeration k" "scan_pending c = P"
    "scan_leases c = L" "sc_session c = sw_session w" "sc_generation c = sw_generation w" "sc_next_lease c \<noteq> - 1"
    "unat (sc_next_lease c) < base + calls w (Suc (sd_clock s))" "s' = s\<lparr>sd_coordinator := sd_coordinator s', sd_clock := Suc (sd_clock s)\<rparr>"
  have r: "r = Inr (fst (finish l completion c))" "sd_coordinator s' = Some (snd (finish l completion c))"
    using c(1) by (auto simp: session_calls map_prod_def case_prod_beta)
  have clk: "sd_clock s' = Suc (sd_clock s)" using coordinate_coordinated [OF co] by (simp add: coordinated_def)
  have "fst (finish l completion c) = Accepted \<longleftrightarrow> l \<in> L"
    using finish_scan(2) [OF c(2), of l completion] c(5) enum by (auto simp: scan_leases_def)
  then show ?thesis
    using that r scan_effect_sees [OF finish_scan(1) [OF c(2)] _ r(2) clk c(6,7,9)] c(3-5) by simp
qed

text \<open>Ending all directory work, and a focus request.\<close>

lemma terminate_call:
  assumes s: "sees w base s P L" "foreign_world w" "ids_left w base (coordinate_unit w call s)"
    and call: "\<And>c. call (Some c) = Some (terminate_matching lc is_enumeration c)"
  shows "sees w base (coordinate_unit w call s) {} {}"
proof -
  let ?s = "coordinate_unit w call s"
  have co: "coordinate w (\<lambda>c. ((), call c)) s = ((), ?s)" by (simp add: coordinate_unit_def prod_eq_iff)
  show ?thesis
  proof (rule coordinate_call [OF co s])
    fix c
    assume c: "((), call (Some c)) = ((), sd_coordinator ?s)" "coord_wf c" "\<forall>k \<in> P. is_enumeration k" "scan_pending c = P"
      "sc_session c = sw_session w" "sc_generation c = sw_generation w" "unat (sc_next_lease c) < base + calls w (Suc (sd_clock s))"
    have clk: "sd_clock ?s = Suc (sd_clock s)" using coordinate_coordinated [OF co] by (simp add: coordinated_def)
    have "only_enumeration c" using c(3,4) by (simp add: only_enumeration_def)
    from terminate_scan [OF c(2) this, of lc] show ?thesis
      using scan_effect_sees [OF _ _ _ clk c(5-7), of "terminate_matching lc is_enumeration c" "{}" "{}"] c(1) call by simp
  qed
qed

lemma focus_call:
  assumes s: "sees w base s P L" "foreign_world w" "ids_left w base (coordinate_unit w (session_focus path) s)"
  shows "sees w base (coordinate_unit w (session_focus path) s) P L"
proof -
  let ?s = "coordinate_unit w (session_focus path) s"
  have co: "coordinate w (\<lambda>c. ((), session_focus path c)) s = ((), ?s)" by (simp add: coordinate_unit_def prod_eq_iff)
  show ?thesis
  proof (rule coordinate_call [OF co s])
    fix c
    assume c: "((), session_focus path (Some c)) = ((), sd_coordinator ?s)" "coord_wf c" "\<forall>k \<in> P. is_enumeration k" "scan_pending c = P"
      "scan_leases c = L" "sc_session c = sw_session w" "sc_generation c = sw_generation w" "sc_next_lease c \<noteq> - 1"
      "unat (sc_next_lease c) < base + calls w (Suc (sd_clock s))"
    have clk: "sd_clock ?s = Suc (sd_clock s)" using coordinate_coordinated [OF co] by (simp add: coordinated_def)
    have "only_enumeration c" using c(3,4) by (simp add: only_enumeration_def)
    then have "scan_effect c (focus path c) P L"
      using foreign_effect [OF c(2,8) _, of "CmdFocus path"] c(4,5) by auto
    then show ?thesis using scan_effect_sees [OF _ c(3) _ clk c(6,7,9)] c(1) by (simp add: session_calls)
  qed
qed

lemmas scan_work_calls = session_calls cancel_scan_work_def fail_scan_work_def invalidate_scan_work_def

section \<open>The invariant\<close>

definition admitted :: "('io, 'j, 'b, 'p) sched_action list \<Rightarrow> relative_path list" where
  "admitted tr = concat (map (\<lambda>a. case a of Admitted p \<Rightarrow> [p] | _ \<Rightarrow> []) tr)"

definition lease_path :: "work_lease \<Rightarrow> relative_path" where
  "lease_path l = wk_path (wl_key l)"

definition finished :: "('io, 'j, 'b, 'p) sched_action list \<Rightarrow> relative_path list" where
  "finished tr = concat (map (\<lambda>a. case a of Finished _ l _ \<Rightarrow> [lease_path l] | _ \<Rightarrow> []) tr)"

lemma trace_simps [simp]:
  "admitted [] = []" "finished [] = []"
  "admitted (tr @ [a]) = admitted tr @ (case a of Admitted p \<Rightarrow> [p] | _ \<Rightarrow> [])"
  "finished (tr @ [a]) = finished tr @ (case a of Finished _ l _ \<Rightarrow> [lease_path l] | _ \<Rightarrow> [])"
  by (simp_all add: admitted_def finished_def)

definition rels :: "('io, 'j, 'b) sched_world \<Rightarrow> directory_task list \<Rightarrow> relative_path list" where
  "rels w ts = map (\<lambda>t. the (task_rel w t)) ts"

text \<open>
  The scan work of the coordinator is the queue and the busy workers; once the root was found invalid
  no lease is left, and only directories that are admitted after that are pending.
\<close>

definition sched_inv :: "('io, 'j, 'b) sched_world \<Rightarrow> nat \<Rightarrow> ('io, 'j, 'b, 'p) scheduler \<Rightarrow> directory_task list \<Rightarrow> bool" where
  "sched_inv w base s ts \<longleftrightarrow>
     (if sd_root_invalidated s then \<exists>P. sees w base s P {}
      else sees w base s (enum_key w ` set (rels w ts)) (set (busy (sd_active s))) \<and> distinct (rels w ts)) \<and>
     queue_holds (journal_holds (sw_codec w)) (sd_queue s) (length (busy (sd_active s))) ts \<and>
     (\<forall>t \<in> set ts. task_rel w t \<noteq> None) \<and> distinct (busy (sd_active s)) \<and>
     (\<forall>l \<in> set (busy (sd_active s)). is_enumeration (wl_key l)) \<and>
     mset (admitted (sd_trace s)) = mset (finished (sd_trace s)) + mset (map lease_path (busy (sd_active s))) + mset (rels w ts)"

definition sched_ok :: "('io, 'j, 'b) sched_world \<Rightarrow> nat \<Rightarrow> ('io, 'j, 'b, 'p) scheduler \<Rightarrow> bool" where
  "sched_ok w base s \<longleftrightarrow> (\<exists>ts. sched_inv w base s ts)"

text \<open>Errors and their causes.\<close>

definition explained :: "('io, 'j, 'b) sched_world \<Rightarrow> bool \<Rightarrow> ('io, 'j, 'b) scheduler_error \<Rightarrow> bool" where
  "explained w invalidated e = (case e of
      MissingTask \<Rightarrow> \<exists>n. sw_stopping w n
    | JournalUnreadable x \<Rightarrow> queue_fault (file_error (sw_os w)) x
    | CompletionRejected \<Rightarrow> invalidated
    | CoordinatorGone _ \<Rightarrow> False
    | TaskNotCurrent \<Rightarrow> False
    | ChannelsInconsistent \<Rightarrow> False
    | RootNotAdmitted \<Rightarrow> False
    | _ \<Rightarrow> True)"

definition stopped_by :: "('io, 'j, 'b) sched_world \<Rightarrow> nat \<Rightarrow> bool \<Rightarrow> ('io, 'j, 'b) scheduler_error \<Rightarrow> ('io, 'j, 'b, 'p) scheduler \<Rightarrow> bool" where
  "stopped_by w base invalidated e s \<longleftrightarrow> explained w invalidated e \<and> (\<exists>P L. sees w base s P L)"

lemma stopped_byI: "sees w base s P L \<Longrightarrow> explained w i e \<Longrightarrow> stopped_by w base i e s"
  by (auto simp: stopped_by_def)

lemma rels_simps [simp]: "rels w [] = []" "rels w (t # ts) = the (task_rel w t) # rels w ts" "rels w (ts @ us) = rels w ts @ rels w us"
  by (simp_all add: rels_def)

lemma mset_remove_first: "List.find P ts = Some u \<Longrightarrow> mset ts = add_mset u (mset (remove_first P ts))"
  by (induction ts) (auto split: if_splits)

lemma mset_rels: "mset (rels w ts) = image_mset (\<lambda>t. the (task_rel w t)) (mset ts)"
  by (simp add: rels_def)

text \<open>Steps that touch neither the coordinator nor the queue.\<close>

lemma sched_inv_step:
  assumes "sched_inv w base s ts" "sd_coordinator s' = sd_coordinator s" "sd_queue s' = sd_queue s" "sd_active s' = sd_active s"
    "sd_root_invalidated s' = sd_root_invalidated s" "sd_clock s \<le> sd_clock s'"
    "admitted (sd_trace s') = admitted (sd_trace s)" "finished (sd_trace s') = finished (sd_trace s)"
  shows "sched_inv w base s' ts"
proof -
  have keep: "sees w base s P L \<Longrightarrow> sees w base s' P L" for P L by (rule sees_clock [OF _ assms(2,6)])
  show ?thesis using assms keep by (cases "sd_root_invalidated s") (auto simp: sched_inv_def)
qed

text \<open>Leasing the next directory: the lease of a queued task, which leaves the queue.\<close>

definition leased :: "('io, 'j, 'b) sched_world \<Rightarrow> nat \<Rightarrow> ('io, 'j, 'b, 'p) scheduler \<Rightarrow> leased_directory_task \<Rightarrow> directory_task list \<Rightarrow> bool" where
  "leased w base s a ts \<longleftrightarrow> task_rel w (ld_task a) = Some (lease_path (ld_lease a)) \<and> is_enumeration (wl_key (ld_lease a)) \<and>
     ld_lease a \<notin> set (busy (sd_active s)) \<and>
     sees w base s (enum_key w ` set (rels w ts)) (insert (ld_lease a) (set (busy (sd_active s)))) \<and>
     queue_holds (journal_holds (sw_codec w)) (sd_queue s) (Suc (length (busy (sd_active s)))) ts \<and>
     (\<forall>t \<in> set ts. task_rel w t \<noteq> None) \<and> distinct (rels w ts) \<and> distinct (busy (sd_active s)) \<and>
     (\<forall>l \<in> set (busy (sd_active s)). is_enumeration (wl_key l)) \<and>
     mset (admitted (sd_trace s)) = mset (finished (sd_trace s)) + mset (map lease_path (busy (sd_active s))) +
       add_mset (lease_path (ld_lease a)) (mset (rels w ts))"

lemma leased_assign:
  assumes "leased w base s a ts" "worker < length (sd_active s)" "sd_active s ! worker = None" "\<not> sd_root_invalidated s"
    "sd_coordinator s' = sd_coordinator s" "sd_queue s' = sd_queue s" "sd_active s' = (sd_active s)[worker := Some (ld_lease a)]"
    "\<not> sd_root_invalidated s'" "sd_clock s \<le> sd_clock s'" "admitted (sd_trace s') = admitted (sd_trace s)"
    "finished (sd_trace s') = finished (sd_trace s)"
  shows "sched_inv w base s' ts"
proof -
  have b: "mset (busy (sd_active s')) = add_mset (ld_lease a) (mset (busy (sd_active s)))"
    using busy_assign [OF assms(2,3)] assms(7) by simp
  then have "set (busy (sd_active s')) = insert (ld_lease a) (set (busy (sd_active s)))"
    "length (busy (sd_active s')) = Suc (length (busy (sd_active s)))" "distinct (busy (sd_active s'))"
    "mset (map lease_path (busy (sd_active s'))) = add_mset (lease_path (ld_lease a)) (mset (map lease_path (busy (sd_active s))))"
    using assms(1) mset_eq_setD [of "busy (sd_active s')" "ld_lease a # busy (sd_active s)"]
      mset_eq_length [of "busy (sd_active s')" "ld_lease a # busy (sd_active s)"]
      mset_eq_imp_distinct_iff [of "busy (sd_active s')" "ld_lease a # busy (sd_active s)"]
    by (simp_all add: leased_def)
  then show ?thesis using assms sees_clock [OF _ assms(5,9)] by (simp add: leased_def sched_inv_def)
qed

lemma lease_task_ok:
  assumes inv: "sched_inv w base s ts" and run: "\<not> sd_root_invalidated s" and lt: "lease_task w s = (r, s')"
    and env: "has_root (sw_root w)" "foreign_world w" "ids_left w base s'"
  shows "sd_active s' = sd_active s \<and> \<not> sd_root_invalidated s' \<and> (case r of Inl e \<Rightarrow> stopped_by w base False e s'
    | Inr None \<Rightarrow> sched_inv w base s' ts
    | Inr (Some a) \<Rightarrow> \<exists>ts'. leased w base s' a ts')"
proof -
  obtain r1 s1 where co: "coordinate w session_lease_next_scan s = (r1, s1)" by fastforce
  note co1 = coordinate_coordinated [OF co, unfolded coordinated_def]
  have clk: "sd_clock s1 \<le> sd_clock s'"
    using lt co by (auto simp: lease_task_def Let_def tick_def coordinate_def split: prod.splits sum.splits option.splits)
  have sees: "sees w base s (enum_key w ` set (rels w ts)) (set (busy (sd_active s)))" using inv run by (simp add: sched_inv_def)
  from co sees env(2) ids_left_mono [OF env(3) clk] show ?thesis
  proof (cases rule: lease_call)
    case none
    then have "r = Inr None" "s' = s1" using lt co by (auto simp: lease_task_def)
    then show ?thesis using none(2) co1 inv run by (simp add: sched_inv_def)
  next
    case (lease l)
    obtain p where p: "p \<in> set (rels w ts)" "wl_key l = enum_key w p" using lease(2) by blast
    then obtain t where t: "t \<in> set ts" "task_rel w t = Some p" using inv by (auto simp: rels_def sched_inv_def)
    have pok: "relative_path_ok p" by (rule task_rel_ok [OF env(1) t(2)])
    let ?path = "path_push (sw_root w) (to_path_buf p)" and ?s = "tick s1" and ?n = "length (busy (sd_active s))"
    let ?stop = "sw_stopping w (sd_clock s1)"
    have q: "queue_holds (journal_holds (sw_codec w)) (sd_queue ?s) ?n ts" using inv co1 by (simp add: sched_inv_def tick_def)
    have seen: "sees w base ?s (enum_key w ` set (rels w ts) - {wl_key l}) (insert l (set (busy (sd_active s))))"
      by (rule sees_clock [OF lease(4)]) (simp_all add: tick_def)
    have lt': "lease_task w s = (case queue_take_path (sw_codec w) (sw_os w) ?stop ?path (sd_queue ?s) of
             Inl e \<Rightarrow> (Inl (JournalUnreadable e), ?s)
           | Inr (None, q) \<Rightarrow>
               (Inl MissingTask, snd (coordinate w (session_finish l Failed) (?s\<lparr>sd_queue := q\<rparr>)))
           | Inr (Some task, q) \<Rightarrow> (Inr (Some \<lparr>ld_task = task, ld_lease = l\<rparr>), ?s\<lparr>sd_queue := q\<rparr>))"
      using co lease(1) p(2) by (simp add: lease_task_def Let_def)
    have missing: ?thesis if mr: "r = Inl MissingTask" "s' = snd (coordinate w (session_finish l Failed) (?s\<lparr>sd_queue := q\<rparr>))" "?stop" for q
    proof -
      obtain r2 where co2: "coordinate w (session_finish l Failed) (?s\<lparr>sd_queue := q\<rparr>) = (r2, s')" using mr(2) by (metis prod.collapse)
      have "sees w base (?s\<lparr>sd_queue := q\<rparr>) (enum_key w ` set (rels w ts) - {wl_key l}) (insert l (set (busy (sd_active s))))"
        by (rule sees_clock [OF seen]) simp_all
      then obtain P L where "sees w base s' P L"
        using finish_call [OF co2 _ env(2,3)] p(2) by (metis enum_key_simps(2))
      then show ?thesis using mr(1,3) coordinate_coordinated [OF co2] co1 run
        by (auto simp: stopped_by_def explained_def coordinated_def tick_def)
    qed
    show ?thesis
    proof (cases "?stop")
      case True
      then have "queue_take_path (sw_codec w) (sw_os w) ?stop ?path (sd_queue ?s) = Inr (None, sd_queue ?s)"
        using scan_queue.qtake_stopping by simp
      then show ?thesis using lt lt' missing [of "sd_queue ?s"] True by simp
    next
      case False
      have eqp: "path_eq (dt_path t) ?path" using task_rel_path [OF env(1) t(2) pok] by simp
      note found = scan_queue.qtake_found [OF q t(1) eqp, where os = "sw_os w"]
      show ?thesis
      proof (cases "queue_take_path (sw_codec w) (sw_os w) False ?path (sd_queue ?s)")
        case (Inl e)
        then have "r = Inl (JournalUnreadable e)" "s' = ?s" "queue_fault (file_error (sw_os w)) e" using found lt lt' False by simp_all
        then show ?thesis using seen co1 run by (auto simp: stopped_by_def explained_def tick_def)
      next
        case (Inr x)
        obtain o1 q' where x: "x = (o1, q')" by (cases x)
        let ?ts = "remove_first (\<lambda>t. path_eq (dt_path t) ?path) ts"
        obtain u where u: "o1 = Some u" "List.find (\<lambda>t. path_eq (dt_path t) ?path) ts = Some u"
          "queue_holds (journal_holds (sw_codec w)) q' (Suc ?n) ?ts" using found Inr x by auto
        have r: "r = Inr (Some \<lparr>ld_task = u, ld_lease = l\<rparr>)" "s' = ?s\<lparr>sd_queue := q'\<rparr>" using lt lt' Inr x u(1) False by simp_all
        have uts: "u \<in> set ts" "path_eq (dt_path u) ?path" using find_Some_in [OF u(2)] by simp_all
        then obtain p' where "task_rel w u = Some p'" using inv by (auto simp: sched_inv_def)
        then have up: "task_rel w u = Some p" using task_rel_path [OF env(1) _ pok] uts(2) by simp
        have m: "mset (rels w ts) = add_mset p (mset (rels w ?ts))"
          using mset_remove_first [OF u(2)] up by (simp add: mset_rels)
        have d: "distinct (p # rels w ?ts)"
          using inv run m mset_eq_imp_distinct_iff [of "rels w ts" "p # rels w ?ts"] by (simp add: sched_inv_def)
        have st: "set (rels w ts) = insert p (set (rels w ?ts))" using mset_eq_setD [of "rels w ts" "p # rels w ?ts"] m by simp
        have keys: "enum_key w ` set (rels w ts) - {wl_key l} = enum_key w ` set (rels w ?ts)" using st d p(2) by auto
        have lp: "lease_path l = p" using p(2) by (simp add: lease_path_def)
        have rel: "\<forall>t \<in> set ?ts. task_rel w t \<noteq> None"
          using inv subsetD [OF set_remove_first_subset, of _ "\<lambda>t. path_eq (dt_path t) ?path" ts] by (simp add: sched_inv_def)
        have seen': "sees w base s' (enum_key w ` set (rels w ?ts)) (insert l (set (busy (sd_active s))))"
          using sees_clock [OF seen, of s'] r(2) keys by simp
        have "leased w base s' \<lparr>ld_task = u, ld_lease = l\<rparr> ?ts"
          unfolding leased_def using up lp p(2) lease(3) u(3) r(2) co1 inv d m rel seen' by (simp add: sched_inv_def tick_def)
        then show ?thesis using r co1 run by (auto simp: tick_def)
      qed
    qed
  qed
qed

section \<open>Dispatching\<close>

lemma lease_task_clock: "lease_task w s = (r, s') \<Longrightarrow> sd_clock s \<le> sd_clock s'"
  by (auto simp: lease_task_def Let_def tick_def coordinate_def split: prod.splits sum.splits option.splits)

lemma act_tick_simps [simp]:
  "sd_coordinator (act a s) = sd_coordinator s" "sd_queue (act a s) = sd_queue s" "sd_active (act a s) = sd_active s"
  "sd_root_invalidated (act a s) = sd_root_invalidated s" "sd_clock (act a s) = sd_clock s" "sd_trace (act a s) = sd_trace s @ [a]"
  "sd_coordinator (tick s) = sd_coordinator s" "sd_queue (tick s) = sd_queue s" "sd_active (tick s) = sd_active s"
  "sd_root_invalidated (tick s) = sd_root_invalidated s" "sd_clock (tick s) = Suc (sd_clock s)" "sd_trace (tick s) = sd_trace s"
  by (simp_all add: act_def tick_def)

lemma dispatch_workers_clock: "dispatch_workers w ws s = (r, s') \<Longrightarrow> sd_clock s \<le> sd_clock s'"
proof (induction w ws s rule: dispatch_workers.induct)
  case (2 w worker workers s)
  show ?case
  proof (cases "sd_active s ! worker = None")
    case False
    then show ?thesis using 2 by simp
  next
    case True
    obtain r1 s1 where l: "lease_task w s = (r1, s1)" by fastforce
    note c = lease_task_clock [OF l]
    show ?thesis
    proof (cases "\<exists>a. r1 = Inr (Some a) \<and> sw_send w (sd_clock s1) = SendOk")
      case True
      then obtain a where a: "r1 = Inr (Some a)" "sw_send w (sd_clock s1) = SendOk" by blast
      let ?t = "act (Assigned worker a) ((tick s1)\<lparr>sd_active := (sd_active s1)[worker := Some (ld_lease a)]\<rparr>)"
      have "dispatch_workers w workers ?t = (r, s')" using 2(3) \<open>sd_active s ! worker = None\<close> l a by simp
      then have "sd_clock ?t \<le> sd_clock s'"
        using 2(2) [of r1 s1] \<open>sd_active s ! worker = None\<close> l a by simp
      then show ?thesis using c by simp
    next
      case False
      then show ?thesis using 2(3) True l c
        by (auto simp: Let_def split: sum.splits option.splits send_outcome.splits)
    qed
  qed
qed simp

lemma stopped_by_leased: "leased w base s a ts \<Longrightarrow> explained w False e \<Longrightarrow> stopped_by w base False e (tick s)"
  using sees_clock [of w base s _ _ "tick s"] by (auto simp: stopped_by_def leased_def)

lemma dispatch_workers_ok:
  assumes env: "has_root (sw_root w)" "foreign_world w"
  shows "sched_ok w base s \<Longrightarrow> \<not> sd_root_invalidated s \<Longrightarrow> dispatch_workers w ws s = (r, s') \<Longrightarrow>
    \<forall>i \<in> set ws. i < length (sd_active s) \<Longrightarrow> ids_left w base s' \<Longrightarrow>
    \<not> sd_root_invalidated s' \<and> (case r of Inl e \<Rightarrow> stopped_by w base False e s' | Inr _ \<Rightarrow> sched_ok w base s')"
proof (induction ws arbitrary: s)
  case Nil
  then show ?case by auto
next
  case (Cons worker workers)
  show ?case
  proof (cases "sd_active s ! worker = None")
    case False
    then show ?thesis using Cons by simp
  next
    case True
    obtain ts where inv: "sched_inv w base s ts" using Cons.prems(1) by (auto simp: sched_ok_def)
    obtain r1 s1 where l: "lease_task w s = (r1, s1)" by fastforce
    have le: "sd_clock s1 \<le> sd_clock s'"
    proof (cases "\<exists>a. r1 = Inr (Some a) \<and> sw_send w (sd_clock s1) = SendOk")
      case sent: True
      then obtain a where a: "r1 = Inr (Some a)" "sw_send w (sd_clock s1) = SendOk" by blast
      let ?t = "act (Assigned worker a) ((tick s1)\<lparr>sd_active := (sd_active s1)[worker := Some (ld_lease a)]\<rparr>)"
      have "dispatch_workers w workers ?t = (r, s')" using Cons.prems(3) True l a by simp
      then show ?thesis using dispatch_workers_clock [of w workers ?t] by simp
    next
      case False
      then show ?thesis using Cons.prems(3) True l
        by (auto simp: Let_def split: sum.splits option.splits send_outcome.splits)
    qed
    note lt = lease_task_ok [OF inv Cons.prems(2) l env ids_left_mono [OF Cons.prems(5) le]]
    show ?thesis
    proof (cases r1)
      case (Inl e)
      then show ?thesis using Cons.prems(3) True l lt by auto
    next
      case (Inr o1)
      show ?thesis
      proof (cases o1)
        case None
        then show ?thesis using Cons.prems(3) True l lt Inr by (auto simp: sched_ok_def)
      next
        case (Some a)
        obtain ts' where ls: "leased w base s1 a ts'" using lt Inr Some by auto
        let ?t = "act (Assigned worker a) ((tick s1)\<lparr>sd_active := (sd_active s1)[worker := Some (ld_lease a)]\<rparr>)"
        show ?thesis
        proof (cases "sw_send w (sd_clock s1)")
          case SendOk
          have "sched_inv w base ?t ts'"
            by (rule leased_assign [OF ls, of worker]) (use lt Cons.prems(4) True in simp_all)
          then show ?thesis using Cons.IH [of ?t] Cons.prems(3,4,5) True l Inr Some SendOk lt by (auto simp: sched_ok_def)
        next
          case SendFull
          then show ?thesis using Cons.prems(3) True l Inr Some lt stopped_by_leased [OF ls, of WorkerAlreadyBusy]
            by (auto simp: Let_def explained_def)
        next
          case SendDisconnected
          then show ?thesis using Cons.prems(3) True l Inr Some lt stopped_by_leased [OF ls, of AssignmentDisconnected]
            by (auto simp: Let_def explained_def)
        qed
      qed
    qed
  qed
qed

section \<open>Completions and reports\<close>

lemma sched_inv_sees: "sched_inv w base s ts \<Longrightarrow> \<exists>P L. sees w base s P L"
  by (auto simp: sched_inv_def split: if_splits)

lemma active_lease_Some: "active_lease worker s = Some l \<longleftrightarrow> worker < length (sd_active s) \<and> sd_active s ! worker = Some l"
  by (simp add: active_lease_def)

lemma complete_lease_ok:
  assumes inv: "sched_inv w base s ts" and cl: "complete_lease w worker lease completion s = (r, s')"
    and env: "foreign_world w" "ids_left w base s'"
  shows "sd_root_invalidated s' = sd_root_invalidated s \<and>
    (case r of Inl e \<Rightarrow> stopped_by w base (sd_root_invalidated s) e s' | Inr _ \<Rightarrow> sched_ok w base s')"
proof (cases "active_lease worker s = Some lease")
  case False
  then have "s' = s" "r \<in> {Inl NoActiveLease, Inl StaleOrForgedLease}"
    using cl by (auto simp: complete_lease_def split: option.splits if_splits)
  moreover have "\<exists>P L. sees w base s P L" by (rule sched_inv_sees [OF inv])
  ultimately show ?thesis unfolding stopped_by_def by (elim insertE emptyE) (simp_all add: explained_def)
next
  case True
  then have at: "worker < length (sd_active s)" "sd_active s ! worker = Some lease" by (simp_all add: active_lease_Some)
  have enum: "is_enumeration (wl_key lease)" using inv busy_nth [OF at] by (simp add: sched_inv_def)
  obtain r1 s1 where co: "coordinate w (session_finish lease completion) s = (r1, s1)" by fastforce
  note co1 = coordinate_coordinated [OF co, unfolded coordinated_def]
  have clk: "sd_clock s1 = sd_clock s'" using cl co True by (auto simp: complete_lease_def split: sum.splits if_splits)
  let ?L = "if sd_root_invalidated s then {} else set (busy (sd_active s))"
  obtain P where sees: "sees w base s P ?L" and P: "\<not> sd_root_invalidated s \<Longrightarrow> P = enum_key w ` set (rels w ts)"
    using inv by (auto simp: sched_inv_def split: if_splits)
  obtain out where out: "r1 = Inr out" "out = Accepted \<longleftrightarrow> lease \<in> ?L" "sees w base s1 P (?L - {lease})"
    using finish_call [OF co sees env(1) ids_left_mono [OF env(2)] enum] clk by auto
  show ?thesis
  proof (cases "out = Accepted")
    case False
    have "lease \<in> set (busy (sd_active s))" by (rule busy_nth [OF at])
    then have "sd_root_invalidated s" using False out(2) by (simp split: if_splits)
    moreover have "r = Inl CompletionRejected" "s' = s1" using False cl co True out(1) by (simp_all add: complete_lease_def)
    ultimately show ?thesis using stopped_byI [OF out(3), of True CompletionRejected] co1 by (simp add: explained_def)
  next
    case acc: True
    then have run: "\<not> sd_root_invalidated s" using out(2) by (auto split: if_splits)
    let ?s = "act (Finished worker lease completion)
      (s1\<lparr>sd_active := (sd_active s1)[worker := None], sd_queue := tq_complete (sd_queue s1)\<rparr>)"
    have r: "r = Inr ()" "s' = ?s" using acc cl co True out(1) by (simp_all add: complete_lease_def)
    let ?A = "busy (sd_active s)" and ?B = "busy (sd_active s')"
    have m: "mset ?A = add_mset lease (mset ?B)" using busy_release [OF at] r(2) co1 by simp
    have d: "distinct (lease # ?B)"
      using inv m mset_eq_imp_distinct_iff [of ?A "lease # ?B"] by (simp add: sched_inv_def)
    have st: "set ?A = insert lease (set ?B)" using mset_eq_setD [of ?A "lease # ?B"] m by simp
    have len: "length ?A = Suc (length ?B)" using mset_eq_length [of ?A "lease # ?B"] m by simp
    have mp: "mset (map lease_path ?A) = add_mset (lease_path lease) (mset (map lease_path ?B))" using m by simp
    have "set ?A - {lease} = set ?B" using st d by auto
    then have "sees w base s' (enum_key w ` set (rels w ts)) (set ?B)"
      using out(3) run P [OF run] sees_clock [of w base s1 _ _ s'] r(2) by simp
    moreover have "queue_holds (journal_holds (sw_codec w)) (sd_queue s') (length ?B) ts"
      using inv len co1 r(2) scan_queue.qcomplete_queued [of "sw_codec w" "sd_queue s" "length ?B" ts] by (simp add: sched_inv_def)
    ultimately have "sched_inv w base s' ts"
      using inv run r(2) co1 d st mp by (simp add: sched_inv_def)
    then show ?thesis using r co1 by (auto simp: sched_ok_def)
  qed
qed

lemma forward_worker_event_ok:
  assumes inv: "sched_inv w base s ts" and fw: "forward_worker_event w worker event s = (r, s')"
  shows "sd_root_invalidated s' = sd_root_invalidated s \<and> sd_active s' = sd_active s \<and> sched_inv w base s' ts \<and>
    (\<forall>e. r = Inl e \<longrightarrow> stopped_by w base i e s')"
proof -
  have s': "s' = s \<or> s' = tick s \<or> s' = act (Forwarded worker event) (tick s)"
    using fw by (auto simp: forward_worker_event_def split: option.splits if_splits delivery.splits)
  have e: "explained w i e" if "r = Inl e" for e
    using fw that by (auto simp: forward_worker_event_def explained_def split: option.splits if_splits delivery.splits)
  have "sched_inv w base s' ts" by (rule sched_inv_step [OF inv]) (use s' in auto)
  then show ?thesis using s' e sched_inv_sees [of w base s' ts] by (auto simp: stopped_by_def)
qed

lemma forward_worker_event_clock: "forward_worker_event w worker event s = (r, s') \<Longrightarrow> sd_clock s \<le> sd_clock s'"
  by (auto simp: forward_worker_event_def split: option.splits if_splits delivery.splits)

lemma forward_pending_events_ok:
  "sched_inv w base s ts \<Longrightarrow> forward_pending_events w worker events s = (r, s') \<Longrightarrow>
    sd_root_invalidated s' = sd_root_invalidated s \<and> sd_active s' = sd_active s \<and> sched_inv w base s' ts \<and>
    (\<forall>e. r = Inl e \<longrightarrow> stopped_by w base i e s')"
proof (induction events arbitrary: s)
  case (Cons event events)
  obtain r1 s1 where f: "forward_worker_event w worker event s = (r1, s1)" by fastforce
  note ok = forward_worker_event_ok [OF Cons.prems(1) f, where i = i]
  show ?case
  proof (cases r1)
    case (Inl e)
    then show ?thesis using Cons.prems(2) f ok by auto
  next
    case (Inr u)
    then show ?thesis using Cons.IH [of s1] Cons.prems(2) f ok by simp
  qed
qed auto

section \<open>Rounds\<close>

definition state_of :: "('io, 'j, 'b, 'p) sched_state \<Rightarrow> ('io, 'j, 'b, 'p) scheduler" where
  "state_of st = (case st of Running s \<Rightarrow> s | Ended _ s \<Rightarrow> s)"

lemma state_of_simps [simp]: "state_of (Running s) = s" "state_of (Ended x s) = s"
  by (simp_all add: state_of_def)

definition ended_ok :: "('io, 'j, 'b) sched_world \<Rightarrow> nat \<Rightarrow> ('io, 'j, 'b) sched_exit \<Rightarrow> ('io, 'j, 'b, 'p) scheduler \<Rightarrow> bool" where
  "ended_ok w base x s = (case x of
      ExitIdle \<Rightarrow> sched_inv w base s [] \<and> busy (sd_active s) = [] \<and> \<not> sd_root_invalidated s
    | ExitRootInvalid \<Rightarrow> sched_ok w base s \<and> busy (sd_active s) = [] \<and> sd_root_invalidated s
    | ExitCancelled \<Rightarrow> sees w base s {} {}
    | ExitFailed \<Rightarrow> sees w base s {} {}
    | ExitClosed \<Rightarrow> sched_ok w base s
    | ExitError e \<Rightarrow> sees w base s {} {} \<and> explained w (sd_root_invalidated s) e)"

definition state_ok :: "('io, 'j, 'b) sched_world \<Rightarrow> nat \<Rightarrow> ('io, 'j, 'b, 'p) sched_state \<Rightarrow> bool" where
  "state_ok w base st = (case st of Running s \<Rightarrow> sched_ok w base s | Ended x s \<Rightarrow> ended_ok w base x s)"

lemma state_ok_simps [simp]:
  "state_ok w base (Running s) = sched_ok w base s" "state_ok w base (Ended x s) = ended_ok w base x s"
  by (simp_all add: state_ok_def)

lemma sched_fail_ok:
  assumes "stopped_by w base (sd_root_invalidated s) e s" "foreign_world w" "ids_left w base (state_of (sched_fail w e s))"
  shows "state_ok w base (sched_fail w e s)"
proof -
  let ?s = "coordinate_unit w session_fail_scan_work s"
  note co = coordinate_unit_coordinated [of s w session_fail_scan_work, unfolded coordinated_def]
  obtain P L where sees: "sees w base s P L" using assms(1) by (auto simp: stopped_by_def)
  have clk: "sd_clock ?s \<le> sd_clock (state_of (sched_fail w e s))" by (simp add: sched_fail_def Let_def)
  have fin: "sees w base ?s {} {}"
    by (rule terminate_call [OF sees assms(2) ids_left_mono [OF assms(3) clk], where lc = LFailed]) (simp add: scan_work_calls)
  have "sees w base (state_of (sched_fail w e s)) {} {}"
    by (rule sees_clock [OF fin _ clk]) (simp add: sched_fail_def Let_def)
  then show ?thesis using assms(1) co by (auto simp: sched_fail_def Let_def ended_ok_def stopped_by_def)
qed

lemma sched_fail_clock: "sd_clock s \<le> sd_clock (state_of (sched_fail w e s))"
  using coordinate_unit_coordinated [of s w session_fail_scan_work] by (simp add: sched_fail_def Let_def coordinated_def)

lemma register_task_ok:
  assumes inv: "sched_inv w base s ts" and rt: "register_task w task s = (r, s')"
    and env: "has_root (sw_root w)" "foreign_world w" "ids_left w base s'"
  shows "sd_root_invalidated s' = sd_root_invalidated s \<and> sd_clock s \<le> sd_clock s' \<and> (case r of
      Inl e \<Rightarrow> stopped_by w base (sd_root_invalidated s) e s'
    | Inr False \<Rightarrow> sched_inv w base s' ts
    | Inr True \<Rightarrow> sd_queue s' = sd_queue s \<and> sd_trace s' = sd_trace s \<and> sd_active s' = sd_active s \<and>
        (\<exists>p P L. task_rel w task = Some p \<and> sees w base s' (insert (enum_key w p) P) L \<and>
         (if sd_root_invalidated s then L = {} else P = enum_key w ` set (rels w ts) \<and> L = set (busy (sd_active s)) \<and> p \<notin> set (rels w ts))))"
proof (cases "task_key w (dt_path task)")
  case (Inl e)
  then have "r = Inl e" "s' = s" using rt by (simp_all add: register_task_def)
  moreover have "e = TaskEscapedRoot \<or> e = TaskInvalidPath"
    using Inl by (auto simp: task_key_def ok_or_def map_err_def res_bind_def split: option.splits sum.splits)
  ultimately show ?thesis using sched_inv_sees [OF inv] by (auto simp: stopped_by_def explained_def)
next
  case (Inr k)
  then obtain p where k: "k = enum_key w p" using task_key_Inr [OF _ env(1)] by blast
  have rel: "task_rel w task = Some p" using Inr k by (simp add: task_rel_def)
  obtain r1 s1 where co: "coordinate w (session_register (enum_key w p) Background) s = (r1, s1)" by fastforce
  note co1 = coordinate_coordinated [OF co, unfolded coordinated_def]
  have s1: "s1 = s'" using rt co Inr k by (auto simp: register_task_def split: sum.splits schedule_outcome.splits)
  obtain P L where sees: "sees w base s P L"
    and PL: "if sd_root_invalidated s then L = {} else P = enum_key w ` set (rels w ts) \<and> L = set (busy (sd_active s))"
    using inv by (auto simp: sched_inv_def split: if_splits)
  from co sees env(2,3)[folded s1] show ?thesis
  proof (cases rule: register_call)
    case new
    then have "r = Inr True" using rt co Inr k by (simp add: register_task_def)
    moreover have "p \<notin> set (rels w ts)" if "\<not> sd_root_invalidated s" using new(2) PL that by auto
    ultimately show ?thesis using new(4) PL co1 s1 rel by (auto split: if_splits)
  next
    case (known out)
    then have "r = Inr False" using rt co Inr k by (auto simp: register_task_def)
    moreover have "sched_inv w base s' ts" using known(4) PL inv co1 s1 by (auto simp: sched_inv_def split: if_splits)
    ultimately show ?thesis using co1 s1 by simp
  qed
qed

lemma admit_task_ok:
  assumes inv: "sched_inv w base s ts" and env: "has_root (sw_root w)" "foreign_world w"
    and ids: "ids_left w base (state_of (sched_select w (SelEnqueue task) s))"
  shows "state_ok w base (sched_select w (SelEnqueue task) s)"
proof -
  obtain r1 s1 where rt: "register_task w task s = (r1, s1)" by fastforce
  let ?st = "sched_select w (SelEnqueue task) s"
  have clk: "sd_clock s1 \<le> sd_clock (state_of ?st)"
    using rt sched_fail_clock [of s1 w]
    by (auto simp: sched_select_def split: sum.splits)
  note ok = register_task_ok [OF inv rt env ids_left_mono [OF ids clk]]
  show ?thesis
  proof (cases r1)
    case (Inl e)
    then have "?st = sched_fail w e s1" using rt by (simp add: sched_select_def)
    then show ?thesis using sched_fail_ok [of w base s1 e] ok Inl env(2) ids by simp
  next
    case (Inr adm)
    show ?thesis
    proof (cases adm)
      case False
      then show ?thesis using rt ok Inr by (auto simp: sched_select_def sched_ok_def)
    next
      case True
      obtain p P L where pl: "task_rel w task = Some p" "sees w base s1 (insert (enum_key w p) P) L"
        "if sd_root_invalidated s then L = {} else P = enum_key w ` set (rels w ts) \<and> L = set (busy (sd_active s)) \<and> p \<notin> set (rels w ts)"
        using ok Inr True by auto
      have same: "sd_queue s1 = sd_queue s" "sd_trace s1 = sd_trace s" "sd_active s1 = sd_active s" "sd_root_invalidated s1 = sd_root_invalidated s"
        using ok Inr True by simp_all
      show ?thesis
      proof (cases "queue_schedule (sw_codec w) (sw_os w) task (sd_queue s1)")
        case (Inl e)
        then have "?st = sched_fail w (TaskNotQueued e) s1" using rt Inr True by (simp add: sched_select_def)
        then show ?thesis
          using sched_fail_ok [of w base s1 "TaskNotQueued e"] stopped_byI [OF pl(2)] env(2) ids by (simp add: explained_def)
      next
        case (Inr q)
        have key: "task_key w (dt_path task) = Inr (enum_key w p)" using pl(1) task_rel_Some [OF env(1)] by blast
        let ?s = "act (Admitted p) (s1\<lparr>sd_queue := q\<rparr>)"
        have st: "?st = Running ?s" using rt \<open>r1 = Inr adm\<close> True Inr key by (simp add: sched_select_def)
        have qh: "queue_holds (journal_holds (sw_codec w)) (sd_queue s) (length (busy (sd_active s))) ts" using inv by (simp add: sched_inv_def)
        obtain a b where ab: "ts = a @ b" "queue_holds (journal_holds (sw_codec w)) q (length (busy (sd_active s))) (a @ task # b)"
          using scan_queue.qschedule_queued [OF qh Inr [unfolded same(1)]] by blast
        have "sees w base ?s (insert (enum_key w p) P) L" by (rule sees_clock [OF pl(2)]) simp_all
        moreover have "set (rels w (a @ task # b)) = insert p (set (rels w ts))" "the (task_rel w task) = p"
          "distinct (rels w ts) \<Longrightarrow> p \<notin> set (rels w ts) \<Longrightarrow> distinct (rels w (a @ task # b))" using ab(1) pl(1) by auto
        ultimately have "sched_inv w base ?s (a @ task # b)"
          using inv pl(1,3) same ab by (auto simp: sched_inv_def split: if_splits)
        then show ?thesis using st by (auto simp: sched_ok_def)
      qed
    qed
  qed
qed

lemma complete_ok:
  assumes inv: "sched_inv w base s ts" and env: "foreign_world w"
    and ids: "ids_left w base (state_of (sched_select w (SelComplete worker lease completion pending) s))"
  shows "state_ok w base (sched_select w (SelComplete worker lease completion pending) s)"
proof -
  let ?st = "sched_select w (SelComplete worker lease completion pending) s"
  obtain r1 s1 where fp: "forward_pending_events w worker pending s = (r1, s1)" by fastforce
  obtain r2 s2 where cl: "complete_lease w worker lease completion s1 = (r2, s2)" by fastforce
  note f = forward_pending_events_ok [OF inv fp, where i = "sd_root_invalidated s"]
  consider (bad) "\<not> worker < length (sd_active s)" "?st = sched_fail w InvalidWorker s"
    | (forward) e where "r1 = Inl e" "?st = sched_fail w e s1"
    | (complete) e where "r2 = Inl e" "?st = sched_fail w e s2"
    | (over) "r2 = Inr ()" "?st = Running s2"
    using fp cl by (cases "worker < length (sd_active s)"; cases r1; cases r2) (simp_all add: sched_select_def)
  then show ?thesis
  proof cases
    case bad
    obtain P L where "sees w base s P L" using sched_inv_sees [OF inv] by blast
    then have "stopped_by w base (sd_root_invalidated s) InvalidWorker s" by (rule stopped_byI) (simp add: explained_def)
    then show ?thesis using bad sched_fail_ok [of w base s InvalidWorker] ids env by simp
  next
    case (forward e)
    then show ?thesis using f sched_fail_ok [of w base s1 e] ids env by simp
  next
    case (complete e)
    then have clk: "sd_clock s2 \<le> sd_clock (state_of ?st)" using sched_fail_clock [of s2 w e] by simp
    have "sched_inv w base s1 ts" using f by simp
    note c = complete_lease_ok [OF this cl env ids_left_mono [OF ids clk]]
    then show ?thesis using complete sched_fail_ok [of w base s2 e] ids env by simp
  next
    case over
    have "sched_inv w base s1 ts" using f by simp
    from complete_lease_ok [OF this cl env] ids over show ?thesis by simp
  qed
qed

lemma sched_select_ok:
  assumes ok: "sched_ok w base s" and env: "has_root (sw_root w)" "foreign_world w"
    and ids: "ids_left w base (state_of (sched_select w event s))"
  shows "state_ok w base (sched_select w event s)"
proof -
  obtain ts where inv: "sched_inv w base s ts" using ok by (auto simp: sched_ok_def)
  obtain P0 L0 where sees: "sees w base s P0 L0" using sched_inv_sees [OF inv] by blast
  have fail: "state_ok w base (sched_fail w e s)" if fe: "sched_select w event s = sched_fail w e s" "explained w (sd_root_invalidated s) e" for e
    using sched_fail_ok [of w base s e] stopped_byI [OF sees fe(2)] env(2) ids fe(1) by simp
  show ?thesis
  proof (cases event)
    case (SelEnqueue task)
    then show ?thesis using admit_task_ok [OF inv env] ids by simp
  next
    case (SelComplete worker lease completion pending)
    then show ?thesis using complete_ok [OF inv env(2)] ids by simp
  next
    case SelCommandsClosed
    then show ?thesis using ok fail [of WorkersDisconnected] by (auto simp: sched_select_def ended_ok_def explained_def)
  next
    case (SelFocus path)
    show ?thesis
    proof (cases "\<exists>p. sched_select w event s = Running (coordinate_unit w (session_focus p) s)")
      case True
      then obtain p where p: "sched_select w event s = Running (coordinate_unit w (session_focus p) s)" by blast
      let ?s = "coordinate_unit w (session_focus p) s"
      note co = coordinate_unit_coordinated [of s w "session_focus p", unfolded coordinated_def]
      have keep: "sees w base s P L \<Longrightarrow> sees w base ?s P L" for P L
        using focus_call [OF _ env(2), of base s P L p] ids p by simp
      have "sched_inv w base ?s ts" using inv keep co by (cases "sd_root_invalidated s") (auto simp: sched_inv_def)
      then show ?thesis using p by (auto simp: sched_ok_def)
    next
      case False
      then have "sched_select w event s = Running s"
        using SelFocus by (auto simp: sched_select_def split: option.splits sum.splits)
      then show ?thesis using ok by simp
    qed
  next
    case (SelWorkerEvent worker ev)
    obtain r1 s1 where f: "forward_worker_event w worker ev s = (r1, s1)" by fastforce
    note fo = forward_worker_event_ok [OF inv f, where i = "sd_root_invalidated s"]
    show ?thesis
    proof (cases r1)
      case (Inl e)
      then have "sched_select w event s = sched_fail w e s1" using SelWorkerEvent f by (simp add: sched_select_def)
      then show ?thesis using sched_fail_ok [of w base s1 e] fo Inl env(2) ids by simp
    next
      case (Inr u)
      then show ?thesis using SelWorkerEvent f fo by (auto simp: sched_select_def sched_ok_def)
    qed
  next
    case (SelWorkerClosed worker)
    then show ?thesis using ok fail [of WorkerDisconnected] by (auto simp: sched_select_def ended_ok_def explained_def)
  next
    case SelTimeout
    then show ?thesis using ok by (simp add: sched_select_def)
  qed
qed

subsection \<open>Time\<close>

lemma coordinate_unit_clock [simp]: "sd_clock (coordinate_unit w call s) = Suc (sd_clock s)"
  using coordinate_unit_coordinated [of s w call] by (simp add: coordinated_def)

lemma coordinate_clock: "coordinate w call s = (r, s') \<Longrightarrow> sd_clock s' = Suc (sd_clock s)"
  by (drule coordinate_coordinated) (simp add: coordinated_def)

lemma register_task_clock: "register_task w task s = (r, s') \<Longrightarrow> sd_clock s \<le> sd_clock s'"
  by (auto simp: register_task_def dest!: coordinate_clock split: sum.splits prod.splits schedule_outcome.splits)

lemma complete_lease_clock: "complete_lease w worker l completion s = (r, s') \<Longrightarrow> sd_clock s \<le> sd_clock s'"
  by (auto simp: complete_lease_def dest!: coordinate_clock split: sum.splits prod.splits option.splits if_splits)

lemma forward_pending_events_clock: "forward_pending_events w worker events s = (r, s') \<Longrightarrow> sd_clock s \<le> sd_clock s'"
proof (induction events arbitrary: s)
  case (Cons event events)
  obtain r1 s1 where f: "forward_worker_event w worker event s = (r1, s1)" by fastforce
  show ?case
    using Cons.IH [of s1] Cons.prems f forward_worker_event_clock [OF f] by (cases r1) auto
qed simp

lemma sched_select_clock: "sd_clock s \<le> sd_clock (state_of (sched_select w event s))"
proof (cases event)
  case (SelEnqueue task)
  obtain r1 s1 where r: "register_task w task s = (r1, s1)" by fastforce
  note c = register_task_clock [OF r] le_trans [OF register_task_clock [OF r] sched_fail_clock]
  show ?thesis
    using SelEnqueue r c by (auto simp: sched_select_def split: sum.splits)
next
  case (SelComplete worker lease completion pending)
  obtain r1 s1 where f: "forward_pending_events w worker pending s = (r1, s1)" by fastforce
  obtain r2 s2 where cl: "complete_lease w worker lease completion s1 = (r2, s2)" by fastforce
  note c1 = forward_pending_events_clock [OF f]
  note c2 = le_trans [OF c1 complete_lease_clock [OF cl]]
  show ?thesis
    using SelComplete f cl c1 c2 sched_fail_clock [of s w InvalidWorker] le_trans [OF c1 sched_fail_clock] le_trans [OF c2 sched_fail_clock]
    by (auto simp: sched_select_def split: sum.splits)
next
  case (SelWorkerEvent worker ev)
  obtain r1 s1 where f: "forward_worker_event w worker ev s = (r1, s1)" by fastforce
  note c = forward_worker_event_clock [OF f]
  show ?thesis using SelWorkerEvent f c le_trans [OF c sched_fail_clock] by (auto simp: sched_select_def split: sum.splits)
qed (auto simp: sched_select_def sched_fail_clock split: option.splits sum.splits)

text \<open>The state in which a round reaches its dispatch: the root may have been found invalid.\<close>

definition round_start :: "('io, 'j, 'b) sched_world \<Rightarrow> sched_flags \<Rightarrow> ('io, 'j, 'b, 'p) scheduler \<Rightarrow> ('io, 'j, 'b, 'p) scheduler" where
  "round_start w flags s = (if fl_root_invalid flags \<and> \<not> sd_root_invalidated s
     then (coordinate_unit w session_invalidate_scan_work s)\<lparr>sd_root_invalidated := True\<rparr> else s)"

lemma sched_iterate_eq:
  "sched_iterate w flags event s =
     (let s = round_start w flags s in
      if fl_root_invalid flags \<and> all_idle s then Ended ExitRootInvalid s
      else if fl_cancelled flags then Ended ExitCancelled (coordinate_unit w session_cancel_scan_work s)
      else if fl_failed flags then Ended ExitFailed (coordinate_unit w session_fail_scan_work s)
      else if sd_root_invalidated s then sched_select w event s
      else case dispatch_ready w s of
        (Inl e, s) \<Rightarrow> sched_fail w e s
      | (Inr _, s) \<Rightarrow>
          if tq_is_idle (sd_queue s) \<and> all_idle s then Ended ExitIdle s else sched_select w event s)"
  by (simp only: sched_iterate_def round_start_def)

lemma round_start_clock: "sd_clock s \<le> sd_clock (round_start w flags s)"
  by (simp add: round_start_def)

lemma sched_iterate_clock: "sd_clock (round_start w flags s) \<le> sd_clock (state_of (sched_iterate w flags event s))"
proof -
  let ?s = "round_start w flags s"
  obtain r1 s1 where d: "dispatch_ready w ?s = (r1, s1)" by fastforce
  have c: "sd_clock ?s \<le> sd_clock s1" using dispatch_workers_clock d by (simp add: dispatch_ready_def) blast
  show ?thesis
    using d c le_trans [OF c sched_fail_clock] le_trans [OF c sched_select_clock] sched_select_clock [of ?s]
    by (auto simp: sched_iterate_eq Let_def split: sum.splits)
qed

lemma sched_loop_clock: "sd_clock (state_of st) \<le> sd_clock (state_of (sched_loop w inputs st))"
proof (induction w inputs st rule: sched_loop.induct)
  case (1 w flags event inputs s)
  then show ?case using round_start_clock [of s w flags] sched_iterate_clock [of w flags s event] by simp
qed simp_all

subsection \<open>Every round\<close>

lemma round_start_ok:
  assumes ok: "sched_ok w base s" and env: "foreign_world w" "ids_left w base (round_start w flags s)"
  shows "sched_ok w base (round_start w flags s)" "fl_root_invalid flags \<Longrightarrow> sd_root_invalidated (round_start w flags s)"
proof -
  obtain ts where inv: "sched_inv w base s ts" using ok by (auto simp: sched_ok_def)
  show "sched_ok w base (round_start w flags s)"
  proof (cases "fl_root_invalid flags \<and> \<not> sd_root_invalidated s")
    case True
    let ?s = "coordinate_unit w session_invalidate_scan_work s"
    note co = coordinate_unit_coordinated [of s w session_invalidate_scan_work, unfolded coordinated_def]
    obtain P L where sees: "sees w base s P L" using sched_inv_sees [OF inv] by blast
    have ids: "ids_left w base ?s" using env(2) True by (simp add: round_start_def ids_left_def)
    have "sees w base ?s {} {}"
      by (rule terminate_call [OF sees env(1) ids, where lc = LInvalidated]) (simp add: scan_work_calls)
    then have "sees w base (round_start w flags s) {} {}"
      by (rule sees_clock) (simp_all add: True round_start_def)
    then have "sched_inv w base (round_start w flags s) ts" using inv co True by (auto simp: sched_inv_def round_start_def)
    then show ?thesis by (auto simp: sched_ok_def)
  next
    case False
    then show ?thesis using ok by (auto simp: round_start_def)
  qed
  show "fl_root_invalid flags \<Longrightarrow> sd_root_invalidated (round_start w flags s)" by (simp add: round_start_def)
qed

lemma all_idle_busy: "all_idle s \<longleftrightarrow> busy (sd_active s) = []"
  by (simp add: all_idle_def busy_Nil)

lemma sched_iterate_ok:
  assumes ok: "sched_ok w base s" and env: "has_root (sw_root w)" "foreign_world w"
    and ids: "ids_left w base (state_of (sched_iterate w flags event s))"
  shows "state_ok w base (sched_iterate w flags event s)"
proof -
  let ?s = "round_start w flags s"
  define st where "st = sched_iterate w flags event s"
  note ids = ids [folded st_def]
  note rs = round_start_ok [OF ok env(2) ids_left_mono [OF ids [unfolded st_def] sched_iterate_clock]]
  obtain ts where inv: "sched_inv w base ?s ts" using rs(1) by (auto simp: sched_ok_def)
  obtain P L where sees: "sees w base ?s P L" using sched_inv_sees [OF inv] by blast
  obtain r1 s1 where d: "dispatch_ready w ?s = (r1, s1)" by fastforce
  consider (invalid) "fl_root_invalid flags" "all_idle ?s" "st = Ended ExitRootInvalid ?s"
    | (cancelled) "st = Ended ExitCancelled (coordinate_unit w session_cancel_scan_work ?s)"
    | (failed) "st = Ended ExitFailed (coordinate_unit w session_fail_scan_work ?s)"
    | (wait) "st = sched_select w event ?s"
    | (dispatch) "\<not> sd_root_invalidated ?s"
        "st = (case r1 of Inl e \<Rightarrow> sched_fail w e s1 | Inr _ \<Rightarrow>
            if tq_is_idle (sd_queue s1) \<and> all_idle s1 then Ended ExitIdle s1 else sched_select w event s1)"
    unfolding st_def sched_iterate_eq Let_def d
    by (cases "fl_root_invalid flags \<and> all_idle ?s"; cases "fl_cancelled flags"; cases "fl_failed flags"; cases "sd_root_invalidated ?s")
      simp_all
  then have "state_ok w base st"
  proof cases
    case invalid
    then show ?thesis using rs by (simp add: ended_ok_def all_idle_busy)
  next
    case cancelled
    have "sees w base (coordinate_unit w session_cancel_scan_work ?s) {} {}"
      by (rule terminate_call [OF sees env(2), where lc = LCancelled]) (use ids cancelled in \<open>simp_all add: scan_work_calls\<close>)
    then show ?thesis using cancelled by (simp add: ended_ok_def)
  next
    case failed
    have "sees w base (coordinate_unit w session_fail_scan_work ?s) {} {}"
      by (rule terminate_call [OF sees env(2), where lc = LFailed]) (use ids failed in \<open>simp_all add: scan_work_calls\<close>)
    then show ?thesis using failed by (simp add: ended_ok_def)
  next
    case wait
    then show ?thesis using sched_select_ok [OF rs(1) env, of event] ids by simp
  next
    case dispatch
    have "sd_clock s1 \<le> sd_clock (state_of st)"
      using dispatch(2) sched_fail_clock [of s1 w] sched_select_clock [of s1 w event] by (auto split: sum.splits)
    note dw = dispatch_workers_ok [OF env rs(1) dispatch(1) d [unfolded dispatch_ready_def] _ ids_left_mono [OF ids this]]
    show ?thesis
    proof (cases r1)
      case (Inl e)
      then show ?thesis using dw dispatch(2) sched_fail_ok [of w base s1 e] env(2) ids by simp
    next
      case (Inr u)
      then obtain ts1 where ok1: "sched_ok w base s1" "sched_inv w base s1 ts1" using dw by (auto simp: sched_ok_def)
      show ?thesis
      proof (cases "tq_is_idle (sd_queue s1) \<and> all_idle s1")
        case True
        then have "ts1 = []" using ok1(2) scan_queue.qidle_iff [of "sw_codec w" "sd_queue s1"] by (auto simp: sched_inv_def)
        then show ?thesis using True Inr dw dispatch(2) ok1(2) by (simp add: ended_ok_def all_idle_busy)
      next
        case False
        then show ?thesis using Inr dispatch(2) sched_select_ok [OF ok1(1) env, of event] ids by auto
      qed
    qed
  qed
  then show ?thesis by (simp add: st_def)
qed

lemma sched_loop_ok:
  "state_ok w base st \<Longrightarrow> has_root (sw_root w) \<Longrightarrow> foreign_world w \<Longrightarrow>
    ids_left w base (state_of (sched_loop w inputs st)) \<Longrightarrow> state_ok w base (sched_loop w inputs st)"
proof (induction w inputs st rule: sched_loop.induct)
  case (1 w flags event inputs s)
  have "ids_left w base (state_of (sched_iterate w flags event s))"
    by (rule ids_left_mono [OF 1(5)]) (simp add: sched_loop_clock)
  then have "state_ok w base (sched_iterate w flags event s)" using sched_iterate_ok 1(2-4) by auto
  then show ?case using 1 by simp
qed simp_all

subsection \<open>The start\<close>

lemma queue_new_holds:
  assumes "queue_new root capacity tempfile st = (Inr q :: ('io io_error, _) res)" "sf_bytes tempfile = []" "task_codec_ok jc"
  shows "queue_holds (journal_holds jc) q 0 [\<lparr>dt_path = root, dt_identity = None\<rparr>]"
proof -
  obtain sp st' where s: "spill_new tempfile st = (Inr (sp, st') :: ('io io_error, _) res)" "q = tq_new root capacity (sp, st')"
    using assms(1) by (auto simp: queue_new_def res_bind_Inr_iff)
  have "below_root root \<lparr>dt_path = root, dt_identity = None\<rparr>"
    by (simp add: below_root_def task_relative_path_def strip_prefix_def path_starts_with_def)
  then show ?thesis using s(2) spill_new_holds(1) [OF s(1) assms(2,3)] by (simp add: queue_holds_def tq_new_def journal_holds_def)
qed

lemma sched_start_ok:
  fixes w :: "('io, 'j, 'b) sched_world"
  assumes c: "coord_wf c" "scan_pending c = {}" "scan_leases c = {}" "sc_session c = sw_session w" "sc_generation c = sw_generation w"
    and q: "queue_new (sw_root w) capacity tempfile st = (Inr q :: ('io io_error, _) res)" "sf_bytes tempfile = []" "task_codec_ok (sw_codec w)"
    and env: "has_root (sw_root w)" "foreign_world w" "ids_left w (unat (sc_next_lease c)) (state_of (sched_start w n n (Some c) q :: ('io, 'j, 'b, 'p) sched_state))"
  shows "state_ok w (unat (sc_next_lease c)) (sched_start w n n (Some c) q :: ('io, 'j, 'b, 'p) sched_state)"
proof -
  let ?b = "unat (sc_next_lease c)" and ?t = "\<lparr>dt_path = sw_root w, dt_identity = None\<rparr>"
  let ?s = "\<lparr>sd_coordinator = Some c, sd_queue = q, sd_active = replicate n None, sd_root_invalidated = False,
               sd_failed = False, sd_clock = 0, sd_trace = []\<rparr> :: ('io, 'j, 'b, 'p) scheduler"
  note qh = queue_new_holds [OF q]
  have sees: "sees w ?b ?s {} {}" using c by (simp add: sees_def coord_ok_def)
  obtain r1 s1 where co: "coordinate w (session_register (enum_key w []) Background) ?s = (r1, s1)" by fastforce
  note co1 = coordinate_coordinated [OF co, unfolded coordinated_def]
  have key: "task_key w (sw_root w) = Inr (enum_key w [])" by (rule root_task [OF env(1)])
  have st: "sched_start w n n (Some c) q =
      ((case r1 of Inr Enqueued \<Rightarrow> Running (act (Admitted []) s1) | _ \<Rightarrow> sched_fail w RootNotAdmitted s1) :: ('io, 'j, 'b, 'p) sched_state)"
    using co key by (simp add: sched_start_def Let_def)
      (auto split: sum.splits schedule_outcome.splits)
  have "sd_clock s1 \<le> sd_clock (state_of (sched_start w n n (Some c) q :: ('io, 'j, 'b, 'p) sched_state))"
    using st sched_fail_clock [of s1 w RootNotAdmitted] by (auto split: sum.splits schedule_outcome.splits)
  note ids = ids_left_mono [OF env(3) this]
  from co sees env(2) ids show ?thesis
  proof (cases rule: register_call)
    case new
    let ?u = "act (Admitted []) s1"
    have rel: "task_rel w ?t = Some []" using key by (simp add: task_rel_def)
    have "sees w ?b ?u (insert (enum_key w []) {}) {}" by (rule sees_clock [OF new(4)]) simp_all
    then have "sched_inv w ?b ?u [?t]" using qh rel co1 by (simp add: sched_inv_def admitted_def finished_def)
    then show ?thesis using st new(1) by (auto simp: sched_ok_def)
  next
    case (known out)
    then show ?thesis by simp
  qed
qed

end
