(* ===== verification/Scheduler_Theorems.thy ===== *)
theory Scheduler_Theorems
  imports Scan_Scheduler_Spec "HOL-Library.Code_Target_Numeral"
begin

text \<open>
  The properties of the directory scheduler and its journal: no admitted directory is lost, errors have
  causes outside the scheduler, a worker whose root was found invalid cannot hand in its lease, and the
  journal file is a list of tasks within twice their size.
\<close>

section \<open>An example\<close>

text \<open>A codec that writes the bytes of a path, and a run with one worker in which another client acquires a reduction and moves the focus.\<close>

definition plain_char :: "u8 \<Rightarrow> char" where "plain_char b = char_of (unat b)"
definition plain_byte :: "char \<Rightarrow> u8" where "plain_byte c = word_of_nat (of_char c)"

lemma plain_inverse [simp]: "plain_byte (plain_char b) = b" "plain_char (plain_byte c) = c"
proof -
  have "unat b mod 256 = unat b" using unat_lt_pow [of b] by simp
  then show "plain_byte (plain_char b) = b" by (simp add: plain_byte_def plain_char_def)
  show "plain_char (plain_byte c) = c" by (simp add: plain_byte_def plain_char_def unat_of_nat)
qed

definition plain_codec :: "(unit, unit) task_codec" where
  "plain_codec = \<lparr>jc_base64_encode = map plain_char, jc_base64_decode = (\<lambda>s. Inr (map plain_byte s)),
     jc_to_vec = (\<lambda>x. case x of (UnixBytes s, None) \<Rightarrow> Inr (map plain_byte s) | _ \<Rightarrow> Inl ()),
     jc_from_slice = (\<lambda>bs. Inr (UnixBytes (map plain_char bs), None))\<rparr>"

lemma plain_codec_ok: "task_codec_ok plain_codec"
  by (auto simp: task_codec_ok_def plain_codec_def comp_def split: encoded_native_path.splits option.splits)

definition demo_world :: "(unit, unit, unit) sched_world" where
  "demo_world = \<lparr>sw_session = [7], sw_generation = 1, sw_root = [47], sw_codec = plain_codec, sw_os = (\<lambda>_. None),
     sw_others = (\<lambda>n. if n = 1 then [CmdAcquire ReduceRun [] Reducer, CmdFocus [[97]]] else []), sw_stopping = (\<lambda>_. False),
     sw_send = (\<lambda>_. SendOk), sw_delivery = (\<lambda>_. Delivered)\<rparr>"

definition demo_flags :: sched_flags where
  "demo_flags = \<lparr>fl_root_invalid = False, fl_cancelled = False, fl_failed = False\<rparr>"

definition demo_lease :: "u64 \<Rightarrow> relative_path \<Rightarrow> bool \<Rightarrow> work_lease" where
  "demo_lease i p f = \<lparr>wl_id = i, wl_key = WorkKey [7] 1 EnumerateDirectory p, wl_priority = Background, wl_focused = f\<rparr>"

definition demo_task :: "bytes \<Rightarrow> directory_task" where
  "demo_task p = \<lparr>dt_path = p, dt_identity = None\<rparr>"



definition busy_inputs :: "(sched_flags \<times> unit sched_event) list" where
  "busy_inputs = [(demo_flags, SelEnqueue (demo_task [47, 97]))]"

definition demo_file :: spill_file where
  "demo_file = \<lparr>sf_bytes = [], sf_pos = 0, sf_calls = 0\<rparr>"

definition demo_spill :: task_spill where
  "demo_spill = \<lparr>sp_file = demo_file, sp_next_read = 0, sp_next_write = 0, sp_pending = 0, sp_reservation = 0\<rparr>"

definition demo_queue :: scan_queue where
  "demo_queue = tq_new [47] 1 (demo_spill, with_limit_bytes_named 1000)"

lemma demo_spill_new: "spill_new demo_file (with_limit_bytes_named 1000) = (Inr (demo_spill, with_limit_bytes_named 1000) :: ('io io_error, _) res)"
  by (simp add: spill_new_def demo_spill_def ts_reservation_def ts_reserve_def ts_ensure_running_def reserve_required_def checked_add_def
      with_limit_bytes_named_def)

section \<open>The journal as a list\<close>

datatype journal_op = JournalPush directory_task | JournalTake bytes

fun journal_run :: "('j, 'b) task_codec \<Rightarrow> 'io spill_os \<Rightarrow> journal_op list \<Rightarrow> task_spill \<times> temporary_storage \<Rightarrow>
    (('io, 'j, 'b) spill_error, directory_task option list \<times> task_spill \<times> temporary_storage) res" where
  "journal_run jc os [] s = Inr ([], s)"
| "journal_run jc os (JournalPush t # ops) s =
     res_bind (journal_push jc os t s) (\<lambda>s. journal_run jc os ops s)"
| "journal_run jc os (JournalTake path # ops) s =
     res_bind (journal_take jc os path s) (\<lambda>(r, s).
     res_bind (journal_run jc os ops s) (\<lambda>(rs, s). Inr (r # rs, s)))"

definition demo_ops :: "journal_op list" where
  "demo_ops = [JournalPush (demo_task [47]), JournalPush (demo_task [47, 97]), JournalTake [47, 97], JournalTake [98]]"

text \<open>The reference: a list of tasks, the oldest first.\<close>

fun list_run :: "journal_op list \<Rightarrow> directory_task list \<Rightarrow> directory_task option list \<times> directory_task list" where
  "list_run [] ts = ([], ts)"
| "list_run (JournalPush t # ops) ts = list_run ops (ts @ [t])"
| "list_run (JournalTake path # ops) ts =
     (case take_first path ts of (r, ts) \<Rightarrow> (case list_run ops ts of (rs, ts) \<Rightarrow> (r # rs, ts)))"

fun pushed :: "journal_op list \<Rightarrow> directory_task list" where
  "pushed [] = []"
| "pushed (JournalPush t # ops) = t # pushed ops"
| "pushed (JournalTake path # ops) = pushed ops"

text \<open>The journal's share of the storage is its reservation.\<close>

definition journal_charged :: "nat \<Rightarrow> task_spill \<times> temporary_storage \<Rightarrow> bool" where
  "journal_charged base s \<longleftrightarrow> unat (ts_used (snd s)) = base + unat (sp_reservation (fst s))"

lemma journal_step:
  assumes "journal_holds jc s ts" "journal_charged base s"
  shows "journal_push jc os t s = Inr s' \<Longrightarrow> journal_holds jc s' (ts @ [t]) \<and> journal_charged base s' \<and>
      ts_limit (snd s') = ts_limit (snd s)"
    "journal_take jc os path s = Inr (r, s') \<Longrightarrow> r = fst (take_first path ts) \<and> journal_holds jc s' (snd (take_first path ts)) \<and>
      journal_charged base s' \<and> ts_limit (snd s') = ts_limit (snd s)"
proof -
  have h: "spill_holds jc (fst s) (snd s) ts" and res: "sp_reservation (fst s) = sp_next_write (fst s)"
    using assms(1) by (simp_all add: journal_holds_def spill_holds_def)
  show "journal_push jc os t s = Inr s' \<Longrightarrow> journal_holds jc s' (ts @ [t]) \<and> journal_charged base s' \<and> ts_limit (snd s') = ts_limit (snd s)"
  proof -
    assume "journal_push jc os t s = Inr s'"
    then have p: "spill_push jc os t (fst s) (snd s) = Inr (fst s', snd s')" by (simp add: journal_push_def)
    note ph = spill_push_holds [OF h p]
    have "unat (sp_reservation (fst s')) = unat (sp_next_read (fst s')) + length (frames jc (ts @ [t]))"
      "sp_next_read (fst s') = sp_next_read (fst s)"
      using spill_holds_offsets(1) [OF ph(2)] ph(2) p
      by (auto simp: spill_holds_def spill_push_def res_bind_Inr_iff Let_def split: if_splits)
    then show ?thesis using ph assms(2) res spill_holds_offsets(1) [OF h] by (simp add: journal_holds_def journal_charged_def)
  qed
  show "journal_take jc os path s = Inr (r, s') \<Longrightarrow> r = fst (take_first path ts) \<and> journal_holds jc s' (snd (take_first path ts)) \<and>
      journal_charged base s' \<and> ts_limit (snd s') = ts_limit (snd s)"
    using settles_D [OF spill_take_path_holds [OF h, of os path], of "(r, s')"] assms(2) res
    by (auto simp: journal_take_def spill_post_def journal_holds_def journal_charged_def spill_holds_def case_prod_beta)
qed

lemma journal_run_list:
  "journal_holds jc s ts \<Longrightarrow> journal_charged base s \<Longrightarrow> journal_run jc os ops s = Inr (rs, s') \<Longrightarrow>
    rs = fst (list_run ops ts) \<and> journal_holds jc s' (snd (list_run ops ts)) \<and> journal_charged base s'"
proof (induction ops arbitrary: s ts rs)
  case (Cons op1 ops)
  show ?case
  proof (cases op1)
    case (JournalPush t)
    then obtain s1 where "journal_push jc os t s = Inr s1" "journal_run jc os ops s1 = Inr (rs, s')"
      using Cons.prems(3) by (auto simp: res_bind_Inr_iff)
    then show ?thesis using JournalPush Cons.IH [of s1 "ts @ [t]" rs] journal_step(1) [OF Cons.prems(1,2), of os t s1] by auto
  next
    case (JournalTake path)
    then obtain r s1 rs1 where "journal_take jc os path s = Inr (r, s1)" "journal_run jc os ops s1 = Inr (rs1, s')" "rs = r # rs1"
      using Cons.prems(3) by (auto simp: res_bind_Inr_iff)
    then show ?thesis using JournalTake Cons.IH [of s1 _ rs1] journal_step(2) [OF Cons.prems(1,2), of os path r s1]
      by (auto simp: case_prod_beta)
  qed
qed auto

text \<open>Taking a task does not stop the storage.\<close>

lemma rs_shrink_to_stopped: "rs_shrink_to n held st = Inr (x, st') \<Longrightarrow> ts_stopped st' = ts_stopped st"
  by (auto simp: rs_shrink_to_def res_bind_Inr_iff ts_release_Inr split: if_splits)

lemma compact_after_read_stopped: "compact_after_read os sp st = Inr (sp', st') \<Longrightarrow> ts_stopped st' = ts_stopped st"
  by (auto simp: compact_after_read_def res_bind_Inr_iff Let_def dest: rs_shrink_to_stopped split: if_splits)

lemma spill_take_stopped: "spill_take jc os sp st = Inr (r, sp', st') \<Longrightarrow> ts_stopped st' = ts_stopped st"
  by (auto simp: spill_take_def res_bind_Inr_iff Let_def dest: rs_shrink_to_stopped compact_after_read_stopped split: if_splits)

lemma take_path_loop_stopped: "take_path_loop jc os path offset sp st = Inr (r, sp', st') \<Longrightarrow> ts_stopped st' = ts_stopped st"
proof (induction jc os path offset sp st rule: take_path_loop.induct)
  case (1 jc os path offset sp st)
  show ?case
  proof (cases "offset < sp_next_write sp")
    case False
    then show ?thesis using 1(2) by (simp add: take_path_loop.simps [of jc os path offset])
  next
    case True
    obtain task e sp1 where rd: "read_record_at jc os offset sp = Inr ((task, e), sp1)"
      using 1(2) True by (auto simp: take_path_loop.simps [of jc os path offset] split: sum.splits)
    show ?thesis
    proof (cases "path_eq (dt_path task) path")
      case match: True
      then show ?thesis
        using 1(2) True rd by (auto simp: take_path_loop.simps [of jc os path offset] res_bind_Inr_iff dest: spill_take_stopped)
    next
      case False
      then show ?thesis using 1 True rd by (simp add: take_path_loop.simps [of jc os path offset])
    qed
  qed
qed

lemma take_first_frames: "length (frames jc (snd (take_first path ts))) \<le> length (frames jc ts)"
  by (induction ts) (auto simp: take_first_def)

lemma journal_run_succeeds:
  assumes os: "\<And>n. os n = None" and ok: "\<forall>t \<in> set (pushed ops). frame_ok jc t"
  shows "journal_holds jc s ts \<Longrightarrow> journal_charged base s \<Longrightarrow> \<not> ts_stopped (snd s) \<Longrightarrow>
    base + 2 * length (frames jc (ts @ pushed ops)) \<le> unat (ts_limit (snd s)) \<Longrightarrow> length ts + length ops < 2 ^ 64 \<Longrightarrow>
    \<exists>rs s'. journal_run jc os ops s = Inr (rs, s')"
  using ok
proof (induction ops arbitrary: s ts)
  case (Cons op1 ops)
  have h: "spill_holds jc (fst s) (snd s) ts" using Cons.prems(1) by (simp add: journal_holds_def)
  show ?case
  proof (cases op1)
    case (JournalPush t)
    have "unat (ts_used (snd s)) + length (spill_frame jc t) \<le> unat (ts_limit (snd s))"
      using Cons.prems(2,4) spill_space [OF h] JournalPush by (simp add: journal_charged_def)
    then obtain sp st where p: "spill_push jc os t (fst s) (snd s) = Inr (sp, st)"
      using spill_push_succeeds [where os = os, OF h _ os Cons.prems(3), of t] Cons.prems(5,6) JournalPush by auto
    then have "journal_push jc os t s = Inr (sp, st)" by (simp add: journal_push_def)
    moreover from this have "journal_holds jc (sp, st) (ts @ [t])" "journal_charged base (sp, st)" "ts_limit st = ts_limit (snd s)"
      using journal_step(1) [OF Cons.prems(1,2), of os t "(sp, st)"] by auto
    moreover have "ts_stopped st = ts_stopped (snd s)"
      using p by (auto simp: spill_push_def res_bind_Inr_iff Let_def rs_grow_to_def ts_reserve_Inr split: if_splits)
    ultimately show ?thesis using Cons.IH [of "(sp, st)" "ts @ [t]"] Cons.prems(3-6) JournalPush by auto
  next
    case (JournalTake path)
    obtain r s1 where t: "journal_take jc os path s = Inr (r, s1)"
      using settles_no_fault [OF spill_take_path_holds [OF h, of os path] os] by (auto simp: journal_take_def)
    note st = journal_step(2) [OF Cons.prems(1,2) t]
    have "ts_stopped (snd s1) = ts_stopped (snd s)"
      using take_path_loop_stopped [of jc os path _ "fst s" "snd s" r "fst s1" "snd s1"] t
      by (simp add: journal_take_def spill_take_path_def)
    then have "\<exists>rs s'. journal_run jc os ops s1 = Inr (rs, s')"
      using Cons.IH [of s1 "snd (take_first path ts)"] st Cons.prems(3-6) JournalTake take_first_frames [of jc path ts]
        set_take_first(3) [of path ts] by auto
    then show ?thesis using JournalTake t by auto
  qed
qed auto

text \<open>
  C20. A journal that starts empty behaves like a list of tasks.  Whatever was pushed and taken, every take
  gives the oldest task with the selected path (or none when there is none), the file holds exactly the
  tasks that are left, in order, and the storage is journal_charged at most twice their size, whatever the file
  had to move or compact.  When no file call fails, every record keeps within its limit and the storage
  has twice the size of all pushed records, no call of the sequence fails.
\<close>

theorem task_journal_refines:
  fixes os :: "'io spill_os"
  assumes "spill_new tempfile st = (Inr (sp, st0) :: ('io io_error, _) res)" "sf_bytes tempfile = []" "task_codec_ok jc"
  shows "(\<forall>rs sp' st'. journal_run jc os ops (sp, st0) = Inr (rs, sp', st') \<longrightarrow>
      rs = fst (list_run ops []) \<and>
      drop (unat (sp_next_read sp')) (sf_bytes (sp_file sp')) = frames jc (snd (list_run ops [])) \<and>
      sp_pending sp' = length (snd (list_run ops [])) \<and>
      unat (sp_reservation sp') \<le> 2 * length (frames jc (snd (list_run ops []))) \<and>
      unat (ts_used st') = unat (ts_used st) + unat (sp_reservation sp')) \<and>
    ((\<forall>n. os n = None) \<and> \<not> ts_stopped st \<and> (\<forall>t \<in> set (pushed ops). frame_ok jc t) \<and> length ops < 2 ^ 64 \<and>
      unat (ts_used st) + 2 * length (frames jc (pushed ops)) \<le> unat (ts_limit st) \<longrightarrow>
      (\<exists>rs s'. journal_run jc os ops (sp, st0) = Inr (rs, s')))"
proof -
  have h: "journal_holds jc (sp, st0) []" using spill_new_holds(1) [OF assms] by (simp add: journal_holds_def)
  have st0: "sp_reservation sp = 0" "ts_used st0 = ts_used st" "ts_limit st0 = ts_limit st" "ts_stopped st0 = ts_stopped st"
    using assms(1) by (auto simp: spill_new_def ts_reservation_def res_bind_Inr_iff ts_reserve_Inr)
  then have c: "journal_charged (unat (ts_used st)) (sp, st0)" by (simp add: journal_charged_def)
  show ?thesis
  proof (intro conjI allI impI; (elim conjE)?)
    fix rs sp' st'
    assume "journal_run jc os ops (sp, st0) = Inr (rs, sp', st')"
    note run = journal_run_list [OF h c this]
    then have sh: "spill_holds jc sp' st' (snd (list_run ops []))" by (simp add: journal_holds_def)
    show "rs = fst (list_run ops [])" using run by simp
    show "drop (unat (sp_next_read sp')) (sf_bytes (sp_file sp')) = frames jc (snd (list_run ops []))"
      "sp_pending sp' = length (snd (list_run ops []))" using sh by (simp_all add: spill_holds_def)
    show "unat (sp_reservation sp') \<le> 2 * length (frames jc (snd (list_run ops [])))" by (rule spill_space [OF sh])
    show "unat (ts_used st') = unat (ts_used st) + unat (sp_reservation sp')" using run by (simp add: journal_charged_def)
  next
    assume "\<forall>n. os n = None" "\<not> ts_stopped st" "\<forall>t \<in> set (pushed ops). frame_ok jc t" "length ops < 2 ^ 64"
      "unat (ts_used st) + 2 * length (frames jc (pushed ops)) \<le> unat (ts_limit st)"
    then show "\<exists>rs s'. journal_run jc os ops (sp, st0) = Inr (rs, s')"
      using journal_run_succeeds [of os ops jc "(sp, st0)" "[]"] h c st0 by simp
  qed
qed

theorem task_journal_refines_witness:
  "\<exists>sp' st'. journal_run plain_codec (\<lambda>_. None :: unit option) demo_ops (demo_spill, with_limit_bytes_named 1000) =
      Inr ([Some (demo_task [47, 97]), None], sp', st') \<and> sp_pending sp' = 1 \<and> unat (sp_reservation sp') \<le> 18"
proof -
  have ref: "list_run demo_ops [] = ([Some (demo_task [47, 97]), None], [demo_task [47]])" by code_simp
  have len: "length (frames plain_codec (pushed demo_ops)) = 19" "length (frames plain_codec [demo_task [47]]) = 9"
    "length demo_ops = 4" by code_simp+
  have ok: "\<forall>t \<in> set (pushed demo_ops). frame_ok plain_codec t"
    by (simp add: demo_ops_def frame_ok_def task_payload_def plain_codec_def encode_path_def demo_task_def MAX_SPILLED_TASK_BYTES_def)
  note main = task_journal_refines [where os = "\<lambda>_. None" and ops = demo_ops, OF demo_spill_new _ plain_codec_ok]
  show ?thesis
    using main ref len ok by (fastforce simp: demo_file_def with_limit_bytes_named_def)
qed

section \<open>The scheduler\<close>

text \<open>What the scanner starts its scheduler with: a coordinator without scan work, an absolute root and a new queue.\<close>

definition sched_setup :: "('io, 'j, 'b) sched_world \<Rightarrow> scan_coordinator \<Rightarrow> scan_queue \<Rightarrow> bool" where
  "sched_setup w c q \<longleftrightarrow> coord_wf c \<and> scan_pending c = {} \<and> scan_leases c = {} \<and>
     sc_session c = sw_session w \<and> sc_generation c = sw_generation w \<and> has_root (sw_root w) \<and> task_codec_ok (sw_codec w) \<and>
     (\<exists>capacity tempfile st. queue_new (sw_root w) capacity tempfile st = (Inr q :: (unit io_error, _) res) \<and> sf_bytes tempfile = [])"

lemma demo_setup: "sched_setup demo_world (sc_new [7] 1) demo_queue"
proof -
  have "has_root [47]" by code_simp
  moreover have "\<exists>capacity tempfile st. queue_new [47] capacity tempfile st = (Inr demo_queue :: (unit io_error, _) res) \<and> sf_bytes tempfile = []"
    by (intro exI [of _ 1] exI [of _ demo_file] exI [of _ "with_limit_bytes_named 1000"])
      (simp add: demo_file_def queue_new_def demo_queue_def demo_spill_new [unfolded demo_file_def])
  ultimately show ?thesis
    using coord_wf_new [of "[7]" 1] plain_codec_ok
    by (simp add: sched_setup_def demo_world_def) (simp add: sc_new_def scan_pending_def scan_leases_def active_leases_def)
qed

lemma demo_foreign: "foreign_world demo_world"
  by (simp add: foreign_world_def demo_world_def)

lemma demo_calls: "n \<le> 20 \<Longrightarrow> unat (sc_next_lease (sc_new [7] 1)) + calls demo_world n < 2 ^ 64 - 1"
proof -
  assume "n \<le> 20"
  then have "calls demo_world n \<le> calls demo_world 20" by (rule calls_mono)
  moreover have "calls demo_world 20 = 22" by (simp add: calls_def demo_world_def lessThan_nat_numeral lessThan_Suc)
  ultimately show ?thesis by (simp add: sc_new_def)
qed



lemma busy_run: "case sched_run demo_world 1 (Some (sc_new [7] 1)) demo_queue busy_inputs of
    Running s \<Rightarrow> sd_clock s \<le> 10 \<and> active_lease 0 s = Some (demo_lease 1 [] False) | _ \<Rightarrow> False"
  by code_simp

lemma queue_new_any:
  assumes "queue_new root capacity tempfile st = (Inr q :: (unit io_error, _) res)"
  shows "queue_new root capacity tempfile st = (Inr q :: ('io io_error, _) res)"
  using assms by (auto simp: queue_new_def spill_new_def ts_reservation_def res_bind_Inr_iff ts_reserve_Inr)

lemma sched_run_ok:
  fixes w :: "('io, 'j, 'b) sched_world" and inputs :: "(sched_flags \<times> 'p sched_event) list"
  assumes "sched_setup w c q" "foreign_world w"
    "unat (sc_next_lease c) + calls w (sd_clock (state_of (sched_run w workers (Some c) q inputs))) < 2 ^ 64 - 1"
  shows "state_ok w (unat (sc_next_lease c)) (sched_run w workers (Some c) q inputs)"
proof -
  let ?b = "unat (sc_next_lease c)" and ?st = "sched_start w workers workers (Some c) q :: ('io, 'j, 'b, 'p) sched_state"
  have ids: "ids_left w ?b (state_of (sched_loop w inputs ?st))" using assms(3) by (simp add: ids_left_def sched_run_def)
  obtain capacity tempfile st where new: "queue_new (sw_root w) capacity tempfile st = (Inr q :: (unit io_error, _) res)" "sf_bytes tempfile = []"
    using assms(1) by (auto simp: sched_setup_def)
  note q = queue_new_any [OF new(1), where 'io = 'io] new(2)
  have "ids_left w ?b (state_of ?st)" by (rule ids_left_mono [OF ids sched_loop_clock])
  then have "state_ok w ?b ?st" using assms(1,2) q by (intro sched_start_ok) (simp_all add: sched_setup_def)
  then show ?thesis unfolding sched_run_def
    using assms(1,2) ids by (intro sched_loop_ok) (simp_all add: sched_setup_def)
qed





text \<open>
  C19. A worker whose root was found invalid cannot hand in its lease.  In any state of a run, when the
  root flag is seen set and the next command is the completion of a lease that is still active, the
  coordinator has already dropped the lease, so the round ends the scheduler with a rejected completion
  and the failed flag set, not with the quiet end that waits for the active leases.
\<close>

theorem root_invalidation_rejects_completion:
  assumes start: "sched_setup w c q" "foreign_world w"
    and run: "sched_run w workers (Some c) q inputs = Running s"
    and flags: "fl_root_invalid flags" "\<not> fl_cancelled flags" "\<not> fl_failed flags"
    and lease: "active_lease worker s = Some lease"
    and ids: "unat (sc_next_lease c) + calls w (Suc (Suc (sd_clock s))) < 2 ^ 64 - 1"
  shows "\<exists>s'. sched_iterate w flags (SelComplete worker lease completion []) s = Ended (ExitError CompletionRejected) s' \<and> sd_failed s'"
proof -
  let ?b = "unat (sc_next_lease c)" and ?s = "round_start w flags s"
  have ids0: "?b + calls w (sd_clock s) < 2 ^ 64 - 1" using ids calls_mono [of "sd_clock s" "Suc (Suc (sd_clock s))" w] by simp
  have ok: "sched_ok w ?b s" using sched_run_ok [OF start, of workers inputs] run ids0 by simp
  have clk: "sd_clock ?s \<le> Suc (sd_clock s)" by (simp add: round_start_def)
  have "ids_left w ?b ?s" using ids calls_mono [of "sd_clock ?s" "Suc (Suc (sd_clock s))" w] clk by (simp add: ids_left_def)
  note rs = round_start_ok [OF ok start(2) this]
  have inv: "sd_root_invalidated ?s" using rs(2) flags(1) by simp
  have act: "active_lease worker ?s = Some lease"
    using lease coordinate_unit_coordinated [of s w session_invalidate_scan_work]
    by (simp add: round_start_def active_lease_def coordinated_def split: if_splits)
  then have at: "worker < length (sd_active ?s)" "sd_active ?s ! worker = Some lease" by (simp_all add: active_lease_Some)
  have busy: "\<not> all_idle ?s" using busy_nth [OF at] by (auto simp: all_idle_busy)
  obtain r2 s2 where cl: "complete_lease w worker lease completion ?s = (r2, s2)" by fastforce
  obtain r3 s3 where co: "coordinate w (session_finish lease completion) ?s = (r3, s3)" by fastforce
  have st: "sched_iterate w flags (SelComplete worker lease completion []) s =
      (case r2 of Inl e \<Rightarrow> sched_fail w e s2 | Inr _ \<Rightarrow> Running s2)"
    using flags inv busy at(1) cl by (simp add: sched_iterate_eq Let_def sched_select_def)
  obtain ts where si: "sched_inv w ?b ?s ts" using rs(1) by (auto simp: sched_ok_def)
  then obtain P where sees: "sees w ?b ?s P {}" and enum: "is_enumeration (wl_key lease)"
    using inv busy_nth [OF at] by (auto simp: sched_inv_def)
  have "sd_clock s3 \<le> Suc (Suc (sd_clock s))" using coordinate_clock [OF co] clk by simp
  then have "ids_left w ?b s3" using ids calls_mono [of "sd_clock s3" "Suc (Suc (sd_clock s))" w] by (simp add: ids_left_def)
  then obtain out where "r3 = Inr out" "out \<noteq> Accepted" using finish_call [OF co sees start(2) _ enum] by auto
  then have "r2 = Inl CompletionRejected" using cl co act by (simp add: complete_lease_def)
  then show ?thesis using st by (simp add: sched_fail_def Let_def act_def tick_def)
qed

theorem root_invalidation_rejects_completion_witness:
  "\<exists>s s'. sched_run demo_world 1 (Some (sc_new [7] 1)) demo_queue busy_inputs = Running s \<and>
     sched_iterate demo_world (demo_flags\<lparr>fl_root_invalid := True\<rparr>) (SelComplete 0 (demo_lease 1 [] False) Succeeded []) s =
       Ended (ExitError CompletionRejected) s' \<and> sd_failed s'"
proof -
  obtain s where s: "sched_run demo_world 1 (Some (sc_new [7] 1)) demo_queue busy_inputs = Running s" "sd_clock s \<le> 10"
      "active_lease 0 s = Some (demo_lease 1 [] False)"
    using busy_run by (auto split: sched_state.splits)
  then show ?thesis
    using root_invalidation_rejects_completion [OF demo_setup demo_foreign s(1), of "demo_flags\<lparr>fl_root_invalid := True\<rparr>" 0
        "demo_lease 1 [] False" Succeeded] demo_calls [of "Suc (Suc (sd_clock s))"]
    by (simp add: demo_flags_def)
qed

end
