(* ===== verification/Spec2Isabelle.thy ===== *)
theory Spec2Isabelle
  imports Coordinator_Theorems Actor_Theorems Codec_Theorems Run_Theorems Reduction_Theorems Storage_Theorems
    Deletion_Theorems Query_Theorems Index_Theorems Scheduler_Theorems
begin

text \<open>
  A verification library for excise, a terminal program that scans a directory tree, shows where the
  space goes and deletes what the user selects (\<open>src/src\<close>).  It covers the deterministic core: the
  scheduling of scan and deletion work, the private on-disk store of a scan, and the reductions that
  turn observations into the totals that are shown, and the queries that answer from them.

  \<^bold>\<open>How the parts interact.\<close>  Scanner workers and the deletion lane ask one private actor for
  work.  The actor owns a coordinator that keeps pending work, hands out leases and accepts each
  completion once.  What a scan finds is written as records to sorted runs, files framed in
  checksummed blocks and charged to a storage quota.  Runs are merged, the path run is reduced to one
  summary per directory, the identity run to one allocation per file, and a manifest records which runs
  a scan result retains and which state it has reached.

  \<^bold>\<open>Theories.\<close>
  \<^item> \<open>Excise_Prelude\<close>: results as sums, machine integers with checked and saturating arithmetic,
    bytes, orderings.  \<open>Ordered_Map\<close>: the ordered maps and sets of the standard library, with
    the locale \<open>ordered_map\<close>.  \<open>Quota\<close>: the locale of everything that is taken and
    given back under a limit.
  \<^item> \<open>Relative_Path\<close>, \<open>Ready_Queues\<close>, \<open>Scan_Coordinator\<close> model
    \<open>scan_coordinator_core.rs\<close>: a path is its list of components, a work key, lease and
    queue entry are records, the coordinator is one record with the fields of the struct, and each
    method is a function from state to result and state.  \<open>Ready_Queues\<close> shows that the two
    indexes of the queues answer as the reference search does (locale \<open>ready_queue\<close>).
    \<open>Coordinator_Invariant\<close> and \<open>Coordinator_Properties\<close> hold the invariant of the
    coordinator under every operation and what each operation does;
    \<open>Coordinator_Theorems\<close> states them.
  \<^item> \<open>Session_Actor\<close> models \<open>scan_coordinator.rs\<close> and the lifecycle of
    \<open>scan_session.rs\<close>: the commands, the actor's loop and the client calls.
    \<open>Lease_Ledger\<close> is what clients can rely on: the abstraction of a coordinator to a ledger of
    pending keys and granted leases, the answers the ledger allows, and the refinement of it by every
    command.  \<open>Scan_Manifest\<close> models \<open>scan_store/manifest.rs\<close> and the sequences of manifest
    calls in \<open>scan_store/session.rs\<close>.  \<open>Actor_Theorems\<close> states the contract of the actor for any
    sequence of commands, and what a manifest goes through.
  \<^item> \<open>Task_Spill\<close>, \<open>Task_Queue\<close> and \<open>Scan_Scheduler\<close> model
    \<open>runtime/scanner/task_spill.rs\<close>, \<open>task_queue.rs\<close> and \<open>scheduler.rs\<close>: the journal file of
    directory tasks, the bounded queue over it (locales \<open>directory_queue\<close> and \<open>task_journal\<close>), and
    the loop that admits directories through the session actor and leases them to workers.
    \<open>Task_Spill_Spec\<close> describes a journal file as a list of tasks, \<open>Scan_Work_View\<close> what each command
    does to the scan work of a coordinator, \<open>Scan_Scheduler_Spec\<close> the scheduler's invariant;
    \<open>Scheduler_Theorems\<close> states that no directory is lost, what its errors come from, and that the
    journal is a list.
  \<^item> \<open>Deletion_Progress\<close> and \<open>Deletion_Work\<close> model \<open>state/deletion_work.rs\<close> and
    \<open>state/file_to_delete.rs\<close>: the atomic state for which a deletion and a stop request race, and
    the rail of deletions on top of the actor's client calls.  \<open>Lease_Service\<close> is the contract
    between the two (locale \<open>lease_service\<close>), which the actor provides.
    \<open>Deletion_Invariant\<close> makes the lane a step relation, with other clients and the executor as
    its environment, and \<open>Deletion_Lane\<close> shows its invariant; \<open>Deletion_Theorems\<close> states
    that nothing is planned or deleted without consent (which the code asks for before it plans, and
    \<open>docs/safety/deletion.md\<close> after), that targets never overlap, that every item with a worker is
    backed by an active lease, and that stopping and mutating exclude each other.
  \<^item> \<open>Model_Types\<close>, \<open>Path_Key\<close>, \<open>File_Id_Codec\<close>,
    \<open>Summary_Metrics_Codec\<close>, \<open>Path_Observation\<close> model the measurements and record
    codecs of \<open>model/types.rs\<close>, \<open>scan_store/path_key.rs\<close>, \<open>file_id_codec.rs\<close>,
    \<open>scan_store/summary_metrics.rs\<close> and \<open>scan_store/path_observation.rs\<close>;
    \<open>Codec_Theorems\<close> holds the round trips, the order of encoded keys and one encoding that is
    accepted though nothing encodes to it.
  \<^item> \<open>Run_File\<close> and \<open>Run_Merge\<close> model \<open>scan_store/run_file.rs\<close> and
    \<open>scan_store/run_merge.rs\<close>.  \<open>Run_File_Spec\<close> gives the canonical bytes of a run and
    the states of writer and reader that belong to them, \<open>Run_Range_Spec\<close> the range reader,
    \<open>Run_Quota\<close> the space a run needs of the storage quota; \<open>Run_Theorems\<close> states that
    records survive, what a pass refuses, and that merging is sorting.
  \<^item> \<open>Path_Reducer\<close> models \<open>scan_store/path_reducer.rs\<close>.  \<open>Path_Reducer_Spec\<close>
    gives the reference, a total in a commutative monoid of contributions, and the invariant of the
    stack.  \<open>Directory_Summary\<close> and \<open>Summary_Pipeline\<close> model and compose
    \<open>scan_store/directory_summary.rs\<close>, \<open>Identity_Observation\<close> and
    \<open>Identity_Reduction\<close> \<open>scan_store/identity_observation.rs\<close>.
    \<open>Reduction_Theorems\<close> shows, from sealed run to sealed run, that the passes write exactly the
    reference.
  \<^item> \<open>Scan_Page\<close>, \<open>Page_Record\<close> and \<open>Page_Query\<close> model \<open>scan_store/page.rs\<close>: requests,
    cursors and pages, the live page of a scan in progress, the stored headers and entries with their
    codecs and keys, and the page, filtered and single-entry queries of a published generation.
    \<open>Run_Scan\<close> is the loop over a range reader that all of them use, \<open>Provisional_Page\<close> relates a
    live page to everything it observed, \<open>Page_Query_Spec\<close> and \<open>Page_Filter_Spec\<close> describe a run by
    its items and every query as an expression over them.  \<open>Path_Catalog\<close> models
    \<open>scan_store/path_catalog.rs\<close> and \<open>Folder_Digest\<close> \<open>scan_store/folder_digest.rs\<close>.
    \<open>Query_Theorems\<close> states that paging reads every child once and in order, what every query
    answers and refuses, that filtering is filtering, and that the catalogue finds every path.
  \<^item> \<open>Page_Index\<close> models the part of \<open>scan_store/page.rs\<close> that builds the child-query run at
    publication: four batched passes that put observations, identities, summaries and allocations into a
    table of an embedded database, a pass that copies the table under the keys of the pages, and the
    output.  \<open>Page_Index_Spec\<close> has the promises of the database and a calculus of refinement between the
    code on tables and the facts as maps; \<open>Page_Facts\<close> gives the facts in closed form, when they are
    consistent, and the invariant that a directory's row agrees with its header.  \<open>Index_Theorems\<close> states
    the refinement and, together with the queries, what a published generation answers.
  \<^item> \<open>Temporary_Storage\<close> models \<open>temporary_storage.rs\<close>, the quota both as operations and as
    a step relation with one atomic access per step, and the file backend charged to it;
    \<open>Memory_Budget\<close> models \<open>model/memory.rs\<close>.  \<open>Storage_Theorems\<close> shows that
    the counter is the sum of the reservations and that the accounting panic is unreachable.

  \<^bold>\<open>Conventions.\<close>  A fallible function returns \<open>('e, 'a) res\<close>, a sum with the error
  on the left; errors carry the constructors of the source.  An \<open>expect\<close>, \<open>panic!\<close> or
  \<open>unreachable!\<close> of the source is an error of its own, and theorems show that it does not occur.
  Integers of fixed width are words; \<open>usize\<close> lengths are natural numbers with the bound
  \<open>2 ^ 64\<close> written out where the code checks it.  Paths are unix paths.  Every loop is a
  structurally recursive or a terminating function.  The one number of rounds, in \<open>all_pages\<close>, stands
  for a client that asks for page after page, and \<open>pages_complete\<close> shows how many suffice.

  \<^bold>\<open>Parameters.\<close>  SHA-256 is an arbitrary function whose digests have 32 bytes: no theorem
  relies on collisions being hard to find.  Growing a file, the check that a session is still running,
  file calls and the memory and free space of the machine are arguments, as are the outcomes of channel
  operations, the stop flags and the order in which a channel delivers commands.  JSON and base64 are
  codecs that read back what they write (\<open>task_codec_ok\<close>).  The embedded database is a record of
  operations, each of which may fail, and \<open>redb_laws\<close> says what one that succeeds has done.
  Theorems that read a run back assume that the session is not stopped meanwhile, and runs that evaluate
  concrete instances discharge these assumptions.  Lease identifiers saturate at \<open>2 ^ 64 - 1\<close> in
  the source, so the theorems on leases hold for fewer than \<open>2 ^ 64\<close> operations;
  \<open>lane_reachable\<close> counts down the steps that are left for the same reason, also for the
  identifiers of deletions, which wrap around, and the theorems on the scheduler bound the coordinator
  calls of a run (\<open>calls\<close>).

  \<^bold>\<open>Not modelled.\<close>  Reading directories (the scanner's workers), deleting files, signals,
  threads being started and joined, the terminal and everything drawn on it are effects of the operating
  system or of third-party libraries.  Hints without an effect on results, such as the cache size of the
  database, are left out.  The glob matcher of a filter belongs to a library and is an argument of the
  filtered page.  The store session that decides when to spill and merge and the tree view of the
  navigator are deterministic and left for later extensions.  The squarified layout computes in floating
  point.  The measurement harness, the fuzz targets and the build tasks are tooling around the program.
\<close>

end
